(* ===== verification/Prelude.thy ===== *)
theory Prelude
  imports Main "HOL-Library.Word"
begin

text \<open>
  Shared vocabulary of the development: the machine types of the platform the C code is
  compiled for (64-bit \<^verbatim>\<open>size_t\<close> and pointers, little-endian, 8-bit bytes), byte (de)composition
  of words, and generic lemmas about lists and words that the component theories use.
\<close>

unbundle bit_operations_syntax

type_synonym byte = "8 word"
type_synonym uint16 = "16 word"
type_synonym uint32 = "32 word"
type_synonym uint64 = "64 word"
type_synonym size_t = "64 word"
type_synonym ptr = "64 word"
type_synonym memory = "64 word \<Rightarrow> 8 word"

text \<open>Collections: \<open>wordsimps\<close> moves unsigned machine arithmetic to \<open>nat\<close>;
  \<open>listsimps\<close> normalises array slices.\<close>

named_theorems wordsimps
named_theorems listsimps

section \<open>Unsigned machine arithmetic\<close>

lemma unat_lt: "unat (a :: 'a::len word) < 2 ^ LENGTH('a)"
  by (rule unsigned_less)

lemma unat_add_no_wrap [wordsimps]:
  fixes a b :: "'a::len word"
  assumes "unat a + unat b < 2 ^ LENGTH('a)"
  shows "unat (a + b) = unat a + unat b"
  using assms by (simp add: unat_word_ariths)

lemma unat_sub_le [wordsimps]:
  fixes a b :: "'a::len word"
  assumes "b \<le> a"
  shows "unat (a - b) = unat a - unat b"
  using assms by (rule unat_sub)

text \<open>C's overflow test \<open>a + b < a\<close> holds exactly when the sum does not fit.\<close>

lemma overflow_test [wordsimps]:
  fixes a b :: "'a::len word"
  shows "a + b < a \<longleftrightarrow> 2 ^ LENGTH('a) \<le> unat a + unat b"
proof
  assume "a + b < a"
  show "2 ^ LENGTH('a) \<le> unat a + unat b"
  proof (rule ccontr)
    assume "\<not> 2 ^ LENGTH('a) \<le> unat a + unat b"
    then have "unat (a + b) = unat a + unat b"
      by (simp add: unat_add_no_wrap)
    with \<open>a + b < a\<close> show False
      by (simp add: word_less_nat_alt)
  qed
next
  assume h: "2 ^ LENGTH('a) \<le> unat a + unat b"
  have "unat (a + b) = (unat a + unat b) mod 2 ^ LENGTH('a)"
    by (rule unat_word_ariths)
  also have "\<dots> = (unat a + unat b - 2 ^ LENGTH('a)) mod 2 ^ LENGTH('a)"
    using h by (rule le_mod_geq)
  also have "\<dots> \<le> unat a + unat b - 2 ^ LENGTH('a)"
    by (rule mod_less_eq_dividend)
  also have "\<dots> < unat a"
    using h unat_lt [of b] by linarith
  finally show "a + b < a"
    by (simp only: word_less_nat_alt)
qed

lemma unat_of_nat_small [wordsimps]:
  "n < 2 ^ LENGTH('a) \<Longrightarrow> unat (word_of_nat n :: 'a::len word) = n"
  by (simp add: unat_of_nat take_bit_nat_eq_self)

lemma word_of_natI: "unat (w :: 'a::len word) = n \<Longrightarrow> w = word_of_nat n"
  by auto

lemma unat_drop_bit [wordsimps]: "unat (drop_bit n (a :: 'a::len word)) = unat a div 2 ^ n"
  by (simp only: unat_drop_bit_eq) (simp add: drop_bit_eq_div)

lemma unat_ucast_up [wordsimps]:
  "LENGTH('a) \<le> LENGTH('b) \<Longrightarrow> unat (ucast (w :: 'a::len word) :: 'b::len word) = unat w"
  by (metis take_bit_nat_eq_self unat_lt unsigned_ucast_eq order_less_le_trans power_increasing one_le_numeral)

lemma ucast_ucast_up: "(ucast (ucast (v :: uint32) :: uint64) :: uint32) = v"
  by (rule bit_eqI) (auto simp: bit_simps)

text \<open>Masks and single bits as they occur in the code.\<close>

lemma and_7F: "(x :: 'a::len word) AND 0x7F = take_bit 7 x"
  by (simp add: take_bit_eq_mask mask_eq_exp_minus_1)

lemma and_FF: "(x :: 'a::len word) AND 0xFF = take_bit 8 x"
  by (simp add: take_bit_eq_mask mask_eq_exp_minus_1)

lemma and_80_eq_0: "(x :: byte) AND 0x80 = 0 \<longleftrightarrow> \<not> bit x 7"
proof -
  have "(0x80 :: byte) = push_bit 7 1" by simp
  then show ?thesis
    by (simp only: and_exp_eq_0_iff_not_bit [symmetric] push_bit_eq_mult) simp
qed

lemma unat_take_bit [wordsimps]: "unat (take_bit n (a :: 'a::len word)) = unat a mod 2 ^ n"
  by (simp only: unsigned_take_bit_eq) (simp add: take_bit_eq_mod)

lemma take_bit_small: "unat (w :: 'a::len word) < 2 ^ k \<Longrightarrow> take_bit k w = w"
  by (simp add: word_unat_eq_iff unat_take_bit)

text \<open>Reassembling a word from its low bits and the next field.\<close>

lemma take_bit_join:
  fixes v :: "'a::len word"
  shows "take_bit k v OR push_bit k (take_bit m (drop_bit k v)) = take_bit (k + m) v"
  by (rule bit_eqI) (auto simp: bit_simps)

lemma take_bit_joins:
  fixes v :: "'a::len word"
  shows "take_bit 8 v OR push_bit 8 (take_bit 8 (drop_bit 8 v)) = take_bit 16 v"
    "take_bit 16 v OR push_bit 16 (take_bit 8 (drop_bit 16 v)) = take_bit 24 v"
    "take_bit 24 v OR push_bit 24 (take_bit 8 (drop_bit 24 v)) = take_bit 32 v"
    "take_bit 32 v OR push_bit 32 (take_bit 8 (drop_bit 32 v)) = take_bit 40 v"
    "take_bit 40 v OR push_bit 40 (take_bit 8 (drop_bit 40 v)) = take_bit 48 v"
    "take_bit 48 v OR push_bit 48 (take_bit 8 (drop_bit 48 v)) = take_bit 56 v"
    "take_bit 56 v OR push_bit 56 (take_bit 8 (drop_bit 56 v)) = take_bit 64 v"
  using take_bit_join [of _ v 8] by (simp_all del: push_bit_numeral)

lemma ucast_byte_ucast:
  fixes v :: "'a::len word"
  assumes "8 \<le> LENGTH('a)"
  shows "(ucast (ucast (v AND 0xFF) :: byte) :: 'a word) = take_bit 8 v"
  unfolding and_FF by (rule bit_eqI) (use assms in \<open>auto simp: bit_simps\<close>)

text \<open>A property of all bytes is a finite check.\<close>

lemma all_byte_iff:
  "(\<forall>x::byte. P x) \<longleftrightarrow> list_all (\<lambda>n. P (word_of_nat n)) [0..<256]"
proof
  assume "\<forall>x::byte. P x"
  then show "list_all (\<lambda>n. P (word_of_nat n)) [0..<256]"
    by (simp add: list_all_iff)
next
  assume h: "list_all (\<lambda>n. P (word_of_nat n)) [0..<256]"
  show "\<forall>x::byte. P x"
  proof
    fix x :: byte
    have "unat x < 256"
      using unat_lt [of x] by simp
    then have "unat x \<in> set [0..<256]" by simp
    with h [unfolded list_all_iff] have "P (word_of_nat (unat x))"
      by (rule bspec)
    then show "P x" by simp
  qed
qed

section \<open>Array slices\<close>

text \<open>\<open>put_at xs i ys\<close> is the array \<open>xs\<close> after \<open>ys\<close> was stored at index \<open>i\<close>.\<close>

definition put_at :: "'a list \<Rightarrow> nat \<Rightarrow> 'a list \<Rightarrow> 'a list" where
  "put_at xs i ys = take i xs @ ys @ drop (i + length ys) xs"

lemma length_put_at [simp, listsimps]:
  "i + length ys \<le> length xs \<Longrightarrow> length (put_at xs i ys) = length xs"
  by (simp add: put_at_def)

lemma put_at_Nil [simp, listsimps]: "put_at xs i [] = xs"
  by (simp add: put_at_def)

lemma take_put_at [listsimps]:
  "i \<le> length xs \<Longrightarrow> take (i + length ys) (put_at xs i ys) = take i xs @ ys"
  by (simp add: put_at_def)

lemma drop_put_at [listsimps]:
  "i + length ys \<le> length xs \<Longrightarrow> drop (i + length ys) (put_at xs i ys) = drop (i + length ys) xs"
  by (simp add: put_at_def)

lemma put_at_put_at [listsimps]:
  assumes "i + length ys + length zs \<le> length xs"
  shows "put_at (put_at xs i ys) (i + length ys) zs = put_at xs i (ys @ zs)"
  using assms by (simp add: put_at_def ac_simps)

section \<open>Words in memory\<close>

text \<open>A copy of four bytes to and from a 32-bit word.\<close>

definition load32_le :: "byte list \<Rightarrow> uint32" where
  "load32_le m = foldr (\<lambda>b acc. ucast b + 0x100 * acc) (take 4 m) 0"

definition store32_le :: "uint32 \<Rightarrow> byte list" where
  "store32_le v = [ucast v, ucast (drop_bit 8 v), ucast (drop_bit 16 v), ucast (drop_bit 24 v)]"

text \<open>The number with these digits of base 256, the least significant first.\<close>

fun le_nat :: "byte list \<Rightarrow> nat" where
  "le_nat [] = 0"
| "le_nat (b # bs) = unat b + 256 * le_nat bs"

end
