(* ===== verification/PbStream.thy ===== *)
theory PbStream
  imports Prelude
begin

text \<open>
  nanopb's input and output streams: \<^verbatim>\<open>pb_ostream_t\<close> and \<^verbatim>\<open>pb_istream_t\<close> with their buffer
  callbacks \<^verbatim>\<open>buf_write\<close> and \<^verbatim>\<open>buf_read\<close>, and \<^verbatim>\<open>pb_write\<close>, \<^verbatim>\<open>pb_read\<close>, \<^verbatim>\<open>pb_readbyte\<close>
  (pb_encode.c, pb_decode.c, pb.h).

  A pointer into an array is the array together with an offset, so \<^verbatim>\<open>stream->state\<close> is the pair of
  fields \<open>_buf\<close> and \<open>_pos\<close>. An access outside the array is undefined behaviour in C; the model
  records it in the flag \<open>_ub\<close>, which no operation ever clears, and the theorems show that it is
  never set. A callback other than the library's own is named by a number and is a parameter of
  the model: by the rules stated in pb_encode.h and pb_decode.h it only changes the \<^verbatim>\<open>state\<close> of
  its stream.
\<close>

section \<open>Stream types\<close>

type_synonym bufptr = "byte list \<times> nat"

datatype ocallback = OCB_NULL | OCB_buf_write | OCB_user nat
datatype icallback = ICB_buf_read | ICB_user nat

record pb_ostream_t =
  o_callback :: ocallback
  o_buf :: "byte list"
  o_pos :: nat
  max_size :: size_t
  bytes_written :: size_t
  o_errmsg :: "string option"
  o_ub :: bool

record pb_istream_t =
  i_callback :: icallback
  i_buf :: "byte list"
  i_pos :: nat
  bytes_left :: size_t
  i_errmsg :: "string option"
  i_ub :: bool

text \<open>The caller's stream callbacks (a parameter of every operation that may call one).\<close>

record pb_io =
  user_write :: "nat \<Rightarrow> bufptr \<Rightarrow> byte list \<Rightarrow> bool \<times> bufptr"
  user_read :: "nat \<Rightarrow> bufptr \<Rightarrow> size_t \<Rightarrow> bool \<times> bufptr \<times> byte list"

text \<open>\<^verbatim>\<open>PB_SET_ERROR\<close> keeps the first message.\<close>

definition pb_set_error :: "string option \<Rightarrow> string \<Rightarrow> string option" where
  "pb_set_error old msg = (case old of Some e \<Rightarrow> Some e | None \<Rightarrow> Some msg)"

definition o_return_error :: "pb_ostream_t \<Rightarrow> string \<Rightarrow> bool \<times> pb_ostream_t" where
  "o_return_error s msg = (False, s\<lparr>o_errmsg := pb_set_error (o_errmsg s) msg\<rparr>)"

definition i_set_error :: "pb_istream_t \<Rightarrow> string \<Rightarrow> pb_istream_t" where
  "i_set_error s msg = s\<lparr>i_errmsg := pb_set_error (i_errmsg s) msg\<rparr>"

section \<open>Output streams\<close>

definition buf_write :: "pb_ostream_t \<Rightarrow> byte list \<Rightarrow> size_t \<Rightarrow> bool \<times> pb_ostream_t" where
  "buf_write s buf count =
     (let n = unat count in
      if n \<le> length buf \<and> o_pos s + n \<le> length (o_buf s)
      then (True, s\<lparr>o_buf := put_at (o_buf s) (o_pos s) (take n buf), o_pos := o_pos s + n\<rparr>)
      else (True, s\<lparr>o_pos := o_pos s + n, o_ub := True\<rparr>))"

definition pb_ostream_from_buffer :: "byte list \<Rightarrow> size_t \<Rightarrow> pb_ostream_t" where
  "pb_ostream_from_buffer buf bufsize =
     \<lparr>o_callback = OCB_buf_write, o_buf = buf, o_pos = 0, max_size = bufsize,
      bytes_written = 0, o_errmsg = None, o_ub = False\<rparr>"

definition PB_OSTREAM_SIZING :: pb_ostream_t where
  "PB_OSTREAM_SIZING =
     \<lparr>o_callback = OCB_NULL, o_buf = [], o_pos = 0, max_size = 0,
      bytes_written = 0, o_errmsg = None, o_ub = False\<rparr>"

definition call_write ::
    "pb_io \<Rightarrow> pb_ostream_t \<Rightarrow> byte list \<Rightarrow> size_t \<Rightarrow> bool \<times> pb_ostream_t" where
  "call_write io s buf count =
     (case o_callback s of
        OCB_NULL \<Rightarrow> (True, s\<lparr>o_ub := True\<rparr>)
      | OCB_buf_write \<Rightarrow> buf_write s buf count
      | OCB_user k \<Rightarrow>
          (case user_write io k (o_buf s, o_pos s) (take (unat count) buf) of
             (ok, (b, p)) \<Rightarrow> (ok, s\<lparr>o_buf := b, o_pos := p\<rparr>)))"

definition pb_write ::
    "pb_io \<Rightarrow> pb_ostream_t \<Rightarrow> byte list \<Rightarrow> size_t \<Rightarrow> bool \<times> pb_ostream_t" where
  "pb_write io s buf count =
     (if count > 0 \<and> o_callback s \<noteq> OCB_NULL then
        if bytes_written s + count < bytes_written s \<or> bytes_written s + count > max_size s
        then o_return_error s ''stream full''
        else (case call_write io s buf count of
                (ok, s') \<Rightarrow>
                  if \<not> ok then o_return_error s' ''io error''
                  else (True, s'\<lparr>bytes_written := bytes_written s' + count\<rparr>))
      else (True, s\<lparr>bytes_written := bytes_written s + count\<rparr>))"

section \<open>Input streams\<close>

definition buf_read :: "pb_istream_t \<Rightarrow> size_t \<Rightarrow> bool \<times> pb_istream_t \<times> byte list" where
  "buf_read s count =
     (let n = unat count in
      (True,
       s\<lparr>i_pos := i_pos s + n, i_ub := (i_ub s \<or> length (i_buf s) < i_pos s + n)\<rparr>,
       take n (drop (i_pos s) (i_buf s))))"

definition call_read :: "pb_io \<Rightarrow> pb_istream_t \<Rightarrow> size_t \<Rightarrow> bool \<times> pb_istream_t \<times> byte list" where
  "call_read io s count =
     (case i_callback s of
        ICB_buf_read \<Rightarrow> buf_read s count
      | ICB_user k \<Rightarrow>
          (case user_read io k (i_buf s, i_pos s) count of
             (ok, (b, p), d) \<Rightarrow> (ok, s\<lparr>i_buf := b, i_pos := p\<rparr>, d)))"

text \<open>\<^verbatim>\<open>pb_read\<close> on a stream and buffer that the skipping branch does not apply to: the check of
  \<^verbatim>\<open>bytes_left\<close>, the callback, the update of \<^verbatim>\<open>bytes_left\<close>. The third component of the result is
  what the call stored in \<^verbatim>\<open>buf\<close>.\<close>

definition pb_read_buf :: "pb_io \<Rightarrow> pb_istream_t \<Rightarrow> size_t \<Rightarrow> bool \<times> pb_istream_t \<times> byte list" where
  "pb_read_buf io s count =
     (if count = 0 then (True, s, [])
      else if bytes_left s < count then (False, i_set_error s ''end-of-stream'', [])
      else (case call_read io s count of
              (ok, s', d) \<Rightarrow>
                if \<not> ok then (False, i_set_error s' ''io error'', d)
                else (True, s'\<lparr>bytes_left := bytes_left s' - count\<rparr>, d)))"

text \<open>The branch of \<^verbatim>\<open>pb_read\<close> that skips input of a stream whose callback cannot skip
  (\<^verbatim>\<open>buf == NULL\<close>): reads into a scratch buffer, 16 bytes at a time.\<close>

function pb_read_skip :: "pb_io \<Rightarrow> pb_istream_t \<Rightarrow> size_t \<Rightarrow> bool \<times> pb_istream_t" where
  "pb_read_skip io s count =
     (if count > 16 then
        (case pb_read_buf io s 16 of
           (ok, s', d) \<Rightarrow> if \<not> ok then (False, s') else pb_read_skip io s' (count - 16))
      else (case pb_read_buf io s count of (ok, s', d) \<Rightarrow> (ok, s')))"
  by pat_completeness auto
termination
  by (relation "measure (\<lambda>(io, s, count). unat count)")
     (auto simp: unat_sub word_le_nat_alt word_less_nat_alt)

declare pb_read_skip.simps [simp del]

text \<open>\<^verbatim>\<open>pb_read(stream, buf, count)\<close>; \<open>want\<close> is \<^verbatim>\<open>buf != NULL\<close>.\<close>

definition pb_read ::
    "pb_io \<Rightarrow> pb_istream_t \<Rightarrow> bool \<Rightarrow> size_t \<Rightarrow> bool \<times> pb_istream_t \<times> byte list" where
  "pb_read io s want count =
     (if count = 0 then (True, s, [])
      else if \<not> want \<and> i_callback s \<noteq> ICB_buf_read
           then (case pb_read_skip io s count of (ok, s') \<Rightarrow> (ok, s', []))
      else pb_read_buf io s count)"

definition pb_readbyte :: "pb_io \<Rightarrow> pb_istream_t \<Rightarrow> bool \<times> pb_istream_t \<times> byte" where
  "pb_readbyte io s =
     (if bytes_left s = 0 then (False, i_set_error s ''end-of-stream'', 0)
      else (case call_read io s 1 of
              (ok, s', d) \<Rightarrow>
                if \<not> ok then (False, i_set_error s' ''io error'', hd (d @ [0]))
                else (True, s'\<lparr>bytes_left := bytes_left s' - 1\<rparr>, hd (d @ [0]))))"

definition pb_istream_from_buffer :: "byte list \<Rightarrow> size_t \<Rightarrow> pb_istream_t" where
  "pb_istream_from_buffer buf bufsize =
     \<lparr>i_callback = ICB_buf_read, i_buf = buf, i_pos = 0, bytes_left = bufsize,
      i_errmsg = None, i_ub = False\<rparr>"

section \<open>Contracts of the buffer streams\<close>

text \<open>\<open>i_avail\<close> are the bytes a buffer stream has left, \<open>i_adv\<close> the stream after \<open>n\<close> of them were
  consumed; in a well-formed stream they all lie inside the array.\<close>

definition istream_ok :: "pb_istream_t \<Rightarrow> bool" where
  "istream_ok s \<longleftrightarrow> i_callback s = ICB_buf_read \<and> \<not> i_ub s \<and>
     i_pos s + unat (bytes_left s) \<le> length (i_buf s)"

definition i_avail :: "pb_istream_t \<Rightarrow> byte list" where
  "i_avail s = take (unat (bytes_left s)) (drop (i_pos s) (i_buf s))"

definition i_adv :: "pb_istream_t \<Rightarrow> nat \<Rightarrow> pb_istream_t" where
  "i_adv s n = s\<lparr>i_pos := i_pos s + n, bytes_left := bytes_left s - word_of_nat n\<rparr>"

lemma length_i_avail: "istream_ok s \<Longrightarrow> length (i_avail s) = unat (bytes_left s)"
  by (auto simp: istream_ok_def i_avail_def min_def)

lemma unat_bytes_left_adv:
  assumes "istream_ok s" and "n \<le> length (i_avail s)"
  shows "unat (bytes_left s - word_of_nat n) = unat (bytes_left s) - n"
proof -
  have le: "n \<le> unat (bytes_left s)"
    using assms by (simp add: length_i_avail)
  then have "n < 2 ^ 64"
    using unat_lt [of "bytes_left s"] by simp
  then have "unat (word_of_nat n :: size_t) = n"
    by (simp add: unat_of_nat_small)
  with le show ?thesis
    by (simp add: unat_sub word_le_nat_alt)
qed

lemma istream_ok_adv [intro]:
  assumes "istream_ok s" and "n \<le> length (i_avail s)"
  shows "istream_ok (i_adv s n)"
  using assms unat_bytes_left_adv [OF assms] length_i_avail [OF assms(1)]
  by (simp add: istream_ok_def i_adv_def)

lemma i_avail_adv [simp]:
  assumes "istream_ok s" and "n \<le> length (i_avail s)"
  shows "i_avail (i_adv s n) = drop n (i_avail s)"
  using unat_bytes_left_adv [OF assms]
  by (simp add: i_avail_def i_adv_def drop_take add.commute)

lemma i_adv_adv [simp]: "i_adv (i_adv s m) n = i_adv s (m + n)"
  by (simp add: i_adv_def algebra_simps)

lemma i_adv_0 [simp]: "i_adv s 0 = s"
  by (simp add: i_adv_def)

lemma i_adv_fields [simp]:
  "i_callback (i_adv s n) = i_callback s" "i_errmsg (i_adv s n) = i_errmsg s"
  "i_buf (i_adv s n) = i_buf s" "i_ub (i_adv s n) = i_ub s"
  by (simp_all add: i_adv_def)

lemma i_avail_Cons:
  assumes "istream_ok s" and "i_avail s = b # bs"
  shows "bytes_left s \<noteq> 0" and "1 \<le> length (i_avail s)"
    and "take 1 (drop (i_pos s) (i_buf s)) = [b]"
proof -
  have "unat (bytes_left s) = Suc (length bs)"
    using assms length_i_avail [OF assms(1)] by simp
  then show "bytes_left s \<noteq> 0" by auto
  show "1 \<le> length (i_avail s)" using assms(2) by simp
  have "take 1 (i_avail s) = [b]" using assms(2) by simp
  then show "take 1 (drop (i_pos s) (i_buf s)) = [b]"
    using \<open>unat (bytes_left s) = Suc (length bs)\<close> by (simp add: i_avail_def min_def)
qed

lemma i_avail_in_buf:
  "istream_ok s \<Longrightarrow> n \<le> length (i_avail s) \<Longrightarrow> i_pos s + n \<le> length (i_buf s)"
  using length_i_avail [of s] by (simp add: istream_ok_def)

lemma pb_readbyte_ok:
  assumes ok: "istream_ok s" and av: "i_avail s = b # bs"
  shows "pb_readbyte io s = (True, i_adv s 1, b)"
  using i_avail_Cons [OF ok av] i_avail_in_buf [OF ok, of 1] ok
  by (simp add: pb_readbyte_def call_read_def buf_read_def istream_ok_def i_adv_def av)

lemma pb_readbyte_eof:
  assumes "istream_ok s" and "i_avail s = []"
  shows "pb_readbyte io s = (False, i_set_error s ''end-of-stream'', 0)"
  using assms length_i_avail [OF assms(1)] by (simp add: pb_readbyte_def unat_eq_0)

lemma pb_read_buf_ok:
  assumes ok: "istream_ok s" and len: "unat count \<le> length (i_avail s)"
  shows "pb_read_buf io s count = (True, i_adv s (unat count), take (unat count) (i_avail s))"
proof (cases "count = 0")
  case True
  then show ?thesis by (simp add: pb_read_buf_def)
next
  case False
  have "\<not> bytes_left s < count"
    using len length_i_avail [OF ok] by (simp add: word_less_nat_alt)
  moreover have "take (unat count) (drop (i_pos s) (i_buf s)) = take (unat count) (i_avail s)"
    using len length_i_avail [OF ok] by (simp add: i_avail_def min_def)
  ultimately show ?thesis
    using False ok i_avail_in_buf [OF ok len]
    by (simp add: pb_read_buf_def call_read_def buf_read_def Let_def istream_ok_def i_adv_def)
qed

lemma pb_read_ok:
  assumes "istream_ok s" and "unat count \<le> length (i_avail s)"
  shows "pb_read io s want count = (True, i_adv s (unat count), take (unat count) (i_avail s))"
  using assms pb_read_buf_ok [OF assms]
  by (simp add: pb_read_def istream_ok_def)

lemma pb_read_short:
  assumes ok: "istream_ok s" and len: "length (i_avail s) < unat count"
  shows "pb_read io s want count = (False, i_set_error s ''end-of-stream'', [])"
proof -
  have "bytes_left s < count"
    using len length_i_avail [OF ok] by (simp add: word_less_nat_alt)
  moreover from this have "count \<noteq> 0" by auto
  ultimately show ?thesis
    using ok by (simp add: pb_read_def pb_read_buf_def istream_ok_def)
qed

subsection \<open>Consuming steps\<close>

text \<open>\<open>i_sub s s'\<close>: \<open>s'\<close> is \<open>s\<close> after some of its remaining bytes were consumed, with the error message
  possibly set. Every reading operation on a buffer stream is such a step.\<close>

definition i_sub :: "pb_istream_t \<Rightarrow> pb_istream_t \<Rightarrow> bool" where
  "i_sub s s' \<longleftrightarrow> (\<exists>n e. n \<le> length (i_avail s) \<and> s' = (i_adv s n)\<lparr>i_errmsg := e\<rparr>)"

lemma istream_ok_errmsg [simp]: "istream_ok (s\<lparr>i_errmsg := e\<rparr>) = istream_ok s"
  by (simp add: istream_ok_def)

lemma i_avail_errmsg [simp]: "i_avail (s\<lparr>i_errmsg := e\<rparr>) = i_avail s"
  by (simp add: i_avail_def)

lemma i_adv_errmsg [simp]: "i_adv (s\<lparr>i_errmsg := e\<rparr>) n = (i_adv s n)\<lparr>i_errmsg := e\<rparr>"
  by (simp add: i_adv_def)

lemma i_sub_refl [simp, intro]: "i_sub s s"
  unfolding i_sub_def by (rule exI [of _ 0], rule exI [of _ "i_errmsg s"]) simp

lemma i_sub_adv [intro]: "n \<le> length (i_avail s) \<Longrightarrow> i_sub s (i_adv s n)"
  unfolding i_sub_def by (rule exI [of _ n], rule exI [of _ "i_errmsg s"]) (simp add: i_adv_def)

lemma i_sub_error [simp, intro]: "i_sub s s' \<Longrightarrow> i_sub s (i_set_error s' m)"
  unfolding i_sub_def i_set_error_def by fastforce

lemma i_sub_ok: "istream_ok s \<Longrightarrow> i_sub s s' \<Longrightarrow> istream_ok s'"
  by (auto simp: i_sub_def istream_ok_adv)

lemma i_sub_avail: "istream_ok s \<Longrightarrow> i_sub s s' \<Longrightarrow> \<exists>n \<le> length (i_avail s). i_avail s' = drop n (i_avail s)"
  by (auto simp: i_sub_def)

lemma i_sub_trans:
  assumes ok: "istream_ok s" and "i_sub s s'" and "i_sub s' s''"
  shows "i_sub s s''"
proof -
  obtain n e where n: "n \<le> length (i_avail s)" and s': "s' = (i_adv s n)\<lparr>i_errmsg := e\<rparr>"
    using assms(2) by (auto simp: i_sub_def)
  obtain m f where m: "m \<le> length (i_avail s')" and s'': "s'' = (i_adv s' m)\<lparr>i_errmsg := f\<rparr>"
    using assms(3) by (auto simp: i_sub_def)
  have "m \<le> length (i_avail s) - n"
    using m ok n by (simp add: s')
  then have "n + m \<le> length (i_avail s)"
    using n by simp
  moreover have "s'' = (i_adv s (n + m))\<lparr>i_errmsg := f\<rparr>"
    by (simp add: s'' s')
  ultimately show ?thesis
    unfolding i_sub_def by blast
qed

text \<open>The contract of an operation that reads from a stream; what follows from it is proved once,
  here, for all of them.\<close>

locale stream_reader =
  fixes rd :: "pb_istream_t \<Rightarrow> bool \<times> pb_istream_t \<times> 'v"
  assumes consumes: "istream_ok s \<Longrightarrow> rd s = (ok, s', v) \<Longrightarrow> i_sub s s'"
begin

lemma keeps_ok: "istream_ok s \<Longrightarrow> istream_ok (fst (snd (rd s)))"
  by (cases "rd s") (auto dest: consumes i_sub_ok)

lemma no_ub: "istream_ok s \<Longrightarrow> \<not> i_ub (fst (snd (rd s)))"
  using keeps_ok [of s] by (simp add: istream_ok_def)

lemma bytes_left_le: "istream_ok s \<Longrightarrow> bytes_left (fst (snd (rd s))) \<le> bytes_left s"
proof -
  assume ok: "istream_ok s"
  obtain b s' v where r: "rd s = (b, s', v)" by (cases "rd s")
  from consumes [OF ok r] obtain n where n: "n \<le> length (i_avail s)" "i_avail s' = drop n (i_avail s)"
    using i_sub_avail [OF ok] by blast
  have "istream_ok s'" using keeps_ok [OF ok] r by simp
  then show "bytes_left (fst (snd (rd s))) \<le> bytes_left s"
    using n ok length_i_avail [of s] length_i_avail [of s'] by (simp add: r word_le_nat_alt)
qed

lemma consumed_prefix:
  assumes "istream_ok s"
  shows "\<exists>pre. i_avail s = pre @ i_avail (fst (snd (rd s)))"
proof -
  obtain b s' v where r: "rd s = (b, s', v)" by (cases "rd s")
  from consumes [OF assms r] obtain n where "i_avail s' = drop n (i_avail s)"
    using i_sub_avail [OF assms] by blast
  then have "i_avail s = take n (i_avail s) @ i_avail (fst (snd (rd s)))"
    by (simp add: r)
  then show ?thesis by blast
qed

end

interpretation readbyte: stream_reader "pb_readbyte io" for io
proof
  fix s s' :: pb_istream_t and ok v
  assume "istream_ok s" and "pb_readbyte io s = (ok, s', v)"
  then show "i_sub s s'"
    by (cases "i_avail s") (auto simp: pb_readbyte_ok pb_readbyte_eof)
qed

interpretation read: stream_reader "\<lambda>s. pb_read io s want count" for io want count
proof
  fix s s' :: pb_istream_t and ok v
  assume "istream_ok s" and "pb_read io s want count = (ok, s', v)"
  then show "i_sub s s'"
    by (cases "unat count \<le> length (i_avail s)") (auto simp: pb_read_ok pb_read_short)
qed

subsection \<open>Writing steps\<close>

text \<open>A well-formed buffer stream: what it may still write lies inside the array, whose size is below
  \<open>2\<^sup>6\<^sup>3\<close> as for every C object. \<open>o_put\<close> is the stream after \<open>bs\<close> was written, \<open>o_count\<close> a sizing
  stream after \<open>n\<close> bytes were counted.\<close>

definition o_room :: "pb_ostream_t \<Rightarrow> nat" where
  "o_room s = unat (max_size s) - unat (bytes_written s)"

definition ostream_ok :: "pb_ostream_t \<Rightarrow> bool" where
  "ostream_ok s \<longleftrightarrow> o_callback s = OCB_buf_write \<and> \<not> o_ub s \<and> unat (max_size s) < 2 ^ 63 \<and>
     unat (bytes_written s) \<le> unat (max_size s) \<and> o_pos s + o_room s \<le> length (o_buf s)"

definition o_put :: "pb_ostream_t \<Rightarrow> byte list \<Rightarrow> pb_ostream_t" where
  "o_put s bs = s\<lparr>o_buf := put_at (o_buf s) (o_pos s) bs, o_pos := o_pos s + length bs,
     bytes_written := bytes_written s + word_of_nat (length bs)\<rparr>"

definition o_count :: "pb_ostream_t \<Rightarrow> nat \<Rightarrow> pb_ostream_t" where
  "o_count s n = s\<lparr>bytes_written := bytes_written s + word_of_nat n\<rparr>"

definition o_sub :: "pb_ostream_t \<Rightarrow> pb_ostream_t \<Rightarrow> bool" where
  "o_sub s s' \<longleftrightarrow> (\<exists>bs e. length bs \<le> o_room s \<and> s' = (o_put s bs)\<lparr>o_errmsg := e\<rparr>)"

lemma o_put_fields [simp]:
  "o_callback (o_put s bs) = o_callback s" "max_size (o_put s bs) = max_size s"
  "o_errmsg (o_put s bs) = o_errmsg s" "o_ub (o_put s bs) = o_ub s"
  by (simp_all add: o_put_def)

lemma o_count_fields [simp]:
  "o_callback (o_count s n) = o_callback s" "o_errmsg (o_count s n) = o_errmsg s"
  by (simp_all add: o_count_def)

lemma o_count_count [simp]: "o_count (o_count s m) n = o_count s (m + n)"
  by (simp add: o_count_def algebra_simps)

lemma unat_bytes_written_put:
  assumes "ostream_ok s" and "length bs \<le> o_room s"
  shows "unat (bytes_written (o_put s bs)) = unat (bytes_written s) + length bs"
proof -
  have le: "unat (bytes_written s) + length bs < 2 ^ 63"
    using assms by (auto simp: ostream_ok_def o_room_def)
  then have "unat (word_of_nat (length bs) :: size_t) = length bs"
    by (simp add: unat_of_nat_small)
  with le show ?thesis
    by (simp add: o_put_def unat_add_no_wrap)
qed

lemma o_room_put:
  "ostream_ok s \<Longrightarrow> length bs \<le> o_room s \<Longrightarrow> o_room (o_put s bs) = o_room s - length bs"
  using unat_bytes_written_put [of s bs] by (simp add: o_room_def)

lemma ostream_ok_put:
  assumes "ostream_ok s" and "length bs \<le> o_room s"
  shows "ostream_ok (o_put s bs)"
  using assms unat_bytes_written_put [OF assms] o_room_put [OF assms]
  by (auto simp: ostream_ok_def o_room_def) (auto simp: o_put_def)

lemma o_put_put:
  assumes "ostream_ok s" and "length xs + length ys \<le> o_room s"
  shows "o_put (o_put s xs) ys = o_put s (xs @ ys)"
proof -
  have "o_pos s + length xs + length ys \<le> length (o_buf s)"
    using assms by (simp add: ostream_ok_def)
  then show ?thesis
    by (simp add: o_put_def put_at_put_at add.assoc)
qed

lemma o_put_Nil [simp]: "o_put s [] = s"
  by (simp add: o_put_def)

lemma o_sub_refl [simp, intro]: "o_sub s s"
  unfolding o_sub_def by (rule exI [of _ "[]"], rule exI [of _ "o_errmsg s"]) simp

lemma o_sub_error [simp, intro]: "o_sub s s' \<Longrightarrow> o_sub s (s'\<lparr>o_errmsg := e\<rparr>)"
  unfolding o_sub_def by fastforce

lemma ostream_ok_errmsg [simp]: "ostream_ok (s\<lparr>o_errmsg := e\<rparr>) = ostream_ok s"
  by (simp add: ostream_ok_def o_room_def)

lemma o_room_errmsg [simp]: "o_room (s\<lparr>o_errmsg := e\<rparr>) = o_room s"
  by (simp add: o_room_def)

lemma o_put_errmsg [simp]: "o_put (s\<lparr>o_errmsg := e\<rparr>) bs = (o_put s bs)\<lparr>o_errmsg := e\<rparr>"
  by (simp add: o_put_def)

lemma o_sub_ok: "ostream_ok s \<Longrightarrow> o_sub s s' \<Longrightarrow> ostream_ok s'"
  by (auto simp: o_sub_def ostream_ok_put)

lemma o_sub_put: "length bs \<le> o_room s \<Longrightarrow> o_sub s (o_put s bs)"
  unfolding o_sub_def by (rule exI [of _ bs], rule exI [of _ "o_errmsg s"]) (simp add: o_put_def)

lemma o_sub_put_trans:
  assumes ok: "ostream_ok s" and len: "length xs \<le> o_room s" and "o_sub (o_put s xs) s'"
  shows "o_sub s s'"
proof -
  obtain ys e where ys: "length ys \<le> o_room (o_put s xs)"
    and s': "s' = (o_put (o_put s xs) ys)\<lparr>o_errmsg := e\<rparr>"
    using assms(3) by (auto simp: o_sub_def)
  have "length (xs @ ys) \<le> o_room s"
    using ys ok len by (simp add: o_room_put)
  moreover have "s' = (o_put s (xs @ ys))\<lparr>o_errmsg := e\<rparr>"
    using calculation by (simp add: s' o_put_put [OF ok])
  ultimately show ?thesis unfolding o_sub_def by blast
qed

lemma pb_write_sizing:
  "o_callback s = OCB_NULL \<Longrightarrow> pb_write io s bs count = (True, s\<lparr>bytes_written := bytes_written s + count\<rparr>)"
  by (simp add: pb_write_def)

lemma pb_write_fits:
  assumes ok: "ostream_ok s" and len: "length bs \<le> o_room s"
  shows "pb_write io s bs (word_of_nat (length bs)) = (True, o_put s bs)"
proof (cases "bs = []")
  case True
  then show ?thesis by (simp add: pb_write_def o_put_def)
next
  case False
  let ?n = "word_of_nat (length bs) :: size_t"
  have lt: "unat (bytes_written s) + length bs \<le> unat (max_size s)" "unat (max_size s) < 2 ^ 63"
    using ok len by (auto simp: ostream_ok_def o_room_def)
  then have n: "unat ?n = length bs"
    by (simp add: unat_of_nat_small)
  have sum: "unat (bytes_written s + ?n) = unat (bytes_written s) + length bs"
    using lt by (simp add: unat_add_no_wrap n)
  have "?n > 0" "\<not> bytes_written s + ?n < bytes_written s" "\<not> bytes_written s + ?n > max_size s"
    using False lt n sum by (simp_all add: word_less_nat_alt word_le_nat_alt)
  moreover have "o_pos s + length bs \<le> length (o_buf s)"
    using ok len by (simp add: ostream_ok_def)
  ultimately show ?thesis
    using ok n by (simp add: pb_write_def call_write_def buf_write_def ostream_ok_def o_put_def)
qed

lemma pb_write_full:
  assumes ok: "ostream_ok s" and len: "o_room s < unat count"
  shows "pb_write io s bs count = o_return_error s ''stream full''"
proof -
  have w: "unat (bytes_written s) \<le> unat (max_size s)" "unat (max_size s) < 2 ^ 63"
    using ok by (auto simp: ostream_ok_def)
  have "bytes_written s + count < bytes_written s \<or> bytes_written s + count > max_size s"
  proof (cases "bytes_written s + count < bytes_written s")
    case False
    then have "unat (bytes_written s + count) = unat (bytes_written s) + unat count"
      by (simp add: overflow_test unat_add_no_wrap)
    then show ?thesis
      using len w by (simp add: word_less_nat_alt o_room_def)
  qed simp
  moreover have "count > 0"
    using len by (simp add: word_less_nat_alt)
  ultimately show ?thesis
    using ok by (simp add: pb_write_def ostream_ok_def)
qed

text \<open>A stream is ready when it is well-formed and no error was reported on it.\<close>

definition ostream_ready :: "pb_ostream_t \<Rightarrow> bool" where
  "ostream_ready s \<longleftrightarrow> ostream_ok s \<and> o_errmsg s = None"

lemma ostream_ready_put: "ostream_ready s \<Longrightarrow> length bs \<le> o_room s \<Longrightarrow> ostream_ready (o_put s bs)"
  by (simp add: ostream_ready_def ostream_ok_put)

lemma ostream_ready_ok: "ostream_ready s \<Longrightarrow> ostream_ok s"
  by (simp add: ostream_ready_def)

text \<open>The contract of an operation that writes \<open>out\<close> to a stream: a sizing stream counts it, a buffer
  stream with room for it receives exactly \<open>out\<close>, and one without room reports failure having
  written nothing outside its array. Encoders return \<open>None\<close> only when the depth bound of the model
  is exhausted.\<close>

type_synonym encoder = "pb_ostream_t \<Rightarrow> (bool \<times> pb_ostream_t) option"

locale stream_writer =
  fixes wr :: encoder and out :: "byte list"
  assumes sizing: "o_callback s = OCB_NULL \<Longrightarrow> wr s = Some (True, o_count s (length out))"
    and fits: "ostream_ready s \<Longrightarrow> length out \<le> o_room s \<Longrightarrow> wr s = Some (True, o_put s out)"
    and full: "ostream_ready s \<Longrightarrow> o_room s < length out \<Longrightarrow>
      \<exists>s'. wr s = Some (False, s') \<and> o_sub s s'"
begin

lemma returns: "ostream_ready s \<Longrightarrow> \<exists>ok s'. wr s = Some (ok, s') \<and> o_sub s s'"
  using fits [of s] full [of s] o_sub_put [of out s] by (cases "length out \<le> o_room s") auto

lemma keeps_ok: "ostream_ready s \<Longrightarrow> wr s = Some (ok, s') \<Longrightarrow> ostream_ok s'"
  using returns [of s] o_sub_ok ostream_ready_ok by force

lemma success_iff_fits: "ostream_ready s \<Longrightarrow> (\<exists>s'. wr s = Some (True, s')) \<longleftrightarrow> length out \<le> o_room s"
  using fits [of s] full [of s] by (cases "length out \<le> o_room s") auto

lemma size_is_exact:
  assumes "wr PB_OSTREAM_SIZING = Some (True, z)" and "length out < 2 ^ 64"
  shows "unat (bytes_written z) = length out"
proof -
  have "z = o_count PB_OSTREAM_SIZING (length out)"
    using assms(1) sizing [of PB_OSTREAM_SIZING] by (simp add: PB_OSTREAM_SIZING_def)
  then show ?thesis
    using assms(2) by (simp add: o_count_def PB_OSTREAM_SIZING_def unat_of_nat_small)
qed

end

text \<open>\<^verbatim>\<open>if (!f(stream)) return false; g(stream)\<close>.\<close>

definition and_then :: "encoder \<Rightarrow> encoder \<Rightarrow> encoder" where
  "and_then f g s =
     (case f s of None \<Rightarrow> None
      | Some (ok, s') \<Rightarrow> if ok then g s' else Some (False, s'))"

lemma stream_writer_nothing: "stream_writer (\<lambda>s. Some (True, s)) []"
  by unfold_locales (simp_all add: o_count_def)

lemma stream_writer_and_then:
  assumes "stream_writer f xs" and "stream_writer g ys"
  shows "stream_writer (and_then f g) (xs @ ys)"
proof (rule stream_writer.intro)
  fix s :: pb_ostream_t
  assume "o_callback s = OCB_NULL"
  then show "and_then f g s = Some (True, o_count s (length (xs @ ys)))"
    by (simp add: and_then_def stream_writer.sizing [OF assms(1)] stream_writer.sizing [OF assms(2)])
next
  fix s :: pb_ostream_t
  assume ok: "ostream_ready s" and len: "length (xs @ ys) \<le> o_room s"
  then have "length xs \<le> o_room s" by simp
  with ok len show "and_then f g s = Some (True, o_put s (xs @ ys))"
    by (simp add: and_then_def stream_writer.fits [OF assms(1)] stream_writer.fits [OF assms(2)]
        ostream_ready_put ostream_ready_ok o_room_put o_put_put)
next
  fix s :: pb_ostream_t
  assume ok: "ostream_ready s" and len: "o_room s < length (xs @ ys)"
  show "\<exists>s'. and_then f g s = Some (False, s') \<and> o_sub s s'"
  proof (cases "length xs \<le> o_room s")
    case True
    then have "o_room (o_put s xs) < length ys"
      using ok len by (simp add: o_room_put ostream_ready_ok)
    then obtain s' where "g (o_put s xs) = Some (False, s')" "o_sub (o_put s xs) s'"
      using stream_writer.full [OF assms(2) ostream_ready_put [OF ok True]] by blast
    then show ?thesis
      using True ok o_sub_put_trans [OF ostream_ready_ok [OF ok] True]
      by (auto simp: and_then_def stream_writer.fits [OF assms(1) ok True])
  next
    case False
    then show ?thesis
      using stream_writer.full [OF assms(1) ok] by (auto simp: and_then_def)
  qed
qed

lemma stream_writer_write:
  assumes "length bs < 2 ^ 63" and "count = word_of_nat (length bs)"
  shows "stream_writer (\<lambda>s. Some (pb_write io s bs count)) bs"
proof (rule stream_writer.intro)
  fix s :: pb_ostream_t
  assume ok: "ostream_ready s" and "o_room s < length bs"
  then have "o_room s < unat count"
    using assms by (simp add: unat_of_nat_small)
  then show "\<exists>s'. Some (pb_write io s bs count) = Some (False, s') \<and> o_sub s s'"
    using ok by (simp add: pb_write_full ostream_ready_ok o_return_error_def)
qed (simp_all add: assms pb_write_sizing o_count_def pb_write_fits ostream_ready_ok)

end
