(* ===== verification/PbWire.thy ===== *)
theory PbWire
  imports PbStream
begin

text \<open>
  nanopb's wire format primitives on streams: varints, zigzag varints, fixed-width integers, tags
  and length-prefixed strings, for encoding (pb_encode.c, "Helper functions") and decoding
  (pb_decode.c, "Helper functions"), field skipping and substreams.

  \<^verbatim>\<open>uint_fast8_t\<close>, the type of \<^verbatim>\<open>bitpos\<close>, is an 8-bit type on the platform.
\<close>

section \<open>Encoding\<close>

text \<open>The decoder casts the low three bits of a tag to the enumeration, so a wire type can be a
  number that names none of its constants.\<close>

type_synonym pb_wire_type_t = uint32

abbreviation (input) PB_WT_VARINT :: pb_wire_type_t where "PB_WT_VARINT \<equiv> 0"
abbreviation (input) PB_WT_64BIT :: pb_wire_type_t where "PB_WT_64BIT \<equiv> 1"
abbreviation (input) PB_WT_STRING :: pb_wire_type_t where "PB_WT_STRING \<equiv> 2"
abbreviation (input) PB_WT_32BIT :: pb_wire_type_t where "PB_WT_32BIT \<equiv> 5"

text \<open>The loop of \<^verbatim>\<open>pb_encode_varint\<close>: what \<^verbatim>\<open>buffer\<close> holds when \<^verbatim>\<open>value\<close> has become 0.\<close>

function varint_loop :: "uint64 \<Rightarrow> byte list" where
  "varint_loop value =
     (if value = 0 then []
      else ucast ((value AND 0x7F) OR 0x80) # varint_loop (drop_bit 7 value))"
  by pat_completeness auto
termination
proof (relation "measure unat")
  fix v :: uint64
  assume "v \<noteq> 0"
  then have "0 < unat v"
    by (simp add: unat_gt_0)
  then show "(drop_bit 7 v, v) \<in> measure unat"
    by (simp add: unat_drop_bit)
qed simp

declare varint_loop.simps [simp del]

definition varint_buffer :: "uint64 \<Rightarrow> byte list" where
  "varint_buffer value =
     (if value \<le> 0x7F then [ucast value]
      else (let buffer = varint_loop value
            in buffer[length buffer - 1 := buffer ! (length buffer - 1) AND 0x7F]))"

definition pb_encode_varint :: "pb_io \<Rightarrow> pb_ostream_t \<Rightarrow> uint64 \<Rightarrow> bool \<times> pb_ostream_t" where
  "pb_encode_varint io s value =
     pb_write io s (varint_buffer value) (word_of_nat (length (varint_buffer value)))"

definition zigzag :: "64 word \<Rightarrow> uint64" where
  "zigzag value = (if sint value < 0 then NOT (push_bit 1 value) else push_bit 1 value)"

definition pb_encode_svarint :: "pb_io \<Rightarrow> pb_ostream_t \<Rightarrow> 64 word \<Rightarrow> bool \<times> pb_ostream_t" where
  "pb_encode_svarint io s value = pb_encode_varint io s (zigzag value)"

definition fixed32_bytes :: "uint32 \<Rightarrow> byte list" where
  "fixed32_bytes val =
     [ucast (val AND 0xFF), ucast (drop_bit 8 val AND 0xFF),
      ucast (drop_bit 16 val AND 0xFF), ucast (drop_bit 24 val AND 0xFF)]"

definition pb_encode_fixed32 :: "pb_io \<Rightarrow> pb_ostream_t \<Rightarrow> uint32 \<Rightarrow> bool \<times> pb_ostream_t" where
  "pb_encode_fixed32 io s val = pb_write io s (fixed32_bytes val) 4"

definition fixed64_bytes :: "uint64 \<Rightarrow> byte list" where
  "fixed64_bytes val =
     [ucast (val AND 0xFF), ucast (drop_bit 8 val AND 0xFF),
      ucast (drop_bit 16 val AND 0xFF), ucast (drop_bit 24 val AND 0xFF),
      ucast (drop_bit 32 val AND 0xFF), ucast (drop_bit 40 val AND 0xFF),
      ucast (drop_bit 48 val AND 0xFF), ucast (drop_bit 56 val AND 0xFF)]"

definition pb_encode_fixed64 :: "pb_io \<Rightarrow> pb_ostream_t \<Rightarrow> uint64 \<Rightarrow> bool \<times> pb_ostream_t" where
  "pb_encode_fixed64 io s val = pb_write io s (fixed64_bytes val) 8"

definition pb_encode_tag ::
    "pb_io \<Rightarrow> pb_ostream_t \<Rightarrow> pb_wire_type_t \<Rightarrow> uint32 \<Rightarrow> bool \<times> pb_ostream_t" where
  "pb_encode_tag io s wiretype field_number =
     pb_encode_varint io s (push_bit 3 (ucast field_number) OR ucast wiretype)"

definition pb_encode_string ::
    "pb_io \<Rightarrow> pb_ostream_t \<Rightarrow> byte list \<Rightarrow> size_t \<Rightarrow> bool \<times> pb_ostream_t" where
  "pb_encode_string io s buffer sz =
     (case pb_encode_varint io s sz of
        (ok, s') \<Rightarrow> if \<not> ok then (False, s') else pb_write io s' buffer sz)"

section \<open>Decoding\<close>

text \<open>A decoder returns its status, the stream and the value it stored in \<^verbatim>\<open>*dest\<close> (meaningful on
  success only).\<close>

lemma pb_readbyte_bytes_left:
  "pb_readbyte io s = (True, s', b) \<Longrightarrow>
     bytes_left s \<noteq> 0 \<and> bytes_left s' = bytes_left s - 1"
  by (auto simp: pb_readbyte_def call_read_def buf_read_def Let_def
      split: if_splits prod.splits icallback.splits)

lemma pb_readbyte_decreases:
  "pb_readbyte io s = (True, s', b) \<Longrightarrow> unat (bytes_left s') < unat (bytes_left s)"
  by (drule pb_readbyte_bytes_left) (simp add: unat_minus_one unat_gt_0)

text \<open>The \<^verbatim>\<open>do\<close> loop of \<^verbatim>\<open>pb_decode_varint32_eof\<close>. It returns the status, the stream, \<^verbatim>\<open>result\<close>,
  \<^verbatim>\<open>bitpos\<close> and the last \<^verbatim>\<open>byte\<close>.\<close>

function varint32_loop ::
    "pb_io \<Rightarrow> pb_istream_t \<Rightarrow> uint32 \<Rightarrow> byte \<Rightarrow> bool \<times> pb_istream_t \<times> uint32 \<times> byte \<times> byte" where
  "varint32_loop io s result bitpos =
     (case pb_readbyte io s of
        (False, s', b) \<Rightarrow> (False, s', result, bitpos, b)
      | (True, s', b) \<Rightarrow>
          if bitpos \<ge> 32 \<and> b AND 0x7F \<noteq> 0 \<and>
             (drop_bit 31 result = 0 \<or> b \<noteq> (if bitpos < 63 then 0xFF else 0x01))
          then (False, i_set_error s' ''varint overflow'', result, bitpos, b)
          else
            (let result' = (if bitpos \<ge> 32 then result
                            else result OR push_bit (unat bitpos) (ucast (b AND 0x7F)))
             in if b AND 0x80 \<noteq> 0 then varint32_loop io s' result' (bitpos + 7)
                else (True, s', result', bitpos + 7, b)))"
  by pat_completeness auto
termination
  by (relation "measure (\<lambda>(io, s, result, bitpos). unat (bytes_left s))")
     (auto dest: pb_readbyte_decreases [OF sym])

declare varint32_loop.simps [simp del]

text \<open>The result is (status, stream, value, whether \<^verbatim>\<open>*eof\<close> was set).\<close>

definition pb_decode_varint32_eof ::
    "pb_io \<Rightarrow> pb_istream_t \<Rightarrow> bool \<times> pb_istream_t \<times> uint32 \<times> bool" where
  "pb_decode_varint32_eof io s =
     (case pb_readbyte io s of
        (False, s', b) \<Rightarrow> (False, s', 0, bytes_left s' = 0)
      | (True, s', b) \<Rightarrow>
          if b AND 0x80 = 0 then (True, s', ucast b, False)
          else (case varint32_loop io s' (ucast (b AND 0x7F)) 7 of
                  (False, s'', result, bitpos, b') \<Rightarrow> (False, s'', 0, False)
                | (True, s'', result, bitpos, b') \<Rightarrow>
                    if bitpos = 35 \<and> b' AND 0x70 \<noteq> 0
                    then (False, i_set_error s'' ''varint overflow'', 0, False)
                    else (True, s'', result, False)))"

definition pb_decode_varint32 :: "pb_io \<Rightarrow> pb_istream_t \<Rightarrow> bool \<times> pb_istream_t \<times> uint32" where
  "pb_decode_varint32 io s =
     (case pb_decode_varint32_eof io s of (ok, s', v, eof) \<Rightarrow> (ok, s', v))"

function varint_dec_loop ::
    "pb_io \<Rightarrow> pb_istream_t \<Rightarrow> byte \<Rightarrow> uint64 \<Rightarrow> bool \<times> pb_istream_t \<times> uint64" where
  "varint_dec_loop io s bitpos result =
     (if bitpos \<ge> 64 then (False, i_set_error s ''varint overflow'', 0)
      else (case pb_readbyte io s of
              (False, s', b) \<Rightarrow> (False, s', 0)
            | (True, s', b) \<Rightarrow>
                (let result' = result OR push_bit (unat bitpos) (ucast (b AND 0x7F))
                 in if b AND 0x80 \<noteq> 0 then varint_dec_loop io s' (bitpos + 7) result'
                    else (True, s', result'))))"
  by pat_completeness auto
termination
  by (relation "measure (\<lambda>(io, s, bitpos, result). unat (bytes_left s))")
     (auto dest: pb_readbyte_decreases [OF sym])

declare varint_dec_loop.simps [simp del]

definition pb_decode_varint :: "pb_io \<Rightarrow> pb_istream_t \<Rightarrow> bool \<times> pb_istream_t \<times> uint64" where
  "pb_decode_varint io s = varint_dec_loop io s 0 0"

lemma pb_read_buf_bytes_left:
  "pb_read_buf io s count = (True, s', d) \<Longrightarrow>
     count \<le> bytes_left s \<and> bytes_left s' = bytes_left s - count"
  by (auto simp: pb_read_buf_def call_read_def buf_read_def Let_def
      split: if_splits prod.splits icallback.splits)

lemma pb_read_decreases:
  "pb_read io s True 1 = (True, s', d) \<Longrightarrow> unat (bytes_left s') < unat (bytes_left s)"
  by (auto simp: pb_read_def word_le_nat_alt unat_sub dest!: pb_read_buf_bytes_left)

function pb_skip_varint :: "pb_io \<Rightarrow> pb_istream_t \<Rightarrow> bool \<times> pb_istream_t" where
  "pb_skip_varint io s =
     (case pb_read io s True 1 of
        (False, s', d) \<Rightarrow> (False, s')
      | (True, s', d) \<Rightarrow>
          if hd (d @ [0]) AND 0x80 \<noteq> 0 then pb_skip_varint io s' else (True, s'))"
  by pat_completeness auto
termination
  by (relation "measure (\<lambda>(io, s). unat (bytes_left s))")
     (auto dest: pb_read_decreases [OF sym])

declare pb_skip_varint.simps [simp del]

definition pb_skip_string :: "pb_io \<Rightarrow> pb_istream_t \<Rightarrow> bool \<times> pb_istream_t" where
  "pb_skip_string io s =
     (case pb_decode_varint32 io s of
        (False, s', len) \<Rightarrow> (False, s')
      | (True, s', len) \<Rightarrow>
          (case pb_read io s' False (ucast len) of (ok, s'', d) \<Rightarrow> (ok, s'')))"

text \<open>The result is (status, stream, \<^verbatim>\<open>*wire_type\<close>, \<^verbatim>\<open>*tag\<close>, \<^verbatim>\<open>*eof\<close>).\<close>

definition pb_decode_tag ::
    "pb_io \<Rightarrow> pb_istream_t \<Rightarrow> bool \<times> pb_istream_t \<times> pb_wire_type_t \<times> uint32 \<times> bool" where
  "pb_decode_tag io s =
     (case pb_decode_varint32_eof io s of
        (False, s', temp, eof) \<Rightarrow> (False, s', 0, 0, eof)
      | (True, s', temp, eof) \<Rightarrow>
          if temp = 0 then (False, s', 0, 0, True)
          else (True, s', temp AND 7, drop_bit 3 temp, eof))"

definition pb_skip_field :: "pb_io \<Rightarrow> pb_istream_t \<Rightarrow> pb_wire_type_t \<Rightarrow> bool \<times> pb_istream_t" where
  "pb_skip_field io s wire_type =
     (if wire_type = PB_WT_VARINT then pb_skip_varint io s
      else if wire_type = PB_WT_64BIT
           then (case pb_read io s False 8 of (ok, s', d) \<Rightarrow> (ok, s'))
      else if wire_type = PB_WT_STRING then pb_skip_string io s
      else if wire_type = PB_WT_32BIT
           then (case pb_read io s False 4 of (ok, s', d) \<Rightarrow> (ok, s'))
      else (False, i_set_error s ''invalid wire_type''))"

text \<open>The \<^verbatim>\<open>PB_WT_VARINT\<close> loop of \<^verbatim>\<open>read_raw_value\<close>: \<open>acc\<close> is what \<^verbatim>\<open>buf\<close> holds so far, so
  \<^verbatim>\<open>*size\<close> is its length.\<close>

function raw_varint_loop ::
    "pb_io \<Rightarrow> pb_istream_t \<Rightarrow> nat \<Rightarrow> byte list \<Rightarrow> bool \<times> pb_istream_t \<times> byte list" where
  "raw_varint_loop io s max_sz acc =
     (if length acc + 1 > max_sz then (False, s, acc)
      else (case pb_read io s True 1 of
              (False, s', d) \<Rightarrow> (False, s', acc)
            | (True, s', d) \<Rightarrow>
                (let b = hd (d @ [0]) in
                 if b AND 0x80 \<noteq> 0 then raw_varint_loop io s' max_sz (acc @ [b])
                 else (True, s', acc @ [b]))))"
  by pat_completeness auto
termination
  by (relation "measure (\<lambda>(io, s, max_sz, acc). max_sz - length acc)") auto

declare raw_varint_loop.simps [simp del]

text \<open>\<^verbatim>\<open>read_raw_value\<close>: the result carries the bytes stored in \<^verbatim>\<open>buf\<close>; \<^verbatim>\<open>*size\<close> is their number.\<close>

definition read_raw_value ::
    "pb_io \<Rightarrow> pb_istream_t \<Rightarrow> pb_wire_type_t \<Rightarrow> nat \<Rightarrow> bool \<times> pb_istream_t \<times> byte list" where
  "read_raw_value io s wire_type max_sz =
     (if wire_type = PB_WT_VARINT then raw_varint_loop io s max_sz []
      else if wire_type = PB_WT_64BIT then pb_read io s True 8
      else if wire_type = PB_WT_32BIT then pb_read io s True 4
      else (False, i_set_error s ''invalid wire_type'', []))"

text \<open>The result is (status, \<^verbatim>\<open>*stream\<close>, \<^verbatim>\<open>*substream\<close>).\<close>

definition pb_make_string_substream ::
    "pb_io \<Rightarrow> pb_istream_t \<Rightarrow> bool \<times> pb_istream_t \<times> pb_istream_t" where
  "pb_make_string_substream io s =
     (case pb_decode_varint32 io s of
        (False, s', sz) \<Rightarrow> (False, s', s')
      | (True, s', sz) \<Rightarrow>
          if bytes_left s' < ucast sz
          then (False, i_set_error s' ''parent stream too short'', s')
          else (True, s'\<lparr>bytes_left := bytes_left s' - ucast sz\<rparr>, s'\<lparr>bytes_left := ucast sz\<rparr>))"

definition pb_close_string_substream ::
    "pb_io \<Rightarrow> pb_istream_t \<Rightarrow> pb_istream_t \<Rightarrow> bool \<times> pb_istream_t \<times> pb_istream_t" where
  "pb_close_string_substream io s sub =
     (case (if bytes_left sub \<noteq> 0 then pb_read io sub False (bytes_left sub) else (True, sub, [])) of
        (False, sub', d) \<Rightarrow> (False, s, sub')
      | (True, sub', d) \<Rightarrow>
          (True, s\<lparr>i_buf := i_buf sub', i_pos := i_pos sub', i_ub := i_ub sub',
                  i_errmsg := i_errmsg sub'\<rparr>, sub'))"

definition unzigzag :: "uint64 \<Rightarrow> 64 word" where
  "unzigzag v = (if v AND 1 \<noteq> 0 then NOT (drop_bit 1 v) else drop_bit 1 v)"

definition pb_decode_svarint :: "pb_io \<Rightarrow> pb_istream_t \<Rightarrow> bool \<times> pb_istream_t \<times> 64 word" where
  "pb_decode_svarint io s =
     (case pb_decode_varint io s of
        (False, s', v) \<Rightarrow> (False, s', 0)
      | (True, s', v) \<Rightarrow> (True, s', unzigzag v))"

definition fixed32_value :: "byte list \<Rightarrow> uint32" where
  "fixed32_value bytes =
     push_bit 0 (ucast (bytes ! 0)) OR push_bit 8 (ucast (bytes ! 1)) OR
     push_bit 16 (ucast (bytes ! 2)) OR push_bit 24 (ucast (bytes ! 3))"

definition pb_decode_fixed32 :: "pb_io \<Rightarrow> pb_istream_t \<Rightarrow> bool \<times> pb_istream_t \<times> uint32" where
  "pb_decode_fixed32 io s =
     (case pb_read io s True 4 of
        (False, s', bytes) \<Rightarrow> (False, s', 0)
      | (True, s', bytes) \<Rightarrow> (True, s', fixed32_value bytes))"

definition fixed64_value :: "byte list \<Rightarrow> uint64" where
  "fixed64_value bytes =
     push_bit 0 (ucast (bytes ! 0)) OR push_bit 8 (ucast (bytes ! 1)) OR
     push_bit 16 (ucast (bytes ! 2)) OR push_bit 24 (ucast (bytes ! 3)) OR
     push_bit 32 (ucast (bytes ! 4)) OR push_bit 40 (ucast (bytes ! 5)) OR
     push_bit 48 (ucast (bytes ! 6)) OR push_bit 56 (ucast (bytes ! 7))"

definition pb_decode_fixed64 :: "pb_io \<Rightarrow> pb_istream_t \<Rightarrow> bool \<times> pb_istream_t \<times> uint64" where
  "pb_decode_fixed64 io s =
     (case pb_read io s True 8 of
        (False, s', bytes) \<Rightarrow> (False, s', 0)
      | (True, s', bytes) \<Rightarrow> (True, s', fixed64_value bytes))"

definition pb_dec_bool :: "pb_io \<Rightarrow> pb_istream_t \<Rightarrow> bool \<times> pb_istream_t \<times> bool" where
  "pb_dec_bool io s =
     (case pb_decode_varint32 io s of
        (False, s', v) \<Rightarrow> (False, s', False)
      | (True, s', v) \<Rightarrow> (True, s', v \<noteq> 0))"

definition pb_decode_bool :: "pb_io \<Rightarrow> pb_istream_t \<Rightarrow> bool \<times> pb_istream_t \<times> bool" where
  "pb_decode_bool io s = pb_dec_bool io s"

section \<open>Varints\<close>

lemma varint_buffer_small: "v \<le> 0x7F \<Longrightarrow> varint_buffer v = [ucast v]"
  by (simp add: varint_buffer_def)

lemma drop_bit_7_pos: "\<not> v \<le> 0x7F \<Longrightarrow> drop_bit 7 (v :: uint64) \<noteq> 0"
proof
  assume "\<not> v \<le> 0x7F" and "drop_bit 7 v = 0"
  then have "unat v div 128 = 0" and "127 < unat v"
    using unat_drop_bit [of 7 v] by (simp_all add: word_le_nat_alt)
  then show False by simp
qed

lemma byte_or_80_and_7F:
  fixes w :: uint64
  assumes "take_bit 7 w = w"
  shows "take_bit 7 (ucast (w OR 0x80) :: byte) = ucast w"
proof -
  have "take_bit 7 (w OR 0x80) = take_bit 7 w OR take_bit 7 0x80"
    by (rule take_bit_or)
  also have "\<dots> = w" using assms by simp
  finally have "take_bit 7 (w OR 0x80) = w" .
  then show ?thesis
    by (metis unsigned_take_bit_eq)
qed

text \<open>The loop and the final fix-up together satisfy the textbook recursion.\<close>

lemma varint_buffer_large:
  assumes "\<not> v \<le> 0x7F"
  shows "varint_buffer v = ucast ((v AND 0x7F) OR 0x80) # varint_buffer (drop_bit 7 v)"
proof -
  let ?w = "drop_bit 7 v"
  have v: "varint_loop v = ucast ((v AND 0x7F) OR 0x80) # varint_loop ?w"
    using assms by (subst varint_loop.simps) auto
  have w: "varint_loop ?w = ucast ((?w AND 0x7F) OR 0x80) # varint_loop (drop_bit 7 ?w)"
    using drop_bit_7_pos [OF assms] by (subst varint_loop.simps) simp
  show ?thesis
  proof (cases "?w \<le> 0x7F")
    case True
    then have "unat ?w \<le> 127" by (simp add: word_le_nat_alt)
    then have z: "drop_bit 7 ?w = 0" and t: "take_bit 7 ?w = ?w"
      by (simp_all add: word_unat_eq_iff unat_drop_bit unat_take_bit)
    have "varint_loop ?w = [ucast (?w OR 0x80)]"
      using w unfolding z and_7F t by (simp add: varint_loop.simps [of 0])
    moreover have "(ucast (?w OR 0x80) :: byte) AND 0x7F = ucast ?w"
      unfolding and_7F by (rule byte_or_80_and_7F) (use t in simp)
    ultimately show ?thesis
      using assms v True by (simp add: varint_buffer_def)
  next
    case False
    then show ?thesis
      using assms v w by (simp add: varint_buffer_def Let_def)
  qed
qed

lemma unat_le_7F: "v \<le> 0x7F \<longleftrightarrow> unat (v :: uint64) < 128"
  by (auto simp: word_le_nat_alt)

lemma length_varint_buffer:
  "unat v < 2 ^ (7 * n) \<Longrightarrow> 0 < n \<Longrightarrow> length (varint_buffer v) \<le> n"
proof (induction n arbitrary: v)
  case 0
  then show ?case by simp
next
  case (Suc n)
  show ?case
  proof (cases "v \<le> 0x7F")
    case True
    then show ?thesis by (simp add: varint_buffer_small)
  next
    case False
    then have ge: "128 \<le> unat v" by (simp add: unat_le_7F)
    have "unat v < 128 * 2 ^ (7 * n)"
      using Suc.prems(1) by (simp add: power_add)
    then have lt: "unat (drop_bit 7 v) < 2 ^ (7 * n)"
      by (simp add: unat_drop_bit less_mult_imp_div_less mult.commute)
    have "n \<noteq> 0"
      using Suc.prems(1) ge by (cases n) simp_all
    then have "length (varint_buffer (drop_bit 7 v)) \<le> n"
      using Suc.IH [OF lt] by simp
    then show ?thesis
      using False by (simp add: varint_buffer_large)
  qed
qed

text \<open>\<^verbatim>\<open>buffer[10]\<close> is never overrun.\<close>

lemma varint_buffer_le_10: "length (varint_buffer v) \<le> 10"
  using length_varint_buffer [of v 10] unat_lt [of v] by simp

lemma varint_buffer_not_Nil [simp]: "varint_buffer v \<noteq> []"
  by (cases "v \<le> 0x7F") (simp_all add: varint_buffer_small varint_buffer_large)

lemma cont_byte:
  fixes v :: uint64
  defines "b \<equiv> (ucast ((v AND 0x7F) OR 0x80) :: byte)"
  shows "b AND 0x80 \<noteq> 0" and "(ucast (b AND 0x7F) :: 'a::len word) = ucast (take_bit 7 v)"
proof -
  show "b AND 0x80 \<noteq> 0"
    unfolding b_def and_80_eq_0 by (simp add: bit_simps)
  have "take_bit 7 b = ucast (take_bit 7 v)"
    unfolding b_def and_7F by (rule byte_or_80_and_7F) simp
  then have "(ucast (b AND 0x7F) :: 'a word) = ucast (ucast (take_bit 7 v) :: byte)"
    unfolding and_7F by (rule arg_cong)
  also have "\<dots> = ucast (take_bit 7 v)"
    by (auto simp: bit_eq_iff bit_simps)
  finally show "(ucast (b AND 0x7F) :: 'a word) = ucast (take_bit 7 v)" .
qed

lemma last_byte:
  fixes v :: uint64
  assumes "v \<le> 0x7F"
  shows "(ucast v :: byte) AND 0x80 = 0" and "(ucast ((ucast v :: byte) AND 0x7F) :: uint64) = v"
proof -
  have t: "take_bit 7 v = v" and t8: "take_bit 8 v = v"
    using assms by (simp_all add: word_unat_eq_iff unat_take_bit unat_le_7F)
  from t show "(ucast v :: byte) AND 0x80 = 0"
    unfolding and_80_eq_0 by (metis bit_take_bit_iff bit_unsigned_iff less_irrefl)
  have "take_bit 7 (ucast v :: byte) = ucast v"
    using t by (metis unsigned_take_bit_eq)
  then show "(ucast ((ucast v :: byte) AND 0x7F) :: uint64) = v"
    unfolding and_7F using t8 by (simp add: unsigned_ucast_eq)
qed

lemma varint_join:
  fixes v :: uint64
  shows "push_bit bp (ucast (take_bit 7 v)) OR push_bit (bp + 7) (drop_bit 7 v) = push_bit bp v"
proof (rule bit_eqI)
  fix n
  show "bit (push_bit bp (ucast (take_bit 7 v)) OR push_bit (bp + 7) (drop_bit 7 v)) n
      = bit (push_bit bp v) n"
  proof (cases "bp + 7 \<le> n")
    case True
    then have "7 + (n - (bp + 7)) = n - bp" by simp
    with True show ?thesis by (auto simp: bit_simps)
  next
    case False
    then show ?thesis by (auto simp: bit_simps)
  qed
qed

lemma varint_dec_loop_step:
  assumes "istream_ok s" and "i_avail s = b # bs" and "b AND 0x80 \<noteq> 0" and "\<not> bitpos \<ge> 64"
  shows "varint_dec_loop io s bitpos result =
    varint_dec_loop io (i_adv s 1) (bitpos + 7)
      (result OR push_bit (unat bitpos) (ucast (b AND 0x7F)))"
  using assms by (subst varint_dec_loop.simps) (simp add: pb_readbyte_ok Let_def)

lemma varint_dec_loop_last:
  assumes "istream_ok s" and "i_avail s = b # bs" and "b AND 0x80 = 0" and "\<not> bitpos \<ge> 64"
  shows "varint_dec_loop io s bitpos result =
    (True, i_adv s 1, result OR push_bit (unat bitpos) (ucast (b AND 0x7F)))"
  using assms by (subst varint_dec_loop.simps) (simp add: pb_readbyte_ok Let_def)

text \<open>The decoding loop inverts the encoder from any bit position at which the value still fits.\<close>

lemma varint_dec_loop_buffer:
  assumes "istream_ok s" and "i_avail s = varint_buffer v @ rest"
    and "unat bitpos < 64" and "unat v < 2 ^ (64 - unat bitpos)"
  shows "varint_dec_loop io s bitpos result =
    (True, i_adv s (length (varint_buffer v)), result OR push_bit (unat bitpos) v)"
  using assms
proof (induction "unat v" arbitrary: v s bitpos result rule: less_induct)
  case less
  have lt: "\<not> bitpos \<ge> 64" using less.prems(3) by (simp add: word_le_nat_alt)
  show ?case
  proof (cases "v \<le> 0x7F")
    case True
    then show ?thesis
      using less.prems last_byte [OF True] lt
      by (simp add: varint_buffer_small varint_dec_loop_last)
  next
    case False
    let ?b = "ucast ((v AND 0x7F) OR 0x80) :: byte" and ?w = "drop_bit 7 v"
    have buf: "varint_buffer v = ?b # varint_buffer ?w"
      using False by (rule varint_buffer_large)
    have ge: "128 \<le> unat v" using False by (simp add: unat_le_7F)
    have "(2::nat) ^ 7 < 2 ^ (64 - unat bitpos)"
      using ge less.prems(4) by simp
    then have bp: "7 < 64 - unat bitpos"
      using power_less_imp_less_exp [of "2::nat" 7 "64 - unat bitpos"] by simp
    have unat7: "unat (bitpos + 7) = unat bitpos + 7"
      using less.prems(3) by (simp add: unat_add_no_wrap)
    have smaller: "unat ?w < unat v"
      using ge by (simp add: unat_drop_bit)
    have "unat v < 128 * 2 ^ (64 - (unat bitpos + 7))"
      using less.prems(4) bp power_add [of "2::nat" 7 "64 - unat bitpos - 7"] by simp
    then have fits: "unat ?w < 2 ^ (64 - unat (bitpos + 7))"
      by (simp add: unat7 unat_drop_bit less_mult_imp_div_less mult.commute)
    have ok1: "istream_ok (i_adv s 1)" and av1: "i_avail (i_adv s 1) = varint_buffer ?w @ rest"
      using less.prems(1,2) buf by (auto intro: istream_ok_adv)
    have "varint_dec_loop io s bitpos result = varint_dec_loop io (i_adv s 1) (bitpos + 7)
        (result OR push_bit (unat bitpos) (ucast (take_bit 7 v)))"
      using less.prems(1,2) buf cont_byte(1) [of v] cont_byte(2) [of v, where 'a = 64] lt
      by (simp add: varint_dec_loop_step)
    also have "\<dots> = (True, i_adv (i_adv s 1) (length (varint_buffer ?w)),
        (result OR push_bit (unat bitpos) (ucast (take_bit 7 v))) OR push_bit (unat (bitpos + 7)) ?w)"
      using less.hyps [OF smaller ok1 av1 _ fits] bp unat7 by simp
    also have "\<dots> = (True, i_adv s (length (varint_buffer v)), result OR push_bit (unat bitpos) v)"
      using varint_join [of "unat bitpos" v] by (simp add: buf unat7 or.assoc)
    finally show ?thesis .
  qed
qed

section \<open>Every decoder is a consuming step\<close>

lemma varint_dec_loop_consumes:
  "istream_ok s \<Longrightarrow> varint_dec_loop io s bitpos result = (ok, s', v) \<Longrightarrow> i_sub s s'"
proof (induction io s bitpos result rule: varint_dec_loop.induct)
  case (1 io s bitpos result)
  obtain r s1 b where rb: "pb_readbyte io s = (r, s1, b)"
    by (cases "pb_readbyte io s")
  have s1: "i_sub s s1" using readbyte.consumes [OF "1.prems"(1) rb] .
  have IH: "\<not> bitpos \<ge> 64 \<Longrightarrow> r \<Longrightarrow> b AND 0x80 \<noteq> 0 \<Longrightarrow>
      varint_dec_loop io s1 (bitpos + 7) (result OR push_bit (unat bitpos) (ucast (b AND 0x7F)))
        = (ok, s', v) \<Longrightarrow> i_sub s1 s'"
    using "1.IH" [of r "(s1, b)" s1 b] rb i_sub_ok [OF "1.prems"(1) s1] by auto
  show ?case
    using "1.prems"(2) rb s1 IH i_sub_trans [OF "1.prems"(1) s1, of s']
    by (subst (asm) varint_dec_loop.simps) (auto simp: Let_def split: if_splits bool.splits)
qed

interpretation varint: stream_reader "pb_decode_varint io" for io
  by unfold_locales (auto simp: pb_decode_varint_def dest: varint_dec_loop_consumes)

lemma varint32_loop_consumes:
  "istream_ok s \<Longrightarrow> varint32_loop io s result bitpos = (ok, s', v) \<Longrightarrow> i_sub s s'"
proof (induction io s result bitpos rule: varint32_loop.induct)
  case (1 io s result bitpos)
  obtain r s1 b where rb: "pb_readbyte io s = (r, s1, b)"
    by (cases "pb_readbyte io s")
  have s1: "i_sub s s1" using readbyte.consumes [OF "1.prems"(1) rb] .
  have ok1: "istream_ok s1" using "1.prems"(1) s1 by (rule i_sub_ok)
  show ?case
    using varint32_loop.simps [of io s result bitpos, unfolded "1.prems"(2)] rb s1 ok1
      "1.IH" [of r "(s1, b)" s1 b] i_sub_trans [OF "1.prems"(1) s1, of s']
    by (auto simp: Let_def split: if_splits bool.splits)
qed

interpretation varint32_eof: stream_reader "pb_decode_varint32_eof io" for io
proof
  fix s s' :: pb_istream_t and ok v
  assume ok: "istream_ok s" and r: "pb_decode_varint32_eof io s = (ok, s', v)"
  obtain k s1 b where rb: "pb_readbyte io s = (k, s1, b)"
    by (cases "pb_readbyte io s")
  have s1: "i_sub s s1" using readbyte.consumes [OF ok rb] .
  obtain k2 s2 v2 where lp: "varint32_loop io s1 (ucast (b AND 0x7F)) 7 = (k2, s2, v2)"
    by (cases "varint32_loop io s1 (ucast (b AND 0x7F)) 7")
  have "i_sub s1 s2" using varint32_loop_consumes [OF i_sub_ok [OF ok s1] lp] .
  then have "i_sub s s2" using i_sub_trans [OF ok s1] by simp
  then show "i_sub s s'"
    using r rb lp s1
    by (auto simp: pb_decode_varint32_eof_def split: if_splits bool.splits prod.splits)
qed

interpretation varint32: stream_reader "pb_decode_varint32 io" for io
  by unfold_locales
     (auto simp: pb_decode_varint32_def split: prod.splits dest: varint32_eof.consumes)

interpretation tag: stream_reader "pb_decode_tag io" for io
  by unfold_locales
     (auto simp: pb_decode_tag_def split: prod.splits bool.splits if_splits dest: varint32_eof.consumes)

interpretation svarint: stream_reader "pb_decode_svarint io" for io
  by unfold_locales
     (auto simp: pb_decode_svarint_def split: prod.splits bool.splits dest: varint.consumes)

interpretation fixed32: stream_reader "pb_decode_fixed32 io" for io
  by unfold_locales
     (auto simp: pb_decode_fixed32_def split: prod.splits bool.splits dest: read.consumes)

interpretation fixed64: stream_reader "pb_decode_fixed64 io" for io
  by unfold_locales
     (auto simp: pb_decode_fixed64_def split: prod.splits bool.splits dest: read.consumes)

interpretation dec_bool: stream_reader "pb_dec_bool io" for io
  by unfold_locales
     (auto simp: pb_dec_bool_def split: prod.splits bool.splits dest: varint32.consumes)


text \<open>Operations without a result value, seen as readers of \<open>()\<close>.\<close>

definition no_value :: "(pb_istream_t \<Rightarrow> bool \<times> pb_istream_t) \<Rightarrow> pb_istream_t \<Rightarrow> bool \<times> pb_istream_t \<times> unit" where
  "no_value f s = (case f s of (ok, s') \<Rightarrow> (ok, s', ()))"

lemma pb_skip_varint_consumes:
  "istream_ok s \<Longrightarrow> pb_skip_varint io s = (ok, s') \<Longrightarrow> i_sub s s'"
proof (induction io s rule: pb_skip_varint.induct)
  case (1 io s)
  obtain r s1 d where rd: "pb_read io s True 1 = (r, s1, d)"
    by (cases "pb_read io s True 1")
  have s1: "i_sub s s1" using read.consumes [OF "1.prems"(1) rd] .
  have ok1: "istream_ok s1" using "1.prems"(1) s1 by (rule i_sub_ok)
  show ?case
    using pb_skip_varint.simps [of io s, unfolded "1.prems"(2)] rd s1 ok1
      "1.IH" [of r "(s1, d)" s1 d] i_sub_trans [OF "1.prems"(1) s1, of s']
    by (auto split: if_splits bool.splits)
qed

lemma pb_skip_string_consumes:
  assumes ok: "istream_ok s" and r: "pb_skip_string io s = (k, s')"
  shows "i_sub s s'"
proof -
  obtain k1 s1 len where d: "pb_decode_varint32 io s = (k1, s1, len)"
    by (cases "pb_decode_varint32 io s")
  have s1: "i_sub s s1" using varint32.consumes [OF ok d] .
  obtain k2 s2 x where rd: "pb_read io s1 False (ucast len) = (k2, s2, x)"
    by (cases "pb_read io s1 False (ucast len)")
  have "i_sub s s2"
    using i_sub_trans [OF ok s1] read.consumes [OF i_sub_ok [OF ok s1] rd] by blast
  then show ?thesis
    using r d rd s1 by (auto simp: pb_skip_string_def split: bool.splits)
qed

interpretation skip_field: stream_reader "no_value (\<lambda>s. pb_skip_field io s wt)" for io wt
proof
  fix s s' :: pb_istream_t and ok v
  assume "istream_ok s" and "no_value (\<lambda>s. pb_skip_field io s wt) s = (ok, s', v)"
  then show "i_sub s s'"
    by (auto simp: no_value_def pb_skip_field_def split: if_splits prod.splits
        dest: pb_skip_varint_consumes pb_skip_string_consumes read.consumes)
qed

lemma raw_varint_loop_consumes:
  "istream_ok s \<Longrightarrow> raw_varint_loop io s m acc = (ok, s', v) \<Longrightarrow> i_sub s s'"
proof (induction io s m acc rule: raw_varint_loop.induct)
  case (1 io s m acc)
  obtain r s1 d where rd: "pb_read io s True 1 = (r, s1, d)"
    by (cases "pb_read io s True 1")
  have s1: "i_sub s s1" using read.consumes [OF "1.prems"(1) rd] .
  have ok1: "istream_ok s1" using "1.prems"(1) s1 by (rule i_sub_ok)
  show ?case
    using raw_varint_loop.simps [of io s m acc, unfolded "1.prems"(2)] rd s1 ok1
      "1.IH" [of r "(s1, d)" s1 d "hd (d @ [0])"] i_sub_trans [OF "1.prems"(1) s1, of s'] "1.prems"(1)
    by (auto simp: Let_def split: if_splits bool.splits)
qed

interpretation raw_value: stream_reader "\<lambda>s. read_raw_value io s wt m" for io wt m
  by unfold_locales
     (auto simp: read_raw_value_def split: if_splits dest: raw_varint_loop_consumes read.consumes)

text \<open>\<^verbatim>\<open>read_raw_value\<close> never stores more than the \<^verbatim>\<open>max_size\<close> bytes its buffer has.\<close>

lemma raw_varint_loop_bound:
  "raw_varint_loop io s m acc = (ok, s', v) \<Longrightarrow> length acc \<le> m \<Longrightarrow> length v \<le> m"
proof (induction io s m acc rule: raw_varint_loop.induct)
  case (1 io s m acc)
  obtain r s1 d where rd: "pb_read io s True 1 = (r, s1, d)"
    by (cases "pb_read io s True 1")
  show ?case
    using raw_varint_loop.simps [of io s m acc, unfolded "1.prems"(1)] rd "1.prems"(2)
      "1.IH" [of r "(s1, d)" s1 d "hd (d @ [0])"]
    by (auto simp: Let_def split: if_splits bool.splits)
qed

section \<open>Substreams\<close>

lemma make_substream:
  assumes ok: "istream_ok s" and mk: "pb_make_string_substream io s = (True, s1, sub)"
  obtains s0 n where "i_sub s s0" and "istream_ok s0" and "n \<le> length (i_avail s0)"
    and "s1 = s0\<lparr>bytes_left := bytes_left s0 - word_of_nat n\<rparr>"
    and "sub = s0\<lparr>bytes_left := word_of_nat n\<rparr>" and "n < 2 ^ 32"
proof -
  obtain k s0 sz where d: "pb_decode_varint32 io s = (k, s0, sz)"
    by (cases "pb_decode_varint32 io s")
  have sub0: "i_sub s s0" using varint32.consumes [OF ok d] .
  have ok0: "istream_ok s0" using i_sub_ok [OF ok sub0] .
  have "\<not> bytes_left s0 < ucast sz" and
    eq: "s1 = s0\<lparr>bytes_left := bytes_left s0 - ucast sz\<rparr>" "sub = s0\<lparr>bytes_left := ucast sz\<rparr>"
    using mk d by (auto simp: pb_make_string_substream_def split: bool.splits if_splits)
  then have "unat sz \<le> length (i_avail s0)"
    using length_i_avail [OF ok0] by (simp add: word_less_nat_alt unat_ucast_up)
  moreover have "(ucast sz :: size_t) = word_of_nat (unat sz)"
    by simp
  moreover have "unat sz < 2 ^ 32" using unat_lt [of sz] by simp
  ultimately show ?thesis
    using that [of s0 "unat sz"] sub0 ok0 eq by simp
qed

text \<open>Closing a substream, after any reading on it, leaves the parent exactly behind the string:
  the parent's bytes are what the length prefix took, the string, and what is left.\<close>

lemma close_substream:
  assumes ok0: "istream_ok s0" and n: "n \<le> length (i_avail s0)"
    and s1: "s1 = s0\<lparr>bytes_left := bytes_left s0 - word_of_nat n\<rparr>"
    and sub: "sub = s0\<lparr>bytes_left := word_of_nat n\<rparr>" and rd: "i_sub sub sub'"
  obtains s2 e sub2 where "pb_close_string_substream io s1 sub' = (True, s2, sub2)"
    and "s2 = (i_adv s0 n)\<lparr>i_errmsg := e\<rparr>" and "istream_ok s2"
proof -
  have "n < 2 ^ 64"
    using n length_i_avail [OF ok0] unat_lt [of "bytes_left s0"] by simp
  then have un: "unat (word_of_nat n :: size_t) = n"
    by (simp add: unat_of_nat_small)
  have oksub: "istream_ok sub"
    using ok0 n length_i_avail [OF ok0] un by (simp add: istream_ok_def sub)
  have avsub: "length (i_avail sub) = n"
    using length_i_avail [OF oksub] un by (simp add: sub)
  obtain m e where m: "m \<le> n" and sub': "sub' = (i_adv sub m)\<lparr>i_errmsg := e\<rparr>"
    using rd avsub by (auto simp: i_sub_def)
  have ok': "istream_ok sub'" and av': "length (i_avail sub') = n - m"
    using oksub avsub m by (auto simp: sub' istream_ok_adv)
  have left: "unat (bytes_left sub') = n - m"
    using length_i_avail [OF ok'] av' by simp
  have rdall: "pb_read io sub' False (bytes_left sub') =
      (True, i_adv sub' (n - m), take (n - m) (i_avail sub'))"
    using pb_read_ok [OF ok', of "bytes_left sub'"] av' left by simp
  have pos: "i_pos (i_adv sub' (n - m)) = i_pos s0 + n"
    using m by (simp add: sub' i_adv_def sub)
  have res: "pb_close_string_substream io s1 sub' =
      (True, s1\<lparr>i_buf := i_buf s0, i_pos := i_pos s0 + n, i_ub := i_ub s0, i_errmsg := e\<rparr>,
       if bytes_left sub' \<noteq> 0 then i_adv sub' (n - m) else sub')"
  proof (cases "bytes_left sub' = 0")
    case True
    then have "n = m" using left m by simp
    with True show ?thesis
      by (simp add: pb_close_string_substream_def sub' sub i_adv_def)
  next
    case False
    then show ?thesis
      using rdall pos by (simp add: pb_close_string_substream_def) (simp add: sub' sub i_adv_def)
  qed
  moreover have eq: "s1\<lparr>i_buf := i_buf s0, i_pos := i_pos s0 + n, i_ub := i_ub s0, i_errmsg := e\<rparr>
      = (i_adv s0 n)\<lparr>i_errmsg := e\<rparr>"
    by (simp add: s1 i_adv_def)
  ultimately show ?thesis
    using that istream_ok_adv [OF ok0 n] by auto
qed

section \<open>Codecs\<close>

text \<open>A wire codec: a decoder that returns what the encoder wrote and consumes exactly that. Two
  consequences are proved once for all codecs: the code is prefix-free, and a sequence of values
  written one after another (a packed array) is read back by reading as often.\<close>

fun dec_seq ::
    "(pb_istream_t \<Rightarrow> bool \<times> pb_istream_t \<times> 'v) \<Rightarrow> nat \<Rightarrow> pb_istream_t \<Rightarrow> bool \<times> pb_istream_t \<times> 'v list" where
  "dec_seq dec 0 s = (True, s, [])"
| "dec_seq dec (Suc n) s =
     (case dec s of
        (False, s', v) \<Rightarrow> (False, s', [])
      | (True, s', v) \<Rightarrow> (case dec_seq dec n s' of (ok, s'', vs) \<Rightarrow> (ok, s'', v # vs)))"

locale wire_codec =
  fixes enc :: "'v \<Rightarrow> byte list"
    and dec :: "pb_istream_t \<Rightarrow> bool \<times> pb_istream_t \<times> 'v"
    and valid :: "'v \<Rightarrow> bool"
  assumes dec_enc: "valid v \<Longrightarrow> istream_ok s \<Longrightarrow> i_avail s = enc v @ rest \<Longrightarrow>
    dec s = (True, i_adv s (length (enc v)), v)"
begin

lemma seq_roundtrip:
  "list_all valid vs \<Longrightarrow> istream_ok s \<Longrightarrow> i_avail s = concat (map enc vs) @ rest \<Longrightarrow>
    dec_seq dec (length vs) s = (True, i_adv s (length (concat (map enc vs))), vs)"
proof (induction vs arbitrary: s)
  case Nil
  then show ?case by simp
next
  case (Cons v vs)
  then have "dec s = (True, i_adv s (length (enc v)), v)"
    by (simp add: dec_enc)
  moreover have "dec_seq dec (length vs) (i_adv s (length (enc v))) =
      (True, i_adv (i_adv s (length (enc v))) (length (concat (map enc vs))), vs)"
    using Cons.prems by (intro Cons.IH) (auto intro!: istream_ok_adv)
  ultimately show ?case by simp
qed

lemma prefix_free:
  assumes "valid v" and "valid w" and "enc v @ r = enc w @ r'" and "length (enc v @ r) < 2 ^ 64"
  shows "v = w"
proof -
  define s where "s = pb_istream_from_buffer (enc v @ r) (word_of_nat (length (enc v @ r)))"
  have "unat (bytes_left s) = length (enc v @ r)"
    using assms(4) by (simp add: s_def pb_istream_from_buffer_def unat_of_nat_small flip: of_nat_add)
  then have ok: "istream_ok s" and av: "i_avail s = enc v @ r"
    by (simp_all add: istream_ok_def i_avail_def s_def pb_istream_from_buffer_def)
  have "dec s = (True, i_adv s (length (enc v)), v)"
    using dec_enc [OF assms(1) ok av] .
  moreover have "dec s = (True, i_adv s (length (enc w)), w)"
    using dec_enc [OF assms(2) ok] av assms(3) by simp
  ultimately show ?thesis by simp
qed

end

interpretation varint_codec: wire_codec varint_buffer "pb_decode_varint io" "\<lambda>_. True" for io
proof
  fix v s rest
  assume "istream_ok s" and "i_avail s = varint_buffer v @ rest"
  then show "pb_decode_varint io s = (True, i_adv s (length (varint_buffer v)), v)"
    using varint_dec_loop_buffer [of s v rest 0 io 0] unat_lt [of v]
    by (simp add: pb_decode_varint_def)
qed

lemma bit_shift_back:
  fixes v :: "64 word"
  assumes "n < 64"
  shows "bit (drop_bit k (push_bit k v)) n \<longleftrightarrow> n + k < 64 \<and> bit v n"
    and "bit (NOT (drop_bit k (NOT (push_bit k v)))) n \<longleftrightarrow> (n + k < 64 \<longrightarrow> bit v n)"
  using assms by (auto simp: bit_simps)

lemma unzigzag_zigzag [simp]: "unzigzag (zigzag v) = v"
proof (cases "sint v < 0")
  case True
  then have msb: "bit v 63" using bit_last_iff [of v] by simp
  have "NOT (drop_bit 1 (NOT (push_bit 1 v))) = v"
  proof (rule bit_word_eqI)
    fix n assume n: "n < LENGTH(64)"
    then have "n < 64" by simp
    moreover have "n = 63 \<or> n + 1 < 64" using n by auto
    ultimately show "bit (NOT (drop_bit 1 (NOT (push_bit 1 v)))) n = bit v n"
      unfolding bit_shift_back(2) [OF \<open>n < 64\<close>] using msb by auto
  qed
  moreover have "NOT (push_bit 1 v) AND 1 \<noteq> 0"
    by (simp add: and_one_eq mod_2_eq_odd)
  ultimately show ?thesis
    using True by (simp only: zigzag_def unzigzag_def if_True not_False_eq_True)
next
  case False
  then have msb: "\<not> bit v 63" using bit_last_iff [of v] by simp
  have "drop_bit 1 (push_bit 1 v) = v"
  proof (rule bit_word_eqI)
    fix n assume n: "n < LENGTH(64)"
    then have "n < 64" by simp
    moreover have "n = 63 \<or> n + 1 < 64" using n by auto
    ultimately show "bit (drop_bit 1 (push_bit 1 v)) n = bit v n"
      unfolding bit_shift_back(1) [OF \<open>n < 64\<close>] using msb by auto
  qed
  moreover have "push_bit 1 v AND 1 = 0"
    by (simp add: and_one_eq mod_2_eq_odd)
  ultimately show ?thesis
    using False by (simp only: zigzag_def unzigzag_def if_False simp_thms)
qed

interpretation svarint_codec: wire_codec "\<lambda>v. varint_buffer (zigzag v)" "pb_decode_svarint io" "\<lambda>_. True" for io
  by unfold_locales (simp add: pb_decode_svarint_def varint_codec.dec_enc)

lemma fixed32_value_bytes [simp]: "fixed32_value (fixed32_bytes v) = v"
proof -
  have "fixed32_value (fixed32_bytes v) =
      ((take_bit 8 v OR push_bit 8 (take_bit 8 (drop_bit 8 v)))
        OR push_bit 16 (take_bit 8 (drop_bit 16 v))) OR push_bit 24 (take_bit 8 (drop_bit 24 v))"
    by (simp add: fixed32_value_def fixed32_bytes_def ucast_byte_ucast or.assoc)
  also have "\<dots> = take_bit 32 v" by (simp only: take_bit_joins)
  finally show ?thesis by (simp add: take_bit_word_eq_self)
qed

lemma fixed64_value_bytes [simp]: "fixed64_value (fixed64_bytes v) = v"
proof -
  have "fixed64_value (fixed64_bytes v) =
      ((((((take_bit 8 v OR push_bit 8 (take_bit 8 (drop_bit 8 v)))
        OR push_bit 16 (take_bit 8 (drop_bit 16 v))) OR push_bit 24 (take_bit 8 (drop_bit 24 v)))
        OR push_bit 32 (take_bit 8 (drop_bit 32 v))) OR push_bit 40 (take_bit 8 (drop_bit 40 v)))
        OR push_bit 48 (take_bit 8 (drop_bit 48 v))) OR push_bit 56 (take_bit 8 (drop_bit 56 v))"
    by (simp add: fixed64_value_def fixed64_bytes_def ucast_byte_ucast or.assoc)
  also have "\<dots> = take_bit 64 v" by (simp only: take_bit_joins)
  finally show ?thesis by (simp add: take_bit_word_eq_self)
qed

lemma length_fixed_bytes [simp]:
  "length (fixed32_bytes v) = 4" "length (fixed64_bytes w) = 8"
  by (simp_all add: fixed32_bytes_def fixed64_bytes_def)

interpretation fixed32_codec: wire_codec fixed32_bytes "pb_decode_fixed32 io" "\<lambda>_. True" for io
  by unfold_locales (simp add: pb_decode_fixed32_def pb_read_ok)

interpretation fixed64_codec: wire_codec fixed64_bytes "pb_decode_fixed64 io" "\<lambda>_. True" for io
  by unfold_locales (simp add: pb_decode_fixed64_def pb_read_ok)

subsection \<open>32-bit varints\<close>

text \<open>From bit position \<open>bp \<le> 28\<close> on, a value that fits in the remaining bits is read back by the
  32-bit loop, and the overflow test that follows the loop does not fire.\<close>

lemma varint32_loop_step:
  assumes "istream_ok s" and "i_avail s = b # bs" and "b AND 0x80 \<noteq> 0" and "\<not> bitpos \<ge> 32"
  shows "varint32_loop io s result bitpos =
    varint32_loop io (i_adv s 1) (result OR push_bit (unat bitpos) (ucast (b AND 0x7F))) (bitpos + 7)"
  using assms by (subst varint32_loop.simps) (simp add: pb_readbyte_ok Let_def)

lemma varint32_loop_last:
  assumes "istream_ok s" and "i_avail s = b # bs" and "b AND 0x80 = 0" and "\<not> bitpos \<ge> 32"
  shows "varint32_loop io s result bitpos =
    (True, i_adv s 1, result OR push_bit (unat bitpos) (ucast (b AND 0x7F)), bitpos + 7, b)"
  using assms by (subst varint32_loop.simps) (simp add: pb_readbyte_ok Let_def)

lemma varint_join32:
  fixes v :: uint64
  shows "push_bit bp (ucast (take_bit 7 v)) OR push_bit (bp + 7) (ucast (drop_bit 7 v))
    = push_bit bp (ucast v :: uint32)"
proof (rule bit_eqI)
  fix n
  show "bit (push_bit bp (ucast (take_bit 7 v)) OR push_bit (bp + 7) (ucast (drop_bit 7 v)) :: uint32) n
      = bit (push_bit bp (ucast v :: uint32)) n"
  proof (cases "bp + 7 \<le> n")
    case True
    then have "7 + (n - (bp + 7)) = n - bp" by simp
    with True show ?thesis by (auto simp: bit_simps)
  next
    case False
    then show ?thesis by (auto simp: bit_simps)
  qed
qed

lemma and_70_eq_0: "unat (v :: uint64) < 16 \<Longrightarrow> (ucast v :: byte) AND 0x70 = 0"
proof -
  assume lt: "unat v < 16"
  have t: "take_bit 4 v = v" by (simp add: word_unat_eq_iff unat_take_bit lt)
  have m: "(0x70 :: byte) = push_bit 4 0x07" by simp
  show ?thesis
  proof (rule bit_word_eqI)
    fix n assume "n < LENGTH(8)"
    have "bit v n \<Longrightarrow> n < 4" using t by (metis bit_take_bit_iff)
    then show "bit ((ucast v :: byte) AND 0x70) n = bit (0 :: byte) n"
      unfolding m by (auto simp: bit_simps simp del: push_bit_numeral)
  qed
qed

lemma varint32_loop_buffer:
  assumes "istream_ok s" and "i_avail s = varint_buffer v @ rest"
    and "unat bitpos \<le> 28" and "unat v < 2 ^ (32 - unat bitpos)" and "7 dvd unat bitpos"
  shows "\<exists>bp b. varint32_loop io s result bitpos =
      (True, i_adv s (length (varint_buffer v)), result OR push_bit (unat bitpos) (ucast v), bp, b) \<and>
      (bp = 35 \<longrightarrow> b AND 0x70 = 0)"
  using assms
proof (induction "unat v" arbitrary: v s bitpos result rule: less_induct)
  case less
  have lt: "\<not> bitpos \<ge> 32" using less.prems(3) by (simp add: word_le_nat_alt)
  have unat7: "unat (bitpos + 7) = unat bitpos + 7"
    using less.prems(3) by (simp add: unat_add_no_wrap)
  show ?case
  proof (cases "v \<le> 0x7F")
    case True
    have "bitpos + 7 = 35 \<Longrightarrow> unat v < 16"
    proof -
      assume "bitpos + 7 = 35"
      then have "unat bitpos + 7 = 35" using unat7 by simp
      then show "unat v < 16" using less.prems(4) by simp
    qed
    moreover have "(ucast ((ucast v :: byte) AND 0x7F) :: uint32) = ucast v"
    proof -
      have "(ucast ((ucast v :: byte) AND 0x7F) :: uint32)
          = ucast (ucast ((ucast v :: byte) AND 0x7F) :: uint64)"
        by (rule bit_eqI) (auto simp: bit_simps)
      then show ?thesis using last_byte(2) [OF True] by simp
    qed
    ultimately show ?thesis
      using less.prems last_byte(1) [OF True] lt True
      by (simp add: varint_buffer_small varint32_loop_last and_70_eq_0)
  next
    case False
    let ?b = "ucast ((v AND 0x7F) OR 0x80) :: byte" and ?w = "drop_bit 7 v"
    let ?r = "result OR push_bit (unat bitpos) (ucast (take_bit 7 v))"
    have buf: "varint_buffer v = ?b # varint_buffer ?w"
      using False by (rule varint_buffer_large)
    have ge: "128 \<le> unat v" using False by (simp add: unat_le_7F)
    have "(2::nat) ^ 7 < 2 ^ (32 - unat bitpos)"
      using ge less.prems(4) by simp
    then have bp: "7 < 32 - unat bitpos"
      using power_less_imp_less_exp [of "2::nat" 7 "32 - unat bitpos"] by simp
    have smaller: "unat ?w < unat v"
      using ge by (simp add: unat_drop_bit)
    have "unat v < 128 * 2 ^ (32 - (unat bitpos + 7))"
      using less.prems(4) bp power_add [of "2::nat" 7 "32 - unat bitpos - 7"] by simp
    then have fits: "unat ?w < 2 ^ (32 - unat (bitpos + 7))"
      by (simp add: unat7 unat_drop_bit less_mult_imp_div_less mult.commute)
    have ok1: "istream_ok (i_adv s 1)" and av1: "i_avail (i_adv s 1) = varint_buffer ?w @ rest"
      using less.prems(1,2) buf by (auto intro: istream_ok_adv)
    have bp28: "unat (bitpos + 7) \<le> 28"
      using bp less.prems(5) by (auto simp: unat7 dvd_def)
    have dvd: "7 dvd unat (bitpos + 7)"
      using less.prems(5) by (simp add: unat7)
    have step: "varint32_loop io s result bitpos = varint32_loop io (i_adv s 1) ?r (bitpos + 7)"
      using less.prems(1,2) buf cont_byte(1) [of v] cont_byte(2) [of v, where 'a = 32] lt
      by (simp add: varint32_loop_step)
    have join: "?r OR push_bit (unat (bitpos + 7)) (ucast ?w) = result OR push_bit (unat bitpos) (ucast v)"
      using varint_join32 [of "unat bitpos" v] by (simp add: unat7 or.assoc)
    show ?thesis
      using less.hyps [OF smaller ok1 av1 bp28 fits dvd, of ?r] step join buf by simp
  qed
qed

lemma varint32_eof_buffer:
  fixes v :: uint32
  assumes ok: "istream_ok s" and av: "i_avail s = varint_buffer (ucast v) @ rest"
  shows "pb_decode_varint32_eof io s = (True, i_adv s (length (varint_buffer (ucast v))), v, False)"
proof (cases "(ucast v :: uint64) \<le> 0x7F")
  case True
  have "(ucast (ucast v :: byte) :: uint32) = v"
  proof -
    have "unat v < 128" using True by (simp add: unat_le_7F unat_ucast_up)
    then have "take_bit 8 v = v" by (simp add: word_unat_eq_iff unat_take_bit)
    then show ?thesis by (simp add: unsigned_ucast_eq)
  qed
  moreover have "(ucast (ucast v :: uint64) :: byte) = ucast v"
    by (rule bit_eqI) (auto simp: bit_simps)
  ultimately show ?thesis
    using True ok av last_byte(1) [OF True]
    by (simp add: pb_decode_varint32_eof_def varint_buffer_small pb_readbyte_ok)
next
  case False
  let ?v = "ucast v :: uint64"
  let ?b = "ucast ((?v AND 0x7F) OR 0x80) :: byte" and ?w = "drop_bit 7 ?v"
  have buf: "varint_buffer ?v = ?b # varint_buffer ?w"
    using False by (rule varint_buffer_large)
  have rb: "pb_readbyte io s = (True, i_adv s 1, ?b)"
    using ok av buf by (simp add: pb_readbyte_ok)
  have ok1: "istream_ok (i_adv s 1)" and av1: "i_avail (i_adv s 1) = varint_buffer ?w @ rest"
    using ok av buf by (auto intro: istream_ok_adv)
  have fits: "unat ?w < 2 ^ (32 - unat (7::byte))"
    using unat_lt [of v] by (simp add: unat_drop_bit unat_ucast_up less_mult_imp_div_less)
  obtain bp b where lp: "varint32_loop io (i_adv s 1) (ucast (take_bit 7 ?v)) 7 =
      (True, i_adv (i_adv s 1) (length (varint_buffer ?w)),
       ucast (take_bit 7 ?v) OR push_bit (unat (7::byte)) (ucast ?w), bp, b)"
    and b70: "bp = 35 \<longrightarrow> b AND 0x70 = 0"
    using varint32_loop_buffer [OF ok1 av1 _ fits, of io "ucast (take_bit 7 ?v)"] by auto
  have "ucast (take_bit 7 ?v) OR push_bit (unat (7::byte)) (ucast ?w) = v"
    using varint_join32 [of 0 ?v] ucast_ucast_up [of v] by simp
  then show ?thesis
    using rb lp b70 cont_byte(1) [of ?v] cont_byte(2) [of ?v, where 'a = 32] buf
    by (auto simp: pb_decode_varint32_eof_def)
qed

interpretation varint32_codec: wire_codec "\<lambda>v. varint_buffer (ucast v)" "pb_decode_varint32 io" "\<lambda>_. True" for io
  by unfold_locales (simp add: pb_decode_varint32_def varint32_eof_buffer)

interpretation bool_codec: wire_codec "\<lambda>b. varint_buffer (if b then 1 else 0)" "pb_dec_bool io" "\<lambda>_. True" for io
proof
  fix v s rest
  assume ok: "istream_ok s" and av: "i_avail s = varint_buffer (if v then 1 else 0) @ rest"
  then show "pb_dec_bool io s = (True, i_adv s (length (varint_buffer (if v then 1 else 0))), v)"
    using varint32_codec.dec_enc [OF _ ok, of "if v then 1 else 0" rest io]
    by (auto simp: pb_dec_bool_def split: if_splits)
qed

subsection \<open>Tags and strings\<close>

definition tag_value :: "pb_wire_type_t \<Rightarrow> uint32 \<Rightarrow> uint64" where
  "tag_value wiretype field_number = push_bit 3 (ucast field_number) OR ucast wiretype"

text \<open>Field numbers below \<open>2\<^sup>2\<^sup>9\<close> are the ones the protobuf format allows.\<close>

lemma tag_value_32:
  assumes "unat field_number < 2 ^ 29" and "unat wt < 8"
  shows "\<exists>t :: uint32. tag_value wt field_number = ucast t \<and> t AND 7 = wt \<and> drop_bit 3 t = field_number"
proof (intro exI conjI)
  let ?t = "push_bit 3 field_number OR wt"
  have t29: "take_bit 29 field_number = field_number" and t3: "take_bit 3 wt = wt"
    using assms by (simp_all add: word_unat_eq_iff unat_take_bit)
  have b29: "bit field_number n \<Longrightarrow> n < 29" and b3: "bit wt n \<Longrightarrow> n < 3" for n
    using t29 t3 by (metis bit_take_bit_iff)+
  show "tag_value wt field_number = ucast ?t"
    by (rule bit_eqI) (auto simp: tag_value_def bit_simps dest: b29 b3 simp del: push_bit_numeral)
  have "?t AND 7 = take_bit 3 ?t"
    by (simp add: take_bit_eq_mask mask_eq_exp_minus_1)
  also have "\<dots> = wt"
    by (rule bit_eqI) (auto simp: bit_simps dest: b3 simp del: push_bit_numeral)
  finally show "?t AND 7 = wt" .
  show "drop_bit 3 ?t = field_number"
    by (rule bit_eqI) (auto simp: bit_simps dest: b29 b3 simp del: push_bit_numeral)
qed

text \<open>The codec of tags: pairs of wire type and field number. Field number 0 is not allowed: tag 0
  is read as the end of the message.\<close>

definition valid_tag :: "pb_wire_type_t \<times> uint32 \<times> bool \<Rightarrow> bool" where
  "valid_tag = (\<lambda>(wt, n, eof). unat wt < 8 \<and> 0 < unat n \<and> unat n < 2 ^ 29 \<and> \<not> eof)"

interpretation tag_codec: wire_codec
  "\<lambda>(wt, n, eof). varint_buffer (tag_value wt n)" "pb_decode_tag io" valid_tag for io
proof
  fix v :: "pb_wire_type_t \<times> uint32 \<times> bool" and s rest
  assume valid: "valid_tag v" and ok: "istream_ok s"
    and av: "i_avail s = (case v of (wt, n, eof) \<Rightarrow> varint_buffer (tag_value wt n)) @ rest"
  obtain wt n where v: "v = (wt, n, False)" and wt: "unat wt < 8" and n: "0 < unat n" "unat n < 2 ^ 29"
    using valid by (cases v) (auto simp: valid_tag_def)
  obtain t :: uint32 where t: "tag_value wt n = ucast t" "t AND 7 = wt" "drop_bit 3 t = n"
    using tag_value_32 [OF n(2) wt] by blast
  have "t \<noteq> 0" using t(3) n(1) by auto
  then show "pb_decode_tag io s =
      (True, i_adv s (length (case v of (wt, n, eof) \<Rightarrow> varint_buffer (tag_value wt n))), v)"
    using varint32_eof_buffer [OF ok, of t rest io] av t
    by (auto simp: pb_decode_tag_def v)
qed

subsection \<open>The encoders meet the writing contract\<close>

lemma varint_writer: "stream_writer (\<lambda>s. Some (pb_encode_varint io s v)) (varint_buffer v)"
  unfolding pb_encode_varint_def
  using varint_buffer_le_10 [of v] by (intro stream_writer_write) simp_all

lemma svarint_writer:
  "stream_writer (\<lambda>s. Some (pb_encode_svarint io s v)) (varint_buffer (zigzag v))"
  unfolding pb_encode_svarint_def by (rule varint_writer)

lemma fixed32_writer: "stream_writer (\<lambda>s. Some (pb_encode_fixed32 io s v)) (fixed32_bytes v)"
  unfolding pb_encode_fixed32_def by (intro stream_writer_write) simp_all

lemma fixed64_writer: "stream_writer (\<lambda>s. Some (pb_encode_fixed64 io s v)) (fixed64_bytes v)"
  unfolding pb_encode_fixed64_def by (intro stream_writer_write) simp_all

lemma tag_writer:
  "stream_writer (\<lambda>s. Some (pb_encode_tag io s wt n)) (varint_buffer (tag_value wt n))"
  unfolding pb_encode_tag_def tag_value_def by (rule varint_writer)

lemma string_writer:
  assumes "length bs < 2 ^ 63" and "sz = word_of_nat (length bs)"
  shows "stream_writer (\<lambda>s. Some (pb_encode_string io s bs sz)) (varint_buffer sz @ bs)"
proof -
  have "(\<lambda>s. Some (pb_encode_string io s bs sz)) =
      and_then (\<lambda>s. Some (pb_encode_varint io s sz)) (\<lambda>s. Some (pb_write io s bs sz))"
    by (auto simp: fun_eq_iff and_then_def pb_encode_string_def split: prod.splits)
  then show ?thesis
    using stream_writer_and_then [OF varint_writer stream_writer_write [OF assms]] by simp
qed

interpretation varint_wr: stream_writer "\<lambda>s. Some (pb_encode_varint io s v)" "varint_buffer v" for io v
  by (rule varint_writer)

interpretation svarint_wr: stream_writer
  "\<lambda>s. Some (pb_encode_svarint io s v)" "varint_buffer (zigzag v)" for io v
  by (rule svarint_writer)

interpretation fixed32_wr: stream_writer "\<lambda>s. Some (pb_encode_fixed32 io s v)" "fixed32_bytes v" for io v
  by (rule fixed32_writer)

interpretation fixed64_wr: stream_writer "\<lambda>s. Some (pb_encode_fixed64 io s v)" "fixed64_bytes v" for io v
  by (rule fixed64_writer)

interpretation tag_wr: stream_writer
  "\<lambda>s. Some (pb_encode_tag io s wt n)" "varint_buffer (tag_value wt n)" for io wt n
  by (rule tag_writer)

end
