(* ===== verification/PbCommon.thy ===== *)
theory PbCommon
  imports PbWire
begin

text \<open>
  Field descriptors (pb.h) and the field iterator (pb_common.c). A descriptor array is the list of
  its entries, terminator included; an iterator's \<^verbatim>\<open>pos\<close> is an index into it. Message structs lie
  in a byte-addressed memory; multi-byte values are little-endian.
\<close>

section \<open>Descriptors\<close>

record pb_field_t =
  tag :: uint32
  type :: byte
  data_offset :: uint32
  size_offset :: "32 word"
  data_size :: uint32
  array_size :: uint32
  fptr :: ptr

definition PB_ATYPE :: "byte \<Rightarrow> byte" where "PB_ATYPE x = x AND 0xC0"
definition PB_HTYPE :: "byte \<Rightarrow> byte" where "PB_HTYPE x = x AND 0x30"
definition PB_LTYPE :: "byte \<Rightarrow> byte" where "PB_LTYPE x = x AND 0x0F"

abbreviation (input) PB_LTYPE_BOOL :: byte where "PB_LTYPE_BOOL \<equiv> 0x00"
abbreviation (input) PB_LTYPE_VARINT :: byte where "PB_LTYPE_VARINT \<equiv> 0x01"
abbreviation (input) PB_LTYPE_UVARINT :: byte where "PB_LTYPE_UVARINT \<equiv> 0x02"
abbreviation (input) PB_LTYPE_SVARINT :: byte where "PB_LTYPE_SVARINT \<equiv> 0x03"
abbreviation (input) PB_LTYPE_FIXED32 :: byte where "PB_LTYPE_FIXED32 \<equiv> 0x04"
abbreviation (input) PB_LTYPE_FIXED64 :: byte where "PB_LTYPE_FIXED64 \<equiv> 0x05"
abbreviation (input) PB_LTYPE_LAST_PACKABLE :: byte where "PB_LTYPE_LAST_PACKABLE \<equiv> 0x05"
abbreviation (input) PB_LTYPE_BYTES :: byte where "PB_LTYPE_BYTES \<equiv> 0x06"
abbreviation (input) PB_LTYPE_STRING :: byte where "PB_LTYPE_STRING \<equiv> 0x07"
abbreviation (input) PB_LTYPE_SUBMESSAGE :: byte where "PB_LTYPE_SUBMESSAGE \<equiv> 0x08"
abbreviation (input) PB_LTYPE_EXTENSION :: byte where "PB_LTYPE_EXTENSION \<equiv> 0x09"
abbreviation (input) PB_LTYPE_FIXED_LENGTH_BYTES :: byte where "PB_LTYPE_FIXED_LENGTH_BYTES \<equiv> 0x0A"
abbreviation (input) PB_HTYPE_REQUIRED :: byte where "PB_HTYPE_REQUIRED \<equiv> 0x00"
abbreviation (input) PB_HTYPE_OPTIONAL :: byte where "PB_HTYPE_OPTIONAL \<equiv> 0x10"
abbreviation (input) PB_HTYPE_REPEATED :: byte where "PB_HTYPE_REPEATED \<equiv> 0x20"
abbreviation (input) PB_HTYPE_ONEOF :: byte where "PB_HTYPE_ONEOF \<equiv> 0x30"
abbreviation (input) PB_ATYPE_STATIC :: byte where "PB_ATYPE_STATIC \<equiv> 0x00"
abbreviation (input) PB_ATYPE_POINTER :: byte where "PB_ATYPE_POINTER \<equiv> 0x80"
abbreviation (input) PB_ATYPE_CALLBACK :: byte where "PB_ATYPE_CALLBACK \<equiv> 0x40"
abbreviation (input) PB_SIZE_MAX :: uint32 where "PB_SIZE_MAX \<equiv> 0xFFFFFFFF"
abbreviation (input) sizeof_ptr :: size_t where "sizeof_ptr \<equiv> 8"

section \<open>Memory\<close>

definition mem_bytes :: "memory \<Rightarrow> ptr \<Rightarrow> nat \<Rightarrow> byte list" where
  "mem_bytes m p n = map (\<lambda>i. m (p + word_of_nat i)) [0..<n]"

definition load16 :: "memory \<Rightarrow> ptr \<Rightarrow> uint16" where
  "load16 m p = ucast (m p) OR push_bit 8 (ucast (m (p + 1)))"

definition load32 :: "memory \<Rightarrow> ptr \<Rightarrow> uint32" where
  "load32 m p = fixed32_value (mem_bytes m p 4)"

definition load64 :: "memory \<Rightarrow> ptr \<Rightarrow> uint64" where
  "load64 m p = fixed64_value (mem_bytes m p 8)"

section \<open>The field iterator\<close>

record pb_field_iter_t =
  it_start :: "pb_field_t list"
  it_pos :: nat
  required_field_index :: uint32
  dest_struct :: ptr
  pData :: ptr
  pSize :: ptr

definition cur :: "pb_field_iter_t \<Rightarrow> pb_field_t" where
  "cur it = it_start it ! it_pos it"

definition pb_field_iter_begin :: "pb_field_t list \<Rightarrow> ptr \<Rightarrow> bool \<times> pb_field_iter_t" where
  "pb_field_iter_begin fs dest =
     (let f = fs ! 0;
          d = (if dest = 0 then 0 else dest + ucast (data_offset f));
          z = (if dest = 0 then 0 else d + scast (size_offset f))
      in (tag f \<noteq> 0,
          \<lparr>it_start = fs, it_pos = 0, required_field_index = 0, dest_struct = dest,
           pData = d, pSize = z\<rparr>))"

definition prev_field_size :: "pb_field_t \<Rightarrow> size_t" where
  "prev_field_size f =
     (if PB_ATYPE (type f) = PB_ATYPE_STATIC \<and> PB_HTYPE (type f) = PB_HTYPE_REPEATED
      then ucast (data_size f) * ucast (array_size f)
      else if PB_ATYPE (type f) = PB_ATYPE_POINTER then sizeof_ptr
      else ucast (data_size f))"

definition pb_field_iter_next :: "pb_field_iter_t \<Rightarrow> bool \<times> pb_field_iter_t" where
  "pb_field_iter_next it =
     (let prev = cur it in
      if tag prev = 0 then (False, it)
      else
        let it1 = it\<lparr>it_pos := it_pos it + 1\<rparr>; f = cur it1 in
        if tag f = 0 then (False, snd (pb_field_iter_begin (it_start it) (dest_struct it)))
        else if PB_HTYPE (type prev) = PB_HTYPE_ONEOF \<and> PB_HTYPE (type f) = PB_HTYPE_ONEOF \<and>
                data_offset f = PB_SIZE_MAX
             then (True, it1)
        else
          let d = pData it + prev_field_size prev + ucast (data_offset f) in
          (True, it1\<lparr>required_field_index :=
                       (if PB_HTYPE (type prev) = PB_HTYPE_REQUIRED
                        then required_field_index it + 1 else required_field_index it),
                     pData := d, pSize := d + scast (size_offset f)\<rparr>))"

text \<open>The \<^verbatim>\<open>do\<close> loop of \<^verbatim>\<open>pb_field_iter_find\<close>, at most \<open>n\<close> times round: \<open>None\<close> if that was not enough.
  An array of \<open>n\<close> entries needs at most \<open>n\<close> rounds.\<close>

fun iter_find_loop :: "nat \<Rightarrow> uint32 \<Rightarrow> nat \<Rightarrow> pb_field_iter_t \<Rightarrow> (bool \<times> pb_field_iter_t) option" where
  "iter_find_loop 0 t start it = None"
| "iter_find_loop (Suc n) t start it =
     (if tag (cur it) = t \<and> PB_LTYPE (type (cur it)) \<noteq> PB_LTYPE_EXTENSION then Some (True, it)
      else (case pb_field_iter_next it of
              (_, it') \<Rightarrow> if it_pos it' \<noteq> start then iter_find_loop n t start it' else Some (False, it')))"

definition pb_field_iter_find :: "pb_field_iter_t \<Rightarrow> uint32 \<Rightarrow> (bool \<times> pb_field_iter_t) option" where
  "pb_field_iter_find it t = iter_find_loop (length (it_start it)) t (it_pos it) it"

text \<open>The iterators that a loop \<^verbatim>\<open>do { ... } while (pb_field_iter_next(&iter))\<close> visits, when its body
  leaves the iterator alone.\<close>

fun iter_run :: "nat \<Rightarrow> pb_field_iter_t \<Rightarrow> pb_field_iter_t list" where
  "iter_run 0 it = []"
| "iter_run (Suc n) it =
     it # (case pb_field_iter_next it of (ok, it') \<Rightarrow> if ok then iter_run n it' else [])"

definition msg_iters :: "pb_field_t list \<Rightarrow> ptr \<Rightarrow> pb_field_iter_t list" where
  "msg_iters fs dest = iter_run (length fs) (snd (pb_field_iter_begin fs dest))"

section \<open>What the iterator does\<close>

text \<open>A well-formed descriptor array ends in its only entry with tag 0. \<open>iter_at fs dest k\<close> is the
  iterator of entry \<open>k\<close>, computed from the start of the array; an iterator that arose by any number
  of steps and wrap-arounds is the one of its position.\<close>

definition wf_fields :: "pb_field_t list \<Rightarrow> bool" where
  "wf_fields fs \<longleftrightarrow> fs \<noteq> [] \<and> tag (last fs) = 0 \<and> (\<forall>f \<in> set (butlast fs). tag f \<noteq> 0)"

definition n_fields :: "pb_field_t list \<Rightarrow> nat" where
  "n_fields fs = length fs - 1"

fun iter_at :: "pb_field_t list \<Rightarrow> ptr \<Rightarrow> nat \<Rightarrow> pb_field_iter_t" where
  "iter_at fs dest 0 = snd (pb_field_iter_begin fs dest)"
| "iter_at fs dest (Suc k) = snd (pb_field_iter_next (iter_at fs dest k))"

lemma wf_fields_tag:
  assumes "wf_fields fs" and "k < length fs"
  shows "tag (fs ! k) = 0 \<longleftrightarrow> k = n_fields fs"
proof
  assume z: "tag (fs ! k) = 0"
  show "k = n_fields fs"
  proof (rule ccontr)
    assume "k \<noteq> n_fields fs"
    then have "k < length (butlast fs)"
      using assms(2) by (simp add: n_fields_def)
    then have "fs ! k \<in> set (butlast fs)"
      by (metis nth_butlast nth_mem)
    then show False using z assms(1) by (auto simp: wf_fields_def)
  qed
next
  assume "k = n_fields fs"
  then show "tag (fs ! k) = 0"
    using assms(1) by (auto simp: wf_fields_def n_fields_def last_conv_nth)
qed

lemma iter_begin_fields [simp]:
  "it_start (snd (pb_field_iter_begin fs dest)) = fs"
  "it_pos (snd (pb_field_iter_begin fs dest)) = 0"
  "dest_struct (snd (pb_field_iter_begin fs dest)) = dest"
  by (simp_all add: pb_field_iter_begin_def Let_def)

lemma iter_next_fields [simp]:
  "it_start (snd (pb_field_iter_next it)) = it_start it"
  "dest_struct (snd (pb_field_iter_next it)) = dest_struct it"
  by (simp_all add: pb_field_iter_next_def Let_def)

lemma iter_at_fields [simp]:
  "it_start (iter_at fs dest k) = fs" "dest_struct (iter_at fs dest k) = dest"
  by (induction k) simp_all

lemma iter_next_step:
  assumes "tag (cur it) \<noteq> 0" and "tag (it_start it ! Suc (it_pos it)) \<noteq> 0"
  shows "fst (pb_field_iter_next it)" and "it_pos (snd (pb_field_iter_next it)) = Suc (it_pos it)"
  using assms by (simp_all add: pb_field_iter_next_def Let_def cur_def)

lemma iter_next_wrap:
  assumes "tag (cur it) \<noteq> 0" and "tag (it_start it ! Suc (it_pos it)) = 0"
  shows "pb_field_iter_next it = (False, snd (pb_field_iter_begin (it_start it) (dest_struct it)))"
  using assms by (simp add: pb_field_iter_next_def Let_def cur_def)

lemma iter_at_pos:
  assumes "wf_fields fs" and "k < n_fields fs"
  shows "it_pos (iter_at fs dest k) = k"
  using assms(2)
proof (induction k)
  case 0
  then show ?case by simp
next
  case (Suc k)
  then have "it_pos (iter_at fs dest k) = k" by simp
  moreover have "tag (fs ! k) \<noteq> 0" "tag (fs ! Suc k) \<noteq> 0"
    using Suc.prems assms(1) by (auto simp: wf_fields_tag n_fields_def)
  ultimately show ?case
    by (simp add: iter_next_step cur_def)
qed

lemma cur_iter_at:
  "wf_fields fs \<Longrightarrow> k < n_fields fs \<Longrightarrow> cur (iter_at fs dest k) = fs ! k"
  by (simp add: cur_def iter_at_pos)

lemma iter_next_at:
  assumes "wf_fields fs" and "k < n_fields fs"
  shows "pb_field_iter_next (iter_at fs dest k) =
    (if Suc k < n_fields fs then (True, iter_at fs dest (Suc k)) else (False, iter_at fs dest 0))"
proof -
  have cur: "tag (cur (iter_at fs dest k)) \<noteq> 0"
    using assms by (simp add: cur_iter_at wf_fields_tag n_fields_def)
  have pos: "it_pos (iter_at fs dest k) = k"
    using assms by (rule iter_at_pos)
  show ?thesis
  proof (cases "Suc k < n_fields fs")
    case True
    then have "tag (fs ! Suc k) \<noteq> 0"
      using assms(1) by (auto simp: wf_fields_tag n_fields_def)
    then show ?thesis
      using True iter_next_step [OF cur] pos by (simp add: prod_eq_iff)
  next
    case False
    then have "tag (fs ! Suc k) = 0"
      using assms by (auto simp: wf_fields_tag n_fields_def)
    then show ?thesis
      using False iter_next_wrap [OF cur] pos by simp
  qed
qed

text \<open>The loop over all fields visits each entry once, in order.\<close>

lemma iter_run_at:
  assumes "wf_fields fs" and "k < n_fields fs" and "n_fields fs - k \<le> n"
  shows "iter_run n (iter_at fs dest k) = map (iter_at fs dest) [k..<n_fields fs]"
  using assms(2,3)
proof (induction n arbitrary: k)
  case 0
  then show ?case by simp
next
  case (Suc n)
  then show ?case
    using iter_next_at [OF assms(1) Suc.prems(1), of dest]
    by (cases "Suc k < n_fields fs") (auto simp: upt_conv_Cons simp del: iter_at.simps)
qed

lemma msg_iters_wf:
  assumes "wf_fields fs" and "0 < n_fields fs"
  shows "msg_iters fs dest = map (iter_at fs dest) [0..<n_fields fs]"
  using iter_run_at [OF assms, of "length fs" dest] by (simp add: msg_iters_def n_fields_def)

definition matches :: "pb_field_t list \<Rightarrow> uint32 \<Rightarrow> nat \<Rightarrow> bool" where
  "matches fs t k \<longleftrightarrow> tag (fs ! k) = t \<and> PB_LTYPE (type (fs ! k)) \<noteq> PB_LTYPE_EXTENSION"


lemma iter_next_cyclic:
  assumes "wf_fields fs" and "k < n_fields fs"
  shows "snd (pb_field_iter_next (iter_at fs dest k)) = iter_at fs dest (Suc k mod n_fields fs)"
  using iter_next_at [OF assms, of dest] assms(2)
  by (auto simp: mod_Suc simp del: iter_at.simps)

lemma iter_find_loop_Suc:
  assumes "wf_fields fs" and "k < n_fields fs"
  shows "iter_find_loop (Suc n) t start (iter_at fs dest k) =
    (if matches fs t k then Some (True, iter_at fs dest k)
     else (case pb_field_iter_next (iter_at fs dest k) of
             (_, it') \<Rightarrow> if it_pos it' \<noteq> start then iter_find_loop n t start it' else Some (False, it')))"
  using assms by (simp add: matches_def cur_iter_at)

lemma iter_find_loop_at:
  assumes wf: "wf_fields fs" and p: "p < n_fields fs"
  shows "j < n_fields fs \<Longrightarrow> n_fields fs - j \<le> m \<Longrightarrow>
    iter_find_loop m t p (iter_at fs dest ((p + j) mod n_fields fs)) =
      Some (case find (\<lambda>i. matches fs t ((p + i) mod n_fields fs)) [j..<n_fields fs] of
              Some i \<Rightarrow> (True, iter_at fs dest ((p + i) mod n_fields fs))
            | None \<Rightarrow> (False, iter_at fs dest p))"
proof (induction m arbitrary: j)
  case 0
  then show ?case by simp
next
  case (Suc m)
  let ?n = "n_fields fs" and ?k = "(p + j) mod n_fields fs"
  have k: "?k < ?n" using p by simp
  have up: "[j..<?n] = j # [Suc j..<?n]"
    using Suc.prems(1) by (simp add: upt_conv_Cons)
  note step = iter_find_loop_Suc [OF wf k, of m t p dest]
  have nxt: "snd (pb_field_iter_next (iter_at fs dest ?k)) = iter_at fs dest ((p + Suc j) mod ?n)"
    using iter_next_cyclic [OF wf k, of dest] by (simp add: mod_Suc_eq)
  obtain b it' where it': "pb_field_iter_next (iter_at fs dest ?k) = (b, it')"
    by (cases "pb_field_iter_next (iter_at fs dest ?k)")
  have it'_eq: "it' = iter_at fs dest ((p + Suc j) mod ?n)"
    using nxt it' by simp
  have pos': "it_pos it' = (p + Suc j) mod ?n"
    unfolding it'_eq using wf p by (intro iter_at_pos) auto
  have ret: "(p + Suc j) mod ?n = p \<longleftrightarrow> Suc j = ?n"
  proof
    assume "(p + Suc j) mod ?n = p"
    then show "Suc j = ?n"
      using Suc.prems(1) p by (cases "p + Suc j < ?n") (auto simp: mod_if split: if_splits)
  next
    assume "Suc j = ?n"
    then show "(p + Suc j) mod ?n = p" using p by simp
  qed
  show ?case
  proof (cases "matches fs t ?k")
    case True
    then show ?thesis
      unfolding step using up by simp
  next
    case False
    show ?thesis
    proof (cases "Suc j = ?n")
      case True
      then show ?thesis
        unfolding step using False up it' it'_eq pos' ret by simp
    next
      case neq: False
      have "iter_find_loop m t p it' =
          Some (case find (\<lambda>i. matches fs t ((p + i) mod ?n)) [Suc j..<?n] of
              Some i \<Rightarrow> (True, iter_at fs dest ((p + i) mod ?n)) | None \<Rightarrow> (False, iter_at fs dest p))"
        unfolding it'_eq using Suc.prems neq by (intro Suc.IH) auto
      then show ?thesis
        unfolding step using False up it' pos' ret neq by simp
    qed
  qed
qed

text \<open>The search always ends: at the first matching entry in cyclic order from the current one, or,
  if there is none, back where it started.\<close>

lemma iter_find_at:
  assumes wf: "wf_fields fs" and p: "p < n_fields fs"
  shows "pb_field_iter_find (iter_at fs dest p) t =
    Some (case find (\<lambda>i. matches fs t ((p + i) mod n_fields fs)) [0..<n_fields fs] of
            Some i \<Rightarrow> (True, iter_at fs dest ((p + i) mod n_fields fs))
          | None \<Rightarrow> (False, iter_at fs dest p))"
proof -
  have "iter_find_loop (length fs) t p (iter_at fs dest ((p + 0) mod n_fields fs)) =
    Some (case find (\<lambda>i. matches fs t ((p + i) mod n_fields fs)) [0..<n_fields fs] of
            Some i \<Rightarrow> (True, iter_at fs dest ((p + i) mod n_fields fs))
          | None \<Rightarrow> (False, iter_at fs dest p))"
    using p by (intro iter_find_loop_at [OF wf p]) (auto simp: n_fields_def)
  then show ?thesis
    using p by (simp add: pb_field_iter_find_def iter_at_pos [OF wf p])
qed

lemma cyclic_surj:
  assumes "p < n" and "k < n"
  shows "\<exists>i < n. (p + i) mod n = (k :: nat)"
proof (cases "p \<le> k")
  case True
  then show ?thesis using assms by (intro exI [of _ "k - p"]) simp
next
  case False
  then show ?thesis using assms by (intro exI [of _ "n - p + k"]) (simp add: mod_if)
qed

end
