(* ===== verification/PbDecode.thy ===== *)
theory PbDecode
  imports PbCommon
begin

text \<open>
  The message decoder (pb_decode.c from \<^verbatim>\<open>decode_static_field\<close> on). The decoded message lies in a
  byte-addressed memory that the decoder writes to; the input array of the stream is a different object. A
  decoder's result is \<open>Some (status, stream, store)\<close>, or \<open>None\<close> when a bound of the model is exceeded: the
  nesting of messages (and the length of lists of extensions), which C does not bound, and the number of calls
  of a callback that is called until it has consumed its input.

  Parameters of the model (\<open>pb_dec_env\<close>) are the descriptor arrays by their addresses, the caller's callbacks,
  \<^verbatim>\<open>realloc\<close> and \<^verbatim>\<open>free\<close>, and the address of the automatic variable \<^verbatim>\<open>fixed_count_size\<close> of the invocation of
  \<^verbatim>\<open>pb_decode_noinit\<close> at each depth, the only local variable whose address is taken and kept.
\<close>

section \<open>The store\<close>

text \<open>\<open>mem_put m p bs\<close> is the memory after the bytes \<open>bs\<close> were stored from address \<open>p\<close> on.\<close>

definition mem_put :: "memory \<Rightarrow> ptr \<Rightarrow> byte list \<Rightarrow> memory" where
  "mem_put m p bs = (\<lambda>a. if a - p < word_of_nat (length bs) then bs ! unat (a - p) else m a)"

definition store16 :: "memory \<Rightarrow> ptr \<Rightarrow> uint16 \<Rightarrow> memory" where
  "store16 m p v = mem_put m p [ucast v, ucast (drop_bit 8 v)]"

definition store32 :: "memory \<Rightarrow> ptr \<Rightarrow> uint32 \<Rightarrow> memory" where
  "store32 m p v = mem_put m p (fixed32_bytes v)"

definition store64 :: "memory \<Rightarrow> ptr \<Rightarrow> uint64 \<Rightarrow> memory" where
  "store64 m p v = mem_put m p (fixed64_bytes v)"

definition store_bool :: "memory \<Rightarrow> ptr \<Rightarrow> bool \<Rightarrow> memory" where
  "store_bool m p b = mem_put m p [if b then 1 else 0]"

text \<open>The memory and the live blocks of the allocator, with their sizes.\<close>

record pb_store =
  mem :: memory
  blocks :: "ptr \<Rightarrow> size_t option"

record pb_dec_env =
  d_io :: pb_io
  d_fields_at :: "ptr \<Rightarrow> pb_field_t list"
  user_decode :: "ptr \<Rightarrow> pb_field_t \<Rightarrow> ptr \<Rightarrow> pb_istream_t \<Rightarrow> pb_store \<Rightarrow> bool \<times> pb_istream_t \<times> pb_store"
  user_ext_decode ::
    "ptr \<Rightarrow> ptr \<Rightarrow> uint32 \<Rightarrow> pb_wire_type_t \<Rightarrow> pb_istream_t \<Rightarrow> pb_store \<Rightarrow> bool \<times> pb_istream_t \<times> pb_store"
  pb_realloc :: "pb_store \<Rightarrow> ptr \<Rightarrow> size_t \<Rightarrow> ptr \<times> pb_store"
  pb_free :: "pb_store \<Rightarrow> ptr \<Rightarrow> pb_store"
  fixed_count_at :: "nat \<Rightarrow> ptr"

type_synonym decoder = "pb_istream_t \<Rightarrow> pb_store \<Rightarrow> (bool \<times> pb_istream_t \<times> pb_store) option"
type_synonym msg_decoder = "pb_field_t list \<Rightarrow> ptr \<Rightarrow> decoder"

text \<open>\<^verbatim>\<open>if (!f(...)) return false; g\<close>; \<^verbatim>\<open>PB_RETURN_ERROR\<close>; an assignment through a pointer; a step whose
  behaviour C leaves undefined.\<close>

definition d_then :: "decoder \<Rightarrow> decoder \<Rightarrow> decoder" where
  "d_then f g s st =
     (case f s st of
        None \<Rightarrow> None
      | Some (False, s', st') \<Rightarrow> Some (False, s', st')
      | Some (True, s', st') \<Rightarrow> g s' st')"

definition d_fail :: "string \<Rightarrow> decoder" where
  "d_fail msg s st = Some (False, i_set_error s msg, st)"

definition d_set :: "(memory \<Rightarrow> memory) \<Rightarrow> decoder" where
  "d_set f s st = Some (True, s, st\<lparr>mem := f (mem st)\<rparr>)"

definition d_undefined :: decoder where
  "d_undefined s st = Some (False, s\<lparr>i_ub := True\<rparr>, st)"

text \<open>A step that only changes the store, and may exceed a bound.\<close>

definition d_do :: "(pb_store \<Rightarrow> pb_store option) \<Rightarrow> decoder" where
  "d_do f s st = (case f st of None \<Rightarrow> None | Some st' \<Rightarrow> Some (True, s, st'))"

text \<open>\<^verbatim>\<open>pb_read(stream, dest, count)\<close> into the memory.\<close>

definition d_read :: "pb_dec_env \<Rightarrow> ptr \<Rightarrow> size_t \<Rightarrow> decoder" where
  "d_read E p count s st =
     (case pb_read (d_io E) s True count of
        (ok, s', d) \<Rightarrow> Some (ok, s', st\<lparr>mem := mem_put (mem st) p (take (unat count) d)\<rparr>))"

text \<open>The values of the fields of \<^verbatim>\<open>pb_extension_t\<close>: \<^verbatim>\<open>type\<close>, \<^verbatim>\<open>dest\<close>, \<^verbatim>\<open>next\<close>, \<^verbatim>\<open>found\<close> are at offsets 0, 8, 16
  and 24; in \<^verbatim>\<open>pb_extension_type_t\<close>, \<^verbatim>\<open>decode\<close>, \<^verbatim>\<open>encode\<close>, \<^verbatim>\<open>arg\<close> at 0, 8, 16.\<close>

definition ext_field :: "pb_dec_env \<Rightarrow> memory \<Rightarrow> ptr \<Rightarrow> pb_field_t list" where
  "ext_field E m ext = d_fields_at E (load64 m (load64 m ext + 16))"

definition iter_from_extension :: "pb_dec_env \<Rightarrow> memory \<Rightarrow> ptr \<Rightarrow> pb_field_iter_t" where
  "iter_from_extension E m ext =
     (let fs = ext_field E m ext; dest = load64 m (ext + 8);
          it = (snd (pb_field_iter_begin fs dest))\<lparr>pData := dest, pSize := ext + 24\<rparr>
      in if PB_ATYPE (type (fs ! 0)) = PB_ATYPE_POINTER then it\<lparr>pData := ext + 8\<rparr> else it)"

section \<open>Default values\<close>

text \<open>\<^verbatim>\<open>*(void**)iter->pData = NULL\<close> and \<^verbatim>\<open>*(pb_size_t*)iter->pSize = v\<close>.\<close>

abbreviation (input) set_null :: "ptr \<Rightarrow> memory \<Rightarrow> memory" where
  "set_null p m \<equiv> store64 m p 0"

text \<open>The loops \<^verbatim>\<open>while (ext != NULL) { ...; ext = ext->next; }\<close> of \<^verbatim>\<open>pb_field_set_to_default\<close> and
  \<^verbatim>\<open>pb_release_single_field\<close>, and \<^verbatim>\<open>do { ... } while (pb_field_iter_next(&iter))\<close>.\<close>

fun ext_list_loop :: "(ptr \<Rightarrow> pb_store \<Rightarrow> pb_store option) \<Rightarrow> nat \<Rightarrow> ptr \<Rightarrow> pb_store \<Rightarrow> pb_store option" where
  "ext_list_loop f 0 ext st = None"
| "ext_list_loop f (Suc n) ext st =
     (if ext = 0 then Some st
      else (case f ext st of
              None \<Rightarrow> None
            | Some st' \<Rightarrow> ext_list_loop f n (load64 (mem st') (ext + 16)) st'))"

fun store_loop :: "('a \<Rightarrow> pb_store \<Rightarrow> pb_store option) \<Rightarrow> 'a list \<Rightarrow> pb_store \<Rightarrow> pb_store option" where
  "store_loop f [] st = Some st"
| "store_loop f (x # xs) st = (case f x st of None \<Rightarrow> None | Some st' \<Rightarrow> store_loop f xs st')"

definition message_loop ::
    "(pb_field_iter_t \<Rightarrow> pb_store \<Rightarrow> pb_store option) \<Rightarrow> pb_field_t list \<Rightarrow> ptr \<Rightarrow> pb_store \<Rightarrow> pb_store option" where
  "message_loop f fs dest st =
     (if \<not> fst (pb_field_iter_begin fs dest) then Some st else store_loop f (msg_iters fs dest) st)"

text \<open>The initial value of a static field, and the count, flag or tag that goes with it; \<open>defaults\<close> stands for
  \<^verbatim>\<open>pb_message_set_to_defaults\<close>.\<close>

definition static_to_default ::
    "(pb_field_t list \<Rightarrow> ptr \<Rightarrow> pb_store \<Rightarrow> pb_store option) \<Rightarrow> pb_dec_env \<Rightarrow> pb_field_iter_t \<Rightarrow>
     pb_store \<Rightarrow> pb_store option" where
  "static_to_default defaults E it st =
     (let f = cur it; h = PB_HTYPE (type f) in
      if h = PB_HTYPE_REPEATED \<or> h = PB_HTYPE_ONEOF
      then Some (st\<lparr>mem := store32 (mem st) (pSize it) 0\<rparr>)
      else
        let st1 = (if h = PB_HTYPE_OPTIONAL \<and> pSize it \<noteq> pData it
                   then st\<lparr>mem := store_bool (mem st) (pSize it) False\<rparr> else st)
        in if PB_LTYPE (type f) = PB_LTYPE_SUBMESSAGE then defaults (d_fields_at E (fptr f)) (pData it) st1
           else if fptr f \<noteq> 0
           then Some (st1\<lparr>mem := mem_put (mem st1) (pData it) (mem_bytes (mem st1) (fptr f) (unat (data_size f)))\<rparr>)
           else Some (st1\<lparr>mem := mem_put (mem st1) (pData it) (replicate (unat (data_size f)) 0)\<rparr>))"

definition pointer_to_default :: "pb_field_iter_t \<Rightarrow> pb_store \<Rightarrow> pb_store" where
  "pointer_to_default it st =
     (let m = set_null (pData it) (mem st); h = PB_HTYPE (type (cur it)) in
      if h = PB_HTYPE_REPEATED \<or> h = PB_HTYPE_ONEOF then st\<lparr>mem := store32 m (pSize it) 0\<rparr> else st\<lparr>mem := m\<rparr>)"

primrec pb_field_set_to_default :: "pb_dec_env \<Rightarrow> nat \<Rightarrow> pb_field_iter_t \<Rightarrow> pb_store \<Rightarrow> pb_store option" where
  "pb_field_set_to_default E 0 = (\<lambda>it st. None)"
| "pb_field_set_to_default E (Suc d) = (\<lambda>it st.
     let t = type (cur it) in
     if PB_LTYPE t = PB_LTYPE_EXTENSION then
       ext_list_loop
         (\<lambda>ext st. let st1 = st\<lparr>mem := store_bool (mem st) (ext + 24) False\<rparr>
                   in pb_field_set_to_default E d (iter_from_extension E (mem st1) ext) st1)
         (Suc d) (load64 (mem st) (pData it)) st
     else if PB_ATYPE t = PB_ATYPE_STATIC
     then static_to_default (message_loop (pb_field_set_to_default E d)) E it st
     else if PB_ATYPE t = PB_ATYPE_POINTER then Some (pointer_to_default it st)
     else Some st)"

definition pb_message_set_to_defaults ::
    "pb_dec_env \<Rightarrow> nat \<Rightarrow> pb_field_t list \<Rightarrow> ptr \<Rightarrow> pb_store \<Rightarrow> pb_store option" where
  "pb_message_set_to_defaults E d fs dest st = message_loop (pb_field_set_to_default E d) fs dest st"

section \<open>Releasing\<close>

text \<open>The number of items of a repeated field, as \<^verbatim>\<open>pb_release_single_field\<close> takes it from the message.\<close>

definition release_count :: "memory \<Rightarrow> pb_field_iter_t \<Rightarrow> uint32" where
  "release_count m it =
     (let f = cur it; static = (PB_ATYPE (type f) = PB_ATYPE_STATIC);
          count = (if static \<and> pSize it = pData it then array_size f else load32 m (pSize it))
      in if PB_HTYPE (type f) \<noteq> PB_HTYPE_REPEATED then 1
         else if static \<and> count > array_size f then array_size f else count)"

text \<open>The addresses of \<^verbatim>\<open>count\<close> items from \<^verbatim>\<open>p\<close> on.\<close>

definition item_ptrs :: "ptr \<Rightarrow> size_t \<Rightarrow> uint32 \<Rightarrow> ptr list" where
  "item_ptrs p stride count = map (\<lambda>i. p + word_of_nat i * stride) [0..<unat count]"

definition release_entry :: "pb_dec_env \<Rightarrow> ptr \<Rightarrow> pb_store \<Rightarrow> pb_store option" where
  "release_entry E p st =
     (let st1 = pb_free E st (load64 (mem st) p) in Some (st1\<lparr>mem := set_null p (mem st1)\<rparr>))"

text \<open>The end of \<^verbatim>\<open>pb_release_single_field\<close>: the storage that a pointer field owns.\<close>

definition release_pointer :: "pb_dec_env \<Rightarrow> pb_field_iter_t \<Rightarrow> pb_store \<Rightarrow> pb_store option" where
  "release_pointer E it st =
     (let f = cur it; h = PB_HTYPE (type f); l = PB_LTYPE (type f) in
      if PB_ATYPE (type f) \<noteq> PB_ATYPE_POINTER then Some st
      else
        (case (if h = PB_HTYPE_REPEATED \<and> (l = PB_LTYPE_STRING \<or> l = PB_LTYPE_BYTES)
               then store_loop (release_entry E)
                      (item_ptrs (load64 (mem st) (pData it)) 8 (load32 (mem st) (pSize it))) st
               else Some st) of
           None \<Rightarrow> None
         | Some st1 \<Rightarrow>
             let st2 = (if h = PB_HTYPE_REPEATED then st1\<lparr>mem := store32 (mem st1) (pSize it) 0\<rparr> else st1)
             in release_entry E (pData it) st2))"

primrec pb_release_single_field :: "pb_dec_env \<Rightarrow> nat \<Rightarrow> pb_field_iter_t \<Rightarrow> pb_store \<Rightarrow> pb_store option" where
  "pb_release_single_field E 0 = (\<lambda>it st. None)"
| "pb_release_single_field E (Suc d) = (\<lambda>it st.
     let f = cur it; t = type f in
     if PB_HTYPE t = PB_HTYPE_ONEOF \<and> load32 (mem st) (pSize it) \<noteq> tag f then Some st
     else
       (case (if PB_LTYPE t = PB_LTYPE_EXTENSION then
                ext_list_loop (\<lambda>ext st. pb_release_single_field E d (iter_from_extension E (mem st) ext) st)
                  (Suc d) (load64 (mem st) (pData it)) st
              else if PB_LTYPE t = PB_LTYPE_SUBMESSAGE \<and> PB_ATYPE t \<noteq> PB_ATYPE_CALLBACK then
                let pItem = (if PB_ATYPE t = PB_ATYPE_POINTER then load64 (mem st) (pData it) else pData it) in
                if pItem = 0 then Some st
                else store_loop
                       (\<lambda>p st. if p = 0 then Some st
                               else message_loop (pb_release_single_field E d) (d_fields_at E (fptr f)) p st)
                       (item_ptrs pItem (ucast (data_size f)) (release_count (mem st) it)) st
              else Some st) of
          None \<Rightarrow> None
        | Some st1 \<Rightarrow> release_pointer E it st1))"

declare pb_field_set_to_default.simps [simp del] pb_release_single_field.simps [simp del]

definition pb_release :: "pb_dec_env \<Rightarrow> nat \<Rightarrow> pb_field_t list \<Rightarrow> ptr \<Rightarrow> pb_store \<Rightarrow> pb_store option" where
  "pb_release E d fs dest st =
     (if dest = 0 then Some st else message_loop (pb_release_single_field E d) fs dest st)"

text \<open>\<^verbatim>\<open>pb_release_union_field\<close>; the result has the iterator as well, which the function moves.\<close>

definition pb_release_union_field ::
    "pb_dec_env \<Rightarrow> nat \<Rightarrow> pb_field_iter_t \<Rightarrow> pb_istream_t \<Rightarrow> pb_store \<Rightarrow>
     (bool \<times> pb_field_iter_t \<times> pb_istream_t \<times> pb_store) option" where
  "pb_release_union_field E d it s st =
     (let old_tag = load32 (mem st) (pSize it); new_tag = tag (cur it) in
      if old_tag = 0 \<or> old_tag = new_tag then Some (True, it, s, st)
      else
        (case pb_field_iter_find it old_tag of
           None \<Rightarrow> None
         | Some (False, it1) \<Rightarrow> Some (False, it1, i_set_error s ''invalid union tag'', st)
         | Some (True, it1) \<Rightarrow>
             (case pb_release_single_field E d it1 st of
                None \<Rightarrow> None
              | Some st1 \<Rightarrow>
                  (case pb_field_iter_find it1 new_tag of
                     None \<Rightarrow> None
                   | Some (False, it2) \<Rightarrow> Some (False, it2, i_set_error s ''iterator error'', st1)
                   | Some (True, it2) \<Rightarrow>
                       Some (True, it2, s,
                         if PB_ATYPE (type (cur it2)) = PB_ATYPE_POINTER
                         then st1\<lparr>mem := set_null (pData it2) (mem st1)\<rparr> else st1)))))"

section \<open>Storage of pointer fields\<close>

definition allocate_field :: "pb_dec_env \<Rightarrow> ptr \<Rightarrow> size_t \<Rightarrow> size_t \<Rightarrow> decoder" where
  "allocate_field E p data_sz array_sz s st =
     (let check_limit = push_bit (8 * 4) 1 :: size_t in
      if data_sz = 0 \<or> array_sz = 0 then d_fail ''invalid size'' s st
      else if (data_sz \<ge> check_limit \<or> array_sz \<ge> check_limit) \<and> (- 1) div array_sz < data_sz
      then d_fail ''size too large'' s st
      else
        (case pb_realloc E st (load64 (mem st) p) (array_sz * data_sz) of
           (q, st1) \<Rightarrow>
             if q = 0 then d_fail ''realloc failed'' s st1
             else Some (True, s, st1\<lparr>mem := store64 (mem st1) p q\<rparr>)))"

definition initialize_pointer_field :: "pb_dec_env \<Rightarrow> nat \<Rightarrow> ptr \<Rightarrow> pb_field_iter_t \<Rightarrow> pb_store \<Rightarrow> pb_store option" where
  "initialize_pointer_field E d pItem it st =
     (let f = cur it; l = PB_LTYPE (type f) in
      if l = PB_LTYPE_STRING \<or> l = PB_LTYPE_BYTES then Some (st\<lparr>mem := set_null pItem (mem st)\<rparr>)
      else if l = PB_LTYPE_SUBMESSAGE
      then pb_message_set_to_defaults E d (d_fields_at E (fptr f)) pItem
             (st\<lparr>mem := mem_put (mem st) pItem (replicate (unat (data_size f)) 0)\<rparr>)
      else Some st)"

section \<open>Field decoders\<close>

definition d_bool :: "pb_dec_env \<Rightarrow> ptr \<Rightarrow> decoder" where
  "d_bool E p s st =
     (case pb_dec_bool (d_io E) s of
        (False, s', v) \<Rightarrow> Some (False, s', st)
      | (True, s', v) \<Rightarrow> Some (True, s', st\<lparr>mem := store_bool (mem st) p v\<rparr>))"

text \<open>\<^verbatim>\<open>*(intN_t*)dest = (intN_t)value\<close> for the size of the field, and the values that were assigned, converted back
  (\<^verbatim>\<open>clamped\<close>).\<close>

definition store_int :: "memory \<Rightarrow> uint32 \<Rightarrow> ptr \<Rightarrow> 64 word \<Rightarrow> memory option" where
  "store_int m n p v =
     (if n = 8 then Some (store64 m p v)
      else if n = 4 then Some (store32 m p (ucast v))
      else if n = 2 then Some (store16 m p (ucast v))
      else if n = 1 then Some (mem_put m p [ucast v])
      else None)"

definition clamp_signed :: "uint32 \<Rightarrow> 64 word \<Rightarrow> 64 word" where
  "clamp_signed n v =
     (if n = 8 then v else if n = 4 then scast (ucast v :: 32 word)
      else if n = 2 then scast (ucast v :: 16 word) else scast (ucast v :: 8 word))"

definition clamp_unsigned :: "uint32 \<Rightarrow> 64 word \<Rightarrow> 64 word" where
  "clamp_unsigned n v =
     (if n = 8 then v else if n = 4 then ucast (ucast v :: 32 word)
      else if n = 2 then ucast (ucast v :: 16 word) else ucast (ucast v :: 8 word))"

definition put_clamped :: "(uint32 \<Rightarrow> 64 word \<Rightarrow> 64 word) \<Rightarrow> pb_field_t \<Rightarrow> ptr \<Rightarrow> 64 word \<Rightarrow> decoder" where
  "put_clamped clamp field p v s st =
     (case store_int (mem st) (data_size field) p v of
        None \<Rightarrow> d_fail ''invalid data_size'' s st
      | Some m \<Rightarrow>
          if clamp (data_size field) v \<noteq> v then d_fail ''integer too large'' s (st\<lparr>mem := m\<rparr>)
          else Some (True, s, st\<lparr>mem := m\<rparr>))"

definition pb_dec_varint :: "pb_dec_env \<Rightarrow> pb_field_t \<Rightarrow> ptr \<Rightarrow> decoder" where
  "pb_dec_varint E field p s st =
     (case pb_decode_varint (d_io E) s of
        (False, s', v) \<Rightarrow> Some (False, s', st)
      | (True, s', v) \<Rightarrow>
          put_clamped clamp_signed field p
            (if data_size field = 8 then v else scast (ucast v :: 32 word)) s' st)"

definition pb_dec_uvarint :: "pb_dec_env \<Rightarrow> pb_field_t \<Rightarrow> ptr \<Rightarrow> decoder" where
  "pb_dec_uvarint E field p s st =
     (case pb_decode_varint (d_io E) s of
        (False, s', v) \<Rightarrow> Some (False, s', st)
      | (True, s', v) \<Rightarrow> put_clamped clamp_unsigned field p v s' st)"

definition pb_dec_svarint :: "pb_dec_env \<Rightarrow> pb_field_t \<Rightarrow> ptr \<Rightarrow> decoder" where
  "pb_dec_svarint E field p s st =
     (case pb_decode_svarint (d_io E) s of
        (False, s', v) \<Rightarrow> Some (False, s', st)
      | (True, s', v) \<Rightarrow> put_clamped clamp_signed field p v s' st)"

definition pb_dec_fixed32 :: "pb_dec_env \<Rightarrow> ptr \<Rightarrow> decoder" where
  "pb_dec_fixed32 E p s st =
     (case pb_decode_fixed32 (d_io E) s of
        (False, s', v) \<Rightarrow> Some (False, s', st)
      | (True, s', v) \<Rightarrow> Some (True, s', st\<lparr>mem := store32 (mem st) p v\<rparr>))"

definition pb_dec_fixed64 :: "pb_dec_env \<Rightarrow> ptr \<Rightarrow> decoder" where
  "pb_dec_fixed64 E p s st =
     (case pb_decode_fixed64 (d_io E) s of
        (False, s', v) \<Rightarrow> Some (False, s', st)
      | (True, s', v) \<Rightarrow> Some (True, s', st\<lparr>mem := store64 (mem st) p v\<rparr>))"

text \<open>Read a length and go on with it: \<^verbatim>\<open>if (!pb_decode_varint32(stream, &size)) return false; ...\<close>\<close>

definition with_size :: "pb_dec_env \<Rightarrow> (uint32 \<Rightarrow> decoder) \<Rightarrow> decoder" where
  "with_size E f s st =
     (case pb_decode_varint32 (d_io E) s of
        (False, s', n) \<Rightarrow> Some (False, s', st)
      | (True, s', n) \<Rightarrow> f n s' st)"

text \<open>\<^verbatim>\<open>bdest->size = size; return pb_read(stream, bdest->bytes, size);\<close> and the end of \<^verbatim>\<open>pb_dec_string\<close>.\<close>

definition read_bytes :: "pb_dec_env \<Rightarrow> uint32 \<Rightarrow> ptr \<Rightarrow> decoder" where
  "read_bytes E n bdest = d_then (d_set (\<lambda>m. store32 m bdest n)) (d_read E (bdest + 4) (ucast n))"

definition read_string :: "pb_dec_env \<Rightarrow> uint32 \<Rightarrow> ptr \<Rightarrow> decoder" where
  "read_string E n p s st =
     (case d_read E p (ucast n) s st of
        None \<Rightarrow> None
      | Some (ok, s', st') \<Rightarrow> Some (ok, s', st'\<lparr>mem := mem_put (mem st') (p + ucast n) [0]\<rparr>))"

text \<open>The storage of a string or bytes value of \<open>alloc_sz\<close> bytes: allocated for a pointer field, \<^verbatim>\<open>dest\<close> itself
  otherwise.\<close>

definition with_storage ::
    "pb_dec_env \<Rightarrow> string \<Rightarrow> pb_field_t \<Rightarrow> uint32 \<Rightarrow> size_t \<Rightarrow> ptr \<Rightarrow> (ptr \<Rightarrow> decoder) \<Rightarrow> decoder" where
  "with_storage E overflow field n alloc_sz p f =
     (if PB_ATYPE (type field) = PB_ATYPE_POINTER
      then (\<lambda>s. if bytes_left s < ucast n then d_fail ''end-of-stream'' s
                else d_then (allocate_field E p alloc_sz 1) (\<lambda>s st. f (load64 (mem st) p) s st) s)
      else if alloc_sz > ucast (data_size field) then d_fail overflow
      else f p)"

definition pb_dec_bytes :: "pb_dec_env \<Rightarrow> pb_field_t \<Rightarrow> ptr \<Rightarrow> decoder" where
  "pb_dec_bytes E field p =
     with_size E (\<lambda>n.
       if n > PB_SIZE_MAX then d_fail ''bytes overflow''
       else let alloc_sz = ucast n + 4 :: size_t in
            if ucast n > alloc_sz then d_fail ''size too large''
            else with_storage E ''bytes overflow'' field n alloc_sz p (read_bytes E n))"

definition pb_dec_string :: "pb_dec_env \<Rightarrow> pb_field_t \<Rightarrow> ptr \<Rightarrow> decoder" where
  "pb_dec_string E field p =
     with_size E (\<lambda>n.
       let alloc_sz = ucast (n + 1 :: uint32) :: size_t in
       if alloc_sz < ucast n then d_fail ''size too large''
       else with_storage E ''string overflow'' field n alloc_sz p (read_string E n))"

definition pb_dec_fixed_length_bytes :: "pb_dec_env \<Rightarrow> pb_field_t \<Rightarrow> ptr \<Rightarrow> decoder" where
  "pb_dec_fixed_length_bytes E field p =
     with_size E (\<lambda>n.
       if n > PB_SIZE_MAX then d_fail ''bytes overflow''
       else if n = 0 then d_set (\<lambda>m. mem_put m p (replicate (unat (data_size field)) 0))
       else if n \<noteq> data_size field then d_fail ''incorrect fixed length bytes size''
       else d_read E p (ucast (data_size field)))"

text \<open>Run \<open>f\<close> on a substream of the length that comes first, close it, and return the status of \<open>f\<close>; the errors of
  making and closing it are returned at once.\<close>

definition in_substream :: "pb_dec_env \<Rightarrow> decoder \<Rightarrow> decoder" where
  "in_substream E f s st =
     (case pb_make_string_substream (d_io E) s of
        (False, s1, sub) \<Rightarrow> Some (False, s1, st)
      | (True, s1, sub) \<Rightarrow>
          (case f sub st of
             None \<Rightarrow> None
           | Some (status, sub', st') \<Rightarrow>
               (case pb_close_string_substream (d_io E) s1 sub' of
                  (closed, s2, sub2) \<Rightarrow> Some (closed \<and> status, s2, st'))))"

text \<open>\<^verbatim>\<open>pb_decode\<close>, given \<^verbatim>\<open>pb_decode_noinit\<close>: a failed decoding releases what was allocated.\<close>

definition decode_init :: "pb_dec_env \<Rightarrow> nat \<Rightarrow> msg_decoder \<Rightarrow> msg_decoder" where
  "decode_init E d noinit fs dest =
     d_then (d_do (pb_message_set_to_defaults E d fs dest))
       (\<lambda>s st. case noinit fs dest s st of
                 None \<Rightarrow> None
               | Some (True, s', st') \<Rightarrow> Some (True, s', st')
               | Some (False, s', st') \<Rightarrow> map_option (\<lambda>st2. (False, s', st2)) (pb_release E d fs dest st'))"

definition pb_dec_submessage :: "pb_dec_env \<Rightarrow> nat \<Rightarrow> msg_decoder \<Rightarrow> pb_field_t \<Rightarrow> ptr \<Rightarrow> decoder" where
  "pb_dec_submessage E d noinit field p =
     (if fptr field = 0
      then (\<lambda>s st. case pb_make_string_substream (d_io E) s of
                     (False, s1, sub) \<Rightarrow> Some (False, s1, st)
                   | (True, s1, sub) \<Rightarrow> d_fail ''invalid field descriptor'' s1 st)
      else in_substream E
             ((if PB_HTYPE (type field) = PB_HTYPE_REPEATED then decode_init E d noinit else noinit)
                (d_fields_at E (fptr field)) p))"

text \<open>The table of decoders. Entry 9 is a null pointer and there are no entries from 11 on.\<close>

definition PB_DECODERS :: "pb_dec_env \<Rightarrow> nat \<Rightarrow> msg_decoder \<Rightarrow> byte \<Rightarrow> pb_field_t \<Rightarrow> ptr \<Rightarrow> decoder" where
  "PB_DECODERS E d noinit l field p =
     (if l = PB_LTYPE_BOOL then d_bool E p
      else if l = PB_LTYPE_VARINT then pb_dec_varint E field p
      else if l = PB_LTYPE_UVARINT then pb_dec_uvarint E field p
      else if l = PB_LTYPE_SVARINT then pb_dec_svarint E field p
      else if l = PB_LTYPE_FIXED32 then pb_dec_fixed32 E p
      else if l = PB_LTYPE_FIXED64 then pb_dec_fixed64 E p
      else if l = PB_LTYPE_BYTES then pb_dec_bytes E field p
      else if l = PB_LTYPE_STRING then pb_dec_string E field p
      else if l = PB_LTYPE_SUBMESSAGE then pb_dec_submessage E d noinit field p
      else if l = PB_LTYPE_FIXED_LENGTH_BYTES then pb_dec_fixed_length_bytes E field p
      else d_undefined)"

section \<open>Decoding a field\<close>

text \<open>\<^verbatim>\<open>*size\<close>, and \<^verbatim>\<open>base + data_size * (*size)\<close>: the product is one of 32-bit integers.\<close>

abbreviation (input) size_of :: "pb_field_iter_t \<Rightarrow> pb_store \<Rightarrow> uint32" where
  "size_of it st \<equiv> load32 (mem st) (pSize it)"

definition item_ptr :: "ptr \<Rightarrow> pb_field_iter_t \<Rightarrow> pb_store \<Rightarrow> ptr" where
  "item_ptr base it st = base + ucast (data_size (cur it) * size_of it st)"

definition inc_size :: "pb_field_iter_t \<Rightarrow> decoder" where
  "inc_size it = d_set (\<lambda>m. store32 m (pSize it) (load32 m (pSize it) + 1))"

text \<open>The loop over a packed array. Every round consumes input, so it runs at most as often as there are bytes.\<close>

fun static_packed_loop :: "(ptr \<Rightarrow> decoder) \<Rightarrow> nat \<Rightarrow> pb_field_iter_t \<Rightarrow> decoder" where
  "static_packed_loop func 0 it sub st = None"
| "static_packed_loop func (Suc n) it sub st =
     (if bytes_left sub > 0 \<and> size_of it st < array_size (cur it)
      then d_then (func (item_ptr (pData it) it st))
             (d_then (inc_size it) (static_packed_loop func n it)) sub st
      else Some (True, sub, st))"

definition static_packed :: "pb_dec_env \<Rightarrow> (ptr \<Rightarrow> decoder) \<Rightarrow> pb_field_iter_t \<Rightarrow> decoder" where
  "static_packed E func it s st =
     (case pb_make_string_substream (d_io E) s of
        (False, s1, sub) \<Rightarrow> Some (False, s1, st)
      | (True, s1, sub) \<Rightarrow>
          (case static_packed_loop func (Suc (unat (bytes_left sub))) it sub st of
             None \<Rightarrow> None
           | Some (status, sub', st') \<Rightarrow>
               if bytes_left sub' \<noteq> 0
               then d_fail ''array overflow'' (s1\<lparr>i_ub := (i_ub s1 \<or> i_ub sub')\<rparr>) st'
               else (case pb_close_string_substream (d_io E) s1 sub' of
                       (closed, s2, sub2) \<Rightarrow> Some (closed \<and> status, s2, st'))))"

definition decode_static_field :: "pb_dec_env \<Rightarrow> nat \<Rightarrow> msg_decoder \<Rightarrow> pb_wire_type_t \<Rightarrow> pb_field_iter_t \<Rightarrow> decoder" where
  "decode_static_field E d noinit wire_type it =
     (let f = cur it; h = PB_HTYPE (type f); l = PB_LTYPE (type f); func = PB_DECODERS E d noinit l f in
      if h = PB_HTYPE_REQUIRED then func (pData it)
      else if h = PB_HTYPE_OPTIONAL then
        d_then (d_set (\<lambda>m. if pSize it \<noteq> pData it then store_bool m (pSize it) True else m)) (func (pData it))
      else if h = PB_HTYPE_REPEATED then
        if wire_type = PB_WT_STRING \<and> l \<le> PB_LTYPE_LAST_PACKABLE then static_packed E func it
        else (\<lambda>s st.
               let pItem = item_ptr (pData it) it st; full = (size_of it st \<ge> array_size f) in
               d_then (inc_size it) (if full then d_fail ''array overflow'' else func pItem) s st)
      else if h = PB_HTYPE_ONEOF then
        d_then
          (\<lambda>s st. if l = PB_LTYPE_SUBMESSAGE \<and> size_of it st \<noteq> tag f
                  then d_then (d_set (\<lambda>m. mem_put m (pData it) (replicate (unat (data_size f)) 0)))
                         (d_do (pb_message_set_to_defaults E d (d_fields_at E (fptr f)) (pData it))) s st
                  else Some (True, s, st))
          (d_then (d_set (\<lambda>m. store32 m (pSize it) (tag f))) (func (pData it)))
      else d_fail ''invalid field type'')"

text \<open>The packed array of a pointer field: room for one more item (a guess at the number of remaining items, \<^verbatim>\<open>alloc\<close> is
  \<^verbatim>\<open>allocated_size\<close>), then the item.\<close>

definition packed_room :: "pb_dec_env \<Rightarrow> pb_field_iter_t \<Rightarrow> size_t \<Rightarrow> pb_istream_t \<Rightarrow> pb_store \<Rightarrow>
    (size_t \<times> bool \<times> pb_istream_t \<times> pb_store) option" where
  "packed_room E it alloc sub st =
     (let ds = ucast (data_size (cur it)) :: size_t in
      if \<not> ucast (size_of it st) + 1 > alloc then Some (alloc, True, sub, st)
      else if ds = 0 then map_option (Pair alloc) (d_undefined sub st)
      else let remain = (bytes_left sub - 1) div ds + 1;
               alloc' = (if remain < 0xFFFFFFFF - alloc then alloc + remain else alloc + 1)
           in map_option (Pair alloc') (allocate_field E (pData it) ds alloc' sub st))"

definition pointer_item :: "pb_dec_env \<Rightarrow> nat \<Rightarrow> (ptr \<Rightarrow> decoder) \<Rightarrow> pb_field_iter_t \<Rightarrow> ptr \<Rightarrow> decoder" where
  "pointer_item E d func it pItem = d_then (d_do (initialize_pointer_field E d pItem it)) (func pItem)"

fun pointer_packed_loop ::
    "pb_dec_env \<Rightarrow> nat \<Rightarrow> (ptr \<Rightarrow> decoder) \<Rightarrow> nat \<Rightarrow> pb_field_iter_t \<Rightarrow> size_t \<Rightarrow>
     pb_istream_t \<Rightarrow> pb_istream_t \<Rightarrow> pb_store \<Rightarrow> (bool \<times> pb_istream_t \<times> pb_istream_t \<times> pb_store) option" where
  "pointer_packed_loop E d func 0 it alloc s sub st = None"
| "pointer_packed_loop E d func (Suc n) it alloc s sub st =
     (if bytes_left sub = 0 then Some (True, s, sub, st)
      else if size_of it st = PB_SIZE_MAX
      then Some (False, s\<lparr>i_errmsg := Some ''too many array entries''\<rparr>, sub, st)
      else
        (case packed_room E it alloc sub st of
           None \<Rightarrow> None
         | Some (alloc', False, sub1, st1) \<Rightarrow> Some (False, s, sub1, st1)
         | Some (alloc', True, sub1, st1) \<Rightarrow>
             (let pItem = item_ptr (load64 (mem st1) (pData it)) it st1 in
              if pItem = 0 then Some (False, s, sub1, st1)
              else
                (case d_then (pointer_item E d func it pItem) (inc_size it) sub1 st1 of
                   None \<Rightarrow> None
                 | Some (False, sub2, st2) \<Rightarrow> Some (False, s, sub2, st2)
                 | Some (True, sub2, st2) \<Rightarrow> pointer_packed_loop E d func n it alloc' s sub2 st2))))"

definition pointer_packed :: "pb_dec_env \<Rightarrow> nat \<Rightarrow> (ptr \<Rightarrow> decoder) \<Rightarrow> pb_field_iter_t \<Rightarrow> decoder" where
  "pointer_packed E d func it s st =
     (case pb_make_string_substream (d_io E) s of
        (False, s1, sub) \<Rightarrow> Some (False, s1, st)
      | (True, s1, sub) \<Rightarrow>
          (case pointer_packed_loop E d func (Suc (unat (bytes_left sub))) it (ucast (size_of it st)) s1 sub st of
             None \<Rightarrow> None
           | Some (status, s2, sub', st') \<Rightarrow>
               (case pb_close_string_substream (d_io E) s2 sub' of
                  (closed, s3, sub3) \<Rightarrow> Some (closed \<and> status, s3, st'))))"

definition decode_pointer_field :: "pb_dec_env \<Rightarrow> nat \<Rightarrow> msg_decoder \<Rightarrow> pb_wire_type_t \<Rightarrow> pb_field_iter_t \<Rightarrow> decoder" where
  "decode_pointer_field E d noinit wire_type it =
     (let f = cur it; h = PB_HTYPE (type f); l = PB_LTYPE (type f); func = PB_DECODERS E d noinit l f in
      if h = PB_HTYPE_REQUIRED \<or> h = PB_HTYPE_OPTIONAL \<or> h = PB_HTYPE_ONEOF then
        d_then
          (\<lambda>s st. if l = PB_LTYPE_SUBMESSAGE \<and> load64 (mem st) (pData it) \<noteq> 0
                  then d_do (pb_release_single_field E (Suc d) it) s st else Some (True, s, st))
          (d_then (d_set (\<lambda>m. if h = PB_HTYPE_ONEOF then store32 m (pSize it) (tag f) else m))
            (if l = PB_LTYPE_STRING \<or> l = PB_LTYPE_BYTES then func (pData it)
             else d_then (allocate_field E (pData it) (ucast (data_size f)) 1)
                    (\<lambda>s st. pointer_item E d func it (load64 (mem st) (pData it)) s st)))
      else if h = PB_HTYPE_REPEATED then
        if wire_type = PB_WT_STRING \<and> l \<le> PB_LTYPE_LAST_PACKABLE then pointer_packed E d func it
        else (\<lambda>s st.
               if size_of it st = PB_SIZE_MAX then d_fail ''too many array entries'' s st
               else d_then (allocate_field E (pData it) (ucast (data_size f)) (ucast (size_of it st + 1)))
                      (\<lambda>s st. let pItem = item_ptr (load64 (mem st) (pData it)) it st in
                              d_then (inc_size it) (pointer_item E d func it pItem) s st) s st)
      else d_fail ''invalid field type'')"

text \<open>\<^verbatim>\<open>do { if (!decode(&substream, field, arg)) ...; } while (substream.bytes_left);\<close> A \<^verbatim>\<open>pb_callback_t\<close> is a
  function pointer followed by \<^verbatim>\<open>arg\<close>. A callback that consumes something each time is called at most as often as there
  are bytes.\<close>

fun callback_loop :: "(pb_istream_t \<Rightarrow> pb_store \<Rightarrow> bool \<times> pb_istream_t \<times> pb_store) \<Rightarrow> nat \<Rightarrow> decoder" where
  "callback_loop f 0 sub st = None"
| "callback_loop f (Suc n) sub st =
     (case f sub st of
        (False, sub', st') \<Rightarrow> Some (False, sub', st')
      | (True, sub', st') \<Rightarrow> if bytes_left sub' \<noteq> 0 then callback_loop f n sub' st' else Some (True, sub', st'))"

definition decode_callback_field :: "pb_dec_env \<Rightarrow> pb_wire_type_t \<Rightarrow> pb_field_iter_t \<Rightarrow> decoder" where
  "decode_callback_field E wire_type it s st =
     (let p = pData it; decode = (\<lambda>s st. user_decode E (load64 (mem st) p) (cur it) (p + 8) s st) in
      if p = 0 \<or> load64 (mem st) p = 0
      then (case pb_skip_field (d_io E) s wire_type of (ok, s') \<Rightarrow> Some (ok, s', st))
      else if wire_type = PB_WT_STRING then
        (case pb_make_string_substream (d_io E) s of
           (False, s1, sub) \<Rightarrow> Some (False, s1, st)
         | (True, s1, sub) \<Rightarrow>
             (case callback_loop decode (Suc (unat (bytes_left sub))) sub st of
                None \<Rightarrow> None
              | Some (False, sub', st') \<Rightarrow>
                  d_fail ''callback failed'' (s1\<lparr>i_ub := (i_ub s1 \<or> i_ub sub')\<rparr>) st'
              | Some (True, sub', st') \<Rightarrow>
                  (case pb_close_string_substream (d_io E) s1 sub' of (closed, s2, sub2) \<Rightarrow> Some (closed, s2, st'))))
      else
        (case read_raw_value (d_io E) s wire_type 10 of
           (False, s1, buffer) \<Rightarrow> Some (False, s1, st)
         | (True, s1, buffer) \<Rightarrow>
             (case decode (pb_istream_from_buffer buffer (word_of_nat (length buffer))) st of
                (ok, sub', st') \<Rightarrow> Some (ok, s1\<lparr>i_ub := (i_ub s1 \<or> i_ub sub')\<rparr>, st'))))"

text \<open>\<^verbatim>\<open>decode_field\<close>; the result has the iterator as well, which \<^verbatim>\<open>pb_release_union_field\<close> may have moved.\<close>

definition decode_by_atype :: "pb_dec_env \<Rightarrow> nat \<Rightarrow> msg_decoder \<Rightarrow> pb_wire_type_t \<Rightarrow> pb_field_iter_t \<Rightarrow> decoder" where
  "decode_by_atype E d noinit wire_type it =
     (let a = PB_ATYPE (type (cur it)) in
      if a = PB_ATYPE_STATIC then decode_static_field E d noinit wire_type it
      else if a = PB_ATYPE_POINTER then decode_pointer_field E d noinit wire_type it
      else if a = PB_ATYPE_CALLBACK then decode_callback_field E wire_type it
      else d_fail ''invalid field type'')"

definition decode_field ::
    "pb_dec_env \<Rightarrow> nat \<Rightarrow> msg_decoder \<Rightarrow> pb_wire_type_t \<Rightarrow> pb_field_iter_t \<Rightarrow> pb_istream_t \<Rightarrow> pb_store \<Rightarrow>
     (bool \<times> pb_field_iter_t \<times> pb_istream_t \<times> pb_store) option" where
  "decode_field E d noinit wire_type it s st =
     (case (if PB_HTYPE (type (cur it)) = PB_HTYPE_ONEOF then pb_release_union_field E (Suc d) it s st
            else Some (True, it, s, st)) of
        None \<Rightarrow> None
      | Some (False, it', s', st') \<Rightarrow> Some (False, it', s', st')
      | Some (True, it', s', st') \<Rightarrow>
          map_option (\<lambda>(ok, s2, st2). (ok, it', s2, st2)) (decode_by_atype E d noinit wire_type it' s' st'))"

section \<open>Extensions\<close>

definition default_extension_decoder ::
    "pb_dec_env \<Rightarrow> nat \<Rightarrow> msg_decoder \<Rightarrow> ptr \<Rightarrow> uint32 \<Rightarrow> pb_wire_type_t \<Rightarrow> decoder" where
  "default_extension_decoder E d noinit ext t wire_type s st =
     (if tag (ext_field E (mem st) ext ! 0) \<noteq> t then Some (True, s, st)
      else map_option (\<lambda>(ok, it, s', st'). (ok, s', st'))
             (decode_field E d noinit wire_type (iter_from_extension E (mem st) ext) s
               (st\<lparr>mem := store_bool (mem st) (ext + 24) True\<rparr>)))"

fun decode_extension_loop ::
    "pb_dec_env \<Rightarrow> nat \<Rightarrow> msg_decoder \<Rightarrow> nat \<Rightarrow> size_t \<Rightarrow> ptr \<Rightarrow> uint32 \<Rightarrow> pb_wire_type_t \<Rightarrow> decoder" where
  "decode_extension_loop E d noinit 0 pos ext t wire_type s st = None"
| "decode_extension_loop E d noinit (Suc n) pos ext t wire_type s st =
     (if ext \<noteq> 0 \<and> pos = bytes_left s
      then d_then
             (\<lambda>s st. let decode = load64 (mem st) (load64 (mem st) ext) in
                     if decode \<noteq> 0 then Some (user_ext_decode E decode ext t wire_type s st)
                     else default_extension_decoder E d noinit ext t wire_type s st)
             (\<lambda>s st. decode_extension_loop E d noinit n pos (load64 (mem st) (ext + 16)) t wire_type s st) s st
      else Some (True, s, st))"

definition decode_extension ::
    "pb_dec_env \<Rightarrow> nat \<Rightarrow> msg_decoder \<Rightarrow> uint32 \<Rightarrow> pb_wire_type_t \<Rightarrow> pb_field_iter_t \<Rightarrow> decoder" where
  "decode_extension E d noinit t wire_type it s st =
     decode_extension_loop E d noinit (Suc d) (bytes_left s) (load64 (mem st) (pData it)) t wire_type s st"

text \<open>The loop of \<^verbatim>\<open>find_extension_field\<close>; as in \<open>iter_find_loop\<close>, an array of \<open>n\<close> entries needs at most \<open>n\<close> rounds.\<close>

fun find_extension_loop :: "nat \<Rightarrow> nat \<Rightarrow> pb_field_iter_t \<Rightarrow> (bool \<times> pb_field_iter_t) option" where
  "find_extension_loop 0 start it = None"
| "find_extension_loop (Suc n) start it =
     (if PB_LTYPE (type (cur it)) = PB_LTYPE_EXTENSION then Some (True, it)
      else (case pb_field_iter_next it of
              (_, it') \<Rightarrow> if it_pos it' \<noteq> start then find_extension_loop n start it' else Some (False, it')))"

definition find_extension_field :: "pb_field_iter_t \<Rightarrow> (bool \<times> pb_field_iter_t) option" where
  "find_extension_field it = find_extension_loop (length (it_start it)) (it_pos it) it"

section \<open>Decoding a message\<close>

text \<open>The local variables of \<^verbatim>\<open>pb_decode_noinit\<close>, except \<^verbatim>\<open>fixed_count_size\<close>, which is in the memory.
  \<^verbatim>\<open>fixed_count_field\<close> is the index of the field, or \<open>None\<close>.\<close>

record dec_locals =
  l_iter :: pb_field_iter_t
  fields_seen :: "uint32 list"
  extension_range_start :: uint32
  fixed_count_field :: "nat option"

text \<open>What a round of the loop ends with: the next round, \<^verbatim>\<open>break\<close>, or \<^verbatim>\<open>return false\<close>.\<close>

datatype flow = Continue | Break | Return_false

type_synonym round_result = "(flow \<times> dec_locals \<times> pb_istream_t \<times> pb_store) option"

definition skip_unknown :: "pb_dec_env \<Rightarrow> pb_wire_type_t \<Rightarrow> dec_locals \<Rightarrow> pb_istream_t \<Rightarrow> pb_store \<Rightarrow> round_result" where
  "skip_unknown E wire_type L s st =
     (case pb_skip_field (d_io E) s wire_type of
        (ok, s') \<Rightarrow> Some (if ok then Continue else Return_false, L, s', st))"

definition unknown_field ::
    "pb_dec_env \<Rightarrow> nat \<Rightarrow> msg_decoder \<Rightarrow> uint32 \<Rightarrow> pb_wire_type_t \<Rightarrow> dec_locals \<Rightarrow> pb_istream_t \<Rightarrow> pb_store \<Rightarrow> round_result" where
  "unknown_field E d noinit t wire_type L s st =
     (if t \<ge> extension_range_start L then
        (case find_extension_field (l_iter L) of
           None \<Rightarrow> None
         | Some (found, it) \<Rightarrow>
             (let L1 = L\<lparr>l_iter := it, extension_range_start := (if found then tag (cur it) else - 1)\<rparr> in
              if t \<ge> extension_range_start L1 then
                (case decode_extension E d noinit t wire_type it s st of
                   None \<Rightarrow> None
                 | Some (False, s1, st1) \<Rightarrow> Some (Return_false, L1, s1, st1)
                 | Some (True, s1, st1) \<Rightarrow>
                     if bytes_left s \<noteq> bytes_left s1 then Some (Continue, L1, s1, st1)
                     else skip_unknown E wire_type L1 s1 st1)
              else skip_unknown E wire_type L1 s st))
      else skip_unknown E wire_type L s st)"

text \<open>The count of a fixed-count field is \<^verbatim>\<open>fixed_count_size\<close>, at address \<open>fc\<close>. \<open>wrong_count\<close>: the last such field has
  not received all its items.\<close>

definition wrong_count :: "ptr \<Rightarrow> dec_locals \<Rightarrow> pb_store \<Rightarrow> bool" where
  "wrong_count fc L st \<longleftrightarrow>
     (case fixed_count_field L of
        None \<Rightarrow> False
      | Some k \<Rightarrow> load32 (mem st) fc \<noteq> array_size (it_start (l_iter L) ! k))"

definition mark_seen :: "pb_field_iter_t \<Rightarrow> uint32 list \<Rightarrow> uint32 list" where
  "mark_seen it seen =
     (let i = required_field_index it; w = unat (drop_bit 5 i) in
      if PB_HTYPE (type (cur it)) = PB_HTYPE_REQUIRED \<and> i < 64
      then seen[w := seen ! w OR push_bit (unat (i AND 31)) 1] else seen)"

definition known_field ::
    "pb_dec_env \<Rightarrow> nat \<Rightarrow> msg_decoder \<Rightarrow> ptr \<Rightarrow> pb_wire_type_t \<Rightarrow> dec_locals \<Rightarrow> pb_istream_t \<Rightarrow> pb_store \<Rightarrow> round_result" where
  "known_field E d noinit fc wire_type L s st =
     (let it = l_iter L;
          counted = (PB_HTYPE (type (cur it)) = PB_HTYPE_REPEATED \<and> pSize it = pData it);
          new = (counted \<and> fixed_count_field L \<noteq> Some (it_pos it))
      in if new \<and> wrong_count fc L st
         then Some (Return_false, L, i_set_error s ''wrong size for fixed count field'', st)
         else
           let it1 = (if counted then it\<lparr>pSize := fc\<rparr> else it);
               st1 = (if new then st\<lparr>mem := store32 (mem st) fc 0\<rparr> else st);
               L1 = L\<lparr>l_iter := it1, fixed_count_field := (if new then Some (it_pos it) else fixed_count_field L),
                      fields_seen := mark_seen it (fields_seen L)\<rparr>
           in (case decode_field E d noinit wire_type it1 s st1 of
                 None \<Rightarrow> None
               | Some (ok, it2, s2, st2) \<Rightarrow>
                   Some (if ok then Continue else Return_false, L1\<lparr>l_iter := it2\<rparr>, s2, st2)))"

definition decode_round :: "pb_dec_env \<Rightarrow> nat \<Rightarrow> msg_decoder \<Rightarrow> ptr \<Rightarrow> dec_locals \<Rightarrow> pb_istream_t \<Rightarrow> pb_store \<Rightarrow> round_result" where
  "decode_round E d noinit fc L s st =
     (case pb_decode_tag (d_io E) s of
        (False, s1, wire_type, t, eof) \<Rightarrow> Some (if eof then Break else Return_false, L, s1, st)
      | (True, s1, wire_type, t, eof) \<Rightarrow>
          (case pb_field_iter_find (l_iter L) t of
             None \<Rightarrow> None
           | Some (False, it) \<Rightarrow> unknown_field E d noinit t wire_type (L\<lparr>l_iter := it\<rparr>) s1 st
           | Some (True, it) \<Rightarrow> known_field E d noinit fc wire_type (L\<lparr>l_iter := it\<rparr>) s1 st))"

text \<open>\<^verbatim>\<open>while (stream->bytes_left) { ... }\<close>: every round consumes input. The status is false if the loop returned.\<close>

fun noinit_loop ::
    "(dec_locals \<Rightarrow> pb_istream_t \<Rightarrow> pb_store \<Rightarrow> round_result) \<Rightarrow> nat \<Rightarrow> dec_locals \<Rightarrow> pb_istream_t \<Rightarrow> pb_store \<Rightarrow>
     (bool \<times> dec_locals \<times> pb_istream_t \<times> pb_store) option" where
  "noinit_loop round 0 L s st = None"
| "noinit_loop round (Suc n) L s st =
     (if bytes_left s = 0 then Some (True, L, s, st)
      else (case round L s st of
              None \<Rightarrow> None
            | Some (Continue, L', s', st') \<Rightarrow> noinit_loop round n L' s' st'
            | Some (Break, L', s', st') \<Rightarrow> Some (True, L', s', st')
            | Some (Return_false, L', s', st') \<Rightarrow> Some (False, L', s', st')))"

text \<open>The number of required fields: the loop that seeks the end of the array, and the adjustments.\<close>

fun seek_end :: "nat \<Rightarrow> pb_field_iter_t \<Rightarrow> (uint32 \<times> byte \<times> pb_field_iter_t) option" where
  "seek_end 0 it = None"
| "seek_end (Suc n) it =
     (case pb_field_iter_next it of
        (True, it') \<Rightarrow> seek_end n it'
      | (False, it') \<Rightarrow> Some (required_field_index it, type (cur it), it'))"

definition req_field_count :: "pb_field_iter_t \<Rightarrow> uint32 option" where
  "req_field_count it =
     (case seek_end (length (it_start it)) it of
        None \<Rightarrow> None
      | Some (count, last_type, it') \<Rightarrow>
          (let n = (if PB_HTYPE last_type = PB_HTYPE_REQUIRED \<and> tag (cur it') \<noteq> 0 then count + 1 else count)
           in Some (if n > 64 then 64 else n)))"

definition all_seen :: "uint32 \<Rightarrow> uint32 list \<Rightarrow> bool" where
  "all_seen n seen \<longleftrightarrow>
     list_all (\<lambda>i. seen ! i = - 1) [0..<unat (drop_bit 5 n)] \<and>
     (n AND 31 \<noteq> 0 \<longrightarrow> seen ! unat (drop_bit 5 n) = drop_bit (32 - unat (n AND 31)) (- 1))"

definition noinit_start :: "pb_field_t list \<Rightarrow> ptr \<Rightarrow> dec_locals" where
  "noinit_start fs dest =
     \<lparr>l_iter = snd (pb_field_iter_begin fs dest), fields_seen = [0, 0], extension_range_start = 0,
      fixed_count_field = None\<rparr>"

definition noinit_finish :: "ptr \<Rightarrow> dec_locals \<Rightarrow> decoder" where
  "noinit_finish fc L s st =
     (if wrong_count fc L st then d_fail ''wrong size for fixed count field'' s st
      else (case req_field_count (l_iter L) of
              None \<Rightarrow> None
            | Some n \<Rightarrow>
                if n > 0 \<and> \<not> all_seen n (fields_seen L) then d_fail ''missing required field'' s st
                else Some (True, s, st)))"

text \<open>The argument \<open>d\<close> of the functions above bounds the messages nested in the current one.\<close>

primrec pb_decode_noinit :: "pb_dec_env \<Rightarrow> nat \<Rightarrow> msg_decoder" where
  "pb_decode_noinit E 0 = (\<lambda>fs dest s st. None)"
| "pb_decode_noinit E (Suc d) = (\<lambda>fs dest s st.
     let fc = fixed_count_at E d in
     case noinit_loop (decode_round E d (pb_decode_noinit E d) fc) (Suc (unat (bytes_left s)))
            (noinit_start fs dest) s (st\<lparr>mem := store32 (mem st) fc 0\<rparr>) of
       None \<Rightarrow> None
     | Some (False, L, s', st') \<Rightarrow> Some (False, s', st')
     | Some (True, L, s', st') \<Rightarrow> noinit_finish fc L s' st')"

definition pb_decode :: "pb_dec_env \<Rightarrow> nat \<Rightarrow> msg_decoder" where
  "pb_decode E d = decode_init E d (pb_decode_noinit E d)"

definition pb_decode_delimited_noinit :: "pb_dec_env \<Rightarrow> nat \<Rightarrow> msg_decoder" where
  "pb_decode_delimited_noinit E d fs dest = in_substream E (pb_decode_noinit E d fs dest)"

definition pb_decode_delimited :: "pb_dec_env \<Rightarrow> nat \<Rightarrow> msg_decoder" where
  "pb_decode_delimited E d fs dest = in_substream E (pb_decode E d fs dest)"

definition pb_decode_nullterminated :: "pb_dec_env \<Rightarrow> nat \<Rightarrow> msg_decoder" where
  "pb_decode_nullterminated E d fs dest = pb_decode E d fs dest"

end
