(* ===== verification/PbDecodeSteps.thy ===== *)
theory PbDecodeSteps
  imports PbDecode
begin

text \<open>
  The steps of the message decoder, one by one. \<open>dec_ok t A f\<close> says of a decoding step that on a well-formed buffer stream
  it reads nothing outside of it and leaves it well-formed, that on success it has consumed a prefix, that it changes the
  memory inside of \<open>A\<close> only, and (if \<open>t\<close>) that it returns. The predicate is closed under the ways in which the code composes
  steps; with \<open>A\<close> the whole memory it covers pointer and callback fields as well.
\<close>

section \<open>Steps of the decoder\<close>

definition i_within :: "pb_istream_t \<Rightarrow> pb_istream_t \<Rightarrow> bool" where
  "i_within s s' \<longleftrightarrow> i_callback s' = i_callback s \<and> i_buf s' = i_buf s \<and> i_ub s' = i_ub s \<and> i_pos s \<le> i_pos s' \<and>
     i_pos s' + unat (bytes_left s') \<le> i_pos s + unat (bytes_left s)"

definition keeps :: "ptr set \<Rightarrow> pb_store \<Rightarrow> pb_store \<Rightarrow> bool" where
  "keeps A st st' \<longleftrightarrow> (\<forall>a. a \<notin> A \<longrightarrow> mem st' a = mem st a)"

definition dec_ok :: "bool \<Rightarrow> ptr set \<Rightarrow> decoder \<Rightarrow> bool" where
  "dec_ok t A f \<longleftrightarrow> (\<forall>s st. istream_ok s \<longrightarrow>
     (t \<longrightarrow> f s st \<noteq> None) \<and>
     (\<forall>ok s' st'. f s st = Some (ok, s', st') \<longrightarrow> i_within s s' \<and> (ok \<longrightarrow> i_sub s s') \<and> keeps A st st'))"

definition st_ok :: "bool \<Rightarrow> ptr set \<Rightarrow> (pb_store \<Rightarrow> pb_store option) \<Rightarrow> bool" where
  "st_ok t A f \<longleftrightarrow> (\<forall>st. (t \<longrightarrow> f st \<noteq> None) \<and> (\<forall>st'. f st = Some st' \<longrightarrow> keeps A st st'))"

definition span :: "ptr \<Rightarrow> nat \<Rightarrow> ptr set" where
  "span p n = (\<lambda>i. p + word_of_nat i) ` {..<n}"

lemma i_within_refl [simp, intro]: "i_within s s"
  by (simp add: i_within_def)

lemma i_within_trans: "i_within s s' \<Longrightarrow> i_within s' s'' \<Longrightarrow> i_within s s''"
  by (auto simp: i_within_def)

lemma i_within_error [simp]: "i_within s (i_set_error s' m) = i_within s s'" "i_within s (s'\<lparr>i_errmsg := e\<rparr>) = i_within s s'"
  by (simp_all add: i_within_def i_set_error_def)

lemma i_sub_within: "istream_ok s \<Longrightarrow> i_sub s s' \<Longrightarrow> i_within s s'"
proof -
  assume ok: "istream_ok s" and "i_sub s s'"
  then obtain n e where n: "n \<le> length (i_avail s)" and s': "s' = (i_adv s n)\<lparr>i_errmsg := e\<rparr>" by (auto simp: i_sub_def)
  have "unat (bytes_left s - word_of_nat n) = unat (bytes_left s) - n" using ok n by (rule unat_bytes_left_adv)
  then show "i_within s s'" using n length_i_avail [OF ok] by (simp add: i_within_def s' i_adv_def)
qed

lemma i_within_ok: "istream_ok s \<Longrightarrow> i_within s s' \<Longrightarrow> istream_ok s'"
  by (auto simp: istream_ok_def i_within_def)

lemma i_within_left: "i_within s s' \<Longrightarrow> bytes_left s' \<le> bytes_left s"
  by (auto simp: i_within_def word_le_nat_alt)

lemma keeps_refl [simp, intro]: "keeps A st st"
  by (simp add: keeps_def)

lemma keeps_trans: "keeps A st st' \<Longrightarrow> keeps A st' st'' \<Longrightarrow> keeps A st st''"
  by (simp add: keeps_def)

lemma keeps_UNIV [simp, intro]: "keeps UNIV st st'"
  by (simp add: keeps_def)

lemma keeps_update: "(\<And>a. a \<notin> A \<Longrightarrow> f (mem st) a = mem st a) \<Longrightarrow> keeps A st (st\<lparr>mem := f (mem st)\<rparr>)"
  by (simp add: keeps_def)

lemma span_mono: "m \<le> n \<Longrightarrow> span p m \<subseteq> span p n"
  by (auto simp: span_def)

lemma span_offset: "k + m \<le> n \<Longrightarrow> span (p + word_of_nat k) m \<subseteq> span p n"
proof
  fix a assume "k + m \<le> n" "a \<in> span (p + word_of_nat k) m"
  then obtain i where "i < m" "a = p + word_of_nat k + word_of_nat i" by (auto simp: span_def)
  then have "a = p + word_of_nat (k + i)" "k + i < n" using \<open>k + m \<le> n\<close> by (simp_all add: add.assoc)
  then show "a \<in> span p n" unfolding span_def by blast
qed

lemma mem_put_outside: "a \<notin> span p (length bs) \<Longrightarrow> mem_put m p bs a = m a"
proof -
  assume "a \<notin> span p (length bs)"
  moreover have "a = p + word_of_nat (unat (a - p))" by simp
  ultimately have "\<not> unat (a - p) < length bs" unfolding span_def by blast
  moreover have "unat (word_of_nat (length bs) :: ptr) \<le> length bs" by (simp add: unat_of_nat take_bit_nat_less_eq_self)
  ultimately have "\<not> a - p < word_of_nat (length bs)" by (simp add: word_less_nat_alt)
  then show ?thesis by (simp add: mem_put_def)
qed

lemma mem_put_keeps: "span p (length bs) \<subseteq> A \<Longrightarrow> keeps A st (st\<lparr>mem := mem_put (mem st) p bs\<rparr>)"
  by (rule keeps_update) (auto intro: mem_put_outside)

lemma store_outside:
  "a \<notin> span p 2 \<Longrightarrow> store16 m p v a = m a" "a \<notin> span p 4 \<Longrightarrow> store32 m p w a = m a"
  "a \<notin> span p 8 \<Longrightarrow> store64 m p x a = m a" "a \<noteq> p \<Longrightarrow> store_bool m p b a = m a"
proof -
  show "a \<notin> span p 2 \<Longrightarrow> store16 m p v a = m a" by (simp add: store16_def mem_put_outside numeral_2_eq_2)
  show "a \<notin> span p 4 \<Longrightarrow> store32 m p w a = m a" by (simp add: store32_def mem_put_outside)
  show "a \<notin> span p 8 \<Longrightarrow> store64 m p x a = m a" by (simp add: store64_def mem_put_outside)
  show "a \<noteq> p \<Longrightarrow> store_bool m p b a = m a" by (auto simp: store_bool_def span_def intro!: mem_put_outside)
qed

lemma store32_keeps: "span p 4 \<subseteq> A \<Longrightarrow> keeps A st (st\<lparr>mem := store32 (mem st) p v\<rparr>)"
  using keeps_update [of A "\<lambda>m. store32 m p v"] store_outside(2) [of _ p] by blast

subsection \<open>Composition\<close>

lemma dec_okI:
  assumes "\<And>s st ok s' st'. istream_ok s \<Longrightarrow> f s st = Some (ok, s', st') \<Longrightarrow> i_within s s' \<and> (ok \<longrightarrow> i_sub s s') \<and> keeps A st st'"
    and "\<And>s st. istream_ok s \<Longrightarrow> t \<Longrightarrow> f s st \<noteq> None"
  shows "dec_ok t A f"
  using assms unfolding dec_ok_def by blast

lemma dec_okD:
  assumes "dec_ok t A f" and "istream_ok s" and "f s st = Some (ok, s', st')"
  shows "i_within s s'" "ok \<Longrightarrow> i_sub s s'" "keeps A st st'" "istream_ok s'"
  using assms i_within_ok [of s s'] unfolding dec_ok_def by blast+

lemma dec_ok_returns: "dec_ok t A f \<Longrightarrow> istream_ok s \<Longrightarrow> t \<Longrightarrow> f s st \<noteq> None"
  unfolding dec_ok_def by blast

lemma dec_ok_then [intro]:
  assumes f: "dec_ok t A f" and g: "dec_ok t A g"
  shows "dec_ok t A (d_then f g)"
proof (rule dec_okI)
  fix s st ok s' st' assume s: "istream_ok s" and r: "d_then f g s st = Some (ok, s', st')"
  obtain ok1 s1 st1 where f1: "f s st = Some (ok1, s1, st1)" using r by (auto simp: d_then_def split: option.splits)
  note F = dec_okD [OF f s f1]
  show "i_within s s' \<and> (ok \<longrightarrow> i_sub s s') \<and> keeps A st st'"
  proof (cases ok1)
    case True
    then have g1: "g s1 st1 = Some (ok, s', st')" using r f1 by (simp add: d_then_def)
    note G = dec_okD [OF g F(4) g1]
    then show ?thesis using F True i_within_trans keeps_trans i_sub_trans [OF s] by blast
  next
    case False
    then show ?thesis using r f1 F by (simp add: d_then_def)
  qed
next
  fix s st assume s: "istream_ok s" and t
  obtain ok1 s1 st1 where f1: "f s st = Some (ok1, s1, st1)"
    using dec_ok_returns [OF f s \<open>t\<close>, of st] by (cases "f s st") auto
  then show "d_then f g s st \<noteq> None"
    using dec_okD(4) [OF f s f1] dec_ok_returns [OF g _ \<open>t\<close>] by (cases ok1) (simp_all add: d_then_def)
qed

lemma dec_ok_fail [simp, intro]: "dec_ok t A (d_fail m)"
  by (simp add: dec_ok_def d_fail_def)

lemma dec_ok_skip [simp, intro]: "dec_ok t A (\<lambda>s st. Some (True, s, st))"
  by (simp add: dec_ok_def)

lemma dec_ok_if [intro]: "(b \<Longrightarrow> dec_ok t A f) \<Longrightarrow> (\<not> b \<Longrightarrow> dec_ok t A g) \<Longrightarrow> dec_ok t A (if b then f else g)"
  by simp

lemma dec_ok_choice: "(\<And>s st. dec_ok t A (g s st)) \<Longrightarrow> dec_ok t A (\<lambda>s st. g s st s st)"
  unfolding dec_ok_def by blast

lemma dec_ok_cond:
  assumes "dec_ok t A f" and "dec_ok t A g"
  shows "dec_ok t A (\<lambda>s st. if P s st then f s st else g s st)" and "dec_ok t A (\<lambda>s. if Q s then f s else g s)"
  using assms unfolding dec_ok_def by auto

lemma dec_ok_set: "(\<And>m a. a \<notin> A \<Longrightarrow> f m a = m a) \<Longrightarrow> dec_ok t A (d_set f)"
  by (simp add: dec_ok_def d_set_def keeps_def)

lemma dec_ok_UNIV_set [simp, intro]: "dec_ok t UNIV (d_set f)"
  by (rule dec_ok_set) simp

lemma st_ok_Some: "(\<And>st. keeps A st (f st)) \<Longrightarrow> st_ok t A (\<lambda>st. Some (f st))"
  by (simp add: st_ok_def)

lemma st_okD: "st_ok t A f \<Longrightarrow> f st = Some st' \<Longrightarrow> keeps A st st'"
  unfolding st_ok_def by blast

lemma st_ok_returns: "st_ok t A f \<Longrightarrow> t \<Longrightarrow> f st \<noteq> None"
  unfolding st_ok_def by blast

lemma st_okI: "(\<And>st st'. f st = Some st' \<Longrightarrow> keeps A st st') \<Longrightarrow> (\<And>st. t \<Longrightarrow> f st \<noteq> None) \<Longrightarrow> st_ok t A f"
  unfolding st_ok_def by blast

lemma dec_ok_do: "st_ok t A f \<Longrightarrow> dec_ok t A (d_do f)"
  using st_okD [of t A f] st_ok_returns [of t A f] by (intro dec_okI) (auto simp: d_do_def split: option.splits)

subsection \<open>Readers\<close>

text \<open>A reader of a value whose result is stored.\<close>

lemma dec_ok_reader:
  assumes rd: "stream_reader rd" and f: "\<And>s st. f s st = (case rd s of (False, s', v) \<Rightarrow> Some (False, s', st) | (True, s', v) \<Rightarrow> g v s' st)"
    and g: "\<And>v. dec_ok t A (g v)"
  shows "dec_ok t A f"
proof (rule dec_okI)
  fix s st ok s' st' assume s: "istream_ok s" and r: "f s st = Some (ok, s', st')"
  obtain k s1 v where rd1: "rd s = (k, s1, v)" by (cases "rd s")
  have sub: "i_sub s s1" using stream_reader.consumes [OF rd s rd1] .
  note w = i_sub_within [OF s sub]
  show "i_within s s' \<and> (ok \<longrightarrow> i_sub s s') \<and> keeps A st st'"
  proof (cases k)
    case True
    then have "g v s1 st = Some (ok, s', st')" using r rd1 by (simp add: f)
    from dec_okD [OF g i_within_ok [OF s w] this] show ?thesis using w i_within_trans i_sub_trans [OF s sub] by blast
  next
    case False
    then show ?thesis using r rd1 w by (simp add: f)
  qed
next
  fix s st assume s: "istream_ok s" and t
  obtain k s1 v where rd1: "rd s = (k, s1, v)" by (cases "rd s")
  then show "f s st \<noteq> None"
    using dec_ok_returns [OF g i_within_ok [OF s i_sub_within [OF s stream_reader.consumes [OF rd s rd1]]] \<open>t\<close>, of v]
    by (cases k) (simp_all add: f)
qed

lemma dec_ok_store: "(\<And>m a. a \<notin> A \<Longrightarrow> h m a = m a) \<Longrightarrow> dec_ok t A (\<lambda>s st. Some (True, s, st\<lparr>mem := h (mem st)\<rparr>))"
  using dec_ok_set [of A h t] by (simp add: d_set_def [abs_def])

lemma dec_ok_put_clamped:
  assumes "span p (unat (data_size field)) \<subseteq> A"
  shows "dec_ok t A (put_clamped clamp field p v)"
proof -
  have k: "keeps A st (st\<lparr>mem := m\<rparr>)" if "store_int (mem st) (data_size field) p v = Some m" for st m
  proof -
    have "a \<notin> span p (unat (data_size field))" if "a \<notin> A" for a using assms that by blast
    then show ?thesis
      using that unfolding keeps_def store_int_def by (auto simp: store_outside mem_put_outside split: if_splits)
  qed
  show ?thesis
    by (rule dec_okI) (auto simp: put_clamped_def d_fail_def k split: option.splits if_splits)
qed

lemma dec_ok_scalars:
  shows "p \<in> A \<Longrightarrow> dec_ok t A (d_bool E p)"
    and "span p (unat (data_size field)) \<subseteq> A \<Longrightarrow> dec_ok t A (pb_dec_varint E field p)"
    and "span p (unat (data_size field)) \<subseteq> A \<Longrightarrow> dec_ok t A (pb_dec_uvarint E field p)"
    and "span p (unat (data_size field)) \<subseteq> A \<Longrightarrow> dec_ok t A (pb_dec_svarint E field p)"
    and "span p 4 \<subseteq> A \<Longrightarrow> dec_ok t A (pb_dec_fixed32 E p)"
    and "span p 8 \<subseteq> A \<Longrightarrow> dec_ok t A (pb_dec_fixed64 E p)"
proof -
  show "p \<in> A \<Longrightarrow> dec_ok t A (d_bool E p)"
    by (rule dec_ok_reader [OF dec_bool.stream_reader_axioms d_bool_def]) (rule dec_ok_store [where h = "\<lambda>m. store_bool m p v" for v], metis store_outside(4))
  show "span p (unat (data_size field)) \<subseteq> A \<Longrightarrow> dec_ok t A (pb_dec_varint E field p)"
    by (rule dec_ok_reader [OF varint.stream_reader_axioms pb_dec_varint_def]) (rule dec_ok_put_clamped)
  show "span p (unat (data_size field)) \<subseteq> A \<Longrightarrow> dec_ok t A (pb_dec_uvarint E field p)"
    by (rule dec_ok_reader [OF varint.stream_reader_axioms pb_dec_uvarint_def]) (rule dec_ok_put_clamped)
  show "span p (unat (data_size field)) \<subseteq> A \<Longrightarrow> dec_ok t A (pb_dec_svarint E field p)"
    by (rule dec_ok_reader [OF svarint.stream_reader_axioms pb_dec_svarint_def]) (rule dec_ok_put_clamped)
  show "span p 4 \<subseteq> A \<Longrightarrow> dec_ok t A (pb_dec_fixed32 E p)"
    by (rule dec_ok_reader [OF fixed32.stream_reader_axioms pb_dec_fixed32_def]) (rule dec_ok_store [where h = "\<lambda>m. store32 m p v" for v], auto simp: store_outside subset_eq)
  show "span p 8 \<subseteq> A \<Longrightarrow> dec_ok t A (pb_dec_fixed64 E p)"
    by (rule dec_ok_reader [OF fixed64.stream_reader_axioms pb_dec_fixed64_def]) (rule dec_ok_store [where h = "\<lambda>m. store64 m p v" for v], auto simp: store_outside subset_eq)
qed

lemma dec_ok_read:
  assumes "span p (unat n) \<subseteq> A"
  shows "dec_ok t A (d_read E p n)"
proof (rule dec_okI)
  fix s st ok s' st' assume s: "istream_ok s" and r: "d_read E p n s st = Some (ok, s', st')"
  obtain k s1 v where rd1: "pb_read (d_io E) s True n = (k, s1, v)" by (cases "pb_read (d_io E) s True n")
  have "span p (length (take (unat n) v)) \<subseteq> A" using assms span_mono [of "length (take (unat n) v)" "unat n" p] by simp
  then show "i_within s s' \<and> (ok \<longrightarrow> i_sub s s') \<and> keeps A st st'"
    using r rd1 read.consumes [OF s rd1] i_sub_within [OF s] by (auto simp: d_read_def mem_put_keeps)
qed (simp add: d_read_def split: prod.split)

lemma dec_ok_with_size: "(\<And>n. dec_ok t A (f n)) \<Longrightarrow> dec_ok t A (with_size E f)"
  by (rule dec_ok_reader [OF varint32.stream_reader_axioms with_size_def])

lemma dec_ok_read_bytes:
  assumes "span p (unat n + 4) \<subseteq> A"
  shows "dec_ok t A (read_bytes E n p)"
proof -
  have "span p 4 \<subseteq> A" "span (p + 4) (unat n) \<subseteq> A"
    using assms span_mono [of 4 "unat n + 4" p] span_offset [of 4 "unat n" "unat n + 4" p] by auto
  then show ?thesis
    unfolding read_bytes_def by (intro dec_ok_then dec_ok_set dec_ok_read) (auto simp: store_outside subset_eq unat_ucast_up)
qed

lemma dec_ok_read_string:
  assumes "span p (unat n + 1) \<subseteq> A"
  shows "dec_ok t A (read_string E n p)"
proof -
  have "span p (unat n) \<subseteq> A" using assms span_mono [of "unat n" "unat n + 1" p] by auto
  then have rd: "dec_ok t A (d_read E p (ucast n))" by (intro dec_ok_read) (simp add: unat_ucast_up)
  have z: "span (p + ucast n) (length [0 :: byte]) \<subseteq> A"
    using assms span_offset [of "unat n" 1 "unat n + 1" p] by auto
  show ?thesis
  proof (rule dec_okI)
    fix s st ok s' st' assume s: "istream_ok s" and "read_string E n p s st = Some (ok, s', st')"
    then obtain st1 where "d_read E p (ucast n) s st = Some (ok, s', st1)" "st' = st1\<lparr>mem := mem_put (mem st1) (p + ucast n) [0]\<rparr>"
      by (auto simp: read_string_def split: option.splits)
    then show "i_within s s' \<and> (ok \<longrightarrow> i_sub s s') \<and> keeps A st st'"
      using dec_okD [OF rd s] mem_put_keeps [OF z, of st1] keeps_trans by blast
  next
    fix s st assume "istream_ok s" t
    then show "read_string E n p s st \<noteq> None" using dec_ok_returns [OF rd] by (auto simp: read_string_def split: option.splits)
  qed
qed

text \<open>Readers that consume something whenever they succeed.\<close>

locale eager_reader = stream_reader rd for rd :: "pb_istream_t \<Rightarrow> bool \<times> pb_istream_t \<times> 'v" +
  assumes eats: "istream_ok s \<Longrightarrow> rd s = (True, s', v) \<Longrightarrow> unat (bytes_left s') < unat (bytes_left s)"

lemma left_after_byte:
  assumes s: "istream_ok s" and rb: "pb_readbyte i s = (True, s1, b)" and sub: "i_sub s1 s'"
  shows "unat (bytes_left s') < unat (bytes_left s)"
proof -
  have "istream_ok s1" using i_sub_ok [OF s] readbyte.consumes [OF s rb] by blast
  then show ?thesis
    using pb_readbyte_decreases [OF rb] i_within_left [OF i_sub_within [OF _ sub]] by (auto simp: word_le_nat_alt)
qed

interpretation varint: eager_reader "pb_decode_varint i" for i
proof unfold_locales
  fix s s' v assume s: "istream_ok s" and r: "pb_decode_varint i s = (True, s', v)"
  obtain k s1 b where rb: "pb_readbyte i s = (k, s1, b)" by (cases "pb_readbyte i s")
  have ok1: "istream_ok s1" using i_sub_ok [OF s readbyte.consumes [OF s rb]] .
  have "k \<and> i_sub s1 s'"
    using r rb varint_dec_loop_consumes [OF ok1]
    unfolding pb_decode_varint_def by (subst (asm) varint_dec_loop.simps) (auto simp: Let_def split: if_splits bool.splits)
  then show "unat (bytes_left s') < unat (bytes_left s)" using left_after_byte [OF s, of i s1 b s'] rb by simp
qed

interpretation varint32_eof: eager_reader "pb_decode_varint32_eof i" for i
proof unfold_locales
  fix s s' v assume s: "istream_ok s" and r: "pb_decode_varint32_eof i s = (True, s', v)"
  obtain k s1 b where rb: "pb_readbyte i s = (k, s1, b)" by (cases "pb_readbyte i s")
  have ok1: "istream_ok s1" using i_sub_ok [OF s readbyte.consumes [OF s rb]] .
  obtain k2 s2 v2 where lp: "varint32_loop i s1 (ucast (b AND 0x7F)) 7 = (k2, s2, v2)"
    by (cases "varint32_loop i s1 (ucast (b AND 0x7F)) 7")
  have "k \<and> i_sub s1 s'"
    using r rb lp varint32_loop_consumes [OF ok1 lp]
    by (auto simp: pb_decode_varint32_eof_def split: if_splits bool.splits prod.splits)
  then show "unat (bytes_left s') < unat (bytes_left s)" using left_after_byte [OF s, of i s1 b s'] rb by simp
qed

interpretation varint32: eager_reader "pb_decode_varint32 i" for i
  by unfold_locales (auto simp: pb_decode_varint32_def split: prod.splits dest: varint32_eof.eats)

interpretation tag: eager_reader "pb_decode_tag i" for i
  by unfold_locales (auto simp: pb_decode_tag_def split: prod.splits bool.splits if_splits dest: varint32_eof.eats)

interpretation svarint: eager_reader "pb_decode_svarint i" for i
  by unfold_locales (auto simp: pb_decode_svarint_def split: prod.splits bool.splits dest: varint.eats)

interpretation dec_bool: eager_reader "pb_dec_bool i" for i
  by unfold_locales (auto simp: pb_dec_bool_def split: prod.splits bool.splits dest: varint32.eats)

lemma pb_read_eats:
  assumes "istream_ok s" and "pb_read i s w n = (True, s', d)" and "n \<noteq> 0"
  shows "unat (bytes_left s') < unat (bytes_left s)"
proof -
  have le: "unat n \<le> length (i_avail s)" using assms pb_read_short [OF assms(1), of n i w] by fastforce
  then have "s' = i_adv s (unat n)" using assms pb_read_ok [OF assms(1) le, of i w] by simp
  then show ?thesis
    using assms(3) unat_bytes_left_adv [OF assms(1) le] le length_i_avail [OF assms(1)]
    unat_gt_0 [of n] by (simp add: i_adv_def)
qed

interpretation fixed32: eager_reader "pb_decode_fixed32 i" for i
  by unfold_locales (auto simp: pb_decode_fixed32_def split: prod.splits bool.splits dest: pb_read_eats)

interpretation fixed64: eager_reader "pb_decode_fixed64 i" for i
  by unfold_locales (auto simp: pb_decode_fixed64_def split: prod.splits bool.splits dest: pb_read_eats)

definition eats :: "decoder \<Rightarrow> bool" where
  "eats f \<longleftrightarrow> (\<forall>s st s' st'. istream_ok s \<longrightarrow> f s st = Some (True, s', st') \<longrightarrow> unat (bytes_left s') < unat (bytes_left s))"

lemma eats_reader:
  assumes rd: "eager_reader rd" and f: "\<And>s st. f s st = (case rd s of (False, s', v) \<Rightarrow> Some (False, s', st) | (True, s', v) \<Rightarrow> g v s' st)"
    and g: "\<And>v. dec_ok t A (g v)"
  shows "eats f"
  unfolding eats_def
proof (intro allI impI)
  fix s st s' st' assume s: "istream_ok s" and r: "f s st = Some (True, s', st')"
  obtain k s1 v where rd1: "rd s = (k, s1, v)" by (cases "rd s")
  have ok1: "istream_ok s1" using i_sub_ok [OF s stream_reader.consumes [OF eager_reader.axioms(1) [OF rd] s rd1]] .
  have "k" "g v s1 st = Some (True, s', st')" using r rd1 by (auto simp: f split: bool.splits)
  then show "unat (bytes_left s') < unat (bytes_left s)"
    using eager_reader.eats [OF rd s] rd1 i_within_left [OF dec_okD(1) [OF g ok1]] by (fastforce simp: word_le_nat_alt)
qed

lemma eats_scalar:
  assumes "l \<le> PB_LTYPE_LAST_PACKABLE"
  shows "eats (PB_DECODERS E d noinit l field p)"
proof -
  have "l = 0 \<or> l = 1 \<or> l = 2 \<or> l = 3 \<or> l = 4 \<or> l = 5"
  proof -
    have "unat l \<le> 5" using assms by (simp add: word_le_nat_alt)
    then have "unat l = 0 \<or> unat l = 1 \<or> unat l = 2 \<or> unat l = 3 \<or> unat l = 4 \<or> unat l = 5" by arith
    then show ?thesis by (auto simp: word_unat_eq_iff)
  qed
  moreover have "eats (d_bool E p)"
    by (rule eats_reader [OF dec_bool.eager_reader_axioms d_bool_def, where A = UNIV and t = True]) (rule dec_ok_store, simp)
  moreover have "eats (pb_dec_varint E field p)"
    by (rule eats_reader [OF varint.eager_reader_axioms pb_dec_varint_def, where A = UNIV and t = True]) (rule dec_ok_put_clamped, simp)
  moreover have "eats (pb_dec_uvarint E field p)"
    by (rule eats_reader [OF varint.eager_reader_axioms pb_dec_uvarint_def, where A = UNIV and t = True]) (rule dec_ok_put_clamped, simp)
  moreover have "eats (pb_dec_svarint E field p)"
    by (rule eats_reader [OF svarint.eager_reader_axioms pb_dec_svarint_def, where A = UNIV and t = True]) (rule dec_ok_put_clamped, simp)
  moreover have "eats (pb_dec_fixed32 E p)"
    by (rule eats_reader [OF fixed32.eager_reader_axioms pb_dec_fixed32_def, where A = UNIV and t = True]) (rule dec_ok_store, simp)
  moreover have "eats (pb_dec_fixed64 E p)"
    by (rule eats_reader [OF fixed64.eager_reader_axioms pb_dec_fixed64_def, where A = UNIV and t = True]) (rule dec_ok_store, simp)
  ultimately show ?thesis by (auto simp: PB_DECODERS_def)
qed

subsection \<open>Strings, bytes and storage\<close>

lemma dec_ok_allocate [intro]: "dec_ok t UNIV (allocate_field E p n k)"
  by (rule dec_okI) (auto simp: allocate_field_def d_fail_def Let_def split: if_splits prod.splits)

lemma dec_ok_storage:
  assumes fits: "A = UNIV \<or> PB_ATYPE (type field) \<noteq> PB_ATYPE_POINTER"
    and f: "\<And>q. A = UNIV \<or> q = p \<and> alloc \<le> ucast (data_size field) \<Longrightarrow> dec_ok t A (f q)"
  shows "dec_ok t A (with_storage E msg field n alloc p f)"
proof (cases "PB_ATYPE (type field) = PB_ATYPE_POINTER")
  case True
  then have A: "A = UNIV" using fits by simp
  have "dec_ok t A (d_then (allocate_field E p alloc 1) (\<lambda>s st. f (load64 (mem st) p) s st))"
    unfolding A using f A by (intro dec_ok_then dec_ok_allocate, intro dec_ok_choice [of t UNIV "\<lambda>s st. f (load64 (mem st) p)"]) auto
  then show ?thesis
    using True dec_ok_cond(2) [OF dec_ok_fail] by (simp add: with_storage_def)
next
  case False
  then show ?thesis using f [of p] by (auto simp: with_storage_def not_less)
qed

lemma ucast_size: "unat (ucast (n :: uint32) :: size_t) = unat n"
  by (simp add: unat_ucast_up)

lemma dec_ok_bytes:
  assumes "A = UNIV \<or> PB_ATYPE (type field) \<noteq> PB_ATYPE_POINTER \<and> span p (unat (data_size field)) \<subseteq> A"
  shows "dec_ok t A (pb_dec_bytes E field p)"
proof -
  have "dec_ok t A (read_bytes E n q)" if "A = UNIV \<or> q = p \<and> ucast n + 4 \<le> (ucast (data_size field) :: size_t)" for n q
  proof (cases "A = UNIV")
    case False
    have "unat (ucast n + 4 :: size_t) = unat n + 4"
      using unat_lt [of n] by (simp add: unat_add_no_wrap ucast_size)
    then have "unat n + 4 \<le> unat (data_size field)" using that False by (simp add: word_le_nat_alt ucast_size)
    then show ?thesis using that False assms span_mono [of "unat n + 4"] by (intro dec_ok_read_bytes) blast
  qed (simp add: dec_ok_read_bytes)
  then show ?thesis
    unfolding pb_dec_bytes_def Let_def using assms by (intro dec_ok_with_size dec_ok_if dec_ok_fail dec_ok_storage) auto
qed

lemma dec_ok_string:
  assumes "A = UNIV \<or> PB_ATYPE (type field) \<noteq> PB_ATYPE_POINTER \<and> span p (unat (data_size field)) \<subseteq> A"
  shows "dec_ok t A (pb_dec_string E field p)"
proof -
  have "dec_ok t A (read_string E n q)"
    if q: "A = UNIV \<or> q = p \<and> ucast (n + 1) \<le> (ucast (data_size field) :: size_t)" and n: "\<not> ucast (n + 1) < (ucast n :: size_t)" for n q
  proof (cases "A = UNIV")
    case False
    have "(0 :: size_t) < ucast (- 1 :: uint32)" by code_simp
    then have "n \<noteq> - 1" using n by auto
    then have "n + 1 \<noteq> 0" by (simp add: eq_neg_iff_add_eq_0)
    then have "unat (n + 1) = unat n + 1" using unatSuc [of n] by (simp add: add.commute)
    then have "unat n + 1 \<le> unat (data_size field)" using q False by (simp add: word_le_nat_alt ucast_size)
    then show ?thesis using q False assms span_mono [of "unat n + 1"] by (intro dec_ok_read_string) blast
  qed (simp add: dec_ok_read_string)
  then show ?thesis
    unfolding pb_dec_string_def Let_def using assms by (intro dec_ok_with_size dec_ok_if dec_ok_fail dec_ok_storage) auto
qed

lemma dec_ok_fixed_length_bytes:
  assumes "span p (unat (data_size field)) \<subseteq> A"
  shows "dec_ok t A (pb_dec_fixed_length_bytes E field p)"
  unfolding pb_dec_fixed_length_bytes_def
  using assms by (intro dec_ok_with_size dec_ok_if dec_ok_fail dec_ok_set dec_ok_read) (auto simp: ucast_size intro!: mem_put_outside)

subsection \<open>Substreams\<close>

lemma close_within:
  assumes ok0: "istream_ok s0" and n: "n \<le> length (i_avail s0)" and sub: "sub = s0\<lparr>bytes_left := word_of_nat n\<rparr>"
    and w: "i_within sub sub'" and s1: "s1 = s0\<lparr>bytes_left := bytes_left s0 - word_of_nat n, i_errmsg := e\<rparr>"
  obtains s2 sub2 where "pb_close_string_substream i s1 sub' = (True, s2, sub2)" and "i_within s0 s2" and "i_sub sub sub' \<Longrightarrow> i_sub s0 s2"
proof -
  have un: "unat (word_of_nat n :: size_t) = n"
    using n length_i_avail [OF ok0] unat_lt [of "bytes_left s0"] by (simp add: unat_of_nat_small)
  have oksub: "istream_ok sub" using ok0 n length_i_avail [OF ok0] un by (simp add: istream_ok_def sub)
  have ok': "istream_ok sub'" by (rule i_within_ok [OF oksub w])
  have all: "unat (bytes_left sub') \<le> length (i_avail sub')" by (simp add: length_i_avail [OF ok'])
  define s2 where "s2 = s0\<lparr>bytes_left := bytes_left s0 - word_of_nat n, i_pos := i_pos sub' + unat (bytes_left sub'),
      i_errmsg := i_errmsg sub'\<rparr>"
  have same: "i_buf sub' = i_buf s0" "i_ub sub' = i_ub s0" using w by (simp_all add: i_within_def sub)
  have "\<exists>sub2. pb_close_string_substream i s1 sub' = (True, s2, sub2)"
    using pb_read_ok [OF ok' all, of i False] same
    by (cases "bytes_left sub' = 0") (simp_all add: pb_close_string_substream_def s2_def s1 i_adv_def)
  then obtain sub2 where close: "pb_close_string_substream i s1 sub' = (True, s2, sub2)" by blast
  have left: "unat (bytes_left s0 - word_of_nat n) = unat (bytes_left s0) - n" by (rule unat_bytes_left_adv [OF ok0 n])
  have ends: "i_pos s0 \<le> i_pos sub'" "i_pos sub' + unat (bytes_left sub') \<le> i_pos s0 + n" using w un by (simp_all add: i_within_def sub)
  have "i_within s0 s2" using ends left n length_i_avail [OF ok0] by (simp add: i_within_def s2_def)
  moreover have "i_sub s0 s2" if rd: "i_sub sub sub'"
  proof -
    obtain m e' where m: "m \<le> n" "sub' = (i_adv sub m)\<lparr>i_errmsg := e'\<rparr>"
      using rd length_i_avail [OF oksub] un by (auto simp: i_sub_def sub)
    have "i_pos sub' + unat (bytes_left sub') = i_pos s0 + n"
      using m unat_bytes_left_adv [OF oksub, of m] length_i_avail [OF oksub] un by (simp add: i_adv_def sub)
    then have "s2 = (i_adv s0 n)\<lparr>i_errmsg := i_errmsg sub'\<rparr>" by (simp add: s2_def i_adv_def)
    then show ?thesis using n unfolding i_sub_def by blast
  qed
  ultimately show ?thesis using that close by blast
qed

lemma make_within:
  assumes s: "istream_ok s" and mk: "pb_make_string_substream i s = (True, s1, sub)"
  obtains s0 n where "i_sub s s0" "istream_ok s0" "n \<le> length (i_avail s0)" "istream_ok sub" "n < 2 ^ 32"
    "s1 = s0\<lparr>bytes_left := bytes_left s0 - word_of_nat n, i_errmsg := i_errmsg s0\<rparr>" "sub = s0\<lparr>bytes_left := word_of_nat n\<rparr>"
proof -
  obtain s0 n where m: "i_sub s s0" "istream_ok s0" "n \<le> length (i_avail s0)"
      "s1 = s0\<lparr>bytes_left := bytes_left s0 - word_of_nat n\<rparr>" "sub = s0\<lparr>bytes_left := word_of_nat n\<rparr>" "n < 2 ^ 32"
    using make_substream [OF s mk] by metis
  have "unat (word_of_nat n :: size_t) = n" using m(6) by (simp add: unat_of_nat_small)
  then have "istream_ok sub" using m length_i_avail [OF m(2)] by (simp add: istream_ok_def)
  then show ?thesis using that m by simp
qed

lemma make_fails: "istream_ok s \<Longrightarrow> pb_make_string_substream i s = (False, s1, sub) \<Longrightarrow> i_sub s s1"
  by (auto simp: pb_make_string_substream_def dest: varint32.consumes split: prod.splits bool.splits if_splits)

text \<open>A step that makes a substream and goes on with it. The parent has been shortened by the substream, and its state is
  that of the substream's beginning, until it is closed.\<close>

definition split_off :: "pb_istream_t \<Rightarrow> pb_istream_t \<Rightarrow> pb_istream_t \<Rightarrow> bool" where
  "split_off s0 s1 sub \<longleftrightarrow> istream_ok s0 \<and> istream_ok sub \<and> (\<exists>n e. n \<le> length (i_avail s0) \<and>
     s1 = s0\<lparr>bytes_left := bytes_left s0 - word_of_nat n, i_errmsg := e\<rparr> \<and> sub = s0\<lparr>bytes_left := word_of_nat n\<rparr>)"

lemma split_off_parent: "split_off s0 s1 sub \<Longrightarrow> i_within s0 s1" "split_off s0 s1 sub \<Longrightarrow> i_within sub sub' \<Longrightarrow> \<not> i_ub sub' \<and> \<not> i_ub s1"
  using unat_bytes_left_adv [of s0] by (auto simp: split_off_def i_within_def istream_ok_def)

lemma split_off_errmsg: "split_off s0 s1 sub \<Longrightarrow> split_off s0 (s1\<lparr>i_errmsg := e\<rparr>) sub"
  unfolding split_off_def by (elim conjE exE, intro conjI exI) auto

lemma split_off_close:
  assumes "split_off s0 s1 sub" and "i_within sub sub'"
  obtains s2 sub2 where "pb_close_string_substream i s1 sub' = (True, s2, sub2)" and "i_within s0 s2" and "i_sub sub sub' \<Longrightarrow> i_sub s0 s2"
  using assms close_within unfolding split_off_def by metis

lemma dec_ok_make:
  assumes f: "\<And>s st. f s st = (case pb_make_string_substream i s of (False, s1, sub) \<Rightarrow> Some (False, s1, st) | (True, s1, sub) \<Rightarrow> body s1 sub st)"
    and body: "\<And>s0 s1 sub st ok s' st'. split_off s0 s1 sub \<Longrightarrow> body s1 sub st = Some (ok, s', st') \<Longrightarrow>
      i_within s0 s' \<and> (ok \<longrightarrow> i_sub s0 s') \<and> keeps A st st'"
    and returns: "\<And>s0 s1 sub st. split_off s0 s1 sub \<Longrightarrow> t \<Longrightarrow> body s1 sub st \<noteq> None"
  shows "dec_ok t A f"
proof (rule dec_okI)
  fix s st ok s' st' assume s: "istream_ok s" and r: "f s st = Some (ok, s', st')"
  obtain k s1 sub where mk: "pb_make_string_substream i s = (k, s1, sub)" by (cases "pb_make_string_substream i s")
  show "i_within s s' \<and> (ok \<longrightarrow> i_sub s s') \<and> keeps A st st'"
  proof (cases k)
    case True
    then obtain s0 where m: "i_sub s s0" "split_off s0 s1 sub"
      using make_within [OF s] mk unfolding split_off_def by metis
    have "body s1 sub st = Some (ok, s', st')" using r mk True by (simp add: f)
    then show ?thesis
      using body [OF m(2)] i_within_trans [OF i_sub_within [OF s m(1)]] i_sub_trans [OF s m(1)] by blast
  next
    case False
    then show ?thesis using r mk make_fails [OF s] i_sub_within [OF s] by (auto simp: f)
  qed
next
  fix s st assume s: "istream_ok s" and t
  obtain k s1 sub where mk: "pb_make_string_substream i s = (k, s1, sub)" by (cases "pb_make_string_substream i s")
  show "f s st \<noteq> None"
  proof (cases k)
    case True
    then obtain s0 where m: "split_off s0 s1 sub"
      using make_within [OF s] mk unfolding split_off_def by metis
    then show ?thesis using returns [OF m \<open>t\<close>] mk True by (simp add: f)
  qed (use mk in \<open>simp add: f\<close>)
qed

lemma dec_ok_substream:
  assumes f: "dec_ok t A f"
  shows "dec_ok t A (in_substream E f)"
proof (rule dec_ok_make [OF in_substream_def])
  fix s0 s1 sub st ok s' st'
  assume m: "split_off s0 s1 sub" and r: "(case f sub st of None \<Rightarrow> None | Some (status, sub', st') \<Rightarrow>
      case pb_close_string_substream (d_io E) s1 sub' of (closed, s2, sub2) \<Rightarrow> Some (closed \<and> status, s2, st')) = Some (ok, s', st')"
  then obtain status sub' st1 where f1: "f sub st = Some (status, sub', st1)" by (auto split: option.splits)
  note F = dec_okD [OF f _ f1]
  obtain s2 sub2 where c: "pb_close_string_substream (d_io E) s1 sub' = (True, s2, sub2)" "i_within s0 s2" "i_sub sub sub' \<Longrightarrow> i_sub s0 s2"
    using split_off_close [OF m F(1)] m unfolding split_off_def by metis
  then show "i_within s0 s' \<and> (ok \<longrightarrow> i_sub s0 s') \<and> keeps A st st'"
    using r f1 F m unfolding split_off_def by auto
next
  fix s0 s1 sub st assume "split_off s0 s1 sub" t
  then have "f sub st \<noteq> None" using dec_ok_returns [OF f] by (auto simp: split_off_def)
  then show "(case f sub st of None \<Rightarrow> None | Some (status, sub', st') \<Rightarrow>
      case pb_close_string_substream (d_io E) s1 sub' of (closed, s2, sub2) \<Rightarrow> Some (closed \<and> status, s2, st')) \<noteq> None"
    by (auto split: prod.splits)
qed

subsection \<open>One value\<close>

text \<open>What the memory at \<open>p\<close> must be for one value of the field to be decoded there; nothing, if the whole memory may
  change.\<close>

definition valid_type :: "pb_field_t \<Rightarrow> bool" where
  "valid_type f \<longleftrightarrow> PB_LTYPE (type f) \<le> PB_LTYPE_FIXED_LENGTH_BYTES \<and> PB_LTYPE (type f) \<noteq> PB_LTYPE_EXTENSION"

definition size_valid :: "pb_field_t \<Rightarrow> bool" where
  "size_valid f \<longleftrightarrow>
     (PB_LTYPE (type f) = PB_LTYPE_BOOL \<longrightarrow> data_size f \<ge> 1) \<and>
     (PB_LTYPE (type f) = PB_LTYPE_FIXED32 \<longrightarrow> data_size f \<ge> 4) \<and>
     (PB_LTYPE (type f) = PB_LTYPE_FIXED64 \<longrightarrow> data_size f \<ge> 8)"

definition item_fits :: "ptr set \<Rightarrow> pb_field_t \<Rightarrow> ptr \<Rightarrow> bool" where
  "item_fits A f p \<longleftrightarrow> A = UNIV \<or>
     (PB_ATYPE (type f) \<noteq> PB_ATYPE_POINTER \<and> size_valid f \<and> span p (unat (data_size f)) \<subseteq> A)"

text \<open>\<open>sub_ok\<close>: all that is done with a submessage at \<open>p\<close> is right.\<close>

definition sub_ok :: "bool \<Rightarrow> ptr set \<Rightarrow> pb_dec_env \<Rightarrow> nat \<Rightarrow> msg_decoder \<Rightarrow> pb_field_t list \<Rightarrow> ptr \<Rightarrow> bool" where
  "sub_ok t A E d noinit fs p \<longleftrightarrow> dec_ok t A (noinit fs p) \<and> st_ok t A (pb_message_set_to_defaults E d fs p) \<and>
     st_ok t A (pb_release E d fs p)"

lemma dec_ok_init:
  assumes "sub_ok t A E d noinit fs p"
  shows "dec_ok t A (decode_init E d noinit fs p)"
proof -
  have n: "dec_ok t A (noinit fs p)" and rel: "st_ok t A (pb_release E d fs p)" and df: "st_ok t A (pb_message_set_to_defaults E d fs p)"
    using assms by (simp_all add: sub_ok_def)
  have "dec_ok t A (\<lambda>s st. case noinit fs p s st of None \<Rightarrow> None | Some (True, s', st') \<Rightarrow> Some (True, s', st')
      | Some (False, s', st') \<Rightarrow> map_option (\<lambda>st2. (False, s', st2)) (pb_release E d fs p st'))" (is "dec_ok t A ?g")
  proof (rule dec_okI)
    fix s st ok s' st' assume s: "istream_ok s" and r: "?g s st = Some (ok, s', st')"
    then obtain ok1 s1 st1 where n1: "noinit fs p s st = Some (ok1, s1, st1)" by (auto split: option.splits)
    show "i_within s s' \<and> (ok \<longrightarrow> i_sub s s') \<and> keeps A st st'"
      using dec_okD [OF n s n1] r n1 st_okD [OF rel, of st1] keeps_trans by (auto split: bool.splits)
  next
    fix s st assume s: "istream_ok s" and t
    then show "?g s st \<noteq> None"
      using dec_ok_returns [OF n s, of st] st_ok_returns [OF rel] by (auto split: option.splits bool.splits)
  qed
  then show ?thesis unfolding decode_init_def using df by (intro dec_ok_then dec_ok_do)
qed

lemma dec_ok_submessage:
  assumes "sub_ok t A E d noinit (d_fields_at E (fptr field)) p"
  shows "dec_ok t A (pb_dec_submessage E d noinit field p)"
proof (cases "fptr field = 0")
  case True
  show ?thesis
  proof (rule dec_ok_make [where i = "d_io E" and body = "\<lambda>s1 sub st. d_fail ''invalid field descriptor'' s1 st"])
    show "pb_dec_submessage E d noinit field p s st = (case pb_make_string_substream (d_io E) s of (False, s1, sub) \<Rightarrow> Some (False, s1, st)
        | (True, s1, sub) \<Rightarrow> d_fail ''invalid field descriptor'' s1 st)" for s st
      using True by (simp add: pb_dec_submessage_def)
  qed (auto simp: d_fail_def dest: split_off_parent)
next
  case False
  have "dec_ok t A (noinit (d_fields_at E (fptr field)) p)" using assms by (simp add: sub_ok_def)
  then show ?thesis using False dec_ok_init [OF assms] by (simp add: pb_dec_submessage_def dec_ok_substream)
qed

lemma dec_ok_value:
  assumes "valid_type f" and fits: "item_fits A f p"
    and sub: "PB_LTYPE (type f) = PB_LTYPE_SUBMESSAGE \<Longrightarrow> sub_ok t A E d noinit (d_fields_at E (fptr f)) p"
  shows "dec_ok t A (PB_DECODERS E d noinit (PB_LTYPE (type f)) f p)"
proof -
  let ?l = "PB_LTYPE (type f)"
  have u: "unat ?l \<le> 10" "?l \<noteq> 9" using assms(1) by (simp_all add: valid_type_def word_le_nat_alt)
  have l: "?l \<in> {0, 1, 2, 3, 4, 5, 6, 7, 8, 10}"
  proof -
    have "unat ?l \<noteq> 9" using u(2) by (simp add: word_unat_eq_iff)
    then have "unat ?l \<in> {0, 1, 2, 3, 4, 5, 6, 7, 8, 10}" using u(1) by (simp, presburger)
    then show ?thesis by (auto simp: word_unat_eq_iff)
  qed
  have sp: "span p (unat (data_size f)) \<subseteq> A" using fits by (auto simp: item_fits_def)
  have b: "?l = 0 \<Longrightarrow> p \<in> A"
    using fits span_mono [of 1 "unat (data_size f)" p] by (auto simp: item_fits_def size_valid_def span_def word_le_nat_alt)
  have f4: "?l = 4 \<Longrightarrow> span p 4 \<subseteq> A"
    using fits span_mono [of 4 "unat (data_size f)" p] by (auto simp: item_fits_def size_valid_def word_le_nat_alt)
  have f8: "?l = 5 \<Longrightarrow> span p 8 \<subseteq> A"
    using fits span_mono [of 8 "unat (data_size f)" p] by (auto simp: item_fits_def size_valid_def word_le_nat_alt)
  have s: "A = UNIV \<or> PB_ATYPE (type f) \<noteq> PB_ATYPE_POINTER \<and> span p (unat (data_size f)) \<subseteq> A"
    using fits by (auto simp: item_fits_def)
  show ?thesis
    using l by (auto simp: PB_DECODERS_def dec_ok_scalars sp b f4 f8 dec_ok_bytes [OF s] dec_ok_string [OF s]
        dec_ok_fixed_length_bytes dec_ok_submessage sub)
qed

subsection \<open>Arrays\<close>

lemma dec_ok_inc_size: "span (pSize it) 4 \<subseteq> A \<Longrightarrow> dec_ok t A (inc_size it)"
  unfolding inc_size_def by (rule dec_ok_set) (auto simp: store_outside subset_eq)

lemma static_packed_loop_ok:
  assumes items: "\<forall>k < array_size (cur it). dec_ok t A (func (pData it + ucast (data_size (cur it) * k)))"
    and eats: "\<forall>p. eats (func p)" and sz: "span (pSize it) 4 \<subseteq> A" and sub: "istream_ok sub"
  shows "(t \<longrightarrow> unat (bytes_left sub) < n \<longrightarrow> static_packed_loop func n it sub st \<noteq> None) \<and>
    (\<forall>ok s' st'. static_packed_loop func n it sub st = Some (ok, s', st') \<longrightarrow>
       i_within sub s' \<and> (ok \<longrightarrow> i_sub sub s') \<and> keeps A st st')"
  using sub
proof (induction n arbitrary: sub st)
  case (Suc n)
  show ?case
  proof (cases "bytes_left sub > 0 \<and> size_of it st < array_size (cur it)")
    case True
    let ?f = "func (item_ptr (pData it) it st)"
    have f: "dec_ok t A (d_then ?f (inc_size it))"
      using items True sz by (auto simp: item_ptr_def intro!: dec_ok_inc_size)
    have st: "static_packed_loop func (Suc n) it sub st =
        (case d_then ?f (inc_size it) sub st of None \<Rightarrow> None | Some (False, s1, st1) \<Rightarrow> Some (False, s1, st1)
         | Some (True, s1, st1) \<Rightarrow> static_packed_loop func n it s1 st1)"
      using True by (auto simp: d_then_def split: option.splits bool.splits)
    show ?thesis
    proof (cases "d_then ?f (inc_size it) sub st")
      case None
      then show ?thesis using st dec_ok_returns [OF f Suc.prems, of st] by auto
    next
      case (Some r)
      obtain ok1 s1 st1 where r: "d_then ?f (inc_size it) sub st = Some (ok1, s1, st1)" using Some by (cases r) auto
      note F = dec_okD [OF f Suc.prems r]
      show ?thesis
      proof (cases ok1)
        case True
        have "unat (bytes_left s1) < unat (bytes_left sub)"
          using r True eats [rule_format, of "item_ptr (pData it) it st"] Suc.prems unfolding eats_def
          by (fastforce simp: d_then_def inc_size_def d_set_def split: option.splits bool.splits)
        then show ?thesis
          using st r True Suc.IH [OF F(4), of st1] F i_within_trans keeps_trans i_sub_trans [OF Suc.prems]
          by (auto simp del: static_packed_loop.simps)
      qed (use st r F in \<open>auto simp del: static_packed_loop.simps\<close>)
    qed
  qed auto
qed simp

lemma dec_ok_static_packed:
  assumes items: "\<forall>k < array_size (cur it). dec_ok t A (func (pData it + ucast (data_size (cur it) * k)))"
    and eats: "\<forall>p. eats (func p)" and sz: "span (pSize it) 4 \<subseteq> A"
  shows "dec_ok t A (static_packed E func it)"
proof (rule dec_ok_make [OF static_packed_def])
  note loop = static_packed_loop_ok [OF items eats sz]
  fix s0 s1 sub st ok s' st'
  assume m: "split_off s0 s1 sub" and r: "(case static_packed_loop func (Suc (unat (bytes_left sub))) it sub st of None \<Rightarrow> None
     | Some (status, sub', st') \<Rightarrow> if bytes_left sub' \<noteq> 0
       then d_fail ''array overflow'' (s1\<lparr>i_ub := i_ub s1 \<or> i_ub sub'\<rparr>) st'
       else case pb_close_string_substream (d_io E) s1 sub' of (closed, s2, sub2) \<Rightarrow> Some (closed \<and> status, s2, st')) = Some (ok, s', st')"
  then obtain status sub' st1 where f1: "static_packed_loop func (Suc (unat (bytes_left sub))) it sub st = Some (status, sub', st1)"
    by (auto split: option.splits)
  have w: "i_within sub sub'" and k1: "keeps A st st1" and su: "status \<Longrightarrow> i_sub sub sub'"
    using loop [THEN conjunct2, rule_format, OF _ f1] m by (auto simp: split_off_def)
  obtain s2 sub2 where c: "pb_close_string_substream (d_io E) s1 sub' = (True, s2, sub2)" "i_within s0 s2" "i_sub sub sub' \<Longrightarrow> i_sub s0 s2"
    using split_off_close [OF m w] by metis
  have "s1\<lparr>i_ub := i_ub s1 \<or> i_ub sub'\<rparr> = s1" using split_off_parent(2) [OF m w] by simp
  then show "i_within s0 s' \<and> (ok \<longrightarrow> i_sub s0 s') \<and> keeps A st st'"
    using r f1 c su k1 split_off_parent(1) [OF m] by (auto simp: d_fail_def split: if_splits)
next
  fix s0 s1 sub st assume m: "split_off s0 s1 sub" and t
  have "static_packed_loop func (Suc (unat (bytes_left sub))) it sub st \<noteq> None"
  proof -
    have "istream_ok sub" using m by (simp add: split_off_def)
    from static_packed_loop_ok [OF items eats sz this, THEN conjunct1] show ?thesis using \<open>t\<close> by blast
  qed
  then show "(case static_packed_loop func (Suc (unat (bytes_left sub))) it sub st of None \<Rightarrow> None
     | Some (status, sub', st') \<Rightarrow> if bytes_left sub' \<noteq> 0
       then d_fail ''array overflow'' (s1\<lparr>i_ub := i_ub s1 \<or> i_ub sub'\<rparr>) st'
       else case pb_close_string_substream (d_io E) s1 sub' of (closed, s2, sub2) \<Rightarrow> Some (closed \<and> status, s2, st')) \<noteq> None"
    by (auto simp: d_fail_def split: prod.splits)
qed

subsection \<open>Fields\<close>

text \<open>Everything that may be done with a submessage of the field at \<open>p\<close> is right.\<close>

definition subs_ok :: "bool \<Rightarrow> ptr set \<Rightarrow> pb_dec_env \<Rightarrow> nat \<Rightarrow> msg_decoder \<Rightarrow> pb_field_t \<Rightarrow> ptr \<Rightarrow> bool" where
  "subs_ok t A E d noinit f p \<longleftrightarrow>
     (PB_LTYPE (type f) = PB_LTYPE_SUBMESSAGE \<longrightarrow> sub_ok t A E d noinit (d_fields_at E (fptr f)) p)"

text \<open>Where a static field may be written to: its items, and the flag, count or tag that goes with it.\<close>

definition static_fits :: "ptr set \<Rightarrow> pb_field_iter_t \<Rightarrow> bool" where
  "static_fits A it \<longleftrightarrow>
     (let f = cur it; h = PB_HTYPE (type f) in
      if h = PB_HTYPE_REPEATED
      then (\<forall>k < array_size f. item_fits A f (pData it + ucast (data_size f * k))) \<and> span (pSize it) 4 \<subseteq> A
      else item_fits A f (pData it) \<and> (h = PB_HTYPE_OPTIONAL \<and> pSize it \<noteq> pData it \<longrightarrow> pSize it \<in> A) \<and>
           (h = PB_HTYPE_ONEOF \<longrightarrow> span (pSize it) 4 \<subseteq> A))"

definition static_subs :: "bool \<Rightarrow> ptr set \<Rightarrow> pb_dec_env \<Rightarrow> nat \<Rightarrow> msg_decoder \<Rightarrow> pb_field_iter_t \<Rightarrow> bool" where
  "static_subs t A E d noinit it \<longleftrightarrow>
     (let f = cur it in
      if PB_HTYPE (type f) = PB_HTYPE_REPEATED
      then (\<forall>k < array_size f. subs_ok t A E d noinit f (pData it + ucast (data_size f * k))) \<and>
           (\<forall>k < unat (array_size f). subs_ok t A E d noinit f (pData it + word_of_nat k * ucast (data_size f)))
      else subs_ok t A E d noinit f (pData it))"

lemma item_fits_span: "item_fits A f p \<Longrightarrow> span p (unat (data_size f)) \<subseteq> A"
  by (auto simp: item_fits_def)

lemma dec_ok_static_field:
  assumes ty: "valid_type (cur it)" and fits: "static_fits A it" and sub: "static_subs t A E d noinit it"
  shows "dec_ok t A (decode_static_field E d noinit wt it)"
proof -
  let ?f = "cur it" and ?h = "PB_HTYPE (type (cur it))" and ?l = "PB_LTYPE (type (cur it))"
  let ?func = "PB_DECODERS E d noinit ?l ?f"
  have one: "dec_ok t A (?func (pData it))" if "?h \<noteq> PB_HTYPE_REPEATED"
    using that ty fits sub by (intro dec_ok_value) (auto simp: static_fits_def static_subs_def subs_ok_def Let_def)
  have items: "\<forall>k < array_size ?f. dec_ok t A (?func (pData it + ucast (data_size ?f * k)))" and sz: "span (pSize it) 4 \<subseteq> A"
    if "?h = PB_HTYPE_REPEATED"
    using that ty fits sub
    by (auto simp: static_fits_def static_subs_def subs_ok_def Let_def intro!: dec_ok_value)
  consider "?h = PB_HTYPE_REQUIRED" | "?h = PB_HTYPE_OPTIONAL" | "?h = PB_HTYPE_REPEATED" "wt = PB_WT_STRING \<and> ?l \<le> PB_LTYPE_LAST_PACKABLE"
    | "?h = PB_HTYPE_REPEATED" "\<not> (wt = PB_WT_STRING \<and> ?l \<le> PB_LTYPE_LAST_PACKABLE)" | "?h = PB_HTYPE_ONEOF"
    | "?h \<noteq> PB_HTYPE_REQUIRED" "?h \<noteq> PB_HTYPE_OPTIONAL" "?h \<noteq> PB_HTYPE_REPEATED" "?h \<noteq> PB_HTYPE_ONEOF"
    by blast
  then show ?thesis
  proof cases
    case 1
    then show ?thesis using one by (simp add: decode_static_field_def Let_def)
  next
    case 2
    have "dec_ok t A (d_set (\<lambda>m. if pSize it \<noteq> pData it then store_bool m (pSize it) True else m))"
    proof (rule dec_ok_set)
      fix m a assume "a \<notin> A"
      then show "(if pSize it \<noteq> pData it then store_bool m (pSize it) True else m) a = m a"
        using 2 fits store_outside(4) [of a "pSize it" m True] by (auto simp: static_fits_def)
    qed
    then show ?thesis using 2 one by (auto simp: decode_static_field_def Let_def)
  next
    case 3
    then show ?thesis
      using items sz eats_scalar by (simp add: decode_static_field_def Let_def dec_ok_static_packed)
  next
    case 4
    have "dec_ok t A (d_then (inc_size it) (if size_of it st \<ge> array_size ?f then d_fail ''array overflow''
        else ?func (item_ptr (pData it) it st)))" for st
      using items [OF 4(1)] sz [OF 4(1)] by (intro dec_ok_then dec_ok_inc_size dec_ok_if dec_ok_fail) (auto simp: item_ptr_def not_le)
    then show ?thesis
      using 4 dec_ok_choice [of t A "\<lambda>s st. d_then (inc_size it) (if size_of it st \<ge> array_size ?f then d_fail ''array overflow''
        else ?func (item_ptr (pData it) it st))"] by (auto simp: decode_static_field_def Let_def)
  next
    case 5
    have fs: "item_fits A ?f (pData it)" "span (pSize it) 4 \<subseteq> A" using fits 5 by (simp_all add: static_fits_def)
    have z: "dec_ok t A (d_set (\<lambda>m. mem_put m (pData it) (replicate (unat (data_size ?f)) 0)))"
      using item_fits_span [OF fs(1)] by (intro dec_ok_set) (auto intro!: mem_put_outside)
    have df: "dec_ok t A (d_do (pb_message_set_to_defaults E d (d_fields_at E (fptr ?f)) (pData it)))" if "?l = PB_LTYPE_SUBMESSAGE"
      using that sub 5 by (intro dec_ok_do) (simp add: static_subs_def subs_ok_def sub_ok_def Let_def)
    have "dec_ok t A (\<lambda>s st. if ?l = PB_LTYPE_SUBMESSAGE \<and> size_of it st \<noteq> tag ?f
        then d_then (d_set (\<lambda>m. mem_put m (pData it) (replicate (unat (data_size ?f)) 0)))
               (d_do (pb_message_set_to_defaults E d (d_fields_at E (fptr ?f)) (pData it))) s st
        else Some (True, s, st))"
      using dec_ok_cond(1) [OF dec_ok_then [OF z df] dec_ok_skip] by (cases "?l = PB_LTYPE_SUBMESSAGE") simp_all
    moreover have "dec_ok t A (d_set (\<lambda>m. store32 m (pSize it) (tag ?f)))"
      using fs(2) by (intro dec_ok_set) (auto simp: store_outside subset_eq)
    ultimately show ?thesis using 5 one by (simp add: decode_static_field_def Let_def dec_ok_then)
  next
    case 6
    then show ?thesis by (simp add: decode_static_field_def Let_def)
  qed
qed

lemma dec_ok_pointer_item:
  assumes "st_ok t A (initialize_pointer_field E d p it)" and "dec_ok t A (func p)"
  shows "dec_ok t A (pointer_item E d func it p)"
  unfolding pointer_item_def using assms by (intro dec_ok_then dec_ok_do)

lemma st_ok_initialize:
  assumes "\<And>p. subs_ok t UNIV E d noinit (cur it) p"
  shows "st_ok t UNIV (initialize_pointer_field E d p it)"
proof -
  have "PB_LTYPE (type (cur it)) = PB_LTYPE_SUBMESSAGE \<Longrightarrow> st_ok t UNIV (pb_message_set_to_defaults E d (d_fields_at E (fptr (cur it))) p)"
    using assms [of p] by (simp add: subs_ok_def sub_ok_def)
  then show ?thesis by (auto simp: st_ok_def initialize_pointer_field_def Let_def)
qed

lemma packed_room_ok:
  assumes "data_size (cur it) \<noteq> 0" and "istream_ok sub"
  obtains al ok st' s' where "packed_room E it alloc sub st = Some (al, ok, s', st')" and "i_within sub s'" and "ok \<Longrightarrow> i_sub sub s'"
proof -
  have "(ucast (data_size (cur it)) :: size_t) \<noteq> 0" using assms(1) by (simp add: word_unat_eq_iff ucast_size)
  moreover have "\<exists>ok s' st'. allocate_field E p n k sub st = Some (ok, s', st') \<and> i_within sub s' \<and> (ok \<longrightarrow> i_sub sub s')" for p n k
    using dec_okD(1,2) [OF dec_ok_allocate [of True E p n k] assms(2)] dec_ok_returns [OF dec_ok_allocate [of True E p n k] assms(2), of st] by fastforce
  ultimately show ?thesis
    using that by (cases "ucast (size_of it st) + 1 > alloc") (auto simp: packed_room_def Let_def, blast)
qed

lemma pointer_packed_loop_ok:
  assumes ds: "data_size (cur it) \<noteq> 0" and items: "\<forall>p. dec_ok t UNIV (pointer_item E d func it p)"
    and eats: "\<forall>p. eats (func p)" and m: "split_off s0 s sub0" and w: "i_sub sub0 sub"
  shows "(t \<longrightarrow> unat (bytes_left sub) < n \<longrightarrow> pointer_packed_loop E d func n it alloc s sub st \<noteq> None) \<and>
    (\<forall>ok s' sub' st'. pointer_packed_loop E d func n it alloc s sub st = Some (ok, s', sub', st') \<longrightarrow>
       split_off s0 s' sub0 \<and> i_within sub0 sub' \<and> (ok \<longrightarrow> i_sub sub0 sub'))"
  using w
proof (induction n arbitrary: alloc sub st)
  case (Suc n)
  have ok0: "istream_ok sub0" using m by (simp add: split_off_def)
  have ok: "istream_ok sub" and w0: "i_within sub0 sub" using i_sub_ok [OF ok0] i_sub_within [OF ok0] Suc.prems by auto
  obtain al rok s1 st1 where room: "packed_room E it alloc sub st = Some (al, rok, s1, st1)" "i_within sub s1" "rok \<Longrightarrow> i_sub sub s1"
    using packed_room_ok [OF ds ok] by metis
  show ?case
  proof (cases "bytes_left sub = 0 \<or> size_of it st = PB_SIZE_MAX \<or> \<not> rok \<or> item_ptr (load64 (mem st1) (pData it)) it st1 = 0")
    case True
    then show ?thesis
      using Suc.prems m w0 room split_off_errmsg [OF m] i_within_trans [OF w0] by (auto split: bool.splits)
  next
    case False
    let ?p = "item_ptr (load64 (mem st1) (pData it)) it st1"
    have ok1: "istream_ok s1" using i_within_ok [OF ok room(2)] .
    have f: "dec_ok t UNIV (d_then (pointer_item E d func it ?p) (inc_size it))" using items by (intro dec_ok_then dec_ok_inc_size) auto
    have step: "pointer_packed_loop E d func (Suc n) it alloc s sub st =
        (case d_then (pointer_item E d func it ?p) (inc_size it) s1 st1 of None \<Rightarrow> None | Some (False, sub2, st2) \<Rightarrow> Some (False, s, sub2, st2)
         | Some (True, sub2, st2) \<Rightarrow> pointer_packed_loop E d func n it al s sub2 st2)"
      using False room(1) by (auto split: bool.splits)
    show ?thesis
    proof (cases "d_then (pointer_item E d func it ?p) (inc_size it) s1 st1")
      case None
      then show ?thesis using step dec_ok_returns [OF f ok1, of st1] by (auto simp del: pointer_packed_loop.simps)
    next
      case (Some r)
      then obtain k s2 st2 where r: "d_then (pointer_item E d func it ?p) (inc_size it) s1 st1 = Some (k, s2, st2)" by (cases r) auto
      note F = dec_okD [OF f ok1 r]
      have w2: "i_within sub0 s2" using w0 room(2) F(1) i_within_trans by blast
      show ?thesis
      proof (cases k)
        case True
        obtain st3 st4 where "func ?p s1 st3 = Some (True, s2, st4)"
          using r True by (auto simp: d_then_def pointer_item_def d_do_def inc_size_def d_set_def split: option.splits bool.splits)
        then have "unat (bytes_left s2) < unat (bytes_left s1)" using eats ok1 unfolding eats_def by blast
        then have less: "unat (bytes_left s2) < unat (bytes_left sub)" using i_within_left [OF room(2)] by (simp add: word_le_nat_alt)
        have "i_sub sub0 s2"
          using i_sub_trans [OF ok0 Suc.prems] i_sub_trans [OF ok] room(3) F(2) True False by blast
        from Suc.IH [OF this, of al st2] show ?thesis using step r True less by (auto simp del: pointer_packed_loop.simps)
      qed (use step r w2 m in \<open>auto simp del: pointer_packed_loop.simps\<close>)
    qed
  qed
qed simp

lemma dec_ok_pointer_packed:
  assumes ds: "data_size (cur it) \<noteq> 0" and items: "\<forall>p. dec_ok t UNIV (pointer_item E d func it p)" and eats: "\<forall>p. eats (func p)"
  shows "dec_ok t UNIV (pointer_packed E d func it)"
proof (rule dec_ok_make [OF pointer_packed_def])
  fix s0 s1 sub st ok s' st'
  let ?loop = "pointer_packed_loop E d func (Suc (unat (bytes_left sub))) it (ucast (size_of it st)) s1 sub st"
  assume m: "split_off s0 s1 sub" and r: "(case ?loop of None \<Rightarrow> None | Some (status, s2, sub', st') \<Rightarrow>
     case pb_close_string_substream (d_io E) s2 sub' of (closed, s3, sub3) \<Rightarrow> Some (closed \<and> status, s3, st')) = Some (ok, s', st')"
  then obtain status s2 sub' st1 where f1: "?loop = Some (status, s2, sub', st1)" by (cases ?loop) auto
  have w: "split_off s0 s2 sub" "i_within sub sub'" "status \<Longrightarrow> i_sub sub sub'"
    using pointer_packed_loop_ok [OF ds items eats m i_sub_refl, THEN conjunct2, rule_format, OF f1] by blast+
  obtain s3 sub3 where c: "pb_close_string_substream (d_io E) s2 sub' = (True, s3, sub3)" "i_within s0 s3" "i_sub sub sub' \<Longrightarrow> i_sub s0 s3"
    using split_off_close [OF w(1,2)] by metis
  then show "i_within s0 s' \<and> (ok \<longrightarrow> i_sub s0 s') \<and> keeps UNIV st st'" using r f1 w(3) by auto
next
  fix s0 s1 sub st assume m: "split_off s0 s1 sub" and t
  have "pointer_packed_loop E d func (Suc (unat (bytes_left sub))) it (ucast (size_of it st)) s1 sub st \<noteq> None"
    using pointer_packed_loop_ok [OF ds items eats m i_sub_refl, THEN conjunct1] \<open>t\<close> by blast
  then show "(case pointer_packed_loop E d func (Suc (unat (bytes_left sub))) it (ucast (size_of it st)) s1 sub st of None \<Rightarrow> None
      | Some (status, s2, sub', st') \<Rightarrow>
     case pb_close_string_substream (d_io E) s2 sub' of (closed, s3, sub3) \<Rightarrow> Some (closed \<and> status, s3, st')) \<noteq> None"
    by (auto simp del: pointer_packed_loop.simps split: prod.splits)
qed

lemma dec_ok_pointer_field:
  assumes ty: "valid_type (cur it)" and ds: "data_size (cur it) \<noteq> 0" and sub: "\<And>p. subs_ok t UNIV E d noinit (cur it) p"
    and rel: "st_ok t UNIV (pb_release_single_field E (Suc d) it)"
  shows "dec_ok t UNIV (decode_pointer_field E d noinit wt it)"
proof -
  let ?f = "cur it" and ?h = "PB_HTYPE (type (cur it))" and ?l = "PB_LTYPE (type (cur it))"
  let ?func = "PB_DECODERS E d noinit ?l ?f"
  have func: "dec_ok t UNIV (?func p)" for p
    using ty sub [of p] by (intro dec_ok_value) (auto simp: item_fits_def subs_ok_def)
  have item: "dec_ok t UNIV (pointer_item E d ?func it p)" for p
    by (intro dec_ok_pointer_item st_ok_initialize [where noinit = noinit] sub func)
  have r: "dec_ok t UNIV (\<lambda>s st. if ?l = PB_LTYPE_SUBMESSAGE \<and> load64 (mem st) (pData it) \<noteq> 0
      then d_do (pb_release_single_field E (Suc d) it) s st else Some (True, s, st))"
    by (intro dec_ok_cond dec_ok_do rel dec_ok_skip)
  have one: "dec_ok t UNIV (\<lambda>s st. pointer_item E d ?func it (load64 (mem st) (pData it)) s st)"
    using dec_ok_choice [of t UNIV "\<lambda>s st. pointer_item E d ?func it (load64 (mem st) (pData it))"] item by simp
  have next_item: "dec_ok t UNIV (\<lambda>s st. let pItem = item_ptr (load64 (mem st) (pData it)) it st in
      d_then (inc_size it) (pointer_item E d ?func it pItem) s st)"
    using dec_ok_choice [of t UNIV "\<lambda>s st. d_then (inc_size it) (pointer_item E d ?func it (item_ptr (load64 (mem st) (pData it)) it st))"]
      item by (simp add: Let_def dec_ok_then dec_ok_inc_size)
  define grow where "grow st = d_then (allocate_field E (pData it) (ucast (data_size ?f)) (ucast (size_of it st + 1)))
      (\<lambda>s st. let pItem = item_ptr (load64 (mem st) (pData it)) it st in d_then (inc_size it) (pointer_item E d ?func it pItem) s st)" for st
  have "dec_ok t UNIV (if size_of it st = PB_SIZE_MAX then d_fail ''too many array entries'' else grow st)" for st
    unfolding grow_def using next_item by (intro dec_ok_if dec_ok_fail dec_ok_then dec_ok_allocate)
  then have "dec_ok t UNIV (\<lambda>s st. (if size_of it st = PB_SIZE_MAX then d_fail ''too many array entries'' else grow st) s st)"
    by (rule dec_ok_choice)
  then have rep: "dec_ok t UNIV (\<lambda>s st. if size_of it st = PB_SIZE_MAX then d_fail ''too many array entries'' s st else grow st s st)"
    by (simp add: if_distrib [of "\<lambda>f. f _ _"] cong: if_cong)
  show ?thesis
    unfolding decode_pointer_field_def Let_def
    using r one rep [unfolded grow_def Let_def] func item ds eats_scalar
    by (intro dec_ok_if dec_ok_then dec_ok_fail dec_ok_allocate dec_ok_UNIV_set dec_ok_pointer_packed) (auto simp: Let_def)
qed

end
