(* ===== verification/PbDecodeSafe.thy ===== *)
theory PbDecodeSafe
  imports PbDecodeSteps
begin

text \<open>
  Safety and termination of the message decoder. The steps of \<open>PbDecodeSteps\<close> are put together: callback fields, the
  iterator's positions, a field, a round of the loop, a message, nested messages. Two kinds of message types are covered:
  any type, with the whole memory as the region that may change (\<open>nested_valid\<close>, \<open>descriptor_valid\<close>), and types of static
  fields, where the region is the struct (\<open>static_within\<close>).
\<close>

section \<open>Callback fields\<close>

text \<open>The contract of the caller's decoding callbacks: they read from the stream they are given through the library, and
  (if \<open>t\<close>) consume something of a stream that is not empty, or fail.\<close>

definition callback_safe :: "bool \<Rightarrow> pb_dec_env \<Rightarrow> bool" where
  "callback_safe t E \<longleftrightarrow> (\<forall>f field a s st ok s' st'. istream_ok s \<longrightarrow> user_decode E f field a s st = (ok, s', st') \<longrightarrow>
     i_within s s' \<and> (ok \<longrightarrow> i_sub s s' \<and> (t \<longrightarrow> bytes_left s \<noteq> 0 \<longrightarrow> bytes_left s' < bytes_left s)))"

lemma callback_loop_ok:
  assumes cb: "callback_safe t E" and sub: "istream_ok sub"
  shows "(t \<longrightarrow> unat (bytes_left sub) < n \<longrightarrow> callback_loop (\<lambda>s st. user_decode E (f st) field a s st) n sub st \<noteq> None) \<and>
    (\<forall>ok s' st'. callback_loop (\<lambda>s st. user_decode E (f st) field a s st) n sub st = Some (ok, s', st') \<longrightarrow> i_within sub s' \<and> (ok \<longrightarrow> i_sub sub s'))"
  using sub
proof (induction n arbitrary: sub st)
  case (Suc n)
  obtain k s1 st1 where u: "user_decode E (f st) field a sub st = (k, s1, st1)" by (cases "user_decode E (f st) field a sub st")
  have F: "i_within sub s1" "k \<Longrightarrow> i_sub sub s1" "k \<Longrightarrow> t \<Longrightarrow> bytes_left sub \<noteq> 0 \<Longrightarrow> bytes_left s1 < bytes_left sub"
    using cb Suc.prems u unfolding callback_safe_def by blast+
  have ok1: "istream_ok s1" using i_within_ok [OF Suc.prems F(1)] .
  show ?case
  proof (cases "k \<and> bytes_left s1 \<noteq> 0")
    case True
    have "bytes_left sub \<noteq> 0" using True i_within_left [OF F(1)] by (metis word_le_0_iff)
    then have "t \<Longrightarrow> unat (bytes_left s1) < unat (bytes_left sub)" using True F(3) by (simp add: word_less_nat_alt)
    moreover have step: "callback_loop (\<lambda>s st. user_decode E (f st) field a s st) (Suc n) sub st =
        callback_loop (\<lambda>s st. user_decode E (f st) field a s st) n s1 st1"
      using True u by simp
    ultimately show ?thesis
      unfolding step using Suc.IH [OF ok1, of st1] True F i_within_trans [OF F(1)] i_sub_trans [OF Suc.prems] by fastforce
  next
    case False
    then show ?thesis using u F by (auto split: bool.splits)
  qed
qed simp

lemma raw_value_length: "read_raw_value i s wt m = (ok, s', v) \<Longrightarrow> istream_ok s \<Longrightarrow> 8 \<le> m \<Longrightarrow> length v \<le> m"
proof -
  assume r: "read_raw_value i s wt m = (ok, s', v)" and s: "istream_ok s" and m: "8 \<le> m"
  have rd: "pb_read i s True n = (ok, s', v) \<Longrightarrow> length v \<le> unat n" for n
    using pb_read_ok [OF s, of n i True] pb_read_short [OF s, of n i True] by (cases "unat n \<le> length (i_avail s)") auto
  show ?thesis using r m raw_varint_loop_bound [of i s m "[]" ok s' v] rd [of 8] rd [of 4]
    by (auto simp: read_raw_value_def split: if_splits)
qed

lemma dec_ok_callback_field:
  assumes cb: "callback_safe t E"
  shows "dec_ok t UNIV (decode_callback_field E wt it)"
proof -
  let ?p = "pData it"
  have skip: "dec_ok t UNIV (\<lambda>s st. case pb_skip_field (d_io E) s wt of (ok, s') \<Rightarrow> Some (ok, s', st))"
    using skip_field.consumes [of _ "d_io E" wt] i_sub_within by (intro dec_okI) (auto simp: no_value_def split: prod.splits)
  define strings where "strings decode s st = (case pb_make_string_substream (d_io E) s of
           (False, s1, sub) \<Rightarrow> Some (False, s1, st)
         | (True, s1, sub) \<Rightarrow>
             (case callback_loop decode (Suc (unat (bytes_left sub))) sub st of
                None \<Rightarrow> None
              | Some (False, sub', st') \<Rightarrow> d_fail ''callback failed'' (s1\<lparr>i_ub := (i_ub s1 \<or> i_ub sub')\<rparr>) st'
              | Some (True, sub', st') \<Rightarrow>
                  (case pb_close_string_substream (d_io E) s1 sub' of (closed, s2, sub2) \<Rightarrow> Some (closed, s2, st'))))" for decode s st
  have str: "dec_ok t UNIV (strings (\<lambda>s st. user_decode E (f st) field a s st))" for f field a
  proof (rule dec_ok_make [OF strings_def], goal_cases)
    case (1 s0 s1 sub st ok s' st')
    have sub: "istream_ok sub" using 1(1) by (simp add: split_off_def)
    obtain k sub' st1 where f1: "callback_loop (\<lambda>s st. user_decode E (f st) field a s st) (Suc (unat (bytes_left sub))) sub st = Some (k, sub', st1)"
      using 1(2) by (auto simp del: callback_loop.simps split: option.splits)
    have w: "i_within sub sub'" "k \<Longrightarrow> i_sub sub sub'" using callback_loop_ok [OF cb sub] f1 by blast+
    obtain s2 sub2 where c: "pb_close_string_substream (d_io E) s1 sub' = (True, s2, sub2)" "i_within s0 s2" "i_sub sub sub' \<Longrightarrow> i_sub s0 s2"
      using split_off_close [OF 1(1) w(1)] by metis
    have "s1\<lparr>i_ub := i_ub s1 \<or> i_ub sub'\<rparr> = s1" using split_off_parent(2) [OF 1(1) w(1)] by simp
    then show ?case
      using 1(2) f1 c w(2) split_off_parent(1) [OF 1(1)]
      by (cases k) (auto simp: d_fail_def simp del: callback_loop.simps)
  next
    case (2 s0 s1 sub st)
    have "istream_ok sub" using 2(1) by (simp add: split_off_def)
    from callback_loop_ok [OF cb this, of "Suc (unat (bytes_left sub))" f field a st] 2(2) show ?case
      by (auto simp: d_fail_def simp del: callback_loop.simps split: option.splits bool.splits prod.splits)
  qed
  define scalar where "scalar decode s st = (case read_raw_value (d_io E) s wt 10 of
           (False, s1, buffer) \<Rightarrow> Some (False, s1, st)
         | (True, s1, buffer) \<Rightarrow>
             (case decode (pb_istream_from_buffer buffer (word_of_nat (length buffer))) st of
                (ok, sub', st') \<Rightarrow> Some (ok, s1\<lparr>i_ub := (i_ub s1 \<or> i_ub sub')\<rparr>, st')))"
    for decode :: "pb_istream_t \<Rightarrow> pb_store \<Rightarrow> bool \<times> pb_istream_t \<times> pb_store" and s st
  have sca: "dec_ok t UNIV (scalar (\<lambda>s st. user_decode E (f st) field a s st))" for f field a
  proof (rule dec_okI)
    fix s st ok s' st' assume s: "istream_ok s" and r: "scalar (\<lambda>s st. user_decode E (f st) field a s st) s st = Some (ok, s', st')"
    obtain k s1 v where rd: "read_raw_value (d_io E) s wt 10 = (k, s1, v)" by (cases "read_raw_value (d_io E) s wt 10")
    have s1: "i_sub s s1" using raw_value.consumes [OF s rd] .
    have "length v \<le> 10" using raw_value_length [OF rd s] by simp
    then have "istream_ok (pb_istream_from_buffer v (word_of_nat (length v)))"
      by (simp add: istream_ok_def pb_istream_from_buffer_def unat_of_nat_small)
    then have "\<not> i_ub (fst (snd (user_decode E (f st) field a (pb_istream_from_buffer v (word_of_nat (length v))) st)))"
      using cb unfolding callback_safe_def i_within_def istream_ok_def by (metis prod.collapse)
    moreover have "\<not> i_ub s1" using i_sub_ok [OF s s1] by (simp add: istream_ok_def)
    ultimately have "s' = s1" using r rd by (auto simp: scalar_def split: bool.splits prod.splits)
    then show "i_within s s' \<and> (ok \<longrightarrow> i_sub s s') \<and> keeps UNIV st st'" using s1 i_sub_within [OF s] by simp
  qed (auto simp: scalar_def split: prod.splits bool.splits)
  have "dec_ok t UNIV (if ?p = 0 \<or> load64 (mem st) ?p = 0 then (\<lambda>s st. case pb_skip_field (d_io E) s wt of (ok, s') \<Rightarrow> Some (ok, s', st))
      else if wt = PB_WT_STRING then strings (\<lambda>s st. user_decode E (load64 (mem st) ?p) (cur it) (?p + 8) s st)
      else scalar (\<lambda>s st. user_decode E (load64 (mem st) ?p) (cur it) (?p + 8) s st))" for st
    using skip str sca by (intro dec_ok_if)
  from dec_ok_choice [OF this] show ?thesis
    unfolding decode_callback_field_def [abs_def] strings_def [abs_def] scalar_def [abs_def] Let_def
    by (simp add: if_distrib [of "\<lambda>f. f _ _"] cong: if_cong)
qed

section \<open>Where the iterator can be\<close>

text \<open>The iterator of \<^verbatim>\<open>pb_decode_noinit\<close> is that of an entry, except that the size of a repeated field may be the local
  variable at \<open>fc\<close>. In an empty message it stands on the terminator.\<close>

definition n_pos :: "pb_field_t list \<Rightarrow> nat" where
  "n_pos fs = max 1 (n_fields fs)"

definition near :: "pb_field_t list \<Rightarrow> ptr \<Rightarrow> ptr \<Rightarrow> pb_field_iter_t \<Rightarrow> bool" where
  "near fs dest fc it \<longleftrightarrow> (\<exists>k < n_pos fs. it = iter_at fs dest k \<or>
     (PB_HTYPE (type (cur it)) = PB_HTYPE_REPEATED \<and> it = (iter_at fs dest k)\<lparr>pSize := fc\<rparr>))"

lemma near_at: "k < n_pos fs \<Longrightarrow> near fs dest fc (iter_at fs dest k)"
  unfolding near_def by blast

lemma cur_pSize [simp]: "cur (it\<lparr>pSize := z\<rparr>) = cur it"
  by (simp add: cur_def)

lemma near_local: "near fs dest fc it \<Longrightarrow> PB_HTYPE (type (cur it)) = PB_HTYPE_REPEATED \<Longrightarrow> near fs dest fc (it\<lparr>pSize := fc\<rparr>)"
  unfolding near_def by fastforce

lemma empty_fields:
  assumes "wf_fields fs" and "n_fields fs = 0"
  shows "length fs = 1" and "tag (cur (iter_at fs dest 0)) = 0" and "pb_field_iter_next (iter_at fs dest 0) = (False, iter_at fs dest 0)"
proof -
  show l: "length fs = 1" using assms by (cases fs) (auto simp: wf_fields_def n_fields_def)
  then show t: "tag (cur (iter_at fs dest 0)) = 0" using assms wf_fields_tag [of fs 0] by (simp add: cur_def)
  then show "pb_field_iter_next (iter_at fs dest 0) = (False, iter_at fs dest 0)" by (simp add: pb_field_iter_next_def Let_def)
qed

lemma iter_next_pSize:
  assumes "tag (cur it) \<noteq> 0" and "PB_HTYPE (type (cur it)) = PB_HTYPE_REPEATED"
  shows "pb_field_iter_next (it\<lparr>pSize := z\<rparr>) = pb_field_iter_next it"
  using assms by (simp add: pb_field_iter_next_def Let_def cur_def)

lemma iter_find_pSize:
  assumes wf: "wf_fields fs" and k: "k < n_fields fs" and h: "PB_HTYPE (type (fs ! k)) = PB_HTYPE_REPEATED"
  shows "pb_field_iter_find ((iter_at fs dest k)\<lparr>pSize := z\<rparr>) t =
    (if matches fs t k then Some (True, (iter_at fs dest k)\<lparr>pSize := z\<rparr>) else pb_field_iter_find (iter_at fs dest k) t)"
proof -
  obtain n where n: "length fs = Suc n" using k by (cases "length fs") (auto simp: n_fields_def)
  have "tag (fs ! k) \<noteq> 0" using wf k by (simp add: wf_fields_tag n_fields_def)
  then have "pb_field_iter_next ((iter_at fs dest k)\<lparr>pSize := z\<rparr>) = pb_field_iter_next (iter_at fs dest k)"
    using h k wf by (intro iter_next_pSize) (simp_all add: cur_iter_at)
  then show ?thesis
    using n k wf by (simp add: pb_field_iter_find_def matches_def cur_iter_at iter_at_pos)
qed

lemma find_near:
  assumes wf: "wf_fields fs" and it: "near fs dest fc it"
  obtains b it' where "pb_field_iter_find it t = Some (b, it')" and "near fs dest fc it'"
    and "b \<Longrightarrow> tag (cur it') = t \<and> PB_LTYPE (type (cur it')) \<noteq> PB_LTYPE_EXTENSION"
    and "it' = it \<or> (\<exists>k < n_pos fs. it' = iter_at fs dest k)"
proof -
  obtain k where k: "k < n_pos fs" and c: "it = iter_at fs dest k \<or>
      (PB_HTYPE (type (cur it)) = PB_HTYPE_REPEATED \<and> it = (iter_at fs dest k)\<lparr>pSize := fc\<rparr>)"
    using it by (auto simp: near_def)
  show ?thesis
  proof (cases "n_fields fs = 0")
    case True
    have k0: "k = 0" using k True by (simp add: n_pos_def)
    have t: "tag (cur it) = 0" "it_start it = fs" using c empty_fields(2) [OF wf True] by (auto simp: k0 simp del: iter_at.simps)
    then have "pb_field_iter_next it = (False, it)" by (simp add: pb_field_iter_next_def Let_def)
    then have "pb_field_iter_find it t = Some (tag (cur it) = t \<and> PB_LTYPE (type (cur it)) \<noteq> PB_LTYPE_EXTENSION, it)"
      using t empty_fields(1) [OF wf True] by (simp add: pb_field_iter_find_def)
    then show ?thesis using that it by blast
  next
    case False
    then have kn: "k < n_fields fs" using k by (simp add: n_pos_def)
    have np: "n_pos fs = n_fields fs" using False by (simp add: n_pos_def)
    have plain: "\<exists>b j. pb_field_iter_find (iter_at fs dest k) t = Some (b, iter_at fs dest j) \<and> j < n_pos fs \<and> (b \<longrightarrow> matches fs t j)"
    proof (cases "find (\<lambda>i. matches fs t ((k + i) mod n_fields fs)) [0..<n_fields fs]")
      case None
      then show ?thesis using iter_find_at [OF wf kn, of dest t] kn np by auto
    next
      case (Some i)
      then have "matches fs t ((k + i) mod n_fields fs)" by (auto simp: find_Some_iff)
      then show ?thesis
        using Some iter_find_at [OF wf kn, of dest t] kn np by (intro exI [of _ True] exI [of _ "(k + i) mod n_fields fs"]) simp
    qed
    have curj: "cur (iter_at fs dest j) = fs ! j" if "j < n_pos fs" for j using that wf by (simp add: np cur_iter_at)
    show ?thesis
    proof (cases "it = iter_at fs dest k")
      case True
      then show ?thesis using plain that near_at curj by (metis (no_types, lifting) matches_def)
    next
      case False
      then have c: "PB_HTYPE (type (fs ! k)) = PB_HTYPE_REPEATED" "it = (iter_at fs dest k)\<lparr>pSize := fc\<rparr>"
        using c curj [OF k] by auto
      show ?thesis
      proof (cases "matches fs t k")
        case True
        then show ?thesis using iter_find_pSize [OF wf kn c(1), where dest = dest and z = fc and t = t] that [of True it] it c(2) curj [OF k] by (simp add: matches_def)
      next
        case False
        then show ?thesis
          using iter_find_pSize [OF wf kn c(1), where dest = dest and z = fc and t = t] c(2) plain that near_at curj by (metis (no_types, lifting) matches_def)
      qed
    qed
  qed
qed

section \<open>Decoding a field\<close>

text \<open>The field of an iterator can be decoded. Static fields have their place in \<open>A\<close>; for pointer and callback fields \<open>A\<close> is
  the whole memory.\<close>

definition field_ok :: "bool \<Rightarrow> ptr set \<Rightarrow> pb_dec_env \<Rightarrow> nat \<Rightarrow> msg_decoder \<Rightarrow> pb_field_iter_t \<Rightarrow> bool" where
  "field_ok t A E d noinit it \<longleftrightarrow>
     (let f = cur it; a = PB_ATYPE (type f) in
      valid_type f \<and>
      (a = PB_ATYPE_STATIC \<longrightarrow> static_fits A it \<and> static_subs t A E d noinit it) \<and>
      (a \<noteq> PB_ATYPE_STATIC \<longrightarrow> A = UNIV) \<and>
      (a \<noteq> PB_ATYPE_STATIC \<and> a \<noteq> PB_ATYPE_CALLBACK \<longrightarrow> data_size f \<noteq> 0 \<and> (\<forall>p. subs_ok t UNIV E d noinit f p)) \<and>
      (a = PB_ATYPE_CALLBACK \<longrightarrow> callback_safe t E))"

lemma st_ok_bind:
  assumes "st_ok t A f" and "st_ok t A g"
  shows "st_ok t A (\<lambda>st. case f st of None \<Rightarrow> None | Some st1 \<Rightarrow> g st1)"
proof (rule st_okI)
  fix st st' assume "(case f st of None \<Rightarrow> None | Some st1 \<Rightarrow> g st1) = Some st'"
  then obtain st1 where "f st = Some st1" "g st1 = Some st'" by (auto split: option.splits)
  then show "keeps A st st'" using st_okD [OF assms(1)] st_okD [OF assms(2)] keeps_trans by blast
next
  fix st assume t
  then obtain st1 where "f st = Some st1" using st_ok_returns [OF assms(1), of st] by blast
  then show "(case f st of None \<Rightarrow> None | Some st1 \<Rightarrow> g st1) \<noteq> None" using st_ok_returns [OF assms(2) \<open>t\<close>] by simp
qed

lemma st_ok_unless: "st_ok t A f \<Longrightarrow> st_ok t A (\<lambda>st. if P st then Some st else f st)"
  unfolding st_ok_def by auto

lemma st_ok_store_loop: "(\<And>x. x \<in> set xs \<Longrightarrow> st_ok t A (f x)) \<Longrightarrow> st_ok t A (store_loop f xs)"
proof (induction xs)
  case (Cons x xs)
  have x: "st_ok t A (f x)" and xs: "st_ok t A (store_loop f xs)" using Cons by auto
  have "store_loop f (x # xs) = (\<lambda>st. case f x st of None \<Rightarrow> None | Some st1 \<Rightarrow> store_loop f xs st1)" by auto
  then show ?case using st_ok_bind [OF x xs] by simp
qed (simp add: st_ok_def)

lemma st_ok_message_loop: "(\<And>it. it \<in> set (msg_iters fs dest) \<Longrightarrow> st_ok t A (f it)) \<Longrightarrow> st_ok t A (message_loop f fs dest)"
  using st_ok_store_loop [of "msg_iters fs dest" t A f] unfolding message_loop_def st_ok_def by auto

lemma st_ok_release_pointer: "A = UNIV \<or> PB_ATYPE (type (cur it)) \<noteq> PB_ATYPE_POINTER \<Longrightarrow> st_ok t A (release_pointer E it)"
proof -
  have nl: "(store_loop (release_entry E) xs st = None) = False" for xs st
    using st_ok_returns [OF st_ok_store_loop [of xs True UNIV "release_entry E"], of st] by (simp add: st_ok_def release_entry_def Let_def)
  assume "A = UNIV \<or> PB_ATYPE (type (cur it)) \<noteq> PB_ATYPE_POINTER"
  then show ?thesis
    by (intro st_okI) (auto simp: release_pointer_def release_entry_def Let_def nl split: option.splits if_splits)
qed

lemma sub_release_ok:
  assumes "subs_ok t A E d noinit f p" and "PB_LTYPE (type f) = PB_LTYPE_SUBMESSAGE"
  shows "st_ok t A (\<lambda>st. if p = 0 then Some st else message_loop (pb_release_single_field E d) (d_fields_at E (fptr f)) p st)"
  using assms by (simp add: subs_ok_def sub_ok_def pb_release_def [abs_def])

lemma release_field_ok:
  assumes ok: "field_ok t A E d noinit it"
  shows "st_ok t A (pb_release_single_field E (Suc d) it)"
proof -
  let ?f = "cur it" and ?a = "PB_ATYPE (type (cur it))" and ?l = "PB_LTYPE (type (cur it))"
  let ?rel = "\<lambda>p st. if p = 0 then Some st else message_loop (pb_release_single_field E d) (d_fields_at E (fptr ?f)) p st"
  have rp: "st_ok t A (release_pointer E it)" using ok by (intro st_ok_release_pointer) (auto simp: field_ok_def Let_def)
  have ne: "?l \<noteq> PB_LTYPE_EXTENSION" using ok by (simp add: field_ok_def valid_type_def Let_def)
  have items: "st_ok t A (store_loop ?rel (item_ptrs p (ucast (data_size ?f)) (release_count m it)))"
    if l: "?l = PB_LTYPE_SUBMESSAGE" and a: "?a \<noteq> PB_ATYPE_CALLBACK" and p: "?a = PB_ATYPE_STATIC \<Longrightarrow> p = pData it" for p m
  proof (rule st_ok_store_loop)
    fix q assume "q \<in> set (item_ptrs p (ucast (data_size ?f)) (release_count m it))"
    then obtain i where i: "i < unat (release_count m it)" "q = p + word_of_nat i * ucast (data_size ?f)" by (auto simp: item_ptrs_def)
    show "st_ok t A (?rel q)"
    proof (cases "?a = PB_ATYPE_STATIC")
      case True
      have sub: "static_subs t A E d noinit it" using ok True by (simp add: field_ok_def Let_def)
      have "release_count m it \<le> (if PB_HTYPE (type ?f) = PB_HTYPE_REPEATED then array_size ?f else 1)"
        using True by (auto simp: release_count_def Let_def not_less)
      then have "i < unat (if PB_HTYPE (type ?f) = PB_HTYPE_REPEATED then array_size ?f else 1)" using i(1) by (simp only: word_le_nat_alt)
      then have "subs_ok t A E d noinit ?f q" using sub i(2) p [OF True] by (auto simp: static_subs_def Let_def split: if_splits)
      then show ?thesis by (rule sub_release_ok [OF _ l])
    next
      case False
      then have "A = UNIV" "subs_ok t UNIV E d noinit ?f q" using ok a by (auto simp: field_ok_def Let_def)
      then show ?thesis using sub_release_ok [OF _ l] by simp
    qed
  qed
  have inner: "st_ok t A (\<lambda>st. if ?l = PB_LTYPE_SUBMESSAGE \<and> ?a \<noteq> PB_ATYPE_CALLBACK then
      let pItem = (if ?a = PB_ATYPE_POINTER then load64 (mem st) (pData it) else pData it) in
      if pItem = 0 then Some st else store_loop ?rel (item_ptrs pItem (ucast (data_size ?f)) (release_count (mem st) it)) st
    else Some st)" (is "st_ok t A ?g")
  proof (rule st_okI)
    fix st st' assume "?g st = Some st'"
    then show "keeps A st st'"
      using st_okD [OF items] by (auto simp: Let_def split: if_splits)
  next
    fix st assume t
    then show "?g st \<noteq> None" using st_ok_returns [OF items] by (auto simp: Let_def)
  qed
  have eq: "pb_release_single_field E (Suc d) it st =
      (if PB_HTYPE (type ?f) = PB_HTYPE_ONEOF \<and> load32 (mem st) (pSize it) \<noteq> tag ?f then Some st
       else case ?g st of None \<Rightarrow> None | Some st1 \<Rightarrow> release_pointer E it st1)" for st
    using ne by (simp add: pb_release_single_field.simps Let_def)
  have "pb_release_single_field E (Suc d) it = (\<lambda>st. if PB_HTYPE (type ?f) = PB_HTYPE_ONEOF \<and> load32 (mem st) (pSize it) \<noteq> tag ?f
      then Some st else case ?g st of None \<Rightarrow> None | Some st1 \<Rightarrow> release_pointer E it st1)"
    by (rule ext) (rule eq)
  then show ?thesis by (simp only:) (rule st_ok_unless [OF st_ok_bind [OF inner rp]])
qed

lemma dec_ok_by_atype: "field_ok t A E d noinit it \<Longrightarrow> dec_ok t A (decode_by_atype E d noinit wt it)"
  using release_field_ok [of t A E d noinit it]
  by (auto simp: field_ok_def decode_by_atype_def Let_def
      intro!: dec_ok_static_field dec_ok_pointer_field dec_ok_callback_field)

definition fields_ok :: "bool \<Rightarrow> ptr set \<Rightarrow> pb_dec_env \<Rightarrow> nat \<Rightarrow> msg_decoder \<Rightarrow> pb_field_t list \<Rightarrow> ptr \<Rightarrow> ptr \<Rightarrow> bool" where
  "fields_ok t A E d noinit fs dest fc \<longleftrightarrow> wf_fields fs \<and> span fc 4 \<subseteq> A \<and>
     (\<forall>it. near fs dest fc it \<longrightarrow> field_ok t A E d noinit it)"

text \<open>The outcome of a step that also moves the iterator.\<close>

definition iter_step :: "bool \<Rightarrow> ptr set \<Rightarrow> (pb_field_iter_t \<Rightarrow> bool) \<Rightarrow> pb_istream_t \<Rightarrow> pb_store \<Rightarrow>
    (bool \<times> pb_field_iter_t \<times> pb_istream_t \<times> pb_store) option \<Rightarrow> bool" where
  "iter_step t A P s st r \<longleftrightarrow> (t \<longrightarrow> r \<noteq> None) \<and>
     (\<forall>ok it s' st'. r = Some (ok, it, s', st') \<longrightarrow> P it \<and> i_within s s' \<and> (ok \<longrightarrow> i_sub s s') \<and> keeps A st st')"

lemma union_step:
  assumes ok: "fields_ok t A E d noinit fs dest fc" and it: "near fs dest fc it" and s: "istream_ok s"
  shows "iter_step t A (near fs dest fc) s st (pb_release_union_field E (Suc d) it s st)"
proof -
  let ?old = "load32 (mem st) (pSize it)" and ?new = "tag (cur it)"
  have wf: "wf_fields fs" using ok by (simp add: fields_ok_def)
  obtain b1 it1 where f1: "pb_field_iter_find it ?old = Some (b1, it1)" "near fs dest fc it1" using find_near [OF wf it] by metis
  obtain b2 it2 where f2: "pb_field_iter_find it1 ?new = Some (b2, it2)" "near fs dest fc it2" using find_near [OF wf f1(2)] by metis
  have r1: "st_ok t A (pb_release_single_field E (Suc d) it1)" and p2: "PB_ATYPE (type (cur it2)) = PB_ATYPE_POINTER \<Longrightarrow> A = UNIV"
    using ok f1(2) f2(2) release_field_ok [of t A E d noinit it1] by (auto simp: fields_ok_def field_ok_def Let_def)
  show ?thesis
  proof (cases "?old = 0 \<or> ?old = ?new \<or> \<not> b1")
    case True
    then show ?thesis using f1 it by (auto simp: iter_step_def pb_release_union_field_def Let_def)
  next
    case False
    then have u: "pb_release_union_field E (Suc d) it s st = (case pb_release_single_field E (Suc d) it1 st of None \<Rightarrow> None
        | Some st1 \<Rightarrow> if b2 then Some (True, it2, s, if PB_ATYPE (type (cur it2)) = PB_ATYPE_POINTER
              then st1\<lparr>mem := store64 (mem st1) (pData it2) 0\<rparr> else st1)
            else Some (False, it2, i_set_error s ''iterator error'', st1))"
      using f1(1) f2(1) by (auto simp: pb_release_union_field_def Let_def split: option.splits bool.splits)
    show ?thesis
    proof (cases "pb_release_single_field E (Suc d) it1 st")
      case None
      then show ?thesis using u st_ok_returns [OF r1, of st] by (auto simp: iter_step_def)
    next
      case (Some st1)
      then show ?thesis using u st_okD [OF r1 Some] f2(2) p2 by (cases b2) (auto simp: iter_step_def)
    qed
  qed
qed

lemma field_step:
  assumes ok: "fields_ok t A E d noinit fs dest fc" and it: "near fs dest fc it" and s: "istream_ok s"
  shows "iter_step t A (near fs dest fc) s st (decode_field E d noinit wt it s st)"
proof -
  define r where "r = (if PB_HTYPE (type (cur it)) = PB_HTYPE_ONEOF then pb_release_union_field E (Suc d) it s st else Some (True, it, s, st))"
  have r: "iter_step t A (near fs dest fc) s st r"
    using union_step [OF ok it s, of st] it by (auto simp: r_def iter_step_def)
  show ?thesis
  proof (cases r)
    case None
    then show ?thesis using r by (auto simp: iter_step_def decode_field_def r_def [symmetric])
  next
    case (Some x)
    then obtain k it1 s1 st1 where x: "r = Some (k, it1, s1, st1)" by (cases x) auto
    have F: "near fs dest fc it1" "i_within s s1" "k \<Longrightarrow> i_sub s s1" "keeps A st st1" using r x by (auto simp: iter_step_def)
    have s1: "istream_ok s1" using i_within_ok [OF s F(2)] .
    have dec: "dec_ok t A (decode_by_atype E d noinit wt it1)" using ok F(1) by (intro dec_ok_by_atype) (simp add: fields_ok_def)
    show ?thesis
    proof (cases k)
      case True
      have "decode_field E d noinit wt it s st = map_option (\<lambda>(ok, s2, st2). (ok, it1, s2, st2)) (decode_by_atype E d noinit wt it1 s1 st1)"
        using x True by (simp add: decode_field_def r_def [symmetric])
      then show ?thesis
        using F True dec_ok_returns [OF dec s1, of st1] dec_okD [OF dec s1, of st1] i_within_trans [OF F(2)] i_sub_trans [OF s] keeps_trans [OF F(4)]
        by (fastforce simp: iter_step_def)
    next
      case False
      then have "decode_field E d noinit wt it s st = Some (False, it1, s1, st1)" using x by (simp add: decode_field_def r_def [symmetric])
      then show ?thesis using F by (simp add: iter_step_def)
    qed
  qed
qed

section \<open>Decoding a message\<close>

text \<open>A round keeps the iterator on an entry; to go on, it has consumed something.\<close>

definition round_ok :: "bool \<Rightarrow> ptr set \<Rightarrow> (pb_field_iter_t \<Rightarrow> bool) \<Rightarrow> pb_istream_t \<Rightarrow> pb_store \<Rightarrow> round_result \<Rightarrow> bool" where
  "round_ok t A P s st r \<longleftrightarrow> (t \<longrightarrow> r \<noteq> None) \<and>
     (\<forall>fl L s' st'. r = Some (fl, L, s', st') \<longrightarrow> P (l_iter L) \<and> i_within s s' \<and> (fl \<noteq> Return_false \<longrightarrow> i_sub s s') \<and> keeps A st st')"

lemma skip_round:
  assumes "P (l_iter L)" and s: "istream_ok s"
  shows "round_ok t A P s st (skip_unknown E wt L s st)"
proof -
  obtain k s1 where sk: "pb_skip_field (d_io E) s wt = (k, s1)" by (cases "pb_skip_field (d_io E) s wt")
  then have "i_sub s s1" using skip_field.consumes [OF s, of "d_io E" wt k s1 "()"] by (simp add: no_value_def)
  then show ?thesis using assms sk i_sub_within [OF s] by (auto simp: round_ok_def skip_unknown_def)
qed

lemma find_extension_loop_at:
  assumes wf: "wf_fields fs" and p: "p < n_fields fs"
    and ne: "\<And>k. k < n_fields fs \<Longrightarrow> PB_LTYPE (type (cur (iter_at fs dest k))) \<noteq> PB_LTYPE_EXTENSION"
  shows "j < n_fields fs \<Longrightarrow> n_fields fs - j \<le> m \<Longrightarrow>
    find_extension_loop m p (iter_at fs dest ((p + j) mod n_fields fs)) = Some (False, iter_at fs dest p)"
proof (induction m arbitrary: j)
  case (Suc m)
  let ?n = "n_fields fs" and ?k = "(p + j) mod n_fields fs"
  have k: "?k < ?n" using p by simp
  obtain b where nxt: "pb_field_iter_next (iter_at fs dest ?k) = (b, iter_at fs dest ((p + Suc j) mod ?n))"
    using iter_next_cyclic [OF wf k, of dest] by (metis add_Suc_right mod_Suc_eq prod.collapse)
  have pos: "it_pos (iter_at fs dest ((p + Suc j) mod ?n)) = (p + Suc j) mod ?n" using wf p by (intro iter_at_pos) auto
  show ?case
  proof (cases "Suc j = ?n")
    case True
    then show ?thesis using nxt pos ne [OF k] p by simp
  next
    case False
    then have "(p + Suc j) mod ?n \<noteq> p" using Suc.prems(1) p by (cases "p + Suc j < ?n") (auto simp: mod_if)
    then show ?thesis using nxt pos ne [OF k] Suc.IH [of "Suc j"] Suc.prems False by simp
  qed
qed simp

lemma no_extension:
  assumes ok: "fields_ok t A E d noinit fs dest fc" and it: "near fs dest fc it"
  obtains it' where "find_extension_field it = Some (False, it')" and "near fs dest fc it'"
proof -
  have wf: "wf_fields fs" using ok by (simp add: fields_ok_def)
  have ne: "PB_LTYPE (type (cur i)) \<noteq> PB_LTYPE_EXTENSION" if "near fs dest fc i" for i
    using ok that by (auto simp: fields_ok_def field_ok_def valid_type_def Let_def)
  obtain k where k: "k < n_pos fs" and c: "it = iter_at fs dest k \<or>
      (PB_HTYPE (type (cur it)) = PB_HTYPE_REPEATED \<and> it = (iter_at fs dest k)\<lparr>pSize := fc\<rparr>)"
    using it by (auto simp: near_def)
  show ?thesis
  proof (cases "n_fields fs = 0")
    case True
    have t: "tag (cur it) = 0" "it_start it = fs" using c empty_fields(2) [OF wf True] k True by (auto simp: n_pos_def simp del: iter_at.simps)
    then have "pb_field_iter_next it = (False, it)" by (simp add: pb_field_iter_next_def Let_def)
    then have "find_extension_field it = Some (False, it)"
      using t ne [OF it] empty_fields(1) [OF wf True] by (simp add: find_extension_field_def)
    then show ?thesis using that it by blast
  next
    case False
    then have kn: "k < n_fields fs" and np: "n_pos fs = n_fields fs" using k by (simp_all add: n_pos_def)
    obtain n where n: "length fs = Suc n" using kn by (cases "length fs") (auto simp: n_fields_def)
    have "tag (fs ! k) \<noteq> 0" using wf kn by (simp add: wf_fields_tag n_fields_def)
    then have "pb_field_iter_next it = pb_field_iter_next (iter_at fs dest k)"
      using c kn wf by (auto intro: iter_next_pSize simp: cur_iter_at)
    then have "find_extension_field it = find_extension_field (iter_at fs dest k)"
      using c ne [OF it] ne [OF near_at [OF k]] n kn by (auto simp: find_extension_field_def)
    moreover have "find_extension_field (iter_at fs dest k) = Some (False, iter_at fs dest k)"
      using find_extension_loop_at [OF wf kn, of dest 0 "length fs"] ne near_at kn wf
      by (simp add: find_extension_field_def iter_at_pos np n_fields_def)
    ultimately show ?thesis using that near_at [OF k] by metis
  qed
qed

lemma unknown_round:
  assumes ok: "fields_ok t A E d noinit fs dest fc" and it: "near fs dest fc (l_iter L)" and s: "istream_ok s" and t: "n \<noteq> - 1"
  shows "round_ok t A (near fs dest fc) s st (unknown_field E d noinit n wt L s st)"
proof (cases "n \<ge> extension_range_start L")
  case True
  obtain it' where f: "find_extension_field (l_iter L) = Some (False, it')" "near fs dest fc it'" using no_extension [OF ok it] by metis
  have "\<not> n \<ge> - 1" using t by (simp add: word_order.extremum_unique)
  then have "unknown_field E d noinit n wt L s st = skip_unknown E wt (L\<lparr>l_iter := it', extension_range_start := - 1\<rparr>) s st"
    using True f(1) by (simp add: unknown_field_def Let_def)
  then show ?thesis using skip_round [where P = "near fs dest fc" and L = "L\<lparr>l_iter := it', extension_range_start := - 1\<rparr>", OF _ s] f(2) by simp
next
  case False
  then show ?thesis using skip_round [where P = "near fs dest fc", OF it s] by (simp add: unknown_field_def)
qed

lemma known_round:
  assumes ok: "fields_ok t A E d noinit fs dest fc" and it: "near fs dest fc (l_iter L)" and s: "istream_ok s"
  shows "round_ok t A (near fs dest fc) s st (known_field E d noinit fc wt L s st)"
proof -
  let ?it = "l_iter L"
  let ?counted = "PB_HTYPE (type (cur ?it)) = PB_HTYPE_REPEATED \<and> pSize ?it = pData ?it"
  let ?new = "?counted \<and> fixed_count_field L \<noteq> Some (it_pos ?it)"
  define it1 where "it1 = (if ?counted then ?it\<lparr>pSize := fc\<rparr> else ?it)"
  define st1 where "st1 = (if ?new then st\<lparr>mem := store32 (mem st) fc 0\<rparr> else st)"
  define L1 where "L1 = L\<lparr>l_iter := it1, fixed_count_field := (if ?new then Some (it_pos ?it) else fixed_count_field L),
      fields_seen := mark_seen ?it (fields_seen L)\<rparr>"
  have n1: "near fs dest fc it1" using it near_local [OF it] by (simp add: it1_def)
  have k1: "keeps A st st1" using ok by (simp add: fields_ok_def store32_keeps st1_def)
  have step: "iter_step t A (near fs dest fc) s st1 (decode_field E d noinit wt it1 s st1)"
    by (rule field_step [OF ok n1 s])
  show ?thesis
  proof (cases "?new \<and> wrong_count fc L st")
    case True
    then show ?thesis using it by (simp add: round_ok_def known_field_def Let_def)
  next
    case False
    then have eq: "known_field E d noinit fc wt L s st = (case decode_field E d noinit wt it1 s st1 of None \<Rightarrow> None
        | Some (ok, it2, s2, st2) \<Rightarrow> Some (if ok then Continue else Return_false, L1\<lparr>l_iter := it2\<rparr>, s2, st2))"
      unfolding known_field_def Let_def it1_def [symmetric] st1_def [symmetric] L1_def [symmetric] by (rule if_not_P)
    show ?thesis
    proof (cases "decode_field E d noinit wt it1 s st1")
      case None
      then show ?thesis using eq step by (simp add: round_ok_def iter_step_def)
    next
      case (Some r)
      then obtain k it2 s2 st2 where r: "decode_field E d noinit wt it1 s st1 = Some (k, it2, s2, st2)" by (cases r) auto
      then show ?thesis using eq step keeps_trans [OF k1] by (auto simp: round_ok_def iter_step_def)
    qed
  qed
qed

lemma tag_number: "pb_decode_tag i s = (True, s', wt, n, eof) \<Longrightarrow> n \<noteq> - 1"
proof -
  assume "pb_decode_tag i s = (True, s', wt, n, eof)"
  then obtain temp where "n = drop_bit 3 temp" by (auto simp: pb_decode_tag_def split: prod.splits bool.splits if_splits)
  then have "\<not> bit n 31" by (auto simp: bit_drop_bit_eq dest: bit_imp_le_length)
  then show ?thesis by auto
qed

lemma round_step:
  assumes ok: "fields_ok t A E d noinit fs dest fc" and it: "near fs dest fc (l_iter L)" and s: "istream_ok s"
  shows "round_ok t A (near fs dest fc) s st (decode_round E d noinit fc L s st)"
    and "decode_round E d noinit fc L s st = Some (Continue, L', s', st') \<Longrightarrow> unat (bytes_left s') < unat (bytes_left s)"
proof -
  have wf: "wf_fields fs" using ok by (simp add: fields_ok_def)
  obtain k s1 wt n eof where tg: "pb_decode_tag (d_io E) s = (k, s1, wt, n, eof)" by (cases "pb_decode_tag (d_io E) s")
  have s1: "i_sub s s1" using tag.consumes [OF s tg] .
  have ok1: "istream_ok s1" using i_sub_ok [OF s s1] .
  note w1 = i_sub_within [OF s s1]
  obtain b it where f: "pb_field_iter_find (l_iter L) n = Some (b, it)" "near fs dest fc it" using find_near [OF wf it] by metis
  define r where "r = (if b then known_field E d noinit fc wt (L\<lparr>l_iter := it\<rparr>) s1 st else unknown_field E d noinit n wt (L\<lparr>l_iter := it\<rparr>) s1 st)"
  have eq: "decode_round E d noinit fc L s st = (if k then r else Some (if eof then Break else Return_false, L, s1, st))"
    using tg f(1) by (auto simp: decode_round_def r_def)
  have r: "k \<Longrightarrow> round_ok t A (near fs dest fc) s1 st r"
    using known_round [OF ok _ ok1] unknown_round [OF ok _ ok1] f(2) tag_number [of "d_io E" s s1 wt n eof] tg by (simp add: r_def)
  show "round_ok t A (near fs dest fc) s st (decode_round E d noinit fc L s st)"
    unfolding eq using r it s1 w1 i_within_trans [OF w1] i_sub_trans [OF s s1] by (auto simp: round_ok_def)
  show "unat (bytes_left s') < unat (bytes_left s)" if c: "decode_round E d noinit fc L s st = Some (Continue, L', s', st')"
  proof -
    have k: k and rc: "r = Some (Continue, L', s', st')" using c eq by (auto split: if_splits)
    have "i_within s1 s'" using r [OF k] rc by (simp add: round_ok_def)
    then show ?thesis using tag.eats [OF s] tg k i_within_left by (fastforce simp: word_le_nat_alt)
  qed
qed

lemma loop_ok:
  assumes ok: "fields_ok t A E d noinit fs dest fc"
  shows "near fs dest fc (l_iter L) \<Longrightarrow> istream_ok s \<Longrightarrow>
    (t \<longrightarrow> unat (bytes_left s) < n \<longrightarrow> noinit_loop (decode_round E d noinit fc) n L s st \<noteq> None) \<and>
    (\<forall>k L' s' st'. noinit_loop (decode_round E d noinit fc) n L s st = Some (k, L', s', st') \<longrightarrow>
       near fs dest fc (l_iter L') \<and> i_within s s' \<and> (k \<longrightarrow> i_sub s s') \<and> keeps A st st')"
proof (induction n arbitrary: L s st)
  case (Suc n)
  note r = round_step [OF ok Suc.prems]
  show ?case
  proof (cases "bytes_left s = 0 \<or> decode_round E d noinit fc L s st = None")
    case True
    then show ?thesis using Suc.prems r(1) [of st] by (auto simp: round_ok_def)
  next
    case False
    then obtain fl L1 s1 st1 where d: "decode_round E d noinit fc L s st = Some (fl, L1, s1, st1)" by (cases "decode_round E d noinit fc L s st") auto
    have F: "near fs dest fc (l_iter L1)" "i_within s s1" "fl \<noteq> Return_false \<Longrightarrow> i_sub s s1" "keeps A st st1"
      using r(1) [of st] d by (auto simp: round_ok_def)
    show ?thesis
    proof (cases "fl = Continue")
      case True
      have "unat (bytes_left s1) < unat (bytes_left s)" using r(2) d True by simp
      then show ?thesis
        using Suc.IH [OF F(1) i_within_ok [OF Suc.prems(2) F(2)], of st1] False d True F(3)
          i_within_trans [OF F(2)] i_sub_trans [OF Suc.prems(2)] keeps_trans [OF F(4)] by auto
    next
      case False2: False
      then show ?thesis using False d F by (cases fl) auto
    qed
  qed
qed simp

lemma seek_end_at:
  assumes wf: "wf_fields fs"
  shows "k < n_fields fs \<Longrightarrow> n_fields fs - k \<le> m \<Longrightarrow> seek_end m (iter_at fs dest k) =
    Some (required_field_index (iter_at fs dest (n_fields fs - 1)), type (fs ! (n_fields fs - 1)), iter_at fs dest 0)"
proof (induction m arbitrary: k)
  case (Suc m)
  show ?case
  proof (cases "Suc k < n_fields fs")
    case True
    then show ?thesis using iter_next_at [OF wf Suc.prems(1), of dest] Suc.IH [of "Suc k"] Suc.prems by (simp del: iter_at.simps)
  next
    case False
    then have "k = n_fields fs - 1" using Suc.prems(1) by simp
    then show ?thesis using iter_next_at [OF wf Suc.prems(1), of dest] False cur_iter_at [OF wf Suc.prems(1)] by (simp del: iter_at.simps)
  qed
qed simp

lemma seek_end_near:
  assumes wf: "wf_fields fs" and it: "near fs dest fc it"
  shows "seek_end (length fs) it \<noteq> None" and "it_start it = fs"
proof -
  obtain k where k: "k < n_pos fs" and c: "it = iter_at fs dest k \<or>
      (PB_HTYPE (type (cur it)) = PB_HTYPE_REPEATED \<and> it = (iter_at fs dest k)\<lparr>pSize := fc\<rparr>)"
    using it by (auto simp: near_def)
  then show "it_start it = fs" by auto
  show "seek_end (length fs) it \<noteq> None"
  proof (cases "n_fields fs = 0")
    case True
    have "tag (cur it) = 0" using c empty_fields(2) [OF wf True] k True by (auto simp: n_pos_def simp del: iter_at.simps)
    then have "pb_field_iter_next it = (False, it)" by (simp add: pb_field_iter_next_def Let_def)
    then show ?thesis using empty_fields(1) [OF wf True] by simp
  next
    case False
    then have kn: "k < n_fields fs" using k by (simp add: n_pos_def)
    obtain n where n: "length fs = Suc n" using kn by (cases "length fs") (auto simp: n_fields_def)
    have "tag (fs ! k) \<noteq> 0" using wf kn by (simp add: wf_fields_tag n_fields_def)
    then have "pb_field_iter_next it = pb_field_iter_next (iter_at fs dest k)"
      using c kn wf by (auto intro: iter_next_pSize simp: cur_iter_at)
    then have "seek_end (length fs) it = None \<longleftrightarrow> seek_end (length fs) (iter_at fs dest k) = None"
      by (simp add: n split: prod.splits bool.splits)
    then show ?thesis using seek_end_at [OF wf kn, of "length fs" dest] by (simp add: n_fields_def)
  qed
qed

lemma noinit_ok:
  assumes ok: "fields_ok t A E d (pb_decode_noinit E d) fs dest (fixed_count_at E d)"
  shows "dec_ok t A (pb_decode_noinit E (Suc d) fs dest)"
proof (rule dec_okI)
  let ?fc = "fixed_count_at E d"
  let ?loop = "\<lambda>s st. noinit_loop (decode_round E d (pb_decode_noinit E d) ?fc) (Suc (unat (bytes_left s))) (noinit_start fs dest) s
      (st\<lparr>mem := store32 (mem st) ?fc 0\<rparr>)"
  have wf: "wf_fields fs" and fc: "span ?fc 4 \<subseteq> A" using ok by (simp_all add: fields_ok_def)
  have L0: "near fs dest ?fc (l_iter (noinit_start fs dest))" using near_at [of 0 fs dest ?fc] by (simp add: noinit_start_def n_pos_def)
  note loop = loop_ok [OF ok L0]
  fix s st assume s: "istream_ok s"
  have fin: "(t \<longrightarrow> noinit_finish ?fc L s' st' \<noteq> None) \<and> (\<forall>k s2 st2. noinit_finish ?fc L s' st' = Some (k, s2, st2) \<longrightarrow>
      i_within s' s2 \<and> (k \<longrightarrow> s2 = s') \<and> st2 = st')" if "near fs dest ?fc (l_iter L)" for L s' st'
    using seek_end_near [OF wf that] by (auto simp: noinit_finish_def req_field_count_def Let_def d_fail_def split: option.splits)
  have k0: "keeps A st (st\<lparr>mem := store32 (mem st) ?fc 0\<rparr>)" by (rule store32_keeps [OF fc])
  {
    fix k s' st' assume r: "pb_decode_noinit E (Suc d) fs dest s st = Some (k, s', st')"
    then obtain k1 L s1 st1 where l: "?loop s st = Some (k1, L, s1, st1)" by (auto simp: Let_def simp del: noinit_loop.simps split: option.splits)
    have F: "near fs dest ?fc (l_iter L)" "i_within s s1" "k1 \<Longrightarrow> i_sub s s1" "keeps A (st\<lparr>mem := store32 (mem st) ?fc 0\<rparr>) st1"
      using loop [OF s] l by blast+
    show "i_within s s' \<and> (k \<longrightarrow> i_sub s s') \<and> keeps A st st'"
      using r l F fin [OF F(1), of s1 st1] i_within_trans [OF F(2)] keeps_trans [OF k0 F(4)]
      by (cases k1) (auto simp: Let_def simp del: noinit_loop.simps)
  }
  assume t
  then obtain x where l: "?loop s st = Some x" using loop [OF s] by blast
  obtain k1 L s1 st1 where x: "x = (k1, L, s1, st1)" by (cases x) auto
  have "near fs dest ?fc (l_iter L)" using loop [OF s] l x by blast
  then show "pb_decode_noinit E (Suc d) fs dest s st \<noteq> None"
    using fin [of L s1 st1] \<open>t\<close> l x by (cases k1) (auto simp: Let_def simp del: noinit_loop.simps)
qed

section \<open>Whole messages\<close>

lemma default_field_ok:
  assumes ok: "field_ok t A E d noinit it"
  shows "st_ok t A (pb_field_set_to_default E (Suc d) it)"
proof -
  let ?f = "cur it" and ?a = "PB_ATYPE (type (cur it))" and ?h = "PB_HTYPE (type (cur it))"
  have ne: "PB_LTYPE (type ?f) \<noteq> PB_LTYPE_EXTENSION" using ok by (simp add: field_ok_def valid_type_def Let_def)
  show ?thesis
  proof (cases "?a = PB_ATYPE_STATIC")
    case True
    have fits: "static_fits A it" and sub: "static_subs t A E d noinit it" using ok True by (simp_all add: field_ok_def Let_def)
    have eq: "pb_field_set_to_default E (Suc d) it = static_to_default (pb_message_set_to_defaults E d) E it"
      using ne True by (auto simp: pb_field_set_to_default.simps pb_message_set_to_defaults_def [abs_def] Let_def)
    show ?thesis
    proof (cases "?h = PB_HTYPE_REPEATED \<or> ?h = PB_HTYPE_ONEOF")
      case True
      then have "span (pSize it) 4 \<subseteq> A" using fits by (auto simp: static_fits_def Let_def)
      then show ?thesis using True unfolding eq by (simp add: st_ok_def static_to_default_def Let_def store32_keeps)
    next
      case False
      define st1 where "st1 st = (if ?h = PB_HTYPE_OPTIONAL \<and> pSize it \<noteq> pData it
          then st\<lparr>mem := store_bool (mem st) (pSize it) False\<rparr> else st)" for st :: pb_store
      have sp: "span (pData it) (unat (data_size ?f)) \<subseteq> A" and sz: "?h = PB_HTYPE_OPTIONAL \<Longrightarrow> pSize it \<noteq> pData it \<Longrightarrow> pSize it \<in> A"
        using fits False item_fits_span by (auto simp: static_fits_def Let_def)
      have k1: "keeps A st (st1 st)" for st
        using sz by (auto simp: st1_def keeps_def) (metis store_outside(4))
      define g where "g st = (if PB_LTYPE (type ?f) = PB_LTYPE_SUBMESSAGE then pb_message_set_to_defaults E d (d_fields_at E (fptr ?f)) (pData it) st
          else if fptr ?f \<noteq> 0
          then Some (st\<lparr>mem := mem_put (mem st) (pData it) (mem_bytes (mem st) (fptr ?f) (unat (data_size ?f)))\<rparr>)
          else Some (st\<lparr>mem := mem_put (mem st) (pData it) (replicate (unat (data_size ?f)) 0)\<rparr>))" for st
      have "st_ok t A g"
      proof (cases "PB_LTYPE (type ?f) = PB_LTYPE_SUBMESSAGE")
        case True
        have "st_ok t A (pb_message_set_to_defaults E d (d_fields_at E (fptr ?f)) (pData it))"
          using sub False True by (simp add: static_subs_def subs_ok_def sub_ok_def Let_def)
        then show ?thesis using True by (simp add: g_def [abs_def])
      next
        case False
        then show ?thesis
          using sp mem_put_keeps [of "pData it"] by (auto simp: st_ok_def g_def mem_bytes_def intro!: mem_put_keeps)
      qed
      from st_ok_bind [OF st_ok_Some [of A st1 t, OF k1] this] have "st_ok t A (\<lambda>st. g (st1 st))" by simp
      moreover have "static_to_default (pb_message_set_to_defaults E d) E it = (\<lambda>st. g (st1 st))"
        using False by (intro ext) (simp add: static_to_default_def Let_def g_def st1_def)
      ultimately show ?thesis by (simp add: eq)
    qed
  next
    case False
    then have "A = UNIV" using ok by (simp add: field_ok_def Let_def)
    then show ?thesis using False ne by (auto simp: st_ok_def pb_field_set_to_default.simps Let_def)
  qed
qed

lemma msg_iters_near:
  assumes "wf_fields fs" and "fst (pb_field_iter_begin fs dest)" and "it \<in> set (msg_iters fs dest)"
  shows "near fs dest fc it"
proof -
  have "tag (fs ! 0) \<noteq> 0" using assms(2) by (simp add: pb_field_iter_begin_def Let_def)
  then have "0 < n_fields fs" using assms(1) wf_fields_tag [of fs 0] by (cases "n_fields fs") (auto simp: wf_fields_def)
  then show ?thesis using assms(1,3) near_at [of _ fs dest fc] by (auto simp: msg_iters_wf n_pos_def)
qed

lemma message_ok:
  assumes ok: "fields_ok t A E d (pb_decode_noinit E d) fs dest (fixed_count_at E d)"
  shows "sub_ok t A E (Suc d) (pb_decode_noinit E (Suc d)) fs dest"
proof -
  have wf: "wf_fields fs" using ok by (simp add: fields_ok_def)
  have "st_ok t A (message_loop (pb_field_set_to_default E (Suc d)) fs dest)" "st_ok t A (message_loop (pb_release_single_field E (Suc d)) fs dest)"
  proof -
    have f: "field_ok t A E d (pb_decode_noinit E d) it" if "fst (pb_field_iter_begin fs dest)" "it \<in> set (msg_iters fs dest)" for it
      using ok msg_iters_near [OF wf that] by (simp add: fields_ok_def)
    show "st_ok t A (message_loop (pb_field_set_to_default E (Suc d)) fs dest)"
      using st_ok_message_loop [of fs dest t A "pb_field_set_to_default E (Suc d)", OF default_field_ok [OF f]]
      by (cases "fst (pb_field_iter_begin fs dest)") (auto simp: message_loop_def st_ok_def)
    show "st_ok t A (message_loop (pb_release_single_field E (Suc d)) fs dest)"
      using st_ok_message_loop [of fs dest t A "pb_release_single_field E (Suc d)", OF release_field_ok [OF f]]
      by (cases "fst (pb_field_iter_begin fs dest)") (auto simp: message_loop_def st_ok_def)
  qed
  then have "st_ok t A (pb_message_set_to_defaults E (Suc d) fs dest)" "st_ok t A (pb_release E (Suc d) fs dest)"
    using st_ok_unless [of t A "message_loop (pb_release_single_field E (Suc d)) fs dest" "\<lambda>st. dest = 0"]
    by (simp_all add: pb_message_set_to_defaults_def [abs_def] pb_release_def [abs_def])
  then show ?thesis using noinit_ok [OF ok] by (simp add: sub_ok_def)
qed

subsection \<open>Any message type\<close>

text \<open>The entries an iterator can stand on; descriptors without extension fields and with valid types, and such descriptors
  nested at most \<open>d\<close> deep.\<close>

definition entries :: "pb_field_t list \<Rightarrow> pb_field_t list" where
  "entries fs = (if length fs = 1 then fs else butlast fs)"

definition entry_valid :: "pb_field_t \<Rightarrow> bool" where
  "entry_valid f \<longleftrightarrow> valid_type f \<and>
     (PB_ATYPE (type f) \<noteq> PB_ATYPE_STATIC \<and> PB_ATYPE (type f) \<noteq> PB_ATYPE_CALLBACK \<longrightarrow> data_size f \<noteq> 0)"

definition descriptor_valid :: "pb_field_t list \<Rightarrow> bool" where
  "descriptor_valid fs \<longleftrightarrow> wf_fields fs \<and> list_all entry_valid (entries fs)"

fun nested_valid :: "pb_dec_env \<Rightarrow> nat \<Rightarrow> pb_field_t list \<Rightarrow> bool" where
  "nested_valid E 0 fs = False"
| "nested_valid E (Suc d) fs \<longleftrightarrow> descriptor_valid fs \<and>
     list_all (\<lambda>f. PB_LTYPE (type f) = PB_LTYPE_SUBMESSAGE \<longrightarrow> nested_valid E d (d_fields_at E (fptr f))) (entries fs)"

lemma near_cur:
  assumes "wf_fields fs" and "near fs dest fc it"
  shows "cur it \<in> set (entries fs)"
proof -
  obtain k where k: "k < n_pos fs" "cur it = cur (iter_at fs dest k)" using assms(2) by (auto simp: near_def)
  show ?thesis
  proof (cases "n_fields fs = 0")
    case True
    then show ?thesis using k empty_fields(1) [OF assms(1) True] by (cases fs) (auto simp: n_pos_def entries_def cur_def)
  next
    case False
    then have kn: "k < n_fields fs" using k by (simp add: n_pos_def)
    then have "length fs \<noteq> 1" "k < length (butlast fs)" by (auto simp: n_fields_def)
    then have "fs ! k \<in> set (butlast fs)" using nth_mem [of k "butlast fs"] by (simp add: nth_butlast)
    then show ?thesis using k(2) cur_iter_at [OF assms(1) kn, of dest] \<open>length fs \<noteq> 1\<close> by (simp add: entries_def)
  qed
qed

lemma fields_ok_UNIV:
  assumes valid: "descriptor_valid fs" and cb: "callback_safe t E"
    and sub: "\<And>f p. f \<in> set (entries fs) \<Longrightarrow> PB_LTYPE (type f) = PB_LTYPE_SUBMESSAGE \<Longrightarrow> sub_ok t UNIV E d noinit (d_fields_at E (fptr f)) p"
  shows "fields_ok t UNIV E d noinit fs dest fc"
  unfolding fields_ok_def
proof (intro conjI allI impI)
  show wf: "wf_fields fs" using valid by (simp add: descriptor_valid_def)
  fix it assume "near fs dest fc it"
  then have c: "cur it \<in> set (entries fs)" using near_cur [OF wf] by blast
  then have v: "entry_valid (cur it)" using valid by (simp add: descriptor_valid_def list_all_iff)
  have s: "subs_ok t UNIV E d noinit (cur it) p" for p using sub [OF c] by (simp add: subs_ok_def)
  show "field_ok t UNIV E d noinit it"
    using v cb s by (auto simp: field_ok_def Let_def entry_valid_def static_fits_def static_subs_def item_fits_def)
qed simp

lemma nested_message_ok:
  assumes "callback_safe t E"
  shows "nested_valid E d fs \<Longrightarrow> sub_ok t UNIV E d (pb_decode_noinit E d) fs dest"
proof (induction d arbitrary: fs dest)
  case (Suc d)
  then show ?case by (intro message_ok fields_ok_UNIV assms) (auto simp: list_all_iff)
qed simp

lemma valid_message_ok:
  assumes cb: "callback_safe False E" and all: "\<And>p. descriptor_valid (d_fields_at E p)"
  shows "descriptor_valid fs \<Longrightarrow> sub_ok False UNIV E d (pb_decode_noinit E d) fs dest"
proof (induction d arbitrary: fs dest)
  case 0
  have "pb_field_set_to_default E 0 it st = None" "pb_release_single_field E 0 it st = None" for it st
    by (simp_all add: pb_field_set_to_default.simps pb_release_single_field.simps)
  then show ?case by (simp add: sub_ok_def dec_ok_def st_ok_def)
next
  case (Suc d)
  then show ?case by (intro message_ok fields_ok_UNIV cb) (auto intro: all)
qed

subsection \<open>Messages of static fields\<close>

text \<open>\<open>static_within E d A fs dest\<close>: the message at \<open>dest\<close> and the messages in it, nested at most \<open>d\<close> deep, consist of
  static fields whose places are in \<open>A\<close>, and so are the local variables of the decoder.\<close>

definition item_count :: "pb_field_t \<Rightarrow> uint32" where
  "item_count f = (if PB_HTYPE (type f) = PB_HTYPE_REPEATED then array_size f else 1)"

definition field_within :: "ptr set \<Rightarrow> pb_field_iter_t \<Rightarrow> bool" where
  "field_within A it \<longleftrightarrow>
     (let f = cur it; h = PB_HTYPE (type f); n = ucast (data_size f) * ucast (item_count f) :: size_t in
      valid_type f \<and> PB_ATYPE (type f) = PB_ATYPE_STATIC \<and> size_valid f \<and> n < 0x100000000 \<and> span (pData it) (unat n) \<subseteq> A \<and>
      (h = PB_HTYPE_REPEATED \<or> h = PB_HTYPE_ONEOF \<longrightarrow> span (pSize it) 4 \<subseteq> A) \<and>
      (h = PB_HTYPE_OPTIONAL \<and> pSize it \<noteq> pData it \<longrightarrow> pSize it \<in> A))"

lemma unat_area: "unat (ucast (a :: uint32) * ucast (b :: uint32) :: size_t) = unat a * unat b"
proof -
  have "unat a * unat b < 2 ^ 32 * 2 ^ 32" using unat_lt [of a] unat_lt [of b] by (intro mult_strict_mono) auto
  then show ?thesis by (simp add: unat_word_ariths ucast_size)
qed

lemma field_within_bound:
  "field_within A it \<Longrightarrow> unat (data_size (cur it)) * unat (item_count (cur it)) < 2 ^ 32"
  "field_within A it \<Longrightarrow> span (pData it) (unat (data_size (cur it)) * unat (item_count (cur it))) \<subseteq> A"
  by (simp_all add: field_within_def Let_def word_less_nat_alt unat_area)

definition items_of :: "pb_field_iter_t \<Rightarrow> ptr list" where
  "items_of it = item_ptrs (pData it) (ucast (data_size (cur it))) (item_count (cur it))"

fun static_within :: "pb_dec_env \<Rightarrow> nat \<Rightarrow> ptr set \<Rightarrow> pb_field_t list \<Rightarrow> ptr \<Rightarrow> bool" where
  "static_within E 0 A fs dest = False"
| "static_within E (Suc d) A fs dest \<longleftrightarrow> wf_fields fs \<and> span (fixed_count_at E d) 4 \<subseteq> A \<and>
     list_all (\<lambda>it. field_within A it \<and>
       (PB_LTYPE (type (cur it)) = PB_LTYPE_SUBMESSAGE \<longrightarrow>
         list_all (static_within E d A (d_fields_at E (fptr (cur it)))) (items_of it)))
       (map (iter_at fs dest) [0..<n_pos fs])"

lemma item_address:
  assumes "k < (n :: uint32)" and "unat ds * unat n < 2 ^ 32"
  shows "p + ucast (ds * k) = p + word_of_nat (unat k) * (ucast (ds :: uint32) :: ptr)" and "unat (ds * k) + unat ds \<le> unat ds * unat n"
proof -
  have "Suc (unat k) \<le> unat n" using assms(1) by (simp add: word_less_nat_alt)
  then have le: "unat ds * unat k + unat ds \<le> unat ds * unat n" by (metis mult_Suc_right add.commute mult_le_mono2)
  then have u: "unat (ds * k) = unat ds * unat k" using assms(2) by (simp add: unat_word_ariths)
  show "unat (ds * k) + unat ds \<le> unat ds * unat n" using u le by simp
  have "ucast (ds * k) = (word_of_nat (unat ds * unat k) :: ptr)" unfolding u [symmetric] by simp
  then show "p + ucast (ds * k) = p + word_of_nat (unat k) * (ucast ds :: ptr)" by (simp add: mult.commute)
qed

lemma field_within_items:
  assumes w: "field_within A it" and q: "q \<in> set (items_of it)"
  shows "item_fits A (cur it) q"
proof -
  let ?ds = "unat (data_size (cur it))" and ?n = "unat (item_count (cur it))"
  obtain i where i: "i < ?n" "q = pData it + word_of_nat i * ucast (data_size (cur it))"
    using q by (auto simp: items_of_def item_ptrs_def)
  then have "Suc i * ?ds \<le> ?n * ?ds" by (intro mult_le_mono1) simp
  then have "i * ?ds + ?ds \<le> ?ds * ?n" by (simp add: mult.commute add.commute)
  from span_offset [OF this, of "pData it"] have "span q ?ds \<subseteq> A" using field_within_bound(2) [OF w] i(2) by auto
  then show ?thesis using w by (simp add: item_fits_def field_within_def Let_def)
qed

lemma item_in_items:
  assumes "field_within A it" and h: "PB_HTYPE (type (cur it)) = PB_HTYPE_REPEATED" and k: "k < array_size (cur it)"
  shows "pData it + ucast (data_size (cur it) * k) \<in> set (items_of it)"
proof -
  have "unat (data_size (cur it)) * unat (array_size (cur it)) < 2 ^ 32"
    using field_within_bound(1) [OF assms(1)] h by (simp add: item_count_def)
  from item_address(1) [OF k this, of "pData it"]
  have "pData it + ucast (data_size (cur it) * k) = pData it + word_of_nat (unat k) * ucast (data_size (cur it))" .
  moreover have "pData it + word_of_nat (unat k) * ucast (data_size (cur it)) \<in> set (items_of it)"
    using h k unfolding items_of_def item_ptrs_def set_map by (intro imageI) (simp add: word_less_nat_alt item_count_def)
  ultimately show ?thesis by (simp only:)
qed

lemma iter_pSize_same: "it\<lparr>pSize := pSize it\<rparr> = (it :: pb_field_iter_t)"
  by (cases it) simp

lemma field_within_static:
  assumes w: "field_within A it" and z: "z = pSize it \<or> PB_HTYPE (type (cur it)) = PB_HTYPE_REPEATED \<and> span z 4 \<subseteq> A"
  shows "static_fits A (it\<lparr>pSize := z\<rparr>)"
proof (cases "PB_HTYPE (type (cur it)) = PB_HTYPE_REPEATED")
  case True
  have "item_fits A (cur it) (pData it + ucast (data_size (cur it) * k))" if k: "k < array_size (cur it)" for k
    by (rule field_within_items [OF w item_in_items [OF w True k]])
  then show ?thesis using w z True by (auto simp: static_fits_def field_within_def Let_def)
next
  case False
  have "item_fits A (cur it) (pData it)" using False by (intro field_within_items [OF w]) (simp add: items_of_def item_ptrs_def item_count_def)
  then show ?thesis using w z False by (auto simp: static_fits_def field_within_def Let_def)
qed

lemma subs_within:
  assumes w: "field_within A it" and sub: "\<And>q. q \<in> set (items_of it) \<Longrightarrow> subs_ok t A E d noinit (cur it) q"
  shows "static_subs t A E d noinit (it\<lparr>pSize := z\<rparr>)"
proof (cases "PB_HTYPE (type (cur it)) = PB_HTYPE_REPEATED")
  case True
  have "pData it + ucast (data_size (cur it) * k) \<in> set (items_of it)" if k: "k < array_size (cur it)" for k
    by (rule item_in_items [OF w True k])
  moreover have "pData it + word_of_nat k * ucast (data_size (cur it)) \<in> set (items_of it)" if "k < unat (array_size (cur it))" for k
    using True that by (auto simp: items_of_def item_ptrs_def item_count_def)
  ultimately show ?thesis using True sub by (simp add: static_subs_def Let_def)
next
  case False
  then show ?thesis using sub by (simp add: static_subs_def items_of_def item_ptrs_def item_count_def Let_def)
qed

lemma static_message_ok: "static_within E d A fs dest \<Longrightarrow> sub_ok True A E d (pb_decode_noinit E d) fs dest"
proof (induction d arbitrary: fs dest)
  case (Suc d)
  have "fields_ok True A E d (pb_decode_noinit E d) fs dest (fixed_count_at E d)"
    unfolding fields_ok_def
  proof (intro conjI allI impI)
    show fc: "span (fixed_count_at E d) 4 \<subseteq> A" and "wf_fields fs" using Suc.prems by simp_all
    fix it assume "near fs dest (fixed_count_at E d) it"
    then obtain k where k: "k < n_pos fs" and c: "it = iter_at fs dest k \<or>
        (PB_HTYPE (type (cur it)) = PB_HTYPE_REPEATED \<and> it = (iter_at fs dest k)\<lparr>pSize := fixed_count_at E d\<rparr>)"
      by (auto simp: near_def)
    define it0 where "it0 = iter_at fs dest k"
    have w: "field_within A it0" and sub: "PB_LTYPE (type (cur it0)) = PB_LTYPE_SUBMESSAGE \<Longrightarrow>
        list_all (static_within E d A (d_fields_at E (fptr (cur it0)))) (items_of it0)"
      using Suc.prems k by (auto simp: list_all_iff it0_def)
    have "subs_ok True A E d (pb_decode_noinit E d) (cur it0) q" if "q \<in> set (items_of it0)" for q
      using sub Suc.IH that by (auto simp: subs_ok_def list_all_iff)
    note s = subs_within [OF w this]
    obtain z where z: "it = it0\<lparr>pSize := z\<rparr>" "z = pSize it0 \<or> PB_HTYPE (type (cur it0)) = PB_HTYPE_REPEATED \<and> span z 4 \<subseteq> A"
      using c fc that [of "pSize it0"] by (cases "it = it0") (auto simp: it0_def iter_pSize_same)
    then show "field_ok True A E d (pb_decode_noinit E d) it"
      using field_within_static [OF w] s w by (simp add: field_ok_def field_within_def Let_def)
  qed
  then show ?case by (rule message_ok)
qed simp

lemma decode_ok: "sub_ok t A E d (pb_decode_noinit E d) fs dest \<Longrightarrow> dec_ok t A (pb_decode E d fs dest)"
  unfolding pb_decode_def by (rule dec_ok_init)

end
