(* ===== verification/PbEncode.thy ===== *)
theory PbEncode
  imports PbCommon
begin

text \<open>
  The message encoder (pb_encode.c). The message, with everything its pointers lead to, is a
  read-only memory; the output array of the stream is a different object. An encoder's result is
  \<open>Some (status, stream)\<close>, or \<open>None\<close> when the nesting bound given to the model is exceeded: C has no
  such bound, and the theorems state how much of it is enough.

  \<^verbatim>\<open>field->ptr\<close> of a submessage field is the address of a descriptor array; the arrays, like the
  caller's encoding callbacks, are parameters of the model (\<open>pb_env\<close>).
\<close>

record pb_env =
  io :: pb_io
  fields_at :: "ptr \<Rightarrow> pb_field_t list"
  user_encode :: "ptr \<Rightarrow> pb_field_t \<Rightarrow> ptr \<Rightarrow> pb_ostream_t \<Rightarrow> bool \<times> pb_ostream_t"
  user_ext_encode :: "ptr \<Rightarrow> ptr \<Rightarrow> pb_ostream_t \<Rightarrow> bool \<times> pb_ostream_t"

type_synonym msg_encoder = "pb_field_t list \<Rightarrow> ptr \<Rightarrow> encoder"

text \<open>\<^verbatim>\<open>PB_RETURN_ERROR\<close>, and a step that C leaves undefined.\<close>

definition fail_with :: "string \<Rightarrow> encoder" where
  "fail_with msg s = Some (o_return_error s msg)"

definition undefined_step :: encoder where
  "undefined_step s = Some (False, s\<lparr>o_ub := True\<rparr>)"

section \<open>Field encoders\<close>

definition safe_read_bool :: "memory \<Rightarrow> ptr \<Rightarrow> bool" where
  "safe_read_bool m p = (m p \<noteq> 0)"

definition pb_encode_tag_for_field :: "pb_env \<Rightarrow> pb_field_t \<Rightarrow> encoder" where
  "pb_encode_tag_for_field E field s =
     (let l = PB_LTYPE (type field) in
      if l = PB_LTYPE_BOOL \<or> l = PB_LTYPE_VARINT \<or> l = PB_LTYPE_UVARINT \<or> l = PB_LTYPE_SVARINT
      then Some (pb_encode_tag (io E) s PB_WT_VARINT (tag field))
      else if l = PB_LTYPE_FIXED32 then Some (pb_encode_tag (io E) s PB_WT_32BIT (tag field))
      else if l = PB_LTYPE_FIXED64 then Some (pb_encode_tag (io E) s PB_WT_64BIT (tag field))
      else if l = PB_LTYPE_BYTES \<or> l = PB_LTYPE_STRING \<or> l = PB_LTYPE_SUBMESSAGE \<or>
              l = PB_LTYPE_FIXED_LENGTH_BYTES
      then Some (pb_encode_tag (io E) s PB_WT_STRING (tag field))
      else fail_with ''invalid field type'' s)"

definition pb_encode_submessage :: "pb_env \<Rightarrow> msg_encoder \<Rightarrow> pb_field_t list \<Rightarrow> ptr \<Rightarrow> encoder" where
  "pb_encode_submessage E encode fs src s =
     (case encode fs src PB_OSTREAM_SIZING of
        None \<Rightarrow> None
      | Some (False, z) \<Rightarrow> Some (False, s\<lparr>o_errmsg := o_errmsg z, o_ub := (o_ub s \<or> o_ub z)\<rparr>)
      | Some (True, z) \<Rightarrow>
          and_then (\<lambda>s. Some (pb_encode_varint (io E) s (bytes_written z)))
            (\<lambda>s. if o_callback s = OCB_NULL then Some (pb_write (io E) s [] (bytes_written z))
                 else if bytes_written s + bytes_written z > max_size s
                 then fail_with ''stream full'' s
                 else
                   (case encode fs src
                           (s\<lparr>max_size := bytes_written z, bytes_written := 0, o_errmsg := None\<rparr>) of
                      None \<Rightarrow> None
                    | Some (status, z') \<Rightarrow>
                        (let s' = z'\<lparr>o_callback := o_callback s, max_size := max_size s,
                                     bytes_written := bytes_written s + bytes_written z'\<rparr>
                         in if bytes_written z' \<noteq> bytes_written z
                            then fail_with ''submsg size changed'' s'
                            else Some (status, s'))))
            (s\<lparr>o_ub := (o_ub s \<or> o_ub z)\<rparr>))"

definition pb_enc_bool :: "pb_env \<Rightarrow> memory \<Rightarrow> pb_field_t \<Rightarrow> ptr \<Rightarrow> encoder" where
  "pb_enc_bool E m field src s =
     Some (pb_encode_varint (io E) s (if safe_read_bool m src then 1 else 0))"

text \<open>The signed and the unsigned value of an integer field, by its size.\<close>

definition read_signed :: "memory \<Rightarrow> pb_field_t \<Rightarrow> ptr \<Rightarrow> 64 word option" where
  "read_signed m field src =
     (if data_size field = 1 then Some (scast (m src))
      else if data_size field = 2 then Some (scast (load16 m src))
      else if data_size field = 4 then Some (scast (load32 m src))
      else if data_size field = 8 then Some (load64 m src)
      else None)"

definition read_unsigned :: "memory \<Rightarrow> pb_field_t \<Rightarrow> ptr \<Rightarrow> uint64 option" where
  "read_unsigned m field src =
     (if data_size field = 1 then Some (ucast (m src))
      else if data_size field = 2 then Some (ucast (load16 m src))
      else if data_size field = 4 then Some (ucast (load32 m src))
      else if data_size field = 8 then Some (load64 m src)
      else None)"

definition pb_enc_varint :: "pb_env \<Rightarrow> memory \<Rightarrow> pb_field_t \<Rightarrow> ptr \<Rightarrow> encoder" where
  "pb_enc_varint E m field src s =
     (case read_signed m field src of
        None \<Rightarrow> fail_with ''invalid data_size'' s
      | Some v \<Rightarrow> Some (pb_encode_varint (io E) s v))"

definition pb_enc_uvarint :: "pb_env \<Rightarrow> memory \<Rightarrow> pb_field_t \<Rightarrow> ptr \<Rightarrow> encoder" where
  "pb_enc_uvarint E m field src s =
     (case read_unsigned m field src of
        None \<Rightarrow> fail_with ''invalid data_size'' s
      | Some v \<Rightarrow> Some (pb_encode_varint (io E) s v))"

definition pb_enc_svarint :: "pb_env \<Rightarrow> memory \<Rightarrow> pb_field_t \<Rightarrow> ptr \<Rightarrow> encoder" where
  "pb_enc_svarint E m field src s =
     (case read_signed m field src of
        None \<Rightarrow> fail_with ''invalid data_size'' s
      | Some v \<Rightarrow> Some (pb_encode_svarint (io E) s v))"

definition pb_enc_fixed64 :: "pb_env \<Rightarrow> memory \<Rightarrow> pb_field_t \<Rightarrow> ptr \<Rightarrow> encoder" where
  "pb_enc_fixed64 E m field src s = Some (pb_encode_fixed64 (io E) s (load64 m src))"

definition pb_enc_fixed32 :: "pb_env \<Rightarrow> memory \<Rightarrow> pb_field_t \<Rightarrow> ptr \<Rightarrow> encoder" where
  "pb_enc_fixed32 E m field src s = Some (pb_encode_fixed32 (io E) s (load32 m src))"

definition pb_enc_bytes :: "pb_env \<Rightarrow> memory \<Rightarrow> pb_field_t \<Rightarrow> ptr \<Rightarrow> encoder" where
  "pb_enc_bytes E m field src s =
     (if src = 0 then Some (pb_encode_string (io E) s [] 0)
      else if PB_ATYPE (type field) = PB_ATYPE_STATIC \<and>
              (ucast (load32 m src) :: size_t) > ucast (data_size field) - 4
      then fail_with ''bytes size exceeded'' s
      else Some (pb_encode_string (io E) s (mem_bytes m (src + 4) (unat (load32 m src)))
                   (ucast (load32 m src))))"

text \<open>The \<^verbatim>\<open>strnlen\<close> loop of \<^verbatim>\<open>pb_enc_string\<close>.\<close>

function strnlen_loop :: "memory \<Rightarrow> ptr \<Rightarrow> size_t \<Rightarrow> size_t \<Rightarrow> size_t" where
  "strnlen_loop m p n max_n =
     (if n < max_n \<and> m p \<noteq> 0 then strnlen_loop m (p + 1) (n + 1) max_n else n)"
  by pat_completeness auto
termination
proof (relation "measure (\<lambda>(m, p, n, max_n). unat max_n - unat n)")
  fix m :: memory and p n max_n :: "64 word"
  assume "n < max_n \<and> m p \<noteq> 0"
  then have lt: "unat n < unat max_n" by (simp add: word_less_nat_alt)
  then have "unat (n + 1) = unat n + 1"
    using unat_lt [of max_n] by (simp add: unat_add_no_wrap)
  with lt show "((m, p + 1, n + 1, max_n), (m, p, n, max_n))
      \<in> measure (\<lambda>(m, p, n, max_n). unat max_n - unat n)"
    by simp
qed simp

declare strnlen_loop.simps [simp del]

definition pb_enc_string :: "pb_env \<Rightarrow> memory \<Rightarrow> pb_field_t \<Rightarrow> ptr \<Rightarrow> encoder" where
  "pb_enc_string E m field src s =
     (let max_n = (if PB_ATYPE (type field) = PB_ATYPE_POINTER then - 1 else ucast (data_size field));
          n = (if src = 0 then 0 else strnlen_loop m src 0 max_n)
      in Some (pb_encode_string (io E) s (mem_bytes m src (unat n)) n))"

definition pb_enc_submessage ::
    "pb_env \<Rightarrow> msg_encoder \<Rightarrow> pb_field_t \<Rightarrow> ptr \<Rightarrow> encoder" where
  "pb_enc_submessage E encode field src s =
     (if fptr field = 0 then fail_with ''invalid field descriptor'' s
      else pb_encode_submessage E encode (fields_at E (fptr field)) src s)"

definition pb_enc_fixed_length_bytes :: "pb_env \<Rightarrow> memory \<Rightarrow> pb_field_t \<Rightarrow> ptr \<Rightarrow> encoder" where
  "pb_enc_fixed_length_bytes E m field src s =
     Some (pb_encode_string (io E) s (mem_bytes m src (unat (data_size field))) (ucast (data_size field)))"

text \<open>The table of encoders. Entry 9 is a null pointer and there are no entries from 11 on.\<close>

definition PB_ENCODERS :: "pb_env \<Rightarrow> memory \<Rightarrow> msg_encoder \<Rightarrow> byte \<Rightarrow> pb_field_t \<Rightarrow> ptr \<Rightarrow> encoder" where
  "PB_ENCODERS E m encode l =
     (if l = PB_LTYPE_BOOL then pb_enc_bool E m
      else if l = PB_LTYPE_VARINT then pb_enc_varint E m
      else if l = PB_LTYPE_UVARINT then pb_enc_uvarint E m
      else if l = PB_LTYPE_SVARINT then pb_enc_svarint E m
      else if l = PB_LTYPE_FIXED32 then pb_enc_fixed32 E m
      else if l = PB_LTYPE_FIXED64 then pb_enc_fixed64 E m
      else if l = PB_LTYPE_BYTES then pb_enc_bytes E m
      else if l = PB_LTYPE_STRING then pb_enc_string E m
      else if l = PB_LTYPE_SUBMESSAGE then pb_enc_submessage E encode
      else if l = PB_LTYPE_FIXED_LENGTH_BYTES then pb_enc_fixed_length_bytes E m
      else (\<lambda>_ _. undefined_step))"

section \<open>Encoding a field\<close>

text \<open>\<^verbatim>\<open>for (i = 0; i < count; i++) { if (!f(p)) return false; p += data_size; }\<close>\<close>

fun array_loop :: "(ptr \<Rightarrow> encoder) \<Rightarrow> ptr \<Rightarrow> size_t \<Rightarrow> nat \<Rightarrow> encoder" where
  "array_loop f p stride 0 s = Some (True, s)"
| "array_loop f p stride (Suc n) s = and_then (f p) (array_loop f (p + stride) stride n) s"

text \<open>The size of a packed array: computed, or measured with a sizing stream.\<close>

definition packed_size ::
    "pb_field_t \<Rightarrow> ptr \<Rightarrow> size_t \<Rightarrow> (ptr \<Rightarrow> encoder) \<Rightarrow> (bool \<times> size_t) option" where
  "packed_size field p count func =
     (if PB_LTYPE (type field) = PB_LTYPE_FIXED32 then Some (True, 4 * count)
      else if PB_LTYPE (type field) = PB_LTYPE_FIXED64 then Some (True, 8 * count)
      else (case array_loop func p (ucast (data_size field)) (unat count) PB_OSTREAM_SIZING of
              None \<Rightarrow> None
            | Some (ok, z) \<Rightarrow> Some (ok, bytes_written z)))"

definition encode_array ::
    "pb_env \<Rightarrow> memory \<Rightarrow> pb_field_t \<Rightarrow> ptr \<Rightarrow> size_t \<Rightarrow> (ptr \<Rightarrow> encoder) \<Rightarrow> encoder" where
  "encode_array E m field p count func s =
     (if count = 0 then Some (True, s)
      else if PB_ATYPE (type field) \<noteq> PB_ATYPE_POINTER \<and> count > ucast (array_size field)
      then fail_with ''array max size exceeded'' s
      else if PB_LTYPE (type field) \<le> PB_LTYPE_LAST_PACKABLE
      then and_then (\<lambda>s. Some (pb_encode_tag (io E) s PB_WT_STRING (tag field)))
             (\<lambda>s. case packed_size field p count func of
                    None \<Rightarrow> None
                  | Some (False, n) \<Rightarrow> Some (False, s)
                  | Some (True, n) \<Rightarrow>
                      and_then (\<lambda>s. Some (pb_encode_varint (io E) s n))
                        (\<lambda>s. if o_callback s = OCB_NULL then Some (pb_write (io E) s [] n)
                             else array_loop func p (ucast (data_size field)) (unat count) s) s) s
      else array_loop
             (\<lambda>p. and_then (pb_encode_tag_for_field E field)
                     (if PB_ATYPE (type field) = PB_ATYPE_POINTER \<and>
                         (PB_LTYPE (type field) = PB_LTYPE_STRING \<or>
                          PB_LTYPE (type field) = PB_LTYPE_BYTES)
                      then func (load64 m p) else func p))
             p (ucast (data_size field)) (unat count) s)"

text \<open>\<^verbatim>\<open>pb_check_proto3_default_value\<close>; the first argument bounds the nesting of static submessages.
  \<open>all_default\<close> is its loop over the fields of a submessage.\<close>

fun all_default :: "('a \<Rightarrow> bool option) \<Rightarrow> 'a list \<Rightarrow> bool option" where
  "all_default check [] = Some True"
| "all_default check (x # xs) =
     (case check x of None \<Rightarrow> None | Some False \<Rightarrow> Some False | Some True \<Rightarrow> all_default check xs)"

lemma all_default_cong [fundef_cong]:
  "xs = ys \<Longrightarrow> (\<And>x. x \<in> set ys \<Longrightarrow> f x = g x) \<Longrightarrow> all_default f xs = all_default g ys"
  by (induction xs arbitrary: ys) (auto split: option.splits bool.splits)

fun pb_check_proto3_default_value ::
    "pb_env \<Rightarrow> memory \<Rightarrow> nat \<Rightarrow> pb_field_t \<Rightarrow> ptr \<Rightarrow> bool option" where
  "pb_check_proto3_default_value E m 0 field p = None"
| "pb_check_proto3_default_value E m (Suc d) field p =
     (let a = PB_ATYPE (type field); h = PB_HTYPE (type field); l = PB_LTYPE (type field);
          pSz = p + scast (size_offset field)
      in if h = PB_HTYPE_REQUIRED then Some False
         else if h = PB_HTYPE_REPEATED \<and> size_offset field \<noteq> 0 then Some (load32 m pSz = 0)
         else if h = PB_HTYPE_REPEATED \<and> a = PB_ATYPE_STATIC then Some False
         else if h = PB_HTYPE_ONEOF then Some (load32 m pSz = 0)
         else if h = PB_HTYPE_OPTIONAL \<and> size_offset field \<noteq> 0 then Some (\<not> safe_read_bool m pSz)
         else if a = PB_ATYPE_STATIC \<and> l = PB_LTYPE_BYTES then Some (load32 m p = 0)
         else if a = PB_ATYPE_STATIC \<and> l = PB_LTYPE_STRING then Some (m p = 0)
         else if a = PB_ATYPE_STATIC \<and> l = PB_LTYPE_FIXED_LENGTH_BYTES then Some (data_size field = 0)
         else if a = PB_ATYPE_STATIC \<and> l = PB_LTYPE_SUBMESSAGE then
           (let fs = fields_at E (fptr field) in
            if fst (pb_field_iter_begin fs p)
            then all_default (\<lambda>it. pb_check_proto3_default_value E m d (cur it) (pData it))
                   (msg_iters fs p)
            else Some True)
         else if a = PB_ATYPE_POINTER \<and> l > PB_LTYPE_LAST_PACKABLE then Some (load64 m p = 0)
         else Some (list_all (\<lambda>b. b = 0) (mem_bytes m p (unat (data_size field)))))"

text \<open>\<^verbatim>\<open>encode_basic_field\<close>. \<^verbatim>\<open>pSize\<close> points into the message when \<^verbatim>\<open>size_offset\<close> is not 0, and to
  the local \<^verbatim>\<open>implicit_has\<close> otherwise; reading a \<^verbatim>\<open>pb_size_t\<close> from the latter is undefined.\<close>

definition encode_basic_field ::
    "pb_env \<Rightarrow> memory \<Rightarrow> nat \<Rightarrow> msg_encoder \<Rightarrow> pb_field_t \<Rightarrow> ptr \<Rightarrow> encoder" where
  "encode_basic_field E m d encode field p0 s =
     (let h = PB_HTYPE (type field);
          func = PB_ENCODERS E m encode (PB_LTYPE (type field)) field;
          in_msg = (size_offset field \<noteq> 0);
          pSz = p0 + scast (size_offset field)
      in (case (if in_msg then Some True
                else if h = PB_HTYPE_OPTIONAL
                     then map_option Not (pb_check_proto3_default_value E m d field p0)
                else Some True) of
            None \<Rightarrow> None
          | Some has0 \<Rightarrow>
              (let p = (if PB_ATYPE (type field) = PB_ATYPE_POINTER then load64 m p0 else p0);
                   has = (if PB_ATYPE (type field) = PB_ATYPE_POINTER then p \<noteq> 0 else has0)
               in if h = PB_HTYPE_REQUIRED then
                    if p = 0 then fail_with ''missing required field'' s
                    else and_then (pb_encode_tag_for_field E field) (func p) s
                  else if h = PB_HTYPE_OPTIONAL then
                    if (if in_msg then safe_read_bool m pSz else has)
                    then and_then (pb_encode_tag_for_field E field) (func p) s
                    else Some (True, s)
                  else if h = PB_HTYPE_REPEATED then
                    encode_array E m field p
                      (ucast (if in_msg then load32 m pSz else array_size field)) func s
                  else if h = PB_HTYPE_ONEOF then
                    if \<not> in_msg then undefined_step s
                    else if load32 m pSz = tag field
                    then and_then (pb_encode_tag_for_field E field) (func p) s
                    else Some (True, s)
                  else fail_with ''invalid field type'' s)))"

text \<open>A \<^verbatim>\<open>pb_callback_t\<close> is a function pointer followed by \<^verbatim>\<open>arg\<close>.\<close>

definition encode_callback_field :: "pb_env \<Rightarrow> memory \<Rightarrow> pb_field_t \<Rightarrow> ptr \<Rightarrow> encoder" where
  "encode_callback_field E m field p s =
     (if load64 m p \<noteq> 0
      then (case user_encode E (load64 m p) field (p + 8) s of
              (ok, s') \<Rightarrow> if \<not> ok then fail_with ''callback error'' s' else Some (True, s'))
      else Some (True, s))"

definition encode_field ::
    "pb_env \<Rightarrow> memory \<Rightarrow> nat \<Rightarrow> msg_encoder \<Rightarrow> pb_field_t \<Rightarrow> ptr \<Rightarrow> encoder" where
  "encode_field E m d encode field p s =
     (let a = PB_ATYPE (type field) in
      if a = PB_ATYPE_STATIC \<or> a = PB_ATYPE_POINTER then encode_basic_field E m d encode field p s
      else if a = PB_ATYPE_CALLBACK then encode_callback_field E m field p s
      else fail_with ''invalid field type'' s)"

section \<open>Extensions\<close>

text \<open>\<^verbatim>\<open>pb_extension_t\<close> holds \<^verbatim>\<open>type\<close>, \<^verbatim>\<open>dest\<close>, \<^verbatim>\<open>next\<close> at offsets 0, 8, 16; \<^verbatim>\<open>pb_extension_type_t\<close>
  holds \<^verbatim>\<open>decode\<close>, \<^verbatim>\<open>encode\<close>, \<^verbatim>\<open>arg\<close> at 0, 8, 16.\<close>

definition default_extension_encoder ::
    "pb_env \<Rightarrow> memory \<Rightarrow> nat \<Rightarrow> msg_encoder \<Rightarrow> ptr \<Rightarrow> encoder" where
  "default_extension_encoder E m d encode ext s =
     (let field = fields_at E (load64 m (load64 m ext + 16)) ! 0 in
      if PB_ATYPE (type field) = PB_ATYPE_POINTER then encode_field E m d encode field (ext + 8) s
      else encode_field E m d encode field (load64 m (ext + 8)) s)"

fun extension_loop :: "pb_env \<Rightarrow> memory \<Rightarrow> nat \<Rightarrow> msg_encoder \<Rightarrow> nat \<Rightarrow> ptr \<Rightarrow> encoder" where
  "extension_loop E m d encode 0 ext s = None"
| "extension_loop E m d encode (Suc n) ext s =
     (if ext = 0 then Some (True, s)
      else and_then
             (\<lambda>s. let enc = load64 m (load64 m ext + 8) in
                  if enc \<noteq> 0 then Some (user_ext_encode E enc ext s)
                  else default_extension_encoder E m d encode ext s)
             (extension_loop E m d encode n (load64 m (ext + 16))) s)"

definition encode_extension_field ::
    "pb_env \<Rightarrow> memory \<Rightarrow> nat \<Rightarrow> msg_encoder \<Rightarrow> ptr \<Rightarrow> encoder" where
  "encode_extension_field E m d encode p s = extension_loop E m d encode d (load64 m p) s"

section \<open>Encoding a message\<close>

fun fields_loop :: "(pb_field_iter_t \<Rightarrow> encoder) \<Rightarrow> pb_field_iter_t list \<Rightarrow> encoder" where
  "fields_loop f [] s = Some (True, s)"
| "fields_loop f (it # its) s = and_then (f it) (fields_loop f its) s"

definition encode_one ::
    "pb_env \<Rightarrow> memory \<Rightarrow> nat \<Rightarrow> msg_encoder \<Rightarrow> pb_field_iter_t \<Rightarrow> encoder" where
  "encode_one E m d encode it s =
     (if PB_LTYPE (type (cur it)) = PB_LTYPE_EXTENSION
      then encode_extension_field E m d encode (pData it) s
      else encode_field E m d encode (cur it) (pData it) s)"

text \<open>\<^verbatim>\<open>pb_encode\<close>; the third argument bounds the depth of nested messages (and the length of extension
  lists).\<close>

primrec pb_encode :: "pb_env \<Rightarrow> memory \<Rightarrow> nat \<Rightarrow> pb_field_t list \<Rightarrow> ptr \<Rightarrow> encoder" where
  "pb_encode E m 0 = (\<lambda>fs src s. None)"
| "pb_encode E m (Suc d) = (\<lambda>fs src s.
     if \<not> fst (pb_field_iter_begin fs src) then Some (True, s)
     else fields_loop (encode_one E m d (pb_encode E m d)) (msg_iters fs src) s)"

definition pb_encode_delimited :: "pb_env \<Rightarrow> memory \<Rightarrow> nat \<Rightarrow> pb_field_t list \<Rightarrow> ptr \<Rightarrow> encoder" where
  "pb_encode_delimited E m d fs src s = pb_encode_submessage E (pb_encode E m d) fs src s"

definition pb_encode_nullterminated :: "pb_env \<Rightarrow> memory \<Rightarrow> nat \<Rightarrow> pb_field_t list \<Rightarrow> ptr \<Rightarrow> encoder" where
  "pb_encode_nullterminated E m d fs src s =
     and_then (pb_encode E m d fs src) (\<lambda>s. Some (pb_write (io E) s [0] 1)) s"

definition pb_get_encoded_size ::
    "pb_env \<Rightarrow> memory \<Rightarrow> nat \<Rightarrow> pb_field_t list \<Rightarrow> ptr \<Rightarrow> (bool \<times> size_t) option" where
  "pb_get_encoded_size E m d fs src =
     (case pb_encode E m d fs src PB_OSTREAM_SIZING of
        None \<Rightarrow> None
      | Some (ok, z) \<Rightarrow> Some (ok, if ok then bytes_written z else 0))"

end
