(* ===== verification/PbEncodeSpec.thy ===== *)
theory PbEncodeSpec
  imports PbEncode
begin

text \<open>
  What the encoder promises: the bytes of a message as a function of the message alone, with no
  streams, no sizing pass and no buffer, and the proof that \<^verbatim>\<open>pb_encode\<close> writes exactly them.
\<close>

section \<open>Abstract outcomes\<close>

text \<open>\<open>Some (Some bs)\<close>: the encoding is \<open>bs\<close>; \<open>Some None\<close>: the message cannot be encoded; \<open>None\<close>: nothing
  is said (nesting deeper than the bound, or a descriptor whose use is undefined).\<close>

type_synonym outcome = "byte list option option"

definition bytes :: "byte list \<Rightarrow> outcome" where
  "bytes bs = Some (Some bs)"

definition cat :: "outcome \<Rightarrow> outcome \<Rightarrow> outcome" where
  "cat r1 r2 =
     (case r1 of None \<Rightarrow> None | Some None \<Rightarrow> Some None
      | Some (Some xs) \<Rightarrow> map_option (map_option (append xs)) r2)"

definition delimited :: "byte list \<Rightarrow> byte list" where
  "delimited bs = varint_buffer (word_of_nat (length bs)) @ bs"

fun spec_items :: "(ptr \<Rightarrow> outcome) \<Rightarrow> ptr \<Rightarrow> size_t \<Rightarrow> nat \<Rightarrow> outcome" where
  "spec_items f p stride 0 = bytes []"
| "spec_items f p stride (Suc n) = cat (f p) (spec_items f (p + stride) stride n)"

fun spec_concat :: "('a \<Rightarrow> outcome) \<Rightarrow> 'a list \<Rightarrow> outcome" where
  "spec_concat f [] = bytes []"
| "spec_concat f (x # xs) = cat (f x) (spec_concat f xs)"

section \<open>The encoding of a message\<close>

definition spec_tag :: "pb_field_t \<Rightarrow> outcome" where
  "spec_tag field =
     (let l = PB_LTYPE (type field) in
      if l \<le> PB_LTYPE_SVARINT then bytes (varint_buffer (tag_value PB_WT_VARINT (tag field)))
      else if l = PB_LTYPE_FIXED32 then bytes (varint_buffer (tag_value PB_WT_32BIT (tag field)))
      else if l = PB_LTYPE_FIXED64 then bytes (varint_buffer (tag_value PB_WT_64BIT (tag field)))
      else if l \<in> {PB_LTYPE_BYTES, PB_LTYPE_STRING, PB_LTYPE_SUBMESSAGE, PB_LTYPE_FIXED_LENGTH_BYTES}
      then bytes (varint_buffer (tag_value PB_WT_STRING (tag field)))
      else Some None)"

type_synonym msg_spec = "pb_field_t list \<Rightarrow> ptr \<Rightarrow> outcome"

definition cstring :: "memory \<Rightarrow> pb_field_t \<Rightarrow> ptr \<Rightarrow> byte list" where
  "cstring m field p =
     (let max_n = (if PB_ATYPE (type field) = PB_ATYPE_POINTER then - 1 else ucast (data_size field))
      in mem_bytes m p (if p = 0 then 0 else unat (strnlen_loop m p 0 max_n)))"

definition spec_value :: "pb_env \<Rightarrow> memory \<Rightarrow> msg_spec \<Rightarrow> pb_field_t \<Rightarrow> ptr \<Rightarrow> outcome" where
  "spec_value E m sub field p =
     (let l = PB_LTYPE (type field) in
      if l = PB_LTYPE_BOOL then bytes (varint_buffer (if safe_read_bool m p then 1 else 0))
      else if l = PB_LTYPE_VARINT then Some (map_option varint_buffer (read_signed m field p))
      else if l = PB_LTYPE_UVARINT then Some (map_option varint_buffer (read_unsigned m field p))
      else if l = PB_LTYPE_SVARINT
           then Some (map_option (varint_buffer \<circ> zigzag) (read_signed m field p))
      else if l = PB_LTYPE_FIXED32 then bytes (fixed32_bytes (load32 m p))
      else if l = PB_LTYPE_FIXED64 then bytes (fixed64_bytes (load64 m p))
      else if l = PB_LTYPE_BYTES then
        (if p = 0 then bytes (delimited [])
         else if PB_ATYPE (type field) = PB_ATYPE_STATIC \<and>
                 (ucast (load32 m p) :: size_t) > ucast (data_size field) - 4
         then Some None
         else bytes (delimited (mem_bytes m (p + 4) (unat (load32 m p)))))
      else if l = PB_LTYPE_STRING then bytes (delimited (cstring m field p))
      else if l = PB_LTYPE_SUBMESSAGE then
        (if fptr field = 0 then Some None
         else map_option (map_option delimited) (sub (fields_at E (fptr field)) p))
      else if l = PB_LTYPE_FIXED_LENGTH_BYTES
      then bytes (delimited (mem_bytes m p (unat (data_size field))))
      else None)"

definition spec_array ::
    "memory \<Rightarrow> pb_field_t \<Rightarrow> ptr \<Rightarrow> size_t \<Rightarrow> (ptr \<Rightarrow> outcome) \<Rightarrow> outcome" where
  "spec_array m field p count item =
     (if count = 0 then bytes []
      else if PB_ATYPE (type field) \<noteq> PB_ATYPE_POINTER \<and> count > ucast (array_size field)
      then Some None
      else if PB_LTYPE (type field) \<le> PB_LTYPE_LAST_PACKABLE
      then cat (bytes (varint_buffer (tag_value PB_WT_STRING (tag field))))
             (map_option (map_option delimited)
               (spec_items item p (ucast (data_size field)) (unat count)))
      else spec_items
             (\<lambda>p. cat (spec_tag field)
                    (if PB_ATYPE (type field) = PB_ATYPE_POINTER \<and>
                        (PB_LTYPE (type field) = PB_LTYPE_STRING \<or> PB_LTYPE (type field) = PB_LTYPE_BYTES)
                     then item (load64 m p) else item p))
             p (ucast (data_size field)) (unat count))"

definition spec_basic ::
    "pb_env \<Rightarrow> memory \<Rightarrow> nat \<Rightarrow> msg_spec \<Rightarrow> pb_field_t \<Rightarrow> ptr \<Rightarrow> outcome" where
  "spec_basic E m d sub field p0 =
     (let h = PB_HTYPE (type field);
          pointer = (PB_ATYPE (type field) = PB_ATYPE_POINTER);
          p = (if pointer then load64 m p0 else p0);
          has_size = (size_offset field \<noteq> 0);
          pSz = p0 + scast (size_offset field);
          item = spec_value E m sub field;
          single = cat (spec_tag field) (item p)
      in if h = PB_HTYPE_REQUIRED then (if p = 0 then Some None else single)
         else if h = PB_HTYPE_OPTIONAL then
           (if has_size then if safe_read_bool m pSz then single else bytes []
            else (case pb_check_proto3_default_value E m d field p0 of
                    None \<Rightarrow> None
                  | Some dflt \<Rightarrow> if (if pointer then p \<noteq> 0 else \<not> dflt) then single else bytes []))
         else if h = PB_HTYPE_REPEATED then
           spec_array m field p (ucast (if has_size then load32 m pSz else array_size field)) item
         else if h = PB_HTYPE_ONEOF then
           (if \<not> has_size then None else if load32 m pSz = tag field then single else bytes [])
         else Some None)"

text \<open>The bytes that the caller's callbacks write are parameters.\<close>

record callback_out =
  cb_out :: "ptr \<Rightarrow> pb_field_t \<Rightarrow> ptr \<Rightarrow> byte list"
  ext_out :: "ptr \<Rightarrow> ptr \<Rightarrow> byte list"

definition spec_field ::
    "pb_env \<Rightarrow> callback_out \<Rightarrow> memory \<Rightarrow> nat \<Rightarrow> msg_spec \<Rightarrow> pb_field_t \<Rightarrow> ptr \<Rightarrow> outcome" where
  "spec_field E C m d sub field p =
     (let a = PB_ATYPE (type field) in
      if a = PB_ATYPE_STATIC \<or> a = PB_ATYPE_POINTER then spec_basic E m d sub field p
      else if a = PB_ATYPE_CALLBACK
      then bytes (if load64 m p \<noteq> 0 then cb_out C (load64 m p) field (p + 8) else [])
      else Some None)"

fun spec_extensions ::
    "pb_env \<Rightarrow> callback_out \<Rightarrow> memory \<Rightarrow> nat \<Rightarrow> msg_spec \<Rightarrow> nat \<Rightarrow> ptr \<Rightarrow> outcome" where
  "spec_extensions E C m d sub 0 ext = None"
| "spec_extensions E C m d sub (Suc n) ext =
     (if ext = 0 then bytes []
      else cat
        (let enc = load64 m (load64 m ext + 8);
             field = fields_at E (load64 m (load64 m ext + 16)) ! 0
         in if enc \<noteq> 0 then bytes (ext_out C enc ext)
            else spec_field E C m d sub field
                   (if PB_ATYPE (type field) = PB_ATYPE_POINTER then ext + 8 else load64 m (ext + 8)))
        (spec_extensions E C m d sub n (load64 m (ext + 16))))"

definition spec_one ::
    "pb_env \<Rightarrow> callback_out \<Rightarrow> memory \<Rightarrow> nat \<Rightarrow> msg_spec \<Rightarrow> pb_field_iter_t \<Rightarrow> outcome" where
  "spec_one E C m d sub it =
     (if PB_LTYPE (type (cur it)) = PB_LTYPE_EXTENSION
      then spec_extensions E C m d sub d (load64 m (pData it))
      else spec_field E C m d sub (cur it) (pData it))"

primrec spec_message :: "pb_env \<Rightarrow> callback_out \<Rightarrow> memory \<Rightarrow> nat \<Rightarrow> pb_field_t list \<Rightarrow> ptr \<Rightarrow> outcome" where
  "spec_message E C m 0 = (\<lambda>fs src. None)"
| "spec_message E C m (Suc d) = (\<lambda>fs src.
     if tag (fs ! 0) = 0 then bytes []
     else spec_concat (spec_one E C m d (spec_message E C m d)) (msg_iters fs src))"

section \<open>Refinement\<close>

text \<open>\<open>implements f r\<close>: where \<open>r\<close> is a byte string, \<open>f\<close> counts it on a sizing stream and, if it is
  shorter than \<open>2\<^sup>6\<^sup>3\<close>, meets the writing contract for it; and \<open>f\<close> succeeds on a sizing stream only if
  \<open>r\<close> is a byte string.\<close>

definition counts :: "encoder \<Rightarrow> byte list \<Rightarrow> bool" where
  "counts f bs \<longleftrightarrow> (\<forall>z. o_callback z = OCB_NULL \<longrightarrow> f z = Some (True, o_count z (length bs)))"

definition implements :: "encoder \<Rightarrow> outcome \<Rightarrow> bool" where
  "implements f r \<longleftrightarrow>
     (\<forall>bs. r = bytes bs \<longrightarrow> counts f bs \<and> (length bs < 2 ^ 63 \<longrightarrow> stream_writer f bs)) \<and>
     ((\<forall>bs. r \<noteq> bytes bs) \<longrightarrow> (\<forall>z z'. o_callback z = OCB_NULL \<longrightarrow> f z \<noteq> Some (True, z')))"

lemma bytes_eq [simp]: "bytes xs = bytes ys \<longleftrightarrow> xs = ys" "bytes xs \<noteq> None" "bytes xs \<noteq> Some None"
  "None \<noteq> bytes xs" "Some None \<noteq> bytes xs"
  by (auto simp: bytes_def)

lemma outcome_cases [case_names None Fail Bytes]:
  obtains "r = None" | "r = Some None" | bs where "r = bytes bs"
  by (cases r; cases "the r") (auto simp: bytes_def)

lemma cat_simps [simp]:
  "cat None r = None" "cat (Some None) r = Some None"
  "cat (bytes xs) (bytes ys) = bytes (xs @ ys)"
  "cat (bytes xs) None = None" "cat (bytes xs) (Some None) = Some None"
  by (simp_all add: cat_def bytes_def)

lemma implements_bytes:
  assumes "\<And>z. o_callback z = OCB_NULL \<Longrightarrow> f z = Some (True, o_count z (length bs))"
    and "length bs < 2 ^ 63 \<Longrightarrow> stream_writer f bs"
  shows "implements f (bytes bs)"
  using assms by (auto simp: implements_def counts_def)

lemma implements_writer: "stream_writer f bs \<Longrightarrow> implements f (bytes bs)"
  by (auto simp: implements_def counts_def stream_writer.sizing)

lemma implements_nothing [simp]: "implements (\<lambda>s. Some (True, s)) (bytes [])"
  by (rule implements_writer) (rule stream_writer_nothing)

lemma implements_fail [simp]: "implements (fail_with msg) (Some None)"
  by (simp add: implements_def fail_with_def o_return_error_def)

lemma implements_undefined [simp]: "implements undefined_step None"
  by (simp add: implements_def undefined_step_def)

lemma implements_None [simp]: "implements (\<lambda>s. None) None"
  by (simp add: implements_def)

lemma implements_countsD: "implements f (bytes bs) \<Longrightarrow> o_callback z = OCB_NULL \<Longrightarrow>
    f z = Some (True, o_count z (length bs))"
  by (auto simp: implements_def counts_def)

lemma implements_writerD: "implements f (bytes bs) \<Longrightarrow> length bs < 2 ^ 63 \<Longrightarrow> stream_writer f bs"
  by (auto simp: implements_def)

lemma implements_noneD: "implements f r \<Longrightarrow> (\<And>bs. r \<noteq> bytes bs) \<Longrightarrow> o_callback z = OCB_NULL \<Longrightarrow>
    f z \<noteq> Some (True, z')"
  unfolding implements_def by blast

lemma implementsI:
  assumes "\<And>bs. r = bytes bs \<Longrightarrow> implements f (bytes bs)"
    and "\<And>z z'. (\<And>bs. r \<noteq> bytes bs) \<Longrightarrow> o_callback z = OCB_NULL \<Longrightarrow> f z \<noteq> Some (True, z')"
  shows "implements f r"
  using assms unfolding implements_def by blast

lemma implements_never:
  assumes "\<And>z z'. o_callback z = OCB_NULL \<Longrightarrow> f z \<noteq> Some (True, z')" and "\<And>bs. r \<noteq> bytes bs"
  shows "implements f r"
  using assms by (simp add: implements_def)

lemma implements_and_then:
  assumes f: "implements f r1" and g: "implements g r2"
  shows "implements (and_then f g) (cat r1 r2)"
proof (cases "\<exists>xs. r1 = bytes xs")
  case True
  then obtain xs where xs: "r1 = bytes xs" by blast
  note fx = f [unfolded xs]
  show ?thesis
  proof (cases "\<exists>ys. r2 = bytes ys")
    case True
    then obtain ys where ys: "r2 = bytes ys" by blast
    note gy = g [unfolded ys]
    have "implements (and_then f g) (bytes (xs @ ys))"
    proof (rule implements_bytes)
      fix z :: pb_ostream_t assume "o_callback z = OCB_NULL"
      then show "and_then f g z = Some (True, o_count z (length (xs @ ys)))"
        by (simp add: and_then_def implements_countsD [OF fx] implements_countsD [OF gy])
    next
      assume "length (xs @ ys) < 2 ^ 63"
      then show "stream_writer (and_then f g) (xs @ ys)"
        by (intro stream_writer_and_then implements_writerD [OF fx] implements_writerD [OF gy]) auto
    qed
    then show ?thesis by (simp add: xs ys)
  next
    case False
    then have g': "g z \<noteq> Some (True, z')" if "o_callback z = OCB_NULL" for z z'
      using implements_noneD [OF g _ that] by blast
    have "cat r1 r2 \<noteq> bytes bs" for bs
      using False by (cases r2 rule: outcome_cases) (auto simp: xs)
    then show ?thesis
      by (intro implements_never) (simp_all add: and_then_def implements_countsD [OF fx] g')
  qed
next
  case False
  then have f': "f z \<noteq> Some (True, z')" if "o_callback z = OCB_NULL" for z z'
    using implements_noneD [OF f _ that] by blast
  have "cat r1 r2 \<noteq> bytes bs" for bs
    using False by (cases r1 rule: outcome_cases) auto
  moreover have "and_then f g z \<noteq> Some (True, z')" if "o_callback z = OCB_NULL" for z z'
    using f' [OF that] by (auto simp: and_then_def split: option.splits)
  ultimately show ?thesis
    by (intro implements_never)
qed

lemma implements_array_loop:
  "(\<And>p. implements (f p) (r p)) \<Longrightarrow> implements (array_loop f p stride n) (spec_items r p stride n)"
proof (induction n arbitrary: p)
  case 0
  have "array_loop f p stride 0 = (\<lambda>s. Some (True, s))" by (rule ext) simp
  then show ?case by simp
next
  case (Suc n)
  have "array_loop f p stride (Suc n) = and_then (f p) (array_loop f (p + stride) stride n)"
    by (rule ext) simp
  then show ?case using Suc by (simp add: implements_and_then)
qed

lemma implements_fields_loop:
  "(\<And>x. x \<in> set xs \<Longrightarrow> implements (f x) (r x)) \<Longrightarrow> implements (fields_loop f xs) (spec_concat r xs)"
proof (induction xs)
  case Nil
  have "fields_loop f [] = (\<lambda>s. Some (True, s))" by (rule ext) simp
  then show ?case by simp
next
  case (Cons x xs)
  have "fields_loop f (x # xs) = and_then (f x) (fields_loop f xs)"
    by (rule ext) simp
  then show ?case using Cons by (simp add: implements_and_then)
qed

lemma implements_if:
  "(b \<Longrightarrow> implements f r) \<Longrightarrow> (\<not> b \<Longrightarrow> implements g r') \<Longrightarrow>
     implements (if b then f else g) (if b then r else r')"
  by simp

text \<open>Strings and submessages: a length prefix and the payload.\<close>

lemma implements_string:
  assumes "unat sz = length bs"
  shows "implements (\<lambda>s. Some (pb_encode_string (io E) s bs sz)) (bytes (delimited bs))"
proof -
  have sz: "sz = word_of_nat (length bs)" using assms by (simp flip: assms)
  show ?thesis
  proof (rule implements_bytes)
    fix z :: pb_ostream_t assume z: "o_callback z = OCB_NULL"
    have "pb_encode_varint (io E) z sz = (True, o_count z (length (varint_buffer sz)))"
      using varint_wr.sizing [OF z] by simp
    then show "Some (pb_encode_string (io E) z bs sz) = Some (True, o_count z (length (delimited bs)))"
      using z by (simp add: pb_encode_string_def pb_write_sizing delimited_def o_count_def sz)
  next
    assume "length (delimited bs) < 2 ^ 63"
    then show "stream_writer (\<lambda>s. Some (pb_encode_string (io E) s bs sz)) (delimited bs)"
      unfolding delimited_def sz [symmetric] by (intro string_writer) (simp_all add: sz)
  qed
qed

text \<open>The substream that \<^verbatim>\<open>pb_encode_submessage\<close> encodes into has exactly the room the sizing pass asked
  for, so the check \<^verbatim>\<open>"submsg size changed"\<close> never fires.\<close>

lemma substream_ready:
  assumes "ostream_ready s" and "length bs \<le> o_room s"
  shows "ostream_ready (s\<lparr>max_size := word_of_nat (length bs), bytes_written := 0, o_errmsg := None\<rparr>)"
    and "o_room (s\<lparr>max_size := word_of_nat (length bs), bytes_written := 0, o_errmsg := None\<rparr>) = length bs"
proof -
  have "length bs < 2 ^ 63"
    using assms by (auto simp: ostream_ready_def ostream_ok_def o_room_def)
  then have n: "unat (word_of_nat (length bs) :: size_t) = length bs"
    by (simp add: unat_of_nat_small)
  then show "o_room (s\<lparr>max_size := word_of_nat (length bs), bytes_written := 0, o_errmsg := None\<rparr>) = length bs"
    by (simp add: o_room_def)
  then show "ostream_ready (s\<lparr>max_size := word_of_nat (length bs), bytes_written := 0, o_errmsg := None\<rparr>)"
    using assms n \<open>length bs < 2 ^ 63\<close> by (simp add: ostream_ready_def ostream_ok_def)
qed

definition submessage_payload :: "pb_env \<Rightarrow> msg_encoder \<Rightarrow> pb_field_t list \<Rightarrow> ptr \<Rightarrow> size_t \<Rightarrow> encoder" where
  "submessage_payload E encode fs src n s =
     (if o_callback s = OCB_NULL then Some (pb_write (io E) s [] n)
      else if bytes_written s + n > max_size s then fail_with ''stream full'' s
      else
        (case encode fs src (s\<lparr>max_size := n, bytes_written := 0, o_errmsg := None\<rparr>) of
           None \<Rightarrow> None
         | Some (status, z') \<Rightarrow>
             (let s' = z'\<lparr>o_callback := o_callback s, max_size := max_size s,
                          bytes_written := bytes_written s + bytes_written z'\<rparr>
              in if bytes_written z' \<noteq> n then fail_with ''submsg size changed'' s'
                 else Some (status, s'))))"

lemma pb_encode_submessage_eq:
  "pb_encode_submessage E encode fs src s =
     (case encode fs src PB_OSTREAM_SIZING of
        None \<Rightarrow> None
      | Some (False, z) \<Rightarrow> Some (False, s\<lparr>o_errmsg := o_errmsg z, o_ub := (o_ub s \<or> o_ub z)\<rparr>)
      | Some (True, z) \<Rightarrow>
          and_then (\<lambda>s. Some (pb_encode_varint (io E) s (bytes_written z)))
            (submessage_payload E encode fs src (bytes_written z)) (s\<lparr>o_ub := (o_ub s \<or> o_ub z)\<rparr>))"
  unfolding pb_encode_submessage_def submessage_payload_def ..

lemma payload_writer:
  assumes wr: "stream_writer (encode fs src) bs" and len: "length bs < 2 ^ 63"
  shows "stream_writer (submessage_payload E encode fs src (word_of_nat (length bs))) bs"
proof (rule stream_writer.intro)
  let ?n = "word_of_nat (length bs) :: size_t"
  have n: "unat ?n = length bs" using len by (simp add: unat_of_nat_small)
  fix s :: pb_ostream_t
  show "o_callback s = OCB_NULL \<Longrightarrow>
      submessage_payload E encode fs src ?n s = Some (True, o_count s (length bs))"
    by (simp add: submessage_payload_def pb_write_sizing o_count_def)
  assume ready: "ostream_ready s"
  then have w: "unat (bytes_written s) \<le> unat (max_size s)" "unat (max_size s) < 2 ^ 63"
    and cb: "o_callback s = OCB_buf_write"
    by (auto simp: ostream_ready_def ostream_ok_def)
  have "unat (bytes_written s + ?n) = unat (bytes_written s) + length bs"
    using w len by (simp add: unat_add_no_wrap n)
  then have over: "bytes_written s + ?n > max_size s \<longleftrightarrow> o_room s < length bs"
    using w by (auto simp: word_less_nat_alt o_room_def)
  show "o_room s < length bs \<Longrightarrow>
      \<exists>s'. submessage_payload E encode fs src ?n s = Some (False, s') \<and> o_sub s s'"
    using over cb by (simp add: submessage_payload_def fail_with_def o_return_error_def)
  assume fits: "length bs \<le> o_room s"
  let ?sub = "s\<lparr>max_size := ?n, bytes_written := 0, o_errmsg := None\<rparr>"
  have "encode fs src ?sub = Some (True, o_put ?sub bs)"
    using stream_writer.fits [OF wr] substream_ready [OF ready fits] by simp
  moreover have "s\<lparr>o_errmsg := None\<rparr> = s"
    using ready by (simp add: ostream_ready_def)
  ultimately show "submessage_payload E encode fs src ?n s = Some (True, o_put s bs)"
    using over cb fits by (simp add: submessage_payload_def o_put_def)
qed

lemma implements_submessage:
  assumes "implements (encode fs src) r"
  shows "implements (pb_encode_submessage E encode fs src) (map_option (map_option delimited) r)"
proof (cases "\<exists>bs. r = bytes bs")
  case True
  then obtain bs where bs: "r = bytes bs" by blast
  let ?n = "word_of_nat (length bs) :: size_t"
  have "encode fs src PB_OSTREAM_SIZING = Some (True, o_count PB_OSTREAM_SIZING (length bs))"
    using implements_countsD [OF assms [unfolded bs]] by (simp add: PB_OSTREAM_SIZING_def)
  then have eq: "pb_encode_submessage E encode fs src =
      and_then (\<lambda>s. Some (pb_encode_varint (io E) s ?n)) (submessage_payload E encode fs src ?n)"
    by (intro ext) (simp add: pb_encode_submessage_eq o_count_def PB_OSTREAM_SIZING_def)
  have "implements (submessage_payload E encode fs src ?n) (bytes bs)"
  proof (rule implements_bytes)
    fix z :: pb_ostream_t assume "o_callback z = OCB_NULL"
    then show "submessage_payload E encode fs src ?n z = Some (True, o_count z (length bs))"
      by (simp add: submessage_payload_def pb_write_sizing o_count_def)
  next
    assume len: "length bs < 2 ^ 63"
    show "stream_writer (submessage_payload E encode fs src ?n) bs"
      using implements_writerD [OF assms [unfolded bs] len] len by (rule payload_writer)
  qed
  then have "implements (pb_encode_submessage E encode fs src) (cat (bytes (varint_buffer ?n)) (bytes bs))"
    unfolding eq by (intro implements_and_then implements_writer [OF varint_writer])
  then show ?thesis
    by (simp add: bs delimited_def bytes_def cat_def)
next
  case False
  then have "encode fs src PB_OSTREAM_SIZING \<noteq> Some (True, z')" for z'
    using implements_noneD [OF assms] by (simp add: PB_OSTREAM_SIZING_def)
  moreover have "map_option (map_option delimited) r \<noteq> bytes bs" for bs
    using False by (auto simp: bytes_def)
  ultimately show ?thesis
    by (intro implements_never)
       (auto simp: pb_encode_submessage_eq split: option.splits bool.splits)
qed

section \<open>Every layer of the encoder implements its specification\<close>

lemma mem_bytes_length [simp]: "length (mem_bytes m p n) = n"
  by (simp add: mem_bytes_def)

lemma implements_tag: "implements (\<lambda>s. Some (pb_encode_tag i s wt n)) (bytes (varint_buffer (tag_value wt n)))"
  by (rule implements_writer) (rule tag_writer)

lemma implements_varint: "implements (\<lambda>s. Some (pb_encode_varint i s v)) (bytes (varint_buffer v))"
  by (rule implements_writer) (rule varint_writer)

lemma implements_ext: "implements f r \<Longrightarrow> (\<And>s. g s = f s) \<Longrightarrow> implements g r"
  by (metis ext)

lemma ltype_le_3: "l \<le> (3::byte) \<longleftrightarrow> l = 0 \<or> l = 1 \<or> l = 2 \<or> l = 3"
proof -
  have "\<forall>l::byte. l \<le> 3 \<longleftrightarrow> l = 0 \<or> l = 1 \<or> l = 2 \<or> l = 3"
    unfolding all_byte_iff by code_simp
  then show ?thesis by blast
qed

lemma implements_tag_for_field: "implements (pb_encode_tag_for_field E field) (spec_tag field)"
  unfolding spec_tag_def Let_def ltype_le_3
  by (auto simp: pb_encode_tag_for_field_def Let_def fail_with_def [symmetric]
      intro: implements_ext [OF implements_tag] implements_ext [OF implements_fail])

lemma implements_read:
  assumes "\<And>v. implements (\<lambda>s. Some (f s v)) (bytes (enc v))"
  shows "implements (\<lambda>s. case r of None \<Rightarrow> fail_with msg s | Some v \<Rightarrow> Some (f s v)) (Some (map_option enc r))"
proof (cases r)
  case None
  then show ?thesis by (simp add: implements_ext [OF implements_fail])
next
  case (Some v)
  then show ?thesis using assms [of v] by (simp add: bytes_def)
qed

lemma implements_bytes_field: 
  "implements (pb_enc_bytes E m field p)
     (if p = 0 then bytes (delimited [])
      else if PB_ATYPE (type field) = PB_ATYPE_STATIC \<and>
              (ucast (load32 m p) :: size_t) > ucast (data_size field) - 4
      then Some None
      else bytes (delimited (mem_bytes m (p + 4) (unat (load32 m p)))))"
proof -
  have "implements (pb_enc_bytes E m field p) (bytes (delimited []))" if "p = 0"
    by (rule implements_ext [OF implements_string [where E = E and sz = 0]])
       (simp_all add: pb_enc_bytes_def that)
  moreover have "implements (pb_enc_bytes E m field p) (Some None)"
    if "p \<noteq> 0" "PB_ATYPE (type field) = PB_ATYPE_STATIC \<and>
          (ucast (load32 m p) :: size_t) > ucast (data_size field) - 4"
    by (rule implements_ext [OF implements_fail]) (simp add: pb_enc_bytes_def that)
  moreover have "implements (pb_enc_bytes E m field p)
      (bytes (delimited (mem_bytes m (p + 4) (unat (load32 m p)))))"
    if "p \<noteq> 0" "\<not> (PB_ATYPE (type field) = PB_ATYPE_STATIC \<and>
          (ucast (load32 m p) :: size_t) > ucast (data_size field) - 4)"
    by (rule implements_ext [OF implements_string [where E = E and sz = "ucast (load32 m p)"]])
       (use that in \<open>auto simp: pb_enc_bytes_def unat_ucast_up\<close>)
  ultimately show ?thesis by simp
qed

lemma implements_string_field: "implements (pb_enc_string E m field p) (bytes (delimited (cstring m field p)))"
proof -
  define n where "n = (if p = 0 then 0 else strnlen_loop m p 0
    (if PB_ATYPE (type field) = PB_ATYPE_POINTER then - 1 else ucast (data_size field)))"
  have "implements (\<lambda>s. Some (pb_encode_string (io E) s (mem_bytes m p (unat n)) n))
      (bytes (delimited (mem_bytes m p (unat n))))"
    by (rule implements_string) simp
  moreover have "cstring m field p = mem_bytes m p (unat n)"
    by (simp add: cstring_def n_def Let_def)
  ultimately show ?thesis
    by (auto simp: pb_enc_string_def Let_def n_def intro: implements_ext)
qed

lemma implements_value:
  assumes "\<And>fs p. implements (encode fs p) (sub fs p)"
  shows "implements (PB_ENCODERS E m encode (PB_LTYPE (type field)) field p) (spec_value E m sub field p)"
proof -
  have sub: "implements (pb_enc_submessage E encode field p)
      (if fptr field = 0 then Some None
       else map_option (map_option delimited) (sub (fields_at E (fptr field)) p))"
    using implements_submessage [of encode "fields_at E (fptr field)" p, OF assms, of E]
    by (auto simp: pb_enc_submessage_def intro: implements_ext implements_ext [OF implements_fail])
  have flb: "implements (pb_enc_fixed_length_bytes E m field p)
      (bytes (delimited (mem_bytes m p (unat (data_size field)))))"
    by (rule implements_ext [OF implements_string [where E = E]])
       (simp_all add: pb_enc_fixed_length_bytes_def unat_ucast_up)
  have var: "implements (pb_enc_varint E m field p) (Some (map_option varint_buffer (read_signed m field p)))"
    by (rule implements_ext [OF implements_read [OF implements_varint]]) (simp add: pb_enc_varint_def)
  have uvar: "implements (pb_enc_uvarint E m field p) (Some (map_option varint_buffer (read_unsigned m field p)))"
    by (rule implements_ext [OF implements_read [OF implements_varint]]) (simp add: pb_enc_uvarint_def)
  have svar: "implements (pb_enc_svarint E m field p)
      (Some (map_option (varint_buffer \<circ> zigzag) (read_signed m field p)))"
    by (rule implements_ext [OF implements_read [where enc = "varint_buffer \<circ> zigzag"
          and f = "pb_encode_svarint (io E)"]])
       (simp_all add: pb_enc_svarint_def implements_writer svarint_writer)
  have bool: "implements (pb_enc_bool E m field p) (bytes (varint_buffer (if safe_read_bool m p then 1 else 0)))"
    by (rule implements_ext [OF implements_varint]) (simp add: pb_enc_bool_def)
  have f32: "implements (pb_enc_fixed32 E m field p) (bytes (fixed32_bytes (load32 m p)))"
    by (rule implements_ext [OF implements_writer [OF fixed32_writer]]) (simp add: pb_enc_fixed32_def)
  have f64: "implements (pb_enc_fixed64 E m field p) (bytes (fixed64_bytes (load64 m p)))"
    by (rule implements_ext [OF implements_writer [OF fixed64_writer]]) (simp add: pb_enc_fixed64_def)
  show ?thesis
    unfolding spec_value_def PB_ENCODERS_def Let_def
    using sub flb var uvar svar bool f32 f64 implements_bytes_field [of E m field p]
      implements_string_field [of E m field p]
    by simp
qed

text \<open>Arrays. The length of a packed array is either measured or, for the fixed-width types, computed.\<close>

lemma spec_items_length:
  assumes "\<And>p. \<exists>bs. item p = bytes bs \<and> length bs = k"
  shows "\<exists>bs. spec_items item p stride n = bytes bs \<and> length bs = k * n"
proof (induction n arbitrary: p)
  case (Suc n)
  obtain xs where "item p = bytes xs" "length xs = k" using assms by blast
  moreover obtain ys where "spec_items item (p + stride) stride n = bytes ys" "length ys = k * n"
    using Suc by blast
  ultimately show ?case by simp
qed simp

lemma stream_writer_or_count:
  assumes "stream_writer f bs"
  shows "stream_writer (\<lambda>s. if o_callback s = OCB_NULL
      then Some (pb_write i s [] (word_of_nat (length bs))) else f s) bs"
  using stream_writer.fits [OF assms] stream_writer.full [OF assms]
  by unfold_locales (auto simp: pb_write_sizing o_count_def ostream_ready_def ostream_ok_def)

definition fixed_size_items :: "pb_field_t \<Rightarrow> (ptr \<Rightarrow> outcome) \<Rightarrow> bool" where
  "fixed_size_items field item \<longleftrightarrow>
     (PB_LTYPE (type field) = PB_LTYPE_FIXED32 \<longrightarrow> (\<forall>p. \<exists>bs. item p = bytes bs \<and> length bs = 4)) \<and>
     (PB_LTYPE (type field) = PB_LTYPE_FIXED64 \<longrightarrow> (\<forall>p. \<exists>bs. item p = bytes bs \<and> length bs = 8))"

lemma packed_size_bytes:
  assumes item: "\<And>p. implements (func p) (item p)" and fixed: "fixed_size_items field item"
    and bs: "spec_items item p (ucast (data_size field)) (unat count) = bytes bs"
  shows "packed_size field p count func = Some (True, word_of_nat (length bs))"
proof -
  have "length bs = 4 * unat count" if "PB_LTYPE (type field) = PB_LTYPE_FIXED32"
    using spec_items_length [of item 4 p "ucast (data_size field)" "unat count"] fixed that bs
    by (auto simp: fixed_size_items_def)
  moreover have "length bs = 8 * unat count" if "PB_LTYPE (type field) = PB_LTYPE_FIXED64"
    using spec_items_length [of item 8 p "ucast (data_size field)" "unat count"] fixed that bs
    by (auto simp: fixed_size_items_def)
  moreover have "implements (array_loop func p (ucast (data_size field)) (unat count)) (bytes bs)"
    using implements_array_loop [of func item, OF item] bs by metis
  then have "array_loop func p (ucast (data_size field)) (unat count) PB_OSTREAM_SIZING =
      Some (True, o_count PB_OSTREAM_SIZING (length bs))"
    by (rule implements_countsD) (simp add: PB_OSTREAM_SIZING_def)
  ultimately show ?thesis
    by (simp add: packed_size_def o_count_def PB_OSTREAM_SIZING_def)
qed

lemma packed_size_never:
  assumes item: "\<And>p. implements (func p) (item p)" and fixed: "fixed_size_items field item"
    and no: "\<And>bs. spec_items item p (ucast (data_size field)) (unat count) \<noteq> bytes bs"
  shows "packed_size field p count func \<noteq> Some (True, n)"
proof -
  have "PB_LTYPE (type field) \<noteq> PB_LTYPE_FIXED32" "PB_LTYPE (type field) \<noteq> PB_LTYPE_FIXED64"
    using spec_items_length [of item _ p "ucast (data_size field)" "unat count"] fixed no
    by (fastforce simp: fixed_size_items_def)+
  moreover have "array_loop func p (ucast (data_size field)) (unat count) PB_OSTREAM_SIZING \<noteq> Some (True, z)" for z
    by (rule implements_noneD [OF implements_array_loop [of func item, OF item] no])
       (simp add: PB_OSTREAM_SIZING_def)
  ultimately show ?thesis
    by (auto simp: packed_size_def split: option.splits) blast
qed

definition packed_body ::
    "pb_env \<Rightarrow> pb_field_t \<Rightarrow> ptr \<Rightarrow> size_t \<Rightarrow> (ptr \<Rightarrow> encoder) \<Rightarrow> encoder" where
  "packed_body E field p count func s =
     (case packed_size field p count func of
        None \<Rightarrow> None
      | Some (False, n) \<Rightarrow> Some (False, s)
      | Some (True, n) \<Rightarrow>
          and_then (\<lambda>s. Some (pb_encode_varint (io E) s n))
            (\<lambda>s. if o_callback s = OCB_NULL then Some (pb_write (io E) s [] n)
                 else array_loop func p (ucast (data_size field)) (unat count) s) s)"

lemma implements_packed_body:
  assumes item: "\<And>p. implements (func p) (item p)" and fixed: "fixed_size_items field item"
  shows "implements (packed_body E field p count func)
    (map_option (map_option delimited) (spec_items item p (ucast (data_size field)) (unat count)))"
proof (cases "\<exists>bs. spec_items item p (ucast (data_size field)) (unat count) = bytes bs")
  case True
  then obtain bs where bs: "spec_items item p (ucast (data_size field)) (unat count) = bytes bs" by blast
  let ?n = "word_of_nat (length bs) :: size_t"
  let ?loop = "array_loop func p (ucast (data_size field)) (unat count)"
  let ?elems = "\<lambda>s. if o_callback s = OCB_NULL then Some (pb_write (io E) s [] ?n) else ?loop s"
  have eq: "packed_body E field p count func = and_then (\<lambda>s. Some (pb_encode_varint (io E) s ?n)) ?elems"
    by (rule ext) (simp add: packed_body_def packed_size_bytes [OF item fixed bs])
  have loop: "implements ?loop (bytes bs)"
    using implements_array_loop [of func item, OF item] bs by metis
  have "implements ?elems (bytes bs)"
    by (rule implements_bytes)
       (auto simp: pb_write_sizing o_count_def intro!: stream_writer_or_count implements_writerD [OF loop])
  then have "implements (packed_body E field p count func) (cat (bytes (varint_buffer ?n)) (bytes bs))"
    unfolding eq by (intro implements_and_then implements_varint)
  then show ?thesis by (simp add: bs delimited_def bytes_def cat_def)
next
  case False
  then have no: "packed_size field p count func \<noteq> Some (True, n)" for n
    by (intro packed_size_never [OF item fixed]) simp
  have "packed_body E field p count func z \<noteq> Some (True, z')" for z z'
    using no by (auto simp: packed_body_def split: option.splits bool.splits)
  moreover have "map_option (map_option delimited)
      (spec_items item p (ucast (data_size field)) (unat count)) \<noteq> bytes bs" for bs
    using False by (auto simp: bytes_def)
  ultimately show ?thesis by (intro implements_never)
qed

lemma implements_array:
  assumes item: "\<And>p. implements (func p) (item p)" and fixed: "fixed_size_items field item"
  shows "implements (encode_array E m field p count func) (spec_array m field p count item)"
proof -
  let ?ptrs = "PB_ATYPE (type field) = PB_ATYPE_POINTER \<and>
    (PB_LTYPE (type field) = PB_LTYPE_STRING \<or> PB_LTYPE (type field) = PB_LTYPE_BYTES)"
  have elem: "implements (and_then (pb_encode_tag_for_field E field)
        (if ?ptrs then func (load64 m p) else func p))
      (cat (spec_tag field) (if ?ptrs then item (load64 m p) else item p))" for p
    by (intro implements_and_then implements_tag_for_field implements_if item)
  have packed: "implements
      (and_then (\<lambda>s. Some (pb_encode_tag (io E) s PB_WT_STRING (tag field))) (packed_body E field p count func))
      (cat (bytes (varint_buffer (tag_value PB_WT_STRING (tag field))))
        (map_option (map_option delimited) (spec_items item p (ucast (data_size field)) (unat count))))"
    by (intro implements_and_then implements_tag implements_packed_body item fixed)
  have eq: "encode_array E m field p count func =
      (if count = 0 then (\<lambda>s. Some (True, s))
       else if PB_ATYPE (type field) \<noteq> PB_ATYPE_POINTER \<and> count > ucast (array_size field)
       then fail_with ''array max size exceeded''
       else if PB_LTYPE (type field) \<le> PB_LTYPE_LAST_PACKABLE
       then and_then (\<lambda>s. Some (pb_encode_tag (io E) s PB_WT_STRING (tag field)))
              (packed_body E field p count func)
       else array_loop (\<lambda>p. and_then (pb_encode_tag_for_field E field)
               (if ?ptrs then func (load64 m p) else func p)) p (ucast (data_size field)) (unat count))"
    by (rule ext) (simp add: encode_array_def packed_body_def [abs_def])
  show ?thesis
    unfolding eq spec_array_def
    by (intro implements_if implements_nothing implements_fail packed implements_array_loop [OF elem])
qed

lemma spec_value_fixed: "fixed_size_items field (spec_value E m sub field)"
  by (simp add: fixed_size_items_def spec_value_def fixed32_bytes_def fixed64_bytes_def)


lemma implements_basic:
  assumes sub: "\<And>fs p. implements (encode fs p) (sub fs p)"
  shows "implements (encode_basic_field E m d encode field p0) (spec_basic E m d sub field p0)"
proof -
  let ?func = "PB_ENCODERS E m encode (PB_LTYPE (type field)) field"
  let ?item = "spec_value E m sub field"
  let ?pSz = "p0 + scast (size_offset field)"
  let ?ptr = "PB_ATYPE (type field) = PB_ATYPE_POINTER"
  let ?p = "if ?ptr then load64 m p0 else p0"
  have item: "implements (?func p) (?item p)" for p
    by (rule implements_value [OF sub])
  have single: "implements (and_then (pb_encode_tag_for_field E field) (?func p)) (cat (spec_tag field) (?item p))" for p
    by (intro implements_and_then implements_tag_for_field item)
  have array: "implements (encode_array E m field p c ?func) (spec_array m field p c ?item)" for p c
    by (intro implements_array item spec_value_fixed)
  have eq: "encode_basic_field E m d encode field p0 =
      (if PB_HTYPE (type field) = PB_HTYPE_REQUIRED
       then if ?p = 0 then fail_with ''missing required field''
            else and_then (pb_encode_tag_for_field E field) (?func ?p)
       else if PB_HTYPE (type field) = PB_HTYPE_OPTIONAL
       then if size_offset field \<noteq> 0
            then if safe_read_bool m ?pSz then and_then (pb_encode_tag_for_field E field) (?func ?p)
                 else (\<lambda>s. Some (True, s))
            else (case pb_check_proto3_default_value E m d field p0 of None \<Rightarrow> (\<lambda>s. None)
                  | Some dflt \<Rightarrow> if (if ?ptr then ?p \<noteq> 0 else \<not> dflt)
                     then and_then (pb_encode_tag_for_field E field) (?func ?p) else (\<lambda>s. Some (True, s)))
       else if PB_HTYPE (type field) = PB_HTYPE_REPEATED
       then encode_array E m field ?p
              (ucast (if size_offset field \<noteq> 0 then load32 m ?pSz else array_size field)) ?func
       else if PB_HTYPE (type field) = PB_HTYPE_ONEOF
       then if size_offset field = 0 then undefined_step
            else if load32 m ?pSz = tag field then and_then (pb_encode_tag_for_field E field) (?func ?p)
                 else (\<lambda>s. Some (True, s))
       else fail_with ''invalid field type'')"
    by (rule ext) (simp add: encode_basic_field_def Let_def split: option.splits)
  show ?thesis
    unfolding eq spec_basic_def Let_def not_not
    by (intro implements_if single array implements_nothing implements_fail implements_undefined)
       (simp add: implements_if [OF single implements_nothing] split: option.splits)
qed

text \<open>The contract of the caller's callbacks, as documented for \<^verbatim>\<open>pb_callback_t\<close>: a callback writes the
  same bytes on the sizing stream as on the real one, and fails if they do not fit.\<close>

definition callbacks_ok :: "pb_env \<Rightarrow> callback_out \<Rightarrow> bool" where
  "callbacks_ok E C \<longleftrightarrow>
     (\<forall>f field a. stream_writer (\<lambda>s. Some (user_encode E f field a s)) (cb_out C f field a)) \<and>
     (\<forall>f x. stream_writer (\<lambda>s. Some (user_ext_encode E f x s)) (ext_out C f x))"

lemma stream_writer_callback:
  assumes "stream_writer (\<lambda>s. Some (f s)) bs"
  shows "stream_writer (\<lambda>s. case f s of (ok, s') \<Rightarrow>
    if \<not> ok then fail_with msg s' else Some (True, s')) bs"
proof (rule stream_writer.intro)
  fix s :: pb_ostream_t assume ready: "ostream_ready s" and "o_room s < length bs"
  then obtain s' where "f s = (False, s')" "o_sub s s'"
    using stream_writer.full [OF assms] by auto
  then show "\<exists>s'. (case f s of (ok, s') \<Rightarrow> if \<not> ok then fail_with msg s' else Some (True, s')) =
      Some (False, s') \<and> o_sub s s'"
    by (auto simp: fail_with_def o_return_error_def)
qed (use stream_writer.sizing [OF assms] stream_writer.fits [OF assms] in simp_all)

lemma implements_callback:
  assumes "callbacks_ok E C"
  shows "implements (encode_callback_field E m field p)
    (bytes (if load64 m p \<noteq> 0 then cb_out C (load64 m p) field (p + 8) else []))"
proof -
  have "stream_writer (encode_callback_field E m field p) (cb_out C (load64 m p) field (p + 8))"
    if "load64 m p \<noteq> 0"
    using stream_writer_callback [of "user_encode E (load64 m p) field (p + 8)"] assms that
    unfolding encode_callback_field_def [abs_def] callbacks_ok_def by simp
  moreover have "encode_callback_field E m field p = (\<lambda>s. Some (True, s))" if "load64 m p = 0"
    by (rule ext) (simp add: encode_callback_field_def that)
  ultimately show ?thesis
    by (simp add: implements_writer)
qed

lemma implements_encode_field:
  assumes "callbacks_ok E C" and "\<And>fs p. implements (encode fs p) (sub fs p)"
  shows "implements (encode_field E m d encode field p) (spec_field E C m d sub field p)"
proof -
  have eq: "encode_field E m d encode field p =
      (if PB_ATYPE (type field) = PB_ATYPE_STATIC \<or> PB_ATYPE (type field) = PB_ATYPE_POINTER
       then encode_basic_field E m d encode field p
       else if PB_ATYPE (type field) = PB_ATYPE_CALLBACK then encode_callback_field E m field p
       else fail_with ''invalid field type'')"
    by (rule ext) (simp add: encode_field_def Let_def)
  show ?thesis
    unfolding eq spec_field_def Let_def
    by (intro implements_if implements_basic implements_callback implements_fail assms)
qed

lemma implements_extensions:
  assumes C: "callbacks_ok E C" and sub: "\<And>fs p. implements (encode fs p) (sub fs p)"
  shows "implements (extension_loop E m d encode n ext) (spec_extensions E C m d sub n ext)"
proof (induction n arbitrary: ext)
  case 0
  have "extension_loop E m d encode 0 ext = (\<lambda>s. None)" by (rule ext) simp
  then show ?case by simp
next
  case (Suc n)
  let ?enc = "load64 m (load64 m ext + 8)"
  let ?field = "fields_at E (load64 m (load64 m ext + 16)) ! 0"
  let ?p = "if PB_ATYPE (type ?field) = PB_ATYPE_POINTER then ext + 8 else load64 m (ext + 8)"
  have user: "implements (\<lambda>s. Some (user_ext_encode E ?enc ext s)) (bytes (ext_out C ?enc ext))"
    using C by (simp add: callbacks_ok_def implements_writer)
  have eq: "extension_loop E m d encode (Suc n) ext =
      (if ext = 0 then (\<lambda>s. Some (True, s))
       else and_then (if ?enc \<noteq> 0 then (\<lambda>s. Some (user_ext_encode E ?enc ext s))
                      else encode_field E m d encode ?field ?p)
              (extension_loop E m d encode n (load64 m (ext + 16))))"
    by (rule ext) (simp add: default_extension_encoder_def [abs_def] Let_def)
  show ?case
    unfolding eq spec_extensions.simps Let_def
    by (intro implements_if implements_and_then implements_nothing user Suc.IH
        implements_encode_field C sub)
qed

lemma implements_encode_one:
  assumes "callbacks_ok E C" and "\<And>fs p. implements (encode fs p) (sub fs p)"
  shows "implements (encode_one E m d encode it) (spec_one E C m d sub it)"
proof -
  have eq: "encode_one E m d encode it =
      (if PB_LTYPE (type (cur it)) = PB_LTYPE_EXTENSION
       then extension_loop E m d encode d (load64 m (pData it))
       else encode_field E m d encode (cur it) (pData it))"
    by (rule ext) (simp add: encode_one_def encode_extension_field_def)
  show ?thesis
    unfolding eq spec_one_def
    by (intro implements_if implements_extensions implements_encode_field assms)
qed

lemma pb_encode_implements:
  assumes "callbacks_ok E C"
  shows "implements (pb_encode E m d fs src) (spec_message E C m d fs src)"
proof (induction d arbitrary: fs src)
  case 0
  then show ?case by simp
next
  case (Suc d)
  have eq: "pb_encode E m (Suc d) fs src =
      (if tag (fs ! 0) = 0 then (\<lambda>s. Some (True, s))
       else fields_loop (encode_one E m d (pb_encode E m d)) (msg_iters fs src))"
    by (rule ext) (simp add: pb_field_iter_begin_def Let_def)
  show ?case
    unfolding eq spec_message.simps
    by (intro implements_if implements_nothing implements_fields_loop implements_encode_one assms Suc.IH)
qed


end
