(* ===== verification/PbReadBack.thy ===== *)
theory PbReadBack
  imports PbDecodeSafe PbEncodeSpec
begin

text \<open>
  Single values through the wire: what the encoder writes for the value of a field, the decoder stores in such a way that
  the encoder writes the same again. \<open>reads f bs st P\<close> says that a decoding step consumes exactly \<open>bs\<close> and then \<open>P\<close> holds.
\<close>

unbundle bit_operations_syntax

section \<open>Memory\<close>

lemma span_unat: "a \<in> span p n \<longleftrightarrow> unat (a - p) < n" if "n \<le> 2 ^ 64"
proof
  assume "a \<in> span p n"
  then obtain i where i: "i < n" "a = p + word_of_nat i" by (auto simp: span_def)
  then show "unat (a - p) < n" using that by (simp add: unat_of_nat_small)
next
  assume "unat (a - p) < n"
  moreover have "a = p + word_of_nat (unat (a - p))" by simp
  ultimately show "a \<in> span p n" unfolding span_def by blast
qed

lemma span_start: "0 < n \<Longrightarrow> p \<in> span p n"
  unfolding span_def by (rule image_eqI [of _ _ 0]) simp_all

lemma span_nth: "i < n \<Longrightarrow> p + word_of_nat i \<in> span p n"
  by (simp add: span_def)

lemma mem_put_nth:
  assumes "length bs < 2 ^ 64" and "i < length bs"
  shows "mem_put m p bs (p + word_of_nat i) = bs ! i"
proof -
  have "unat (word_of_nat i :: ptr) = i" "unat (word_of_nat (length bs) :: ptr) = length bs"
    using assms by (simp_all add: unat_of_nat_small)
  then show ?thesis using assms(2) by (simp add: mem_put_def word_less_nat_alt)
qed

lemma length_mem_bytes [simp]: "length (mem_bytes m p n) = n"
  by (simp add: mem_bytes_def)

lemma mem_bytes_put: "length bs < 2 ^ 64 \<Longrightarrow> mem_bytes (mem_put m p bs) p (length bs) = bs"
  by (rule nth_equalityI) (simp_all add: mem_bytes_def mem_put_nth)

definition agree :: "ptr set \<Rightarrow> memory \<Rightarrow> memory \<Rightarrow> bool" where
  "agree A m m' \<longleftrightarrow> (\<forall>a \<in> A. m' a = m a)"

lemma agree_mono: "agree A m m' \<Longrightarrow> B \<subseteq> A \<Longrightarrow> agree B m m'"
  by (auto simp: agree_def)

lemma agree_refl [simp]: "agree A m m"
  by (simp add: agree_def)

lemma agree_trans: "agree A m m' \<Longrightarrow> agree A m' m'' \<Longrightarrow> agree A m m''"
  by (simp add: agree_def)

lemma agree_sym: "agree A m m' \<Longrightarrow> agree A m' m"
  by (simp add: agree_def)

lemma keeps_agree: "keeps A st st' \<Longrightarrow> B \<inter> A = {} \<Longrightarrow> agree B (mem st) (mem st')"
  by (auto simp: keeps_def agree_def)

lemma mem_bytes_cong: "agree (span p n) m m' \<Longrightarrow> mem_bytes m' p n = mem_bytes m p n"
  by (simp add: agree_def mem_bytes_def span_nth)

lemma load_cong:
  "agree (span p 1) m m' \<Longrightarrow> m' p = m p" "agree (span p 2) m m' \<Longrightarrow> load16 m' p = load16 m p"
  "agree (span p 4) m m' \<Longrightarrow> load32 m' p = load32 m p" "agree (span p 8) m m' \<Longrightarrow> load64 m' p = load64 m p"
proof -
  show "agree (span p 1) m m' \<Longrightarrow> m' p = m p" by (simp add: agree_def span_start)
  show "agree (span p 2) m m' \<Longrightarrow> load16 m' p = load16 m p"
    using span_nth [of 0 2 p] span_nth [of 1 2 p] by (simp add: agree_def load16_def)
qed (simp_all add: load32_def load64_def mem_bytes_cong)

lemma load_store:
  "mem_put m p [b] p = b" "load16 (store16 m p v) p = v" "load32 (store32 m p w) p = w" "load64 (store64 m p x) p = x"
proof -
  show "mem_put m p [b] p = b" using mem_put_nth [of "[b]" 0 m p] by simp
  have "store16 m p v p = ucast v" "store16 m p v (p + 1) = ucast (drop_bit 8 v)"
    using mem_put_nth [of "[ucast v, ucast (drop_bit 8 v)]" 0 m p] mem_put_nth [of "[ucast v, ucast (drop_bit 8 v)]" 1 m p]
    by (simp_all add: store16_def)
  then show "load16 (store16 m p v) p = v"
    unfolding load16_def by (simp only:) (rule bit_eqI, auto simp: bit_simps simp del: push_bit_numeral)
  show "load32 (store32 m p w) p = w" using mem_bytes_put [of "fixed32_bytes w" m p] by (simp add: load32_def store32_def)
  show "load64 (store64 m p x) p = x" using mem_bytes_put [of "fixed64_bytes x" m p] by (simp add: load64_def store64_def)
qed

section \<open>Reading back what was written\<close>

text \<open>\<open>reads f bs st P\<close>: from a stream that has \<open>bs\<close> next, \<open>f\<close> consumes exactly that and leaves a store with \<open>P\<close>;
  \<open>reads_all\<close>: the same for a stream that has nothing else.\<close>

definition reads :: "decoder \<Rightarrow> byte list \<Rightarrow> pb_store \<Rightarrow> (pb_store \<Rightarrow> bool) \<Rightarrow> bool" where
  "reads f bs st P \<longleftrightarrow> (\<forall>s rest. istream_ok s \<longrightarrow> i_avail s = bs @ rest \<longrightarrow>
     (\<exists>st'. f s st = Some (True, i_adv s (length bs), st') \<and> P st'))"

definition reads_all :: "decoder \<Rightarrow> byte list \<Rightarrow> pb_store \<Rightarrow> (pb_store \<Rightarrow> bool) \<Rightarrow> bool" where
  "reads_all f bs st P \<longleftrightarrow> (\<forall>s. istream_ok s \<longrightarrow> i_avail s = bs \<longrightarrow>
     (\<exists>st'. f s st = Some (True, i_adv s (length bs), st') \<and> P st'))"

lemma reads_imp_all: "reads f bs st P \<Longrightarrow> reads_all f bs st P"
  unfolding reads_def reads_all_def by (metis append_Nil2)

lemma readsI:
  "(\<And>s rest. istream_ok s \<Longrightarrow> i_avail s = bs @ rest \<Longrightarrow> f s st = Some (True, i_adv s (length bs), st')) \<Longrightarrow> P st' \<Longrightarrow> reads f bs st P"
  unfolding reads_def by blast

lemma reads_mono: "reads f bs st P \<Longrightarrow> (\<And>st'. P st' \<Longrightarrow> Q st') \<Longrightarrow> reads f bs st Q"
  unfolding reads_def by blast

lemma reads_all_mono: "reads_all f bs st P \<Longrightarrow> (\<And>st'. P st' \<Longrightarrow> Q st') \<Longrightarrow> reads_all f bs st Q"
  unfolding reads_all_def by blast

lemma adv_step:
  "istream_ok s \<Longrightarrow> i_avail s = xs @ rest \<Longrightarrow> istream_ok (i_adv s (length xs)) \<and> i_avail (i_adv s (length xs)) = rest"
  by (simp add: istream_ok_adv)

lemma reads_then:
  assumes "reads f xs st P" and "\<And>st'. P st' \<Longrightarrow> reads g ys st' Q"
  shows "reads (d_then f g) (xs @ ys) st Q"
  unfolding reads_def
proof (intro allI impI)
  fix s rest assume s: "istream_ok s" "i_avail s = (xs @ ys) @ rest"
  then obtain st1 where f: "f s st = Some (True, i_adv s (length xs), st1)" "P st1"
    using assms(1) unfolding reads_def by (metis append.assoc)
  have "istream_ok (i_adv s (length xs))" "i_avail (i_adv s (length xs)) = ys @ rest" using adv_step [of s xs] s by simp_all
  then obtain st2 where "g (i_adv s (length xs)) st1 = Some (True, i_adv (i_adv s (length xs)) (length ys), st2)" "Q st2"
    using assms(2) [OF f(2)] unfolding reads_def by blast
  then show "\<exists>st'. d_then f g s st = Some (True, i_adv s (length (xs @ ys)), st') \<and> Q st'"
    using f(1) by (simp add: d_then_def)
qed

lemma reads_set: "P (st\<lparr>mem := h (mem st)\<rparr>) \<Longrightarrow> reads (d_set h) [] st P"
  by (rule readsI) (simp_all add: d_set_def)

lemma reads_set_then:
  "reads g ys (st\<lparr>mem := h (mem st)\<rparr>) Q \<Longrightarrow> reads (d_then (d_set h) g) ys st Q"
proof -
  assume g: "reads g ys (st\<lparr>mem := h (mem st)\<rparr>) Q"
  have "reads (d_set h) [] st (\<lambda>st'. st' = st\<lparr>mem := h (mem st)\<rparr>)" by (rule reads_set) simp
  from reads_then [OF this, of g ys Q] g show ?thesis by simp
qed

lemma d_then_set: "d_then (d_set h) g s st = g s (st\<lparr>mem := h (mem st)\<rparr>)"
  by (simp add: d_then_def d_set_def)

lemma reads_read:
  assumes "length bs = unat n" and "P (st\<lparr>mem := mem_put (mem st) p bs\<rparr>)"
  shows "reads (d_read E p n) bs st P"
proof (rule readsI)
  fix s rest assume s: "istream_ok s" "i_avail s = bs @ rest"
  then have "pb_read (d_io E) s True n = (True, i_adv s (unat n), bs)"
    using pb_read_ok [OF s(1), of n "d_io E" True] assms(1) by simp
  then show "d_read E p n s st = Some (True, i_adv s (length bs), st\<lparr>mem := mem_put (mem st) p bs\<rparr>)"
    using assms(1) by (simp add: d_read_def)
qed (rule assms(2))

lemma reads_with_size:
  assumes "n < 2 ^ 32" and "reads (f (word_of_nat n)) bs st P"
  shows "reads (with_size E f) (varint_buffer (word_of_nat n) @ bs) st P"
  unfolding reads_def
proof (intro allI impI)
  fix s rest assume s: "istream_ok s" "i_avail s = (varint_buffer (word_of_nat n) @ bs) @ rest"
  have u: "(ucast (word_of_nat n :: uint32) :: uint64) = word_of_nat n"
    using assms(1) by (simp add: word_unat_eq_iff unat_ucast_up unat_of_nat_small)
  have v: "pb_decode_varint32 (d_io E) s = (True, i_adv s (length (varint_buffer (word_of_nat n))), word_of_nat n)"
    using varint32_codec.dec_enc [OF _ s(1), of "word_of_nat n" "bs @ rest" "d_io E"] s(2) unfolding u by simp
  let ?s = "i_adv s (length (varint_buffer (word_of_nat n)))"
  have "istream_ok ?s" "i_avail ?s = bs @ rest" using adv_step [OF s(1), of "varint_buffer (word_of_nat n)"] s(2) by simp_all
  then obtain st' where "f (word_of_nat n) ?s st = Some (True, i_adv ?s (length bs), st')" "P st'"
    using assms(2) unfolding reads_def by blast
  then show "\<exists>st'. with_size E f s st = Some (True, i_adv s (length (varint_buffer (word_of_nat n) @ bs)), st') \<and> P st'"
    using v by (simp add: with_size_def)
qed

lemma make_delimited:
  assumes "istream_ok s" and "i_avail s = delimited bs @ rest" and "length bs < 2 ^ 32"
  obtains s0 where "s0 = i_adv s (length (varint_buffer (word_of_nat (length bs))))" and "istream_ok s0" and "i_avail s0 = bs @ rest"
    and "pb_make_string_substream i s = (True, s0\<lparr>bytes_left := bytes_left s0 - word_of_nat (length bs)\<rparr>, s0\<lparr>bytes_left := word_of_nat (length bs)\<rparr>)"
    and "istream_ok (s0\<lparr>bytes_left := word_of_nat (length bs)\<rparr>)" and "i_avail (s0\<lparr>bytes_left := word_of_nat (length bs)\<rparr>) = bs"
    and "\<And>s1 sub. s1 = s0\<lparr>bytes_left := bytes_left s0 - word_of_nat (length bs)\<rparr> \<Longrightarrow> sub = s0\<lparr>bytes_left := word_of_nat (length bs)\<rparr> \<Longrightarrow>
      \<exists>sub2. pb_close_string_substream i s1 (i_adv sub (length bs)) = (True, i_adv s (length (delimited bs)), sub2)"
proof -
  let ?n = "word_of_nat (length bs) :: size_t"
  define s0 where "s0 = i_adv s (length (varint_buffer ?n))"
  have u: "(ucast (word_of_nat (length bs) :: uint32) :: size_t) = ?n"
    using assms(3) by (simp add: word_unat_eq_iff unat_ucast_up unat_of_nat_small)
  have un: "unat ?n = length bs" using assms(3) by (simp add: unat_of_nat_small)
  have av: "i_avail s = varint_buffer ?n @ bs @ rest" using assms(2) by (simp add: delimited_def)
  then have s0: "istream_ok s0" "i_avail s0 = bs @ rest" using adv_step [OF assms(1)] by (simp_all add: s0_def)
  have dec: "pb_decode_varint32 i s = (True, s0, word_of_nat (length bs))"
    using varint32_codec.dec_enc [OF _ assms(1), of "word_of_nat (length bs)" "bs @ rest" i] av unfolding u s0_def by simp
  have le: "length bs \<le> unat (bytes_left s0)" using length_i_avail [OF s0(1)] s0(2) by simp
  then have mk: "pb_make_string_substream i s =
      (True, s0\<lparr>bytes_left := bytes_left s0 - ?n\<rparr>, s0\<lparr>bytes_left := ?n\<rparr>)"
    using dec un by (simp add: pb_make_string_substream_def u word_less_nat_alt)
  let ?sub = "s0\<lparr>bytes_left := ?n\<rparr>"
  have sub: "istream_ok ?sub" using s0(1) le un by (simp add: istream_ok_def)
  have "take (length bs) (i_avail s0) = bs" using s0(2) by simp
  then have asub: "i_avail ?sub = bs" using le un by (simp add: i_avail_def min_def)
  have cl: "\<exists>sub2. pb_close_string_substream i (s0\<lparr>bytes_left := bytes_left s0 - ?n\<rparr>) (i_adv ?sub (length bs)) =
      (True, i_adv s (length (delimited bs)), sub2)"
  proof -
    have "i_sub ?sub (i_adv ?sub (length bs))" using asub by (intro i_sub_adv) simp
    then have "bytes_left (i_adv ?sub (length bs)) = 0" by (simp add: i_adv_def)
    moreover have "i_adv s (length (delimited bs)) = i_adv s0 (length bs)" by (simp add: s0_def delimited_def)
    ultimately show ?thesis by (simp add: pb_close_string_substream_def i_adv_def)
  qed
  show thesis
    by (rule that [of s0]) (use s0 mk sub asub cl in \<open>auto simp: s0_def\<close>)
qed

lemma reads_substream:
  assumes "reads_all f bs st P" and "length bs < 2 ^ 32"
  shows "reads (in_substream E f) (delimited bs) st P"
  unfolding reads_def
proof (intro allI impI)
  fix s rest assume s: "istream_ok s" "i_avail s = delimited bs @ rest"
  obtain s0 where s0: "pb_make_string_substream (d_io E) s =
      (True, s0\<lparr>bytes_left := bytes_left s0 - word_of_nat (length bs)\<rparr>, s0\<lparr>bytes_left := word_of_nat (length bs)\<rparr>)"
    "istream_ok (s0\<lparr>bytes_left := word_of_nat (length bs)\<rparr>)" "i_avail (s0\<lparr>bytes_left := word_of_nat (length bs)\<rparr>) = bs"
    "\<exists>sub2. pb_close_string_substream (d_io E) (s0\<lparr>bytes_left := bytes_left s0 - word_of_nat (length bs)\<rparr>)
        (i_adv (s0\<lparr>bytes_left := word_of_nat (length bs)\<rparr>) (length bs)) = (True, i_adv s (length (delimited bs)), sub2)"
    using make_delimited [OF s assms(2), where i = "d_io E"] by metis
  obtain st' where "f (s0\<lparr>bytes_left := word_of_nat (length bs)\<rparr>) st =
      Some (True, i_adv (s0\<lparr>bytes_left := word_of_nat (length bs)\<rparr>) (length bs), st')" "P st'"
    using assms(1) s0(2,3) unfolding reads_all_def by blast
  then show "\<exists>st'. in_substream E f s st = Some (True, i_adv s (length (delimited bs)), st') \<and> P st'"
    using s0(1,4) by (auto simp: in_substream_def)
qed

section \<open>Values\<close>

lemma strnlen_step: "strnlen_loop m p n max_n = (if n < max_n \<and> m p \<noteq> 0 then strnlen_loop m (p + 1) (n + 1) max_n else n)"
  by (rule strnlen_loop.simps)

lemma strnlen_exact:
  assumes "\<And>i. i < k \<Longrightarrow> m (p + word_of_nat i) \<noteq> 0" and "unat n + k < unat max_n \<Longrightarrow> m (p + word_of_nat k) = 0" and "unat n + k \<le> unat max_n"
  shows "strnlen_loop m p n max_n = n + word_of_nat k"
  using assms
proof (induction k arbitrary: p n)
  case 0
  then show ?case by (subst strnlen_step) (auto simp: word_less_nat_alt)
next
  case (Suc k)
  have lt: "n < max_n" using Suc.prems(3) by (simp add: word_less_nat_alt)
  then have n1: "unat (n + 1) = unat n + 1"
    using unat_lt [of max_n] by (subst unat_add_no_wrap) (simp_all add: word_less_nat_alt)
  have "m p \<noteq> 0" using Suc.prems(1) [of 0] by simp
  moreover have "strnlen_loop m (p + 1) (n + 1) max_n = n + 1 + word_of_nat k"
  proof (rule Suc.IH)
    show "m (p + 1 + word_of_nat i) \<noteq> 0" if "i < k" for i using Suc.prems(1) [of "Suc i"] that by (simp add: add.assoc)
    show "m (p + 1 + word_of_nat k) = 0" if "unat (n + 1) + k < unat max_n" using Suc.prems(2) that n1 by (simp add: add.assoc)
    show "unat (n + 1) + k \<le> unat max_n" using Suc.prems(3) n1 by simp
  qed
  ultimately show ?case using lt by (subst strnlen_step) (simp add: add.assoc)
qed

lemma strnlen_nonzero:
  "\<exists>k. strnlen_loop m p n max_n = n + word_of_nat k \<and> (\<forall>i < k. m (p + word_of_nat i) \<noteq> 0) \<and> unat n + k \<le> max (unat n) (unat max_n) \<and>
     (unat n + k < unat max_n \<longrightarrow> m (p + word_of_nat k) = 0)"
proof (induction "unat max_n - unat n" arbitrary: p n)
  case 0
  then show ?case by (subst strnlen_step) (auto simp: word_less_nat_alt intro: exI [of _ 0])
next
  case (Suc d)
  show ?case
  proof (cases "n < max_n \<and> m p \<noteq> 0")
    case True
    then have n1: "unat (n + 1) = unat n + 1"
      using unat_lt [of max_n] by (subst unat_add_no_wrap) (simp_all add: word_less_nat_alt)
    have d: "d = unat max_n - unat (n + 1)" using Suc(2) n1 by simp
    obtain k where k: "strnlen_loop m (p + 1) (n + 1) max_n = n + 1 + word_of_nat k" "\<forall>i < k. m (p + 1 + word_of_nat i) \<noteq> 0"
      "unat (n + 1) + k \<le> max (unat (n + 1)) (unat max_n)" "unat (n + 1) + k < unat max_n \<longrightarrow> m (p + 1 + word_of_nat k) = 0"
      using Suc(1) [OF d, of "p + 1"] by blast
    have "\<forall>i < Suc k. m (p + word_of_nat i) \<noteq> 0"
    proof (intro allI impI)
      fix i assume "i < Suc k"
      then show "m (p + word_of_nat i) \<noteq> 0" using True k(2) by (cases i) (auto simp: add.assoc)
    qed
    then show ?thesis using True k n1 Suc(2) by (subst strnlen_step) (auto simp: add.assoc intro!: exI [of _ "Suc k"])
  next
    case False
    then show ?thesis by (subst strnlen_step) (auto simp: word_less_nat_alt intro!: exI [of _ 0])
  qed
qed

lemma cstring_bytes:
  assumes "PB_ATYPE (type f) = PB_ATYPE_STATIC"
  shows "0 \<notin> set (cstring m f p)" and "length (cstring m f p) \<le> unat (data_size f)"
proof -
  obtain k where k: "strnlen_loop m p 0 (ucast (data_size f)) = word_of_nat k" "\<forall>i < k. m (p + word_of_nat i) \<noteq> 0" "k \<le> unat (data_size f)"
    using strnlen_nonzero [of m p 0 "ucast (data_size f)"] by (auto simp: ucast_size)
  have "unat (word_of_nat k :: size_t) = k" using k(3) unat_lt [of "data_size f"] by (intro unat_of_nat_small) simp
  then have "cstring m f p = (if p = 0 then [] else mem_bytes m p k)" using assms k(1) by (simp add: cstring_def mem_bytes_def)
  then show "0 \<notin> set (cstring m f p)" "length (cstring m f p) \<le> unat (data_size f)"
    using k(2,3) by (auto simp: mem_bytes_def)
qed

lemma cstring_put:
  assumes "PB_ATYPE (type f) = PB_ATYPE_STATIC" and "0 \<notin> set bs" and "length bs < unat (data_size f)" and "q \<noteq> 0"
  shows "cstring (mem_put (mem_put m q bs) (q + word_of_nat (length bs)) [0]) f q = bs"
proof -
  let ?m = "mem_put (mem_put m q bs) (q + word_of_nat (length bs)) [0]" and ?n = "length bs"
  have n: "?n < 2 ^ 32" using assms(3) unat_lt [of "data_size f"] by simp
  have at: "?m (q + word_of_nat i) = bs ! i" if "i < ?n" for i
  proof -
    have "(word_of_nat i :: ptr) \<noteq> word_of_nat ?n" using that n by (simp add: word_unat_eq_iff unat_of_nat_small)
    then have "q + word_of_nat i \<notin> span (q + word_of_nat ?n) (length [0 :: byte])" by (auto simp: span_def)
    then have "?m (q + word_of_nat i) = mem_put m q bs (q + word_of_nat i)" by (rule mem_put_outside)
    then show ?thesis using mem_put_nth [of bs i m q] that n by simp
  qed
  have "?m (q + word_of_nat ?n) = 0" by (rule load_store(1))
  then have "strnlen_loop ?m q 0 (ucast (data_size f)) = 0 + word_of_nat ?n"
  proof (intro strnlen_exact)
    show "?m (q + word_of_nat i) \<noteq> 0" if "i < ?n" for i using at [OF that] assms(2) that nth_mem by fastforce
  qed (use assms(3) in \<open>simp_all add: ucast_size\<close>)
  then have "cstring ?m f q = mem_bytes ?m q ?n" using assms(1,4) n by (simp add: cstring_def unat_of_nat_small)
  then show ?thesis using at by (auto simp: mem_bytes_def intro: nth_equalityI)
qed

lemma cast_casts:
  "(ucast (scast (a :: 8 word) :: 64 word) :: 8 word) = a" "(ucast (scast (b :: 16 word) :: 64 word) :: 16 word) = b"
  "(ucast (scast (c :: 32 word) :: 64 word) :: 32 word) = c" "(ucast (ucast (a :: 8 word) :: 64 word) :: 8 word) = a"
  "(ucast (ucast (b :: 16 word) :: 64 word) :: 16 word) = b" "(ucast (ucast (c :: 32 word) :: 64 word) :: 32 word) = c"
  "(scast (ucast (scast (a :: 8 word) :: 64 word) :: 32 word) :: 64 word) = scast a"
  "(scast (ucast (scast (b :: 16 word) :: 64 word) :: 32 word) :: 64 word) = scast b"
proof -
  have down: "(ucast :: 64 word \<Rightarrow> 8 word) = scast" "(ucast :: 64 word \<Rightarrow> 16 word) = scast" "(ucast :: 64 word \<Rightarrow> 32 word) = scast"
    by (simp_all add: down_cast_same is_down)
  show "(ucast (scast (a :: 8 word) :: 64 word) :: 8 word) = a" "(ucast (scast (b :: 16 word) :: 64 word) :: 16 word) = b"
    "(ucast (scast (c :: 32 word) :: 64 word) :: 32 word) = c"
    by (simp_all only: down) (simp_all add: scast_up_scast_id is_up)
  show "(ucast (ucast (a :: 8 word) :: 64 word) :: 8 word) = a" "(ucast (ucast (b :: 16 word) :: 64 word) :: 16 word) = b"
    "(ucast (ucast (c :: 32 word) :: 64 word) :: 32 word) = c"
    by (simp_all add: ucast_up_ucast_id is_up)
  show "(scast (ucast (scast (a :: 8 word) :: 64 word) :: 32 word) :: 64 word) = scast a"
    "(scast (ucast (scast (b :: 16 word) :: 64 word) :: 32 word) :: 64 word) = scast b"
    by (rule bit_word_eqI; auto simp: bit_simps min_def)+
qed

lemma signed_back:
  assumes "read_signed m f p = Some x"
  shows "\<exists>m'. store_int mm (data_size f) q x = Some m' \<and> read_signed m' f q = Some x" and "clamp_signed (data_size f) x = x"
    and "(if data_size f = 8 then x else scast (ucast x :: 32 word)) = x"
  using assms by (auto simp: read_signed_def store_int_def clamp_signed_def load_store cast_casts split: if_splits)

lemma unsigned_back:
  assumes "read_unsigned m f p = Some x"
  shows "\<exists>m'. store_int mm (data_size f) q x = Some m' \<and> read_unsigned m' f q = Some x" and "clamp_unsigned (data_size f) x = x"
  using assms by (auto simp: read_unsigned_def store_int_def clamp_unsigned_def load_store cast_casts split: if_splits)

text \<open>A codec of the wire format whose value is stored.\<close>

lemma reads_codec:
  assumes "\<And>s rest. istream_ok s \<Longrightarrow> i_avail s = bs @ rest \<Longrightarrow> rd s = (True, i_adv s (length bs), v)"
    and "\<And>s. f s st = (case rd s of (False, s', x) \<Rightarrow> Some (False, s', st) | (True, s', x) \<Rightarrow> g x s' st)"
    and "\<And>s. g v s st = Some (True, s, st')" and "P st'"
  shows "reads f bs st P"
proof (rule readsI)
  fix s rest assume s: "istream_ok s" "i_avail s = bs @ rest"
  show "f s st = Some (True, i_adv s (length bs), st')" by (simp add: assms(1) [OF s] assms(2,3))
qed (rule assms(4))

lemma reads_put_clamped:
  assumes "store_int (mem st) (data_size f) q x = Some m'" and "clamp (data_size f) x = x"
  shows "put_clamped clamp f q x s st = Some (True, s, st\<lparr>mem := m'\<rparr>)"
  using assms by (simp add: put_clamped_def)

text \<open>One value of a field that is not a message, decoded from its encoding: it has the same encoding again.\<close>

definition value_ok :: "memory \<Rightarrow> pb_field_t \<Rightarrow> ptr \<Rightarrow> bool" where
  "value_ok m f p \<longleftrightarrow> PB_ATYPE (type f) = PB_ATYPE_STATIC \<and> 0 < data_size f \<and>
     (PB_LTYPE (type f) = PB_LTYPE_BYTES \<longrightarrow> 4 \<le> data_size f) \<and>
     (PB_LTYPE (type f) = PB_LTYPE_STRING \<longrightarrow> length (cstring m f p) < unat (data_size f))"

abbreviation (input) value_again where
  "value_again EE sub f q v \<equiv> (\<lambda>st. spec_value EE (mem st) (sub st) f q = bytes v)"

lemma bytes_Some: "Some (map_option g y) = bytes v \<longleftrightarrow> (\<exists>x. y = Some x \<and> v = g x)"
  by (cases y) (auto simp: bytes_def)

lemma reads_integers:
  assumes "spec_value EE m subm f p = bytes v"
  shows "PB_LTYPE (type f) = PB_LTYPE_VARINT \<Longrightarrow> reads (pb_dec_varint E f q) v st (value_again EE sub f q v)"
    and "PB_LTYPE (type f) = PB_LTYPE_UVARINT \<Longrightarrow> reads (pb_dec_uvarint E f q) v st (value_again EE sub f q v)"
    and "PB_LTYPE (type f) = PB_LTYPE_SVARINT \<Longrightarrow> reads (pb_dec_svarint E f q) v st (value_again EE sub f q v)"
proof -
  show "reads (pb_dec_varint E f q) v st (value_again EE sub f q v)" if l: "PB_LTYPE (type f) = PB_LTYPE_VARINT"
  proof -
    obtain x where x: "read_signed m f p = Some x" "v = varint_buffer x"
      using assms l by (auto simp: spec_value_def bytes_Some)
    obtain m' where m': "store_int (mem st) (data_size f) q x = Some m'" "read_signed m' f q = Some x"
      using signed_back(1) [OF x(1)] by blast
    show ?thesis
    proof (rule reads_codec [where rd = "pb_decode_varint (d_io E)"])
      show "pb_dec_varint E f q s st = (case pb_decode_varint (d_io E) s of (False, s', x) \<Rightarrow> Some (False, s', st)
          | (True, s', x) \<Rightarrow> put_clamped clamp_signed f q (if data_size f = 8 then x else scast (ucast x :: 32 word)) s' st)" for s
        by (simp add: pb_dec_varint_def)
      show "put_clamped clamp_signed f q (if data_size f = 8 then x else scast (ucast x :: 32 word)) s st =
          Some (True, s, st\<lparr>mem := m'\<rparr>)" for s
        unfolding signed_back(3) [OF x(1)] by (intro reads_put_clamped m'(1) signed_back(2) [OF x(1)])
      show "spec_value EE (mem (st\<lparr>mem := m'\<rparr>)) (sub (st\<lparr>mem := m'\<rparr>)) f q = bytes v" using m'(2) x(2) l by (simp add: spec_value_def bytes_def)
    qed (simp add: x(2) varint_codec.dec_enc)
  qed
  show "reads (pb_dec_uvarint E f q) v st (value_again EE sub f q v)" if l: "PB_LTYPE (type f) = PB_LTYPE_UVARINT"
  proof -
    obtain x where x: "read_unsigned m f p = Some x" "v = varint_buffer x"
      using assms l by (auto simp: spec_value_def bytes_Some)
    obtain m' where m': "store_int (mem st) (data_size f) q x = Some m'" "read_unsigned m' f q = Some x"
      using unsigned_back(1) [OF x(1)] by blast
    show ?thesis
    proof (rule reads_codec [where rd = "pb_decode_varint (d_io E)"])
      show "pb_dec_uvarint E f q s st = (case pb_decode_varint (d_io E) s of (False, s', x) \<Rightarrow> Some (False, s', st)
          | (True, s', x) \<Rightarrow> put_clamped clamp_unsigned f q x s' st)" for s
        by (simp add: pb_dec_uvarint_def)
      show "put_clamped clamp_unsigned f q x s st = Some (True, s, st\<lparr>mem := m'\<rparr>)" for s
        by (intro reads_put_clamped m'(1) unsigned_back(2) [OF x(1)])
      show "spec_value EE (mem (st\<lparr>mem := m'\<rparr>)) (sub (st\<lparr>mem := m'\<rparr>)) f q = bytes v" using m'(2) x(2) l by (simp add: spec_value_def bytes_def)
    qed (simp add: x(2) varint_codec.dec_enc)
  qed
  show "reads (pb_dec_svarint E f q) v st (value_again EE sub f q v)" if l: "PB_LTYPE (type f) = PB_LTYPE_SVARINT"
  proof -
    obtain x where x: "read_signed m f p = Some x" "v = varint_buffer (zigzag x)"
      using assms l by (auto simp: spec_value_def bytes_Some)
    obtain m' where m': "store_int (mem st) (data_size f) q x = Some m'" "read_signed m' f q = Some x"
      using signed_back(1) [OF x(1)] by blast
    show ?thesis
    proof (rule reads_codec [where rd = "pb_decode_svarint (d_io E)"])
      show "pb_dec_svarint E f q s st = (case pb_decode_svarint (d_io E) s of (False, s', x) \<Rightarrow> Some (False, s', st)
          | (True, s', x) \<Rightarrow> put_clamped clamp_signed f q x s' st)" for s
        by (simp add: pb_dec_svarint_def)
      show "put_clamped clamp_signed f q x s st = Some (True, s, st\<lparr>mem := m'\<rparr>)" for s
        by (intro reads_put_clamped m'(1) signed_back(2) [OF x(1)])
      show "spec_value EE (mem (st\<lparr>mem := m'\<rparr>)) (sub (st\<lparr>mem := m'\<rparr>)) f q = bytes v" using m'(2) x(2) l by (simp add: spec_value_def bytes_def)
    qed (simp add: x(2) svarint_codec.dec_enc)
  qed
qed

lemma reads_fixed:
  assumes "spec_value EE m subm f p = bytes v"
  shows "PB_LTYPE (type f) = PB_LTYPE_BOOL \<Longrightarrow> reads (d_bool E q) v st (value_again EE sub f q v)"
    and "PB_LTYPE (type f) = PB_LTYPE_FIXED32 \<Longrightarrow> reads (pb_dec_fixed32 E q) v st (value_again EE sub f q v)"
    and "PB_LTYPE (type f) = PB_LTYPE_FIXED64 \<Longrightarrow> reads (pb_dec_fixed64 E q) v st (value_again EE sub f q v)"
proof -
  show "reads (d_bool E q) v st (value_again EE sub f q v)" if l: "PB_LTYPE (type f) = PB_LTYPE_BOOL"
  proof (rule reads_codec [where rd = "pb_dec_bool (d_io E)" and v = "safe_read_bool m p" and
        g = "\<lambda>x s st. Some (True, s, st\<lparr>mem := store_bool (mem st) q x\<rparr>)" and st' = "st\<lparr>mem := store_bool (mem st) q (safe_read_bool m p)\<rparr>"])
    have v: "v = varint_buffer (if safe_read_bool m p then 1 else 0)" using assms l by (simp add: spec_value_def)
    show "pb_dec_bool (d_io E) s = (True, i_adv s (length v), safe_read_bool m p)" if "istream_ok s" "i_avail s = v @ rest" for s rest
      using bool_codec.dec_enc [where v = "safe_read_bool m p", OF _ that(1)] that(2) unfolding v by simp
    have "safe_read_bool (store_bool (mem st) q b) q = b" for b
      using load_store(1) [of "mem st" q "if b then 1 else 0"] by (simp add: safe_read_bool_def store_bool_def)
    then show "value_again EE sub f q v (st\<lparr>mem := store_bool (mem st) q (safe_read_bool m p)\<rparr>)"
      using l v by (simp add: spec_value_def)
  qed (simp_all add: d_bool_def split: prod.splits bool.splits)
  show "reads (pb_dec_fixed32 E q) v st (value_again EE sub f q v)" if l: "PB_LTYPE (type f) = PB_LTYPE_FIXED32"
  proof (rule reads_codec [where rd = "pb_decode_fixed32 (d_io E)" and v = "load32 m p" and
        g = "\<lambda>x s st. Some (True, s, st\<lparr>mem := store32 (mem st) q x\<rparr>)" and st' = "st\<lparr>mem := store32 (mem st) q (load32 m p)\<rparr>"])
    have v: "v = fixed32_bytes (load32 m p)" using assms l by (simp add: spec_value_def)
    show "pb_decode_fixed32 (d_io E) s = (True, i_adv s (length v), load32 m p)" if "istream_ok s" "i_avail s = v @ rest" for s rest
      using fixed32_codec.dec_enc [where v = "load32 m p", OF _ that(1)] that(2) unfolding v by simp
    show "value_again EE sub f q v (st\<lparr>mem := store32 (mem st) q (load32 m p)\<rparr>)" using l v by (simp add: spec_value_def load_store)
  qed (simp_all add: pb_dec_fixed32_def split: prod.splits bool.splits)
  show "reads (pb_dec_fixed64 E q) v st (value_again EE sub f q v)" if l: "PB_LTYPE (type f) = PB_LTYPE_FIXED64"
  proof (rule reads_codec [where rd = "pb_decode_fixed64 (d_io E)" and v = "load64 m p" and
        g = "\<lambda>x s st. Some (True, s, st\<lparr>mem := store64 (mem st) q x\<rparr>)" and st' = "st\<lparr>mem := store64 (mem st) q (load64 m p)\<rparr>"])
    have v: "v = fixed64_bytes (load64 m p)" using assms l by (simp add: spec_value_def)
    show "pb_decode_fixed64 (d_io E) s = (True, i_adv s (length v), load64 m p)" if "istream_ok s" "i_avail s = v @ rest" for s rest
      using fixed64_codec.dec_enc [where v = "load64 m p", OF _ that(1)] that(2) unfolding v by simp
    show "value_again EE sub f q v (st\<lparr>mem := store64 (mem st) q (load64 m p)\<rparr>)" using l v by (simp add: spec_value_def load_store)
  qed (simp_all add: pb_dec_fixed64_def split: prod.splits bool.splits)
qed

lemma reads_strings:
  assumes "spec_value EE m subm f p = bytes v" and "value_ok m f p" and "q \<noteq> 0"
  shows "PB_LTYPE (type f) = PB_LTYPE_BYTES \<Longrightarrow> reads (pb_dec_bytes E f q) v st (value_again EE sub f q v)"
    and "PB_LTYPE (type f) = PB_LTYPE_STRING \<Longrightarrow> reads (pb_dec_string E f q) v st (value_again EE sub f q v)"
    and "PB_LTYPE (type f) = PB_LTYPE_FIXED_LENGTH_BYTES \<Longrightarrow> reads (pb_dec_fixed_length_bytes E f q) v st (value_again EE sub f q v)"
proof -
  have at: "PB_ATYPE (type f) = PB_ATYPE_STATIC" using assms(2) by (simp add: value_ok_def)
  have ds: "unat (data_size f) < 2 ^ 32" using unat_lt [of "data_size f"] by simp
  show "reads (pb_dec_bytes E f q) v st (value_again EE sub f q v)" if l: "PB_LTYPE (type f) = PB_LTYPE_BYTES"
  proof -
    have ds4: "4 \<le> unat (data_size f)" using assms(2) l by (simp add: value_ok_def word_le_nat_alt)
    then have u4: "unat (ucast (data_size f) - 4 :: size_t) = unat (data_size f) - 4"
      using unat_sub_le [of 4 "ucast (data_size f) :: size_t"] by (simp add: word_le_nat_alt ucast_size)
    define bs where "bs = (if p = 0 then [] else mem_bytes m (p + 4) (unat (load32 m p)))"
    have v: "v = delimited bs" and n: "length bs \<le> unat (data_size f) - 4"
      using assms(1) l at u4 by (auto simp: spec_value_def bs_def word_less_nat_alt ucast_size split: if_splits)
    have n32: "length bs < 2 ^ 32" and nd: "length bs + 4 \<le> unat (data_size f)" using n ds ds4 by simp_all
    let ?n = "word_of_nat (length bs) :: uint32"
    have un: "unat ?n = length bs" using n32 by (simp add: unat_of_nat_small)
    have al: "unat (ucast ?n + 4 :: size_t) = length bs + 4" using n32 un by (simp add: unat_word_ariths ucast_size)
    have big: "\<not> ?n > PB_SIZE_MAX" using unat_lt [of ?n] by (simp add: word_less_nat_alt not_less)
    have body: "(if ?n > PB_SIZE_MAX then d_fail ''bytes overflow''
       else let alloc_sz = ucast ?n + 4 :: size_t in
            if ucast ?n > alloc_sz then d_fail ''size too large''
            else with_storage E ''bytes overflow'' f ?n alloc_sz q (read_bytes E ?n)) = read_bytes E ?n q"
      using big al nd un at by (simp add: Let_def with_storage_def word_less_nat_alt ucast_size)
    define m1 where "m1 = store32 (mem st) q ?n"
    define m2 where "m2 = mem_put m1 (q + 4) bs"
    have "agree (span q 4) m1 m2"
      unfolding agree_def m2_def
    proof (intro ballI mem_put_outside notI)
      fix a assume "a \<in> span q 4" "a \<in> span (q + 4) (length bs)"
      then obtain i j where ij: "i < 4" "j < length bs" "a = q + word_of_nat i" "a = q + 4 + word_of_nat j" by (auto simp: span_def)
      then have "(word_of_nat i :: ptr) = word_of_nat (4 + j)" by (simp add: add.assoc)
      then have "i = 4 + j" using ij n32 by (simp add: word_unat_eq_iff unat_of_nat_small del: of_nat_add)
      then show False using ij by simp
    qed
    then have "load32 m2 q = ?n" using load_cong(3) load_store(3) by (simp add: m1_def)
    moreover have "mem_bytes m2 (q + 4) (length bs) = bs" unfolding m2_def using n32 by (intro mem_bytes_put) simp
    ultimately have again: "spec_value EE m2 (sub (st\<lparr>mem := m2\<rparr>)) f q = bytes v"
      using l at assms(3) v nd un u4 by (simp add: spec_value_def word_less_nat_alt ucast_size)
    have "reads (read_bytes E ?n q) bs st (value_again EE sub f q v)"
      unfolding read_bytes_def
    proof (intro reads_set_then reads_read)
      show "length bs = unat (ucast ?n :: size_t)" using un by (simp add: ucast_size)
      show "value_again EE sub f q v (st\<lparr>mem := store32 (mem st) q ?n\<rparr>\<lparr>mem := mem_put (mem (st\<lparr>mem := store32 (mem st) q ?n\<rparr>)) (q + 4) bs\<rparr>)"
        using again by (simp add: m1_def m2_def)
    qed
    then show ?thesis unfolding v delimited_def pb_dec_bytes_def
      by (intro reads_with_size n32) (simp only: body v [symmetric] delimited_def [symmetric])
  qed
  show "reads (pb_dec_string E f q) v st (value_again EE sub f q v)" if l: "PB_LTYPE (type f) = PB_LTYPE_STRING"
  proof -
    define bs where "bs = cstring m f p"
    have v: "v = delimited bs" using assms(1) l by (simp add: spec_value_def bs_def)
    have n: "length bs < unat (data_size f)" using assms(2) l by (simp add: value_ok_def bs_def)
    have z: "0 \<notin> set bs" using cstring_bytes(1) [OF at] by (simp add: bs_def)
    have n32: "length bs < 2 ^ 32" using n ds by simp
    let ?n = "word_of_nat (length bs) :: uint32"
    have un: "unat ?n = length bs" using n32 by (simp add: unat_of_nat_small)
    have u1: "unat (?n + 1) = length bs + 1" using n ds un by (subst unat_add_no_wrap) simp_all
    have un64: "(ucast ?n :: ptr) = word_of_nat (length bs)" using n32 by (simp add: word_unat_eq_iff ucast_size unat_of_nat_small)
    have body: "(let alloc_sz = ucast (?n + 1 :: uint32) :: size_t in
       if alloc_sz < ucast ?n then d_fail ''size too large''
       else with_storage E ''string overflow'' f ?n alloc_sz q (read_string E ?n)) = read_string E ?n q"
      using u1 un n at by (simp add: Let_def with_storage_def word_less_nat_alt ucast_size)
    have "reads (read_string E ?n q) bs st (value_again EE sub f q v)"
      unfolding reads_def
    proof (intro allI impI)
      fix s rest assume s: "istream_ok s" "i_avail s = bs @ rest"
      have "reads (d_read E q (ucast ?n)) bs st (\<lambda>st'. st' = st\<lparr>mem := mem_put (mem st) q bs\<rparr>)"
        using un by (intro reads_read) (simp_all add: ucast_size)
      then have "d_read E q (ucast ?n) s st = Some (True, i_adv s (length bs), st\<lparr>mem := mem_put (mem st) q bs\<rparr>)"
        using s unfolding reads_def by blast
      then have "read_string E ?n q s st = Some (True, i_adv s (length bs),
          st\<lparr>mem := mem_put (mem_put (mem st) q bs) (q + word_of_nat (length bs)) [0]\<rparr>)" by (simp add: read_string_def un64)
      moreover have "spec_value EE (mem_put (mem_put (mem st) q bs) (q + word_of_nat (length bs)) [0]) x f q = bytes v" for x
        using l v cstring_put [OF at z n assms(3)] by (simp add: spec_value_def)
      ultimately show "\<exists>st'. read_string E ?n q s st = Some (True, i_adv s (length bs), st') \<and> value_again EE sub f q v st'" by simp
    qed
    then show ?thesis unfolding v delimited_def pb_dec_string_def
      by (intro reads_with_size n32) (simp only: body v [symmetric] delimited_def [symmetric])
  qed
  show "reads (pb_dec_fixed_length_bytes E f q) v st (value_again EE sub f q v)" if l: "PB_LTYPE (type f) = PB_LTYPE_FIXED_LENGTH_BYTES"
  proof -
    define bs where "bs = mem_bytes m p (unat (data_size f))"
    have v: "v = delimited bs" and n: "length bs = unat (data_size f)" using assms(1) l by (simp_all add: spec_value_def bs_def)
    have n32: "length bs < 2 ^ 32" using n ds by simp
    have w: "(word_of_nat (length bs) :: uint32) = data_size f" using n by simp
    have pos: "data_size f \<noteq> 0" using assms(2) by (auto simp: value_ok_def)
    have big: "\<not> data_size f > PB_SIZE_MAX" using unat_lt [of "data_size f"] by (simp add: word_less_nat_alt not_less)
    have "mem_bytes (mem_put (mem st) q bs) q (unat (data_size f)) = bs" using mem_bytes_put [of bs "mem st" q] n n32 by simp
    then have "reads (d_read E q (ucast (data_size f))) bs st (value_again EE sub f q v)"
      using l v n by (intro reads_read) (simp_all add: spec_value_def ucast_size)
    then show ?thesis unfolding v delimited_def pb_dec_fixed_length_bytes_def
      by (intro reads_with_size n32) (use big pos w v in \<open>simp add: delimited_def\<close>)
  qed
qed

end
