(* ===== verification/PbLayout.thy ===== *)
theory PbLayout
  imports PbReadBack
begin

text \<open>
  Message types whose fields lie apart from each other (\<open>rt_layout\<close>): the encoding of a message depends on the memory of its
  fields only, so does whether its fields are unset, and the default values of the decoder unset all of them.
\<close>

unbundle bit_operations_syntax

section \<open>Layouts\<close>

text \<open>The places of a field: its items, and the count or flag that goes with them.\<close>

definition size_room :: "pb_field_t \<Rightarrow> nat" where
  "size_room f = (if PB_HTYPE (type f) = PB_HTYPE_REPEATED then 4
     else if PB_HTYPE (type f) = PB_HTYPE_OPTIONAL \<and> size_offset f \<noteq> 0 then 1 else 0)"

definition data_room :: "pb_field_t \<Rightarrow> nat" where
  "data_room f = unat (data_size f) * unat (item_count f)"

definition region :: "pb_field_iter_t \<Rightarrow> ptr set" where
  "region it = span (pData it) (data_room (cur it)) \<union> span (pSize it) (size_room (cur it))"

text \<open>A static field as the generator makes them: required, repeated with a count, or optional. Without a flag an optional
  field is one of proto3, which is not a message and has the default value 0.\<close>

definition plain_type :: "pb_field_t \<Rightarrow> bool" where
  "plain_type f \<longleftrightarrow> (let h = PB_HTYPE (type f); l = PB_LTYPE (type f); n = data_size f in
     valid_type f \<and> PB_ATYPE (type f) = PB_ATYPE_STATIC \<and> (h = PB_HTYPE_REQUIRED \<or> h = PB_HTYPE_OPTIONAL \<or> h = PB_HTYPE_REPEATED) \<and>
     0 < tag f \<and> tag f < 0x20000000 \<and> 0 < n \<and> uint n * uint (item_count f) < 0x100000000 \<and>
     (l = PB_LTYPE_BOOL \<longrightarrow> n = 1) \<and> (l = PB_LTYPE_FIXED32 \<longrightarrow> n = 4) \<and> (l = PB_LTYPE_FIXED64 \<longrightarrow> n = 8) \<and> (l = PB_LTYPE_BYTES \<longrightarrow> 4 \<le> n) \<and>
     (l = PB_LTYPE_SUBMESSAGE \<longrightarrow> fptr f \<noteq> 0) \<and> (h = PB_HTYPE_REPEATED \<longrightarrow> size_offset f \<noteq> 0) \<and>
     (h = PB_HTYPE_OPTIONAL \<and> size_offset f = 0 \<longrightarrow> fptr f = 0))"

text \<open>A message type whose fields have places of their own in \<open>B\<close>, with nested messages (at most \<open>d\<close> deep) in the place of
  their field.\<close>

fun rt_layout :: "pb_dec_env \<Rightarrow> nat \<Rightarrow> ptr set \<Rightarrow> pb_field_t list \<Rightarrow> ptr \<Rightarrow> bool" where
  "rt_layout E 0 B fs dest = False"
| "rt_layout E (Suc d) B fs dest \<longleftrightarrow> wf_fields fs \<and> 0 < n_fields fs \<and> int (length fs) < 0x100000000 \<and> dest \<noteq> 0 \<and> distinct (map tag fs) \<and>
     list_all (\<lambda>it. plain_type (cur it) \<and> region it \<subseteq> B \<and>
       span (pData it) (data_room (cur it)) \<inter> span (pSize it) (size_room (cur it)) = {} \<and>
       (PB_LTYPE (type (cur it)) = PB_LTYPE_SUBMESSAGE \<longrightarrow>
         list_all (\<lambda>q. rt_layout E d (span q (unat (data_size (cur it)))) (d_fields_at E (fptr (cur it))) q) (items_of it)))
       (map (iter_at fs dest) [0..<n_fields fs]) \<and>
     sorted_wrt (\<lambda>a b. region a \<inter> region b = {}) (map (iter_at fs dest) [0..<n_fields fs])"

declare rt_layout.simps [simp del]

lemma layoutD:
  assumes "rt_layout E (Suc d) B fs dest"
  shows "wf_fields fs" "0 < n_fields fs" "length fs < 2 ^ 32" "dest \<noteq> 0" "distinct (map tag fs)"
    and "k < n_fields fs \<Longrightarrow> plain_type (fs ! k)" and "k < n_fields fs \<Longrightarrow> region (iter_at fs dest k) \<subseteq> B"
    and "k < n_fields fs \<Longrightarrow>
      span (pData (iter_at fs dest k)) (data_room (fs ! k)) \<inter> span (pSize (iter_at fs dest k)) (size_room (fs ! k)) = {}"
    and "k < n_fields fs \<Longrightarrow> PB_LTYPE (type (fs ! k)) = PB_LTYPE_SUBMESSAGE \<Longrightarrow> q \<in> set (items_of (iter_at fs dest k)) \<Longrightarrow>
      rt_layout E d (span q (unat (data_size (fs ! k)))) (d_fields_at E (fptr (fs ! k))) q"
    and "j < n_fields fs \<Longrightarrow> k < n_fields fs \<Longrightarrow> j \<noteq> k \<Longrightarrow> region (iter_at fs dest j) \<inter> region (iter_at fs dest k) = {}"
proof -
  show wf: "wf_fields fs" "0 < n_fields fs" "length fs < 2 ^ 32" "dest \<noteq> 0" "distinct (map tag fs)"
    using assms by (simp_all add: rt_layout.simps)
  have all: "plain_type (fs ! k) \<and> region (iter_at fs dest k) \<subseteq> B \<and>
      span (pData (iter_at fs dest k)) (data_room (fs ! k)) \<inter> span (pSize (iter_at fs dest k)) (size_room (fs ! k)) = {} \<and>
      (PB_LTYPE (type (fs ! k)) = PB_LTYPE_SUBMESSAGE \<longrightarrow>
         list_all (\<lambda>q. rt_layout E d (span q (unat (data_size (fs ! k)))) (d_fields_at E (fptr (fs ! k))) q) (items_of (iter_at fs dest k)))"
    if "k < n_fields fs" for k
  proof -
    have "iter_at fs dest k \<in> set (map (iter_at fs dest) [0..<n_fields fs])" using that by simp
    then show ?thesis
      using assms cur_iter_at [OF wf(1) that, of dest] unfolding rt_layout.simps list_all_iff by (metis (lifting))
  qed
  show "k < n_fields fs \<Longrightarrow> plain_type (fs ! k)" "k < n_fields fs \<Longrightarrow> region (iter_at fs dest k) \<subseteq> B"
    "k < n_fields fs \<Longrightarrow>
      span (pData (iter_at fs dest k)) (data_room (fs ! k)) \<inter> span (pSize (iter_at fs dest k)) (size_room (fs ! k)) = {}"
    using all [of k] by blast+
  show "k < n_fields fs \<Longrightarrow> PB_LTYPE (type (fs ! k)) = PB_LTYPE_SUBMESSAGE \<Longrightarrow> q \<in> set (items_of (iter_at fs dest k)) \<Longrightarrow>
      rt_layout E d (span q (unat (data_size (fs ! k)))) (d_fields_at E (fptr (fs ! k))) q"
    using all [of k] by (auto simp: list_all_iff)
  have sw: "region (iter_at fs dest j) \<inter> region (iter_at fs dest k) = {}" if "j < k" "k < n_fields fs" for j k
    using assms that by (auto simp: rt_layout.simps sorted_wrt_iff_nth_less simp del: iter_at.simps)
  show "j < n_fields fs \<Longrightarrow> k < n_fields fs \<Longrightarrow> j \<noteq> k \<Longrightarrow> region (iter_at fs dest j) \<inter> region (iter_at fs dest k) = {}"
    using sw [of j k] sw [of k j] by (metis Int_commute linorder_neqE_nat)
qed

lemma plain_typeD:
  assumes "plain_type f"
  shows "valid_type f" "PB_ATYPE (type f) = PB_ATYPE_STATIC" "0 < unat (tag f)" "unat (tag f) < 2 ^ 29" "0 < unat (data_size f)"
    "data_room f < 2 ^ 32" "size_valid f" "PB_LTYPE (type f) \<noteq> PB_LTYPE_EXTENSION"
    "PB_LTYPE (type f) = PB_LTYPE_BYTES \<Longrightarrow> 4 \<le> data_size f" "PB_LTYPE (type f) = PB_LTYPE_SUBMESSAGE \<Longrightarrow> fptr f \<noteq> 0"
    "PB_HTYPE (type f) = PB_HTYPE_REPEATED \<Longrightarrow> size_offset f \<noteq> 0"
    "PB_HTYPE (type f) = PB_HTYPE_OPTIONAL \<Longrightarrow> size_offset f = 0 \<Longrightarrow> fptr f = 0 \<and> PB_LTYPE (type f) \<noteq> PB_LTYPE_SUBMESSAGE"
proof -
  have "int (data_room f) < 2 ^ 32" using assms by (simp add: plain_type_def data_room_def Let_def)
  then show "data_room f < 2 ^ 32" by simp
qed (use assms in \<open>auto simp: plain_type_def valid_type_def size_valid_def Let_def word_less_nat_alt\<close>)

lemma plain_type_cases:
  assumes "plain_type f"
  obtains "PB_HTYPE (type f) = PB_HTYPE_REQUIRED" | "PB_HTYPE (type f) = PB_HTYPE_OPTIONAL" "size_offset f = 0"
    | "PB_HTYPE (type f) = PB_HTYPE_OPTIONAL" "size_offset f \<noteq> 0" | "PB_HTYPE (type f) = PB_HTYPE_REPEATED" "size_offset f \<noteq> 0"
  using assms by (auto simp: plain_type_def Let_def)

lemma pSize_at:
  assumes "wf_fields fs" and "k < n_fields fs" and "dest \<noteq> 0" and "PB_HTYPE (type (fs ! k)) \<noteq> PB_HTYPE_ONEOF"
  shows "pSize (iter_at fs dest k) = pData (iter_at fs dest k) + scast (size_offset (fs ! k))"
proof (cases k)
  case 0
  then show ?thesis using assms(3) by (simp add: pb_field_iter_begin_def Let_def)
next
  case (Suc j)
  have "pb_field_iter_next (iter_at fs dest j) = (True, iter_at fs dest k)"
    using iter_next_at [OF assms(1), of j dest] assms(2) Suc by (simp del: iter_at.simps)
  moreover have "it_pos (iter_at fs dest j) = j" using assms(1,2) Suc by (intro iter_at_pos) simp_all
  ultimately show ?thesis using assms(4) Suc
    by (auto simp: pb_field_iter_next_def Let_def cur_def split: if_splits)
qed

lemma scast_0_iff: "(scast (x :: 32 word) :: 64 word) = 0 \<longleftrightarrow> x = 0"
proof -
  have "(scast (0 :: 32 word) :: 64 word) = 0" by simp
  moreover have "(scast (scast x :: 64 word) :: 32 word) = x" by (simp add: scast_up_scast_id is_up)
  ultimately show ?thesis by (metis scast_0)
qed
section \<open>Items\<close>

definition item_at :: "pb_field_iter_t \<Rightarrow> nat \<Rightarrow> ptr" where
  "item_at it i = pData it + word_of_nat i * ucast (data_size (cur it))"

lemma item_at_in: "i < unat (item_count (cur it)) \<Longrightarrow> item_at it i \<in> set (items_of it)"
  by (simp add: item_at_def items_of_def item_ptrs_def)

lemma item_at_0: "item_at it 0 = pData it"
  by (simp add: item_at_def)

lemma items_ofE:
  assumes "q \<in> set (items_of it)"
  obtains i where "i < unat (item_count (cur it))" and "q = item_at it i"
  using assms by (auto simp: item_at_def items_of_def item_ptrs_def)

lemma item_cell: "item_at it i + word_of_nat a = pData it + word_of_nat (i * unat (data_size (cur it)) + a)"
  by (simp add: item_at_def add.assoc)

lemma item_room:
  assumes "i < unat (item_count (cur it))" and "a < unat (data_size (cur it))"
  shows "i * unat (data_size (cur it)) + a < data_room (cur it)"
proof -
  have "Suc i * unat (data_size (cur it)) \<le> unat (item_count (cur it)) * unat (data_size (cur it))" using assms(1) by (intro mult_le_mono1) simp
  then show ?thesis using assms(2) by (simp add: data_room_def mult.commute)
qed

lemma item_span: "q \<in> set (items_of it) \<Longrightarrow> span q (unat (data_size (cur it))) \<subseteq> span (pData it) (data_room (cur it))"
proof (elim items_ofE)
  fix i assume i: "i < unat (item_count (cur it))" "q = item_at it i"
  show "span q (unat (data_size (cur it))) \<subseteq> span (pData it) (data_room (cur it))"
  proof
    fix a assume "a \<in> span q (unat (data_size (cur it)))"
    then obtain b where b: "b < unat (data_size (cur it))" "a = q + word_of_nat b" by (auto simp: span_def)
    show "a \<in> span (pData it) (data_room (cur it))"
      unfolding b(2) i(2) item_cell by (rule span_nth [OF item_room [OF i(1) b(1)]])
  qed
qed

lemma item_disjoint:
  assumes "i < unat (item_count (cur it))" and "j < unat (item_count (cur it))" and "i \<noteq> j" and "data_room (cur it) < 2 ^ 32"
  shows "span (item_at it i) (unat (data_size (cur it))) \<inter> span (item_at it j) (unat (data_size (cur it))) = {}"
proof (rule equals0I, elim IntE)
  let ?n = "unat (data_size (cur it))"
  fix x assume "x \<in> span (item_at it i) ?n" "x \<in> span (item_at it j) ?n"
  then obtain a b where ab: "a < ?n" "b < ?n" "item_at it i + word_of_nat a = item_at it j + word_of_nat b" by (auto simp: span_def)
  have lt: "i * ?n + a < 2 ^ 32" "j * ?n + b < 2 ^ 32"
    using item_room [OF assms(1) ab(1)] item_room [OF assms(2) ab(2)] assms(4) by simp_all
  have "(word_of_nat (i * ?n + a) :: ptr) = word_of_nat (j * ?n + b)" using ab(3) unfolding item_cell by simp
  then have "i * ?n + a = j * ?n + b" using lt by (simp add: word_unat_eq_iff unat_of_nat_small del: of_nat_add of_nat_mult)
  then have "(i * ?n + a) div ?n = (j * ?n + b) div ?n" by simp
  then show False using ab assms(3) by simp
qed

lemma item_count_repeated: "PB_HTYPE (type f) = PB_HTYPE_REPEATED \<Longrightarrow> item_count f = array_size f"
  "PB_HTYPE (type f) \<noteq> PB_HTYPE_REPEATED \<Longrightarrow> item_count f = 1"
  by (simp_all add: item_count_def)

lemma pData_in: "PB_HTYPE (type (cur it)) \<noteq> PB_HTYPE_REPEATED \<Longrightarrow> pData it \<in> set (items_of it)"
  using item_at_in [of 0 it] by (simp add: item_at_0 item_count_def)

text \<open>The list of encodings behind the encoding of an array.\<close>

lemma spec_items_iff:
  "spec_items f p stride n = bytes bs \<longleftrightarrow>
     (\<exists>vs. length vs = n \<and> bs = concat vs \<and> (\<forall>i < n. f (p + word_of_nat i * stride) = bytes (vs ! i)))"
proof (induction n arbitrary: p bs)
  case 0
  then show ?case by auto
next
  case (Suc n)
  show ?case
  proof
    assume "spec_items f p stride (Suc n) = bytes bs"
    then obtain v ws where v: "f p = bytes v" "spec_items f (p + stride) stride n = bytes ws" "bs = v @ ws"
      by (cases "f p" rule: outcome_cases; cases "spec_items f (p + stride) stride n" rule: outcome_cases) auto
    obtain vs where vs: "length vs = n" "ws = concat vs" "\<forall>i < n. f (p + stride + word_of_nat i * stride) = bytes (vs ! i)"
      using v(2) Suc.IH by blast
    have "\<forall>i < Suc n. f (p + word_of_nat i * stride) = bytes ((v # vs) ! i)"
    proof (intro allI impI)
      fix i assume "i < Suc n"
      then show "f (p + word_of_nat i * stride) = bytes ((v # vs) ! i)"
        using v(1) vs(3) by (cases i) (auto simp: distrib_right add.assoc)
    qed
    then show "\<exists>vs. length vs = Suc n \<and> bs = concat vs \<and> (\<forall>i < Suc n. f (p + word_of_nat i * stride) = bytes (vs ! i))"
      using v(3) vs(1,2) by (intro exI [of _ "v # vs"]) simp
  next
    assume "\<exists>vs. length vs = Suc n \<and> bs = concat vs \<and> (\<forall>i < Suc n. f (p + word_of_nat i * stride) = bytes (vs ! i))"
    then obtain v vs where vs: "length vs = n" "bs = v @ concat vs" "\<forall>i < Suc n. f (p + word_of_nat i * stride) = bytes ((v # vs) ! i)"
      by (auto simp: length_Suc_conv)
    have "f (p + stride + word_of_nat i * stride) = bytes (vs ! i)" if "i < n" for i
      using vs(3) [rule_format, of "Suc i"] that by (simp add: distrib_right add.assoc)
    then have "spec_items f (p + stride) stride n = bytes (concat vs)" using Suc.IH vs(1) by blast
    then show "spec_items f p stride (Suc n) = bytes bs" using vs(2) vs(3) [rule_format, of 0] by simp
  qed
qed

lemma spec_items_cong:
  "(\<And>i. i < n \<Longrightarrow> f (p + word_of_nat i * stride) = g (p + word_of_nat i * stride)) \<Longrightarrow> spec_items f p stride n = spec_items g p stride n"
proof (induction n arbitrary: p)
  case (Suc n)
  have "spec_items f (p + stride) stride n = spec_items g (p + stride) stride n"
  proof (rule Suc.IH)
    fix i assume "i < n"
    then show "f (p + stride + word_of_nat i * stride) = g (p + stride + word_of_nat i * stride)"
      using Suc.prems [of "Suc i"] by (simp add: distrib_right add.assoc)
  qed
  then show ?case using Suc.prems [of 0] by simp
qed simp

section \<open>Locality\<close>

text \<open>The encoding depends on the places of the fields only.\<close>

lemma strnlen_cong:
  assumes "agree (span p (unat max_n)) m m'"
  shows "strnlen_loop m' p 0 max_n = strnlen_loop m p 0 max_n"
proof -
  obtain k where k: "strnlen_loop m p 0 max_n = word_of_nat k" "\<forall>i < k. m (p + word_of_nat i) \<noteq> 0" "k \<le> unat max_n"
    "k < unat max_n \<longrightarrow> m (p + word_of_nat k) = 0"
    using strnlen_nonzero [of m p 0 max_n] by auto
  have same: "m' (p + word_of_nat i) = m (p + word_of_nat i)" if "i < unat max_n" for i
    using assms that by (simp add: agree_def span_nth)
  have "strnlen_loop m' p 0 max_n = 0 + word_of_nat k"
    using k same by (intro strnlen_exact) auto
  then show ?thesis using k(1) by simp
qed

lemma cstring_cong:
  assumes "PB_ATYPE (type f) = PB_ATYPE_STATIC" and "agree (span p (unat (data_size f))) m m'"
  shows "cstring m' f p = cstring m f p"
proof -
  have s: "strnlen_loop m' p 0 (ucast (data_size f)) = strnlen_loop m p 0 (ucast (data_size f))"
    using assms(2) by (intro strnlen_cong) (simp add: ucast_size)
  have "length (cstring m f p) \<le> unat (data_size f)" using cstring_bytes(2) [OF assms(1)] .
  then have "mem_bytes m' p (length (cstring m f p)) = mem_bytes m p (length (cstring m f p))"
    using assms(2) by (intro mem_bytes_cong) (blast intro: agree_mono span_mono [THEN subsetD])
  moreover have "length (cstring m f p) = (if p = 0 then 0 else unat (strnlen_loop m p 0 (ucast (data_size f))))"
    using assms(1) by (simp add: cstring_def)
  ultimately show ?thesis using assms(1) s by (cases "p = 0") (simp_all add: cstring_def mem_bytes_def)
qed

lemma value_local:
  assumes f: "plain_type f" and ag: "agree (span p (unat (data_size f))) m m'"
    and sub: "PB_LTYPE (type f) = PB_LTYPE_SUBMESSAGE \<Longrightarrow> sub' (fields_at EE (fptr f)) p = sub (fields_at EE (fptr f)) p"
  shows "spec_value EE m' sub' f p = spec_value EE m sub f p"
proof -
  let ?n = "unat (data_size f)" and ?l = "PB_LTYPE (type f)"
  note F = plain_typeD [OF f]
  have part: "agree (span p k) m m'" if "k \<le> ?n" for k using ag span_mono [OF that] by (rule agree_mono)
  have b: "?l = PB_LTYPE_BOOL \<Longrightarrow> safe_read_bool m' p = safe_read_bool m p"
    using f load_cong(1) [OF part] by (simp add: plain_type_def Let_def safe_read_bool_def)
  have i: "read_signed m' f p = read_signed m f p" "read_unsigned m' f p = read_unsigned m f p"
    using load_cong(1) [OF part] load_cong(2) [OF part] load_cong(3) [OF part] load_cong(4) [OF part]
    by (auto simp: read_signed_def read_unsigned_def)
  have f4: "?l = PB_LTYPE_FIXED32 \<or> ?l = PB_LTYPE_BYTES \<Longrightarrow> load32 m' p = load32 m p"
    using f load_cong(3) [OF part] by (auto simp: plain_type_def Let_def word_le_nat_alt)
  have f8: "?l = PB_LTYPE_FIXED64 \<Longrightarrow> load64 m' p = load64 m p"
    using f load_cong(4) [OF part] by (auto simp: plain_type_def Let_def)
  have bts: "mem_bytes m' (p + 4) (unat (load32 m p)) = mem_bytes m (p + 4) (unat (load32 m p))"
    if "?l = PB_LTYPE_BYTES" and le: "\<not> (ucast (load32 m p) :: size_t) > ucast (data_size f) - 4"
  proof (rule mem_bytes_cong, rule agree_mono [OF ag])
    have "4 \<le> ?n" using F(9) that(1) by (simp add: word_le_nat_alt)
    then have "unat (ucast (data_size f) - 4 :: size_t) = ?n - 4"
      using unat_sub_le [of 4 "ucast (data_size f) :: size_t"] by (simp add: word_le_nat_alt ucast_size)
    then have "4 + unat (load32 m p) \<le> ?n" using le \<open>4 \<le> ?n\<close> by (simp add: word_less_nat_alt ucast_size)
    from span_offset [OF this, of p] show "span (p + 4) (unat (load32 m p)) \<subseteq> span p ?n" by simp
  qed
  show ?thesis
    using F(2) b i f4 f8 bts cstring_cong [OF F(2) ag] mem_bytes_cong [OF ag] sub by (simp add: spec_value_def Let_def)
qed

lemma default_local:
  assumes "PB_LTYPE (type f) = PB_LTYPE_BYTES \<Longrightarrow> 4 \<le> data_size f" and "0 < unat (data_size f)" and "PB_ATYPE (type f) = PB_ATYPE_STATIC"
    and "PB_LTYPE (type f) \<noteq> PB_LTYPE_SUBMESSAGE" and "PB_HTYPE (type f) = PB_HTYPE_OPTIONAL" and "size_offset f = 0"
    and ag: "agree (span p (unat (data_size f))) m m'"
  shows "pb_check_proto3_default_value EE m' d f p = pb_check_proto3_default_value EE m d f p"
proof -
  have part: "agree (span p k) m m'" if "k \<le> unat (data_size f)" for k using ag span_mono [OF that] by (rule agree_mono)
  have "PB_LTYPE (type f) = PB_LTYPE_BYTES \<Longrightarrow> load32 m' p = load32 m p" "m' p = m p"
    using assms(1,2) load_cong(3) [OF part] load_cong(1) [OF part] by (auto simp: word_le_nat_alt)
  then show ?thesis using assms(3-6) mem_bytes_cong [OF ag] by (cases d) (simp_all add: Let_def)
qed

lemma region_data: "span (pData it) (data_room (cur it)) \<subseteq> region it"
  by (simp add: region_def)

lemma item_region: "q \<in> set (items_of it) \<Longrightarrow> span q (unat (data_size (cur it))) \<subseteq> region it"
  using item_span region_data by blast

lemma size_region:
  "PB_HTYPE (type (cur it)) = PB_HTYPE_REPEATED \<Longrightarrow> span (pSize it) 4 \<subseteq> region it"
  "PB_HTYPE (type (cur it)) = PB_HTYPE_OPTIONAL \<Longrightarrow> size_offset (cur it) \<noteq> 0 \<Longrightarrow> span (pSize it) 1 \<subseteq> region it"
  by (auto simp: region_def size_room_def)

lemma spec_one_static:
  assumes "plain_type (cur it)"
  shows "spec_one EE C m d sub it = spec_basic EE m d sub (cur it) (pData it)"
  using plain_typeD(2,8) [OF assms] by (simp add: spec_one_def spec_field_def)

text \<open>An iterator of a laid-out field, by itself.\<close>

definition placed :: "pb_field_iter_t \<Rightarrow> bool" where
  "placed it \<longleftrightarrow> plain_type (cur it) \<and> pSize it = pData it + scast (size_offset (cur it)) \<and>
     span (pData it) (data_room (cur it)) \<inter> span (pSize it) (size_room (cur it)) = {}"

lemma layout_placed:
  assumes "rt_layout E (Suc d) B fs dest" and "k < n_fields fs"
  shows "placed (iter_at fs dest k)"
proof -
  note l = layoutD [OF assms(1)]
  have "PB_HTYPE (type (fs ! k)) \<noteq> PB_HTYPE_ONEOF" using l(6) [OF assms(2)] by (auto simp: plain_type_def Let_def)
  then show ?thesis
    using l(6,8) [OF assms(2)] pSize_at [OF l(1) assms(2) l(4)] by (simp add: placed_def cur_iter_at [OF l(1) assms(2)])
qed

lemma field_local:
  assumes it: "placed it" and ag: "agree (region it) m m'"
    and sub: "\<And>q. PB_LTYPE (type (cur it)) = PB_LTYPE_SUBMESSAGE \<Longrightarrow> q \<in> set (items_of it) \<Longrightarrow>
      sub' (fields_at EE (fptr (cur it))) q = sub (fields_at EE (fptr (cur it))) q"
  shows "spec_one EE C m' d sub' it = spec_one EE C m d sub it"
proof -
  let ?f = "cur it" and ?n = "unat (data_size (cur it))"
  have f: "plain_type ?f" and z: "pSize it = pData it + scast (size_offset ?f)" using it by (simp_all add: placed_def)
  note F = plain_typeD [OF f]
  have item: "spec_value EE m' sub' ?f q = spec_value EE m sub ?f q" if "q \<in> set (items_of it)" for q
    using sub [OF _ that] agree_mono [OF ag item_region [OF that]] by (intro value_local [OF f])
  show ?thesis
    unfolding spec_one_static [OF f]
  proof (cases rule: plain_type_cases [OF f])
    case 1
    then show "spec_basic EE m' d sub' ?f (pData it) = spec_basic EE m d sub ?f (pData it)"
      using F(2) item [OF pData_in] by (simp add: spec_basic_def Let_def)
  next
    case 2
    have "agree (span (pData it) ?n) m m'" using agree_mono [OF ag item_region [OF pData_in]] 2 by simp
    then have "pb_check_proto3_default_value EE m' d ?f (pData it) = pb_check_proto3_default_value EE m d ?f (pData it)"
      using F(12) 2 by (intro default_local F) simp_all
    then show "spec_basic EE m' d sub' ?f (pData it) = spec_basic EE m d sub ?f (pData it)"
      using F(2) item [OF pData_in] 2 by (simp add: spec_basic_def Let_def split: option.split)
  next
    case 3
    have "m' (pSize it) = m (pSize it)" using load_cong(1) [OF agree_mono [OF ag size_region(2)]] 3 by simp
    then show "spec_basic EE m' d sub' ?f (pData it) = spec_basic EE m d sub ?f (pData it)"
      using F(2) item [OF pData_in] 3 z by (simp add: spec_basic_def Let_def safe_read_bool_def)
  next
    case 4
    have c: "load32 m' (pSize it) = load32 m (pSize it)" using load_cong(3) [OF agree_mono [OF ag size_region(1)]] 4 by simp
    have "spec_items h (pData it) (ucast (data_size ?f)) (unat n) = spec_items h' (pData it) (ucast (data_size ?f)) (unat n)"
      if "n \<le> array_size ?f" and "\<And>q. q \<in> set (items_of it) \<Longrightarrow> h q = h' q" for h h' n
    proof (rule spec_items_cong)
      fix i assume "i < unat n"
      then show "h (pData it + word_of_nat i * ucast (data_size ?f)) = h' (pData it + word_of_nat i * ucast (data_size ?f))"
        using that item_at_in [of i it] 4 by (auto simp: item_at_def item_count_def word_le_nat_alt)
    qed
    note cong = this
    have "spec_array m' ?f (pData it) (ucast n) (spec_value EE m' sub' ?f) = spec_array m ?f (pData it) (ucast n) (spec_value EE m sub ?f)"
      for n :: uint32
    proof (cases "n \<le> array_size ?f")
      case True
      show ?thesis using cong [OF True item] cong [OF True, of "\<lambda>q. cat (spec_tag ?f) (spec_value EE m' sub' ?f q)"] item F(2)
        by (simp add: spec_array_def ucast_size)
    next
      case False
      then show ?thesis using F(2) by (simp add: spec_array_def ucast_size word_less_nat_alt word_le_nat_alt)
    qed
    from this [of "load32 m (pSize it)"] show "spec_basic EE m' d sub' ?f (pData it) = spec_basic EE m d sub ?f (pData it)"
      using F(2) 4 z c by (simp add: spec_basic_def Let_def)
  qed
qed

lemma spec_concat_cong: "(\<And>x. x \<in> set xs \<Longrightarrow> f x = g x) \<Longrightarrow> spec_concat f xs = spec_concat g xs"
  by (induction xs) auto

lemma message_local:
  assumes "d_fields_at E = fields_at EE"
  shows "rt_layout E d B fs dest \<Longrightarrow> agree B m m' \<Longrightarrow> spec_message EE C m' d fs dest = spec_message EE C m d fs dest"
proof (induction d arbitrary: B fs dest)
  case (Suc d)
  note l = layoutD [OF Suc.prems(1)]
  have one: "spec_one EE C m' d (spec_message EE C m' d) it = spec_one EE C m d (spec_message EE C m d) it"
    if mem: "it \<in> set (msg_iters fs dest)" for it
  proof -
    obtain k where k: "k < n_fields fs" "it = iter_at fs dest k" using mem by (auto simp: msg_iters_wf [OF l(1,2)] simp del: iter_at.simps)
    have ag: "agree (region it) m m'" using Suc.prems(2) l(7) [OF k(1)] k(2) by (auto intro: agree_mono)
    show ?thesis
    proof (rule field_local)
      show "placed it" "agree (region it) m m'" using layout_placed [OF Suc.prems(1) k(1)] ag k(2) by simp_all
      fix q assume sm: "PB_LTYPE (type (cur it)) = PB_LTYPE_SUBMESSAGE" and q: "q \<in> set (items_of it)"
      have "rt_layout E d (span q (unat (data_size (cur it)))) (d_fields_at E (fptr (cur it))) q"
        using l(9) [OF k(1)] sm q k(2) by (simp add: cur_iter_at [OF l(1) k(1)])
      then show "spec_message EE C m' d (fields_at EE (fptr (cur it))) q = spec_message EE C m d (fields_at EE (fptr (cur it))) q"
        using Suc.IH agree_mono [OF ag item_region [OF q]] unfolding assms by blast
    qed
  qed
  have "spec_concat (spec_one EE C m' d (spec_message EE C m' d)) (msg_iters fs dest) =
      spec_concat (spec_one EE C m d (spec_message EE C m d)) (msg_iters fs dest)"
    by (rule spec_concat_cong) (rule one)
  then show ?case by (simp only: spec_message.simps)
qed (simp add: rt_layout.simps)

section \<open>Unset fields\<close>

text \<open>A field as it is before anything was decoded: the flag or the count is 0, or the value is the one that proto3 does not
  transmit. \<open>fresh\<close>: all fields of a message, and of the messages that are part of it, are so.\<close>

definition unset :: "pb_env \<Rightarrow> memory \<Rightarrow> nat \<Rightarrow> pb_field_iter_t \<Rightarrow> bool" where
  "unset EE m d it \<longleftrightarrow> (let f = cur it; h = PB_HTYPE (type f) in
     (h = PB_HTYPE_REPEATED \<longrightarrow> load32 m (pSize it) = 0) \<and>
     (h = PB_HTYPE_OPTIONAL \<and> size_offset f \<noteq> 0 \<longrightarrow> \<not> safe_read_bool m (pSize it)) \<and>
     (h = PB_HTYPE_OPTIONAL \<and> size_offset f = 0 \<and> PB_LTYPE (type f) \<noteq> PB_LTYPE_FIXED_LENGTH_BYTES \<and> d \<noteq> 0 \<longrightarrow>
       pb_check_proto3_default_value EE m d f (pData it) = Some True))"

fun fresh :: "pb_env \<Rightarrow> memory \<Rightarrow> nat \<Rightarrow> pb_field_t list \<Rightarrow> ptr \<Rightarrow> bool" where
  "fresh EE m 0 fs dest = True"
| "fresh EE m (Suc d) fs dest \<longleftrightarrow> list_all (\<lambda>it. unset EE m d it \<and>
     (PB_LTYPE (type (cur it)) = PB_LTYPE_SUBMESSAGE \<and> PB_HTYPE (type (cur it)) \<noteq> PB_HTYPE_REPEATED \<longrightarrow>
       fresh EE m d (fields_at EE (fptr (cur it))) (pData it)))
     (map (iter_at fs dest) [0..<n_fields fs])"

lemma unset_local:
  assumes "placed it" and ag: "agree (region it) m m'" and "unset EE m d it"
  shows "unset EE m' d it"
proof -
  let ?f = "cur it"
  have f: "plain_type ?f" using assms(1) by (simp add: placed_def)
  note F = plain_typeD [OF f]
  show ?thesis
  proof (cases rule: plain_type_cases [OF f])
    case 2
    have "agree (span (pData it) (unat (data_size ?f))) m m'" using agree_mono [OF ag item_region [OF pData_in]] 2 by simp
    then have "pb_check_proto3_default_value EE m' d ?f (pData it) = pb_check_proto3_default_value EE m d ?f (pData it)"
      using F(12) 2 by (intro default_local F) simp_all
    then show ?thesis using assms(3) 2 by (simp add: unset_def Let_def)
  next
    case 3
    have "m' (pSize it) = m (pSize it)" using load_cong(1) [OF agree_mono [OF ag size_region(2)]] 3 by simp
    then show ?thesis using assms(3) 3 by (simp add: unset_def Let_def safe_read_bool_def)
  next
    case 4
    have "load32 m' (pSize it) = load32 m (pSize it)" using load_cong(3) [OF agree_mono [OF ag size_region(1)]] 4 by simp
    then show ?thesis using assms(3) 4 by (simp add: unset_def Let_def)
  qed (simp add: unset_def Let_def)
qed

lemma freshD:
  assumes "fresh EE m (Suc d) fs dest" and "wf_fields fs" and "k < n_fields fs"
  shows "unset EE m d (iter_at fs dest k)"
    and "PB_LTYPE (type (fs ! k)) = PB_LTYPE_SUBMESSAGE \<Longrightarrow> PB_HTYPE (type (fs ! k)) \<noteq> PB_HTYPE_REPEATED \<Longrightarrow>
      fresh EE m d (fields_at EE (fptr (fs ! k))) (pData (iter_at fs dest k))"
  using assms by (auto simp: list_all_iff cur_iter_at)

lemma freshI:
  assumes "wf_fields fs" and "\<And>k. k < n_fields fs \<Longrightarrow> unset EE m d (iter_at fs dest k)"
    and "\<And>k. k < n_fields fs \<Longrightarrow> PB_LTYPE (type (fs ! k)) = PB_LTYPE_SUBMESSAGE \<Longrightarrow> PB_HTYPE (type (fs ! k)) \<noteq> PB_HTYPE_REPEATED \<Longrightarrow>
      fresh EE m d (fields_at EE (fptr (fs ! k))) (pData (iter_at fs dest k))"
  shows "fresh EE m (Suc d) fs dest"
  using assms by (auto simp: list_all_iff cur_iter_at)

declare fresh.simps(2) [simp del]

lemma fresh_local:
  assumes "d_fields_at E = fields_at EE"
  shows "rt_layout E d B fs dest \<Longrightarrow> agree B m m' \<Longrightarrow> fresh EE m d fs dest \<Longrightarrow> fresh EE m' d fs dest"
proof (induction d arbitrary: B fs dest)
  case (Suc d)
  note l = layoutD [OF Suc.prems(1)]
  show ?case
  proof (rule freshI)
    fix k assume k: "k < n_fields fs"
    have c: "cur (iter_at fs dest k) = fs ! k" by (rule cur_iter_at [OF l(1) k])
    have ag: "agree (region (iter_at fs dest k)) m m'" using Suc.prems(2) l(7) [OF k] by (rule agree_mono)
    show "unset EE m' d (iter_at fs dest k)"
      using layout_placed [OF Suc.prems(1) k] ag freshD(1) [OF Suc.prems(3) l(1) k] by (rule unset_local)
    assume sm: "PB_LTYPE (type (fs ! k)) = PB_LTYPE_SUBMESSAGE" and h: "PB_HTYPE (type (fs ! k)) \<noteq> PB_HTYPE_REPEATED"
    have q: "pData (iter_at fs dest k) \<in> set (items_of (iter_at fs dest k))" using h by (intro pData_in) (simp add: c)
    show "fresh EE m' d (fields_at EE (fptr (fs ! k))) (pData (iter_at fs dest k))"
    proof (rule Suc.IH)
      show "rt_layout E d (span (pData (iter_at fs dest k)) (unat (data_size (fs ! k)))) (fields_at EE (fptr (fs ! k))) (pData (iter_at fs dest k))"
        using l(9) [OF k sm q] by (simp add: assms)
      show "agree (span (pData (iter_at fs dest k)) (unat (data_size (fs ! k)))) m m'"
        using agree_mono [OF ag item_region [OF q]] by (simp add: c)
    qed (rule freshD(2) [OF Suc.prems(3) l(1) k sm h])
  qed (rule l(1))
qed simp

section \<open>Where a laid-out field is decoded\<close>

text \<open>The local variables of the invocations of the decoder for messages nested less than \<open>d\<close> deep.\<close>

definition fc_region :: "pb_dec_env \<Rightarrow> nat \<Rightarrow> ptr set" where
  "fc_region E d = (\<Union>k<d. span (fixed_count_at E k) 4)"

lemma fc_region_Suc: "fc_region E (Suc d) = span (fixed_count_at E d) 4 \<union> fc_region E d"
  by (simp add: fc_region_def lessThan_Suc)

lemma placed_within:
  assumes "placed it" and "region it \<subseteq> A"
  shows "field_within A it"
proof -
  have f: "plain_type (cur it)" using assms(1) by (simp add: placed_def)
  note F = plain_typeD [OF f]
  have "unat (ucast (data_size (cur it)) * ucast (item_count (cur it)) :: size_t) = data_room (cur it)" by (simp add: data_room_def unat_area)
  moreover have "PB_HTYPE (type (cur it)) \<noteq> PB_HTYPE_ONEOF" using f by (auto simp: plain_type_def Let_def)
  moreover have "PB_HTYPE (type (cur it)) = PB_HTYPE_OPTIONAL \<and> pSize it \<noteq> pData it \<longrightarrow> pSize it \<in> A"
    using assms size_region(2) [of it] span_start [of 1 "pSize it"] by (auto simp: placed_def scast_0_iff)
  ultimately show ?thesis
    using F(1,2,6,7) assms(2) region_data [of it] size_region(1) [of it]
    by (auto simp: field_within_def Let_def word_less_nat_alt)
qed

lemma layout_within:
  "rt_layout E d B fs dest \<Longrightarrow> B \<subseteq> A \<Longrightarrow> fc_region E d \<subseteq> A \<Longrightarrow> static_within E d A fs dest"
proof (induction d arbitrary: B fs dest)
  case (Suc d)
  note l = layoutD [OF Suc.prems(1)]
  have "field_within A (iter_at fs dest k) \<and> (PB_LTYPE (type (cur (iter_at fs dest k))) = PB_LTYPE_SUBMESSAGE \<longrightarrow>
      list_all (static_within E d A (d_fields_at E (fptr (cur (iter_at fs dest k))))) (items_of (iter_at fs dest k)))"
    if k: "k < n_fields fs" for k
  proof (intro conjI impI)
    let ?it = "iter_at fs dest k"
    have c: "cur ?it = fs ! k" by (rule cur_iter_at [OF l(1) k])
    have r: "region ?it \<subseteq> A" using l(7) [OF k] Suc.prems(2) by blast
    show "field_within A ?it" by (rule placed_within [OF layout_placed [OF Suc.prems(1) k] r])
    assume sm: "PB_LTYPE (type (cur ?it)) = PB_LTYPE_SUBMESSAGE"
    have "static_within E d A (d_fields_at E (fptr (fs ! k))) q" if q: "q \<in> set (items_of ?it)" for q
    proof (rule Suc.IH)
      show "rt_layout E d (span q (unat (data_size (fs ! k)))) (d_fields_at E (fptr (fs ! k))) q" using l(9) [OF k _ q] sm c by simp
      show "span q (unat (data_size (fs ! k))) \<subseteq> A" using item_region [OF q] r c by auto
    qed (use Suc.prems(3) in \<open>simp add: fc_region_Suc\<close>)
    then show "list_all (static_within E d A (d_fields_at E (fptr (cur ?it)))) (items_of ?it)" by (simp add: list_all_iff c)
  qed
  moreover have "n_pos fs = n_fields fs" using l(2) by (simp add: n_pos_def)
  ultimately show ?case using l(1) Suc.prems(3) by (simp add: fc_region_Suc list_all_iff del: iter_at.simps)
qed (simp add: rt_layout.simps)

lemma layout_sub:
  assumes "rt_layout E (Suc d) B fs dest" and "k < n_fields fs" and q: "q \<in> set (items_of (iter_at fs dest k))"
    and "span q (unat (data_size (fs ! k))) \<subseteq> A" and "fc_region E d \<subseteq> A"
  shows "subs_ok True A E d (pb_decode_noinit E d) (fs ! k) q"
  using static_message_ok [OF layout_within [OF layoutD(9) [OF assms(1,2) _ q] assms(4,5)]] by (simp add: subs_ok_def)

lemma layout_field_ok:
  assumes "rt_layout E (Suc d) B fs dest" and "k < n_fields fs"
  shows "field_ok True (region (iter_at fs dest k) \<union> fc_region E d) E d (pb_decode_noinit E d) (iter_at fs dest k)"
proof -
  let ?it = "iter_at fs dest k" and ?A = "region (iter_at fs dest k) \<union> fc_region E d"
  note l = layoutD [OF assms(1)]
  have c: "cur ?it = fs ! k" by (rule cur_iter_at [OF l(1) assms(2)])
  have p: "placed ?it" by (rule layout_placed [OF assms])
  have w: "field_within ?A ?it" by (rule placed_within [OF p]) simp
  have sub: "subs_ok True ?A E d (pb_decode_noinit E d) (cur ?it) q" if q: "q \<in> set (items_of ?it)" for q
  proof -
    have "span q (unat (data_size (fs ! k))) \<subseteq> ?A" using item_region [OF q] c by auto
    then show ?thesis unfolding c by (intro layout_sub [OF assms q]) simp_all
  qed
  have "static_fits ?A ?it" "static_subs True ?A E d (pb_decode_noinit E d) ?it"
    using field_within_static [OF w, of "pSize ?it"] subs_within [OF w sub, of "pSize ?it"] by (simp_all add: iter_pSize_same)
  then show ?thesis using plain_typeD(1,2) [OF l(6) [OF assms(2)]] by (simp add: field_ok_def c)
qed

lemma layout_defaults:
  assumes "rt_layout E d B fs dest"
  shows "st_ok True (B \<union> fc_region E d) (pb_message_set_to_defaults E d fs dest)"
  using static_message_ok [OF layout_within [OF assms, of "B \<union> fc_region E d"]] by (simp add: sub_ok_def)

lemma mem_bytes_zero: "mem_bytes (mem_put m p (replicate n 0)) p n = replicate n 0" if "n < 2 ^ 64"
  using mem_bytes_put [of "replicate n 0" m p] that by simp

lemma defaults_field:
  assumes p: "placed it" and d: "pb_field_set_to_default E (Suc d) it st = Some st'"
    and sub: "\<And>st1 st2. PB_LTYPE (type (cur it)) = PB_LTYPE_SUBMESSAGE \<Longrightarrow> PB_HTYPE (type (cur it)) \<noteq> PB_HTYPE_REPEATED \<Longrightarrow>
      pb_message_set_to_defaults E d (d_fields_at E (fptr (cur it))) (pData it) st1 = Some st2 \<Longrightarrow> keeps (span (pData it) (data_room (cur it)) \<union> A) st1 st2"
    and A: "span (pSize it) (size_room (cur it)) \<inter> A = {}"
  shows "unset EE (mem st') d it"
proof -
  let ?f = "cur it" and ?n = "unat (data_size (cur it))"
  have f: "plain_type ?f" using p by (simp add: placed_def)
  note F = plain_typeD [OF f]
  have dis: "span (pData it) (data_room ?f) \<inter> span (pSize it) (size_room ?f) = {}" using p unfolding placed_def by blast
  have r: "static_to_default (message_loop (pb_field_set_to_default E d)) E it st = Some st'"
    using d F(2,8) by (simp add: pb_field_set_to_default.simps Let_def)
  have n32: "?n < 2 ^ 64" using unat_lt [of "data_size ?f"] by simp
  show ?thesis
  proof (cases rule: plain_type_cases [OF f])
    case 2
    have l: "PB_LTYPE (type ?f) \<noteq> PB_LTYPE_SUBMESSAGE" and z: "fptr ?f = 0" and s: "pSize it = pData it" using F(12) 2 p by (simp_all add: placed_def)
    then have st': "mem st' = mem_put (mem st) (pData it) (replicate ?n 0)" using r 2 by (auto simp: static_to_default_def Let_def)
    have zero: "mem_bytes (mem st') (pData it) ?n = replicate ?n 0" unfolding st' by (rule mem_bytes_zero [OF n32])
    then have "mem_bytes (mem st') (pData it) ?n ! i = replicate ?n 0 ! i" for i by simp
    then have cell: "mem st' (pData it + word_of_nat i) = 0" if i: "i < ?n" for i
      using i by (metis add_0 mem_bytes_def nth_map_upt minus_nat.diff_0 nth_replicate)
    have "mem st' (pData it) = 0" using cell [of 0] F(5) by simp
    moreover have "PB_LTYPE (type ?f) = PB_LTYPE_BYTES \<Longrightarrow> load32 (mem st') (pData it) = 0"
    proof -
      assume "PB_LTYPE (type ?f) = PB_LTYPE_BYTES"
      then have "mem_bytes (mem st') (pData it) 4 = replicate 4 0"
        using cell F(9) by (intro nth_equalityI) (auto simp: mem_bytes_def word_le_nat_alt)
      then have z4: "mem_bytes (mem st') (pData it) 4 = [0, 0, 0, 0]" by (simp add: eval_nat_numeral)
      show "load32 (mem st') (pData it) = 0" unfolding load32_def z4 by code_simp
    qed
    ultimately show ?thesis
      using 2 l F(2) zero by (cases d) (auto simp: unset_def Let_def list_all_iff)
  next
    case 3
    have out: "pSize it \<notin> span (pData it) ?n" "pSize it \<notin> A"
      using dis A 3 span_start [of 1 "pSize it"] by (auto simp: size_room_def data_room_def item_count_def)
    have ne: "pSize it \<noteq> pData it" using p 3 scast_0_iff by (simp add: placed_def)
    let ?st1 = "st\<lparr>mem := store_bool (mem st) (pSize it) False\<rparr>"
    have "mem st' (pSize it) = mem ?st1 (pSize it)"
    proof (cases "PB_LTYPE (type ?f) = PB_LTYPE_SUBMESSAGE")
      case True
      then have "pb_message_set_to_defaults E d (d_fields_at E (fptr ?f)) (pData it) ?st1 = Some st'"
        using r 3 ne by (simp add: static_to_default_def Let_def pb_message_set_to_defaults_def)
      from sub [OF True _ this] show ?thesis using 3 out by (simp add: keeps_def data_room_def item_count_def)
    next
      case False
      have "mem_put m (pData it) bs (pSize it) = m (pSize it)" if "length bs = ?n" for m bs
        using out(1) that by (intro mem_put_outside) simp
      then show ?thesis using r 3 ne False by (auto simp: static_to_default_def Let_def mem_bytes_def split: if_splits)
    qed
    then show ?thesis using 3 load_store(1) [of "mem st" "pSize it" 0] by (simp add: unset_def safe_read_bool_def store_bool_def)
  next
    case 4
    then show ?thesis using r by (auto simp: unset_def static_to_default_def Let_def load_store)
  qed (simp add: unset_def)
qed

lemma store_loop_keep:
  assumes "store_loop f xs st = Some st'" and "P st" and "\<And>x st st'. x \<in> set xs \<Longrightarrow> f x st = Some st' \<Longrightarrow> P st \<Longrightarrow> P st'"
  shows "P st'"
  using assms
proof (induction xs arbitrary: st)
  case (Cons x xs)
  obtain st1 where s: "f x st = Some st1" "store_loop f xs st1 = Some st'" using Cons.prems(1) by (auto split: option.splits)
  have "P st1" by (rule Cons.prems(3) [OF _ s(1) Cons.prems(2)]) simp
  then show ?case by (rule Cons.IH [OF s(2)]) (use Cons.prems(3) in auto)
qed simp

lemma store_loop_run:
  assumes run: "store_loop f xs st = Some st'" and k: "k < length xs"
    and step: "\<And>x st st'. x \<in> set xs \<Longrightarrow> f x st = Some st' \<Longrightarrow> P x st'"
    and keep: "\<And>i j st st'. i < j \<Longrightarrow> j < length xs \<Longrightarrow> f (xs ! j) st = Some st' \<Longrightarrow> P (xs ! i) st \<Longrightarrow> P (xs ! i) st'"
  shows "P (xs ! k) st'"
  using assms
proof (induction xs arbitrary: st k)
  case (Cons x xs)
  obtain st1 where s: "f x st = Some st1" "store_loop f xs st1 = Some st'" using Cons.prems(1) by (auto split: option.splits)
  have keep': "P (xs ! i) st' " if "i < j" "j < length xs" "f (xs ! j) st = Some st'" "P (xs ! i) st" for i j st st'
    using Cons.prems(4) [of "Suc i" "Suc j" st st'] that by simp
  show ?case
  proof (cases k)
    case (Suc i)
    then show ?thesis using Cons.IH [OF s(2), of i] Cons.prems(2,3) keep' by auto
  next
    case 0
    have "P x st1" using Cons.prems(3) s(1) by simp
    moreover have "P x st''" if y: "y \<in> set xs" "f y st = Some st''" "P x st" for y st st''
    proof -
      obtain j where "j < length xs" "xs ! j = y" using y(1) by (auto simp: in_set_conv_nth)
      then show ?thesis using Cons.prems(4) [of 0 "Suc j" st st''] y(2,3) by simp
    qed
    ultimately show ?thesis using store_loop_keep [OF s(2), of "P x"] 0 by simp
  qed
qed simp

lemma msg_iters_nth:
  assumes "wf_fields fs" and "0 < n_fields fs"
  shows "length (msg_iters fs dest) = n_fields fs" and "k < n_fields fs \<Longrightarrow> msg_iters fs dest ! k = iter_at fs dest k"
  using assms by (simp_all add: msg_iters_wf del: iter_at.simps)

lemma defaults_fresh:
  assumes E: "d_fields_at E = fields_at EE"
  shows "rt_layout E d B fs dest \<Longrightarrow> B \<inter> fc_region E d = {} \<Longrightarrow> pb_message_set_to_defaults E d fs dest st = Some st' \<Longrightarrow>
    fresh EE (mem st') d fs dest"
proof (induction d arbitrary: B fs dest st st')
  case (Suc d)
  note l = layoutD [OF Suc.prems(1)]
  note nth = msg_iters_nth [OF l(1,2), where dest = dest]
  define good where "good it st \<longleftrightarrow> unset EE (mem st) d it \<and>
      (PB_LTYPE (type (cur it)) = PB_LTYPE_SUBMESSAGE \<and> PB_HTYPE (type (cur it)) \<noteq> PB_HTYPE_REPEATED \<longrightarrow>
        fresh EE (mem st) d (fields_at EE (fptr (cur it))) (pData it))" for it and st :: pb_store
  have fc: "B \<inter> fc_region E d = {}" using Suc.prems(2) by (auto simp: fc_region_Suc)
  have sub: "rt_layout E d (span (pData (iter_at fs dest k)) (unat (data_size (fs ! k)))) (d_fields_at E (fptr (fs ! k))) (pData (iter_at fs dest k))"
      "span (pData (iter_at fs dest k)) (unat (data_size (fs ! k))) \<inter> fc_region E d = {}"
    if k: "k < n_fields fs" and sm: "PB_LTYPE (type (fs ! k)) = PB_LTYPE_SUBMESSAGE" and h: "PB_HTYPE (type (fs ! k)) \<noteq> PB_HTYPE_REPEATED" for k
  proof -
    have c: "cur (iter_at fs dest k) = fs ! k" by (rule cur_iter_at [OF l(1) k])
    have q: "pData (iter_at fs dest k) \<in> set (items_of (iter_at fs dest k))" using h by (intro pData_in) (simp add: c)
    show "rt_layout E d (span (pData (iter_at fs dest k)) (unat (data_size (fs ! k)))) (d_fields_at E (fptr (fs ! k))) (pData (iter_at fs dest k))"
      by (rule l(9) [OF k sm q])
    show "span (pData (iter_at fs dest k)) (unat (data_size (fs ! k))) \<inter> fc_region E d = {}"
      using item_region [OF q] l(7) [OF k] fc c by auto
  qed
  have run: "store_loop (pb_field_set_to_default E (Suc d)) (msg_iters fs dest) st = Some st'"
  proof -
    have "0 < length fs" using l(2) by (cases fs) (simp_all add: n_fields_def)
    then have "tag (fs ! 0) \<noteq> 0" using l(2) wf_fields_tag [OF l(1), of 0] by simp
    then show ?thesis using Suc.prems(3) by (simp add: pb_message_set_to_defaults_def message_loop_def pb_field_iter_begin_def Let_def)
  qed
  have good: "good (msg_iters fs dest ! k) st'" if k0: "k < n_fields fs" for k
  proof (rule store_loop_run [OF run])
    show "k < length (msg_iters fs dest)" using k0 nth(1) by simp
    fix x st1 st2 assume "x \<in> set (msg_iters fs dest)" and d: "pb_field_set_to_default E (Suc d) x st1 = Some st2"
    then obtain j where j: "j < n_fields fs" "x = iter_at fs dest j" by (metis in_set_conv_nth nth)
    have c: "cur x = fs ! j" unfolding j(2) by (rule cur_iter_at [OF l(1) j(1)])
    have p: "placed x" unfolding j(2) by (rule layout_placed [OF Suc.prems(1) j(1)])
    have room: "PB_HTYPE (type (fs ! j)) \<noteq> PB_HTYPE_REPEATED \<Longrightarrow> data_room (fs ! j) = unat (data_size (fs ! j))"
      by (simp add: data_room_def item_count_def)
    have "unset EE (mem st2) d x"
    proof (rule defaults_field [OF p d, where A = "fc_region E d"])
      fix s1 s2 assume s: "PB_LTYPE (type (cur x)) = PB_LTYPE_SUBMESSAGE" "PB_HTYPE (type (cur x)) \<noteq> PB_HTYPE_REPEATED"
        "pb_message_set_to_defaults E d (d_fields_at E (fptr (cur x))) (pData x) s1 = Some s2"
      show "keeps (span (pData x) (data_room (cur x)) \<union> fc_region E d) s1 s2"
        using st_okD [OF layout_defaults [OF sub(1) [OF j(1)]]] s room c unfolding j(2) by simp
    next
      show "span (pSize x) (size_room (cur x)) \<inter> fc_region E d = {}" using l(7) [OF j(1)] fc j(2) by (auto simp: region_def)
    qed
    moreover have "fresh EE (mem st2) d (fields_at EE (fptr (cur x))) (pData x)"
      if sm: "PB_LTYPE (type (cur x)) = PB_LTYPE_SUBMESSAGE" "PB_HTYPE (type (cur x)) \<noteq> PB_HTYPE_REPEATED"
    proof -
      have f: "plain_type (cur x)" using p by (simp add: placed_def)
      have "static_to_default (message_loop (pb_field_set_to_default E d)) E x st1 = Some st2"
        using d plain_typeD(2,8) [OF f] by (simp add: pb_field_set_to_default.simps Let_def)
      moreover have "PB_HTYPE (type (cur x)) \<noteq> PB_HTYPE_ONEOF" using f by (auto simp: plain_type_def Let_def)
      ultimately obtain s1 where "pb_message_set_to_defaults E d (d_fields_at E (fptr (cur x))) (pData x) s1 = Some st2"
        using sm by (auto simp: static_to_default_def pb_message_set_to_defaults_def Let_def)
      then show ?thesis using Suc.IH [OF sub [OF j(1)]] sm c unfolding j(2) E [symmetric] by simp
    qed
    ultimately show "good x st2" by (simp add: good_def)
  next
    fix i j st1 st2 assume ij: "i < j" "j < length (msg_iters fs dest)"
      and d: "pb_field_set_to_default E (Suc d) (msg_iters fs dest ! j) st1 = Some st2" and g: "good (msg_iters fs dest ! i) st1"
    have j: "j < n_fields fs" and i: "i < n_fields fs" using ij nth(1) by simp_all
    have c: "cur (iter_at fs dest i) = fs ! i" by (rule cur_iter_at [OF l(1) i])
    have "keeps (region (iter_at fs dest j) \<union> fc_region E d) st1 st2"
      using st_okD [OF default_field_ok [OF layout_field_ok [OF Suc.prems(1) j]]] d nth(2) [OF j] by simp
    moreover have "region (iter_at fs dest i) \<inter> (region (iter_at fs dest j) \<union> fc_region E d) = {}"
      using l(10) [OF i j] ij(1) l(7) [OF i] fc by auto
    ultimately have ag: "agree (region (iter_at fs dest i)) (mem st1) (mem st2)" by (rule keeps_agree)
    have "fresh EE (mem st2) d (fields_at EE (fptr (fs ! i))) (pData (iter_at fs dest i))"
      if sm: "PB_LTYPE (type (fs ! i)) = PB_LTYPE_SUBMESSAGE" "PB_HTYPE (type (fs ! i)) \<noteq> PB_HTYPE_REPEATED"
    proof -
      have q: "pData (iter_at fs dest i) \<in> set (items_of (iter_at fs dest i))" using sm by (intro pData_in) (simp add: c)
      show ?thesis
        using fresh_local [OF E sub(1) [OF i sm] agree_mono [OF ag]] item_region [OF q] g sm
        by (simp add: good_def nth(2) [OF i] c E del: iter_at.simps)
    qed
    then show "good (msg_iters fs dest ! i) st2"
      using unset_local [OF layout_placed [OF Suc.prems(1) i] ag] g by (simp add: good_def nth(2) [OF i] c del: iter_at.simps)
  qed
  show ?case
  proof (rule freshI)
    fix k assume k: "k < n_fields fs"
    note g = good [OF k, unfolded nth(2) [OF k] good_def cur_iter_at [OF l(1) k]]
    show "unset EE (mem st') d (iter_at fs dest k)" using g by blast
    show "fresh EE (mem st') d (fields_at EE (fptr (fs ! k))) (pData (iter_at fs dest k))"
      if "PB_LTYPE (type (fs ! k)) = PB_LTYPE_SUBMESSAGE" "PB_HTYPE (type (fs ! k)) \<noteq> PB_HTYPE_REPEATED"
      using g that by blast
  qed (rule l(1))
qed (simp add: rt_layout.simps)

end
