(* ===== verification/PbRounds.thy ===== *)
theory PbRounds
  imports PbLayout
begin

text \<open>
  The values that proto3 does not transmit, the rounds of the decoding loop as steps that each consume what the encoder wrote, and
  the bits of the required fields.
\<close>

unbundle bit_operations_syntax

section \<open>Default values on the wire\<close>

lemma byte_shifted_0: "n + 8 \<le> LENGTH('a) \<Longrightarrow> push_bit n (ucast (b :: byte) :: 'a::len word) = 0 \<longleftrightarrow> b = 0"
proof
  assume n: "n + 8 \<le> LENGTH('a)" and "push_bit n (ucast b :: 'a word) = 0"
  then have z: "\<not> bit (push_bit n (ucast b :: 'a word)) i" for i by simp
  show "b = 0"
  proof (rule bit_word_eqI)
    fix i assume "i < LENGTH(8)"
    then show "bit b i = bit (0 :: byte) i" using z [of "n + i"] n by (simp add: bit_simps)
  qed
qed simp

lemma loads_0:
  "load16 m p = 0 \<longleftrightarrow> list_all (\<lambda>b. b = 0) (mem_bytes m p 2)" "load32 m p = 0 \<longleftrightarrow> list_all (\<lambda>b. b = 0) (mem_bytes m p 4)"
  "load64 m p = 0 \<longleftrightarrow> list_all (\<lambda>b. b = 0) (mem_bytes m p 8)"
proof -
  have c: "(ucast (b :: byte) :: 'a::len word) = 0 \<longleftrightarrow> b = 0" if "8 \<le> LENGTH('a)" for b
    using byte_shifted_0 [of 0 b] that by simp
  have b: "mem_bytes m p 2 = [m p, m (p + 1)]" "mem_bytes m p 4 = [m p, m (p + 1), m (p + 2), m (p + 3)]"
    "mem_bytes m p 8 = [m p, m (p + 1), m (p + 2), m (p + 3), m (p + 4), m (p + 5), m (p + 6), m (p + 7)]"
    by (simp_all add: mem_bytes_def upt_rec)
  show "load16 m p = 0 \<longleftrightarrow> list_all (\<lambda>b. b = 0) (mem_bytes m p 2)"
    by (simp add: load16_def b c byte_shifted_0 or_eq_0_iff del: push_bit_numeral)
  show "load32 m p = 0 \<longleftrightarrow> list_all (\<lambda>b. b = 0) (mem_bytes m p 4)"
    by (simp add: load32_def fixed32_value_def b c byte_shifted_0 or_eq_0_iff)
  show "load64 m p = 0 \<longleftrightarrow> list_all (\<lambda>b. b = 0) (mem_bytes m p 8)"
    by (simp add: load64_def fixed64_value_def b c byte_shifted_0 or_eq_0_iff)
qed

lemma extended_0:
  "(scast (a :: byte) :: 64 word) = 0 \<longleftrightarrow> a = 0" "(scast (b :: uint16) :: 64 word) = 0 \<longleftrightarrow> b = 0"
  "(scast (c :: uint32) :: 64 word) = 0 \<longleftrightarrow> c = 0" "(ucast a :: 64 word) = 0 \<longleftrightarrow> a = 0"
  "(ucast b :: 64 word) = 0 \<longleftrightarrow> b = 0" "(ucast c :: 64 word) = 0 \<longleftrightarrow> c = 0"
  using cast_casts(1) [of a] cast_casts(2) [of b] cast_casts(3) [of c] cast_casts(4) [of a] cast_casts(5) [of b] cast_casts(6) [of c]
  by (metis scast_0 ucast_0)+

lemma length_varint_buffer_0: "length (varint_buffer 0) = 1"
  by code_simp

lemma varint_buffer_0: "varint_buffer v = varint_buffer 0 \<longleftrightarrow> v = 0"
proof
  assume "varint_buffer v = varint_buffer 0"
  then show "v = 0" using varint_codec.prefix_free [where v = v and w = 0 and r = "[]" and r' = "[]"] length_varint_buffer_0 by simp
qed simp

lemma zigzag_0: "zigzag v = 0 \<longleftrightarrow> v = 0"
proof
  have z: "zigzag 0 = 0" "unzigzag 0 = 0" by code_simp+
  then show "zigzag v = 0 \<Longrightarrow> v = 0" "v = 0 \<Longrightarrow> zigzag v = 0" using unzigzag_zigzag [of v] by auto
qed

lemma read_0:
  assumes "read_signed m f p = Some x \<or> read_unsigned m f p = Some x"
  shows "x = 0 \<longleftrightarrow> list_all (\<lambda>b. b = 0) (mem_bytes m p (unat (data_size f)))"
proof -
  have "mem_bytes m p 1 = [m p]" by (simp add: mem_bytes_def)
  then show ?thesis
    using assms by (auto simp: read_signed_def read_unsigned_def extended_0 loads_0 split: if_splits)
qed

text \<open>The encoding of the value that an optional field of proto3 does not transmit.\<close>

definition default_bytes :: "pb_field_t \<Rightarrow> byte list" where
  "default_bytes f = (let l = PB_LTYPE (type f) in
     if l = PB_LTYPE_FIXED32 then fixed32_bytes 0 else if l = PB_LTYPE_FIXED64 then fixed64_bytes 0
     else if l \<le> PB_LTYPE_SVARINT then varint_buffer 0 else delimited [])"

lemma delimited_Nil_iff: "delimited bs = delimited [] \<longleftrightarrow> bs = []"
proof
  assume d: "delimited bs = delimited []"
  have "length (varint_buffer (word_of_nat (length bs))) + length bs = 1"
    using arg_cong [OF d, of length] length_varint_buffer_0 by (simp add: delimited_def)
  then show "bs = []" by (cases bs; cases "varint_buffer (word_of_nat (length bs))") auto
qed simp

lemma default_iff:
  assumes f: "plain_type f" and h: "PB_HTYPE (type f) = PB_HTYPE_OPTIONAL" "size_offset f = 0"
    and l: "PB_LTYPE (type f) \<noteq> PB_LTYPE_FIXED_LENGTH_BYTES" and d: "d \<noteq> 0" and p: "p \<noteq> 0"
    and v: "spec_value EE m sub f p = bytes v"
  shows "pb_check_proto3_default_value EE m d f p = Some (v = default_bytes f)"
proof -
  note F = plain_typeD [OF f]
  let ?l = "PB_LTYPE (type f)" and ?zero = "list_all (\<lambda>b. b = 0) (mem_bytes m p (unat (data_size f)))"
  have ns: "?l \<noteq> PB_LTYPE_SUBMESSAGE" using F(12) h by blast
  obtain e where d: "d = Suc e" using d by (cases d) auto
  have u: "unat ?l \<le> 10" "unat ?l \<noteq> 9" "unat ?l \<noteq> 8" "unat ?l \<noteq> 10"
    using F(1) ns l by (auto simp: valid_type_def word_le_nat_alt word_unat_eq_iff)
  then have "unat ?l \<in> {0, 1, 2, 3, 4, 5, 6, 7}" by (simp, presburger)
  then have cases: "?l \<in> {0, 1, 2, 3, 4, 5, 6, 7}" by (auto simp: word_unat_eq_iff)
  have other: "pb_check_proto3_default_value EE m d f p = Some ?zero" if "?l \<noteq> 6" "?l \<noteq> 7"
    using that ns l h F(2) by (simp add: d Let_def)
  have sz: "?l = 0 \<Longrightarrow> data_size f = 1" "?l = 4 \<Longrightarrow> data_size f = 4" "?l = 5 \<Longrightarrow> data_size f = 8"
    using f by (auto simp: plain_type_def Let_def)
  show ?thesis
  proof (cases "?l \<in> {6, 7}")
    case False
    have "v = default_bytes f \<longleftrightarrow> ?zero"
    proof -
      have one: "mem_bytes m p 1 = [m p]" by (simp add: mem_bytes_def)
      have f4: "fixed32_bytes x = fixed32_bytes 0 \<longleftrightarrow> x = 0" for x by (metis fixed32_value_bytes)
      have f8: "fixed64_bytes x = fixed64_bytes 0 \<longleftrightarrow> x = 0" for x by (metis fixed64_value_bytes)
      have b1: "varint_buffer (1 :: uint64) \<noteq> varint_buffer 0" by (simp add: varint_buffer_0)
      consider "?l = 0" | "?l = 1" | "?l = 2" | "?l = 3" | "?l = 4" | "?l = 5" using cases False by auto
      then show ?thesis
      proof cases
        case 1
        then show ?thesis using v sz one b1 by (cases "m p = 0") (auto simp: spec_value_def default_bytes_def safe_read_bool_def)
      next
        case 2
        then show ?thesis using v read_0 [of m f p] by (auto simp: spec_value_def default_bytes_def bytes_Some varint_buffer_0)
      next
        case 3
        then show ?thesis using v read_0 [of m f p] by (auto simp: spec_value_def default_bytes_def bytes_Some varint_buffer_0)
      next
        case 4
        then show ?thesis using v read_0 [of m f p] by (auto simp: spec_value_def default_bytes_def bytes_Some varint_buffer_0 zigzag_0)
      next
        case 5
        then show ?thesis using v sz by (auto simp: spec_value_def default_bytes_def f4 loads_0)
      next
        case 6
        then show ?thesis using v sz by (auto simp: spec_value_def default_bytes_def f8 loads_0)
      qed
    qed
    then show ?thesis using other False by simp
  next
    case True
    then consider (str) "?l = 6" | (st) "?l = 7" by auto
    then show ?thesis
    proof cases
      case str
      have "v = delimited (mem_bytes m p' (unat (load32 m p)))" if "p' = p + 4" for p'
        using v str p that by (auto simp: spec_value_def split: if_splits)
      then have "v = default_bytes f \<longleftrightarrow> mem_bytes m (p + 4) (unat (load32 m p)) = []"
        using str delimited_Nil_iff [of "mem_bytes m (p + 4) (unat (load32 m p))"] by (simp add: default_bytes_def)
      also have "\<dots> \<longleftrightarrow> load32 m p = 0" by (simp add: mem_bytes_def unat_eq_0)
      finally show ?thesis using str F(2) h by (simp add: d Let_def)
    next
      case st
      have "v = default_bytes f \<longleftrightarrow> cstring m f p = []"
        using v st delimited_Nil_iff [of "cstring m f p"] by (simp add: spec_value_def default_bytes_def)
      also have "\<dots> \<longleftrightarrow> m p = 0"
      proof -
        obtain k where k: "strnlen_loop m p 0 (ucast (data_size f)) = word_of_nat k" "\<forall>i < k. m (p + word_of_nat i) \<noteq> 0" "k \<le> unat (data_size f)"
          "k < unat (data_size f) \<longrightarrow> m (p + word_of_nat k) = 0"
          using strnlen_nonzero [of m p 0 "ucast (data_size f)"] by (auto simp: ucast_size)
        have "unat (word_of_nat k :: size_t) = k" using k(3) unat_lt [of "data_size f"] by (intro unat_of_nat_small) simp
        then have "cstring m f p = [] \<longleftrightarrow> k = 0" using k(1) p F(2) by (simp add: cstring_def mem_bytes_def)
        also have "\<dots> \<longleftrightarrow> m p = 0" using k(2,4) F(5) by (cases k) auto
        finally show ?thesis .
      qed
      finally show ?thesis using st F(2) h by (simp add: d Let_def)
    qed
  qed
qed

section \<open>Rounds of the loop\<close>

text \<open>\<open>rounds R bs L st P\<close>: from a stream that has \<open>bs\<close> next, the loop goes through some rounds that consume exactly \<open>bs\<close>, and
  then \<open>P\<close> holds of its local variables and the store. There is at most one round for each byte.\<close>

type_synonym round = "dec_locals \<Rightarrow> pb_istream_t \<Rightarrow> pb_store \<Rightarrow> round_result"

definition rounds :: "round \<Rightarrow> byte list \<Rightarrow> dec_locals \<Rightarrow> pb_store \<Rightarrow> (dec_locals \<Rightarrow> pb_store \<Rightarrow> bool) \<Rightarrow> bool" where
  "rounds R bs L st P \<longleftrightarrow> (\<forall>s rest. istream_ok s \<longrightarrow> i_avail s = bs @ rest \<longrightarrow>
     (\<exists>k L' st'. k \<le> length bs \<and> P L' st' \<and> (\<forall>n. noinit_loop R (k + n) L s st = noinit_loop R n L' (i_adv s (length bs)) st')))"

lemma rounds_none: "P L st \<Longrightarrow> rounds R [] L st P"
  unfolding rounds_def by (intro allI impI exI [of _ 0] exI [of _ L] exI [of _ st]) simp

lemma rounds_mono: "rounds R bs L st P \<Longrightarrow> (\<And>L st. P L st \<Longrightarrow> Q L st) \<Longrightarrow> rounds R bs L st Q"
  unfolding rounds_def by meson

lemma rounds_then:
  assumes f: "rounds R xs L st P" and g: "\<And>L st. P L st \<Longrightarrow> rounds R ys L st Q"
  shows "rounds R (xs @ ys) L st Q"
  unfolding rounds_def
proof (intro allI impI)
  fix s rest assume s: "istream_ok s" "i_avail s = (xs @ ys) @ rest"
  obtain k L1 st1 where k: "k \<le> length xs" "P L1 st1" "\<And>n. noinit_loop R (k + n) L s st = noinit_loop R n L1 (i_adv s (length xs)) st1"
    using f s unfolding rounds_def by (metis append.assoc)
  have "istream_ok (i_adv s (length xs))" "i_avail (i_adv s (length xs)) = ys @ rest" using adv_step [of s xs] s by simp_all
  then obtain j L2 st2 where j: "j \<le> length ys" "Q L2 st2"
    "\<And>n. noinit_loop R (j + n) L1 (i_adv s (length xs)) st1 = noinit_loop R n L2 (i_adv (i_adv s (length xs)) (length ys)) st2"
    using g [OF k(2)] unfolding rounds_def by blast
  have "noinit_loop R ((k + j) + n) L s st = noinit_loop R n L2 (i_adv s (length (xs @ ys))) st2" for n
    using k(3) [of "j + n"] j(3) [of n] by (simp add: add.assoc)
  then show "\<exists>k L' st'. k \<le> length (xs @ ys) \<and> Q L' st' \<and>
      (\<forall>n. noinit_loop R (k + n) L s st = noinit_loop R n L' (i_adv s (length (xs @ ys))) st')"
    using k(1) j(1,2) by (intro exI [of _ "k + j"] exI [of _ L2] exI [of _ st2]) simp
qed

lemma rounds_one:
  assumes "bs \<noteq> []" and "\<And>s rest. istream_ok s \<Longrightarrow> i_avail s = bs @ rest \<Longrightarrow> \<exists>L' st'. R L s st = Some (Continue, L', i_adv s (length bs), st') \<and> P L' st'"
  shows "rounds R bs L st P"
  unfolding rounds_def
proof (intro allI impI)
  fix s rest assume s: "istream_ok s" "i_avail s = bs @ rest"
  then obtain L' st' where r: "R L s st = Some (Continue, L', i_adv s (length bs), st')" "P L' st'" using assms(2) by blast
  have "bytes_left s \<noteq> 0" using length_i_avail [OF s(1)] s(2) assms(1) by auto
  then have "noinit_loop R (1 + n) L s st = noinit_loop R n L' (i_adv s (length bs)) st'" for n using r(1) by simp
  then show "\<exists>k L' st'. k \<le> length bs \<and> P L' st' \<and> (\<forall>n. noinit_loop R (k + n) L s st = noinit_loop R n L' (i_adv s (length bs)) st')"
    using r(2) assms(1) by (intro exI [of _ 1] exI [of _ L'] exI [of _ st']) (cases bs, auto)
qed

section \<open>Required fields\<close>

text \<open>The bits of \<^verbatim>\<open>fields_seen\<close> when the first \<open>n\<close> required fields have been seen.\<close>

definition seen_upto :: "nat \<Rightarrow> uint32 list" where
  "seen_upto n = [mask (min n 32), mask (min (n - 32) 32)]"

definition n_required :: "pb_field_t list \<Rightarrow> nat" where
  "n_required fs = length (filter (\<lambda>f. PB_HTYPE (type f) = PB_HTYPE_REQUIRED) fs)"

lemma seen_upto_cap: "64 \<le> n \<Longrightarrow> seen_upto n = seen_upto 64"
  by (simp add: seen_upto_def)

lemma seen_bits:
  "list_all (\<lambda>n. let i = word_of_nat n :: uint32; w = unat (drop_bit 5 i) in
     (seen_upto n)[w := seen_upto n ! w OR push_bit (unat (i AND 31)) 1] = seen_upto (Suc n)) [0..<64]"
  "list_all (\<lambda>n. all_seen (word_of_nat n) (seen_upto n)) [0..<65]"
  by code_simp+

lemma mark_seen_at:
  assumes "required_field_index it = word_of_nat n" and "n < 2 ^ 32"
  shows "mark_seen it (seen_upto n) = seen_upto (if PB_HTYPE (type (cur it)) = PB_HTYPE_REQUIRED then Suc n else n)"
proof -
  have u: "(word_of_nat n :: uint32) < 64 \<longleftrightarrow> n < 64" using assms(2) by (simp add: word_less_nat_alt unat_of_nat_small)
  show ?thesis
  proof (cases "PB_HTYPE (type (cur it)) = PB_HTYPE_REQUIRED \<and> n < 64")
    case True
    then have "n \<in> set [0..<64]" by simp
    from bspec [OF seen_bits(1) [unfolded list_all_iff] this] show ?thesis
      using True assms(1) u by (simp add: mark_seen_def Let_def)
  next
    case False
    then show ?thesis using assms(1) u seen_upto_cap [of n] seen_upto_cap [of "Suc n"] by (auto simp: mark_seen_def Let_def)
  qed
qed

lemma all_seen_at: "all_seen (if (word_of_nat n :: uint32) > 64 then 64 else word_of_nat n) (seen_upto n)" if "n < 2 ^ 32"
proof -
  have u: "(word_of_nat n :: uint32) > 64 \<longleftrightarrow> 64 < n" using that by (simp add: word_less_nat_alt unat_of_nat_small)
  have b: "all_seen (word_of_nat i) (seen_upto i)" if "i < 65" for i using seen_bits(2) that by (simp add: list_all_iff)
  show ?thesis using b [of n] b [of 64] u seen_upto_cap [of n] by auto
qed

lemma required_next: "pb_field_iter_next it = (True, it') \<Longrightarrow>
    required_field_index it' = required_field_index it + (if PB_HTYPE (type (cur it)) = PB_HTYPE_REQUIRED then 1 else 0)"
  by (auto simp: pb_field_iter_next_def Let_def split: if_splits)

lemma required_index:
  assumes "wf_fields fs"
  shows "k < n_fields fs \<Longrightarrow> required_field_index (iter_at fs dest k) = word_of_nat (n_required (take k fs))"
proof (induction k)
  case 0
  then show ?case by (simp add: pb_field_iter_begin_def Let_def n_required_def)
next
  case (Suc k)
  have k: "k < n_fields fs" using Suc.prems by simp
  have nxt: "pb_field_iter_next (iter_at fs dest k) = (True, iter_at fs dest (Suc k))" using iter_next_at [OF assms k, of dest] Suc.prems by (simp del: iter_at.simps)
  have "take (Suc k) fs = take k fs @ [fs ! k]" using Suc.prems by (simp add: take_Suc_conv_app_nth n_fields_def)
  then have n: "n_required (take (Suc k) fs) = n_required (take k fs) + (if PB_HTYPE (type (fs ! k)) = PB_HTYPE_REQUIRED then 1 else 0)"
    by (simp add: n_required_def)
  have "required_field_index (iter_at fs dest (Suc k)) = required_field_index (iter_at fs dest k) +
      (if PB_HTYPE (type (fs ! k)) = PB_HTYPE_REQUIRED then 1 else 0)"
    using required_next [OF nxt] cur_iter_at [OF assms k, of dest] by simp
  then show ?case using Suc.IH [OF k] n by (simp del: iter_at.simps)
qed

lemma n_required_le: "n_required fs \<le> length fs"
  by (simp add: n_required_def)

lemma req_field_count_at:
  assumes wf: "wf_fields fs" and k: "k < n_fields fs"
  shows "req_field_count (iter_at fs dest k) =
    Some (let n = word_of_nat (n_required (take (n_fields fs) fs)) in if n > 64 then 64 else n)"
proof -
  let ?last = "n_fields fs - 1"
  have l: "?last < n_fields fs" "n_fields fs \<le> length fs" using k by (simp_all add: n_fields_def)
  have s: "seek_end (length fs) (iter_at fs dest k) = Some (required_field_index (iter_at fs dest ?last), type (fs ! ?last), iter_at fs dest 0)"
    using k by (intro seek_end_at [OF wf]) (simp_all add: n_fields_def)
  have t0: "tag (cur (iter_at fs dest 0)) \<noteq> 0" using cur_iter_at [OF wf, of 0 dest] wf_fields_tag [OF wf, of 0] wf k
    by (simp add: wf_fields_def del: iter_at.simps)
  have "take (n_fields fs) fs = take ?last fs @ [fs ! ?last]"
    using take_Suc_conv_app_nth [of ?last fs] l k by simp
  then have n: "n_required (take (n_fields fs) fs) = n_required (take ?last fs) + (if PB_HTYPE (type (fs ! ?last)) = PB_HTYPE_REQUIRED then 1 else 0)"
    by (simp add: n_required_def)
  show ?thesis
    using s t0 required_index [OF wf l(1), of dest] unfolding n by (simp add: req_field_count_def Let_def add.commute del: iter_at.simps)
qed

end
