(* ===== verification/PbFieldBack.thy ===== *)
theory PbFieldBack
  imports PbRounds
begin

text \<open>
  One field through the wire: the decoder reads what the encoder wrote for it, and the decoded field has the same encoding. The
  nested messages are covered by a hypothesis (\<open>decodes_back\<close>) that \<open>PbRoundTrip\<close> discharges by induction.
\<close>

section \<open>Values\<close>

lemma reads_keeps:
  assumes "dec_ok t A f" and "reads f bs st P"
  shows "reads f bs st (\<lambda>st'. P st' \<and> keeps A st st')"
  using assms(2) dec_okD(3) [OF assms(1)] unfolding reads_def by meson

text \<open>The items of a field that are encoded, and what the decoder needs of them besides: a string has to end before its place
  does. \<^verbatim>\<open>NULL\<close> is not the place of an item.\<close>

definition live_items :: "memory \<Rightarrow> pb_field_iter_t \<Rightarrow> ptr list" where
  "live_items m it = (let f = cur it; h = PB_HTYPE (type f) in
     if h = PB_HTYPE_REPEATED then item_ptrs (pData it) (ucast (data_size f)) (load32 m (pSize it))
     else if h = PB_HTYPE_OPTIONAL \<and> size_offset f \<noteq> 0 \<and> \<not> safe_read_bool m (pSize it) then []
     else [pData it])"

fun src_ok :: "pb_env \<Rightarrow> memory \<Rightarrow> nat \<Rightarrow> pb_field_t list \<Rightarrow> ptr \<Rightarrow> bool" where
  "src_ok EE m 0 fs src = True"
| "src_ok EE m (Suc d) fs src \<longleftrightarrow> list_all (\<lambda>it. list_all (\<lambda>p. p \<noteq> 0 \<and>
       (if PB_LTYPE (type (cur it)) = PB_LTYPE_STRING then length (cstring m (cur it) p) < unat (data_size (cur it))
        else if PB_LTYPE (type (cur it)) = PB_LTYPE_SUBMESSAGE then src_ok EE m d (fields_at EE (fptr (cur it))) p else True)) (live_items m it))
     (map (iter_at fs src) [0..<n_fields fs])"

text \<open>The claim for messages nested at most \<open>d\<close> deep: an encoded message is decoded into one with the same encoding.\<close>

definition decodes_back :: "pb_dec_env \<Rightarrow> pb_env \<Rightarrow> callback_out \<Rightarrow> nat \<Rightarrow> bool" where
  "decodes_back E EE C d \<longleftrightarrow> (\<forall>B fs dest m src bs st. rt_layout E d B fs dest \<longrightarrow> B \<inter> fc_region E d = {} \<longrightarrow> 0 \<notin> B \<longrightarrow>
     fresh EE (mem st) d fs dest \<longrightarrow> src \<noteq> 0 \<longrightarrow> src_ok EE m d fs src \<longrightarrow> spec_message EE C m d fs src = bytes bs \<longrightarrow> length bs < 2 ^ 32 \<longrightarrow>
     reads_all (pb_decode_noinit E d fs dest) bs st (\<lambda>st'. spec_message EE C (mem st') d fs dest = bytes bs))"

text \<open>The setting of the lemmas below: a message of type \<open>fs\<close> at \<open>dest\<close>, and the claim for the messages in it.\<close>

definition setting :: "pb_dec_env \<Rightarrow> pb_env \<Rightarrow> callback_out \<Rightarrow> nat \<Rightarrow> ptr set \<Rightarrow> pb_field_t list \<Rightarrow> ptr \<Rightarrow> bool" where
  "setting E EE C d B fs dest \<longleftrightarrow> rt_layout E (Suc d) B fs dest \<and> B \<inter> fc_region E (Suc d) = {} \<and> 0 \<notin> B \<and>
     d_fields_at E = fields_at EE \<and> decodes_back E EE C d"

abbreviation (input) value_at where
  "value_at EE C d st f q \<equiv> spec_value EE (mem st) (spec_message EE C (mem st) d) f q"

lemma settingD:
  assumes "setting E EE C d B fs dest"
  shows "rt_layout E (Suc d) B fs dest" "B \<inter> fc_region E d = {}" "B \<inter> span (fixed_count_at E d) 4 = {}" "0 \<notin> B"
    "d_fields_at E = fields_at EE" "decodes_back E EE C d"
  using assms by (auto simp: setting_def fc_region_Suc)

lemma setting_item:
  assumes S: "setting E EE C d B fs dest" and k: "k < n_fields fs" and q: "q \<in> set (items_of (iter_at fs dest k))"
  shows "span q (unat (data_size (fs ! k))) \<subseteq> region (iter_at fs dest k)" "span q (unat (data_size (fs ! k))) \<subseteq> B"
    "span q (unat (data_size (fs ! k))) \<inter> fc_region E d = {}" "q \<noteq> 0"
proof -
  note l = layoutD [OF settingD(1) [OF S]]
  show r: "span q (unat (data_size (fs ! k))) \<subseteq> region (iter_at fs dest k)" using item_region [OF q] cur_iter_at [OF l(1) k] by simp
  then show b: "span q (unat (data_size (fs ! k))) \<subseteq> B" using l(7) [OF k] by blast
  then show "span q (unat (data_size (fs ! k))) \<inter> fc_region E d = {}" using settingD(2) [OF S] by blast
  have "q \<in> B" using b span_start [OF plain_typeD(5) [OF l(6) [OF k]]] by blast
  then show "q \<noteq> 0" using settingD(4) [OF S] by blast
qed

lemma value_kept:
  assumes S: "setting E EE C d B fs dest" and k: "k < n_fields fs" and q: "q \<in> set (items_of (iter_at fs dest k))"
    and ag: "agree (span q (unat (data_size (fs ! k)))) m m'"
  shows "spec_value EE m' (spec_message EE C m' d) (fs ! k) q = spec_value EE m (spec_message EE C m d) (fs ! k) q"
proof (rule value_local [OF _ ag])
  note l = layoutD [OF settingD(1) [OF S]]
  show "plain_type (fs ! k)" by (rule l(6) [OF k])
  assume sm: "PB_LTYPE (type (fs ! k)) = PB_LTYPE_SUBMESSAGE"
  show "spec_message EE C m' d (fields_at EE (fptr (fs ! k))) q = spec_message EE C m d (fields_at EE (fptr (fs ! k))) q"
    using message_local [OF settingD(5) [OF S] l(9) [OF k sm q] ag] unfolding settingD(5) [OF S] .
qed

lemma decode_init_reads:
  assumes S: "setting E EE C d B fs dest" and k: "k < n_fields fs" and q: "q \<in> set (items_of (iter_at fs dest k))"
    and sm: "PB_LTYPE (type (fs ! k)) = PB_LTYPE_SUBMESSAGE"
    and src: "p \<noteq> 0" "src_ok EE m d (fields_at EE (fptr (fs ! k))) p" "spec_message EE C m d (fields_at EE (fptr (fs ! k))) p = bytes bs" "length bs < 2 ^ 32"
  shows "reads_all (decode_init E d (pb_decode_noinit E d) (d_fields_at E (fptr (fs ! k))) q) bs st
      (\<lambda>st'. spec_message EE C (mem st') d (fields_at EE (fptr (fs ! k))) q = bytes bs)"
    and "fresh EE (mem st) d (fields_at EE (fptr (fs ! k))) q \<Longrightarrow> reads_all (pb_decode_noinit E d (d_fields_at E (fptr (fs ! k))) q) bs st
      (\<lambda>st'. spec_message EE C (mem st') d (fields_at EE (fptr (fs ! k))) q = bytes bs)"
proof -
  note l = layoutD [OF settingD(1) [OF S]] and E = settingD(5) [OF S]
  let ?fs = "fields_at EE (fptr (fs ! k))"
  have lay: "rt_layout E d (span q (unat (data_size (fs ! k)))) ?fs q" using l(9) [OF k sm q] unfolding E .
  note it = setting_item [OF S k q]
  have nul: "0 \<notin> span q (unat (data_size (fs ! k)))" using it(2) settingD(4) [OF S] by blast
  show noinit: "reads_all (pb_decode_noinit E d (d_fields_at E (fptr (fs ! k))) q) bs st (\<lambda>st'. spec_message EE C (mem st') d ?fs q = bytes bs)"
    if "fresh EE (mem st) d ?fs q" for st
    using settingD(6) [OF S] lay it(3) nul src that unfolding decodes_back_def E by blast
  obtain st1 where d: "pb_message_set_to_defaults E d ?fs q st = Some st1"
    using st_ok_returns [OF layout_defaults [OF lay], of st] by auto
  have "reads_all (pb_decode_noinit E d ?fs q) bs st1 (\<lambda>st'. spec_message EE C (mem st') d ?fs q = bytes bs)"
    using noinit [of st1] defaults_fresh [OF E lay it(3) d] unfolding E by blast
  moreover have "decode_init E d (pb_decode_noinit E d) ?fs q s st = (case pb_decode_noinit E d ?fs q s st1 of None \<Rightarrow> None
               | Some (True, s', st') \<Rightarrow> Some (True, s', st')
               | Some (False, s', st') \<Rightarrow> map_option (\<lambda>st2. (False, s', st2)) (pb_release E d ?fs q st'))" for s
    using d by (simp add: decode_init_def d_then_def d_do_def)
  ultimately show "reads_all (decode_init E d (pb_decode_noinit E d) (d_fields_at E (fptr (fs ! k))) q) bs st
      (\<lambda>st'. spec_message EE C (mem st') d ?fs q = bytes bs)"
    unfolding reads_all_def E by fastforce
qed

text \<open>One item of a field, from where the encoder read it to where the decoder puts it.\<close>

lemma length_delimited: "length bs \<le> length (delimited bs)"
  by (simp add: delimited_def)

lemma value_reads:
  assumes S: "setting E EE C d B fs dest" and k: "k < n_fields fs" and q: "q \<in> set (items_of (iter_at fs dest k))"
    and v: "spec_value EE m (spec_message EE C m d) (fs ! k) p = bytes v" and n: "length v < 2 ^ 32" and p: "p \<noteq> 0"
    and str: "PB_LTYPE (type (fs ! k)) = PB_LTYPE_STRING \<Longrightarrow> length (cstring m (fs ! k) p) < unat (data_size (fs ! k))"
    and sub: "PB_LTYPE (type (fs ! k)) = PB_LTYPE_SUBMESSAGE \<Longrightarrow> src_ok EE m d (fields_at EE (fptr (fs ! k))) p"
    and fr: "PB_LTYPE (type (fs ! k)) = PB_LTYPE_SUBMESSAGE \<Longrightarrow> PB_HTYPE (type (fs ! k)) \<noteq> PB_HTYPE_REPEATED \<Longrightarrow>
      fresh EE (mem st) d (fields_at EE (fptr (fs ! k))) q"
  shows "reads (PB_DECODERS E d (pb_decode_noinit E d) (PB_LTYPE (type (fs ! k))) (fs ! k) q) v st
    (\<lambda>st'. value_at EE C d st' (fs ! k) q = bytes v \<and> keeps (span q (unat (data_size (fs ! k))) \<union> fc_region E d) st st')"
proof (rule reads_keeps)
  let ?f = "fs ! k" and ?A = "span q (unat (data_size (fs ! k))) \<union> fc_region E d"
  note l = layoutD [OF settingD(1) [OF S]] and E = settingD(5) [OF S]
  note F = plain_typeD [OF l(6) [OF k]] and it = setting_item [OF S k q]
  show "dec_ok True ?A (PB_DECODERS E d (pb_decode_noinit E d) (PB_LTYPE (type ?f)) ?f q)"
  proof (rule dec_ok_value [OF F(1)])
    show "item_fits ?A ?f q" using F(2,7) by (simp add: item_fits_def)
    show "PB_LTYPE (type ?f) = PB_LTYPE_SUBMESSAGE \<Longrightarrow> sub_ok True ?A E d (pb_decode_noinit E d) (d_fields_at E (fptr ?f)) q"
      using layout_sub [OF settingD(1) [OF S] k q, of ?A] by (simp add: subs_ok_def)
  qed
  have ok: "value_ok m ?f p" using F(2,5,9) str by (auto simp: value_ok_def word_less_nat_alt)
  note dec = reads_integers [OF v, of E q st "\<lambda>st. spec_message EE C (mem st) d"]
    reads_fixed [OF v, of E q st "\<lambda>st. spec_message EE C (mem st) d"]
    reads_strings [OF v ok it(4), of E st "\<lambda>st. spec_message EE C (mem st) d"]
  have msg: "reads (pb_dec_submessage E d (pb_decode_noinit E d) ?f q) v st (\<lambda>st'. value_at EE C d st' ?f q = bytes v)"
    if sm: "PB_LTYPE (type ?f) = PB_LTYPE_SUBMESSAGE"
  proof -
    obtain bs where bs: "spec_message EE C m d (fields_at EE (fptr ?f)) p = bytes bs" "v = delimited bs"
    proof -
      have "map_option (map_option delimited) (spec_message EE C m d (fields_at EE (fptr ?f)) p) = bytes v"
        using v sm F(10) by (simp add: spec_value_def)
      then show thesis using that by (cases "spec_message EE C m d (fields_at EE (fptr ?f)) p" rule: outcome_cases) (auto simp: bytes_def)
    qed
    have n32: "length bs < 2 ^ 32" using n length_delimited [of bs] bs(2) by simp
    note init = decode_init_reads [OF S k q sm p sub [OF sm] bs(1) n32]
    have "reads_all ((if PB_HTYPE (type ?f) = PB_HTYPE_REPEATED then decode_init E d (pb_decode_noinit E d) else pb_decode_noinit E d)
        (d_fields_at E (fptr ?f)) q) bs st (\<lambda>st'. spec_message EE C (mem st') d (fields_at EE (fptr ?f)) q = bytes bs)"
      using init(1) [of st] init(2) [of st] fr [OF sm] by simp
    then have "reads_all ((if PB_HTYPE (type ?f) = PB_HTYPE_REPEATED then decode_init E d (pb_decode_noinit E d) else pb_decode_noinit E d)
        (d_fields_at E (fptr ?f)) q) bs st (\<lambda>st'. value_at EE C d st' ?f q = bytes v)"
      by (rule reads_all_mono) (use sm F(10) bs(2) in \<open>simp add: spec_value_def bytes_def\<close>)
    from reads_substream [OF this n32] show ?thesis using sm F(10) bs(2) by (simp add: pb_dec_submessage_def)
  qed
  have u: "unat (PB_LTYPE (type ?f)) \<le> 10" "unat (PB_LTYPE (type ?f)) \<noteq> 9"
    using F(1) by (auto simp: valid_type_def word_le_nat_alt word_unat_eq_iff)
  then have "unat (PB_LTYPE (type ?f)) \<in> {0, 1, 2, 3, 4, 5, 6, 7, 8, 10}" by (simp, presburger)
  then have "PB_LTYPE (type ?f) \<in> {0, 1, 2, 3, 4, 5, 6, 7, 8, 10}" by (auto simp: word_unat_eq_iff)
  then show "reads (PB_DECODERS E d (pb_decode_noinit E d) (PB_LTYPE (type ?f)) ?f q) v st (\<lambda>st'. value_at EE C d st' ?f q = bytes v)"
    using dec msg by (auto simp: PB_DECODERS_def)
qed

section \<open>Arrays\<close>

lemma setting_size:
  assumes S: "setting E EE C d B fs dest" and k: "k < n_fields fs"
  shows "span (pSize (iter_at fs dest k)) (size_room (fs ! k)) \<inter> (span (pData (iter_at fs dest k)) (data_room (fs ! k)) \<union> fc_region E d) = {}"
proof -
  note l = layoutD [OF settingD(1) [OF S]]
  have "span (pSize (iter_at fs dest k)) (size_room (fs ! k)) \<subseteq> B" using l(7) [OF k] by (simp add: region_def cur_iter_at [OF l(1) k])
  then show ?thesis using l(8) [OF k] settingD(2) [OF S] by blast
qed

text \<open>The first \<open>j\<close> items have been decoded.\<close>

definition filled :: "pb_env \<Rightarrow> callback_out \<Rightarrow> nat \<Rightarrow> pb_field_iter_t \<Rightarrow> byte list list \<Rightarrow> nat \<Rightarrow> pb_store \<Rightarrow> bool" where
  "filled EE C d it vs j st \<longleftrightarrow> load32 (mem st) (pSize it) = word_of_nat j \<and> (\<forall>i < j. value_at EE C d st (cur it) (item_at it i) = bytes (vs ! i))"

text \<open>The items that the encoder wrote.\<close>

definition written :: "pb_env \<Rightarrow> callback_out \<Rightarrow> memory \<Rightarrow> nat \<Rightarrow> pb_field_t \<Rightarrow> byte list list \<Rightarrow> ptr list \<Rightarrow> bool" where
  "written EE C m d f vs ps \<longleftrightarrow> length vs = length ps \<and> (\<forall>i < length ps. let p = ps ! i in
     spec_value EE m (spec_message EE C m d) f p = bytes (vs ! i) \<and> length (vs ! i) < 2 ^ 32 \<and> p \<noteq> 0 \<and>
     (PB_LTYPE (type f) = PB_LTYPE_STRING \<longrightarrow> length (cstring m f p) < unat (data_size f)) \<and>
     (PB_LTYPE (type f) = PB_LTYPE_SUBMESSAGE \<longrightarrow> src_ok EE m d (fields_at EE (fptr f)) p))"

lemma written_reads:
  assumes S: "setting E EE C d B fs dest" and k: "k < n_fields fs" and q: "q \<in> set (items_of (iter_at fs dest k))"
    and w: "written EE C m d (fs ! k) vs ps" and i: "i < length ps"
    and fr: "PB_LTYPE (type (fs ! k)) = PB_LTYPE_SUBMESSAGE \<Longrightarrow> PB_HTYPE (type (fs ! k)) \<noteq> PB_HTYPE_REPEATED \<Longrightarrow>
      fresh EE (mem st) d (fields_at EE (fptr (fs ! k))) q"
  shows "reads (PB_DECODERS E d (pb_decode_noinit E d) (PB_LTYPE (type (fs ! k))) (fs ! k) q) (vs ! i) st
    (\<lambda>st'. value_at EE C d st' (fs ! k) q = bytes (vs ! i) \<and> keeps (span q (unat (data_size (fs ! k))) \<union> fc_region E d) st st')"
  using w i by (intro value_reads [OF S k q, where p = "ps ! i" and m = m] fr) (simp_all add: written_def Let_def)


lemma filled_next:
  assumes S: "setting E EE C d B fs dest" and k: "k < n_fields fs" and h: "PB_HTYPE (type (fs ! k)) = PB_HTYPE_REPEATED"
    and j: "j < unat (array_size (fs ! k))" and st: "\<forall>i < j. value_at EE C d st (fs ! k) (item_at (iter_at fs dest k) i) = bytes (vs ! i)"
    and sz: "load32 (mem st) (pSize (iter_at fs dest k)) = z"
    and new: "value_at EE C d st' (fs ! k) (item_at (iter_at fs dest k) j) = bytes (vs ! j)"
    and keep: "keeps (span (item_at (iter_at fs dest k) j) (unat (data_size (fs ! k))) \<union> fc_region E d) st st'"
  shows "\<forall>i < Suc j. value_at EE C d st' (fs ! k) (item_at (iter_at fs dest k) i) = bytes (vs ! i)"
    and "load32 (mem st') (pSize (iter_at fs dest k)) = z"
proof -
  let ?it = "iter_at fs dest k" and ?n = "unat (data_size (fs ! k))"
  note l = layoutD [OF settingD(1) [OF S]]
  have c: "cur ?it = fs ! k" by (rule cur_iter_at [OF l(1) k])
  have cnt: "item_count (fs ! k) = array_size (fs ! k)" using h by (simp add: item_count_def)
  have in_items: "item_at ?it i \<in> set (items_of ?it)" if "i < unat (array_size (fs ! k))" for i
    using item_at_in [of i ?it] that c cnt by simp
  have "agree (span (pSize ?it) 4) (mem st) (mem st')"
  proof (rule keeps_agree [OF keep])
    show "span (pSize ?it) 4 \<inter> (span (item_at ?it j) ?n \<union> fc_region E d) = {}"
      using setting_size [OF S k] h item_span [OF in_items [OF j]] c by (auto simp: size_room_def)
  qed
  then show "load32 (mem st') (pSize ?it) = z" using load_cong(3) sz by metis
  show "\<forall>i < Suc j. value_at EE C d st' (fs ! k) (item_at ?it i) = bytes (vs ! i)"
  proof (intro allI impI)
    fix i assume "i < Suc j"
    show "value_at EE C d st' (fs ! k) (item_at ?it i) = bytes (vs ! i)"
    proof (cases "i = j")
      case False
      then have i: "i < j" "i < unat (array_size (fs ! k))" using \<open>i < Suc j\<close> j by simp_all
      have "span (item_at ?it i) ?n \<inter> span (item_at ?it j) ?n = {}"
        using item_disjoint [of i ?it j] i j cnt plain_typeD(6) [OF l(6) [OF k]] c by simp
      then have "agree (span (item_at ?it i) ?n) (mem st) (mem st')"
        using setting_item(3) [OF S k in_items [OF i(2)]] by (intro keeps_agree [OF keep]) blast
      then show ?thesis using value_kept [OF S k in_items [OF i(2)]] st i(1) by simp
    qed (simp add: new)
  qed
qed

lemma size_stored:
  fixes st :: pb_store
  assumes S: "setting E EE C d B fs dest" and k: "k < n_fields fs" and h: "PB_HTYPE (type (fs ! k)) = PB_HTYPE_REPEATED"
    and st: "\<forall>i < j. value_at EE C d st (fs ! k) (item_at (iter_at fs dest k) i) = bytes (vs ! i)" and j: "j \<le> unat (array_size (fs ! k))"
  shows "\<forall>i < j. value_at EE C d (st\<lparr>mem := store32 (mem st) (pSize (iter_at fs dest k)) z\<rparr>) (fs ! k) (item_at (iter_at fs dest k) i) = bytes (vs ! i)"
    and "load32 (mem (st\<lparr>mem := store32 (mem st) (pSize (iter_at fs dest k)) z\<rparr>)) (pSize (iter_at fs dest k)) = z"
proof -
  let ?it = "iter_at fs dest k" and ?st = "st\<lparr>mem := store32 (mem st) (pSize (iter_at fs dest k)) z\<rparr>"
  note l = layoutD [OF settingD(1) [OF S]]
  have c: "cur ?it = fs ! k" by (rule cur_iter_at [OF l(1) k])
  show "load32 (mem ?st) (pSize ?it) = z" by (simp add: load_store)
  show "\<forall>i < j. value_at EE C d ?st (fs ! k) (item_at ?it i) = bytes (vs ! i)"
  proof (intro allI impI)
    fix i assume i: "i < j"
    have q: "item_at ?it i \<in> set (items_of ?it)" using item_at_in [of i ?it] i j h c by (simp add: item_count_def)
    have "keeps (span (pSize ?it) 4) st ?st" by (rule store32_keeps) simp
    moreover have "span (item_at ?it i) (unat (data_size (fs ! k))) \<inter> span (pSize ?it) 4 = {}"
      using setting_size [OF S k] h item_span [OF q] c by (auto simp: size_room_def)
    ultimately have "agree (span (item_at ?it i) (unat (data_size (fs ! k)))) (mem st) (mem ?st)" by (rule keeps_agree)
    then show "value_at EE C d ?st (fs ! k) (item_at ?it i) = bytes (vs ! i)" using value_kept [OF S k q] st i by simp
  qed
qed

lemma item_ptr_at:
  assumes "plain_type (cur it)" and h: "PB_HTYPE (type (cur it)) = PB_HTYPE_REPEATED" and j: "j < unat (array_size (cur it))"
    and z: "load32 (mem st) (pSize it) = word_of_nat j"
  shows "item_ptr (pData it) it st = item_at it j" and "load32 (mem st) (pSize it) < array_size (cur it)"
proof -
  have u: "unat (word_of_nat j :: uint32) = j" using j unat_lt [of "array_size (cur it)"] by (intro unat_of_nat_small) simp
  then show lt: "load32 (mem st) (pSize it) < array_size (cur it)" using j z by (simp add: word_less_nat_alt)
  have "unat (data_size (cur it)) * unat (array_size (cur it)) < 2 ^ 32" using plain_typeD(6) [OF assms(1)] h by (simp add: data_room_def item_count_def)
  from item_address(1) [OF lt this, of "pData it"] show "item_ptr (pData it) it st = item_at it j"
    using z u by (simp add: item_ptr_def item_at_def)
qed

lemma eats_nonempty:
  assumes "eats f" and "reads f bs st P"
  shows "bs \<noteq> []"
proof
  assume "bs = []"
  let ?s = "pb_istream_from_buffer [] 0"
  have s: "istream_ok ?s" "i_avail ?s = [] @ []" by (simp_all add: istream_ok_def pb_istream_from_buffer_def i_avail_def)
  then obtain st' where "f ?s st = Some (True, i_adv ?s 0, st')" using assms(2) \<open>bs = []\<close> unfolding reads_def by fastforce
  then show False using assms(1) s(1) unfolding eats_def by fastforce
qed

lemma packed_loop_back:
  assumes S: "setting E EE C d B fs dest" and k: "k < n_fields fs" and h: "PB_HTYPE (type (fs ! k)) = PB_HTYPE_REPEATED"
    and l: "PB_LTYPE (type (fs ! k)) \<le> PB_LTYPE_LAST_PACKABLE" and w: "written EE C m d (fs ! k) vs ps" and n: "length ps \<le> unat (array_size (fs ! k))"
  shows "j \<le> length ps \<Longrightarrow> filled EE C d (iter_at fs dest k) vs j st \<Longrightarrow> istream_ok s \<Longrightarrow> i_avail s = concat (drop j vs) \<Longrightarrow> length ps - j < fuel \<Longrightarrow>
    \<exists>st'. static_packed_loop (PB_DECODERS E d (pb_decode_noinit E d) (PB_LTYPE (type (fs ! k))) (fs ! k)) fuel (iter_at fs dest k) s st =
      Some (True, i_adv s (length (concat (drop j vs))), st') \<and> filled EE C d (iter_at fs dest k) vs (length ps) st'"
proof (induction fuel arbitrary: j s st)
  case (Suc fuel)
  let ?it = "iter_at fs dest k" and ?f = "fs ! k"
  let ?func = "PB_DECODERS E d (pb_decode_noinit E d) (PB_LTYPE (type ?f)) ?f"
  note lay = layoutD [OF settingD(1) [OF S]]
  have c: "cur ?it = ?f" by (rule cur_iter_at [OF lay(1) k])
  have len: "length vs = length ps" using w by (simp add: written_def)
  show ?case
  proof (cases "j = length ps")
    case True
    have "bytes_left s = 0" using length_i_avail [OF Suc.prems(3)] Suc.prems(4) True len by (simp add: unat_eq_0)
    then show ?thesis using Suc.prems(2) True len by simp
  next
    case False
    then have j: "j < length ps" "j < unat (array_size ?f)" using Suc.prems(1) n by simp_all
    have f: "plain_type (cur ?it)" using lay(6) [OF k] c by simp
    have z: "load32 (mem st) (pSize ?it) = word_of_nat j" "\<forall>i < j. value_at EE C d st ?f (item_at ?it i) = bytes (vs ! i)"
      using Suc.prems(2) c by (simp_all add: filled_def)
    have ip: "item_ptr (pData ?it) ?it st = item_at ?it j" "load32 (mem st) (pSize ?it) < array_size ?f"
      using item_ptr_at [OF f _ _ z(1)] h j(2) c by simp_all
    have q: "item_at ?it j \<in> set (items_of ?it)" using item_at_in [of j ?it] j(2) h c by (simp add: item_count_def)
    have ns: "PB_LTYPE (type ?f) \<noteq> PB_LTYPE_SUBMESSAGE" using l by auto
    have rd: "reads (?func (item_at ?it j)) (vs ! j) st (\<lambda>st'. value_at EE C d st' ?f (item_at ?it j) = bytes (vs ! j) \<and>
        keeps (span (item_at ?it j) (unat (data_size ?f)) \<union> fc_region E d) st st')"
      using ns by (intro written_reads [OF S k q w j(1)]) simp
    have ne: "vs ! j \<noteq> []" by (rule eats_nonempty [OF eats_scalar [OF l] rd])
    have dr: "drop j vs = vs ! j # drop (Suc j) vs" using j(1) len by (simp add: Cons_nth_drop_Suc)
    have av: "i_avail s = vs ! j @ concat (drop (Suc j) vs)" using Suc.prems(4) dr by simp
    obtain st1 where r: "?func (item_at ?it j) s st = Some (True, i_adv s (length (vs ! j)), st1)"
      and p1: "value_at EE C d st1 ?f (item_at ?it j) = bytes (vs ! j)" "keeps (span (item_at ?it j) (unat (data_size ?f)) \<union> fc_region E d) st st1"
      using rd Suc.prems(3) av unfolding reads_def by blast
    let ?s1 = "i_adv s (length (vs ! j))" and ?st2 = "st1\<lparr>mem := store32 (mem st1) (pSize ?it) (load32 (mem st1) (pSize ?it) + 1)\<rparr>"
    note nx = filled_next [OF S k h j(2) z(2,1) p1]
    have "filled EE C d ?it vs (Suc j) ?st2"
      using size_stored [OF S k h nx(1), of "load32 (mem st1) (pSize ?it) + 1"] nx(2) j(2) c by (simp add: filled_def add.commute)
    moreover have "istream_ok ?s1" "i_avail ?s1 = concat (drop (Suc j) vs)" using adv_step [OF Suc.prems(3) av] by simp_all
    moreover have "Suc j \<le> length ps" "length ps - Suc j < fuel" using j(1) Suc.prems(5) by arith+
    ultimately obtain st' where st': "static_packed_loop ?func fuel ?it ?s1 ?st2 = Some (True, i_adv ?s1 (length (concat (drop (Suc j) vs))), st')"
      "filled EE C d ?it vs (length ps) st'"
      using Suc.IH [of "Suc j" ?st2 ?s1] by blast
    have "bytes_left s > 0" using length_i_avail [OF Suc.prems(3)] av ne by (auto simp: word_neq_0_conv [symmetric])
    then have "static_packed_loop ?func (Suc fuel) ?it s st = static_packed_loop ?func fuel ?it ?s1 ?st2"
      using ip r c by (simp add: d_then_def inc_size_def d_set_def)
    then show ?thesis using st' dr by (simp add: add.assoc)
  qed
qed simp

lemma static_packed_back:
  assumes S: "setting E EE C d B fs dest" and k: "k < n_fields fs" and h: "PB_HTYPE (type (fs ! k)) = PB_HTYPE_REPEATED"
    and l: "PB_LTYPE (type (fs ! k)) \<le> PB_LTYPE_LAST_PACKABLE" and w: "written EE C m d (fs ! k) vs ps" and n: "length ps \<le> unat (array_size (fs ! k))"
    and st: "load32 (mem st) (pSize (iter_at fs dest k)) = 0" and len: "length (concat vs) < 2 ^ 32"
  shows "reads (decode_static_field E d (pb_decode_noinit E d) PB_WT_STRING (iter_at fs dest k)) (delimited (concat vs)) st
    (filled EE C d (iter_at fs dest k) vs (length ps))"
  unfolding reads_def
proof (intro allI impI)
  let ?it = "iter_at fs dest k"
  let ?func = "PB_DECODERS E d (pb_decode_noinit E d) (PB_LTYPE (type (fs ! k))) (fs ! k)"
  note lay = layoutD [OF settingD(1) [OF S]]
  have c: "cur ?it = fs ! k" by (rule cur_iter_at [OF lay(1) k])
  fix s rest assume s: "istream_ok s" "i_avail s = delimited (concat vs) @ rest"
  obtain s0 where s0: "pb_make_string_substream (d_io E) s =
      (True, s0\<lparr>bytes_left := bytes_left s0 - word_of_nat (length (concat vs))\<rparr>, s0\<lparr>bytes_left := word_of_nat (length (concat vs))\<rparr>)"
    "istream_ok (s0\<lparr>bytes_left := word_of_nat (length (concat vs))\<rparr>)" "i_avail (s0\<lparr>bytes_left := word_of_nat (length (concat vs))\<rparr>) = concat vs"
    "\<exists>sub2. pb_close_string_substream (d_io E) (s0\<lparr>bytes_left := bytes_left s0 - word_of_nat (length (concat vs))\<rparr>)
        (i_adv (s0\<lparr>bytes_left := word_of_nat (length (concat vs))\<rparr>) (length (concat vs))) = (True, i_adv s (length (delimited (concat vs))), sub2)"
    using make_delimited [OF s len, where i = "d_io E"] by metis
  let ?sub = "s0\<lparr>bytes_left := word_of_nat (length (concat vs))\<rparr>"
  have left: "unat (bytes_left ?sub) = length (concat vs)" using length_i_avail [OF s0(2)] s0(3) by simp
  have "length ps \<le> length (concat vs)"
  proof -
    have "vs ! i \<noteq> []" if i: "i < length ps" for i
    proof -
      have q: "item_at ?it i \<in> set (items_of ?it)" using item_at_in [of i ?it] i n h c by (simp add: item_count_def)
      have "PB_LTYPE (type (fs ! k)) \<noteq> PB_LTYPE_SUBMESSAGE" using l by auto
      then show ?thesis by (intro eats_nonempty [OF eats_scalar [OF l] written_reads [OF S k q w i, of st]]) simp
    qed
    then have "\<forall>v \<in> set vs. 1 \<le> length v" using w by (auto simp: written_def in_set_conv_nth Suc_le_eq)
    then have "length vs \<le> length (concat vs)" by (induction vs) (auto simp: Suc_le_eq add_strict_increasing)
    then show ?thesis using w by (simp add: written_def)
  qed
  moreover have "filled EE C d ?it vs 0 st" using st by (simp add: filled_def)
  ultimately obtain st' where run: "static_packed_loop ?func (Suc (unat (bytes_left ?sub))) ?it ?sub st = Some (True, i_adv ?sub (length (concat vs)), st')"
    "filled EE C d ?it vs (length ps) st'"
    using packed_loop_back [OF S k h l w n, of 0 st ?sub "Suc (unat (bytes_left ?sub))"] s0(2,3) left by auto
  have "bytes_left (i_adv ?sub (length (concat vs))) = 0" using left by (simp add: i_adv_def)
  then show "\<exists>st'. decode_static_field E d (pb_decode_noinit E d) PB_WT_STRING ?it s st = Some (True, i_adv s (length (delimited (concat vs))), st') \<and>
      filled EE C d ?it vs (length ps) st'"
    using run s0(1,4) h l c by (auto simp: decode_static_field_def static_packed_def Let_def simp del: static_packed_loop.simps)
qed

text \<open>The iterator stands on a field, and the bits are those of the required fields before field \<open>k\<close>.\<close>

definition at_field :: "pb_field_t list \<Rightarrow> ptr \<Rightarrow> nat \<Rightarrow> dec_locals \<Rightarrow> bool" where
  "at_field fs dest k L \<longleftrightarrow> (\<exists>j < n_fields fs. l_iter L = iter_at fs dest j) \<and> fixed_count_field L = None \<and>
     fields_seen L = seen_upto (n_required (take k fs))"

lemma at_field_Suc: "k < n_fields fs \<Longrightarrow> PB_HTYPE (type (fs ! k)) \<noteq> PB_HTYPE_REQUIRED \<Longrightarrow> at_field fs dest (Suc k) L = at_field fs dest k L"
  by (simp add: at_field_def take_Suc_conv_app_nth n_fields_def n_required_def)

lemma find_tag:
  assumes wf: "wf_fields fs" and d: "distinct (map tag fs)" and j: "j < n_fields fs" and k: "k < n_fields fs"
    and l: "PB_LTYPE (type (fs ! k)) \<noteq> PB_LTYPE_EXTENSION"
  shows "pb_field_iter_find (iter_at fs dest j) (tag (fs ! k)) = Some (True, iter_at fs dest k)"
proof -
  let ?n = "n_fields fs"
  have m: "matches fs (tag (fs ! k)) i \<longleftrightarrow> i = k" if "i < ?n" for i
  proof -
    have "i < length fs" "k < length fs" using that k by (simp_all add: n_fields_def)
    then have "tag (fs ! i) = tag (fs ! k) \<longleftrightarrow> i = k" using nth_eq_iff_index_eq [OF d, of i k] by simp
    then show ?thesis using l by (auto simp: matches_def)
  qed
  obtain i where i: "i < ?n" "(j + i) mod ?n = k" using cyclic_surj [OF j k] by blast
  have "find (\<lambda>i. matches fs (tag (fs ! k)) ((j + i) mod ?n)) [0..<?n] \<noteq> None"
    using i m [OF k] by (auto simp: find_None_iff)
  then obtain i' where i': "find (\<lambda>i. matches fs (tag (fs ! k)) ((j + i) mod ?n)) [0..<?n] = Some i'" by blast
  then have "matches fs (tag (fs ! k)) ((j + i') mod ?n)" by (auto simp: find_Some_iff)
  then have "(j + i') mod ?n = k" using m [of "(j + i') mod ?n"] k by (simp add: mod_less_divisor)
  then show ?thesis using iter_find_at [OF wf j, of dest "tag (fs ! k)"] i' by simp
qed

lemma round_value:
  assumes S: "setting E EE C d B fs dest" and k: "k < n_fields fs" and L: "at_field fs dest k L" and wt: "unat wt < 8"
    and v: "reads (decode_static_field E d (pb_decode_noinit E d) wt (iter_at fs dest k)) v st P"
  shows "rounds (decode_round E d (pb_decode_noinit E d) fc) (varint_buffer (tag_value wt (tag (fs ! k))) @ v) L st
    (\<lambda>L' st'. P st' \<and> at_field fs dest (Suc k) L')"
proof (rule rounds_one)
  let ?t = "varint_buffer (tag_value wt (tag (fs ! k)))" and ?it = "iter_at fs dest k"
  note l = layoutD [OF settingD(1) [OF S]]
  note F = plain_typeD [OF l(6) [OF k]]
  have c: "cur ?it = fs ! k" by (rule cur_iter_at [OF l(1) k])
  obtain j where j: "j < n_fields fs" "l_iter L = iter_at fs dest j" and fcf: "fixed_count_field L = None"
    and seen: "fields_seen L = seen_upto (n_required (take k fs))"
    using L by (auto simp: at_field_def)
  have h: "PB_HTYPE (type (fs ! k)) \<noteq> PB_HTYPE_ONEOF" using l(6) [OF k] by (auto simp: plain_type_def Let_def)
  have nc: "\<not> (PB_HTYPE (type (fs ! k)) = PB_HTYPE_REPEATED \<and> pSize ?it = pData ?it)"
    using F(11) pSize_at [OF l(1) k l(4) h] by (auto simp: scast_0_iff)
  have mark: "mark_seen ?it (fields_seen L) = seen_upto (n_required (take (Suc k) fs))"
  proof -
    have "n_required (take k fs) < 2 ^ 32" using n_required_le [of "take k fs"] l(3) by simp
    then have "mark_seen ?it (fields_seen L) = seen_upto (if PB_HTYPE (type (cur ?it)) = PB_HTYPE_REQUIRED then Suc (n_required (take k fs)) else n_required (take k fs))"
      unfolding seen by (intro mark_seen_at required_index [OF l(1) k])
    moreover have "take (Suc k) fs = take k fs @ [fs ! k]" using k by (simp add: take_Suc_conv_app_nth n_fields_def)
    ultimately show ?thesis using c by (simp add: n_required_def)
  qed
  fix s rest assume s: "istream_ok s" "i_avail s = (?t @ v) @ rest"
  have tag: "pb_decode_tag (d_io E) s = (True, i_adv s (length ?t), wt, tag (fs ! k), False)"
    using tag_codec.dec_enc [where v = "(wt, tag (fs ! k), False)", OF _ s(1)] s(2) wt F(3,4) by (simp add: valid_tag_def)
  have "istream_ok (i_adv s (length ?t))" "i_avail (i_adv s (length ?t)) = v @ rest" using adv_step [OF s(1), of ?t] s(2) by simp_all
  then obtain st' where r: "decode_static_field E d (pb_decode_noinit E d) wt ?it (i_adv s (length ?t)) st = Some (True, i_adv (i_adv s (length ?t)) (length v), st')" "P st'"
    using v unfolding reads_def by blast
  let ?L = "L\<lparr>l_iter := ?it, fixed_count_field := None, fields_seen := mark_seen ?it (fields_seen L)\<rparr>"
  have "decode_field E d (pb_decode_noinit E d) wt ?it (i_adv s (length ?t)) st = Some (True, ?it, i_adv s (length (?t @ v)), st')"
    using r(1) h F(2) c by (simp add: decode_field_def decode_by_atype_def Let_def)
  then have "known_field E d (pb_decode_noinit E d) fc wt (L\<lparr>l_iter := ?it\<rparr>) (i_adv s (length ?t)) st = Some (Continue, ?L, i_adv s (length (?t @ v)), st')"
    using nc c fcf unfolding known_field_def by (auto simp: Let_def)
  moreover have "pb_field_iter_find (l_iter L) (tag (fs ! k)) = Some (True, ?it)"
    unfolding j(2) by (rule find_tag [OF l(1,5) j(1) k F(8)])
  ultimately have "decode_round E d (pb_decode_noinit E d) fc L s st = Some (Continue, ?L, i_adv s (length (?t @ v)), st')"
    using tag by (simp add: decode_round_def)
  moreover have "at_field fs dest (Suc k) ?L" using k mark by (auto simp: at_field_def)
  ultimately show "\<exists>L' st'. decode_round E d (pb_decode_noinit E d) fc L s st = Some (Continue, L', i_adv s (length (?t @ v)), st') \<and>
      P st' \<and> at_field fs dest (Suc k) L'" using r(2) by blast
qed simp

section \<open>Fields\<close>

lemma cat_bytes: "cat r1 r2 = bytes bs \<longleftrightarrow> (\<exists>xs ys. r1 = bytes xs \<and> r2 = bytes ys \<and> bs = xs @ ys)"
  by (cases r1 rule: outcome_cases; cases r2 rule: outcome_cases) auto

lemma spec_tag_bytes:
  assumes "spec_tag f = bytes t"
  obtains wt where "unat wt < 8" and "t = varint_buffer (tag_value wt (tag f))"
    and "\<not> PB_LTYPE (type f) \<le> PB_LTYPE_LAST_PACKABLE \<Longrightarrow> wt = PB_WT_STRING"
proof -
  have "PB_LTYPE (type f) \<le> PB_LTYPE_SVARINT \<or> PB_LTYPE (type f) = PB_LTYPE_FIXED32 \<or> PB_LTYPE (type f) = PB_LTYPE_FIXED64 \<Longrightarrow>
      PB_LTYPE (type f) \<le> PB_LTYPE_LAST_PACKABLE" by (auto simp: word_le_nat_alt)
  then show thesis
    using assms that [of PB_WT_VARINT] that [of PB_WT_32BIT] that [of PB_WT_64BIT] that [of PB_WT_STRING]
    by (auto simp: spec_tag_def Let_def split: if_splits)
qed

lemma src_okD:
  assumes "src_ok EE m (Suc d) fs src" and "wf_fields fs" and "k < n_fields fs" and "p \<in> set (live_items m (iter_at fs src k))"
  shows "p \<noteq> 0" "PB_LTYPE (type (fs ! k)) = PB_LTYPE_STRING \<Longrightarrow> length (cstring m (fs ! k) p) < unat (data_size (fs ! k))"
    "PB_LTYPE (type (fs ! k)) = PB_LTYPE_SUBMESSAGE \<Longrightarrow> src_ok EE m d (fields_at EE (fptr (fs ! k))) p"
proof -
  have "\<forall>it \<in> set (map (iter_at fs src) [0..<n_fields fs]). \<forall>p \<in> set (live_items m it). p \<noteq> 0 \<and>
       (if PB_LTYPE (type (cur it)) = PB_LTYPE_STRING then length (cstring m (cur it) p) < unat (data_size (cur it))
        else if PB_LTYPE (type (cur it)) = PB_LTYPE_SUBMESSAGE then src_ok EE m d (fields_at EE (fptr (cur it))) p else True)"
    using assms(1) by (simp only: src_ok.simps list_all_iff)
  moreover have "iter_at fs src k \<in> set (map (iter_at fs src) [0..<n_fields fs])" using assms(3) by simp
  ultimately have "\<forall>p \<in> set (live_items m (iter_at fs src k)). p \<noteq> 0 \<and>
       (if PB_LTYPE (type (fs ! k)) = PB_LTYPE_STRING then length (cstring m (fs ! k) p) < unat (data_size (fs ! k))
        else if PB_LTYPE (type (fs ! k)) = PB_LTYPE_SUBMESSAGE then src_ok EE m d (fields_at EE (fptr (fs ! k))) p else True)"
    unfolding cur_iter_at [OF assms(2,3), of src, symmetric] by (rule bspec)
  from bspec [OF this assms(4)]
  have ok: "p \<noteq> 0 \<and> (if PB_LTYPE (type (fs ! k)) = PB_LTYPE_STRING then length (cstring m (fs ! k) p) < unat (data_size (fs ! k))
        else if PB_LTYPE (type (fs ! k)) = PB_LTYPE_SUBMESSAGE then src_ok EE m d (fields_at EE (fptr (fs ! k))) p else True)" .
  show "p \<noteq> 0" using ok by blast
  show "PB_LTYPE (type (fs ! k)) = PB_LTYPE_STRING \<Longrightarrow> length (cstring m (fs ! k) p) < unat (data_size (fs ! k))" using ok by simp
  show "PB_LTYPE (type (fs ! k)) = PB_LTYPE_SUBMESSAGE \<Longrightarrow> src_ok EE m d (fields_at EE (fptr (fs ! k))) p" using ok by simp
qed

lemma written_single:
  assumes "spec_value EE m (spec_message EE C m d) (fs ! k) p = bytes v" and "length v < 2 ^ 32"
    and "src_ok EE m (Suc d) fs src" and "wf_fields fs" and "k < n_fields fs" and "p \<in> set (live_items m (iter_at fs src k))"
  shows "written EE C m d (fs ! k) [v] [p]"
  using assms(1,2) src_okD [OF assms(3-6)] by (simp add: written_def)

text \<open>What holds after field \<open>k\<close> was decoded from \<open>bs\<close>.\<close>

abbreviation (input) decoded where
  "decoded E EE C d fs dest k bs st \<equiv> (\<lambda>L' st'. at_field fs dest (Suc k) L' \<and>
     spec_one EE C (mem st') d (spec_message EE C (mem st') d) (iter_at fs dest k) = bytes bs \<and>
     keeps (region (iter_at fs dest k) \<union> fc_region E d) st st')"

text \<open>A required field, or an optional one that is there.\<close>

lemma single_rounds:
  assumes S: "setting E EE C d B fs dest" and k: "k < n_fields fs" and L: "at_field fs dest k L"
    and h: "PB_HTYPE (type (fs ! k)) \<noteq> PB_HTYPE_REPEATED"
    and w: "written EE C m d (fs ! k) [v] [p]" and t: "spec_tag (fs ! k) = bytes t"
    and fr: "PB_LTYPE (type (fs ! k)) = PB_LTYPE_SUBMESSAGE \<Longrightarrow> fresh EE (mem st) d (fields_at EE (fptr (fs ! k))) (pData (iter_at fs dest k))"
    and there: "PB_HTYPE (type (fs ! k)) = PB_HTYPE_OPTIONAL \<Longrightarrow> size_offset (fs ! k) = 0 \<Longrightarrow> d \<noteq> 0 \<and>
      (PB_LTYPE (type (fs ! k)) = PB_LTYPE_FIXED_LENGTH_BYTES \<or> v \<noteq> default_bytes (fs ! k))"
  shows "rounds (decode_round E d (pb_decode_noinit E d) fc) (t @ v) L st (decoded E EE C d fs dest k (t @ v) st)"
proof -
  let ?it = "iter_at fs dest k" and ?f = "fs ! k" and ?A = "region (iter_at fs dest k) \<union> fc_region E d"
  let ?P = "\<lambda>st'. spec_one EE C (mem st') d (spec_message EE C (mem st') d) ?it = bytes (t @ v) \<and> keeps ?A st st'"
  note l = layoutD [OF settingD(1) [OF S]] and E = settingD(5) [OF S]
  note F = plain_typeD [OF l(6) [OF k]]
  have c: "cur ?it = ?f" by (rule cur_iter_at [OF l(1) k])
  have q: "pData ?it \<in> set (items_of ?it)" using h by (intro pData_in) (simp add: c)
  note it = setting_item [OF S k q]
  have ps: "pSize ?it = pData ?it + scast (size_offset ?f)" using layout_placed [OF settingD(1) [OF S] k] c by (simp add: placed_def)
  have pl: "plain_type (cur ?it)" using l(6) [OF k] c by simp
  obtain wt where wt: "unat wt < 8" "t = varint_buffer (tag_value wt (tag ?f))" using spec_tag_bytes [OF t] by metis
  let ?func = "PB_DECODERS E d (pb_decode_noinit E d) (PB_LTYPE (type ?f)) ?f"
  have val: "reads (?func (pData ?it)) v st1 (\<lambda>st'. value_at EE C d st' ?f (pData ?it) = bytes v \<and>
      keeps (span (pData ?it) (unat (data_size ?f)) \<union> fc_region E d) st1 st')"
    if "PB_LTYPE (type ?f) = PB_LTYPE_SUBMESSAGE \<Longrightarrow> fresh EE (mem st1) d (fields_at EE (fptr ?f)) (pData ?it)" for st1
    using written_reads [OF S k q w, of 0 st1] that by simp
  have dec: "dec_ok True ?A (decode_static_field E d (pb_decode_noinit E d) wt ?it)"
    using layout_field_ok [OF settingD(1) [OF S] k] F(2) by (intro dec_ok_static_field) (simp_all add: field_ok_def c Let_def)
  have "reads (decode_static_field E d (pb_decode_noinit E d) wt ?it) v st ?P"
  proof (rule reads_keeps [OF dec], cases rule: plain_type_cases [OF l(6) [OF k]])
    case 1
    have "reads (?func (pData ?it)) v st (\<lambda>st'. spec_one EE C (mem st') d (spec_message EE C (mem st') d) ?it = bytes (t @ v))"
      using 1 it(4) t F(2) by (intro reads_mono [OF val [OF fr]]) (simp_all add: spec_one_static [OF pl] spec_basic_def c)
    then show "reads (decode_static_field E d (pb_decode_noinit E d) wt ?it) v st (\<lambda>st'. spec_one EE C (mem st') d (spec_message EE C (mem st') d) ?it = bytes (t @ v))"
      using 1 c by (simp add: decode_static_field_def Let_def)
  next
    case 2
    have d: "d \<noteq> 0" and df: "PB_LTYPE (type ?f) = PB_LTYPE_FIXED_LENGTH_BYTES \<or> v \<noteq> default_bytes ?f" using there 2 by simp_all
    have "reads (?func (pData ?it)) v st (\<lambda>st'. spec_one EE C (mem st') d (spec_message EE C (mem st') d) ?it = bytes (t @ v))"
    proof (rule reads_mono [OF val [OF fr]])
      fix st' assume "value_at EE C d st' ?f (pData ?it) = bytes v \<and> keeps (span (pData ?it) (unat (data_size ?f)) \<union> fc_region E d) st st'"
      then have v: "value_at EE C d st' ?f (pData ?it) = bytes v" by blast
      have "pb_check_proto3_default_value EE (mem st') d ?f (pData ?it) = Some False"
      proof (cases "PB_LTYPE (type ?f) = PB_LTYPE_FIXED_LENGTH_BYTES")
        case True
        then show ?thesis using d 2 F(2,5) by (cases d) (auto simp: Let_def)
      next
        case False
        then show ?thesis using default_iff [OF l(6) [OF k] 2 False d it(4) v] df by simp
      qed
      then show "spec_one EE C (mem st') d (spec_message EE C (mem st') d) ?it = bytes (t @ v)"
        using v 2 t F(2) by (simp add: spec_one_static [OF pl] spec_basic_def c)
    qed
    moreover have "decode_static_field E d (pb_decode_noinit E d) wt ?it = ?func (pData ?it)"
      using 2 c ps by (intro ext) (simp add: decode_static_field_def d_then_def d_set_def Let_def)
    ultimately show "reads (decode_static_field E d (pb_decode_noinit E d) wt ?it) v st (\<lambda>st'. spec_one EE C (mem st') d (spec_message EE C (mem st') d) ?it = bytes (t @ v))"
      by simp
  next
    case 3
    have ne: "pSize ?it \<noteq> pData ?it" using ps 3 by (simp add: scast_0_iff)
    have room: "size_room ?f = 1" "data_room ?f = unat (data_size ?f)" using 3 h by (simp_all add: size_room_def data_room_def item_count_def)
    have out: "pSize ?it \<notin> span (pData ?it) (unat (data_size ?f)) \<union> fc_region E d"
      using setting_size [OF S k] span_start [of 1 "pSize ?it"] room by auto
    let ?st1 = "st\<lparr>mem := store_bool (mem st) (pSize ?it) True\<rparr>"
    have ag: "agree (span (pData ?it) (unat (data_size ?f))) (mem st) (mem ?st1)"
      using out by (auto simp: agree_def intro!: store_outside(4))
    have "fresh EE (mem ?st1) d (fields_at EE (fptr ?f)) (pData ?it)" if sm: "PB_LTYPE (type ?f) = PB_LTYPE_SUBMESSAGE"
      using fresh_local [OF E l(9) [OF k sm q] ag] fr [OF sm] unfolding E .
    note val1 = val [of ?st1, OF this]
    have "reads (?func (pData ?it)) v ?st1 (\<lambda>st'. spec_one EE C (mem st') d (spec_message EE C (mem st') d) ?it = bytes (t @ v))"
    proof (rule reads_mono [OF val1])
      fix st' assume a: "value_at EE C d st' ?f (pData ?it) = bytes v \<and> keeps (span (pData ?it) (unat (data_size ?f)) \<union> fc_region E d) ?st1 st'"
      then have "mem st' (pSize ?it) = mem ?st1 (pSize ?it)" using out by (simp add: keeps_def)
      then have "safe_read_bool (mem st') (pSize ?it)"
        using load_store(1) [of "mem st" "pSize ?it" 1] by (simp add: safe_read_bool_def store_bool_def)
      then show "spec_one EE C (mem st') d (spec_message EE C (mem st') d) ?it = bytes (t @ v)"
        using a 3 t F(2) ps by (simp add: spec_one_static [OF pl] spec_basic_def c)
    qed
    then have "reads (d_then (d_set (\<lambda>m. store_bool m (pSize ?it) True)) (?func (pData ?it))) v st
        (\<lambda>st'. spec_one EE C (mem st') d (spec_message EE C (mem st') d) ?it = bytes (t @ v))"
      by (rule reads_set_then)
    moreover have "decode_static_field E d (pb_decode_noinit E d) wt ?it = d_then (d_set (\<lambda>m. store_bool m (pSize ?it) True)) (?func (pData ?it))"
      using 3 c ne by (simp add: decode_static_field_def Let_def)
    ultimately show "reads (decode_static_field E d (pb_decode_noinit E d) wt ?it) v st (\<lambda>st'. spec_one EE C (mem st') d (spec_message EE C (mem st') d) ?it = bytes (t @ v))"
      by simp
  next
    case 4
    then show "reads (decode_static_field E d (pb_decode_noinit E d) wt ?it) v st (\<lambda>st'. spec_one EE C (mem st') d (spec_message EE C (mem st') d) ?it = bytes (t @ v))"
      using h by simp
  qed
  from round_value [OF S k L wt(1) this, of fc] show ?thesis unfolding wt(2) by (rule rounds_mono) simp
qed

text \<open>Repeated fields, one round for each item or one for a packed array.\<close>

lemma field_dec_ok:
  assumes S: "setting E EE C d B fs dest" and k: "k < n_fields fs"
  shows "dec_ok True (region (iter_at fs dest k) \<union> fc_region E d) (decode_static_field E d (pb_decode_noinit E d) wt (iter_at fs dest k))"
proof -
  note l = layoutD [OF settingD(1) [OF S]]
  have "cur (iter_at fs dest k) = fs ! k" by (rule cur_iter_at [OF l(1) k])
  then show ?thesis
    using layout_field_ok [OF settingD(1) [OF S] k] plain_typeD(2) [OF l(6) [OF k]] by (intro dec_ok_static_field) (simp_all add: field_ok_def Let_def)
qed

lemma unpacked_item:
  assumes S: "setting E EE C d B fs dest" and k: "k < n_fields fs" and h: "PB_HTYPE (type (fs ! k)) = PB_HTYPE_REPEATED"
    and l: "\<not> PB_LTYPE (type (fs ! k)) \<le> PB_LTYPE_LAST_PACKABLE" and w: "written EE C m d (fs ! k) vs ps" and n: "length ps \<le> unat (array_size (fs ! k))"
    and j: "j < length ps" and st: "filled EE C d (iter_at fs dest k) vs j st"
  shows "reads (decode_static_field E d (pb_decode_noinit E d) wt (iter_at fs dest k)) (vs ! j) st (filled EE C d (iter_at fs dest k) vs (Suc j))"
proof -
  let ?it = "iter_at fs dest k" and ?f = "fs ! k"
  let ?func = "PB_DECODERS E d (pb_decode_noinit E d) (PB_LTYPE (type ?f)) ?f"
  note lay = layoutD [OF settingD(1) [OF S]]
  have c: "cur ?it = ?f" by (rule cur_iter_at [OF lay(1) k])
  have f: "plain_type (cur ?it)" using lay(6) [OF k] c by simp
  have j': "j < unat (array_size ?f)" using j n by simp
  have z: "load32 (mem st) (pSize ?it) = word_of_nat j" "\<forall>i < j. value_at EE C d st ?f (item_at ?it i) = bytes (vs ! i)"
    using st c by (simp_all add: filled_def)
  have ip: "item_ptr (pData ?it) ?it st = item_at ?it j" "load32 (mem st) (pSize ?it) < array_size ?f"
    using item_ptr_at [OF f _ _ z(1)] h j' c by simp_all
  have q: "item_at ?it j \<in> set (items_of ?it)" using item_at_in [of j ?it] j' h c by (simp add: item_count_def)
  let ?st1 = "st\<lparr>mem := store32 (mem st) (pSize ?it) (load32 (mem st) (pSize ?it) + 1)\<rparr>"
  note s1 = size_stored [OF S k h z(2), of "load32 (mem st) (pSize ?it) + 1"]
  have rd: "reads (?func (item_at ?it j)) (vs ! j) ?st1 (\<lambda>st'. value_at EE C d st' ?f (item_at ?it j) = bytes (vs ! j) \<and>
      keeps (span (item_at ?it j) (unat (data_size ?f)) \<union> fc_region E d) ?st1 st')"
    using h by (intro written_reads [OF S k q w j]) simp
  have "reads (?func (item_at ?it j)) (vs ! j) ?st1 (filled EE C d ?it vs (Suc j))"
  proof (rule reads_mono [OF rd])
    fix st' assume "value_at EE C d st' ?f (item_at ?it j) = bytes (vs ! j) \<and>
      keeps (span (item_at ?it j) (unat (data_size ?f)) \<union> fc_region E d) ?st1 st'"
    then show "filled EE C d ?it vs (Suc j) st'"
      using filled_next [OF S k h j' s1(1) s1(2), of st'] z(1) j' c by (simp add: filled_def add.commute)
  qed
  then have "reads (d_then (inc_size ?it) (?func (item_at ?it j))) (vs ! j) st (filled EE C d ?it vs (Suc j))"
    unfolding inc_size_def by (rule reads_set_then)
  moreover have "decode_static_field E d (pb_decode_noinit E d) wt ?it s st = d_then (inc_size ?it) (?func (item_at ?it j)) s st" for s
    using h l c ip(1) ip(2) [unfolded not_le [symmetric]] by (simp add: decode_static_field_def Let_def)
  ultimately show ?thesis unfolding reads_def by simp
qed

lemma unpacked_rounds:
  assumes S: "setting E EE C d B fs dest" and k: "k < n_fields fs" and h: "PB_HTYPE (type (fs ! k)) = PB_HTYPE_REPEATED"
    and l: "\<not> PB_LTYPE (type (fs ! k)) \<le> PB_LTYPE_LAST_PACKABLE" and w: "written EE C m d (fs ! k) vs ps" and n: "length ps \<le> unat (array_size (fs ! k))"
    and t: "t = varint_buffer (tag_value wt (tag (fs ! k)))" and wt: "unat wt < 8"
  shows "j \<le> length ps \<Longrightarrow> filled EE C d (iter_at fs dest k) vs j st \<Longrightarrow> at_field fs dest (Suc k) L \<Longrightarrow>
    rounds (decode_round E d (pb_decode_noinit E d) fc) (concat (map ((@) t) (drop j vs))) L st
      (\<lambda>L' st'. at_field fs dest (Suc k) L' \<and> filled EE C d (iter_at fs dest k) vs (length ps) st' \<and>
        keeps (region (iter_at fs dest k) \<union> fc_region E d) st st')"
proof (induction "length ps - j" arbitrary: j st L)
  case 0
  then have "j = length ps" "drop j vs = []" using w by (simp_all add: written_def)
  then show ?case using 0 by (simp add: rounds_none)
next
  case (Suc x)
  let ?it = "iter_at fs dest k" and ?A = "region (iter_at fs dest k) \<union> fc_region E d"
  have j: "j < length ps" "j < length vs" using Suc(2) w by (simp_all add: written_def)
  have L: "at_field fs dest k L" using Suc.prems(3) at_field_Suc [OF k] h by simp
  have "rounds (decode_round E d (pb_decode_noinit E d) fc) (t @ vs ! j) L st
      (\<lambda>L' st'. (filled EE C d ?it vs (Suc j) st' \<and> keeps ?A st st') \<and> at_field fs dest (Suc k) L')"
    unfolding t by (rule round_value [OF S k L wt reads_keeps [OF field_dec_ok [OF S k] unpacked_item [OF S k h l w n j(1) Suc.prems(2)]]])
  moreover have "rounds (decode_round E d (pb_decode_noinit E d) fc) (concat (map ((@) t) (drop (Suc j) vs))) L1 st1
      (\<lambda>L' st'. at_field fs dest (Suc k) L' \<and> filled EE C d ?it vs (length ps) st' \<and> keeps ?A st st')"
    if a: "(filled EE C d ?it vs (Suc j) st1 \<and> keeps ?A st st1) \<and> at_field fs dest (Suc k) L1" for L1 st1
  proof -
    have "rounds (decode_round E d (pb_decode_noinit E d) fc) (concat (map ((@) t) (drop (Suc j) vs))) L1 st1
      (\<lambda>L' st'. at_field fs dest (Suc k) L' \<and> filled EE C d ?it vs (length ps) st' \<and> keeps ?A st1 st')"
      using a j(1) Suc(2) by (intro Suc(1)) simp_all
    then show ?thesis by (rule rounds_mono) (use a keeps_trans in blast)
  qed
  ultimately have "rounds (decode_round E d (pb_decode_noinit E d) fc) ((t @ vs ! j) @ concat (map ((@) t) (drop (Suc j) vs))) L st
      (\<lambda>L' st'. at_field fs dest (Suc k) L' \<and> filled EE C d ?it vs (length ps) st' \<and> keeps ?A st st')" by (rule rounds_then)
  moreover have "drop j vs = vs ! j # drop (Suc j) vs" using j(2) by (simp add: Cons_nth_drop_Suc)
  ultimately show ?case by simp
qed

text \<open>What the encoding of an array that is not empty consists of.\<close>

definition array_bytes :: "pb_field_t \<Rightarrow> byte list \<Rightarrow> byte list list \<Rightarrow> byte list" where
  "array_bytes f t vs = (if PB_LTYPE (type f) \<le> PB_LTYPE_LAST_PACKABLE
     then varint_buffer (tag_value PB_WT_STRING (tag f)) @ delimited (concat vs) else concat (map ((@) t) vs))"

lemma concat_tagged:
  assumes "length cs = n" and "\<forall>i < n. \<exists>v. item i = bytes v \<and> cs ! i = t @ v"
  shows "\<exists>vs. length vs = n \<and> cs = map ((@) t) vs \<and> (\<forall>i < n. item i = bytes (vs ! i))"
proof (intro exI conjI)
  let ?vs = "map (\<lambda>i. drop (length t) (cs ! i)) [0..<n]"
  show "length ?vs = n" by simp
  have v: "cs ! i = t @ ?vs ! i \<and> item i = bytes (?vs ! i)" if i: "i < n" for i
    using assms(2) [rule_format, OF i] i by auto
  then show "cs = map ((@) t) ?vs" using assms(1) by (intro nth_equalityI) auto
  show "\<forall>i < n. item i = bytes (?vs ! i)" using v by blast
qed

lemma spec_array_iff:
  assumes a: "PB_ATYPE (type f) = PB_ATYPE_STATIC" and z: "z \<noteq> 0"
  shows "spec_array m f p (ucast z) item = bytes bs \<longleftrightarrow> z \<le> array_size f \<and>
    (\<exists>t vs. (PB_LTYPE (type f) \<le> PB_LTYPE_LAST_PACKABLE \<or> spec_tag f = bytes t) \<and> length vs = unat z \<and> bs = array_bytes f t vs \<and>
      (\<forall>i < unat z. item (p + word_of_nat i * ucast (data_size f)) = bytes (vs ! i)))"
proof -
  have nz: "(ucast (z :: uint32) :: size_t) \<noteq> 0" using z by (simp add: word_unat_eq_iff ucast_size)
  have gt: "(ucast z :: size_t) > ucast (array_size f) \<longleftrightarrow> \<not> z \<le> array_size f" by (simp add: word_less_nat_alt word_le_nat_alt ucast_size not_le)
  show ?thesis
  proof (cases "z \<le> array_size f")
    case False
    then show ?thesis using nz a gt by (simp add: spec_array_def)
  next
    case le: True
    show ?thesis
    proof (cases "PB_LTYPE (type f) \<le> PB_LTYPE_LAST_PACKABLE")
      case True
      have "map_option (map_option delimited) r = bytes ys \<longleftrightarrow> (\<exists>xs. r = bytes xs \<and> ys = delimited xs)" for r ys
        by (cases r rule: outcome_cases) (auto simp: bytes_def)
      then show ?thesis
        using nz a gt le True by (auto simp: spec_array_def cat_bytes spec_items_iff array_bytes_def ucast_size)
    next
      case False
      have eq: "spec_array m f p (ucast z) item = spec_items (\<lambda>p. cat (spec_tag f) (item p)) p (ucast (data_size f)) (unat z)"
        using nz a gt le False by (simp add: spec_array_def ucast_size)
      let ?n = "unat z" and ?item = "\<lambda>i. item (p + word_of_nat i * ucast (data_size f))"
      have z0: "0 < ?n" using z by (simp add: unat_gt_0)
      show ?thesis
        unfolding eq spec_items_iff
      proof
        assume "\<exists>cs. length cs = ?n \<and> bs = concat cs \<and> (\<forall>i < ?n. cat (spec_tag f) (?item i) = bytes (cs ! i))"
        then obtain cs where cs: "length cs = ?n" "bs = concat cs" "\<forall>i < ?n. cat (spec_tag f) (?item i) = bytes (cs ! i)" by blast
        obtain t where t: "spec_tag f = bytes t" using cs(3) z0 by (auto simp: cat_bytes)
        have "\<forall>i < ?n. \<exists>v. ?item i = bytes v \<and> cs ! i = t @ v" using cs(3) t by (auto simp: cat_bytes)
        from concat_tagged [OF cs(1) this]
        obtain vs where "length vs = ?n" "cs = map ((@) t) vs" "\<forall>i < ?n. ?item i = bytes (vs ! i)" by blast
        then show "z \<le> array_size f \<and> (\<exists>t vs. (PB_LTYPE (type f) \<le> PB_LTYPE_LAST_PACKABLE \<or> spec_tag f = bytes t) \<and> length vs = ?n \<and>
            bs = array_bytes f t vs \<and> (\<forall>i < ?n. ?item i = bytes (vs ! i)))"
          using le t cs(2) False by (auto simp: array_bytes_def)
      next
        assume "z \<le> array_size f \<and> (\<exists>t vs. (PB_LTYPE (type f) \<le> PB_LTYPE_LAST_PACKABLE \<or> spec_tag f = bytes t) \<and> length vs = ?n \<and>
            bs = array_bytes f t vs \<and> (\<forall>i < ?n. ?item i = bytes (vs ! i)))"
        then obtain t vs where "spec_tag f = bytes t" "length vs = ?n" "bs = concat (map ((@) t) vs)" "\<forall>i < ?n. ?item i = bytes (vs ! i)"
          using False by (auto simp: array_bytes_def)
        then show "\<exists>cs. length cs = ?n \<and> bs = concat cs \<and> (\<forall>i < ?n. cat (spec_tag f) (?item i) = bytes (cs ! i))"
          by (intro exI [of _ "map ((@) t) vs"]) simp
      qed
    qed
  qed
qed

lemma array_bytes_length: "v \<in> set vs \<Longrightarrow> length v \<le> length (array_bytes f t vs)"
  by (auto simp: array_bytes_def delimited_def dest!: split_list)

lemma repeated_rounds:
  assumes S: "setting E EE C d B fs dest" and k: "k < n_fields fs" and L: "at_field fs dest k L" and h: "PB_HTYPE (type (fs ! k)) = PB_HTYPE_REPEATED"
    and w: "written EE C m d (fs ! k) vs ps" and n: "0 < length ps" "length ps \<le> unat (array_size (fs ! k))"
    and t: "PB_LTYPE (type (fs ! k)) \<le> PB_LTYPE_LAST_PACKABLE \<or> spec_tag (fs ! k) = bytes t"
    and bs: "bs = array_bytes (fs ! k) t vs" "length bs < 2 ^ 32" and un: "unset EE (mem st) d (iter_at fs dest k)"
  shows "rounds (decode_round E d (pb_decode_noinit E d) fc) bs L st (decoded E EE C d fs dest k bs st)"
proof -
  let ?it = "iter_at fs dest k" and ?f = "fs ! k" and ?A = "region (iter_at fs dest k) \<union> fc_region E d" and ?R = "decode_round E d (pb_decode_noinit E d) fc"
  note l = layoutD [OF settingD(1) [OF S]]
  have c: "cur ?it = ?f" by (rule cur_iter_at [OF l(1) k])
  have z: "load32 (mem st) (pSize ?it) = 0" using un h c by (simp add: unset_def Let_def)
  have len: "length vs = length ps" using w by (simp add: written_def)
  have run: "rounds ?R bs L st (\<lambda>L' st'. at_field fs dest (Suc k) L' \<and> filled EE C d ?it vs (length ps) st' \<and> keeps ?A st st')"
  proof (cases "PB_LTYPE (type ?f) \<le> PB_LTYPE_LAST_PACKABLE")
    case True
    then have b: "bs = varint_buffer (tag_value PB_WT_STRING (tag ?f)) @ delimited (concat vs)" using bs(1) by (simp add: array_bytes_def)
    then have "length (concat vs) < 2 ^ 32" using bs(2) length_delimited [of "concat vs"] by simp
    note rd = reads_keeps [OF field_dec_ok [OF S k] static_packed_back [OF S k h True w n(2) z this]]
    show ?thesis unfolding b by (rule rounds_mono [OF round_value [OF S k L _ rd]]) simp_all
  next
    case False
    obtain wt where wt: "unat wt < 8" "t = varint_buffer (tag_value wt (tag ?f))" using spec_tag_bytes [of ?f t] t False by metis
    have L': "at_field fs dest (Suc k) L" using L at_field_Suc [OF k] h by simp
    have f0: "filled EE C d ?it vs 0 st" using z by (simp add: filled_def)
    from unpacked_rounds [OF S k h False w n(2) wt(2,1) _ f0 L', of fc] show ?thesis
      using bs(1) False by (simp add: array_bytes_def)
  qed
  show ?thesis
  proof (rule rounds_mono [OF run], elim conjE, intro conjI)
    fix L' st' assume fi: "filled EE C d ?it vs (length ps) st'"
    let ?z = "word_of_nat (length ps) :: uint32"
    have uz: "unat ?z = length ps" using n(2) unat_lt [of "array_size ?f"] by (intro unat_of_nat_small) simp
    then have nz: "?z \<noteq> 0" and le: "?z \<le> array_size ?f" using n by (auto simp: word_le_nat_alt simp del: of_nat_eq_0_iff)
    have pl: "plain_type (cur ?it)" using l(6) [OF k] c by simp
    note F = plain_typeD [OF l(6) [OF k]]
    have ps: "pSize ?it = pData ?it + scast (size_offset ?f)" using layout_placed [OF settingD(1) [OF S] k] c by (simp add: placed_def)
    have "spec_array (mem st') ?f (pData ?it) (ucast ?z) (spec_value EE (mem st') (spec_message EE C (mem st') d) ?f) = bytes bs"
      unfolding spec_array_iff [OF F(2) nz]
      using le t len bs(1) fi c uz by (auto simp: filled_def item_at_def)
    then show "spec_one EE C (mem st') d (spec_message EE C (mem st') d) ?it = bytes bs"
      using h F(2,11) fi ps c by (simp add: spec_one_static [OF pl] spec_basic_def filled_def)
  qed
qed

text \<open>Every field.\<close>

lemma field_rounds:
  assumes S: "setting E EE C d B fs dest" and k: "k < n_fields fs" and L: "at_field fs dest k L"
    and un: "unset EE (mem st) d (iter_at fs dest k)"
    and fr: "PB_LTYPE (type (fs ! k)) = PB_LTYPE_SUBMESSAGE \<Longrightarrow> PB_HTYPE (type (fs ! k)) \<noteq> PB_HTYPE_REPEATED \<Longrightarrow>
      fresh EE (mem st) d (fields_at EE (fptr (fs ! k))) (pData (iter_at fs dest k))"
    and src: "src \<noteq> 0" "src_ok EE m (Suc d) fs src" and bs: "spec_one EE C m d (spec_message EE C m d) (iter_at fs src k) = bytes bs" "length bs < 2 ^ 32"
  shows "rounds (decode_round E d (pb_decode_noinit E d) fc) bs L st (decoded E EE C d fs dest k bs st)"
proof -
  let ?it = "iter_at fs dest k" and ?src = "iter_at fs src k" and ?f = "fs ! k" and ?v = "spec_value EE m (spec_message EE C m d) (fs ! k)"
  note l = layoutD [OF settingD(1) [OF S]]
  note F = plain_typeD [OF l(6) [OF k]]
  have c: "cur ?it = ?f" "cur ?src = ?f" using cur_iter_at [OF l(1) k] by simp_all
  have pl: "plain_type (cur ?it)" "plain_type (cur ?src)" using l(6) [OF k] c by simp_all
  have "PB_HTYPE (type ?f) \<noteq> PB_HTYPE_ONEOF" using l(6) [OF k] by (auto simp: plain_type_def Let_def)
  note ps = pSize_at [OF l(1) k l(4) this] pSize_at [OF l(1) k src(1) this]
  have enc: "spec_basic EE m d (spec_message EE C m d) ?f (pData ?src) = bytes bs" using bs(1) spec_one_static [OF pl(2)] c by simp
  have absent: "rounds (decode_round E d (pb_decode_noinit E d) fc) bs L st (decoded E EE C d fs dest k bs st)"
    if "bs = []" and "PB_HTYPE (type ?f) \<noteq> PB_HTYPE_REQUIRED" and "spec_one EE C (mem st) d (spec_message EE C (mem st) d) ?it = bytes []"
    using that L at_field_Suc [OF k] by (simp add: rounds_none)
  have single: "rounds (decode_round E d (pb_decode_noinit E d) fc) bs L st (decoded E EE C d fs dest k bs st)"
    if sg: "cat (spec_tag ?f) (?v (pData ?src)) = bytes bs" and h: "PB_HTYPE (type ?f) \<noteq> PB_HTYPE_REPEATED" and live: "pData ?src \<in> set (live_items m ?src)"
      and there: "\<And>v. ?v (pData ?src) = bytes v \<Longrightarrow> PB_HTYPE (type ?f) = PB_HTYPE_OPTIONAL \<Longrightarrow> size_offset ?f = 0 \<Longrightarrow> d \<noteq> 0 \<and>
        (PB_LTYPE (type ?f) = PB_LTYPE_FIXED_LENGTH_BYTES \<or> v \<noteq> default_bytes ?f)"
  proof -
    obtain t v where tv: "spec_tag ?f = bytes t" "?v (pData ?src) = bytes v" "bs = t @ v" using sg by (auto simp: cat_bytes)
    have "length v < 2 ^ 32" using bs(2) tv(3) by simp
    note wr = written_single [OF tv(2) this src(2) l(1) k live]
    show ?thesis unfolding tv(3) by (rule single_rounds [OF S k L h wr tv(1) fr [OF _ h] there [OF tv(2)]])
  qed
  show ?thesis
  proof (cases rule: plain_type_cases [OF l(6) [OF k]])
    case 1
    then show ?thesis using enc F(2) c by (intro single) (auto simp: spec_basic_def live_items_def Let_def split: if_splits)
  next
    case 2
    have live: "pData ?src \<in> set (live_items m ?src)" using 2 c by (simp add: live_items_def Let_def)
    have p: "pData ?src \<noteq> 0" by (rule src_okD(1) [OF src(2) l(1) k live])
    obtain df where df: "pb_check_proto3_default_value EE m d ?f (pData ?src) = Some df" and e: "(if df then bytes [] else cat (spec_tag ?f) (?v (pData ?src))) = bytes bs"
      using enc 2 F(2) by (auto simp: spec_basic_def Let_def split: option.splits if_splits)
    have d: "d \<noteq> 0" using df by (cases d) simp_all
    show ?thesis
    proof (cases df)
      case True
      have nf: "PB_LTYPE (type ?f) \<noteq> PB_LTYPE_FIXED_LENGTH_BYTES" using df True 2 F(2,5) d by (cases d) (auto simp: Let_def)
      then have "pb_check_proto3_default_value EE (mem st) d ?f (pData ?it) = Some True" using un 2 c d by (simp add: unset_def Let_def)
      then show ?thesis
        by (intro absent) (use True e 2 F(2) c in \<open>simp_all add: spec_one_static [OF pl(1)] spec_basic_def\<close>)
    next
      case False
      have "PB_LTYPE (type ?f) = PB_LTYPE_FIXED_LENGTH_BYTES \<or> v \<noteq> default_bytes ?f" if "?v (pData ?src) = bytes v" for v
        using default_iff [OF l(6) [OF k] 2 _ d p that] df False by auto
      then show ?thesis using e False 2 live d by (intro single) auto
    qed
  next
    case 3
    show ?thesis
    proof (cases "safe_read_bool m (pSize ?src)")
      case True
      then show ?thesis using enc 3 F(2) c ps by (intro single) (auto simp: spec_basic_def live_items_def Let_def)
    next
      case False
      have "\<not> safe_read_bool (mem st) (pSize ?it)" using un 3 c by (simp add: unset_def Let_def)
      then show ?thesis
        by (intro absent) (use False enc 3 F(2) c ps in \<open>auto simp: spec_one_static [OF pl(1)] spec_basic_def Let_def\<close>)
    qed
  next
    case 4
    let ?z = "load32 m (pSize ?src)"
    have arr: "spec_array m ?f (pData ?src) (ucast ?z) ?v = bytes bs" using enc 4 F(2) ps by (simp add: spec_basic_def Let_def)
    show ?thesis
    proof (cases "?z = 0")
      case True
      have "load32 (mem st) (pSize ?it) = 0" using un 4 c by (simp add: unset_def Let_def)
      then show ?thesis
        by (intro absent) (use True arr 4 F(2) c ps in \<open>simp_all add: spec_array_def spec_one_static [OF pl(1)] spec_basic_def\<close>)
    next
      case False
      obtain t vs where tv: "PB_LTYPE (type ?f) \<le> PB_LTYPE_LAST_PACKABLE \<or> spec_tag ?f = bytes t" "length vs = unat ?z" "bs = array_bytes ?f t vs"
        "\<forall>i < unat ?z. ?v (pData ?src + word_of_nat i * ucast (data_size ?f)) = bytes (vs ! i)" and le: "?z \<le> array_size ?f"
        using arr unfolding spec_array_iff [OF F(2) False] by blast
      define qs where "qs = live_items m ?src"
      have qs: "qs = item_ptrs (pData ?src) (ucast (data_size ?f)) ?z" using 4 c by (simp add: qs_def live_items_def Let_def)
      have lq: "length qs = unat ?z" and qi: "qs ! i = pData ?src + word_of_nat i * ucast (data_size ?f)" if "i < unat ?z" for i
        using that by (simp_all add: qs item_ptrs_def)
      have lq: "length qs = unat ?z" by (simp add: qs item_ptrs_def)
      have wr: "written EE C m d ?f vs qs"
        unfolding written_def Let_def
      proof (intro conjI allI impI)
        show "length vs = length qs" using tv(2) lq by simp
        fix i assume i: "i < length qs"
        have q: "qs ! i \<in> set (live_items m ?src)" using i nth_mem unfolding qs_def by blast
        show "?v (qs ! i) = bytes (vs ! i)" using tv(4) i lq qi by simp
        have "vs ! i \<in> set vs" using i tv(2) lq by simp
        then show "length (vs ! i) < 2 ^ 32" using array_bytes_length [of "vs ! i" vs ?f t] bs(2) tv(3) by simp
        show "qs ! i \<noteq> 0" "PB_LTYPE (type ?f) = PB_LTYPE_STRING \<Longrightarrow> length (cstring m ?f (qs ! i)) < unat (data_size ?f)"
          "PB_LTYPE (type ?f) = PB_LTYPE_SUBMESSAGE \<Longrightarrow> src_ok EE m d (fields_at EE (fptr ?f)) (qs ! i)"
          using src_okD [OF src(2) l(1) k q] by simp_all
      qed
      show ?thesis
        using False le by (intro repeated_rounds [OF S k L 4(1) wr _ _ tv(1) tv(3) bs(2) un]) (simp_all add: lq word_le_nat_alt unat_gt_0)
    qed
  qed
qed

end
