(* ===== verification/PbEncodeBound.thy ===== *)
theory PbEncodeBound
  imports PbEncodeSpec
begin

text \<open>
  The nesting bound of the encoder's model. A larger bound never changes a result, and for
  descriptors that are nested at most \<open>d\<close> deep the bound \<open>Suc d\<close> is enough: the encoder returns on
  every stream, for every message and every callback.
\<close>

section \<open>A larger bound never changes a result\<close>

definition extends :: "encoder \<Rightarrow> encoder \<Rightarrow> bool" where
  "extends f g \<longleftrightarrow> (\<forall>s r. f s = Some r \<longrightarrow> g s = Some r)"

lemma extends_refl [simp, intro]: "extends f f"
  by (simp add: extends_def)

lemma extends_trans: "extends f g \<Longrightarrow> extends g h \<Longrightarrow> extends f h"
  by (simp add: extends_def)

lemma extends_None [simp, intro]: "extends (\<lambda>s. None) g"
  by (simp add: extends_def)

lemma extends_if: "(b \<Longrightarrow> extends f g) \<Longrightarrow> (\<not> b \<Longrightarrow> extends f' g') \<Longrightarrow>
    extends (if b then f else f') (if b then g else g')"
  by simp

lemma extends_and_then: "extends f f' \<Longrightarrow> extends g g' \<Longrightarrow> extends (and_then f g) (and_then f' g')"
  unfolding extends_def and_then_def by (fastforce split: option.splits)

lemma extends_D: "extends f g \<Longrightarrow> f s = Some r \<Longrightarrow> g s = Some r"
  unfolding extends_def by blast

lemma extends_array_loop:
  "(\<And>p. extends (f p) (g p)) \<Longrightarrow> extends (array_loop f p stride n) (array_loop g p stride n)"
proof (induction n arbitrary: p)
  case 0
  then show ?case by (simp add: extends_def)
next
  case (Suc n)
  have eq: "array_loop h p stride (Suc n) = and_then (h p) (array_loop h (p + stride) stride n)" for h
    by (rule ext) simp
  show ?case unfolding eq by (intro extends_and_then Suc)
qed

lemma extends_fields_loop:
  "(\<And>x. extends (f x) (g x)) \<Longrightarrow> extends (fields_loop f xs) (fields_loop g xs)"
proof (induction xs)
  case Nil
  then show ?case by (simp add: extends_def)
next
  case (Cons x xs)
  have eq: "fields_loop h (x # xs) = and_then (h x) (fields_loop h xs)" for h
    by (rule ext) simp
  show ?case unfolding eq by (intro extends_and_then Cons)
qed

lemma extends_submessage:
  assumes "\<And>fs p. extends (f fs p) (g fs p)"
  shows "extends (pb_encode_submessage E f fs p) (pb_encode_submessage E g fs p)"
proof -
  have "extends (submessage_payload E f fs p n) (submessage_payload E g fs p n)" for n
    using assms [of fs p] unfolding extends_def submessage_payload_def
    by (fastforce split: option.splits if_splits)
  then have "extends (and_then v (submessage_payload E f fs p n)) (and_then v (submessage_payload E g fs p n))"
    for v n by (intro extends_and_then) auto
  then show ?thesis
    using assms [of fs p] unfolding extends_def pb_encode_submessage_eq
    by (fastforce split: option.splits bool.splits)
qed

lemma extends_PB_ENCODERS:
  assumes "\<And>fs p. extends (f fs p) (g fs p)"
  shows "extends (PB_ENCODERS E m f l field p) (PB_ENCODERS E m g l field p)"
proof -
  have eq: "pb_enc_submessage E h field p =
      (if fptr field = 0 then fail_with ''invalid field descriptor''
       else pb_encode_submessage E h (fields_at E (fptr field)) p)" for h
    by (rule ext) (simp add: pb_enc_submessage_def)
  have "extends (pb_enc_submessage E f field p) (pb_enc_submessage E g field p)"
    unfolding eq by (intro extends_if extends_refl extends_submessage assms)
  then show ?thesis by (simp add: PB_ENCODERS_def)
qed

lemma packed_size_extends:
  assumes "\<And>p. extends (f p) (g p)" and "packed_size field p count f = Some r"
  shows "packed_size field p count g = Some r"
  using assms(2) extends_D [OF extends_array_loop [of f g, OF assms(1)]]
  by (fastforce simp: packed_size_def split: option.splits if_splits)

lemma encode_array_eq:
  "encode_array E m field p count func =
     (if count = 0 then (\<lambda>s. Some (True, s))
      else if PB_ATYPE (type field) \<noteq> PB_ATYPE_POINTER \<and> count > ucast (array_size field)
      then fail_with ''array max size exceeded''
      else if PB_LTYPE (type field) \<le> PB_LTYPE_LAST_PACKABLE
      then and_then (\<lambda>s. Some (pb_encode_tag (io E) s PB_WT_STRING (tag field)))
             (packed_body E field p count func)
      else array_loop (\<lambda>p. and_then (pb_encode_tag_for_field E field)
              (if PB_ATYPE (type field) = PB_ATYPE_POINTER \<and>
                  (PB_LTYPE (type field) = PB_LTYPE_STRING \<or> PB_LTYPE (type field) = PB_LTYPE_BYTES)
               then func (load64 m p) else func p)) p (ucast (data_size field)) (unat count))"
  by (rule ext) (simp add: encode_array_def packed_body_def [abs_def])

lemma extends_array:
  assumes "\<And>p. extends (f p) (g p)"
  shows "extends (encode_array E m field p count f) (encode_array E m field p count g)"
proof -
  have elems: "extends
      (and_then v (\<lambda>s. if o_callback s = OCB_NULL then w s else array_loop f p stride n s))
      (and_then v (\<lambda>s. if o_callback s = OCB_NULL then w s else array_loop g p stride n s))" for v w stride n
    using extends_array_loop [of f g, OF assms]
    by (intro extends_and_then extends_refl) (simp add: extends_def)
  have "extends (packed_body E field p count f) (packed_body E field p count g)"
    unfolding extends_def packed_body_def
    by (auto simp: packed_size_extends [OF assms] intro: extends_D [OF elems]
        split: option.splits bool.splits)
  then show ?thesis
    unfolding encode_array_eq
    by (intro extends_if extends_refl extends_and_then extends_array_loop assms)
qed

lemma all_default_extends:
  "all_default f xs = Some b \<Longrightarrow> (\<And>x b. x \<in> set xs \<Longrightarrow> f x = Some b \<Longrightarrow> g x = Some b) \<Longrightarrow>
     all_default g xs = Some b"
  by (induction xs) (fastforce split: option.splits bool.splits)+

lemma default_value_extends:
  "pb_check_proto3_default_value E m d field p = Some b \<Longrightarrow> d \<le> d' \<Longrightarrow>
     pb_check_proto3_default_value E m d' field p = Some b"
proof (induction d arbitrary: d' field p b)
  case 0
  then show ?case by simp
next
  case (Suc d)
  then obtain d'' where d': "d' = Suc d''" "d \<le> d''" by (cases d') auto
  have "all_default (\<lambda>it. pb_check_proto3_default_value E m d'' (cur it) (pData it)) its = Some c"
    if "all_default (\<lambda>it. pb_check_proto3_default_value E m d (cur it) (pData it)) its = Some c" for its c
    using that by (rule all_default_extends) (rule Suc.IH [OF _ d'(2)])
  then show ?case
    using Suc.prems(1) unfolding d'(1) pb_check_proto3_default_value.simps Let_def
    by (auto split: if_splits)
qed

lemma extends_basic:
  assumes "\<And>fs p. extends (f fs p) (g fs p)" and "d \<le> d'"
  shows "extends (encode_basic_field E m d f field p) (encode_basic_field E m d' g field p)"
proof -
  note single = extends_D [OF extends_and_then [OF extends_refl extends_PB_ENCODERS [of f g, OF assms(1)]]]
  note array = extends_D [OF extends_array [OF extends_PB_ENCODERS [of f g, OF assms(1)]]]
  show ?thesis
    unfolding extends_def encode_basic_field_def Let_def
    by (auto dest: default_value_extends [OF _ assms(2)] single array split: option.splits if_splits)
qed

lemma extends_encode_field:
  assumes "\<And>fs p. extends (f fs p) (g fs p)" and "d \<le> d'"
  shows "extends (encode_field E m d f field p) (encode_field E m d' g field p)"
  using extends_basic [of f g, OF assms, of E m field p]
  unfolding extends_def encode_field_def Let_def by simp

lemma extends_extension_loop:
  assumes "\<And>fs p. extends (f fs p) (g fs p)" and "d \<le> d'"
  shows "n \<le> n' \<Longrightarrow> extends (extension_loop E m d f n x) (extension_loop E m d' g n' x)"
proof (induction n arbitrary: n' x)
  case 0
  then show ?case by (simp add: extends_def)
next
  case (Suc n)
  then obtain k where k: "n' = Suc k" "n \<le> k" by (cases n') auto
  have "extends (default_extension_encoder E m d f x) (default_extension_encoder E m d' g x)"
    using extends_encode_field [of f g, OF assms, of E m]
    unfolding extends_def default_extension_encoder_def Let_def by simp
  then have "extends
      (\<lambda>s. let enc = load64 m (load64 m x + 8) in if enc \<noteq> 0 then Some (user_ext_encode E enc x s)
           else default_extension_encoder E m d f x s)
      (\<lambda>s. let enc = load64 m (load64 m x + 8) in if enc \<noteq> 0 then Some (user_ext_encode E enc x s)
           else default_extension_encoder E m d' g x s)"
    by (simp add: extends_def Let_def)
  note step = extends_D [OF extends_and_then [OF this Suc.IH [OF k(2)]]]
  show ?case
    unfolding extends_def k(1) extension_loop.simps by (auto intro: step)
qed

lemma extends_encode_one:
  assumes "\<And>fs p. extends (f fs p) (g fs p)" and "d \<le> d'"
  shows "extends (encode_one E m d f it) (encode_one E m d' g it)"
  using extends_encode_field [of f g, OF assms, of E m "cur it" "pData it"]
    extends_extension_loop [of f g, OF assms assms(2), of E m "load64 m (pData it)"]
  unfolding extends_def encode_one_def encode_extension_field_def by simp

lemma pb_encode_extends: "d \<le> d' \<Longrightarrow> extends (pb_encode E m d fs src) (pb_encode E m d' fs src)"
proof (induction d arbitrary: d' fs src)
  case 0
  then show ?case by simp
next
  case (Suc d)
  then obtain k where k: "d' = Suc k" "d \<le> k" by (cases d') auto
  have "extends (fields_loop (encode_one E m d (pb_encode E m d)) (msg_iters fs src))
      (fields_loop (encode_one E m k (pb_encode E m k)) (msg_iters fs src))"
    by (intro extends_fields_loop extends_encode_one Suc.IH k(2))
  then show ?case
    unfolding k(1) by (simp add: extends_def)
qed

section \<open>Enough is nesting depth\<close>

text \<open>\<open>nested_within E d fs\<close>: the descriptor and those its submessage fields refer to are well-formed, have
  no extension fields, and are nested at most \<open>d\<close> deep.\<close>

fun nested_within :: "pb_env \<Rightarrow> nat \<Rightarrow> pb_field_t list \<Rightarrow> bool" where
  "nested_within E 0 fs = False"
| "nested_within E (Suc d) fs \<longleftrightarrow> wf_fields fs \<and>
     list_all (\<lambda>f. PB_LTYPE (type f) \<noteq> PB_LTYPE_EXTENSION \<and>
       (PB_LTYPE (type f) = PB_LTYPE_SUBMESSAGE \<longrightarrow> nested_within E d (fields_at E (fptr f)))) (butlast fs)"

definition returns :: "encoder \<Rightarrow> bool" where
  "returns f \<longleftrightarrow> (\<forall>s. f s \<noteq> None)"

lemma returns_Some [simp, intro]: "returns (\<lambda>s. Some (g s))"
  by (simp add: returns_def)

lemma returns_fail [simp, intro]: "returns (fail_with msg)" "returns undefined_step"
  by (simp_all add: returns_def fail_with_def undefined_step_def)

lemma returns_if: "(b \<Longrightarrow> returns f) \<Longrightarrow> (\<not> b \<Longrightarrow> returns g) \<Longrightarrow> returns (if b then f else g)"
  by simp

lemma returns_and_then: "returns f \<Longrightarrow> returns g \<Longrightarrow> returns (and_then f g)"
  by (auto simp: returns_def and_then_def split: option.splits)

lemma returns_array_loop: "(\<And>p. returns (f p)) \<Longrightarrow> returns (array_loop f p stride n)"
proof (induction n arbitrary: p)
  case (Suc n)
  have eq: "array_loop f p stride (Suc n) = and_then (f p) (array_loop f (p + stride) stride n)"
    by (rule ext) simp
  show ?case unfolding eq by (intro returns_and_then Suc)
qed (simp add: returns_def)

lemma returns_fields_loop: "(\<And>x. x \<in> set xs \<Longrightarrow> returns (f x)) \<Longrightarrow> returns (fields_loop f xs)"
proof (induction xs)
  case (Cons x xs)
  have eq: "fields_loop f (x # xs) = and_then (f x) (fields_loop f xs)"
    by (rule ext) simp
  show ?case unfolding eq by (intro returns_and_then Cons) auto
qed (simp add: returns_def)

lemma returns_submessage:
  assumes "returns (encode fs p)"
  shows "returns (pb_encode_submessage E encode fs p)"
proof -
  have "submessage_payload E encode fs p n s \<noteq> None" for n s
  proof -
    obtain st z where "encode fs p (s\<lparr>max_size := n, bytes_written := 0, o_errmsg := None\<rparr>) = Some (st, z)"
      using assms unfolding returns_def by fast
    then show ?thesis by (simp add: submessage_payload_def fail_with_def Let_def)
  qed
  then have "returns (submessage_payload E encode fs p n)" for n
    by (simp add: returns_def)
  then have "returns (and_then v (submessage_payload E encode fs p n))" if "returns v" for v n
    using that by (intro returns_and_then)
  moreover obtain st z where "encode fs p PB_OSTREAM_SIZING = Some (st, z)"
    using assms unfolding returns_def by fast
  ultimately show ?thesis
    unfolding returns_def pb_encode_submessage_eq by (cases st) simp_all
qed


lemma if_not_None: "(b \<Longrightarrow> x \<noteq> None) \<Longrightarrow> (\<not> b \<Longrightarrow> y \<noteq> None) \<Longrightarrow> (if b then x else y) \<noteq> None"
  by simp

lemma returns_PB_ENCODERS:
  assumes "l = PB_LTYPE_SUBMESSAGE \<Longrightarrow> returns (encode (fields_at E (fptr field)) p)"
  shows "returns (PB_ENCODERS E m encode l field p)"
proof -
  have "returns (pb_enc_submessage E encode field p)" if "l = PB_LTYPE_SUBMESSAGE"
    using returns_submessage [of encode, OF assms [OF that], of E]
    by (simp add: returns_def pb_enc_submessage_def fail_with_def)
  moreover have "returns (pb_enc_bool E m field p)" "returns (pb_enc_varint E m field p)"
    "returns (pb_enc_uvarint E m field p)" "returns (pb_enc_svarint E m field p)"
    "returns (pb_enc_fixed32 E m field p)" "returns (pb_enc_fixed64 E m field p)"
    "returns (pb_enc_bytes E m field p)" "returns (pb_enc_string E m field p)"
    "returns (pb_enc_fixed_length_bytes E m field p)"
    by (simp_all add: returns_def pb_enc_bool_def pb_enc_varint_def pb_enc_uvarint_def pb_enc_svarint_def
        pb_enc_fixed32_def pb_enc_fixed64_def pb_enc_bytes_def pb_enc_string_def
        pb_enc_fixed_length_bytes_def fail_with_def Let_def split: option.split)
  ultimately show ?thesis by (simp add: PB_ENCODERS_def)
qed

lemma returns_tag_for_field: "returns (pb_encode_tag_for_field E field)"
  by (simp add: returns_def pb_encode_tag_for_field_def fail_with_def Let_def)

lemma returns_packed_body:
  assumes "\<And>p. returns (f p)"
  shows "returns (packed_body E field p count f)"
proof -
  have loop: "returns (array_loop f p stride n)" for p stride n
    using assms by (rule returns_array_loop)
  have "returns (and_then (\<lambda>s. Some (v s))
      (\<lambda>s. if o_callback s = OCB_NULL then Some (w s) else array_loop f p stride n s))" for v w stride n
    using loop [of p stride n] by (intro returns_and_then returns_Some) (simp add: returns_def)
  moreover have "packed_size field p count f \<noteq> None"
    using loop [of p "ucast (data_size field)" "unat count"]
    unfolding packed_size_def returns_def
    by (intro if_not_None option.distinct(2)) (auto split: option.split)
  then obtain ok n where "packed_size field p count f = Some (ok, n)" by fast
  ultimately show ?thesis
    by (cases ok) (simp_all add: returns_def packed_body_def)
qed

lemma returns_array:
  assumes "\<And>p. returns (f p)"
  shows "returns (encode_array E m field p count f)"
  unfolding encode_array_eq
  by (intro returns_if returns_Some returns_fail returns_and_then returns_packed_body
      returns_array_loop returns_tag_for_field assms)

text \<open>The check for default values recurses into static submessages only.\<close>

lemma msg_iters_cur:
  assumes "wf_fields fs" and "tag (fs ! 0) \<noteq> 0" and "it \<in> set (msg_iters fs src)"
  shows "cur it \<in> set (butlast fs)"
proof -
  have "0 < n_fields fs"
    using assms(1,2) wf_fields_tag [of fs 0] by (cases "n_fields fs") (auto simp: wf_fields_def)
  then have "it \<in> iter_at fs src ` {0..<n_fields fs}"
    using assms(1,3) by (simp add: msg_iters_wf)
  then obtain k where k: "k < n_fields fs" "it = iter_at fs src k" by auto
  then have "k < length (butlast fs)" by (simp add: n_fields_def)
  then show ?thesis
    using k assms(1) by (metis cur_iter_at nth_butlast nth_mem)
qed

lemma nested_within_field:
  "nested_within E (Suc d) fs \<Longrightarrow> f \<in> set (butlast fs) \<Longrightarrow>
     PB_LTYPE (type f) \<noteq> PB_LTYPE_EXTENSION \<and>
     (PB_LTYPE (type f) = PB_LTYPE_SUBMESSAGE \<longrightarrow> nested_within E d (fields_at E (fptr f)))"
  by (simp add: list_all_iff)

lemma all_default_returns: "(\<And>x. x \<in> set xs \<Longrightarrow> f x \<noteq> None) \<Longrightarrow> all_default f xs \<noteq> None"
  by (induction xs) (auto split: option.splits bool.splits)

lemma default_value_returns:
  "(PB_LTYPE (type field) = PB_LTYPE_SUBMESSAGE \<Longrightarrow> nested_within E d (fields_at E (fptr field))) \<Longrightarrow>
     pb_check_proto3_default_value E m (Suc d) field p \<noteq> None"
proof (induction d arbitrary: field p)
  case 0
  then have "PB_LTYPE (type field) \<noteq> PB_LTYPE_SUBMESSAGE" by auto
  then show ?case
    unfolding pb_check_proto3_default_value.simps Let_def
    by (intro if_not_None option.distinct(2)) simp
next
  case (Suc d)
  let ?fs = "fields_at E (fptr field)"
  have "all_default (\<lambda>it. pb_check_proto3_default_value E m (Suc d) (cur it) (pData it)) (msg_iters ?fs p) \<noteq> None"
    if sub: "PB_LTYPE (type field) = PB_LTYPE_SUBMESSAGE" and "fst (pb_field_iter_begin ?fs p)"
  proof (rule all_default_returns)
    fix it assume it: "it \<in> set (msg_iters ?fs p)"
    have n: "nested_within E (Suc d) ?fs" using Suc.prems sub .
    have "tag (?fs ! 0) \<noteq> 0"
      using that(2) by (simp add: pb_field_iter_begin_def Let_def)
    then have "cur it \<in> set (butlast ?fs)"
      using n it by (intro msg_iters_cur) simp_all
    then show "pb_check_proto3_default_value E m (Suc d) (cur it) (pData it) \<noteq> None"
      using nested_within_field [OF n] by (intro Suc.IH) blast
  qed
  then show ?case
    unfolding pb_check_proto3_default_value.simps(2) [of E m "Suc d" field p] Let_def
    by (intro if_not_None option.distinct(2)) blast
qed


lemma returns_basic:
  assumes sub: "PB_LTYPE (type field) = PB_LTYPE_SUBMESSAGE \<Longrightarrow> nested_within E d (fields_at E (fptr field))"
    and enc: "\<And>fs p. nested_within E d fs \<Longrightarrow> returns (encode fs p)"
  shows "returns (encode_basic_field E m (Suc d) encode field p)"
proof -
  have func: "returns (PB_ENCODERS E m encode (PB_LTYPE (type field)) field p)" for p
    by (intro returns_PB_ENCODERS enc sub)
  have single: "returns (and_then (pb_encode_tag_for_field E field)
      (PB_ENCODERS E m encode (PB_LTYPE (type field)) field p))" for p
    by (intro returns_and_then returns_tag_for_field func)
  have array: "returns (encode_array E m field p c
      (PB_ENCODERS E m encode (PB_LTYPE (type field)) field))" for p c
    by (intro returns_array func)
  obtain b where "pb_check_proto3_default_value E m (Suc d) field p = Some b"
    using default_value_returns [OF sub, where m = m and p = p] by fast
  then show ?thesis
    using single array unfolding returns_def encode_basic_field_def Let_def
    by (simp add: fail_with_def undefined_step_def del: pb_check_proto3_default_value.simps not_None_eq)
qed

lemma returns_encode_one:
  assumes nested: "nested_within E (Suc d) fs" and "tag (fs ! 0) \<noteq> 0" and "it \<in> set (msg_iters fs src)"
    and enc: "\<And>fs p. nested_within E d fs \<Longrightarrow> returns (encode fs p)"
  shows "returns (encode_one E m (Suc d) encode it)"
proof -
  have "cur it \<in> set (butlast fs)"
    using assms(1-3) by (intro msg_iters_cur) simp_all
  then have f: "PB_LTYPE (type (cur it)) \<noteq> PB_LTYPE_EXTENSION"
      "PB_LTYPE (type (cur it)) = PB_LTYPE_SUBMESSAGE \<longrightarrow> nested_within E d (fields_at E (fptr (cur it)))"
    using nested_within_field [OF nested] by blast+
  then have "returns (encode_basic_field E m (Suc d) encode (cur it) (pData it))"
    by (intro returns_basic enc) auto
  moreover have "returns (encode_callback_field E m (cur it) (pData it))"
    by (simp add: returns_def encode_callback_field_def fail_with_def del: not_None_eq split: prod.split)
  ultimately show ?thesis
    using f(1) unfolding returns_def encode_one_def encode_field_def Let_def
    by (simp add: fail_with_def del: not_None_eq)
qed

lemma pb_encode_returns:
  "nested_within E d fs \<Longrightarrow> returns (pb_encode E m (Suc d) fs src)"
proof (induction d arbitrary: fs src)
  case 0
  then show ?case by simp
next
  case (Suc d)
  have "returns (fields_loop (encode_one E m (Suc d) (pb_encode E m (Suc d))) (msg_iters fs src))"
    if "tag (fs ! 0) \<noteq> 0"
    by (intro returns_fields_loop returns_encode_one [OF Suc.prems that] Suc.IH)
  then show ?case
    by (simp add: returns_def pb_encode.simps(2) [of E m "Suc d"] pb_field_iter_begin_def Let_def
        del: not_None_eq pb_encode.simps)
qed


end
