(* ===== verification/PbChannel.thy ===== *)
theory PbChannel
  imports PbWire
begin

text \<open>
  The two halves of the wire format together: what one of the encoding functions stored through an
  output stream is read back by the matching decoding function through an input stream, one value or
  a sequence of them; skipping a value of an unknown field consumes exactly that value.
\<close>

section \<open>Writing and reading back\<close>

text \<open>The input stream over what was written between the states \<open>s\<close> and \<open>s'\<close> of an output stream.\<close>

definition read_back :: "pb_ostream_t \<Rightarrow> pb_ostream_t \<Rightarrow> pb_istream_t" where
  "read_back s s' = \<lparr>i_callback = ICB_buf_read, i_buf = o_buf s', i_pos = o_pos s,
     bytes_left = bytes_written s' - bytes_written s, i_errmsg = None, i_ub = False\<rparr>"

lemma read_back_put:
  assumes "ostream_ok s" and "length bs \<le> o_room s"
  shows "istream_ok (read_back s (o_put s bs))" and "i_avail (read_back s (o_put s bs)) = bs"
proof -
  have len: "o_pos s + length bs \<le> length (o_buf s)" "length bs < 2 ^ 63"
    using assms by (auto simp: ostream_ok_def o_room_def)
  then have "unat (word_of_nat (length bs) :: size_t) = length bs"
    by (simp add: unat_of_nat_small)
  then show "istream_ok (read_back s (o_put s bs))" "i_avail (read_back s (o_put s bs)) = bs"
    using len by (simp_all add: istream_ok_def i_avail_def read_back_def o_put_def put_at_def)
qed

fun put_seq :: "(pb_ostream_t \<Rightarrow> 'v \<Rightarrow> bool \<times> pb_ostream_t) \<Rightarrow> 'v list \<Rightarrow> encoder" where
  "put_seq put [] s = Some (True, s)"
| "put_seq put (v # vs) s = and_then (\<lambda>s. Some (put s v)) (put_seq put vs) s"

locale wire_channel = wire_codec enc dec valid
  for enc :: "'v \<Rightarrow> byte list"
    and dec :: "pb_istream_t \<Rightarrow> bool \<times> pb_istream_t \<times> 'v"
    and valid :: "'v \<Rightarrow> bool" +
  fixes put :: "pb_ostream_t \<Rightarrow> 'v \<Rightarrow> bool \<times> pb_ostream_t"
  assumes writes: "stream_writer (\<lambda>s. Some (put s v)) (enc v)"
begin

lemma seq_writer: "stream_writer (put_seq put vs) (concat (map enc vs))"
proof (induction vs)
  case Nil
  have "put_seq put [] = (\<lambda>s. Some (True, s))" by (rule ext) simp
  then show ?case by (simp add: stream_writer_nothing)
next
  case (Cons v vs)
  have "put_seq put (v # vs) = and_then (\<lambda>s. Some (put s v)) (put_seq put vs)" by (rule ext) simp
  then show ?case using stream_writer_and_then [OF writes Cons] by simp
qed

lemma channel:
  assumes "list_all valid vs" and "ostream_ready s" and "length (concat (map enc vs)) \<le> o_room s"
  shows "\<exists>s' t. put_seq put vs s = Some (True, s') \<and>
    dec_seq dec (length vs) (read_back s s') = (True, t, vs) \<and> i_avail t = []"
proof -
  let ?s' = "o_put s (concat (map enc vs))"
  have "put_seq put vs s = Some (True, ?s')"
    using seq_writer assms(2,3) by (rule stream_writer.fits)
  moreover have rb: "istream_ok (read_back s ?s')" "i_avail (read_back s ?s') = concat (map enc vs)"
    using read_back_put [OF ostream_ready_ok [OF assms(2)] assms(3)] .
  then have "dec_seq dec (length vs) (read_back s ?s') =
      (True, i_adv (read_back s ?s') (length (concat (map enc vs))), vs)"
    by (intro seq_roundtrip [where rest = "[]"]) (simp_all add: assms(1))
  ultimately show ?thesis using rb by simp
qed

end

interpretation varint_ch: wire_channel varint_buffer "pb_decode_varint io" "\<lambda>_. True" "pb_encode_varint io" for io
  by (intro wire_channel.intro varint_codec.wire_codec_axioms wire_channel_axioms.intro varint_writer)

interpretation svarint_ch: wire_channel "\<lambda>v. varint_buffer (zigzag v)" "pb_decode_svarint io" "\<lambda>_. True"
    "pb_encode_svarint io" for io
  by (intro wire_channel.intro svarint_codec.wire_codec_axioms wire_channel_axioms.intro svarint_writer)

interpretation fixed32_ch: wire_channel fixed32_bytes "pb_decode_fixed32 io" "\<lambda>_. True" "pb_encode_fixed32 io" for io
  by (intro wire_channel.intro fixed32_codec.wire_codec_axioms wire_channel_axioms.intro fixed32_writer)

interpretation fixed64_ch: wire_channel fixed64_bytes "pb_decode_fixed64 io" "\<lambda>_. True" "pb_encode_fixed64 io" for io
  by (intro wire_channel.intro fixed64_codec.wire_codec_axioms wire_channel_axioms.intro fixed64_writer)

interpretation tag_ch: wire_channel "\<lambda>(wt, n, eof). varint_buffer (tag_value wt n)" "pb_decode_tag io"
    valid_tag "\<lambda>s (wt, n, eof). pb_encode_tag io s wt n" for io
  by (intro wire_channel.intro tag_codec.wire_codec_axioms wire_channel_axioms.intro)
     (simp add: tag_writer split: prod.split)

section \<open>Skipping\<close>

text \<open>The values of the four wire types, as they appear on the wire.\<close>

datatype wire_value = Varint uint64 | Fixed32 uint32 | Fixed64 uint64 | Length_Delimited "byte list"

fun wire_type_of :: "wire_value \<Rightarrow> pb_wire_type_t" where
  "wire_type_of (Varint v) = PB_WT_VARINT"
| "wire_type_of (Fixed32 v) = PB_WT_32BIT"
| "wire_type_of (Fixed64 v) = PB_WT_64BIT"
| "wire_type_of (Length_Delimited bs) = PB_WT_STRING"

fun wire_bytes :: "wire_value \<Rightarrow> byte list" where
  "wire_bytes (Varint v) = varint_buffer v"
| "wire_bytes (Fixed32 v) = fixed32_bytes v"
| "wire_bytes (Fixed64 v) = fixed64_bytes v"
| "wire_bytes (Length_Delimited bs) = varint_buffer (word_of_nat (length bs)) @ bs"

fun short_value :: "wire_value \<Rightarrow> bool" where
  "short_value (Length_Delimited bs) = (length bs < 2 ^ 32)"
| "short_value _ = True"

lemma pb_skip_varint_step:
  assumes "istream_ok s" and "i_avail s = b # bs"
  shows "pb_skip_varint io s = (if b AND 0x80 \<noteq> 0 then pb_skip_varint io (i_adv s 1) else (True, i_adv s 1))"
  using assms by (subst pb_skip_varint.simps) (simp add: pb_read_ok)

lemma pb_skip_varint_buffer:
  "istream_ok s \<Longrightarrow> i_avail s = varint_buffer v @ rest \<Longrightarrow>
     pb_skip_varint io s = (True, i_adv s (length (varint_buffer v)))"
proof (induction "unat v" arbitrary: v s rule: less_induct)
  case less
  show ?case
  proof (cases "v \<le> 0x7F")
    case True
    then show ?thesis
      using less.prems last_byte(1) [OF True] by (simp add: varint_buffer_small pb_skip_varint_step)
  next
    case False
    let ?w = "drop_bit 7 v"
    have buf: "varint_buffer v = ucast ((v AND 0x7F) OR 0x80) # varint_buffer ?w"
      using False by (rule varint_buffer_large)
    have "unat ?w < unat v" using False by (simp add: unat_drop_bit unat_le_7F)
    moreover have "istream_ok (i_adv s 1)" "i_avail (i_adv s 1) = varint_buffer ?w @ rest"
      using less.prems buf by (auto intro: istream_ok_adv)
    ultimately have "pb_skip_varint io (i_adv s 1) = (True, i_adv (i_adv s 1) (length (varint_buffer ?w)))"
      by (rule less.hyps)
    then show ?thesis
      using less.prems buf cont_byte(1) [of v] by (simp add: pb_skip_varint_step)
  qed
qed

lemma ucast_of_nat_32: "n < 2 ^ 32 \<Longrightarrow> (ucast (word_of_nat n :: uint32) :: uint64) = word_of_nat n"
  by (simp add: word_unat_eq_iff unat_ucast_up unat_of_nat_small)

lemma varint32_length:
  assumes "istream_ok s" and "i_avail s = varint_buffer (word_of_nat n) @ rest" and "n < 2 ^ 32"
  shows "pb_decode_varint32 io s = (True, i_adv s (length (varint_buffer (word_of_nat n))), word_of_nat n)"
  using varint32_codec.dec_enc [of s "word_of_nat n" rest io] assms by (simp add: ucast_of_nat_32)

lemma pb_skip_string_exact:
  assumes "istream_ok s" and "i_avail s = varint_buffer (word_of_nat (length bs)) @ bs @ rest"
    and "length bs < 2 ^ 32"
  shows "pb_skip_string io s = (True, i_adv s (length (varint_buffer (word_of_nat (length bs))) + length bs))"
proof -
  let ?s' = "i_adv s (length (varint_buffer (word_of_nat (length bs))))"
  have "istream_ok ?s'" "i_avail ?s' = bs @ rest"
    using assms by (auto intro: istream_ok_adv)
  then have "pb_read io ?s' False (word_of_nat (length bs)) = (True, i_adv ?s' (length bs), bs)"
    using assms(3) by (simp add: pb_read_ok unat_of_nat_small)
  then show ?thesis
    using assms by (simp add: pb_skip_string_def varint32_length ucast_of_nat_32)
qed

end
