(* ===== verification/PbClaims.thy ===== *)
theory PbClaims
  imports PbEncodeBound PbChannel
begin

text \<open>
  The guarantees of nanopb: the message encoder against its specification, the wire format's round
  trips, and the safety of the streams. A small message with a nested one serves as the concrete
  instance of the theorems that have hypotheses.
\<close>

section \<open>A message to try things on\<close>

text \<open>\<^verbatim>\<open>message Leaf { required uint32 x = 1; }  message Root { required uint32 a = 1; required Leaf b = 2; }\<close>,
  stored at address 16 with \<^verbatim>\<open>a = 300\<close> and \<^verbatim>\<open>b.x = 5\<close>.\<close>

definition ex_field :: "uint32 \<Rightarrow> byte \<Rightarrow> uint32 \<Rightarrow> uint32 \<Rightarrow> ptr \<Rightarrow> pb_field_t" where
  "ex_field t ty off sz p =
     \<lparr>tag = t, type = ty, data_offset = off, size_offset = 0, data_size = sz, array_size = 0, fptr = p\<rparr>"

definition ex_leaf :: "pb_field_t list" where
  "ex_leaf = [ex_field 1 PB_LTYPE_UVARINT 0 4 0, ex_field 0 0 0 0 0]"

definition ex_root :: "pb_field_t list" where
  "ex_root = [ex_field 1 PB_LTYPE_UVARINT 0 4 0, ex_field 2 PB_LTYPE_SUBMESSAGE 0 4 100, ex_field 0 0 0 0 0]"

definition ex_mem :: memory where
  "ex_mem p = (if p = 16 then 0x2C else if p = 17 then 0x01 else if p = 20 then 0x05 else 0)"

definition ex_io :: pb_io where
  "ex_io = \<lparr>user_write = (\<lambda>_ s _. (False, s)), user_read = (\<lambda>_ s _. (False, s, []))\<rparr>"

definition ex_env :: pb_env where
  "ex_env = \<lparr>io = ex_io, fields_at = (\<lambda>p. if p = 100 then ex_leaf else ex_root),
     user_encode = (\<lambda>_ _ _ s. (True, s)), user_ext_encode = (\<lambda>_ _ s. (True, s))\<rparr>"

definition ex_out :: callback_out where
  "ex_out = \<lparr>cb_out = (\<lambda>_ _ _. []), ext_out = (\<lambda>_ _. [])\<rparr>"

lemma ex_callbacks: "callbacks_ok ex_env ex_out"
  by (simp add: callbacks_ok_def ex_env_def ex_out_def stream_writer_nothing)

lemma ex_message: "spec_message ex_env ex_out ex_mem 3 ex_root 16 = bytes [0x08, 0xAC, 0x02, 0x12, 0x02, 0x08, 0x05]"
  by code_simp


lemma buffer_ready:
  "length buf = unat n \<Longrightarrow> unat n < 2 ^ 63 \<Longrightarrow> ostream_ready (pb_ostream_from_buffer buf n)"
  "o_room (pb_ostream_from_buffer buf n) = unat n"
  by (simp_all add: ostream_ready_def ostream_ok_def pb_ostream_from_buffer_def o_room_def)

lemma buffer_istream_ok:
  "length buf = unat n \<Longrightarrow> istream_ok (pb_istream_from_buffer buf n)"
  "length buf = unat n \<Longrightarrow> i_avail (pb_istream_from_buffer buf n) = buf"
  by (simp_all add: istream_ok_def i_avail_def pb_istream_from_buffer_def)

section \<open>Messages\<close>

text \<open>C1. The encoder implements the abstract encoding: if the message's encoding is \<open>bs\<close> and it fits in
  what is left of the stream's buffer, \<^verbatim>\<open>pb_encode\<close> succeeds and has stored exactly \<open>bs\<close> at the stream's
  position, with all other bytes of the buffer as before.\<close>

theorem pb_encode_refines_spec:
  assumes "callbacks_ok E C" and "spec_message E C m d fs src = bytes bs"
    and "ostream_ready s" and "length bs \<le> o_room s"
  shows "pb_encode E m d fs src s = Some (True, o_put s bs)"
proof -
  have "length bs < 2 ^ 63"
    using assms(3,4) by (auto simp: ostream_ready_def ostream_ok_def o_room_def)
  then have "stream_writer (pb_encode E m d fs src) bs"
    using pb_encode_implements [OF assms(1), of m d fs src] assms(2) by (auto intro: implements_writerD)
  then show ?thesis
    using assms(3,4) by (rule stream_writer.fits)
qed

theorem pb_encode_refines_spec_witness:
  "pb_encode ex_env ex_mem 3 ex_root 16 (pb_ostream_from_buffer (replicate 8 0) 8) =
     Some (True, o_put (pb_ostream_from_buffer (replicate 8 0) 8) [0x08, 0xAC, 0x02, 0x12, 0x02, 0x08, 0x05])"
  by (rule pb_encode_refines_spec [OF ex_callbacks ex_message]) (simp_all add: buffer_ready)

text \<open>C2. Whatever the room, encoding to a well-formed buffer stream returns, keeps the stream
  well-formed (so no byte outside the buffer was touched), changes nothing but a prefix of the free
  part, and reports success exactly when the message fits.\<close>

theorem pb_encode_safe:
  assumes "callbacks_ok E C" and "spec_message E C m d fs src = bytes bs" and "length bs < 2 ^ 63"
    and "ostream_ready s"
  shows "\<exists>ok s'. pb_encode E m d fs src s = Some (ok, s') \<and> ostream_ok s' \<and> o_sub s s' \<and>
    (ok \<longleftrightarrow> length bs \<le> o_room s)"
proof -
  have wr: "stream_writer (pb_encode E m d fs src) bs"
    using pb_encode_implements [OF assms(1), of m d fs src] assms(2,3) by (auto intro: implements_writerD)
  obtain ok s' where r: "pb_encode E m d fs src s = Some (ok, s')" "o_sub s s'"
    using stream_writer.returns [OF wr assms(4)] by blast
  have "ok \<longleftrightarrow> length bs \<le> o_room s"
    using stream_writer.success_iff_fits [OF wr assms(4)] r(1) by auto
  then show ?thesis
    using r stream_writer.keeps_ok [OF wr assms(4)] by blast
qed

theorem pb_encode_safe_witness:
  "\<exists>ok s'. pb_encode ex_env ex_mem 3 ex_root 16 (pb_ostream_from_buffer (replicate 4 0) 4) = Some (ok, s') \<and>
     ostream_ok s' \<and> o_sub (pb_ostream_from_buffer (replicate 4 0) 4) s' \<and>
     (ok \<longleftrightarrow> length [0x08, 0xAC, 0x02, 0x12, 0x02, 0x08, 0x05 :: byte] \<le>
        o_room (pb_ostream_from_buffer (replicate 4 0) 4))"
  by (rule pb_encode_safe [OF ex_callbacks ex_message]) (simp_all add: buffer_ready)

text \<open>C3. \<^verbatim>\<open>pb_get_encoded_size\<close> reports a size exactly for the messages that have an encoding, and it is
  the length of the encoding (as a \<^verbatim>\<open>size_t\<close>).\<close>

theorem pb_get_encoded_size_exact:
  assumes "callbacks_ok E C"
  shows "pb_get_encoded_size E m d fs src = Some (True, n) \<longleftrightarrow>
    (\<exists>bs. spec_message E C m d fs src = bytes bs \<and> n = word_of_nat (length bs))"
proof -
  note impl = pb_encode_implements [OF assms, of m d fs src]
  have z: "o_callback PB_OSTREAM_SIZING = OCB_NULL" by (simp add: PB_OSTREAM_SIZING_def)
  have size_some: "pb_get_encoded_size E m d fs src = Some (True, word_of_nat (length bs))"
    if "spec_message E C m d fs src = bytes bs" for bs
    using implements_countsD [OF impl [unfolded that] z]
    by (simp add: pb_get_encoded_size_def o_count_def PB_OSTREAM_SIZING_def)
  have "\<exists>bs. spec_message E C m d fs src = bytes bs"
    if "pb_get_encoded_size E m d fs src = Some (True, n)"
  proof -
    have "\<exists>z'. pb_encode E m d fs src PB_OSTREAM_SIZING = Some (True, z')"
      using that by (auto simp: pb_get_encoded_size_def split: option.splits)
    then show ?thesis
      using implements_noneD [OF impl _ z] by blast
  qed
  then show ?thesis using size_some by auto
qed

theorem pb_get_encoded_size_exact_witness:
  "pb_get_encoded_size ex_env ex_mem 3 ex_root 16 = Some (True, 7)"
  using pb_get_encoded_size_exact [OF ex_callbacks, of ex_mem 3 ex_root 16 7] ex_message by simp

text \<open>Sizing and encoding agree: a buffer of exactly the size that \<^verbatim>\<open>pb_get_encoded_size\<close> reports is
  enough, and \<^verbatim>\<open>pb_encode\<close> fills it completely with the encoding.\<close>

theorem pb_size_then_encode:
  assumes "callbacks_ok E C" and "spec_message E C m d fs src = bytes bs" and "length bs < 2 ^ 63"
    and "pb_get_encoded_size E m d fs src = Some (True, n)" and "length buf = unat n"
  shows "\<exists>s'. pb_encode E m d fs src (pb_ostream_from_buffer buf n) = Some (True, s') \<and>
    o_buf s' = bs \<and> bytes_written s' = n"
proof -
  have z: "o_callback PB_OSTREAM_SIZING = OCB_NULL" by (simp add: PB_OSTREAM_SIZING_def)
  have impl: "implements (pb_encode E m d fs src) (bytes bs)"
    using pb_encode_implements [OF assms(1), of m d fs src] assms(2) by simp
  have n: "n = word_of_nat (length bs)" "unat n = length bs"
    using implements_countsD [OF impl z] assms(3,4)
    by (auto simp: pb_get_encoded_size_def o_count_def PB_OSTREAM_SIZING_def unat_of_nat_small)
  have "pb_encode E m d fs src (pb_ostream_from_buffer buf n) = Some (True, o_put (pb_ostream_from_buffer buf n) bs)"
    using assms(3,5) n by (intro stream_writer.fits implements_writerD [OF impl]) (simp_all add: buffer_ready)
  then show ?thesis
    using assms(5) n by (simp add: o_put_def put_at_def pb_ostream_from_buffer_def)
qed

theorem pb_size_then_encode_witness:
  "\<exists>s'. pb_encode ex_env ex_mem 3 ex_root 16 (pb_ostream_from_buffer (replicate 7 0) 7) = Some (True, s') \<and>
     o_buf s' = [0x08, 0xAC, 0x02, 0x12, 0x02, 0x08, 0x05] \<and> bytes_written s' = 7"
proof -
  have "pb_get_encoded_size ex_env ex_mem 3 ex_root 16 = Some (True, 7)" by code_simp
  then show ?thesis
    by (intro pb_size_then_encode [OF ex_callbacks ex_message]) simp_all
qed



text \<open>The depth bound of the model is no part of the behaviour: once it is enough, every larger bound
  gives the same result.\<close>

theorem pb_encode_bound_irrelevant:
  assumes "pb_encode E m d fs src s = Some r" and "d \<le> d'"
  shows "pb_encode E m d' fs src s = Some r"
  using pb_encode_extends [OF assms(2)] assms(1) by (rule extends_D)

theorem pb_encode_bound_irrelevant_witness:
  "\<exists>s'. pb_encode ex_env ex_mem 7 ex_root 16 PB_OSTREAM_SIZING = Some (True, s') \<and> bytes_written s' = 7"
proof -
  have "pb_encode ex_env ex_mem 3 ex_root 16 PB_OSTREAM_SIZING =
      Some (True, PB_OSTREAM_SIZING\<lparr>bytes_written := 7\<rparr>)"
    by code_simp
  then have "pb_encode ex_env ex_mem 7 ex_root 16 PB_OSTREAM_SIZING =
      Some (True, PB_OSTREAM_SIZING\<lparr>bytes_written := 7\<rparr>)"
    by (rule pb_encode_bound_irrelevant) simp
  then show ?thesis by simp
qed

text \<open>C7. Framing: what \<^verbatim>\<open>pb_encode_delimited\<close> wrote is taken apart again by
  \<^verbatim>\<open>pb_make_string_substream\<close>: the substream holds exactly the message and the parent nothing more.\<close>

theorem delimited_roundtrip:
  assumes "callbacks_ok E C" and "spec_message E C m d fs src = bytes bs" and "length bs < 2 ^ 32"
    and "ostream_ready s" and "length (delimited bs) \<le> o_room s"
  shows "\<exists>s' t sub. pb_encode_delimited E m d fs src s = Some (True, s') \<and>
    pb_make_string_substream i (read_back s s') = (True, t, sub) \<and> i_avail sub = bs \<and> i_avail t = []"
proof -
  let ?s' = "o_put s (delimited bs)"
  let ?r = "read_back s ?s'" and ?n = "word_of_nat (length bs) :: uint64"
  have "length (delimited bs) < 2 ^ 63"
    using assms(4,5) by (auto simp: ostream_ready_def ostream_ok_def o_room_def)
  moreover have "implements (pb_encode_delimited E m d fs src) (bytes (delimited bs))"
    using implements_submessage [of "pb_encode E m d" fs src "bytes bs" E]
      pb_encode_implements [OF assms(1), of m d fs src] assms(2)
    by (simp add: pb_encode_delimited_def [abs_def] bytes_def)
  ultimately have enc: "pb_encode_delimited E m d fs src s = Some (True, ?s')"
    using assms(4,5) by (intro stream_writer.fits implements_writerD)
  have r: "istream_ok ?r" "i_avail ?r = varint_buffer ?n @ bs"
    using read_back_put [OF ostream_ready_ok [OF assms(4)] assms(5)] by (simp_all add: delimited_def)
  let ?t = "i_adv ?r (length (varint_buffer ?n))"
  have dec: "pb_decode_varint32 i ?r = (True, ?t, word_of_nat (length bs))"
    using varint32_length [OF r assms(3)] .
  have t: "istream_ok ?t" "i_avail ?t = bs" using r by (auto intro: istream_ok_adv)
  have n: "unat ?n = length bs" using assms(3) by (simp add: unat_of_nat_small)
  then have "bytes_left ?t = ?n"
    using length_i_avail [OF t(1)] t(2) by (simp add: word_unat_eq_iff)
  then have "pb_make_string_substream i ?r = (True, ?t\<lparr>bytes_left := 0\<rparr>, ?t)"
    using dec assms(3) by (simp add: pb_make_string_substream_def ucast_of_nat_32)
  moreover have "i_avail (?t\<lparr>bytes_left := 0\<rparr>) = []" by (simp add: i_avail_def)
  ultimately show ?thesis using enc t(2) by blast
qed

theorem delimited_roundtrip_witness:
  "\<exists>s' t sub. pb_encode_delimited ex_env ex_mem 3 ex_root 16 (pb_ostream_from_buffer (replicate 8 0) 8) = Some (True, s') \<and>
     pb_make_string_substream ex_io (read_back (pb_ostream_from_buffer (replicate 8 0) 8) s') = (True, t, sub) \<and>
     i_avail sub = [0x08, 0xAC, 0x02, 0x12, 0x02, 0x08, 0x05] \<and> i_avail t = []"
  by (rule delimited_roundtrip [OF ex_callbacks ex_message])
     (simp_all add: buffer_ready delimited_def varint_buffer_small)

text \<open>\<^verbatim>\<open>pb_encode_nullterminated\<close> appends one zero byte, and \<^verbatim>\<open>pb_decode_tag\<close> on that byte reports the
  end of the message.\<close>

theorem nullterminated_ends:
  assumes "callbacks_ok E C" and "spec_message E C m d fs src = bytes bs"
    and "ostream_ready s" and "length bs + 1 \<le> o_room s"
  shows "\<exists>s' t. pb_encode_nullterminated E m d fs src s = Some (True, s') \<and>
    i_avail (read_back s s') = bs @ [0] \<and>
    pb_decode_tag i (i_adv (read_back s s') (length bs)) = (False, t, 0, 0, True)"
proof -
  let ?s' = "o_put s (bs @ [0])"
  let ?t = "i_adv (read_back s ?s') (length bs)"
  have len: "length bs < 2 ^ 63"
    using assms(3,4) by (auto simp: ostream_ready_def ostream_ok_def o_room_def)
  have "stream_writer (pb_encode E m d fs src) bs"
    using pb_encode_implements [OF assms(1), of m d fs src] assms(2) len by (auto intro: implements_writerD)
  moreover have "stream_writer (\<lambda>s. Some (pb_write (io E) s [0] 1)) [0]"
    by (rule stream_writer_write) simp_all
  ultimately have "stream_writer (pb_encode_nullterminated E m d fs src) (bs @ [0])"
    unfolding pb_encode_nullterminated_def [abs_def] by (rule stream_writer_and_then)
  then have enc: "pb_encode_nullterminated E m d fs src s = Some (True, ?s')"
    using assms(3,4) by (intro stream_writer.fits) simp_all
  have r: "istream_ok (read_back s ?s')" "i_avail (read_back s ?s') = bs @ [0]"
    using read_back_put [of s "bs @ [0]"] assms(3,4) by (simp_all add: ostream_ready_ok)
  then have "istream_ok ?t" "i_avail ?t = [0]" by (auto intro: istream_ok_adv)
  then have "pb_decode_tag i ?t = (False, i_adv ?t 1, 0, 0, True)"
    by (simp add: pb_decode_tag_def pb_decode_varint32_eof_def pb_readbyte_ok)
  then show ?thesis using enc r by blast
qed

theorem nullterminated_ends_witness:
  "\<exists>s' t. pb_encode_nullterminated ex_env ex_mem 3 ex_root 16 (pb_ostream_from_buffer (replicate 9 0) 9) = Some (True, s') \<and>
     i_avail (read_back (pb_ostream_from_buffer (replicate 9 0) 9) s') =
       [0x08, 0xAC, 0x02, 0x12, 0x02, 0x08, 0x05] @ [0] \<and>
     pb_decode_tag ex_io (i_adv (read_back (pb_ostream_from_buffer (replicate 9 0) 9) s')
       (length [0x08, 0xAC, 0x02, 0x12, 0x02, 0x08, 0x05 :: byte])) = (False, t, 0, 0, True)"
  by (rule nullterminated_ends [OF ex_callbacks ex_message]) (simp_all add: buffer_ready)

section \<open>The wire format\<close>

text \<open>C9. Varints round-trip: any sequence of 64-bit values written with \<^verbatim>\<open>pb_encode_varint\<close> is read back
  by as many calls of \<^verbatim>\<open>pb_decode_varint\<close>, which consume exactly what was written.\<close>

theorem varint_roundtrip:
  assumes "ostream_ready s" and "length (concat (map varint_buffer vs)) \<le> o_room s"
  shows "\<exists>s' t. put_seq (pb_encode_varint i) vs s = Some (True, s') \<and>
    dec_seq (pb_decode_varint i) (length vs) (read_back s s') = (True, t, vs) \<and> i_avail t = []"
  using varint_ch.channel [of vs s i] assms by (simp add: list_all_iff)

theorem varint_roundtrip_witness:
  "\<exists>s' t. put_seq (pb_encode_varint ex_io) [300, 0, 0xFFFFFFFFFFFFFFFF] (pb_ostream_from_buffer (replicate 20 0) 20) = Some (True, s') \<and>
     dec_seq (pb_decode_varint ex_io) (length [300, 0, 0xFFFFFFFFFFFFFFFF :: uint64])
       (read_back (pb_ostream_from_buffer (replicate 20 0) 20) s') =
         (True, t, [300, 0, 0xFFFFFFFFFFFFFFFF]) \<and> i_avail t = []"
proof (rule varint_roundtrip)
  have "length (concat (map varint_buffer [300, 0, 0xFFFFFFFFFFFFFFFF])) = 13" by code_simp
  then show "length (concat (map varint_buffer [300, 0, 0xFFFFFFFFFFFFFFFF])) \<le>
      o_room (pb_ostream_from_buffer (replicate 20 0) 20)"
    by (simp only: buffer_ready) simp
qed (simp add: buffer_ready)

text \<open>Signed varints (zig-zag) round-trip for every 64-bit value, negative ones included.\<close>

theorem svarint_roundtrip:
  assumes "ostream_ready s" and "length (concat (map (\<lambda>v. varint_buffer (zigzag v)) vs)) \<le> o_room s"
  shows "\<exists>s' t. put_seq (pb_encode_svarint i) vs s = Some (True, s') \<and>
    dec_seq (pb_decode_svarint i) (length vs) (read_back s s') = (True, t, vs) \<and> i_avail t = []"
  using svarint_ch.channel [of vs s i] assms by (simp add: list_all_iff)

theorem svarint_roundtrip_witness:
  "\<exists>s' t. put_seq (pb_encode_svarint ex_io) [- 3, 7] (pb_ostream_from_buffer (replicate 4 0) 4) = Some (True, s') \<and>
     dec_seq (pb_decode_svarint ex_io) (length [- 3, 7 :: 64 word])
       (read_back (pb_ostream_from_buffer (replicate 4 0) 4) s') = (True, t, [- 3, 7]) \<and> i_avail t = []"
proof (rule svarint_roundtrip)
  have "length (concat (map (\<lambda>v. varint_buffer (zigzag v)) [- 3, 7])) = 2" by code_simp
  then show "length (concat (map (\<lambda>v. varint_buffer (zigzag v)) [- 3, 7])) \<le>
      o_room (pb_ostream_from_buffer (replicate 4 0) 4)"
    by (simp only: buffer_ready) simp
qed (simp add: buffer_ready)


text \<open>Fixed-width values round-trip, four and eight bytes each.\<close>

theorem fixed_roundtrip:
  assumes "ostream_ready s" and "4 * length vs \<le> o_room s" and "8 * length ws \<le> o_room s"
  shows "(\<exists>s' t. put_seq (pb_encode_fixed32 i) vs s = Some (True, s') \<and>
      dec_seq (pb_decode_fixed32 i) (length vs) (read_back s s') = (True, t, vs) \<and> i_avail t = []) \<and>
    (\<exists>s' t. put_seq (pb_encode_fixed64 i) ws s = Some (True, s') \<and>
      dec_seq (pb_decode_fixed64 i) (length ws) (read_back s s') = (True, t, ws) \<and> i_avail t = [])"
proof -
  have "length (concat (map fixed32_bytes vs)) = 4 * length vs" by (induction vs) simp_all
  moreover have "length (concat (map fixed64_bytes ws)) = 8 * length ws" by (induction ws) simp_all
  ultimately show ?thesis
    using fixed32_ch.channel [of vs s i] fixed64_ch.channel [of ws s i] assms by (simp add: list_all_iff)
qed

theorem fixed_roundtrip_witness:
  "(\<exists>s' t. put_seq (pb_encode_fixed32 ex_io) [1, 0xDEADBEEF] (pb_ostream_from_buffer (replicate 8 0) 8) = Some (True, s') \<and>
      dec_seq (pb_decode_fixed32 ex_io) (length [1, 0xDEADBEEF :: uint32])
        (read_back (pb_ostream_from_buffer (replicate 8 0) 8) s') = (True, t, [1, 0xDEADBEEF]) \<and> i_avail t = []) \<and>
   (\<exists>s' t. put_seq (pb_encode_fixed64 ex_io) [7] (pb_ostream_from_buffer (replicate 8 0) 8) = Some (True, s') \<and>
      dec_seq (pb_decode_fixed64 ex_io) (length [7 :: uint64])
        (read_back (pb_ostream_from_buffer (replicate 8 0) 8) s') = (True, t, [7]) \<and> i_avail t = [])"
  by (rule fixed_roundtrip) (simp_all add: buffer_ready)

text \<open>Field headers round-trip: for every wire type below 8 and every field number that protobuf
  allows, \<^verbatim>\<open>pb_decode_tag\<close> returns what \<^verbatim>\<open>pb_encode_tag\<close> was given, and no end of message.\<close>

theorem tag_roundtrip:
  assumes "list_all valid_tag tags" and "ostream_ready s" and "10 * length tags \<le> o_room s"
  shows "\<exists>s' t. put_seq (\<lambda>s (wt, n, eof). pb_encode_tag i s wt n) tags s = Some (True, s') \<and>
    dec_seq (pb_decode_tag i) (length tags) (read_back s s') = (True, t, tags) \<and> i_avail t = []"
proof -
  have "length (concat (map (\<lambda>(wt, n, eof). varint_buffer (tag_value wt n)) tags)) \<le> 10 * length tags"
  proof (induction tags)
    case (Cons a as)
    then show ?case
      using varint_buffer_le_10 [of "tag_value (fst a) (fst (snd a))"] by (cases a) simp
  qed simp
  then show ?thesis
    using tag_ch.channel [of tags s i] assms by simp
qed

theorem tag_roundtrip_witness:
  "\<exists>s' t. put_seq (\<lambda>s (wt, n, eof). pb_encode_tag ex_io s wt n) [(2, 1, False), (0, 536870911, False)]
       (pb_ostream_from_buffer (replicate 20 0) 20) = Some (True, s') \<and>
     dec_seq (pb_decode_tag ex_io) (length [(2, 1, False), (0, 536870911, False) :: pb_wire_type_t \<times> uint32 \<times> bool])
       (read_back (pb_ostream_from_buffer (replicate 20 0) 20) s') =
         (True, t, [(2, 1, False), (0, 536870911, False)]) \<and> i_avail t = []"
  by (rule tag_roundtrip) (simp_all add: buffer_ready valid_tag_def)

text \<open>A varint is as short as its value allows: it fits in \<open>n\<close> bytes exactly when the value has at
  most \<open>7 n\<close> bits (so ten bytes are always enough).\<close>

theorem varint_length_minimal: "length (varint_buffer v) \<le> Suc n \<longleftrightarrow> unat v < 2 ^ (7 * Suc n)"
proof
  assume "length (varint_buffer v) \<le> Suc n"
  then show "unat v < 2 ^ (7 * Suc n)"
  proof (induction n arbitrary: v)
    case 0
    then have "v \<le> 0x7F" by (rule contrapos_pp) (simp add: varint_buffer_large)
    then show ?case by (simp add: unat_le_7F)
  next
    case (Suc n)
    show ?case
    proof (cases "v \<le> 0x7F")
      case True
      then have "unat v < 2 ^ 7" by (simp add: unat_le_7F)
      also have "\<dots> \<le> (2::nat) ^ (7 * Suc (Suc n))" by (rule power_increasing) simp_all
      finally show ?thesis .
    next
      case False
      then have "unat (drop_bit 7 v) < 2 ^ (7 * Suc n)"
        using Suc by (simp add: varint_buffer_large)
      then have "unat v < 2 ^ 7 * 2 ^ (7 * Suc n)"
        by (simp add: unat_drop_bit div_less_iff_less_mult mult.commute)
      then show ?thesis by (simp add: power_add)
    qed
  qed
qed (simp add: length_varint_buffer)

text \<open>No varint is a prefix of another, so a sequence of them can be taken apart in one way only.\<close>

theorem varint_prefix_free:
  assumes "varint_buffer v @ r = varint_buffer w @ r'" and "length r < 2 ^ 63"
  shows "v = w \<and> r = r'"
proof -
  have "length (varint_buffer v @ r) < 2 ^ 64"
    using varint_buffer_le_10 [of v] assms(2) by simp
  then have "v = w"
    using varint_codec.prefix_free assms(1) by blast
  then show ?thesis using assms(1) by simp
qed

theorem varint_prefix_free_witness: "(300 :: uint64) = 300 \<and> [1, 2 :: byte] = [1, 2]"
  using varint_prefix_free [of 300 "[1, 2]" 300 "[1, 2]"] by simp

text \<open>Decoding untrusted input: reading a tag and skipping the field it announces, on any
  well-formed buffer stream with any content, reads nothing outside the buffer, keeps the stream
  well-formed and consumes a prefix of the input.\<close>

theorem decode_tag_then_skip_safe:
  assumes "istream_ok s" and "pb_decode_tag i s = (ok, s1, wt, n, eof)" and "pb_skip_field i s1 wt = (ok', s2)"
  shows "istream_ok s2 \<and> (\<exists>pre. i_avail s = pre @ i_avail s2)"
proof -
  have ok1: "istream_ok s1" and "\<exists>p. i_avail s = p @ i_avail s1"
    using tag.keeps_ok [OF assms(1), of i] tag.consumed_prefix [OF assms(1), of i] assms(2) by simp_all
  moreover have "istream_ok s2" "\<exists>p. i_avail s1 = p @ i_avail s2"
    using skip_field.keeps_ok [OF ok1, of i wt] skip_field.consumed_prefix [OF ok1, of i wt] assms(3)
    by (simp_all add: no_value_def)
  ultimately show ?thesis by (metis append.assoc)
qed

theorem decode_tag_then_skip_safe_witness:
  "\<exists>s1 wt n eof ok' s2. pb_decode_tag ex_io (pb_istream_from_buffer [0x12, 0x7F, 0xFF] 3) = (True, s1, wt, n, eof) \<and>
     pb_skip_field ex_io s1 wt = (ok', s2) \<and> istream_ok s2 \<and> (\<exists>pre. [0x12, 0x7F, 0xFF] = pre @ i_avail s2)"
proof -
  let ?s = "pb_istream_from_buffer [0x12, 0x7F, 0xFF] 3"
  have ok: "istream_ok ?s" "i_avail ?s = [0x12, 0x7F, 0xFF]" by (simp_all add: buffer_istream_ok)
  have "fst (pb_decode_tag ex_io ?s)" by code_simp
  then obtain s1 wt n eof where t: "pb_decode_tag ex_io ?s = (True, s1, wt, n, eof)"
    by (cases "pb_decode_tag ex_io ?s") auto
  obtain ok' s2 where k: "pb_skip_field ex_io s1 wt = (ok', s2)" by fastforce
  show ?thesis
    using decode_tag_then_skip_safe [OF ok(1) t k] t k ok(2) by metis
qed

text \<open>Skipping an unknown field of any of the four wire types succeeds and consumes exactly the bytes
  of its value.\<close>

theorem skip_field_exact:
  assumes "istream_ok s" and "i_avail s = wire_bytes v @ rest" and "short_value v"
  shows "pb_skip_field i s (wire_type_of v) = (True, i_adv s (length (wire_bytes v)))"
  using assms
  by (cases v) (simp_all add: pb_skip_field_def pb_skip_varint_buffer pb_skip_string_exact pb_read_ok)

theorem skip_field_exact_witness:
  "pb_skip_field ex_io (pb_istream_from_buffer [2, 0xAA, 0xBB, 0xCC] 4) (wire_type_of (Length_Delimited [0xAA, 0xBB])) =
     (True, i_adv (pb_istream_from_buffer [2, 0xAA, 0xBB, 0xCC] 4) (length (wire_bytes (Length_Delimited [0xAA, 0xBB]))))"
  by (rule skip_field_exact [where rest = "[0xCC]"]) (simp_all add: buffer_istream_ok varint_buffer_small)


lemma varint_dec_loop_overlong:
  assumes "istream_ok s" and "i_avail s = bs @ rest" and "length bs = n" and "\<forall>b \<in> set bs. b AND 0x80 \<noteq> 0"
    and "unat bitpos + 7 * n = 70"
  shows "varint_dec_loop i s bitpos r = (False, i_set_error (i_adv s n) ''varint overflow'', 0)"
  using assms
proof (induction n arbitrary: bs s bitpos r)
  case 0
  then have "bitpos \<ge> 64" by (simp add: word_le_nat_alt)
  then show ?case by (subst varint_dec_loop.simps) simp
next
  case (Suc n)
  then obtain b bs' where bs: "bs = b # bs'" by (cases bs) auto
  have lt: "\<not> bitpos \<ge> 64" using Suc.prems(5) by (simp add: word_le_nat_alt)
  have "unat (bitpos + 7) = unat bitpos + 7"
    using Suc.prems(5) by (simp add: unat_add_no_wrap)
  moreover have "istream_ok (i_adv s 1)" "i_avail (i_adv s 1) = bs' @ rest"
    using Suc.prems(1,2) bs by (auto intro: istream_ok_adv)
  ultimately have "varint_dec_loop i (i_adv s 1) (bitpos + 7) r' =
      (False, i_set_error (i_adv (i_adv s 1) n) ''varint overflow'', 0)" for r'
    using Suc.prems(3,4,5) bs by (intro Suc.IH) auto
  then show ?case
    using varint_dec_loop_step [OF Suc.prems(1) _ _ lt] Suc.prems(2,4) bs by simp
qed

text \<open>\<^verbatim>\<open>pb_decode_varint\<close> never runs on: ten bytes with the continuation bit set are reported as
  \<^verbatim>\<open>varint overflow\<close>, and nothing after them is read.\<close>

theorem varint_overlong_rejected:
  assumes "istream_ok s" and "i_avail s = bs @ rest" and "length bs = 10" and "list_all (\<lambda>b. b AND 0x80 \<noteq> 0) bs"
  shows "pb_decode_varint i s = (False, i_set_error (i_adv s 10) ''varint overflow'', 0)"
  using varint_dec_loop_overlong [OF assms(1-3)] assms(4) by (simp add: pb_decode_varint_def list_all_iff)

theorem varint_overlong_rejected_witness:
  "pb_decode_varint ex_io (pb_istream_from_buffer (replicate 10 0x80 @ [1]) 11) =
     (False, i_set_error (i_adv (pb_istream_from_buffer (replicate 10 0x80 @ [1]) 11) 10) ''varint overflow'', 0)"
  by (rule varint_overlong_rejected [where rest = "[1]" and bs = "replicate 10 0x80"])
     (simp_all add: buffer_istream_ok list_all_iff)

text \<open>C18. The 32-bit decoder has no such bound. Its bit position is an 8-bit counter, which wraps: a varint
  of 38 bytes, 37 of them \<^verbatim>\<open>0x80\<close>, whose only bit stands for \<open>2\<^sup>2\<^sup>5\<^sup>9\<close>, is accepted as the value 8 (the
  64-bit decoder rejects the same bytes).\<close>

theorem varint32_bitpos_wraps:
  "\<exists>s'. pb_decode_varint32 ex_io (pb_istream_from_buffer (replicate 37 0x80 @ [1]) 38) = (True, s', 8) \<and>
     \<not> fst (pb_decode_varint ex_io (pb_istream_from_buffer (replicate 37 0x80 @ [1]) 38))"
proof -
  have "(case pb_decode_varint32 ex_io (pb_istream_from_buffer (replicate 37 0x80 @ [1]) 38) of
      (ok, s', v) \<Rightarrow> ok \<and> v = 8)"
    by code_simp
  moreover have "\<not> fst (pb_decode_varint ex_io (pb_istream_from_buffer (replicate 37 0x80 @ [1]) 38))"
    by code_simp
  ultimately show ?thesis by (auto split: prod.splits)
qed

text \<open>C19. Substreams: after \<^verbatim>\<open>pb_make_string_substream\<close>, whatever is read from the substream (any part of
  it, successfully or not), \<^verbatim>\<open>pb_close_string_substream\<close> succeeds and leaves the parent stream
  well-formed and right behind the delimited block.\<close>

theorem substream_discipline:
  assumes "istream_ok s" and "pb_make_string_substream i s = (True, s1, sub)" and "i_sub sub sub'"
  shows "\<exists>s2 sub2. pb_close_string_substream i s1 sub' = (True, s2, sub2) \<and> istream_ok s2 \<and>
    (\<exists>pre. i_avail s = pre @ i_avail sub @ i_avail s2)"
proof -
  obtain s0 n where s0: "i_sub s s0" "istream_ok s0" and n: "n \<le> length (i_avail s0)"
    and s1: "s1 = s0\<lparr>bytes_left := bytes_left s0 - word_of_nat n\<rparr>"
    and sub: "sub = s0\<lparr>bytes_left := word_of_nat n\<rparr>" "n < 2 ^ 32"
    using make_substream [OF assms(1,2)] .
  obtain s2 e sub2 where close: "pb_close_string_substream i s1 sub' = (True, s2, sub2)"
    and s2: "s2 = (i_adv s0 n)\<lparr>i_errmsg := e\<rparr>" "istream_ok s2"
    using close_substream [OF s0(2) n s1 sub(1) assms(3)] .
  have "i_avail sub = take n (i_avail s0)"
    using n sub(2) length_i_avail [OF s0(2)]
    by (simp add: sub(1) i_avail_def unat_of_nat_small min_def)
  moreover have "i_avail s2 = drop n (i_avail s0)"
    using s0(2) n by (simp add: s2(1))
  ultimately have "i_avail s0 = i_avail sub @ i_avail s2" by simp
  moreover obtain k where "i_avail s0 = drop k (i_avail s)"
    using i_sub_avail [OF assms(1) s0(1)] by blast
  ultimately have "i_avail s = take k (i_avail s) @ i_avail sub @ i_avail s2"
    by (metis append_take_drop_id)
  then show ?thesis using close s2(2) by blast
qed

theorem substream_discipline_witness:
  "\<exists>s1 sub s2 sub2. pb_make_string_substream ex_io (pb_istream_from_buffer [2, 0xAA, 0xBB, 0xCC] 4) = (True, s1, sub) \<and>
     pb_close_string_substream ex_io s1 sub = (True, s2, sub2) \<and> istream_ok s2 \<and>
     (\<exists>pre. [2, 0xAA, 0xBB, 0xCC] = pre @ i_avail sub @ i_avail s2)"
proof -
  let ?s = "pb_istream_from_buffer [2, 0xAA, 0xBB, 0xCC] 4"
  have ok: "istream_ok ?s" "i_avail ?s = [2, 0xAA, 0xBB, 0xCC]" by (simp_all add: buffer_istream_ok)
  have "fst (pb_make_string_substream ex_io ?s)" by code_simp
  then obtain s1 sub where mk: "pb_make_string_substream ex_io ?s = (True, s1, sub)"
    by (cases "pb_make_string_substream ex_io ?s") auto
  show ?thesis
    using substream_discipline [OF ok(1) mk i_sub_refl] mk ok(2) by metis
qed

section \<open>Field iteration\<close>

text \<open>C20. A loop \<^verbatim>\<open>do ... while (pb_field_iter_next(&iter))\<close> over a well-formed descriptor visits every field
  exactly once, in order.\<close>

theorem field_iteration_complete:
  assumes "wf_fields fs" and "tag (fs ! 0) \<noteq> 0"
  shows "map cur (msg_iters fs src) = butlast fs"
proof -
  have "0 < n_fields fs"
    using assms wf_fields_tag [of fs 0] by (cases "n_fields fs") (auto simp: wf_fields_def)
  then have "map cur (msg_iters fs src) = map (\<lambda>k. fs ! k) [0..<n_fields fs]"
    using assms(1) by (simp add: msg_iters_wf cur_iter_at)
  also have "\<dots> = butlast fs"
    by (rule nth_equalityI) (simp_all add: n_fields_def nth_butlast)
  finally show ?thesis .
qed

theorem field_iteration_complete_witness: "map cur (msg_iters ex_root 16) = butlast ex_root"
  by (rule field_iteration_complete) (simp_all add: ex_root_def ex_field_def wf_fields_def)

text \<open>C21. \<^verbatim>\<open>pb_field_iter_find\<close> always ends; from any field of a well-formed descriptor it succeeds exactly
  when some field has the tag (extension ranges apart) and then stands on such a field.\<close>

theorem field_find_correct:
  assumes "wf_fields fs" and "p < n_fields fs"
  shows "\<exists>found k. pb_field_iter_find (iter_at fs dest p) t = Some (found, iter_at fs dest k) \<and>
    k < n_fields fs \<and> (found \<longleftrightarrow> (\<exists>j < n_fields fs. matches fs t j)) \<and> (found \<longrightarrow> matches fs t k)"
proof (cases "find (\<lambda>i. matches fs t ((p + i) mod n_fields fs)) [0..<n_fields fs]")
  case None
  then have "\<not> matches fs t ((p + i) mod n_fields fs)" if "i < n_fields fs" for i
    using that by (simp add: find_None_iff)
  then have "\<not> (\<exists>j < n_fields fs. matches fs t j)"
    using cyclic_surj [OF assms(2)] by metis
  then show ?thesis
    using None assms(2) by (auto simp: iter_find_at [OF assms])
next
  case (Some i)
  then have "matches fs t ((p + i) mod n_fields fs)"
    by (auto simp: find_Some_iff)
  moreover have "(p + i) mod n_fields fs < n_fields fs"
    using assms(2) by simp
  ultimately show ?thesis
    using Some by (fastforce simp: iter_find_at [OF assms])
qed

theorem field_find_correct_witness:
  "\<exists>found k. pb_field_iter_find (iter_at ex_root 16 1) 1 = Some (found, iter_at ex_root 16 k) \<and>
     k < n_fields ex_root \<and> (found \<longleftrightarrow> (\<exists>j < n_fields ex_root. matches ex_root 1 j)) \<and>
     (found \<longrightarrow> matches ex_root 1 k)"
  by (rule field_find_correct) (simp_all add: ex_root_def ex_field_def wf_fields_def n_fields_def)


end
