(* ===== verification/PbDecodeClaims.thy ===== *)
theory PbDecodeClaims
  imports PbReadBack PbClaims
begin

unbundle bit_operations_syntax

text \<open>
  The guarantees of the message decoder: it ends, it stays inside of its input and inside of the message, and two cases in
  which it does not compute the place it means to.
\<close>

section \<open>A decoder to try things on\<close>

text \<open>The message types of \<open>ex_root\<close> and \<open>ex_leaf\<close>, no callbacks and no memory to allocate.\<close>

definition ex_denv :: pb_dec_env where
  "ex_denv = \<lparr>d_io = ex_io, d_fields_at = (\<lambda>p. ex_leaf), user_decode = (\<lambda>_ _ _ s st. (False, s, st)),
     user_ext_decode = (\<lambda>_ _ _ _ s st. (False, s, st)), pb_realloc = (\<lambda>st _ _. (0, st)), pb_free = (\<lambda>st _. st),
     fixed_count_at = (\<lambda>d. 1000 + 8 * word_of_nat d)\<rparr>"

definition ex_store :: pb_store where
  "ex_store = \<lparr>mem = (\<lambda>_. 7), blocks = (\<lambda>_. None)\<rparr>"

definition ex_istream :: "byte list \<Rightarrow> pb_istream_t" where
  "ex_istream bs = pb_istream_from_buffer bs (word_of_nat (length bs))"

lemma ex_istream_ok: "length bs < 100 \<Longrightarrow> istream_ok (ex_istream bs)"
  by (simp add: ex_istream_def istream_ok_def pb_istream_from_buffer_def unat_of_nat_small)

lemma ex_dec_callbacks: "callback_safe t ex_denv"
  by (simp add: callback_safe_def ex_denv_def)

lemma ex_types: "PB_ATYPE 0 = 0" "PB_HTYPE 0 = 0" "PB_LTYPE 0 = 0" "PB_ATYPE 2 = 0" "PB_HTYPE 2 = 0" "PB_LTYPE 2 = 2"
  "PB_ATYPE 8 = 0" "PB_HTYPE 8 = 0" "PB_LTYPE 8 = 8"
  by (simp_all add: PB_ATYPE_def PB_HTYPE_def PB_LTYPE_def)

lemma ex_valid: "descriptor_valid ex_leaf" "descriptor_valid ex_root" "nested_valid ex_denv 2 ex_root"
  by code_simp+

section \<open>Properties\<close>

text \<open>C10. For message types nested at most \<open>d\<close> deep, with static, pointer, callback and oneof fields and without
  extensions, \<^verbatim>\<open>pb_decode\<close> returns, whatever the input is and whatever the message memory holds. The callbacks have to
  consume something of the string they are called on, or fail.\<close>

theorem pb_decode_terminates:
  assumes "nested_valid E d fs" and "callback_safe True E" and "istream_ok s"
  shows "\<exists>ok s' st'. pb_decode E d fs dest s st = Some (ok, s', st')"
  using dec_ok_returns [OF decode_ok [OF nested_message_ok [OF assms(2,1)]] assms(3), of dest st] by auto

theorem pb_decode_terminates_witness:
  "\<exists>ok s' st'. pb_decode ex_denv 2 ex_root 16 (ex_istream [8, 0xAC, 2, 0x12, 2, 8]) ex_store = Some (ok, s', st')"
  by (rule pb_decode_terminates [OF ex_valid(3) ex_dec_callbacks ex_istream_ok]) simp



text \<open>Recursive message types have no such depth. What can be said of them is that a run which ends within the depth \<open>d\<close>
  it is given has kept to its input.\<close>

lemma recursive_input_safe:
  assumes "\<forall>p. descriptor_valid (d_fields_at E p)" and "descriptor_valid fs" and "callback_safe False E" and "istream_ok s"
    and "pb_decode E d fs dest s st = Some (ok, s', st')"
  shows "istream_ok s' \<and> i_buf s' = i_buf s \<and> (ok \<longrightarrow> (\<exists>pre. i_avail s = pre @ i_avail s'))"
proof -
  have all: "\<And>p. descriptor_valid (d_fields_at E p)" using assms(1) by simp
  note D = dec_okD [OF decode_ok [OF valid_message_ok [OF assms(3) all assms(2)]] assms(4,5)]
  have "\<exists>pre. i_avail s = pre @ i_avail s'" if ok
    using i_sub_avail [OF assms(4) D(2) [OF that]] by (metis append_take_drop_id)
  then show ?thesis using D(1,4) by (auto simp: i_within_def istream_ok_def)
qed

text \<open>C13. A message of static fields is the only memory that \<^verbatim>\<open>pb_decode\<close> changes, on arbitrary input: it returns, and
  every byte outside of the region \<open>A\<close>, which has the places of the fields and the decoder's own local variables, is as
  it was. Lengths, counts and nested messages in the input cannot make it write elsewhere.\<close>

theorem pb_decode_memory_safe:
  assumes "static_within E d A fs dest" and "istream_ok s"
  shows "\<exists>ok s' st'. pb_decode E d fs dest s st = Some (ok, s', st') \<and> istream_ok s' \<and> (\<forall>a. a \<notin> A \<longrightarrow> mem st' a = mem st a)"
proof -
  note ok = decode_ok [OF static_message_ok [OF assms(1)]]
  obtain k s' st' where r: "pb_decode E d fs dest s st = Some (k, s', st')"
    using dec_ok_returns [OF ok assms(2), of st] by (cases "pb_decode E d fs dest s st") auto
  then show ?thesis using dec_okD(3,4) [OF ok assms(2) r] by (auto simp: keeps_def)
qed

lemma ex_within: "static_within ex_denv 2 (span 16 8 \<union> span 1000 16) ex_root 16"
  by code_simp

theorem pb_decode_memory_safe_witness:
  "\<exists>ok s' st'. pb_decode ex_denv 2 ex_root 16 (ex_istream [8, 0xAC, 2, 0x12, 2, 8]) ex_store = Some (ok, s', st') \<and> mem st' 24 = 7"
proof -
  have "24 \<notin> span 16 8 \<union> span 1000 16" by code_simp
  moreover have "istream_ok (ex_istream [8, 0xAC, 2, 0x12, 2, 8])" by (simp add: ex_istream_ok)
  ultimately show ?thesis
    using pb_decode_memory_safe [OF ex_within, of "ex_istream [8, 0xAC, 2, 0x12, 2, 8]" ex_store] by (auto simp: ex_store_def)
qed

text \<open>The default value of a repeated field without a count in the message is set by clearing a count of four bytes at the
  place of the items. If the items are smaller than that (here two \<^verbatim>\<open>bool\<close>s at address 16) the two bytes behind them are
  overwritten.\<close>

definition ex_pair :: "pb_field_t list" where
  "ex_pair = [\<lparr>tag = 1, type = PB_HTYPE_REPEATED OR PB_LTYPE_BOOL, data_offset = 0, size_offset = 0, data_size = 1, array_size = 2, fptr = 0\<rparr>,
     ex_field 0 0 0 0 0]"

theorem fixed_count_default_overflows:
  "(case pb_message_set_to_defaults ex_denv 1 ex_pair 16 ex_store of None \<Rightarrow> False
    | Some st \<Rightarrow> mem ex_store 18 = 7 \<and> mem ex_store 19 = 7 \<and> mem st 18 = 0 \<and> mem st 19 = 0)"
  by code_simp

subsection \<open>Arrays of more than 4 GiB\<close>

text \<open>The place of entry \<open>n\<close> in the array of a repeated pointer field is the 32-bit product of \<open>n\<close> and the size of an entry.\<close>

lemma entry_address:
  "ucast (8 * n :: uint32) = (8 * word_of_nat (unat n mod 0x20000000) :: ptr)"
unfolding word_unat_eq_iff
proof -
  have "unat (ucast (8 * n :: uint32) :: ptr) = unat (8 * n)" by (simp add: ucast_size)
  also have "\<dots> = (8 * unat n) mod 0x100000000" by (simp add: unat_word_ariths)
  also have "\<dots> = 8 * (unat n mod 0x20000000)" by (simp add: mult_mod_right)
  also have "\<dots> = unat (8 * word_of_nat (unat n mod 0x20000000) :: ptr)"
    using mod_less_divisor [of "0x20000000 :: nat" "unat n"] by (simp add: unat_word_ariths unat_of_nat)
  finally show "unat (ucast (8 * n :: uint32) :: ptr) = unat (8 * word_of_nat (unat n mod 0x20000000) :: ptr)" .
qed

lemma entry_span: "k < n \<Longrightarrow> span (q + 8 * word_of_nat k) 8 \<subseteq> span q (8 * n)"
  using span_offset [of "8 * k" 8 "8 * n" q] by simp

lemma entries_disjoint:
  assumes "j < k" and "k < 2 ^ 32"
  shows "span (q + 8 * word_of_nat k) 8 \<inter> span (q + 8 * word_of_nat j) 8 = {}"
proof -
  have "False" if a: "a \<in> span (q + 8 * word_of_nat k) 8" "a \<in> span (q + 8 * word_of_nat j) 8" for a
  proof -
    obtain x y where xy: "x < 8" "y < 8" "a = q + word_of_nat (8 * k + x)" "a = q + word_of_nat (8 * j + y)"
      using a by (auto simp: span_def)
    then have "(word_of_nat (8 * k + x) :: ptr) = word_of_nat (8 * j + y)" by (metis add_left_cancel)
    then have "unat (word_of_nat (8 * k + x) :: ptr) = unat (word_of_nat (8 * j + y) :: ptr)" by (rule arg_cong)
    then have "8 * k + x = 8 * j + y"
      using assms xy(1,2) by (simp only: unat_of_nat) (simp add: take_bit_nat_eq_self)
    then show False using assms(1) xy(1,2) by linarith
  qed
  then show ?thesis by blast
qed

lemma load_store_apart:
  "span a 8 \<inter> span p 8 = {} \<Longrightarrow> load64 (store64 m p x) a = load64 m a"
  "span a 8 \<inter> span p 4 = {} \<Longrightarrow> load64 (store32 m p w) a = load64 m a"
  "span b 4 \<inter> span p 8 = {} \<Longrightarrow> load32 (store64 m p x) b = load32 m b"
  by (intro load_cong(3,4), auto simp: agree_def intro!: store_outside)+

text \<open>C16. An entry of a repeated pointer field of 64-bit values is decoded when the array already has \<open>n \<ge> 2\<^sup>2\<^sup>9\<close>
  entries: \<^verbatim>\<open>decode_pointer_field\<close> allocates \<open>8 * (n + 1)\<close> bytes, enough for all of them, counts the new entry and reports
  success, but it has stored the value over entry \<open>n mod 2\<^sup>2\<^sup>9\<close>, and entry \<open>n\<close> is what the allocator left there.\<close>

theorem pointer_array_wraps:
  assumes field: "PB_HTYPE (type (cur it)) = PB_HTYPE_REPEATED" "PB_LTYPE (type (cur it)) = PB_LTYPE_FIXED64"
      "data_size (cur it) = 8"
    and count: "load32 (mem st) (pSize it) = n" "0x20000000 \<le> n" "n < PB_SIZE_MAX"
    and alloc: "pb_realloc E st (load64 (mem st) (pData it)) (8 * (ucast n + 1)) = (q, st1)" "q \<noteq> 0"
      "load32 (mem st1) (pSize it) = n"
    and apart: "span (pData it) 8 \<inter> span (pSize it) 4 = {}"
      "span q (8 * Suc (unat n)) \<inter> (span (pData it) 8 \<union> span (pSize it) 4) = {}"
    and input: "pb_decode_fixed64 (d_io E) s = (True, s', v)"
  shows "\<exists>st'. decode_pointer_field E d noinit PB_WT_64BIT it s st = Some (True, s', st') \<and>
    load32 (mem st') (pSize it) = n + 1 \<and>
    load64 (mem st') (q + 8 * word_of_nat (unat n mod 0x20000000)) = v \<and>
    load64 (mem st') (q + 8 * word_of_nat (unat n)) = load64 (mem st1) (q + 8 * word_of_nat (unat n))"
proof -
  let ?m = "store32 (store64 (mem st1) (pData it) q) (pSize it) (n + 1)"
  let ?k = "unat n mod 0x20000000"
  have n: "unat n \<ge> 0x20000000" "unat n < 2 ^ 32" using count(2) unat_lt [of n] by (simp_all add: word_le_nat_alt)
  then have k: "?k < unat n" using mod_less_divisor [of "0x20000000 :: nat" "unat n"] by linarith
  have n1: "unat n + 1 < 2 ^ 32" using count(3) by (simp add: word_less_nat_alt)
  then have "ucast (n + 1) = (ucast n + 1 :: size_t)"
    unfolding word_unat_eq_iff using unat_lt [of n] by (simp add: ucast_size unat_word_ariths)
  moreover have c: "unat (ucast n + 1 :: size_t) = unat n + 1"
    using unat_lt [of n] by (simp add: ucast_size unat_word_ariths)
  then have "ucast n + 1 \<noteq> (0 :: size_t)" by (metis Suc_eq_plus1 nat.distinct(1) unat_0)
  moreover have "unat (8 :: size_t) \<le> unat (- 1 div (ucast n + 1) :: size_t)"
  proof -
    have "(2 ^ 64 - 1) div (unat n + 1) \<ge> (2 ^ 64 - 1 :: nat) div 2 ^ 32" using n1 by (intro div_le_mono2) auto
    moreover have "unat (- 1 :: size_t) = 2 ^ 64 - 1" by (simp add: unsigned_minus_1_eq_mask mask_eq_exp_minus_1)
    ultimately show ?thesis using c by (simp add: unat_div del: unat_minus_one)
  qed
  then have "\<not> - 1 div (ucast n + 1) < (8 :: size_t)" by (simp add: word_le_nat_alt not_less)
  ultimately have alloc': "allocate_field E (pData it) (ucast (data_size (cur it))) (ucast (n + 1)) s st =
      Some (True, s, st1\<lparr>mem := store64 (mem st1) (pData it) q\<rparr>)"
    using alloc field(3) by (simp add: allocate_field_def mult.commute)
  have sized: "load32 (store64 (mem st1) (pData it) q) (pSize it) = n"
    using alloc(3) apart(1) by (simp add: load_store_apart Int_commute)
  have r: "decode_pointer_field E d noinit PB_WT_64BIT it s st =
      Some (True, s', st1\<lparr>mem := store64 ?m (q + 8 * word_of_nat ?k) v\<rparr>)"
    using field count(1,3) alloc' sized input
    by (auto simp: decode_pointer_field_def Let_def d_then_def item_ptr_def inc_size_def d_set_def pointer_item_def d_do_def
        initialize_pointer_field_def PB_DECODERS_def pb_dec_fixed64_def load_store(4) entry_address)
  have here: "span (q + 8 * word_of_nat j) 8 \<inter> span (pData it) 8 = {} \<and> span (q + 8 * word_of_nat j) 8 \<inter> span (pSize it) 4 = {}"
    if "j \<le> unat n" for j
    using entry_span [of j "Suc (unat n)" q] apart(2) that by auto
  show ?thesis
    unfolding r using here [of ?k] here [of "unat n"] k entries_disjoint [OF k n(2), of q]
    by (simp add: load_store load_store_apart Int_commute)
qed


definition ex_big :: pb_field_iter_t where
  "ex_big = \<lparr>it_start = [\<lparr>tag = 1, type = 0xA5, data_offset = 0, size_offset = 8, data_size = 8, array_size = 0, fptr = 0\<rparr>, ex_field 0 0 0 0 0],
     it_pos = 0, required_field_index = 0, dest_struct = 16, pData = 16, pSize = 24\<rparr>"

text \<open>\<open>2\<^sup>2\<^sup>9\<close> entries have been decoded; every call of \<^verbatim>\<open>pb_realloc\<close> gives the block at \<open>0x5000\<close>.\<close>

definition ex_big_store :: pb_store where
  "ex_big_store = \<lparr>mem = (\<lambda>a. if a = 27 then 0x20 else 0), blocks = (\<lambda>_. None)\<rparr>"

definition ex_big_env :: pb_dec_env where
  "ex_big_env = ex_denv\<lparr>pb_realloc := \<lambda>st _ _. (0x5000, st)\<rparr>"

theorem pointer_array_wraps_witness:
  "\<exists>s' st'. decode_pointer_field ex_big_env 1 (pb_decode_noinit ex_big_env 1) PB_WT_64BIT ex_big (ex_istream [1, 2, 3, 4, 5, 6, 7, 8]) ex_big_store =
      Some (True, s', st') \<and>
    load64 (mem st') 0x5000 = 0x0807060504030201 \<and> load64 (mem st') 0x100005000 = 0"
proof -
  let ?s = "ex_istream [1, 2, 3, 4, 5, 6, 7, 8]"
  have field: "PB_HTYPE (type (cur ex_big)) = PB_HTYPE_REPEATED" "PB_LTYPE (type (cur ex_big)) = PB_LTYPE_FIXED64"
      "data_size (cur ex_big) = 8" "load32 (mem ex_big_store) (pSize ex_big) = 0x20000000"
    by code_simp+
  have alloc: "pb_realloc ex_big_env ex_big_store (load64 (mem ex_big_store) (pData ex_big)) (8 * (ucast (0x20000000 :: uint32) + 1)) = (0x5000, ex_big_store)"
    by (simp add: ex_big_env_def)
  have small: "\<forall>a \<in> span 16 8 \<union> span 24 4. \<not> a - 0x5000 < (0x100000008 :: ptr)" and "span 16 8 \<inter> span 24 4 = {}" by code_simp+
  moreover have "a \<notin> span 0x5000 0x100000008" if "a \<in> span 16 8 \<union> span 24 4" for a
    using bspec [OF small that] span_unat [of "0x100000008" a "0x5000"] by (simp add: word_less_nat_alt)
  then have "span 0x5000 0x100000008 \<inter> (span 16 8 \<union> span 24 4) = {}" by blast
  moreover have "8 * Suc (unat (0x20000000 :: uint32)) = 0x100000008" "pData ex_big = 16" "pSize ex_big = 24"
    by (simp_all add: ex_big_def)
  ultimately have apart: "span (pData ex_big) 8 \<inter> span (pSize ex_big) 4 = {}"
      "span 0x5000 (8 * Suc (unat (0x20000000 :: uint32))) \<inter> (span (pData ex_big) 8 \<union> span (pSize ex_big) 4) = {}"
    by (simp_all only:)
  define r where "r = pb_decode_fixed64 (d_io ex_big_env) ?s"
  have "fst r" "snd (snd r) = 0x0807060504030201" unfolding r_def by code_simp+
  then have "pb_decode_fixed64 (d_io ex_big_env) ?s = (True, fst (snd r), 0x0807060504030201)"
    unfolding r_def [symmetric] by (cases r) auto
  moreover have "load64 (mem ex_big_store) 0x100005000 = 0" by code_simp
  ultimately show ?thesis
    using pointer_array_wraps [OF field _ _ alloc _ field(4) apart, of ?s "fst (snd r)" "0x0807060504030201" 1 "pb_decode_noinit ex_big_env 1"] by auto
qed

end
