(* ===== verification/PbRoundTrip.thy ===== *)
theory PbRoundTrip
  imports PbFieldBack PbDecodeClaims
begin

text \<open>
  Whole messages: what \<^verbatim>\<open>pb_encode\<close> writes, \<^verbatim>\<open>pb_decode\<close> reads back.
\<close>

unbundle bit_operations_syntax

section \<open>Messages\<close>

lemma spec_concat_iff:
  "spec_concat f xs = bytes bs \<longleftrightarrow> (\<exists>cs. length cs = length xs \<and> bs = concat cs \<and> (\<forall>i < length xs. f (xs ! i) = bytes (cs ! i)))"
proof (induction xs arbitrary: bs)
  case (Cons x xs)
  show ?case
  proof
    assume "spec_concat f (x # xs) = bytes bs"
    then obtain c ys where c: "f x = bytes c" "spec_concat f xs = bytes ys" "bs = c @ ys" by (auto simp: cat_bytes)
    then obtain cs where "length cs = length xs" "ys = concat cs" "\<forall>i < length xs. f (xs ! i) = bytes (cs ! i)" using Cons.IH by blast
    then show "\<exists>cs. length cs = length (x # xs) \<and> bs = concat cs \<and> (\<forall>i < length (x # xs). f ((x # xs) ! i) = bytes (cs ! i))"
      using c by (intro exI [of _ "c # cs"]) (auto simp: nth_Cons split: nat.splits)
  next
    assume "\<exists>cs. length cs = length (x # xs) \<and> bs = concat cs \<and> (\<forall>i < length (x # xs). f ((x # xs) ! i) = bytes (cs ! i))"
    then obtain c cs where cs: "length cs = length xs" "bs = c @ concat cs" "\<forall>i < length (x # xs). f ((x # xs) ! i) = bytes ((c # cs) ! i)"
      by (auto simp: length_Suc_conv)
    have "spec_concat f xs = bytes (concat cs)" using Cons.IH cs(1,3) by fastforce
    then show "spec_concat f (x # xs) = bytes bs" using cs(2) cs(3) [rule_format, of 0] by simp
  qed
qed auto

text \<open>After field \<open>k - 1\<close>: the fields before \<open>k\<close> have their encodings, those from \<open>k\<close> on are unset.\<close>

definition progress :: "pb_env \<Rightarrow> callback_out \<Rightarrow> nat \<Rightarrow> pb_field_t list \<Rightarrow> ptr \<Rightarrow> byte list list \<Rightarrow> nat \<Rightarrow> pb_store \<Rightarrow> bool" where
  "progress EE C d fs dest cs k st \<longleftrightarrow> (\<forall>j < n_fields fs. let it = iter_at fs dest j in
     if j < k then spec_one EE C (mem st) d (spec_message EE C (mem st) d) it = bytes (cs ! j)
     else unset EE (mem st) d it \<and> (PB_LTYPE (type (fs ! j)) = PB_LTYPE_SUBMESSAGE \<and> PB_HTYPE (type (fs ! j)) \<noteq> PB_HTYPE_REPEATED \<longrightarrow>
       fresh EE (mem st) d (fields_at EE (fptr (fs ! j))) (pData it)))"

lemma progressD:
  assumes "progress EE C d fs dest cs k st" and "j < n_fields fs"
  shows "j < k \<Longrightarrow> spec_one EE C (mem st) d (spec_message EE C (mem st) d) (iter_at fs dest j) = bytes (cs ! j)"
    and "k \<le> j \<Longrightarrow> unset EE (mem st) d (iter_at fs dest j)"
    and "k \<le> j \<Longrightarrow> PB_LTYPE (type (fs ! j)) = PB_LTYPE_SUBMESSAGE \<Longrightarrow> PB_HTYPE (type (fs ! j)) \<noteq> PB_HTYPE_REPEATED \<Longrightarrow>
      fresh EE (mem st) d (fields_at EE (fptr (fs ! j))) (pData (iter_at fs dest j))"
  using assms(1) [unfolded progress_def Let_def, rule_format, OF assms(2)] by (simp_all split: if_splits)

lemma progress_step:
  assumes S: "setting E EE C d B fs dest" and k: "k < n_fields fs" and pr: "progress EE C d fs dest cs k st"
    and new: "spec_one EE C (mem st') d (spec_message EE C (mem st') d) (iter_at fs dest k) = bytes (cs ! k)"
    and keep: "keeps (region (iter_at fs dest k) \<union> fc_region E d) st st'"
  shows "progress EE C d fs dest cs (Suc k) st'"
  unfolding progress_def Let_def
proof (intro allI impI)
  fix j assume j: "j < n_fields fs"
  let ?it = "iter_at fs dest j"
  note l = layoutD [OF settingD(1) [OF S]] and E = settingD(5) [OF S]
  have c: "cur ?it = fs ! j" by (rule cur_iter_at [OF l(1) j])
  have pl: "placed ?it" by (rule layout_placed [OF settingD(1) [OF S] j])
  have ag: "agree (region ?it) (mem st) (mem st')" if "j \<noteq> k"
    using l(10) [OF j k that] l(7) [OF j] settingD(2) [OF S] by (intro keeps_agree [OF keep]) blast
  show "if j < Suc k then spec_one EE C (mem st') d (spec_message EE C (mem st') d) ?it = bytes (cs ! j)
     else unset EE (mem st') d ?it \<and> (PB_LTYPE (type (fs ! j)) = PB_LTYPE_SUBMESSAGE \<and> PB_HTYPE (type (fs ! j)) \<noteq> PB_HTYPE_REPEATED \<longrightarrow>
       fresh EE (mem st') d (fields_at EE (fptr (fs ! j))) (pData ?it))"
  proof (cases "j < k")
    case True
    have "spec_one EE C (mem st') d (spec_message EE C (mem st') d) ?it = spec_one EE C (mem st) d (spec_message EE C (mem st) d) ?it"
    proof (rule field_local [OF pl])
      show a: "agree (region ?it) (mem st) (mem st')" using ag True by simp
      fix q assume sm: "PB_LTYPE (type (cur ?it)) = PB_LTYPE_SUBMESSAGE" and q: "q \<in> set (items_of ?it)"
      have lay: "rt_layout E d (span q (unat (data_size (fs ! j)))) (d_fields_at E (fptr (fs ! j))) q" using l(9) [OF j _ q] sm c by simp
      have "agree (span q (unat (data_size (fs ! j)))) (mem st) (mem st')" using agree_mono [OF a item_region [OF q]] c by simp
      from message_local [OF E lay this]
      show "spec_message EE C (mem st') d (fields_at EE (fptr (cur ?it))) q = spec_message EE C (mem st) d (fields_at EE (fptr (cur ?it))) q"
        unfolding c E .
    qed
    then show ?thesis using progressD(1) [OF pr j True] True by simp
  next
    case False
    show ?thesis
    proof (cases "j = k")
      case True
      then show ?thesis using new by simp
    next
      case ne: False
      have a: "agree (region ?it) (mem st) (mem st')" using ag ne by simp
      have "fresh EE (mem st') d (fields_at EE (fptr (fs ! j))) (pData ?it)"
        if sm: "PB_LTYPE (type (fs ! j)) = PB_LTYPE_SUBMESSAGE" "PB_HTYPE (type (fs ! j)) \<noteq> PB_HTYPE_REPEATED"
      proof -
        have q: "pData ?it \<in> set (items_of ?it)" using sm(2) c by (intro pData_in) simp
        have ag': "agree (span (pData ?it) (unat (data_size (fs ! j)))) (mem st) (mem st')" using agree_mono [OF a item_region [OF q]] c by simp
        have "fresh EE (mem st) d (d_fields_at E (fptr (fs ! j))) (pData ?it)" using progressD(3) [OF pr j _ sm] False unfolding E by simp
        from fresh_local [OF E l(9) [OF j sm(1) q] ag' this] show ?thesis unfolding E .
      qed
      then show ?thesis using unset_local [OF pl a] progressD(2) [OF pr j] False ne by simp
    qed
  qed
qed

lemma fields_rounds:
  assumes S: "setting E EE C d B fs dest" and src: "src \<noteq> 0" "src_ok EE m (Suc d) fs src"
    and cs: "length cs = n_fields fs" "\<forall>k < n_fields fs. spec_one EE C m d (spec_message EE C m d) (iter_at fs src k) = bytes (cs ! k)"
    and len: "length (concat cs) < 2 ^ 32"
  shows "k \<le> n_fields fs \<Longrightarrow> at_field fs dest 0 L \<Longrightarrow> progress EE C d fs dest cs 0 st \<Longrightarrow>
    rounds (decode_round E d (pb_decode_noinit E d) fc) (concat (take k cs)) L st
      (\<lambda>L' st'. at_field fs dest k L' \<and> progress EE C d fs dest cs k st')"
proof (induction k)
  case 0
  then show ?case by (simp add: rounds_none)
next
  case (Suc k)
  have k: "k < n_fields fs" using Suc.prems(1) by simp
  have "concat cs = concat (take k cs) @ cs ! k @ concat (drop (Suc k) cs)"
    using k cs(1) by (metis concat.simps(2) concat_append id_take_nth_drop)
  from arg_cong [OF this, of length] have n: "length (cs ! k) < 2 ^ 32" using len by simp
  have "rounds (decode_round E d (pb_decode_noinit E d) fc) (concat (take k cs) @ cs ! k) L st
      (\<lambda>L' st'. at_field fs dest (Suc k) L' \<and> progress EE C d fs dest cs (Suc k) st')"
  proof (rule rounds_then)
    show "rounds (decode_round E d (pb_decode_noinit E d) fc) (concat (take k cs)) L st
        (\<lambda>L' st'. at_field fs dest k L' \<and> progress EE C d fs dest cs k st')" using Suc k by simp
    fix L1 st1 assume a: "at_field fs dest k L1 \<and> progress EE C d fs dest cs k st1"
    then have pr: "progress EE C d fs dest cs k st1" by blast
    have "rounds (decode_round E d (pb_decode_noinit E d) fc) (cs ! k) L1 st1 (decoded E EE C d fs dest k (cs ! k) st1)"
      using a progressD(2,3) [OF pr k] cs(2) k n by (intro field_rounds [OF S k _ _ _ src]) simp_all
    then show "rounds (decode_round E d (pb_decode_noinit E d) fc) (cs ! k) L1 st1
        (\<lambda>L' st'. at_field fs dest (Suc k) L' \<and> progress EE C d fs dest cs (Suc k) st')"
      by (rule rounds_mono) (use progress_step [OF S k pr] in blast)
  qed
  moreover have "take (Suc k) cs = take k cs @ [cs ! k]" using k cs(1) by (simp add: take_Suc_conv_app_nth)
  ultimately show ?case by simp
qed

lemma noinit_finish_ok:
  assumes "wf_fields fs" and "length fs < 2 ^ 32" and L: "at_field fs dest (n_fields fs) L"
  shows "noinit_finish fc L s st = Some (True, s, st)"
proof -
  obtain j where j: "j < n_fields fs" "l_iter L = iter_at fs dest j" and f: "fixed_count_field L = None"
    and seen: "fields_seen L = seen_upto (n_required (take (n_fields fs) fs))" using L by (auto simp: at_field_def)
  have "n_required (take (n_fields fs) fs) < 2 ^ 32" using n_required_le [of "take (n_fields fs) fs"] assms(2) by simp
  from all_seen_at [OF this] show ?thesis
    using f seen req_field_count_at [OF assms(1) j(1), of dest] j(2) by (simp add: noinit_finish_def wrong_count_def Let_def)
qed

lemma decodes_back_all: "d_fields_at E = fields_at EE \<Longrightarrow> decodes_back E EE C d"
proof (induction d)
  case 0
  then show ?case by (simp add: decodes_back_def rt_layout.simps)
next
  case (Suc d)
  show ?case
    unfolding decodes_back_def
  proof (intro allI impI)
    fix B fs dest m src bs and st :: pb_store
    assume lay: "rt_layout E (Suc d) B fs dest" and dis: "B \<inter> fc_region E (Suc d) = {}" "0 \<notin> B" and fr: "fresh EE (mem st) (Suc d) fs dest"
      and src: "src \<noteq> 0" "src_ok EE m (Suc d) fs src" and enc: "spec_message EE C m (Suc d) fs src = bytes bs" and len: "length bs < 2 ^ 32"
    have S: "setting E EE C d B fs dest" using lay dis Suc by (simp add: setting_def)
    note l = layoutD [OF lay]
    have t0: "tag (fs ! 0) \<noteq> 0" using wf_fields_tag [OF l(1), of 0] l(1,2) by (simp add: wf_fields_def)
    have "spec_concat (spec_one EE C m d (spec_message EE C m d)) (msg_iters fs src) = bytes bs" using enc t0 by simp
    then obtain cs where cs: "length cs = n_fields fs" "bs = concat cs"
      "\<forall>k < n_fields fs. spec_one EE C m d (spec_message EE C m d) (iter_at fs src k) = bytes (cs ! k)"
      unfolding spec_concat_iff msg_iters_nth(1) [OF l(1,2)] using msg_iters_nth(2) [OF l(1,2), where dest = src] by auto
    let ?fc = "fixed_count_at E d" and ?R = "decode_round E d (pb_decode_noinit E d) (fixed_count_at E d)"
    let ?st0 = "st\<lparr>mem := store32 (mem st) (fixed_count_at E d) 0\<rparr>" and ?L0 = "noinit_start fs dest"
    have "agree B (mem st) (mem ?st0)"
      using keeps_agree [OF store32_keeps [of ?fc "span ?fc 4", OF subset_refl]] settingD(3) [OF S] by simp
    then have fr0: "fresh EE (mem ?st0) (Suc d) fs dest" using fresh_local [OF Suc.prems lay] fr by blast
    have pr: "progress EE C d fs dest cs 0 ?st0" using freshD [OF fr0 l(1)] by (auto simp: progress_def Let_def)
    have at: "at_field fs dest 0 ?L0"
      using l(2) by (auto simp: at_field_def noinit_start_def seen_upto_def n_required_def intro!: exI [of _ 0])
    have run: "rounds ?R bs ?L0 ?st0 (\<lambda>L' st'. at_field fs dest (n_fields fs) L' \<and> progress EE C d fs dest cs (n_fields fs) st')"
      using fields_rounds [OF S src cs(1,3) _ _ at pr, of "n_fields fs" ?fc] len cs(1,2) by simp
    show "reads_all (pb_decode_noinit E (Suc d) fs dest) bs st (\<lambda>st'. spec_message EE C (mem st') (Suc d) fs dest = bytes bs)"
      unfolding reads_all_def
    proof (intro allI impI)
      fix s assume s: "istream_ok s" "i_avail s = bs"
      obtain k L' st' where r: "k \<le> length bs" "at_field fs dest (n_fields fs) L'" "progress EE C d fs dest cs (n_fields fs) st'"
        "\<And>n. noinit_loop ?R (k + n) ?L0 s ?st0 = noinit_loop ?R n L' (i_adv s (length bs)) st'"
        using run s unfolding rounds_def by (metis append_Nil2)
      have left: "unat (bytes_left s) = length bs" using length_i_avail [OF s(1)] s(2) by simp
      then have "bytes_left s = word_of_nat (length bs)" using len by (simp add: word_unat_eq_iff unat_of_nat_small)
      then have "bytes_left (i_adv s (length bs)) = 0" by (simp add: i_adv_def)
      then have "noinit_loop ?R (Suc (length bs - k)) L' (i_adv s (length bs)) st' = Some (True, L', i_adv s (length bs), st')" by simp
      moreover have "Suc (unat (bytes_left s)) = k + Suc (length bs - k)" using r(1) left by simp
      ultimately have "noinit_loop ?R (Suc (unat (bytes_left s))) ?L0 s ?st0 = Some (True, L', i_adv s (length bs), st')" using r(4) by metis
      then have "pb_decode_noinit E (Suc d) fs dest s st = Some (True, i_adv s (length bs), st')"
        using noinit_finish_ok [OF l(1,3) r(2)] by (simp add: Let_def del: noinit_loop.simps)
      moreover have "spec_message EE C (mem st') (Suc d) fs dest = bytes bs"
      proof -
        have "spec_concat (spec_one EE C (mem st') d (spec_message EE C (mem st') d)) (msg_iters fs dest) = bytes bs"
          unfolding spec_concat_iff msg_iters_nth(1) [OF l(1,2)]
          using cs(1,2) progressD(1) [OF r(3)] msg_iters_nth(2) [OF l(1,2), where dest = dest] by (intro exI [of _ cs]) simp
        then show ?thesis using t0 by simp
      qed
      ultimately show "\<exists>st'. pb_decode_noinit E (Suc d) fs dest s st = Some (True, i_adv s (length bs), st') \<and>
          spec_message EE C (mem st') (Suc d) fs dest = bytes bs" by blast
    qed
  qed
qed

section \<open>The round trip\<close>

lemma reads_all_keeps:
  assumes f: "dec_ok t A f" and r: "reads_all f bs st P"
  shows "reads_all f bs st (\<lambda>st'. P st' \<and> keeps A st st')"
  unfolding reads_all_def
proof (intro allI impI)
  fix s assume s: "istream_ok s" "i_avail s = bs"
  then obtain st' where st': "f s st = Some (True, i_adv s (length bs), st')" "P st'" using r unfolding reads_all_def by blast
  with dec_okD(3) [OF f s(1) st'(1)] show "\<exists>st'. f s st = Some (True, i_adv s (length bs), st') \<and> P st' \<and> keeps A st st'" by blast
qed

lemma pb_decode_back:
  assumes lay: "rt_layout E d B fs dest" and dis: "B \<inter> fc_region E d = {}" "0 \<notin> B" and E: "d_fields_at E = fields_at EE"
    and src: "src \<noteq> 0" "src_ok EE m d fs src" and enc: "spec_message EE C m d fs src = bytes bs" "length bs < 2 ^ 32"
  shows "reads_all (pb_decode E d fs dest) bs st (\<lambda>st'. spec_message EE C (mem st') d fs dest = bytes bs \<and> keeps (B \<union> fc_region E d) st st')"
proof -
  obtain st1 where d: "pb_message_set_to_defaults E d fs dest st = Some st1"
    using st_ok_returns [OF layout_defaults [OF lay], of st] by auto
  have "reads_all (pb_decode_noinit E d fs dest) bs st1 (\<lambda>st'. spec_message EE C (mem st') d fs dest = bytes bs)"
    using decodes_back_all [OF E, of C d] lay dis defaults_fresh [OF E lay dis(1) d] src enc unfolding decodes_back_def by blast
  moreover have "pb_decode E d fs dest s st = (case pb_decode_noinit E d fs dest s st1 of None \<Rightarrow> None
               | Some (True, s', st') \<Rightarrow> Some (True, s', st')
               | Some (False, s', st') \<Rightarrow> map_option (\<lambda>st2. (False, s', st2)) (pb_release E d fs dest st'))" for s
    using d by (simp add: pb_decode_def decode_init_def d_then_def d_do_def)
  ultimately have r: "reads_all (pb_decode E d fs dest) bs st (\<lambda>st'. spec_message EE C (mem st') d fs dest = bytes bs)"
    unfolding reads_all_def by fastforce
  have "dec_ok True (B \<union> fc_region E d) (pb_decode E d fs dest)"
    by (rule decode_ok [OF static_message_ok [OF layout_within [OF lay]]]) simp_all
  from reads_all_keeps [OF this r] show ?thesis .
qed

text \<open>C4. The decoder inverts the encoder. For a message type of required, optional and repeated static fields with any nesting
  and both array forms, a message in memory that has an encoding of less than 4 GiB is encoded into a buffer; \<^verbatim>\<open>pb_decode\<close> of
  what was written, into a struct elsewhere and whatever that holds, succeeds and consumes everything, changes nothing outside of
  that struct and its own local variables, and encoding the decoded message gives the very same stream. The fields' places have
  to lie apart, and strings need room for their terminator.\<close>

theorem pb_decode_inverts_encode:
  assumes "rt_layout E d B fs dest" and "B \<inter> fc_region E d = {}" and "0 \<notin> B" and "d_fields_at E = fields_at EE"
    and "callbacks_ok EE C" and "src \<noteq> 0" and "src_ok EE m d fs src"
    and "spec_message EE C m d fs src = bytes bs" and "length bs < 2 ^ 32" and "length bs \<le> unat n" and "length buf = unat n" and "unat n < 2 ^ 63"
  shows "\<exists>out rest st'. pb_encode EE m d fs src (pb_ostream_from_buffer buf n) = Some (True, out) \<and>
    pb_decode E d fs dest (pb_istream_from_buffer (o_buf out) (bytes_written out)) st = Some (True, rest, st') \<and> bytes_left rest = 0 \<and>
    (\<forall>a. a \<notin> B \<union> fc_region E d \<longrightarrow> mem st' a = mem st a) \<and>
    pb_encode EE (mem st') d fs dest (pb_ostream_from_buffer buf n) = Some (True, out)"
proof -
  let ?o = "pb_ostream_from_buffer buf n" and ?out = "o_put (pb_ostream_from_buffer buf n) bs"
  have ready: "ostream_ready ?o" "length bs \<le> o_room ?o" using assms(10-12) by (simp_all add: buffer_ready)
  have enc: "pb_encode EE m' d fs p ?o = Some (True, ?out)" if sp: "spec_message EE C m' d fs p = bytes bs" for m' p
  proof -
    have "length bs < 2 ^ 63" using assms(9) by simp
    then have "stream_writer (pb_encode EE m' d fs p) bs"
      using pb_encode_implements [OF assms(5), of m' d fs p] sp by (auto intro: implements_writerD)
    then show ?thesis using ready by (rule stream_writer.fits)
  qed
  let ?in = "pb_istream_from_buffer (o_buf ?out) (bytes_written ?out)"
  have out: "o_buf ?out = bs @ drop (length bs) buf" "bytes_written ?out = word_of_nat (length bs)"
    by (simp_all add: o_put_def put_at_def pb_ostream_from_buffer_def)
  have u: "unat (word_of_nat (length bs) :: size_t) = length bs" using assms(9) by (simp add: unat_of_nat_small)
  have s: "istream_ok ?in" "i_avail ?in = bs"
    using u by (simp_all add: out istream_ok_def i_avail_def pb_istream_from_buffer_def)
  obtain st' where d: "pb_decode E d fs dest ?in st = Some (True, i_adv ?in (length bs), st')"
    and sp: "spec_message EE C (mem st') d fs dest = bytes bs" and k: "keeps (B \<union> fc_region E d) st st'"
    using pb_decode_back [OF assms(1-4,6-9), of st] s unfolding reads_all_def by blast
  have "bytes_left (i_adv ?in (length bs)) = 0" by (simp add: i_adv_def out pb_istream_from_buffer_def)
  then show ?thesis using enc [OF assms(8)] d enc [OF sp] k unfolding keeps_def by blast
qed

text \<open>A message type with a required number, an optional string, a packed array of two numbers, an array of up to two nested
  messages and a nested message of a proto3 number; one message of it at address 16, decoded to address 4096.\<close>

definition rt_leaf :: "pb_field_t list" where
  "rt_leaf = [\<lparr>tag = 1, type = PB_HTYPE_OPTIONAL OR PB_LTYPE_UVARINT, data_offset = 0, size_offset = 0, data_size = 2, array_size = 0, fptr = 0\<rparr>,
     ex_field 0 0 0 0 0]"

definition rt_root :: "pb_field_t list" where
  "rt_root = [\<lparr>tag = 1, type = PB_LTYPE_SVARINT, data_offset = 0, size_offset = 0, data_size = 4, array_size = 0, fptr = 0\<rparr>,
     \<lparr>tag = 2, type = PB_HTYPE_OPTIONAL OR PB_LTYPE_STRING, data_offset = 1, size_offset = - 1, data_size = 4, array_size = 0, fptr = 0\<rparr>,
     \<lparr>tag = 3, type = PB_HTYPE_REPEATED OR PB_LTYPE_VARINT, data_offset = 4, size_offset = - 4, data_size = 1, array_size = 2, fptr = 0\<rparr>,
     \<lparr>tag = 4, type = PB_HTYPE_REPEATED OR PB_LTYPE_SUBMESSAGE, data_offset = 4, size_offset = - 4, data_size = 2, array_size = 2, fptr = 200\<rparr>,
     \<lparr>tag = 5, type = PB_HTYPE_OPTIONAL OR PB_LTYPE_SUBMESSAGE, data_offset = 1, size_offset = - 1, data_size = 2, array_size = 0, fptr = 200\<rparr>,
     ex_field 0 0 0 0 0]"

definition rt_mem :: memory where
  "rt_mem p = (if p - 16 < 26 then
     [0xFE, 0xFF, 0xFF, 0xFF, 1, 0x68, 0x69, 0, 0, 2, 0, 0, 0, 1, 7, 2, 0, 0, 0, 5, 0, 0, 0, 1, 0x2C, 1] ! unat (p - 16) else 0)"

definition rt_types :: "ptr \<Rightarrow> pb_field_t list" where
  "rt_types p = (if p = 200 then rt_leaf else rt_root)"

definition rt_env :: pb_env where
  "rt_env = ex_env\<lparr>fields_at := rt_types\<rparr>"

definition rt_denv :: pb_dec_env where
  "rt_denv = ex_denv\<lparr>d_fields_at := rt_types\<rparr>"

definition rt_bytes :: "byte list" where
  "rt_bytes = [0x08, 3, 0x12, 2, 0x68, 0x69, 0x1A, 2, 1, 7, 0x22, 2, 0x08, 5, 0x22, 0, 0x2A, 3, 0x08, 0xAC, 2]"

lemma rt_example:
  "rt_layout rt_denv 3 (span 4096 26) rt_root 4096" "span 4096 26 \<inter> fc_region rt_denv 3 = {}" "0 \<notin> span 4096 26"
  "src_ok rt_env rt_mem 3 rt_root 16" "spec_message rt_env ex_out rt_mem 3 rt_root 16 = bytes rt_bytes"
proof -
  show "rt_layout rt_denv 3 (span 4096 26) rt_root 4096" by code_simp
  show "span 4096 26 \<inter> fc_region rt_denv 3 = {}" by code_simp
  show "0 \<notin> span 4096 26" by code_simp
  show "src_ok rt_env rt_mem 3 rt_root 16" by code_simp
  show "spec_message rt_env ex_out rt_mem 3 rt_root 16 = bytes rt_bytes" by code_simp
qed

theorem pb_decode_inverts_encode_witness:
  "\<exists>out rest st'. pb_encode rt_env rt_mem 3 rt_root 16 (pb_ostream_from_buffer (replicate 32 0) 32) = Some (True, out) \<and>
    pb_decode rt_denv 3 rt_root 4096 (pb_istream_from_buffer (o_buf out) (bytes_written out)) ex_store = Some (True, rest, st') \<and>
    bytes_left rest = 0 \<and> (\<forall>a. a \<notin> span 4096 26 \<union> fc_region rt_denv 3 \<longrightarrow> mem st' a = mem ex_store a) \<and>
    pb_encode rt_env (mem st') 3 rt_root 4096 (pb_ostream_from_buffer (replicate 32 0) 32) = Some (True, out)"
proof -
  have "callbacks_ok rt_env ex_out" using ex_callbacks by (simp add: callbacks_ok_def rt_env_def)
  moreover have "d_fields_at rt_denv = fields_at rt_env" by (simp add: rt_denv_def rt_env_def)
  moreover have "length rt_bytes < 2 ^ 32" "length rt_bytes \<le> unat (32 :: size_t)" by (simp_all add: rt_bytes_def)
  ultimately show ?thesis by (intro pb_decode_inverts_encode [OF rt_example(1-3) _ _ _ rt_example(4,5)]) simp_all
qed

end
