(* ===== verification/ConstantTime.thy ===== *)
theory ConstantTime
  imports Prelude
begin

text \<open>
  The constant-time comparisons and selections of BoringSSL (crypto/internal.h), with
  \<^verbatim>\<open>crypto_word_t\<close> the 64-bit word. \<^verbatim>\<open>value_barrier_w\<close> only stops compiler optimisations: it is the
  identity. Each mask function is shown to compute, branch-free, the mask of the comparison it is
  named after.
\<close>

type_synonym crypto_word_t = "64 word"

definition value_barrier_w :: "crypto_word_t \<Rightarrow> crypto_word_t" where
  "value_barrier_w a = a"

definition constant_time_msb_w :: "crypto_word_t \<Rightarrow> crypto_word_t" where
  "constant_time_msb_w a = 0 - drop_bit (8 * 8 - 1) a"

definition constant_time_lt_w :: "crypto_word_t \<Rightarrow> crypto_word_t \<Rightarrow> crypto_word_t" where
  "constant_time_lt_w a b = constant_time_msb_w (a XOR ((a XOR b) OR ((a - b) XOR a)))"

definition constant_time_lt_8 :: "crypto_word_t \<Rightarrow> crypto_word_t \<Rightarrow> byte" where
  "constant_time_lt_8 a b = ucast (constant_time_lt_w a b)"

definition constant_time_ge_w :: "crypto_word_t \<Rightarrow> crypto_word_t \<Rightarrow> crypto_word_t" where
  "constant_time_ge_w a b = NOT (constant_time_lt_w a b)"

definition constant_time_ge_8 :: "crypto_word_t \<Rightarrow> crypto_word_t \<Rightarrow> byte" where
  "constant_time_ge_8 a b = ucast (constant_time_ge_w a b)"

definition constant_time_is_zero_w :: "crypto_word_t \<Rightarrow> crypto_word_t" where
  "constant_time_is_zero_w a = constant_time_msb_w (NOT a AND (a - 1))"

definition constant_time_is_zero_8 :: "crypto_word_t \<Rightarrow> byte" where
  "constant_time_is_zero_8 a = ucast (constant_time_is_zero_w a)"

definition constant_time_eq_w :: "crypto_word_t \<Rightarrow> crypto_word_t \<Rightarrow> crypto_word_t" where
  "constant_time_eq_w a b = constant_time_is_zero_w (a XOR b)"

definition constant_time_eq_8 :: "crypto_word_t \<Rightarrow> crypto_word_t \<Rightarrow> byte" where
  "constant_time_eq_8 a b = ucast (constant_time_eq_w a b)"

definition constant_time_select_w :: "crypto_word_t \<Rightarrow> crypto_word_t \<Rightarrow> crypto_word_t \<Rightarrow> crypto_word_t" where
  "constant_time_select_w msk a b = (value_barrier_w msk AND a) OR (value_barrier_w (NOT msk) AND b)"

definition constant_time_select_8 :: "byte \<Rightarrow> byte \<Rightarrow> byte \<Rightarrow> byte" where
  "constant_time_select_8 msk a b = ucast (constant_time_select_w (ucast msk) (ucast a) (ucast b))"

section \<open>Masks\<close>

text \<open>\<open>mask_of b\<close> is all ones or all zeros.\<close>

definition mask_of :: "bool \<Rightarrow> 'a::len word" where
  "mask_of b = (if b then - 1 else 0)"

lemma ucast_mask_of: "LENGTH('b) \<le> LENGTH('a) \<Longrightarrow> (ucast (mask_of b :: 'a::len word) :: 'b::len word) = mask_of b"
  by (rule bit_eqI) (auto simp: mask_of_def bit_simps)

lemma bit_63: "bit (a :: 64 word) 63 \<longleftrightarrow> 2 ^ 63 \<le> unat a"
proof -
  have "bit a 63 \<longleftrightarrow> odd (unat a div 2 ^ 63)"
    by (metis bit_iff_odd bit_unsigned_iff possible_bit_nat)
  moreover have "unat a div 2 ^ 63 < 2"
    using unat_lt [of a] by (intro less_mult_imp_div_less) simp
  ultimately show ?thesis
    by (cases "2 ^ 63 \<le> unat a") (auto simp: less_2_cases_iff div_eq_0_iff)
qed

lemma constant_time_msb_w_mask: "constant_time_msb_w a = mask_of (bit a 63)"
proof -
  have "unat a div 2 ^ 63 = (if 2 ^ 63 \<le> unat a then 1 else 0)"
    using unat_lt [of a] by (cases "2 ^ 63 \<le> unat a") (auto simp: div_if)
  then have "drop_bit 63 a = (if bit a 63 then 1 else 0)"
    unfolding bit_63 by (simp add: word_unat_eq_iff unat_drop_bit)
  then show ?thesis by (simp add: constant_time_msb_w_def mask_of_def)
qed

lemma constant_time_lt_w_mask: "constant_time_lt_w a b = mask_of (a < b)"
proof -
  have sub: "bit (a - b) 63 \<longleftrightarrow> a < b" if same: "bit a 63 = bit b 63"
  proof (cases "a < b")
    case True
    then have lt: "unat a < unat b" by (simp add: word_less_nat_alt)
    have "unat b - unat a \<le> 2 ^ 63"
      using same unat_lt [of a] unat_lt [of b] unfolding bit_63 by (cases "2 ^ 63 \<le> unat a") auto
    moreover have "unat (a - b) = 2 ^ 64 + unat a - unat b"
      using lt by (simp add: unat_sub_if')
    ultimately show ?thesis using True lt unfolding bit_63 by simp
  next
    case False
    then have le: "b \<le> a" by simp
    then have "unat (a - b) = unat a - unat b" by (rule unat_sub_le)
    moreover have "unat a - unat b < 2 ^ 63"
      using same unat_lt [of a] unfolding bit_63 by (cases "2 ^ 63 \<le> unat b") auto
    ultimately show ?thesis using False unfolding bit_63 by simp
  qed
  have diff: "a < b \<longleftrightarrow> bit b 63" if "bit a 63 \<noteq> bit b 63"
    using that unfolding bit_63 by (auto simp: word_less_nat_alt)
  have "bit (a XOR ((a XOR b) OR ((a - b) XOR a))) 63 \<longleftrightarrow> a < b"
    using sub diff by (auto simp: bit_xor_iff bit_or_iff)
  then show ?thesis by (simp add: constant_time_lt_w_def constant_time_msb_w_mask)
qed

lemma constant_time_is_zero_w_mask: "constant_time_is_zero_w a = mask_of (a = 0)"
proof -
  have "bit (NOT a AND (a - 1)) 63 \<longleftrightarrow> a = 0"
  proof (cases "a = 0")
    case True
    then show ?thesis by (simp add: bit_simps)
  next
    case False
    then have "unat (a - 1) = unat a - 1"
      by (metis unat_minus_one)
    then have "bit (a - 1) 63 \<longrightarrow> bit a 63" unfolding bit_63 by linarith
    then show ?thesis using False by (auto simp: bit_and_iff bit_not_iff)
  qed
  then show ?thesis by (simp add: constant_time_is_zero_w_def constant_time_msb_w_mask)
qed

lemma constant_time_eq_w_mask: "constant_time_eq_w a b = mask_of (a = b)"
proof -
  have "a XOR b = 0 \<longleftrightarrow> a = b" by (simp add: bit_eq_iff bit_xor_iff)
  then show ?thesis by (simp add: constant_time_eq_w_def constant_time_is_zero_w_mask)
qed

lemma constant_time_8_mask:
  "constant_time_lt_8 a b = mask_of (a < b)" "constant_time_ge_8 a b = mask_of (b \<le> a)"
  "constant_time_is_zero_8 a = mask_of (a = 0)" "constant_time_eq_8 a b = mask_of (a = b)"
proof -
  have "NOT (mask_of c) = (mask_of (\<not> c) :: crypto_word_t)" for c by (simp add: mask_of_def)
  then show "constant_time_lt_8 a b = mask_of (a < b)" "constant_time_ge_8 a b = mask_of (b \<le> a)"
    "constant_time_is_zero_8 a = mask_of (a = 0)" "constant_time_eq_8 a b = mask_of (a = b)"
    by (simp_all add: constant_time_lt_8_def constant_time_ge_8_def constant_time_ge_w_def
        constant_time_is_zero_8_def constant_time_eq_8_def constant_time_lt_w_mask
        constant_time_is_zero_w_mask constant_time_eq_w_mask ucast_mask_of not_less)
qed

lemma constant_time_select_w_mask: "constant_time_select_w (mask_of c) a b = (if c then a else b)"
  by (simp add: constant_time_select_w_def value_barrier_w_def mask_of_def)

lemma constant_time_select_8_mask [simp]: "constant_time_select_8 (mask_of c) a b = (if c then a else b)"
proof -
  have "(ucast (ucast x AND ucast a OR ucast y AND ucast b :: 64 word) :: byte) = (x AND a) OR (y AND b)" for x y :: byte
    by (rule bit_eqI) (auto simp: bit_simps)
  moreover have "constant_time_select_8 m a b = (m AND a) OR (NOT m AND b)" for m
    by (rule bit_eqI) (auto simp: constant_time_select_8_def constant_time_select_w_def value_barrier_w_def bit_simps)
  ultimately show ?thesis by (simp add: mask_of_def)
qed

text \<open>C33. The branch-free comparisons and the selection are right for all 64-bit words: each comparison is the
  all-ones or all-zeros mask of the relation it is named after, and such a mask selects its first or its
  second alternative.\<close>

theorem constant_time_correct:
  "constant_time_lt_w a b = mask_of (a < b) \<and> constant_time_ge_w a b = mask_of (b \<le> a) \<and>
   constant_time_is_zero_w a = mask_of (a = 0) \<and> constant_time_eq_w a b = mask_of (a = b) \<and>
   constant_time_select_w (mask_of c) a b = (if c then a else b)"
proof -
  have "NOT (mask_of p) = (mask_of (\<not> p) :: crypto_word_t)" for p by (simp add: mask_of_def)
  then show ?thesis
    by (simp add: constant_time_ge_w_def constant_time_lt_w_mask constant_time_is_zero_w_mask
        constant_time_eq_w_mask constant_time_select_w_mask not_less)
qed

end
