(* ===== verification/Base64.thy ===== *)
theory Base64
  imports ConstantTime
begin

text \<open>
  BoringSSL's base64 (crypto/base64/base64.c): the constant-time character conversions, the one-shot
  functions, and the streaming encoder and decoder with their context.

  An input pointer with its length is the list of the bytes. What a function stores through an output
  pointer is returned as the list of the stored bytes, from the pointer on; the terminating NUL that the
  encoders store behind their output is part of that list in \<open>EVP_EncodeBlock\<close> and left implicit in
  the stream functions, where the next call overwrites it.
\<close>

section \<open>Characters\<close>

definition constant_time_lt_args_8 :: "byte \<Rightarrow> byte \<Rightarrow> byte" where
  "constant_time_lt_args_8 a b = ucast (constant_time_msb_w (ucast a - ucast b))"

definition constant_time_in_range_8 :: "byte \<Rightarrow> byte \<Rightarrow> byte \<Rightarrow> byte" where
  "constant_time_in_range_8 a min_c max_c = constant_time_lt_args_8 (a - min_c) (max_c - min_c + 1)"

abbreviation (input) chr_A :: byte where "chr_A \<equiv> 0x41"
abbreviation (input) chr_Z :: byte where "chr_Z \<equiv> 0x5A"
abbreviation (input) chr_a :: byte where "chr_a \<equiv> 0x61"
abbreviation (input) chr_z :: byte where "chr_z \<equiv> 0x7A"
abbreviation (input) chr_0 :: byte where "chr_0 \<equiv> 0x30"
abbreviation (input) chr_9 :: byte where "chr_9 \<equiv> 0x39"
abbreviation (input) chr_plus :: byte where "chr_plus \<equiv> 0x2B"
abbreviation (input) chr_slash :: byte where "chr_slash \<equiv> 0x2F"
abbreviation (input) chr_eq :: byte where "chr_eq \<equiv> 0x3D"
abbreviation (input) chr_nl :: byte where "chr_nl \<equiv> 0x0A"
abbreviation (input) chr_cr :: byte where "chr_cr \<equiv> 0x0D"
abbreviation (input) chr_tab :: byte where "chr_tab \<equiv> 0x09"
abbreviation (input) chr_sp :: byte where "chr_sp \<equiv> 0x20"

definition conv_bin2ascii :: "byte \<Rightarrow> byte" where
  "conv_bin2ascii a0 =
     (let a = a0 AND 0x3f;
          ret = constant_time_select_8 (constant_time_eq_8 (ucast a) 62) chr_plus chr_slash;
          ret = constant_time_select_8 (constant_time_lt_args_8 a 62) (a - 52 + chr_0) ret;
          ret = constant_time_select_8 (constant_time_lt_args_8 a 52) (a - 26 + chr_a) ret
      in constant_time_select_8 (constant_time_lt_args_8 a 26) (a + chr_A) ret)"

definition base64_ascii_to_bin :: "byte \<Rightarrow> byte" where
  "base64_ascii_to_bin a =
     (let is_upper = constant_time_in_range_8 a chr_A chr_Z;
          is_lower = constant_time_in_range_8 a chr_a chr_z;
          is_digit = constant_time_in_range_8 a chr_0 chr_9;
          is_plus = constant_time_eq_8 (ucast a) (ucast chr_plus);
          is_slash = constant_time_eq_8 (ucast a) (ucast chr_slash);
          is_equals = constant_time_eq_8 (ucast a) (ucast chr_eq);
          ret = 0 OR (is_upper AND (a - chr_A));
          ret = ret OR (is_lower AND (a - chr_a + 26));
          ret = ret OR (is_digit AND (a - chr_0 + 52));
          ret = ret OR (is_plus AND 62);
          ret = ret OR (is_slash AND 63);
          is_valid = is_upper OR is_lower OR is_digit OR is_plus OR is_slash OR is_equals
      in ret OR NOT is_valid)"

section \<open>One-shot encoding\<close>

definition EVP_EncodedLength :: "size_t \<Rightarrow> size_t option" where
  "EVP_EncodedLength len0 =
     (if len0 + 2 < len0 then None
      else (let len = (len0 + 2) div 3 in
            if drop_bit 2 (push_bit 2 len) \<noteq> len then None
            else (let len = push_bit 2 len in
                  if len + 1 < len then None else Some (len + 1))))"

text \<open>The loop of \<^verbatim>\<open>EVP_EncodeBlock\<close>.\<close>

fun encode_quads :: "byte list \<Rightarrow> byte list" where
  "encode_quads [] = []"
| "encode_quads [a] =
     (let l = push_bit 16 (ucast a) :: uint32 in
      [conv_bin2ascii (ucast (drop_bit 18 l)), conv_bin2ascii (ucast (drop_bit 12 l)), chr_eq, chr_eq])"
| "encode_quads [a, b] =
     (let l = push_bit 16 (ucast a) OR push_bit 8 (ucast b) :: uint32 in
      [conv_bin2ascii (ucast (drop_bit 18 l)), conv_bin2ascii (ucast (drop_bit 12 l)),
       conv_bin2ascii (ucast (drop_bit 6 l)), chr_eq])"
| "encode_quads (a # b # c # rest) =
     (let l = push_bit 16 (ucast a) OR push_bit 8 (ucast b) OR ucast c :: uint32 in
      conv_bin2ascii (ucast (drop_bit 18 l)) # conv_bin2ascii (ucast (drop_bit 12 l)) #
      conv_bin2ascii (ucast (drop_bit 6 l)) # conv_bin2ascii (ucast l) # encode_quads rest)"

text \<open>\<^verbatim>\<open>EVP_EncodeBlock\<close> returns the stored bytes and \<^verbatim>\<open>ret\<close>.\<close>

definition EVP_EncodeBlock :: "byte list \<Rightarrow> byte list \<times> nat" where
  "EVP_EncodeBlock src = (encode_quads src @ [0], length (encode_quads src))"

section \<open>Streaming encoding\<close>

record EVP_ENCODE_CTX =
  data_used :: nat
  data :: "byte list"
  eof_seen :: bool
  error_encountered :: bool

abbreviation (input) INT_MAX :: size_t where "INT_MAX \<equiv> 0x7FFFFFFF"

definition EVP_EncodeInit :: "EVP_ENCODE_CTX" where
  "EVP_EncodeInit = \<lparr>data_used = 0, data = replicate 48 0, eof_seen = False, error_encountered = False\<rparr>"

text \<open>The \<^verbatim>\<open>while (in_len >= sizeof(ctx->data))\<close> loop: (\<^verbatim>\<open>total\<close> or \<open>None\<close> on the early return, the
  rest of the input, the output).\<close>

function encode_lines :: "byte list \<Rightarrow> size_t \<Rightarrow> byte list \<Rightarrow> size_t option \<times> byte list \<times> byte list" where
  "encode_lines inp tot out =
     (if length inp \<ge> 48 then
        (let blk = encode_quads (take 48 inp); encoded = word_of_nat (length blk); out' = out @ blk @ [chr_nl]
         in if tot + encoded + 1 < tot then (None, drop 48 inp, out')
            else encode_lines (drop 48 inp) (tot + (encoded + 1)) out')
      else (Some tot, inp, out))"
  by pat_completeness auto
termination by (relation "measure (\<lambda>(inp, tot, out). length inp)") auto

declare encode_lines.simps [simp del]

text \<open>\<^verbatim>\<open>EVP_EncodeUpdate\<close> returns the context, the output and \<^verbatim>\<open>*out_len\<close>.\<close>

definition EVP_EncodeUpdate :: "EVP_ENCODE_CTX \<Rightarrow> byte list \<Rightarrow> EVP_ENCODE_CTX \<times> byte list \<times> size_t" where
  "EVP_EncodeUpdate ctx inp =
     (if inp = [] then (ctx, [], 0)
      else if 48 - data_used ctx > length inp
      then (ctx\<lparr>data := put_at (data ctx) (data_used ctx) inp, data_used := data_used ctx + length inp\<rparr>, [], 0)
      else
        (let (ctx, inp, out, tot) =
               (if data_used ctx \<noteq> 0 then
                  (let todo = 48 - data_used ctx;
                       d = put_at (data ctx) (data_used ctx) (take todo inp);
                       blk = encode_quads d
                   in (ctx\<lparr>data := d, data_used := 0\<rparr>, drop todo inp, blk @ [chr_nl],
                       word_of_nat (length blk) + 1))
                else (ctx, inp, [], 0))
         in case encode_lines inp tot out of
              (None, rest, out) \<Rightarrow> (ctx, out, 0)
            | (Some tot, rest, out) \<Rightarrow>
                (ctx\<lparr>data := put_at (data ctx) 0 rest, data_used := length rest\<rparr>, out,
                 if tot > INT_MAX then 0 else tot)))"

definition EVP_EncodeFinal :: "EVP_ENCODE_CTX \<Rightarrow> EVP_ENCODE_CTX \<times> byte list \<times> nat" where
  "EVP_EncodeFinal ctx =
     (if data_used ctx = 0 then (ctx, [], 0)
      else (let blk = encode_quads (take (data_used ctx) (data ctx))
            in (ctx\<lparr>data_used := 0\<rparr>, blk @ [chr_nl], length blk + 1)))"

section \<open>Decoding\<close>

definition EVP_DecodedLength :: "size_t \<Rightarrow> size_t option" where
  "EVP_DecodedLength len = (if len mod 4 \<noteq> 0 then None else Some (len div 4 * 3))"

definition EVP_DecodeInit :: "EVP_ENCODE_CTX" where
  "EVP_DecodeInit = \<lparr>data_used = 0, data = replicate 48 0, eof_seen = False, error_encountered = False\<rparr>"

text \<open>The bytes of a quad, or \<open>None\<close> on error.\<close>

definition base64_decode_quad :: "byte \<Rightarrow> byte \<Rightarrow> byte \<Rightarrow> byte \<Rightarrow> byte list option" where
  "base64_decode_quad i0 i1 i2 i3 =
     (let a = base64_ascii_to_bin i0; b = base64_ascii_to_bin i1;
          c = base64_ascii_to_bin i2; d = base64_ascii_to_bin i3
      in if a = 0xff \<or> b = 0xff \<or> c = 0xff \<or> d = 0xff then None
         else
           (let v = push_bit 18 (ucast a) OR push_bit 12 (ucast b) OR push_bit 6 (ucast c) OR ucast d :: uint32;
                padding_pattern = (if i0 = chr_eq then 8 else 0) OR (if i1 = chr_eq then 4 else 0) OR
                                  (if i2 = chr_eq then 2 else 0) OR (if i3 = chr_eq then 1 else 0 :: uint32)
            in if padding_pattern = 0 then Some [ucast (drop_bit 16 v), ucast (drop_bit 8 v), ucast v]
               else if padding_pattern = 1 then Some [ucast (drop_bit 16 v), ucast (drop_bit 8 v)]
               else if padding_pattern = 3 then Some [ucast (drop_bit 16 v)]
               else None))"

definition is_space :: "byte \<Rightarrow> bool" where
  "is_space c \<longleftrightarrow> c = chr_sp \<or> c = chr_tab \<or> c = chr_cr \<or> c = chr_nl"

text \<open>The loop of \<^verbatim>\<open>EVP_DecodeUpdate\<close>: \<open>False\<close> is the early return with \<open>-1\<close>.\<close>

fun decode_loop :: "EVP_ENCODE_CTX \<Rightarrow> byte list \<Rightarrow> byte list \<Rightarrow> bool \<times> EVP_ENCODE_CTX \<times> byte list" where
  "decode_loop ctx [] out = (True, ctx, out)"
| "decode_loop ctx (c # cs) out =
     (if is_space c then decode_loop ctx cs out
      else if eof_seen ctx then (False, ctx\<lparr>error_encountered := True\<rparr>, out)
      else
        (let ctx = ctx\<lparr>data := (data ctx)[data_used ctx := c], data_used := data_used ctx + 1\<rparr>
         in if data_used ctx = 4 then
              (case base64_decode_quad (data ctx ! 0) (data ctx ! 1) (data ctx ! 2) (data ctx ! 3) of
                 None \<Rightarrow> (False, ctx\<lparr>error_encountered := True\<rparr>, out)
               | Some bs \<Rightarrow>
                   decode_loop (ctx\<lparr>data_used := 0, eof_seen := (eof_seen ctx \<or> length bs < 3)\<rparr>) cs (out @ bs))
            else decode_loop ctx cs out))"

text \<open>\<^verbatim>\<open>EVP_DecodeUpdate\<close> returns its result, the context, the output and \<^verbatim>\<open>*out_len\<close>.\<close>

definition EVP_DecodeUpdate :: "EVP_ENCODE_CTX \<Rightarrow> byte list \<Rightarrow> int \<times> EVP_ENCODE_CTX \<times> byte list \<times> size_t" where
  "EVP_DecodeUpdate ctx inp =
     (if error_encountered ctx then (- 1, ctx, [], 0)
      else (case decode_loop ctx inp [] of
              (False, ctx, out) \<Rightarrow> (- 1, ctx, out, 0)
            | (True, ctx, out) \<Rightarrow>
                if word_of_nat (length out) > INT_MAX
                then (- 1, ctx\<lparr>error_encountered := True\<rparr>, out, 0)
                else (if eof_seen ctx then 0 else 1, ctx, out, word_of_nat (length out))))"

definition EVP_DecodeFinal :: "EVP_ENCODE_CTX \<Rightarrow> int" where
  "EVP_DecodeFinal ctx = (if error_encountered ctx \<or> data_used ctx \<noteq> 0 then - 1 else 1)"

text \<open>The loop of \<^verbatim>\<open>EVP_DecodeBase64\<close>, entered with a multiple of four bytes.\<close>

fun decode_quads :: "byte list \<Rightarrow> byte list option" where
  "decode_quads (a # b # c # d # rest) =
     (case base64_decode_quad a b c d of
        None \<Rightarrow> None
      | Some bs \<Rightarrow> if length bs \<noteq> 3 \<and> rest \<noteq> [] then None else map_option (append bs) (decode_quads rest))"
| "decode_quads _ = Some []"

definition EVP_DecodeBase64 :: "size_t \<Rightarrow> byte list \<Rightarrow> byte list option" where
  "EVP_DecodeBase64 max_out inp =
     (if length inp mod 4 \<noteq> 0 then None
      else (case EVP_DecodedLength (word_of_nat (length inp)) of
              None \<Rightarrow> None
            | Some max_len \<Rightarrow> if max_out < max_len then None else decode_quads inp))"

text \<open>\<^verbatim>\<open>EVP_DecodeBlock\<close>: the stored bytes, padded with NULs to a multiple of three; \<open>None\<close> is the result \<open>-1\<close>.\<close>

definition EVP_DecodeBlock :: "byte list \<Rightarrow> byte list option" where
  "EVP_DecodeBlock src0 =
     (let src = dropWhile (\<lambda>c. c = chr_sp \<or> c = chr_tab) src0;
          src = rev (dropWhile is_space (rev src))
      in case EVP_DecodedLength (word_of_nat (length src)) of
           None \<Rightarrow> None
         | Some dst_len \<Rightarrow>
             if dst_len > INT_MAX then None
             else (case EVP_DecodeBase64 dst_len src of
                     None \<Rightarrow> None
                   | Some bs \<Rightarrow> Some (bs @ replicate ((3 - length bs mod 3) mod 3) 0)))"

section \<open>The character conversions are the RFC 4648 table\<close>

definition b64_table :: "byte list" where
  "b64_table = map of_char ''ABCDEFGHIJKLMNOPQRSTUVWXYZabcdefghijklmnopqrstuvwxyz0123456789+/''"

lemma lt_args_8_mask: "constant_time_lt_args_8 a b = mask_of (a < b)"
proof -
  have u: "unat (ucast a :: 64 word) = unat a" "unat (ucast b :: 64 word) = unat b"
    by (simp_all add: unat_ucast_up)
  have "bit (ucast a - ucast b :: 64 word) 63 \<longleftrightarrow> a < b"
  proof (cases "a < b")
    case True
    then have "unat (ucast a - ucast b :: 64 word) = 2 ^ 64 + unat a - unat b"
      by (simp add: unat_sub_if' u word_less_nat_alt)
    then show ?thesis using True unat_lt [of b] unfolding bit_63 by simp
  next
    case False
    then have "unat (ucast a - ucast b :: 64 word) = unat a - unat b"
      by (simp add: unat_sub_if' u word_less_nat_alt)
    then show ?thesis using False unat_lt [of a] unfolding bit_63 by simp
  qed
  then show ?thesis
    by (simp add: constant_time_lt_args_8_def constant_time_msb_w_mask ucast_mask_of)
qed

lemma conv_bin2ascii_simple:
  "conv_bin2ascii a0 =
     (let a = a0 AND 0x3f in
      if a < 26 then a + chr_A else if a < 52 then a - 26 + chr_a
      else if a < 62 then a - 52 + chr_0 else if a = 62 then chr_plus else chr_slash)"
proof -
  have "(ucast a :: 64 word) = 62 \<longleftrightarrow> a = 62" for a :: byte
    by (simp add: word_unat_eq_iff unat_ucast_up)
  then show ?thesis
    by (simp add: conv_bin2ascii_def lt_args_8_mask constant_time_8_mask Let_def)
qed

lemma conv_bin2ascii_table: "conv_bin2ascii a = b64_table ! unat (a AND 0x3f)"
proof -
  have "\<forall>a. conv_bin2ascii a = b64_table ! unat (a AND 0x3f)"
    unfolding all_byte_iff conv_bin2ascii_simple by code_simp
  then show ?thesis ..
qed

lemma base64_ascii_to_bin_simple:
  "base64_ascii_to_bin a =
     (if a - chr_A < 26 then a - chr_A else if a - chr_a < 26 then a - chr_a + 26
      else if a - chr_0 < 10 then a - chr_0 + 52 else if a = chr_plus then 62 else if a = chr_slash then 63
      else if a = chr_eq then 0 else 0xff)"
proof -
  have "\<forall>a. base64_ascii_to_bin a =
     (if a - chr_A < 26 then a - chr_A else if a - chr_a < 26 then a - chr_a + 26
      else if a - chr_0 < 10 then a - chr_0 + 52 else if a = chr_plus then 62 else if a = chr_slash then 63
      else if a = chr_eq then 0 else 0xff)"
    unfolding all_byte_iff base64_ascii_to_bin_def constant_time_in_range_8_def lt_args_8_mask
      constant_time_8_mask by code_simp
  then show ?thesis ..
qed

lemma ascii_bin_roundtrip:
  "base64_ascii_to_bin (conv_bin2ascii a) = a AND 0x3f" "conv_bin2ascii a \<noteq> chr_eq" "\<not> is_space (conv_bin2ascii a)"
proof -
  have "\<forall>a. base64_ascii_to_bin (conv_bin2ascii a) = a AND 0x3f \<and> conv_bin2ascii a \<noteq> chr_eq \<and> \<not> is_space (conv_bin2ascii a)"
    unfolding all_byte_iff conv_bin2ascii_simple base64_ascii_to_bin_simple by code_simp
  then show "base64_ascii_to_bin (conv_bin2ascii a) = a AND 0x3f" "conv_bin2ascii a \<noteq> chr_eq" "\<not> is_space (conv_bin2ascii a)"
    by blast+
qed


section \<open>Quads\<close>

lemma and_3F: "(a :: 'a::len word) AND 0x3f = take_bit 6 a"
  by (simp add: take_bit_eq_mask mask_eq_exp_minus_1)

lemma bin_not_ff: "(a :: byte) AND 0x3f \<noteq> 0xff"
proof -
  have "\<not> bit (a AND 0x3f) 7" by (simp add: and_3F bit_simps)
  moreover have "bit (0xff :: byte) 7" by code_simp
  ultimately show ?thesis by metis
qed

lemma sextets_join:
  fixes l :: uint32
  assumes "take_bit 24 l = l"
  shows "push_bit 18 (take_bit 6 (drop_bit 18 l)) OR push_bit 12 (take_bit 6 (drop_bit 12 l)) OR
    push_bit 6 (take_bit 6 (drop_bit 6 l)) OR take_bit 6 l = l"
proof -
  have "((take_bit 6 l OR push_bit 6 (take_bit 6 (drop_bit 6 l))) OR push_bit 12 (take_bit 6 (drop_bit 12 l))) OR
      push_bit 18 (take_bit 6 (drop_bit 18 l)) = take_bit 24 l"
    using take_bit_join [of 6 l 6] take_bit_join [of 12 l 6] take_bit_join [of 18 l 6]
    by (simp del: push_bit_numeral)
  then show ?thesis using assms by (simp add: ac_simps or.left_commute)
qed

lemma ucast_sextet: "(ucast (take_bit 6 (ucast (l :: uint32) :: byte)) :: uint32) = take_bit 6 l"
  by (rule bit_eqI) (auto simp: bit_simps)

definition octets :: "byte \<Rightarrow> byte \<Rightarrow> byte \<Rightarrow> uint32" where
  "octets a b c = push_bit 16 (ucast a) OR push_bit 8 (ucast b) OR ucast c"

lemma octets_24: "take_bit 24 (octets a b c) = octets a b c"
  unfolding octets_def by (rule bit_eqI) (auto simp: bit_simps dest: bit_imp_le_length)

lemma octets_bytes:
  "ucast (drop_bit 16 (octets a b c)) = a" "ucast (drop_bit 8 (octets a b c)) = b" "ucast (octets a b c) = c"
  unfolding octets_def by (auto simp: bit_eq_iff bit_simps dest: bit_imp_le_length)

lemma octets_zero:
  "push_bit 16 (ucast a) OR push_bit 8 (ucast b) = octets a b 0" "push_bit 16 (ucast a) = octets a 0 0"
  by (simp_all add: octets_def)

lemma octets_low:
  "take_bit 6 (octets a b 0) = 0" "take_bit 6 (drop_bit 6 (octets a 0 0)) = 0" "take_bit 6 (octets a 0 0) = 0"
  unfolding octets_def by (auto simp: bit_eq_iff bit_simps)

lemma eq_sign: "base64_ascii_to_bin chr_eq = 0" "\<not> is_space chr_eq"
  by (simp_all add: base64_ascii_to_bin_simple is_space_def)

lemma sextet_not_ff: "take_bit 6 (a :: byte) \<noteq> 0xff"
  using bin_not_ff [of a] by (simp add: and_3F)

lemma decode_quad_sextets:
  fixes l :: uint32
  assumes "take_bit 24 l = l"
    and "base64_ascii_to_bin i0 = take_bit 6 (ucast (drop_bit 18 l))"
    and "base64_ascii_to_bin i1 = take_bit 6 (ucast (drop_bit 12 l))"
    and "base64_ascii_to_bin i2 = take_bit 6 (ucast (drop_bit 6 l))"
    and "base64_ascii_to_bin i3 = take_bit 6 (ucast l)"
    and "i0 \<noteq> chr_eq" and "i1 \<noteq> chr_eq" and "i2 = chr_eq \<Longrightarrow> i3 = chr_eq"
  shows "base64_decode_quad i0 i1 i2 i3 =
    Some (if i2 = chr_eq then [ucast (drop_bit 16 l)]
          else if i3 = chr_eq then [ucast (drop_bit 16 l), ucast (drop_bit 8 l)]
          else [ucast (drop_bit 16 l), ucast (drop_bit 8 l), ucast l])"
proof -
  have v: "push_bit 18 (ucast (base64_ascii_to_bin i0)) OR push_bit 12 (ucast (base64_ascii_to_bin i1)) OR
      push_bit 6 (ucast (base64_ascii_to_bin i2)) OR ucast (base64_ascii_to_bin i3) = l"
    unfolding assms(2-5) ucast_sextet using assms(1) by (rule sextets_join)
  have "base64_ascii_to_bin i0 \<noteq> 0xff" "base64_ascii_to_bin i1 \<noteq> 0xff"
    "base64_ascii_to_bin i2 \<noteq> 0xff" "base64_ascii_to_bin i3 \<noteq> 0xff"
    unfolding assms(2-5) by (rule sextet_not_ff)+
  then show ?thesis
    using assms(6-8) unfolding base64_decode_quad_def Let_def v by auto
qed

lemmas bin_sextet = ascii_bin_roundtrip(1) [unfolded and_3F]

text \<open>The quads that the encoder writes decode to the octets they were made of.\<close>

lemma decode_quad_3:
  "base64_decode_quad (conv_bin2ascii (ucast (drop_bit 18 (octets a b c)))) (conv_bin2ascii (ucast (drop_bit 12 (octets a b c))))
     (conv_bin2ascii (ucast (drop_bit 6 (octets a b c)))) (conv_bin2ascii (ucast (octets a b c))) = Some [a, b, c]"
  by (subst decode_quad_sextets [OF octets_24 [of a b c]])
     (simp_all add: bin_sextet ascii_bin_roundtrip(2) octets_bytes)

lemma decode_quad_2:
  "base64_decode_quad (conv_bin2ascii (ucast (drop_bit 18 (octets a b 0)))) (conv_bin2ascii (ucast (drop_bit 12 (octets a b 0))))
     (conv_bin2ascii (ucast (drop_bit 6 (octets a b 0)))) chr_eq = Some [a, b]"
  by (subst decode_quad_sextets [OF octets_24 [of a b 0]])
     (simp_all add: bin_sextet ascii_bin_roundtrip(2) octets_bytes eq_sign)

lemma decode_quad_1:
  "base64_decode_quad (conv_bin2ascii (ucast (drop_bit 18 (octets a 0 0)))) (conv_bin2ascii (ucast (drop_bit 12 (octets a 0 0))))
     chr_eq chr_eq = Some [a]"
proof -
  have "take_bit 6 (ucast (drop_bit 6 (octets a 0 0)) :: byte) = 0"
    unfolding octets_def by (auto simp: bit_eq_iff bit_simps)
  then show ?thesis
    by (subst decode_quad_sextets [OF octets_24 [of a 0 0]])
       (simp_all add: bin_sextet ascii_bin_roundtrip(2) octets_bytes eq_sign)
qed

section \<open>One-shot round trip\<close>

lemma encode_quads_octets:
  "encode_quads [a] = [conv_bin2ascii (ucast (drop_bit 18 (octets a 0 0))),
     conv_bin2ascii (ucast (drop_bit 12 (octets a 0 0))), chr_eq, chr_eq]"
  "encode_quads [a, b] = [conv_bin2ascii (ucast (drop_bit 18 (octets a b 0))),
     conv_bin2ascii (ucast (drop_bit 12 (octets a b 0))), conv_bin2ascii (ucast (drop_bit 6 (octets a b 0))), chr_eq]"
  "encode_quads (a # b # c # rest) = conv_bin2ascii (ucast (drop_bit 18 (octets a b c))) #
     conv_bin2ascii (ucast (drop_bit 12 (octets a b c))) # conv_bin2ascii (ucast (drop_bit 6 (octets a b c))) #
     conv_bin2ascii (ucast (octets a b c)) # encode_quads rest"
  by (simp_all add: octets_def Let_def)

declare encode_quads.simps(2,3,4) [simp del]

lemma length_encode_quads: "length (encode_quads xs) = 4 * ((length xs + 2) div 3)"
  by (induction xs rule: encode_quads.induct) (simp_all add: encode_quads_octets, presburger)

lemma mod3_Suc3: "Suc (Suc (Suc n)) mod 3 = n mod 3"
  by presburger

lemma encode_quads_eq_Nil [simp]: "encode_quads xs = [] \<longleftrightarrow> xs = []"
  by (cases xs rule: encode_quads.cases) (simp_all add: encode_quads_octets)

lemma decode_encode_quads: "decode_quads (encode_quads xs) = Some xs"
  by (induction xs rule: encode_quads.induct)
     (simp_all add: encode_quads_octets decode_quad_1 decode_quad_2 decode_quad_3)

lemma encode_quads_append:
  "length xs mod 3 = 0 \<Longrightarrow> encode_quads (xs @ ys) = encode_quads xs @ encode_quads ys"
  by (induction xs rule: encode_quads.induct) (simp_all add: encode_quads_octets mod3_Suc3)

lemma encode_quads_no_space: "c \<in> set (encode_quads xs) \<Longrightarrow> \<not> is_space c"
  by (induction xs rule: encode_quads.induct) (auto simp: encode_quads_octets ascii_bin_roundtrip(3) eq_sign)

lemma EVP_DecodedLength_nat:
  assumes "n mod 4 = 0" and "n < 2 ^ 63"
  shows "EVP_DecodedLength (word_of_nat n) = Some (word_of_nat (n div 4 * 3))"
proof -
  have "unat (word_of_nat n :: size_t) = n" using assms(2) by (simp add: unat_of_nat_small)
  then have "unat (word_of_nat n mod 4 :: size_t) = 0" "word_of_nat n div 4 = (word_of_nat (n div 4) :: size_t)"
    using assms by (simp_all add: unat_mod word_unat_eq_iff unat_div unat_of_nat_small)
  then show ?thesis by (simp add: EVP_DecodedLength_def unat_eq_zero)
qed

lemma EVP_DecodeBase64_encode:
  assumes "length xs < 2 ^ 60" and "(length xs + 2) div 3 * 3 \<le> unat max_out"
  shows "EVP_DecodeBase64 max_out (encode_quads xs) = Some xs"
proof -
  let ?n = "4 * ((length xs + 2) div 3)"
  have "?n < 2 ^ 63" using assms(1) by auto
  then have dl: "EVP_DecodedLength (word_of_nat ?n) = Some (word_of_nat (?n div 4 * 3))"
    by (intro EVP_DecodedLength_nat) simp_all
  have "unat (word_of_nat ((length xs + 2) div 3 * 3) :: size_t) = (length xs + 2) div 3 * 3"
    using assms(1) by (intro unat_of_nat_small) auto
  with assms(2) have "\<not> max_out < word_of_nat (?n div 4 * 3)"
    by (simp add: word_less_nat_alt)
  then show ?thesis
    using dl by (simp add: EVP_DecodeBase64_def length_encode_quads decode_encode_quads)
qed

section \<open>Streaming encoding does not depend on the chunks\<close>

text \<open>The reference: the full lines of 48 bytes of the data, encoded, each with a newline; and what is
  left over.\<close>

function full_lines :: "byte list \<Rightarrow> byte list" where
  "full_lines xs = (if length xs \<ge> 48 then encode_quads (take 48 xs) @ chr_nl # full_lines (drop 48 xs) else [])"
  by pat_completeness auto
termination by (relation "measure length") auto

declare full_lines.simps [simp del]

definition left_over :: "byte list \<Rightarrow> byte list" where
  "left_over xs = drop (48 * (length xs div 48)) xs"

definition pem_body :: "byte list \<Rightarrow> byte list" where
  "pem_body xs = full_lines xs @ (if left_over xs = [] then [] else encode_quads (left_over xs) @ [chr_nl])"

lemma full_lines_short: "length xs < 48 \<Longrightarrow> full_lines xs = []" "length xs < 48 \<Longrightarrow> left_over xs = xs"
  by (simp_all add: full_lines.simps left_over_def)

lemma div48: "(48 + n) div 48 = Suc (n div 48)"
  by presburger

lemma full_lines_line:
  "length l = 48 \<Longrightarrow> full_lines (l @ xs) = encode_quads l @ chr_nl # full_lines xs"
  "length l = 48 \<Longrightarrow> left_over (l @ xs) = left_over xs"
  by (simp_all add: full_lines.simps [of "l @ xs"] left_over_def div48)

lemma length_left_over: "length (left_over xs) = length xs mod 48"
  by (simp add: left_over_def minus_mult_div_eq_mod)

lemma lines_induct [case_names short line]:
  assumes "\<And>xs. length xs < 48 \<Longrightarrow> P xs" and "\<And>l xs. length l = 48 \<Longrightarrow> P xs \<Longrightarrow> P (l @ xs)"
  shows "P xs"
proof (induction "length xs" arbitrary: xs rule: less_induct)
  case less
  show ?case
  proof (cases "length xs < 48")
    case False
    then have "P (take 48 xs @ drop 48 xs)" by (intro assms(2) less) simp_all
    then show ?thesis by simp
  qed (rule assms(1))
qed

lemma full_lines_append:
  "full_lines (xs @ ys) = full_lines xs @ full_lines (left_over xs @ ys)"
  "left_over (xs @ ys) = left_over (left_over xs @ ys)"
  by (induction xs rule: lines_induct) (simp_all add: full_lines_short full_lines_line)

lemma length_full_lines: "length (full_lines xs) = 65 * (length xs div 48)"
  by (induction xs rule: lines_induct) (simp_all add: full_lines_short full_lines_line length_encode_quads div48)

lemma encode_lines_full:
  "unat tot + length (full_lines inp) < 2 ^ 64 \<Longrightarrow>
     encode_lines inp tot out = (Some (tot + word_of_nat (length (full_lines inp))), left_over inp, out @ full_lines inp)"
proof (induction inp arbitrary: tot out rule: lines_induct)
  case (short xs)
  then show ?case by (simp add: encode_lines.simps [of xs] full_lines_short)
next
  case (line l xs)
  have len: "length (encode_quads l) = 64" using line.hyps by (simp add: length_encode_quads)
  have sum: "unat tot + 65 + length (full_lines xs) < 2 ^ 64"
    using line.prems line.hyps len by (simp add: full_lines_line)
  then have "unat (tot + 65) = unat tot + 65" by (simp add: unat_add_no_wrap)
  moreover from this have "\<not> tot + 65 < tot" by (simp add: word_less_nat_alt)
  moreover have "encode_lines xs (tot + 65) (out @ encode_quads l @ [chr_nl]) =
      (Some (tot + 65 + word_of_nat (length (full_lines xs))), left_over xs, (out @ encode_quads l @ [chr_nl]) @ full_lines xs)"
    using sum calculation(1) by (intro line.IH) simp
  ultimately show ?case
    using line.hyps len by (simp add: encode_lines.simps [of "l @ xs"] full_lines_line Let_def add.assoc)
qed

definition enc_ok :: "EVP_ENCODE_CTX \<Rightarrow> bool" where
  "enc_ok ctx \<longleftrightarrow> length (data ctx) = 48 \<and> data_used ctx < 48"

definition pending :: "EVP_ENCODE_CTX \<Rightarrow> byte list" where
  "pending ctx = take (data_used ctx) (data ctx)"

lemma encode_update:
  assumes ok: "enc_ok ctx" and len: "length inp < 2 ^ 62"
  shows "\<exists>ctx'. EVP_EncodeUpdate ctx inp =
      (ctx', full_lines (pending ctx @ inp),
       if length (full_lines (pending ctx @ inp)) > 2147483647 then 0
       else word_of_nat (length (full_lines (pending ctx @ inp)))) \<and>
    enc_ok ctx' \<and> pending ctx' = left_over (pending ctx @ inp)"
proof -
  let ?k = "data_used ctx" and ?p = "pending ctx"
  have k: "?k < 48" "length (data ctx) = 48" "length ?p = ?k" using ok by (auto simp: enc_ok_def pending_def)
  show ?thesis
  proof (cases "48 - ?k > length inp")
    case True
    then have "take (?k + length inp) (put_at (data ctx) ?k inp) = ?p @ inp"
      using k by (simp add: take_put_at pending_def)
    then show ?thesis
      using True k by (auto simp: EVP_EncodeUpdate_def full_lines_short enc_ok_def pending_def)
  next
    case False
    then have ne: "inp \<noteq> []" using k by auto
    have small: "unat t + length (full_lines xs) < 2 ^ 64 \<and> length (full_lines xs) + unat t < 2 ^ 63"
      if "length xs \<le> length inp" "unat t \<le> 65" for t :: size_t and xs
    proof -
      have "65 * (length xs div 48) \<le> 2 * length xs" by linarith
      then show ?thesis using that len by (simp add: length_full_lines)
    qed
    define t where "t = (if ?k = 0 then 0 else 65 :: size_t)"
    define rest where "rest = (if ?k = 0 then inp else drop (48 - ?k) inp)"
    define d where "d = (if ?k = 0 then data ctx else put_at (data ctx) ?k (take (48 - ?k) inp))"
    define o1 where "o1 = (if ?k = 0 then [] else encode_quads d @ [chr_nl])"
    have d: "length d = 48" "?k \<noteq> 0 \<Longrightarrow> d @ rest = ?p @ inp"
      using k False by (auto simp: d_def rest_def put_at_def pending_def)
    have all: "?p @ inp = (if ?k = 0 then rest else d @ rest)"
      using d k by (auto simp: rest_def)
    have lines: "full_lines (?p @ inp) = o1 @ full_lines rest" "left_over (?p @ inp) = left_over rest"
      using d(1) by (simp_all add: all o1_def full_lines_line)
    have o1: "length o1 = unat t" using d(1) by (simp add: o1_def t_def length_encode_quads)
    have "length rest \<le> length inp" "unat t \<le> 65" by (simp_all add: rest_def t_def)
    note sm = small [OF this]
    let ?n = "t + word_of_nat (length (full_lines rest))"
    have run: "encode_lines rest t o1 = (Some ?n, left_over rest, o1 @ full_lines rest)"
      using sm by (intro encode_lines_full) simp
    have n: "unat ?n = length (o1 @ full_lines rest)"
      using sm o1 by (simp add: unat_add_no_wrap unat_of_nat_small)
    then have n': "?n = word_of_nat (length (o1 @ full_lines rest))" unfolding n [symmetric] by simp
    let ?ctx' = "ctx\<lparr>data := put_at d 0 (left_over rest), data_used := length (left_over rest)\<rparr>"
    have "EVP_EncodeUpdate ctx inp = (?ctx', o1 @ full_lines rest, if ?n > INT_MAX then 0 else ?n)"
      using run ne False d(1)
      by (simp add: EVP_EncodeUpdate_def Let_def t_def rest_def d_def o1_def length_encode_quads split: if_splits)
    moreover have "?n > INT_MAX \<longleftrightarrow> length (o1 @ full_lines rest) > 2147483647"
      using n by (simp add: word_less_nat_alt)
    moreover have "enc_ok ?ctx'" "pending ?ctx' = left_over rest"
      using d(1) length_left_over [of rest] mod_less_divisor [of 48 "length rest"]
      by (auto simp: enc_ok_def pending_def put_at_def)
    ultimately show ?thesis
      unfolding lines n' by auto
  qed
qed

text \<open>A run of the encoder over a list of chunks.\<close>

fun encode_all :: "EVP_ENCODE_CTX \<Rightarrow> byte list list \<Rightarrow> EVP_ENCODE_CTX \<times> byte list" where
  "encode_all ctx [] = (ctx, [])"
| "encode_all ctx (x # xs) =
     (case EVP_EncodeUpdate ctx x of (ctx, out, _) \<Rightarrow>
      (case encode_all ctx xs of (ctx, out') \<Rightarrow> (ctx, out @ out')))"

definition encode_stream :: "byte list list \<Rightarrow> byte list" where
  "encode_stream chunks =
     (case encode_all EVP_EncodeInit chunks of (ctx, out) \<Rightarrow>
      (case EVP_EncodeFinal ctx of (_, out', _) \<Rightarrow> out @ out'))"

lemma encode_all_lines:
  "enc_ok ctx \<Longrightarrow> list_all (\<lambda>c. length c < 2 ^ 62) chunks \<Longrightarrow>
     \<exists>ctx'. encode_all ctx chunks = (ctx', full_lines (pending ctx @ concat chunks)) \<and> enc_ok ctx' \<and>
       pending ctx' = left_over (pending ctx @ concat chunks)"
proof (induction chunks arbitrary: ctx)
  case Nil
  then have "length (pending ctx) < 48" by (simp add: enc_ok_def pending_def)
  then show ?case using Nil by (simp add: full_lines_short)
next
  case (Cons c cs)
  obtain ctx1 n where c1: "EVP_EncodeUpdate ctx c = (ctx1, full_lines (pending ctx @ c), n)"
      "enc_ok ctx1" "pending ctx1 = left_over (pending ctx @ c)"
    using encode_update [of ctx c] Cons.prems by auto
  obtain ctx2 where "encode_all ctx1 cs = (ctx2, full_lines (pending ctx1 @ concat cs))" "enc_ok ctx2"
      "pending ctx2 = left_over (pending ctx1 @ concat cs)"
    using Cons.IH [of ctx1] Cons.prems c1(2) by auto
  then show ?case
    using c1 full_lines_append [of "pending ctx @ c" "concat cs"] by simp
qed

lemma encode_stream_pem:
  assumes "list_all (\<lambda>c. length c < 2 ^ 62) chunks"
  shows "encode_stream chunks = pem_body (concat chunks)"
proof -
  have init: "enc_ok EVP_EncodeInit" "pending EVP_EncodeInit = []"
    by (simp_all add: enc_ok_def pending_def EVP_EncodeInit_def)
  obtain ctx where "encode_all EVP_EncodeInit chunks = (ctx, full_lines (concat chunks))" "enc_ok ctx"
      "pending ctx = left_over (concat chunks)"
    using encode_all_lines [OF init(1) assms] init(2) by auto
  then show ?thesis
    by (auto simp: encode_stream_def EVP_EncodeFinal_def pem_body_def pending_def enc_ok_def Let_def)
qed

section \<open>Streaming decoding\<close>

lemma decode_loop_append:
  "decode_loop ctx (xs @ ys) out =
     (case decode_loop ctx xs out of (False, ctx', out') \<Rightarrow> (False, ctx', out')
      | (True, ctx', out') \<Rightarrow> decode_loop ctx' ys out')"
  by (induction ctx xs out rule: decode_loop.induct) (simp_all add: Let_def split: option.split)

lemma decode_loop_spaces: "decode_loop ctx xs out = decode_loop ctx (filter (\<lambda>c. \<not> is_space c) xs) out"
  by (induction ctx xs out rule: decode_loop.induct) (simp_all add: Let_def split: option.split)

definition dec_fresh :: "EVP_ENCODE_CTX \<Rightarrow> bool" where
  "dec_fresh ctx \<longleftrightarrow> length (data ctx) = 48 \<and> data_used ctx = 0 \<and> \<not> eof_seen ctx \<and> \<not> error_encountered ctx"

lemma decode_loop_quad:
  assumes "dec_fresh ctx" and "\<not> is_space a" "\<not> is_space b" "\<not> is_space c" "\<not> is_space d"
    and "base64_decode_quad a b c d = Some bs"
  shows "\<exists>ctx'. decode_loop ctx (a # b # c # d # rest) out = decode_loop ctx' rest (out @ bs) \<and>
    (length bs = 3 \<longrightarrow> dec_fresh ctx') \<and> data_used ctx' = 0 \<and> \<not> error_encountered ctx' \<and>
    (eof_seen ctx' \<longleftrightarrow> length bs < 3)"
  using assms
  by (intro exI [of _ "ctx\<lparr>data := (data ctx)[0 := a, 1 := b, 2 := c, 3 := d], data_used := 0, eof_seen := length bs < 3\<rparr>"])
     (simp add: dec_fresh_def Let_def numeral_2_eq_2 numeral_3_eq_3)

lemma decode_loop_encode:
  "dec_fresh ctx \<Longrightarrow> \<exists>ctx'. decode_loop ctx (encode_quads xs) out = (True, ctx', out @ xs) \<and>
     data_used ctx' = 0 \<and> \<not> error_encountered ctx' \<and> (eof_seen ctx' \<longleftrightarrow> length xs mod 3 \<noteq> 0)"
proof (induction xs arbitrary: ctx out rule: encode_quads.induct)
  case 1
  then show ?case by (simp add: dec_fresh_def)
next
  case (2 a)
  note q = decode_loop_quad [OF 2 _ _ _ _ decode_quad_1 [of a], of "[]" out]
  show ?case
    using q by (fastforce simp: encode_quads_octets ascii_bin_roundtrip(3) eq_sign simp del: decode_loop.simps(2))
next
  case (3 a b)
  note q = decode_loop_quad [OF 3 _ _ _ _ decode_quad_2 [of a b], of "[]" out]
  show ?case
    using q by (fastforce simp: encode_quads_octets ascii_bin_roundtrip(3) eq_sign simp del: decode_loop.simps(2))
next
  case (4 a b c rest)
  obtain ctx1 where "decode_loop ctx (encode_quads (a # b # c # rest)) out = decode_loop ctx1 (encode_quads rest) (out @ [a, b, c])"
      "dec_fresh ctx1"
    using decode_loop_quad [OF 4(2) _ _ _ _ decode_quad_3 [of a b c], of "encode_quads rest" out]
    by (auto simp: encode_quads_octets ascii_bin_roundtrip(3) simp del: decode_loop.simps(2))
  then show ?case using 4(1) [OF refl, of ctx1 "out @ [a, b, c]"] by (simp add: mod3_Suc3)
qed

lemma filter_encode_quads: "filter (\<lambda>c. \<not> is_space c) (encode_quads xs) = encode_quads xs"
  using encode_quads_no_space by (auto simp: filter_id_conv)

lemma filter_pem_body: "filter (\<lambda>c. \<not> is_space c) (pem_body xs) = encode_quads xs"
proof -
  have "filter (\<lambda>c. \<not> is_space c) (full_lines xs) @ encode_quads (left_over xs) = encode_quads xs"
    by (induction xs rule: lines_induct)
       (simp_all add: full_lines_short full_lines_line filter_encode_quads is_space_def [of chr_nl] encode_quads_append)
  then show ?thesis
    by (auto simp: pem_body_def filter_encode_quads is_space_def [of chr_nl])
qed

fun decode_all :: "EVP_ENCODE_CTX \<Rightarrow> byte list list \<Rightarrow> (EVP_ENCODE_CTX \<times> byte list) option" where
  "decode_all ctx [] = Some (ctx, [])"
| "decode_all ctx (x # xs) =
     (case EVP_DecodeUpdate ctx x of (r, ctx, out, _) \<Rightarrow>
        if r = - 1 then None else map_option (apsnd (append out)) (decode_all ctx xs))"

definition decode_stream :: "byte list list \<Rightarrow> byte list option" where
  "decode_stream chunks =
     (case decode_all EVP_DecodeInit chunks of
        None \<Rightarrow> None
      | Some (ctx, out) \<Rightarrow> if EVP_DecodeFinal ctx = 1 then Some out else None)"

lemma decode_loop_out: "decode_loop ctx xs out = apsnd (apsnd (append out)) (decode_loop ctx xs [])"
proof (induction xs arbitrary: ctx out)
  case (Cons c cs)
  have "decode_loop x cs (out @ ys) = apsnd (apsnd (append out)) (decode_loop x cs ys)" for x ys
    by (subst (1 2) Cons) (simp add: apsnd_def map_prod_def split_beta)
  from this [of _ "[]"] this show ?case
    by (simp add: Let_def split: option.split)
qed simp

lemma error_sticky: "decode_loop ctx xs out = (True, ctx', out') \<Longrightarrow> error_encountered ctx' = error_encountered ctx"
  by (induction ctx xs out rule: decode_loop.induct) (auto simp: Let_def split: if_splits option.splits)

lemma decode_all_loop:
  "decode_loop ctx (concat chunks) [] = (True, ctx', out) \<Longrightarrow> length out \<le> 2147483647 \<Longrightarrow>
     \<not> error_encountered ctx \<Longrightarrow> \<not> error_encountered ctx' \<Longrightarrow> decode_all ctx chunks = Some (ctx', out)"
proof (induction chunks arbitrary: ctx out)
  case (Cons c cs)
  obtain ok ctx1 o1 where r1: "decode_loop ctx c [] = (ok, ctx1, o1)" by (cases "decode_loop ctx c []")
  have ok and r2: "decode_loop ctx1 (concat cs) o1 = (True, ctx', out)"
    using Cons.prems(1) r1 by (auto simp: decode_loop_append split: bool.splits)
  obtain o2 where o2: "decode_loop ctx1 (concat cs) [] = (True, ctx', o2)" "out = o1 @ o2"
    using r2 by (subst (asm) decode_loop_out) (cases "decode_loop ctx1 (concat cs) []"; auto)
  have "\<not> error_encountered ctx1"
    using error_sticky [of ctx c "[]" ctx1 o1] r1 \<open>ok\<close> Cons.prems(3) by simp
  moreover have "length o1 \<le> 2147483647" "length o2 \<le> 2147483647" using o2(2) Cons.prems(2) by auto
  moreover have "unat (word_of_nat (length o1) :: size_t) = length o1"
    using calculation(2) by (simp add: unat_of_nat_small)
  ultimately show ?case
    using Cons.IH [OF o2(1)] Cons.prems(3,4) r1 \<open>ok\<close> o2(2)
    by (simp add: EVP_DecodeUpdate_def word_less_nat_alt)
qed simp

section \<open>Properties\<close>

text \<open>C22. One-shot base64 round-trips: decoding what \<^verbatim>\<open>EVP_EncodeBlock\<close> stored (without the terminating
  NUL) gives back the data, for any data and any output buffer of the size \<^verbatim>\<open>EVP_DecodedLength\<close> asks for.\<close>

theorem base64_roundtrip:
  assumes "length xs < 2 ^ 60" and "EVP_DecodedLength (word_of_nat (snd (EVP_EncodeBlock xs))) = Some n"
  shows "EVP_DecodeBase64 n (butlast (fst (EVP_EncodeBlock xs))) = Some xs"
proof -
  let ?k = "(length xs + 2) div 3 * 3"
  have "EVP_DecodedLength (word_of_nat (4 * ((length xs + 2) div 3))) =
      Some (word_of_nat (4 * ((length xs + 2) div 3) div 4 * 3))"
    using assms(1) by (intro EVP_DecodedLength_nat) auto
  then have "n = word_of_nat ?k" using assms(2) by (simp add: EVP_EncodeBlock_def length_encode_quads)
  moreover have "unat (word_of_nat ?k :: size_t) = ?k" using assms(1) by (intro unat_of_nat_small) auto
  ultimately show ?thesis
    using assms(1) by (simp add: EVP_EncodeBlock_def EVP_DecodeBase64_encode)
qed

theorem base64_roundtrip_witness:
  "EVP_DecodeBase64 6 (butlast (fst (EVP_EncodeBlock [0x66, 0x6F, 0x6F, 0xFF]))) = Some [0x66, 0x6F, 0x6F, 0xFF]"
proof (rule base64_roundtrip)
  show "EVP_DecodedLength (word_of_nat (snd (EVP_EncodeBlock [0x66, 0x6F, 0x6F, 0xFF]))) = Some 6"
    by (simp add: EVP_EncodeBlock_def length_encode_quads EVP_DecodedLength_def)
qed simp

text \<open>C23. The streaming encoder's output is a function of the data alone: however the data is cut into
  chunks, init, updates and final together produce the lines of 48 encoded bytes with newlines.\<close>

theorem encode_stream_chunking:
  assumes "list_all (\<lambda>c. length c < 2 ^ 62) chunks"
  shows "encode_stream chunks = pem_body (concat chunks)"
  using assms by (rule encode_stream_pem)

theorem encode_stream_chunking_witness:
  "encode_stream [replicate 50 0, [1, 2], []] = pem_body (concat [replicate 50 0, [1, 2], []])"
  by (rule encode_stream_chunking) simp

text \<open>C24. Streaming round trip: the streaming decoder, fed the streaming encoder's output in any
  chunks of its own, returns the data, and the final call reports success.\<close>

theorem stream_roundtrip:
  assumes "list_all (\<lambda>c. length c < 2 ^ 62) chunks" and "length (concat chunks) \<le> 2147483647"
    and "concat received = encode_stream chunks"
  shows "decode_stream received = Some (concat chunks)"
proof -
  have "dec_fresh EVP_DecodeInit" by (simp add: dec_fresh_def EVP_DecodeInit_def)
  then obtain ctx where "decode_loop EVP_DecodeInit (encode_quads (concat chunks)) [] = (True, ctx, concat chunks)"
      and ctx: "data_used ctx = 0" "\<not> error_encountered ctx"
    using decode_loop_encode [of EVP_DecodeInit "concat chunks" "[]"] by auto
  then have "decode_loop EVP_DecodeInit (concat received) [] = (True, ctx, concat chunks)"
    using decode_loop_spaces [of EVP_DecodeInit "pem_body (concat chunks)" "[]"] assms(3)
    by (simp add: encode_stream_pem [OF assms(1)] filter_pem_body)
  then have "decode_all EVP_DecodeInit received = Some (ctx, concat chunks)"
    using assms(2) ctx(2) by (intro decode_all_loop) (simp_all add: EVP_DecodeInit_def)
  then show ?thesis
    using ctx by (simp add: decode_stream_def EVP_DecodeFinal_def)
qed

theorem stream_roundtrip_witness: "decode_stream [[0x5A, 0x6D], [0x38, 0x3D, 0x0A]] = Some (concat [[0x66], [0x6F]])"
proof (rule stream_roundtrip)
  show "concat [[0x5A, 0x6D], [0x38, 0x3D, 0x0A]] = encode_stream [[0x66], [0x6F]]"
    by code_simp
qed simp_all

text \<open>\<^verbatim>\<open>EVP_EncodedLength\<close> gives exactly the number of bytes that \<^verbatim>\<open>EVP_EncodeBlock\<close> stores, the
  terminating NUL included, and fails exactly when that number does not fit in a \<^verbatim>\<open>size_t\<close>.\<close>

theorem EVP_EncodedLength_exact:
  "EVP_EncodedLength len =
     (if 4 * ((unat len + 2) div 3) + 1 < 2 ^ 64 then Some (word_of_nat (4 * ((unat len + 2) div 3) + 1)) else None)"
proof (cases "unat len + 2 < 2 ^ 64")
  case False
  then have "\<not> 4 * ((unat len + 2) div 3) + 1 < 2 ^ 64" by auto
  moreover have "len + 2 < len" using False by (simp add: overflow_test)
  ultimately show ?thesis by (simp add: EVP_EncodedLength_def)
next
  case True
  let ?q = "(unat len + 2) div 3"
  let ?l = "(len + 2) div 3"
  have no: "\<not> len + 2 < len" using True by (simp add: overflow_test)
  have q: "unat ?l = ?q" using True by (simp add: unat_div unat_add_no_wrap)
  have "unat (push_bit 2 l) = 4 * unat l mod 2 ^ 64" for l :: size_t
    by (simp add: push_bit_eq_mult unat_word_ariths mult.commute)
  then have shifted: "unat (push_bit 2 ?l) = 4 * ?q mod 2 ^ 64" by (simp only: q)
  have "unat (drop_bit 2 (push_bit 2 ?l)) = (4 * ?q mod 2 ^ 64) div 4"
    by (simp add: unat_drop_bit shifted)
  then have shift_ok: "drop_bit 2 (push_bit 2 ?l) = ?l \<longleftrightarrow> 4 * ?q < 2 ^ 64"
    by (auto simp: word_unat_eq_iff q)
  show ?thesis
  proof (cases "4 * ?q < 2 ^ 64")
    case fits: True
    then have "?q < 2 ^ 62" by simp
    then have "4 * ?q + 1 < 2 ^ 64" by simp
    moreover have p: "push_bit 2 ?l = word_of_nat (4 * ?q)"
      using shifted fits by (intro word_of_natI) simp
    have "push_bit 2 ?l + 1 = word_of_nat (4 * ?q + 1)" unfolding p by simp
    moreover have "\<not> push_bit 2 ?l + 1 < push_bit 2 ?l"
      using fits shifted calculation(1) by (simp add: overflow_test)
    ultimately show ?thesis
      using no shift_ok fits by (simp add: EVP_EncodedLength_def Let_def)
  next
    case over: False
    then show ?thesis
      using no shift_ok by (simp add: EVP_EncodedLength_def Let_def)
  qed
qed

text \<open>\<^verbatim>\<open>EVP_DecodeBlock\<close> undoes \<^verbatim>\<open>EVP_EncodeBlock\<close>, also with blanks before and white space after the
  text, up to the NUL padding to a multiple of three that it documents.\<close>

theorem EVP_DecodeBlock_encode:
  assumes "length xs \<le> 2147483640" and "list_all (\<lambda>c. c = chr_sp \<or> c = chr_tab) pre" and "list_all is_space post"
  shows "EVP_DecodeBlock (pre @ encode_quads xs @ post) = Some (xs @ replicate ((3 - length xs mod 3) mod 3) 0)"
proof -
  have pre: "dropWhile (\<lambda>c. c = chr_sp \<or> c = chr_tab) (pre @ zs) = dropWhile (\<lambda>c. c = chr_sp \<or> c = chr_tab) zs" for zs
    using assms(2) by (simp add: list_all_iff)
  have post: "dropWhile is_space (rev post @ zs) = dropWhile is_space zs" for zs
    using assms(3) by (intro dropWhile_append2) (simp add: list_all_iff)
  have first: "\<not> (c = chr_sp \<or> c = chr_tab)" if "c \<in> set (encode_quads xs)" for c
    using encode_quads_no_space [OF that] by (auto simp: is_space_def)
  have trim: "rev (dropWhile is_space (rev (dropWhile (\<lambda>c. c = chr_sp \<or> c = chr_tab) (pre @ encode_quads xs @ post)))) =
      encode_quads xs"
  proof (cases "encode_quads xs")
    case Nil
    have "dropWhile is_space (rev (dropWhile P post)) = []" for P
      using assms(3) by (auto simp: list_all_iff dest: set_dropWhileD)
    then show ?thesis using Nil pre by simp
  next
    case (Cons c cs)
    obtain ys y where y: "encode_quads xs = ys @ [y]" using Cons by (metis list.distinct(1) rev_exhaust)
    have "\<not> is_space y" using encode_quads_no_space [of y xs] y by simp
    moreover have "dropWhile (\<lambda>c. c = chr_sp \<or> c = chr_tab) (encode_quads xs @ post) = encode_quads xs @ post"
      using first [of c] Cons by simp
    ultimately show ?thesis using pre post y by simp
  qed
  let ?k = "(length xs + 2) div 3 * 3"
  have dl: "EVP_DecodedLength (word_of_nat (length (encode_quads xs))) = Some (word_of_nat ?k)"
    using EVP_DecodedLength_nat [of "length (encode_quads xs)"] assms(1) by (simp add: length_encode_quads)
  have k: "unat (word_of_nat ?k :: size_t) = ?k" using assms(1) by (intro unat_of_nat_small) auto
  then have "\<not> word_of_nat ?k > INT_MAX" using assms(1) by (simp add: word_less_nat_alt)
  moreover have "EVP_DecodeBase64 (word_of_nat ?k) (encode_quads xs) = Some xs"
    using assms(1) k by (intro EVP_DecodeBase64_encode) auto
  ultimately show ?thesis
    unfolding EVP_DecodeBlock_def Let_def trim dl by simp
qed

theorem EVP_DecodeBlock_encode_witness:
  "EVP_DecodeBlock ([chr_sp] @ encode_quads [1, 2, 3, 4] @ [chr_cr, chr_nl]) =
     Some ([1, 2, 3, 4] @ replicate ((3 - length [1, 2, 3, 4 :: byte] mod 3) mod 3) 0)"
  by (rule EVP_DecodeBlock_encode) (simp_all add: is_space_def)


end
