(* ===== verification/Cbs.thy ===== *)
theory Cbs
  imports ConstantTime
begin

text \<open>
  BoringSSL's parser of byte strings (crypto/bytestring/cbs.c). A \<^verbatim>\<open>CBS\<close> is the list of the bytes
  it spans; a function that advances its argument returns its result and the \<^verbatim>\<open>CBS\<close> it leaves, on
  failure too (\<open>None\<close> is the return value 0). Lengths read from the input are 64-bit words.
\<close>

type_synonym CBS = "byte list"
type_synonym 'a cbs_op = "CBS \<Rightarrow> 'a option \<times> CBS"

text \<open>\<^verbatim>\<open>if (!f(cbs, &x)) { return 0; } g(x)\<close>.\<close>

definition cbs_bind :: "'a cbs_op \<Rightarrow> ('a \<Rightarrow> 'b cbs_op) \<Rightarrow> 'b cbs_op" where
  "cbs_bind f g cbs = (case f cbs of (None, cbs') \<Rightarrow> (None, cbs') | (Some x, cbs') \<Rightarrow> g x cbs')"

definition cbs_return :: "'a \<Rightarrow> 'a cbs_op" where
  "cbs_return x cbs = (Some x, cbs)"

definition cbs_fail :: "'a cbs_op" where
  "cbs_fail cbs = (None, cbs)"

section \<open>Reading bytes and integers\<close>

definition cbs_get :: "nat \<Rightarrow> byte list cbs_op" where
  "cbs_get n cbs = (if length cbs < n then (None, cbs) else (Some (take n cbs), drop n cbs))"

definition CBS_skip :: "nat \<Rightarrow> unit cbs_op" where
  "CBS_skip n = cbs_bind (cbs_get n) (\<lambda>_. cbs_return ())"

text \<open>\<^verbatim>\<open>CBS_stow\<close> and \<^verbatim>\<open>CBS_strdup\<close> copy to fresh memory; \<open>alloc n\<close> tells whether \<open>n\<close> bytes can be had.\<close>

definition CBS_stow :: "(nat \<Rightarrow> bool) \<Rightarrow> CBS \<Rightarrow> byte list option" where
  "CBS_stow alloc cbs = (if cbs = [] then Some [] else if alloc (length cbs) then Some cbs else None)"

definition CBS_strdup :: "(nat \<Rightarrow> bool) \<Rightarrow> CBS \<Rightarrow> byte list option" where
  "CBS_strdup alloc cbs =
     (let s = takeWhile (\<lambda>b. b \<noteq> 0) cbs in if alloc (length s + 1) then Some (s @ [0]) else None)"

definition CBS_contains_zero_byte :: "CBS \<Rightarrow> bool" where
  "CBS_contains_zero_byte cbs = list_ex (\<lambda>b. b = 0) cbs"

text \<open>\<^verbatim>\<open>CRYPTO_memcmp\<close> of two arrays of the same length: the OR of the XORs.\<close>

fun CRYPTO_memcmp :: "byte list \<Rightarrow> byte list \<Rightarrow> byte \<Rightarrow> byte" where
  "CRYPTO_memcmp (x # xs) (y # ys) acc = CRYPTO_memcmp xs ys (acc OR (x XOR y))"
| "CRYPTO_memcmp _ _ acc = acc"

definition CBS_mem_equal :: "CBS \<Rightarrow> byte list \<Rightarrow> bool" where
  "CBS_mem_equal cbs data = (if length data \<noteq> length cbs then False else CRYPTO_memcmp cbs data 0 = 0)"

text \<open>\<^verbatim>\<open>for (i = 0; i < len; i++) { result <<= 8; result |= data[i]; }\<close>\<close>

definition be_value :: "byte list \<Rightarrow> uint64" where
  "be_value data = foldl (\<lambda>result b. push_bit 8 result OR ucast b) 0 data"

definition cbs_get_u :: "nat \<Rightarrow> uint64 cbs_op" where
  "cbs_get_u len = cbs_bind (cbs_get len) (\<lambda>data. cbs_return (be_value data))"

definition CBS_get_u8 :: "byte cbs_op" where
  "CBS_get_u8 = cbs_bind (cbs_get 1) (\<lambda>v. cbs_return (hd v))"

definition CBS_get_u16 :: "uint16 cbs_op" where
  "CBS_get_u16 = cbs_bind (cbs_get_u 2) (\<lambda>v. cbs_return (ucast v))"

definition CRYPTO_bswap2 :: "uint16 \<Rightarrow> uint16" where
  "CRYPTO_bswap2 x = push_bit 8 x OR drop_bit 8 x"

definition CRYPTO_bswap4 :: "uint32 \<Rightarrow> uint32" where
  "CRYPTO_bswap4 x =
     (let x = (drop_bit 16 x) OR (push_bit 16 x)
      in (drop_bit 8 (x AND 0xff00ff00)) OR (push_bit 8 (x AND 0x00ff00ff)))"

definition CRYPTO_bswap8 :: "uint64 \<Rightarrow> uint64" where
  "CRYPTO_bswap8 x =
     push_bit 32 (ucast (CRYPTO_bswap4 (ucast x))) OR ucast (CRYPTO_bswap4 (ucast (drop_bit 32 x)))"

definition CBS_get_u16le :: "uint16 cbs_op" where
  "CBS_get_u16le = cbs_bind CBS_get_u16 (\<lambda>v. cbs_return (CRYPTO_bswap2 v))"

definition CBS_get_u24 :: "uint32 cbs_op" where
  "CBS_get_u24 = cbs_bind (cbs_get_u 3) (\<lambda>v. cbs_return (ucast v))"

definition CBS_get_u32 :: "uint32 cbs_op" where
  "CBS_get_u32 = cbs_bind (cbs_get_u 4) (\<lambda>v. cbs_return (ucast v))"

definition CBS_get_u32le :: "uint32 cbs_op" where
  "CBS_get_u32le = cbs_bind CBS_get_u32 (\<lambda>v. cbs_return (CRYPTO_bswap4 v))"

definition CBS_get_u64 :: "uint64 cbs_op" where
  "CBS_get_u64 = cbs_get_u 8"

definition CBS_get_u64le :: "uint64 cbs_op" where
  "CBS_get_u64le = cbs_bind (cbs_get_u 8) (\<lambda>v. cbs_return (CRYPTO_bswap8 v))"

definition CBS_get_last_u8 :: "byte cbs_op" where
  "CBS_get_last_u8 cbs = (if cbs = [] then (None, cbs) else (Some (last cbs), butlast cbs))"

definition CBS_get_bytes :: "nat \<Rightarrow> CBS cbs_op" where
  "CBS_get_bytes len = cbs_get len"

definition CBS_copy_bytes :: "nat \<Rightarrow> byte list cbs_op" where
  "CBS_copy_bytes len = cbs_get len"

definition cbs_get_length_prefixed :: "nat \<Rightarrow> CBS cbs_op" where
  "cbs_get_length_prefixed len_len = cbs_bind (cbs_get_u len_len) (\<lambda>len. CBS_get_bytes (unat len))"

definition CBS_get_u8_length_prefixed :: "CBS cbs_op" where
  "CBS_get_u8_length_prefixed = cbs_get_length_prefixed 1"

definition CBS_get_u16_length_prefixed :: "CBS cbs_op" where
  "CBS_get_u16_length_prefixed = cbs_get_length_prefixed 2"

definition CBS_get_u24_length_prefixed :: "CBS cbs_op" where
  "CBS_get_u24_length_prefixed = cbs_get_length_prefixed 3"

definition CBS_get_until_first :: "byte \<Rightarrow> CBS cbs_op" where
  "CBS_get_until_first c cbs =
     (if c \<in> set cbs then CBS_get_bytes (length (takeWhile (\<lambda>b. b \<noteq> c) cbs)) cbs else (None, cbs))"

section \<open>ASN.1\<close>

fun parse_base128_loop :: "uint64 \<Rightarrow> uint64 cbs_op" where
  "parse_base128_loop v [] = (None, [])"
| "parse_base128_loop v (b # cbs) =
     (if drop_bit (64 - 7) v \<noteq> 0 then (None, cbs)
      else if v = 0 \<and> b = 0x80 then (None, cbs)
      else (let v = push_bit 7 v OR ucast (b AND 0x7f)
            in if b AND 0x80 \<noteq> 0 then parse_base128_loop v cbs else (Some v, cbs)))"

definition parse_base128_integer :: "uint64 cbs_op" where
  "parse_base128_integer = parse_base128_loop 0"

abbreviation (input) CBS_ASN1_TAG_NUMBER_MASK :: uint32 where "CBS_ASN1_TAG_NUMBER_MASK \<equiv> 0x1FFFFFFF"
abbreviation (input) CBS_ASN1_CONSTRUCTED :: uint32 where "CBS_ASN1_CONSTRUCTED \<equiv> 0x20000000"
abbreviation (input) CBS_ASN1_BOOLEAN :: uint32 where "CBS_ASN1_BOOLEAN \<equiv> 1"
abbreviation (input) CBS_ASN1_INTEGER :: uint32 where "CBS_ASN1_INTEGER \<equiv> 2"
abbreviation (input) CBS_ASN1_OCTETSTRING :: uint32 where "CBS_ASN1_OCTETSTRING \<equiv> 4"

definition parse_asn1_tag :: "uint32 cbs_op" where
  "parse_asn1_tag = cbs_bind CBS_get_u8 (\<lambda>tag_byte.
     let tg = push_bit 24 (ucast tag_byte AND 0xe0) :: uint32;
         tag_number = ucast (tag_byte AND 0x1f) :: uint32
     in if tag_number = 0x1f then
          cbs_bind parse_base128_integer (\<lambda>v.
            if v > ucast CBS_ASN1_TAG_NUMBER_MASK \<or> v < 0x1f then cbs_fail
            else cbs_return (tg OR ucast v))
        else cbs_return (tg OR tag_number))"

text \<open>The element, its tag, the length of its header, and whether it was found to be BER and not DER.
  \<^verbatim>\<open>header\<close> is a copy: on failure \<^verbatim>\<open>cbs\<close> is unchanged.\<close>

definition cbs_get_any_asn1_element :: "bool \<Rightarrow> (CBS \<times> uint32 \<times> nat \<times> bool) cbs_op" where
  "cbs_get_any_asn1_element ber_ok cbs =
     (case parse_asn1_tag cbs of
        (None, _) \<Rightarrow> (None, cbs)
      | (Some tg, header) \<Rightarrow>
          (case CBS_get_u8 header of
             (None, _) \<Rightarrow> (None, cbs)
           | (Some length_byte, header) \<Rightarrow>
               (let header_len = length cbs - length header in
                if length_byte AND 0x80 = 0 then
                  cbs_bind (CBS_get_bytes (unat length_byte + header_len))
                    (\<lambda>out. cbs_return (out, tg, header_len, False)) cbs
                else
                  (let num_bytes = unat (length_byte AND 0x7f) in
                   if ber_ok \<and> tg AND CBS_ASN1_CONSTRUCTED \<noteq> 0 \<and> num_bytes = 0 then
                     cbs_bind (CBS_get_bytes header_len) (\<lambda>out. cbs_return (out, tg, header_len, True)) cbs
                   else if num_bytes = 0 \<or> num_bytes > 4 then (None, cbs)
                   else
                     (case cbs_get_u num_bytes header of
                        (None, _) \<Rightarrow> (None, cbs)
                      | (Some len64, header) \<Rightarrow>
                          (let long = (len64 < 128); padded = (drop_bit ((num_bytes - 1) * 8) len64 = 0) in
                           if \<not> ber_ok \<and> (long \<or> padded) then (None, cbs)
                           else if len64 + word_of_nat (header_len + num_bytes) < len64 then (None, cbs)
                           else
                             cbs_bind (CBS_get_bytes (unat (len64 + word_of_nat (header_len + num_bytes))))
                               (\<lambda>out. cbs_return (out, tg, header_len + num_bytes, long \<or> padded)) cbs))))))"

definition CBS_get_any_asn1_element :: "(CBS \<times> uint32 \<times> nat) cbs_op" where
  "CBS_get_any_asn1_element =
     cbs_bind (cbs_get_any_asn1_element False) (\<lambda>(out, tg, header_len, _). cbs_return (out, tg, header_len))"

definition CBS_get_any_ber_asn1_element :: "(CBS \<times> uint32 \<times> nat \<times> bool) cbs_op" where
  "CBS_get_any_ber_asn1_element = cbs_get_any_asn1_element True"

definition CBS_get_any_asn1 :: "(CBS \<times> uint32) cbs_op" where
  "CBS_get_any_asn1 = cbs_bind CBS_get_any_asn1_element (\<lambda>(out, tg, header_len).
     case CBS_skip header_len out of
       (None, _) \<Rightarrow> cbs_fail
     | (Some _, out) \<Rightarrow> cbs_return (out, tg))"

definition cbs_get_asn1 :: "uint32 \<Rightarrow> bool \<Rightarrow> CBS cbs_op" where
  "cbs_get_asn1 tag_value skip_header =
     cbs_bind CBS_get_any_asn1_element (\<lambda>(out, tg, header_len).
       if tg \<noteq> tag_value then cbs_fail
       else if skip_header then
         (case CBS_skip header_len out of (None, _) \<Rightarrow> cbs_fail | (Some _, out) \<Rightarrow> cbs_return out)
       else cbs_return out)"

definition CBS_get_asn1 :: "uint32 \<Rightarrow> CBS cbs_op" where
  "CBS_get_asn1 tag_value = cbs_get_asn1 tag_value True"

definition CBS_get_asn1_element :: "uint32 \<Rightarrow> CBS cbs_op" where
  "CBS_get_asn1_element tag_value = cbs_get_asn1 tag_value False"

definition CBS_peek_asn1_tag :: "CBS \<Rightarrow> uint32 \<Rightarrow> bool" where
  "CBS_peek_asn1_tag cbs tag_value =
     (if length cbs < 1 then False
      else (case parse_asn1_tag cbs of (None, _) \<Rightarrow> False | (Some actual_tag, _) \<Rightarrow> tag_value = actual_tag))"

text \<open>Is it valid, and negative?\<close>

definition CBS_is_valid_asn1_integer :: "CBS \<Rightarrow> bool \<times> bool" where
  "CBS_is_valid_asn1_integer cbs =
     (case CBS_get_u8 cbs of
        (None, _) \<Rightarrow> (False, False)
      | (Some first_byte, copy) \<Rightarrow>
          (let is_negative = (first_byte AND 0x80 \<noteq> 0) in
           case CBS_get_u8 copy of
             (None, _) \<Rightarrow> (True, is_negative)
           | (Some second_byte, _) \<Rightarrow>
               (\<not> ((first_byte = 0x00 \<and> second_byte AND 0x80 = 0) \<or>
                   (first_byte = 0xff \<and> second_byte AND 0x80 \<noteq> 0)), is_negative)))"

definition CBS_is_unsigned_asn1_integer :: "CBS \<Rightarrow> bool" where
  "CBS_is_unsigned_asn1_integer cbs = (case CBS_is_valid_asn1_integer cbs of (valid, neg) \<Rightarrow> valid \<and> \<not> neg)"

fun uint64_loop :: "uint64 \<Rightarrow> byte list \<Rightarrow> uint64 option" where
  "uint64_loop out [] = Some out"
| "uint64_loop out (b # bs) =
     (if drop_bit 56 out \<noteq> 0 then None else uint64_loop (push_bit 8 out OR ucast b) bs)"

definition CBS_get_asn1_uint64 :: "uint64 cbs_op" where
  "CBS_get_asn1_uint64 = cbs_bind (CBS_get_asn1 CBS_ASN1_INTEGER) (\<lambda>bytes.
     if \<not> CBS_is_unsigned_asn1_integer bytes then cbs_fail
     else (case uint64_loop 0 bytes of None \<Rightarrow> cbs_fail | Some v \<Rightarrow> cbs_return v))"

text \<open>The union \<^verbatim>\<open>u\<close> read as a little-endian integer.\<close>

definition le_value :: "byte list \<Rightarrow> uint64" where
  "le_value bytes = be_value (rev bytes)"

definition CBS_get_asn1_int64 :: "64 word cbs_op" where
  "CBS_get_asn1_int64 = cbs_bind (CBS_get_asn1 CBS_ASN1_INTEGER) (\<lambda>bytes.
     case CBS_is_valid_asn1_integer bytes of (valid, is_negative) \<Rightarrow>
       if \<not> valid then cbs_fail
       else if length bytes > 8 then cbs_fail
       else cbs_return (le_value (put_at (replicate 8 (if is_negative then 0xff else 0)) 0 (rev bytes))))"

definition CBS_get_asn1_bool :: "bool cbs_op" where
  "CBS_get_asn1_bool = cbs_bind (CBS_get_asn1 CBS_ASN1_BOOLEAN) (\<lambda>bytes.
     if length bytes \<noteq> 1 then cbs_fail
     else (let v = hd bytes in if v \<noteq> 0 \<and> v \<noteq> 0xff then cbs_fail else cbs_return (v \<noteq> 0)))"

text \<open>The contents and whether the element was present.\<close>

definition CBS_get_optional_asn1 :: "uint32 \<Rightarrow> CBS option cbs_op" where
  "CBS_get_optional_asn1 tg cbs =
     (if CBS_peek_asn1_tag cbs tg then cbs_bind (CBS_get_asn1 tg) (\<lambda>out. cbs_return (Some out)) cbs
      else (Some None, cbs))"

definition CBS_get_optional_asn1_octet_string :: "uint32 \<Rightarrow> CBS option cbs_op" where
  "CBS_get_optional_asn1_octet_string tg = cbs_bind (CBS_get_optional_asn1 tg) (\<lambda>r.
     case r of
       None \<Rightarrow> cbs_return None
     | Some child \<Rightarrow>
         (case CBS_get_asn1 CBS_ASN1_OCTETSTRING child of
            (None, _) \<Rightarrow> cbs_fail
          | (Some out, child) \<Rightarrow> if length child \<noteq> 0 then cbs_fail else cbs_return (Some out)))"

definition CBS_get_optional_asn1_uint64 :: "uint32 \<Rightarrow> uint64 \<Rightarrow> uint64 cbs_op" where
  "CBS_get_optional_asn1_uint64 tg default_value = cbs_bind (CBS_get_optional_asn1 tg) (\<lambda>r.
     case r of
       None \<Rightarrow> cbs_return default_value
     | Some child \<Rightarrow>
         (case CBS_get_asn1_uint64 child of
            (None, _) \<Rightarrow> cbs_fail
          | (Some out, child) \<Rightarrow> if length child \<noteq> 0 then cbs_fail else cbs_return out))"

definition CBS_get_optional_asn1_bool :: "uint32 \<Rightarrow> bool \<Rightarrow> bool cbs_op" where
  "CBS_get_optional_asn1_bool tg default_value = cbs_bind (CBS_get_optional_asn1 tg) (\<lambda>r.
     case r of
       None \<Rightarrow> cbs_return default_value
     | Some child \<Rightarrow>
         (case CBS_get_asn1 CBS_ASN1_BOOLEAN child of
            (None, _) \<Rightarrow> cbs_fail
          | (Some child2, child) \<Rightarrow>
              if length child2 \<noteq> 1 \<or> length child \<noteq> 0 then cbs_fail
              else if hd child2 = 0 then cbs_return False
              else if hd child2 = 0xff then cbs_return True
              else cbs_fail))"

definition CBS_is_valid_asn1_bitstring :: "CBS \<Rightarrow> bool" where
  "CBS_is_valid_asn1_bitstring cbs =
     (case CBS_get_u8 cbs of
        (None, _) \<Rightarrow> False
      | (Some num_unused_bits, inp) \<Rightarrow>
          if num_unused_bits > 7 then False
          else if num_unused_bits = 0 then True
          else (case CBS_get_last_u8 inp of
                  (None, _) \<Rightarrow> False
                | (Some last_b, _) \<Rightarrow> last_b AND (push_bit (unat num_unused_bits) 1 - 1) = 0))"

definition CBS_asn1_bitstring_has_bit :: "CBS \<Rightarrow> uint32 \<Rightarrow> bool" where
  "CBS_asn1_bitstring_has_bit cbs bit_no =
     (if \<not> CBS_is_valid_asn1_bitstring cbs then False
      else (let byte_num = unat (drop_bit 3 bit_no + 1); bit_num = 7 - unat (bit_no AND 7)
            in byte_num < length cbs \<and> (cbs ! byte_num) AND push_bit bit_num 1 \<noteq> 0))"

section \<open>Integers\<close>

lemma cbs_bind_simps [simp]:
  "cbs_bind (\<lambda>c. (Some x, h c)) g cbs = g x (h cbs)"
  by (simp add: cbs_bind_def)

lemma cbs_bind_eq_Some: "cbs_bind f g cbs = (Some y, rest) \<longleftrightarrow> (\<exists>x mid. f cbs = (Some x, mid) \<and> g x mid = (Some y, rest))"
  by (auto simp: cbs_bind_def split: prod.split option.split)

lemma cbs_get_eq_Some: "cbs_get n cbs = (Some x, rest) \<longleftrightarrow> cbs = x @ rest \<and> length x = n"
  by (auto simp: cbs_get_def)

lemma cbs_return_eq_Some [simp]: "cbs_return x cbs = (Some y, rest) \<longleftrightarrow> x = y \<and> cbs = rest"
  by (auto simp: cbs_return_def)

lemma cbs_fail_eq_Some [simp]: "cbs_fail cbs \<noteq> (Some y, rest)"
  by (simp add: cbs_fail_def)

lemma CBS_get_u8_eq_Some: "CBS_get_u8 cbs = (Some b, rest) \<longleftrightarrow> cbs = b # rest"
  by (auto simp: CBS_get_u8_def cbs_bind_eq_Some cbs_get_eq_Some length_Suc_conv)

lemma CBS_get_u8_simps [simp]: "CBS_get_u8 (b # rest) = (Some b, rest)" "CBS_get_u8 [] = (None, [])"
  by (simp_all add: CBS_get_u8_eq_Some) (simp add: CBS_get_u8_def cbs_bind_def cbs_get_def)

text \<open>Big-endian integers of \<open>k\<close> bytes.\<close>

fun be_bytes :: "nat \<Rightarrow> uint64 \<Rightarrow> byte list" where
  "be_bytes 0 v = []"
| "be_bytes (Suc k) v = be_bytes k (drop_bit 8 v) @ [ucast v]"

lemma length_be_bytes [simp]: "length (be_bytes k v) = k"
  by (induction k arbitrary: v) simp_all

lemma be_value_simps [simp]: "be_value [] = 0" "be_value (xs @ [b]) = push_bit 8 (be_value xs) OR ucast b"
  by (simp_all add: be_value_def)

lemma be_value_be_bytes: "be_value (be_bytes k v) = take_bit (8 * k) v"
proof (induction k arbitrary: v)
  case (Suc k)
  have "push_bit 8 (take_bit (8 * k) (drop_bit 8 v)) OR ucast (ucast v :: byte) = take_bit (8 * Suc k) v"
    by (rule bit_eqI) (auto simp: bit_simps)
  then show ?case using Suc by simp
qed simp

lemma be_value_take_bit: "take_bit (8 * length xs) (be_value xs) = be_value xs"
proof (induction xs rule: rev_induct)
  case (snoc b xs)
  have "take_bit (8 * Suc n) (push_bit 8 v OR ucast b) = push_bit 8 v OR ucast b" if "take_bit (8 * n) v = v"
    for n and v :: uint64
  proof (rule bit_eqI)
    fix m
    have "bit v i \<Longrightarrow> i < 8 * n" for i using that by (metis bit_take_bit_iff)
    from this [of "m - 8"]
    show "bit (take_bit (8 * Suc n) (push_bit 8 v OR ucast b)) m = bit (push_bit 8 v OR ucast b) m"
      by (auto simp: bit_simps dest: bit_imp_le_length)
  qed
  then show ?case using snoc by simp
qed simp

lemma be_bytes_be_value: "length xs \<le> 8 \<Longrightarrow> be_bytes (length xs) (be_value xs) = xs"
proof (induction xs rule: rev_induct)
  case (snoc b xs)
  have "take_bit 56 (take_bit (8 * length xs) (be_value xs)) = take_bit (8 * length xs) (be_value xs)"
    using snoc.prems by (simp add: min_def)
  then have small: "take_bit 56 (be_value xs) = be_value xs"
    by (simp only: be_value_take_bit)
  have "bit (be_value xs) i \<Longrightarrow> i < 56" for i
    using small by (metis bit_take_bit_iff)
  then have "drop_bit 8 (push_bit 8 (be_value xs) OR ucast b) = be_value xs"
    by (auto simp: bit_eq_iff bit_simps dest: bit_imp_le_length)
  moreover have "ucast (push_bit 8 (be_value xs) OR ucast b :: uint64) = b"
    by (auto simp: bit_eq_iff bit_simps)
  ultimately show ?case using snoc by simp
qed simp

lemma cbs_get_u_iff:
  assumes "k \<le> 8"
  shows "cbs_get_u k cbs = (Some v, rest) \<longleftrightarrow> cbs = be_bytes k v @ rest \<and> take_bit (8 * k) v = v"
  using assms be_bytes_be_value be_value_take_bit be_value_be_bytes
  by (auto simp: cbs_get_u_def cbs_bind_eq_Some cbs_get_eq_Some)

section \<open>Base-128 integers\<close>

text \<open>The groups of seven bits of \<open>v\<close>, each marked as continued; the encoding ends with an unmarked group.\<close>

function groups :: "uint64 \<Rightarrow> byte list" where
  "groups v = (if v = 0 then [] else groups (drop_bit 7 v) @ [ucast (v AND 0x7f) OR 0x80])"
  by pat_completeness auto
termination
proof (relation "measure unat")
  fix v :: uint64 assume "v \<noteq> 0"
  then have "0 < unat v" by (simp add: unat_gt_0)
  then show "(drop_bit 7 v, v) \<in> measure unat" by (simp add: unat_drop_bit)
qed simp

declare groups.simps [simp del]

definition base128 :: "uint64 \<Rightarrow> byte list" where
  "base128 v = groups (drop_bit 7 v) @ [ucast (v AND 0x7f)]"

lemma group_byte:
  fixes b :: byte
  assumes "drop_bit 57 (v :: uint64) = 0"
  defines "w \<equiv> push_bit 7 v OR ucast (b AND 0x7f)"
  shows "drop_bit 7 w = v" and "(ucast (w AND 0x7f) :: byte) = b AND 0x7f" and "v \<noteq> 0 \<Longrightarrow> w \<noteq> 0"
proof -
  have small: "i < 57" if "bit v i" for i
  proof (rule ccontr)
    assume "\<not> i < 57"
    then have "bit (drop_bit 57 v) (i - 57) = bit v i" by (simp add: bit_simps)
    then show False using assms(1) that by simp
  qed
  show "drop_bit 7 w = v"
    unfolding w_def and_7F by (rule bit_eqI) (use small in \<open>auto simp: bit_simps\<close>)
  then show "v \<noteq> 0 \<Longrightarrow> w \<noteq> 0" by auto
  show "(ucast (w AND 0x7f) :: byte) = b AND 0x7f"
    unfolding w_def and_7F by (rule bit_eqI) (auto simp: bit_simps)
qed

lemma cont_bit: "(b :: byte) AND 0x80 \<noteq> 0 \<Longrightarrow> (b AND 0x7f) OR 0x80 = b" "b AND 0x80 = 0 \<Longrightarrow> b AND 0x7f = b"
  "((b AND 0x7f) OR 0x80) AND 0x80 \<noteq> 0" "((b AND 0x7f) OR 0x80) AND 0x7f = b AND 0x7f"
proof -
  have "\<forall>b :: byte. (b AND 0x80 \<noteq> 0 \<longrightarrow> (b AND 0x7f) OR 0x80 = b) \<and> (b AND 0x80 = 0 \<longrightarrow> b AND 0x7f = b) \<and>
      ((b AND 0x7f) OR 0x80) AND 0x80 \<noteq> 0 \<and> ((b AND 0x7f) OR 0x80) AND 0x7f = b AND 0x7f"
    unfolding all_byte_iff by code_simp
  then show "b AND 0x80 \<noteq> 0 \<Longrightarrow> (b AND 0x7f) OR 0x80 = b" "b AND 0x80 = 0 \<Longrightarrow> b AND 0x7f = b"
    "((b AND 0x7f) OR 0x80) AND 0x80 \<noteq> 0" "((b AND 0x7f) OR 0x80) AND 0x7f = b AND 0x7f" by blast+
qed

text \<open>Soundness: what the parser accepts is the encoding of its result.\<close>

lemma parse_base128_loop_sound:
  "parse_base128_loop acc cbs = (Some v, rest) \<Longrightarrow> acc \<noteq> 0 \<Longrightarrow> groups acc @ cbs = base128 v @ rest"
proof (induction acc cbs rule: parse_base128_loop.induct)
  case (2 acc b cbs)
  let ?w = "push_bit 7 acc OR ucast (b AND 0x7f)"
  have top: "drop_bit 57 acc = 0" using 2(2) by (simp split: if_splits)
  note w = group_byte [OF top, of b]
  show ?case
  proof (cases "b AND 0x80 = 0")
    case True
    then have "v = ?w" "rest = cbs" using 2(2,3) top by (auto simp: Let_def)
    then show ?thesis using True w cont_bit(2) [OF True] by (simp add: base128_def)
  next
    case False
    then have "parse_base128_loop ?w cbs = (Some v, rest)" using 2(2,3) top by (auto simp: Let_def)
    then have "groups ?w @ cbs = base128 v @ rest"
      using 2(1) [of ?w] 2(3) top w(3) False by auto
    then show ?thesis
      using w 2(3) cont_bit(1) [OF False] by (subst (asm) groups.simps) simp
  qed
qed simp

lemma parse_base128_sound:
  assumes "parse_base128_integer cbs = (Some v, rest)"
  shows "cbs = base128 v @ rest"
proof (cases cbs)
  case Nil
  then show ?thesis using assms by (simp add: parse_base128_integer_def)
next
  case (Cons b cs)
  note top = group_byte [of 0 b, simplified]
  show ?thesis
  proof (cases "b AND 0x80 = 0")
    case True
    then have "v = ucast (b AND 0x7f)" "rest = cs"
      using assms Cons by (auto simp: parse_base128_integer_def Let_def split: if_splits)
    then show ?thesis
      using Cons top cont_bit(2) [OF True] by (simp add: base128_def groups.simps [of 0])
  next
    case False
    let ?w = "ucast (b AND 0x7f) :: uint64"
    have b: "b \<noteq> 0x80" and run: "parse_base128_loop ?w cs = (Some v, rest)"
      using assms Cons False by (auto simp: parse_base128_integer_def Let_def split: if_splits)
    have "b AND 0x7f \<noteq> 0" using b cont_bit(1) [OF False] by auto
    then have "?w \<noteq> 0" using top(2) by auto
    then have "groups ?w @ cs = base128 v @ rest" using run by (intro parse_base128_loop_sound)
    moreover have "groups ?w = [b]"
      using \<open>?w \<noteq> 0\<close> top cont_bit(1) [OF False] by (subst groups.simps) (simp add: groups.simps [of 0])
    ultimately show ?thesis using Cons by simp
  qed
qed

text \<open>Completeness: the parser reads back every encoding.\<close>

lemma split_group:
  fixes v :: uint64
  shows "push_bit 7 (drop_bit 7 v) OR ucast (ucast (v AND 0x7f) AND 0x7f :: byte) = v"
proof (rule bit_eqI)
  fix n
  show "bit (push_bit 7 (drop_bit 7 v) OR ucast (ucast (v AND 0x7f) AND 0x7f :: byte)) n = bit v n"
    unfolding and_7F by (cases "n < 7") (auto simp: bit_simps dest: bit_imp_le_length)
qed

lemma drop_57_7: "drop_bit 57 (drop_bit 7 (v :: uint64)) = 0"
  by (rule bit_eqI) (auto simp: bit_simps dest: bit_imp_le_length)

lemma parse_base128_loop_groups: "parse_base128_loop 0 (groups v @ cbs) = parse_base128_loop v cbs"
proof (induction "unat v" arbitrary: v cbs rule: less_induct)
  case less
  show ?case
  proof (cases "v = 0")
    case True
    then show ?thesis by (simp add: groups.simps)
  next
    case False
    let ?g = "ucast (v AND 0x7f) OR 0x80 :: byte"
    have g: "?g AND 0x80 \<noteq> 0" "?g AND 0x7f = ucast (v AND 0x7f) AND 0x7f"
    proof -
      have "(ucast (v AND 0x7f) :: byte) = ucast (v AND 0x7f) AND 0x7f"
        unfolding and_7F by (rule bit_eqI) (auto simp: bit_simps)
      then show "?g AND 0x80 \<noteq> 0" "?g AND 0x7f = ucast (v AND 0x7f) AND 0x7f"
        using cont_bit(3,4) [of "ucast (v AND 0x7f)"] by simp_all
    qed
    have "?g \<noteq> 0x80" if "drop_bit 7 v = 0"
    proof
      assume "?g = 0x80"
      then have "(ucast (v AND 0x7f) AND 0x7f :: byte) = 0x80 AND 0x7f" using g(2) by simp
      then have "(ucast (v AND 0x7f) AND 0x7f :: byte) = 0" by simp
      then show False using split_group [of v] that False by simp
    qed
    then have "parse_base128_loop (drop_bit 7 v) (?g # cbs) = parse_base128_loop v cbs"
      using drop_57_7 [of v] g split_group [of v] by (auto simp: Let_def)
    moreover have "unat (drop_bit 7 v) < unat v"
      using False by (simp add: unat_drop_bit unat_gt_0)
    ultimately show ?thesis
      using False less by (subst groups.simps) simp
  qed
qed

lemma parse_base128_complete: "parse_base128_integer (base128 v @ rest) = (Some v, rest)"
proof -
  let ?b = "ucast (v AND 0x7f) :: byte"
  have b: "?b AND 0x80 = 0" "?b AND 0x7f = ?b"
    unfolding and_7F by (simp add: and_80_eq_0 bit_simps) (rule bit_eqI, auto simp: bit_simps)
  moreover have "\<not> (drop_bit 7 v = 0 \<and> ?b = 0x80)" using b(1) by auto
  ultimately have "parse_base128_loop (drop_bit 7 v) (?b # rest) = (Some v, rest)"
    using drop_57_7 [of v] split_group [of v] by (auto simp: Let_def)
  then show ?thesis
    by (simp add: parse_base128_integer_def base128_def parse_base128_loop_groups)
qed

section \<open>Tags\<close>

definition tag_bytes :: "uint32 \<Rightarrow> byte list" where
  "tag_bytes t =
     (let cls = ucast (drop_bit 24 t) AND 0xe0; n = t AND CBS_ASN1_TAG_NUMBER_MASK
      in if n < 0x1f then [cls OR ucast n] else (cls OR 0x1f) # base128 (ucast n))"

lemma mask_bits:
  "(x :: byte) AND 0xe0 = push_bit 5 (drop_bit 5 x)" "(y :: uint32) AND 0xe0 = push_bit 5 (take_bit 3 (drop_bit 5 y))"
  "(x :: byte) AND 0x1f = take_bit 5 x" "y AND CBS_ASN1_TAG_NUMBER_MASK = take_bit 29 y"
proof -
  show "x AND 0x1f = take_bit 5 x" "y AND CBS_ASN1_TAG_NUMBER_MASK = take_bit 29 y"
    by (simp_all add: take_bit_eq_mask mask_eq_exp_minus_1)
  have "\<forall>x :: byte. x AND 0xe0 = push_bit 5 (drop_bit 5 x)"
    unfolding all_byte_iff by code_simp
  then show "x AND 0xe0 = push_bit 5 (drop_bit 5 x)" ..
  have m: "(0xe0 :: uint32) = push_bit 5 (mask 3)" by (simp add: mask_eq_exp_minus_1)
  show "y AND 0xe0 = push_bit 5 (take_bit 3 (drop_bit 5 y))"
    unfolding m by (rule bit_eqI) (auto simp: bit_simps)
qed

text \<open>A tag word is made of the class bits of the first byte and the tag number, and they can be read off
  it again.\<close>

lemma tag_word:
  fixes b :: byte and w :: uint32
  assumes "take_bit 29 w = w"
  defines "t \<equiv> push_bit 24 (ucast b AND 0xe0) OR w"
  shows "ucast (drop_bit 24 t) AND 0xe0 = b AND 0xe0" and "t AND CBS_ASN1_TAG_NUMBER_MASK = w"
proof -
  have w: "bit w i \<Longrightarrow> i < 29" for i using assms(1) by (metis bit_take_bit_iff)
  show "ucast (drop_bit 24 t) AND 0xe0 = b AND 0xe0"
    unfolding t_def mask_bits by (rule bit_eqI) (use w in \<open>auto simp: bit_simps\<close>)
  show "t AND CBS_ASN1_TAG_NUMBER_MASK = w"
    unfolding t_def mask_bits by (rule bit_eqI) (use w in \<open>auto simp: bit_simps dest: bit_imp_le_length\<close>)
qed

lemma tag_unword:
  fixes t :: uint32 and x :: byte
  assumes "take_bit 5 x = x"
  defines "b \<equiv> (ucast (drop_bit 24 t) AND 0xe0) OR x"
  shows "push_bit 24 (ucast b AND 0xe0) OR (t AND CBS_ASN1_TAG_NUMBER_MASK) = t" and "b AND 0x1f = x"
    and "b AND 0xe0 = ucast (drop_bit 24 t) AND 0xe0"
proof -
  have x: "bit x i \<Longrightarrow> i < 5" for i using assms(1) by (metis bit_take_bit_iff)
  show "push_bit 24 (ucast b AND 0xe0) OR (t AND CBS_ASN1_TAG_NUMBER_MASK) = t"
    unfolding b_def mask_bits by (rule bit_eqI) (use x in \<open>auto simp: bit_simps\<close>)
  show "b AND 0x1f = x"
    unfolding b_def mask_bits by (rule bit_eqI) (use x in \<open>auto simp: bit_simps\<close>)
  show "b AND 0xe0 = ucast (drop_bit 24 t) AND 0xe0"
    unfolding b_def mask_bits by (rule bit_eqI) (use x in \<open>auto simp: bit_simps\<close>)
qed

lemma byte_parts: "((b :: byte) AND 0xe0) OR (b AND 0x1f) = b"
  unfolding mask_bits by (rule bit_eqI) (auto simp: bit_simps)

lemma parse_asn1_tag_sound:
  assumes "parse_asn1_tag cbs = (Some t, rest)"
  shows "cbs = tag_bytes t @ rest"
proof -
  obtain b cs where cbs: "cbs = b # cs"
    using assms by (cases cbs) (auto simp: parse_asn1_tag_def cbs_bind_def)
  let ?tg = "push_bit 24 (ucast b AND 0xe0) :: uint32"
  show ?thesis
  proof (cases "(ucast (b AND 0x1f) :: uint32) = 0x1f")
    case False
    then have t: "t = ?tg OR ucast (b AND 0x1f)" "rest = cs"
      using assms cbs by (simp_all add: parse_asn1_tag_def cbs_bind_def Let_def)
    have small: "take_bit 29 (ucast (b AND 0x1f) :: uint32) = ucast (b AND 0x1f)"
      unfolding mask_bits by (rule bit_eqI) (auto simp: bit_simps)
    have "unat (ucast (b AND 0x1f) :: uint32) < 32"
      unfolding mask_bits by (simp add: unat_ucast_up unat_take_bit)
    moreover have "unat (ucast (b AND 0x1f) :: uint32) \<noteq> 31"
      using False by (simp add: word_unat_eq_iff)
    ultimately have "(ucast (b AND 0x1f) :: uint32) < 0x1f"
      by (simp add: word_less_nat_alt)
    moreover have "(ucast (ucast (b AND 0x1f) :: uint32) :: byte) = b AND 0x1f"
      by (rule bit_eqI) (auto simp: bit_simps)
    ultimately show ?thesis
      using cbs t tag_word [OF small, of b] byte_parts [of b] by (simp add: tag_bytes_def Let_def)
  next
    case True
    then obtain v where v: "parse_base128_integer cs = (Some v, rest)" "\<not> v > ucast CBS_ASN1_TAG_NUMBER_MASK"
        "\<not> v < 0x1f" and t: "t = ?tg OR ucast v"
      using assms cbs by (auto simp: parse_asn1_tag_def cbs_bind_eq_Some Let_def split: if_splits)
    have lt: "unat v < 2 ^ 29" using v(2) by (simp add: word_less_nat_alt)
    then have "take_bit 29 v = v" by (simp add: word_unat_eq_iff unat_take_bit)
    then have bits: "i < 29 \<and> i < 32" if "bit v i" for i
      using that bit_take_bit_iff [of 29 v i] by simp
    have small: "take_bit 29 (ucast v :: uint32) = ucast v" "(ucast (ucast v :: uint32) :: uint64) = v"
      by (rule bit_eqI, use bits in \<open>auto simp: bit_simps\<close>)+
    have "\<not> (ucast v :: uint32) < 0x1f"
    proof -
      have "unat (ucast v :: uint32) = unat v" using small(2) unat_ucast_up [of "ucast v :: uint32", where 'b = 64] by simp
      then show ?thesis using v(3) by (simp add: word_less_nat_alt)
    qed
    moreover have "b AND 0x1f = 0x1f"
      using True by (simp add: word_unat_eq_iff unat_ucast_up)
    ultimately show ?thesis
      using cbs t tag_word [OF small(1), of b] small(2) byte_parts [of b] parse_base128_sound [OF v(1)]
      by (simp add: tag_bytes_def Let_def)
  qed
qed

lemma quintet_ucast:
  assumes "take_bit 5 (n :: uint32) = n"
  shows "take_bit 5 (ucast n :: byte) = ucast n" "(ucast (ucast n :: byte) :: uint32) = n"
proof -
  have n5: "i < 5 \<and> i < 8" if "bit n i" for i using that assms bit_take_bit_iff [of 5 n i] by simp
  show "take_bit 5 (ucast n :: byte) = ucast n" "(ucast (ucast n :: byte) :: uint32) = n"
    using n5 by (auto simp: bit_eq_iff bit_simps)
qed

lemma parse_asn1_tag_complete: "parse_asn1_tag (tag_bytes t @ rest) = (Some t, rest)"
proof -
  let ?n = "t AND CBS_ASN1_TAG_NUMBER_MASK"
  have bound: "unat ?n < 2 ^ 29" unfolding mask_bits by (simp add: unat_take_bit)
  show ?thesis
  proof (cases "?n < 0x1f")
    case True
    let ?x = "ucast ?n :: byte"
    have lt: "unat ?n < 31" using True by (simp add: word_less_nat_alt)
    then have "take_bit 5 ?n = ?n" by (intro take_bit_small) simp
    note x = quintet_ucast [OF this]
    note u = tag_unword [OF x(1), of t]
    have "?n \<noteq> 0x1f" using True by auto
    then show ?thesis
      using True u x(2) by (simp add: tag_bytes_def parse_asn1_tag_def cbs_bind_def cbs_return_def Let_def)
  next
    case False
    have "take_bit 5 (0x1f :: byte) = 0x1f" by simp
    note u = tag_unword [OF this, of t]
    have n: "unat (ucast ?n :: uint64) = unat ?n" "(ucast (ucast ?n :: uint64) :: uint32) = ?n"
      by (simp_all add: unat_ucast_up ucast_ucast_up)
    have "\<not> (ucast ?n :: uint64) > ucast CBS_ASN1_TAG_NUMBER_MASK" "\<not> (ucast ?n :: uint64) < 0x1f"
      using bound False n(1) by (simp_all add: word_less_nat_alt)
    then show ?thesis
      using False u n(2)
      by (simp add: tag_bytes_def parse_asn1_tag_def cbs_bind_def cbs_return_def Let_def parse_base128_complete)
  qed
qed

lemma parse_asn1_tag_iff: "parse_asn1_tag cbs = (Some t, rest) \<longleftrightarrow> cbs = tag_bytes t @ rest"
  using parse_asn1_tag_sound parse_asn1_tag_complete by blast

section \<open>DER elements\<close>

text \<open>The minimal length octets, for lengths below \<open>2\<^sup>3\<^sup>2\<close>.\<close>

definition len_octets :: "nat \<Rightarrow> nat" where
  "len_octets n = (if n < 2 ^ 8 then 1 else if n < 2 ^ 16 then 2 else if n < 2 ^ 24 then 3 else 4)"

definition length_bytes :: "nat \<Rightarrow> byte list" where
  "length_bytes n =
     (if n < 128 then [word_of_nat n]
      else (0x80 OR word_of_nat (len_octets n)) # be_bytes (len_octets n) (word_of_nat n))"

definition der :: "uint32 \<Rightarrow> byte list \<Rightarrow> byte list" where
  "der t content = tag_bytes t @ length_bytes (length content) @ content"

lemma len_octets_unique:
  "1 \<le> k \<Longrightarrow> k \<le> 4 \<Longrightarrow> n < 2 ^ (8 * k) \<Longrightarrow> (k = 1 \<or> 2 ^ (8 * (k - 1)) \<le> n) \<Longrightarrow> len_octets n = k"
proof -
  assume "1 \<le> k" "k \<le> 4" "n < 2 ^ (8 * k)" "k = 1 \<or> 2 ^ (8 * (k - 1)) \<le> n"
  moreover have "k = 1 \<or> k = 2 \<or> k = 3 \<or> k = 4" using \<open>1 \<le> k\<close> \<open>k \<le> 4\<close> by auto
  ultimately show ?thesis by (auto simp: len_octets_def)
qed

lemma len_octets_bounds: "n < 2 ^ 32 \<Longrightarrow> 1 \<le> len_octets n \<and> len_octets n \<le> 4 \<and> n < 2 ^ (8 * len_octets n)"
  "2 ^ (8 * (len_octets n - 1)) \<le> n \<or> len_octets n = 1"
  by (auto simp: len_octets_def)

lemma length_byte_split:
  assumes "1 \<le> k" and "k \<le> 4"
  shows "(0x80 OR word_of_nat k :: byte) AND 0x80 \<noteq> 0" "unat ((0x80 OR word_of_nat k :: byte) AND 0x7f) = k"
proof -
  have "k = 1 \<or> k = 2 \<or> k = 3 \<or> k = 4" using assms by auto
  then show "(0x80 OR word_of_nat k :: byte) AND 0x80 \<noteq> 0" "unat ((0x80 OR word_of_nat k :: byte) AND 0x7f) = k"
    by auto
qed

text \<open>The strict parser accepts exactly the DER elements: the tag, the length in its shortest form, and
  the content.\<close>

lemma element_complete:
  assumes "length content < 2 ^ 32" and "length (der t content @ rest) < 2 ^ 63"
  shows "CBS_get_any_asn1_element (der t content @ rest) =
    (Some (der t content, t, length (der t content) - length content), rest)"
proof (cases "length content < 128")
  case True
  have u: "unat (word_of_nat (length content) :: byte) = length content"
    using True by (simp add: unat_of_nat_small)
  then have "\<not> bit (word_of_nat (length content) :: byte) 7"
  proof -
    have "drop_bit 7 (word_of_nat (length content) :: byte) = 0"
      using True by (simp add: word_unat_eq_iff unat_drop_bit u)
    then show ?thesis by (simp add: bit_iff_odd_drop_bit)
  qed
  then have "(word_of_nat (length content) :: byte) AND 0x80 = 0" by (simp add: and_80_eq_0)
  then show ?thesis
    using True u
    by (simp add: CBS_get_any_asn1_element_def cbs_get_any_asn1_element_def der_def length_bytes_def
        parse_asn1_tag_complete Let_def cbs_bind_def CBS_get_bytes_def cbs_get_def cbs_return_def)
next
  case False
  let ?n = "length content" and ?k = "len_octets (length content)"
  let ?v = "word_of_nat (length content) :: uint64"
  have v: "unat ?v = ?n" using assms(1) by (simp add: unat_of_nat_small)
  note k = len_octets_bounds(1) [OF assms(1)]
  have "take_bit (8 * ?k) ?v = ?v" using k v by (simp add: word_unat_eq_iff unat_take_bit)
  then have get: "cbs_get_u ?k (be_bytes ?k ?v @ content @ rest) = (Some ?v, content @ rest)"
    using k by (simp add: cbs_get_u_iff)
  have "\<not> ?v < 128" using False v by (simp add: word_less_nat_alt)
  moreover have "drop_bit ((?k - 1) * 8) ?v \<noteq> 0"
  proof
    assume "drop_bit ((?k - 1) * 8) ?v = 0"
    then have "?n div 2 ^ ((?k - 1) * 8) = 0" by (metis unat_0 unat_drop_bit v)
    then have "?n < 2 ^ (8 * (?k - 1))" by (simp add: div_eq_0_iff mult.commute)
    then show False using len_octets_bounds(2) [of ?n] False by (auto simp: mult.commute)
  qed
  moreover have sum: "unat (?v + word_of_nat (Suc (length (tag_bytes t) + ?k))) = ?n + Suc (length (tag_bytes t) + ?k)"
  proof -
    have "Suc (length (tag_bytes t) + ?k) + ?n < 2 ^ 63"
      using assms(2) False by (simp add: der_def length_bytes_def)
    then have "unat (word_of_nat (Suc (length (tag_bytes t) + ?k)) :: uint64) = Suc (length (tag_bytes t) + ?k)"
      "Suc (length (tag_bytes t) + ?k) + ?n < 2 ^ 64"
      by (simp_all add: unat_of_nat_small del: of_nat_Suc)
    then show ?thesis using v by (simp add: unat_add_no_wrap del: of_nat_Suc)
  qed
  moreover from sum have "\<not> ?v + word_of_nat (Suc (length (tag_bytes t) + ?k)) < ?v"
    using v by (simp add: word_less_nat_alt del: of_nat_Suc)
  ultimately show ?thesis
    using False k length_byte_split [of ?k] get
    by (simp add: CBS_get_any_asn1_element_def cbs_get_any_asn1_element_def der_def length_bytes_def
        parse_asn1_tag_complete Let_def cbs_bind_def CBS_get_bytes_def cbs_get_def cbs_return_def del: of_nat_Suc of_nat_add)
qed

lemma prefix_split:
  assumes "P @ h = out @ rest" and "length out = length P + n"
  shows "\<exists>c. out = P @ c \<and> length c = n"
proof -
  have "out = take (length P + n) (P @ h)" using assms by simp
  then have "out = P @ take n h" by simp
  then show ?thesis using assms(2) by auto
qed

lemma der_intro:
  assumes "tag_bytes t @ lb @ h = out @ rest" and "length out = length (tag_bytes t) + length lb + n"
    and "lb = length_bytes n"
  shows "\<exists>content. out = der t content \<and> length content = n"
proof -
  obtain c where "out = (tag_bytes t @ lb) @ c" "length c = n"
    using prefix_split [of "tag_bytes t @ lb" h out rest n] assms(1,2) by auto
  then show ?thesis using assms(3) by (intro exI [of _ c]) (simp add: der_def)
qed

lemma low_byte: "unat (lb :: byte) < 128" if "lb AND 0x80 = 0"
  using that unat_take_bit [of 7 lb] cont_bit(2) [OF that] by (simp add: and_7F)

lemma element_sound:
  assumes "CBS_get_any_asn1_element cbs = (Some (out, t, hl), rest)" and "length cbs < 2 ^ 63"
  shows "\<exists>content. out = der t content \<and> cbs = out @ rest \<and> hl = length out - length content \<and> length content < 2 ^ 32"
proof -
  obtain b where run: "cbs_get_any_asn1_element False cbs = (Some (out, t, hl, b), rest)"
    using assms(1) by (auto simp: CBS_get_any_asn1_element_def cbs_bind_eq_Some)
  obtain t' hdr where t': "parse_asn1_tag cbs = (Some t', hdr)"
    using run by (cases "parse_asn1_tag cbs"; cases "fst (parse_asn1_tag cbs)") (auto simp: cbs_get_any_asn1_element_def)
  obtain lb h where h: "hdr = lb # h"
    using run t' by (cases hdr) (auto simp: cbs_get_any_asn1_element_def)
  have cbs: "cbs = tag_bytes t' @ lb # h" using t' h by (simp add: parse_asn1_tag_iff)
  let ?p = "length (tag_bytes t')"
  show ?thesis
  proof (cases "lb AND 0x80 = 0")
    case True
    then have r: "cbs = out @ rest" "length out = ?p + 1 + unat lb" "t = t'" "hl = ?p + 1"
      using run t' h cbs
      by (auto simp: cbs_get_any_asn1_element_def Let_def cbs_bind_eq_Some CBS_get_bytes_def cbs_get_eq_Some)
    have lb: "[lb] = length_bytes (unat lb)"
      using low_byte [OF True] by (simp add: length_bytes_def)
    have "tag_bytes t' @ [lb] @ h = out @ rest" "length out = ?p + length [lb] + unat lb"
      using cbs r by simp_all
    then obtain c where "out = der t' c" "length c = unat lb" using der_intro lb by blast
    then show ?thesis using r low_byte [OF True] by auto
  next
    case False
    let ?k = "unat (lb AND 0x7f)"
    have k: "1 \<le> ?k" "?k \<le> 4"
      using run t' h False by (auto simp: cbs_get_any_asn1_element_def Let_def split: if_splits)
    then obtain v h3 where v: "cbs_get_u ?k h = (Some v, h3)"
      using run t' h False
      by (cases "cbs_get_u ?k h"; cases "fst (cbs_get_u ?k h)")
         (auto simp: cbs_get_any_asn1_element_def Let_def split: if_splits)
    have h3: "h = be_bytes ?k v @ h3" and tb: "take_bit (8 * ?k) v = v"
      using v k by (simp_all add: cbs_get_u_iff)
    let ?w = "word_of_nat (?p + 1 + ?k) :: uint64"
    have min: "\<not> v < 128" "drop_bit ((?k - 1) * 8) v \<noteq> 0" and no: "\<not> v + ?w < v"
      and r: "cbs = out @ rest" "length out = unat (v + ?w)" "t = t'" "hl = ?p + 1 + ?k"
      using run t' h v False k cbs
      by (auto simp: cbs_get_any_asn1_element_def Let_def cbs_bind_eq_Some CBS_get_bytes_def cbs_get_eq_Some
          split: if_splits)
    have w: "unat ?w = ?p + 1 + ?k"
      using assms(2) cbs h3 k by (simp add: unat_of_nat_small del: of_nat_add of_nat_Suc)
    have len: "length out = ?p + length (lb # be_bytes ?k v) + unat v"
      using no w r(2) by (simp add: overflow_test unat_add_no_wrap)
    have "unat (take_bit (8 * ?k) v) < 2 ^ (8 * ?k)" by (simp add: unat_take_bit)
    then have n: "unat v < 2 ^ (8 * ?k)" unfolding tb .
    have "len_octets (unat v) = ?k"
    proof (rule len_octets_unique [OF k n])
      have "unat v div 2 ^ ((?k - 1) * 8) \<noteq> 0"
        using min(2) by (simp add: word_unat_eq_iff unat_drop_bit)
      then show "?k = 1 \<or> 2 ^ (8 * (?k - 1)) \<le> unat v" by (simp add: div_eq_0_iff mult.commute)
    qed
    moreover have "0x80 OR word_of_nat ?k = lb"
      using cont_bit(1) [OF False] by (simp add: or.commute)
    moreover have "\<not> unat v < 128" using min(1) by (simp add: word_less_nat_alt)
    ultimately have lb: "lb # be_bytes ?k v = length_bytes (unat v)" by (simp add: length_bytes_def)
    have "(2::nat) ^ (8 * ?k) \<le> 2 ^ 32" using k(2) by (intro power_increasing) auto
    then have "unat v < 2 ^ 32" using n by linarith
    moreover have "tag_bytes t' @ (lb # be_bytes ?k v) @ h3 = out @ rest" using cbs h3 r by simp
    then obtain c where "out = der t' c" "length c = unat v" using der_intro len lb by blast
    ultimately show ?thesis using r len by auto
  qed
qed

section \<open>Consequences\<close>

lemma CBS_skip_simp: "CBS_skip n out = (if length out < n then (None, out) else (Some (), drop n out))"
  by (simp add: CBS_skip_def cbs_bind_def cbs_get_def cbs_return_def)

lemma CBS_get_asn1_iff:
  assumes "length cbs < 2 ^ 63"
  shows "CBS_get_asn1 t cbs = (Some content, rest) \<longleftrightarrow> cbs = der t content @ rest \<and> length content < 2 ^ 32"
proof
  assume "CBS_get_asn1 t cbs = (Some content, rest)"
  then obtain out hl where e: "CBS_get_any_asn1_element cbs = (Some (out, t, hl), rest)" and s: "drop hl out = content"
    by (auto simp: CBS_get_asn1_def cbs_get_asn1_def cbs_bind_eq_Some CBS_skip_simp split: if_splits)
  obtain c where "out = der t c" "cbs = out @ rest" "hl = length out - length c" "length c < 2 ^ 32"
    using element_sound [OF e assms] by blast
  then show "cbs = der t content @ rest \<and> length content < 2 ^ 32" using s by (simp add: der_def)
next
  assume a: "cbs = der t content @ rest \<and> length content < 2 ^ 32"
  then have "CBS_get_any_asn1_element cbs = (Some (der t content, t, length (der t content) - length content), rest)"
    using assms element_complete [of content t rest] by simp
  then show "CBS_get_asn1 t cbs = (Some content, rest)"
    by (simp add: CBS_get_asn1_def cbs_get_asn1_def cbs_bind_def CBS_skip_simp cbs_return_def der_def)
qed

text \<open>Unsigned integers: the shortest big-endian form whose first bit is clear.\<close>

definition uint_content :: "uint64 \<Rightarrow> byte list" where
  "uint_content v =
     (let bs = dropWhile (\<lambda>b. b = 0) (be_bytes 8 v)
      in if bs = [] then [0] else if hd bs AND 0x80 \<noteq> 0 then 0 # bs else bs)"

lemma be_value_Cons: "length xs < 8 \<Longrightarrow> be_value (b # xs) = push_bit (8 * length xs) (ucast b) OR be_value xs"
proof (induction xs rule: rev_induct)
  case Nil
  then show ?case by (simp add: be_value_def)
next
  case (snoc c xs)
  have "be_value (b # xs @ [c]) = push_bit 8 (be_value (b # xs)) OR ucast c"
    using be_value_simps(2) [of "b # xs" c] by simp
  then show ?case using snoc by (simp add: push_bit_or or.assoc)
qed

lemma be_value_0 [simp]: "be_value (0 # xs) = be_value xs"
  by (simp add: be_value_def)

lemma be_value_dropWhile: "be_value (dropWhile (\<lambda>b. b = 0) xs) = be_value xs"
  by (induction xs) simp_all

lemma uint64_loop_be_value:
  "length xs \<le> k \<Longrightarrow> take_bit (64 - 8 * k) out = out \<Longrightarrow> k \<le> 8 \<Longrightarrow>
     uint64_loop out xs = Some (foldl (\<lambda>r b. push_bit 8 r OR ucast b) out xs)"
proof (induction xs arbitrary: out k)
  case (Cons b xs)
  then obtain j where k: "k = Suc j" by (cases k) auto
  have top: "i < 64 - 8 * k" if "bit out i" for i
    using that Cons.prems(2) bit_take_bit_iff [of "64 - 8 * k" out i] by simp
  have "drop_bit 56 out = 0"
    by (rule bit_eqI) (use top k in \<open>fastforce simp: bit_simps\<close>)
  moreover have "take_bit (64 - 8 * j) (push_bit 8 out OR ucast b) = push_bit 8 out OR ucast b"
  proof (rule bit_eqI)
    fix n
    show "bit (take_bit (64 - 8 * j) (push_bit 8 out OR ucast b)) n = bit (push_bit 8 out OR ucast b) n"
      using top [of "n - 8"] k Cons.prems(3) by (auto simp: bit_simps dest: bit_imp_le_length)
  qed
  ultimately show ?case using Cons.IH [of j] Cons.prems k by simp
qed simp

lemma uint64_loop_value: "length xs \<le> 8 \<Longrightarrow> uint64_loop 0 xs = Some (be_value xs)"
  using uint64_loop_be_value [of xs 8 0] by (simp add: be_value_def)

lemma uint64_loop_length:
  "uint64_loop out xs = Some v \<Longrightarrow> 2 ^ (8 * m) \<le> unat out \<Longrightarrow> length xs + m \<le> 7 \<or> xs = []"
proof (induction xs arbitrary: out m)
  case (Cons b xs)
  let ?o = "push_bit 8 out OR ucast b"
  have "drop_bit 56 out = 0" using Cons.prems(1) by (simp split: if_splits)
  then have "unat out div 2 ^ 56 = 0" by (metis unat_0 unat_drop_bit)
  then have lt: "unat out < 2 ^ 56" by (simp add: div_eq_0_iff)
  then have "(2::nat) ^ (8 * m) < 2 ^ 56" using Cons.prems(2) by linarith
  then have m: "m < 7" using power_less_imp_less_exp [of "2::nat" "8 * m" 56] by simp
  have "drop_bit 8 ?o = out"
  proof (rule bit_eqI)
    fix n
    have "bit out n \<Longrightarrow> n < 56"
      using lt take_bit_small [of out 56] bit_take_bit_iff [of 56 out n] by simp
    then show "bit (drop_bit 8 ?o) n = bit out n" by (auto simp: bit_simps dest: bit_imp_le_length)
  qed
  then have "unat ?o div 256 = unat out" using unat_drop_bit [of 8 ?o] by simp
  then have "2 ^ (8 * m) * 256 \<le> unat ?o" using Cons.prems(2) by linarith
  then have "2 ^ (8 * Suc m) \<le> unat ?o" by (simp add: power_add)
  moreover have "uint64_loop ?o xs = Some v" using Cons.prems(1) by (simp split: if_splits)
  ultimately show ?case using Cons.IH [of ?o "Suc m"] m by auto
qed simp

lemma be_bytes_8: "length xs \<le> 8 \<Longrightarrow> be_bytes 8 (be_value xs) = replicate (8 - length xs) 0 @ xs"
proof -
  assume len: "length xs \<le> 8"
  have "be_value (replicate k 0 @ xs) = be_value xs" for k by (induction k) simp_all
  then show ?thesis using be_bytes_be_value [of "replicate (8 - length xs) 0 @ xs"] len by simp
qed

lemma dropWhile_be_bytes:
  assumes "length xs \<le> 8" and "xs = [] \<or> hd xs \<noteq> 0"
  shows "dropWhile (\<lambda>b. b = 0) (be_bytes 8 (be_value xs)) = xs"
  unfolding be_bytes_8 [OF assms(1)] using assms(2) by (cases xs) (simp_all add: dropWhile_append)

lemma uint64_content_sound:
  assumes "CBS_is_unsigned_asn1_integer xs" and "uint64_loop 0 xs = Some v"
  shows "xs = uint_content v"
proof (cases xs)
  case Nil
  then show ?thesis using assms(1) by (simp add: CBS_is_unsigned_asn1_integer_def CBS_is_valid_asn1_integer_def)
next
  case (Cons a ys)
  have a: "a AND 0x80 = 0"
    using assms(1) Cons by (cases ys)
      (auto simp: CBS_is_unsigned_asn1_integer_def CBS_is_valid_asn1_integer_def Let_def split: if_splits)
  have short: "length zs < 8" if "uint64_loop 0 (c # zs) = Some v" "c \<noteq> 0" for c zs
  proof -
    have "uint64_loop (ucast c) zs = Some v" using that by simp
    moreover have "2 ^ (8 * 0) \<le> unat (ucast c :: uint64)"
      using that(2) by (simp add: unat_ucast_up Suc_le_eq unat_gt_0)
    ultimately show ?thesis using uint64_loop_length [of "ucast c" zs v 0] by auto
  qed
  show ?thesis
  proof (cases "a = 0")
    case False
    then have "length xs \<le> 8" using short Cons assms(2) by fastforce
    then have "uint64_loop 0 xs = Some (be_value xs)" "dropWhile (\<lambda>b. b = 0) (be_bytes 8 (be_value xs)) = xs"
      using Cons False by (intro uint64_loop_value dropWhile_be_bytes; simp)+
    then have "v = be_value xs" "dropWhile (\<lambda>b. b = 0) (be_bytes 8 (be_value xs)) = xs"
      using assms(2) by simp_all
    then show ?thesis using Cons a by (simp add: uint_content_def)
  next
    case True
    show ?thesis
    proof (cases ys)
      case Nil
      then have "v = 0" using True Cons assms(2) by simp
      then show ?thesis using True Cons Nil be_bytes_8 [of "[]"] by (simp add: uint_content_def)
    next
      case (Cons c zs)
      have c: "c AND 0x80 \<noteq> 0"
        using assms(1) \<open>xs = a # ys\<close> Cons True
        by (auto simp: CBS_is_unsigned_asn1_integer_def CBS_is_valid_asn1_integer_def Let_def split: if_splits)
      then have "c \<noteq> 0" by auto
      have run: "uint64_loop 0 ys = Some v" using assms(2) \<open>xs = a # ys\<close> True by simp
      then have "length ys \<le> 8" using short Cons \<open>c \<noteq> 0\<close> by fastforce
      then have "uint64_loop 0 ys = Some (be_value ys)" "dropWhile (\<lambda>b. b = 0) (be_bytes 8 (be_value ys)) = ys"
        using Cons \<open>c \<noteq> 0\<close> by (intro uint64_loop_value dropWhile_be_bytes; simp)+
      then have "v = be_value ys" "dropWhile (\<lambda>b. b = 0) (be_bytes 8 (be_value ys)) = ys"
        using run by simp_all
      then show ?thesis using \<open>xs = a # ys\<close> Cons True c by (simp add: uint_content_def)
    qed
  qed
qed

lemma uint64_content_complete: "CBS_is_unsigned_asn1_integer (uint_content v)" "uint64_loop 0 (uint_content v) = Some v"
proof -
  let ?bs = "dropWhile (\<lambda>b. b = 0) (be_bytes 8 v)"
  have v: "be_value ?bs = v" by (simp add: be_value_dropWhile be_value_be_bytes take_bit_word_eq_self)
  have len: "length ?bs \<le> 8" using length_dropWhile_le [of "\<lambda>b. b = 0" "be_bytes 8 v"] by simp
  have hd: "?bs \<noteq> [] \<Longrightarrow> hd ?bs \<noteq> 0" using hd_dropWhile [of "\<lambda>b. b = 0" "be_bytes 8 v"] by simp
  have run: "uint64_loop 0 ?bs = Some v" using uint64_loop_value [OF len] v by simp
  show "uint64_loop 0 (uint_content v) = Some v"
    using run v by (cases ?bs) (auto simp: uint_content_def Let_def simp del: dropWhile_eq_Nil_conv)
  show "CBS_is_unsigned_asn1_integer (uint_content v)"
  proof (cases ?bs)
    case Nil
    then show ?thesis
      by (simp add: uint_content_def CBS_is_unsigned_asn1_integer_def CBS_is_valid_asn1_integer_def)
  next
    case (Cons b bs)
    then show ?thesis
      using hd by (cases bs)
        (auto simp: uint_content_def CBS_is_unsigned_asn1_integer_def CBS_is_valid_asn1_integer_def Let_def)
  qed
qed

lemma length_uint_content: "length (uint_content v) \<le> 9"
  using length_dropWhile_le [of "\<lambda>b. b = 0" "be_bytes 8 v"] by (simp add: uint_content_def Let_def)

section \<open>Properties\<close>

text \<open>C27. The strict ASN.1 parser accepts exactly DER: it succeeds exactly on an identifier in its
  shortest form, a length in its shortest form and that many content bytes, returns that element,
  its tag and its header's length, and leaves exactly what follows.\<close>

theorem der_parser_exact:
  assumes "length cbs < 2 ^ 63"
  shows "CBS_get_any_asn1_element cbs = (Some (out, t, hl), rest) \<longleftrightarrow>
    (\<exists>content. out = der t content \<and> cbs = out @ rest \<and> hl = length out - length content \<and> length content < 2 ^ 32)"
proof
  assume "CBS_get_any_asn1_element cbs = (Some (out, t, hl), rest)"
  then show "\<exists>content. out = der t content \<and> cbs = out @ rest \<and> hl = length out - length content \<and> length content < 2 ^ 32"
    using assms by (rule element_sound)
next
  assume "\<exists>content. out = der t content \<and> cbs = out @ rest \<and> hl = length out - length content \<and> length content < 2 ^ 32"
  then obtain content where "out = der t content" "cbs = der t content @ rest"
      "hl = length (der t content) - length content" "length content < 2 ^ 32" by blast
  then show "CBS_get_any_asn1_element cbs = (Some (out, t, hl), rest)"
    using element_complete [of content t rest] assms by simp
qed

theorem der_parser_exact_witness:
  "CBS_get_any_asn1_element [0x04, 0x02, 0xAA, 0xBB, 0xCC] = (Some ([0x04, 0x02, 0xAA, 0xBB], 4, 2), [0xCC])"
proof (rule der_parser_exact [THEN iffD2])
  have "der 4 [0xAA, 0xBB] = [0x04, 0x02, 0xAA, 0xBB]" by code_simp
  then show "\<exists>content. [0x04, 0x02, 0xAA, 0xBB] = der 4 content \<and>
      [0x04, 0x02, 0xAA, 0xBB, 0xCC] = [0x04, 0x02, 0xAA, 0xBB] @ [0xCC :: byte] \<and>
      2 = length [0x04, 0x02, 0xAA, 0xBB :: byte] - length content \<and> length content < 2 ^ 32"
    by (intro exI [of _ "[0xAA, 0xBB]"]) simp
qed simp

text \<open>No DER element is a prefix of another: the first element of a string is determined by the string.\<close>

theorem der_prefix_free:
  assumes "der t c @ r = der t' c' @ r'" and "length (der t c @ r) < 2 ^ 63"
    and "length c < 2 ^ 32" and "length c' < 2 ^ 32"
  shows "t = t' \<and> c = c' \<and> r = r'"
proof -
  have len: "length (der t' c' @ r') < 2 ^ 63" using assms(1,2) by metis
  have "CBS_get_asn1 t (der t c @ r) = (Some c, r)" "CBS_get_asn1 t' (der t' c' @ r') = (Some c', r')"
    using CBS_get_asn1_iff [OF assms(2), of t c r] CBS_get_asn1_iff [OF len, of t' c' r'] assms(3,4) by blast+
  moreover have "t = t'"
    using element_complete [OF assms(3,2)] element_complete [OF assms(4) len] unfolding assms(1) by (metis Pair_inject option.inject)
  ultimately show ?thesis using assms(1) by (metis Pair_inject option.inject)
qed

theorem der_prefix_free_witness: "(4 :: uint32) = 4 \<and> [1 :: byte] = [1] \<and> [2, 3 :: byte] = [2, 3]"
  by (rule der_prefix_free) (simp_all add: der_def tag_bytes_def length_bytes_def)

text \<open>C29. \<^verbatim>\<open>CBS_get_asn1_uint64\<close> succeeds exactly on the INTEGER elements whose content is the shortest
  encoding of an unsigned 64-bit number, and returns that number.\<close>

theorem asn1_uint64_exact:
  assumes "length cbs < 2 ^ 63"
  shows "CBS_get_asn1_uint64 cbs = (Some v, rest) \<longleftrightarrow> cbs = der CBS_ASN1_INTEGER (uint_content v) @ rest"
proof
  assume "CBS_get_asn1_uint64 cbs = (Some v, rest)"
  then obtain c where c: "CBS_get_asn1 CBS_ASN1_INTEGER cbs = (Some c, rest)"
      "CBS_is_unsigned_asn1_integer c" "uint64_loop 0 c = Some v"
    by (auto simp: CBS_get_asn1_uint64_def cbs_bind_eq_Some split: if_splits option.splits)
  then show "cbs = der CBS_ASN1_INTEGER (uint_content v) @ rest"
    using uint64_content_sound [OF c(2,3)] CBS_get_asn1_iff [OF assms] by simp
next
  assume "cbs = der CBS_ASN1_INTEGER (uint_content v) @ rest"
  then have "CBS_get_asn1 CBS_ASN1_INTEGER cbs = (Some (uint_content v), rest)"
    using assms length_uint_content [of v] by (simp add: CBS_get_asn1_iff)
  then show "CBS_get_asn1_uint64 cbs = (Some v, rest)"
    using uint64_content_complete [of v]
    by (simp add: CBS_get_asn1_uint64_def cbs_bind_def cbs_return_def)
qed

theorem asn1_uint64_exact_witness:
  "CBS_get_asn1_uint64 [0x02, 0x02, 0x00, 0x80, 0x07] = (Some 128, [0x07]) \<longleftrightarrow>
     [0x02, 0x02, 0x00, 0x80, 0x07] = der CBS_ASN1_INTEGER (uint_content 128) @ [0x07]"
  by (rule asn1_uint64_exact) simp

text \<open>Length-prefixed strings: with a prefix of one, two or three bytes, parsing succeeds exactly
  when the input is the big-endian length followed by that many bytes and the rest.\<close>

theorem length_prefixed_exact:
  assumes "k \<le> 3"
  shows "cbs_get_length_prefixed k cbs = (Some out, rest) \<longleftrightarrow>
    cbs = be_bytes k (word_of_nat (length out)) @ out @ rest \<and> length out < 2 ^ (8 * k)"
proof
  assume "cbs_get_length_prefixed k cbs = (Some out, rest)"
  then obtain v mid where v: "cbs_get_u k cbs = (Some v, mid)" "mid = out @ rest" "length out = unat v"
    by (auto simp: cbs_get_length_prefixed_def cbs_bind_eq_Some CBS_get_bytes_def cbs_get_eq_Some)
  have u: "cbs = be_bytes k v @ mid" "take_bit (8 * k) v = v"
    using v(1) assms by (simp_all add: cbs_get_u_iff)
  have "unat (take_bit (8 * k) v) < 2 ^ (8 * k)" by (simp add: unat_take_bit)
  then have "unat v < 2 ^ (8 * k)" unfolding u(2) .
  then show "cbs = be_bytes k (word_of_nat (length out)) @ out @ rest \<and> length out < 2 ^ (8 * k)"
    using u(1) v(2,3) by simp
next
  assume a: "cbs = be_bytes k (word_of_nat (length out)) @ out @ rest \<and> length out < 2 ^ (8 * k)"
  have "(2::nat) ^ (8 * k) \<le> 2 ^ 24" using assms by (intro power_increasing) auto
  then have len: "unat (word_of_nat (length out) :: uint64) = length out"
    using a by (intro unat_of_nat_small) simp
  then have "take_bit (8 * k) (word_of_nat (length out) :: uint64) = word_of_nat (length out)"
    using a by (intro take_bit_small) simp
  then have "cbs_get_u k cbs = (Some (word_of_nat (length out)), out @ rest)"
    using a assms by (simp add: cbs_get_u_iff)
  then show "cbs_get_length_prefixed k cbs = (Some out, rest)"
    using len by (simp add: cbs_get_length_prefixed_def cbs_bind_def CBS_get_bytes_def cbs_get_def)
qed

theorem length_prefixed_exact_witness:
  "cbs_get_length_prefixed 2 [0x00, 0x01, 0xAA, 0xBB] = (Some [0xAA], [0xBB]) \<longleftrightarrow>
     [0x00, 0x01, 0xAA, 0xBB] = be_bytes 2 (word_of_nat (length [0xAA :: byte])) @ [0xAA] @ [0xBB] \<and>
     length [0xAA :: byte] < 2 ^ (8 * 2)"
  by (rule length_prefixed_exact) simp

text \<open>The lenient (BER) parser extends the strict one: on every input that the strict one accepts
  it returns the same element, and reports that no BER-only form was used.\<close>

theorem ber_extends_der:
  assumes "CBS_get_any_asn1_element cbs = (Some (out, t, hl), rest)"
  shows "CBS_get_any_ber_asn1_element cbs = (Some (out, t, hl, False), rest)"
proof -
  obtain b where "cbs_get_any_asn1_element False cbs = (Some (out, t, hl, b), rest)"
    using assms by (auto simp: CBS_get_any_asn1_element_def cbs_bind_eq_Some)
  then show ?thesis
    unfolding CBS_get_any_ber_asn1_element_def cbs_get_any_asn1_element_def Let_def
    by (auto simp: cbs_bind_eq_Some split: option.splits prod.splits if_splits)
qed

theorem ber_extends_der_witness:
  "CBS_get_any_ber_asn1_element [0x04, 0x01, 0xAA, 0xBB] = (Some ([0x04, 0x01, 0xAA], 4, 2, False), [0xBB])"
proof (rule ber_extends_der)
  show "CBS_get_any_asn1_element [0x04, 0x01, 0xAA, 0xBB] = (Some ([0x04, 0x01, 0xAA], 4, 2), [0xBB])"
    by code_simp
qed

text \<open>The constant-time comparison of memory decides equality.\<close>

theorem CBS_mem_equal_correct: "CBS_mem_equal cbs data \<longleftrightarrow> cbs = data"
proof -
  have or0: "x OR y = 0 \<longleftrightarrow> x = 0 \<and> y = 0" for x y :: byte
    by (simp add: or_eq_0_iff)
  have "length xs = length ys \<Longrightarrow> CRYPTO_memcmp xs ys acc = 0 \<longleftrightarrow> acc = 0 \<and> xs = ys" for xs ys acc
  proof (induction xs ys arbitrary: acc rule: list_induct2)
    case (Cons x xs y ys)
    have "x XOR y = 0 \<longleftrightarrow> x = y" by (simp add: bit_eq_iff bit_xor_iff)
    then show ?case using Cons.IH by (auto simp: or0)
  qed simp
  then show ?thesis by (auto simp: CBS_mem_equal_def)
qed


end
