(* ===== verification/Comparison.thy ===== *)
theory Comparison
  imports Prelude "HOL-Library.Multiset"
begin

text \<open>
  Three-way comparison functions as C code passes them around, and what the code relies on of the C library's
  \<^verbatim>\<open>qsort\<close>: the result is a permutation sorted by the comparison. Insertion sort is one such function; if only
  equal elements compare equal, every such function gives the same result.
\<close>

text \<open>A three-way comparison as a total preorder, and lists sorted by it.\<close>

definition cmp_ok :: "('a \<Rightarrow> 'a \<Rightarrow> int) \<Rightarrow> bool" where
  "cmp_ok cmp \<longleftrightarrow> (\<forall>a b. cmp a b < 0 \<longleftrightarrow> cmp b a > 0) \<and> (\<forall>a b c. cmp a b \<le> 0 \<and> cmp b c \<le> 0 \<longrightarrow> cmp a c \<le> 0)"

definition cmp_sorted :: "('a \<Rightarrow> 'a \<Rightarrow> int) \<Rightarrow> 'a list \<Rightarrow> bool" where
  "cmp_sorted cmp xs \<longleftrightarrow> sorted_wrt (\<lambda>a b. cmp a b \<le> 0) xs"

lemma cmp_antisym:
  assumes "cmp_ok cmp"
  shows "cmp a b \<le> 0 \<longleftrightarrow> 0 \<le> cmp b a" "cmp a b = 0 \<longleftrightarrow> cmp b a = 0"
proof -
  have "cmp a b < 0 \<longleftrightarrow> cmp b a > 0" "cmp b a < 0 \<longleftrightarrow> cmp a b > 0" using assms by (auto simp: cmp_ok_def)
  then show "cmp a b \<le> 0 \<longleftrightarrow> 0 \<le> cmp b a" "cmp a b = 0 \<longleftrightarrow> cmp b a = 0" by linarith+
qed

lemma cmp_trans: "cmp_ok cmp \<Longrightarrow> cmp a b \<le> 0 \<Longrightarrow> cmp b c \<le> 0 \<Longrightarrow> cmp a c \<le> 0"
  unfolding cmp_ok_def by blast

definition qsort_ok :: "(('a \<Rightarrow> 'a \<Rightarrow> int) \<Rightarrow> 'a list \<Rightarrow> 'a list) \<Rightarrow> bool" where
  "qsort_ok qsort \<longleftrightarrow> (\<forall>cmp xs. cmp_ok cmp \<longrightarrow> mset (qsort cmp xs) = mset xs \<and> cmp_sorted cmp (qsort cmp xs))"

fun cmp_insert :: "('a \<Rightarrow> 'a \<Rightarrow> int) \<Rightarrow> 'a \<Rightarrow> 'a list \<Rightarrow> 'a list" where
  "cmp_insert cmp x [] = [x]"
| "cmp_insert cmp x (y # ys) = (if cmp x y \<le> 0 then x # y # ys else y # cmp_insert cmp x ys)"

definition insertion_sort :: "('a \<Rightarrow> 'a \<Rightarrow> int) \<Rightarrow> 'a list \<Rightarrow> 'a list" where
  "insertion_sort cmp xs = foldr (cmp_insert cmp) xs []"

lemma mset_cmp_insert [simp]: "mset (cmp_insert cmp x xs) = add_mset x (mset xs)"
  by (induction xs) simp_all

lemma sorted_cmp_insert:
  assumes ok: "cmp_ok cmp"
  shows "cmp_sorted cmp xs \<Longrightarrow> cmp_sorted cmp (cmp_insert cmp x xs)"
proof (induction xs)
  case (Cons y ys)
  have set: "set (cmp_insert cmp x ys) = insert x (set ys)" by (metis mset_cmp_insert set_mset_add_mset_insert set_mset_mset)
  show ?case
  proof (cases "cmp x y \<le> 0")
    case True
    then show ?thesis using Cons.prems cmp_trans [OF ok True] by (auto simp: cmp_sorted_def)
  next
    case False
    then have "cmp y x \<le> 0" using cmp_antisym(1) [OF ok, of y x] by simp
    then show ?thesis using False Cons set by (auto simp: cmp_sorted_def)
  qed
qed (simp add: cmp_sorted_def)

lemma insertion_sort_ok: "qsort_ok (insertion_sort :: ('a \<Rightarrow> 'a \<Rightarrow> int) \<Rightarrow> 'a list \<Rightarrow> 'a list)"
proof -
  have "mset (foldr (cmp_insert cmp) xs []) = mset xs" for cmp :: "'a \<Rightarrow> 'a \<Rightarrow> int" and xs
    by (induction xs) simp_all
  moreover have "cmp_sorted cmp (foldr (cmp_insert cmp) xs [])" if "cmp_ok cmp" for cmp :: "'a \<Rightarrow> 'a \<Rightarrow> int" and xs
    by (induction xs) (simp_all add: sorted_cmp_insert [OF that], simp add: cmp_sorted_def)
  ultimately show ?thesis by (simp add: qsort_ok_def insertion_sort_def)
qed

lemma qsort_unique:
  fixes cmp :: "'a \<Rightarrow> 'a \<Rightarrow> int"
  assumes q: "qsort_ok qsort" and ok: "cmp_ok cmp" and eq: "\<And>a b. cmp a b = 0 \<Longrightarrow> a = b"
  shows "qsort cmp xs = insertion_sort cmp xs"
proof -
  have unique: "xs = ys" if "cmp_sorted cmp xs" "cmp_sorted cmp ys" "mset xs = mset ys" for xs ys
    using that
  proof (induction xs arbitrary: ys)
    case (Cons x xs)
    obtain y ys' where ys: "ys = y # ys'" using Cons.prems(3) by (cases ys) auto
    have "x = y"
    proof (rule ccontr)
      assume "x \<noteq> y"
      then have "x \<in> set ys'" "y \<in> set xs"
        using Cons.prems(3) ys by (metis mset_eq_setD list.set_intros(1) set_ConsD)+
      then have "cmp x y \<le> 0" "cmp y x \<le> 0" using Cons.prems(1,2) ys by (auto simp: cmp_sorted_def)
      then have "cmp x y = 0" using cmp_antisym(1) [OF ok, of x y] cmp_antisym(1) [OF ok, of y x] by linarith
      then show False using eq \<open>x \<noteq> y\<close> by blast
    qed
    then show ?case using Cons.IH [of ys'] Cons.prems ys by (simp add: cmp_sorted_def)
  qed simp
  show ?thesis
    using q insertion_sort_ok [where 'a = 'a] ok by (intro unique) (simp_all add: qsort_ok_def)
qed

end
