(* ===== verification/Cbb.thy ===== *)
theory Cbb
  imports Cbs Comparison
begin

text \<open>
  BoringSSL's builder of byte strings (crypto/bytestring/cbb.c). The objects that write to one buffer
  form a chain: the root, its child, the child's child, and so on, each child with a pending length
  prefix in the buffer. The state of a chain is the buffer and the list of the children; a \<^verbatim>\<open>CBB\<close> is
  named by its depth in the chain, 0 for the root. A flushed child has no buffer any more: its depth is
  beyond the end of the list, and every operation on it that begins with \<^verbatim>\<open>CBB_flush\<close> fails, as in the code.

  Memory comes from a parameter, the result of \<^verbatim>\<open>OPENSSL_malloc\<close> and \<^verbatim>\<open>OPENSSL_realloc\<close>: a block of
  the given size with any content, or \<open>None\<close>.
\<close>

section \<open>The buffer\<close>

type_synonym allocator = "size_t \<Rightarrow> byte list option"

definition allocator_ok :: "allocator \<Rightarrow> bool" where
  "allocator_ok A \<longleftrightarrow> (\<forall>n bs. A n = Some bs \<longrightarrow> length bs = unat n)"

record cbb_buffer_st =
  b_buf :: "byte list"
  b_len :: size_t
  b_cap :: size_t
  can_resize :: bool
  b_error :: bool

record cbb_child =
  c_offset :: size_t
  pending_len_len :: nat
  pending_is_asn1 :: bool

record CBB =
  cbb_base :: "cbb_buffer_st option"
  children :: "cbb_child list"

definition CBB_zero :: CBB where
  "CBB_zero = \<lparr>cbb_base = None, children = []\<rparr>"

definition cbb_init :: "byte list \<Rightarrow> size_t \<Rightarrow> CBB" where
  "cbb_init buf cap = \<lparr>cbb_base = Some \<lparr>b_buf = buf, b_len = 0, b_cap = cap, can_resize = True, b_error = False\<rparr>,
     children = []\<rparr>"

text \<open>\<open>got_base\<close>: the \<^verbatim>\<open>struct cbb_buffer_st\<close> itself could be allocated.\<close>

definition CBB_init :: "allocator \<Rightarrow> bool \<Rightarrow> size_t \<Rightarrow> bool \<times> CBB" where
  "CBB_init A got_base initial_capacity =
     (case A initial_capacity of
        None \<Rightarrow> if initial_capacity > 0 then (False, CBB_zero)
                else if got_base then (True, cbb_init [] initial_capacity) else (False, CBB_zero)
      | Some buf \<Rightarrow> if got_base then (True, cbb_init buf initial_capacity) else (False, CBB_zero))"

definition CBB_init_fixed :: "bool \<Rightarrow> byte list \<Rightarrow> size_t \<Rightarrow> bool \<times> CBB" where
  "CBB_init_fixed got_base buf len =
     (if got_base
      then (True, (cbb_init buf len)\<lparr>cbb_base := Some \<lparr>b_buf = buf, b_len = 0, b_cap = len, can_resize = False, b_error = False\<rparr>\<rparr>)
      else (False, CBB_zero))"

definition CBB_cleanup :: "nat \<Rightarrow> CBB \<Rightarrow> CBB" where
  "CBB_cleanup k c = (if k \<noteq> 0 then c else c\<lparr>cbb_base := None\<rparr>)"

definition cbb_buffer_reserve :: "allocator \<Rightarrow> size_t \<Rightarrow> cbb_buffer_st \<Rightarrow> bool \<times> cbb_buffer_st" where
  "cbb_buffer_reserve A len b =
     (let newlen = b_len b + len; err = (False, b\<lparr>b_error := True\<rparr>) in
      if newlen < b_len b then err
      else if newlen > b_cap b then
        if \<not> can_resize b then err
        else
          (let newcap = (if b_cap b * 2 < b_cap b \<or> b_cap b * 2 < newlen then newlen else b_cap b * 2) in
           case A newcap of
             None \<Rightarrow> err
           | Some newbuf \<Rightarrow> (True, b\<lparr>b_buf := put_at newbuf 0 (b_buf b), b_cap := newcap\<rparr>))
      else (True, b))"

text \<open>The space that \<^verbatim>\<open>cbb_buffer_add\<close> hands out starts at the old length.\<close>

definition cbb_buffer_add :: "allocator \<Rightarrow> size_t \<Rightarrow> cbb_buffer_st \<Rightarrow> bool \<times> cbb_buffer_st" where
  "cbb_buffer_add A len b =
     (case cbb_buffer_reserve A len b of
        (False, b) \<Rightarrow> (False, b)
      | (True, b) \<Rightarrow> (True, b\<lparr>b_len := b_len b + len\<rparr>))"

text \<open>\<^verbatim>\<open>cbb_buffer_add\<close> and a copy of \<open>data\<close> into the space it handed out.\<close>

definition add_and_copy :: "allocator \<Rightarrow> byte list \<Rightarrow> cbb_buffer_st \<Rightarrow> bool \<times> cbb_buffer_st" where
  "add_and_copy A data b =
     (case cbb_buffer_add A (word_of_nat (length data)) b of
        (False, b') \<Rightarrow> (False, b')
      | (True, b') \<Rightarrow> (True, b'\<lparr>b_buf := put_at (b_buf b') (unat (b_len b)) data\<rparr>))"

text \<open>\<^verbatim>\<open>for (i = len_len - 1; i < len_len; i--) { buf[i] = v; v >>= 8; }\<close> stores the low bytes of \<open>v\<close>,
  big-endian, and leaves \<open>drop_bit (8 * len_len) v\<close>.\<close>

definition cbb_buffer_add_u :: "allocator \<Rightarrow> uint64 \<Rightarrow> nat \<Rightarrow> cbb_buffer_st \<Rightarrow> bool \<times> cbb_buffer_st" where
  "cbb_buffer_add_u A v len_len b =
     (if len_len = 0 then (True, b)
      else (case add_and_copy A (be_bytes len_len v) b of
              (False, b) \<Rightarrow> (False, b)
            | (True, b) \<Rightarrow> if drop_bit (8 * len_len) v \<noteq> 0 then (False, b\<lparr>b_error := True\<rparr>) else (True, b)))"

section \<open>Flushing\<close>

text \<open>The number of length bytes of an ASN.1 length, the initial byte and what is left to store.\<close>

definition asn1_length_form :: "size_t \<Rightarrow> nat \<times> byte \<times> size_t" where
  "asn1_length_form len =
     (if len > 0xffffff then (5, 0x80 OR 4, len)
      else if len > 0xffff then (4, 0x80 OR 3, len)
      else if len > 0xff then (3, 0x80 OR 2, len)
      else if len > 0x7f then (2, 0x80 OR 1, len)
      else (1, ucast len, 0))"

text \<open>The part of \<^verbatim>\<open>CBB_flush\<close> that writes the pending length prefix of a child.\<close>

definition store_length :: "size_t \<Rightarrow> nat \<Rightarrow> size_t \<Rightarrow> cbb_buffer_st \<Rightarrow> bool \<times> cbb_buffer_st" where
  "store_length off n len b =
     (let b = b\<lparr>b_buf := put_at (b_buf b) (unat off) (be_bytes n len)\<rparr>
      in if drop_bit (8 * n) len \<noteq> 0 then (False, b) else (True, b))"

text \<open>Moving the contents along when the length needs more than one byte.\<close>

definition make_room :: "allocator \<Rightarrow> size_t \<Rightarrow> nat \<Rightarrow> size_t \<Rightarrow> cbb_buffer_st \<Rightarrow> bool \<times> cbb_buffer_st" where
  "make_room A child_start extra_bytes len b =
     (case cbb_buffer_add A (word_of_nat extra_bytes) b of
        (False, b) \<Rightarrow> (False, b)
      | (True, b) \<Rightarrow>
          (True, b\<lparr>b_buf := put_at (b_buf b) (unat child_start + extra_bytes)
                   (take (unat len) (drop (unat child_start) (b_buf b)))\<rparr>))"

definition flush_child :: "allocator \<Rightarrow> cbb_child \<Rightarrow> cbb_buffer_st \<Rightarrow> bool \<times> cbb_buffer_st" where
  "flush_child A child b =
     (let child_start = c_offset child + word_of_nat (pending_len_len child);
          len = b_len b - child_start
      in if pending_is_asn1 child then
           if len > 0xfffffffe then (False, b)
           else
             (case asn1_length_form len of
                (len_len, initial_length_byte, left) \<Rightarrow>
                  (case (if len_len \<noteq> 1 then make_room A child_start (len_len - 1) len b else (True, b)) of
                     (False, b) \<Rightarrow> (False, b)
                   | (True, b) \<Rightarrow>
                       store_length (c_offset child + 1) (len_len - 1) left
                         (b\<lparr>b_buf := put_at (b_buf b) (unat (c_offset child)) [initial_length_byte]\<rparr>)))
         else store_length (c_offset child) (pending_len_len child) len b)"

function CBB_flush :: "allocator \<Rightarrow> nat \<Rightarrow> CBB \<Rightarrow> bool \<times> CBB" where
  "CBB_flush A k c =
     (case cbb_base c of
        None \<Rightarrow> (False, c)
      | Some b \<Rightarrow>
          if k > length (children c) \<or> b_error b then (False, c)
          else if k = length (children c) \<or> pending_len_len (children c ! k) = 0 then (True, c)
          else
            (let child = children c ! k;
                 child_start = c_offset child + word_of_nat (pending_len_len child)
             in case CBB_flush A (Suc k) c of
                  (ok, c') \<Rightarrow>
                    (case cbb_base c' of
                       None \<Rightarrow> (False, c')
                     | Some b' \<Rightarrow>
                         if \<not> ok \<or> child_start < c_offset child \<or> b_len b' < child_start
                         then (False, c'\<lparr>cbb_base := Some (b'\<lparr>b_error := True\<rparr>)\<rparr>)
                         else (case flush_child A child b' of
                                 (False, b'') \<Rightarrow> (False, c'\<lparr>cbb_base := Some (b''\<lparr>b_error := True\<rparr>)\<rparr>)
                               | (True, b'') \<Rightarrow>
                                   (True, c'\<lparr>cbb_base := Some b'', children := take k (children c')\<rparr>)))))"
  by pat_completeness auto
termination by (relation "measure (\<lambda>(A, k, c). length (children c) - k)") auto

declare CBB_flush.simps [simp del]

text \<open>\<^verbatim>\<open>if (!CBB_flush(cbb)) return 0; f(cbb->base)\<close>.\<close>

definition flush_then :: "allocator \<Rightarrow> nat \<Rightarrow> (cbb_buffer_st \<Rightarrow> bool \<times> cbb_buffer_st) \<Rightarrow> CBB \<Rightarrow> bool \<times> CBB" where
  "flush_then A k f c =
     (case CBB_flush A k c of
        (False, c) \<Rightarrow> (False, c)
      | (True, c) \<Rightarrow>
          (case cbb_base c of
             None \<Rightarrow> (False, c)
           | Some b \<Rightarrow> (case f b of (ok, b) \<Rightarrow> (ok, c\<lparr>cbb_base := Some b\<rparr>))))"

text \<open>\<open>wanted\<close>: the caller passes both output pointers. The result is what they would receive: the
  first \<^verbatim>\<open>*out_len\<close> bytes of the buffer.\<close>

definition CBB_finish :: "allocator \<Rightarrow> nat \<Rightarrow> bool \<Rightarrow> CBB \<Rightarrow> byte list option \<times> CBB" where
  "CBB_finish A k wanted c =
     (if k \<noteq> 0 then (None, c)
      else (case CBB_flush A k c of
              (False, c) \<Rightarrow> (None, c)
            | (True, c) \<Rightarrow>
                (case cbb_base c of
                   None \<Rightarrow> (None, c)
                 | Some b \<Rightarrow>
                     if can_resize b \<and> \<not> wanted then (None, c)
                     else (Some (take (unat (b_len b)) (b_buf b)), CBB_cleanup k c))))"

text \<open>Where the contents of the object at depth \<open>k\<close> begin, \<^verbatim>\<open>cbb->offset + cbb->pending_len_len\<close>.\<close>

definition contents_start :: "nat \<Rightarrow> CBB \<Rightarrow> size_t" where
  "contents_start k c =
     (if k = 0 then 0
      else let child = children c ! (k - 1) in c_offset child + word_of_nat (pending_len_len child))"

definition CBB_len :: "nat \<Rightarrow> CBB \<Rightarrow> cbb_buffer_st \<Rightarrow> size_t" where
  "CBB_len k c b = b_len b - contents_start k c"

definition CBB_data :: "nat \<Rightarrow> CBB \<Rightarrow> cbb_buffer_st \<Rightarrow> byte list" where
  "CBB_data k c b = take (unat (CBB_len k c b)) (drop (unat (contents_start k c)) (b_buf b))"

section \<open>Adding\<close>

definition CBB_add_bytes :: "allocator \<Rightarrow> nat \<Rightarrow> byte list \<Rightarrow> CBB \<Rightarrow> bool \<times> CBB" where
  "CBB_add_bytes A k data = flush_then A k (add_and_copy A data)"

definition CBB_add_space :: "allocator \<Rightarrow> nat \<Rightarrow> size_t \<Rightarrow> CBB \<Rightarrow> bool \<times> CBB" where
  "CBB_add_space A k len = flush_then A k (cbb_buffer_add A len)"

definition CBB_add_zeros :: "allocator \<Rightarrow> nat \<Rightarrow> nat \<Rightarrow> CBB \<Rightarrow> bool \<times> CBB" where
  "CBB_add_zeros A k len = flush_then A k (add_and_copy A (replicate len 0))"

definition CBB_reserve :: "allocator \<Rightarrow> nat \<Rightarrow> size_t \<Rightarrow> CBB \<Rightarrow> bool \<times> CBB" where
  "CBB_reserve A k len = flush_then A k (cbb_buffer_reserve A len)"

text \<open>\<^verbatim>\<open>CBB_did_write\<close> reads \<^verbatim>\<open>cbb->base->len\<close> without looking at \<^verbatim>\<open>cbb->base\<close>: on an object without a buffer it
  dereferences a null pointer, which is the result \<open>None\<close>.\<close>

definition CBB_did_write :: "nat \<Rightarrow> size_t \<Rightarrow> CBB \<Rightarrow> (bool \<times> CBB) option" where
  "CBB_did_write k len c =
     (case cbb_base c of
        None \<Rightarrow> None
      | Some b \<Rightarrow>
          if k > length (children c) then None
          else
            (let newlen = b_len b + len in
             if k < length (children c) \<or> newlen < b_len b \<or> newlen > b_cap b then Some (False, c)
             else Some (True, c\<lparr>cbb_base := Some (b\<lparr>b_len := newlen\<rparr>)\<rparr>)))"

definition CBB_add_u8 :: "allocator \<Rightarrow> nat \<Rightarrow> byte \<Rightarrow> CBB \<Rightarrow> bool \<times> CBB" where
  "CBB_add_u8 A k v = flush_then A k (cbb_buffer_add_u A (ucast v) 1)"

definition CBB_add_u16 :: "allocator \<Rightarrow> nat \<Rightarrow> uint16 \<Rightarrow> CBB \<Rightarrow> bool \<times> CBB" where
  "CBB_add_u16 A k v = flush_then A k (cbb_buffer_add_u A (ucast v) 2)"

definition CBB_add_u16le :: "allocator \<Rightarrow> nat \<Rightarrow> uint16 \<Rightarrow> CBB \<Rightarrow> bool \<times> CBB" where
  "CBB_add_u16le A k v = CBB_add_u16 A k (CRYPTO_bswap2 v)"

definition CBB_add_u24 :: "allocator \<Rightarrow> nat \<Rightarrow> uint32 \<Rightarrow> CBB \<Rightarrow> bool \<times> CBB" where
  "CBB_add_u24 A k v = flush_then A k (cbb_buffer_add_u A (ucast v) 3)"

definition CBB_add_u32 :: "allocator \<Rightarrow> nat \<Rightarrow> uint32 \<Rightarrow> CBB \<Rightarrow> bool \<times> CBB" where
  "CBB_add_u32 A k v = flush_then A k (cbb_buffer_add_u A (ucast v) 4)"

definition CBB_add_u32le :: "allocator \<Rightarrow> nat \<Rightarrow> uint32 \<Rightarrow> CBB \<Rightarrow> bool \<times> CBB" where
  "CBB_add_u32le A k v = CBB_add_u32 A k (CRYPTO_bswap4 v)"

definition CBB_add_u64 :: "allocator \<Rightarrow> nat \<Rightarrow> uint64 \<Rightarrow> CBB \<Rightarrow> bool \<times> CBB" where
  "CBB_add_u64 A k v = flush_then A k (cbb_buffer_add_u A v 8)"

definition CBB_add_u64le :: "allocator \<Rightarrow> nat \<Rightarrow> uint64 \<Rightarrow> CBB \<Rightarrow> bool \<times> CBB" where
  "CBB_add_u64le A k v = CBB_add_u64 A k (CRYPTO_bswap8 v)"

text \<open>Opening a child of the object at depth \<open>k\<close>; the child is at depth \<open>k + 1\<close>.\<close>

definition open_child :: "nat \<Rightarrow> cbb_child \<Rightarrow> CBB \<Rightarrow> CBB" where
  "open_child k child c = c\<lparr>children := take k (children c) @ [child]\<rparr>"

definition cbb_add_length_prefixed :: "allocator \<Rightarrow> nat \<Rightarrow> nat \<Rightarrow> CBB \<Rightarrow> bool \<times> CBB" where
  "cbb_add_length_prefixed A k len_len c =
     (case CBB_flush A k c of
        (False, c) \<Rightarrow> (False, c)
      | (True, c) \<Rightarrow>
          (case cbb_base c of
             None \<Rightarrow> (False, c)
           | Some b \<Rightarrow>
               (case add_and_copy A (replicate len_len 0) b of
                  (False, b') \<Rightarrow> (False, c\<lparr>cbb_base := Some b'\<rparr>)
                | (True, b') \<Rightarrow>
                    (True, open_child k \<lparr>c_offset = b_len b, pending_len_len = len_len, pending_is_asn1 = False\<rparr>
                       (c\<lparr>cbb_base := Some b'\<rparr>)))))"

definition CBB_add_u8_length_prefixed :: "allocator \<Rightarrow> nat \<Rightarrow> CBB \<Rightarrow> bool \<times> CBB" where
  "CBB_add_u8_length_prefixed A k = cbb_add_length_prefixed A k 1"

definition CBB_add_u16_length_prefixed :: "allocator \<Rightarrow> nat \<Rightarrow> CBB \<Rightarrow> bool \<times> CBB" where
  "CBB_add_u16_length_prefixed A k = cbb_add_length_prefixed A k 2"

definition CBB_add_u24_length_prefixed :: "allocator \<Rightarrow> nat \<Rightarrow> CBB \<Rightarrow> bool \<times> CBB" where
  "CBB_add_u24_length_prefixed A k = cbb_add_length_prefixed A k 3"

text \<open>\<^verbatim>\<open>if (!f(cbb)) return 0; g(cbb)\<close>.\<close>

definition cbb_then :: "(CBB \<Rightarrow> bool \<times> CBB) \<Rightarrow> (CBB \<Rightarrow> bool \<times> CBB) \<Rightarrow> CBB \<Rightarrow> bool \<times> CBB" where
  "cbb_then f g c = (case f c of (False, c) \<Rightarrow> (False, c) | (True, c) \<Rightarrow> g c)"

fun cbb_each :: "('a \<Rightarrow> CBB \<Rightarrow> bool \<times> CBB) \<Rightarrow> 'a list \<Rightarrow> CBB \<Rightarrow> bool \<times> CBB" where
  "cbb_each f [] c = (True, c)"
| "cbb_each f (x # xs) c = cbb_then (f x) (cbb_each f xs) c"

text \<open>The number of base-128 digits, and the bytes that \<^verbatim>\<open>add_base128_integer\<close> adds one by one.\<close>

function base128_len :: "uint64 \<Rightarrow> nat" where
  "base128_len copy = (if copy > 0 then 1 + base128_len (drop_bit 7 copy) else 0)"
  by pat_completeness auto
termination
proof (relation "measure unat")
  fix v :: uint64 assume "v > 0"
  then have "0 < unat v" by (simp add: word_less_nat_alt)
  then show "(drop_bit 7 v, v) \<in> measure unat" by (simp add: unat_drop_bit)
qed simp

declare base128_len.simps [simp del]

definition base128_digits :: "uint64 \<Rightarrow> byte list" where
  "base128_digits v =
     (let len_len = (if base128_len v = 0 then 1 else base128_len v)
      in map (\<lambda>i. (let b = ucast (drop_bit (7 * i) v AND 0x7f) in if i \<noteq> 0 then b OR 0x80 else b)) (rev [0..<len_len]))"

definition add_base128_integer :: "allocator \<Rightarrow> nat \<Rightarrow> uint64 \<Rightarrow> CBB \<Rightarrow> bool \<times> CBB" where
  "add_base128_integer A k v = cbb_each (CBB_add_u8 A k) (base128_digits v)"

definition CBB_add_asn1 :: "allocator \<Rightarrow> nat \<Rightarrow> uint32 \<Rightarrow> CBB \<Rightarrow> bool \<times> CBB" where
  "CBB_add_asn1 A k tg =
     (let tag_bits = ucast (drop_bit 24 tg) AND 0xe0; tag_number = tg AND CBS_ASN1_TAG_NUMBER_MASK
      in cbb_then (CBB_flush A k)
          (cbb_then
            (if tag_number \<ge> 0x1f
             then cbb_then (CBB_add_u8 A k (tag_bits OR 0x1f)) (add_base128_integer A k (ucast tag_number))
             else CBB_add_u8 A k (tag_bits OR ucast tag_number))
            (\<lambda>c. case cbb_base c of
               None \<Rightarrow> (False, c)
             | Some b \<Rightarrow>
                 cbb_then (CBB_add_u8 A k 0)
                   (\<lambda>c. (True, open_child k \<lparr>c_offset = b_len b, pending_len_len = 1, pending_is_asn1 = True\<rparr> c)) c)))"

text \<open>\<^verbatim>\<open>CBB_discard_child\<close> closes the child. Objects below the child, which \<^verbatim>\<open>bytestring.h\<close> forbids to use as soon as an
  object above them is used, keep their pointer to the buffer in C; they are no longer on the chain, and the model has no
  operations on them. A chain without a buffer (after \<^verbatim>\<open>CBB_cleanup\<close> of the root) has a null pointer to dereference.\<close>

definition CBB_discard_child :: "nat \<Rightarrow> CBB \<Rightarrow> CBB option" where
  "CBB_discard_child k c =
     (if \<not> k < length (children c) then Some c
      else (case cbb_base c of
              None \<Rightarrow> None
            | Some b \<Rightarrow>
                Some (c\<lparr>cbb_base := Some (b\<lparr>b_len := c_offset (children c ! k)\<rparr>), children := take k (children c)\<rparr>)))"

section \<open>ASN.1 values\<close>

text \<open>The loop of \<^verbatim>\<open>CBB_add_asn1_uint64\<close> over the bytes of the value, most significant first.\<close>

fun uint64_bytes_loop :: "allocator \<Rightarrow> nat \<Rightarrow> bool \<Rightarrow> byte list \<Rightarrow> CBB \<Rightarrow> bool \<times> CBB" where
  "uint64_bytes_loop A k started [] c = (if \<not> started then CBB_add_u8 A k 0 c else (True, c))"
| "uint64_bytes_loop A k started (b # bs) c =
     (if \<not> started \<and> b = 0 then uint64_bytes_loop A k started bs c
      else if \<not> started \<and> b AND 0x80 \<noteq> 0
      then cbb_then (CBB_add_u8 A k 0) (cbb_then (CBB_add_u8 A k b) (uint64_bytes_loop A k True bs)) c
      else cbb_then (CBB_add_u8 A k b) (uint64_bytes_loop A k True bs) c)"

definition CBB_add_asn1_uint64 :: "allocator \<Rightarrow> nat \<Rightarrow> uint64 \<Rightarrow> CBB \<Rightarrow> bool \<times> CBB" where
  "CBB_add_asn1_uint64 A k v =
     cbb_then (CBB_add_asn1 A k CBS_ASN1_INTEGER)
       (cbb_then (uint64_bytes_loop A (Suc k) False (map (\<lambda>i. ucast (drop_bit (8 * (7 - i)) v AND 0xff)) [0..<8]))
         (CBB_flush A k))"

text \<open>The bytes of a negative number, most significant first, without superfluous sign bytes.\<close>

fun strip_sign :: "byte list \<Rightarrow> byte list" where
  "strip_sign (a # b # bs) = (if a = 0xff \<and> b AND 0x80 \<noteq> 0 then strip_sign (b # bs) else a # b # bs)"
| "strip_sign bs = bs"

definition CBB_add_asn1_int64 :: "allocator \<Rightarrow> nat \<Rightarrow> 64 word \<Rightarrow> CBB \<Rightarrow> bool \<times> CBB" where
  "CBB_add_asn1_int64 A k v =
     (if 0 \<le> sint v then CBB_add_asn1_uint64 A k v
      else cbb_then (CBB_add_asn1 A k CBS_ASN1_INTEGER)
             (cbb_then (cbb_each (CBB_add_u8 A (Suc k)) (strip_sign (be_bytes 8 v))) (CBB_flush A k)))"

definition CBB_add_asn1_octet_string :: "allocator \<Rightarrow> nat \<Rightarrow> byte list \<Rightarrow> CBB \<Rightarrow> bool \<times> CBB" where
  "CBB_add_asn1_octet_string A k data =
     cbb_then (CBB_add_asn1 A k CBS_ASN1_OCTETSTRING) (cbb_then (CBB_add_bytes A (Suc k) data) (CBB_flush A k))"

definition CBB_add_asn1_bool :: "allocator \<Rightarrow> nat \<Rightarrow> bool \<Rightarrow> CBB \<Rightarrow> bool \<times> CBB" where
  "CBB_add_asn1_bool A k v =
     cbb_then (CBB_add_asn1 A k CBS_ASN1_BOOLEAN)
       (cbb_then (CBB_add_u8 A (Suc k) (if v then 0xff else 0)) (CBB_flush A k))"

section \<open>Object identifiers from text\<close>

text \<open>The loop of \<^verbatim>\<open>parse_dotted_decimal\<close>. When it fails, the caller gives up: what is left of the text does not
  matter.\<close>

fun dotted_decimal_loop :: "uint64 \<Rightarrow> bool \<Rightarrow> uint64 cbs_op" where
  "dotted_decimal_loop out seen_digit [] = (if seen_digit then Some out else None, [])"
| "dotted_decimal_loop out seen_digit (u # cbs) =
     (if u = 0x2E \<and> cbs \<noteq> [] then (if seen_digit then Some out else None, cbs)
      else if u < 0x30 \<or> u > 0x39 \<or> (seen_digit \<and> out = 0) \<or> out > 0xFFFFFFFFFFFFFFFF div 10 \<or>
              out * 10 > 0xFFFFFFFFFFFFFFFF - (ucast (u - 0x30))
      then (None, cbs)
      else dotted_decimal_loop (out * 10 + ucast (u - 0x30)) True cbs)"

definition parse_dotted_decimal :: "uint64 cbs_op" where
  "parse_dotted_decimal = dotted_decimal_loop 0 False"

lemma dotted_decimal_shorter:
  "dotted_decimal_loop out seen cbs = (Some v, rest) \<Longrightarrow> cbs \<noteq> [] \<Longrightarrow> length rest < length cbs"
proof (induction out seen cbs rule: dotted_decimal_loop.induct)
  case (2 out seen u cbs)
  then show ?case by (cases cbs) (auto split: if_splits)
qed simp

function oid_components_loop :: "allocator \<Rightarrow> nat \<Rightarrow> CBS \<Rightarrow> CBB \<Rightarrow> bool \<times> CBB" where
  "oid_components_loop A k cbs c =
     (if cbs = [] then (True, c)
      else (case parse_dotted_decimal cbs of
              (None, _) \<Rightarrow> (False, c)
            | (Some a, rest) \<Rightarrow>
                (case add_base128_integer A k a c of
                   (False, c) \<Rightarrow> (False, c)
                 | (True, c) \<Rightarrow> oid_components_loop A k rest c)))"
  by pat_completeness auto
termination
  by (relation "measure (\<lambda>(A, k, cbs, c). length cbs)")
     (auto simp: parse_dotted_decimal_def dest: dotted_decimal_shorter [OF sym])

definition CBB_add_asn1_oid_from_text :: "allocator \<Rightarrow> nat \<Rightarrow> byte list \<Rightarrow> CBB \<Rightarrow> bool \<times> CBB" where
  "CBB_add_asn1_oid_from_text A k txt =
     cbb_then (CBB_flush A k) (\<lambda>c.
       case parse_dotted_decimal txt of
         (None, _) \<Rightarrow> (False, c)
       | (Some a, cbs) \<Rightarrow>
           (case parse_dotted_decimal cbs of
              (None, _) \<Rightarrow> (False, c)
            | (Some b, cbs) \<Rightarrow>
                if a > 2 \<or> (a < 2 \<and> b > 39) \<or> b > 0xFFFFFFFFFFFFFFFF - 80 then (False, c)
                else cbb_then (add_base128_integer A k (40 * a + b)) (oid_components_loop A k cbs) c))"

section \<open>Sets\<close>

text \<open>\<^verbatim>\<open>OPENSSL_memcmp\<close> of equally long strings, up to the sign, and the comparison of two elements. The
  loop that counts and the loop that collects the elements are one function; \<^verbatim>\<open>qsort\<close> with this comparison
  has one possible result, which insertion sort computes (\<open>qsort_elements_unique\<close> below).\<close>

fun OPENSSL_memcmp :: "byte list \<Rightarrow> byte list \<Rightarrow> int" where
  "OPENSSL_memcmp (x # xs) (y # ys) = (if x < y then -1 else if y < x then 1 else OPENSSL_memcmp xs ys)"
| "OPENSSL_memcmp _ _ = 0"

definition compare_set_of_element :: "byte list \<Rightarrow> byte list \<Rightarrow> int" where
  "compare_set_of_element a b =
     (let min_len = (if length a < length b then length a else length b);
          ret = OPENSSL_memcmp (take min_len a) (take min_len b)
      in if ret \<noteq> 0 then ret
         else if length a = length b then 0
         else if length a < length b then -1 else 1)"

definition qsort_elements :: "byte list list \<Rightarrow> byte list list" where
  "qsort_elements = insertion_sort compare_set_of_element"

function set_of_elements :: "CBS \<Rightarrow> byte list list option" where
  "set_of_elements cbs =
     (if cbs = [] then Some []
      else (case CBS_get_any_asn1_element cbs of
              (Some (elt, _, _), rest) \<Rightarrow>
                if length rest < length cbs then map_option (Cons elt) (set_of_elements rest) else None
            | (None, _) \<Rightarrow> None))"
  by pat_completeness auto
termination by (relation "measure length") auto

declare set_of_elements.simps [simp del]

lemma compare_Nil: "compare_set_of_element [] ys = (if ys = [] then 0 else -1)" "compare_set_of_element xs [] = (if xs = [] then 0 else 1)"
  by (simp_all add: compare_set_of_element_def)

lemma compare_Cons:
  "compare_set_of_element (x # xs) (y # ys) = (if x < y then -1 else if y < x then 1 else compare_set_of_element xs ys)"
  by (simp add: compare_set_of_element_def Let_def min_def)

lemma compare_eq: "compare_set_of_element xs ys = 0 \<longleftrightarrow> xs = ys"
proof (induction xs arbitrary: ys)
  case (Cons x xs)
  then show ?case by (cases ys) (auto simp: compare_Nil compare_Cons)
qed (simp add: compare_Nil)

lemma compare_swap: "compare_set_of_element xs ys = - compare_set_of_element ys xs"
proof (induction xs arbitrary: ys)
  case (Cons x xs)
  then show ?case by (cases ys) (auto simp: compare_Nil compare_Cons)
qed (simp add: compare_Nil)

lemma compare_trans:
  "compare_set_of_element xs ys \<le> 0 \<Longrightarrow> compare_set_of_element ys zs \<le> 0 \<Longrightarrow> compare_set_of_element xs zs \<le> 0"
proof (induction xs arbitrary: ys zs)
  case (Cons x xs)
  then obtain y ys' z zs' where "ys = y # ys'" "zs = z # zs'"
    by (cases ys; cases zs) (auto simp: compare_Nil)
  then show ?case using Cons by (auto simp: compare_Cons split: if_splits)
qed (simp add: compare_Nil)

lemma compare_ok: "cmp_ok compare_set_of_element"
  unfolding cmp_ok_def using compare_trans compare_swap by (metis neg_less_0_iff_less)

lemma qsort_elements_unique: "qsort_ok qsort \<Longrightarrow> qsort compare_set_of_element xs = qsort_elements xs"
  unfolding qsort_elements_def by (rule qsort_unique) (simp_all add: compare_ok compare_eq)


text \<open>The test \<open>length rest < length cbs\<close> always holds for addressable strings (\<open>element_sound\<close>: an element is not empty);
  it is there for termination. \<open>got_copy\<close>: the copy of the contents and the array of elements could be allocated. \<^verbatim>\<open>sizeof(CBS)\<close> is 16.\<close>

definition CBB_flush_asn1_set_of :: "allocator \<Rightarrow> bool \<Rightarrow> nat \<Rightarrow> CBB \<Rightarrow> bool \<times> CBB" where
  "CBB_flush_asn1_set_of A got_copy k =
     cbb_then (CBB_flush A k) (\<lambda>c.
       case cbb_base c of
         None \<Rightarrow> (False, c)
       | Some b \<Rightarrow>
           (case set_of_elements (CBB_data k c b) of
              None \<Rightarrow> (False, c)
            | Some elements \<Rightarrow>
                if length elements < 2 then (True, c)
                else if length elements > 0xFFFFFFFFFFFFFFFF div 16 then (False, c)
                else if \<not> got_copy then (False, c)
                else cbb_each (CBB_add_bytes A k) (qsort_elements elements)
                       (c\<lparr>cbb_base := Some (b\<lparr>b_len := contents_start k c\<rparr>)\<rparr>)))"

end
