(* ===== verification/CbbChain.thy ===== *)
theory CbbChain
  imports Cbb
begin

text \<open>
  Functional correctness of the builder. The state of a chain of objects is related to a list of frames, each with its
  pending prefix and contents; \<open>puts\<close>, \<open>appends\<close> and \<open>opens\<close> say what an operation adds to the object it is called on, and
  compose the way the code does. The contract that all adding operations share is the locale \<open>cbb_adder\<close>, interpreted on
  each of them; \<open>build\<close> and \<open>serialize\<close> relate whole nested structures to their bytes.
\<close>

section \<open>The buffer holds what was added\<close>

text \<open>\<open>holds b V\<close>: the valid part of the buffer is \<open>V\<close>. \<open>fits A b n\<close>: the buffer is large enough for \<open>n\<close> bytes, or
  it may grow and memory does not run out.\<close>

definition holds :: "cbb_buffer_st \<Rightarrow> byte list \<Rightarrow> bool" where
  "holds b V \<longleftrightarrow> \<not> b_error b \<and> length (b_buf b) = unat (b_cap b) \<and> unat (b_cap b) < 2 ^ 63 \<and>
     unat (b_len b) = length V \<and> length V \<le> unat (b_cap b) \<and> take (length V) (b_buf b) = V"

definition fits :: "allocator \<Rightarrow> cbb_buffer_st \<Rightarrow> nat \<Rightarrow> bool" where
  "fits A b n \<longleftrightarrow> allocator_ok A \<and>
     (n \<le> unat (b_cap b) \<or>
      (can_resize b \<and> n < 2 ^ 61 \<and> unat (b_cap b) < 2 ^ 62 \<and> (\<forall>m. unat m < 2 ^ 62 \<longrightarrow> A m \<noteq> None)))"

lemma holds_fields: "holds b V \<Longrightarrow> b_len b = word_of_nat (length V)"
  by (auto simp: holds_def intro: word_of_natI)

lemma reserve_ok:
  assumes h: "holds b V" and f: "fits A b L" and n: "length V + unat n \<le> L"
  shows "\<exists>b'. cbb_buffer_reserve A n b = (True, b') \<and> holds b' V \<and> fits A b' L \<and> b_len b' = b_len b \<and>
    length V + unat n \<le> unat (b_cap b')"
proof (cases "length V + unat n \<le> unat (b_cap b)")
  case True
  have "unat (b_len b + n) = length V + unat n"
    using h True by (simp add: holds_def unat_add_no_wrap)
  then have "\<not> b_len b + n < b_len b" "\<not> b_len b + n > b_cap b"
    using h True by (simp_all add: holds_def word_less_nat_alt)
  then show ?thesis using h f True by (simp add: cbb_buffer_reserve_def)
next
  case False
  then have grow: "can_resize b" "L < 2 ^ 61" "unat (b_cap b) < 2 ^ 62" "\<And>m. unat m < 2 ^ 62 \<Longrightarrow> A m \<noteq> None"
    and A: "allocator_ok A"
    using f n by (auto simp: fits_def)
  have newlen: "unat (b_len b + n) = length V + unat n"
    using h n grow(2) by (simp add: holds_def unat_add_no_wrap)
  then have tests: "\<not> b_len b + n < b_len b" "b_len b + n > b_cap b"
    using h False by (simp_all add: holds_def word_less_nat_alt)
  have dbl: "unat (b_cap b * 2) = 2 * unat (b_cap b)"
    using grow(3) by (simp add: unat_word_ariths)
  define newcap where "newcap = (if b_cap b * 2 < b_cap b \<or> b_cap b * 2 < b_len b + n then b_len b + n else b_cap b * 2)"
  have cap: "unat newcap < 2 ^ 62" "length V + unat n \<le> unat newcap" "unat (b_cap b) \<le> unat newcap"
    using newlen dbl False n grow(2) h
    by (auto simp: newcap_def word_less_nat_alt holds_def)
  then obtain fresh where fresh: "A newcap = Some fresh" using grow(4) by blast
  have len: "length fresh = unat newcap" using A fresh by (simp add: allocator_ok_def)
  let ?b = "b\<lparr>b_buf := put_at fresh 0 (b_buf b), b_cap := newcap\<rparr>"
  have "cbb_buffer_reserve A n b = (True, ?b)"
    using tests grow(1) fresh by (simp add: cbb_buffer_reserve_def Let_def newcap_def)
  moreover have "holds ?b V"
    using h cap len by (auto simp: holds_def put_at_def)
  moreover have "fits A ?b L"
    using A grow cap by (simp add: fits_def)
  ultimately show ?thesis using cap by simp
qed

lemma add_ok:
  assumes "holds b V" and "fits A b L" and "length V + unat n \<le> L"
  shows "\<exists>b' junk. cbb_buffer_add A n b = (True, b') \<and> holds b' (V @ junk) \<and> length junk = unat n \<and> fits A b' L"
proof -
  obtain b1 where b1: "cbb_buffer_reserve A n b = (True, b1)" "holds b1 V" "fits A b1 L" "b_len b1 = b_len b"
      "length V + unat n \<le> unat (b_cap b1)"
    using reserve_ok [OF assms] by blast
  let ?junk = "take (unat n) (drop (length V) (b_buf b1))"
  have "unat (b_len b1 + n) = length V + unat n"
    using b1 by (simp add: holds_def unat_add_no_wrap)
  moreover have "take (length V + unat n) (b_buf b1) = V @ ?junk"
    using b1(2) by (simp add: holds_def take_add)
  ultimately have "holds (b1\<lparr>b_len := b_len b1 + n\<rparr>) (V @ ?junk)" "length ?junk = unat n"
    using b1 by (simp_all add: holds_def)
  moreover have "fits A (b1\<lparr>b_len := b_len b1 + n\<rparr>) L" using b1(3) by (simp add: fits_def)
  ultimately show ?thesis using b1(1) unfolding cbb_buffer_add_def by (intro exI conjI) auto
qed

lemma put_at_middle: "length ys = length xs \<Longrightarrow> put_at (U @ xs @ W) (length U) ys = U @ ys @ W"
  by (simp add: put_at_def)

lemma holds_split:
  assumes "holds b V" obtains rest where "b_buf b = V @ rest"
  using assms append_take_drop_id [of "length V" "b_buf b"] by (metis holds_def)

lemma holds_put:
  assumes "holds b (U @ xs @ W)" and "length ys = length xs" and "k = length U"
  shows "holds (b\<lparr>b_buf := put_at (b_buf b) k ys\<rparr>) (U @ ys @ W)"
proof -
  obtain rest where buf: "b_buf b = U @ xs @ W @ rest"
    using holds_split [OF assms(1)] by auto
  have "put_at (b_buf b) k ys = U @ ys @ W @ rest"
    unfolding buf using assms(2,3) by (simp add: put_at_middle)
  then show ?thesis
    using assms(1,2) buf by (simp add: holds_def)
qed

lemma holds_fits_put [simp]: "fits A (b\<lparr>b_buf := x\<rparr>) L = fits A b L"
  by (simp add: fits_def)

lemma add_and_copy_ok:
  assumes h: "holds b V" and f: "fits A b L" and len: "length V + length data \<le> L" and L: "L < 2 ^ 63"
  shows "\<exists>b'. add_and_copy A data b = (True, b') \<and> holds b' (V @ data) \<and> fits A b' L"
proof -
  have n: "unat (word_of_nat (length data) :: size_t) = length data"
    using len L by (simp add: unat_of_nat_small)
  obtain b' junk where b': "cbb_buffer_add A (word_of_nat (length data)) b = (True, b')"
      "holds b' (V @ junk)" "length junk = length data" "fits A b' L"
    using add_ok [OF h f, of "word_of_nat (length data)"] len n by auto
  have "unat (b_len b) = length V" using h by (simp add: holds_def)
  then have "holds (b'\<lparr>b_buf := put_at (b_buf b') (unat (b_len b)) data\<rparr>) (V @ data)"
    using holds_put [of b' V junk "[]" data] b' by simp
  then show ?thesis using b' by (simp add: add_and_copy_def)
qed

lemma add_u_ok:
  assumes "holds b V" and "fits A b L" and "length V + n \<le> L" and "L < 2 ^ 63" and "drop_bit (8 * n) v = 0"
  shows "\<exists>b'. cbb_buffer_add_u A v n b = (True, b') \<and> holds b' (V @ be_bytes n v) \<and> fits A b' L"
proof (cases "n = 0")
  case True
  then show ?thesis using assms by (simp add: cbb_buffer_add_u_def)
next
  case False
  then show ?thesis
    using add_and_copy_ok [OF assms(1,2), of "be_bytes n v"] assms(3-5) by (auto simp: cbb_buffer_add_u_def)
qed

section \<open>Length prefixes\<close>

datatype prefix = Plain nat | Asn1_Length

fun prefix_room :: "prefix \<Rightarrow> nat" where
  "prefix_room (Plain n) = n"
| "prefix_room Asn1_Length = 1"

fun prefix_bytes :: "prefix \<Rightarrow> nat \<Rightarrow> byte list" where
  "prefix_bytes (Plain n) len = be_bytes n (word_of_nat len)"
| "prefix_bytes Asn1_Length len = length_bytes len"

fun prefix_ok :: "prefix \<Rightarrow> nat \<Rightarrow> bool" where
  "prefix_ok (Plain n) len = (len < 2 ^ (8 * n))"
| "prefix_ok Asn1_Length len = (len \<le> 0xfffffffe)"

lemma prefix_room_le: "prefix_room p \<le> length (prefix_bytes p n)"
  by (cases p) (auto simp: length_bytes_def)

definition child_of :: "nat \<Rightarrow> prefix \<Rightarrow> cbb_child" where
  "child_of off p = \<lparr>c_offset = word_of_nat off, pending_len_len = prefix_room p, pending_is_asn1 = (p = Asn1_Length)\<rparr>"

lemma asn1_length_form_bytes:
  assumes "n \<le> 0xfffffffe"
  shows "\<exists>k ini lft. asn1_length_form (word_of_nat n) = (k, ini, lft) \<and> 1 \<le> k \<and> k \<le> 5 \<and>
    length_bytes n = ini # be_bytes (k - 1) lft \<and> drop_bit (8 * (k - 1)) lft = 0"
proof -
  have n: "unat (word_of_nat n :: size_t) = n" using assms by (simp add: unat_of_nat_small)
  have drop: "drop_bit j (word_of_nat n :: size_t) = 0" if "n < 2 ^ j" for j
    using that by (simp add: word_unat_eq_iff unat_drop_bit n)
  consider "n \<le> 0x7f" | "0x7f < n" "n \<le> 0xff" | "0xff < n" "n \<le> 0xffff" | "0xffff < n" "n \<le> 0xffffff" | "0xffffff < n"
    by linarith
  then show ?thesis
  proof cases
    case 1
    have "(ucast (word_of_nat n :: size_t) :: byte) = word_of_nat n"
      using 1 by (simp add: word_unat_eq_iff unsigned_ucast_eq n unat_of_nat_small take_bit_nat_eq_self)
    then show ?thesis
      using 1 n by (simp add: asn1_length_form_def word_less_nat_alt length_bytes_def)
  qed (use n drop assms in \<open>simp_all add: asn1_length_form_def word_less_nat_alt length_bytes_def len_octets_def\<close>)
qed

lemma holds_length: "holds b V \<Longrightarrow> length V \<le> length (b_buf b) \<and> length V < 2 ^ 63"
  by (simp add: holds_def)

lemma holds_slice: "holds b (U @ xs @ W) \<Longrightarrow> take (length xs) (drop (length U) (b_buf b)) = xs"
  by (erule holds_split) simp

lemma store_length_ok:
  assumes h: "holds b (U @ xs @ W)" and n: "length xs = n" and off: "unat off = length U" and d: "drop_bit (8 * n) len = 0"
  shows "\<exists>b'. store_length off n len b = (True, b') \<and> holds b' (U @ be_bytes n len @ W) \<and> (\<forall>A L. fits A b' L = fits A b L)"
  using holds_put [OF h, of "be_bytes n len" "unat off"] assms by (simp add: store_length_def)

text \<open>Making room for a longer ASN.1 length: \<open>k\<close> bytes are added at the end and the contents move along.\<close>

lemma make_room_ok:
  assumes h: "holds b (U @ s)" and f: "fits A b L" and k: "length U + k + length s \<le> L" "k < 8"
    and w: "unat st = length U" "unat len = length s"
  shows "\<exists>b' J. make_room A st k len b = (True, b') \<and> length J = k \<and> fits A b' L \<and> holds b' (U @ J @ s)"
proof -
  have n: "unat (word_of_nat k :: size_t) = k" using k by (simp add: unat_of_nat_small)
  obtain b' junk where b': "cbb_buffer_add A (word_of_nat k) b = (True, b')" "holds b' (U @ s @ junk)"
      "length junk = k" "fits A b' L"
    using add_ok [OF h f, of "word_of_nat k"] k n by auto
  define J where "J = take k (s @ junk)"
  define s' where "s' = drop k (s @ junk)"
  have split: "U @ s @ junk = (U @ J) @ s' @ []" and len: "length J = k" "length s' = length s"
    using b'(3) append_take_drop_id [of k "s @ junk"] by (simp_all add: J_def s'_def del: take_append drop_append append_take_drop_id)
  have "take (length s) (drop (length U) (b_buf b')) = s"
    using b'(2) by (rule holds_slice)
  moreover have "holds (b'\<lparr>b_buf := put_at (b_buf b') (length U + k) s\<rparr>) ((U @ J) @ s @ [])"
    by (rule holds_put [where xs = s']) (use b'(2) split len in simp_all)
  ultimately show ?thesis using b' len w by (auto simp: make_room_def)
qed

lemma flush_asn1_ok:
  assumes h: "holds b (U @ [0] @ s)" and f: "fits A b L" and ok: "length s \<le> 0xfffffffe"
    and L: "length U + length (length_bytes (length s)) + length s \<le> L"
  shows "\<exists>b'. flush_child A (child_of (length U) Asn1_Length) b = (True, b') \<and>
    holds b' (U @ length_bytes (length s) @ s) \<and> fits A b' L"
proof -
  obtain k ini lft where form: "asn1_length_form (word_of_nat (length s)) = (k, ini, lft)" "1 \<le> k" "k \<le> 5"
      "length_bytes (length s) = ini # be_bytes (k - 1) lft" "drop_bit (8 * (k - 1)) lft = 0"
    using asn1_length_form_bytes [OF ok] by blast
  have lenU: "length U + 1 + length s < 2 ^ 63" using holds_length [OF h] by simp
  have start: "unat (word_of_nat (length U) + 1 :: size_t) = length U + 1"
    "unat (word_of_nat (length U) :: size_t) = length U"
    using lenU by (simp_all add: unat_of_nat_small unat_add_no_wrap)
  have lenw: "b_len b - (word_of_nat (length U) + 1) = word_of_nat (length s)"
    using holds_fields [OF h] by (simp add: algebra_simps)
  have small: "\<not> (word_of_nat (length s) :: size_t) > 0xfffffffe" "unat (word_of_nat (length s) :: size_t) = length s"
    using ok by (simp_all add: word_less_nat_alt unat_of_nat_small)
  define moved where "moved = (if k \<noteq> 1 then make_room A (word_of_nat (length U) + 1) (k - 1) (word_of_nat (length s)) b else (True, b))"
  have "length (U @ [0 :: byte]) + (k - 1) + length s \<le> L" "k - 1 < 8" using L form by simp_all
  then have "\<exists>b1 J. moved = (True, b1) \<and> length J = k - 1 \<and> holds b1 (U @ [0] @ J @ s) \<and> fits A b1 L"
    using h f start small make_room_ok [of b "U @ [0]" s A L "k - 1" "word_of_nat (length U) + 1" "word_of_nat (length s)"]
    by (cases "k = 1") (auto simp: moved_def)
  then obtain b1 J where b1: "moved = (True, b1)" "length J = k - 1" "holds b1 (U @ [0] @ J @ s)" "fits A b1 L"
    by blast
  let ?b2 = "b1\<lparr>b_buf := put_at (b_buf b1) (length U) [ini]\<rparr>"
  have "holds ?b2 (U @ [ini] @ J @ s)"
    using holds_put [OF b1(3), of "[ini]" "length U"] by simp
  then have "\<exists>b'. store_length (word_of_nat (length U) + 1) (k - 1) lft ?b2 = (True, b') \<and>
      holds b' ((U @ [ini]) @ be_bytes (k - 1) lft @ s) \<and> (\<forall>A L. fits A b' L = fits A ?b2 L)"
    using b1(2) start form(5) by (intro store_length_ok [where xs = J]) simp_all
  moreover have "flush_child A (child_of (length U) Asn1_Length) b =
      store_length (word_of_nat (length U) + 1) (k - 1) lft ?b2"
    using b1(1) small form(1) start lenw
    by (cases "k = 1") (simp_all add: flush_child_def child_of_def Let_def moved_def)
  ultimately show ?thesis using form(4) b1(4) by auto
qed

lemma flush_child_ok:
  assumes h: "holds b (U @ replicate (prefix_room p) 0 @ s)" and f: "fits A b L" and ok: "prefix_ok p (length s)"
    and L: "length U + length (prefix_bytes p (length s)) + length s \<le> L"
  shows "\<exists>b'. flush_child A (child_of (length U) p) b = (True, b') \<and>
    holds b' (U @ prefix_bytes p (length s) @ s) \<and> fits A b' L"
proof (cases p)
  case Asn1_Length
  then show ?thesis using flush_asn1_ok [of b U s A L] assms by simp
next
  case (Plain n)
  have lenU: "length U + n + length s < 2 ^ 63" using holds_length [OF h] Plain by simp
  have lenw: "b_len b - (word_of_nat (length U) + word_of_nat n) = word_of_nat (length s)"
    using holds_fields [OF h] Plain by (simp add: algebra_simps)
  have "drop_bit (8 * n) (word_of_nat (length s) :: size_t) = 0"
    using ok Plain lenU by (simp add: word_unat_eq_iff unat_drop_bit unat_of_nat_small)
  moreover have "unat (word_of_nat (length U) :: size_t) = length U" using lenU by (simp add: unat_of_nat_small)
  ultimately have "\<exists>b'. store_length (word_of_nat (length U)) n (word_of_nat (length s)) b = (True, b') \<and>
      holds b' (U @ be_bytes n (word_of_nat (length s)) @ s) \<and> (\<forall>A L. fits A b' L = fits A b L)"
    using h Plain by (intro store_length_ok [where xs = "replicate n 0"]) simp_all
  then show ?thesis using f Plain lenw by (auto simp: flush_child_def child_of_def)
qed

section \<open>Chains of objects\<close>

text \<open>A frame is an object of the chain: its pending prefix and the contents it was given so far, without
  those of its child. The root is a frame with an empty prefix.\<close>

type_synonym frame = "prefix \<times> byte list"

fun layout :: "frame list \<Rightarrow> byte list" where
  "layout [] = []"
| "layout ((p, s) # F) = replicate (prefix_room p) 0 @ s @ layout F"

fun kids :: "nat \<Rightarrow> frame list \<Rightarrow> cbb_child list" where
  "kids off [] = []"
| "kids off ((p, s) # F) = child_of off p # kids (off + prefix_room p + length s) F"

text \<open>The bytes that the frames stand for once their prefixes are written.\<close>

fun close_frames :: "frame list \<Rightarrow> byte list" where
  "close_frames [] = []"
| "close_frames ((p, s) # F) = (let t = s @ close_frames F in prefix_bytes p (length t) @ t)"

fun close_ok :: "frame list \<Rightarrow> bool" where
  "close_ok [] = True"
| "close_ok ((p, s) # F) = (close_ok F \<and> prefix_ok p (length (s @ close_frames F)))"

lemma layout_append [simp]: "layout (F @ G) = layout F @ layout G"
  by (induction F rule: layout.induct) simp_all

lemma kids_append [simp]: "kids off (F @ G) = kids off F @ kids (off + length (layout F)) G"
  by (induction off F rule: kids.induct) (simp_all add: ac_simps)

lemma length_kids [simp]: "length (kids off F) = length F"
  by (induction off F rule: kids.induct) simp_all

lemma layout_le_close: "length (layout F) \<le> length (close_frames F)"
proof (induction F rule: layout.induct)
  case (2 p s F)
  then show ?case using prefix_room_le [of p "length (s @ close_frames F)"] by (simp add: Let_def)
qed simp

text \<open>The state of the builder represents a chain of frames.\<close>

definition represents :: "allocator \<Rightarrow> nat \<Rightarrow> CBB \<Rightarrow> frame list \<Rightarrow> bool" where
  "represents A L c F \<longleftrightarrow> L < 2 ^ 63 \<and> F \<noteq> [] \<and> (\<forall>f \<in> set (tl F). 0 < prefix_room (fst f)) \<and>
     children c = tl (kids 0 F) \<and> (\<exists>b. cbb_base c = Some b \<and> holds b (layout F) \<and> fits A b L)"

lemma children_frame:
  "children c = tl (kids 0 (G @ (p, s) # (q, t) # H)) \<Longrightarrow> children c ! length G = child_of (length (layout G) + prefix_room p + length s) q"
  by (cases G) (auto simp: nth_append ac_simps)

lemma children_take:
  "children c = tl (kids 0 (G @ [(p, s), (q, t)])) \<Longrightarrow> take (length G) (children c) = tl (kids 0 (G @ [(p, s')]))"
  by (cases G) auto

lemma child_start:
  assumes "off + prefix_room p < 2 ^ 63"
  shows "unat (c_offset (child_of off p) + word_of_nat (pending_len_len (child_of off p))) = off + prefix_room p"
  and "unat (c_offset (child_of off p)) = off"
  using assms by (simp_all add: child_of_def unat_add_no_wrap unat_of_nat_small)

lemma CBB_flush_ok:
  assumes "represents A L c (G @ (p, s) # H)" and "close_ok H"
    and "length (layout G) + prefix_room p + length (s @ close_frames H) \<le> L"
  shows "\<exists>c'. CBB_flush A (length G) c = (True, c') \<and> represents A L c' (G @ [(p, s @ close_frames H)])"
  using assms
proof (induction H arbitrary: G p s c)
  case Nil
  then have "length (children c) = length G" by (simp add: represents_def)
  then show ?case using Nil by (auto simp: represents_def holds_def CBB_flush.simps)
next
  case (Cons f H)
  obtain q t where f: "f = (q, t)" by force
  let ?t = "t @ close_frames H" and ?U = "layout (G @ [(p, s)])"
  have room: "prefix_room q \<le> length (prefix_bytes q (length ?t))" by (rule prefix_room_le)
  have "\<exists>c'. CBB_flush A (length (G @ [(p, s)])) c = (True, c') \<and> represents A L c' ((G @ [(p, s)]) @ [(q, ?t)])"
    by (rule Cons.IH) (use Cons.prems f room in \<open>simp_all add: Let_def\<close>)
  then obtain c1 where c1: "CBB_flush A (Suc (length G)) c = (True, c1)" "represents A L c1 (G @ [(p, s), (q, ?t)])"
    by auto
  then obtain b1 where b1: "cbb_base c1 = Some b1" "holds b1 (?U @ replicate (prefix_room q) 0 @ ?t)" "fits A b1 L"
    by (auto simp: represents_def)
  obtain b2 where b2: "flush_child A (child_of (length ?U) q) b1 = (True, b2)"
      "holds b2 (?U @ prefix_bytes q (length ?t) @ ?t)" "fits A b2 L"
    using flush_child_ok [OF b1(2,3)] Cons.prems f by (auto simp: Let_def)
  obtain b where b: "cbb_base c = Some b" "\<not> b_error b" using Cons.prems(1) by (auto simp: represents_def holds_def)
  have kids: "children c = tl (kids 0 (G @ (p, s) # (q, t) # H))" "0 < prefix_room q"
    using Cons.prems(1) f by (cases G; simp add: represents_def)+
  then have child: "children c ! length G = child_of (length ?U) q" "length G < length (children c)"
    using children_frame [OF kids(1)] by (simp_all add: ac_simps)
  have small: "length ?U + prefix_room q + length ?t < 2 ^ 63" using holds_length [OF b1(2)] by simp
  have start: "unat (c_offset (child_of (length ?U) q) + word_of_nat (pending_len_len (child_of (length ?U) q))) =
      length ?U + prefix_room q" "unat (c_offset (child_of (length ?U) q)) = length ?U"
    using small by (simp_all only: child_start)
  have len: "unat (b_len b1) = length ?U + prefix_room q + length ?t" using b1(2) by (simp add: holds_def)
  have tests: "\<not> c_offset (child_of (length ?U) q) + word_of_nat (pending_len_len (child_of (length ?U) q)) < c_offset (child_of (length ?U) q)"
    "\<not> b_len b1 < c_offset (child_of (length ?U) q) + word_of_nat (pending_len_len (child_of (length ?U) q))"
    unfolding word_less_nat_alt start len by simp_all
  let ?c = "c1\<lparr>cbb_base := Some b2, children := take (length G) (children c1)\<rparr>"
  have "pending_len_len (child_of (length ?U) q) \<noteq> 0" using kids(2) by (simp add: child_of_def)
  then have "CBB_flush A (length G) c = (True, ?c)"
    using b child c1(1) b1(1) b2(1) tests by (subst CBB_flush.simps) (simp add: Let_def)
  moreover have "represents A L ?c (G @ [(p, s @ close_frames (f # H))])"
    using c1(2) b2 f children_take [of c1 G p s q ?t] by (cases G) (auto simp: represents_def Let_def)
  ultimately show ?case by blast
qed

section \<open>What the operations add\<close>

text \<open>\<open>puts A k f data\<close>: on the object at depth \<open>k\<close>, \<open>f\<close> writes out its descendants and adds \<open>data\<close>, whenever the result fits.
  \<open>appends\<close> is weaker: descendants may be left open, as long as they stand for the same bytes. \<open>opens A k f pre q\<close>:
  \<open>f\<close> adds \<open>pre\<close> and opens a child with the prefix \<open>q\<close>.\<close>

definition puts :: "allocator \<Rightarrow> nat \<Rightarrow> (CBB \<Rightarrow> bool \<times> CBB) \<Rightarrow> byte list \<Rightarrow> bool" where
  "puts A k f data \<longleftrightarrow> (\<forall>L c G p s H. represents A L c (G @ (p, s) # H) \<and> length G = k \<and> close_ok H \<and>
     length (layout G) + prefix_room p + length (s @ close_frames H @ data) \<le> L \<longrightarrow>
     (\<exists>c'. f c = (True, c') \<and> represents A L c' (G @ [(p, s @ close_frames H @ data)])))"

definition appends :: "allocator \<Rightarrow> nat \<Rightarrow> (CBB \<Rightarrow> bool \<times> CBB) \<Rightarrow> byte list \<Rightarrow> bool" where
  "appends A k f data \<longleftrightarrow> (\<forall>L c G p s H. represents A L c (G @ (p, s) # H) \<and> length G = k \<and> close_ok H \<and>
     length (layout G) + prefix_room p + length (s @ close_frames H @ data) \<le> L \<longrightarrow>
     (\<exists>c' s' H'. f c = (True, c') \<and> represents A L c' (G @ (p, s') # H') \<and> close_ok H' \<and>
        s' @ close_frames H' = s @ close_frames H @ data))"

definition opens :: "allocator \<Rightarrow> nat \<Rightarrow> (CBB \<Rightarrow> bool \<times> CBB) \<Rightarrow> byte list \<Rightarrow> prefix \<Rightarrow> bool" where
  "opens A k f pre q \<longleftrightarrow> (\<forall>L c G p s H. represents A L c (G @ (p, s) # H) \<and> length G = k \<and> close_ok H \<and>
     length (layout G) + prefix_room p + length (s @ close_frames H @ pre) + prefix_room q \<le> L \<longrightarrow>
     (\<exists>c'. f c = (True, c') \<and> represents A L c' (G @ [(p, s @ close_frames H @ pre), (q, [])])))"

lemma putsD:
  assumes "puts A k f data" "represents A L c (G @ (p, s) # H)" "length G = k" "close_ok H"
    "length (layout G) + prefix_room p + length (s @ close_frames H @ data) \<le> L"
  obtains c' where "f c = (True, c')" "represents A L c' (G @ [(p, s @ close_frames H @ data)])"
  using assms unfolding puts_def by blast

lemma appendsD:
  assumes "appends A k f data" "represents A L c (G @ (p, s) # H)" "length G = k" "close_ok H"
    "length (layout G) + prefix_room p + length (s @ close_frames H @ data) \<le> L"
  obtains c' s' H' where "f c = (True, c')" "represents A L c' (G @ (p, s') # H')" "close_ok H'"
    "s' @ close_frames H' = s @ close_frames H @ data"
  using assms unfolding appends_def by blast

lemma opensD:
  assumes "opens A k f pre q" "represents A L c (G @ (p, s) # H)" "length G = k" "close_ok H"
    "length (layout G) + prefix_room p + length (s @ close_frames H @ pre) + prefix_room q \<le> L"
  obtains c' where "f c = (True, c')" "represents A L c' (G @ [(p, s @ close_frames H @ pre), (q, [])])"
  using assms unfolding opens_def by blast

lemma puts_appends: "puts A k f data \<Longrightarrow> appends A k f data"
  unfolding puts_def appends_def by (metis append_Nil2 close_frames.simps(1) close_ok.simps(1))

lemma puts_flush: "puts A k (CBB_flush A k) []"
  unfolding puts_def using CBB_flush_ok by auto

lemma appends_nop: "appends A k (\<lambda>c. (True, c)) []"
  unfolding appends_def by auto

lemma appends_then:
  assumes f: "appends A k f d" and g: "appends A k g e"
  shows "appends A k (cbb_then f g) (d @ e)"
  unfolding appends_def
proof (intro allI impI, elim conjE)
  fix L c G p s H
  assume a: "represents A L c (G @ (p, s) # H)" "length G = k" "close_ok H"
    "length (layout G) + prefix_room p + length (s @ close_frames H @ d @ e) \<le> L"
  obtain c1 s1 H1 where 1: "f c = (True, c1)" "represents A L c1 (G @ (p, s1) # H1)" "close_ok H1"
      "s1 @ close_frames H1 = s @ close_frames H @ d"
    by (rule appendsD [OF f a(1-3)]) (use a(4) in auto)
  then have "length s1 + length (close_frames H1) = length (s @ close_frames H @ d)" by (metis length_append)
  then have 2: "length (layout G) + prefix_room p + length (s1 @ close_frames H1 @ e) \<le> L" using a(4) by simp
  obtain c2 s2 H2 where 3: "g c1 = (True, c2)" "represents A L c2 (G @ (p, s2) # H2)" "close_ok H2"
      "s2 @ close_frames H2 = s1 @ close_frames H1 @ e"
    by (rule appendsD [OF g 1(2) a(2) 1(3) 2])
  have 4: "s2 @ close_frames H2 = s @ close_frames H @ d @ e" using 1(4) 3(4) by (metis append_assoc)
  show "\<exists>c' s' H'. cbb_then f g c = (True, c') \<and> represents A L c' (G @ (p, s') # H') \<and> close_ok H' \<and>
      s' @ close_frames H' = s @ close_frames H @ d @ e"
    using 1(1) 3(1-3) 4 by (intro exI [of _ c2] exI [of _ s2] exI [of _ H2]) (simp add: cbb_then_def)
qed

lemma puts_then:
  assumes f: "appends A k f d" and g: "puts A k g e"
  shows "puts A k (cbb_then f g) (d @ e)"
  unfolding puts_def
proof (intro allI impI, elim conjE)
  fix L c G p s H
  assume a: "represents A L c (G @ (p, s) # H)" "length G = k" "close_ok H"
    "length (layout G) + prefix_room p + length (s @ close_frames H @ d @ e) \<le> L"
  obtain c1 s1 H1 where 1: "f c = (True, c1)" "represents A L c1 (G @ (p, s1) # H1)" "close_ok H1"
      "s1 @ close_frames H1 = s @ close_frames H @ d"
    by (rule appendsD [OF f a(1-3)]) (use a(4) in auto)
  have eq: "s1 @ close_frames H1 @ e = s @ close_frames H @ d @ e" using 1(4) by (metis append_assoc)
  then have 2: "length (layout G) + prefix_room p + length (s1 @ close_frames H1 @ e) \<le> L" using a(4) by (simp only: eq)
  obtain c2 where "g c1 = (True, c2)" "represents A L c2 (G @ [(p, s1 @ close_frames H1 @ e)])"
    by (rule putsD [OF g 1(2) a(2) 1(3) 2])
  then show "\<exists>c'. cbb_then f g c = (True, c') \<and> represents A L c' (G @ [(p, s @ close_frames H @ d @ e)])"
    using 1(1) eq by (auto simp: cbb_then_def)
qed

text \<open>A body that is added to an open child, with and without the final flush.\<close>

lemma appends_nested:
  assumes f: "opens A k f pre q" and g: "appends A (Suc k) g data" and ok: "prefix_ok q (length data)"
  shows "appends A k (cbb_then f g) (pre @ prefix_bytes q (length data) @ data)"
  unfolding appends_def
proof (intro allI impI, elim conjE)
  fix L c G p s H
  assume a: "represents A L c (G @ (p, s) # H)" "length G = k" "close_ok H"
    "length (layout G) + prefix_room p + length (s @ close_frames H @ pre @ prefix_bytes q (length data) @ data) \<le> L"
  have room: "prefix_room q \<le> length (prefix_bytes q (length data))" by (rule prefix_room_le)
  let ?s = "s @ close_frames H @ pre"
  obtain c1 where 1: "f c = (True, c1)" "represents A L c1 (G @ [(p, ?s), (q, [])])"
    by (rule opensD [OF f a(1-3)]) (use a(4) room in auto)
  have 2: "length (layout (G @ [(p, ?s)])) + prefix_room q + length ([] @ close_frames [] @ data) \<le> L"
    using a(4) room by simp
  obtain c2 s2 H2 where 3: "g c1 = (True, c2)" "represents A L c2 ((G @ [(p, ?s)]) @ (q, s2) # H2)" "close_ok H2"
      "s2 @ close_frames H2 = [] @ close_frames [] @ data"
    by (rule appendsD [OF g _ _ _ 2, of c1]) (use 1 a in auto)
  have "close_ok ((q, s2) # H2)" "?s @ close_frames ((q, s2) # H2) = s @ close_frames H @ pre @ prefix_bytes q (length data) @ data"
    using 3 ok by (simp_all add: Let_def)
  then show "\<exists>c' s' H'. cbb_then f g c = (True, c') \<and> represents A L c' (G @ (p, s') # H') \<and> close_ok H' \<and>
      s' @ close_frames H' = s @ close_frames H @ pre @ prefix_bytes q (length data) @ data"
    using 1(1) 3(1,2) by (intro exI [of _ c2] exI [of _ ?s] exI [of _ "(q, s2) # H2"]) (simp add: cbb_then_def)
qed

lemma cbb_then_assoc: "cbb_then f (cbb_then g h) = cbb_then (cbb_then f g) h"
  by (rule ext) (auto simp: cbb_then_def split: prod.splits bool.splits)

lemma puts_nested:
  assumes "opens A k f pre q" and "appends A (Suc k) g data" and "prefix_ok q (length data)"
  shows "puts A k (cbb_then f (cbb_then g (CBB_flush A k))) (pre @ prefix_bytes q (length data) @ data)"
  using puts_then [OF appends_nested [OF assms] puts_flush] by (simp add: cbb_then_assoc)

text \<open>Adding to the buffer after a flush.\<close>

lemma puts_flush_then:
  assumes f: "\<And>L b V. L < 2 ^ 63 \<Longrightarrow> holds b V \<Longrightarrow> fits A b L \<Longrightarrow> length V + length data \<le> L \<Longrightarrow>
      \<exists>b'. f b = (True, b') \<and> holds b' (V @ data) \<and> fits A b' L"
  shows "puts A k (flush_then A k f) data"
  unfolding puts_def
proof (intro allI impI, elim conjE)
  fix L c G p s H
  assume a: "represents A L c (G @ (p, s) # H)" "length G = k" "close_ok H"
    "length (layout G) + prefix_room p + length (s @ close_frames H @ data) \<le> L"
  then obtain c1 where 1: "CBB_flush A k c = (True, c1)" "represents A L c1 (G @ [(p, s @ close_frames H)])"
    using CBB_flush_ok [OF a(1,3)] by auto
  then obtain b1 where b1: "cbb_base c1 = Some b1" "holds b1 (layout (G @ [(p, s @ close_frames H)]))" "fits A b1 L" "L < 2 ^ 63"
    by (auto simp: represents_def)
  then obtain b2 where "f b1 = (True, b2)" "holds b2 (layout (G @ [(p, s @ close_frames H)]) @ data)" "fits A b2 L"
    using f [OF b1(4,2,3)] a(4) by auto
  then show "\<exists>c'. flush_then A k f c = (True, c') \<and> represents A L c' (G @ [(p, s @ close_frames H @ data)])"
    using 1 b1(1) by (cases G) (auto simp: flush_then_def represents_def)
qed

lemma puts_bytes: "puts A k (CBB_add_bytes A k data) data"
  unfolding CBB_add_bytes_def by (rule puts_flush_then) (rule add_and_copy_ok)

lemma puts_u:
  "drop_bit (8 * n) v = 0 \<Longrightarrow> puts A k (flush_then A k (cbb_buffer_add_u A v n)) (be_bytes n v)"
  by (rule puts_flush_then) (rule add_u_ok, simp_all)

section \<open>The operations of the builder\<close>

lemma be_bytes_1 [simp]: "be_bytes (Suc 0) v = [ucast v]"
  by simp

lemma ucast_ucast_byte [simp]: "(ucast (ucast (v :: byte) :: uint64) :: byte) = v"
  by (rule bit_eqI) (auto simp: bit_simps)

lemma drop_bit_ucast_0:
  fixes v :: "'a::len word"
  shows "LENGTH('a) \<le> n \<Longrightarrow> drop_bit n (ucast v :: uint64) = 0"
  by (rule bit_eqI) (auto simp: bit_simps dest: bit_imp_le_length)

text \<open>What the operations that add a value share: they append its encoding. Adding values one after the
  other appends the encodings in order, and adding a value inside an ASN.1 element gives a DER element.\<close>

locale cbb_adder =
  fixes add :: "allocator \<Rightarrow> nat \<Rightarrow> 'a \<Rightarrow> CBB \<Rightarrow> bool \<times> CBB" and enc :: "'a \<Rightarrow> byte list" and valid :: "'a \<Rightarrow> bool"
  assumes adds: "valid x \<Longrightarrow> puts A k (add A k x) (enc x)"
begin

lemma appends_each: "list_all valid xs \<Longrightarrow> appends A k (cbb_each (add A k) xs) (concat (map enc xs))"
proof (induction xs)
  case Nil
  then show ?case using appends_nop by (simp add: cbb_each.simps(1) [abs_def])
next
  case (Cons x xs)
  then show ?case
    using appends_then [OF puts_appends [OF adds]] by (simp add: cbb_each.simps(2) [abs_def])
qed

lemma puts_each: "xs \<noteq> [] \<Longrightarrow> list_all valid xs \<Longrightarrow> puts A k (cbb_each (add A k) xs) (concat (map enc xs))"
proof (induction xs)
  case (Cons x xs)
  show ?case
  proof (cases "xs = []")
    case True
    have "cbb_each (add A k) [x] = add A k x" by (rule ext) (auto simp: cbb_then_def split: prod.splits bool.splits)
    then show ?thesis using Cons.prems adds True by simp
  next
    case False
    then show ?thesis
      using Cons puts_then [OF puts_appends [OF adds]] by (simp add: cbb_each.simps(2) [abs_def])
  qed
qed simp

end

interpretation u8: cbb_adder CBB_add_u8 "\<lambda>v. [v]" "\<lambda>_. True"
proof
  fix v :: byte and A k
  show "puts A k (CBB_add_u8 A k v) [v]"
    using puts_u [of 1 "ucast v" A k] by (simp add: CBB_add_u8_def drop_bit_ucast_0)
qed

interpretation u16: cbb_adder CBB_add_u16 "\<lambda>v. be_bytes 2 (ucast v)" "\<lambda>_. True"
  by unfold_locales (simp add: CBB_add_u16_def puts_u drop_bit_ucast_0)

interpretation u24: cbb_adder CBB_add_u24 "\<lambda>v. be_bytes 3 (ucast v)" "\<lambda>v. unat v < 2 ^ 24"
proof
  fix v :: uint32 and A k assume "unat v < 2 ^ 24"
  then have "drop_bit (8 * 3) (ucast v :: uint64) = 0"
    by (simp add: word_unat_eq_iff unat_drop_bit unat_ucast_up)
  then show "puts A k (CBB_add_u24 A k v) (be_bytes 3 (ucast v))"
    unfolding CBB_add_u24_def by (rule puts_u)
qed

interpretation u32: cbb_adder CBB_add_u32 "\<lambda>v. be_bytes 4 (ucast v)" "\<lambda>_. True"
  by unfold_locales (simp add: CBB_add_u32_def puts_u drop_bit_ucast_0)

interpretation u64: cbb_adder CBB_add_u64 "be_bytes 8" "\<lambda>_. True"
proof
  fix v :: uint64 and A k
  have "drop_bit (8 * 8) v = 0" by (rule bit_eqI) (auto simp: bit_simps dest: bit_imp_le_length)
  then show "puts A k (CBB_add_u64 A k v) (be_bytes 8 v)"
    unfolding CBB_add_u64_def by (rule puts_u)
qed

interpretation bytes: cbb_adder CBB_add_bytes "\<lambda>bs. bs" "\<lambda>_. True"
  by unfold_locales (rule puts_bytes)

text \<open>Opening a child.\<close>

lemma represents_open:
  assumes r: "represents A L c (G @ [(p, s)])" and b: "cbb_base c = Some b" and room: "0 < prefix_room q"
    and h: "holds b' (layout (G @ [(p, s)]) @ replicate (prefix_room q) 0)" and f: "fits A b' L"
    and child: "child = child_of (length (layout (G @ [(p, s)]))) q"
  shows "represents A L (open_child (length G) child (c\<lparr>cbb_base := Some b'\<rparr>)) (G @ [(p, s), (q, [])])"
  using assms by (cases G) (auto simp: represents_def open_child_def ac_simps)

lemma opens_prefixed:
  assumes "0 < n"
  shows "opens A k (cbb_add_length_prefixed A k n) [] (Plain n)"
  unfolding opens_def
proof (intro allI impI, elim conjE)
  fix L c G p s H
  assume a: "represents A L c (G @ (p, s) # H)" "length G = k" "close_ok H"
    "length (layout G) + prefix_room p + length (s @ close_frames H @ []) + prefix_room (Plain n) \<le> L"
  then obtain c1 where 1: "CBB_flush A k c = (True, c1)" "represents A L c1 (G @ [(p, s @ close_frames H)])"
    using CBB_flush_ok [OF a(1,3)] by auto
  let ?V = "layout (G @ [(p, s @ close_frames H)])"
  obtain b1 where b1: "cbb_base c1 = Some b1" "holds b1 ?V" "fits A b1 L" "L < 2 ^ 63"
    using 1(2) by (auto simp: represents_def)
  obtain b2 where b2: "add_and_copy A (replicate n 0) b1 = (True, b2)" "holds b2 (?V @ replicate n 0)" "fits A b2 L"
    using add_and_copy_ok [OF b1(2,3), of "replicate n 0"] a(4) b1(4) by auto
  have "represents A L (open_child (length G) (child_of (length ?V) (Plain n)) (c1\<lparr>cbb_base := Some b2\<rparr>))
      (G @ [(p, s @ close_frames H), (Plain n, [])])"
    using assms b2 by (intro represents_open [OF 1(2) b1(1)]) simp_all
  then show "\<exists>c'. cbb_add_length_prefixed A k n c = (True, c') \<and>
      represents A L c' (G @ [(p, s @ close_frames H @ []), (Plain n, [])])"
    using 1(1) b1(1) b2(1) a(2) holds_fields [OF b1(2)] by (simp add: cbb_add_length_prefixed_def child_of_def)
qed

text \<open>Base-128 integers and tags.\<close>

lemma groups_digits:
  "groups v = map (\<lambda>i. ucast (drop_bit (7 * i) v AND 0x7f) OR 0x80) (rev [0..<base128_len v])"
proof (induction v rule: base128_len.induct)
  case (1 v)
  show ?case
  proof (cases "v = 0")
    case True
    then show ?thesis by (simp add: groups.simps base128_len.simps)
  next
    case False
    then have pos: "v > 0" by (simp add: word_neq_0_conv)
    have upt: "[0..<Suc n] = 0 # map Suc [0..<n]" for n
      by (simp add: upt_conv_Cons map_Suc_upt del: upt_Suc)
    show ?thesis
      using 1 [OF pos] pos False
      by (simp add: groups.simps [of v] base128_len.simps [of v] upt rev_map comp_def add.commute del: upt_Suc)
  qed
qed

lemma base128_digits_eq: "base128_digits v = base128 v"
proof -
  define n where "n = base128_len (drop_bit 7 v)"
  have len: "(if base128_len v = 0 then 1 else base128_len v) = Suc n"
    by (cases "v = 0") (simp_all add: n_def base128_len.simps [of v] base128_len.simps [of 0] word_neq_0_conv)
  have upt: "[0..<Suc n] = 0 # map Suc [0..<n]"
    by (simp add: upt_conv_Cons map_Suc_upt del: upt_Suc)
  show ?thesis
    by (simp add: base128_digits_def base128_def groups_digits len upt n_def [symmetric] rev_map comp_def add.commute
        Let_def del: upt_Suc)
qed

lemma puts_base128: "puts A k (add_base128_integer A k v) (base128 v)"
  unfolding add_base128_integer_def base128_digits_eq
  using u8.puts_each [of "base128 v" A k] by (simp add: base128_def list_all_iff)

lemma puts_tag:
  "puts A k (if t AND CBS_ASN1_TAG_NUMBER_MASK \<ge> 0x1f
             then cbb_then (CBB_add_u8 A k ((ucast (drop_bit 24 t) AND 0xe0) OR 0x1f))
                    (add_base128_integer A k (ucast (t AND CBS_ASN1_TAG_NUMBER_MASK)))
             else CBB_add_u8 A k ((ucast (drop_bit 24 t) AND 0xe0) OR ucast (t AND CBS_ASN1_TAG_NUMBER_MASK)))
     (tag_bytes t)"
proof (cases "t AND CBS_ASN1_TAG_NUMBER_MASK < 0x1f")
  case True
  then show ?thesis using u8.adds unfolding tag_bytes_def Let_def by (simp only: not_le [THEN iffD2, OF True] if_False if_True)
next
  case False
  have "puts A k (cbb_then (CBB_add_u8 A k x) (add_base128_integer A k v)) (x # base128 v)" for x v
    using puts_then [OF puts_appends [OF u8.adds] puts_base128] by simp
  then show ?thesis unfolding tag_bytes_def Let_def by (simp only: False not_less [THEN iffD1, OF False] if_False if_True)
qed

lemma opens_asn1: "opens A k (CBB_add_asn1 A k t) (tag_bytes t) Asn1_Length"
  unfolding opens_def
proof (intro allI impI, elim conjE)
  fix L c G p s H
  assume a: "represents A L c (G @ (p, s) # H)" "length G = k" "close_ok H"
    "length (layout G) + prefix_room p + length (s @ close_frames H @ tag_bytes t) + prefix_room Asn1_Length \<le> L"
  define tagger where "tagger = (if t AND CBS_ASN1_TAG_NUMBER_MASK \<ge> 0x1f
     then cbb_then (CBB_add_u8 A k ((ucast (drop_bit 24 t) AND 0xe0) OR 0x1f))
            (add_base128_integer A k (ucast (t AND CBS_ASN1_TAG_NUMBER_MASK)))
     else CBB_add_u8 A k ((ucast (drop_bit 24 t) AND 0xe0) OR ucast (t AND CBS_ASN1_TAG_NUMBER_MASK)))"
  have head: "puts A k (cbb_then (CBB_flush A k) tagger) (tag_bytes t)"
    using puts_then [OF puts_appends [OF puts_flush] puts_tag] by (simp add: tagger_def)
  let ?s = "s @ close_frames H @ tag_bytes t"
  obtain c1 where 1: "cbb_then (CBB_flush A k) tagger c = (True, c1)" "represents A L c1 (G @ [(p, ?s)])"
    by (rule putsD [OF head a(1-3)]) (use a(4) in auto)
  then obtain b1 where b1: "cbb_base c1 = Some b1" "holds b1 (layout (G @ [(p, ?s)]))"
    by (auto simp: represents_def)
  obtain c2 where 2: "CBB_add_u8 A k 0 c1 = (True, c2)" "represents A L c2 (G @ [(p, ?s @ close_frames [] @ [0])])"
    by (rule putsD [OF u8.adds 1(2)]) (use a in auto)
  then obtain b2 where b2: "cbb_base c2 = Some b2" "holds b2 (layout (G @ [(p, ?s)]) @ [0])" "fits A b2 L"
    by (auto simp: represents_def)
  have "represents A L (open_child (length G) (child_of (length (layout (G @ [(p, ?s)]))) Asn1_Length)
        (c2\<lparr>cbb_base := Some b1\<rparr>\<lparr>cbb_base := Some b2\<rparr>))
      (G @ [(p, ?s), (Asn1_Length, [])])"
  proof (rule represents_open)
    show "represents A L (c2\<lparr>cbb_base := Some b1\<rparr>) (G @ [(p, ?s)])"
      using 1(2) 2(2) b1 by (cases G) (auto simp: represents_def)
    show "cbb_base (c2\<lparr>cbb_base := Some b1\<rparr>) = Some b1" by simp
  qed (use b2 in simp_all)
  then have r: "represents A L (open_child k (child_of (length (layout (G @ [(p, ?s)]))) Asn1_Length) c2)
      (G @ [(p, ?s), (Asn1_Length, [])])"
    using a(2) b2(1) by (cases c2) (simp add: open_child_def)
  have "CBB_add_asn1 A k t = cbb_then (cbb_then (CBB_flush A k) tagger) (\<lambda>c. case cbb_base c of
      None \<Rightarrow> (False, c)
    | Some b \<Rightarrow> cbb_then (CBB_add_u8 A k 0)
          (\<lambda>c. (True, open_child k \<lparr>c_offset = b_len b, pending_len_len = 1, pending_is_asn1 = True\<rparr> c)) c)"
    by (simp add: CBB_add_asn1_def cbb_then_assoc tagger_def Let_def)
  then have "CBB_add_asn1 A k t c = (True, open_child k (child_of (length (layout (G @ [(p, ?s)]))) Asn1_Length) c2)"
    using 1(1) 2(1) b1 holds_fields [OF b1(2)] by (simp add: cbb_then_def [of "cbb_then _ _"] cbb_then_def [of "CBB_add_u8 _ _ 0"] child_of_def)
  then show "\<exists>c'. CBB_add_asn1 A k t c = (True, c') \<and> represents A L c' (G @ [(p, ?s), (Asn1_Length, [])])"
    using r by blast
qed

text \<open>A value inside an element.\<close>

lemma puts_element:
  assumes "appends A (Suc k) body content" and "length content \<le> 0xfffffffe"
  shows "puts A k (cbb_then (CBB_add_asn1 A k t) (cbb_then body (CBB_flush A k))) (der t content)"
  using puts_nested [OF opens_asn1 assms(1)] assms(2) by (simp add: der_def)

interpretation octets: cbb_adder CBB_add_asn1_octet_string "der CBS_ASN1_OCTETSTRING" "\<lambda>bs. length bs \<le> 0xfffffffe"
  by unfold_locales
    (simp add: CBB_add_asn1_octet_string_def puts_element puts_appends bytes.adds)

interpretation asn1_bool: cbb_adder CBB_add_asn1_bool "\<lambda>v. der CBS_ASN1_BOOLEAN [if v then 0xff else 0]" "\<lambda>_. True"
  by unfold_locales
    (use puts_element [OF puts_appends [OF u8.adds]] in \<open>simp add: CBB_add_asn1_bool_def\<close>)

text \<open>The bytes that the loop of \<^verbatim>\<open>CBB_add_asn1_uint64\<close> adds.\<close>

lemma loop_started: "uint64_bytes_loop A k True bs = cbb_each (CBB_add_u8 A k) bs"
  by (induction bs) (simp_all add: uint64_bytes_loop.simps [abs_def] cbb_each.simps [abs_def])

lemma appends_uint64_loop:
  "appends A k (uint64_bytes_loop A k False bs)
     (let bs' = dropWhile (\<lambda>b. b = 0) bs in if bs' = [] then [0] else if hd bs' AND 0x80 \<noteq> 0 then 0 # bs' else bs')"
proof (induction bs)
  case Nil
  then show ?case using puts_appends [OF u8.adds] by (simp add: uint64_bytes_loop.simps(1) [abs_def])
next
  case (Cons b bs)
  have each: "appends A k (cbb_each (CBB_add_u8 A k) (b # bs)) (b # bs)"
    using u8.appends_each [of "b # bs" A k] by (simp add: list_all_iff)
  then have "appends A k (cbb_then (CBB_add_u8 A k 0) (cbb_each (CBB_add_u8 A k) (b # bs))) (0 # b # bs)"
    using appends_then [OF puts_appends [OF u8.adds] each] by simp
  then show ?case
    using Cons each
    by (cases "b = 0") (simp_all add: uint64_bytes_loop.simps(2) [abs_def] loop_started cbb_each.simps(2) [abs_def] Let_def del: dropWhile_eq_Nil_conv)
qed

lemma byte_of_be_bytes: "map (\<lambda>i. ucast (drop_bit (8 * (7 - i)) v AND 0xff)) [0..<8] = be_bytes 8 v"
proof -
  have b: "(ucast (x AND 0xff) :: byte) = ucast x" for x :: uint64
    unfolding and_FF by (rule bit_eqI) (auto simp: bit_simps)
  show ?thesis
    by (simp add: b upt_rec numeral_eq_Suc)
qed

interpretation asn1_uint64: cbb_adder CBB_add_asn1_uint64 "\<lambda>v. der CBS_ASN1_INTEGER (uint_content v)" "\<lambda>_. True"
proof
  fix v A k
  have "appends A (Suc k) (uint64_bytes_loop A (Suc k) False (be_bytes 8 v)) (uint_content v)"
    using appends_uint64_loop [of A "Suc k" "be_bytes 8 v"] by (simp add: uint_content_def)
  then show "puts A k (CBB_add_asn1_uint64 A k v) (der CBS_ASN1_INTEGER (uint_content v))"
    unfolding CBB_add_asn1_uint64_def byte_of_be_bytes
    by (rule puts_element) (use length_uint_content [of v] in simp)
qed

text \<open>Signed integers: the unsigned form, or the two's complement bytes without superfluous sign bytes.\<close>

definition int_content :: "64 word \<Rightarrow> byte list" where
  "int_content v = (if 0 \<le> sint v then uint_content v else strip_sign (be_bytes 8 v))"

lemma length_strip_sign: "length (strip_sign bs) \<le> length bs"
  by (induction bs rule: strip_sign.induct) auto

lemma strip_sign_Nil [simp]: "strip_sign bs = [] \<longleftrightarrow> bs = []"
  by (induction bs rule: strip_sign.induct) auto

interpretation asn1_int64: cbb_adder CBB_add_asn1_int64 "\<lambda>v. der CBS_ASN1_INTEGER (int_content v)" "\<lambda>_. True"
proof
  fix v A k
  let ?bs = "strip_sign (be_bytes 8 v)"
  have "appends A (Suc k) (cbb_each (CBB_add_u8 A (Suc k)) ?bs) ?bs"
    using u8.appends_each [of ?bs A "Suc k"] by (simp add: list_all_iff)
  then show "puts A k (CBB_add_asn1_int64 A k v) (der CBS_ASN1_INTEGER (int_content v))"
    using asn1_uint64.adds puts_element [of A k _ ?bs CBS_ASN1_INTEGER] length_strip_sign [of "be_bytes 8 v"]
    by (auto simp: CBB_add_asn1_int64_def int_content_def)
qed

section \<open>Whole structures\<close>

text \<open>A structure to build: strings, strings with a length prefix of one to three bytes, and ASN.1 elements. \<open>build\<close>
  is the obvious client; it leaves the flushing of the children to the next operation on the parent.\<close>

datatype item = Raw "byte list" | Prefixed nat "item list" | Element uint32 "item list"

fun build :: "allocator \<Rightarrow> nat \<Rightarrow> item \<Rightarrow> CBB \<Rightarrow> bool \<times> CBB" and
    build_all :: "allocator \<Rightarrow> nat \<Rightarrow> item list \<Rightarrow> CBB \<Rightarrow> bool \<times> CBB" where
  "build A k (Raw bs) c = CBB_add_bytes A k bs c"
| "build A k (Prefixed n xs) c =
     cbb_then (if n = 1 then CBB_add_u8_length_prefixed A k
               else if n = 2 then CBB_add_u16_length_prefixed A k
               else CBB_add_u24_length_prefixed A k) (build_all A (Suc k) xs) c"
| "build A k (Element t xs) c = cbb_then (CBB_add_asn1 A k t) (build_all A (Suc k) xs) c"
| "build_all A k [] c = (True, c)"
| "build_all A k (x # xs) c = cbb_then (build A k x) (build_all A k xs) c"

fun serialize :: "item \<Rightarrow> byte list" and serialize_all :: "item list \<Rightarrow> byte list" where
  "serialize (Raw bs) = bs"
| "serialize (Prefixed n xs) = (let s = serialize_all xs in be_bytes n (word_of_nat (length s)) @ s)"
| "serialize (Element t xs) = der t (serialize_all xs)"
| "serialize_all [] = []"
| "serialize_all (x # xs) = serialize x @ serialize_all xs"

fun item_ok :: "item \<Rightarrow> bool" and items_ok :: "item list \<Rightarrow> bool" where
  "item_ok (Raw bs) = True"
| "item_ok (Prefixed n xs) = (n \<in> {1, 2, 3} \<and> length (serialize_all xs) < 2 ^ (8 * n) \<and> items_ok xs)"
| "item_ok (Element t xs) = (length (serialize_all xs) \<le> 0xfffffffe \<and> items_ok xs)"
| "items_ok [] = True"
| "items_ok (x # xs) = (item_ok x \<and> items_ok xs)"

lemma appends_build:
  shows "item_ok x \<Longrightarrow> appends A k (build A k x) (serialize x)"
    and "items_ok xs \<Longrightarrow> appends A k (build_all A k xs) (serialize_all xs)"
proof (induction x and xs arbitrary: k and k rule: item_ok_items_ok.induct)
  case (1 bs)
  then show ?case using puts_appends [OF puts_bytes] by (simp add: build.simps(1) [abs_def])
next
  case (2 n xs)
  have "appends A k (cbb_then (cbb_add_length_prefixed A k n) (build_all A (Suc k) xs)) (serialize (Prefixed n xs))"
    using appends_nested [OF opens_prefixed [of n] 2(1)] 2(2) by (auto simp: Let_def)
  moreover have "build A k (Prefixed n xs) = cbb_then (cbb_add_length_prefixed A k n) (build_all A (Suc k) xs)"
    using 2(2) by (auto simp: fun_eq_iff CBB_add_u8_length_prefixed_def CBB_add_u16_length_prefixed_def CBB_add_u24_length_prefixed_def)
  ultimately show ?case by simp
next
  case (3 t xs)
  then show ?case
    using appends_nested [OF opens_asn1 3(1)] by (simp add: build.simps(3) [abs_def] der_def)
next
  case 4
  then show ?case using appends_nop by (simp add: build_all.simps(1) [abs_def])
next
  case (5 x xs)
  then show ?case using appends_then [OF 5(1,2)] by (simp add: build_all.simps(2) [abs_def])
qed

text \<open>Memory does not run out.\<close>

definition memory_ok :: "allocator \<Rightarrow> bool" where
  "memory_ok A \<longleftrightarrow> allocator_ok A \<and> (\<forall>n. unat n < 2 ^ 62 \<longrightarrow> A n \<noteq> None)"

lemma init_ok:
  assumes "memory_ok A" and "unat cap < 2 ^ 62" and "L < 2 ^ 61"
  shows "\<exists>c. CBB_init A True cap = (True, c) \<and> represents A L c [(Plain 0, [])]"
proof -
  obtain buf where "A cap = Some buf" "length buf = unat cap"
    using assms(1,2) unfolding memory_ok_def allocator_ok_def by blast
  then show ?thesis
    using assms by (simp add: CBB_init_def cbb_init_def represents_def holds_def fits_def memory_ok_def)
qed

lemma init_fixed_ok:
  assumes "allocator_ok A" and "length buf = unat len" and "length buf < 2 ^ 63"
  shows "\<exists>c. CBB_init_fixed True buf len = (True, c) \<and> represents A (length buf) c [(Plain 0, [])]"
  using assms by (simp add: CBB_init_fixed_def cbb_init_def represents_def holds_def fits_def)

lemma finish_ok:
  assumes r: "represents A L c ((Plain 0, s) # H)" and "close_ok H" and "length (s @ close_frames H) \<le> L"
  shows "\<exists>c'. CBB_finish A 0 True c = (Some (s @ close_frames H), c') \<and> cbb_base c' = None"
proof -
  obtain c' where "CBB_flush A 0 c = (True, c')" "represents A L c' [(Plain 0, s @ close_frames H)]"
    using CBB_flush_ok [of A L c "[]" "Plain 0" s H] assms by auto
  then show ?thesis
    by (auto simp: CBB_finish_def CBB_cleanup_def represents_def holds_def)
qed

text \<open>Any operation that appends, run on a new builder and finished.\<close>

lemma run_and_finish:
  assumes f: "appends A 0 f data" and r: "represents A L c [(Plain 0, [])]" and L: "length data \<le> L"
  shows "\<exists>c' c''. f c = (True, c') \<and> CBB_finish A 0 True c' = (Some data, c'') \<and> cbb_base c'' = None"
proof -
  obtain c' s' H' where "f c = (True, c')" "represents A L c' ([] @ (Plain 0, s') # H')" "close_ok H'"
      "s' @ close_frames H' = [] @ close_frames [] @ data"
    by (rule appendsD [OF f, of L c "[]" "Plain 0" "[]" "[]"]) (use r L in auto)
  then show ?thesis using finish_ok [of A L c' s' H'] L by auto
qed

end
