(* ===== verification/CbbSafety.thy ===== *)
theory CbbSafety
  imports CbbChain
begin

text \<open>
  Memory safety and error behaviour of the builder for arbitrary sequences of calls, including the failing ones.
\<close>

section \<open>Safety of every sequence of operations\<close>

text \<open>The buffer has its capacity, the length is within it, and the children have the prefixes that the operations
  give them.\<close>

definition buffer_wf :: "cbb_buffer_st \<Rightarrow> bool" where
  "buffer_wf b \<longleftrightarrow> length (b_buf b) = unat (b_cap b) \<and> b_len b \<le> b_cap b"

definition child_wf :: "cbb_child \<Rightarrow> bool" where
  "child_wf ch \<longleftrightarrow> 0 < pending_len_len ch \<and> pending_len_len ch < 256 \<and> (pending_is_asn1 ch \<longrightarrow> pending_len_len ch = 1)"

text \<open>The prefix of each child lies behind that of the one before it, and all of them within the first \<open>n\<close> bytes.\<close>

fun nested :: "cbb_child list \<Rightarrow> nat \<Rightarrow> nat \<Rightarrow> bool" where
  "nested [] lo n = (lo \<le> n)"
| "nested (ch # chs) lo n = (lo \<le> unat (c_offset ch) \<and> nested chs (unat (c_offset ch) + pending_len_len ch) n)"

definition CBB_wf :: "CBB \<Rightarrow> bool" where
  "CBB_wf c \<longleftrightarrow> list_all child_wf (children c) \<and>
     (\<forall>b. cbb_base c = Some b \<longrightarrow> buffer_wf b \<and> nested (children c) 0 (unat (b_len b)))"

lemma nested_le: "nested chs lo n \<Longrightarrow> lo \<le> n"
  by (induction chs arbitrary: lo) fastforce+

lemma nested_mono: "nested chs lo n \<Longrightarrow> n \<le> n' \<Longrightarrow> nested chs lo n'"
  by (induction chs arbitrary: lo) auto

lemma nested_take: "nested chs lo n \<Longrightarrow> nested (take k chs) lo n"
proof (induction chs arbitrary: lo k)
  case (Cons ch chs)
  then show ?case by (cases k) (auto dest: nested_le)
qed simp

lemma nested_snoc: "nested chs lo m \<Longrightarrow> m \<le> unat (c_offset ch) \<Longrightarrow> unat (c_offset ch) + pending_len_len ch \<le> n \<Longrightarrow> nested (chs @ [ch]) lo n"
  by (induction chs arbitrary: lo) auto

text \<open>What lies before a child, and where its contents begin.\<close>

lemma nested_nth:
  "nested chs lo n \<Longrightarrow> k < length chs \<Longrightarrow>
     nested (take k chs) lo (unat (c_offset (chs ! k))) \<and> unat (c_offset (chs ! k)) + pending_len_len (chs ! k) \<le> n"
proof (induction chs arbitrary: lo k)
  case (Cons ch chs)
  then show ?case by (cases k) (auto dest: nested_le)
qed simp

lemma nested_through: "nested chs lo n \<Longrightarrow> k < length chs \<Longrightarrow>
    nested (take (Suc k) chs) lo (unat (c_offset (chs ! k)) + pending_len_len (chs ! k))"
  using nested_snoc [OF conjunct1 [OF nested_nth] order.refl order.refl] by (simp add: take_Suc_conv_app_nth)

text \<open>The buffer after an operation: well-formed, never shorter in use on success, and of the same capacity if it is a
  fixed buffer.\<close>

definition buffer_step :: "cbb_buffer_st \<Rightarrow> cbb_buffer_st \<Rightarrow> bool" where
  "buffer_step b b' \<longleftrightarrow> buffer_wf b' \<and> can_resize b' = can_resize b \<and> b_len b \<le> b_len b' \<and>
     (\<not> can_resize b \<longrightarrow> b_cap b' = b_cap b) \<and> (b_error b \<longrightarrow> b_error b')"

lemma buffer_step_refl: "buffer_wf b \<Longrightarrow> buffer_step b b"
  by (simp add: buffer_step_def)

lemma buffer_step_trans: "buffer_step a b \<Longrightarrow> buffer_step b c \<Longrightarrow> buffer_step a c"
  by (auto simp: buffer_step_def)

lemma buffer_step_wf: "buffer_step b b' \<Longrightarrow> buffer_wf b'"
  by (simp add: buffer_step_def)

lemma buffer_wf_error [simp]: "buffer_wf (b\<lparr>b_error := e\<rparr>) = buffer_wf b"
  by (simp add: buffer_wf_def)

lemma reserve_step:
  assumes wf: "buffer_wf b" and A: "allocator_ok A" and run: "cbb_buffer_reserve A n b = (ok, b')"
  shows "buffer_step b b' \<and> b_len b' = b_len b \<and> (ok \<longrightarrow> unat (b_len b) + unat n \<le> unat (b_cap b') \<and> b_error b' = b_error b) \<and>
    (\<not> ok \<longrightarrow> b_error b')"
proof (cases "b_len b + n < b_len b \<or> (b_len b + n > b_cap b \<and> \<not> can_resize b)")
  case True
  then show ?thesis
    using wf run by (auto simp: cbb_buffer_reserve_def Let_def buffer_step_def buffer_wf_def split: if_splits)
next
  case False
  then have sum: "unat (b_len b + n) = unat (b_len b) + unat n"
    by (intro unat_add_no_wrap) (auto simp: overflow_test)
  show ?thesis
  proof (cases "b_len b + n > b_cap b")
    case no: False
    then have b': "ok" "b' = b" using False run by (auto simp: cbb_buffer_reserve_def Let_def)
    show ?thesis
      using no wf sum by (simp add: b' buffer_step_refl word_less_nat_alt)
  next
    case yes: True
    define newcap where "newcap = (if b_cap b * 2 < b_cap b \<or> b_cap b * 2 < b_len b + n then b_len b + n else b_cap b * 2)"
    have cap: "unat (b_cap b) \<le> unat newcap" "unat (b_len b) + unat n \<le> unat newcap"
      using yes sum by (auto simp: newcap_def word_less_nat_alt)
    show ?thesis
    proof (cases "A newcap")
      case None
      then show ?thesis
        using False yes wf run by (auto simp: cbb_buffer_reserve_def Let_def newcap_def [symmetric] buffer_step_def buffer_wf_def)
    next
      case (Some fresh)
      then have len: "length fresh = unat newcap" using A by (simp add: allocator_ok_def)
      have b': "ok" "b' = b\<lparr>b_buf := put_at fresh 0 (b_buf b), b_cap := newcap\<rparr>"
        using False yes run Some by (auto simp: cbb_buffer_reserve_def Let_def newcap_def [symmetric])
      show ?thesis
        using wf cap len False yes by (auto simp: b' buffer_step_def buffer_wf_def word_le_nat_alt)
    qed
  qed
qed

lemma add_step:
  assumes wf: "buffer_wf b" and A: "allocator_ok A" and run: "cbb_buffer_add A n b = (ok, b')"
  shows "buffer_step b b' \<and> (ok \<longrightarrow> unat (b_len b') = unat (b_len b) + unat n \<and> b_error b' = b_error b) \<and> (\<not> ok \<longrightarrow> b_error b')"
proof -
  obtain ok1 b1 where r: "cbb_buffer_reserve A n b = (ok1, b1)" by force
  note s = reserve_step [OF wf A r]
  show ?thesis
  proof (cases ok1)
    case False
    then show ?thesis using s run r by (auto simp: cbb_buffer_add_def)
  next
    case True
    then have "unat (b_len b1 + n) = unat (b_len b) + unat n"
      using s unat_lt [of "b_cap b1"] by (simp add: unat_add_no_wrap)
    then show ?thesis
      using True s run r
      by (auto simp: cbb_buffer_add_def buffer_step_def buffer_wf_def word_le_nat_alt)
  qed
qed

lemma step_put:
  assumes "buffer_step b b'" and "i + length ys \<le> unat (b_cap b')"
  shows "buffer_step b (b'\<lparr>b_buf := put_at (b_buf b') i ys\<rparr>)"
  using assms by (auto simp: buffer_step_def buffer_wf_def)

lemma add_and_copy_step:
  assumes wf: "buffer_wf b" and A: "allocator_ok A" and data: "length data < 2 ^ 64" and run: "add_and_copy A data b = (ok, b')"
  shows "buffer_step b b' \<and> (ok \<longrightarrow> b_error b' = b_error b \<and> unat (b_len b') = unat (b_len b) + length data) \<and> (\<not> ok \<longrightarrow> b_error b')"
proof -
  obtain ok1 b1 where r: "cbb_buffer_add A (word_of_nat (length data)) b = (ok1, b1)" by force
  note s = add_step [OF wf A r]
  show ?thesis
  proof (cases ok1)
    case True
    then have "unat (b_len b) + length data \<le> unat (b_cap b1)"
      using s data by (simp add: unat_of_nat_small buffer_step_def buffer_wf_def word_le_nat_alt)
    moreover have "unat (b_len b1) = unat (b_len b) + length data" using s True data by (simp add: unat_of_nat_small)
    ultimately show ?thesis using True s run r step_put [of b b1] by (auto simp: add_and_copy_def)
  qed (use s run r in \<open>auto simp: add_and_copy_def\<close>)
qed

lemma add_u_step:
  assumes wf: "buffer_wf b" and A: "allocator_ok A" and n: "n \<le> 8" and run: "cbb_buffer_add_u A v n b = (ok, b')"
  shows "buffer_step b b' \<and> (ok \<longrightarrow> unat (b_len b') = unat (b_len b) + n) \<and> (\<not> ok \<longrightarrow> b_error b')"
proof (cases "n = 0")
  case True
  then show ?thesis using wf run by (auto simp: cbb_buffer_add_u_def buffer_step_refl)
next
  case False
  obtain ok1 b1 where r: "add_and_copy A (be_bytes n v) b = (ok1, b1)" by force
  have "buffer_step b b1 \<and> (ok1 \<longrightarrow> b_error b1 = b_error b \<and> unat (b_len b1) = unat (b_len b) + length (be_bytes n v)) \<and>
      (\<not> ok1 \<longrightarrow> b_error b1)"
    using n by (intro add_and_copy_step [OF wf A _ r]) simp
  then show ?thesis
    using False run r by (auto simp: cbb_buffer_add_u_def buffer_step_def buffer_wf_def split: bool.splits if_splits)
qed

lemma store_length_step:
  assumes "buffer_step b b1" and "unat off + n \<le> unat (b_len b1)" and "store_length off n len b1 = (ok, b')"
  shows "buffer_step b b'"
  using assms step_put [OF assms(1), of "unat off" "be_bytes n len"]
  by (auto simp: store_length_def Let_def buffer_step_def buffer_wf_def word_le_nat_alt split: if_splits)

lemma asn1_length_form_le: "asn1_length_form len = (k, ini, lft) \<Longrightarrow> 1 \<le> k \<and> k \<le> 5"
  by (auto simp: asn1_length_form_def split: if_splits)

lemma make_room_step:
  assumes wf: "buffer_wf b" and A: "allocator_ok A" and st: "unat st + unat len \<le> unat (b_len b)" and k: "k < 8"
    and run: "make_room A st k len b = (ok, b')"
  shows "buffer_step b b' \<and> (ok \<longrightarrow> unat (b_len b') = unat (b_len b) + k)"
proof -
  obtain ok1 b1 where r: "cbb_buffer_add A (word_of_nat k) b = (ok1, b1)" by force
  note s = add_step [OF wf A r]
  have kw: "unat (word_of_nat k :: size_t) = k" using k by (simp add: unat_of_nat_small)
  show ?thesis
  proof (cases ok1)
    case True
    then have "unat st + k + unat len \<le> unat (b_cap b1)"
      using s st by (simp add: kw buffer_step_def buffer_wf_def word_le_nat_alt)
    then have "buffer_step b (b1\<lparr>b_buf := put_at (b_buf b1) (unat st + k) (take (unat len) (drop (unat st) (b_buf b1)))\<rparr>)"
      using s by (intro step_put) (auto simp: min_def)
    then show ?thesis using True s run r by (auto simp: make_room_def kw)
  qed (use s run r in \<open>auto simp: make_room_def\<close>)
qed

lemma flush_child_step:
  assumes wf: "buffer_wf b" and A: "allocator_ok A" and ch: "child_wf ch"
    and st: "unat (c_offset ch) + pending_len_len ch \<le> unat (b_len b)" and run: "flush_child A ch b = (ok, b')"
  shows "buffer_step b b'"
proof -
  let ?st = "c_offset ch + word_of_nat (pending_len_len ch)" and ?n = "pending_len_len ch"
  have n: "unat (word_of_nat ?n :: size_t) = ?n" using ch by (simp add: child_wf_def unat_of_nat_small)
  have start: "unat ?st = unat (c_offset ch) + ?n"
    using st unat_lt [of "b_len b"] by (simp add: unat_add_no_wrap n)
  then have len: "unat ?st + unat (b_len b - ?st) = unat (b_len b)"
    using st by (simp add: unat_sub_le word_le_nat_alt)
  show ?thesis
  proof (cases "pending_is_asn1 ch")
    case False
    then show ?thesis
      using run store_length_step [OF buffer_step_refl [OF wf] st] by (simp add: flush_child_def)
  next
    case True
    then have n1: "?n = 1" using ch by (simp add: child_wf_def)
    obtain k ini lft where form: "asn1_length_form (b_len b - ?st) = (k, ini, lft)" by (metis prod_cases3)
    note k = asn1_length_form_le [OF form]
    define moved where "moved = (if k \<noteq> 1 then make_room A ?st (k - 1) (b_len b - ?st) b else (True, b))"
    obtain ok1 b1 where m: "moved = (ok1, b1)" by force
    have s: "buffer_step b b1 \<and> (ok1 \<longrightarrow> unat (b_len b1) = unat (b_len b) + (k - 1))"
      using m k make_room_step [OF wf A eq_imp_le [OF len], of "k - 1" ok1 b1] buffer_step_refl [OF wf]
      by (cases "k = 1") (auto simp: moved_def)
    have run': "flush_child A ch b = (if b_len b - ?st > 0xfffffffe then (False, b) else
        (case moved of (False, b) \<Rightarrow> (False, b) | (True, b) \<Rightarrow>
           store_length (c_offset ch + 1) (k - 1) lft (b\<lparr>b_buf := put_at (b_buf b) (unat (c_offset ch)) [ini]\<rparr>)))"
      using True form by (simp add: flush_child_def Let_def moved_def)
    have off: "unat (c_offset ch + 1) = unat (c_offset ch) + 1" using start n1 by simp
    show ?thesis
    proof (cases "ok1 \<and> \<not> b_len b - ?st > 0xfffffffe")
      case False
      then show ?thesis using run run' m s buffer_step_refl [OF wf] by (auto split: if_splits)
    next
      case ok1: True
      let ?b2 = "b1\<lparr>b_buf := put_at (b_buf b1) (unat (c_offset ch)) [ini]\<rparr>"
      have "unat (c_offset ch) + length [ini] \<le> unat (b_cap b1)"
        using s st n1 ok1 by (simp add: buffer_step_def buffer_wf_def word_le_nat_alt)
      then have "buffer_step b ?b2" using s by (intro step_put) simp_all
      moreover have "unat (c_offset ch + 1) + (k - 1) \<le> unat (b_len ?b2)" using ok1 s st n1 off by simp
      moreover have "store_length (c_offset ch + 1) (k - 1) lft ?b2 = (ok, b')" using ok1 run run' m by simp
      ultimately show ?thesis by (rule store_length_step)
    qed
  qed
qed

text \<open>From objects to objects. \<open>poisoned\<close>: the error flag is set. \<open>safe A k m f\<close>: \<open>f\<close>, an operation on the object at
  depth \<open>k\<close>, keeps the buffer well-formed, leaves an object at depth \<open>m\<close> when it succeeds, and sets the error flag when it
  fails on an object that is still open.\<close>

definition poisoned :: "CBB \<Rightarrow> bool" where
  "poisoned c = (case cbb_base c of None \<Rightarrow> False | Some b \<Rightarrow> b_error b)"

definition cbb_step :: "CBB \<Rightarrow> CBB \<Rightarrow> bool" where
  "cbb_step c c' \<longleftrightarrow> CBB_wf c' \<and> (case cbb_base c of
     None \<Rightarrow> cbb_base c' = None
   | Some b \<Rightarrow> (\<exists>b'. cbb_base c' = Some b' \<and> buffer_step b b'))"

definition safe :: "allocator \<Rightarrow> nat \<Rightarrow> nat \<Rightarrow> (CBB \<Rightarrow> bool \<times> CBB) \<Rightarrow> bool" where
  "safe A k m f \<longleftrightarrow> (\<forall>c ok c'. CBB_wf c \<and> f c = (ok, c') \<longrightarrow> cbb_step c c' \<and> (ok \<longrightarrow> m \<le> length (children c')) \<and>
     (\<not> ok \<and> cbb_base c \<noteq> None \<and> k \<le> length (children c) \<longrightarrow> poisoned c'))"

lemma cbb_step_refl: "CBB_wf c \<Longrightarrow> cbb_step c c"
  by (auto simp: cbb_step_def CBB_wf_def buffer_step_refl split: option.splits)

lemma buffer_step_len: "buffer_step b b' \<Longrightarrow> unat (b_len b) \<le> unat (b_len b')"
  by (simp add: buffer_step_def word_le_nat_alt)

lemma cbb_step_trans: "cbb_step a b \<Longrightarrow> cbb_step b c \<Longrightarrow> cbb_step a c"
  by (auto simp: cbb_step_def split: option.splits intro: buffer_step_trans)

lemma safeD:
  assumes "safe A k m f" and "CBB_wf c" and "f c = (ok, c')"
  shows "cbb_step c c'" and "CBB_wf c'" and "ok \<Longrightarrow> m \<le> length (children c')"
    and "\<not> ok \<Longrightarrow> cbb_base c \<noteq> None \<Longrightarrow> k \<le> length (children c) \<Longrightarrow> poisoned c'"
    and "cbb_base c' = None \<longleftrightarrow> cbb_base c = None"
proof -
  show s: "cbb_step c c'" and "ok \<Longrightarrow> m \<le> length (children c')"
    "\<not> ok \<Longrightarrow> cbb_base c \<noteq> None \<Longrightarrow> k \<le> length (children c) \<Longrightarrow> poisoned c'"
    using assms unfolding safe_def by blast+
  then show "CBB_wf c'" "cbb_base c' = None \<longleftrightarrow> cbb_base c = None"
    by (auto simp: cbb_step_def split: option.splits)
qed

lemma safe_then:
  assumes f: "safe A k m f" and g: "safe A m' j g" and "m' \<le> m"
  shows "safe A k j (cbb_then f g)"
  unfolding safe_def
proof (intro allI impI)
  fix c ok c' assume a: "CBB_wf c \<and> cbb_then f g c = (ok, c')"
  obtain ok1 c1 where r: "f c = (ok1, c1)" by force
  note s = safeD [OF f conjunct1 [OF a] r]
  show "cbb_step c c' \<and> (ok \<longrightarrow> j \<le> length (children c')) \<and>
      (\<not> ok \<and> cbb_base c \<noteq> None \<and> k \<le> length (children c) \<longrightarrow> poisoned c')"
  proof (cases ok1)
    case False
    then show ?thesis using a r s by (auto simp: cbb_then_def)
  next
    case True
    then have run: "g c1 = (ok, c')" using a r by (simp add: cbb_then_def)
    have live: "m' \<le> length (children c1)" using s(3) True assms(3) by simp
    note t = safeD [OF g s(2) run]
    show ?thesis using cbb_step_trans [OF s(1) t(1)] t(3) t(4) [OF _ _ live] s(5) by simp
  qed
qed

lemma list_all_take: "list_all P xs \<Longrightarrow> list_all P (take k xs)"
  by (metis append_take_drop_id list_all_append)

lemma open_step:
  assumes "CBB_wf c" and "child_wf ch" and "k \<le> length (children c)" and "cbb_base c = Some b"
    and "nested (take k (children c)) 0 (unat (c_offset ch))" and "unat (c_offset ch) + pending_len_len ch \<le> unat (b_len b)"
  shows "cbb_step c (open_child k ch c)" and "length (children (open_child k ch c)) = Suc k"
  using assms nested_snoc [OF assms(5) order.refl assms(6)]
  by (auto simp: cbb_step_def open_child_def CBB_wf_def buffer_step_refl list_all_take)

lemma base_step:
  "CBB_wf c \<Longrightarrow> cbb_base c = Some b \<Longrightarrow> buffer_step b b' \<Longrightarrow> cbb_step c (c\<lparr>cbb_base := Some b'\<rparr>)"
  using nested_mono [OF _ buffer_step_len] by (auto simp: cbb_step_def CBB_wf_def dest: buffer_step_wf)

lemma flush_step:
  assumes A: "allocator_ok A"
  shows "CBB_wf c \<Longrightarrow> CBB_flush A k c = (ok, c') \<Longrightarrow>
     cbb_step c c' \<and> (ok \<longrightarrow> k \<le> length (children c) \<and> children c' = take k (children c)) \<and>
     (\<not> ok \<and> cbb_base c \<noteq> None \<and> k \<le> length (children c) \<longrightarrow> poisoned c')"
proof (induction "length (children c) - k" arbitrary: k ok c')
  case 0
  then show ?case
    using cbb_step_refl [OF 0(2)] by (auto simp: CBB_flush.simps [of A k] poisoned_def split: option.splits if_splits)
next
  case (Suc n)
  define ch where "ch = children c ! k"
  have k: "k < length (children c)" using Suc(2) by simp
  then have ch: "child_wf ch" using Suc(3) by (simp add: ch_def CBB_wf_def list_all_length)
  obtain ok1 c1 where rec: "CBB_flush A (Suc k) c = (ok1, c1)" by force
  have "n = length (children c) - Suc k" using Suc(2) by simp
  note IH = Suc(1) [OF this Suc(3) rec]
  show ?case
  proof (cases "\<exists>b. cbb_base c = Some b \<and> \<not> b_error b \<and> pending_len_len ch \<noteq> 0")
    case False
    then show ?thesis
      using Suc(3,4) k cbb_step_refl [OF Suc(3)] ch
      by (auto simp: CBB_flush.simps [of A k] poisoned_def ch_def child_wf_def split: option.splits if_splits)
  next
    case True
    then obtain b where b: "cbb_base c = Some b" "\<not> b_error b" "pending_len_len ch \<noteq> 0" by blast
    obtain b1 where b1: "cbb_base c1 = Some b1" "buffer_step b b1" "CBB_wf c1"
      using IH b(1) by (auto simp: cbb_step_def)
    then have wf1: "buffer_wf b1" by (simp add: buffer_step_def)
    let ?st = "c_offset ch + word_of_nat (pending_len_len ch)"
    define bad where "bad \<longleftrightarrow> \<not> ok1 \<or> ?st < c_offset ch \<or> b_len b1 < ?st"
    obtain ok2 b2 where fl: "flush_child A ch b1 = (ok2, b2)" by force
    have run: "(ok, c') = (if bad then (False, c1\<lparr>cbb_base := Some (b1\<lparr>b_error := True\<rparr>)\<rparr>)
        else if ok2 then (True, c1\<lparr>cbb_base := Some b2, children := take k (children c1)\<rparr>)
        else (False, c1\<lparr>cbb_base := Some (b2\<lparr>b_error := True\<rparr>)\<rparr>))"
      using Suc(4) k b b1(1) rec fl by (subst (asm) CBB_flush.simps) (auto simp: Let_def ch_def bad_def)
    have err: "buffer_step b1 (x\<lparr>b_error := True\<rparr>)" if "buffer_step b1 x" for x
      using that by (auto simp: buffer_step_def buffer_wf_def)
    have b2: "buffer_step b1 b2" if "\<not> bad"
    proof (rule flush_child_step [OF wf1 A ch _ fl])
      have n: "unat (word_of_nat (pending_len_len ch) :: size_t) = pending_len_len ch"
        using ch by (simp add: child_wf_def unat_of_nat_small)
      have "\<not> ?st < c_offset ch" "?st \<le> b_len b1" using that by (auto simp: bad_def)
      then show "unat (c_offset ch) + pending_len_len ch \<le> unat (b_len b1)"
        unfolding overflow_test word_le_nat_alt by (simp add: unat_add_no_wrap n)
    qed
    have n2: "nested (children c1) 0 (unat (b_len b2))" "nested (take k (children c1)) 0 (unat (b_len b2))" if "\<not> bad"
      using nested_mono [OF _ buffer_step_len [OF b2 [OF that]]] b1 nested_take by (auto simp: CBB_wf_def)
    have step: "cbb_step c1 c'"
      using run b1 b2 n2 nested_take err [OF buffer_step_refl [OF wf1]] err [OF b2]
      by (auto simp: cbb_step_def CBB_wf_def list_all_take dest: buffer_step_wf split: if_splits)
    moreover have "take k (take (Suc k) xs) = take k xs" for xs :: "cbb_child list" by simp
    ultimately show ?thesis
      using run IH cbb_step_trans k by (auto simp: poisoned_def bad_def split: if_splits)
  qed
qed

lemma flush_safe: "allocator_ok A \<Longrightarrow> safe A k k (CBB_flush A k)"
  unfolding safe_def using flush_step by fastforce

lemma flush_then_safe:
  assumes A: "allocator_ok A"
    and f: "\<And>b ok b'. buffer_wf b \<Longrightarrow> f b = (ok, b') \<Longrightarrow> buffer_step b b' \<and> (\<not> ok \<longrightarrow> b_error b')"
  shows "safe A k k (flush_then A k f)"
  unfolding safe_def
proof (intro allI impI)
  fix c ok c' assume a: "CBB_wf c \<and> flush_then A k f c = (ok, c')"
  obtain ok1 c1 where r: "CBB_flush A k c = (ok1, c1)" by force
  note s = safeD [OF flush_safe [OF A] conjunct1 [OF a] r]
  show "cbb_step c c' \<and> (ok \<longrightarrow> k \<le> length (children c')) \<and>
      (\<not> ok \<and> cbb_base c \<noteq> None \<and> k \<le> length (children c) \<longrightarrow> poisoned c')"
  proof (cases "ok1 \<and> cbb_base c1 \<noteq> None")
    case False
    then show ?thesis using a r s by (cases ok1) (auto simp: flush_then_def)
  next
    case True
    then obtain b1 where b1: "cbb_base c1 = Some b1" by blast
    obtain ok2 b2 where fr: "f b1 = (ok2, b2)" by force
    have "buffer_wf b1" using s(2) b1 by (simp add: CBB_wf_def)
    note t = f [OF this fr]
    have c': "ok = ok2" "c' = c1\<lparr>cbb_base := Some b2\<rparr>" using a r True b1 fr by (auto simp: flush_then_def)
    have "cbb_step c1 c'" unfolding c' using base_step [OF s(2) b1] t by blast
    then show ?thesis using cbb_step_trans [OF s(1)] s(3) True t by (auto simp: c' poisoned_def)
  qed
qed

lemma bytes_safe: "allocator_ok A \<Longrightarrow> length data < 2 ^ 64 \<Longrightarrow> safe A k k (flush_then A k (add_and_copy A data))"
  by (rule flush_then_safe) (use add_and_copy_step in blast)+

lemma word_safe: "allocator_ok A \<Longrightarrow> n \<le> 8 \<Longrightarrow> safe A k k (flush_then A k (cbb_buffer_add_u A v n))"
  by (rule flush_then_safe) (use add_u_step in blast)+

lemma prefixed_safe:
  assumes A: "allocator_ok A" and n: "0 < n" "n < 256"
  shows "safe A k (Suc k) (cbb_add_length_prefixed A k n)"
  unfolding safe_def
proof (intro allI impI)
  fix c ok c' assume a: "CBB_wf c \<and> cbb_add_length_prefixed A k n c = (ok, c')"
  obtain ok1 c1 where r: "CBB_flush A k c = (ok1, c1)" by force
  note s = safeD [OF flush_safe [OF A] conjunct1 [OF a] r]
  show "cbb_step c c' \<and> (ok \<longrightarrow> Suc k \<le> length (children c')) \<and>
      (\<not> ok \<and> cbb_base c \<noteq> None \<and> k \<le> length (children c) \<longrightarrow> poisoned c')"
  proof (cases "ok1 \<and> cbb_base c1 \<noteq> None")
    case False
    then show ?thesis using a r s by (cases ok1) (auto simp: cbb_add_length_prefixed_def)
  next
    case True
    then obtain b1 where b1: "cbb_base c1 = Some b1" by blast
    obtain ok2 b2 where fr: "add_and_copy A (replicate n 0) b1 = (ok2, b2)" by force
    have "buffer_wf b1" using s(2) b1 by (simp add: CBB_wf_def)
    then have t: "buffer_step b1 b2 \<and> (ok2 \<longrightarrow> b_error b2 = b_error b1 \<and> unat (b_len b2) = unat (b_len b1) + n) \<and> (\<not> ok2 \<longrightarrow> b_error b2)"
      using n add_and_copy_step [OF _ A _ fr] by simp
    let ?c2 = "c1\<lparr>cbb_base := Some b2\<rparr>" and ?ch = "\<lparr>c_offset = b_len b1, pending_len_len = n, pending_is_asn1 = False\<rparr>"
    have st: "cbb_step c1 ?c2" using base_step [OF s(2) b1] t by blast
    then have wf2: "CBB_wf ?c2" by (simp add: cbb_step_def)
    have "child_wf ?ch" using n by (simp add: child_wf_def)
    moreover have "nested (take k (children c1)) 0 (unat (b_len b1))"
      using s(2) b1 by (simp add: CBB_wf_def nested_take)
    moreover have "k \<le> length (children c1)" using s(3) True by simp
    ultimately have o: "cbb_step ?c2 (open_child k ?ch ?c2)" "length (children (open_child k ?ch ?c2)) = Suc k" if ok2
      using open_step [OF wf2, of ?ch k b2] t that by simp_all
    have c': "(ok, c') = (if ok2 then (True, open_child k ?ch ?c2) else (False, ?c2))"
      using a r True b1 fr by (auto simp: cbb_add_length_prefixed_def)
    show ?thesis
      using c' cbb_step_trans [OF s(1) st] cbb_step_trans [OF cbb_step_trans [OF s(1) st] o(1)] o(2) s(3) True t
      by (auto simp: poisoned_def split: if_splits)
  qed
qed

lemma each_safe: "(\<And>x. safe A k k (f x)) \<Longrightarrow> xs \<noteq> [] \<Longrightarrow> safe A k k (cbb_each f xs)"
proof (induction xs)
  case (Cons x xs)
  show ?case
  proof (cases "xs = []")
    case True
    have "cbb_each f [x] = f x" by (rule ext) (auto simp: cbb_then_def split: prod.splits bool.splits)
    then show ?thesis using Cons.prems True by simp
  next
    case False
    then show ?thesis using Cons safe_then [of A k k "f x" k k] by (simp add: cbb_each.simps(2) [abs_def])
  qed
qed simp

text \<open>After a byte was added there is room for the length of an element from the old end on.\<close>

lemma u8_room:
  assumes A: "allocator_ok A" and wf: "CBB_wf c" and b: "cbb_base c = Some b" and run: "CBB_add_u8 A k v c = (True, c')"
  shows "\<exists>b'. cbb_base c' = Some b' \<and> unat (b_len b) + 1 \<le> unat (b_len b') \<and> k \<le> length (children c') \<and>
    nested (take k (children c')) 0 (unat (b_len b))"
proof -
  obtain c1 where r: "CBB_flush A k c = (True, c1)"
    using run by (auto simp: CBB_add_u8_def flush_then_def split: prod.splits bool.splits)
  note fl = flush_step [OF A wf r]
  obtain b1 where b1: "cbb_base c1 = Some b1" "buffer_step b b1" "CBB_wf c1"
    using fl b by (auto simp: cbb_step_def)
  obtain b2 where fr: "cbb_buffer_add_u A (ucast v) 1 b1 = (True, b2)" and c': "c' = c1\<lparr>cbb_base := Some b2\<rparr>"
    using run r b1(1) by (auto simp: CBB_add_u8_def flush_then_def split: prod.splits)
  have "unat (b_len b2) = unat (b_len b1) + 1"
    using add_u_step [OF buffer_step_wf [OF b1(2)] A _ fr] by simp
  moreover have "nested (take k (children c)) 0 (unat (b_len b))"
    using wf b by (simp add: CBB_wf_def nested_take)
  ultimately show ?thesis
    using fl buffer_step_len [OF b1(2)] by (simp add: c')
qed

lemma asn1_safe:
  assumes A: "allocator_ok A"
  shows "safe A k (Suc k) (CBB_add_asn1 A k t)"
proof -
  have u8: "safe A k k (CBB_add_u8 A k v)" for v unfolding CBB_add_u8_def using A by (rule word_safe) simp
  have "safe A k k (add_base128_integer A k v)" for v
    unfolding add_base128_integer_def base128_digits_eq by (rule each_safe) (simp_all add: u8 base128_def)
  then have head: "safe A k k (if t AND CBS_ASN1_TAG_NUMBER_MASK \<ge> 0x1f
             then cbb_then (CBB_add_u8 A k ((ucast (drop_bit 24 t) AND 0xe0) OR 0x1f))
                    (add_base128_integer A k (ucast (t AND CBS_ASN1_TAG_NUMBER_MASK)))
             else CBB_add_u8 A k ((ucast (drop_bit 24 t) AND 0xe0) OR ucast (t AND CBS_ASN1_TAG_NUMBER_MASK)))"
    using u8 safe_then [OF u8, of k k] by simp
  let ?ch = "\<lambda>b. \<lparr>c_offset = b_len b, pending_len_len = 1, pending_is_asn1 = True\<rparr>"
  have tail: "safe A k (Suc k) (\<lambda>c. case cbb_base c of None \<Rightarrow> (False, c) | Some b \<Rightarrow>
      cbb_then (CBB_add_u8 A k 0) (\<lambda>c. (True, open_child k (?ch b) c)) c)"
    unfolding safe_def
  proof (intro allI impI)
    fix c ok c'
    assume a: "CBB_wf c \<and> (case cbb_base c of None \<Rightarrow> (False, c) | Some b \<Rightarrow>
      cbb_then (CBB_add_u8 A k 0) (\<lambda>c. (True, open_child k (?ch b) c)) c) = (ok, c')"
    obtain ok1 c1 where r: "CBB_add_u8 A k 0 c = (ok1, c1)" by force
    note s = safeD [OF u8 conjunct1 [OF a] r]
    have o: "cbb_step c1 (open_child k (?ch b) c1)" "length (children (open_child k (?ch b) c1)) = Suc k"
      if fine: ok1 and base: "cbb_base c = Some b" for b
    proof -
      have "CBB_add_u8 A k 0 c = (True, c1)" using r fine by simp
      from u8_room [OF A conjunct1 [OF a] base this]
      obtain b1 where b1: "cbb_base c1 = Some b1" "unat (b_len b) + 1 \<le> unat (b_len b1)" "k \<le> length (children c1)"
          "nested (take k (children c1)) 0 (unat (b_len b))"
        by blast
      then show "cbb_step c1 (open_child k (?ch b) c1)" "length (children (open_child k (?ch b) c1)) = Suc k"
        using open_step [OF s(2) _ b1(3,1), of "?ch b"] by (simp_all add: child_wf_def)
    qed
    show "cbb_step c c' \<and> (ok \<longrightarrow> Suc k \<le> length (children c')) \<and>
        (\<not> ok \<and> cbb_base c \<noteq> None \<and> k \<le> length (children c) \<longrightarrow> poisoned c')"
    proof (cases "cbb_base c")
      case None
      then show ?thesis using a cbb_step_refl by auto
    next
      case (Some b)
      then have "(ok, c') = (if ok1 then (True, open_child k (?ch b) c1) else (False, c1))"
        using a r by (auto simp: cbb_then_def)
      then show ?thesis using s o [OF _ Some] cbb_step_trans [OF s(1) o(1) [OF _ Some]] by (cases ok1) auto
    qed
  qed
  show ?thesis
    unfolding CBB_add_asn1_def Let_def by (rule safe_then [OF flush_safe [OF A] safe_then [OF head tail order.refl] order.refl])
qed

section \<open>The compound operations\<close>

lemma u8_safe: "allocator_ok A \<Longrightarrow> safe A k k (CBB_add_u8 A k v)"
  unfolding CBB_add_u8_def by (rule word_safe) simp_all

lemma each_u8_safe: "allocator_ok A \<Longrightarrow> xs \<noteq> [] \<Longrightarrow> safe A k k (cbb_each (CBB_add_u8 A k) xs)"
  by (rule each_safe) (simp_all add: u8_safe)

lemma base128_safe: "allocator_ok A \<Longrightarrow> safe A k k (add_base128_integer A k v)"
  unfolding add_base128_integer_def base128_digits_eq by (rule each_u8_safe) (simp_all add: base128_def)

lemma space_safe: "allocator_ok A \<Longrightarrow> safe A k k (CBB_add_space A k n)"
  unfolding CBB_add_space_def by (rule flush_then_safe) (use add_step in blast)+

lemma reserve_safe: "allocator_ok A \<Longrightarrow> safe A k k (CBB_reserve A k n)"
  unfolding CBB_reserve_def by (rule flush_then_safe) (use reserve_step in blast)+

lemma each_u8_loop: "cbb_then (CBB_add_u8 A k b) (uint64_bytes_loop A k True bs) = cbb_each (CBB_add_u8 A k) (b # bs)"
  by (simp add: loop_started cbb_each.simps(2) [abs_def])

lemma uint64_loop_safe: "allocator_ok A \<Longrightarrow> safe A k k (uint64_bytes_loop A k False bs)"
proof (induction bs)
  case Nil
  then show ?case by (simp add: uint64_bytes_loop.simps(1) [abs_def] u8_safe)
next
  case (Cons b bs)
  have "safe A k k (cbb_then (CBB_add_u8 A k 0) (cbb_each (CBB_add_u8 A k) (b # bs)))"
    using Cons.prems safe_then [OF u8_safe each_u8_safe order.refl] by blast
  then show ?case
    using Cons each_u8_safe [OF Cons.prems, of "b # bs" k]
    by (cases "b = 0"; cases "b AND 0x80 = 0")
       (simp_all add: uint64_bytes_loop.simps(2) [abs_def] each_u8_loop del: cbb_each.simps)
qed

lemma element_safe:
  assumes "allocator_ok A" and "safe A (Suc k) (Suc k) f"
  shows "safe A k k (cbb_then (CBB_add_asn1 A k t) (cbb_then f (CBB_flush A k)))"
  using safe_then [OF asn1_safe [OF assms(1)] safe_then [OF assms(2) flush_safe [OF assms(1)]] order.refl] by simp

lemma asn1_uint64_safe: "allocator_ok A \<Longrightarrow> safe A k k (CBB_add_asn1_uint64 A k v)"
  unfolding CBB_add_asn1_uint64_def by (intro element_safe uint64_loop_safe)

lemma asn1_int64_safe: "allocator_ok A \<Longrightarrow> safe A k k (CBB_add_asn1_int64 A k v)"
proof -
  have "be_bytes 8 v \<noteq> []" by (metis length_be_bytes list.size(3) zero_neq_numeral)
  then show "allocator_ok A \<Longrightarrow> ?thesis"
    unfolding CBB_add_asn1_int64_def by (simp add: asn1_uint64_safe element_safe each_u8_safe)
qed

lemma asn1_octets_safe: "allocator_ok A \<Longrightarrow> length data < 2 ^ 64 \<Longrightarrow> safe A k k (CBB_add_asn1_octet_string A k data)"
  unfolding CBB_add_asn1_octet_string_def CBB_add_bytes_def by (intro element_safe bytes_safe)

lemma asn1_bool_safe: "allocator_ok A \<Longrightarrow> safe A k k (CBB_add_asn1_bool A k v)"
  unfolding CBB_add_asn1_bool_def by (intro element_safe u8_safe)

text \<open>Operations that may fail without setting the error flag, or take back what was written. \<open>tame f\<close>: \<open>f\<close> keeps the
  buffer well-formed, a fixed buffer as it is, and the error flag once it is set.\<close>

definition cbb_kept :: "CBB \<Rightarrow> CBB \<Rightarrow> bool" where
  "cbb_kept c c' \<longleftrightarrow> CBB_wf c' \<and> (case cbb_base c of
     None \<Rightarrow> cbb_base c' = None
   | Some b \<Rightarrow> (\<exists>b'. cbb_base c' = Some b' \<and> can_resize b' = can_resize b \<and>
       (\<not> can_resize b \<longrightarrow> b_cap b' = b_cap b) \<and> (b_error b \<longrightarrow> b_error b')))"

definition tame :: "(CBB \<Rightarrow> bool \<times> CBB) \<Rightarrow> bool" where
  "tame f \<longleftrightarrow> (\<forall>c ok c'. CBB_wf c \<and> f c = (ok, c') \<longrightarrow> cbb_kept c c')"

lemma cbb_kept_refl: "CBB_wf c \<Longrightarrow> cbb_kept c c"
  by (auto simp: cbb_kept_def split: option.splits)

lemma cbb_kept_trans: "cbb_kept a b \<Longrightarrow> cbb_kept b c \<Longrightarrow> cbb_kept a c"
  by (auto simp: cbb_kept_def split: option.splits)

lemma cbb_step_kept: "cbb_step c c' \<Longrightarrow> cbb_kept c c'"
  by (auto simp: cbb_step_def cbb_kept_def buffer_step_def split: option.splits)

lemma tameD: "tame f \<Longrightarrow> CBB_wf c \<Longrightarrow> f c = (ok, c') \<Longrightarrow> cbb_kept c c'"
  unfolding tame_def by blast

lemma safe_tame: "safe A k m f \<Longrightarrow> tame f"
  unfolding safe_def tame_def using cbb_step_kept by blast

lemma cbb_kept_wf: "cbb_kept c c' \<Longrightarrow> CBB_wf c'"
  by (simp add: cbb_kept_def)

lemma tame_fail: "tame (Pair b)"
  by (auto simp: tame_def intro: cbb_kept_refl)

lemma tame_then:
  assumes f: "tame f" and g: "tame g"
  shows "tame (cbb_then f g)"
  unfolding tame_def
proof (intro allI impI)
  fix c ok c' assume a: "CBB_wf c \<and> cbb_then f g c = (ok, c')"
  obtain ok1 c1 where r: "f c = (ok1, c1)" by force
  note s = tameD [OF f conjunct1 [OF a] r]
  show "cbb_kept c c'"
    using a r s cbb_kept_trans [OF s tameD [OF g cbb_kept_wf [OF s]]] by (cases ok1) (auto simp: cbb_then_def)
qed

lemma tame_each: "(\<And>x. x \<in> set xs \<Longrightarrow> tame (f x)) \<Longrightarrow> tame (cbb_each f xs)"
proof (induction xs)
  case Nil
  then show ?case using tame_fail [of True] by (simp add: cbb_each.simps(1) [abs_def])
next
  case (Cons x xs)
  then show ?case using tame_then [of "f x" "cbb_each f xs"] by (simp add: cbb_each.simps(2) [abs_def])
qed

lemma oid_loop_tame: "allocator_ok A \<Longrightarrow> tame (oid_components_loop A k cbs)"
proof (induction "length cbs" arbitrary: cbs rule: less_induct)
  case less
  show ?case
  proof (cases "cbs = []")
    case True
    then show ?thesis using tame_fail [of True] by (simp add: oid_components_loop.simps [abs_def])
  next
    case False
    show ?thesis
    proof (cases "parse_dotted_decimal cbs")
      case (Pair a rest)
      show ?thesis
      proof (cases a)
        case None
        then have "oid_components_loop A k cbs = Pair False" using False Pair by (simp add: oid_components_loop.simps [abs_def])
        then show ?thesis by (simp add: tame_fail)
      next
        case (Some v)
        have "oid_components_loop A k cbs = cbb_then (add_base128_integer A k v) (oid_components_loop A k rest)"
          using False Pair Some by (intro ext) (simp add: oid_components_loop.simps [of A k cbs] cbb_then_def)
        moreover have "length rest < length cbs"
          using Pair Some False dotted_decimal_shorter [of 0 False cbs v rest] by (simp add: parse_dotted_decimal_def)
        ultimately show ?thesis
          using tame_then [OF safe_tame [OF base128_safe [OF less.prems]] less.hyps [OF _ less.prems]] by simp
      qed
    qed
  qed
qed

lemma oid_tame:
  assumes A: "allocator_ok A"
  shows "tame (CBB_add_asn1_oid_from_text A k txt)"
proof -
  have body: "tame (cbb_then (add_base128_integer A k v) (oid_components_loop A k cbs))" for v cbs
    by (rule tame_then [OF safe_tame [OF base128_safe [OF A]] oid_loop_tame [OF A]])
  have fail: "tame (\<lambda>c. (False, c))" using tame_fail [of False] by simp
  obtain x y where x: "parse_dotted_decimal txt = (x, y)" by force
  obtain u v where u: "parse_dotted_decimal y = (u, v)" by force
  have "tame (\<lambda>c. case parse_dotted_decimal txt of
         (None, _) \<Rightarrow> (False, c)
       | (Some a, cbs) \<Rightarrow>
           (case parse_dotted_decimal cbs of
              (None, _) \<Rightarrow> (False, c)
            | (Some b, cbs) \<Rightarrow>
                if a > 2 \<or> (a < 2 \<and> b > 39) \<or> b > 0xFFFFFFFFFFFFFFFF - 80 then (False, c)
                else cbb_then (add_base128_integer A k (40 * a + b)) (oid_components_loop A k cbs) c))"
  proof (cases "\<exists>a b. x = Some a \<and> u = Some b \<and> \<not> (a > 2 \<or> (a < 2 \<and> b > 39) \<or> b > 0xFFFFFFFFFFFFFFFF - 80)")
    case True
    then obtain a b where ab: "x = Some a" "u = Some b" "\<not> (a > 2 \<or> (a < 2 \<and> b > 39) \<or> b > 0xFFFFFFFFFFFFFFFF - 80)" by blast
    show ?thesis unfolding x u prod.case ab(1,2) option.case if_not_P [OF ab(3)] by (rule body)
  next
    case False
    show ?thesis
    proof (cases x)
      case None
      then show ?thesis by (simp add: x fail)
    next
      case (Some a)
      show ?thesis
      proof (cases u)
        case None
        then show ?thesis by (simp add: x u Some fail)
      next
        case (Some b)
        have "a > 2 \<or> (a < 2 \<and> b > 39) \<or> b > 0xFFFFFFFFFFFFFFFF - 80" using False \<open>x = Some a\<close> Some by blast
        then show ?thesis unfolding x u prod.case \<open>x = Some a\<close> Some option.case by (simp only: if_P fail)
      qed
    qed
  qed
  then show ?thesis
    unfolding CBB_add_asn1_oid_from_text_def by (rule tame_then [OF safe_tame [OF flush_safe [OF A]]])
qed

lemma get_bytes_prefix:
  "cbs_bind (CBS_get_bytes n) (\<lambda>out. cbs_return (out, x)) cbs = (Some (out, y), rest) \<Longrightarrow> cbs = out @ rest"
  by (auto simp: cbs_bind_eq_Some CBS_get_bytes_def cbs_get_eq_Some)

lemma element_prefix:
  assumes "cbs_get_any_asn1_element False cbs = (Some (out, y), rest)"
  shows "cbs = out @ rest"
proof -
  obtain t hdr where t: "parse_asn1_tag cbs = (Some t, hdr)"
    using assms by (cases "parse_asn1_tag cbs"; cases "fst (parse_asn1_tag cbs)") (auto simp: cbs_get_any_asn1_element_def)
  obtain lb h where h: "CBS_get_u8 hdr = (Some lb, h)"
    using assms t by (cases "CBS_get_u8 hdr"; cases "fst (CBS_get_u8 hdr)") (auto simp: cbs_get_any_asn1_element_def)
  note run = assms [unfolded cbs_get_any_asn1_element_def t prod.case option.case h Let_def]
  show ?thesis
  proof (cases "lb AND 0x80 = 0")
    case True
    from run [unfolded if_P [OF True]] show ?thesis by (rule get_bytes_prefix)
  next
    case False
    note run = run [unfolded if_not_P [OF False] simp_thms if_False]
    have n: "\<not> (unat (lb AND 0x7f) = 0 \<or> unat (lb AND 0x7f) > 4)"
    proof
      assume bad: "unat (lb AND 0x7f) = 0 \<or> unat (lb AND 0x7f) > 4"
      from run [unfolded if_P [OF bad]] show False by simp
    qed
    note run = run [unfolded if_not_P [OF n]]
    obtain w h3 where w: "cbs_get_u (unat (lb AND 0x7f)) h = (w, h3)" by force
    note run = run [unfolded w prod.case]
    show ?thesis
    proof (cases w)
      case None
      then show ?thesis using run by simp
    next
      case (Some v)
      show ?thesis using run [unfolded Some option.case] by (auto split: if_splits dest: get_bytes_prefix)
    qed
  qed
qed

lemma set_of_element_length: "set_of_elements cbs = Some es \<Longrightarrow> e \<in> set es \<Longrightarrow> length e \<le> length cbs"
proof (induction "length cbs" arbitrary: cbs es rule: less_induct)
  case less
  show ?case
  proof (cases "cbs = []")
    case True
    then show ?thesis using less.prems by (simp add: set_of_elements.simps)
  next
    case False
    obtain x rest where r: "CBS_get_any_asn1_element cbs = (x, rest)" by force
    obtain elt t hl es' where x: "x = Some (elt, t, hl)" "length rest < length cbs" "set_of_elements rest = Some es'" "es = elt # es'"
      using less.prems(1) False r by (auto simp: set_of_elements.simps [of cbs] split: option.splits if_splits)
    obtain b where "cbs_get_any_asn1_element False cbs = (Some (elt, t, hl, b), rest)"
      using r x(1) by (auto simp: CBS_get_any_asn1_element_def cbs_bind_eq_Some)
    then have "cbs = elt @ rest" by (rule element_prefix)
    then show ?thesis using less.hyps [OF x(2,3)] less.prems(2) x(4) by auto
  qed
qed

lemma set_qsort_elements: "set (qsort_elements es) = set es"
  using insertion_sort_ok compare_ok unfolding qsort_elements_def qsort_ok_def by (metis mset_eq_setD)

text \<open>The contents of every object on the chain begin within the buffer.\<close>

lemma contents_start_le:
  assumes wf: "CBB_wf c" and b: "cbb_base c = Some b" and k: "k \<le> length (children c)"
  shows "nested (take k (children c)) 0 (unat (contents_start k c))" and "unat (contents_start k c) \<le> unat (b_len b)"
proof -
  have nest: "nested (children c) 0 (unat (b_len b))" using wf b by (simp add: CBB_wf_def)
  have "nested (take k (children c)) 0 (unat (contents_start k c)) \<and> unat (contents_start k c) \<le> unat (b_len b)"
  proof (cases k)
    case 0
    then show ?thesis by (simp add: contents_start_def)
  next
    case (Suc j)
    then have j: "j < length (children c)" using k by simp
    let ?ch = "children c ! j"
    have "child_wf ?ch" using wf j by (simp add: CBB_wf_def list_all_length)
    then have p: "unat (word_of_nat (pending_len_len ?ch) :: size_t) = pending_len_len ?ch"
      by (simp add: child_wf_def unat_of_nat_small)
    have le: "unat (c_offset ?ch) + pending_len_len ?ch \<le> unat (b_len b)" using nested_nth [OF nest j] by simp
    then have "unat (contents_start k c) = unat (c_offset ?ch) + pending_len_len ?ch"
      using Suc unat_lt [of "b_len b"] by (simp add: contents_start_def Let_def unat_add_no_wrap p)
    then show ?thesis using nested_through [OF nest j] le Suc by simp
  qed
  then show "nested (take k (children c)) 0 (unat (contents_start k c))" and "unat (contents_start k c) \<le> unat (b_len b)"
    by simp_all
qed

lemma set_of_tame:
  assumes A: "allocator_ok A"
  shows "tame (CBB_flush_asn1_set_of A got k)"
  unfolding tame_def
proof (intro allI impI)
  fix c ok c' assume a: "CBB_wf c \<and> CBB_flush_asn1_set_of A got k c = (ok, c')"
  obtain ok1 c1 where r: "CBB_flush A k c = (ok1, c1)" by force
  note fl = flush_step [OF A conjunct1 [OF a] r]
  have kept: "cbb_kept c c1" using fl by (simp add: cbb_step_kept)
  note run = a [THEN conjunct2, unfolded CBB_flush_asn1_set_of_def cbb_then_def r prod.case]
  show "cbb_kept c c'"
  proof (cases "ok1 \<and> cbb_base c1 \<noteq> None")
    case False
    then show ?thesis using run kept by (cases ok1) auto
  next
    case True
    then obtain b where b: "cbb_base c1 = Some b" by blast
    have wf: "CBB_wf c1" using kept by (rule cbb_kept_wf)
    let ?cbs = "CBB_data k c1 b"
    let ?c2 = "c1\<lparr>cbb_base := Some (b\<lparr>b_len := contents_start k c1\<rparr>)\<rparr>"
    show ?thesis
    proof (cases "c' = c1")
      case True
      then show ?thesis using kept by simp
    next
      case other: False
      then obtain es where es: "set_of_elements ?cbs = Some es" "cbb_each (CBB_add_bytes A k) (qsort_elements es) ?c2 = (ok, c')"
        using run True b by (auto split: option.splits if_splits)
      have len: "length e < 2 ^ 64" if "e \<in> set es" for e
      proof -
        have "length e \<le> length ?cbs" using es(1) that by (rule set_of_element_length)
        also have "\<dots> \<le> unat (CBB_len k c1 b)" by (simp add: CBB_data_def)
        also have "\<dots> < 2 ^ 64" using unat_lt [of "CBB_len k c1 b"] by simp
        finally show ?thesis .
      qed
      have children: "k \<le> length (children c)" "children c1 = take k (children c)" using fl True by simp_all
      then have n: "length (children c1) = k" by simp
      have nest: "buffer_wf b" using wf b by (simp add: CBB_wf_def)
      have start: "nested (children c1) 0 (unat (contents_start k c1))" "unat (contents_start k c1) \<le> unat (b_len b)"
        using contents_start_le [OF wf b, of k] n by simp_all
      have "cbb_kept c1 ?c2"
        using wf b start nest by (auto simp: cbb_kept_def CBB_wf_def buffer_wf_def word_le_nat_alt)
      then have k2: "cbb_kept c ?c2" using kept cbb_kept_trans by blast
      have "tame (cbb_each (CBB_add_bytes A k) (qsort_elements es))"
        using len by (intro tame_each) (simp add: set_qsort_elements CBB_add_bytes_def safe_tame [OF bytes_safe [OF A]])
      from tameD [OF this cbb_kept_wf [OF k2] es(2)] show ?thesis by (rule cbb_kept_trans [OF k2])
    qed
  qed
qed

section \<open>Safety of every sequence of calls\<close>

text \<open>The calls of a client, in any order and at any depth. As in a client that ignores the results, a sequence goes on after
  a failure. The allocation of the copies in \<^verbatim>\<open>CBB_flush_asn1_set_of\<close> succeeds or not as its call says.\<close>

datatype call = Call_flush | Call_bytes "byte list" | Call_zeros nat | Call_space size_t | Call_reserve size_t | Call_did_write size_t |
  Call_discard | Call_u8 byte | Call_u16 uint16 | Call_u16le uint16 | Call_u24 uint32 | Call_u32 uint32 | Call_u32le uint32 |
  Call_u64 uint64 | Call_u64le uint64 | Call_u8_prefixed | Call_u16_prefixed | Call_u24_prefixed | Call_asn1 uint32 |
  Call_uint64 uint64 | Call_int64 "64 word" | Call_octets "byte list" | Call_bool bool | Call_oid "byte list" | Call_set_of bool

text \<open>The result is \<open>None\<close> where the behaviour is undefined: a null pointer in \<^verbatim>\<open>CBB_did_write\<close>, and
  \<^verbatim>\<open>CBB_discard_child\<close> after an error, when the child may be a local variable of a function that has returned (the comment in
  \<^verbatim>\<open>CBB_flush\<close> says so).\<close>

fun exec :: "allocator \<Rightarrow> nat \<Rightarrow> call \<Rightarrow> CBB \<Rightarrow> (bool \<times> CBB) option" where
  "exec A k Call_flush c = Some (CBB_flush A k c)"
| "exec A k (Call_bytes bs) c = Some (CBB_add_bytes A k bs c)"
| "exec A k (Call_zeros n) c = Some (CBB_add_zeros A k n c)"
| "exec A k (Call_space n) c = Some (CBB_add_space A k n c)"
| "exec A k (Call_reserve n) c = Some (CBB_reserve A k n c)"
| "exec A k (Call_did_write n) c = CBB_did_write k n c"
| "exec A k Call_discard c = (if poisoned c then None else map_option (Pair True) (CBB_discard_child k c))"
| "exec A k (Call_u8 v) c = Some (CBB_add_u8 A k v c)"
| "exec A k (Call_u16 v) c = Some (CBB_add_u16 A k v c)"
| "exec A k (Call_u16le v) c = Some (CBB_add_u16le A k v c)"
| "exec A k (Call_u24 v) c = Some (CBB_add_u24 A k v c)"
| "exec A k (Call_u32 v) c = Some (CBB_add_u32 A k v c)"
| "exec A k (Call_u32le v) c = Some (CBB_add_u32le A k v c)"
| "exec A k (Call_u64 v) c = Some (CBB_add_u64 A k v c)"
| "exec A k (Call_u64le v) c = Some (CBB_add_u64le A k v c)"
| "exec A k Call_u8_prefixed c = Some (CBB_add_u8_length_prefixed A k c)"
| "exec A k Call_u16_prefixed c = Some (CBB_add_u16_length_prefixed A k c)"
| "exec A k Call_u24_prefixed c = Some (CBB_add_u24_length_prefixed A k c)"
| "exec A k (Call_asn1 t) c = Some (CBB_add_asn1 A k t c)"
| "exec A k (Call_uint64 v) c = Some (CBB_add_asn1_uint64 A k v c)"
| "exec A k (Call_int64 v) c = Some (CBB_add_asn1_int64 A k v c)"
| "exec A k (Call_octets bs) c = Some (CBB_add_asn1_octet_string A k bs c)"
| "exec A k (Call_bool v) c = Some (CBB_add_asn1_bool A k v c)"
| "exec A k (Call_oid txt) c = Some (CBB_add_asn1_oid_from_text A k txt c)"
| "exec A k (Call_set_of got) c = Some (CBB_flush_asn1_set_of A got k c)"

text \<open>Sizes are those of objects in memory.\<close>

fun call_ok :: "call \<Rightarrow> bool" where
  "call_ok (Call_bytes bs) = (length bs < 2 ^ 64)"
| "call_ok (Call_octets bs) = (length bs < 2 ^ 64)"
| "call_ok (Call_zeros n) = (n < 2 ^ 64)"
| "call_ok _ = True"

text \<open>Whether the call is undefined in a state, and whether every failure of it on an open object sets the error flag.
  \<^verbatim>\<open>CBB_did_write\<close>, \<^verbatim>\<open>CBB_add_asn1_oid_from_text\<close> and \<^verbatim>\<open>CBB_flush_asn1_set_of\<close> also fail on their arguments, and then
  leave the flag alone.\<close>

definition undefined_call :: "nat \<Rightarrow> call \<Rightarrow> CBB \<Rightarrow> bool" where
  "undefined_call k x c \<longleftrightarrow>
     (case x of Call_did_write n \<Rightarrow> k > length (children c) | Call_discard \<Rightarrow> poisoned c | _ \<Rightarrow> False)"

fun sets_error :: "call \<Rightarrow> bool" where
  "sets_error (Call_did_write n) = False"
| "sets_error (Call_oid txt) = False"
| "sets_error (Call_set_of got) = False"
| "sets_error _ = True"

text \<open>The result of each call and the final state.\<close>

fun run_calls :: "allocator \<Rightarrow> (nat \<times> call) list \<Rightarrow> CBB \<Rightarrow> (bool list \<times> CBB) option" where
  "run_calls A [] c = Some ([], c)"
| "run_calls A ((k, x) # xs) c =
     (case exec A k x c of
        None \<Rightarrow> None
      | Some (ok, c) \<Rightarrow> map_option (\<lambda>(oks, c). (ok # oks, c)) (run_calls A xs c))"

lemmas call_defs = CBB_add_bytes_def CBB_add_zeros_def CBB_add_u16_def CBB_add_u16le_def CBB_add_u24_def CBB_add_u32_def
  CBB_add_u32le_def CBB_add_u64_def CBB_add_u64le_def CBB_add_u8_length_prefixed_def CBB_add_u16_length_prefixed_def
  CBB_add_u24_length_prefixed_def

lemma safe_weaken: "safe A k (Suc k) f \<Longrightarrow> safe A k k f"
  unfolding safe_def using Suc_leD by blast

lemma call_safe:
  assumes A: "allocator_ok A"
  shows "length bs < 2 ^ 64 \<Longrightarrow> safe A k k (CBB_add_bytes A k bs)" and "n < 2 ^ 64 \<Longrightarrow> safe A k k (CBB_add_zeros A k n)"
    and "safe A k k (CBB_add_u16 A k v2)" and "safe A k k (CBB_add_u16le A k v2)" and "safe A k k (CBB_add_u24 A k v4)"
    and "safe A k k (CBB_add_u32 A k v4)" and "safe A k k (CBB_add_u32le A k v4)" and "safe A k k (CBB_add_u64 A k v8)"
    and "safe A k k (CBB_add_u64le A k v8)" and "safe A k k (CBB_add_u8_length_prefixed A k)"
    and "safe A k k (CBB_add_u16_length_prefixed A k)" and "safe A k k (CBB_add_u24_length_prefixed A k)"
    and "safe A k k (CBB_add_asn1 A k t)"
  by (simp_all add: call_defs bytes_safe [OF A] word_safe [OF A] safe_weaken [OF prefixed_safe [OF A]] safe_weaken [OF asn1_safe [OF A]])

text \<open>The calls that are operations on the chain, as functions.\<close>

lemma exec_safe:
  assumes "allocator_ok A" and "call_ok x" and "sets_error x" and "x \<noteq> Call_discard"
  shows "\<exists>f. safe A k k f \<and> (\<forall>c. exec A k x c = Some (f c))"
  using assms
  by (cases x)
     (auto intro: call_safe [simplified] flush_safe space_safe reserve_safe u8_safe asn1_uint64_safe asn1_int64_safe
       asn1_octets_safe [simplified] asn1_bool_safe)

lemma did_write_kept:
  assumes "CBB_wf c" and "CBB_did_write k n c = Some (ok, c')"
  shows "cbb_kept c c'"
proof (cases "cbb_base c")
  case (Some b)
  have "nested (children c) 0 (unat (b_len b + n))" if "\<not> b_len b + n < b_len b"
    using assms(1) Some that nested_mono [of "children c" 0 "unat (b_len b)"] by (auto simp: CBB_wf_def word_less_nat_alt)
  then show ?thesis
    using assms Some by (auto simp: CBB_did_write_def Let_def cbb_kept_def CBB_wf_def buffer_wf_def split: if_splits)
qed (use assms in \<open>simp add: CBB_did_write_def\<close>)

lemma discard_kept:
  assumes "CBB_wf c" and "CBB_discard_child k c = Some c'"
  shows "cbb_kept c c'"
proof (cases "k < length (children c)")
  case True
  then obtain b where b: "cbb_base c = Some b"
      "c' = c\<lparr>cbb_base := Some (b\<lparr>b_len := c_offset (children c ! k)\<rparr>), children := take k (children c)\<rparr>"
    using assms(2) by (auto simp: CBB_discard_child_def split: option.splits)
  have "nested (children c) 0 (unat (b_len b))" "buffer_wf b" using assms(1) b(1) by (simp_all add: CBB_wf_def)
  moreover note nested_nth [OF this(1) True]
  ultimately show ?thesis
    using assms(1) b(1) by (auto simp: b(2) cbb_kept_def CBB_wf_def buffer_wf_def list_all_take word_le_nat_alt)
qed (use assms cbb_kept_refl in \<open>auto simp: CBB_discard_child_def\<close>)

lemma exec_kept:
  assumes "allocator_ok A" and "call_ok x" and wf: "CBB_wf c" and run: "exec A k x c = Some (ok, c')"
  shows "cbb_kept c c'"
proof (cases "sets_error x \<and> x \<noteq> Call_discard")
  case True
  then obtain f where f: "safe A k k f" "\<And>c. exec A k x c = Some (f c)"
    using exec_safe [OF assms(1,2)] by blast
  from tameD [OF safe_tame [OF f(1)] wf] show ?thesis using run f(2) by simp
next
  case False
  then show ?thesis
    using run did_write_kept [OF wf] discard_kept [OF wf] tameD [OF oid_tame [OF assms(1)] wf] tameD [OF set_of_tame [OF assms(1)] wf]
    by (cases x) (auto split: if_splits)
qed

lemma exec_None:
  assumes "cbb_base c \<noteq> None"
  shows "exec A k x c = None \<longleftrightarrow> undefined_call k x c"
  using assms
  by (cases x) (auto simp: undefined_call_def CBB_did_write_def CBB_discard_child_def Let_def split: option.splits)

lemma run_calls_kept:
  assumes A: "allocator_ok A"
  shows "CBB_wf c \<Longrightarrow> list_all (call_ok \<circ> snd) xs \<Longrightarrow> run_calls A xs c = Some (oks, c') \<Longrightarrow> cbb_kept c c'"
proof (induction xs arbitrary: c oks)
  case Nil
  then show ?case by (simp add: cbb_kept_refl)
next
  case (Cons kx xs)
  obtain k x where kx: "kx = (k, x)" by force
  obtain ok1 c1 oks1 where r: "exec A k x c = Some (ok1, c1)" "run_calls A xs c1 = Some (oks1, c')"
    using Cons.prems(3) kx by (auto split: option.splits)
  have s: "cbb_kept c c1" using exec_kept [OF A _ Cons.prems(1) r(1)] Cons.prems(2) kx by simp
  show ?case using Cons.IH [OF cbb_kept_wf [OF s] _ r(2)] Cons.prems(2) cbb_kept_trans [OF s] by simp
qed

lemma run_calls_None:
  assumes A: "allocator_ok A"
  shows "CBB_wf c \<Longrightarrow> cbb_base c \<noteq> None \<Longrightarrow> list_all (call_ok \<circ> snd) xs \<Longrightarrow> run_calls A xs c = None \<Longrightarrow>
     \<exists>ys k x zs oks c'. xs = ys @ (k, x) # zs \<and> run_calls A ys c = Some (oks, c') \<and> undefined_call k x c'"
proof (induction xs arbitrary: c)
  case (Cons kx xs)
  obtain k x where kx: "kx = (k, x)" by force
  show ?case
  proof (cases "exec A k x c")
    case None
    then have "undefined_call k x c" using exec_None [OF Cons.prems(2)] by simp
    then show ?thesis using kx by (intro exI [of _ "[]"]) auto
  next
    case (Some r)
    obtain ok1 c1 where r: "exec A k x c = Some (ok1, c1)" using Some by (cases r) simp
    have s: "cbb_kept c c1" using exec_kept [OF A _ Cons.prems(1) r] Cons.prems(3) kx by simp
    then have "cbb_base c1 \<noteq> None" using Cons.prems(2) by (auto simp: cbb_kept_def split: option.splits)
    moreover have "run_calls A xs c1 = None" using Cons.prems(4) kx r by simp
    ultimately obtain ys j y zs oks c' where "xs = ys @ (j, y) # zs" "run_calls A ys c1 = Some (oks, c')" "undefined_call j y c'"
      using Cons.IH [OF cbb_kept_wf [OF s]] Cons.prems(3) by auto
    then show ?thesis using kx r by (intro exI [of _ "kx # ys"]) auto
  qed
qed simp

section \<open>Errors stick\<close>

lemma flush_poisoned: "poisoned c \<Longrightarrow> CBB_flush A k c = (False, c)"
  by (cases "cbb_base c") (simp_all add: poisoned_def CBB_flush.simps [of A k c])

lemma exec_failure:
  assumes "allocator_ok A" and "call_ok x" and "sets_error x" and "CBB_wf c" and "cbb_base c \<noteq> None" and "k \<le> length (children c)"
    and "exec A k x c = Some (False, c')"
  shows "poisoned c'"
proof -
  have x: "x \<noteq> Call_discard" using assms(7) by (auto split: if_splits)
  obtain f where f: "safe A k k f" "\<And>c. exec A k x c = Some (f c)"
    using exec_safe [OF assms(1-3) x] by blast
  from safeD(4) [OF f(1) assms(4), of False c'] show ?thesis using assms(5-7) f(2) by simp
qed

lemma exec_poisoned:
  assumes "poisoned c" and "exec A k x c = Some (ok, c')"
  shows "poisoned c' \<and> ((\<forall>n. x \<noteq> Call_did_write n) \<longrightarrow> \<not> ok \<and> c' = c)"
proof (cases "\<exists>n. x = Call_did_write n")
  case True
  then show ?thesis using assms by (auto simp: CBB_did_write_def poisoned_def Let_def split: option.splits if_splits)
next
  case False
  have "exec A k x c = None \<or> exec A k x c = Some (False, c)"
    using False flush_poisoned [OF assms(1)] assms(1)
    by (cases x) (simp_all add: call_defs CBB_add_u8_def CBB_add_space_def CBB_reserve_def CBB_add_asn1_uint64_def CBB_add_asn1_int64_def
      CBB_add_asn1_octet_string_def CBB_add_asn1_bool_def CBB_add_asn1_oid_from_text_def CBB_flush_asn1_set_of_def
      cbb_add_length_prefixed_def CBB_add_asn1_def flush_then_def cbb_then_def Let_def)
  then show ?thesis using assms by auto
qed

lemma run_calls_poisoned:
  "poisoned c \<Longrightarrow> run_calls A xs c = Some (oks, c') \<Longrightarrow>
     poisoned c' \<and> ((\<forall>k n. (k, Call_did_write n) \<notin> set xs) \<longrightarrow> oks = replicate (length xs) False \<and> c' = c)"
proof (induction xs arbitrary: c oks)
  case (Cons kx xs)
  obtain k x where kx: "kx = (k, x)" by force
  obtain ok1 c1 oks1 where r: "exec A k x c = Some (ok1, c1)" "run_calls A xs c1 = Some (oks1, c')" "oks = ok1 # oks1"
    using Cons.prems(2) kx by (auto split: option.splits)
  note p = exec_poisoned [OF Cons.prems(1) r(1)]
  note q = Cons.IH [OF conjunct1 [OF p] r(2)]
  show ?case
  proof (intro conjI impI)
    show "poisoned c'" using q by simp
    assume a: "\<forall>k n. (k, Call_did_write n) \<notin> set (kx # xs)"
    then have "\<not> ok1 \<and> c1 = c" using p kx by auto
    moreover have "oks1 = replicate (length xs) False \<and> c' = c1" using q a by auto
    ultimately show "oks = replicate (length (kx # xs)) False" "c' = c" using r(3) by auto
  qed
qed simp

end
