(* ===== verification/CbbClaims.thy ===== *)
theory CbbClaims
  imports CbbSafety
begin

text \<open>
  Properties of the builder, and its round trip with the parser.
\<close>

section \<open>Signed integers back\<close>

lemma strip_sign_extend: "\<exists>n. bs = replicate n 0xff @ strip_sign bs \<and> (n \<noteq> 0 \<longrightarrow> strip_sign bs \<noteq> [] \<and> hd (strip_sign bs) AND 0x80 \<noteq> 0)"
proof (induction bs rule: strip_sign.induct)
  case (1 a b bs)
  show ?case
  proof (cases "a = 0xff \<and> b AND 0x80 \<noteq> 0")
    case True
    then obtain n where n: "b # bs = replicate n 0xff @ strip_sign (b # bs)"
        "n \<noteq> 0 \<longrightarrow> strip_sign (b # bs) \<noteq> [] \<and> hd (strip_sign (b # bs)) AND 0x80 \<noteq> 0"
      using 1 by blast
    have "hd (strip_sign (b # bs)) AND 0x80 \<noteq> 0"
      using n True by (cases n) (metis append_Nil list.sel(1) replicate_0, simp)
    then show ?thesis
      using True n(1) by (intro exI [of _ "Suc n"]) simp
  qed (intro exI [of _ 0]; auto)
qed (intro exI [of _ 0]; simp)+

lemma strip_sign_minimal: "strip_sign bs = a # b # cs \<Longrightarrow> \<not> (a = 0xff \<and> b AND 0x80 \<noteq> 0)"
  by (induction bs rule: strip_sign.induct) (auto split: if_splits)

lemma sint_neg_iff: "0 \<le> sint (v :: 64 word) \<longleftrightarrow> \<not> bit v 63"
  using bit_last_iff [of v] by (simp add: not_less [symmetric])

lemma hd_be_bytes: "hd (be_bytes 8 v) = ucast (drop_bit 56 v)"
proof -
  have "be_bytes 8 v = [ucast (drop_bit 56 v), ucast (drop_bit 48 v), ucast (drop_bit 40 v), ucast (drop_bit 32 v),
      ucast (drop_bit 24 v), ucast (drop_bit 16 v), ucast (drop_bit 8 v), ucast v]"
    by (simp add: numeral_eq_Suc)
  then show ?thesis by simp
qed

lemma hd_be_bytes_sign: "hd (be_bytes 8 v) AND 0x80 \<noteq> 0 \<longleftrightarrow> sint v < 0"
proof -
  have "sint v < 0 \<longleftrightarrow> bit v 63" using sint_neg_iff [of v] by linarith
  then show ?thesis by (simp add: hd_be_bytes and_80_eq_0 bit_simps)
qed

lemma be_bytes_back: "be_value (be_bytes 8 v) = v"
proof -
  have "take_bit 64 v = v" by (rule bit_eqI) (auto simp: bit_simps dest: bit_imp_le_length)
  then show ?thesis by (simp add: be_value_be_bytes)
qed

lemma put_at_0_replicate: "length xs \<le> n \<Longrightarrow> put_at (replicate n x) 0 xs = xs @ replicate (n - length xs) x"
  by (simp add: put_at_def)

lemma int_content_negative:
  assumes "sint v < 0"
  shows "CBS_is_valid_asn1_integer (int_content v) = (True, True)" "length (int_content v) \<le> 8"
    "le_value (put_at (replicate 8 0xff) 0 (rev (int_content v))) = v"
proof -
  let ?c = "strip_sign (be_bytes 8 v)"
  have c: "int_content v = ?c" using assms by (simp add: int_content_def)
  show len: "length (int_content v) \<le> 8" using length_strip_sign [of "be_bytes 8 v"] by (simp add: c)
  obtain n where n: "be_bytes 8 v = replicate n 0xff @ ?c" "n \<noteq> 0 \<longrightarrow> ?c \<noteq> [] \<and> hd ?c AND 0x80 \<noteq> 0"
    using strip_sign_extend by blast
  have hd: "hd ?c AND 0x80 \<noteq> 0"
    using n hd_be_bytes_sign [of v] assms by (cases n) auto
  have ne: "?c \<noteq> []" by (metis length_be_bytes list.size(3) strip_sign_Nil zero_neq_numeral)
  show "CBS_is_valid_asn1_integer (int_content v) = (True, True)"
    unfolding c using hd ne strip_sign_minimal [of "be_bytes 8 v"]
    by (cases ?c rule: strip_sign.cases) (auto simp: CBS_is_valid_asn1_integer_def)
  have "n = 8 - length ?c" using n(1) by (metis add_diff_cancel_right' length_append length_be_bytes length_replicate)
  then show "le_value (put_at (replicate 8 0xff) 0 (rev (int_content v))) = v"
    using len n(1) be_bytes_back [of v] by (simp add: c put_at_0_replicate le_value_def)
qed


lemma be_value_zeros [simp]: "be_value (replicate n 0 @ xs) = be_value xs"
  by (induction n) simp_all

lemma int_content_nonnegative:
  assumes "0 \<le> sint v"
  shows "CBS_is_valid_asn1_integer (int_content v) = (True, False)" "length (int_content v) \<le> 8"
    "le_value (put_at (replicate 8 0) 0 (rev (int_content v))) = v"
proof -
  let ?bs = "dropWhile (\<lambda>b. b = 0) (be_bytes 8 v)"
  have c: "int_content v = uint_content v" using assms by (simp add: int_content_def)
  show "CBS_is_valid_asn1_integer (int_content v) = (True, False)"
    using uint64_content_complete(1) [of v]
    by (auto simp: c CBS_is_unsigned_asn1_integer_def split: prod.splits)
  have "be_value ?bs = v" using be_bytes_back by (simp add: be_value_dropWhile)
  then have v: "be_value (uint_content v) = v"
    by (cases ?bs) (auto simp: uint_content_def Let_def simp del: dropWhile_eq_Nil_conv)
  have "be_bytes 8 v \<noteq> []" by (metis length_be_bytes list.size(3) zero_neq_numeral)
  then have "?bs = be_bytes 8 v \<or> length ?bs < 8"
    using length_dropWhile_le [of "\<lambda>b. b = 0" "tl (be_bytes 8 v)"] by (cases "be_bytes 8 v") (auto dest: arg_cong [of _ _ length])
  then show len: "length (int_content v) \<le> 8"
    using hd_be_bytes_sign [of v] assms by (auto simp: c uint_content_def Let_def)
  then show "le_value (put_at (replicate 8 0) 0 (rev (int_content v))) = v"
    using v by (simp add: c put_at_0_replicate le_value_def)
qed

lemma asn1_int64_back:
  assumes "length rest < 2 ^ 62"
  shows "CBS_get_asn1_int64 (der CBS_ASN1_INTEGER (int_content v) @ rest) = (Some v, rest)"
proof -
  have len: "length (int_content v) \<le> 8"
    using int_content_negative int_content_nonnegative by (cases "0 \<le> sint v") auto
  then have "length (der CBS_ASN1_INTEGER (int_content v) @ rest) < 2 ^ 63"
    using assms by (simp add: der_def tag_bytes_def length_bytes_def)
  then have "CBS_get_asn1 CBS_ASN1_INTEGER (der CBS_ASN1_INTEGER (int_content v) @ rest) = (Some (int_content v), rest)"
    using len by (simp add: CBS_get_asn1_iff)
  then show ?thesis
    using int_content_negative [of v] int_content_nonnegative [of v] len
    by (cases "0 \<le> sint v") (auto simp: CBS_get_asn1_int64_def cbs_bind_def cbs_return_def not_le)
qed

section \<open>Properties\<close>

text \<open>C34. The builder is correct: a structure of strings, length-prefixed strings and ASN.1 elements, nested to any
  depth and written in order to a growing buffer of any initial capacity, is built without error and
  \<^verbatim>\<open>CBB_finish\<close> returns exactly its serialization, with every prefix filled in and DER lengths of the
  shortest form, provided each string fits its prefix and memory does not run out.\<close>

theorem builder_correct:
  assumes "memory_ok A" and "unat cap < 2 ^ 62" and "items_ok xs" and "length (serialize_all xs) < 2 ^ 61"
  shows "\<exists>c c' c''. CBB_init A True cap = (True, c) \<and> build_all A 0 xs c = (True, c') \<and>
    CBB_finish A 0 True c' = (Some (serialize_all xs), c'') \<and> cbb_base c'' = None"
proof -
  obtain c where c: "CBB_init A True cap = (True, c)" "represents A (length (serialize_all xs)) c [(Plain 0, [])]"
    using init_ok [OF assms(1,2,4)] by blast
  then show ?thesis using run_and_finish [OF appends_build(2) [OF assms(3)] c(2)] by blast
qed

definition plain_allocator :: allocator where
  "plain_allocator n = (if unat n < 2 ^ 62 then Some (replicate (unat n) 0) else None)"

lemma memory_ok_plain: "memory_ok plain_allocator"
  by (auto simp: memory_ok_def allocator_ok_def plain_allocator_def)

theorem builder_correct_witness:
  "\<exists>c c' c''. CBB_init plain_allocator True 0 = (True, c) \<and>
     build_all plain_allocator 0 [Element 0x20000010 [Element 4 [Raw [0xAA]], Prefixed 2 [Raw [1, 2]]]] c = (True, c') \<and>
     CBB_finish plain_allocator 0 True c' = (Some [0x30, 0x07, 0x04, 0x01, 0xAA, 0x00, 0x02, 1, 2], c'') \<and> cbb_base c'' = None"
proof -
  let ?xs = "[Element 0x20000010 [Element 4 [Raw [0xAA]], Prefixed 2 [Raw [1, 2 :: byte]]]]"
  have s: "serialize_all ?xs = [0x30, 0x07, 0x04, 0x01, 0xAA, 0x00, 0x02, 1, 2]" by code_simp
  have "length (serialize_all [Element 4 [Raw [0xAA]], Prefixed 2 [Raw [1, 2 :: byte]]]) = 7" by code_simp
  then have "items_ok ?xs" by simp
  then have "\<exists>c c' c''. CBB_init plain_allocator True 0 = (True, c) \<and> build_all plain_allocator 0 ?xs c = (True, c') \<and>
      CBB_finish plain_allocator 0 True c' = (Some (serialize_all ?xs), c'') \<and> cbb_base c'' = None"
    by (intro builder_correct memory_ok_plain) (simp_all only: s, simp_all)
  then show ?thesis unfolding s .
qed

text \<open>With a caller's buffer of fixed size the same holds for every structure whose serialization fits the
  buffer: no part of the buffer is lost to bookkeeping, and no allocation is made.\<close>

theorem builder_fixed_correct:
  assumes "allocator_ok A" and "length buf = unat len" and "length buf < 2 ^ 63" and "items_ok xs"
    and "length (serialize_all xs) \<le> length buf"
  shows "\<exists>c c' c''. CBB_init_fixed True buf len = (True, c) \<and> build_all A 0 xs c = (True, c') \<and>
    CBB_finish A 0 True c' = (Some (serialize_all xs), c'')"
proof -
  obtain c where c: "CBB_init_fixed True buf len = (True, c)" "represents A (length buf) c [(Plain 0, [])]"
    using init_fixed_ok [OF assms(1-3)] by blast
  then show ?thesis using run_and_finish [OF appends_build(2) [OF assms(4)] c(2) assms(5)] by blast
qed

theorem builder_fixed_correct_witness:
  "\<exists>c c' c''. CBB_init_fixed True [0, 0, 0] 3 = (True, c) \<and> build_all (\<lambda>_. None) 0 [Prefixed 1 [Raw [7, 8]]] c = (True, c') \<and>
    CBB_finish (\<lambda>_. None) 0 True c' = (Some [2, 7, 8], c'')"
proof -
  have "serialize_all [Prefixed 1 [Raw [7, 8 :: byte]]] = [2, 7, 8]" "items_ok [Prefixed 1 [Raw [7, 8 :: byte]]]"
    by code_simp+
  note s = this
  have "\<exists>c c' c''. CBB_init_fixed True [0, 0, 0] 3 = (True, c) \<and> build_all (\<lambda>_. None) 0 [Prefixed 1 [Raw [7, 8]]] c = (True, c') \<and>
      CBB_finish (\<lambda>_. None) 0 True c' = (Some (serialize_all [Prefixed 1 [Raw [7, 8]]]), c'')"
    using s(2) by (intro builder_fixed_correct) (simp_all add: s(1) allocator_ok_def)
  then show ?thesis unfolding s(1) .
qed





text \<open>\<^verbatim>\<open>bytestring.h\<close> says of the error flag that all future operations will fail. \<^verbatim>\<open>CBB_did_write\<close> does not: here it succeeds on a
  builder with an error.\<close>

theorem did_write_after_error:
  "let b = \<lparr>b_buf = [0], b_len = 0, b_cap = 1, can_resize = False, b_error = True\<rparr>; c = \<lparr>cbb_base = Some b, children = []\<rparr>
   in CBB_add_u8 (\<lambda>_. None) 0 7 c = (False, c) \<and> CBB_did_write 0 1 c = Some (True, c\<lparr>cbb_base := Some (b\<lparr>b_len := 1\<rparr>)\<rparr>)"
  by code_simp

text \<open>C38. Signed integers round trip between builder and parser: \<^verbatim>\<open>CBB_add_asn1_int64\<close> of any value on a new
  builder is read back by \<^verbatim>\<open>CBS_get_asn1_int64\<close>, with nothing left over.\<close>

theorem asn1_int64_round_trip:
  assumes "memory_ok A" and "unat cap < 2 ^ 62"
  shows "\<exists>c c' c'' out. CBB_init A True cap = (True, c) \<and> CBB_add_asn1_int64 A 0 v c = (True, c') \<and>
    CBB_finish A 0 True c' = (Some out, c'') \<and> CBS_get_asn1_int64 out = (Some v, [])"
proof -
  let ?out = "der CBS_ASN1_INTEGER (int_content v)"
  obtain c where c: "CBB_init A True cap = (True, c)" "represents A 100 c [(Plain 0, [])]"
    using init_ok [OF assms, of 100] by auto
  have "length (int_content v) \<le> 8"
    using int_content_negative int_content_nonnegative by (cases "0 \<le> sint v") auto
  then have "length ?out \<le> 100" by (simp add: der_def tag_bytes_def length_bytes_def)
  then show ?thesis
    using c run_and_finish [OF puts_appends [OF asn1_int64.adds] c(2), of v] asn1_int64_back [of "[]" v] by fastforce
qed

theorem asn1_int64_round_trip_witness:
  "\<exists>c c' c'' out. CBB_init plain_allocator True 16 = (True, c) \<and> CBB_add_asn1_int64 plain_allocator 0 (- 129) c = (True, c') \<and>
    CBB_finish plain_allocator 0 True c' = (Some out, c'') \<and> CBS_get_asn1_int64 out = (Some (- 129), [])"
  by (rule asn1_int64_round_trip) (simp_all add: memory_ok_plain)

end
