(* ===== verification/Stack.thy ===== *)
theory Stack
  imports Comparison
begin

text \<open>
  BoringSSL's array of pointers (crypto/stack/stack.c). Elements are pointers, of which the code only
  compares addresses; the caller's comparison function is a parameter \<open>F\<close>: \<open>F comp p q\<close> is what
  \<^verbatim>\<open>call_cmp_func(comp, &p, &q)\<close> returns. Memory comes from a parameter: \<open>A n\<close> is the array that an
  allocation of \<open>n\<close> bytes yields, with any content, or \<open>None\<close>. \<^verbatim>\<open>qsort\<close> is a parameter as well, since
  the order of equal elements is up to the library. A null \<^verbatim>\<open>_STACK *\<close> is \<open>None\<close>.
\<close>

section \<open>The code\<close>

type_synonym ptr_allocator = "size_t \<Rightarrow> ptr list option"
type_synonym comparison = "ptr \<Rightarrow> ptr \<Rightarrow> ptr \<Rightarrow> int"
type_synonym sorter = "(ptr \<Rightarrow> ptr \<Rightarrow> int) \<Rightarrow> ptr list \<Rightarrow> ptr list"

record STACK =
  sk_len :: size_t
  sk_data :: "ptr list"
  sk_sorted :: bool
  num_alloc :: size_t
  sk_comp :: ptr

definition kMinSize :: size_t where
  "kMinSize = 4"

definition sizeof_ptr :: size_t where
  "sizeof_ptr = 8"

text \<open>\<open>got\<close>: the structure itself could be allocated.\<close>

definition sk_new :: "ptr_allocator \<Rightarrow> bool \<Rightarrow> ptr \<Rightarrow> STACK option" where
  "sk_new A got cmp =
     (if \<not> got then None
      else (case A (sizeof_ptr * kMinSize) of
              None \<Rightarrow> None
            | Some data \<Rightarrow>
                Some \<lparr>sk_len = 0, sk_data = put_at data 0 (replicate (unat kMinSize) 0), sk_sorted = False,
                      num_alloc = kMinSize, sk_comp = cmp\<rparr>))"

definition sk_new_null :: "ptr_allocator \<Rightarrow> bool \<Rightarrow> STACK option" where
  "sk_new_null A got = sk_new A got 0"

definition sk_num :: "STACK option \<Rightarrow> size_t" where
  "sk_num sk = (case sk of None \<Rightarrow> 0 | Some s \<Rightarrow> sk_len s)"

definition sk_zero :: "STACK option \<Rightarrow> STACK option" where
  "sk_zero sk = (case sk of
     None \<Rightarrow> None
   | Some s \<Rightarrow>
       if sk_len s = 0 then Some s
       else Some (s\<lparr>sk_data := put_at (sk_data s) 0 (replicate (unat (sk_len s)) 0), sk_len := 0, sk_sorted := False\<rparr>))"

definition sk_value :: "STACK option \<Rightarrow> size_t \<Rightarrow> ptr" where
  "sk_value sk i = (case sk of
     None \<Rightarrow> 0
   | Some s \<Rightarrow> if i \<ge> sk_len s then 0 else sk_data s ! unat i)"

definition sk_set :: "STACK option \<Rightarrow> size_t \<Rightarrow> ptr \<Rightarrow> ptr \<times> STACK option" where
  "sk_set sk i v = (case sk of
     None \<Rightarrow> (0, None)
   | Some s \<Rightarrow> if i \<ge> sk_len s then (0, Some s) else (v, Some (s\<lparr>sk_data := (sk_data s)[unat i := v]\<rparr>)))"

text \<open>The elements that \<^verbatim>\<open>sk_pop_free_ex\<close> passes to the free function, in order; the stack is gone.\<close>

definition sk_pop_free_ex :: "STACK option \<Rightarrow> ptr list" where
  "sk_pop_free_ex sk = (case sk of
     None \<Rightarrow> []
   | Some s \<Rightarrow> filter (\<lambda>p. p \<noteq> 0) (map (\<lambda>i. sk_data s ! i) [0..<unat (sk_len s)]))"

definition sk_pop_free :: "STACK option \<Rightarrow> ptr list" where
  "sk_pop_free sk = sk_pop_free_ex sk"

text \<open>The new capacity: double it, or increment it if doubling overflows, or fail.\<close>

definition new_capacity :: "size_t \<Rightarrow> size_t option" where
  "new_capacity old =
     (let overflows = (\<lambda>new_alloc. new_alloc < old \<or> new_alloc * sizeof_ptr div sizeof_ptr \<noteq> new_alloc);
          new_alloc = (if overflows (push_bit 1 old) then old + 1 else push_bit 1 old)
      in if overflows new_alloc then None else Some new_alloc)"

definition grow :: "ptr_allocator \<Rightarrow> STACK \<Rightarrow> STACK option" where
  "grow A s =
     (if num_alloc s \<le> sk_len s + 1 then
        (case new_capacity (num_alloc s) of
           None \<Rightarrow> None
         | Some new_alloc \<Rightarrow>
             (case A (new_alloc * sizeof_ptr) of
                None \<Rightarrow> None
              | Some data \<Rightarrow> Some (s\<lparr>sk_data := put_at data 0 (sk_data s), num_alloc := new_alloc\<rparr>)))
      else Some s)"

definition sk_insert :: "ptr_allocator \<Rightarrow> STACK option \<Rightarrow> ptr \<Rightarrow> size_t \<Rightarrow> size_t \<times> STACK option" where
  "sk_insert A sk p pos = (case sk of
     None \<Rightarrow> (0, None)
   | Some s \<Rightarrow>
       (case grow A s of
          None \<Rightarrow> (0, Some s)
        | Some s \<Rightarrow>
            (let data = (if pos \<ge> sk_len s then (sk_data s)[unat (sk_len s) := p]
                         else (put_at (sk_data s) (unat pos + 1)
                                 (take (unat (sk_len s - pos)) (drop (unat pos) (sk_data s))))[unat pos := p]);
                 num = sk_len s + 1
             in (num, Some (s\<lparr>sk_data := data, sk_len := num, sk_sorted := False\<rparr>)))))"

definition sk_delete :: "STACK option \<Rightarrow> size_t \<Rightarrow> ptr \<times> STACK option" where
  "sk_delete sk pos = (case sk of
     None \<Rightarrow> (0, None)
   | Some s \<Rightarrow>
       if pos \<ge> sk_len s then (0, Some s)
       else
         (let data = (if pos \<noteq> sk_len s - 1
                      then put_at (sk_data s) (unat pos)
                             (take (unat (sk_len s - pos - 1)) (drop (unat pos + 1) (sk_data s)))
                      else sk_data s)
          in (sk_data s ! unat pos, Some (s\<lparr>sk_data := data, sk_len := sk_len s - 1\<rparr>))))"

text \<open>\<^verbatim>\<open>for (i = i0; i < num; i++) if (P(data[i])) ...\<close>: the index at which the loop stops, if it does.\<close>

function first_from :: "(ptr \<Rightarrow> bool) \<Rightarrow> STACK \<Rightarrow> size_t \<Rightarrow> size_t option" where
  "first_from P s i =
     (if i < sk_len s then if P (sk_data s ! unat i) then Some i else first_from P s (i + 1) else None)"
  by pat_completeness auto
termination
proof (relation "measure (\<lambda>(P, s, i). unat (sk_len s) - unat i)")
  fix s :: STACK and i :: size_t
  assume "i < sk_len s"
  then have "unat i < unat (sk_len s)" by (simp add: word_less_nat_alt)
  moreover from this have "unat (i + 1) = unat i + 1"
    using unat_lt [of "sk_len s"] by (subst unat_add_no_wrap) simp_all
  ultimately show "((P, s, i + 1), P, s, i) \<in> measure (\<lambda>(P, s, i). unat (sk_len s) - unat i)" for P :: "ptr \<Rightarrow> bool"
    by simp
qed simp

declare first_from.simps [simp del]

definition sk_delete_ptr :: "STACK option \<Rightarrow> ptr \<Rightarrow> ptr \<times> STACK option" where
  "sk_delete_ptr sk p = (case sk of
     None \<Rightarrow> (0, None)
   | Some s \<Rightarrow> (case first_from (\<lambda>q. q = p) s 0 of None \<Rightarrow> (0, Some s) | Some i \<Rightarrow> sk_delete (Some s) i))"

definition sk_is_sorted :: "STACK option \<Rightarrow> bool" where
  "sk_is_sorted sk = (case sk of None \<Rightarrow> True | Some s \<Rightarrow> sk_sorted s)"

text \<open>The binary search.\<close>

lemma mid_bounds:
  fixes lo hi :: size_t
  assumes "lo < hi"
  defines "mid \<equiv> lo + (hi - lo - 1) div 2"
  shows "unat mid = unat lo + (unat hi - unat lo - 1) div 2" and "lo \<le> mid" and "mid < hi"
    and "unat (hi - lo) = unat hi - unat lo"
proof -
  have lt: "unat lo < unat hi" using assms(1) by (simp add: word_less_nat_alt)
  show d: "unat (hi - lo) = unat hi - unat lo" using assms(1) by (simp add: unat_sub_le)
  then have "(1 :: size_t) \<le> hi - lo" using lt by (simp add: word_le_nat_alt)
  then have "unat (hi - lo - 1) = unat hi - unat lo - 1" using d by (simp add: unat_sub_le)
  then have "unat ((hi - lo - 1) div 2) = (unat hi - unat lo - 1) div 2" by (simp add: unat_div)
  then show m: "unat mid = unat lo + (unat hi - unat lo - 1) div 2"
    using lt unat_lt [of hi] by (simp add: mid_def unat_add_no_wrap)
  show "lo \<le> mid" "mid < hi" using lt by (simp_all add: word_le_nat_alt word_less_nat_alt m)
qed

lemma mid_plus_1: "unat ((mid :: size_t) + 1) = unat mid + 1" if "mid < hi" for hi :: size_t
  using that unat_lt [of hi] by (subst unat_add_no_wrap) (simp_all add: word_less_nat_alt)

function binary_search :: "(ptr \<Rightarrow> int) \<Rightarrow> ptr list \<Rightarrow> size_t \<Rightarrow> size_t \<Rightarrow> size_t option" where
  "binary_search cmp data lo hi =
     (if lo < hi then
        (let mid = lo + (hi - lo - 1) div 2; r = cmp (data ! unat mid) in
         if r > 0 then binary_search cmp data (mid + 1) hi
         else if r < 0 then binary_search cmp data lo mid
         else if hi - lo = 1 then Some mid
         else binary_search cmp data lo (mid + 1))
      else None)"
  by pat_completeness auto
termination
proof (relation "measure (\<lambda>(cmp, data, lo, hi). unat hi - unat lo)")
  fix cmp :: "ptr \<Rightarrow> int" and data :: "ptr list" and lo hi mid :: size_t and r :: int
  assume lt: "lo < hi" and mid: "mid = lo + (hi - lo - 1) div 2"
  note b = mid_bounds [OF lt, folded mid]
  have n: "unat lo \<le> unat mid" "unat mid < unat hi" "unat (mid + 1) = unat mid + 1"
    using b(2,3) mid_plus_1 [OF b(3)] by (simp_all add: word_le_nat_alt word_less_nat_alt)
  then show "((cmp, data, mid + 1, hi), cmp, data, lo, hi) \<in> measure (\<lambda>(cmp, data, lo, hi). unat hi - unat lo)"
    and "((cmp, data, lo, mid), cmp, data, lo, hi) \<in> measure (\<lambda>(cmp, data, lo, hi). unat hi - unat lo)"
    by auto
  assume "hi - lo \<noteq> 1"
  then have "unat hi - unat lo \<noteq> 1" using b(4) by (simp add: word_unat_eq_iff)
  then have "unat mid + 1 < unat hi" using b(1) n by linarith
  then show "((cmp, data, lo, mid + 1), cmp, data, lo, hi) \<in> measure (\<lambda>(cmp, data, lo, hi). unat hi - unat lo)"
    using n by auto
qed simp

declare binary_search.simps [simp del]

definition sk_find :: "comparison \<Rightarrow> STACK option \<Rightarrow> ptr \<Rightarrow> size_t option" where
  "sk_find F sk p = (case sk of
     None \<Rightarrow> None
   | Some s \<Rightarrow>
       if sk_comp s = 0 then first_from (\<lambda>q. q = p) s 0
       else if p = 0 then None
       else if \<not> sk_is_sorted (Some s) then first_from (\<lambda>q. F (sk_comp s) p q = 0) s 0
       else binary_search (\<lambda>q. F (sk_comp s) p q) (sk_data s) 0 (sk_len s))"

definition sk_shift :: "STACK option \<Rightarrow> ptr \<times> STACK option" where
  "sk_shift sk = (case sk of
     None \<Rightarrow> (0, None)
   | Some s \<Rightarrow> if sk_len s = 0 then (0, Some s) else sk_delete (Some s) 0)"

text \<open>\<^verbatim>\<open>sk->num\<close> of a null stack would be dereferenced by \<^verbatim>\<open>sk_push\<close>; the model answers 0.\<close>

definition sk_push :: "ptr_allocator \<Rightarrow> STACK option \<Rightarrow> ptr \<Rightarrow> size_t \<times> STACK option" where
  "sk_push A sk p = sk_insert A sk p (sk_num sk)"

definition sk_pop :: "STACK option \<Rightarrow> ptr \<times> STACK option" where
  "sk_pop sk = (case sk of
     None \<Rightarrow> (0, None)
   | Some s \<Rightarrow> if sk_len s = 0 then (0, Some s) else sk_delete (Some s) (sk_len s - 1))"

definition sk_dup :: "ptr_allocator \<Rightarrow> bool \<Rightarrow> STACK option \<Rightarrow> STACK option" where
  "sk_dup A got sk = (case sk of
     None \<Rightarrow> None
   | Some s \<Rightarrow>
       if \<not> got then None
       else (case A (sizeof_ptr * num_alloc s) of
               None \<Rightarrow> None
             | Some data \<Rightarrow>
                 Some \<lparr>sk_len = sk_len s, sk_data = put_at data 0 (take (unat (sk_len s)) (sk_data s)),
                       sk_sorted = sk_sorted s, num_alloc = num_alloc s, sk_comp = sk_comp s\<rparr>))"

definition sk_sort :: "sorter \<Rightarrow> comparison \<Rightarrow> STACK option \<Rightarrow> STACK option" where
  "sk_sort qsort F sk = (case sk of
     None \<Rightarrow> None
   | Some s \<Rightarrow>
       if sk_comp s = 0 \<or> sk_sorted s then Some s
       else
         (let n = unat (sk_len s);
              data = (if sk_len s \<ge> 2 then put_at (sk_data s) 0 (qsort (F (sk_comp s)) (take n (sk_data s))) else sk_data s)
          in Some (s\<lparr>sk_data := data, sk_sorted := True\<rparr>)))"

definition sk_set_cmp_func :: "STACK \<Rightarrow> ptr \<Rightarrow> ptr \<times> STACK" where
  "sk_set_cmp_func s cmp =
     (sk_comp s, s\<lparr>sk_sorted := (if sk_comp s \<noteq> cmp then False else sk_sorted s), sk_comp := cmp\<rparr>)"

text \<open>The loop of \<^verbatim>\<open>sk_deep_copy\<close> over the copied array, from index \<open>i\<close>. \<open>copy\<close> is the caller's copy function
  (a null pointer when it fails); on failure the copies made so far are freed, in order.\<close>

fun copy_loop :: "(ptr \<Rightarrow> ptr) \<Rightarrow> ptr list \<Rightarrow> ptr list \<Rightarrow> ptr list + ptr list" where
  "copy_loop copy acc [] = Inr acc"
| "copy_loop copy acc (p # ps) =
     (if p = 0 then copy_loop copy (acc @ [p]) ps
      else if copy p = 0 then Inl (filter (\<lambda>q. q \<noteq> 0) acc)
      else copy_loop copy (acc @ [copy p]) ps)"

text \<open>The result, or the list of the copies that were freed.\<close>

definition sk_deep_copy :: "ptr_allocator \<Rightarrow> bool \<Rightarrow> (ptr \<Rightarrow> ptr) \<Rightarrow> STACK option \<Rightarrow> ptr list + STACK" where
  "sk_deep_copy A got copy sk = (case sk_dup A got sk of
     None \<Rightarrow> Inl []
   | Some s \<Rightarrow>
       (case copy_loop copy [] (take (unat (sk_len s)) (sk_data s)) of
          Inl freed \<Rightarrow> Inl freed
        | Inr copies \<Rightarrow> Inr (s\<lparr>sk_data := put_at (sk_data s) 0 copies\<rparr>)))"

end
