(* ===== verification/StackList.thy ===== *)
theory StackList
  imports Stack
begin

text \<open>
  The stack implements a list of pointers: insertion and deletion at a position, the two searches, sorting and copying.
  \<open>ptr_sequence\<close> is the interface that the derived operations rely on, interpreted on the code's \<^verbatim>\<open>sk_insert\<close> and
  \<^verbatim>\<open>sk_delete\<close>.
\<close>

section \<open>The stack is a list\<close>

text \<open>The elements, and the invariant: there is always room for one more pointer than in use, and the size of the array in
  bytes is a \<^verbatim>\<open>size_t\<close>.\<close>

definition elems :: "STACK \<Rightarrow> ptr list" where
  "elems s = take (unat (sk_len s)) (sk_data s)"

definition sk_wf :: "STACK \<Rightarrow> bool" where
  "sk_wf s \<longleftrightarrow> unat (sk_len s) < unat (num_alloc s) \<and> length (sk_data s) = unat (num_alloc s) \<and> unat (num_alloc s) * 8 < 2 ^ 64"

definition ptr_alloc_ok :: "ptr_allocator \<Rightarrow> bool" where
  "ptr_alloc_ok A \<longleftrightarrow> (\<forall>n data. A n = Some data \<longrightarrow> length data * 8 = unat n)"

lemma length_elems: "sk_wf s \<Longrightarrow> length (elems s) = unat (sk_len s)"
  by (simp add: elems_def sk_wf_def)

lemma size_check: "(w :: size_t) * sizeof_ptr div sizeof_ptr = w \<longleftrightarrow> unat w * 8 < 2 ^ 64"
proof -
  have "unat (w * 8 div 8) = (unat w * 8 mod 2 ^ 64) div 8" by (simp add: unat_div unat_word_ariths)
  also have "\<dots> = unat w \<longleftrightarrow> unat w * 8 < 2 ^ 64"
  proof
    assume "(unat w * 8 mod 2 ^ 64) div 8 = unat w"
    then have "unat w * 8 \<le> unat w * 8 mod 2 ^ 64" by (metis div_times_less_eq_dividend)
    then show "unat w * 8 < 2 ^ 64" using mod_less_divisor [of "2 ^ 64" "unat w * 8"] by simp
  qed simp
  finally show ?thesis by (simp add: sizeof_ptr_def word_unat_eq_iff)
qed

lemma new_capacity_ok:
  assumes "new_capacity old = Some new" and "unat old * 8 < 2 ^ 64" and "0 < unat old"
  shows "unat old < unat new \<and> unat new * 8 < 2 ^ 64"
proof -
  have dbl: "unat (push_bit 1 old) = 2 * unat old"
    using assms(2) by (simp add: push_bit_eq_mult unat_word_ariths)
  have inc: "unat (old + 1) = unat old + 1"
    using assms(2) by (subst unat_add_no_wrap) simp_all
  have new: "new = push_bit 1 old \<or> new = old + 1" "new * sizeof_ptr div sizeof_ptr = new"
    using assms(1) by (auto simp: new_capacity_def Let_def split: if_splits)
  then show ?thesis
    using assms(3) dbl inc unfolding size_check by auto
qed

text \<open>Growing keeps the elements and makes room for two more.\<close>

lemma grow_ok:
  assumes wf: "sk_wf s" and A: "ptr_alloc_ok A" and g: "grow A s = Some s'"
  shows "sk_wf s'" "elems s' = elems s" "sk_len s' = sk_len s" "unat (sk_len s) + 1 < unat (num_alloc s')"
    "sk_comp s' = sk_comp s"
proof -
  have one: "unat (sk_len s + 1) = unat (sk_len s) + 1"
    using wf by (subst unat_add_no_wrap) (simp_all add: sk_wf_def)
  have "sk_wf s' \<and> elems s' = elems s \<and> sk_len s' = sk_len s \<and> unat (sk_len s) + 1 < unat (num_alloc s') \<and> sk_comp s' = sk_comp s"
  proof (cases "num_alloc s \<le> sk_len s + 1")
    case False
    then show ?thesis using g wf one by (auto simp: grow_def word_le_nat_alt)
  next
    case True
    then obtain new data where n: "new_capacity (num_alloc s) = Some new" "A (new * sizeof_ptr) = Some data"
        "s' = s\<lparr>sk_data := put_at data 0 (sk_data s), num_alloc := new\<rparr>"
      using g by (auto simp: grow_def split: option.splits)
    have cap: "unat (num_alloc s) < unat new \<and> unat new * 8 < 2 ^ 64"
      using new_capacity_ok [OF n(1)] wf by (simp add: sk_wf_def)
    have "length data * 8 = unat (new * sizeof_ptr)" using A n(2) by (simp add: ptr_alloc_ok_def)
    also have "\<dots> = unat new * 8" using cap by (simp add: sizeof_ptr_def unat_word_ariths)
    finally have "length data = unat new" by simp
    then show ?thesis using wf cap n(3) by (auto simp: sk_wf_def elems_def put_at_def)
  qed
  then show "sk_wf s'" "elems s' = elems s" "sk_len s' = sk_len s" "unat (sk_len s) + 1 < unat (num_alloc s')"
    "sk_comp s' = sk_comp s" by blast+
qed

lemma insert_data:
  assumes "w \<le> n" and "n + 1 < length data"
  shows "take (n + 1) ((put_at data (w + 1) (take (n - w) (drop w data)))[w := p]) = take w data @ p # take (n - w) (drop w data)"
proof -
  have "(put_at data (w + 1) (take (n - w) (drop w data)))[w := p] =
      take w data @ p # take (n - w) (drop w data) @ drop (n + 1) data"
    using assms by (simp add: put_at_def upd_conv_take_nth_drop min_def)
  then show ?thesis using assms by (simp add: Suc_diff_le)
qed

lemma delete_data:
  assumes "w < k" and "k \<le> length data"
  shows "take (k - 1) (put_at data w (take (k - w - 1) (drop (w + 1) data))) = take w data @ take (k - w - 1) (drop (w + 1) data)"
    and "length (put_at data w (take (k - w - 1) (drop (w + 1) data))) = length data"
proof -
  have len: "length (take (k - w - 1) (drop (w + 1) data)) = k - w - 1" using assms by simp
  then show "take (k - 1) (put_at data w (take (k - w - 1) (drop (w + 1) data))) = take w data @ take (k - w - 1) (drop (w + 1) data)"
    using take_put_at [of w data "take (k - w - 1) (drop (w + 1) data)"] assms by simp
  show "length (put_at data w (take (k - w - 1) (drop (w + 1) data))) = length data"
    by (rule length_put_at) (use len assms in linarith)
qed

lemma sk_insert_ok:
  assumes wf: "sk_wf s" and A: "ptr_alloc_ok A" and r: "sk_insert A (Some s) p pos = (n, sk')" and ok: "n \<noteq> 0"
  shows "\<exists>s'. sk' = Some s' \<and> sk_wf s' \<and> unat n = length (elems s) + 1 \<and> \<not> sk_sorted s' \<and> sk_comp s' = sk_comp s \<and>
    elems s' = take (unat pos) (elems s) @ p # drop (unat pos) (elems s)"
proof -
  obtain s1 where g: "grow A s = Some s1" using r ok by (auto simp: sk_insert_def split: option.splits)
  note s1 = grow_ok [OF wf A g]
  define k where "k = unat (sk_len s)"
  have one: "unat (sk_len s + 1) = k + 1"
    unfolding k_def using wf by (subst unat_add_no_wrap) (simp_all add: sk_wf_def)
  have room: "k + 1 < length (sk_data s1)" using s1 by (simp add: sk_wf_def k_def)
  have xs: "elems s = take k (sk_data s1)" using s1(2,3) by (simp add: elems_def k_def)
  define data where "data = (if pos \<ge> sk_len s1 then (sk_data s1)[k := p]
      else (put_at (sk_data s1) (unat pos + 1) (take (k - unat pos) (drop (unat pos) (sk_data s1))))[unat pos := p])"
  have sub: "pos < sk_len s \<Longrightarrow> unat (sk_len s - pos) = k - unat pos" by (simp add: unat_sub_le k_def)
  have sk': "sk' = Some (s1\<lparr>sk_data := data, sk_len := sk_len s + 1, sk_sorted := False\<rparr>)" "n = sk_len s + 1"
    using r g s1(3) sub by (auto simp: sk_insert_def data_def Let_def k_def not_le)
  have "take (k + 1) data = take (unat pos) (elems s) @ p # drop (unat pos) (elems s) \<and> length data = length (sk_data s1)"
  proof (cases "pos \<ge> sk_len s1")
    case True
    then have "k \<le> unat pos" using s1(3) by (simp add: word_le_nat_alt k_def)
    moreover have "take (k + 1) ((sk_data s1)[k := p]) = take k (sk_data s1) @ [p]"
      using room by (simp add: upd_conv_take_nth_drop)
    ultimately show ?thesis using True room by (simp add: data_def xs)
  next
    case False
    then have "unat pos < k" using s1(3) by (simp add: word_le_nat_alt k_def)
    then show ?thesis
      using False room insert_data [of "unat pos" k "sk_data s1" p] by (simp add: data_def xs drop_take min_def)
  qed
  then show ?thesis
    using sk' s1 one wf room length_elems [OF wf] by (auto simp: sk_wf_def elems_def k_def)
qed

lemma sk_delete_ok:
  assumes wf: "sk_wf s" and i: "unat pos < length (elems s)"
  shows "\<exists>s'. sk_delete (Some s) pos = (elems s ! unat pos, Some s') \<and> sk_wf s' \<and> sk_sorted s' = sk_sorted s \<and>
    sk_comp s' = sk_comp s \<and> elems s' = take (unat pos) (elems s) @ drop (unat pos + 1) (elems s)"
proof -
  define k where "k = unat (sk_len s)"
  have lt: "unat pos < k" "pos < sk_len s" using i wf by (simp_all add: length_elems k_def word_less_nat_alt)
  then have "(1 :: size_t) \<le> sk_len s" by (simp add: word_le_nat_alt k_def)
  then have last: "unat (sk_len s - 1) = k - 1" by (simp add: unat_sub_le k_def)
  have "unat (sk_len s - pos) = k - unat pos" using lt by (simp add: unat_sub_le k_def)
  moreover from this have "(1 :: size_t) \<le> sk_len s - pos" using lt by (simp add: word_le_nat_alt)
  ultimately have rest: "unat (sk_len s - pos - 1) = k - unat pos - 1" by (simp add: unat_sub_le)
  have room: "k < length (sk_data s)" using wf by (simp add: sk_wf_def k_def)
  define data where "data = (if pos \<noteq> sk_len s - 1
      then put_at (sk_data s) (unat pos) (take (k - unat pos - 1) (drop (unat pos + 1) (sk_data s))) else sk_data s)"
  have "take (k - 1) data = take (unat pos) (elems s) @ drop (unat pos + 1) (elems s) \<and> length data = length (sk_data s)"
  proof (cases "pos = sk_len s - 1")
    case True
    then have "unat pos = k - 1" using last by simp
    then show ?thesis using True lt by (simp add: data_def elems_def k_def)
  next
    case False
    then show ?thesis
      using lt room delete_data [of "unat pos" k "sk_data s"]
      by (simp add: data_def elems_def k_def [symmetric] drop_take min_def)
  qed
  moreover have "sk_delete (Some s) pos = (elems s ! unat pos, Some (s\<lparr>sk_data := data, sk_len := sk_len s - 1\<rparr>))"
    using lt(1) not_le [THEN iffD2, OF lt(2)] rest by (simp add: sk_delete_def data_def elems_def k_def [symmetric])
  ultimately show ?thesis
    using lt last wf by (simp add: sk_wf_def elems_def k_def less_imp_diff_less)
qed

section \<open>Searching\<close>

text \<open>\<open>is_first P xs r\<close>: \<open>r\<close> is the index of the first element of \<open>xs\<close> with \<open>P\<close>, or \<open>None\<close> if there is none.\<close>

definition is_first :: "('a \<Rightarrow> bool) \<Rightarrow> 'a list \<Rightarrow> size_t option \<Rightarrow> bool" where
  "is_first P xs r \<longleftrightarrow> (case r of
     None \<Rightarrow> \<forall>k < length xs. \<not> P (xs ! k)
   | Some i \<Rightarrow> unat i < length xs \<and> P (xs ! unat i) \<and> (\<forall>k < unat i. \<not> P (xs ! k)))"

lemma is_first_unique: "is_first P xs r \<Longrightarrow> is_first P xs r' \<Longrightarrow> r = r'"
proof (cases r; cases r')
  fix i j assume a: "is_first P xs r" "is_first P xs r'" "r = Some i" "r' = Some j"
  then have "\<not> unat i < unat j" "\<not> unat j < unat i" by (auto simp: is_first_def)
  then show "r = r'" using a by (simp add: word_unat_eq_iff)
qed (auto simp: is_first_def)

lemma elems_nth: "sk_wf s \<Longrightarrow> k < length (elems s) \<Longrightarrow> sk_data s ! k = elems s ! k"
  by (simp add: elems_def)

lemma first_from_ok:
  assumes wf: "sk_wf s"
  shows "\<forall>k < unat i. k < length (elems s) \<longrightarrow> \<not> P (elems s ! k) \<Longrightarrow> is_first P (elems s) (first_from P s i)"
proof (induction "unat (sk_len s) - unat i" arbitrary: i rule: less_induct)
  case less
  have len: "length (elems s) = unat (sk_len s)" using wf by (rule length_elems)
  show ?case
  proof (cases "i < sk_len s")
    case False
    then have "unat (sk_len s) \<le> unat i" by (simp add: word_less_nat_alt)
    then show ?thesis using False less.prems len by (subst first_from.simps) (auto simp: is_first_def)
  next
    case True
    then have lt: "unat i < unat (sk_len s)" by (simp add: word_less_nat_alt)
    have i1: "unat (i + 1) = unat i + 1" using mid_plus_1 [OF True] .
    show ?thesis
    proof (cases "P (elems s ! unat i)")
      case P: True
      then show ?thesis
        using True lt less.prems len elems_nth [OF wf] by (subst first_from.simps) (auto simp: is_first_def)
    next
      case notP: False
      have "is_first P (elems s) (first_from P s (i + 1))"
        by (rule less.hyps) (use lt i1 notP less.prems in \<open>auto simp: less_Suc_eq\<close>)
      then show ?thesis
        using True lt notP len elems_nth [OF wf] by (subst first_from.simps) simp
    qed
  qed
qed

lemma signs_ordered:
  assumes ok: "cmp_ok cmp" and sorted: "cmp_sorted cmp xs" and ij: "i \<le> j" "j < length xs"
  shows "cmp p (xs ! j) > 0 \<Longrightarrow> cmp p (xs ! i) > 0" and "cmp p (xs ! i) < 0 \<Longrightarrow> cmp p (xs ! j) < 0"
proof -
  have le: "i \<noteq> j \<Longrightarrow> cmp (xs ! i) (xs ! j) \<le> 0"
    using sorted_wrt_nth_less [OF sorted [unfolded cmp_sorted_def], of i j] ij by simp
  show "cmp p (xs ! i) > 0" if gt: "cmp p (xs ! j) > 0"
  proof (rule ccontr)
    assume "\<not> cmp p (xs ! i) > 0"
    then have "cmp p (xs ! j) \<le> 0" using cmp_trans [OF ok, of p "xs ! i" "xs ! j"] le by (cases "i = j") auto
    then show False using gt by simp
  qed
  show "cmp p (xs ! j) < 0" if lt: "cmp p (xs ! i) < 0"
  proof (rule ccontr)
    assume "\<not> cmp p (xs ! j) < 0"
    then have "cmp (xs ! j) p \<le> 0" using cmp_antisym(1) [OF ok, of "xs ! j" p] by simp
    then have "cmp (xs ! i) p \<le> 0" using cmp_trans [OF ok, of "xs ! i" "xs ! j" p] le by (cases "i = j") auto
    then show False using cmp_antisym(1) [OF ok, of "xs ! i" p] lt by simp
  qed
qed

lemma binary_search_ok:
  assumes ok: "cmp_ok cmp" and sorted: "cmp_sorted cmp xs" and data: "\<And>k. k < length xs \<Longrightarrow> data ! k = xs ! k"
  shows "unat hi \<le> length xs \<Longrightarrow> \<forall>k < length xs. cmp p (xs ! k) = 0 \<longrightarrow> unat lo \<le> k \<Longrightarrow>
    (\<exists>k < length xs. cmp p (xs ! k) = 0) \<longrightarrow> (\<exists>k < unat hi. cmp p (xs ! k) = 0) \<Longrightarrow>
    is_first (\<lambda>q. cmp p q = 0) xs (binary_search (cmp p) data lo hi)"
proof (induction "unat hi - unat lo" arbitrary: lo hi rule: less_induct)
  case less
  show ?case
  proof (cases "lo < hi")
    case False
    then have "unat hi \<le> unat lo" by (simp add: word_less_nat_alt)
    then have "\<not> (\<exists>k < unat hi. cmp p (xs ! k) = 0)"
      using less.prems(1,2) by (meson leD order_less_le_trans)
    then have "is_first (\<lambda>q. cmp p q = 0) xs None" using less.prems(3) by (auto simp: is_first_def)
    then show ?thesis using False by (subst binary_search.simps) simp
  next
    case True
    define mid where "mid = lo + (hi - lo - 1) div 2"
    note b = mid_bounds [OF True, folded mid_def]
    have n: "unat lo \<le> unat mid" "unat mid < unat hi" "unat (mid + 1) = unat mid + 1"
      using b(2,3) mid_plus_1 [OF b(3)] by (simp_all add: word_le_nat_alt word_less_nat_alt)
    then have in_xs: "unat mid < length xs" using less.prems(1) by simp
    let ?r = "cmp p (xs ! unat mid)"
    note signs = signs_ordered [OF ok sorted]
    have step: "binary_search (cmp p) data lo hi =
        (if ?r > 0 then binary_search (cmp p) data (mid + 1) hi else if ?r < 0 then binary_search (cmp p) data lo mid
         else if hi - lo = 1 then Some mid else binary_search (cmp p) data lo (mid + 1))"
      using True by (subst binary_search.simps) (simp add: mid_def [symmetric] data [OF in_xs] Let_def)
    consider "?r > 0" | "?r < 0" | "?r = 0" "hi - lo = 1" | "?r = 0" "hi - lo \<noteq> 1" by linarith
    then show ?thesis
    proof cases
      case 1
      have "unat mid + 1 \<le> k" if "k < length xs" "cmp p (xs ! k) = 0" for k
        using signs(1) [of k "unat mid" p] that 1 in_xs by (cases "k \<le> unat mid") auto
      then have "is_first (\<lambda>q. cmp p q = 0) xs (binary_search (cmp p) data (mid + 1) hi)"
        by (intro less.hyps) (use n less.prems in auto)
      then show ?thesis using step 1 by simp
    next
      case 2
      have "k < unat mid" if "k < length xs" "cmp p (xs ! k) = 0" for k
        using signs(2) [of "unat mid" k p] that 2 by (cases "unat mid \<le> k") auto
      then have "is_first (\<lambda>q. cmp p q = 0) xs (binary_search (cmp p) data lo mid)"
        by (intro less.hyps) (use n in_xs less.prems in auto)
      then show ?thesis using step 2 by simp
    next
      case 3
      then have "unat hi - unat lo = 1" using b(4) by (simp add: word_unat_eq_iff)
      then have "unat mid = unat lo" using n by linarith
      then have "\<forall>k < unat mid. cmp p (xs ! k) \<noteq> 0"
        using less.prems(2) in_xs by (metis leD less_trans)
      then show ?thesis using step 3 in_xs by (simp add: is_first_def)
    next
      case 4
      then have "unat hi - unat lo \<noteq> 1" using b(4) by (simp add: word_unat_eq_iff)
      then have "unat mid + 1 < unat hi" using b(1) n by linarith
      then have "is_first (\<lambda>q. cmp p q = 0) xs (binary_search (cmp p) data lo (mid + 1))"
        using diff_less_mono [of "unat mid + 1" "unat hi" "unat lo"] n 4 less.prems by (intro less.hyps) auto
      then show ?thesis using step 4 by simp
    qed
  qed
qed

text \<open>The meaning of the \<^verbatim>\<open>sorted\<close> flag.\<close>

definition flag_ok :: "comparison \<Rightarrow> STACK \<Rightarrow> bool" where
  "flag_ok F s \<longleftrightarrow> (sk_sorted s \<and> sk_comp s \<noteq> 0 \<longrightarrow> cmp_sorted (F (sk_comp s)) (elems s))"

definition matches :: "comparison \<Rightarrow> STACK \<Rightarrow> ptr \<Rightarrow> ptr \<Rightarrow> bool" where
  "matches F s p q \<longleftrightarrow> (if sk_comp s = 0 then q = p else p \<noteq> 0 \<and> F (sk_comp s) p q = 0)"

lemma sk_find_ok:
  assumes wf: "sk_wf s" and flag: "flag_ok F s" and cmp: "sk_comp s \<noteq> 0 \<Longrightarrow> cmp_ok (F (sk_comp s))"
  shows "is_first (matches F s p) (elems s) (sk_find F (Some s) p)"
proof -
  have first: "is_first P (elems s) (first_from P s 0)" for P by (rule first_from_ok [OF wf]) simp
  consider "sk_comp s = 0" | "sk_comp s \<noteq> 0" "p = 0" | "sk_comp s \<noteq> 0" "p \<noteq> 0" "\<not> sk_sorted s"
    | "sk_comp s \<noteq> 0" "p \<noteq> 0" "sk_sorted s" by blast
  then show ?thesis
  proof cases
    case 4
    have "is_first (\<lambda>q. F (sk_comp s) p q = 0) (elems s) (binary_search (F (sk_comp s) p) (sk_data s) 0 (sk_len s))"
      using 4 flag by (intro binary_search_ok [OF cmp]) (simp_all add: flag_ok_def elems_nth [OF wf] length_elems [OF wf])
    then show ?thesis using 4 by (simp add: sk_find_def sk_is_sorted_def matches_def [abs_def])
  next
    case 2
    then show ?thesis by (simp add: sk_find_def matches_def [abs_def] is_first_def)
  qed (use first in \<open>simp_all add: sk_find_def sk_is_sorted_def matches_def [abs_def]\<close>)
qed

section \<open>The interface of a sequence of pointers\<close>

text \<open>What \<^verbatim>\<open>sk_push\<close>, \<^verbatim>\<open>sk_pop\<close>, \<^verbatim>\<open>sk_shift\<close> and \<^verbatim>\<open>sk_delete_ptr\<close> rely on: insertion and deletion at a
  position. Insertion may fail, which the result 0 reports, and then changes nothing.\<close>

locale ptr_sequence =
  fixes inv :: "'s \<Rightarrow> bool" and seq :: "'s \<Rightarrow> ptr list"
    and ins :: "ptr_allocator \<Rightarrow> 's \<Rightarrow> ptr \<Rightarrow> size_t \<Rightarrow> size_t \<times> 's" and del :: "'s \<Rightarrow> size_t \<Rightarrow> ptr \<times> 's"
  assumes ins_ok: "inv s \<Longrightarrow> ptr_alloc_ok A \<Longrightarrow> ins A s p i = (n, s') \<Longrightarrow> n \<noteq> 0 \<Longrightarrow>
      inv s' \<and> seq s' = take (unat i) (seq s) @ p # drop (unat i) (seq s)"
    and del_ok: "inv s \<Longrightarrow> unat i < length (seq s) \<Longrightarrow>
      \<exists>s'. del s i = (seq s ! unat i, s') \<and> inv s' \<and> seq s' = take (unat i) (seq s) @ drop (unat i + 1) (seq s)"
    and bounded: "inv s \<Longrightarrow> length (seq s) < 2 ^ 64"
begin

lemma push_ok:
  assumes "inv s" and "ptr_alloc_ok A" and "ins A s p (word_of_nat (length (seq s))) = (n, s')" and "n \<noteq> 0"
  shows "inv s' \<and> seq s' = seq s @ [p]"
  using ins_ok [OF assms] bounded [OF assms(1)] by (simp add: unat_of_nat_small)

lemma pop_ok:
  assumes "inv s" and "seq s = xs @ [p]"
  shows "\<exists>s'. del s (word_of_nat (length xs)) = (p, s') \<and> inv s' \<and> seq s' = xs"
  using del_ok [OF assms(1), of "word_of_nat (length xs)"] bounded [OF assms(1)] assms(2) by (simp add: unat_of_nat_small)

lemma shift_ok:
  assumes "inv s" and "seq s = p # xs"
  shows "\<exists>s'. del s 0 = (p, s') \<and> inv s' \<and> seq s' = xs"
  using del_ok [OF assms(1), of 0] assms(2) by simp

lemma insert_delete:
  assumes "inv s" and "ptr_alloc_ok A" and "ins A s p i = (n, s')" and "n \<noteq> 0" and "unat i \<le> length (seq s)"
  shows "\<exists>s''. del s' i = (p, s'') \<and> inv s'' \<and> seq s'' = seq s"
proof -
  have s': "inv s'" "seq s' = take (unat i) (seq s) @ p # drop (unat i) (seq s)" using ins_ok [OF assms(1-4)] by blast+
  then show ?thesis using del_ok [OF s'(1), of i] assms(5) by (simp add: nth_append)
qed

end

definition stack_inv :: "STACK option \<Rightarrow> bool" where
  "stack_inv sk \<longleftrightarrow> (\<exists>s. sk = Some s \<and> sk_wf s)"

definition stack_seq :: "STACK option \<Rightarrow> ptr list" where
  "stack_seq sk = (case sk of None \<Rightarrow> [] | Some s \<Rightarrow> elems s)"

interpretation sk: ptr_sequence stack_inv stack_seq sk_insert sk_delete
proof
  fix sk sk' :: "STACK option" and A p i n
  assume "stack_inv sk"
  then obtain s where s: "sk = Some s" "sk_wf s" by (auto simp: stack_inv_def)
  show "length (stack_seq sk) < 2 ^ 64"
    using s length_elems [OF s(2)] unat_lt [of "sk_len s"] by (simp add: stack_seq_def)
  show "\<exists>s'. sk_delete sk i = (stack_seq sk ! unat i, s') \<and> stack_inv s' \<and>
      stack_seq s' = take (unat i) (stack_seq sk) @ drop (unat i + 1) (stack_seq sk)" if "unat i < length (stack_seq sk)"
    using sk_delete_ok [OF s(2), of i] that s(1) by (auto simp: stack_inv_def stack_seq_def)
  show "stack_inv sk' \<and> stack_seq sk' = take (unat i) (stack_seq sk) @ p # drop (unat i) (stack_seq sk)"
    if "ptr_alloc_ok A" "sk_insert A sk p i = (n, sk')" "n \<noteq> 0"
    using sk_insert_ok [OF s(2) that(1), of p i n sk'] that s(1) by (auto simp: stack_inv_def stack_seq_def)
qed

lemma sk_len_word: "sk_wf s \<Longrightarrow> sk_len s = word_of_nat (length (elems s))"
  by (simp add: length_elems)

lemma sk_len_0: "sk_wf s \<Longrightarrow> sk_len s = 0 \<longleftrightarrow> elems s = []"
  by (metis length_0_conv length_elems unsigned_0 word_unat_eq_iff)

lemma sk_push_ok:
  assumes "stack_inv sk" and "ptr_alloc_ok A" and "sk_push A sk p = (n, sk')" and "n \<noteq> 0"
  shows "stack_inv sk' \<and> stack_seq sk' = stack_seq sk @ [p]"
proof -
  have "sk_num sk = word_of_nat (length (stack_seq sk))"
    using assms(1) by (auto simp: stack_inv_def stack_seq_def sk_num_def sk_len_word)
  then show ?thesis using sk.push_ok [OF assms(1,2)] assms(3,4) by (simp add: sk_push_def)
qed

lemma sk_pop_ok:
  assumes "stack_inv sk"
  shows "stack_seq sk = [] \<Longrightarrow> sk_pop sk = (0, sk)"
    and "stack_seq sk = xs @ [p] \<Longrightarrow> \<exists>sk'. sk_pop sk = (p, sk') \<and> stack_inv sk' \<and> stack_seq sk' = xs"
proof -
  obtain s where s: "sk = Some s" "sk_wf s" using assms by (auto simp: stack_inv_def)
  show "sk_pop sk = (0, sk)" if "stack_seq sk = []"
    using that s sk_len_0 [OF s(2)] by (simp add: sk_pop_def stack_seq_def)
  show "\<exists>sk'. sk_pop sk = (p, sk') \<and> stack_inv sk' \<and> stack_seq sk' = xs" if "stack_seq sk = xs @ [p]"
  proof -
    have "sk_len s - 1 = word_of_nat (length xs)"
      using that s by (simp add: stack_seq_def sk_len_word)
    then show ?thesis
      using sk.pop_ok [OF assms that] that s sk_len_0 [OF s(2)] by (auto simp: sk_pop_def stack_seq_def)
  qed
qed

lemma sk_shift_ok:
  assumes "stack_inv sk"
  shows "stack_seq sk = [] \<Longrightarrow> sk_shift sk = (0, sk)"
    and "stack_seq sk = p # xs \<Longrightarrow> \<exists>sk'. sk_shift sk = (p, sk') \<and> stack_inv sk' \<and> stack_seq sk' = xs"
proof -
  obtain s where s: "sk = Some s" "sk_wf s" using assms by (auto simp: stack_inv_def)
  show "sk_shift sk = (0, sk)" if "stack_seq sk = []"
    using that s sk_len_0 [OF s(2)] by (simp add: sk_shift_def stack_seq_def)
  show "\<exists>sk'. sk_shift sk = (p, sk') \<and> stack_inv sk' \<and> stack_seq sk' = xs" if "stack_seq sk = p # xs"
    using sk.shift_ok [OF assms that] that s sk_len_0 [OF s(2)] by (auto simp: sk_shift_def stack_seq_def)
qed

text \<open>Sequences of pushes, pops and shifts.\<close>

fun push_all :: "ptr_allocator \<Rightarrow> STACK option \<Rightarrow> ptr list \<Rightarrow> STACK option option" where
  "push_all A sk [] = Some sk"
| "push_all A sk (p # ps) = (case sk_push A sk p of (n, sk') \<Rightarrow> if n = 0 then None else push_all A sk' ps)"

fun take_all :: "(STACK option \<Rightarrow> ptr \<times> STACK option) \<Rightarrow> nat \<Rightarrow> STACK option \<Rightarrow> ptr list \<times> STACK option" where
  "take_all f 0 sk = ([], sk)"
| "take_all f (Suc n) sk = (case f sk of (p, sk') \<Rightarrow> (case take_all f n sk' of (ps, sk'') \<Rightarrow> (p # ps, sk'')))"

lemma push_all_ok:
  "stack_inv sk \<Longrightarrow> ptr_alloc_ok A \<Longrightarrow> push_all A sk ps = Some sk' \<Longrightarrow> stack_inv sk' \<and> stack_seq sk' = stack_seq sk @ ps"
proof (induction ps arbitrary: sk)
  case (Cons p ps)
  obtain n sk1 where r: "sk_push A sk p = (n, sk1)" "n \<noteq> 0" using Cons.prems(3) by (auto split: prod.splits if_splits)
  note s1 = sk_push_ok [OF Cons.prems(1,2) r]
  show ?case using Cons.IH [of sk1] s1 Cons.prems(2,3) r by simp
qed simp

lemma pop_all_ok:
  "stack_inv sk \<Longrightarrow> stack_seq sk = xs @ ps \<Longrightarrow>
     \<exists>sk'. take_all sk_pop (length ps) sk = (rev ps, sk') \<and> stack_inv sk' \<and> stack_seq sk' = xs"
proof (induction ps arbitrary: sk rule: rev_induct)
  case (snoc p ps)
  obtain sk1 where s1: "sk_pop sk = (p, sk1)" "stack_inv sk1" "stack_seq sk1 = xs @ ps"
    using sk_pop_ok(2) [OF snoc.prems(1), of "xs @ ps" p] snoc.prems(2) by auto
  then show ?case using snoc.IH [OF s1(2,3)] by auto
qed simp

lemma shift_all_ok:
  "stack_inv sk \<Longrightarrow> stack_seq sk = ps @ xs \<Longrightarrow>
     \<exists>sk'. take_all sk_shift (length ps) sk = (ps, sk') \<and> stack_inv sk' \<and> stack_seq sk' = xs"
proof (induction ps arbitrary: sk)
  case (Cons p ps)
  obtain sk1 where s1: "sk_shift sk = (p, sk1)" "stack_inv sk1" "stack_seq sk1 = ps @ xs"
    using sk_shift_ok(2) [OF Cons.prems(1), of p "ps @ xs"] Cons.prems(2) by auto
  then show ?case using Cons.IH [OF s1(2,3)] by auto
qed simp

section \<open>The remaining operations\<close>

lemma elems_put: "length xs = unat (sk_len s) \<Longrightarrow> elems (s\<lparr>sk_data := put_at d 0 xs\<rparr>) = xs"
  by (simp add: elems_def put_at_def)

lemma sk_sort_ok:
  assumes wf: "sk_wf s" and q: "qsort_ok qsort" and flag: "flag_ok F s" and cmp: "sk_comp s \<noteq> 0 \<Longrightarrow> cmp_ok (F (sk_comp s))"
  shows "\<exists>s'. sk_sort qsort F (Some s) = Some s' \<and> sk_wf s' \<and> flag_ok F s' \<and> mset (elems s') = mset (elems s) \<and>
    sk_comp s' = sk_comp s \<and> (sk_comp s \<noteq> 0 \<longrightarrow> sk_sorted s')"
proof (cases "sk_comp s = 0 \<or> sk_sorted s")
  case True
  then show ?thesis using wf flag by (auto simp: sk_sort_def)
next
  case False
  then have cmp: "cmp_ok (F (sk_comp s))" using cmp by blast
  show ?thesis
  proof (cases "sk_len s \<ge> 2")
    case True
    let ?xs = "qsort (F (sk_comp s)) (elems s)"
    have xs: "mset ?xs = mset (elems s)" "cmp_sorted (F (sk_comp s)) ?xs" using q cmp by (simp_all add: qsort_ok_def)
    then have len: "length ?xs = unat (sk_len s)" using length_elems [OF wf] by (metis size_mset)
    let ?s = "s\<lparr>sk_data := put_at (sk_data s) 0 ?xs, sk_sorted := True\<rparr>"
    have "elems ?s = ?xs" using len by (simp add: elems_def put_at_def)
    moreover have "sk_sort qsort F (Some s) = Some ?s" using False True by (simp add: sk_sort_def elems_def)
    moreover have "sk_wf ?s" using wf len by (simp add: sk_wf_def)
    ultimately show ?thesis using xs by (simp add: flag_ok_def)
  next
    case short: False
    then have "unat (sk_len s) < 2" by (simp add: word_le_nat_alt)
    then have "length (elems s) < 2" by (simp add: length_elems [OF wf])
    then have "cmp_sorted (F (sk_comp s)) (elems s)"
      by (cases "elems s" rule: remdups_adj.cases) (simp_all add: cmp_sorted_def)
    then show ?thesis using False short wf by (simp add: sk_sort_def flag_ok_def sk_wf_def elems_def)
  qed
qed

lemma cmp_sorted_delete: "cmp_sorted cmp xs \<Longrightarrow> cmp_sorted cmp (take i xs @ drop (Suc i) xs)"
proof -
  assume "cmp_sorted cmp xs"
  then have s: "sorted_wrt (\<lambda>a b. cmp a b \<le> 0) (take i xs @ drop i xs)" by (simp add: cmp_sorted_def)
  then have s: "sorted_wrt (\<lambda>a b. cmp a b \<le> 0) (take i xs)" "sorted_wrt (\<lambda>a b. cmp a b \<le> 0) (drop i xs)"
    "\<forall>x \<in> set (take i xs). \<forall>y \<in> set (drop i xs). cmp x y \<le> 0"
    unfolding sorted_wrt_append by blast+
  have "set (drop (Suc i) xs) \<subseteq> set (drop i xs)" by (rule set_drop_subset_set_drop) simp
  moreover have "sorted_wrt (\<lambda>a b. cmp a b \<le> 0) (drop 1 (drop i xs))"
    using s(2) by (rule sorted_wrt_drop)
  ultimately show ?thesis using s by (auto simp: cmp_sorted_def sorted_wrt_append)
qed

lemma sk_delete_flag:
  assumes "sk_wf s" and "flag_ok F s" and "sk_delete (Some s) i = (p, Some s')"
  shows "sk_wf s' \<and> flag_ok F s'"
proof (cases "unat i < length (elems s)")
  case True
  then show ?thesis
    using sk_delete_ok [OF assms(1) True] assms(2,3) by (auto simp: flag_ok_def cmp_sorted_delete)
next
  case False
  then have "i \<ge> sk_len s" using length_elems [OF assms(1)] by (simp add: word_le_nat_alt)
  then show ?thesis using assms by (simp add: sk_delete_def)
qed

lemma sk_dup_ok:
  assumes "sk_wf s" and "ptr_alloc_ok A" and "sk_dup A got (Some s) = Some s'"
  shows "sk_wf s' \<and> elems s' = elems s \<and> sk_sorted s' = sk_sorted s \<and> sk_comp s' = sk_comp s"
proof -
  obtain data where d: "A (sizeof_ptr * num_alloc s) = Some data"
      "s' = \<lparr>sk_len = sk_len s, sk_data = put_at data 0 (elems s), sk_sorted = sk_sorted s, num_alloc = num_alloc s, sk_comp = sk_comp s\<rparr>"
    using assms(3) by (auto simp: sk_dup_def elems_def split: if_splits option.splits)
  have "length data * 8 = unat (sizeof_ptr * num_alloc s)" using assms(2) d(1) by (simp add: ptr_alloc_ok_def)
  also have "\<dots> = unat (num_alloc s) * 8" using assms(1) by (simp add: sizeof_ptr_def unat_word_ariths sk_wf_def)
  finally have "length data = unat (num_alloc s)" by simp
  then show ?thesis
    using assms(1) d(2) length_elems [OF assms(1)] by (auto simp: sk_wf_def elems_def put_at_def)
qed

lemma copy_loop_ok:
  "copy_loop copy acc ps = (if \<exists>p \<in> set ps. p \<noteq> 0 \<and> copy p = 0
     then Inl (filter (\<lambda>q. q \<noteq> 0) (acc @ map (\<lambda>p. if p = 0 then 0 else copy p) (takeWhile (\<lambda>p. p = 0 \<or> copy p \<noteq> 0) ps)))
     else Inr (acc @ map (\<lambda>p. if p = 0 then 0 else copy p) ps))"
  by (induction copy acc ps rule: copy_loop.induct) auto

lemma first_split:
  assumes "is_first (\<lambda>q. q = p) xs (Some i)"
  shows "xs ! unat i = p" "p \<in> set xs" "unat i < length xs" "take (unat i) xs @ drop (unat i + 1) xs = remove1 p xs"
proof -
  have i: "unat i < length xs" "xs ! unat i = p" "\<forall>k < unat i. xs ! k \<noteq> p" using assms by (simp_all add: is_first_def)
  then show "xs ! unat i = p" "p \<in> set xs" "unat i < length xs" by auto
  have "xs = take (unat i) xs @ p # drop (unat i + 1) xs" using i id_take_nth_drop by force
  moreover have "p \<notin> set (take (unat i) xs)" using i(1,3) by (auto simp: in_set_conv_nth)
  ultimately show "take (unat i) xs @ drop (unat i + 1) xs = remove1 p xs"
    by (metis remove1.simps(2) remove1_append)
qed

lemma sk_delete_total:
  assumes "sk_wf s"
  shows "\<exists>s'. sk_delete (Some s) i = (if unat i < length (elems s) then elems s ! unat i else 0, Some s') \<and> sk_wf s' \<and>
    elems s' = take (unat i) (elems s) @ drop (unat i + 1) (elems s)"
proof (cases "unat i < length (elems s)")
  case True
  then show ?thesis using sk_delete_ok [OF assms True] by auto
next
  case False
  then have "i \<ge> sk_len s" using length_elems [OF assms] by (simp add: word_le_nat_alt)
  then show ?thesis using assms False by (simp add: sk_delete_def)
qed

lemma sk_delete_ptr_ok:
  assumes "sk_wf s"
  shows "\<exists>s'. sk_delete_ptr (Some s) p = (if p \<in> set (elems s) then p else 0, Some s') \<and> sk_wf s' \<and> elems s' = remove1 p (elems s)"
proof -
  have f: "is_first (\<lambda>q. q = p) (elems s) (first_from (\<lambda>q. q = p) s 0)" by (rule first_from_ok [OF assms]) simp
  show ?thesis
  proof (cases "first_from (\<lambda>q. q = p) s 0")
    case None
    then have "p \<notin> set (elems s)" using f by (auto simp: is_first_def in_set_conv_nth)
    then show ?thesis using None assms by (simp add: sk_delete_ptr_def remove1_idem)
  next
    case (Some i)
    note i = first_split [OF f [unfolded Some]]
    then show ?thesis using sk_delete_ok [OF assms i(3)] Some by (auto simp: sk_delete_ptr_def)
  qed
qed

end
