(* ===== verification/StackClaims.thy ===== *)
theory StackClaims
  imports StackList
begin

text \<open>Properties of the stack.\<close>

section \<open>Properties\<close>

text \<open>C39. The stack implements a list of pointers. For a well-formed stack: a successful \<^verbatim>\<open>sk_insert\<close> puts the pointer
  at the position (or at the end if the position is beyond it) and returns the new length, a failed one leaves the stack as
  it was; \<^verbatim>\<open>sk_delete\<close> removes and returns the element at a position in range and does nothing otherwise;
  \<^verbatim>\<open>sk_delete_ptr\<close> removes the first occurrence of a pointer; and all of them keep the stack well-formed.\<close>

theorem stack_refines_list:
  assumes "sk_wf s" and "ptr_alloc_ok A"
  shows "(case sk_insert A (Some s) p i of (n, sk') \<Rightarrow> if n = 0 then sk' = Some s else
      \<exists>s'. sk' = Some s' \<and> sk_wf s' \<and> unat n = length (elems s) + 1 \<and>
        elems s' = take (unat i) (elems s) @ p # drop (unat i) (elems s)) \<and>
    (\<exists>s'. sk_delete (Some s) i = (if unat i < length (elems s) then elems s ! unat i else 0, Some s') \<and> sk_wf s' \<and>
      elems s' = take (unat i) (elems s) @ drop (unat i + 1) (elems s)) \<and>
    (\<exists>s'. sk_delete_ptr (Some s) p = (if p \<in> set (elems s) then p else 0, Some s') \<and> sk_wf s' \<and>
      elems s' = remove1 p (elems s))"
proof -
  obtain n sk' where r: "sk_insert A (Some s) p i = (n, sk')" by force
  have "sk' = Some s" if "n = 0"
  proof (cases "grow A s")
    case None
    then show ?thesis using r by (simp add: sk_insert_def)
  next
    case (Some s1)
    then have "n = sk_len s + 1" using r grow_ok(3) [OF assms Some] by (auto simp: sk_insert_def Let_def)
    moreover have "unat (sk_len s + 1) = unat (sk_len s) + 1"
      using assms(1) by (subst unat_add_no_wrap) (simp_all add: sk_wf_def)
    ultimately show ?thesis using that by simp
  qed
  moreover have "\<exists>s'. sk' = Some s' \<and> sk_wf s' \<and> unat n = length (elems s) + 1 \<and>
      elems s' = take (unat i) (elems s) @ p # drop (unat i) (elems s)" if "n \<noteq> 0"
    using sk_insert_ok [OF assms r that] by blast
  ultimately show ?thesis using r sk_delete_total [OF assms(1)] sk_delete_ptr_ok [OF assms(1)] by simp
qed

definition example_stack :: STACK where
  "example_stack = \<lparr>sk_len = 3, sk_data = [10, 20, 10, 0], sk_sorted = False, num_alloc = 4, sk_comp = 0\<rparr>"

definition zero_memory :: ptr_allocator where
  "zero_memory n = (if unat n mod 8 = 0 then Some (replicate (unat n div 8) 0) else None)"

lemma example_ok: "sk_wf example_stack" "elems example_stack = [10, 20, 10]" "ptr_alloc_ok zero_memory"
  by (auto simp: example_stack_def sk_wf_def elems_def ptr_alloc_ok_def zero_memory_def split: if_splits)

theorem stack_refines_list_witness:
  "\<exists>s'. sk_delete_ptr (Some example_stack) 10 = (10, Some s') \<and> elems s' = [20, 10]"
  using stack_refines_list [OF example_ok(1,3), where p = 10 and i = 0] by (auto simp: example_ok(2))

text \<open>C14. Pushes and pops are last in, first out, and pushes and shifts first in, first out, for any number of them:
  after successful pushes of \<open>ps\<close>, as many pops return them in reverse and leave the stack with its former elements, and
  shifting everything out returns the former elements and then \<open>ps\<close>, in order.\<close>

theorem stack_lifo_fifo:
  assumes "sk_wf s" and "ptr_alloc_ok A" and "push_all A (Some s) ps = Some sk"
  shows "(\<exists>sk'. take_all sk_pop (length ps) sk = (rev ps, sk') \<and> stack_inv sk' \<and> stack_seq sk' = elems s) \<and>
    (\<exists>sk'. take_all sk_shift (length (elems s @ ps)) sk = (elems s @ ps, sk') \<and> stack_inv sk' \<and> stack_seq sk' = [])"
proof -
  have "stack_inv (Some s)" "stack_seq (Some s) = elems s" using assms(1) by (simp_all add: stack_inv_def stack_seq_def)
  then have sk: "stack_inv sk" "stack_seq sk = elems s @ ps" using push_all_ok [OF _ assms(2,3)] by auto
  show ?thesis
    using pop_all_ok [OF sk] shift_all_ok [OF sk(1), of "elems s @ ps" "[]"] sk(2) by simp
qed

theorem stack_lifo_fifo_witness:
  "\<exists>sk. push_all zero_memory (Some example_stack) [1, 2] = Some sk \<and> (\<exists>sk'. take_all sk_pop 2 sk = ([2, 1], sk') \<and> stack_seq sk' = [10, 20, 10])"
proof -
  have "push_all zero_memory (Some example_stack) [1, 2] \<noteq> None" by code_simp
  then obtain sk where sk: "push_all zero_memory (Some example_stack) [1, 2] = Some sk" by blast
  moreover have "\<exists>sk'. take_all sk_pop (length [1, 2 :: ptr]) sk = (rev [1, 2], sk') \<and> stack_inv sk' \<and> stack_seq sk' = elems example_stack"
    by (rule stack_lifo_fifo [OF example_ok(1,3) sk, THEN conjunct1])
  ultimately show ?thesis by (auto simp: example_ok(2) numeral_2_eq_2 simp del: take_all.simps push_all.simps)
qed

text \<open>C40. \<^verbatim>\<open>sk_find\<close> returns the index of the first element that matches, or nothing if there is none, whether it
  searches linearly or, on a stack whose \<^verbatim>\<open>sorted\<close> flag is set, by bisection; the comparison need only be a consistent
  total preorder, so several elements may compare equal.\<close>

theorem sk_find_correct:
  assumes "sk_wf s" and "flag_ok F s" and "sk_comp s \<noteq> 0 \<longrightarrow> cmp_ok (F (sk_comp s))"
  shows "case sk_find F (Some s) p of
      None \<Rightarrow> \<forall>q \<in> set (elems s). \<not> matches F s p q
    | Some i \<Rightarrow> unat i < length (elems s) \<and> matches F s p (elems s ! unat i) \<and>
        (\<forall>k < unat i. \<not> matches F s p (elems s ! k))"
  using sk_find_ok [OF assms(1,2)] assms(3) by (fastforce simp: is_first_def in_set_conv_nth split: option.splits)

definition unsigned_order :: comparison where
  "unsigned_order c p q = int (unat p) - int (unat q)"

lemma unsigned_order_ok: "cmp_ok (unsigned_order c)"
  by (auto simp: cmp_ok_def unsigned_order_def)

theorem sk_find_correct_witness:
  "sk_find unsigned_order (Some \<lparr>sk_len = 4, sk_data = [5, 7, 7, 9, 0], sk_sorted = True, num_alloc = 5, sk_comp = 1\<rparr>) 7 = Some 1 \<and>
   unsigned_order 1 7 ([5, 7, 7, 9] ! 1) = 0 \<and> unsigned_order 1 7 ([5, 7, 7, 9] ! 0) \<noteq> 0"
proof -
  let ?s = "\<lparr>sk_len = 4, sk_data = [5, 7, 7, 9, 0], sk_sorted = True, num_alloc = 5, sk_comp = 1\<rparr>"
  have e: "elems ?s = [5, 7, 7, 9]" and f: "sk_find unsigned_order (Some ?s) 7 = Some 1" by code_simp+
  have "case sk_find unsigned_order (Some ?s) 7 of
      None \<Rightarrow> \<forall>q \<in> set (elems ?s). \<not> matches unsigned_order ?s 7 q
    | Some i \<Rightarrow> unat i < length (elems ?s) \<and> matches unsigned_order ?s 7 (elems ?s ! unat i) \<and>
        (\<forall>k < unat i. \<not> matches unsigned_order ?s 7 (elems ?s ! k))"
    by (rule sk_find_correct) (simp_all add: unsigned_order_ok sk_wf_def flag_ok_def e cmp_sorted_def unsigned_order_def)
  then show ?thesis using f by (simp add: e matches_def)
qed

text \<open>C28. The \<^verbatim>\<open>sorted\<close> flag tells the truth as long as elements are not replaced: insertion, deletion, clearing,
  copying, a change of the comparison function and sorting keep it so, and sorting permutes the elements into ascending order.\<close>

theorem sorted_flag_invariant:
  assumes "sk_wf s" and "flag_ok F s" and "ptr_alloc_ok A" and "qsort_ok qsort" and "sk_comp s \<noteq> 0 \<longrightarrow> cmp_ok (F (sk_comp s))"
  shows "(\<forall>p i n s'. sk_insert A (Some s) p i = (n, Some s') \<longrightarrow> flag_ok F s') \<and>
    (\<forall>p i s'. sk_delete (Some s) i = (p, Some s') \<longrightarrow> flag_ok F s') \<and>
    (\<forall>s'. sk_zero (Some s) = Some s' \<longrightarrow> flag_ok F s') \<and>
    (\<forall>got s'. sk_dup A got (Some s) = Some s' \<longrightarrow> flag_ok F s') \<and>
    (\<forall>c. flag_ok F (snd (sk_set_cmp_func s c))) \<and>
    (\<exists>s'. sk_sort qsort F (Some s) = Some s' \<and> flag_ok F s' \<and> mset (elems s') = mset (elems s) \<and>
       (sk_comp s \<noteq> 0 \<longrightarrow> cmp_sorted (F (sk_comp s)) (elems s')))"
proof (intro conjI)
  show "\<forall>p i n s'. sk_insert A (Some s) p i = (n, Some s') \<longrightarrow> flag_ok F s'"
    using assms(2) by (auto simp: sk_insert_def flag_ok_def Let_def split: option.splits)
  show "\<forall>p i s'. sk_delete (Some s) i = (p, Some s') \<longrightarrow> flag_ok F s'"
    using sk_delete_flag [OF assms(1,2)] by blast
  show "\<forall>s'. sk_zero (Some s) = Some s' \<longrightarrow> flag_ok F s'"
    using assms(2) by (auto simp: sk_zero_def flag_ok_def)
  show "\<forall>got s'. sk_dup A got (Some s) = Some s' \<longrightarrow> flag_ok F s'"
    using sk_dup_ok [OF assms(1,3)] assms(2) by (auto simp: flag_ok_def)
  show "\<forall>c. flag_ok F (snd (sk_set_cmp_func s c))"
    using assms(2) by (auto simp: sk_set_cmp_func_def flag_ok_def elems_def)
  show "\<exists>s'. sk_sort qsort F (Some s) = Some s' \<and> flag_ok F s' \<and> mset (elems s') = mset (elems s) \<and>
      (sk_comp s \<noteq> 0 \<longrightarrow> cmp_sorted (F (sk_comp s)) (elems s'))"
    using sk_sort_ok [OF assms(1,4,2)] assms(5) by (auto simp: flag_ok_def)
qed

theorem sorted_flag_invariant_witness:
  "\<exists>s'. sk_sort insertion_sort unsigned_order (Some (example_stack\<lparr>sk_comp := 1\<rparr>)) = Some s' \<and>
     mset (elems s') = {#10, 10, 20#} \<and> cmp_sorted (unsigned_order 1) (elems s')"
proof -
  let ?s = "example_stack\<lparr>sk_comp := 1\<rparr>"
  have s: "sk_wf ?s" "elems ?s = [10, 20, 10]" "flag_ok unsigned_order ?s" "sk_comp ?s = 1"
    using example_ok(1,2) by (auto simp: sk_wf_def elems_def flag_ok_def example_stack_def)
  then show ?thesis
    using sorted_flag_invariant [OF s(1,3) example_ok(3) insertion_sort_ok] unsigned_order_ok [of 1] by auto
qed

text \<open>\<^verbatim>\<open>sk_set\<close> is the exception: it leaves the flag as it is. Replacing an element of a sorted stack can leave a
  stack that calls itself sorted and is not, and \<^verbatim>\<open>sk_find\<close> then misses an element that is there.\<close>

theorem sk_set_keeps_flag:
  "\<exists>s s' p. sk_wf s \<and> flag_ok unsigned_order s \<and> sk_set (Some s) 0 9 = (9, Some s') \<and> sk_is_sorted (Some s') \<and>
     \<not> flag_ok unsigned_order s' \<and> p \<in> set (elems s') \<and> sk_find unsigned_order (Some s') p = None"
proof -
  let ?s = "\<lparr>sk_len = 3, sk_data = [1, 2, 3, 0], sk_sorted = True, num_alloc = 4, sk_comp = 1\<rparr>"
  let ?s' = "\<lparr>sk_len = 3, sk_data = [9, 2, 3, 0], sk_sorted = True, num_alloc = 4, sk_comp = 1\<rparr>"
  have "sk_set (Some ?s) 0 9 = (9, Some ?s')" "sk_find unsigned_order (Some ?s') 9 = None" by code_simp+
  moreover have "elems ?s = [1, 2, 3]" "elems ?s' = [9, 2, 3]" by code_simp+
  then have "sk_wf ?s" "flag_ok unsigned_order ?s" "\<not> flag_ok unsigned_order ?s'" "9 \<in> set (elems ?s')"
    by (simp_all add: sk_wf_def flag_ok_def cmp_sorted_def unsigned_order_def)
  ultimately show ?thesis by (intro exI [of _ ?s] exI [of _ ?s'] exI [of _ 9]) (simp add: sk_is_sorted_def)
qed

end
