(* ===== verification/LHash.thy ===== *)
theory LHash
  imports Stack "HOL-Library.Monad_Syntax"
begin

text \<open>
  BoringSSL's hash table (crypto/lhash/lhash.c). The items of the chains are objects of a heap, a map from addresses to
  items, and the table keeps the addresses of the first items. A pointer to a pointer (\<^verbatim>\<open>LHASH_ITEM **\<close>) is a place: an
  entry of the array of buckets or the \<^verbatim>\<open>next\<close> field of an item. An access to an address without an item, or outside of
  the array, and a loop that does not end have the result \<open>None\<close>; so that an operation has a result at all says that it
  ends and uses live memory only.

  The caller's hash and comparison functions are parameters (\<open>H hash p\<close> is \<^verbatim>\<open>call_hash_func(hash, p)\<close>, \<open>F comp p q\<close>
  is \<^verbatim>\<open>call_cmp_func(comp, p, q)\<close>), and so is allocation: \<open>M\<close> gives the address for a new item, \<open>A n\<close> an array of
  \<open>n\<close> bytes with any content, or \<open>None\<close>.
\<close>

section \<open>Data\<close>

record LHASH_ITEM =
  it_data :: ptr
  it_next :: ptr
  it_hash :: uint32

type_synonym lh_heap = "ptr \<rightharpoonup> LHASH_ITEM"
type_synonym lh_hashing = "ptr \<Rightarrow> ptr \<Rightarrow> uint32"
type_synonym item_allocator = "lh_heap \<Rightarrow> ptr option"

record LHASH =
  num_items :: size_t
  buckets :: "ptr list"
  num_buckets :: size_t
  callback_depth :: uint32
  lh_comp :: ptr
  lh_hash :: ptr

record lh_state =
  heap :: lh_heap
  lh :: LHASH

datatype lh_place = Bucket size_t | Next ptr

definition kMinNumBuckets :: size_t where
  "kMinNumBuckets = 16"

definition kMaxAverageChainLength :: size_t where
  "kMaxAverageChainLength = 2"

definition kMinAverageChainLength :: size_t where
  "kMinAverageChainLength = 1"

definition bucket_at :: "ptr list \<Rightarrow> size_t \<Rightarrow> ptr option" where
  "bucket_at bs i = (if unat i < length bs then Some (bs ! unat i) else None)"

text \<open>\<^verbatim>\<open>*place\<close> and \<^verbatim>\<open>*place = p\<close>.\<close>

definition deref :: "lh_state \<Rightarrow> lh_place \<Rightarrow> ptr option" where
  "deref w pl = (case pl of
     Bucket i \<Rightarrow> bucket_at (buckets (lh w)) i
   | Next a \<Rightarrow> map_option it_next (heap w a))"

definition assign :: "lh_state \<Rightarrow> lh_place \<Rightarrow> ptr \<Rightarrow> lh_state option" where
  "assign w pl p = (case pl of
     Bucket i \<Rightarrow>
       do { bucket_at (buckets (lh w)) i;
            Some (w\<lparr>lh := (lh w)\<lparr>buckets := (buckets (lh w))[unat i := p]\<rparr>\<rparr>) }
   | Next a \<Rightarrow> do { it \<leftarrow> heap w a; Some (w\<lparr>heap := (heap w)(a \<mapsto> it\<lparr>it_next := p\<rparr>)\<rparr>) })"

text \<open>\<^verbatim>\<open>hash % num_buckets\<close>; division by zero is undefined.\<close>

definition bucket_index :: "uint32 \<Rightarrow> size_t \<Rightarrow> size_t option" where
  "bucket_index h n = (if n = 0 then None else Some (ucast h mod n))"

section \<open>The code\<close>

text \<open>\<open>got\<close>: the structure itself could be allocated.\<close>

definition OPENSSL_lh_new :: "ptr_allocator \<Rightarrow> bool \<Rightarrow> lh_heap \<Rightarrow> ptr \<Rightarrow> ptr \<Rightarrow> lh_state option" where
  "OPENSSL_lh_new A got hp hash cmp =
     (if \<not> got then None
      else (case A (sizeof_ptr * kMinNumBuckets) of
              None \<Rightarrow> None
            | Some bs \<Rightarrow>
                Some \<lparr>heap = hp, lh = \<lparr>num_items = 0, buckets = put_at bs 0 (replicate (unat kMinNumBuckets) 0),
                  num_buckets = kMinNumBuckets, callback_depth = 0, lh_comp = cmp, lh_hash = hash\<rparr>\<rparr>))"

partial_function (option) free_chain :: "lh_heap \<Rightarrow> ptr \<Rightarrow> lh_heap option" where
  "free_chain hp n =
     (if n = 0 then Some hp
      else do { it \<leftarrow> hp n; free_chain (hp(n := None)) (it_next it) })"

declare free_chain.simps [code]

partial_function (option) free_buckets :: "LHASH \<Rightarrow> lh_heap \<Rightarrow> size_t \<Rightarrow> lh_heap option" where
  "free_buckets t hp i =
     (if i < num_buckets t
      then do { n \<leftarrow> bucket_at (buckets t) i; hp \<leftarrow> free_chain hp n; free_buckets t hp (i + 1) }
      else Some hp)"

declare free_buckets.simps [code]

text \<open>The heap that is left once the table is gone; \<open>None\<close> for the table is the null pointer.\<close>

definition OPENSSL_lh_free :: "lh_heap \<Rightarrow> LHASH option \<Rightarrow> lh_heap option" where
  "OPENSSL_lh_free hp t = (case t of None \<Rightarrow> Some hp | Some t \<Rightarrow> free_buckets t hp 0)"

definition OPENSSL_lh_num_items :: "lh_state \<Rightarrow> size_t" where
  "OPENSSL_lh_num_items w = num_items (lh w)"

text \<open>The loop that both searches share: \<open>found\<close> is the test on \<^verbatim>\<open>cur->data\<close>.\<close>

partial_function (option) search_chain :: "(ptr \<Rightarrow> bool) \<Rightarrow> lh_state \<Rightarrow> lh_place \<Rightarrow> lh_place option" where
  "search_chain found w ret =
     do { cur \<leftarrow> deref w ret;
          if cur = 0 then Some ret
          else do { it \<leftarrow> heap w cur;
                    if found (it_data it) then Some ret else search_chain found w (Next cur) } }"

declare search_chain.simps [code]

definition get_next_ptr_and_hash :: "lh_hashing \<Rightarrow> comparison \<Rightarrow> lh_state \<Rightarrow> ptr \<Rightarrow> (uint32 \<times> lh_place) option" where
  "get_next_ptr_and_hash H F w data =
     (let hash = H (lh_hash (lh w)) data in
      do { i \<leftarrow> bucket_index hash (num_buckets (lh w));
           ret \<leftarrow> search_chain (\<lambda>p. F (lh_comp (lh w)) p data = 0) w (Bucket i);
           Some (hash, ret) })"

definition get_next_ptr_by_key :: "lh_state \<Rightarrow> 'k \<Rightarrow> uint32 \<Rightarrow> ('k \<Rightarrow> ptr \<Rightarrow> int) \<Rightarrow> lh_place option" where
  "get_next_ptr_by_key w key key_hash cmp_key =
     do { i \<leftarrow> bucket_index key_hash (num_buckets (lh w));
          search_chain (\<lambda>p. cmp_key key p = 0) w (Bucket i) }"

definition place_data :: "lh_state \<Rightarrow> lh_place \<Rightarrow> ptr option" where
  "place_data w next_ptr =
     do { p \<leftarrow> deref w next_ptr;
          if p = 0 then Some 0 else do { it \<leftarrow> heap w p; Some (it_data it) } }"

definition OPENSSL_lh_retrieve :: "lh_hashing \<Rightarrow> comparison \<Rightarrow> lh_state \<Rightarrow> ptr \<Rightarrow> ptr option" where
  "OPENSSL_lh_retrieve H F w data =
     do { (_, next_ptr) \<leftarrow> get_next_ptr_and_hash H F w data; place_data w next_ptr }"

definition OPENSSL_lh_retrieve_key :: "lh_state \<Rightarrow> 'k \<Rightarrow> uint32 \<Rightarrow> ('k \<Rightarrow> ptr \<Rightarrow> int) \<Rightarrow> ptr option" where
  "OPENSSL_lh_retrieve_key w key key_hash cmp_key =
     do { next_ptr \<leftarrow> get_next_ptr_by_key w key key_hash cmp_key; place_data w next_ptr }"

text \<open>The two loops of \<^verbatim>\<open>lh_rebucket\<close>: an item is taken off its old chain and put in front of its new one.\<close>

partial_function (option) move_chain :: "size_t \<Rightarrow> lh_heap \<Rightarrow> ptr list \<Rightarrow> ptr \<Rightarrow> (lh_heap \<times> ptr list) option" where
  "move_chain new_num hp new_buckets cur =
     (if cur = 0 then Some (hp, new_buckets)
      else do { it \<leftarrow> hp cur;
                new_bucket \<leftarrow> bucket_index (it_hash it) new_num;
                first \<leftarrow> bucket_at new_buckets new_bucket;
                move_chain new_num (hp(cur \<mapsto> it\<lparr>it_next := first\<rparr>)) (new_buckets[unat new_bucket := cur])
                  (it_next it) })"

declare move_chain.simps [code]

partial_function (option) move_buckets ::
  "size_t \<Rightarrow> LHASH \<Rightarrow> lh_heap \<Rightarrow> ptr list \<Rightarrow> size_t \<Rightarrow> (lh_heap \<times> ptr list) option" where
  "move_buckets new_num t hp new_buckets i =
     (if i < num_buckets t
      then do { cur \<leftarrow> bucket_at (buckets t) i;
                (hp, new_buckets) \<leftarrow> move_chain new_num hp new_buckets cur;
                move_buckets new_num t hp new_buckets (i + 1) }
      else Some (hp, new_buckets))"

declare move_buckets.simps [code]

definition lh_rebucket :: "ptr_allocator \<Rightarrow> lh_state \<Rightarrow> size_t \<Rightarrow> lh_state option" where
  "lh_rebucket A w new_num =
     (let alloc_size = sizeof_ptr * new_num in
      if alloc_size div sizeof_ptr \<noteq> new_num then Some w
      else (case A alloc_size of
              None \<Rightarrow> Some w
            | Some bs \<Rightarrow>
                do { (hp, new_buckets) \<leftarrow>
                       move_buckets new_num (lh w) (heap w) (put_at bs 0 (replicate (unat new_num) 0)) 0;
                     Some \<lparr>heap = hp, lh = (lh w)\<lparr>num_buckets := new_num, buckets := new_buckets\<rparr>\<rparr> }))"

definition lh_maybe_resize :: "ptr_allocator \<Rightarrow> lh_state \<Rightarrow> lh_state option" where
  "lh_maybe_resize A w =
     (if callback_depth (lh w) > 0 then Some w
      else if num_buckets (lh w) < kMinNumBuckets then None
      else
        (let n = num_buckets (lh w); avg_chain_length = num_items (lh w) div n in
         if avg_chain_length > kMaxAverageChainLength then
           (let new_num = n * 2 in if new_num > n then lh_rebucket A w new_num else Some w)
         else if avg_chain_length < kMinAverageChainLength \<and> n > kMinNumBuckets then
           (let new_num = n div 2; new_num = (if new_num < kMinNumBuckets then kMinNumBuckets else new_num)
            in lh_rebucket A w new_num)
         else Some w))"

text \<open>The results are the return value, \<^verbatim>\<open>*old_data\<close> and the state.\<close>

definition OPENSSL_lh_insert ::
  "ptr_allocator \<Rightarrow> item_allocator \<Rightarrow> lh_hashing \<Rightarrow> comparison \<Rightarrow> lh_state \<Rightarrow> ptr \<Rightarrow> (bool \<times> ptr \<times> lh_state) option" where
  "OPENSSL_lh_insert A M H F w data =
     do { (hash, next_ptr) \<leftarrow> get_next_ptr_and_hash H F w data;
          p \<leftarrow> deref w next_ptr;
          if p \<noteq> 0 then
            do { it \<leftarrow> heap w p;
                 Some (True, it_data it, w\<lparr>heap := (heap w)(p \<mapsto> it\<lparr>it_data := data\<rparr>)\<rparr>) }
          else
            (case M (heap w) of
               None \<Rightarrow> Some (False, 0, w)
             | Some item \<Rightarrow>
                 do { w \<leftarrow> assign (w\<lparr>heap := (heap w)(item \<mapsto> \<lparr>it_data = data, it_next = 0, it_hash = hash\<rparr>)\<rparr>)
                             next_ptr item;
                      w \<leftarrow> lh_maybe_resize A (w\<lparr>lh := (lh w)\<lparr>num_items := num_items (lh w) + 1\<rparr>\<rparr>);
                      Some (True, 0, w) }) }"

definition OPENSSL_lh_delete ::
  "ptr_allocator \<Rightarrow> lh_hashing \<Rightarrow> comparison \<Rightarrow> lh_state \<Rightarrow> ptr \<Rightarrow> (ptr \<times> lh_state) option" where
  "OPENSSL_lh_delete A H F w data =
     do { (_, next_ptr) \<leftarrow> get_next_ptr_and_hash H F w data;
          item \<leftarrow> deref w next_ptr;
          if item = 0 then Some (0, w)
          else
            do { it \<leftarrow> heap w item;
                 w \<leftarrow> assign w next_ptr (it_next it);
                 w \<leftarrow> lh_maybe_resize A (w\<lparr>heap := (heap w)(item := None),
                                              lh := (lh w)\<lparr>num_items := num_items (lh w) - 1\<rparr>\<rparr>);
                 Some (it_data it, w) } }"

text \<open>The iteration. The callback may do anything with the table and with data \<open>u\<close> of its own. The loops read the table
  anew in every round, but the next item of a chain before the callback of the current one.\<close>

type_synonym 'u lh_callback = "ptr \<Rightarrow> 'u \<times> lh_state \<Rightarrow> ('u \<times> lh_state) option"

partial_function (option) doall_chain :: "'u lh_callback \<Rightarrow> ptr \<Rightarrow> 'u \<times> lh_state \<Rightarrow> ('u \<times> lh_state) option" where
  "doall_chain func cur st =
     (if cur = 0 then Some st
      else do { it \<leftarrow> heap (snd st) cur; st \<leftarrow> func (it_data it) st; doall_chain func (it_next it) st })"

declare doall_chain.simps [code]

partial_function (option) doall_buckets :: "'u lh_callback \<Rightarrow> size_t \<Rightarrow> 'u \<times> lh_state \<Rightarrow> ('u \<times> lh_state) option" where
  "doall_buckets func i st =
     (if i < num_buckets (lh (snd st))
      then do { cur \<leftarrow> bucket_at (buckets (lh (snd st))) i;
                st \<leftarrow> doall_chain func cur st;
                doall_buckets func (i + 1) st }
      else Some st)"

declare doall_buckets.simps [code]

definition enter_doall :: "lh_state \<Rightarrow> lh_state" where
  "enter_doall w =
     (if callback_depth (lh w) < - 1 then w\<lparr>lh := (lh w)\<lparr>callback_depth := callback_depth (lh w) + 1\<rparr>\<rparr> else w)"

definition leave_doall :: "lh_state \<Rightarrow> lh_state" where
  "leave_doall w =
     (if callback_depth (lh w) < - 1 then w\<lparr>lh := (lh w)\<lparr>callback_depth := callback_depth (lh w) - 1\<rparr>\<rparr> else w)"

text \<open>A null table is left alone.\<close>

definition OPENSSL_lh_doall_arg ::
  "ptr_allocator \<Rightarrow> lh_state option \<Rightarrow> 'u lh_callback \<Rightarrow> 'u \<Rightarrow> ('u \<times> lh_state option) option" where
  "OPENSSL_lh_doall_arg A table func u = (case table of
     None \<Rightarrow> Some (u, None)
   | Some w \<Rightarrow>
       do { (u, w) \<leftarrow> doall_buckets func 0 (u, enter_doall w);
            w \<leftarrow> lh_maybe_resize A (leave_doall w);
            Some (u, Some w) })"

end
