(* ===== verification/LHashChains.thy ===== *)
theory LHashChains
  imports LHash StackList
begin

text \<open>
  The linked chains of the hash table: paths through the heap, the chains of an array of buckets, and what the loops over
  them do. Every lemma says that the loop ends and touches live items only.
\<close>

section \<open>Paths\<close>

fun path :: "lh_heap \<Rightarrow> ptr \<Rightarrow> ptr list \<Rightarrow> ptr \<Rightarrow> bool" where
  "path hp p [] q \<longleftrightarrow> p = q"
| "path hp p (a # as) q \<longleftrightarrow> p = a \<and> a \<noteq> 0 \<and> (\<exists>it. hp a = Some it \<and> path hp (it_next it) as q)"

lemma path_append: "path hp p (xs @ ys) q \<longleftrightarrow> (\<exists>r. path hp p xs r \<and> path hp r ys q)"
  by (induction xs arbitrary: p) auto

lemma path_cong:
  assumes "\<And>a. a \<in> set xs \<Longrightarrow> map_option it_next (hp' a) = map_option it_next (hp a)"
  shows "path hp' p xs q \<longleftrightarrow> path hp p xs q"
  using assms
proof (induction xs arbitrary: p)
  case (Cons a xs)
  have "map_option it_next (hp' a) = map_option it_next (hp a)" using Cons.prems by simp
  then show ?case using Cons by (cases "hp a"; cases "hp' a") auto
qed simp

lemma path_live: "path hp p xs q \<Longrightarrow> a \<in> set xs \<Longrightarrow> a \<noteq> 0 \<and> (\<exists>it. hp a = Some it)"
  by (induction xs arbitrary: p) auto

lemma path_unique: "path hp p xs 0 \<Longrightarrow> path hp p ys 0 \<Longrightarrow> xs = ys"
proof (induction xs arbitrary: p ys)
  case Nil
  then show ?case by (cases ys) auto
next
  case (Cons a xs)
  then show ?case by (cases ys) auto
qed

lemma path_distinct:
  assumes "path hp p xs 0"
  shows "distinct xs"
proof (rule ccontr)
  assume "\<not> distinct xs"
  then obtain us vs ws a where xs: "xs = us @ [a] @ vs @ [a] @ ws" using not_distinct_decomp by blast
  then have "path hp a (a # vs @ a # ws) 0" "path hp a (a # ws) 0" using assms by (auto simp: path_append)
  then have "a # vs @ a # ws = a # ws" by (rule path_unique)
  then show False by (auto dest: arg_cong [of _ _ length])
qed

text \<open>The pointer at the start of a path to 0, and redirecting the end of a path.\<close>

definition head :: "ptr list \<Rightarrow> ptr" where
  "head xs = (case xs of [] \<Rightarrow> 0 | a # _ \<Rightarrow> a)"

lemma path_head: "path hp p xs 0 \<Longrightarrow> p = head xs"
  by (cases xs) (auto simp: head_def)

lemma head_simps [simp]: "head [] = 0" "head (a # xs) = a"
  by (simp_all add: head_def)

lemma path_last:
  assumes "path hp p (xs @ ys) 0" and "xs \<noteq> []"
  shows "\<exists>it. hp (last xs) = Some it \<and> it_next it = head ys"
proof -
  from assms(2) obtain zs z where xs: "xs = zs @ [z]" by (cases xs rule: rev_cases) auto
  with assms(1) obtain it where "hp z = Some it" "path hp (it_next it) ys 0" by (auto simp: path_append)
  then show ?thesis using path_head xs by auto
qed

lemma path_redirect:
  assumes "path hp p (xs @ ys) 0" and "xs \<noteq> []" and "hp (last xs) = Some it"
    and "path hp q zs 0" and "set zs \<inter> set xs = {}"
  shows "path (hp(last xs \<mapsto> it\<lparr>it_next := q\<rparr>)) p (xs @ zs) 0"
proof -
  let ?hp = "hp(last xs \<mapsto> it\<lparr>it_next := q\<rparr>)"
  from assms(2) obtain us z where xs: "xs = us @ [z]" by (cases xs rule: rev_cases) auto
  have "distinct (xs @ ys)" using assms(1) by (rule path_distinct)
  then have "z \<notin> set us" "z \<notin> set zs" using xs assms(5) by auto
  obtain r where "path hp p us r" "r = z" "z \<noteq> 0" using assms(1) xs by (auto simp: path_append)
  then have "path ?hp p us z" using \<open>z \<notin> set us\<close> xs by (subst path_cong [of _ _ hp]) auto
  moreover have "path ?hp q zs 0" using assms(4) \<open>z \<notin> set zs\<close> xs by (subst path_cong [of _ _ hp]) auto
  ultimately show ?thesis using xs \<open>z \<noteq> 0\<close> by (auto simp: path_append)
qed

section \<open>The chains of a table\<close>

text \<open>\<open>c i\<close> are the addresses of the items of bucket \<open>i\<close>; an item is in the bucket of its hash.\<close>

definition home :: "lh_heap \<Rightarrow> nat \<Rightarrow> ptr \<Rightarrow> nat" where
  "home hp n a = unat (it_hash (the (hp a))) mod n"

definition lh_chains :: "lh_heap \<Rightarrow> ptr list \<Rightarrow> (nat \<Rightarrow> ptr list) \<Rightarrow> bool" where
  "lh_chains hp bs c \<longleftrightarrow> (\<forall>i < length bs. path hp (bs ! i) (c i) 0 \<and> (\<forall>a \<in> set (c i). home hp (length bs) a = i))"

definition all_in :: "ptr list \<Rightarrow> (nat \<Rightarrow> ptr list) \<Rightarrow> ptr set" where
  "all_in bs c = (\<Union>i < length bs. set (c i))"

text \<open>What an item carries, apart from the link.\<close>

definition load :: "lh_heap \<Rightarrow> ptr \<Rightarrow> (ptr \<times> uint32) option" where
  "load hp a = map_option (\<lambda>it. (it_data it, it_hash it)) (hp a)"

lemma home_load: "load hp' a = load hp a \<Longrightarrow> hp a \<noteq> None \<Longrightarrow> home hp' n a = home hp n a"
  by (auto simp: load_def home_def)

lemma chainsD:
  assumes "lh_chains hp bs c" and "i < length bs"
  shows "path hp (bs ! i) (c i) 0" and "a \<in> set (c i) \<Longrightarrow> home hp (length bs) a = i" and "distinct (c i)"
    and "a \<in> set (c i) \<Longrightarrow> a \<noteq> 0 \<and> (\<exists>it. hp a = Some it)" and "bs ! i = head (c i)"
proof -
  show p: "path hp (bs ! i) (c i) 0" and "a \<in> set (c i) \<Longrightarrow> home hp (length bs) a = i"
    using assms by (simp_all add: lh_chains_def)
  show "distinct (c i)" "bs ! i = head (c i)" using path_distinct [OF p] path_head [OF p] by simp_all
  show "a \<in> set (c i) \<Longrightarrow> a \<noteq> 0 \<and> (\<exists>it. hp a = Some it)" by (rule path_live [OF p])
qed

lemma all_in_live: "lh_chains hp bs c \<Longrightarrow> a \<in> all_in bs c \<Longrightarrow> a \<noteq> 0 \<and> (\<exists>it. hp a = Some it)"
  using chainsD(4) by (fastforce simp: all_in_def)

lemma chains_disjoint:
  "lh_chains hp bs c \<Longrightarrow> i < length bs \<Longrightarrow> j < length bs \<Longrightarrow> i \<noteq> j \<Longrightarrow> set (c i) \<inter> set (c j) = {}"
  using chainsD(2) by blast

lemma earlier_disjoint:
  assumes "lh_chains hp bs c" and "i < length bs"
  shows "set (c i) \<inter> (\<Union>k < i. set (c k)) = {}"
proof -
  have "set (c i) \<inter> set (c k) = {}" if "k < i" for k using chains_disjoint [OF assms, of k] assms(2) that by simp
  then show ?thesis by blast
qed

lemma all_inI: "i < length bs \<Longrightarrow> a \<in> set (c i) \<Longrightarrow> a \<in> all_in bs c"
  by (auto simp: all_in_def)

lemma chains_cong:
  assumes "lh_chains hp bs c" and "\<And>a. a \<in> all_in bs c \<Longrightarrow> hp' a = hp a"
  shows "lh_chains hp' bs c"
proof -
  have "path hp' (bs ! i) (c i) 0 \<and> (\<forall>a \<in> set (c i). home hp' (length bs) a = i)" if "i < length bs" for i
  proof
    have eq: "hp' a = hp a" if "a \<in> set (c i)" for a using assms(2) that \<open>i < length bs\<close> by (auto simp: all_in_def)
    then show "path hp' (bs ! i) (c i) 0" using chainsD(1) [OF assms(1) that] by (subst path_cong [of _ _ hp]) auto
    show "\<forall>a \<in> set (c i). home hp' (length bs) a = i" using eq chainsD(2) [OF assms(1) that] by (auto simp: home_def)
  qed
  then show ?thesis by (simp add: lh_chains_def)
qed

lemma all_in_eq:
  assumes "lh_chains hp bs c" and "lh_chains hp bs c'"
  shows "all_in bs c = all_in bs c'"
  using path_unique [OF chainsD(1) [OF assms(1)] chainsD(1) [OF assms(2)]] by (auto simp: all_in_def)

lemma all_in_split: "i < length bs \<Longrightarrow> all_in bs c = (\<Union>j \<in> {..<length bs} - {i}. set (c j)) \<union> set (c i)"
  by (auto simp: all_in_def)

lemma all_in_update: "i < length bs \<Longrightarrow> all_in bs (c(i := xs)) = (\<Union>j \<in> {..<length bs} - {i}. set (c j)) \<union> set xs"
  by (auto simp: all_in_def split: if_splits)

section \<open>Searching\<close>

lemma unat_hash: "unat (ucast (h :: uint32) :: size_t) = unat h"
  by (rule unat_ucast_up) simp

text \<open>The place after the first items \<open>xs\<close> of bucket \<open>i\<close>.\<close>

definition place :: "size_t \<Rightarrow> ptr list \<Rightarrow> lh_place" where
  "place i xs = (if xs = [] then Bucket i else Next (last xs))"

abbreviation (input) tab :: "lh_state \<Rightarrow> (nat \<Rightarrow> ptr list) \<Rightarrow> bool" where
  "tab w c \<equiv> lh_chains (heap w) (buckets (lh w)) c"

abbreviation size_of :: "lh_state \<Rightarrow> nat" where
  "size_of w \<equiv> length (buckets (lh w))"

definition data_of :: "lh_heap \<Rightarrow> ptr \<Rightarrow> ptr" where
  "data_of hp a = it_data (the (hp a))"

lemma deref_place:
  assumes "tab w c" and "unat i < size_of w" and "c (unat i) = xs @ ys"
  shows "deref w (place i xs) = Some (head ys)"
proof (cases "xs = []")
  case True
  then show ?thesis using chainsD(5) [OF assms(1,2)] assms(2,3) by (simp add: place_def deref_def bucket_at_def)
next
  case False
  have "path (heap w) (buckets (lh w) ! unat i) (xs @ ys) 0" using chainsD(1) [OF assms(1,2)] assms(3) by simp
  then show ?thesis using path_last [OF _ False] False by (fastforce simp: place_def deref_def)
qed

lemma search_chain_ok:
  assumes "tab w c" and "unat i < size_of w" and "c (unat i) = xs @ ys"
  shows "search_chain found w (place i xs) = Some (place i (xs @ takeWhile (\<lambda>a. \<not> found (data_of (heap w) a)) ys))"
  using assms(3)
proof (induction ys arbitrary: xs)
  case Nil
  then show ?case using deref_place [OF assms(1,2) Nil] by (subst search_chain.simps) simp
next
  case (Cons a ys)
  obtain it where it: "heap w a = Some it" "a \<noteq> 0" using chainsD(4) [OF assms(1,2), of a] Cons.prems by auto
  have "place i (xs @ [a]) = Next a" by (simp add: place_def)
  then show ?case using deref_place [OF assms(1,2) Cons.prems] it Cons.IH [of "xs @ [a]"] Cons.prems
    by (subst search_chain.simps) (simp add: data_of_def)
qed

lemma get_next_ptr_by_key_ok:
  assumes "tab w c" and "unat (num_buckets (lh w)) = size_of w" and "0 < size_of w"
    and "i = (ucast h :: size_t) mod num_buckets (lh w)"
  shows "get_next_ptr_by_key w k h cmp =
      Some (place i (takeWhile (\<lambda>a. cmp k (data_of (heap w) a) \<noteq> 0) (c (unat i))))" (is ?key)
    and "h = H (lh_hash (lh w)) d \<Longrightarrow> get_next_ptr_and_hash H F w d =
      Some (h, place i (takeWhile (\<lambda>a. F (lh_comp (lh w)) (data_of (heap w) a) d \<noteq> 0) (c (unat i))))" (is "_ \<Longrightarrow> ?data")
    and "unat i = unat h mod size_of w" and "unat i < size_of w"
proof -
  have n: "num_buckets (lh w) \<noteq> 0" using assms(2,3) by auto
  show u: "unat i = unat h mod size_of w" using assms(2,4) by (simp add: unat_mod unat_hash)
  then show b: "unat i < size_of w" using assms(3) by simp
  note s = search_chain_ok [OF assms(1) b, of "[]"]
  have p: "place i [] = Bucket i" by (simp add: place_def)
  show ?key using n s p assms(4) by (simp add: get_next_ptr_by_key_def bucket_index_def)
  show ?data if "h = H (lh_hash (lh w)) d"
    using n s p assms(4) that by (simp add: get_next_ptr_and_hash_def bucket_index_def Let_def)
qed

section \<open>Changing a chain\<close>

text \<open>What an operation keeps of the table: everything but the buckets and the items.\<close>

lemma assign_ok:
  assumes "tab w c" and "unat i < size_of w" and "c (unat i) = xs @ ys"
    and "path (heap w) p zs 0" and "\<And>a. a \<in> set zs \<Longrightarrow> home (heap w) (size_of w) a = unat i" and "set zs \<inter> set xs = {}"
  shows "\<exists>bs hp. assign w (place i xs) p = Some \<lparr>heap = hp, lh = (lh w)\<lparr>buckets := bs\<rparr>\<rparr> \<and> length bs = size_of w \<and>
    lh_chains hp bs (c(unat i := xs @ zs)) \<and> load hp = load (heap w) \<and> (\<forall>a. a \<notin> set xs \<longrightarrow> hp a = heap w a)"
proof (cases "xs = []")
  case True
  let ?bs = "(buckets (lh w))[unat i := p]"
  have "lh_chains (heap w) ?bs (c(unat i := zs))"
    using assms(1,2,4,5) by (auto simp: lh_chains_def nth_list_update)
  moreover have "assign w (place i xs) p = Some \<lparr>heap = heap w, lh = (lh w)\<lparr>buckets := ?bs\<rparr>\<rparr>"
    using True assms(2) by (simp add: assign_def place_def bucket_at_def)
  ultimately show ?thesis using True by (intro exI [of _ ?bs] exI [of _ "heap w"]) simp
next
  case False
  let ?bs = "buckets (lh w)"
  have path: "path (heap w) (?bs ! unat i) (xs @ ys) 0" using chainsD(1) [OF assms(1,2)] assms(3) by simp
  obtain it where it: "heap w (last xs) = Some it" using path_last [OF path False] by auto
  let ?hp = "(heap w)(last xs \<mapsto> it\<lparr>it_next := p\<rparr>)"
  have l: "load ?hp = load (heap w)" using it by (auto simp: load_def)
  then have h: "home ?hp n a = home (heap w) n a" for n a using it by (auto simp: home_def)
  have "path ?hp (?bs ! j) ((c(unat i := xs @ zs)) j) 0 \<and> (\<forall>a \<in> set ((c(unat i := xs @ zs)) j). home ?hp (length ?bs) a = j)"
    if j: "j < length ?bs" for j
  proof (cases "j = unat i")
    case True
    have "home (heap w) (length ?bs) a = j" if "a \<in> set (xs @ zs)" for a
      using that True chainsD(2) [OF assms(1,2)] assms(3,5) by auto
    then show ?thesis using True path_redirect [OF path False it assms(4,6)] by (simp add: h)
  next
    case False
    have "last xs \<in> set (c (unat i))" using assms(3) \<open>xs \<noteq> []\<close> by simp
    then have "last xs \<notin> set (c j)" using chains_disjoint [OF assms(1) j assms(2) False] by blast
    then show ?thesis using False chainsD(1,2) [OF assms(1) j] by (subst path_cong [of _ _ "heap w"]) (auto simp: h)
  qed
  then have "lh_chains ?hp ?bs (c(unat i := xs @ zs))" unfolding lh_chains_def by blast
  moreover have "assign w (place i xs) p = Some \<lparr>heap = ?hp, lh = (lh w)\<lparr>buckets := ?bs\<rparr>\<rparr>"
    using False it by (simp add: assign_def place_def)
  ultimately show ?thesis using l False by (intro exI [of _ ?bs] exI [of _ ?hp]) simp
qed

section \<open>Moving the items to a new array\<close>

lemma move_one:
  assumes "lh_chains hp bs c" and "cur \<notin> all_in bs c" and "cur \<noteq> 0" and "hp cur = Some it" and "j = home hp (length bs) cur"
    and "j < length bs"
  defines "hp' \<equiv> hp(cur \<mapsto> it\<lparr>it_next := bs ! j\<rparr>)"
  shows "lh_chains hp' (bs[j := cur]) (c(j := cur # c j))" and "all_in (bs[j := cur]) (c(j := cur # c j)) = insert cur (all_in bs c)"
proof -
  have "lh_chains hp' bs c" by (rule chains_cong [OF assms(1)]) (use assms(2) in \<open>auto simp: hp'_def\<close>)
  moreover from this have "path hp' cur (cur # c j) 0" using chainsD(1) assms(3,6) by (auto simp: hp'_def)
  moreover have "home hp' (length bs) cur = j" using assms(4,5) by (simp add: hp'_def home_def)
  ultimately show "lh_chains hp' (bs[j := cur]) (c(j := cur # c j))" using assms(6) by (auto simp: lh_chains_def nth_list_update)
  show "all_in (bs[j := cur]) (c(j := cur # c j)) = insert cur (all_in bs c)"
    using assms(6) by (auto simp: all_in_def split: if_splits)
qed

definition moved :: "lh_heap \<Rightarrow> ptr list \<Rightarrow> (nat \<Rightarrow> ptr list) \<Rightarrow> ptr set \<Rightarrow> lh_heap \<Rightarrow> ptr list \<Rightarrow> bool" where
  "moved hp bs c D hp' bs' \<longleftrightarrow> length bs' = length bs \<and> load hp' = load hp \<and> (\<forall>a. a \<notin> D \<longrightarrow> hp' a = hp a) \<and>
     (\<exists>c'. lh_chains hp' bs' c' \<and> all_in bs' c' = D \<union> all_in bs c)"

lemma move_chain_ok:
  assumes "unat n = length bs" and "0 < length bs"
  shows "path hp cur xs 0 \<Longrightarrow> lh_chains hp bs c \<Longrightarrow> set xs \<inter> all_in bs c = {} \<Longrightarrow>
    \<exists>hp' bs'. move_chain n hp bs cur = Some (hp', bs') \<and> moved hp bs c (set xs) hp' bs'"
  using assms
proof (induction xs arbitrary: hp bs cur c)
  case Nil
  then show ?case by (subst move_chain.simps) (auto simp: moved_def)
next
  case (Cons a xs)
  obtain it where it: "cur = a" "a \<noteq> 0" "hp a = Some it" "path hp (it_next it) xs 0" using Cons.prems(1) by auto
  have n: "n \<noteq> 0" using Cons.prems(4,5) by auto
  let ?i = "(ucast (it_hash it) :: size_t) mod n"
  have i: "unat ?i = home hp (length bs) a" using Cons.prems(4) it(3) by (simp add: home_def unat_mod unat_hash)
  then have lt: "unat ?i < length bs" using Cons.prems(5) by (simp add: home_def)
  let ?hp = "hp(a \<mapsto> it\<lparr>it_next := bs ! unat ?i\<rparr>)" and ?bs = "bs[unat ?i := a]" and ?c = "c(unat ?i := a # c (unat ?i))"
  have one: "lh_chains ?hp ?bs ?c" "all_in ?bs ?c = insert a (all_in bs c)"
    using move_one [OF Cons.prems(2) _ it(2,3) i lt] Cons.prems(3) by auto
  have "a \<notin> set xs" using path_distinct [OF Cons.prems(1)] by simp
  then have "path ?hp (it_next it) xs 0" using it(4) by (subst path_cong [of _ _ hp]) auto
  moreover have "set xs \<inter> all_in ?bs ?c = {}" "unat n = length ?bs" "0 < length ?bs"
    using one(2) Cons.prems(3-5) \<open>a \<notin> set xs\<close> by auto
  ultimately obtain hp' bs' where r: "move_chain n ?hp ?bs (it_next it) = Some (hp', bs')" "moved ?hp ?bs ?c (set xs) hp' bs'"
    using Cons.IH [OF _ one(1)] by blast
  have "move_chain n hp bs cur = Some (hp', bs')"
    using it n lt r(1) by (subst move_chain.simps) (simp add: bucket_index_def bucket_at_def)
  moreover have "load ?hp = load hp" using it(3) by (auto simp: load_def)
  then have "moved hp bs c (set (a # xs)) hp' bs'" using r(2) one(2) by (auto simp: moved_def)
  ultimately show ?case by blast
qed

lemma move_buckets_ok:
  assumes "lh_chains hp0 (buckets t) c" and "unat (num_buckets t) = length (buckets t)"
    and "unat n = length bs" and "0 < length bs"
    and "lh_chains hp bs c'" and "all_in bs c' = (\<Union>k < unat i. set (c k))" and "load hp = load hp0"
    and "\<And>a. a \<notin> (\<Union>k < unat i. set (c k)) \<Longrightarrow> hp a = hp0 a" and "unat i \<le> length (buckets t)"
  shows "\<exists>hp' bs' c''. move_buckets n t hp bs i = Some (hp', bs') \<and> length bs' = length bs \<and> load hp' = load hp0 \<and>
    (\<forall>a. a \<notin> all_in (buckets t) c \<longrightarrow> hp' a = hp0 a) \<and> lh_chains hp' bs' c'' \<and> all_in bs' c'' = all_in (buckets t) c"
  using assms(3-)
proof (induction "length (buckets t) - unat i" arbitrary: hp bs c' i)
  case 0
  then have "unat i = length (buckets t)" by simp
  then have "\<not> i < num_buckets t" using assms(2) by (simp add: word_less_nat_alt)
  then show ?case using 0 \<open>unat i = _\<close> by (subst move_buckets.simps) (auto simp: all_in_def)
next
  case (Suc m)
  have i: "unat i < length (buckets t)" using Suc(2) by simp
  have lt: "i < num_buckets t" using i assms(2) by (simp add: word_less_nat_alt)
  have i1: "unat (i + 1) = unat i + 1" using lt by (rule mid_plus_1)
  have dis: "set (c (unat i)) \<inter> (\<Union>k < unat i. set (c k)) = {}" by (rule earlier_disjoint [OF assms(1) i])
  have eq: "hp a = hp0 a" if "a \<in> set (c (unat i))" for a using dis that Suc.prems(6) by blast
  have path: "path hp (buckets t ! unat i) (c (unat i)) 0"
    using chainsD(1) [OF assms(1) i] eq by (subst path_cong [of _ _ hp0]) auto
  have "set (c (unat i)) \<inter> all_in bs c' = {}" using dis Suc.prems(4) by simp
  then obtain hp' bs' where r: "move_chain n hp bs (buckets t ! unat i) = Some (hp', bs')"
    "moved hp bs c' (set (c (unat i))) hp' bs'"
    using move_chain_ok [OF Suc.prems(1,2) path Suc.prems(3)] by auto
  then obtain c2 where c2: "lh_chains hp' bs' c2" "all_in bs' c2 = set (c (unat i)) \<union> all_in bs c'"
    by (auto simp: moved_def)
  have un: "(\<Union>k < unat (i + 1). set (c k)) = set (c (unat i)) \<union> (\<Union>k < unat i. set (c k))"
    by (simp add: i1 lessThan_Suc)
  have "\<exists>hp'' bs'' c''. move_buckets n t hp' bs' (i + 1) = Some (hp'', bs'') \<and> length bs'' = length bs' \<and> load hp'' = load hp0 \<and>
    (\<forall>a. a \<notin> all_in (buckets t) c \<longrightarrow> hp'' a = hp0 a) \<and> lh_chains hp'' bs'' c'' \<and> all_in bs'' c'' = all_in (buckets t) c"
  proof (rule Suc(1) [of "i + 1" bs' hp' c2])
    show "m = length (buckets t) - unat (i + 1)" "unat (i + 1) \<le> length (buckets t)" using Suc(2) i i1 by simp_all
    show "unat n = length bs'" "0 < length bs'" "load hp' = load hp0" using r(2) Suc.prems by (simp_all add: moved_def)
    show "lh_chains hp' bs' c2" by (rule c2)
    show "all_in bs' c2 = (\<Union>k < unat (i + 1). set (c k))" using c2(2) Suc.prems(4) un by simp
    show "hp' a = hp0 a" if "a \<notin> (\<Union>k < unat (i + 1). set (c k))" for a
      using that un r(2) Suc.prems(6) [of a] by (simp add: moved_def)
  qed
  then show ?case using r lt i by (subst move_buckets.simps) (auto simp: bucket_at_def moved_def)
qed

end
