(* ===== verification/LHashSet.thy ===== *)
theory LHashSet
  imports LHashChains
begin

text \<open>
  The hash table implements a set of elements of which no two are equal under the caller's comparison: what each operation
  answers and does to the set, that it keeps the invariant, and that the rest of the heap is not touched and no item leaks.
\<close>

section \<open>The state\<close>

definition members :: "lh_state \<Rightarrow> ptr set" where
  "members w = {a. \<exists>i xs. i < size_of w \<and> path (heap w) (buckets (lh w) ! i) xs 0 \<and> a \<in> set xs}"

text \<open>The elements of the table, and the part of the heap that is not the table's.\<close>

definition contents :: "lh_state \<Rightarrow> ptr set" where
  "contents w = data_of (heap w) ` members w"

definition rest :: "lh_state \<Rightarrow> lh_heap" where
  "rest w = heap w |` (- members w)"

definition lh_shape :: "lh_state \<Rightarrow> bool" where
  "lh_shape w \<longleftrightarrow> kMinNumBuckets \<le> num_buckets (lh w) \<and> unat (num_buckets (lh w)) = size_of w \<and>
     (\<exists>c. lh_chains (heap w) (buckets (lh w)) c) \<and> unat (num_items (lh w)) = card (members w)"

text \<open>What the caller's functions have to satisfy, and the invariant of the table: hashes are up to date, and no two
  elements are equal.\<close>

definition lh_funs_ok :: "(ptr \<Rightarrow> uint32) \<Rightarrow> (ptr \<Rightarrow> ptr \<Rightarrow> int) \<Rightarrow> bool" where
  "lh_funs_ok h cmp \<longleftrightarrow> (\<forall>p. cmp p p = 0) \<and> (\<forall>p q. cmp p q = 0 \<longrightarrow> cmp q p = 0) \<and>
     (\<forall>p q r. cmp p q = 0 \<longrightarrow> cmp q r = 0 \<longrightarrow> cmp p r = 0) \<and> (\<forall>p q. cmp p q = 0 \<longrightarrow> h p = h q)"

definition lh_inv :: "lh_hashing \<Rightarrow> comparison \<Rightarrow> lh_state \<Rightarrow> bool" where
  "lh_inv H F w \<longleftrightarrow> lh_shape w \<and>
     (\<forall>a \<in> members w. it_hash (the (heap w a)) = H (lh_hash (lh w)) (data_of (heap w) a)) \<and>
     (\<forall>a \<in> members w. \<forall>b \<in> members w. F (lh_comp (lh w)) (data_of (heap w) a) (data_of (heap w) b) = 0 \<longrightarrow> a = b)"

lemma members_tab: "lh_chains (heap w) (buckets (lh w)) c \<Longrightarrow> members w = all_in (buckets (lh w)) c"
proof -
  assume c: "lh_chains (heap w) (buckets (lh w)) c"
  show ?thesis
  proof (rule set_eqI, rule iffI)
    fix a
    assume "a \<in> members w"
    then obtain i xs where i: "i < size_of w" "path (heap w) (buckets (lh w) ! i) xs 0" "a \<in> set xs"
      by (auto simp: members_def)
    then have "xs = c i" using path_unique chainsD(1) [OF c i(1)] by simp
    then show "a \<in> all_in (buckets (lh w)) c" using i(1,3) by (auto simp: all_in_def)
  next
    fix a
    assume "a \<in> all_in (buckets (lh w)) c"
    then obtain i where i: "i < size_of w" "a \<in> set (c i)" by (auto simp: all_in_def)
    then show "a \<in> members w" using chainsD(1) [OF c i(1)] unfolding members_def by blast
  qed
qed

lemma lh_shapeE:
  assumes "lh_shape w"
  obtains c where "lh_chains (heap w) (buckets (lh w)) c" "members w = all_in (buckets (lh w)) c"
    "unat (num_buckets (lh w)) = size_of w" "16 \<le> size_of w" "unat (num_items (lh w)) = card (members w)"
proof -
  obtain c where c: "lh_chains (heap w) (buckets (lh w)) c" "unat (num_buckets (lh w)) = size_of w"
    "kMinNumBuckets \<le> num_buckets (lh w)" "unat (num_items (lh w)) = card (members w)"
    using assms by (auto simp: lh_shape_def)
  have "16 \<le> size_of w" using c(2,3) by (simp add: kMinNumBuckets_def word_le_nat_alt)
  then show thesis using that [OF c(1) members_tab [OF c(1)] c(2)] c(4) by blast
qed

lemma members_live: "lh_shape w \<Longrightarrow> a \<in> members w \<Longrightarrow> a \<noteq> 0 \<and> (\<exists>it. heap w a = Some it)"
  by (metis lh_shapeE all_in_live)

text \<open>Items have distinct addresses that are not null, so their number fits a \<^verbatim>\<open>size_t\<close>.\<close>

lemma card_members: "lh_shape w \<Longrightarrow> card (members w) < 2 ^ 64"
proof -
  assume "lh_shape w"
  then have "0 \<notin> members w" using members_live by blast
  then have "members w \<subset> UNIV" by blast
  then have "card (members w) < CARD(64 word)" by (rule psubset_card_mono [rotated]) simp
  then show ?thesis by (simp add: card_word)
qed

lemma data_of_load: "load hp' a = load hp a \<Longrightarrow> data_of hp' a = data_of hp a"
  by (cases "hp' a"; cases "hp a") (auto simp: load_def data_of_def)

text \<open>A change of the array and of the links only.\<close>

definition relinked :: "lh_state \<Rightarrow> lh_state \<Rightarrow> bool" where
  "relinked w w' \<longleftrightarrow> members w' = members w \<and> load (heap w') = load (heap w) \<and>
     (\<forall>a. a \<notin> members w \<longrightarrow> heap w' a = heap w a) \<and> num_items (lh w') = num_items (lh w) \<and>
     callback_depth (lh w') = callback_depth (lh w) \<and> lh_comp (lh w') = lh_comp (lh w) \<and> lh_hash (lh w') = lh_hash (lh w)"

lemma relinked_refl [simp]: "relinked w w"
  by (simp add: relinked_def)

lemma relinked_contents: "relinked w w' \<Longrightarrow> contents w' = contents w"
  unfolding contents_def relinked_def by (metis (no_types, lifting) data_of_load image_cong)

lemma relinked_rest: "relinked w w' \<Longrightarrow> rest w' = rest w"
  by (auto simp: rest_def relinked_def restrict_map_def)

lemma relinked_inv:
  assumes "relinked w w'" and "lh_inv H F w" and "lh_shape w'"
  shows "lh_inv H F w'"
proof -
  have d: "data_of (heap w') a = data_of (heap w) a" for a
    using assms(1) by (intro data_of_load) (simp only: relinked_def)
  have l: "load (heap w') a = load (heap w) a" for a using assms(1) by (simp only: relinked_def)
  have "it_hash (the (heap w' a)) = it_hash (the (heap w a))" if "a \<in> members w" for a
    using l [of a] members_live [OF _ that] assms(2) by (auto simp: load_def lh_inv_def)
  then show ?thesis using assms d by (simp add: lh_inv_def relinked_def)
qed

section \<open>Resizing\<close>

lemma unat_sizeof_ptr: "unat sizeof_ptr = 8"
  by (simp add: sizeof_ptr_def)

lemma chains_empty: "lh_chains hp (replicate n 0) (\<lambda>_. [])" "all_in bs (\<lambda>_. []) = {}"
  by (simp_all add: lh_chains_def all_in_def)

lemma lh_rebucket_ok:
  assumes "lh_shape w" and "ptr_alloc_ok A" and "kMinNumBuckets \<le> n"
  shows "\<exists>w'. lh_rebucket A w n = Some w' \<and> lh_shape w' \<and> relinked w w' \<and>
    (if unat n < 2 ^ 61 \<and> A (sizeof_ptr * n) \<noteq> None then num_buckets (lh w') = n else w' = w)"
proof -
  have u: "unat (sizeof_ptr * n) = 8 * unat n" if "unat n < 2 ^ 61"
    using that by (simp add: sizeof_ptr_def unat_word_ariths)
  have fits: "sizeof_ptr * n div sizeof_ptr = n \<longleftrightarrow> unat n < 2 ^ 61"
  proof
    assume "sizeof_ptr * n div sizeof_ptr = n"
    then have "unat n = unat (sizeof_ptr * n) div 8" by (metis unat_div unat_sizeof_ptr)
    then show "unat n < 2 ^ 61" using unat_lt [of "sizeof_ptr * n"] by (simp; linarith)
  next
    assume "unat n < 2 ^ 61"
    then have "unat (sizeof_ptr * n div sizeof_ptr) = unat n" using u by (simp add: unat_div) (simp add: sizeof_ptr_def)
    then show "sizeof_ptr * n div sizeof_ptr = n" by (simp add: word_unat_eq_iff)
  qed
  show ?thesis
  proof (cases "unat n < 2 ^ 61 \<and> A (sizeof_ptr * n) \<noteq> None")
    case False
    then show ?thesis using assms(1) fits by (auto simp: lh_rebucket_def Let_def)
  next
    case True
    then obtain bs where A: "A (sizeof_ptr * n) = Some bs" by blast
    then have "length bs * 8 = 8 * unat n" using assms(2) u True by (simp add: ptr_alloc_ok_def)
    then have "length bs = unat n" by simp
    then have z: "put_at bs 0 (replicate (unat n) 0) = replicate (unat n) 0" by (simp add: put_at_def)
    obtain c where c: "lh_chains (heap w) (buckets (lh w)) c" "members w = all_in (buckets (lh w)) c"
      "unat (num_buckets (lh w)) = size_of w" "unat (num_items (lh w)) = card (members w)"
      using assms(1) by (rule lh_shapeE)
    have n: "0 < unat n" using assms(3) by (simp add: kMinNumBuckets_def word_le_nat_alt)
    obtain hp' bs' c' where m: "move_buckets n (lh w) (heap w) (replicate (unat n) 0) 0 = Some (hp', bs')"
      "length bs' = unat n" "load hp' = load (heap w)" "\<forall>a. a \<notin> members w \<longrightarrow> hp' a = heap w a"
      "lh_chains hp' bs' c'" "all_in bs' c' = members w"
      using move_buckets_ok [OF c(1,3) _ _ chains_empty(1), of n "unat n" 0 "heap w"] n c(2)
      by (auto simp: chains_empty(2))
    let ?w = "\<lparr>heap = hp', lh = (lh w)\<lparr>num_buckets := n, buckets := bs'\<rparr>\<rparr>"
    have "members ?w = members w" using members_tab [of ?w c'] m(5,6) by simp
    then have "lh_shape ?w" "relinked w ?w" using m c(4) assms(3) by (auto simp: lh_shape_def relinked_def)
    then show ?thesis using True A m(1) z fits by (simp add: lh_rebucket_def Let_def)
  qed
qed

lemma lh_maybe_resize_ok:
  assumes "lh_shape w" and "ptr_alloc_ok A"
  shows "\<exists>w'. lh_maybe_resize A w = Some w' \<and> lh_shape w' \<and> relinked w w'"
proof -
  have n: "kMinNumBuckets \<le> num_buckets (lh w)" using assms(1) by (simp add: lh_shape_def)
  have "\<exists>w'. lh_rebucket A w m = Some w' \<and> lh_shape w' \<and> relinked w w'" if "kMinNumBuckets \<le> m" for m
    using lh_rebucket_ok [OF assms that] by blast
  then show ?thesis using n assms(1) by (auto simp: lh_maybe_resize_def Let_def not_less)
qed

section \<open>Finding an element\<close>

abbreviation same :: "comparison \<Rightarrow> lh_state \<Rightarrow> ptr \<Rightarrow> ptr \<Rightarrow> bool" where
  "same F w p q \<equiv> F (lh_comp (lh w)) p q = 0"

definition funs_ok :: "lh_hashing \<Rightarrow> comparison \<Rightarrow> lh_state \<Rightarrow> bool" where
  "funs_ok H F w \<longleftrightarrow> lh_funs_ok (H (lh_hash (lh w))) (F (lh_comp (lh w)))"

lemma funs_okD:
  assumes "funs_ok H F w"
  shows "same F w p p" and "same F w p q \<Longrightarrow> same F w q p" and "same F w p q \<Longrightarrow> same F w q r \<Longrightarrow> same F w p r"
    and "same F w p q \<Longrightarrow> H (lh_hash (lh w)) p = H (lh_hash (lh w)) q"
  using assms unfolding funs_ok_def lh_funs_ok_def by blast+

lemma lh_invD:
  assumes "lh_inv H F w"
  shows "lh_shape w" and "a \<in> members w \<Longrightarrow> it_hash (the (heap w a)) = H (lh_hash (lh w)) (data_of (heap w) a)"
    and "a \<in> members w \<Longrightarrow> b \<in> members w \<Longrightarrow> same F w (data_of (heap w) a) (data_of (heap w) b) \<Longrightarrow> a = b"
  using assms by (auto simp: lh_inv_def)

text \<open>\<open>found_at H F w d c i xs ys\<close>: the search for \<open>d\<close> stops in bucket \<open>i\<close> between \<open>xs\<close> and \<open>ys\<close>.\<close>

definition found_at where
  "found_at H F w d c i xs ys \<longleftrightarrow> lh_chains (heap w) (buckets (lh w)) c \<and> unat (i :: size_t) < size_of w \<and>
     unat i = unat (H (lh_hash (lh w)) d) mod size_of w \<and> c (unat i) = xs @ ys \<and>
     get_next_ptr_and_hash H F w d = Some (H (lh_hash (lh w)) d, place i xs) \<and> deref w (place i xs) = Some (head ys)"

lemma found_at_chain:
  fixes H :: lh_hashing and F :: comparison and w :: lh_state and d :: ptr
  assumes "lh_shape w" and "lh_chains (heap w) (buckets (lh w)) c"
  defines "i \<equiv> (ucast (H (lh_hash (lh w)) d) :: size_t) mod num_buckets (lh w)"
  defines "P \<equiv> \<lambda>a. \<not> same F w (data_of (heap w) a) d"
  shows "found_at H F w d c i (takeWhile P (c (unat i))) (dropWhile P (c (unat i)))"
proof -
  have n: "unat (num_buckets (lh w)) = size_of w" "0 < size_of w" using assms(1) by (auto elim: lh_shapeE)
  note g = get_next_ptr_by_key_ok [OF assms(2) n meta_eq_to_obj_eq [OF i_def]]
  show ?thesis using g(2) [of H d F, OF refl] g(3,4) deref_place [OF assms(2) g(4) takeWhile_dropWhile_id [symmetric]] assms(2)
    by (simp add: found_at_def P_def)
qed

lemma search_cases:
  assumes "lh_inv H F w" and "funs_ok H F w" and "lh_chains (heap w) (buckets (lh w)) c"
  obtains (none) i xs where "found_at H F w d c i xs []" and "\<And>a. a \<in> members w \<Longrightarrow> \<not> same F w (data_of (heap w) a) d"
  | (one) i xs a ys where "found_at H F w d c i xs (a # ys)" and "a \<in> members w" and "same F w (data_of (heap w) a) d"
proof -
  let ?i = "(ucast (H (lh_hash (lh w)) d) :: size_t) mod num_buckets (lh w)"
  let ?P = "\<lambda>a. \<not> same F w (data_of (heap w) a) d"
  let ?xs = "takeWhile ?P (c (unat ?i))" and ?ys = "dropWhile ?P (c (unat ?i))"
  have f: "found_at H F w d c ?i ?xs ?ys" by (rule found_at_chain [OF lh_invD(1) [OF assms(1)] assms(3)])
  have m: "members w = all_in (buckets (lh w)) c" by (rule members_tab [OF assms(3)])
  show thesis
  proof (cases ?ys)
    case Nil
    have "?P a" if a: "a \<in> members w" for a
    proof
      assume eq: "same F w (data_of (heap w) a) d"
      obtain j where j: "j < size_of w" "a \<in> set (c j)" using a m by (auto simp: all_in_def)
      have "home (heap w) (size_of w) a = unat ?i"
        unfolding home_def lh_invD(2) [OF assms(1) a] funs_okD(4) [OF assms(2) eq] using f by (simp only: found_at_def)
      then have "a \<in> set (c (unat ?i))" using chainsD(2) [OF assms(3) j] j(2) by simp
      then show False using Nil eq by (auto simp: dropWhile_eq_Nil_conv)
    qed
    then show thesis using none f Nil by simp
  next
    case (Cons a ys)
    then have "\<not> ?P a" using hd_dropWhile [of ?P "c (unat ?i)"] by simp
    moreover have "a \<in> set (c (unat ?i))" using Cons set_dropWhileD [of a ?P] by simp
    then have "a \<in> members w" using m f by (auto simp: all_in_def found_at_def)
    ultimately show thesis using one f Cons by simp
  qed
qed

lemma same_unique:
  assumes "lh_inv H F w" and "funs_ok H F w" and "a \<in> members w" and "same F w (data_of (heap w) a) d" and "x \<in> contents w"
  shows "same F w x d \<longleftrightarrow> x = data_of (heap w) a"
proof
  obtain b where b: "b \<in> members w" "x = data_of (heap w) b" using assms(5) by (auto simp: contents_def)
  assume "same F w x d"
  then have "same F w (data_of (heap w) b) (data_of (heap w) a)"
    using b(2) funs_okD(3) [OF assms(2) _ funs_okD(2) [OF assms(2,4)]] by simp
  then show "x = data_of (heap w) a" using lh_invD(3) [OF assms(1) b(1) assms(3)] b(2) by simp
next
  assume "x = data_of (heap w) a"
  then show "same F w x d" using assms(4) by simp
qed

text \<open>The answer of a search among the elements \<open>S\<close>.\<close>

definition answer :: "(ptr \<Rightarrow> ptr \<Rightarrow> bool) \<Rightarrow> ptr set \<Rightarrow> ptr \<Rightarrow> ptr \<Rightarrow> bool" where
  "answer eq S d r \<longleftrightarrow> (if \<exists>x \<in> S. eq x d then r \<in> S \<and> eq r d else r = 0)"

lemma OPENSSL_lh_retrieve_ok:
  assumes "lh_inv H F w" and "funs_ok H F w"
  shows "\<exists>r. OPENSSL_lh_retrieve H F w d = Some r \<and> answer (same F w) (contents w) d r"
proof -
  obtain c where c: "lh_chains (heap w) (buckets (lh w)) c" using lh_shapeE [OF lh_invD(1) [OF assms(1)]] by blast
  show ?thesis
  proof (cases rule: search_cases [OF assms c, where d = d, case_names none one])
    case (none i xs)
    then show ?thesis
      by (auto simp: OPENSSL_lh_retrieve_def found_at_def place_data_def answer_def contents_def)
  next
    case (one i xs a ys)
    obtain it where "heap w a = Some it" "a \<noteq> 0" using members_live [OF lh_invD(1) [OF assms(1)] one(2)] by blast
    then have "OPENSSL_lh_retrieve H F w d = Some (data_of (heap w) a)"
      using one(1) by (simp add: OPENSSL_lh_retrieve_def found_at_def place_data_def data_of_def)
    then show ?thesis using one(2,3) by (auto simp: answer_def contents_def)
  qed
qed

section \<open>Deleting an element\<close>

definition kept :: "lh_state \<Rightarrow> lh_state \<Rightarrow> bool" where
  "kept w w' \<longleftrightarrow> rest w' = rest w \<and> callback_depth (lh w') = callback_depth (lh w) \<and>
     lh_comp (lh w') = lh_comp (lh w) \<and> lh_hash (lh w') = lh_hash (lh w)"

lemma kept_refl [simp]: "kept w w" and kept_trans [trans]: "kept w w' \<Longrightarrow> kept w' w'' \<Longrightarrow> kept w w''"
  by (auto simp: kept_def)

lemma kept_funs_ok [simp]: "kept w w' \<Longrightarrow> funs_ok H F w' \<longleftrightarrow> funs_ok H F w"
  by (simp add: kept_def funs_ok_def)

lemma relinked_kept: "relinked w w' \<Longrightarrow> kept w w'"
  using relinked_rest by (auto simp: relinked_def kept_def)

text \<open>\<open>unlinked a w w1\<close>: \<open>w1\<close> is \<open>w\<close> without the item \<open>a\<close>.\<close>

definition unlinked :: "ptr \<Rightarrow> lh_state \<Rightarrow> lh_state \<Rightarrow> bool" where
  "unlinked a w w1 \<longleftrightarrow> kept w w1 \<and> members w1 = members w - {a} \<and> size_of w1 = size_of w \<and>
     num_buckets (lh w1) = num_buckets (lh w) \<and> num_items (lh w1) = num_items (lh w) - 1 \<and>
     (\<forall>b. b \<noteq> a \<longrightarrow> load (heap w1) b = load (heap w) b)"

lemma unlinked_inv:
  assumes "unlinked a w w1" and "lh_inv H F w" and "a \<in> members w" and "\<exists>c. lh_chains (heap w1) (buckets (lh w1)) c"
  shows "lh_inv H F w1" and "funs_ok H F w \<Longrightarrow> contents w1 = contents w - {data_of (heap w) a}"
proof -
  have d: "data_of (heap w1) b = data_of (heap w) b" if "b \<in> members w1" for b
    using assms(1) that by (intro data_of_load) (auto simp: unlinked_def)
  have m: "members w1 = members w - {a}" using assms(1) by (simp add: unlinked_def)
  have shape: "lh_shape w" using assms(2) by (rule lh_invD)
  have card: "card (members w) = unat (num_items (lh w))" using shape by (simp add: lh_shape_def)
  have "finite (members w)" by simp
  then have "card (members w1) = unat (num_items (lh w)) - 1" "0 < unat (num_items (lh w))"
    using m assms(3) card card_gt_0_iff [of "members w"] by (simp_all add: card_Diff_singleton) blast
  then have "unat (num_items (lh w1)) = card (members w1)"
    using assms(1) unat_sub_le [of 1 "num_items (lh w)"] by (simp add: unlinked_def word_le_nat_alt)
  then have "lh_shape w1" using shape assms(1,4) by (auto simp: lh_shape_def unlinked_def)
  moreover have "it_hash (the (heap w1 b)) = it_hash (the (heap w b))" if b: "b \<in> members w1" for b
  proof -
    have "load (heap w1) b = load (heap w) b" using assms(1) b m by (auto simp: unlinked_def)
    moreover obtain it where "heap w b = Some it" using members_live [OF shape] b m by blast
    ultimately show ?thesis by (auto simp: load_def)
  qed
  ultimately show "lh_inv H F w1" using assms(1,2) d m by (auto simp: lh_inv_def unlinked_def kept_def)
  show "contents w1 = contents w - {data_of (heap w) a}" if "funs_ok H F w"
  proof -
    have "data_of (heap w) b \<noteq> data_of (heap w) a" if "b \<in> members w1" for b
      using lh_invD(3) [OF assms(2) _ assms(3), of b] that m funs_okD(1) [OF \<open>funs_ok H F w\<close>] by auto
    then show ?thesis using d m by (auto simp: contents_def)
  qed
qed

lemma unlink_ok:
  assumes "lh_inv H F w" and "found_at H F w d c i xs (a # ys)"
  shows "\<exists>w1. OPENSSL_lh_delete A H F w d = Option.bind (lh_maybe_resize A w1) (\<lambda>w2. Some (data_of (heap w) a, w2)) \<and>
    unlinked a w w1 \<and> lh_chains (heap w1) (buckets (lh w1)) (c(unat i := xs @ ys))"
proof -
  have c: "lh_chains (heap w) (buckets (lh w)) c" "unat i < size_of w" "c (unat i) = xs @ a # ys"
    "get_next_ptr_and_hash H F w d = Some (H (lh_hash (lh w)) d, place i xs)" "deref w (place i xs) = Some a"
    using assms(2) by (auto simp: found_at_def)
  obtain it where it: "heap w a = Some it" "a \<noteq> 0" using chainsD(4) [OF c(1,2), of a] c(3) by auto
  have path: "path (heap w) (it_next it) ys 0" using chainsD(1) [OF c(1,2)] c(3) it by (auto simp: path_append)
  have dist: "distinct (xs @ a # ys)" using chainsD(3) [OF c(1,2)] c(3) by simp
  then obtain bs hp where r: "assign w (place i xs) (it_next it) = Some \<lparr>heap = hp, lh = (lh w)\<lparr>buckets := bs\<rparr>\<rparr>"
    "length bs = size_of w" "lh_chains hp bs (c(unat i := xs @ ys))" "load hp = load (heap w)"
    "\<forall>a. a \<notin> set xs \<longrightarrow> hp a = heap w a"
    using assign_ok [OF c(1,2,3) path] chainsD(2) [OF c(1,2)] c(3) by auto
  let ?w1 = "\<lparr>heap = hp(a := None), lh = (lh w)\<lparr>buckets := bs, num_items := num_items (lh w) - 1\<rparr>\<rparr>"
  have m: "members w = (\<Union>j \<in> {..<size_of w} - {unat i}. set (c j)) \<union> set (xs @ a # ys)"
    using members_tab [OF c(1)] all_in_split [OF c(2), of c] c(3) by simp
  have a: "a \<notin> set (c j)" if "j < size_of w" "j \<noteq> unat i" for j
    using chains_disjoint [OF c(1) that(1) c(2) that(2)] c(3) by auto
  have all: "all_in bs (c(unat i := xs @ ys)) = members w - {a}"
    using m a dist c(2) r(2) by (auto simp: all_in_update)
  have ch: "lh_chains (heap ?w1) (buckets (lh ?w1)) (c(unat i := xs @ ys))"
    using chains_cong [OF r(3)] all by simp
  have m1: "members ?w1 = members w - {a}" using members_tab [OF ch] all by simp
  have "rest ?w1 = rest w"
  proof
    fix b
    show "rest ?w1 b = rest w b" using r(5) m m1 by (auto simp: rest_def restrict_map_def)
  qed
  then have "unlinked a w ?w1" using m1 r(2,4) by (auto simp: unlinked_def kept_def load_def fun_eq_iff)
  moreover have "OPENSSL_lh_delete A H F w d = Option.bind (lh_maybe_resize A ?w1) (\<lambda>w2. Some (data_of (heap w) a, w2))"
    using c(4,5) it r(1) by (simp add: OPENSSL_lh_delete_def data_of_def)
  ultimately show ?thesis using ch by blast
qed

lemma resize_kept:
  assumes "lh_inv H F w" and "ptr_alloc_ok A"
  shows "\<exists>w'. lh_maybe_resize A w = Some w' \<and> lh_inv H F w' \<and> contents w' = contents w \<and> kept w w'"
  using lh_maybe_resize_ok [OF lh_invD(1) [OF assms(1)] assms(2)] relinked_inv [OF _ assms(1)] relinked_contents relinked_kept
  by blast

lemma OPENSSL_lh_delete_ok:
  assumes "lh_inv H F w" and "funs_ok H F w" and "ptr_alloc_ok A"
  shows "\<exists>r w'. OPENSSL_lh_delete A H F w d = Some (r, w') \<and> lh_inv H F w' \<and> kept w w' \<and>
    answer (same F w) (contents w) d r \<and> contents w' = {x \<in> contents w. \<not> same F w x d}"
proof -
  obtain c where c: "lh_chains (heap w) (buckets (lh w)) c" using lh_shapeE [OF lh_invD(1) [OF assms(1)]] by blast
  show ?thesis
  proof (cases rule: search_cases [OF assms(1,2) c, where d = d, case_names none one])
    case (none i xs)
    then have "OPENSSL_lh_delete A H F w d = Some (0, w)" by (auto simp: OPENSSL_lh_delete_def found_at_def)
    then show ?thesis using none assms(1) by (auto simp: answer_def contents_def)
  next
    case (one i xs a ys)
    obtain w1 where w1: "OPENSSL_lh_delete A H F w d =
        Option.bind (lh_maybe_resize A w1) (\<lambda>w2. Some (data_of (heap w) a, w2))"
      "unlinked a w w1" "lh_chains (heap w1) (buckets (lh w1)) (c(unat i := xs @ ys))"
      using unlink_ok [OF assms(1) one(1)] by blast
    have ex: "\<exists>c. lh_chains (heap w1) (buckets (lh w1)) c" using w1(3) by blast
    note i = unlinked_inv [OF w1(2) assms(1) one(2) ex]
    obtain w2 where w2: "lh_maybe_resize A w1 = Some w2" "lh_inv H F w2" "contents w2 = contents w1" "kept w1 w2"
      using resize_kept [OF i(1) assms(3)] by blast
    have "same F w x d \<longleftrightarrow> x = data_of (heap w) a" if "x \<in> contents w" for x
      by (rule same_unique [OF assms(1,2) one(2,3) that])
    then have "contents w2 = {x \<in> contents w. \<not> same F w x d}" using w2(3) i(2) [OF assms(2)] by auto
    moreover have "kept w w2" using w1(2) w2(4) kept_trans by (auto simp: unlinked_def)
    moreover have "answer (same F w) (contents w) d (data_of (heap w) a)" using one(2,3) by (auto simp: answer_def contents_def)
    ultimately show ?thesis using w1(1) w2(1,2) by auto
  qed
qed

section \<open>Inserting an element\<close>

definition item_alloc_ok :: "item_allocator \<Rightarrow> bool" where
  "item_alloc_ok M \<longleftrightarrow> (\<forall>hp a. M hp = Some a \<longrightarrow> a \<noteq> 0 \<and> hp a = None)"

text \<open>Replacing the data of an item by equal data.\<close>

lemma replace_ok:
  assumes "lh_inv H F w" and "funs_ok H F w" and "a \<in> members w" and "same F w (data_of (heap w) a) d"
    and "heap w a = Some it"
  defines "w' \<equiv> w\<lparr>heap := (heap w)(a \<mapsto> it\<lparr>it_data := d\<rparr>)\<rparr>"
  shows "lh_inv H F w'" and "kept w w'" and "contents w' = insert d {x \<in> contents w. \<not> same F w x d}"
proof -
  obtain c where c: "lh_chains (heap w) (buckets (lh w)) c" "members w = all_in (buckets (lh w)) c"
    using lh_shapeE [OF lh_invD(1) [OF assms(1)]] by blast
  have home: "home (heap w') n b = home (heap w) n b" for n b using assms(5) by (simp add: w'_def home_def)
  have "path (heap w') p xs q \<longleftrightarrow> path (heap w) p xs q" for p xs q
    by (rule path_cong) (simp add: w'_def assms(5))
  then have c': "lh_chains (heap w') (buckets (lh w')) c"
    using c(1) unfolding lh_chains_def home by (simp add: w'_def)
  have m: "members w' = members w" using members_tab [OF c'] c(2) by (simp add: w'_def)
  have shape: "lh_shape w'" using c' m lh_invD(1) [OF assms(1)] by (auto simp: lh_shape_def w'_def)
  have d: "data_of (heap w') b = (if b = a then d else data_of (heap w) b)" for b by (simp add: data_of_def w'_def)
  have sd: "same F w (data_of (heap w) b) (data_of (heap w) b')"
    if "same F w (data_of (heap w') b) (data_of (heap w') b')" for b b'
  proof -
    have "same F w (data_of (heap w) e) (data_of (heap w') e)" for e
      using assms(4) funs_okD(1) [OF assms(2)] by (simp add: d)
    then show ?thesis using funs_okD(3) [OF assms(2) funs_okD(3) [OF assms(2) _ that] funs_okD(2) [OF assms(2)]] by blast
  qed
  have "it_hash (the (heap w' b)) = H (lh_hash (lh w')) (data_of (heap w') b)" if "b \<in> members w'" for b
    using lh_invD(2) [OF assms(1), of b] funs_okD(4) [OF assms(2,4)] that m assms(5) unfolding d by (auto simp: w'_def)
  moreover have "b = b'" if "b \<in> members w'" "b' \<in> members w'" "same F w' (data_of (heap w') b) (data_of (heap w') b')" for b b'
    using lh_invD(3) [OF assms(1) _ _ sd] that m by (simp add: w'_def)
  ultimately show "lh_inv H F w'" using shape by (simp add: lh_inv_def)
  have "rest w' = rest w" using m assms(3) by (auto simp: rest_def restrict_map_def w'_def)
  then show "kept w w'" by (simp add: kept_def w'_def)
  have "data_of (heap w) b \<noteq> data_of (heap w) a" if "b \<in> members w" "b \<noteq> a" for b
    using lh_invD(3) [OF assms(1) that(1) assms(3)] that(2) funs_okD(1) [OF assms(2)] by metis
  then have "contents w' = insert d (contents w - {data_of (heap w) a})"
    using assms(3) unfolding contents_def m d by auto
  then show "contents w' = insert d {x \<in> contents w. \<not> same F w x d}"
    using same_unique [OF assms(1-4)] by auto
qed

text \<open>Linking a new item at the end of a chain.\<close>

lemma link_ok:
  assumes "lh_inv H F w" and "funs_ok H F w" and "found_at H F w d c i xs []"
    and "\<And>a. a \<in> members w \<Longrightarrow> \<not> same F w (data_of (heap w) a) d" and "heap w a = None" and "a \<noteq> 0"
  shows "\<exists>w1. assign (w\<lparr>heap := (heap w)(a \<mapsto> \<lparr>it_data = d, it_next = 0, it_hash = H (lh_hash (lh w)) d\<rparr>)\<rparr>) (place i xs) a =
      Some w1 \<and>
    (let w2 = w1\<lparr>lh := (lh w1)\<lparr>num_items := num_items (lh w1) + 1\<rparr>\<rparr> in lh_inv H F w2 \<and> kept w w2 \<and>
       contents w2 = insert d (contents w) \<and> num_buckets (lh w2) = num_buckets (lh w) \<and> num_items (lh w2) = num_items (lh w) + 1 \<and>
       unat (num_items (lh w2)) = unat (num_items (lh w)) + 1)"
proof -
  let ?it = "\<lparr>it_data = d, it_next = 0, it_hash = H (lh_hash (lh w)) d\<rparr>"
  let ?w = "w\<lparr>heap := (heap w)(a \<mapsto> ?it)\<rparr>"
  have c: "lh_chains (heap w) (buckets (lh w)) c" "unat i < size_of w" "c (unat i) = xs @ []"
    "unat i = unat (H (lh_hash (lh w)) d) mod size_of w" using assms(3) by (auto simp: found_at_def)
  have shape: "lh_shape w" by (rule lh_invD(1) [OF assms(1)])
  have m: "members w = all_in (buckets (lh w)) c" by (rule members_tab [OF c(1)])
  have new: "a \<notin> members w" using members_live [OF shape, of a] assms(5) by auto
  have c1: "lh_chains (heap ?w) (buckets (lh ?w)) c" using new m chains_cong [OF c(1), of "heap ?w"] by fastforce
  have "set [a] \<inter> set xs = {}" using new m c(2,3) by (auto simp: all_in_def)
  moreover have "path (heap ?w) a [a] 0" using assms(6) by simp
  moreover have "home (heap ?w) (size_of ?w) b = unat i" if "b \<in> set [a]" for b using that c(4) by (simp add: home_def)
  ultimately obtain bs hp where r: "assign ?w (place i xs) a = Some \<lparr>heap = hp, lh = (lh w)\<lparr>buckets := bs\<rparr>\<rparr>"
    "length bs = size_of w" "lh_chains hp bs (c(unat i := xs @ [a]))" "load hp = load (heap ?w)"
    "\<forall>b. b \<notin> set xs \<longrightarrow> hp b = heap ?w b"
    using assign_ok [OF c1, of i xs "[]" a "[a]"] c(2,3) by auto
  let ?w2 = "\<lparr>heap = hp, lh = (lh w)\<lparr>buckets := bs, num_items := num_items (lh w) + 1\<rparr>\<rparr>"
  have m2: "members ?w2 = insert a (members w)"
    using members_tab [of ?w2 "c(unat i := xs @ [a])"] all_in_update [of "unat i" bs] all_in_split [OF c(2), of c] c(2,3) r(2,3) m
    by simp
  have l: "load hp b = (if b = a then Some (d, H (lh_hash (lh w)) d) else load (heap w) b)" for b
    using r(4) by (simp add: load_def)
  have d: "data_of hp b = (if b = a then d else data_of (heap w) b)" for b
    using l [of b] data_of_load [of hp b "heap w"] by (cases "hp b") (auto simp: load_def data_of_def)
  have cd: "card (members ?w2) = unat (num_items (lh w)) + 1" using m2 new shape by (simp add: lh_shape_def)
  moreover have "0 \<notin> members ?w2" using m2 assms(6) members_live [OF shape, of 0] by auto
  then have "card (members ?w2) < 2 ^ 64"
    using psubset_card_mono [of UNIV "members ?w2"] by (auto simp: card_word)
  ultimately have n: "unat (num_items (lh w) + 1) = unat (num_items (lh w)) + 1" by (simp add: unat_add_no_wrap)
  have "lh_shape ?w2" using shape r(2,3) cd n by (auto simp: lh_shape_def)
  moreover have "it_hash (the (hp b)) = H (lh_hash (lh w)) (data_of hp b)" if "b \<in> members ?w2" for b
  proof (cases "b = a")
    case True
    then show ?thesis using l [of a] by (auto simp: load_def d)
  next
    case False
    then have "b \<in> members w" using that m2 by simp
    moreover from this obtain it where "heap w b = Some it" using members_live [OF shape, of b] by auto
    ultimately show ?thesis using lh_invD(2) [OF assms(1), of b] l [of b] False by (auto simp: load_def d)
  qed
  moreover have "b = b'" if "b \<in> members ?w2" "b' \<in> members ?w2" "same F w (data_of hp b) (data_of hp b')" for b b'
    using that assms(4) [of b] assms(4) [of b'] funs_okD(2) [OF assms(2), of d] lh_invD(3) [OF assms(1), of b b']
    by (auto simp: m2 d split: if_splits)
  ultimately have "lh_inv H F ?w2" by (simp add: lh_inv_def)
  moreover have "rest ?w2 b = rest w b" for b
    using r(5) m2 new assms(5) c(2,3) m by (auto simp: rest_def restrict_map_def all_in_def)
  then have "kept w ?w2" by (auto simp: kept_def)
  moreover have "contents ?w2 = insert d (contents w)" using new unfolding contents_def m2 by (auto simp: d)
  ultimately show ?thesis using r(1) n by (simp add: Let_def)
qed

lemma OPENSSL_lh_insert_ok:
  assumes "lh_inv H F w" and "funs_ok H F w" and "ptr_alloc_ok A" and "item_alloc_ok M"
  shows "\<exists>r old w'. OPENSSL_lh_insert A M H F w d = Some (r, old, w') \<and> lh_inv H F w' \<and> kept w w' \<and>
    answer (same F w) (contents w) d old \<and> (M (heap w) \<noteq> None \<longrightarrow> r) \<and>
    (if r then contents w' = insert d {x \<in> contents w. \<not> same F w x d} else w' = w)"
proof -
  obtain c where c: "lh_chains (heap w) (buckets (lh w)) c" using lh_shapeE [OF lh_invD(1) [OF assms(1)]] by blast
  show ?thesis
  proof (cases rule: search_cases [OF assms(1,2) c, where d = d, case_names none one])
    case (none i xs)
    have ans: "answer (same F w) (contents w) d 0" using none(2) by (auto simp: answer_def contents_def)
    have g: "get_next_ptr_and_hash H F w d = Some (H (lh_hash (lh w)) d, place i xs)" "deref w (place i xs) = Some 0"
      using none(1) by (auto simp: found_at_def)
    show ?thesis
    proof (cases "M (heap w)")
      case None
      then show ?thesis using g ans assms(1) by (auto simp: OPENSSL_lh_insert_def)
    next
      case (Some a)
      then have "heap w a = None" "a \<noteq> 0" using assms(4) by (auto simp: item_alloc_ok_def)
      then obtain w1 where w1: "assign (w\<lparr>heap := (heap w)(a \<mapsto> \<lparr>it_data = d, it_next = 0, it_hash = H (lh_hash (lh w)) d\<rparr>)\<rparr>)
          (place i xs) a = Some w1"
        and w2: "lh_inv H F (w1\<lparr>lh := (lh w1)\<lparr>num_items := num_items (lh w1) + 1\<rparr>\<rparr>)"
          "kept w (w1\<lparr>lh := (lh w1)\<lparr>num_items := num_items (lh w1) + 1\<rparr>\<rparr>)"
          "contents (w1\<lparr>lh := (lh w1)\<lparr>num_items := num_items (lh w1) + 1\<rparr>\<rparr>) = insert d (contents w)"
        using link_ok [OF assms(1,2) none] by (auto simp: Let_def)
      obtain w3 where w3: "lh_maybe_resize A (w1\<lparr>lh := (lh w1)\<lparr>num_items := num_items (lh w1) + 1\<rparr>\<rparr>) = Some w3"
        "lh_inv H F w3" "contents w3 = insert d (contents w)" "kept (w1\<lparr>lh := (lh w1)\<lparr>num_items := num_items (lh w1) + 1\<rparr>\<rparr>) w3"
        using resize_kept [OF w2(1) assms(3)] w2(3) by auto
      have "{x \<in> contents w. \<not> same F w x d} = contents w" using none(2) by (auto simp: contents_def)
      moreover have "OPENSSL_lh_insert A M H F w d = Some (True, 0, w3)"
        using g Some w1 w3(1) by (simp add: OPENSSL_lh_insert_def)
      ultimately show ?thesis using w3(2,3) ans kept_trans [OF w2(2) w3(4)] by auto
    qed
  next
    case (one i xs a ys)
    obtain it where it: "heap w a = Some it" "a \<noteq> 0" using members_live [OF lh_invD(1) [OF assms(1)] one(2)] by blast
    then have "OPENSSL_lh_insert A M H F w d = Some (True, data_of (heap w) a, w\<lparr>heap := (heap w)(a \<mapsto> it\<lparr>it_data := d\<rparr>)\<rparr>)"
      using one(1) by (simp add: OPENSSL_lh_insert_def found_at_def data_of_def)
    moreover have "answer (same F w) (contents w) d (data_of (heap w) a)" using one(2,3) by (auto simp: answer_def contents_def)
    ultimately show ?thesis using replace_ok [OF assms(1,2) one(2,3) it(1)] by auto
  qed
qed

end
