(* ===== verification/LHashIter.thy ===== *)
theory LHashIter
  imports LHashSet
begin

text \<open>
  Creating, freeing and iterating over the hash table. The iteration is proved for callbacks that may delete the element
  they are called on.
\<close>

section \<open>Creating and freeing a table\<close>

lemma OPENSSL_lh_new_ok:
  assumes "ptr_alloc_ok A" and "OPENSSL_lh_new A got hp hash cmp = Some w"
  shows "lh_inv H F w" and "contents w = {}" and "rest w = hp" and "callback_depth (lh w) = 0" and "num_items (lh w) = 0"
    and "lh_hash (lh w) = hash" and "lh_comp (lh w) = cmp" and "num_buckets (lh w) = kMinNumBuckets"
proof -
  obtain bs where bs: "A (sizeof_ptr * kMinNumBuckets) = Some bs"
    and w: "w = \<lparr>heap = hp, lh = \<lparr>num_items = 0, buckets = put_at bs 0 (replicate (unat kMinNumBuckets) 0),
      num_buckets = kMinNumBuckets, callback_depth = 0, lh_comp = cmp, lh_hash = hash\<rparr>\<rparr>"
    using assms(2) by (auto simp: OPENSSL_lh_new_def split: if_splits option.splits)
  have "length bs * 8 = 128" using assms(1) bs unfolding ptr_alloc_ok_def by (simp add: sizeof_ptr_def kMinNumBuckets_def)
  then have "length bs = 16" by simp
  then have b: "buckets (lh w) = replicate 16 0" "heap w = hp" by (simp_all add: w put_at_def kMinNumBuckets_def)
  then have c: "lh_chains (heap w) (buckets (lh w)) (\<lambda>_. [])" using chains_empty(1) by simp
  have m: "members w = {}" using members_tab [OF c] by (simp add: chains_empty(2))
  show "lh_inv H F w" using c m b by (auto simp: lh_inv_def lh_shape_def w kMinNumBuckets_def)
  show "contents w = {}" "rest w = hp" using m by (auto simp: contents_def rest_def w restrict_map_def)
  show "callback_depth (lh w) = 0" "num_items (lh w) = 0" "lh_hash (lh w) = hash" "lh_comp (lh w) = cmp"
    "num_buckets (lh w) = kMinNumBuckets" by (simp_all add: w)
qed

lemma free_chain_ok: "path hp n xs 0 \<Longrightarrow> free_chain hp n = Some (hp |` (- set xs))"
proof (induction xs arbitrary: hp n)
  case Nil
  then show ?case by (subst free_chain.simps) (simp add: restrict_map_def)
next
  case (Cons a xs)
  then obtain it where it: "n = a" "a \<noteq> 0" "hp a = Some it" "path hp (it_next it) xs 0" by auto
  have "a \<notin> set xs" using path_distinct [OF Cons.prems] by simp
  then have "path (hp(a := None)) (it_next it) xs 0" using it(4) by (subst path_cong [of _ _ hp]) auto
  then have f: "free_chain (hp(a := None)) (it_next it) = Some (hp(a := None) |` (- set xs))" by (rule Cons.IH)
  have "hp(a := None) |` (- set xs) = hp |` (- set (a # xs))" by (auto simp: restrict_map_def)
  then show ?case using it f by (subst free_chain.simps) simp
qed

lemma free_buckets_ok:
  assumes "lh_chains hp (buckets t) c" and "unat (num_buckets t) = length (buckets t)"
  shows "unat i \<le> length (buckets t) \<Longrightarrow>
    free_buckets t (hp |` (- (\<Union>k < unat i. set (c k)))) i = Some (hp |` (- all_in (buckets t) c))"
proof (induction "length (buckets t) - unat i" arbitrary: i)
  case 0
  then have "unat i = length (buckets t)" by simp
  then show ?case using assms(2) by (subst free_buckets.simps) (simp add: word_less_nat_alt all_in_def)
next
  case (Suc m)
  have i: "unat i < length (buckets t)" using Suc(2) by simp
  have lt: "i < num_buckets t" using i assms(2) by (simp add: word_less_nat_alt)
  have i1: "unat (i + 1) = unat i + 1" using lt by (rule mid_plus_1)
  let ?hp = "hp |` (- (\<Union>k < unat i. set (c k)))"
  have eq: "?hp a = hp a" if "a \<in> set (c (unat i))" for a
    using that earlier_disjoint [OF assms(1) i] by (intro restrict_in) blast
  have "path ?hp (buckets t ! unat i) (c (unat i)) 0"
    using chainsD(1) [OF assms(1) i] eq by (subst path_cong [of _ _ hp]) auto
  then have "free_chain ?hp (buckets t ! unat i) = Some (?hp |` (- set (c (unat i))))" by (rule free_chain_ok)
  moreover have "?hp |` (- set (c (unat i))) = hp |` (- (\<Union>k < unat (i + 1). set (c k)))"
    unfolding i1 by (auto simp: restrict_map_def lessThan_Suc)
  ultimately show ?case using Suc(1) [of "i + 1"] Suc(2) i i1 lt by (subst free_buckets.simps) (simp add: bucket_at_def)
qed

lemma OPENSSL_lh_free_ok:
  assumes "lh_shape w"
  shows "OPENSSL_lh_free (heap w) (Some (lh w)) = Some (rest w)"
proof -
  obtain c where c: "lh_chains (heap w) (buckets (lh w)) c" "members w = all_in (buckets (lh w)) c"
    "unat (num_buckets (lh w)) = size_of w" using assms by (rule lh_shapeE)
  have "heap w |` (- (\<Union>k < unat (0 :: size_t). set (c k))) = heap w" by (simp add: restrict_map_def)
  then show ?thesis using free_buckets_ok [OF c(1,3), of 0] c(2) by (simp add: OPENSSL_lh_free_def rest_def)
qed

section \<open>Iteration\<close>

text \<open>A callback that looks at every element, collecting something from it, and deletes some of them, as the expiry of
  sessions does (\<^verbatim>\<open>timeout_doall_arg\<close> in ssl/ssl_session.cc).\<close>

definition sweep ::
  "ptr_allocator \<Rightarrow> lh_hashing \<Rightarrow> comparison \<Rightarrow> (ptr \<Rightarrow> bool) \<Rightarrow> (ptr \<Rightarrow> 'u \<Rightarrow> 'u) \<Rightarrow> 'u lh_callback" where
  "sweep A H F P g d st =
     (if P d then do { (_, w) \<leftarrow> OPENSSL_lh_delete A H F (snd st) d; Some (g d (fst st), w) }
      else Some (g d (fst st), snd st))"

lemma found_at_member:
  fixes i :: size_t
  assumes "lh_inv H F w" and "funs_ok H F w" and "lh_chains (heap w) (buckets (lh w)) c" and "unat i < size_of w"
    and "c (unat i) = xs @ a # ys"
  shows "found_at H F w (data_of (heap w) a) c i xs (a # ys)"
proof -
  have a: "a \<in> members w" using members_tab [OF assms(3)] all_inI [of "unat i" "buckets (lh w)" a c] assms(4,5) by simp
  show ?thesis
  proof (cases rule: search_cases [OF assms(1-3), where d = "data_of (heap w) a", case_names none one])
    case (none j zs)
    then show ?thesis using a funs_okD(1) [OF assms(2)] by blast
  next
    case (one j zs b us)
    have "b = a" using lh_invD(3) [OF assms(1) one(2) a one(3)] .
    then have j: "unat j < size_of w" "c (unat j) = zs @ a # us" using one(1) by (auto simp: found_at_def)
    then have "unat j = unat i" using chains_disjoint [OF assms(3) j(1) assms(4)] assms(5) by force
    then have "j = i" "zs @ a # us = xs @ a # ys" using j(2) assms(5) by (simp_all add: word_unat_eq_iff)
    moreover have "distinct (xs @ a # ys)" using chainsD(3) [OF assms(3,4)] assms(5) by simp
    ultimately have "zs = xs" "us = ys" using append_Cons_eq_iff [of a xs ys zs us] by auto
    then show ?thesis using one(1) \<open>b = a\<close> \<open>j = i\<close> by simp
  qed
qed

text \<open>\<open>swept w w'\<close>: \<open>w'\<close> has some items of \<open>w\<close>, in the same number of buckets.\<close>

definition swept :: "lh_state \<Rightarrow> lh_state \<Rightarrow> bool" where
  "swept w w' \<longleftrightarrow> kept w w' \<and> size_of w' = size_of w \<and> num_buckets (lh w') = num_buckets (lh w) \<and>
     members w' \<subseteq> members w \<and> (\<forall>b \<in> members w'. data_of (heap w') b = data_of (heap w) b)"

lemma swept_refl [simp]: "swept w w" and swept_trans: "swept w w1 \<Longrightarrow> swept w1 w2 \<Longrightarrow> swept w w2"
  by (auto simp: swept_def dest: kept_trans)

lemma sweep_one:
  fixes i :: size_t
  assumes "lh_inv H F w" and "funs_ok H F w" and "lh_chains (heap w) (buckets (lh w)) c" and "unat i < size_of w"
    and "c (unat i) = xs @ a # ys" and "callback_depth (lh w) > 0"
  shows "\<exists>w1. sweep A H F P g (data_of (heap w) a) (u, w) = Some (g (data_of (heap w) a) u, w1) \<and> lh_inv H F w1 \<and> swept w w1 \<and>
    lh_chains (heap w1) (buckets (lh w1)) (c(unat i := (if P (data_of (heap w) a) then xs else xs @ [a]) @ ys))"
proof (cases "P (data_of (heap w) a)")
  case False
  then show ?thesis using assms fun_upd_triv [of c "unat i"] by (simp add: sweep_def)
next
  case True
  have a: "a \<in> members w" using members_tab [OF assms(3)] all_inI [of "unat i" "buckets (lh w)" a c] assms(4,5) by simp
  obtain w1 where w1: "OPENSSL_lh_delete A H F w (data_of (heap w) a) =
      Option.bind (lh_maybe_resize A w1) (\<lambda>w2. Some (data_of (heap w) a, w2))"
    "unlinked a w w1" "lh_chains (heap w1) (buckets (lh w1)) (c(unat i := xs @ ys))"
    using unlink_ok [OF assms(1) found_at_member [OF assms(1-5)]] by blast
  have "lh_maybe_resize A w1 = Some w1" using w1(2) assms(6) by (simp add: lh_maybe_resize_def unlinked_def kept_def)
  moreover have "lh_inv H F w1" using unlinked_inv(1) [OF w1(2) assms(1) a] w1(3) by blast
  moreover have "data_of (heap w1) b = data_of (heap w) b" if "b \<in> members w1" for b
    using w1(2) that by (intro data_of_load) (auto simp: unlinked_def)
  then have "swept w w1" using w1(2) by (auto simp: swept_def unlinked_def)
  ultimately show ?thesis using True w1 by (simp add: sweep_def)
qed

lemma sweep_chain:
  fixes i :: size_t
  assumes "funs_ok H F w" and "callback_depth (lh w) > 0"
  shows "lh_inv H F w \<Longrightarrow> lh_chains (heap w) (buckets (lh w)) c \<Longrightarrow> unat i < size_of w \<Longrightarrow> c (unat i) = xs @ ys \<Longrightarrow>
    \<exists>w'. doall_chain (sweep A H F P g) (head ys) (u, w) = Some (fold g (map (data_of (heap w)) ys) u, w') \<and>
      lh_inv H F w' \<and> swept w w' \<and>
      lh_chains (heap w') (buckets (lh w')) (c(unat i := xs @ filter (\<lambda>a. \<not> P (data_of (heap w) a)) ys))"
  using assms
proof (induction ys arbitrary: w c xs u)
  case Nil
  then show ?case using fun_upd_triv [of c "unat i"] by (subst doall_chain.simps) simp
next
  case (Cons a ys)
  obtain it where it: "heap w a = Some it" "a \<noteq> 0" "path (heap w) (it_next it) ys 0"
    using chainsD(1) [OF Cons.prems(2,3)] Cons.prems(4) by (auto simp: path_append)
  have nx: "it_next it = head ys" and dt: "it_data it = data_of (heap w) a"
    using path_head [OF it(3)] it(1) by (simp_all add: data_of_def)
  let ?xs = "if P (data_of (heap w) a) then xs else xs @ [a]"
  obtain w1 where w1: "sweep A H F P g (data_of (heap w) a) (u, w) = Some (g (data_of (heap w) a) u, w1)" "lh_inv H F w1"
    "swept w w1" "lh_chains (heap w1) (buckets (lh w1)) (c(unat i := ?xs @ ys))"
    using sweep_one [OF Cons.prems(1,5,2-4,6), of A P g u] by blast
  have k: "kept w w1" "size_of w1 = size_of w" using w1(3) by (simp_all add: swept_def)
  have "unat i < size_of w1" "(c(unat i := ?xs @ ys)) (unat i) = ?xs @ ys" "funs_ok H F w1" "callback_depth (lh w1) > 0"
    using k Cons.prems(3,5,6) by (simp_all add: kept_def funs_ok_def)
  note IH = Cons.IH [OF w1(2,4) this, of "g (data_of (heap w) a) u", unfolded fun_upd_upd]
  obtain w' where w': "doall_chain (sweep A H F P g) (head ys) (g (data_of (heap w) a) u, w1) =
      Some (fold g (map (data_of (heap w1)) ys) (g (data_of (heap w) a) u), w')" "lh_inv H F w'" "swept w1 w'"
    "lh_chains (heap w') (buckets (lh w')) (c(unat i := ?xs @ filter (\<lambda>a. \<not> P (data_of (heap w1) a)) ys))"
    using IH by blast
  have "b \<in> members w1" if "b \<in> set ys" for b
    using members_tab [OF w1(4)] all_inI [of "unat i" "buckets (lh w1)" b "c(unat i := ?xs @ ys)"] that Cons.prems(3) k(2) by simp
  then have d: "data_of (heap w1) b = data_of (heap w) b" if "b \<in> set ys" for b using w1(3) that by (simp add: swept_def)
  then have eq: "map (data_of (heap w1)) ys = map (data_of (heap w)) ys"
    "filter (\<lambda>a. \<not> P (data_of (heap w1) a)) ys = filter (\<lambda>a. \<not> P (data_of (heap w) a)) ys" by (simp_all cong: filter_cong)
  have "doall_chain (sweep A H F P g) (head (a # ys)) (u, w) = Some (fold g (map (data_of (heap w)) (a # ys)) u, w')"
    using it(1,2) w1(1) w'(1) [unfolded eq] nx dt by (subst doall_chain.simps) simp
  moreover have "lh_chains (heap w') (buckets (lh w')) (c(unat i := xs @ filter (\<lambda>a. \<not> P (data_of (heap w) a)) (a # ys)))"
    using w'(4) [unfolded eq] by (simp split: if_splits)
  ultimately show ?case using w'(2) swept_trans [OF w1(3) w'(3)] by blast
qed

lemma sweep_buckets:
  fixes i :: size_t
  assumes "funs_ok H F w" and "callback_depth (lh w) > 0"
  shows "lh_inv H F w \<Longrightarrow> lh_chains (heap w) (buckets (lh w)) c \<Longrightarrow> unat i \<le> size_of w \<Longrightarrow>
    \<exists>w'. doall_buckets (sweep A H F P g) i (u, w) =
        Some (fold g (map (data_of (heap w)) (concat (map c [unat i..<size_of w]))) u, w') \<and>
      lh_inv H F w' \<and> swept w w' \<and>
      lh_chains (heap w') (buckets (lh w')) (\<lambda>j. if unat i \<le> j then filter (\<lambda>a. \<not> P (data_of (heap w) a)) (c j) else c j)"
  using assms
proof (induction "size_of w - unat i" arbitrary: w c i u)
  case 0
  have n: "unat (num_buckets (lh w)) = size_of w" using lh_invD(1) [OF 0(2)] by (auto elim: lh_shapeE)
  moreover have "unat i = size_of w" using 0 by simp
  moreover from this have "lh_chains (heap w) (buckets (lh w)) (\<lambda>j. if unat i \<le> j then filter (\<lambda>a. \<not> P (data_of (heap w) a)) (c j) else c j)"
    using 0(3) by (simp add: lh_chains_def)
  ultimately show ?case using 0(2) by (subst doall_buckets.simps) (simp add: word_less_nat_alt)
next
  case (Suc m)
  have n: "unat (num_buckets (lh w)) = size_of w" using lh_invD(1) [OF Suc(3)] by (auto elim: lh_shapeE)
  have i: "unat i < size_of w" using Suc(2) by simp
  have lt: "i < num_buckets (lh w)" using i n by (simp add: word_less_nat_alt)
  have i1: "unat (i + 1) = unat i + 1" using lt by (rule mid_plus_1)
  let ?P = "\<lambda>a. \<not> P (data_of (heap w) a)"
  obtain w1 where w1: "doall_chain (sweep A H F P g) (buckets (lh w) ! unat i) (u, w) =
      Some (fold g (map (data_of (heap w)) (c (unat i))) u, w1)" "lh_inv H F w1" "swept w w1"
    "lh_chains (heap w1) (buckets (lh w1)) (c(unat i := filter ?P (c (unat i))))"
    using sweep_chain [OF Suc.prems(4,5,1,2) i, of "[]" "c (unat i)" A P g u] chainsD(5) [OF Suc.prems(2) i] by auto
  have k: "kept w w1" "size_of w1 = size_of w" using w1(3) by (simp_all add: swept_def)
  let ?c = "c(unat i := filter ?P (c (unat i)))"
  have "m = size_of w1 - unat (i + 1)" "unat (i + 1) \<le> size_of w1" "funs_ok H F w1" "callback_depth (lh w1) > 0"
    using Suc(2) i i1 k Suc.prems(4,5) by (simp_all add: kept_def funs_ok_def)
  note IH = Suc(1) [OF this(1) w1(2,4) this(2-4), of "fold g (map (data_of (heap w)) (c (unat i))) u"]
  let ?as = "concat (map c [unat (i + 1)..<size_of w])"
  have as: "concat (map ?c [unat (i + 1)..<size_of w1]) = ?as" using i1 k(2) by (intro arg_cong [of _ _ concat] map_cong) auto
  have "b \<in> members w1" if "j < size_of w" "unat i < j" "b \<in> set (c j)" for b j
    using members_tab [OF w1(4)] all_inI [of j "buckets (lh w1)" b ?c] that k(2) by simp
  then have d: "data_of (heap w1) b = data_of (heap w) b" if "j < size_of w" "unat i < j" "b \<in> set (c j)" for b j
    using w1(3) that by (simp add: swept_def)
  then have "map (data_of (heap w1)) ?as = map (data_of (heap w)) ?as" using i1 by auto
  with IH obtain w' where w': "doall_buckets (sweep A H F P g) (i + 1) (fold g (map (data_of (heap w)) (c (unat i))) u, w1) =
      Some (fold g (map (data_of (heap w)) ?as) (fold g (map (data_of (heap w)) (c (unat i))) u), w')" "lh_inv H F w'" "swept w1 w'"
    "lh_chains (heap w') (buckets (lh w')) (\<lambda>j. if unat (i + 1) \<le> j then filter (\<lambda>a. \<not> P (data_of (heap w1) a)) (?c j) else ?c j)"
    unfolding as by auto
  have "filter (\<lambda>a. \<not> P (data_of (heap w1) a)) (c j) = filter ?P (c j)" if "j < size_of w" "unat i < j" for j
    using d [OF that] by (simp cong: filter_cong)
  then have "(if unat (i + 1) \<le> j then filter (\<lambda>a. \<not> P (data_of (heap w1) a)) (?c j) else ?c j) =
      (if unat i \<le> j then filter ?P (c j) else c j)" if "j < size_of w" for j
    using i1 that by (cases "j = unat i") auto
  then have "lh_chains (heap w') (buckets (lh w')) (\<lambda>j. if unat i \<le> j then filter ?P (c j) else c j)"
    using w'(4) k(2) w'(3) by (simp add: lh_chains_def swept_def)
  moreover have "[unat i..<size_of w] = unat i # [unat (i + 1)..<size_of w]" using i i1 by (simp add: upt_conv_Cons)
  ultimately show ?case using w1(1) w'(1,2) lt i swept_trans [OF w1(3) w'(3)]
    by (subst doall_buckets.simps) (simp add: bucket_at_def)
qed

lemma enter_leave:
  assumes "callback_depth (lh w) < - 2"
  shows "callback_depth (lh (enter_doall w)) > 0" and "callback_depth (lh (leave_doall (enter_doall w))) = callback_depth (lh w)"
    and "callback_depth (lh w') = callback_depth (lh (enter_doall w)) \<Longrightarrow> callback_depth (lh (leave_doall w')) = callback_depth (lh w)"
proof -
  have u: "unat (callback_depth (lh w)) < 2 ^ 32 - 2" using assms by (simp add: word_less_nat_alt)
  then have "unat (callback_depth (lh w) + 1) = unat (callback_depth (lh w)) + 1" by (simp add: unat_add_no_wrap)
  then have l: "callback_depth (lh w) < - 1" "callback_depth (lh w) + 1 < - 1" "0 < callback_depth (lh w) + 1"
    using u by (simp_all add: word_less_nat_alt unsigned_minus_1_eq_mask mask_eq_exp_minus_1)
  then show "callback_depth (lh (enter_doall w)) > 0" "callback_depth (lh (leave_doall (enter_doall w))) = callback_depth (lh w)"
    "callback_depth (lh w') = callback_depth (lh (enter_doall w)) \<Longrightarrow> callback_depth (lh (leave_doall w')) = callback_depth (lh w)"
    by (simp_all add: enter_doall_def leave_doall_def)
qed

text \<open>The counter of iterations is no part of the contents.\<close>

definition depth_only :: "lh_state \<Rightarrow> lh_state \<Rightarrow> bool" where
  "depth_only w w' \<longleftrightarrow> (\<exists>n. w' = w\<lparr>lh := (lh w)\<lparr>callback_depth := n\<rparr>\<rparr>)"

lemma depth_only_doall: "depth_only w (enter_doall w)" "depth_only w (leave_doall w)"
proof -
  have "w = w\<lparr>lh := (lh w)\<lparr>callback_depth := callback_depth (lh w)\<rparr>\<rparr>" by simp
  then show "depth_only w (enter_doall w)" "depth_only w (leave_doall w)"
    unfolding depth_only_def enter_doall_def leave_doall_def by metis+
qed

lemma depth_onlyD:
  assumes "depth_only w w'"
  shows "members w' = members w" and "contents w' = contents w" and "rest w' = rest w" and "lh_inv H F w' = lh_inv H F w"
    and "funs_ok H F w' = funs_ok H F w" and "heap w' = heap w" and "buckets (lh w') = buckets (lh w)"
    and "lh_comp (lh w') = lh_comp (lh w)" and "lh_hash (lh w') = lh_hash (lh w)" and "num_buckets (lh w') = num_buckets (lh w)"
proof -
  obtain n where w': "w' = w\<lparr>lh := (lh w)\<lparr>callback_depth := n\<rparr>\<rparr>" using assms by (auto simp: depth_only_def)
  show m: "members w' = members w" by (simp add: w' members_def)
  show "contents w' = contents w" "rest w' = rest w" unfolding contents_def rest_def m by (simp_all add: w')
  show "lh_inv H F w' = lh_inv H F w" unfolding lh_inv_def lh_shape_def m by (simp add: w')
  show "funs_ok H F w' = funs_ok H F w" "heap w' = heap w" "buckets (lh w') = buckets (lh w)" "lh_comp (lh w') = lh_comp (lh w)"
    "lh_hash (lh w') = lh_hash (lh w)" "num_buckets (lh w') = num_buckets (lh w)" by (simp_all add: w' funs_ok_def)
qed

lemma distinct_data:
  assumes "lh_inv H F w" and "funs_ok H F w" and "lh_chains (heap w) (buckets (lh w)) c"
  defines "ds \<equiv> map (data_of (heap w)) (concat (map c [0..<size_of w]))"
  shows "distinct ds" and "set ds = contents w"
proof -
  have s: "set (concat (map c [0..<size_of w])) = members w"
    unfolding members_tab [OF assms(3)] all_in_def by auto
  have "distinct (concat (map c [0..<n]))" if "n \<le> size_of w" for n using that
  proof (induction n)
    case (Suc n)
    have "set (concat (map c [0..<n])) = (\<Union>k < n. set (c k))" by auto
    then have "set (concat (map c [0..<n])) \<inter> set (c n) = {}" using earlier_disjoint [OF assms(3), of n] Suc.prems by auto
    moreover have "distinct (concat (map c [0..<n]))" "distinct (c n)" using Suc chainsD(3) [OF assms(3), of n] by auto
    moreover have "concat (map c [0..<Suc n]) = concat (map c [0..<n]) @ c n" by simp
    ultimately show ?case by (simp only: distinct_append)
  qed simp
  moreover have "inj_on (data_of (heap w)) (members w)"
    using lh_invD(3) [OF assms(1)] funs_okD(1) [OF assms(2)] by (intro inj_onI) simp
  ultimately show "distinct ds" using s by (simp add: ds_def distinct_map)
  show "set ds = contents w" using s by (simp add: ds_def contents_def del: set_concat)
qed

lemma doall_sweep_ok:
  assumes "lh_inv H F w" and "funs_ok H F w" and "ptr_alloc_ok A" and "callback_depth (lh w) < - 2"
  shows "\<exists>ds w'. OPENSSL_lh_doall_arg A (Some w) (sweep A H F P g) u = Some (fold g ds u, Some w') \<and>
    distinct ds \<and> set ds = contents w \<and> contents w' = {d \<in> contents w. \<not> P d} \<and> lh_inv H F w' \<and> kept w w'"
proof -
  let ?w0 = "enter_doall w"
  note d0 = depth_onlyD [OF depth_only_doall(1) [of w]]
  obtain c where c: "lh_chains (heap w) (buckets (lh w)) c" using lh_shapeE [OF lh_invD(1) [OF assms(1)]] by blast
  define ds where "ds = map (data_of (heap w)) (concat (map c [0..<size_of w]))"
  have inv0: "lh_inv H F ?w0" "funs_ok H F ?w0" "lh_chains (heap ?w0) (buckets (lh ?w0)) c"
    using assms(1,2) c by (simp_all add: d0)
  obtain w1 where w1: "doall_buckets (sweep A H F P g) 0 (u, ?w0) = Some (fold g ds u, w1)" "lh_inv H F w1" "swept ?w0 w1"
    "lh_chains (heap w1) (buckets (lh w1)) (\<lambda>j. filter (\<lambda>a. \<not> P (data_of (heap w) a)) (c j))"
    using sweep_buckets [OF inv0(2) enter_leave(1) [OF assms(4)] inv0(1,3), of 0 A P g u] by (auto simp: d0 ds_def)
  have "size_of w1 = size_of w" using w1(3) by (simp add: swept_def d0)
  then have m: "members w1 = {a \<in> members w. \<not> P (data_of (heap w) a)}"
    unfolding members_tab [OF c] members_tab [OF w1(4)] by (auto simp: all_in_def)
  have "data_of (heap w1) b = data_of (heap w) b" if "b \<in> members w1" for b using w1(3) that by (simp add: swept_def d0)
  then have "contents w1 = data_of (heap w) ` members w1" unfolding contents_def by (intro image_cong) simp_all
  then have c1: "contents w1 = {d \<in> contents w. \<not> P d}" unfolding m contents_def [of w] by auto
  note d1 = depth_onlyD [OF depth_only_doall(2) [of w1]]
  have inv1: "lh_inv H F (leave_doall w1)" using w1(2) by (simp add: d1)
  obtain w2 where w2: "lh_maybe_resize A (leave_doall w1) = Some w2" "lh_inv H F w2" "contents w2 = contents w1"
    "kept (leave_doall w1) w2" using resize_kept [OF inv1 assms(3)] by (auto simp: d1)
  have "callback_depth (lh (leave_doall w1)) = callback_depth (lh w)"
    using w1(3) by (intro enter_leave(3) [OF assms(4)]) (simp add: swept_def kept_def)
  then have "kept w (leave_doall w1)" using w1(3) by (simp add: kept_def swept_def d0 d1)
  then have "kept w w2" using w2(4) by (rule kept_trans)
  moreover have "OPENSSL_lh_doall_arg A (Some w) (sweep A H F P g) u = Some (fold g ds u, Some w2)"
    using w1(1) w2(1) by (simp add: OPENSSL_lh_doall_arg_def)
  ultimately show ?thesis using w2(2,3) c1 distinct_data [OF assms(1,2) c] unfolding ds_def by blast
qed

end
