(* ===== verification/LHashClaims.thy ===== *)
theory LHashClaims
  imports LHashIter
begin

text \<open>
  The interface of a set of elements, as the locale \<open>keyed_set\<close>, its interpretation on the hash table, the bound on the
  load of the table, and the properties of the table.
\<close>

section \<open>A set of elements as an interface\<close>

datatype set_op = Insert ptr | Delete ptr | Retrieve ptr

text \<open>A sequence of calls, with what each returns: whether it succeeded and an element.\<close>

fun run_ops ::
  "('w \<Rightarrow> ptr \<Rightarrow> (bool \<times> ptr \<times> 'w) option) \<Rightarrow> ('w \<Rightarrow> ptr \<Rightarrow> (ptr \<times> 'w) option) \<Rightarrow> ('w \<Rightarrow> ptr \<Rightarrow> ptr option) \<Rightarrow> 'w \<Rightarrow>
    set_op list \<Rightarrow> ((bool \<times> ptr) list \<times> 'w) option" where
  "run_ops ins del ret w [] = Some ([], w)"
| "run_ops ins del ret w (Insert d # ops) =
     do { (ok, old, w) \<leftarrow> ins w d; (rs, w) \<leftarrow> run_ops ins del ret w ops; Some ((ok, old) # rs, w) }"
| "run_ops ins del ret w (Delete d # ops) =
     do { (old, w) \<leftarrow> del w d; (rs, w) \<leftarrow> run_ops ins del ret w ops; Some ((True, old) # rs, w) }"
| "run_ops ins del ret w (Retrieve d # ops) =
     do { x \<leftarrow> ret w d; (rs, w) \<leftarrow> run_ops ins del ret w ops; Some ((True, x) # rs, w) }"

text \<open>What the calls mean for a set \<open>S\<close> of elements: the answer is the element equal to \<open>d\<close>, or null; inserting replaces
  it, or fails and changes nothing.\<close>

fun op_spec :: "(ptr \<Rightarrow> ptr \<Rightarrow> bool) \<Rightarrow> ptr set \<Rightarrow> set_op \<Rightarrow> bool \<times> ptr \<Rightarrow> ptr set \<Rightarrow> bool" where
  "op_spec eq S (Insert d) (ok, r) S' \<longleftrightarrow>
     answer eq S d r \<and> S' = (if ok then insert d {x \<in> S. \<not> eq x d} else S)"
| "op_spec eq S (Delete d) (ok, r) S' \<longleftrightarrow> answer eq S d r \<and> S' = {x \<in> S. \<not> eq x d}"
| "op_spec eq S (Retrieve d) (ok, r) S' \<longleftrightarrow> answer eq S d r \<and> S' = S"

fun ops_spec :: "(ptr \<Rightarrow> ptr \<Rightarrow> bool) \<Rightarrow> ptr set \<Rightarrow> set_op list \<Rightarrow> (bool \<times> ptr) list \<Rightarrow> ptr set \<Rightarrow> bool" where
  "ops_spec eq S [] rs S' \<longleftrightarrow> rs = [] \<and> S' = S"
| "ops_spec eq S (op # ops) rs S' \<longleftrightarrow> (\<exists>r rs' T. rs = r # rs' \<and> op_spec eq S op r T \<and> ops_spec eq T ops rs' S')"

locale keyed_set =
  fixes inv :: "'w \<Rightarrow> bool" and elements :: "'w \<Rightarrow> ptr set" and eq :: "ptr \<Rightarrow> ptr \<Rightarrow> bool"
    and ins :: "'w \<Rightarrow> ptr \<Rightarrow> (bool \<times> ptr \<times> 'w) option"
    and del :: "'w \<Rightarrow> ptr \<Rightarrow> (ptr \<times> 'w) option"
    and ret :: "'w \<Rightarrow> ptr \<Rightarrow> ptr option"
  assumes ins_law: "inv w \<Longrightarrow> \<exists>ok r w'. ins w d = Some (ok, r, w') \<and> inv w' \<and> op_spec eq (elements w) (Insert d) (ok, r) (elements w')"
    and del_law: "inv w \<Longrightarrow> \<exists>r w'. del w d = Some (r, w') \<and> inv w' \<and> op_spec eq (elements w) (Delete d) (True, r) (elements w')"
    and ret_law: "inv w \<Longrightarrow> \<exists>r. ret w d = Some r \<and> op_spec eq (elements w) (Retrieve d) (True, r) (elements w)"
begin

lemma run_refines:
  "inv w \<Longrightarrow> \<exists>rs w'. run_ops ins del ret w ops = Some (rs, w') \<and> inv w' \<and> ops_spec eq (elements w) ops rs (elements w')"
proof (induction ops arbitrary: w)
  case Nil
  then show ?case by simp
next
  case (Cons op ops)
  show ?case
  proof (cases op)
    case (Insert d)
    obtain ok r w1 where 1: "ins w d = Some (ok, r, w1)" "inv w1" "op_spec eq (elements w) (Insert d) (ok, r) (elements w1)"
      using ins_law [OF Cons.prems] by blast
    then show ?thesis using Cons.IH [OF 1(2)] Insert by fastforce
  next
    case (Delete d)
    obtain r w1 where 1: "del w d = Some (r, w1)" "inv w1" "op_spec eq (elements w) (Delete d) (True, r) (elements w1)"
      using del_law [OF Cons.prems] by blast
    then show ?thesis using Cons.IH [OF 1(2)] Delete by fastforce
  next
    case (Retrieve d)
    obtain r where 1: "ret w d = Some r" "op_spec eq (elements w) (Retrieve d) (True, r) (elements w)"
      using ret_law [OF Cons.prems] by blast
    then show ?thesis using Cons.IH [OF Cons.prems] Retrieve by fastforce
  qed
qed

lemma insert_then_retrieve:
  assumes "inv w" and "ins w d = Some (True, r, w')" and "eq d d"
  shows "ret w' d = Some d"
proof -
  have "inv w'" "elements w' = insert d {x \<in> elements w. \<not> eq x d}" using ins_law [OF assms(1), of d] assms(2) by (auto split: if_splits)
  moreover from this obtain x where x: "ret w' d = Some x" "answer eq (elements w') d x" using ret_law [of w' d] by auto
  ultimately show ?thesis using assms(3) by (auto simp: answer_def split: if_splits)
qed

end

definition table_inv ::
  "ptr_allocator \<Rightarrow> item_allocator \<Rightarrow> lh_hashing \<Rightarrow> comparison \<Rightarrow> ptr \<Rightarrow> ptr \<Rightarrow> lh_heap \<Rightarrow> lh_state \<Rightarrow> bool" where
  "table_inv A M H F hash cmp hp w \<longleftrightarrow> ptr_alloc_ok A \<and> item_alloc_ok M \<and> lh_funs_ok (H hash) (F cmp) \<and> lh_inv H F w \<and>
     lh_hash (lh w) = hash \<and> lh_comp (lh w) = cmp \<and> rest w = hp"

lemma table_invD:
  assumes "table_inv A M H F hash cmp hp w"
  shows "ptr_alloc_ok A" "item_alloc_ok M" "lh_inv H F w" "funs_ok H F w" "lh_comp (lh w) = cmp"
  using assms by (simp_all add: table_inv_def funs_ok_def)

lemma table_inv_kept:
  "table_inv A M H F hash cmp hp w \<Longrightarrow> kept w w' \<Longrightarrow> lh_inv H F w' \<Longrightarrow> table_inv A M H F hash cmp hp w'"
  by (simp add: table_inv_def kept_def)

interpretation table: keyed_set "table_inv A M H F hash cmp hp" contents "\<lambda>p q. F cmp p q = 0"
  "OPENSSL_lh_insert A M H F" "OPENSSL_lh_delete A H F" "OPENSSL_lh_retrieve H F" for A M H F hash cmp hp
proof unfold_locales
  fix w d
  assume w: "table_inv A M H F hash cmp hp w"
  note i = table_invD [OF w]
  show "\<exists>ok r w'. OPENSSL_lh_insert A M H F w d = Some (ok, r, w') \<and> table_inv A M H F hash cmp hp w' \<and>
      op_spec (\<lambda>p q. F cmp p q = 0) (contents w) (Insert d) (ok, r) (contents w')"
    using OPENSSL_lh_insert_ok [OF i(3,4,1,2), of d] table_inv_kept [OF w] i(5) by (fastforce split: if_splits)
  show "\<exists>r w'. OPENSSL_lh_delete A H F w d = Some (r, w') \<and> table_inv A M H F hash cmp hp w' \<and>
      op_spec (\<lambda>p q. F cmp p q = 0) (contents w) (Delete d) (True, r) (contents w')"
    using OPENSSL_lh_delete_ok [OF i(3,4,1), of d] table_inv_kept [OF w] i(5) by fastforce
  show "\<exists>r. OPENSSL_lh_retrieve H F w d = Some r \<and>
      op_spec (\<lambda>p q. F cmp p q = 0) (contents w) (Retrieve d) (True, r) (contents w)"
    using OPENSSL_lh_retrieve_ok [OF i(3,4), of d] i(5) by auto
qed

section \<open>The load of the table\<close>

definition balanced :: "lh_state \<Rightarrow> bool" where
  "balanced w \<longleftrightarrow> unat (num_items (lh w)) < 3 * unat (num_buckets (lh w)) \<and>
     (16 < unat (num_buckets (lh w)) \<longrightarrow> unat (num_buckets (lh w)) \<le> unat (num_items (lh w)))"

lemma resize_balanced:
  assumes "lh_shape w" and "ptr_alloc_ok A" and "\<And>n. A (sizeof_ptr * n) \<noteq> None" and "callback_depth (lh w) = 0"
    and "unat (num_items (lh w)) < 2 ^ 59" and "unat (num_items (lh w)) \<le> 3 * unat (num_buckets (lh w))"
    and "16 < unat (num_buckets (lh w)) \<longrightarrow> unat (num_buckets (lh w)) \<le> unat (num_items (lh w)) + 1"
    and "lh_maybe_resize A w = Some w'"
  shows "balanced w'"
proof -
  let ?n = "num_buckets (lh w)" and ?k = "num_items (lh w)"
  have n: "16 \<le> unat ?n" "kMinNumBuckets \<le> ?n" "unat ?n \<le> 2 ^ 59" using assms(1,5,7) by (auto simp: lh_shape_def kMinNumBuckets_def word_le_nat_alt)
  have re: "num_buckets (lh w') = m \<and> num_items (lh w') = ?k" if "lh_rebucket A w m = Some w'" "kMinNumBuckets \<le> m" "unat m < 2 ^ 61" for m
    using lh_rebucket_ok [OF assms(1,2) that(2)] that(1,3) assms(3) by (auto simp: relinked_def)
  have avg: "?k div ?n > kMaxAverageChainLength \<longleftrightarrow> 3 * unat ?n \<le> unat ?k" "?k div ?n < kMinAverageChainLength \<longleftrightarrow> unat ?k < unat ?n"
    using n(1) by (simp_all add: kMaxAverageChainLength_def kMinAverageChainLength_def word_less_nat_alt unat_div div_less_iff_less_mult
        less_eq_div_iff_mult_less_eq Suc_le_eq [symmetric] mult.commute div_eq_0_iff)
  have double: "unat (?n * 2) = unat ?n * 2" using n(3) by (simp add: unat_word_ariths)
  have half: "unat (?n div 2) = unat ?n div 2" by (simp add: unat_div)
  consider (grow) "3 * unat ?n \<le> unat ?k" | (shrink) "unat ?k < unat ?n" "16 < unat ?n"
    | (keep) "unat ?k < 3 * unat ?n" "16 < unat ?n \<longrightarrow> unat ?n \<le> unat ?k" by linarith
  then show ?thesis
  proof cases
    case grow
    then have "lh_rebucket A w (?n * 2) = Some w'"
      using assms(4,8) n(2) avg(1) double n(1) by (auto simp: lh_maybe_resize_def Let_def word_less_nat_alt split: if_splits)
    then have "num_buckets (lh w') = ?n * 2" "num_items (lh w') = ?k"
      using re [of "?n * 2"] n double by (simp_all add: kMinNumBuckets_def word_le_nat_alt)
    then show ?thesis using grow assms(6) n(1) double by (simp add: balanced_def)
  next
    case shrink
    let ?m = "if ?n div 2 < kMinNumBuckets then kMinNumBuckets else ?n div 2"
    have m: "unat ?m = max 16 (unat ?n div 2)" by (simp add: kMinNumBuckets_def word_less_nat_alt half max_def)
    have "lh_rebucket A w ?m = Some w'"
      using assms(4,8) n(2) avg shrink by (auto simp: lh_maybe_resize_def Let_def word_less_nat_alt kMinNumBuckets_def split: if_splits)
    then have eqs: "num_buckets (lh w') = ?m" "num_items (lh w') = ?k"
      using re [of ?m] n m by (auto simp: kMinNumBuckets_def word_le_nat_alt)
    have "unat ?k < 3 * unat ?m \<and> (16 < unat ?m \<longrightarrow> unat ?m \<le> unat ?k)"
      unfolding m using shrink assms(7) by (auto simp: max_def)
    then show ?thesis unfolding balanced_def eqs .
  next
    case keep
    then have "w' = w" using assms(4,8) n(2) avg by (auto simp: lh_maybe_resize_def Let_def word_less_nat_alt kMinNumBuckets_def split: if_splits)
    then show ?thesis using keep by (simp add: balanced_def)
  qed
qed

lemma kept_depth: "kept w w' \<Longrightarrow> callback_depth (lh w') = callback_depth (lh w)"
  by (simp add: kept_def)

lemma resize_num_items: "lh_shape w \<Longrightarrow> ptr_alloc_ok A \<Longrightarrow> lh_maybe_resize A w = Some w' \<Longrightarrow> num_items (lh w') = num_items (lh w)"
  using lh_maybe_resize_ok by (fastforce simp: relinked_def)

text \<open>\<open>light w k\<close>: nobody iterates, the table is balanced and has at most \<open>k\<close> items.\<close>

definition light :: "lh_state \<Rightarrow> nat \<Rightarrow> bool" where
  "light w k \<longleftrightarrow> callback_depth (lh w) = 0 \<and> balanced w \<and> unat (num_items (lh w)) \<le> k"

lemma insert_light:
  assumes "lh_inv H F w" and "funs_ok H F w" and "ptr_alloc_ok A" and "item_alloc_ok M" and "\<And>n. A (sizeof_ptr * n) \<noteq> None"
    and "light w k" and "k + 1 < 2 ^ 59" and "OPENSSL_lh_insert A M H F w d = Some (r, old, w')"
  shows "light w' (k + 1)"
proof -
  obtain c where c: "lh_chains (heap w) (buckets (lh w)) c" using lh_shapeE [OF lh_invD(1) [OF assms(1)]] by blast
  show ?thesis
  proof (cases rule: search_cases [OF assms(1,2) c, where d = d, case_names none one])
    case (none i xs)
    have g: "get_next_ptr_and_hash H F w d = Some (H (lh_hash (lh w)) d, place i xs)" "deref w (place i xs) = Some 0"
      using none(1) by (auto simp: found_at_def)
    show ?thesis
    proof (cases "M (heap w)")
      case None
      then show ?thesis using g assms(6,8) by (auto simp: OPENSSL_lh_insert_def light_def)
    next
      case (Some a)
      then have "heap w a = None" "a \<noteq> 0" using assms(4) by (auto simp: item_alloc_ok_def)
      from link_ok [OF assms(1,2) none this] obtain w1 where w1:
        "assign (w\<lparr>heap := (heap w)(a \<mapsto> \<lparr>it_data = d, it_next = 0, it_hash = H (lh_hash (lh w)) d\<rparr>)\<rparr>) (place i xs) a = Some w1"
        and l: "let w2 = w1\<lparr>lh := (lh w1)\<lparr>num_items := num_items (lh w1) + 1\<rparr>\<rparr> in lh_inv H F w2 \<and> kept w w2 \<and>
          contents w2 = insert d (contents w) \<and> num_buckets (lh w2) = num_buckets (lh w) \<and>
          num_items (lh w2) = num_items (lh w) + 1 \<and> unat (num_items (lh w2)) = unat (num_items (lh w)) + 1" by blast
      define w2 where "w2 = w1\<lparr>lh := (lh w1)\<lparr>num_items := num_items (lh w1) + 1\<rparr>\<rparr>"
      have w2: "lh_inv H F w2" "kept w w2" "num_buckets (lh w2) = num_buckets (lh w)" "unat (num_items (lh w2)) = unat (num_items (lh w)) + 1"
        using l unfolding Let_def w2_def [symmetric] by blast+
      have r: "lh_maybe_resize A w2 = Some w'"
        using g Some w1 assms(8) by (auto simp: OPENSSL_lh_insert_def w2_def bind_eq_Some_conv)
      have "balanced w'"
        using assms(6,7) kept_depth [OF w2(2)] w2(3,4)
        by (intro resize_balanced [OF lh_invD(1) [OF w2(1)] assms(3,5) _ _ _ _ r]) (auto simp: light_def balanced_def)
      moreover have "num_items (lh w') = num_items (lh w2)" by (rule resize_num_items [OF lh_invD(1) [OF w2(1)] assms(3) r])
      moreover have "callback_depth (lh w') = 0"
        using resize_kept [OF w2(1) assms(3)] r kept_depth [OF w2(2)] assms(6) by (auto simp: kept_def light_def)
      ultimately show ?thesis using w2(4) assms(6) by (simp add: light_def)
    qed
  next
    case (one i xs a ys)
    obtain it where it: "heap w a = Some it" "a \<noteq> 0" using members_live [OF lh_invD(1) [OF assms(1)] one(2)] by blast
    then have "w' = w\<lparr>heap := (heap w)(a \<mapsto> it\<lparr>it_data := d\<rparr>)\<rparr>"
      using one(1) assms(8) by (simp add: OPENSSL_lh_insert_def found_at_def)
    then show ?thesis using assms(6) by (simp add: light_def balanced_def)
  qed
qed

lemma delete_light:
  assumes "lh_inv H F w" and "funs_ok H F w" and "ptr_alloc_ok A" and "\<And>n. A (sizeof_ptr * n) \<noteq> None"
    and "light w k" and "k < 2 ^ 59" and "OPENSSL_lh_delete A H F w d = Some (r, w')"
  shows "light w' k"
proof -
  obtain c where c: "lh_chains (heap w) (buckets (lh w)) c" using lh_shapeE [OF lh_invD(1) [OF assms(1)]] by blast
  show ?thesis
  proof (cases rule: search_cases [OF assms(1,2) c, where d = d, case_names none one])
    case (none i xs)
    then have "w' = w" using assms(7) by (auto simp: OPENSSL_lh_delete_def found_at_def)
    then show ?thesis using assms(5) by simp
  next
    case (one i xs a ys)
    obtain w1 where w1: "OPENSSL_lh_delete A H F w d =
        Option.bind (lh_maybe_resize A w1) (\<lambda>w2. Some (data_of (heap w) a, w2))"
      "unlinked a w w1" "lh_chains (heap w1) (buckets (lh w1)) (c(unat i := xs @ ys))"
      using unlink_ok [OF assms(1) one(1)] by blast
    have inv: "lh_inv H F w1" using unlinked_inv(1) [OF w1(2) assms(1) one(2)] w1(3) by blast
    have r: "lh_maybe_resize A w1 = Some w'" using assms(7) unfolding w1(1) by (auto simp: bind_eq_Some_conv)
    have u: "kept w w1" "num_buckets (lh w1) = num_buckets (lh w)" "members w1 = members w - {a}"
      using w1(2) by (simp_all add: unlinked_def)
    have n: "unat (num_items (lh w1)) = unat (num_items (lh w)) - 1" "0 < unat (num_items (lh w))"
      using lh_invD(1) [OF inv] lh_invD(1) [OF assms(1)] u(3) one(2) card_gt_0_iff [of "members w"]
      by (auto simp: lh_shape_def card_Diff_singleton)
    have "balanced w'"
      using assms(5,6) kept_depth [OF u(1)] u(2) n
      by (intro resize_balanced [OF lh_invD(1) [OF inv] assms(3,4) _ _ _ _ r]) (auto simp: light_def balanced_def)
    moreover have "num_items (lh w') = num_items (lh w1)" by (rule resize_num_items [OF lh_invD(1) [OF inv] assms(3) r])
    moreover have "callback_depth (lh w') = 0"
      using resize_kept [OF inv assms(3)] r kept_depth [OF u(1)] assms(5) by (auto simp: kept_def light_def)
    ultimately show ?thesis using n(1) assms(5) by (auto simp: light_def)
  qed
qed

lemma run_light:
  assumes "\<And>n. A (sizeof_ptr * n) \<noteq> None"
  shows "table_inv A M H F hash cmp hp w \<Longrightarrow> light w k \<Longrightarrow> k + length ops < 2 ^ 59 \<Longrightarrow>
    run_ops (OPENSSL_lh_insert A M H F) (OPENSSL_lh_delete A H F) (OPENSSL_lh_retrieve H F) w ops = Some (rs, w') \<Longrightarrow>
    light w' (k + length ops)"
proof (induction ops arbitrary: w k rs)
  case Nil
  then show ?case by simp
next
  case (Cons op ops)
  note i = table_invD [OF Cons.prems(1)]
  have up: "light w1 (k + 1)" if "light w1 k" for w1 using that by (simp add: light_def)
  show ?case
  proof (cases op)
    case (Insert d)
    then obtain ok r w1 rs1 where 1: "OPENSSL_lh_insert A M H F w d = Some (ok, r, w1)"
      "run_ops (OPENSSL_lh_insert A M H F) (OPENSSL_lh_delete A H F) (OPENSSL_lh_retrieve H F) w1 ops = Some (rs1, w')"
      using Cons.prems(4) by (auto simp: bind_eq_Some_conv)
    have "table_inv A M H F hash cmp hp w1" using table.ins_law [OF Cons.prems(1), of d] 1(1) by auto
    moreover have "light w1 (k + 1)" using insert_light [OF i(3,4,1,2) assms Cons.prems(2) _ 1(1)] Cons.prems(3) by simp
    ultimately show ?thesis using Cons.IH [OF _ _ _ 1(2)] Cons.prems(3) by fastforce
  next
    case (Delete d)
    then obtain r w1 rs1 where 1: "OPENSSL_lh_delete A H F w d = Some (r, w1)"
      "run_ops (OPENSSL_lh_insert A M H F) (OPENSSL_lh_delete A H F) (OPENSSL_lh_retrieve H F) w1 ops = Some (rs1, w')"
      using Cons.prems(4) by (auto simp: bind_eq_Some_conv)
    have "table_inv A M H F hash cmp hp w1" using table.del_law [OF Cons.prems(1), of d] 1(1) by auto
    moreover have "light w1 (k + 1)" using delete_light [OF i(3,4,1) assms Cons.prems(2) _ 1(1)] up Cons.prems(3) by simp
    ultimately show ?thesis using Cons.IH [OF _ _ _ 1(2)] Cons.prems(3) by fastforce
  next
    case (Retrieve d)
    then obtain rs1 where
      "run_ops (OPENSSL_lh_insert A M H F) (OPENSSL_lh_delete A H F) (OPENSSL_lh_retrieve H F) w ops = Some (rs1, w')"
      using Cons.prems(4) by (auto simp: bind_eq_Some_conv)
    then show ?thesis using Cons.IH [OF Cons.prems(1) up [OF Cons.prems(2)]] Cons.prems(3) by simp
  qed
qed

lemma card_contents:
  assumes "lh_inv H F w" and "funs_ok H F w"
  shows "card (contents w) = unat (num_items (lh w))"
proof -
  have "inj_on (data_of (heap w)) (members w)"
    using lh_invD(3) [OF assms(1)] funs_okD(1) [OF assms(2)] by (intro inj_onI) simp
  then show ?thesis using lh_invD(1) [OF assms(1)] by (simp add: contents_def card_image lh_shape_def)
qed

section \<open>Properties\<close>

text \<open>C25. The hash table implements a set of elements. After any sequence of insertions, deletions and retrievals on a
  new table, every call ends, uses live memory only and answers what the set of elements at that point says (the element
  equal to the given one, or null), the set changes as specified, the counter of items is its size, and freeing the table
  leaves the heap exactly as it was before the table was made, whatever resizing took place and whichever allocations failed.\<close>

theorem lh_refines_set:
  assumes "ptr_alloc_ok A" and "item_alloc_ok M" and "lh_funs_ok (H hash) (F cmp)"
    and "OPENSSL_lh_new A got hp hash cmp = Some w"
  shows "\<exists>rs w'. run_ops (OPENSSL_lh_insert A M H F) (OPENSSL_lh_delete A H F) (OPENSSL_lh_retrieve H F) w ops = Some (rs, w') \<and>
    ops_spec (\<lambda>p q. F cmp p q = 0) {} ops rs (contents w') \<and> unat (OPENSSL_lh_num_items w') = card (contents w') \<and>
    OPENSSL_lh_free (heap w') (Some (lh w')) = Some hp"
proof -
  note new = OPENSSL_lh_new_ok [OF assms(1,4)]
  have "table_inv A M H F hash cmp hp w" using assms(1-3) new by (simp add: table_inv_def)
  then obtain rs w' where r: "run_ops (OPENSSL_lh_insert A M H F) (OPENSSL_lh_delete A H F) (OPENSSL_lh_retrieve H F) w ops = Some (rs, w')"
    "table_inv A M H F hash cmp hp w'" "ops_spec (\<lambda>p q. F cmp p q = 0) {} ops rs (contents w')"
    using table.run_refines [of A M H F hash cmp hp w ops] new(2) by auto
  note i = table_invD [OF r(2)]
  have "rest w' = hp" using r(2) by (simp add: table_inv_def)
  then show ?thesis
    using r card_contents [OF i(3,4)] OPENSSL_lh_free_ok [OF lh_invD(1) [OF i(3)]] by (auto simp: OPENSSL_lh_num_items_def)
qed

definition word_memory :: ptr_allocator where
  "word_memory n = (if unat n mod 8 = 0 then Some (replicate (unat n div 8) 7) else None)"

definition small_heap :: item_allocator where
  "small_heap hp = find (\<lambda>a. hp a = None) [100, 200, 300]"

definition low_bits :: lh_hashing where
  "low_bits h p = ucast p"

definition by_address :: comparison where
  "by_address c p q = int (unat p) - int (unat q)"

lemma by_address_eq: "by_address c p q = 0 \<longleftrightarrow> p = q"
  unfolding by_address_def word_unat_eq_iff by linarith

lemma example_table:
  "ptr_alloc_ok word_memory" "item_alloc_ok small_heap" "lh_funs_ok (low_bits h) (by_address c)"
  "word_memory (sizeof_ptr * n) \<noteq> None" "\<exists>w. OPENSSL_lh_new word_memory True Map.empty h c = Some w"
proof -
  show "ptr_alloc_ok word_memory" by (auto simp: ptr_alloc_ok_def word_memory_def split: if_splits)
  show "item_alloc_ok small_heap" by (auto simp: item_alloc_ok_def small_heap_def split: if_splits)
  show "lh_funs_ok (low_bits h) (by_address c)" by (simp add: lh_funs_ok_def by_address_eq low_bits_def)
  have "unat (sizeof_ptr * n) mod 8 = 0"
    by (simp add: sizeof_ptr_def unat_word_ariths mod_mod_cancel)
  then show "word_memory (sizeof_ptr * n) \<noteq> None" by (simp add: word_memory_def)
  show "\<exists>w. OPENSSL_lh_new word_memory True Map.empty h c = Some w"
    by (simp add: OPENSSL_lh_new_def word_memory_def sizeof_ptr_def kMinNumBuckets_def)
qed

lemma example_run: "map_option fst (Option.bind (OPENSSL_lh_new word_memory True Map.empty 1 2) (\<lambda>w.
    run_ops (OPENSSL_lh_insert word_memory small_heap low_bits by_address) (OPENSSL_lh_delete word_memory low_bits by_address)
      (OPENSSL_lh_retrieve low_bits by_address) w [Insert 5, Insert 21, Retrieve 5, Delete 5, Retrieve 5, Retrieve 21])) =
  Some [(True, 0), (True, 0), (True, 5), (True, 5), (True, 0), (True, 21)]"
  by code_simp

theorem lh_refines_set_witness:
  "\<exists>w w'. OPENSSL_lh_new word_memory True Map.empty 1 2 = Some w \<and>
     run_ops (OPENSSL_lh_insert word_memory small_heap low_bits by_address) (OPENSSL_lh_delete word_memory low_bits by_address)
       (OPENSSL_lh_retrieve low_bits by_address) w [Insert 5, Insert 21, Retrieve 5, Delete 5, Retrieve 5, Retrieve 21] =
       Some ([(True, 0), (True, 0), (True, 5), (True, 5), (True, 0), (True, 21)], w') \<and>
     OPENSSL_lh_free (heap w') (Some (lh w')) = Some Map.empty"
proof -
  let ?ops = "[Insert 5, Insert 21, Retrieve 5, Delete 5, Retrieve 5, Retrieve 21]"
  obtain w where w: "OPENSSL_lh_new word_memory True Map.empty 1 2 = Some w" using example_table(5) by blast
  then obtain rs w' where r:
    "run_ops (OPENSSL_lh_insert word_memory small_heap low_bits by_address) (OPENSSL_lh_delete word_memory low_bits by_address)
       (OPENSSL_lh_retrieve low_bits by_address) w ?ops = Some (rs, w')"
    "OPENSSL_lh_free (heap w') (Some (lh w')) = Some Map.empty"
    using lh_refines_set [where H = low_bits and F = by_address and ops = ?ops, OF example_table(1-3) w] by blast
  then have "rs = [(True, 0), (True, 0), (True, 5), (True, 5), (True, 0), (True, 21)]"
    using example_run w by (simp del: run_ops.simps)
  then show ?thesis using w r by blast
qed

text \<open>C15. \<^verbatim>\<open>lh_doall_arg\<close> calls its callback on every element exactly once, even if the callback deletes elements as it is
  called on them, which is how expired sessions are removed: the elements that are left are those that were not deleted, the
  table is well-formed, and the iteration counter and the rest of the heap are as before.\<close>

theorem lh_doall_deletes:
  assumes "ptr_alloc_ok A" and "lh_funs_ok (H (lh_hash (lh w))) (F (lh_comp (lh w)))" and "lh_inv H F w"
    and "callback_depth (lh w) < 0xfffffffe"
  shows "\<exists>ds w'. OPENSSL_lh_doall_arg A (Some w) (sweep A H F P g) u = Some (fold g ds u, Some w') \<and>
    distinct ds \<and> set ds = contents w \<and> contents w' = {d \<in> contents w. \<not> P d} \<and> lh_inv H F w' \<and>
    callback_depth (lh w') = callback_depth (lh w) \<and> rest w' = rest w"
proof -
  have "(- 2 :: uint32) = 0xfffffffe" by simp
  then have "callback_depth (lh w) < - 2" "funs_ok H F w" using assms(2,4) by (simp_all only: funs_ok_def)
  then obtain ds w' where "OPENSSL_lh_doall_arg A (Some w) (sweep A H F P g) u = Some (fold g ds u, Some w')" "distinct ds"
    "set ds = contents w" "contents w' = {d \<in> contents w. \<not> P d}" "lh_inv H F w'" "kept w w'"
    using doall_sweep_ok [OF assms(3) _ assms(1), of P g u] by auto
  then show ?thesis by (auto simp: kept_def)
qed

lemma example_inserts: "map_option (\<lambda>(rs, w). (rs, callback_depth (lh w))) (Option.bind (OPENSSL_lh_new word_memory True Map.empty 1 2) (\<lambda>w.
    run_ops (OPENSSL_lh_insert word_memory small_heap low_bits by_address) (OPENSSL_lh_delete word_memory low_bits by_address)
      (OPENSSL_lh_retrieve low_bits by_address) w [Insert 5, Insert 21])) = Some ([(True, 0), (True, 0)], 0)"
  by code_simp

theorem lh_doall_deletes_witness:
  "\<exists>w (ds :: ptr list) w'. contents w = {5, 21} \<and>
     OPENSSL_lh_doall_arg word_memory (Some w) (sweep word_memory low_bits by_address (\<lambda>d. d = 5) (\<lambda>d n. n + 1)) (0 :: nat) =
       Some (fold (\<lambda>d n. n + 1) ds 0, Some w') \<and> distinct ds \<and> set ds = {5, 21} \<and> contents w' = {21}"
proof -
  obtain w0 where w0: "OPENSSL_lh_new word_memory True Map.empty 1 2 = Some w0" using example_table(5) by blast
  note new = OPENSSL_lh_new_ok [OF example_table(1) w0]
  have inv: "table_inv word_memory small_heap low_bits by_address 1 2 Map.empty w0"
    using example_table(1-3) new by (simp add: table_inv_def)
  obtain rs w where w: "run_ops (OPENSSL_lh_insert word_memory small_heap low_bits by_address) (OPENSSL_lh_delete word_memory low_bits by_address)
      (OPENSSL_lh_retrieve low_bits by_address) w0 [Insert 5, Insert 21] = Some (rs, w)"
    "table_inv word_memory small_heap low_bits by_address 1 2 Map.empty w"
    "ops_spec (\<lambda>p q. by_address 2 p q = 0) {} [Insert 5, Insert 21] rs (contents w)"
    using table.run_refines [OF inv, of "[Insert 5, Insert 21]"] new(2) by auto
  then have "rs = [(True, 0), (True, 0)]" and d: "callback_depth (lh w) = 0"
    using example_inserts w0 by (simp_all del: run_ops.simps)
  then have "contents w = insert 21 {x \<in> {5}. x \<noteq> 21}" using w(3) by (clarsimp simp: by_address_eq)
  then have c: "contents w = {5, 21}" by auto
  have i: "lh_funs_ok (low_bits (lh_hash (lh w))) (by_address (lh_comp (lh w)))" "lh_inv low_bits by_address w"
    using w(2) example_table(3) by (simp_all add: table_inv_def)
  have "callback_depth (lh w) < 0xfffffffe" unfolding d by simp
  from lh_doall_deletes [OF example_table(1) i this, where P = "\<lambda>d. d = 5" and g = "\<lambda>d n. n + 1" and u = "0 :: nat"]
  obtain ds w' where r:
    "OPENSSL_lh_doall_arg word_memory (Some w) (sweep word_memory low_bits by_address (\<lambda>d. d = 5) (\<lambda>d n. n + 1)) (0 :: nat) =
      Some (fold (\<lambda>d n. n + 1) ds 0, Some w')" "distinct ds" "set ds = contents w" "contents w' = {d \<in> contents w. d \<noteq> 5}"
    by (elim exE conjE)
  have "{d \<in> {5, 21}. d \<noteq> 5} = {21 :: ptr}" by auto
  then have "contents w' = {21}" using r(4) unfolding c by simp
  then show ?thesis using r c by (intro exI [of _ w] exI [of _ ds] exI [of _ w']) (simp only: simp_thms)
qed

text \<open>C12. Chains stay short: as long as allocation succeeds, after any sequence of operations on a new table there are fewer
  than three items per bucket on average, and the array, once it has grown, has no more buckets than there are items.\<close>

theorem lh_load_bounded:
  assumes "ptr_alloc_ok A" and "item_alloc_ok M" and "lh_funs_ok (H hash) (F cmp)" and "\<forall>n. A (sizeof_ptr * n) \<noteq> None"
    and "OPENSSL_lh_new A got hp hash cmp = Some w" and "length ops < 2 ^ 59"
    and "run_ops (OPENSSL_lh_insert A M H F) (OPENSSL_lh_delete A H F) (OPENSSL_lh_retrieve H F) w ops = Some (rs, w')"
  shows "card (contents w') < 3 * unat (num_buckets (lh w')) \<and>
    (unat (num_buckets (lh w')) = 16 \<or> unat (num_buckets (lh w')) \<le> card (contents w'))"
proof -
  note new = OPENSSL_lh_new_ok [OF assms(1,5)]
  have inv: "table_inv A M H F hash cmp hp w" using assms(1-3) new by (simp add: table_inv_def)
  have "light w 0" by (simp add: light_def balanced_def new kMinNumBuckets_def)
  then have l: "light w' (length ops)" using run_light [OF _ inv _ _ assms(7), of 0] assms(4,6) by simp
  have "table_inv A M H F hash cmp hp w'" using table.run_refines [OF inv, of ops] assms(7) by auto
  note i = table_invD [OF this]
  have "16 \<le> unat (num_buckets (lh w'))" using lh_invD(1) [OF i(3)] by (auto simp: lh_shape_def kMinNumBuckets_def word_le_nat_alt)
  then show ?thesis using l card_contents [OF i(3,4)] by (auto simp: light_def balanced_def)
qed

theorem lh_load_bounded_witness:
  "\<exists>w rs w'. OPENSSL_lh_new word_memory True Map.empty 1 2 = Some w \<and>
     run_ops (OPENSSL_lh_insert word_memory small_heap low_bits by_address) (OPENSSL_lh_delete word_memory low_bits by_address)
       (OPENSSL_lh_retrieve low_bits by_address) w [Insert 5, Insert 21] = Some (rs, w') \<and>
     card (contents w') < 3 * unat (num_buckets (lh w'))"
proof -
  obtain w where w: "OPENSSL_lh_new word_memory True Map.empty 1 2 = Some w" using example_table(5) by blast
  obtain rs w' where r: "run_ops (OPENSSL_lh_insert word_memory small_heap low_bits by_address) (OPENSSL_lh_delete word_memory low_bits by_address)
      (OPENSSL_lh_retrieve low_bits by_address) w [Insert 5, Insert 21] = Some (rs, w')"
    using example_inserts w by (auto simp del: run_ops.simps)
  have all: "\<forall>n. word_memory (sizeof_ptr * n) \<noteq> None" using example_table(4) by blast
  have "length [Insert 5, Insert 21] < 2 ^ 59" by simp
  then show ?thesis using lh_load_bounded [where H = low_bits and F = by_address, OF example_table(1-3) all w _ r] w r by blast
qed

end
