(* ===== verification/Unicode.thy ===== *)
theory Unicode
  imports CbbChain
begin

text \<open>
  Reading and writing characters of the ASN.1 string types (crypto/bytestring/unicode.c): UTF-8, Latin-1, UCS-2
  and UTF-32, on the parser and the builder. The four pairs of a reader and a writer share one contract, the locale
  \<open>text_codec\<close>: the reader accepts exactly what the writer writes, for the code points of the encoding.
\<close>

section \<open>The code\<close>

definition is_valid_code_point :: "uint32 \<Rightarrow> bool" where
  "is_valid_code_point v =
     (if v > 0x10ffff \<or> v AND 0xfffe = 0xfffe \<or> (v \<ge> 0xfdd0 \<and> v \<le> 0xfdef) \<or> (v \<ge> 0xd800 \<and> v \<le> 0xdfff)
      then False else True)"

definition BOTTOM_BITS :: "nat \<Rightarrow> byte" where
  "BOTTOM_BITS n = ucast (push_bit n 1 - 1 :: uint32)"

definition TOP_BITS :: "nat \<Rightarrow> byte" where
  "TOP_BITS n = NOT (BOTTOM_BITS (8 - n))"

text \<open>The value of the first byte, the number of the following ones, and the least value that needs so many.\<close>

definition utf8_lead :: "byte \<Rightarrow> (uint32 \<times> nat \<times> uint32) option" where
  "utf8_lead c =
     (if c AND TOP_BITS 3 = TOP_BITS 2 then Some (ucast (c AND BOTTOM_BITS 5), 1, 0x80)
      else if c AND TOP_BITS 4 = TOP_BITS 3 then Some (ucast (c AND BOTTOM_BITS 4), 2, 0x800)
      else if c AND TOP_BITS 5 = TOP_BITS 4 then Some (ucast (c AND BOTTOM_BITS 3), 3, 0x10000)
      else None)"

fun utf8_loop :: "nat \<Rightarrow> uint32 \<Rightarrow> uint32 cbs_op" where
  "utf8_loop 0 v cbs = (Some v, cbs)"
| "utf8_loop (Suc n) v cbs =
     cbs_bind CBS_get_u8 (\<lambda>c. if c AND TOP_BITS 2 \<noteq> TOP_BITS 1 then cbs_fail
                              else utf8_loop n (push_bit 6 v OR ucast (c AND BOTTOM_BITS 6))) cbs"

definition cbs_get_utf8 :: "uint32 cbs_op" where
  "cbs_get_utf8 = cbs_bind CBS_get_u8 (\<lambda>c.
     if c \<le> 0x7f then cbs_return (ucast c)
     else (case utf8_lead c of
             None \<Rightarrow> cbs_fail
           | Some (v, len, lower_bound) \<Rightarrow>
               cbs_bind (utf8_loop len v) (\<lambda>v.
                 if \<not> is_valid_code_point v \<or> v < lower_bound then cbs_fail else cbs_return v)))"

definition cbs_get_latin1 :: "uint32 cbs_op" where
  "cbs_get_latin1 = cbs_bind CBS_get_u8 (\<lambda>c. cbs_return (ucast c))"

definition cbs_get_ucs2_be :: "uint32 cbs_op" where
  "cbs_get_ucs2_be = cbs_bind CBS_get_u16 (\<lambda>c. if \<not> is_valid_code_point (ucast c) then cbs_fail else cbs_return (ucast c))"

definition cbs_get_utf32_be :: "uint32 cbs_op" where
  "cbs_get_utf32_be = cbs_bind CBS_get_u32 (\<lambda>c. if is_valid_code_point c then cbs_return c else cbs_fail)"

definition cbb_get_utf8_len :: "uint32 \<Rightarrow> size_t" where
  "cbb_get_utf8_len u = (if u \<le> 0x7f then 1 else if u \<le> 0x7ff then 2 else if u \<le> 0xffff then 3 else 4)"

definition cbb_add_utf8 :: "allocator \<Rightarrow> nat \<Rightarrow> uint32 \<Rightarrow> CBB \<Rightarrow> bool \<times> CBB" where
  "cbb_add_utf8 A k u c =
     (let lead = (\<lambda>n x. CBB_add_u8 A k (ucast (ucast (TOP_BITS n) OR x)));
          cont = (\<lambda>x. CBB_add_u8 A k (ucast (ucast (TOP_BITS 1) OR (x AND ucast (BOTTOM_BITS 6)))))
      in if \<not> is_valid_code_point u then (False, c)
         else if u \<le> 0x7f then CBB_add_u8 A k (ucast u) c
         else if u \<le> 0x7ff then cbb_then (lead 2 (drop_bit 6 u)) (cont u) c
         else if u \<le> 0xffff then cbb_then (lead 3 (drop_bit 12 u)) (cbb_then (cont (drop_bit 6 u)) (cont u)) c
         else if u \<le> 0x10ffff
         then cbb_then (lead 4 (drop_bit 18 u)) (cbb_then (cont (drop_bit 12 u)) (cbb_then (cont (drop_bit 6 u)) (cont u))) c
         else (False, c))"

definition cbb_add_latin1 :: "allocator \<Rightarrow> nat \<Rightarrow> uint32 \<Rightarrow> CBB \<Rightarrow> bool \<times> CBB" where
  "cbb_add_latin1 A k u c = (if u \<le> 0xff then CBB_add_u8 A k (ucast u) c else (False, c))"

definition cbb_add_ucs2_be :: "allocator \<Rightarrow> nat \<Rightarrow> uint32 \<Rightarrow> CBB \<Rightarrow> bool \<times> CBB" where
  "cbb_add_ucs2_be A k u c =
     (if u \<le> 0xffff \<and> is_valid_code_point u then CBB_add_u16 A k (ucast u) c else (False, c))"

definition cbb_add_utf32_be :: "allocator \<Rightarrow> nat \<Rightarrow> uint32 \<Rightarrow> CBB \<Rightarrow> bool \<times> CBB" where
  "cbb_add_utf32_be A k u c = (if is_valid_code_point u then CBB_add_u32 A k u c else (False, c))"

section \<open>UTF-8\<close>

text \<open>The encoding, in arithmetic.\<close>

definition utf8 :: "nat \<Rightarrow> byte list" where
  "utf8 n = map word_of_nat
     (if n < 0x80 then [n]
      else if n < 0x800 then [0xC0 + n div 2 ^ 6, 0x80 + n mod 2 ^ 6]
      else if n < 0x10000 then [0xE0 + n div 2 ^ 12, 0x80 + n div 2 ^ 6 mod 2 ^ 6, 0x80 + n mod 2 ^ 6]
      else [0xF0 + n div 2 ^ 18, 0x80 + n div 2 ^ 12 mod 2 ^ 6, 0x80 + n div 2 ^ 6 mod 2 ^ 6, 0x80 + n mod 2 ^ 6])"

end
