(* ===== verification/UnicodeText.thy ===== *)
theory UnicodeText
  imports Unicode
begin

text \<open>
  The readers accept exactly what the writers write: UTF-8 in arithmetic, the contract of the four codecs, and whole texts.
\<close>

lemma utf8_masks: "TOP_BITS 1 = 0x80" "TOP_BITS 2 = 0xC0" "TOP_BITS 3 = 0xE0" "TOP_BITS 4 = 0xF0" "TOP_BITS 5 = 0xF8"
  "BOTTOM_BITS 3 = 7" "BOTTOM_BITS 4 = 0xF" "BOTTOM_BITS 5 = 0x1F" "BOTTOM_BITS 6 = 0x3F"
  by code_simp+

text \<open>What the tests on a byte mean.\<close>

lemma lead_tests:
  fixes c :: byte
  shows "c AND 0xC0 = 0x80 \<longleftrightarrow> 0x80 \<le> unat c \<and> unat c < 0xC0" "c AND 0xE0 = 0xC0 \<longleftrightarrow> 0xC0 \<le> unat c \<and> unat c < 0xE0"
    "c AND 0xF0 = 0xE0 \<longleftrightarrow> 0xE0 \<le> unat c \<and> unat c < 0xF0" "c AND 0xF8 = 0xF0 \<longleftrightarrow> 0xF0 \<le> unat c \<and> unat c < 0xF8"
    "unat (c AND 0x3F) = unat c mod 0x40" "unat (c AND 0x1F) = unat c mod 0x20" "unat (c AND 0xF) = unat c mod 0x10"
    "unat (c AND 7) = unat c mod 8"
proof -
  have "\<forall>c :: byte. (c AND 0xC0 = 0x80 \<longleftrightarrow> 0x80 \<le> unat c \<and> unat c < 0xC0)" unfolding all_byte_iff by code_simp
  then show "c AND 0xC0 = 0x80 \<longleftrightarrow> 0x80 \<le> unat c \<and> unat c < 0xC0" ..
  have "\<forall>c :: byte. (c AND 0xE0 = 0xC0 \<longleftrightarrow> 0xC0 \<le> unat c \<and> unat c < 0xE0)" unfolding all_byte_iff by code_simp
  then show "c AND 0xE0 = 0xC0 \<longleftrightarrow> 0xC0 \<le> unat c \<and> unat c < 0xE0" ..
  have "\<forall>c :: byte. (c AND 0xF0 = 0xE0 \<longleftrightarrow> 0xE0 \<le> unat c \<and> unat c < 0xF0)" unfolding all_byte_iff by code_simp
  then show "c AND 0xF0 = 0xE0 \<longleftrightarrow> 0xE0 \<le> unat c \<and> unat c < 0xF0" ..
  have "\<forall>c :: byte. (c AND 0xF8 = 0xF0 \<longleftrightarrow> 0xF0 \<le> unat c \<and> unat c < 0xF8)" unfolding all_byte_iff by code_simp
  then show "c AND 0xF8 = 0xF0 \<longleftrightarrow> 0xF0 \<le> unat c \<and> unat c < 0xF8" ..
  have "c AND 0x3F = take_bit 6 c" "c AND 0x1F = take_bit 5 c" "c AND 0xF = take_bit 4 c" "c AND 7 = take_bit 3 c"
    by (simp_all add: take_bit_eq_mask mask_eq_exp_minus_1)
  then show "unat (c AND 0x3F) = unat c mod 0x40" "unat (c AND 0x1F) = unat c mod 0x20" "unat (c AND 0xF) = unat c mod 0x10"
    "unat (c AND 7) = unat c mod 8"
    by (simp_all add: unat_take_bit)
qed

lemma cont_step:
  fixes v :: uint32 and c :: byte
  assumes "unat v < 2 ^ 26"
  shows "unat (push_bit 6 v OR ucast (c AND 0x3F)) = unat v * 64 + unat c mod 64"
proof -
  have "push_bit 6 v AND ucast (c AND 0x3F) = 0"
  proof -
    have "c AND 0x3F = take_bit 6 c" by (simp add: take_bit_eq_mask mask_eq_exp_minus_1)
    then show ?thesis by (auto intro!: bit_eqI simp: bit_simps)
  qed
  then have "push_bit 6 v OR ucast (c AND 0x3F) = push_bit 6 v + ucast (c AND 0x3F)"
    by (simp add: disjunctive_add_eq_or)
  moreover have "unat (push_bit 6 v) = unat v * 64"
    using assms by (simp add: push_bit_eq_mult unat_word_ariths)
  moreover have "unat (ucast (c AND 0x3F) :: uint32) = unat c mod 64"
    by (simp add: unat_ucast_up lead_tests)
  ultimately show ?thesis
    using assms mod_less_divisor [of 64 "unat c"] by (simp add: unat_add_no_wrap)
qed

lemma utf8_loop_step:
  "utf8_loop (Suc n) v cbs = (Some w, rest) \<longleftrightarrow>
     (\<exists>c mid. cbs = c # mid \<and> 0x80 \<le> unat c \<and> unat c < 0xC0 \<and> utf8_loop n (push_bit 6 v OR ucast (c AND 0x3F)) mid = (Some w, rest))"
  by (auto simp: cbs_bind_eq_Some CBS_get_u8_eq_Some utf8_masks lead_tests simp del: One_nat_def split: if_splits)

text \<open>A lead byte announces a number of bytes and carries the high bits.\<close>

definition follows :: "byte \<Rightarrow> bool" where
  "follows c \<longleftrightarrow> 0x80 \<le> unat c \<and> unat c < 0xC0"

fun utf8_value :: "nat \<Rightarrow> byte list \<Rightarrow> nat" where
  "utf8_value a [] = a"
| "utf8_value a (c # cs) = utf8_value (a * 64 + unat c mod 64) cs"

lemma utf8_loop_iff:
  "(unat v + 1) * 64 ^ n \<le> 2 ^ 32 \<Longrightarrow> utf8_loop n v cbs = (Some w, rest) \<longleftrightarrow>
     (\<exists>cs. length cs = n \<and> cbs = cs @ rest \<and> list_all follows cs \<and> unat w = utf8_value (unat v) cs)"
proof (induction n arbitrary: v cbs)
  case 0
  then show ?case by (auto simp: word_unat_eq_iff)
next
  case (Suc n)
  have "(64 :: nat) ^ n \<ge> 1" by simp
  then have "(unat v + 1) * 64 * 1 \<le> (unat v + 1) * 64 * 64 ^ n" by (rule mult_le_mono2)
  also have "\<dots> \<le> 2 ^ 32" using Suc.prems by (simp only: power_Suc mult.assoc)
  finally have v: "unat v < 2 ^ 26" by simp
  have step: "unat (push_bit 6 v OR ucast (c AND 0x3F)) = unat v * 64 + unat c mod 64" for c :: byte
    by (rule cont_step [OF v])
  have "(unat (push_bit 6 v OR ucast (c AND 0x3F)) + 1) * 64 ^ n \<le> 2 ^ 32" for c :: byte
  proof -
    have "unat v * 64 + unat c mod 64 + 1 \<le> (unat v + 1) * 64" using mod_less_divisor [of 64 "unat c"] by simp
    then have "(unat v * 64 + unat c mod 64 + 1) * 64 ^ n \<le> (unat v + 1) * 64 * 64 ^ n" by (rule mult_le_mono1)
    also have "\<dots> \<le> 2 ^ 32" using Suc.prems by (simp only: power_Suc mult.assoc)
    finally show ?thesis by (simp only: step)
  qed
  note IH = Suc.IH [OF this]
  show ?case
    unfolding utf8_loop_step IH step
  proof
    assume "\<exists>c mid. cbs = c # mid \<and> 0x80 \<le> unat c \<and> unat c < 0xC0 \<and>
      (\<exists>cs. length cs = n \<and> mid = cs @ rest \<and> list_all follows cs \<and> unat w = utf8_value (unat v * 64 + unat c mod 64) cs)"
    then obtain c cs where "cbs = c # cs @ rest" "follows c" "length cs = n" "list_all follows cs"
        "unat w = utf8_value (unat v * 64 + unat c mod 64) cs" by (auto simp: follows_def)
    then show "\<exists>cs. length cs = Suc n \<and> cbs = cs @ rest \<and> list_all follows cs \<and> unat w = utf8_value (unat v) cs"
      by (intro exI [of _ "c # cs"]) simp
  next
    assume "\<exists>cs. length cs = Suc n \<and> cbs = cs @ rest \<and> list_all follows cs \<and> unat w = utf8_value (unat v) cs"
    then show "\<exists>c mid. cbs = c # mid \<and> 0x80 \<le> unat c \<and> unat c < 0xC0 \<and>
      (\<exists>cs. length cs = n \<and> mid = cs @ rest \<and> list_all follows cs \<and> unat w = utf8_value (unat v * 64 + unat c mod 64) cs)"
      by (auto simp: length_Suc_conv follows_def)
  qed
qed

lemma utf8_lead_eq:
  "utf8_lead c = (if 0xC0 \<le> unat c \<and> unat c < 0xE0 then Some (ucast (c AND 0x1F), 1, 0x80)
     else if 0xE0 \<le> unat c \<and> unat c < 0xF0 then Some (ucast (c AND 0xF), 2, 0x800)
     else if 0xF0 \<le> unat c \<and> unat c < 0xF8 then Some (ucast (c AND 7), 3, 0x10000) else None)"
  unfolding utf8_lead_def utf8_masks lead_tests ..

lemma utf8_lead_bytes:
  assumes "utf8_lead c = Some (v, len, lower)"
  shows "(\<exists>h. unat c = 0xC0 + h \<and> h < 0x20 \<and> unat v = h \<and> len = 1 \<and> lower = 0x80) \<or>
    (\<exists>h. unat c = 0xE0 + h \<and> h < 0x10 \<and> unat v = h \<and> len = 2 \<and> lower = 0x800) \<or>
    (\<exists>h. unat c = 0xF0 + h \<and> h < 8 \<and> unat v = h \<and> len = 3 \<and> lower = 0x10000)"
proof -
  have v: "unat (ucast (x :: byte) :: uint32) = unat x" for x by (simp add: unat_ucast_up)
  consider "0xC0 \<le> unat c \<and> unat c < 0xE0" | "0xE0 \<le> unat c \<and> unat c < 0xF0" | "0xF0 \<le> unat c \<and> unat c < 0xF8"
    using assms unfolding utf8_lead_eq by (meson option.distinct(1))
  then show ?thesis
  proof cases
    case 1
    then obtain h where h: "unat c = 0xC0 + h" "h < 0x20" by (auto simp: le_iff_add)
    moreover have "(0x20 * 6 + h) mod 0x20 = h" using h(2) by (simp only: mod_mult_self4 mod_less)
    ultimately have "unat c = 0xC0 + unat c mod 0x20" by simp
    moreover have "unat v = unat c mod 0x20" "len = 1" "lower = 0x80" using 1 assms by (auto simp: utf8_lead_eq v lead_tests)
    ultimately show ?thesis by (intro disjI1 exI [of _ "unat c mod 0x20"]) simp
  next
    case 2
    then obtain h where h: "unat c = 0xE0 + h" "h < 0x10" by (auto simp: le_iff_add)
    moreover have "(0x10 * 14 + h) mod 0x10 = h" using h(2) by (simp only: mod_mult_self4 mod_less)
    ultimately have "unat c = 0xE0 + unat c mod 0x10" by simp
    moreover have "unat v = unat c mod 0x10" "len = 2" "lower = 0x800" using 2 assms by (auto simp: utf8_lead_eq v lead_tests)
    ultimately show ?thesis by (intro disjI2 [OF disjI1] exI [of _ "unat c mod 0x10"]) simp
  next
    case 3
    then obtain h where h: "unat c = 0xF0 + h" "h < 8" by (auto simp: le_iff_add)
    moreover have "(8 * 30 + h) mod 8 = h" using h(2) by (simp only: mod_mult_self4 mod_less)
    ultimately have "unat c = 0xF0 + unat c mod 8" by simp
    moreover have "unat v = unat c mod 8" "len = 3" "lower = 0x10000" using 3 assms by (auto simp: utf8_lead_eq v lead_tests)
    ultimately show ?thesis by (intro disjI2 [OF disjI2] exI [of _ "unat c mod 8"]) simp
  qed
qed

lemma byte_eq: "unat (c :: byte) = n \<Longrightarrow> n < 256 \<Longrightarrow> c = word_of_nat n"
  by (rule word_of_natI)

lemma follow_byte:
  assumes "follows c"
  shows "unat c mod 64 = unat c - 0x80" and "unat c = 0x80 + unat c mod 64"
proof -
  obtain h where h: "unat c = 0x80 + h" "h < 64" using assms by (auto simp: follows_def le_iff_add)
  moreover have "(64 * 2 + h) mod 64 = h" using h(2) by (simp only: mod_mult_self4 mod_less)
  ultimately show "unat c mod 64 = unat c - 0x80" "unat c = 0x80 + unat c mod 64" by simp_all
qed

lemma digits_64:
  "b < 64 \<Longrightarrow> (a * 64 + b) div 64 = (a :: nat)" "b < 64 \<Longrightarrow> (a * 64 + b) mod 64 = (b :: nat)"
  by simp_all

text \<open>The bytes that are read determine the value, and the value the bytes.\<close>

lemma utf8_2: "h < 0x20 \<Longrightarrow> x < 64 \<Longrightarrow> 0x80 \<le> h * 64 + x \<Longrightarrow>
    utf8 (h * 64 + x) = [word_of_nat (0xC0 + h), word_of_nat (0x80 + x)]"
  by (simp add: utf8_def digits_64)

lemma utf8_3: "h < 0x10 \<Longrightarrow> x < 64 \<Longrightarrow> y < 64 \<Longrightarrow> 0x800 \<le> (h * 64 + x) * 64 + y \<Longrightarrow>
    utf8 ((h * 64 + x) * 64 + y) = [word_of_nat (0xE0 + h), word_of_nat (0x80 + x), word_of_nat (0x80 + y)]"
proof -
  assume a: "h < 0x10" "x < 64" "y < 64" "0x800 \<le> (h * 64 + x) * 64 + y"
  let ?n = "(h * 64 + x) * 64 + y"
  have "?n div 4096 = ?n div 64 div 64" by (simp add: div_mult2_eq [symmetric])
  then have "?n div 4096 = h" "?n div 64 = h * 64 + x" "?n mod 64 = y" using a by (simp_all only: digits_64)
  then show ?thesis using a by (simp add: utf8_def digits_64)
qed

lemma utf8_4: "h < 8 \<Longrightarrow> x < 64 \<Longrightarrow> y < 64 \<Longrightarrow> z < 64 \<Longrightarrow> 0x10000 \<le> ((h * 64 + x) * 64 + y) * 64 + z \<Longrightarrow>
    utf8 (((h * 64 + x) * 64 + y) * 64 + z) =
      [word_of_nat (0xF0 + h), word_of_nat (0x80 + x), word_of_nat (0x80 + y), word_of_nat (0x80 + z)]"
proof -
  assume a: "h < 8" "x < 64" "y < 64" "z < 64" "0x10000 \<le> ((h * 64 + x) * 64 + y) * 64 + z"
  let ?n = "((h * 64 + x) * 64 + y) * 64 + z"
  have "?n div 4096 = ?n div 64 div 64" "?n div 262144 = ?n div 64 div 64 div 64" by (simp_all add: div_mult2_eq [symmetric])
  then have "?n div 262144 = h" "?n div 4096 = h * 64 + x" "?n div 64 = (h * 64 + x) * 64 + y" "?n mod 64 = z"
    "((h * 64 + x) * 64 + y) mod 64 = y" using a by (simp_all only: digits_64)
  then show ?thesis using a by (simp add: utf8_def digits_64)
qed

lemma byte_back: "n < 256 \<Longrightarrow> unat (word_of_nat n :: byte) = n"
  by (rule unat_of_nat_small) simp

lemma utf8_multibyte_iff:
  assumes lead: "utf8_lead c = Some (v, len, lower)" and lens: "length cs = len" and f: "list_all follows cs"
    and n: "n = utf8_value (unat v) cs" and lower: "unat lower \<le> n"
  shows "utf8 n = c # cs"
proof -
  have fb: "follows x \<Longrightarrow> word_of_nat (0x80 + unat x mod 64) = x" for x
    using byte_eq [of x "0x80 + unat x mod 64"] follow_byte(2) [of x] by (simp add: follows_def)
  have mod: "unat x mod 64 < 64" for x :: byte by simp
  consider h where "unat c = 0xC0 + h" "h < 0x20" "unat v = h" "len = 1" "lower = 0x80"
    | h where "unat c = 0xE0 + h" "h < 0x10" "unat v = h" "len = 2" "lower = 0x800"
    | h where "unat c = 0xF0 + h" "h < 8" "unat v = h" "len = 3" "lower = 0x10000"
    using utf8_lead_bytes [OF lead] by blast
  then show ?thesis
  proof cases
    case (1 h)
    obtain x where cs: "cs = [x]" using lens 1(4) by (auto simp: length_Suc_conv)
    have "c = word_of_nat (0xC0 + h)" by (rule byte_eq) (use 1 in simp_all)
    then show ?thesis using 1 cs n lower f utf8_2 [OF 1(2) mod, of x] fb by simp
  next
    case (2 h)
    obtain x y where cs: "cs = [x, y]" using lens 2(4) by (auto simp: length_Suc_conv numeral_2_eq_2)
    have "c = word_of_nat (0xE0 + h)" by (rule byte_eq) (use 2 in simp_all)
    then show ?thesis using 2 cs n lower f utf8_3 [OF 2(2) mod mod, of x y] fb by simp
  next
    case (3 h)
    obtain x y z where cs: "cs = [x, y, z]" using lens 3(4) by (auto simp: length_Suc_conv numeral_3_eq_3)
    have "c = word_of_nat (0xF0 + h)" by (rule byte_eq) (use 3 in simp_all)
    then show ?thesis using 3 cs n lower f utf8_4 [OF 3(2) mod mod mod, of x y z] fb by simp
  qed
qed

lemma valid_bound: "is_valid_code_point u \<Longrightarrow> unat u \<le> 0x10ffff"
  by (auto simp: is_valid_code_point_def word_less_nat_alt split: if_splits)

lemma ascii_valid: "unat u < 0x80 \<Longrightarrow> is_valid_code_point u"
proof -
  assume u: "unat u < 0x80"
  have "u AND 0xfffe \<noteq> 0xfffe"
  proof
    assume "u AND 0xfffe = 0xfffe"
    then have "unat (u AND 0xfffe) = 0xfffe" by simp
    moreover have "unat (u AND 0xfffe) \<le> unat u" by (metis word_and_le2 word_le_nat_alt)
    ultimately show False using u by simp
  qed
  then show ?thesis using u by (simp add: is_valid_code_point_def word_less_nat_alt word_le_nat_alt)
qed

lemma utf8_split:
  assumes "0x80 \<le> n" and "n \<le> 0x10ffff"
  obtains c cs v len lower where "utf8 n = c # cs" "utf8_lead c = Some (v, len, lower)" "length cs = len" "list_all follows cs"
    "n = utf8_value (unat v) cs" "unat lower \<le> n"
proof -
  note of_nat_add [simp del]
  define z where "z = n mod 64"
  define y where "y = n div 64 mod 64"
  define x where "x = n div 4096 mod 64"
  have lt: "x < 64" "y < 64" "z < 64" by (simp_all add: x_def y_def z_def)
  have tail: "follows (word_of_nat (0x80 + d))" "unat (word_of_nat (0x80 + d) :: byte) mod 64 = d" if "d < 64" for d
  proof -
    have u: "unat (word_of_nat (0x80 + d) :: byte) = 0x80 + d" by (rule byte_back) (use that in simp)
    then show "follows (word_of_nat (0x80 + d))" using that by (simp add: follows_def)
    show "unat (word_of_nat (0x80 + d) :: byte) mod 64 = d"
      unfolding u using that mod_mult_self4 [of 64 2 d] by simp
  qed
  have v: "unat (ucast (b :: byte) :: uint32) = unat b" for b by (simp add: unat_ucast_up)
  consider "n < 0x800" | "0x800 \<le> n" "n < 0x10000" | "0x10000 \<le> n" using assms by linarith
  then show ?thesis
  proof cases
    case 1
    define h where "h = n div 64"
    have h: "h < 0x20" "n = h * 64 + z" using 1 by (simp_all add: h_def z_def)
    have u: "unat (word_of_nat (0xC0 + h) :: byte) = 0xC0 + h" by (rule byte_back) (use h in simp)
    have lead: "utf8_lead (word_of_nat (0xC0 + h)) = Some (ucast (word_of_nat (0xC0 + h) AND 0x1F :: byte), 1, 0x80)"
      using h u by (simp add: utf8_lead_eq)
    have val: "unat (word_of_nat (0xC0 + h) AND 0x1F :: byte) = h"
      using h mod_mult_self4 [of 32 6 h] by (simp add: lead_tests u)
    have enc: "utf8 n = [word_of_nat (0xC0 + h), word_of_nat (0x80 + z)]"
      using h lt utf8_2 [of h z] assms(1) by simp
    show ?thesis
      by (rule that [OF enc lead]) (use h lt assms(1) val tail [OF lt(3)] in \<open>simp_all add: v\<close>)
  next
    case 2
    define h where "h = n div 4096"
    have "n div 64 div 64 = h" by (simp add: h_def div_mult2_eq [symmetric])
    then have "n div 64 = h * 64 + y" using div_mult_mod_eq [of "n div 64" 64] by (simp only: y_def)
    then have h: "h < 0x10" "n = (h * 64 + y) * 64 + z"
      using 2 div_mult_mod_eq [of n 64] by (simp add: h_def, simp only: z_def)
    have u: "unat (word_of_nat (0xE0 + h) :: byte) = 0xE0 + h" by (rule byte_back) (use h in simp)
    have lead: "utf8_lead (word_of_nat (0xE0 + h)) = Some (ucast (word_of_nat (0xE0 + h) AND 0xF :: byte), 2, 0x800)"
      using h u by (simp add: utf8_lead_eq)
    have val: "unat (word_of_nat (0xE0 + h) AND 0xF :: byte) = h"
      using h mod_mult_self4 [of 16 14 h] by (simp add: lead_tests u)
    have enc: "utf8 n = [word_of_nat (0xE0 + h), word_of_nat (0x80 + y), word_of_nat (0x80 + z)]"
      using h lt utf8_3 [of h y z] 2 by simp
    show ?thesis
      by (rule that [OF enc lead]) (use h lt 2 val tail [OF lt(2)] tail [OF lt(3)] in \<open>simp_all add: v\<close>)
  next
    case 3
    define h where "h = n div 262144"
    have "n div 4096 div 64 = h" "n div 64 div 64 = n div 4096" by (simp_all add: h_def div_mult2_eq [symmetric])
    then have "n div 64 = (h * 64 + x) * 64 + y"
      using div_mult_mod_eq [of "n div 64" 64] div_mult_mod_eq [of "n div 4096" 64] by (simp only: x_def y_def)
    then have h: "h < 8" "n = ((h * 64 + x) * 64 + y) * 64 + z"
      using assms(2) div_mult_mod_eq [of n 64] by (simp add: h_def, simp only: z_def)
    have u: "unat (word_of_nat (0xF0 + h) :: byte) = 0xF0 + h" by (rule byte_back) (use h in simp)
    have lead: "utf8_lead (word_of_nat (0xF0 + h)) = Some (ucast (word_of_nat (0xF0 + h) AND 7 :: byte), 3, 0x10000)"
      using h u by (simp add: utf8_lead_eq)
    have val: "unat (word_of_nat (0xF0 + h) AND 7 :: byte) = h"
      using h mod_mult_self4 [of 8 30 h] by (simp add: lead_tests u)
    have enc: "utf8 n = [word_of_nat (0xF0 + h), word_of_nat (0x80 + x), word_of_nat (0x80 + y), word_of_nat (0x80 + z)]"
      using h lt utf8_4 [of h x y z] 3 by simp
    show ?thesis
      by (rule that [OF enc lead]) (use h lt 3 val tail [OF lt(1)] tail [OF lt(2)] tail [OF lt(3)] in \<open>simp_all add: v\<close>)
  qed
qed

lemma lead_room:
  assumes "utf8_lead c = Some (v, len, lower)"
  shows "(unat v + 1) * 64 ^ len \<le> 2 ^ 32" and "unat c \<ge> 0x80" and "0x80 \<le> unat lower"
  using utf8_lead_bytes [OF assms] by auto

lemma cbs_get_utf8_iff:
  "cbs_get_utf8 cbs = (Some u, rest) \<longleftrightarrow> is_valid_code_point u \<and> cbs = utf8 (unat u) @ rest"
proof
  assume "cbs_get_utf8 cbs = (Some u, rest)"
  then obtain c mid where cbs: "cbs = c # mid" and
    run: "(if c \<le> 0x7f then cbs_return (ucast c) else (case utf8_lead c of
             None \<Rightarrow> cbs_fail
           | Some (v, len, lower_bound) \<Rightarrow>
               cbs_bind (utf8_loop len v) (\<lambda>v.
                 if \<not> is_valid_code_point v \<or> v < lower_bound then cbs_fail else cbs_return v))) mid = (Some u, rest)"
    by (auto simp: cbs_get_utf8_def cbs_bind_eq_Some CBS_get_u8_eq_Some)
  show "is_valid_code_point u \<and> cbs = utf8 (unat u) @ rest"
  proof (cases "c \<le> 0x7f")
    case True
    then have "unat u = unat c" "mid = rest" "unat c < 0x80"
      using run by (auto simp: unat_ucast_up word_le_nat_alt)
    then show ?thesis using ascii_valid [of u] cbs by (simp add: utf8_def)
  next
    case False
    then obtain v len lower where lead: "utf8_lead c = Some (v, len, lower)" and
        loop: "utf8_loop len v mid = (Some u, rest)" "is_valid_code_point u" "\<not> u < lower"
      using run by (auto simp: cbs_bind_eq_Some split: option.splits if_splits)
    obtain cs where "length cs = len" "mid = cs @ rest" "list_all follows cs" "unat u = utf8_value (unat v) cs"
      using loop(1) utf8_loop_iff [OF lead_room(1) [OF lead]] by blast
    then show ?thesis
      using utf8_multibyte_iff [OF lead] loop cbs by (auto simp: word_less_nat_alt)
  qed
next
  assume a: "is_valid_code_point u \<and> cbs = utf8 (unat u) @ rest"
  show "cbs_get_utf8 cbs = (Some u, rest)"
  proof (cases "unat u < 0x80")
    case True
    define c :: byte where "c = word_of_nat (unat u)"
    have "unat c = unat u" unfolding c_def by (rule byte_back) (use True in simp)
    moreover have "cbs = c # rest" using a True by (simp add: utf8_def c_def)
    ultimately show ?thesis
      using True by (simp add: cbs_get_utf8_def cbs_bind_def cbs_return_def word_le_nat_alt word_unat_eq_iff unat_ucast_up)
  next
    case False
    have "0x80 \<le> unat u" "unat u \<le> 0x10ffff" using False a valid_bound by auto
    then obtain c cs v len lower where s: "utf8 (unat u) = c # cs" "utf8_lead c = Some (v, len, lower)" "length cs = len"
        "list_all follows cs" "unat u = utf8_value (unat v) cs" "unat lower \<le> unat u"
      by (rule utf8_split)
    have "utf8_loop len v (cs @ rest) = (Some u, rest)"
      using s utf8_loop_iff [OF lead_room(1) [OF s(2)]] by blast
    moreover have "\<not> c \<le> 0x7f" "\<not> u < lower"
      using lead_room(2) [OF s(2)] s(6) by (simp_all add: word_le_nat_alt word_less_nat_alt)
    ultimately show ?thesis
      using a s(1,2) by (simp add: cbs_get_utf8_def cbs_bind_def cbs_return_def)
  qed
qed

section \<open>Codecs\<close>

text \<open>A reader and a writer for one encoding: \<open>enc u\<close> are the bytes of a code point and \<open>valid\<close> the code points that the encoding
  has. The reader accepts exactly the writer's bytes.\<close>

locale text_codec = cbb_adder add enc valid
  for add :: "allocator \<Rightarrow> nat \<Rightarrow> uint32 \<Rightarrow> CBB \<Rightarrow> bool \<times> CBB" and enc :: "uint32 \<Rightarrow> byte list" and valid :: "uint32 \<Rightarrow> bool" +
  fixes get :: "uint32 cbs_op"
  assumes get_iff: "get cbs = (Some u, rest) \<longleftrightarrow> valid u \<and> cbs = enc u @ rest"
    and nonempty: "valid u \<Longrightarrow> enc u \<noteq> []"
    and refuses: "\<not> valid u \<Longrightarrow> add A k u c = (False, c)"

text \<open>Reading characters until the string is exhausted.\<close>

function read_all :: "uint32 cbs_op \<Rightarrow> CBS \<Rightarrow> uint32 list option" where
  "read_all get cbs =
     (if cbs = [] then Some []
      else (case get cbs of
              (None, _) \<Rightarrow> None
            | (Some u, rest) \<Rightarrow> if length rest < length cbs then map_option (Cons u) (read_all get rest) else None))"
  by pat_completeness auto
termination by (relation "measure (\<lambda>(get, cbs). length cbs)") auto

declare read_all.simps [simp del]

context text_codec
begin

lemma read_all_enc: "list_all valid us \<Longrightarrow> read_all get (concat (map enc us)) = Some us"
proof (induction us)
  case (Cons u us)
  have "get (enc u @ concat (map enc us)) = (Some u, concat (map enc us))"
    using Cons.prems get_iff by simp
  moreover have "enc u \<noteq> []" using Cons.prems nonempty by simp
  ultimately show ?case using Cons by (subst read_all.simps) simp
qed (simp add: read_all.simps)

lemma read_all_sound: "read_all get cbs = Some us \<Longrightarrow> list_all valid us \<and> cbs = concat (map enc us)"
proof (induction "length cbs" arbitrary: cbs us rule: less_induct)
  case less
  show ?case
  proof (cases "cbs = []")
    case True
    then show ?thesis using less.prems by (simp add: read_all.simps)
  next
    case False
    obtain u rest us' where r: "get cbs = (Some u, rest)" "length rest < length cbs" "read_all get rest = Some us'" "us = u # us'"
      using less.prems False by (subst (asm) read_all.simps) (auto split: prod.splits option.splits if_splits)
    then show ?thesis using less.hyps [OF r(2,3)] get_iff by simp
  qed
qed

text \<open>A whole text is read back from what the builder wrote, and the builder's text is the only one that is read so.\<close>

lemma text_round_trip:
  assumes "represents A L c [(Plain 0, [])]" and "list_all valid us" and "length (concat (map enc us)) \<le> L"
  shows "\<exists>c' c'' out. cbb_each (add A 0) us c = (True, c') \<and> CBB_finish A 0 True c' = (Some out, c'') \<and>
    out = concat (map enc us) \<and> read_all get out = Some us \<and> (\<forall>bs. read_all get bs = Some us \<longrightarrow> bs = out)"
  using run_and_finish [OF appends_each [OF assms(2)] assms(1,3)] read_all_enc [OF assms(2)] read_all_sound by blast

end

lemma or_is_add: "unat x < 2 ^ m \<Longrightarrow> push_bit m y OR x = push_bit m y + (x :: uint32)"
proof -
  assume "unat x < 2 ^ m"
  then have x: "take_bit m x = x" by (rule take_bit_small)
  have "push_bit m y AND take_bit m x = 0" by (rule bit_eqI) (auto simp: bit_simps)
  then show ?thesis by (simp add: x disjunctive_add_eq_or)
qed


lemma marked_byte:
  assumes "unat x < 2 ^ m" and "unat (push_bit m y) + 2 ^ m \<le> 256"
  shows "(ucast (push_bit m y OR (x :: uint32)) :: byte) = word_of_nat (unat (push_bit m y) + unat x)"
proof -
  have "unat (push_bit m y OR x) = unat (push_bit m y) + unat x"
    unfolding or_is_add [OF assms(1)] using assms by (intro unat_add_no_wrap) simp
  moreover have "(ucast w :: byte) = word_of_nat (unat w)" for w :: uint32 by simp
  ultimately show ?thesis by (simp only:)
qed

lemma marks: "(ucast (TOP_BITS 1) :: uint32) = push_bit 6 2" "(ucast (TOP_BITS 2) :: uint32) = push_bit 5 6"
  "(ucast (TOP_BITS 3) :: uint32) = push_bit 4 14" "(ucast (TOP_BITS 4) :: uint32) = push_bit 3 30"
  by code_simp+

lemma mark_values: "unat (push_bit 6 2 :: uint32) = 0x80" "unat (push_bit 5 6 :: uint32) = 0xC0"
  "unat (push_bit 4 14 :: uint32) = 0xE0" "unat (push_bit 3 30 :: uint32) = 0xF0"
  by simp_all

lemma marked_follow:
  "(ucast (ucast (TOP_BITS 1) OR (x AND ucast (BOTTOM_BITS 6)) :: uint32) :: byte) = word_of_nat (0x80 + unat x mod 2 ^ 6)"
proof -
  have "x AND ucast (BOTTOM_BITS 6) = take_bit 6 x"
    by (simp add: utf8_masks take_bit_eq_mask mask_eq_exp_minus_1)
  then show ?thesis
    unfolding marks using marked_byte [of "take_bit 6 x" 6 2] by (simp add: unat_take_bit mark_values del: of_nat_add push_bit_numeral)
qed

lemma puts_utf8:
  assumes "is_valid_code_point u"
  shows "puts A k (cbb_add_utf8 A k u) (utf8 (unat u))"
proof -
  let ?n = "unat u"
  have bound: "?n \<le> 0x10ffff" using assms by (rule valid_bound)
  have then2: "puts A k (cbb_then (CBB_add_u8 A k a) f) (a # bs)" if "puts A k f bs" for a f bs
    using puts_then [OF puts_appends [OF u8.adds] that] by simp
  note chain = then2 [OF u8.adds] then2 [OF then2 [OF u8.adds]] then2 [OF then2 [OF then2 [OF u8.adds]]]
  consider "?n < 0x80" | "0x80 \<le> ?n" "?n < 0x800" | "0x800 \<le> ?n" "?n < 0x10000" | "0x10000 \<le> ?n" by linarith
  then show ?thesis
  proof cases
    case 1
    then have "cbb_add_utf8 A k u = CBB_add_u8 A k (ucast u)"
      using assms by (simp add: fun_eq_iff cbb_add_utf8_def word_le_nat_alt)
    then show ?thesis using 1 u8.adds by (simp add: utf8_def)
  next
    case 2
    have "(ucast (ucast (TOP_BITS 2) OR drop_bit 6 u) :: byte) = word_of_nat (0xC0 + ?n div 2 ^ 6)"
      unfolding marks using 2 marked_byte [of "drop_bit 6 u" 5 6] by (simp add: unat_drop_bit mark_values del: of_nat_add push_bit_numeral)
    moreover have "cbb_add_utf8 A k u = cbb_then (CBB_add_u8 A k (ucast (ucast (TOP_BITS 2) OR drop_bit 6 u)))
        (CBB_add_u8 A k (ucast (ucast (TOP_BITS 1) OR (u AND ucast (BOTTOM_BITS 6)))))"
      using assms 2 by (simp add: fun_eq_iff cbb_add_utf8_def word_le_nat_alt Let_def)
    ultimately show ?thesis using 2 chain(1) by (simp only: marked_follow utf8_def) simp
  next
    case 3
    have "(ucast (ucast (TOP_BITS 3) OR drop_bit 12 u) :: byte) = word_of_nat (0xE0 + ?n div 2 ^ 12)"
      unfolding marks using 3 marked_byte [of "drop_bit 12 u" 4 14] by (simp add: unat_drop_bit mark_values del: of_nat_add push_bit_numeral)
    moreover have "cbb_add_utf8 A k u = cbb_then (CBB_add_u8 A k (ucast (ucast (TOP_BITS 3) OR drop_bit 12 u)))
        (cbb_then (CBB_add_u8 A k (ucast (ucast (TOP_BITS 1) OR (drop_bit 6 u AND ucast (BOTTOM_BITS 6)))))
        (CBB_add_u8 A k (ucast (ucast (TOP_BITS 1) OR (u AND ucast (BOTTOM_BITS 6))))))"
      using assms 3 by (simp add: fun_eq_iff cbb_add_utf8_def word_le_nat_alt Let_def)
    ultimately show ?thesis using 3 chain(2) by (simp only: marked_follow utf8_def unat_drop_bit) simp
  next
    case 4
    have "(ucast (ucast (TOP_BITS 4) OR drop_bit 18 u) :: byte) = word_of_nat (0xF0 + ?n div 2 ^ 18)"
      unfolding marks using bound marked_byte [of "drop_bit 18 u" 3 30] by (simp add: unat_drop_bit mark_values del: of_nat_add push_bit_numeral)
    moreover have "cbb_add_utf8 A k u = cbb_then (CBB_add_u8 A k (ucast (ucast (TOP_BITS 4) OR drop_bit 18 u)))
        (cbb_then (CBB_add_u8 A k (ucast (ucast (TOP_BITS 1) OR (drop_bit 12 u AND ucast (BOTTOM_BITS 6)))))
        (cbb_then (CBB_add_u8 A k (ucast (ucast (TOP_BITS 1) OR (drop_bit 6 u AND ucast (BOTTOM_BITS 6)))))
        (CBB_add_u8 A k (ucast (ucast (TOP_BITS 1) OR (u AND ucast (BOTTOM_BITS 6)))))))"
      using assms 4 bound by (simp add: fun_eq_iff cbb_add_utf8_def word_le_nat_alt Let_def)
    ultimately show ?thesis using 4 chain(3) by (simp only: marked_follow utf8_def unat_drop_bit) simp
  qed
qed

interpretation utf8: text_codec cbb_add_utf8 "\<lambda>u. utf8 (unat u)" is_valid_code_point cbs_get_utf8
proof
  show "utf8 (unat u) \<noteq> []" for u :: uint32 by (simp add: utf8_def)
  show "cbb_add_utf8 A k u c = (False, c)" if "\<not> is_valid_code_point u" for A k u c
    using that by (simp add: cbb_add_utf8_def)
qed (simp_all add: puts_utf8 cbs_get_utf8_iff)

lemma ucast_back:
  fixes w :: "'a::len word"
  assumes "take_bit LENGTH('b) w = w"
  shows "(ucast (ucast w :: 'b::len word) :: 'a word) = w"
proof (rule bit_eqI)
  fix i
  have "bit w i \<longleftrightarrow> i < LENGTH('b) \<and> bit w i" using assms by (metis bit_take_bit_iff)
  then show "bit (ucast (ucast w :: 'b word) :: 'a word) i = bit w i" by (auto simp: bit_simps dest: bit_imp_le_length)
qed

lemma CBS_get_u16_iff: "CBS_get_u16 cbs = (Some c, rest) \<longleftrightarrow> cbs = be_bytes 2 (ucast c) @ rest"
proof -
  have "take_bit 16 (ucast c :: uint64) = ucast c" for c :: uint16 by (rule bit_eqI) (auto simp: bit_simps dest: bit_imp_le_length)
  moreover have "(ucast (ucast c :: uint64) :: uint16) = c" by (rule bit_eqI) (auto simp: bit_simps dest: bit_imp_le_length)
  ultimately show ?thesis
    using ucast_back [where 'b = 16 and 'a = 64]
    by (auto simp: CBS_get_u16_def cbs_bind_eq_Some cbs_get_u_iff)
qed

lemma CBS_get_u32_iff: "CBS_get_u32 cbs = (Some c, rest) \<longleftrightarrow> cbs = be_bytes 4 (ucast c) @ rest"
proof -
  have "take_bit 32 (ucast c :: uint64) = ucast c" for c :: uint32 by (rule bit_eqI) (auto simp: bit_simps dest: bit_imp_le_length)
  moreover have "(ucast (ucast c :: uint64) :: uint32) = c" by (rule ucast_ucast_up)
  ultimately show ?thesis
    using ucast_back [where 'b = 32 and 'a = 64]
    by (auto simp: CBS_get_u32_def cbs_bind_eq_Some cbs_get_u_iff)
qed

lemma puts_if: "P \<Longrightarrow> puts A k f d \<Longrightarrow> puts A k (\<lambda>c. if P then f c else (False, c)) d"
  by simp

interpretation latin1: text_codec cbb_add_latin1 "\<lambda>u. [ucast u]" "\<lambda>u. u \<le> 0xff" cbs_get_latin1
proof
  fix u :: uint32 and A k c cbs rest
  show "puts A k (cbb_add_latin1 A k u) [ucast u]" if "u \<le> 0xff"
    using puts_if [OF that u8.adds] by (simp add: cbb_add_latin1_def [abs_def])
  have "(ucast (ucast u :: byte) :: uint32) = u" if "u \<le> 0xff"
    using that by (intro ucast_back take_bit_small) (simp add: word_le_nat_alt)
  moreover have "(ucast c' :: uint32) \<le> 0xff" "ucast (ucast c' :: uint32) = c'" for c' :: byte
  proof -
    show "(ucast c' :: uint32) \<le> 0xff" using unat_lt [of c'] by (simp add: word_le_nat_alt unat_ucast_up)
    show "ucast (ucast c' :: uint32) = c'" by (rule bit_eqI) (auto simp: bit_simps dest: bit_imp_le_length)
  qed
  ultimately show "cbs_get_latin1 cbs = (Some u, rest) \<longleftrightarrow> u \<le> 0xff \<and> cbs = [ucast u] @ rest"
    by (auto simp: cbs_get_latin1_def cbs_bind_eq_Some CBS_get_u8_eq_Some)
  show "cbb_add_latin1 A k u c = (False, c)" if "\<not> u \<le> 0xff" using that by (simp add: cbb_add_latin1_def)
qed simp

interpretation ucs2: text_codec cbb_add_ucs2_be "\<lambda>u. be_bytes 2 (ucast (ucast u :: uint16))"
    "\<lambda>u. u \<le> 0xffff \<and> is_valid_code_point u" cbs_get_ucs2_be
proof
  fix u :: uint32 and A k c cbs rest
  show "puts A k (cbb_add_ucs2_be A k u) (be_bytes 2 (ucast (ucast u :: uint16)))" if "u \<le> 0xffff \<and> is_valid_code_point u"
    using puts_if [OF that u16.adds] by (simp add: cbb_add_ucs2_be_def [abs_def])
  have "(ucast (ucast u :: uint16) :: uint32) = u" if "u \<le> 0xffff"
    using that by (intro ucast_back take_bit_small) (simp add: word_le_nat_alt)
  moreover have "(ucast c' :: uint32) \<le> 0xffff" "ucast (ucast c' :: uint32) = c'" for c' :: uint16
  proof -
    show "(ucast c' :: uint32) \<le> 0xffff" using unat_lt [of c'] by (simp add: word_le_nat_alt unat_ucast_up)
    show "ucast (ucast c' :: uint32) = c'" by (rule bit_eqI) (auto simp: bit_simps dest: bit_imp_le_length)
  qed
  ultimately show "cbs_get_ucs2_be cbs = (Some u, rest) \<longleftrightarrow>
      (u \<le> 0xffff \<and> is_valid_code_point u) \<and> cbs = be_bytes 2 (ucast (ucast u :: uint16)) @ rest"
    by (auto simp: cbs_get_ucs2_be_def cbs_bind_eq_Some CBS_get_u16_iff split: if_splits intro!: exI [of _ "ucast u"])
  show "be_bytes 2 (ucast (ucast u :: uint16)) \<noteq> []" by (metis length_be_bytes list.size(3) zero_neq_numeral)
  show "cbb_add_ucs2_be A k u c = (False, c)" if "\<not> (u \<le> 0xffff \<and> is_valid_code_point u)"
    using that by (auto simp: cbb_add_ucs2_be_def)
qed

interpretation utf32: text_codec cbb_add_utf32_be "\<lambda>u. be_bytes 4 (ucast u)" is_valid_code_point cbs_get_utf32_be
proof
  fix u :: uint32 and A k c cbs rest
  show "puts A k (cbb_add_utf32_be A k u) (be_bytes 4 (ucast u))" if "is_valid_code_point u"
    using puts_if [OF that u32.adds] by (simp add: cbb_add_utf32_be_def [abs_def])
  show "cbs_get_utf32_be cbs = (Some u, rest) \<longleftrightarrow> is_valid_code_point u \<and> cbs = be_bytes 4 (ucast u) @ rest"
    by (auto simp: cbs_get_utf32_be_def cbs_bind_eq_Some CBS_get_u32_iff split: if_splits)
  show "be_bytes 4 (ucast u) \<noteq> []" by (metis length_be_bytes list.size(3) zero_neq_numeral)
  show "cbb_add_utf32_be A k u c = (False, c)" if "\<not> is_valid_code_point u" using that by (simp add: cbb_add_utf32_be_def)
qed

section \<open>Properties\<close>

text \<open>C8. The UTF-8 reader accepts exactly the shortest-form UTF-8 encodings of valid code points (no overlong forms, no
  surrogates, no noncharacters, nothing above U+10FFFF), consumes exactly the encoding, and returns the code point;
  \<^verbatim>\<open>cbb_get_utf8_len\<close> is the length of the encoding.\<close>

theorem utf8_reader_exact:
  "(cbs_get_utf8 cbs = (Some u, rest) \<longleftrightarrow> is_valid_code_point u \<and> cbs = utf8 (unat u) @ rest) \<and>
   length (utf8 (unat u)) = unat (cbb_get_utf8_len u)"
proof
  show "cbs_get_utf8 cbs = (Some u, rest) \<longleftrightarrow> is_valid_code_point u \<and> cbs = utf8 (unat u) @ rest"
    by (rule utf8.get_iff)
  show "length (utf8 (unat u)) = unat (cbb_get_utf8_len u)"
    by (simp add: utf8_def cbb_get_utf8_len_def word_le_nat_alt)
qed

text \<open>C31. Texts round trip in all four encodings: the code points of the encoding, written one after the other to a new
  builder, are read back from its output, which is the only string that reads so.\<close>

definition codecs :: "((allocator \<Rightarrow> nat \<Rightarrow> uint32 \<Rightarrow> CBB \<Rightarrow> bool \<times> CBB) \<times> uint32 cbs_op \<times> (uint32 \<Rightarrow> bool)) list" where
  "codecs =
     [(cbb_add_utf8, cbs_get_utf8, is_valid_code_point),
      (cbb_add_latin1, cbs_get_latin1, \<lambda>u. u \<le> 0xff),
      (cbb_add_ucs2_be, cbs_get_ucs2_be, \<lambda>u. u \<le> 0xffff \<and> is_valid_code_point u),
      (cbb_add_utf32_be, cbs_get_utf32_be, is_valid_code_point)]"

lemma length_concat_le: "(\<And>u. length (f u) \<le> 4) \<Longrightarrow> length (concat (map f us)) \<le> 4 * length us"
proof (induction us)
  case (Cons u us)
  then show ?case using add_mono [of "length (f u)" 4 "length (concat (map f us))" "4 * length us"] by simp
qed simp

theorem text_round_trips:
  assumes "memory_ok A" and "unat cap < 2 ^ 62" and "(add, get, valid) \<in> set codecs" and "list_all valid us" and "length us < 2 ^ 58"
  shows "\<exists>c c' c'' out. CBB_init A True cap = (True, c) \<and> cbb_each (add A 0) us c = (True, c') \<and>
    CBB_finish A 0 True c' = (Some out, c'') \<and> read_all get out = Some us \<and> (\<forall>bs. read_all get bs = Some us \<longrightarrow> bs = out)"
proof -
  have L: "4 * length us < 2 ^ 61" using assms(5) by simp
  obtain c where c: "CBB_init A True cap = (True, c)" "represents A (4 * length us) c [(Plain 0, [])]"
    using init_ok [OF assms(1,2) L] by blast
  have "\<exists>c' c'' out. cbb_each (add A 0) us c = (True, c') \<and> CBB_finish A 0 True c' = (Some out, c'') \<and>
      read_all get out = Some us \<and> (\<forall>bs. read_all get bs = Some us \<longrightarrow> bs = out)"
  proof -
    consider "add = cbb_add_utf8" "get = cbs_get_utf8" "valid = is_valid_code_point"
      | "add = cbb_add_latin1" "get = cbs_get_latin1" "valid = (\<lambda>u. u \<le> 0xff)"
      | "add = cbb_add_ucs2_be" "get = cbs_get_ucs2_be" "valid = (\<lambda>u. u \<le> 0xffff \<and> is_valid_code_point u)"
      | "add = cbb_add_utf32_be" "get = cbs_get_utf32_be" "valid = is_valid_code_point"
      using assms(3) by (auto simp: codecs_def)
    then show ?thesis
    proof cases
      case 1
      have "length (concat (map (\<lambda>u. utf8 (unat u)) us)) \<le> 4 * length us" by (rule length_concat_le) (simp add: utf8_def)
      from utf8.text_round_trip [OF c(2) assms(4) [unfolded 1] this] show ?thesis unfolding 1 by blast
    next
      case 2
      have "length (concat (map (\<lambda>u. [ucast u] :: byte list) us)) \<le> 4 * length us" by (rule length_concat_le) (simp)
      from latin1.text_round_trip [OF c(2) assms(4) [unfolded 2] this] show ?thesis unfolding 2 by blast
    next
      case 3
      have "length (concat (map (\<lambda>u. be_bytes 2 (ucast (ucast u :: uint16))) us)) \<le> 4 * length us" by (rule length_concat_le) (simp)
      from ucs2.text_round_trip [OF c(2) assms(4) [unfolded 3] this] show ?thesis unfolding 3 by blast
    next
      case 4
      have "length (concat (map (\<lambda>u. be_bytes 4 (ucast u)) us)) \<le> 4 * length us" by (rule length_concat_le) (simp)
      from utf32.text_round_trip [OF c(2) assms(4) [unfolded 4] this] show ?thesis unfolding 4 by blast
    qed
  qed
  then show ?thesis using c(1) by blast
qed

definition zeroed_memory :: allocator where
  "zeroed_memory n = Some (replicate (unat n) 0)"

theorem text_round_trips_witness:
  "\<exists>c c' c'' out. CBB_init zeroed_memory True 4 = (True, c) \<and> cbb_each (cbb_add_utf8 zeroed_memory 0) [0x41C, 0x1F687] c = (True, c') \<and>
    CBB_finish zeroed_memory 0 True c' = (Some out, c'') \<and> read_all cbs_get_utf8 out = Some [0x41C, 0x1F687] \<and>
    (\<forall>bs. read_all cbs_get_utf8 bs = Some [0x41C, 0x1F687] \<longrightarrow> bs = out)"
proof (rule text_round_trips)
  show "memory_ok zeroed_memory" by (simp add: memory_ok_def allocator_ok_def zeroed_memory_def)
  show "(cbb_add_utf8, cbs_get_utf8, is_valid_code_point) \<in> set codecs" by (simp add: codecs_def)
  show "list_all is_valid_code_point [0x41C, 0x1F687]" by code_simp
qed simp_all

end
