(* ===== verification/OidText.thy ===== *)
theory OidText
  imports CbbClaims
begin

text \<open>
  Object identifiers as text: the printer \<^verbatim>\<open>CBS_asn1_oid_to_text\<close> of crypto/bytestring/cbs.c, which writes through a
  builder, and its relation to the reader \<^verbatim>\<open>CBB_add_asn1_oid_from_text\<close> of crypto/bytestring/cbb.c (theory Cbb). Both
  are characterised by the same list of arcs.
\<close>

section \<open>The code\<close>

text \<open>\<^verbatim>\<open>BIO_snprintf(buf, sizeof(buf), "%" PRIu64, v)\<close> with \<^verbatim>\<open>sizeof(buf) = DECIMAL_SIZE(uint64_t) + 1 = 24\<close>: at most 23
  digits are stored.\<close>

fun decimal :: "nat \<Rightarrow> byte list" where
  "decimal n = (if n < 10 then [0x30 + word_of_nat n] else decimal (n div 10) @ [0x30 + word_of_nat (n mod 10)])"

declare decimal.simps [simp del]

definition add_decimal :: "allocator \<Rightarrow> nat \<Rightarrow> uint64 \<Rightarrow> CBB \<Rightarrow> bool \<times> CBB" where
  "add_decimal A k v = (let buf = take (24 - 1) (decimal (unat v)) in CBB_add_bytes A k buf)"

lemma parse_base128_shorter:
  "parse_base128_loop acc cbs = (Some v, rest) \<Longrightarrow> length rest < length cbs"
proof (induction acc cbs rule: parse_base128_loop.induct)
  case (2 acc b cbs)
  then show ?case by (fastforce simp: Let_def split: if_splits)
qed simp

function oid_text_loop :: "allocator \<Rightarrow> CBS \<Rightarrow> CBB \<Rightarrow> bool \<times> CBB" where
  "oid_text_loop A copy c =
     (if copy = [] then (True, c)
      else (case parse_base128_integer copy of
              (None, _) \<Rightarrow> (False, c)
            | (Some v, copy) \<Rightarrow>
                (case cbb_then (CBB_add_u8 A 0 0x2E) (add_decimal A 0 v) c of
                   (False, c) \<Rightarrow> (False, c)
                 | (True, c) \<Rightarrow> oid_text_loop A copy c)))"
  by pat_completeness auto
termination
  by (relation "measure (\<lambda>(A, copy, c). length copy)")
     (auto simp: parse_base128_integer_def dest: parse_base128_shorter [OF sym])

declare oid_text_loop.simps [simp del]

text \<open>\<open>got_base\<close>: the structure of the builder could be allocated. The result is the text with its terminating zero,
  or \<open>None\<close> for a null pointer.\<close>

definition CBS_asn1_oid_to_text :: "allocator \<Rightarrow> bool \<Rightarrow> CBS \<Rightarrow> byte list option" where
  "CBS_asn1_oid_to_text A got_base cbs =
     (case CBB_init A got_base 32 of
        (False, _) \<Rightarrow> None
      | (True, cbb) \<Rightarrow>
          (case parse_base128_integer cbs of
             (None, _) \<Rightarrow> None
           | (Some v, copy) \<Rightarrow>
               (case cbb_then
                       (if v \<ge> 80 then cbb_then (CBB_add_bytes A 0 [0x32, 0x2E]) (add_decimal A 0 (v - 80))
                        else cbb_then (add_decimal A 0 (v div 40))
                               (cbb_then (CBB_add_u8 A 0 0x2E) (add_decimal A 0 (v mod 40))))
                       (cbb_then (oid_text_loop A copy) (CBB_add_u8 A 0 0)) cbb of
                  (False, _) \<Rightarrow> None
                | (True, cbb) \<Rightarrow> fst (CBB_finish A 0 True cbb))))"

section \<open>Decimal numbers\<close>

lemma decimal_step: "0 < n \<Longrightarrow> d < 10 \<Longrightarrow> decimal (n * 10 + d) = decimal n @ [0x30 + word_of_nat d]"
  by (subst decimal.simps) simp

lemma decimal_ne [simp]: "decimal n \<noteq> []"
  by (subst decimal.simps) simp

lemma length_decimal: "n < 10 ^ Suc k \<Longrightarrow> length (decimal n) \<le> Suc k"
proof (induction n arbitrary: k rule: decimal.induct)
  case (1 n)
  show ?case
  proof (cases "n < 10")
    case False
    then obtain j where k: "k = Suc j" using 1(2) by (cases k) auto
    then have "n div 10 < 10 ^ Suc j" using 1(2) by (simp add: less_mult_imp_div_less mult.commute)
    then show ?thesis using 1(1) [OF False] False k by (subst decimal.simps) simp
  qed (simp add: decimal.simps [of n])
qed

lemma decimal_uint64: "take 23 (decimal (unat (v :: uint64))) = decimal (unat v)" "length (decimal (unat v)) \<le> 20"
proof -
  have "unat v < 10 ^ Suc 19" using unat_lt [of v] by simp
  then show "length (decimal (unat v)) \<le> 20" using length_decimal [of "unat v" 19] by simp
  then show "take 23 (decimal (unat v)) = decimal (unat v)" by simp
qed

text \<open>The number that digits stand for, continuing one already read.\<close>

definition digits_value :: "nat \<Rightarrow> byte list \<Rightarrow> nat" where
  "digits_value = foldl (\<lambda>a b. a * 10 + unat (b - 0x30))"

lemma digits_value_simps [simp]:
  "digits_value a [] = a" "digits_value a (b # bs) = digits_value (a * 10 + unat (b - 0x30)) bs"
  "digits_value a (xs @ ys) = digits_value (digits_value a xs) ys"
  by (simp_all add: digits_value_def)

lemma digit_back: "d < 10 \<Longrightarrow> unat (word_of_nat d :: byte) = d"
  by (simp add: unat_of_nat_small)

lemma digits_value_decimal [simp]: "digits_value 0 (decimal n) = n"
proof (induction n rule: decimal.induct)
  case (1 n)
  then show ?case
    by (cases "n < 10") (simp_all add: decimal.simps [of n] digit_back)
qed

lemma digits_value_mono: "a \<le> digits_value a bs"
proof (induction bs arbitrary: a)
  case (Cons b bs)
  show ?case using Cons [of "a * 10 + unat (b - 0x30)"] by simp
qed simp

text \<open>Every prefix of a decimal is a decimal followed by digits.\<close>

lemma decimal_inj: "decimal m = decimal n \<longleftrightarrow> m = n"
  by (metis digits_value_decimal)

lemma decimal_extend:
  assumes "decimal v = decimal a @ b # bs"
  shows "0 < a" and "0x30 \<le> b" and "b \<le> 0x39" and "decimal v = decimal (a * 10 + unat (b - 0x30)) @ bs"
    and "a * 10 + unat (b - 0x30) \<le> v"
proof -
  have "0 < a \<and> 0x30 \<le> b \<and> b \<le> 0x39 \<and> decimal v = decimal (a * 10 + unat (b - 0x30)) @ bs"
    using assms
  proof (induction v arbitrary: bs rule: decimal.induct)
    case (1 v)
    show ?case
    proof (cases "v < 10")
      case True
      then show ?thesis using 1(2) by (simp add: decimal.simps [of v] append_eq_Cons_conv Cons_eq_append_conv)
    next
      case False
      define d where "d = v mod 10"
      have d: "d < 10" by (simp add: d_def)
      have v: "decimal v = decimal (v div 10) @ [0x30 + word_of_nat d]"
        using False by (simp add: decimal.simps [of v] d_def)
      show ?thesis
      proof (cases bs rule: rev_cases)
        case Nil
        then have "decimal (v div 10) = decimal a" and b: "b = 0x30 + word_of_nat d" using 1(2) v by simp_all
        then have a: "a = v div 10" by (simp add: decimal_inj)
        moreover have "a * 10 + unat (b - 0x30) = v" using digit_back [OF d] by (simp add: a b d_def)
        moreover have "0x30 \<le> b" "b \<le> 0x39"
          using d by (simp_all add: b word_le_nat_alt unat_word_ariths unat_of_nat_small)
        ultimately show ?thesis using False Nil by simp
      next
        case (snoc cs x)
        then have "decimal (v div 10) = decimal a @ b # cs" "x = 0x30 + word_of_nat d" using 1(2) v by simp_all
        then show ?thesis using 1(1) [OF False] v snoc by simp
      qed
    qed
  qed
  then show "0 < a" "0x30 \<le> b" "b \<le> 0x39" "decimal v = decimal (a * 10 + unat (b - 0x30)) @ bs" by blast+
  then have "v = digits_value (a * 10 + unat (b - 0x30)) bs"
    by (metis digits_value_decimal digits_value_simps(3))
  then show "a * 10 + unat (b - 0x30) \<le> v" using digits_value_mono by simp
qed

section \<open>The reader of components\<close>

lemma digit_le_9: "0x30 \<le> b \<Longrightarrow> b \<le> 0x39 \<Longrightarrow> unat ((b :: byte) - 0x30) \<le> 9"
proof -
  assume "0x30 \<le> b" "b \<le> 0x39"
  then have "b - 0x30 \<le> 9" by uint_arith
  then show ?thesis by (simp add: word_le_nat_alt)
qed

lemma dotted_step:
  fixes out :: uint64 and b :: byte
  assumes "0x30 \<le> b" and "b \<le> 0x39"
  shows "out > 0xFFFFFFFFFFFFFFFF div 10 \<or> out * 10 > 0xFFFFFFFFFFFFFFFF - ucast (b - 0x30) \<longleftrightarrow>
      2 ^ 64 \<le> unat out * 10 + unat (b - 0x30)"
    and "unat out * 10 + unat (b - 0x30) < 2 ^ 64 \<Longrightarrow> unat (out * 10 + ucast (b - 0x30)) = unat out * 10 + unat (b - 0x30)"
proof -
  let ?d = "unat (b - 0x30)"
  have d: "?d \<le> 9" by (rule digit_le_9 [OF assms])
  have u: "unat (ucast (b - 0x30) :: uint64) = ?d" by (simp add: unat_ucast_up)
  have le: "ucast (b - 0x30) \<le> (0xFFFFFFFFFFFFFFFF :: uint64)" using u d by (simp add: word_le_nat_alt)
  have rest: "unat (0xFFFFFFFFFFFFFFFF - ucast (b - 0x30) :: uint64) = 0xFFFFFFFFFFFFFFFF - ?d"
    using unat_sub_le [OF le] u by simp
  have "out > 0xFFFFFFFFFFFFFFFF div 10 \<longleftrightarrow> 1844674407370955161 < unat out" by (simp add: word_less_nat_alt)
  moreover have "out * 10 > 0xFFFFFFFFFFFFFFFF - ucast (b - 0x30) \<longleftrightarrow> 0xFFFFFFFFFFFFFFFF - ?d < unat out * 10"
    if "unat out \<le> 1844674407370955161"
    using that rest by (simp add: word_less_nat_alt unat_word_ariths)
  ultimately show "out > 0xFFFFFFFFFFFFFFFF div 10 \<or> out * 10 > 0xFFFFFFFFFFFFFFFF - ucast (b - 0x30) \<longleftrightarrow>
      2 ^ 64 \<le> unat out * 10 + ?d"
    using d by (cases "unat out \<le> 1844674407370955161") auto
  show "unat (out * 10 + ucast (b - 0x30)) = unat out * 10 + ?d" if "unat out * 10 + ?d < 2 ^ 64"
    using that u by (simp add: unat_word_ariths)
qed

text \<open>What ends a component: the end of the text, or a dot that is not the last character.\<close>

fun component_end :: "byte list \<Rightarrow> byte list \<Rightarrow> bool" where
  "component_end [] rest \<longleftrightarrow> rest = []"
| "component_end (b # bs) rest \<longleftrightarrow> b = 0x2E \<and> bs = rest \<and> rest \<noteq> []"

lemma dotted_loop_complete:
  assumes "decimal (unat v) = decimal (unat out) @ ds" and "component_end ts rest"
  shows "dotted_decimal_loop out True (ds @ ts) = (Some v, rest)"
  using assms
proof (induction ds arbitrary: out)
  case Nil
  then have "out = v" by (simp add: decimal_inj word_unat_eq_iff)
  then show ?case using Nil by (cases ts) auto
next
  case (Cons b ds)
  note x = decimal_extend [OF Cons(2)]
  have lt: "unat out * 10 + unat (b - 0x30) < 2 ^ 64" using x(5) unat_lt [of v] by simp
  have "\<not> (out > 0xFFFFFFFFFFFFFFFF div 10 \<or> out * 10 > 0xFFFFFFFFFFFFFFFF - ucast (b - 0x30))"
    unfolding dotted_step(1) [OF x(2,3)] using lt by simp
  moreover have "b \<noteq> 0x2E" "out \<noteq> 0" using x(1,2) by auto
  moreover have "dotted_decimal_loop (out * 10 + ucast (b - 0x30)) True (ds @ ts) = (Some v, rest)"
    by (rule Cons(1)) (use x(4) dotted_step(2) [OF x(2,3) lt] Cons(3) in auto)
  ultimately show ?case using x(2,3) by (simp add: not_less)
qed

lemma dotted_loop_sound:
  "dotted_decimal_loop out True cbs = (Some v, rest) \<Longrightarrow>
   \<exists>ds ts. cbs = ds @ ts \<and> decimal (unat v) = decimal (unat out) @ ds \<and> component_end ts rest"
proof (induction out True cbs rule: dotted_decimal_loop.induct)
  case (1 out)
  then show ?case by auto
next
  case (2 out b cbs)
  show ?case
  proof (cases "b = 0x2E \<and> cbs \<noteq> []")
    case True
    then show ?thesis using 2(2) by (intro exI [of _ "[]"] exI [of _ "b # cbs"]) auto
  next
    case False
    have digit: "0x30 \<le> b" "b \<le> 0x39" and "out \<noteq> 0"
      and "\<not> (out > 0xFFFFFFFFFFFFFFFF div 10 \<or> out * 10 > 0xFFFFFFFFFFFFFFFF - ucast (b - 0x30))"
      and run: "dotted_decimal_loop (out * 10 + ucast (b - 0x30)) True cbs = (Some v, rest)"
      using 2(2) False by (auto simp: not_less split: if_splits)
    then have lt: "unat out * 10 + unat (b - 0x30) < 2 ^ 64"
      unfolding dotted_step(1) [OF digit] by simp
    have d: "unat (b - 0x30) < 10" using digit_le_9 [OF digit] by simp
    have "0 < unat out" using \<open>out \<noteq> 0\<close> by (simp add: unat_gt_0)
    from decimal_step [OF this d]
    have "decimal (unat (out * 10 + ucast (b - 0x30))) = decimal (unat out) @ [b]"
      using dotted_step(2) [OF digit lt] by simp
    moreover obtain ds ts where "cbs = ds @ ts" "component_end ts rest"
        "decimal (unat v) = decimal (unat (out * 10 + ucast (b - 0x30))) @ ds"
      using 2(1) [OF False _ run] digit \<open>out \<noteq> 0\<close> \<open>\<not> (_ \<or> _)\<close> by (auto simp: not_less)
    ultimately show ?thesis by (intro exI [of _ "b # ds"] exI [of _ ts]) simp
  qed
qed

lemma decimal_digit: "n < 10 \<Longrightarrow> decimal n = [0x30 + word_of_nat n]"
  by (subst decimal.simps) simp

lemma decimal_first:
  obtains b ds where "decimal n = b # ds" and "0x30 \<le> b" and "b \<le> 0x39" and "decimal n = decimal (unat (b - 0x30)) @ ds"
proof (cases "decimal n")
  case (Cons b ds)
  have "0x30 \<le> b \<and> b \<le> 0x39 \<and> decimal n = decimal (unat (b - 0x30)) @ ds"
    using Cons
  proof (induction n arbitrary: ds rule: decimal.induct)
    case (1 n)
    show ?case
    proof (cases "n < 10")
      case True
      then have "b = 0x30 + word_of_nat n" "ds = []" using 1(2) by (simp_all add: decimal_digit)
      then show ?thesis
        using True by (simp add: digit_back word_le_nat_alt unat_word_ariths)
    next
      case False
      then have "decimal n = decimal (n div 10) @ [0x30 + word_of_nat (n mod 10)]" by (simp add: decimal.simps [of n])
      moreover obtain c cs where "decimal (n div 10) = c # cs" by (cases "decimal (n div 10)") auto
      ultimately show ?thesis using 1(1) [OF False] 1(2) by auto
    qed
  qed
  then show ?thesis using that Cons by blast
qed simp

lemma parse_dotted_iff:
  "parse_dotted_decimal cbs = (Some v, rest) \<longleftrightarrow> (\<exists>ts. cbs = decimal (unat v) @ ts \<and> component_end ts rest)"
proof
  assume h: "parse_dotted_decimal cbs = (Some v, rest)"
  then obtain b bs where cbs: "cbs = b # bs" by (cases cbs) (auto simp: parse_dotted_decimal_def)
  have digit: "0x30 \<le> b" "b \<le> 0x39" and run: "dotted_decimal_loop (ucast (b - 0x30)) True bs = (Some v, rest)"
    using h by (auto simp: cbs parse_dotted_decimal_def not_less split: if_splits)
  have "unat (b - 0x30) < 10" using digit_le_9 [OF digit] by simp
  then have "decimal (unat (ucast (b - 0x30) :: uint64)) = [b]" by (simp add: decimal_digit unat_ucast_up)
  then show "\<exists>ts. cbs = decimal (unat v) @ ts \<and> component_end ts rest"
    using dotted_loop_sound [OF run] cbs by auto
next
  assume "\<exists>ts. cbs = decimal (unat v) @ ts \<and> component_end ts rest"
  then obtain ts where cbs: "cbs = decimal (unat v) @ ts" and ts: "component_end ts rest" by blast
  obtain b ds where b: "decimal (unat v) = b # ds" "0x30 \<le> b" "b \<le> 0x39" "decimal (unat v) = decimal (unat (b - 0x30)) @ ds"
    by (rule decimal_first [of "unat v"])
  have "\<not> ((0 :: uint64) > 0xFFFFFFFFFFFFFFFF div 10 \<or> 0 * 10 > (0xFFFFFFFFFFFFFFFF :: uint64) - ucast (b - 0x30))"
    unfolding dotted_step(1) [OF b(2,3)] using unat_lt [of "b - 0x30"] by simp
  moreover have "b \<noteq> 0x2E" using b(2) by auto
  moreover have "dotted_decimal_loop (ucast (b - 0x30)) True (ds @ ts) = (Some v, rest)"
    by (rule dotted_loop_complete) (use b(4) ts in \<open>simp_all add: unat_ucast_up\<close>)
  ultimately show "parse_dotted_decimal cbs = (Some v, rest)"
    using b(1-3) cbs by (simp add: parse_dotted_decimal_def not_less)
qed

section \<open>Object identifiers\<close>

text \<open>An object identifier as the code sees it: the first arc joins the first two components of the text.\<close>

definition oid_bytes :: "uint64 list \<Rightarrow> byte list" where
  "oid_bytes vs = concat (map base128 vs)"

definition oid_first :: "uint64 \<Rightarrow> byte list" where
  "oid_first v =
     (if v \<ge> 80 then [0x32, 0x2E] @ decimal (unat (v - 80))
      else decimal (unat (v div 40)) @ [0x2E] @ decimal (unat (v mod 40)))"

definition oid_rest :: "uint64 list \<Rightarrow> byte list" where
  "oid_rest vs = concat (map (\<lambda>v. 0x2E # decimal (unat v)) vs)"

lemma oid_simps [simp]:
  "oid_bytes [] = []" "oid_bytes (v # vs) = base128 v @ oid_bytes vs"
  "oid_rest [] = []" "oid_rest (v # vs) = 0x2E # decimal (unat v) @ oid_rest vs"
  by (simp_all add: oid_bytes_def oid_rest_def)

lemma base128_ne [simp]: "base128 v \<noteq> []"
  by (simp add: base128_def)

subsection \<open>Lengths\<close>

lemma length_groups: "unat v < 2 ^ (7 * k) \<Longrightarrow> length (groups v) \<le> k"
proof (induction k arbitrary: v)
  case 0
  then show ?case by (simp add: groups.simps [of v] unat_eq_0 [symmetric] del: unat_eq_0)
next
  case (Suc k)
  have "unat (drop_bit 7 v) < 2 ^ (7 * k)"
    using Suc(2) by (simp add: unat_drop_bit power_add less_mult_imp_div_less mult.commute)
  then show ?case using Suc(1) [of "drop_bit 7 v"] by (subst groups.simps) simp
qed

lemma length_base128: "length (base128 v) \<le> 10"
proof -
  have "unat (drop_bit 7 v) < 2 ^ (7 * 9)"
    using unat_lt [of v] by (simp add: unat_drop_bit)
  then show ?thesis using length_groups [of "drop_bit 7 v" 9] by (simp add: base128_def)
qed

lemma length_oid_bytes: "length vs \<le> length (oid_bytes vs)" "length (oid_bytes vs) \<le> 10 * length vs"
proof (induction vs)
  case (Cons v vs)
  show "length (oid_bytes (v # vs)) \<le> 10 * length (v # vs)" using Cons(2) length_base128 [of v] by simp
  have "0 < length (base128 v)" by simp
  then show "length (v # vs) \<le> length (oid_bytes (v # vs))" using Cons(1) by (simp del: length_greater_0_conv)
qed simp_all

lemma length_oid_rest: "length vs \<le> length (oid_rest vs)" "length (oid_rest vs) \<le> 21 * length vs"
proof (induction vs)
  case (Cons v vs)
  then show "length (oid_rest (v # vs)) \<le> 21 * length (v # vs)" using decimal_uint64(2) [of v] by simp
qed simp_all

lemma length_oid_first: "length (oid_first v) \<le> 41"
  using decimal_uint64(2) [of "v - 80"] decimal_uint64(2) [of "v div 40"] decimal_uint64(2) [of "v mod 40"]
  by (simp add: oid_first_def)

subsection \<open>The printer\<close>

lemma puts_decimal: "puts A k (add_decimal A k v) (decimal (unat v))"
  by (simp add: add_decimal_def Let_def decimal_uint64 bytes.adds)

lemmas piece_appends = puts_appends [OF puts_decimal] puts_appends [OF u8.adds [OF TrueI]] puts_appends [OF bytes.adds [OF TrueI]]

lemma appends_text_loop: "appends A 0 (oid_text_loop A (oid_bytes vs)) (oid_rest vs)"
proof (induction vs)
  case Nil
  have "oid_text_loop A [] = (\<lambda>c. (True, c))" by (rule ext) (simp add: oid_text_loop.simps)
  then show ?case using appends_nop by simp
next
  case (Cons v vs)
  have "oid_text_loop A (oid_bytes (v # vs)) =
      cbb_then (cbb_then (CBB_add_u8 A 0 0x2E) (add_decimal A 0 v)) (oid_text_loop A (oid_bytes vs))"
    by (rule ext) (simp add: oid_text_loop.simps [of A "base128 v @ oid_bytes vs"] parse_base128_complete cbb_then_def [of "cbb_then _ _"])
  moreover have "appends A 0 (cbb_then (CBB_add_u8 A 0 0x2E) (add_decimal A 0 v)) ([0x2E] @ decimal (unat v))"
    by (intro appends_then piece_appends)
  ultimately show ?case using appends_then [OF _ Cons] by fastforce
qed

lemma text_loop_sound: "oid_text_loop A copy c = (True, c') \<Longrightarrow> \<exists>vs. copy = oid_bytes vs"
proof (induction A copy c rule: oid_text_loop.induct)
  case (1 A copy c)
  show ?case
  proof (cases "copy = []")
    case True
    then show ?thesis by (intro exI [of _ "[]"]) simp
  next
    case False
    then obtain v rest c1 where p: "parse_base128_integer copy = (Some v, rest)"
        and d: "cbb_then (CBB_add_u8 A 0 0x2E) (add_decimal A 0 v) c = (True, c1)"
        and run: "oid_text_loop A rest c1 = (True, c')"
      using 1(2) by (subst (asm) oid_text_loop.simps) (auto split: option.splits prod.splits bool.splits)
    then obtain vs where "rest = oid_bytes vs"
      using 1(1) [OF False p [symmetric] refl d [symmetric] refl run] by blast
    then show ?thesis using parse_base128_sound [OF p] by (intro exI [of _ "v # vs"]) simp
  qed
qed

lemma appends_first:
  "appends A 0 (if v \<ge> 80 then cbb_then (CBB_add_bytes A 0 [0x32, 0x2E]) (add_decimal A 0 (v - 80))
                else cbb_then (add_decimal A 0 (v div 40))
                       (cbb_then (CBB_add_u8 A 0 0x2E) (add_decimal A 0 (v mod 40)))) (oid_first v)"
proof (cases "v \<ge> 80")
  case True
  show ?thesis
    unfolding oid_first_def if_P [OF True] by (intro appends_then piece_appends)
next
  case False
  show ?thesis
    unfolding oid_first_def if_not_P [OF False] by (intro appends_then piece_appends)
qed

lemma oid_to_text_iff:
  assumes "memory_ok A" and "length oid < 2 ^ 55"
  shows "CBS_asn1_oid_to_text A True oid = Some s \<longleftrightarrow>
    (\<exists>v vs. oid = oid_bytes (v # vs) \<and> s = oid_first v @ oid_rest vs @ [0])"
proof -
  obtain c where c: "CBB_init A True 32 = (True, c)" "represents A (2 ^ 60) c [(Plain 0, [])]"
    using init_ok [OF assms(1), of 32 "2 ^ 60"] by auto
  let ?run = "\<lambda>v copy. cbb_then
       (if v \<ge> 80 then cbb_then (CBB_add_bytes A 0 [0x32, 0x2E]) (add_decimal A 0 (v - 80))
        else cbb_then (add_decimal A 0 (v div 40)) (cbb_then (CBB_add_u8 A 0 0x2E) (add_decimal A 0 (v mod 40))))
       (cbb_then (oid_text_loop A copy) (CBB_add_u8 A 0 0))"
  have prints: "CBS_asn1_oid_to_text A True (oid_bytes (v # vs)) = Some (oid_first v @ oid_rest vs @ [0])"
    if "oid = oid_bytes (v # vs)" for v vs
  proof -
    have "length vs \<le> length oid" using length_oid_bytes(1) [of "v # vs"] that by simp
    then have "length (oid_first v @ oid_rest vs @ [0]) \<le> 2 ^ 60"
      using length_oid_rest(2) [of vs] length_oid_first [of v] assms(2) by simp
    moreover have "appends A 0 (?run v (oid_bytes vs)) (oid_first v @ oid_rest vs @ [0])"
      by (intro appends_then appends_first appends_text_loop piece_appends)
    ultimately obtain c' c'' where "?run v (oid_bytes vs) c = (True, c')"
        "CBB_finish A 0 True c' = (Some (oid_first v @ oid_rest vs @ [0]), c'')"
      using run_and_finish [OF _ c(2)] by blast
    then show ?thesis by (simp add: CBS_asn1_oid_to_text_def c(1) parse_base128_complete)
  qed
  moreover have "\<exists>v vs. oid = oid_bytes (v # vs)" if h: "CBS_asn1_oid_to_text A True oid = Some s"
  proof -
    obtain v copy c' where p: "parse_base128_integer oid = (Some v, copy)" and run: "?run v copy c = (True, c')"
      using h by (auto simp: CBS_asn1_oid_to_text_def c(1) split: option.splits prod.splits bool.splits)
    obtain c1 c2 where "oid_text_loop A copy c1 = (True, c2)"
      using run by (auto simp: cbb_then_def split: prod.splits bool.splits if_splits)
    then obtain vs where "copy = oid_bytes vs" using text_loop_sound by blast
    then show ?thesis using parse_base128_sound [OF p] by (intro exI [of _ v] exI [of _ vs]) simp
  qed
  ultimately show ?thesis by fastforce
qed

subsection \<open>The reader\<close>

declare oid_components_loop.simps [simp del]

lemma component_end_rest: "component_end ts (tl (oid_rest vs)) \<longleftrightarrow> ts = oid_rest vs"
  by (cases vs; cases ts) auto

lemma components_loop_first:
  "oid_components_loop A k (decimal (unat v) @ oid_rest vs) =
     cbb_then (add_base128_integer A k v) (oid_components_loop A k (tl (oid_rest vs)))"
proof -
  have "parse_dotted_decimal (decimal (unat v) @ oid_rest vs) = (Some v, tl (oid_rest vs))"
    by (simp add: parse_dotted_iff component_end_rest)
  then show ?thesis by (intro ext) (subst oid_components_loop.simps, simp add: cbb_then_def)
qed

lemma appends_components: "appends A k (oid_components_loop A k (tl (oid_rest vs))) (oid_bytes vs)"
proof (induction vs)
  case Nil
  have "oid_components_loop A k [] = (\<lambda>c. (True, c))" by (rule ext) (subst oid_components_loop.simps, simp)
  then show ?case using appends_nop by simp
next
  case (Cons v vs)
  then show ?case
    using appends_then [OF puts_appends [OF puts_base128] Cons] by (simp add: components_loop_first)
qed

lemma components_sound: "oid_components_loop A k cbs c = (True, c') \<Longrightarrow> \<exists>vs. cbs = tl (oid_rest vs)"
proof (induction A k cbs c rule: oid_components_loop.induct)
  case (1 A k cbs c)
  show ?case
  proof (cases "cbs = []")
    case True
    then show ?thesis by (intro exI [of _ "[]"]) simp
  next
    case False
    then obtain v rest c1 where p: "parse_dotted_decimal cbs = (Some v, rest)"
        and d: "add_base128_integer A k v c = (True, c1)"
        and run: "oid_components_loop A k rest c1 = (True, c')"
      using 1(2) by (subst (asm) oid_components_loop.simps) (auto split: option.splits prod.splits bool.splits)
    then obtain vs where "rest = tl (oid_rest vs)"
      using 1(1) [OF False p [symmetric] refl d [symmetric] refl run] by blast
    then have "cbs = tl (oid_rest (v # vs))" using p by (auto simp: parse_dotted_iff component_end_rest)
    then show ?thesis by blast
  qed
qed

text \<open>The first two components and the first arc.\<close>

lemma first_arc:
  fixes v :: uint64
  obtains a b where "v = 40 * a + b" and "oid_first v = decimal (unat a) @ [0x2E] @ decimal (unat b)"
    and "\<not> (a > 2 \<or> (a < 2 \<and> b > 39) \<or> b > 0xFFFFFFFFFFFFFFFF - 80)"
proof (cases "v \<ge> 80")
  case True
  show ?thesis
  proof (rule that [of 2 "v - 80"])
    show "oid_first v = decimal (unat (2 :: uint64)) @ [0x2E] @ decimal (unat (v - 80))"
      using True by (simp add: oid_first_def decimal_digit)
    show "\<not> ((2 :: uint64) > 2 \<or> (2 :: uint64) < 2 \<and> v - 80 > 39 \<or> v - 80 > 0xFFFFFFFFFFFFFFFF - 80)"
      using True by (simp add: not_less word_le_nat_alt unat_sub_le) (use unat_lt [of v] in simp)
  qed simp
next
  case False
  then have lt: "unat v < 80" by (simp add: word_le_nat_alt)
  have q: "unat v div 40 < 2" "unat v mod 40 \<le> 39" "unat v mod 40 \<le> 18446744073709551535" using lt by (simp, linarith+)
  have d: "unat (v div 40) = unat v div 40" "unat (v mod 40) = unat v mod 40" by (simp_all add: unat_div unat_mod)
  show ?thesis
  proof (rule that [of "v div 40" "v mod 40"])
    show "v = 40 * (v div 40) + v mod 40" using lt by (simp add: word_unat_eq_iff unat_word_ariths d)
    show "oid_first v = decimal (unat (v div 40)) @ [0x2E] @ decimal (unat (v mod 40))"
      using False by (simp add: oid_first_def)
    show "\<not> (v div 40 > 2 \<or> (v div 40 < 2 \<and> v mod 40 > 39) \<or> v mod 40 > 0xFFFFFFFFFFFFFFFF - 80)"
      using q by (simp add: not_less word_le_nat_alt word_less_nat_alt d)
  qed
qed

lemma first_arc_unique:
  fixes a b :: uint64
  assumes "\<not> (a > 2 \<or> (a < 2 \<and> b > 39) \<or> b > 0xFFFFFFFFFFFFFFFF - 80)"
  shows "oid_first (40 * a + b) = decimal (unat a) @ [0x2E] @ decimal (unat b)"
proof -
  have b: "unat b \<le> 0xFFFFFFFFFFFFFFFF - 80" using assms by (simp add: not_less word_le_nat_alt)
  have "unat a \<le> 2" using assms by (simp add: not_less word_le_nat_alt)
  then consider "unat a = 0" | "unat a = 1" | "unat a = 2" by linarith
  then show ?thesis
  proof cases
    case 3
    then have a: "a = 2" by (simp add: word_unat_eq_iff)
    have "unat (80 + b) = 80 + unat b" using b by (simp add: unat_word_ariths)
    then have "80 \<le> 80 + b" by (simp add: word_le_nat_alt)
    then show ?thesis by (simp add: a oid_first_def decimal_digit)
  next
    case 1
    then have a: "a = 0" by (simp add: word_unat_eq_iff)
    then have "unat b \<le> 39" using assms by (simp add: not_less word_le_nat_alt)
    then have "\<not> 80 \<le> b" "b div 40 = 0" "b mod 40 = b"
      by (simp_all add: word_le_nat_alt word_unat_eq_iff unat_div unat_mod)
    then show ?thesis by (simp add: a oid_first_def)
  next
    case 2
    then have a: "a = 1" by (simp add: word_unat_eq_iff)
    then have b: "unat b \<le> 39" using assms by (simp add: not_less word_le_nat_alt)
    then have "unat (40 + b) = 40 + unat b" by (simp add: unat_word_ariths)
    then have "\<not> 80 \<le> 40 + b" "(40 + b) div 40 = 1" "(40 + b) mod 40 = b"
      using b by (simp_all add: word_le_nat_alt word_unat_eq_iff unat_div unat_mod)
    then show ?thesis by (simp add: a oid_first_def)
  qed
qed

lemma oid_from_text_iff:
  assumes "memory_ok A" and "unat cap < 2 ^ 62" and "length txt < 2 ^ 55"
  shows "(\<exists>c c' c''. CBB_init A True cap = (True, c) \<and> CBB_add_asn1_oid_from_text A 0 txt c = (True, c') \<and>
      CBB_finish A 0 True c' = (Some oid, c'')) \<longleftrightarrow>
    (\<exists>v vs. txt = oid_first v @ oid_rest vs \<and> oid = oid_bytes (v # vs))"
proof -
  obtain c where c: "CBB_init A True cap = (True, c)" "represents A (2 ^ 60) c [(Plain 0, [])]"
    using init_ok [OF assms(1,2), of "2 ^ 60"] by auto
  have writes: "\<exists>c' c''. CBB_add_asn1_oid_from_text A 0 txt c = (True, c') \<and>
      CBB_finish A 0 True c' = (Some (oid_bytes (v # vs)), c'')"
    if t: "txt = oid_first v @ oid_rest vs" for v vs
  proof -
    obtain a b where v: "v = 40 * a + b" "oid_first v = decimal (unat a) @ [0x2E] @ decimal (unat b)"
      and ok: "\<not> (a > 2 \<or> (a < 2 \<and> b > 39) \<or> b > 0xFFFFFFFFFFFFFFFF - 80)" by (rule first_arc)
    have 1: "parse_dotted_decimal txt = (Some a, decimal (unat b) @ oid_rest vs)"
      by (simp add: parse_dotted_iff t v(2))
    have 2: "parse_dotted_decimal (decimal (unat b) @ oid_rest vs) = (Some b, tl (oid_rest vs))"
      by (simp add: parse_dotted_iff component_end_rest)
    have f: "CBB_add_asn1_oid_from_text A 0 txt =
        cbb_then (CBB_flush A 0) (cbb_then (add_base128_integer A 0 v) (oid_components_loop A 0 (tl (oid_rest vs))))"
      by (simp only: CBB_add_asn1_oid_from_text_def 1 2 v(1) prod.case option.case if_not_P [OF ok])
    have "appends A 0 (CBB_add_asn1_oid_from_text A 0 txt) ([] @ oid_bytes (v # vs))"
      unfolding f oid_simps by (intro appends_then puts_appends puts_flush puts_base128 appends_components)
    moreover have "length (oid_bytes (v # vs)) \<le> 2 ^ 60"
      using length_oid_bytes(2) [of "v # vs"] length_oid_rest(1) [of vs] assms(3) t by simp
    ultimately show ?thesis using run_and_finish [OF _ c(2)] by fastforce
  qed
  have "\<exists>v vs. txt = oid_first v @ oid_rest vs" if h: "CBB_add_asn1_oid_from_text A 0 txt c = (True, c')" for c'
  proof -
    obtain a cbs b rest c1 c2 c3 where 1: "parse_dotted_decimal txt = (Some a, cbs)"
      and 2: "parse_dotted_decimal cbs = (Some b, rest)"
      and ok: "\<not> (a > 2 \<or> (a < 2 \<and> b > 39) \<or> b > 0xFFFFFFFFFFFFFFFF - 80)"
      and run: "oid_components_loop A 0 rest c2 = (True, c3)"
      using h by (auto simp: CBB_add_asn1_oid_from_text_def cbb_then_def split: prod.splits option.splits bool.splits if_splits)
    obtain vs where "rest = tl (oid_rest vs)" using components_sound [OF run] by blast
    then have cbs: "cbs = decimal (unat b) @ oid_rest vs" using 2 by (auto simp: parse_dotted_iff component_end_rest)
    obtain ts where t: "txt = decimal (unat a) @ ts" and ts: "component_end ts cbs" using 1 by (auto simp: parse_dotted_iff)
    have "ts = 0x2E # cbs" using ts cbs by (cases ts) auto
    then show ?thesis using first_arc_unique [OF ok] t cbs by (intro exI [of _ "40 * a + b"] exI [of _ vs]) simp
  qed
  then show ?thesis using writes c(1) by fastforce
qed

section \<open>Properties\<close>

text \<open>C32. Reading and printing object identifiers are exact inverses: \<^verbatim>\<open>CBS_asn1_oid_to_text\<close> prints an encoding as a text
  (with its terminating zero) exactly when \<^verbatim>\<open>CBB_add_asn1_oid_from_text\<close> accepts that text and the builder then
  returns that encoding. So every printed identifier is accepted, every accepted text is the canonical one, and no two
  texts have one encoding.\<close>

theorem oid_text_round_trip:
  assumes "memory_ok A" and "unat cap < 2 ^ 62" and "length oid < 2 ^ 55" and "length txt < 2 ^ 55"
  shows "CBS_asn1_oid_to_text A True oid = Some (txt @ [0]) \<longleftrightarrow>
    (\<exists>c c' c''. CBB_init A True cap = (True, c) \<and> CBB_add_asn1_oid_from_text A 0 txt c = (True, c') \<and>
       CBB_finish A 0 True c' = (Some oid, c''))"
  unfolding oid_to_text_iff [OF assms(1,3)] oid_from_text_iff [OF assms(1,2,4)] by auto

theorem oid_text_round_trip_witness:
  "CBS_asn1_oid_to_text plain_allocator True [0x2A, 0x86, 0x48, 0x86, 0xF7, 0x0D] =
     Some [0x31, 0x2E, 0x32, 0x2E, 0x38, 0x34, 0x30, 0x2E, 0x31, 0x31, 0x33, 0x35, 0x34, 0x39, 0]"
proof -
  let ?oid = "[0x2A, 0x86, 0x48, 0x86, 0xF7, 0x0D] :: byte list"
  let ?txt = "[0x31, 0x2E, 0x32, 0x2E, 0x38, 0x34, 0x30, 0x2E, 0x31, 0x31, 0x33, 0x35, 0x34, 0x39] :: byte list"
  have "?txt = oid_first 42 @ oid_rest [840, 113549]"
    by (simp add: oid_first_def decimal.simps)
  moreover have "?oid = oid_bytes [42, 840, 113549]"
    by (simp add: base128_def groups.simps)
  ultimately have "\<exists>v vs. ?txt = oid_first v @ oid_rest vs \<and> ?oid = oid_bytes (v # vs)" by blast
  then have "\<exists>c c' c''. CBB_init plain_allocator True 0 = (True, c) \<and>
      CBB_add_asn1_oid_from_text plain_allocator 0 ?txt c = (True, c') \<and> CBB_finish plain_allocator 0 True c' = (Some ?oid, c'')"
    by (subst oid_from_text_iff [OF memory_ok_plain]) (simp, simp, assumption)
  then have "CBS_asn1_oid_to_text plain_allocator True ?oid = Some (?txt @ [0])"
    by (subst oid_text_round_trip [of plain_allocator 0]) (simp_all add: memory_ok_plain)
  then show ?thesis by simp
qed

end
