(* ===== verification/BufMem.thy ===== *)
theory BufMem
  imports CbbClaims
begin

text \<open>
  BoringSSL's memory and string functions (crypto/mem.c) and its growable buffers (crypto/buf/buf.c). A block carries its
  size in a header of eight bytes, which \<^verbatim>\<open>OPENSSL_realloc\<close> and \<^verbatim>\<open>OPENSSL_free\<close> read; a block is cleared before it is handed
  back to the system. Sizes of objects in memory are natural numbers where the code only counts up to them.
  \<^verbatim>\<open>CRYPTO_memcmp\<close> is in theory Cbs, whose parser uses it.
\<close>

section \<open>Blocks\<close>

text \<open>\<open>M n\<close> is the block of \<open>n\<close> bytes that the system's \<^verbatim>\<open>malloc\<close> returns, with any content, or \<open>None\<close>. The hooks
  \<^verbatim>\<open>OPENSSL_memory_alloc\<close>, \<^verbatim>\<open>OPENSSL_memory_free\<close> and \<^verbatim>\<open>OPENSSL_memory_get_size\<close> are not defined. A block of the library is
  the whole block of the system: a header with the size, and what the caller sees. Pointers of the library are \<open>None\<close>
  (null) or such a block.\<close>

type_synonym sys_malloc = "size_t \<Rightarrow> byte list option"
type_synonym block = "byte list"

definition sys_malloc_ok :: "sys_malloc \<Rightarrow> bool" where
  "sys_malloc_ok M \<longleftrightarrow> (\<forall>n bs. M n = Some bs \<longrightarrow> length bs = unat n)"

definition OPENSSL_MALLOC_PREFIX :: size_t where
  "OPENSSL_MALLOC_PREFIX = 8"

definition store_size :: "size_t \<Rightarrow> block \<Rightarrow> block" where
  "store_size sz ptr = put_at ptr 0 (rev (be_bytes 8 sz))"

definition load_size :: "block \<Rightarrow> size_t" where
  "load_size ptr = le_value (take 8 ptr)"

definition OPENSSL_malloc :: "sys_malloc \<Rightarrow> size_t \<Rightarrow> block option" where
  "OPENSSL_malloc M sz =
     (if sz + OPENSSL_MALLOC_PREFIX < sz then None
      else (case M (sz + OPENSSL_MALLOC_PREFIX) of
              None \<Rightarrow> None
            | Some ptr \<Rightarrow> Some (store_size sz ptr)))"

definition OPENSSL_cleanse :: "block \<Rightarrow> size_t \<Rightarrow> block" where
  "OPENSSL_cleanse ptr len = put_at ptr 0 (replicate (unat len) 0)"

text \<open>The block as it is handed back to the system.\<close>

definition OPENSSL_free :: "block option \<Rightarrow> block option" where
  "OPENSSL_free orig_ptr =
     (case orig_ptr of
        None \<Rightarrow> None
      | Some ptr \<Rightarrow> (let sz = load_size ptr in Some (OPENSSL_cleanse ptr (sz + OPENSSL_MALLOC_PREFIX))))"

text \<open>The part of a block that the caller sees, and storing there.\<close>

definition bm_contents :: "block \<Rightarrow> byte list" where
  "bm_contents ptr = drop (unat OPENSSL_MALLOC_PREFIX) ptr"

definition write_at :: "block \<Rightarrow> nat \<Rightarrow> byte list \<Rightarrow> block" where
  "write_at ptr i data = put_at ptr (unat OPENSSL_MALLOC_PREFIX + i) data"

text \<open>The new block and the block handed back to the system.\<close>

definition OPENSSL_realloc :: "sys_malloc \<Rightarrow> block option \<Rightarrow> size_t \<Rightarrow> block option \<times> block option" where
  "OPENSSL_realloc M orig_ptr new_size =
     (case orig_ptr of
        None \<Rightarrow> (OPENSSL_malloc M new_size, None)
      | Some orig \<Rightarrow>
          (let old_size = load_size orig in
           case OPENSSL_malloc M new_size of
             None \<Rightarrow> (None, None)
           | Some ret \<Rightarrow>
               (let to_copy = (if old_size < new_size then old_size else new_size)
                in (Some (write_at ret 0 (take (unat to_copy) (bm_contents orig))), OPENSSL_free (Some orig)))))"

section \<open>Strings\<close>

text \<open>A string is what lies in memory from a pointer on. \<^verbatim>\<open>strlen\<close> is the library's: the index of the first zero.\<close>

definition strlen :: "byte list \<Rightarrow> nat" where
  "strlen s = length (takeWhile (\<lambda>b. b \<noteq> 0) s)"

fun mem_strnlen_loop :: "byte list \<Rightarrow> nat \<Rightarrow> nat \<Rightarrow> nat" where
  "mem_strnlen_loop s 0 i = i"
| "mem_strnlen_loop s (Suc todo) i = (if s ! i = 0 then i else mem_strnlen_loop s todo (i + 1))"

definition OPENSSL_strnlen :: "byte list \<Rightarrow> nat \<Rightarrow> nat" where
  "OPENSSL_strnlen s len = mem_strnlen_loop s len 0"

definition OPENSSL_strdup :: "sys_malloc \<Rightarrow> byte list option \<Rightarrow> block option" where
  "OPENSSL_strdup M s =
     (case s of
        None \<Rightarrow> None
      | Some s \<Rightarrow>
          (let len = strlen s + 1 in
           case OPENSSL_malloc M (word_of_nat len) of
             None \<Rightarrow> None
           | Some ret \<Rightarrow> Some (write_at ret 0 (take len s))))"

definition OPENSSL_strndup :: "sys_malloc \<Rightarrow> byte list \<Rightarrow> size_t \<Rightarrow> block option" where
  "OPENSSL_strndup M str sz =
     (let sz = word_of_nat (OPENSSL_strnlen str (unat sz)); alloc_size = sz + 1 in
      if alloc_size < sz then None
      else (case OPENSSL_malloc M alloc_size of
              None \<Rightarrow> None
            | Some ret \<Rightarrow> Some (write_at (write_at ret 0 (take (unat sz) str)) (unat sz) [0])))"

definition OPENSSL_memdup :: "sys_malloc \<Rightarrow> byte list \<Rightarrow> size_t \<Rightarrow> block option" where
  "OPENSSL_memdup M data sz =
     (if sz = 0 then None
      else (case OPENSSL_malloc M sz of
              None \<Rightarrow> None
            | Some ret \<Rightarrow> Some (write_at ret 0 (take (unat sz) data))))"

text \<open>The loop of \<^verbatim>\<open>OPENSSL_strlcpy\<close>: \<open>l\<close> characters are copied, \<open>dst_size\<close> bytes are left. The result is the returned
  length and the destination.\<close>

fun strlcpy_loop :: "byte list \<Rightarrow> byte list \<Rightarrow> nat \<Rightarrow> nat \<Rightarrow> nat \<times> nat \<times> byte list" where
  "strlcpy_loop dst src 0 l = (l, 0, dst)"
| "strlcpy_loop dst src (Suc k) l =
     (if Suc k > 1 \<and> src ! l \<noteq> 0 then strlcpy_loop (dst[l := src ! l]) src k (l + 1) else (l, Suc k, dst))"

definition OPENSSL_strlcpy :: "byte list \<Rightarrow> byte list \<Rightarrow> nat \<Rightarrow> nat \<times> byte list" where
  "OPENSSL_strlcpy dst src dst_size =
     (case strlcpy_loop dst src dst_size 0 of
        (l, dst_size, dst) \<Rightarrow> (l + strlen (drop l src), if dst_size \<noteq> 0 then dst[l := 0] else dst))"

fun strlcat_loop :: "byte list \<Rightarrow> nat \<Rightarrow> nat \<Rightarrow> nat \<times> nat" where
  "strlcat_loop dst 0 l = (l, 0)"
| "strlcat_loop dst (Suc k) l = (if dst ! l \<noteq> 0 then strlcat_loop dst k (l + 1) else (l, Suc k))"

definition OPENSSL_strlcat :: "byte list \<Rightarrow> byte list \<Rightarrow> nat \<Rightarrow> nat \<times> byte list" where
  "OPENSSL_strlcat dst src dst_size =
     (case strlcat_loop dst dst_size 0 of
        (l, dst_size) \<Rightarrow>
          (case OPENSSL_strlcpy (drop l dst) src dst_size of
             (n, rest) \<Rightarrow> (l + n, take l dst @ rest)))"

text \<open>Characters are passed as \<^verbatim>\<open>int\<close>; \<^verbatim>\<open>char\<close> is signed on the platform.\<close>

definition OPENSSL_tolower :: "int \<Rightarrow> int" where
  "OPENSSL_tolower c = (if c \<ge> 65 \<and> c \<le> 90 then c + (97 - 65) else c)"

text \<open>The loop of \<^verbatim>\<open>OPENSSL_strcasecmp\<close>, on two strings that end with a zero; on shorter memory the model stops.\<close>

fun OPENSSL_strcasecmp :: "byte list \<Rightarrow> byte list \<Rightarrow> int" where
  "OPENSSL_strcasecmp (a # as) (b # bs) =
     (let aa = OPENSSL_tolower (sint a); bb = OPENSSL_tolower (sint b)
      in if aa < bb then -1 else if aa > bb then 1 else if aa = 0 then 0 else OPENSSL_strcasecmp as bs)"
| "OPENSSL_strcasecmp _ _ = 0"

fun OPENSSL_strncasecmp :: "byte list \<Rightarrow> byte list \<Rightarrow> nat \<Rightarrow> int" where
  "OPENSSL_strncasecmp (a # as) (b # bs) (Suc n) =
     (let aa = OPENSSL_tolower (sint a); bb = OPENSSL_tolower (sint b)
      in if aa < bb then -1 else if aa > bb then 1 else if aa = 0 then 0 else OPENSSL_strncasecmp as bs n)"
| "OPENSSL_strncasecmp _ _ _ = 0"

text \<open>FNV-1a.\<close>

fun hash32_loop :: "uint32 \<Rightarrow> byte list \<Rightarrow> uint32" where
  "hash32_loop h [] = h"
| "hash32_loop h (b # bs) = hash32_loop ((h XOR ucast b) * 16777619) bs"

definition OPENSSL_hash32 :: "byte list \<Rightarrow> uint32" where
  "OPENSSL_hash32 bs = hash32_loop 2166136261 bs"

definition OPENSSL_strhash :: "byte list \<Rightarrow> uint32" where
  "OPENSSL_strhash s = OPENSSL_hash32 (take (strlen s) s)"

section \<open>Growable buffers\<close>

record BUF_MEM =
  bm_length :: size_t
  bm_data :: "block option"
  bm_max :: size_t

text \<open>\<open>got\<close>: the structure itself could be allocated.\<close>

definition BUF_MEM_new :: "bool \<Rightarrow> BUF_MEM option" where
  "BUF_MEM_new got = (if got then Some \<lparr>bm_length = 0, bm_data = None, bm_max = 0\<rparr> else None)"

text \<open>The data block as it is handed back to the system.\<close>

definition BUF_MEM_free :: "BUF_MEM option \<Rightarrow> block option" where
  "BUF_MEM_free buf = (case buf of None \<Rightarrow> None | Some b \<Rightarrow> OPENSSL_free (bm_data b))"

definition BUF_MEM_reserve :: "sys_malloc \<Rightarrow> size_t \<Rightarrow> BUF_MEM \<Rightarrow> bool \<times> BUF_MEM" where
  "BUF_MEM_reserve M cap buf =
     (if bm_max buf \<ge> cap then (True, buf)
      else (let n = cap + 3 in
        if n < cap then (False, buf)
        else (let n = n div 3; alloc_size = n * 4 in
          if alloc_size div 4 \<noteq> n then (False, buf)
          else (case OPENSSL_realloc M (bm_data buf) alloc_size of
                  (None, _) \<Rightarrow> (False, buf)
                | (Some new_buf, _) \<Rightarrow> (True, buf\<lparr>bm_data := Some new_buf, bm_max := alloc_size\<rparr>)))))"

text \<open>Storing through \<^verbatim>\<open>buf->data\<close>; a null pointer stays null.\<close>

definition bm_store :: "nat \<Rightarrow> byte list \<Rightarrow> BUF_MEM \<Rightarrow> BUF_MEM" where
  "bm_store i data buf = buf\<lparr>bm_data := map_option (\<lambda>p. write_at p i data) (bm_data buf)\<rparr>"

definition BUF_MEM_grow :: "sys_malloc \<Rightarrow> size_t \<Rightarrow> BUF_MEM \<Rightarrow> size_t \<times> BUF_MEM" where
  "BUF_MEM_grow M len buf =
     (case BUF_MEM_reserve M len buf of
        (False, buf) \<Rightarrow> (0, buf)
      | (True, buf) \<Rightarrow>
          (let buf = (if bm_length buf < len
                      then bm_store (unat (bm_length buf)) (replicate (unat (len - bm_length buf)) 0) buf else buf)
           in (len, buf\<lparr>bm_length := len\<rparr>)))"

definition BUF_MEM_grow_clean :: "sys_malloc \<Rightarrow> size_t \<Rightarrow> BUF_MEM \<Rightarrow> size_t \<times> BUF_MEM" where
  "BUF_MEM_grow_clean M len buf = BUF_MEM_grow M len buf"

definition BUF_MEM_append :: "sys_malloc \<Rightarrow> byte list \<Rightarrow> BUF_MEM \<Rightarrow> bool \<times> BUF_MEM" where
  "BUF_MEM_append M data buf =
     (let len = word_of_nat (length data) in
      if len = 0 then (True, buf)
      else (let new_len = bm_length buf + len in
        if new_len < len then (False, buf)
        else (case BUF_MEM_reserve M new_len buf of
                (False, buf) \<Rightarrow> (False, buf)
              | (True, buf) \<Rightarrow> (True, (bm_store (unat (bm_length buf)) data buf)\<lparr>bm_length := new_len\<rparr>))))"

definition BUF_strdup :: "sys_malloc \<Rightarrow> byte list option \<Rightarrow> block option" where
  "BUF_strdup M str = OPENSSL_strdup M str"

definition BUF_strnlen :: "byte list \<Rightarrow> nat \<Rightarrow> nat" where
  "BUF_strnlen str max_len = OPENSSL_strnlen str max_len"

definition BUF_strndup :: "sys_malloc \<Rightarrow> byte list \<Rightarrow> size_t \<Rightarrow> block option" where
  "BUF_strndup M str sz = OPENSSL_strndup M str sz"

definition BUF_strlcpy :: "byte list \<Rightarrow> byte list \<Rightarrow> nat \<Rightarrow> nat \<times> byte list" where
  "BUF_strlcpy dst src dst_size = OPENSSL_strlcpy dst src dst_size"

definition BUF_strlcat :: "byte list \<Rightarrow> byte list \<Rightarrow> nat \<Rightarrow> nat \<times> byte list" where
  "BUF_strlcat dst src dst_size = OPENSSL_strlcat dst src dst_size"

definition BUF_memdup :: "sys_malloc \<Rightarrow> byte list \<Rightarrow> size_t \<Rightarrow> block option" where
  "BUF_memdup M data sz = OPENSSL_memdup M data sz"

section \<open>Allocation\<close>

text \<open>A block of the library: the header holds the size of what the caller sees.\<close>

definition block_ok :: "size_t \<Rightarrow> block \<Rightarrow> bool" where
  "block_ok n p \<longleftrightarrow> length p = unat n + 8 \<and> unat n + 8 < 2 ^ 64 \<and> load_size p = n"

lemma prefix_8 [simp]: "unat OPENSSL_MALLOC_PREFIX = 8"
  by (simp add: OPENSSL_MALLOC_PREFIX_def)

lemma load_store_size: "8 \<le> length p \<Longrightarrow> load_size (store_size n p) = n"
  by (simp add: load_size_def store_size_def put_at_def le_value_def be_bytes_back)

lemma malloc_block:
  assumes "sys_malloc_ok M" and "OPENSSL_malloc M n = Some p"
  shows "block_ok n p"
proof -
  from assms(2) obtain q where q: "\<not> n + 8 < n" "M (n + 8) = Some q" "p = store_size n q"
    by (auto simp: OPENSSL_malloc_def OPENSSL_MALLOC_PREFIX_def split: if_splits option.splits)
  then have lt: "unat n + 8 < 2 ^ 64" by (simp add: overflow_test)
  then have u: "unat (n + 8) = unat n + 8" by (simp add: unat_word_ariths)
  then have "length q = unat n + 8" using assms(1) q(2) by (auto simp: sys_malloc_ok_def)
  then show ?thesis using q(3) lt by (simp add: block_ok_def load_store_size) (simp add: store_size_def)
qed

lemma length_contents: "block_ok n p \<Longrightarrow> length (bm_contents p) = unat n"
  by (simp add: block_ok_def bm_contents_def)

lemma contents_write [simp]: "i + length xs + 8 \<le> length p \<Longrightarrow> bm_contents (write_at p i xs) = put_at (bm_contents p) i xs"
  by (simp add: bm_contents_def write_at_def put_at_def take_drop ac_simps)

lemma block_ok_write: "block_ok n p \<Longrightarrow> i + length xs \<le> unat n \<Longrightarrow> block_ok n (write_at p i xs)"
  by (simp add: block_ok_def write_at_def) (simp add: load_size_def put_at_def)

text \<open>What is handed back to the system is zero throughout.\<close>

lemma free_clears:
  assumes "block_ok n p"
  shows "OPENSSL_free (Some p) = Some (replicate (unat n + 8) 0)"
proof -
  have "unat (n + OPENSSL_MALLOC_PREFIX) = length p" "load_size p = n" "length p = unat n + 8"
    using assms by (simp_all add: block_ok_def OPENSSL_MALLOC_PREFIX_def unat_word_ariths)
  then show ?thesis by (simp add: OPENSSL_free_def OPENSSL_cleanse_def Let_def put_at_def)
qed

lemma realloc_block:
  assumes "sys_malloc_ok M" and "OPENSSL_realloc M orig n = (Some p, freed)"
    and "\<And>x. orig = Some x \<Longrightarrow> block_ok m x \<and> m \<le> n"
  shows "block_ok n p" and "\<And>x. orig = Some x \<Longrightarrow> take (unat m) (bm_contents p) = bm_contents x \<and> freed = Some (replicate (unat m + 8) 0)"
proof -
  have "block_ok n p \<and> (\<forall>x. orig = Some x \<longrightarrow> take (unat m) (bm_contents p) = bm_contents x \<and> freed = Some (replicate (unat m + 8) 0))"
  proof (cases orig)
    case None
    then show ?thesis using assms(2) malloc_block [OF assms(1)] by (simp add: OPENSSL_realloc_def)
  next
    case (Some y)
    then have y: "block_ok m y" "unat m \<le> unat n" using assms(3) by (simp_all add: word_le_nat_alt)
    then have old: "load_size y = m" "length (bm_contents y) = unat m" by (simp_all add: block_ok_def bm_contents_def)
    obtain q where q: "OPENSSL_malloc M n = Some q" "p = write_at q 0 (bm_contents y)" "freed = OPENSSL_free (Some y)"
      using assms(2) Some old y(2) word_le_nat_alt [of n m]
      by (auto simp: OPENSSL_realloc_def Let_def not_less split: option.splits if_splits)
    have b: "block_ok n q" by (rule malloc_block [OF assms(1) q(1)])
    then have "block_ok n p" using q(2) old y(2) by (simp add: block_ok_write)
    moreover have "take (unat m) (bm_contents p) = bm_contents y"
      using q(2) old y(2) b by (simp add: block_ok_def put_at_def)
    ultimately show ?thesis using Some q(3) free_clears [OF y(1)] by simp
  qed
  then show "block_ok n p" "\<And>x. orig = Some x \<Longrightarrow> take (unat m) (bm_contents p) = bm_contents x \<and> freed = Some (replicate (unat m + 8) 0)"
    by blast+
qed

text \<open>The allocation that the builder relies on is this one.\<close>

lemma openssl_allocator: "sys_malloc_ok M \<Longrightarrow> allocator_ok (\<lambda>n. map_option bm_contents (OPENSSL_malloc M n))"
  by (auto simp: allocator_ok_def dest: malloc_block intro: length_contents)

section \<open>A buffer is a list of bytes\<close>

definition bm_ok :: "BUF_MEM \<Rightarrow> bool" where
  "bm_ok b \<longleftrightarrow> (case bm_data b of
     None \<Rightarrow> bm_length b = 0 \<and> bm_max b = 0
   | Some p \<Rightarrow> block_ok (bm_max b) p \<and> bm_length b \<le> bm_max b)"

definition bm_bytes :: "BUF_MEM \<Rightarrow> byte list" where
  "bm_bytes b = (case bm_data b of None \<Rightarrow> [] | Some p \<Rightarrow> take (unat (bm_length b)) (bm_contents p))"

lemma bm_bytes_length: "bm_ok b \<Longrightarrow> length (bm_bytes b) = unat (bm_length b)"
  by (auto simp: bm_ok_def bm_bytes_def length_contents word_le_nat_alt split: option.splits)

text \<open>Memory that does not run out below \<open>2 ^ 63\<close> bytes.\<close>

definition plenty :: "sys_malloc \<Rightarrow> bool" where
  "plenty M \<longleftrightarrow> (\<forall>n. unat n < 2 ^ 63 \<longrightarrow> M n \<noteq> None)"

lemma realloc_plenty: "plenty M \<Longrightarrow> unat n < 2 ^ 62 \<Longrightarrow> \<exists>p f. OPENSSL_realloc M o' n = (Some p, f)"
proof -
  assume a: "plenty M" "unat n < 2 ^ 62"
  then have u: "unat (n + 8) = unat n + 8" by (simp add: unat_word_ariths)
  then have "M (n + 8) \<noteq> None" "\<not> n + 8 < n" using a by (simp_all add: plenty_def word_less_nat_alt)
  then obtain p where "OPENSSL_malloc M n = Some p" by (auto simp: OPENSSL_malloc_def OPENSSL_MALLOC_PREFIX_def)
  then show ?thesis by (auto simp: OPENSSL_realloc_def Let_def split: option.splits)
qed

text \<open>The capacity that is asked for: four thirds of the request, rounded up.\<close>

lemma grown_capacity:
  fixes cap :: size_t
  assumes "\<not> cap + 3 < cap" and "((cap + 3) div 3) * 4 div 4 = (cap + 3) div 3"
  shows "cap \<le> ((cap + 3) div 3) * 4" and "unat (((cap + 3) div 3) * 4) = (unat cap + 3) div 3 * 4"
proof -
  have "unat cap + 3 < 2 ^ 64" using assms(1) by (simp add: overflow_test)
  then have n: "unat ((cap + 3) div 3) = (unat cap + 3) div 3" by (simp add: unat_div unat_word_ariths)
  let ?n = "(cap + 3) div 3"
  have lt: "unat ?n * 4 < 2 ^ 64"
  proof (rule ccontr)
    assume h: "\<not> unat ?n * 4 < 2 ^ 64"
    have "unat (?n * 4) div 4 = unat ?n" using arg_cong [OF assms(2), of unat] by (simp add: unat_div)
    moreover have "unat (?n * 4) < 2 ^ 64" using unat_lt [of "?n * 4"] by simp
    ultimately have "unat ?n < 2 ^ 62" using less_mult_imp_div_less [of "unat (?n * 4)" "2 ^ 62" 4] by simp
    then show False using h by simp
  qed
  then have "unat (?n * 4) = unat ?n * 4" by (simp only: unat_word_ariths) simp
  then show u: "unat (?n * 4) = (unat cap + 3) div 3 * 4" by (simp only: n)
  then show "cap \<le> ?n * 4" by (simp add: word_le_nat_alt)
qed

lemma guarded_result:
  "(if P then (True, b) else if Q then (False, b) else if R then (False, b)
    else (case r of (None, _) \<Rightarrow> (False, b) | (Some x, _) \<Rightarrow> (True, f x))) = (ok, b') \<Longrightarrow>
   (P \<and> ok \<or> \<not> ok \<and> \<not> P) \<and> b' = b \<or> (\<exists>x y. ok \<and> \<not> P \<and> \<not> Q \<and> \<not> R \<and> r = (Some x, y) \<and> b' = f x)"
  by (auto split: if_splits option.splits prod.splits)

lemmas reserve_cases = guarded_result [OF BUF_MEM_reserve_def [unfolded Let_def, THEN sym, THEN trans], of M cap buf for M cap buf]

lemma bm_reserve_step:
  assumes "sys_malloc_ok M" and "bm_ok b" and "BUF_MEM_reserve M cap b = (ok, b')"
  shows "bm_ok b'" and "bm_bytes b' = bm_bytes b" and "bm_length b' = bm_length b"
    and "ok \<Longrightarrow> cap \<le> bm_max b'" and "\<not> ok \<Longrightarrow> b' = b"
    and "plenty M \<Longrightarrow> unat cap < 2 ^ 61 \<Longrightarrow> ok"
proof -
  let ?a = "(cap + 3) div 3 * 4"
  have "bm_ok b' \<and> bm_bytes b' = bm_bytes b \<and> bm_length b' = bm_length b \<and> (ok \<longrightarrow> cap \<le> bm_max b') \<and> (\<not> ok \<longrightarrow> b' = b)"
    using reserve_cases [OF assms(3)]
  proof (elim disjE conjE exE)
    fix p f
    assume True: "ok" "\<not> cap \<le> bm_max b" and g: "\<not> cap + 3 < cap" "\<not> ?a div 4 \<noteq> (cap + 3) div 3"
      and p: "OPENSSL_realloc M (bm_data b) ?a = (Some p, f)" "b' = b\<lparr>bm_data := Some p, bm_max := ?a\<rparr>"
    note cap = grown_capacity [OF g(1) g(2) [unfolded not_not]]
    have "bm_max b \<le> cap" using True linear by blast
    then have max: "bm_max b \<le> ?a" using cap(1) by (rule order.trans)
    have old: "block_ok (bm_max b) x \<and> bm_max b \<le> ?a" if "bm_data b = Some x" for x
      using assms(2) that max by (simp add: bm_ok_def)
    note r = realloc_block [OF assms(1) p(1) old]
    have len: "bm_length b \<le> bm_max b" using assms(2) by (auto simp: bm_ok_def split: option.splits)
    have "bm_bytes b' = bm_bytes b"
    proof (cases "bm_data b")
      case None
      then show ?thesis using assms(2) p(2) by (simp add: bm_bytes_def bm_ok_def)
    next
      case (Some x)
      then have "take (unat (bm_length b)) (bm_contents p) = take (unat (bm_length b)) (bm_contents x)"
        using arg_cong [OF conjunct1 [OF r(2) [OF _ Some]], of "take (unat (bm_length b))"] len by (simp add: word_le_nat_alt min_def)
      then show ?thesis using Some p(2) by (simp add: bm_bytes_def)
    qed
    then show ?thesis using p(2) r(1) order.trans [OF len max] cap(1) True(1) by (simp add: bm_ok_def)
  qed (use assms(2) in \<open>blast\<close>)+
  then show "bm_ok b'" "bm_bytes b' = bm_bytes b" "bm_length b' = bm_length b" "ok \<Longrightarrow> cap \<le> bm_max b'" "\<not> ok \<Longrightarrow> b' = b"
    by blast+
  show ok if pl: "plenty M" and "unat cap < 2 ^ 61"
  proof -
    have g: "\<not> cap + 3 < cap" unfolding overflow_test using that(2) by simp
    have n: "unat ((cap + 3) div 3) = (unat cap + 3) div 3" using that(2) by (simp add: unat_div unat_word_ariths)
    then have "unat ?a = (unat cap + 3) div 3 * 4" using that(2) by (simp add: unat_word_ariths)
    moreover have "unat (?a div 4) = unat ?a div 4" by (simp add: unat_div)
    ultimately have "?a div 4 = (cap + 3) div 3" "unat ?a < 2 ^ 62" using n that(2) by (simp_all add: word_unat_eq_iff)
    moreover obtain p f where "OPENSSL_realloc M (bm_data b) ?a = (Some p, f)"
      using realloc_plenty [OF pl] \<open>unat ?a < 2 ^ 62\<close> by blast
    ultimately have "fst (BUF_MEM_reserve M cap b)" using g by (simp add: BUF_MEM_reserve_def Let_def del: not_less)
    then show ok using assms(3) by simp
  qed
qed

datatype bm_call = Append "byte list" | Grow size_t | Reserve size_t

fun bm_exec :: "sys_malloc \<Rightarrow> bm_call \<Rightarrow> BUF_MEM \<Rightarrow> bool \<times> BUF_MEM" where
  "bm_exec M (Append data) b = BUF_MEM_append M data b"
| "bm_exec M (Grow n) b = (case BUF_MEM_grow M n b of (r, b') \<Rightarrow> (r = n, b'))"
| "bm_exec M (Reserve n) b = BUF_MEM_reserve M n b"

fun bm_spec :: "bm_call \<Rightarrow> byte list \<Rightarrow> byte list" where
  "bm_spec (Append data) xs = xs @ data"
| "bm_spec (Grow n) xs = take (unat n) xs @ replicate (unat n - length xs) 0"
| "bm_spec (Reserve n) xs = xs"

fun bm_size :: "bm_call \<Rightarrow> nat" where
  "bm_size (Append data) = length data"
| "bm_size (Grow n) = unat n"
| "bm_size (Reserve n) = unat n"

text \<open>Storing right behind the contents extends them.\<close>

lemma store_extends:
  assumes "bm_ok b" and "unat (bm_length b) + length data \<le> unat (bm_max b)" and "data \<noteq> []"
    and "unat len = unat (bm_length b) + length data"
  shows "bm_ok ((bm_store (unat (bm_length b)) data b)\<lparr>bm_length := len\<rparr>)"
    and "bm_bytes ((bm_store (unat (bm_length b)) data b)\<lparr>bm_length := len\<rparr>) = bm_bytes b @ data"
proof -
  obtain p where p: "bm_data b = Some p" "block_ok (bm_max b) p" "bm_length b \<le> bm_max b"
    using assms(1-3) by (cases "bm_data b") (auto simp: bm_ok_def)
  then show "bm_ok ((bm_store (unat (bm_length b)) data b)\<lparr>bm_length := len\<rparr>)"
    using assms(2,4) by (simp add: bm_ok_def bm_store_def block_ok_write word_le_nat_alt)
  have "unat (bm_length b) + length data + 8 \<le> length p" using p(2) assms(2) by (simp add: block_ok_def)
  then show "bm_bytes ((bm_store (unat (bm_length b)) data b)\<lparr>bm_length := len\<rparr>) = bm_bytes b @ data"
    using p(1,2) assms(2,4) length_contents [OF p(2)] by (simp add: bm_bytes_def bm_store_def put_at_def)
qed

lemma overflow_right: "a + l < l \<longleftrightarrow> 2 ^ 64 \<le> unat a + unat l" for a l :: size_t
  unfolding add.commute [of a l] add.commute [of "unat a" "unat l"] overflow_test by simp

lemma append_step:
  assumes "sys_malloc_ok M" and "bm_ok b" and "length data < 2 ^ 64" and "BUF_MEM_append M data b = (ok, b')"
  shows "bm_ok b' \<and> bm_bytes b' = (if ok then bm_bytes b @ data else bm_bytes b)"
    and "plenty M \<Longrightarrow> length (bm_bytes b) + length data < 2 ^ 61 \<Longrightarrow> ok"
proof -
  let ?len = "word_of_nat (length data) :: size_t"
  have l: "unat ?len = length data" using assms(3) by (simp add: unat_of_nat_small)
  have z: "?len = 0 \<longleftrightarrow> data = []"
  proof
    assume "?len = 0"
    then have "length data = unat (0 :: size_t)" using l by (simp only:)
    then show "data = []" by simp
  qed simp
  obtain ok1 b1 where r: "BUF_MEM_reserve M (bm_length b + ?len) b = (ok1, b1)" by fastforce
  note s = bm_reserve_step [OF assms(1,2) r]
  have wrap: "bm_length b + ?len < ?len \<longleftrightarrow> 2 ^ 64 \<le> unat (bm_length b) + length data"
    using overflow_right [of "bm_length b" ?len] unfolding l .
  show "bm_ok b' \<and> bm_bytes b' = (if ok then bm_bytes b @ data else bm_bytes b)"
  proof (cases "data \<noteq> [] \<and> ok")
    case True
    then have ok: "ok1" "\<not> bm_length b + ?len < ?len"
        "b' = (bm_store (unat (bm_length b1)) data b1)\<lparr>bm_length := bm_length b + ?len\<rparr>"
      using assms(4) r z by (auto simp: BUF_MEM_append_def Let_def split: if_splits bool.splits)
    have u: "unat (bm_length b + ?len) = unat (bm_length b) + length data"
      using ok(2) wrap l by (simp add: unat_word_ariths)
    show ?thesis
      using store_extends [OF s(1), of data "bm_length b + ?len"] s(2,3) s(4) [OF ok(1)] u True ok(3)
      by (simp add: word_le_nat_alt)
  next
    case False
    then show ?thesis
      using assms(2,4) s(1,2) z r by (auto simp: BUF_MEM_append_def Let_def split: if_splits bool.splits)
  qed
  show ok if "plenty M" "length (bm_bytes b) + length data < 2 ^ 61"
  proof -
    have "unat (bm_length b) + length data < 2 ^ 61" using that(2) bm_bytes_length [OF assms(2)] by simp
    then have "\<not> bm_length b + ?len < ?len" "unat (bm_length b + ?len) < 2 ^ 61"
      using wrap l by (simp_all add: unat_word_ariths)
    then show ok using s(6) that(1) assms(4) r by (auto simp: BUF_MEM_append_def Let_def split: if_splits bool.splits)
  qed
qed

lemma grow_step:
  assumes "sys_malloc_ok M" and "bm_ok b" and "BUF_MEM_grow M n b = (r, b')"
  shows "bm_ok b' \<and> bm_bytes b' = (if r = n then take (unat n) (bm_bytes b) @ replicate (unat n - length (bm_bytes b)) 0 else bm_bytes b)"
    and "plenty M \<Longrightarrow> unat n < 2 ^ 61 \<Longrightarrow> r = n"
proof -
  obtain ok1 b1 where r: "BUF_MEM_reserve M n b = (ok1, b1)" by fastforce
  note s = bm_reserve_step [OF assms(1,2) r]
  have len: "length (bm_bytes b) = unat (bm_length b)" by (rule bm_bytes_length [OF assms(2)])
  show "bm_ok b' \<and> bm_bytes b' = (if r = n then take (unat n) (bm_bytes b) @ replicate (unat n - length (bm_bytes b)) 0 else bm_bytes b)"
  proof (cases ok1)
    case False
    moreover have "n \<noteq> 0" using False r by (auto simp: BUF_MEM_reserve_def)
    ultimately show ?thesis using assms(3) r s(1,2) by (auto simp: BUF_MEM_grow_def)
  next
    case True
    have max: "unat n \<le> unat (bm_max b1)" using s(4) [OF True] by (simp add: word_le_nat_alt)
    show ?thesis
    proof (cases "bm_length b < n")
      case True
      then have lt: "unat (bm_length b) < unat n" by (simp add: word_less_nat_alt)
      then have u: "unat (n - bm_length b) = unat n - unat (bm_length b)" by (simp add: unat_sub_le word_le_nat_alt)
      have "r = n" "b' = (bm_store (unat (bm_length b1)) (replicate (unat n - unat (bm_length b)) 0) b1)\<lparr>bm_length := n\<rparr>"
        using assms(3) r \<open>ok1\<close> True s(3) u by (auto simp: BUF_MEM_grow_def Let_def)
      then show ?thesis
        using store_extends [OF s(1), of "replicate (unat n - unat (bm_length b)) 0" n] s(2,3) lt max len by simp
    next
      case False
      then have le: "unat n \<le> unat (bm_length b)" by (simp add: not_less word_le_nat_alt)
      have b': "r = n" "b' = b1\<lparr>bm_length := n\<rparr>"
        using assms(3) r \<open>ok1\<close> False s(3) by (auto simp: BUF_MEM_grow_def Let_def)
      then have "bm_ok b'" using s(1,3,4) \<open>ok1\<close> le by (auto simp: bm_ok_def word_le_nat_alt word_unat_eq_iff split: option.splits)
      moreover have "bm_bytes b' = take (unat n) (bm_bytes b1)"
        using b' s(3) le by (auto simp: bm_bytes_def min_def split: option.splits)
      ultimately show ?thesis using b'(1) s(2) le len by simp
    qed
  qed
  show "r = n" if "plenty M" "unat n < 2 ^ 61"
    using s(6) that assms(3) r by (auto simp: BUF_MEM_grow_def Let_def)
qed

lemma bm_step:
  assumes "sys_malloc_ok M" and "bm_ok b" and "bm_size c < 2 ^ 64" and "bm_exec M c b = (ok, b')"
  shows "bm_ok b'" and "bm_bytes b' = (if ok then bm_spec c (bm_bytes b) else bm_bytes b)"
    and "plenty M \<Longrightarrow> length (bm_bytes b) + bm_size c < 2 ^ 61 \<Longrightarrow> ok"
proof -
  have "bm_ok b' \<and> bm_bytes b' = (if ok then bm_spec c (bm_bytes b) else bm_bytes b) \<and>
    (plenty M \<and> length (bm_bytes b) + bm_size c < 2 ^ 61 \<longrightarrow> ok)"
  proof (cases c)
    case (Append data)
    then show ?thesis using append_step [OF assms(1,2), of data ok b'] assms(3,4) by simp
  next
    case (Grow n)
    then obtain r where r: "BUF_MEM_grow M n b = (r, b')" "ok = (r = n)" using assms(4) by (auto split: prod.splits)
    then show ?thesis using grow_step [OF assms(1,2) r(1)] Grow by simp
  next
    case (Reserve n)
    then show ?thesis using bm_reserve_step [OF assms(1,2), of n ok b'] assms(4) by simp
  qed
  then show "bm_ok b'" "bm_bytes b' = (if ok then bm_spec c (bm_bytes b) else bm_bytes b)"
    "plenty M \<Longrightarrow> length (bm_bytes b) + bm_size c < 2 ^ 61 \<Longrightarrow> ok" by blast+
qed

lemma bm_spec_size: "length (bm_spec c xs) \<le> length xs + bm_size c"
  by (cases c) simp_all

fun bm_run :: "sys_malloc \<Rightarrow> bm_call list \<Rightarrow> BUF_MEM \<Rightarrow> bool list \<times> BUF_MEM" where
  "bm_run M [] b = ([], b)"
| "bm_run M (c # cs) b = (case bm_exec M c b of (ok, b) \<Rightarrow> (case bm_run M cs b of (oks, b) \<Rightarrow> (ok # oks, b)))"

fun bm_spec_run :: "bm_call list \<Rightarrow> bool list \<Rightarrow> byte list \<Rightarrow> byte list" where
  "bm_spec_run (c # cs) (ok # oks) xs = bm_spec_run cs oks (if ok then bm_spec c xs else xs)"
| "bm_spec_run _ _ xs = xs"

lemma bm_run_refines:
  assumes "sys_malloc_ok M" and "bm_ok b" and "list_all (\<lambda>c. bm_size c < 2 ^ 64) cs" and "bm_run M cs b = (oks, b')"
  shows "length oks = length cs \<and> bm_ok b' \<and> bm_bytes b' = bm_spec_run cs oks (bm_bytes b) \<and>
    (plenty M \<and> length (bm_bytes b) + sum_list (map bm_size cs) < 2 ^ 61 \<longrightarrow> list_all id oks)"
  using assms(2-)
proof (induction cs arbitrary: b oks)
  case (Cons c cs)
  obtain ok b1 oks' where e: "bm_exec M c b = (ok, b1)" "bm_run M cs b1 = (oks', b')" "oks = ok # oks'"
    using Cons(4) by (auto split: prod.splits)
  have c: "bm_size c < 2 ^ 64" using Cons(3) by simp
  note s = bm_step [OF assms(1) Cons(2) c e(1)]
  note ih = Cons(1) [OF s(1) _ e(2)]
  have "length (bm_bytes b1) \<le> length (bm_bytes b) + bm_size c" using s(2) bm_spec_size by simp
  then show ?case using ih s(2,3) e(3) Cons(3) by auto
qed simp

text \<open>What is handed back to the system at the end.\<close>

lemma bm_free_clears: "bm_ok b \<Longrightarrow> BUF_MEM_free (Some b) = Some p \<Longrightarrow> set p \<subseteq> {0}"
proof -
  assume a: "bm_ok b" "BUF_MEM_free (Some b) = Some p"
  then obtain x where x: "bm_data b = Some x"
    by (cases "bm_data b") (simp_all add: BUF_MEM_free_def OPENSSL_free_def)
  then have "block_ok (bm_max b) x" using a(1) by (simp add: bm_ok_def)
  from free_clears [OF this] show ?thesis using a(2) x by (auto simp: BUF_MEM_free_def)
qed

text \<open>C30. A new buffer implements a list of bytes: after any calls of \<^verbatim>\<open>BUF_MEM_append\<close>, \<^verbatim>\<open>BUF_MEM_grow\<close> and
  \<^verbatim>\<open>BUF_MEM_reserve\<close>, of which any may fail, it is well-formed (its block has the size its header and \<^verbatim>\<open>max\<close> say) and
  holds what the successful calls make of the empty list, the failed ones having changed nothing. With enough memory no
  call fails, and the memory that is handed back at the end is zero.\<close>

theorem buf_mem_refines_bytes:
  assumes "sys_malloc_ok M" and "list_all (\<lambda>c. bm_size c < 2 ^ 64) cs"
    and "BUF_MEM_new True = Some b" and "bm_run M cs b = (oks, b')"
  shows "bm_ok b' \<and> length oks = length cs \<and> bm_bytes b' = bm_spec_run cs oks [] \<and>
    (plenty M \<and> sum_list (map bm_size cs) < 2 ^ 61 \<longrightarrow> list_all id oks) \<and>
    (\<forall>p. BUF_MEM_free (Some b') = Some p \<longrightarrow> set p \<subseteq> {0})"
proof -
  have "bm_ok b" "bm_bytes b = []" using assms(3) by (auto simp: BUF_MEM_new_def bm_ok_def bm_bytes_def)
  then show ?thesis using bm_run_refines [OF assms(1) _ assms(2,4)] bm_free_clears by auto
qed

theorem buf_mem_refines_bytes_witness:
  "\<exists>oks b'. bm_run (\<lambda>n. if unat n < 2 ^ 63 then Some (replicate (unat n) 7) else None)
      [Append [1, 2], Reserve 9, Grow 4, Append [3], Grow 1] \<lparr>bm_length = 0, bm_data = None, bm_max = 0\<rparr> = (oks, b') \<and>
    oks = [True, True, True, True, True] \<and> bm_bytes b' = [1]"
proof -
  let ?M = "\<lambda>n. if unat n < 2 ^ 63 then Some (replicate (unat n) (7 :: byte)) else None"
  let ?cs = "[Append [1, 2], Reserve 9, Grow 4, Append [3], Grow 1]"
  obtain oks b' where r: "bm_run ?M ?cs \<lparr>bm_length = 0, bm_data = None, bm_max = 0\<rparr> = (oks, b')" by fastforce
  have "sys_malloc_ok ?M" "plenty ?M" by (auto simp: sys_malloc_ok_def plenty_def)
  then have c: "length oks = length ?cs" "bm_bytes b' = bm_spec_run ?cs oks []" "list_all id oks"
    using buf_mem_refines_bytes [OF _ _ _ r] by (simp_all add: BUF_MEM_new_def)
  from c(1,3) have "oks = [True, True, True, True, True]"
    by (auto simp: length_Suc_conv)
  then show ?thesis using r c(2) by simp
qed

section \<open>Bounded strings\<close>

lemma strlen_string [simp]: "0 \<notin> set xs \<Longrightarrow> strlen (xs @ 0 # ys) = length xs"
  by (induction xs) (auto simp: strlen_def)

lemma put_at_one: "i < length xs \<Longrightarrow> xs[i := x] = put_at xs i [x]"
  by (simp add: put_at_def upd_conv_take_nth_drop)

lemma strlcpy_loop_run:
  assumes "0 \<notin> set xs" and "l \<le> length xs" and "l + n \<le> length dst"
  shows "strlcpy_loop dst (xs @ 0 # ys) n l =
    (let k = min (n - 1) (length xs - l) in (l + k, n - k, put_at dst l (take k (drop l xs))))"
  using assms(2,3)
proof (induction n arbitrary: dst l)
  case (Suc n)
  show ?case
  proof (cases "0 < n \<and> l < length xs")
    case True
    have nz: "xs ! l \<noteq> 0" using True assms(1) by (metis nth_mem)
    have hd: "drop l xs = xs ! l # drop (Suc l) xs" using True by (simp add: Cons_nth_drop_Suc)
    define k where "k = min (n - 1) (length xs - Suc l)"
    have k: "min n (length xs - l) = Suc k" unfolding k_def using True by linarith
    have k': "min (n - Suc 0) (length xs - Suc l) = k" by (simp add: k_def)
    have "put_at (dst[l := xs ! l]) (Suc l) (take k (drop (Suc l) xs)) = put_at dst l (take (Suc k) (drop l xs))"
    proof -
      have "l + length [xs ! l] + length (take k (drop (Suc l) xs)) \<le> length dst"
        using True Suc(3) by (simp add: k_def)
      from put_at_put_at [OF this] show ?thesis using True Suc(3) by (simp add: put_at_one hd)
    qed
    then show ?thesis
      using Suc(1) [of "Suc l" "dst[l := xs ! l]"] True Suc(2,3) nz k
      by (simp add: nth_append Let_def k')
  next
    case False
    then have "min n (length xs - l) = 0" by auto
    moreover have "(xs @ 0 # ys) ! l = 0" if "0 < n" using that False Suc(2) by (simp add: nth_append)
    ultimately show ?thesis by auto
  qed
qed (simp add: Let_def)

lemma strlcpy_string:
  assumes "0 \<notin> set xs" and "n \<le> length dst"
  shows "OPENSSL_strlcpy dst (xs @ 0 # ys) n =
    (length xs, if n = 0 then dst else put_at dst 0 (take (n - 1) xs @ [0]))"
proof -
  define k where "k = min (n - 1) (length xs)"
  have run: "strlcpy_loop dst (xs @ 0 # ys) n 0 = (k, n - k, put_at dst 0 (take (n - 1) xs))"
    using strlcpy_loop_run [OF assms(1), of 0 n dst ys] assms(2) by (simp add: Let_def k_def) (metis min.commute take_take take_all_iff order_refl)
  have k: "k \<le> length xs" "length (take (n - 1) xs) = k" by (simp_all add: k_def)
  have rest: "strlen (drop k (xs @ 0 # ys)) = length xs - k"
  proof -
    have "0 \<notin> set (drop k xs)" using assms(1) by (auto dest: in_set_dropD)
    from strlen_string [OF this, of ys] show ?thesis using k(1) by simp
  qed
  show ?thesis
  proof (cases "n = 0")
    case False
    then have lt: "k < n" by (simp add: k_def)
    then have "(put_at dst 0 (take (n - 1) xs))[k := 0] = put_at (put_at dst 0 (take (n - 1) xs)) (0 + length (take (n - 1) xs)) [0]"
      using assms(2) k(2) by (simp add: put_at_one)
    also have "\<dots> = put_at dst 0 (take (n - 1) xs @ [0])"
      by (rule put_at_put_at) (use assms(2) lt k(2) in simp)
    finally show ?thesis using False run rest k(1) lt by (simp add: OPENSSL_strlcpy_def)
  qed (use run rest k in \<open>simp add: OPENSSL_strlcpy_def k_def\<close>)
qed

lemma strlcat_loop_run:
  assumes "0 \<notin> set ws" and "l \<le> length ws"
  shows "strlcat_loop (ws @ 0 # zs) n l = (let k = min n (length ws - l) in (l + k, n - k))"
  using assms(2)
proof (induction n arbitrary: l)
  case (Suc n)
  show ?case
  proof (cases "l < length ws")
    case True
    then have "ws ! l \<noteq> 0" using assms(1) by (metis nth_mem)
    then show ?thesis using Suc(1) [of "Suc l"] True by (auto simp: nth_append Let_def min_def)
  qed (use Suc(2) in \<open>simp add: nth_append\<close>)
qed simp

text \<open>C17. The bounded string functions write the longest prefix that fits together with its terminating zero, touch no
  byte of the destination behind it, and return the length of the text they tried to make, so that a caller sees
  truncation; \<^verbatim>\<open>OPENSSL_strlcat\<close> leaves a destination alone that has no zero within its bound.\<close>

theorem bounded_strings_correct:
  assumes "0 \<notin> set xs" and "0 \<notin> set ws" and "n \<le> length (ws @ 0 # zs)"
  shows "OPENSSL_strlcpy (ws @ 0 # zs) (xs @ 0 # ys) n =
      (length xs, if n = 0 then ws @ 0 # zs else put_at (ws @ 0 # zs) 0 (take (n - 1) xs @ [0])) \<and>
    OPENSSL_strlcat (ws @ 0 # zs) (xs @ 0 # ys) n =
      (if n \<le> length ws then (n + length xs, ws @ 0 # zs)
       else (length ws + length xs, put_at (ws @ 0 # zs) 0 (take (n - 1) (ws @ xs) @ [0])))"
proof (rule conjI)
  show "OPENSSL_strlcpy (ws @ 0 # zs) (xs @ 0 # ys) n =
      (length xs, if n = 0 then ws @ 0 # zs else put_at (ws @ 0 # zs) 0 (take (n - 1) xs @ [0]))"
    by (rule strlcpy_string [OF assms(1,3)])
  have run: "strlcat_loop (ws @ 0 # zs) n 0 = (min n (length ws), n - length ws)"
    using strlcat_loop_run [OF assms(2), of 0 zs n] by (simp add: Let_def)
  show "OPENSSL_strlcat (ws @ 0 # zs) (xs @ 0 # ys) n =
      (if n \<le> length ws then (n + length xs, ws @ 0 # zs)
       else (length ws + length xs, put_at (ws @ 0 # zs) 0 (take (n - 1) (ws @ xs) @ [0])))"
  proof (cases "n \<le> length ws")
    case True
    have "OPENSSL_strlcpy d (xs @ 0 # ys) 0 = (length xs, d)" for d
      using strlcpy_string [OF assms(1), of 0 d ys] by simp
    then show ?thesis using True run by (simp add: OPENSSL_strlcat_def)
  next
    case False
    have "OPENSSL_strlcpy (0 # zs) (xs @ 0 # ys) (n - length ws) =
        (length xs, put_at (0 # zs) 0 (take (n - length ws - 1) xs @ [0]))"
      using strlcpy_string [OF assms(1), of "n - length ws" "0 # zs" ys] assms(3) False by simp
    moreover have "put_at (ws @ 0 # zs) 0 (take (n - 1) (ws @ xs) @ [0]) =
        ws @ put_at (0 # zs) 0 (take (n - length ws - 1) xs @ [0])"
      using False by (simp add: put_at_def diff_commute)
    ultimately show ?thesis using False run by (simp add: OPENSSL_strlcat_def)
  qed
qed

theorem bounded_strings_correct_witness:
  "OPENSSL_strlcat [0x61, 0x62, 0, 9, 9, 9] [0x63, 0x64, 0] 4 = (4, [0x61, 0x62, 0x63, 0, 9, 9])"
  using bounded_strings_correct [of "[0x63, 0x64]" "[0x61, 0x62]" 4 "[9, 9, 9]" "[]"]
  by (simp add: put_at_def)

lemma strnlen_string: "OPENSSL_strnlen s n = min n (strlen s)" if "n \<le> length s"
proof -
  have "mem_strnlen_loop s n i = min (i + n) (i + strlen (drop i s))" if "i + n \<le> length s" for i
    using that
  proof (induction n arbitrary: i)
    case (Suc n)
    then have "drop i s = s ! i # drop (Suc i) s" by (simp add: Cons_nth_drop_Suc)
    then show ?case using Suc(1) [of "Suc i"] Suc(2) by (auto simp: strlen_def)
  qed simp
  then show ?thesis using that by (simp add: OPENSSL_strnlen_def)
qed

text \<open>Copies of a string.\<close>

lemma strdup_string:
  assumes "sys_malloc_ok M" and "0 \<notin> set xs" and "length xs + 1 < 2 ^ 64"
    and "OPENSSL_strdup M (Some (xs @ 0 # ys)) = Some p"
  shows "bm_contents p = xs @ [0]"
proof -
  let ?n = "word_of_nat (length xs + 1) :: size_t"
  obtain q where q: "OPENSSL_malloc M ?n = Some q" "p = write_at q 0 (xs @ [0])"
    using assms(2,4) by (auto simp: OPENSSL_strdup_def split: option.splits)
  have u: "unat ?n = length xs + 1" using assms(3) by (intro unat_of_nat_small) simp
  note b = malloc_block [OF assms(1) q(1)]
  then have "length q = length xs + 1 + 8" unfolding block_ok_def u by simp
  moreover have "length (bm_contents q) = length xs + 1" using length_contents [OF b] u by simp
  ultimately show ?thesis using q(2) by (simp add: put_at_def)
qed

lemma strcasecmp_string:
  assumes "0 \<notin> set xs" and "0 \<notin> set ys"
  shows "OPENSSL_strcasecmp (xs @ 0 # zs) (ys @ 0 # ws) = 0 \<longleftrightarrow>
    map (OPENSSL_tolower \<circ> sint) xs = map (OPENSSL_tolower \<circ> sint) ys"
proof -
  have nz: "OPENSSL_tolower (sint x) \<noteq> 0" if "x \<noteq> 0" for x :: byte
    using that signed_word_eqI [of x 0] by (auto simp: OPENSSL_tolower_def)
  have z: "OPENSSL_tolower 0 = 0" by (simp add: OPENSSL_tolower_def)
  show ?thesis using assms
  proof (induction xs arbitrary: ys)
    case Nil
    then show ?case using nz [of "hd ys"] by (cases ys) (auto simp: Let_def z)
  next
    case (Cons x xs)
    then show ?case using nz [of x] by (cases ys) (auto simp: Let_def z)
  qed
qed

end
