(* ===== verification/Poly1305.thy ===== *)
theory Poly1305
  imports Prelude
begin

text \<open>
  BoringSSL's portable one-time authenticator (crypto/poly1305/poly1305.c), as it is compiled for the platform, and what it
  is to compute. The accumulator and the multiplier are five digits of 26 bits. \<^verbatim>\<open>poly1305_state\<close> is aligned memory for the
  record below; its buffer has any content at first.
\<close>

section \<open>The code\<close>

definition U8TO32_LE :: "byte list \<Rightarrow> uint32" where
  "U8TO32_LE m = load32_le m"

definition U32TO8_LE :: "uint32 \<Rightarrow> byte list" where
  "U32TO8_LE v = store32_le v"

definition mul32x32_64 :: "uint32 \<Rightarrow> uint32 \<Rightarrow> uint64" where
  "mul32x32_64 a b = ucast a * ucast b"

record poly1305_state_st =
  st_r0 :: uint32
  st_r1 :: uint32
  st_r2 :: uint32
  st_r3 :: uint32
  st_r4 :: uint32
  st_s1 :: uint32
  st_s2 :: uint32
  st_s3 :: uint32
  st_s4 :: uint32
  st_h0 :: uint32
  st_h1 :: uint32
  st_h2 :: uint32
  st_h3 :: uint32
  st_h4 :: uint32
  st_buf :: "byte list"
  st_used :: size_t
  st_key :: "byte list"

text \<open>Adding sixteen bytes to the accumulator; \<open>hi\<close> is the bit behind them, or 0 for the padded last block.\<close>

definition poly1305_add_block :: "byte list \<Rightarrow> uint32 \<Rightarrow> poly1305_state_st \<Rightarrow> poly1305_state_st" where
  "poly1305_add_block inp hi st =
     (let t0 = U8TO32_LE inp; t1 = U8TO32_LE (drop 4 inp); t2 = U8TO32_LE (drop 8 inp); t3 = U8TO32_LE (drop 12 inp)
      in st\<lparr>st_h0 := st_h0 st + (t0 AND 0x3ffffff),
            st_h1 := st_h1 st + ucast (drop_bit 26 (push_bit 32 (ucast t1) OR ucast t0 :: uint64) AND 0x3ffffff),
            st_h2 := st_h2 st + ucast (drop_bit 20 (push_bit 32 (ucast t2) OR ucast t1 :: uint64) AND 0x3ffffff),
            st_h3 := st_h3 st + ucast (drop_bit 14 (push_bit 32 (ucast t3) OR ucast t2 :: uint64) AND 0x3ffffff),
            st_h4 := st_h4 st + (drop_bit 8 t3 OR hi)\<rparr>)"

text \<open>From the label \<^verbatim>\<open>poly1305_donna_mul\<close> on: multiply by \<open>r\<close> and carry.\<close>

definition poly1305_donna_mul :: "poly1305_state_st \<Rightarrow> poly1305_state_st" where
  "poly1305_donna_mul st =
     (let t0 = mul32x32_64 (st_h0 st) (st_r0 st) + mul32x32_64 (st_h1 st) (st_s4 st) + mul32x32_64 (st_h2 st) (st_s3 st) +
               mul32x32_64 (st_h3 st) (st_s2 st) + mul32x32_64 (st_h4 st) (st_s1 st);
          t1 = mul32x32_64 (st_h0 st) (st_r1 st) + mul32x32_64 (st_h1 st) (st_r0 st) + mul32x32_64 (st_h2 st) (st_s4 st) +
               mul32x32_64 (st_h3 st) (st_s3 st) + mul32x32_64 (st_h4 st) (st_s2 st);
          t2 = mul32x32_64 (st_h0 st) (st_r2 st) + mul32x32_64 (st_h1 st) (st_r1 st) + mul32x32_64 (st_h2 st) (st_r0 st) +
               mul32x32_64 (st_h3 st) (st_s4 st) + mul32x32_64 (st_h4 st) (st_s3 st);
          t3 = mul32x32_64 (st_h0 st) (st_r3 st) + mul32x32_64 (st_h1 st) (st_r2 st) + mul32x32_64 (st_h2 st) (st_r1 st) +
               mul32x32_64 (st_h3 st) (st_r0 st) + mul32x32_64 (st_h4 st) (st_s4 st);
          t4 = mul32x32_64 (st_h0 st) (st_r4 st) + mul32x32_64 (st_h1 st) (st_r3 st) + mul32x32_64 (st_h2 st) (st_r2 st) +
               mul32x32_64 (st_h3 st) (st_r1 st) + mul32x32_64 (st_h4 st) (st_r0 st);
          h0 = (ucast t0 :: uint32) AND 0x3ffffff; c = drop_bit 26 t0; t1 = t1 + c;
          h1 = (ucast t1 :: uint32) AND 0x3ffffff; b = (ucast (drop_bit 26 t1) :: uint32); t2 = t2 + ucast b;
          h2 = (ucast t2 :: uint32) AND 0x3ffffff; b = (ucast (drop_bit 26 t2) :: uint32); t3 = t3 + ucast b;
          h3 = (ucast t3 :: uint32) AND 0x3ffffff; b = (ucast (drop_bit 26 t3) :: uint32); t4 = t4 + ucast b;
          h4 = (ucast t4 :: uint32) AND 0x3ffffff; b = (ucast (drop_bit 26 t4) :: uint32)
      in st\<lparr>st_h0 := h0 + b * 5, st_h1 := h1, st_h2 := h2, st_h3 := h3, st_h4 := h4\<rparr>)"

function poly1305_update :: "poly1305_state_st \<Rightarrow> byte list \<Rightarrow> poly1305_state_st" where
  "poly1305_update st inp =
     (if length inp \<ge> 16
      then poly1305_update (poly1305_donna_mul (poly1305_add_block inp (push_bit 24 1) st)) (drop 16 inp)
      else if inp = [] then st
      else (let mp = inp @ [1] @ replicate (15 - length inp) 0
            in poly1305_donna_mul (poly1305_add_block mp 0 st)))"
  by pat_completeness auto
termination by (relation "measure (\<lambda>(st, inp). length inp)") auto

declare poly1305_update.simps [simp del]

text \<open>What is in the buffer before is left there.\<close>

definition CRYPTO_poly1305_init :: "poly1305_state_st \<Rightarrow> byte list \<Rightarrow> poly1305_state_st" where
  "CRYPTO_poly1305_init st key =
     (let t0 = U8TO32_LE key; t1 = U8TO32_LE (drop 4 key); t2 = U8TO32_LE (drop 8 key); t3 = U8TO32_LE (drop 12 key);
          r0 = t0 AND 0x3ffffff;
          t0 = drop_bit 26 t0; t0 = t0 OR push_bit 6 t1; r1 = t0 AND 0x3ffff03;
          t1 = drop_bit 20 t1; t1 = t1 OR push_bit 12 t2; r2 = t1 AND 0x3ffc0ff;
          t2 = drop_bit 14 t2; t2 = t2 OR push_bit 18 t3; r3 = t2 AND 0x3f03fff;
          t3 = drop_bit 8 t3; r4 = t3 AND 0x00fffff
      in st\<lparr>st_r0 := r0, st_r1 := r1, st_r2 := r2, st_r3 := r3, st_r4 := r4,
            st_s1 := r1 * 5, st_s2 := r2 * 5, st_s3 := r3 * 5, st_s4 := r4 * 5,
            st_h0 := 0, st_h1 := 0, st_h2 := 0, st_h3 := 0, st_h4 := 0,
            st_used := 0, st_key := take 16 (drop 16 key)\<rparr>)"

text \<open>The three steps of \<^verbatim>\<open>CRYPTO_poly1305_update\<close>: fill the buffer up, process whole blocks, keep the rest.\<close>

definition poly1305_fill :: "poly1305_state_st \<Rightarrow> byte list \<Rightarrow> size_t \<Rightarrow> poly1305_state_st \<times> byte list \<times> size_t" where
  "poly1305_fill st inp in_len =
     (if st_used st \<noteq> 0
      then (let todo = 16 - st_used st; todo = (if todo > in_len then in_len else todo);
                st = st\<lparr>st_buf := put_at (st_buf st) (unat (st_used st)) (take (unat todo) inp), st_used := st_used st + todo\<rparr>;
                st = (if st_used st = 16 then (poly1305_update st (take 16 (st_buf st)))\<lparr>st_used := 0\<rparr> else st)
            in (st, drop (unat todo) inp, in_len - todo))
      else (st, inp, in_len))"

definition poly1305_whole :: "poly1305_state_st \<Rightarrow> byte list \<Rightarrow> size_t \<Rightarrow> poly1305_state_st \<times> byte list \<times> size_t" where
  "poly1305_whole st inp in_len =
     (if in_len \<ge> 16
      then (let todo = in_len AND NOT 0xf
            in (poly1305_update st (take (unat todo) inp), drop (unat todo) inp, in_len AND 0xf))
      else (st, inp, in_len))"

definition CRYPTO_poly1305_update :: "poly1305_state_st \<Rightarrow> byte list \<Rightarrow> poly1305_state_st" where
  "CRYPTO_poly1305_update st inp =
     (case poly1305_fill st inp (word_of_nat (length inp)) of
        (st, inp, in_len) \<Rightarrow>
          (case poly1305_whole st inp in_len of
             (st, inp, in_len) \<Rightarrow>
               if in_len \<noteq> 0 then st\<lparr>st_buf := put_at (st_buf st) 0 (take (unat in_len) inp), st_used := in_len\<rparr> else st))"

text \<open>The carries and the subtraction of the prime that \<^verbatim>\<open>CRYPTO_poly1305_finish\<close> begins with.\<close>

definition poly1305_carry :: "poly1305_state_st \<Rightarrow> poly1305_state_st" where
  "poly1305_carry st =
     (let b = drop_bit 26 (st_h0 st); h0 = st_h0 st AND 0x3ffffff; h1 = st_h1 st + b;
          b = drop_bit 26 h1; h1 = h1 AND 0x3ffffff; h2 = st_h2 st + b;
          b = drop_bit 26 h2; h2 = h2 AND 0x3ffffff; h3 = st_h3 st + b;
          b = drop_bit 26 h3; h3 = h3 AND 0x3ffffff; h4 = st_h4 st + b;
          b = drop_bit 26 h4; h4 = h4 AND 0x3ffffff; h0 = h0 + b * 5
      in st\<lparr>st_h0 := h0, st_h1 := h1, st_h2 := h2, st_h3 := h3, st_h4 := h4\<rparr>)"

definition poly1305_reduce :: "poly1305_state_st \<Rightarrow> poly1305_state_st" where
  "poly1305_reduce st =
     (let g0 = st_h0 st + 5; b = drop_bit 26 g0; g0 = g0 AND 0x3ffffff;
          g1 = st_h1 st + b; b = drop_bit 26 g1; g1 = g1 AND 0x3ffffff;
          g2 = st_h2 st + b; b = drop_bit 26 g2; g2 = g2 AND 0x3ffffff;
          g3 = st_h3 st + b; b = drop_bit 26 g3; g3 = g3 AND 0x3ffffff;
          g4 = st_h4 st + b - push_bit 26 1;
          b = drop_bit 31 g4 - 1; nb = NOT b
      in st\<lparr>st_h0 := (st_h0 st AND nb) OR (g0 AND b), st_h1 := (st_h1 st AND nb) OR (g1 AND b),
            st_h2 := (st_h2 st AND nb) OR (g2 AND b), st_h3 := (st_h3 st AND nb) OR (g3 AND b),
            st_h4 := (st_h4 st AND nb) OR (g4 AND b)\<rparr>)"

text \<open>The last part: the four words of the tag.\<close>

definition poly1305_tag :: "poly1305_state_st \<Rightarrow> byte list" where
  "poly1305_tag st =
     (let f0 = ucast (st_h0 st OR push_bit 26 (st_h1 st)) + (ucast (U8TO32_LE (st_key st)) :: uint64);
          f1 = ucast (drop_bit 6 (st_h1 st) OR push_bit 20 (st_h2 st)) + (ucast (U8TO32_LE (drop 4 (st_key st))) :: uint64);
          f2 = ucast (drop_bit 12 (st_h2 st) OR push_bit 14 (st_h3 st)) + (ucast (U8TO32_LE (drop 8 (st_key st))) :: uint64);
          f3 = ucast (drop_bit 18 (st_h3 st) OR push_bit 8 (st_h4 st)) + (ucast (U8TO32_LE (drop 12 (st_key st))) :: uint64);
          f1' = f1 + drop_bit 32 f0;
          f2' = f2 + drop_bit 32 f1';
          f3' = f3 + drop_bit 32 f2'
      in U32TO8_LE (ucast f0) @ U32TO8_LE (ucast f1') @ U32TO8_LE (ucast f2') @ U32TO8_LE (ucast f3'))"

definition CRYPTO_poly1305_finish :: "poly1305_state_st \<Rightarrow> byte list" where
  "CRYPTO_poly1305_finish st =
     (let st = (if st_used st \<noteq> 0 then poly1305_update st (take (unat (st_used st)) (st_buf st)) else st)
      in poly1305_tag (poly1305_reduce (poly1305_carry st)))"

definition poly1305_mac :: "poly1305_state_st \<Rightarrow> byte list \<Rightarrow> byte list list \<Rightarrow> byte list" where
  "poly1305_mac st key chunks = CRYPTO_poly1305_finish (foldl CRYPTO_poly1305_update (CRYPTO_poly1305_init st key) chunks)"

section \<open>The polynomial\<close>

abbreviation (input) poly_p :: nat where "poly_p \<equiv> 2 ^ 130 - 5"

definition poly_r :: "byte list \<Rightarrow> nat" where
  "poly_r key = le_nat (take 16 key) AND 0x0ffffffc0ffffffc0ffffffc0fffffff"

function poly_acc :: "nat \<Rightarrow> nat \<Rightarrow> byte list \<Rightarrow> nat" where
  "poly_acc r a msg =
     (if msg = [] then a else poly_acc r ((a + le_nat (take 16 msg @ [1])) * r mod poly_p) (drop 16 msg))"
  by pat_completeness auto
termination by (relation "measure (\<lambda>(r, a, msg). length msg)") auto

declare poly_acc.simps [simp del]

definition poly1305_spec :: "byte list \<Rightarrow> byte list \<Rightarrow> nat" where
  "poly1305_spec key msg = (poly_acc (poly_r key) 0 msg + le_nat (take 16 (drop 16 key))) mod 2 ^ 128"

end
