(* ===== verification/Poly1305Digits.thy ===== *)
theory Poly1305Digits
  imports Poly1305
begin

text \<open>
  The arithmetic of the accumulator: no sum of products leaves 64 bits and no carry its word, and a step multiplies by \<open>r\<close>
  modulo the prime. Then blocks and buffering: however the data is cut into pieces, the accumulator holds the polynomial of
  the whole blocks and the buffer the rest (\<open>absorbed\<close>).
\<close>

section \<open>Words and numbers\<close>

lemma le_nat_bound: "le_nat bs < 256 ^ length bs"
proof (induction bs)
  case (Cons b bs)
  have "unat b < 256" using unat_lt [of b] by simp
  then show ?case using Cons by simp
qed simp

lemma le_nat_append [simp]: "le_nat (xs @ ys) = le_nat xs + 256 ^ length xs * le_nat ys"
  by (induction xs) (simp_all add: algebra_simps)

lemma le_nat_zeros [simp]: "le_nat (replicate n 0) = 0"
  by (induction n) simp_all

lemma unat_le_fold:
  "length xs \<le> 4 \<Longrightarrow> unat (foldr (\<lambda>b acc. ucast b + 0x100 * acc) xs (0 :: uint32)) = le_nat xs"
proof (induction xs)
  case (Cons b xs)
  let ?acc = "foldr (\<lambda>b acc. ucast b + 0x100 * acc) xs (0 :: uint32)"
  have b: "unat b < 256" using unat_lt [of b] by simp
  have "le_nat xs < 256 ^ 3" using le_nat_bound [of xs] power_increasing [of "length xs" 3 "256::nat"] Cons(2) by simp
  then have "unat b + 256 * unat ?acc < 2 ^ 32" using b Cons by simp
  then show ?case using Cons b by (simp add: unat_word_ariths unat_ucast_up)
qed simp

lemma unat_U8TO32 [simp]: "unat (U8TO32_LE m) = le_nat (take 4 m)"
  unfolding U8TO32_LE_def load32_le_def by (rule unat_le_fold) simp

text \<open>The four words of sixteen bytes.\<close>

lemma le_nat_16:
  assumes "length m \<ge> 16"
  shows "le_nat (take 16 m) = le_nat (take 4 m) + 2 ^ 32 * le_nat (take 4 (drop 4 m)) + 2 ^ 64 * le_nat (take 4 (drop 8 m)) +
    2 ^ 96 * le_nat (take 4 (drop 12 m))"
proof -
  have "take 16 m = take 4 m @ take 4 (drop 4 m) @ take 4 (drop 8 m) @ take 4 (drop 12 m)"
    using take_add [of 4 12 m] take_add [of 4 8 "drop 4 m"] take_add [of 4 4 "drop 8 m"] by simp
  then show ?thesis using assms by simp
qed

lemma and_26: "(x :: 'a::len word) AND 0x3ffffff = take_bit 26 x"
  by (simp add: take_bit_eq_mask mask_eq_exp_minus_1)

lemma unat_and_26 [simp]: "unat ((x :: 'a::len word) AND 0x3ffffff) = unat x mod 2 ^ 26"
  unfolding and_26 by (rule unat_take_bit)

text \<open>Joining disjoint fields.\<close>

lemma unat_or_push:
  fixes a b :: "'a::len word"
  assumes "unat a < 2 ^ k" and "unat b * 2 ^ k + unat a < 2 ^ LENGTH('a)"
  shows "unat (a OR push_bit k b) = unat a + 2 ^ k * unat b"
proof -
  have small: "n < k" if "bit a n" for n
    using that take_bit_small [OF assms(1)] by (metis bit_take_bit_iff)
  have "a AND push_bit k b = 0"
    by (rule bit_eqI) (auto simp: bit_simps dest!: small)
  then have or: "a OR push_bit k b = a + push_bit k b" by (simp add: disjunctive_add_eq_or)
  have "unat (push_bit k b) = 2 ^ k * unat b"
  proof -
    have "unat b * 2 ^ k < 2 ^ LENGTH('a)" using assms(2) by linarith
    then show ?thesis by (subst unsigned_push_bit_eq) (simp only: push_bit_eq_mult take_bit_eq_mod mod_less mult.commute)
  qed
  then show ?thesis using assms(2) or by (simp add: unat_word_ariths mult.commute)
qed

section \<open>The accumulator\<close>

definition acc_of :: "poly1305_state_st \<Rightarrow> nat" where
  "acc_of st = unat (st_h0 st) + 2 ^ 26 * unat (st_h1 st) + 2 ^ 52 * unat (st_h2 st) + 2 ^ 78 * unat (st_h3 st) +
    2 ^ 104 * unat (st_h4 st)"

definition r_of :: "poly1305_state_st \<Rightarrow> nat" where
  "r_of st = unat (st_r0 st) + 2 ^ 26 * unat (st_r1 st) + 2 ^ 52 * unat (st_r2 st) + 2 ^ 78 * unat (st_r3 st) +
    2 ^ 104 * unat (st_r4 st)"

text \<open>The multiplier is set up, and the digits are small: after a carry, and after adding a block.\<close>

definition r_ok :: "poly1305_state_st \<Rightarrow> bool" where
  "r_ok st \<longleftrightarrow> unat (st_r0 st) < 2 ^ 26 \<and> unat (st_r1 st) < 2 ^ 26 \<and> unat (st_r2 st) < 2 ^ 26 \<and> unat (st_r3 st) < 2 ^ 26 \<and>
    unat (st_r4 st) < 2 ^ 20 \<and> st_s1 st = st_r1 st * 5 \<and> st_s2 st = st_r2 st * 5 \<and> st_s3 st = st_r3 st * 5 \<and>
    st_s4 st = st_r4 st * 5"

definition h_ok :: "poly1305_state_st \<Rightarrow> bool" where
  "h_ok st \<longleftrightarrow> unat (st_h0 st) < 42 * 2 ^ 26 \<and> unat (st_h1 st) < 2 ^ 26 \<and> unat (st_h2 st) < 2 ^ 26 \<and>
    unat (st_h3 st) < 2 ^ 26 \<and> unat (st_h4 st) < 2 ^ 26"

definition h_added :: "poly1305_state_st \<Rightarrow> bool" where
  "h_added st \<longleftrightarrow> unat (st_h0 st) < 43 * 2 ^ 26 \<and> unat (st_h1 st) < 2 ^ 27 \<and> unat (st_h2 st) < 2 ^ 27 \<and>
    unat (st_h3 st) < 2 ^ 27 \<and> unat (st_h4 st) < 3 * 2 ^ 25"

lemma unat_plus: "unat a + unat b < 2 ^ LENGTH('a) \<Longrightarrow> unat (a + b :: 'a::len word) = unat a + unat b"
  by (rule unat_add_no_wrap)

text \<open>The 26 bits from position \<open>26 * i\<close> of the block, as the code takes them out of two neighbouring words.\<close>

lemma unat_window:
  fixes x y :: uint32
  assumes "26 + k \<le> 64"
  shows "unat (ucast (drop_bit k (push_bit 32 (ucast y) OR ucast x :: uint64) AND 0x3ffffff) :: uint32) =
    (unat x + 2 ^ 32 * unat y) div 2 ^ k mod 2 ^ 26"
proof -
  let ?w = "push_bit 32 (ucast y) OR ucast x :: uint64"
  have x: "unat x < 2 ^ 32" and y: "unat y < 2 ^ 32" using unat_lt [of x] unat_lt [of y] by simp_all
  have "unat (ucast x OR push_bit 32 (ucast y) :: uint64) = unat x + 2 ^ 32 * unat y"
    using unat_or_push [of "ucast x :: uint64" 32 "ucast y"] x y by (simp add: unat_ucast_up)
  then have w: "unat ?w = unat x + 2 ^ 32 * unat y" by (simp add: or.commute)
  let ?v = "drop_bit k ?w AND 0x3ffffff"
  have v: "unat ?v = (unat x + 2 ^ 32 * unat y) div 2 ^ k mod 2 ^ 26"
    by (simp only: unat_and_26 unat_drop_bit w)
  have "unat (ucast ?v :: uint32) = unat ?v mod 2 ^ 32" by (simp add: unsigned_ucast_eq take_bit_eq_mod)
  also have "\<dots> = unat ?v" by (rule mod_less) (use v in \<open>simp add: order_less_trans [OF mod_less_divisor]\<close>)
  finally show ?thesis using v by simp
qed

lemma nat_div_mod_26: "(x::nat) = x mod 2 ^ 26 + 2 ^ 26 * (x div 2 ^ 26)"
  by simp

lemma digits_26:
  fixes a b c d :: nat
  assumes "a < 2 ^ 32" and "b < 2 ^ 32" and "c < 2 ^ 32" and "d < 2 ^ 32"
  shows "a mod 2 ^ 26 + 2 ^ 26 * ((a + 2 ^ 32 * b) div 2 ^ 26 mod 2 ^ 26) + 2 ^ 52 * ((b + 2 ^ 32 * c) div 2 ^ 20 mod 2 ^ 26) +
    2 ^ 78 * ((c + 2 ^ 32 * d) div 2 ^ 14 mod 2 ^ 26) + 2 ^ 104 * (d div 2 ^ 8) =
    a + 2 ^ 32 * b + 2 ^ 64 * c + 2 ^ 96 * d"
proof -
  define a0 a1 b0 b1 c0 c1 d0 d1 where "a0 = a mod 2 ^ 26" and "a1 = a div 2 ^ 26" and "b0 = b mod 2 ^ 20" and "b1 = b div 2 ^ 20"
    and "c0 = c mod 2 ^ 14" and "c1 = c div 2 ^ 14" and "d0 = d mod 2 ^ 8" and "d1 = d div 2 ^ 8"
  note defs = this
  have eqs: "a = a0 + 2 ^ 26 * a1" "b = b0 + 2 ^ 20 * b1" "c = c0 + 2 ^ 14 * c1" "d = d0 + 2 ^ 8 * d1"
    unfolding defs by simp_all
  have lt: "a0 < 2 ^ 26" "a1 < 2 ^ 6" "b0 < 2 ^ 20" "b1 < 2 ^ 12" "c0 < 2 ^ 14" "c1 < 2 ^ 18" "d0 < 2 ^ 8"
    using assms unfolding defs by (simp_all add: less_mult_imp_div_less)
  have "(a + 2 ^ 32 * b) div 2 ^ 26 = a1 + 2 ^ 6 * b0 + 2 ^ 26 * b1"
    unfolding eqs(1,2) using lt by simp
  then have 1: "(a + 2 ^ 32 * b) div 2 ^ 26 mod 2 ^ 26 = a1 + 2 ^ 6 * b0" using lt by simp
  have "(b + 2 ^ 32 * c) div 2 ^ 20 = b1 + 2 ^ 12 * c0 + 2 ^ 26 * c1"
    unfolding eqs(2,3) using lt by simp
  then have 2: "(b + 2 ^ 32 * c) div 2 ^ 20 mod 2 ^ 26 = b1 + 2 ^ 12 * c0" using lt by simp
  have "(c + 2 ^ 32 * d) div 2 ^ 14 = c1 + 2 ^ 18 * d0 + 2 ^ 26 * d1"
    unfolding eqs(3,4) using lt by simp
  then have 3: "(c + 2 ^ 32 * d) div 2 ^ 14 mod 2 ^ 26 = c1 + 2 ^ 18 * d0" using lt by simp
  show ?thesis
    unfolding 1 2 3 a0_def [symmetric] d1_def [symmetric] by (simp add: eqs)
qed

lemma add_digits:
  fixes D0 D1 D2 D3 D4 N e :: nat
  assumes "D0 + 2 ^ 26 * D1 + 2 ^ 52 * D2 + 2 ^ 78 * D3 + 2 ^ 104 * D4 = N"
  shows "(x0 + D0) + 2 ^ 26 * (x1 + D1) + 2 ^ 52 * (x2 + D2) + 2 ^ 78 * (x3 + D3) + 2 ^ 104 * (x4 + (D4 + e)) =
    (x0 + 2 ^ 26 * x1 + 2 ^ 52 * x2 + 2 ^ 78 * x3 + 2 ^ 104 * x4) + N + 2 ^ 104 * e"
  unfolding assms [symmetric] by (simp add: algebra_simps)

lemma add_block:
  assumes len: "length inp \<ge> 16" and h: "h_ok st" and hi: "unat hi \<le> 2 ^ 24" "hi = 0 \<or> hi = push_bit 24 1"
  shows "acc_of (poly1305_add_block inp hi st) = acc_of st + le_nat (take 16 inp) + 2 ^ 104 * unat hi"
    and "h_added (poly1305_add_block inp hi st)"
proof -
  define a b c d where "a = le_nat (take 4 inp)" and "b = le_nat (take 4 (drop 4 inp))" and "c = le_nat (take 4 (drop 8 inp))"
    and "d = le_nat (take 4 (drop 12 inp))"
  note defs = this
  have lt: "a < 2 ^ 32" "b < 2 ^ 32" "c < 2 ^ 32" "d < 2 ^ 32"
    unfolding defs using le_nat_bound [of "take 4 _"] len by (auto intro: order_less_le_trans [OF le_nat_bound])
  let ?t0 = "U8TO32_LE inp" and ?t1 = "U8TO32_LE (drop 4 inp)" and ?t2 = "U8TO32_LE (drop 8 inp)" and ?t3 = "U8TO32_LE (drop 12 inp)"
  have t: "unat ?t0 = a" "unat ?t1 = b" "unat ?t2 = c" "unat ?t3 = d" by (simp_all add: defs)
  let ?st = "poly1305_add_block inp hi st"
  note hb = h [unfolded h_ok_def]
  have w1: "unat (ucast (drop_bit 26 (push_bit 32 (ucast ?t1) OR ucast ?t0 :: uint64) AND 0x3ffffff) :: uint32) = (a + 2 ^ 32 * b) div 2 ^ 26 mod 2 ^ 26"
    and w2: "unat (ucast (drop_bit 20 (push_bit 32 (ucast ?t2) OR ucast ?t1 :: uint64) AND 0x3ffffff) :: uint32) = (b + 2 ^ 32 * c) div 2 ^ 20 mod 2 ^ 26"
    and w3: "unat (ucast (drop_bit 14 (push_bit 32 (ucast ?t3) OR ucast ?t2 :: uint64) AND 0x3ffffff) :: uint32) = (c + 2 ^ 32 * d) div 2 ^ 14 mod 2 ^ 26"
    by (subst unat_window; simp only: t)+
  have d8: "unat (drop_bit 8 ?t3) = d div 2 ^ 8" "d div 2 ^ 8 < 2 ^ 24"
    using lt(4) by (simp_all only: unat_drop_bit t) (simp add: less_mult_imp_div_less)
  have w4: "unat (drop_bit 8 ?t3 OR hi) = d div 2 ^ 8 + unat hi"
    using hi(2)
  proof
    assume "hi = push_bit 24 1"
    moreover have "unat (drop_bit 8 ?t3 OR push_bit 24 1) = d div 2 ^ 8 + 2 ^ 24 * unat (1 :: uint32)"
      using unat_or_push [of "drop_bit 8 ?t3" 24 1] d8 by simp
    ultimately show ?thesis by simp
  qed (use d8 in simp)
  have sum: "unat (x + y) = unat x + z" if "unat x < 42 * 2 ^ 26" "unat y = z" "z < 3 * 2 ^ 25" for x y :: uint32 and z
    using unat_plus [of x y] that by simp
  have sel: "st_h0 ?st = st_h0 st + (?t0 AND 0x3ffffff)"
    "st_h1 ?st = st_h1 st + ucast (drop_bit 26 (push_bit 32 (ucast ?t1) OR ucast ?t0 :: uint64) AND 0x3ffffff)"
    "st_h2 ?st = st_h2 st + ucast (drop_bit 20 (push_bit 32 (ucast ?t2) OR ucast ?t1 :: uint64) AND 0x3ffffff)"
    "st_h3 ?st = st_h3 st + ucast (drop_bit 14 (push_bit 32 (ucast ?t3) OR ucast ?t2 :: uint64) AND 0x3ffffff)"
    "st_h4 ?st = st_h4 st + (drop_bit 8 ?t3 OR hi)"
    by (cases st, simp only: poly1305_add_block_def Let_def poly1305_state_st.simps)+
  have m: "x mod 2 ^ 26 < 2 ^ 26" for x :: nat by simp
  have h: "unat (st_h0 st) < 42 * 2 ^ 26" "unat (st_h1 st) < 42 * 2 ^ 26" "unat (st_h2 st) < 42 * 2 ^ 26"
    "unat (st_h3 st) < 42 * 2 ^ 26" "unat (st_h4 st) < 42 * 2 ^ 26"
    using hb by linarith+
  have w0: "unat (?t0 AND 0x3ffffff) = a mod 2 ^ 26" by (simp only: unat_and_26 t)
  have h0: "unat (st_h0 ?st) = unat (st_h0 st) + a mod 2 ^ 26"
    unfolding sel by (rule sum [OF h(1) w0]) (rule order_less_trans [OF m], simp)
  have h1: "unat (st_h1 ?st) = unat (st_h1 st) + (a + 2 ^ 32 * b) div 2 ^ 26 mod 2 ^ 26"
    unfolding sel by (rule sum [OF h(2) w1]) (rule order_less_trans [OF m], simp)
  have h2: "unat (st_h2 ?st) = unat (st_h2 st) + (b + 2 ^ 32 * c) div 2 ^ 20 mod 2 ^ 26"
    unfolding sel by (rule sum [OF h(3) w2]) (rule order_less_trans [OF m], simp)
  have h3: "unat (st_h3 ?st) = unat (st_h3 st) + (c + 2 ^ 32 * d) div 2 ^ 14 mod 2 ^ 26"
    unfolding sel by (rule sum [OF h(4) w3]) (rule order_less_trans [OF m], simp)
  have h4: "unat (st_h4 ?st) = unat (st_h4 st) + (d div 2 ^ 8 + unat hi)"
    unfolding sel by (rule sum [OF h(5) w4]) (use d8(2) hi(1) in simp)
  have "le_nat (take 16 inp) = a + 2 ^ 32 * b + 2 ^ 64 * c + 2 ^ 96 * d"
    unfolding defs by (rule le_nat_16 [OF len])
  then show "acc_of (poly1305_add_block inp hi st) = acc_of st + le_nat (take 16 inp) + 2 ^ 104 * unat hi"
    unfolding acc_of_def h0 h1 h2 h3 h4 using add_digits [OF digits_26 [OF lt]] by (simp only:)
  have less: "x + y mod 2 ^ 26 < B + 2 ^ 26" if "x < B" for x y B :: nat using that m [of y] by (rule add_strict_mono)
  show "h_added (poly1305_add_block inp hi st)"
    unfolding h_added_def h0 h1 h2 h3 h4
    using hb d8(2) hi(1) less [of "unat (st_h0 st)" "42 * 2 ^ 26" a] less [of "unat (st_h1 st)" "2 ^ 26" "(a + 2 ^ 32 * b) div 2 ^ 26"]
      less [of "unat (st_h2 st)" "2 ^ 26" "(b + 2 ^ 32 * c) div 2 ^ 20"] less [of "unat (st_h3 st)" "2 ^ 26" "(c + 2 ^ 32 * d) div 2 ^ 14"]
    by simp
qed

lemma donna_identity:
  fixes h0 h1 h2 h3 h4 r0 r1 r2 r3 r4 :: nat
  shows "(h0 + 2 ^ 26 * h1 + 2 ^ 52 * h2 + 2 ^ 78 * h3 + 2 ^ 104 * h4) * (r0 + 2 ^ 26 * r1 + 2 ^ 52 * r2 + 2 ^ 78 * r3 + 2 ^ 104 * r4) =
    (h0 * r0 + h1 * (r4 * 5) + h2 * (r3 * 5) + h3 * (r2 * 5) + h4 * (r1 * 5)) +
    2 ^ 26 * (h0 * r1 + h1 * r0 + h2 * (r4 * 5) + h3 * (r3 * 5) + h4 * (r2 * 5)) +
    2 ^ 52 * (h0 * r2 + h1 * r1 + h2 * r0 + h3 * (r4 * 5) + h4 * (r3 * 5)) +
    2 ^ 78 * (h0 * r3 + h1 * r2 + h2 * r1 + h3 * r0 + h4 * (r4 * 5)) +
    2 ^ 104 * (h0 * r4 + h1 * r3 + h2 * r2 + h3 * r1 + h4 * r0) +
    poly_p * ((h1 * r4 + h2 * r3 + h3 * r2 + h4 * r1) + 2 ^ 26 * (h2 * r4 + h3 * r3 + h4 * r2) + 2 ^ 52 * (h3 * r4 + h4 * r3) +
      2 ^ 78 * (h4 * r4))"
  by (simp add: algebra_simps)

lemma carry_identity:
  fixes T0 T1 T2 T3 T4 c0 c1 c2 c3 c4 m0 m1 m2 m3 m4 :: nat
  assumes "T0 = 2 ^ 26 * c0 + m0" and "T1 + c0 = 2 ^ 26 * c1 + m1" and "T2 + c1 = 2 ^ 26 * c2 + m2"
    and "T3 + c2 = 2 ^ 26 * c3 + m3" and "T4 + c3 = 2 ^ 26 * c4 + m4"
  shows "m0 + c4 * 5 + 2 ^ 26 * m1 + 2 ^ 52 * m2 + 2 ^ 78 * m3 + 2 ^ 104 * m4 + poly_p * c4 =
    T0 + 2 ^ 26 * T1 + 2 ^ 52 * T2 + 2 ^ 78 * T3 + 2 ^ 104 * T4"
proof -
  have "2 ^ 26 * (T1 + c0) = 2 ^ 26 * (2 ^ 26 * c1 + m1)" "2 ^ 52 * (T2 + c1) = 2 ^ 52 * (2 ^ 26 * c2 + m2)"
    "2 ^ 78 * (T3 + c2) = 2 ^ 78 * (2 ^ 26 * c3 + m3)" "2 ^ 104 * (T4 + c3) = 2 ^ 104 * (2 ^ 26 * c4 + m4)"
    unfolding assms by (rule refl)+
  then show ?thesis using assms(1) by simp
qed

text \<open>No product sum leaves 64 bits, and every carry but the first fits 32 bits.\<close>

lemma product_bounds:
  fixes h0 h1 h2 h3 h4 r0 r1 r2 r3 r4 :: nat
  assumes "h0 < 43 * 2 ^ 26" and "h1 < 2 ^ 27" and "h2 < 2 ^ 27" and "h3 < 2 ^ 27" and "h4 < 3 * 2 ^ 25"
    and "r0 < 2 ^ 26" and "r1 < 2 ^ 26" and "r2 < 2 ^ 26" and "r3 < 2 ^ 26" and "r4 < 2 ^ 20"
  shows "h0 * r0 + h1 * (r4 * 5) + h2 * (r3 * 5) + h3 * (r2 * 5) + h4 * (r1 * 5) \<le> 71 * 2 ^ 52"
    and "h0 * r1 + h1 * r0 + h2 * (r4 * 5) + h3 * (r3 * 5) + h4 * (r2 * 5) \<le> 63 * 2 ^ 52"
    and "h0 * r2 + h1 * r1 + h2 * r0 + h3 * (r4 * 5) + h4 * (r3 * 5) \<le> 63 * 2 ^ 52"
    and "h0 * r3 + h1 * r2 + h2 * r1 + h3 * r0 + h4 * (r4 * 5) \<le> 63 * 2 ^ 52"
    and "h0 * r4 + h1 * r3 + h2 * r2 + h3 * r1 + h4 * r0 \<le> 8 * 2 ^ 52 + 2 ^ 49 + 2 ^ 48"
proof -
  have h: "h0 \<le> 43 * 2 ^ 26" "h1 \<le> 2 ^ 27" "h2 \<le> 2 ^ 27" "h3 \<le> 2 ^ 27" "h4 \<le> 3 * 2 ^ 25" using assms(1-5) by simp_all
  have r: "r0 \<le> 2 ^ 26" "r1 \<le> 2 ^ 26" "r2 \<le> 2 ^ 26" "r3 \<le> 2 ^ 26" "r4 \<le> 2 ^ 20" using assms(6-) by simp_all
  have s: "r1 * 5 \<le> 5 * 2 ^ 26" "r2 * 5 \<le> 5 * 2 ^ 26" "r3 * 5 \<le> 5 * 2 ^ 26" "r4 * 5 \<le> 5 * 2 ^ 20" using r by simp_all
  note m = mult_le_mono
  show "h0 * r0 + h1 * (r4 * 5) + h2 * (r3 * 5) + h3 * (r2 * 5) + h4 * (r1 * 5) \<le> 71 * 2 ^ 52"
    using m [OF h(1) r(1)] m [OF h(2) s(4)] m [OF h(3) s(3)] m [OF h(4) s(2)] m [OF h(5) s(1)] by simp
  show "h0 * r1 + h1 * r0 + h2 * (r4 * 5) + h3 * (r3 * 5) + h4 * (r2 * 5) \<le> 63 * 2 ^ 52"
    using m [OF h(1) r(2)] m [OF h(2) r(1)] m [OF h(3) s(4)] m [OF h(4) s(3)] m [OF h(5) s(2)] by simp
  show "h0 * r2 + h1 * r1 + h2 * r0 + h3 * (r4 * 5) + h4 * (r3 * 5) \<le> 63 * 2 ^ 52"
    using m [OF h(1) r(3)] m [OF h(2) r(2)] m [OF h(3) r(1)] m [OF h(4) s(4)] m [OF h(5) s(3)] by simp
  show "h0 * r3 + h1 * r2 + h2 * r1 + h3 * r0 + h4 * (r4 * 5) \<le> 63 * 2 ^ 52"
    using m [OF h(1) r(4)] m [OF h(2) r(3)] m [OF h(3) r(2)] m [OF h(4) r(1)] m [OF h(5) s(4)] by simp
  show "h0 * r4 + h1 * r3 + h2 * r2 + h3 * r1 + h4 * r0 \<le> 8 * 2 ^ 52 + 2 ^ 49 + 2 ^ 48"
    using m [OF h(1) r(5)] m [OF h(2) r(4)] m [OF h(3) r(3)] m [OF h(4) r(2)] m [OF h(5) r(1)] by simp
qed

lemma unat_mul32: "unat (mul32x32_64 a b) = unat a * unat b"
proof -
  have "unat a \<le> 2 ^ 32 - 1" "unat b \<le> 2 ^ 32 - 1" using unat_lt [of a] unat_lt [of b] by simp_all
  then have "unat a * unat b \<le> (2 ^ 32 - 1) * (2 ^ 32 - 1)" by (rule mult_le_mono)
  then show ?thesis by (simp add: mul32x32_64_def unat_word_ariths unat_ucast_up)
qed

lemma unat_sum5:
  fixes a b c d e :: uint64
  assumes "unat a + unat b + unat c + unat d + unat e \<le> 71 * 2 ^ 52"
  shows "unat (a + b + c + d + e) = unat a + unat b + unat c + unat d + unat e"
  using assms by (simp add: unat_plus)

lemma carry_word:
  fixes t :: uint64
  assumes "unat t < 2 ^ 58"
  shows "unat (ucast (drop_bit 26 t) :: uint32) = unat t div 2 ^ 26"
    and "unat (ucast (ucast (drop_bit 26 t) :: uint32) :: uint64) = unat t div 2 ^ 26"
proof -
  have "unat t div 2 ^ 26 < 2 ^ 32" using assms by (simp add: less_mult_imp_div_less)
  then show u: "unat (ucast (drop_bit 26 t) :: uint32) = unat t div 2 ^ 26"
    by (simp add: unsigned_ucast_eq take_bit_eq_mod unat_drop_bit)
  then show "unat (ucast (ucast (drop_bit 26 t) :: uint32) :: uint64) = unat t div 2 ^ 26"
    by (simp add: unat_ucast_up)
qed

lemma low_word: "unat ((ucast (t :: uint64) :: uint32) AND 0x3ffffff) = unat t mod 2 ^ 26"
proof -
  have "unat (ucast t :: uint32) = unat t mod 2 ^ 32" by (simp add: unsigned_ucast_eq take_bit_eq_mod)
  moreover have "unat t mod 2 ^ 32 mod 2 ^ 26 = unat t mod 2 ^ 26" by (rule mod_mod_cancel) (rule le_imp_power_dvd, simp)
  ultimately show ?thesis by (simp only: unat_and_26)
qed

lemma donna_mul:
  assumes r: "r_ok st" and h: "h_added st"
  shows "h_ok (poly1305_donna_mul st)" and "acc_of (poly1305_donna_mul st) mod poly_p = acc_of st * r_of st mod poly_p"
proof -
  let ?s1 = "st_s1 st" and ?s2 = "st_s2 st" and ?s3 = "st_s3 st" and ?s4 = "st_s4 st"
  define h0 h1 h2 h3 h4 where "h0 = unat (st_h0 st)" and "h1 = unat (st_h1 st)" and "h2 = unat (st_h2 st)" and
    "h3 = unat (st_h3 st)" and "h4 = unat (st_h4 st)"
  define r0 r1 r2 r3 r4 where "r0 = unat (st_r0 st)" and "r1 = unat (st_r1 st)" and "r2 = unat (st_r2 st)" and
    "r3 = unat (st_r3 st)" and "r4 = unat (st_r4 st)"
  note defs = h0_def h1_def h2_def h3_def h4_def r0_def r1_def r2_def r3_def r4_def
  have s: "unat ?s1 = r1 * 5" "unat ?s2 = r2 * 5" "unat ?s3 = r3 * 5" "unat ?s4 = r4 * 5"
    using r by (simp_all add: r_ok_def defs unat_word_ariths)
  define t0 where "t0 = mul32x32_64 (st_h0 st) (st_r0 st) + mul32x32_64 (st_h1 st) ?s4 + mul32x32_64 (st_h2 st) ?s3 +
    mul32x32_64 (st_h3 st) ?s2 + mul32x32_64 (st_h4 st) ?s1"
  define t1 where "t1 = mul32x32_64 (st_h0 st) (st_r1 st) + mul32x32_64 (st_h1 st) (st_r0 st) + mul32x32_64 (st_h2 st) ?s4 +
    mul32x32_64 (st_h3 st) ?s3 + mul32x32_64 (st_h4 st) ?s2"
  define t2 where "t2 = mul32x32_64 (st_h0 st) (st_r2 st) + mul32x32_64 (st_h1 st) (st_r1 st) + mul32x32_64 (st_h2 st) (st_r0 st) +
    mul32x32_64 (st_h3 st) ?s4 + mul32x32_64 (st_h4 st) ?s3"
  define t3 where "t3 = mul32x32_64 (st_h0 st) (st_r3 st) + mul32x32_64 (st_h1 st) (st_r2 st) + mul32x32_64 (st_h2 st) (st_r1 st) +
    mul32x32_64 (st_h3 st) (st_r0 st) + mul32x32_64 (st_h4 st) ?s4"
  define t4 where "t4 = mul32x32_64 (st_h0 st) (st_r4 st) + mul32x32_64 (st_h1 st) (st_r3 st) + mul32x32_64 (st_h2 st) (st_r2 st) +
    mul32x32_64 (st_h3 st) (st_r1 st) + mul32x32_64 (st_h4 st) (st_r0 st)"
  define T0 where "T0 = h0 * r0 + h1 * (r4 * 5) + h2 * (r3 * 5) + h3 * (r2 * 5) + h4 * (r1 * 5)"
  define T1 where "T1 = h0 * r1 + h1 * r0 + h2 * (r4 * 5) + h3 * (r3 * 5) + h4 * (r2 * 5)"
  define T2 where "T2 = h0 * r2 + h1 * r1 + h2 * r0 + h3 * (r4 * 5) + h4 * (r3 * 5)"
  define T3 where "T3 = h0 * r3 + h1 * r2 + h2 * r1 + h3 * r0 + h4 * (r4 * 5)"
  define T4 where "T4 = h0 * r4 + h1 * r3 + h2 * r2 + h3 * r1 + h4 * r0"
  note Ts = T0_def T1_def T2_def T3_def T4_def
  have T: "T0 \<le> 71 * 2 ^ 52" "T1 \<le> 63 * 2 ^ 52" "T2 \<le> 63 * 2 ^ 52" "T3 \<le> 63 * 2 ^ 52" "T4 \<le> 8 * 2 ^ 52 + 2 ^ 49 + 2 ^ 48"
    unfolding Ts by (rule product_bounds; insert r h, simp add: r_ok_def h_added_def defs)+
  have t: "unat t0 = T0" "unat t1 = T1" "unat t2 = T2" "unat t3 = T3" "unat t4 = T4"
    unfolding t0_def t1_def t2_def t3_def t4_def Ts
    by (subst unat_sum5; insert T [unfolded Ts]; simp add: unat_mul32 s defs [symmetric])+
  define c0 where "c0 = T0 div 2 ^ 26"
  define c1 where "c1 = (T1 + c0) div 2 ^ 26"
  define c2 where "c2 = (T2 + c1) div 2 ^ 26"
  define c3 where "c3 = (T3 + c2) div 2 ^ 26"
  define c4 where "c4 = (T4 + c3) div 2 ^ 26"
  have c: "c0 \<le> 71 * 2 ^ 26" "c1 \<le> 2 ^ 32" "c2 \<le> 2 ^ 32" "c3 \<le> 2 ^ 32" "c4 \<le> 8 * 2 ^ 26 + 2 ^ 23 + 2 ^ 22 + 2 ^ 6"
  proof -
    show 0: "c0 \<le> 71 * 2 ^ 26" unfolding c0_def using div_le_mono [OF T(1), of "2 ^ 26"] by simp
    have "T1 + c0 \<le> 63 * 2 ^ 52 + 71 * 2 ^ 26" using T(2) 0 by (rule add_mono)
    from div_le_mono [OF this, of "2 ^ 26"] show 1: "c1 \<le> 2 ^ 32" unfolding c1_def by simp
    have "T2 + c1 \<le> 63 * 2 ^ 52 + 2 ^ 32" using T(3) 1 by (rule add_mono)
    from div_le_mono [OF this, of "2 ^ 26"] show 2: "c2 \<le> 2 ^ 32" unfolding c2_def by simp
    have "T3 + c2 \<le> 63 * 2 ^ 52 + 2 ^ 32" using T(4) 2 by (rule add_mono)
    from div_le_mono [OF this, of "2 ^ 26"] show 3: "c3 \<le> 2 ^ 32" unfolding c3_def by simp
    have "T4 + c3 \<le> 8 * 2 ^ 52 + 2 ^ 49 + 2 ^ 48 + 2 ^ 32" using T(5) 3 by (rule add_mono)
    from div_le_mono [OF this, of "2 ^ 26"] show "c4 \<le> 8 * 2 ^ 26 + 2 ^ 23 + 2 ^ 22 + 2 ^ 6" unfolding c4_def by simp
  qed
  define u1 where "u1 = t1 + drop_bit 26 t0"
  define u2 where "u2 = t2 + ucast (ucast (drop_bit 26 u1) :: uint32)"
  define u3 where "u3 = t3 + ucast (ucast (drop_bit 26 u2) :: uint32)"
  define u4 where "u4 = t4 + ucast (ucast (drop_bit 26 u3) :: uint32)"
  define b where "b = (ucast (drop_bit 26 u4) :: uint32)"
  have sum: "unat (x + y) = X + Y" if "unat x = X" "unat y = Y" "X \<le> 63 * 2 ^ 52" "Y \<le> 71 * 2 ^ 26" for x y :: uint64 and X Y
    using unat_plus [of x y] that by simp
  have small: "X + Y < 2 ^ 58" if "X \<le> 63 * 2 ^ 52" "Y \<le> 71 * 2 ^ 26" for X Y :: nat using that by simp
  have cs: "c0 \<le> 71 * 2 ^ 26" "c1 \<le> 71 * 2 ^ 26" "c2 \<le> 71 * 2 ^ 26" "c3 \<le> 71 * 2 ^ 26" "T4 \<le> 63 * 2 ^ 52" using c T(5) by simp_all
  have u1: "unat u1 = T1 + c0" unfolding u1_def by (rule sum [OF t(2) _ T(2) cs(1)]) (simp only: unat_drop_bit t c0_def)
  have u1': "unat u1 < 2 ^ 58" unfolding u1 by (rule small [OF T(2) cs(1)])
  have u2: "unat u2 = T2 + c1" unfolding u2_def by (rule sum [OF t(3) _ T(3) cs(2)]) (simp only: carry_word(2) [OF u1'] u1 c1_def)
  have u2': "unat u2 < 2 ^ 58" unfolding u2 by (rule small [OF T(3) cs(2)])
  have u3: "unat u3 = T3 + c2" unfolding u3_def by (rule sum [OF t(4) _ T(4) cs(3)]) (simp only: carry_word(2) [OF u2'] u2 c2_def)
  have u3': "unat u3 < 2 ^ 58" unfolding u3 by (rule small [OF T(4) cs(3)])
  have u4: "unat u4 = T4 + c3" unfolding u4_def by (rule sum [OF t(5) _ cs(5,4)]) (simp only: carry_word(2) [OF u3'] u3 c3_def)
  have u4': "unat u4 < 2 ^ 58" unfolding u4 by (rule small [OF cs(5,4)])
  have b: "unat b = c4" unfolding b_def carry_word(1) [OF u4'] u4 c4_def ..
  have m: "x mod 2 ^ 26 < 2 ^ 26" for x :: nat by simp
  have "unat (b * 5) = c4 * 5" using b c(5) by (simp add: unat_word_ariths)
  then have d0: "unat ((ucast t0 AND 0x3ffffff) + b * 5 :: uint32) = T0 mod 2 ^ 26 + c4 * 5"
    using unat_plus [of "ucast t0 AND 0x3ffffff :: uint32" "b * 5"] c(5) m [of T0] low_word [of t0, unfolded t] by simp
  have run: "poly1305_donna_mul st = st\<lparr>st_h0 := (ucast t0 AND 0x3ffffff) + b * 5, st_h1 := ucast u1 AND 0x3ffffff,
      st_h2 := ucast u2 AND 0x3ffffff, st_h3 := ucast u3 AND 0x3ffffff, st_h4 := ucast u4 AND 0x3ffffff\<rparr>"
    by (simp only: poly1305_donna_mul_def Let_def b_def u4_def u3_def u2_def u1_def t0_def t1_def t2_def t3_def t4_def)
  have d: "unat (st_h0 (poly1305_donna_mul st)) = T0 mod 2 ^ 26 + c4 * 5"
    "unat (st_h1 (poly1305_donna_mul st)) = (T1 + c0) mod 2 ^ 26" "unat (st_h2 (poly1305_donna_mul st)) = (T2 + c1) mod 2 ^ 26"
    "unat (st_h3 (poly1305_donna_mul st)) = (T3 + c2) mod 2 ^ 26" "unat (st_h4 (poly1305_donna_mul st)) = (T4 + c3) mod 2 ^ 26"
    unfolding run by (cases st, simp only: poly1305_state_st.simps d0 low_word u1 u2 u3 u4)+
  have "T0 mod 2 ^ 26 + c4 * 5 < 42 * 2 ^ 26" using m [of T0] c(5) by simp
  then show "h_ok (poly1305_donna_mul st)" unfolding h_ok_def d by (intro conjI m)
  have e: "x = 2 ^ 26 * (x div 2 ^ 26) + x mod 2 ^ 26" for x :: nat by simp
  have "acc_of (poly1305_donna_mul st) + poly_p * c4 = T0 + 2 ^ 26 * T1 + 2 ^ 52 * T2 + 2 ^ 78 * T3 + 2 ^ 104 * T4"
    unfolding acc_of_def d
    by (rule carry_identity [OF e [of T0, folded c0_def] e [of "T1 + c0", folded c1_def] e [of "T2 + c1", folded c2_def]
          e [of "T3 + c2", folded c3_def] e [of "T4 + c3", folded c4_def]])
  then have "acc_of st * r_of st = acc_of (poly1305_donna_mul st) + poly_p * (c4 + ((h1 * r4 + h2 * r3 + h3 * r2 + h4 * r1) +
      2 ^ 26 * (h2 * r4 + h3 * r3 + h4 * r2) + 2 ^ 52 * (h3 * r4 + h4 * r3) + 2 ^ 78 * (h4 * r4)))"
    unfolding acc_of_def [of st] r_of_def defs [symmetric] donna_identity Ts [symmetric] distrib_left [of poly_p c4] by linarith
  then show "acc_of (poly1305_donna_mul st) mod poly_p = acc_of st * r_of st mod poly_p" by (simp only: mod_mult_self2)
qed

section \<open>Blocks and buffering\<close>

text \<open>What the operations on the accumulator leave alone.\<close>

definition same_rest :: "poly1305_state_st \<Rightarrow> poly1305_state_st \<Rightarrow> bool" where
  "same_rest st st' \<longleftrightarrow> st'\<lparr>st_h0 := 0, st_h1 := 0, st_h2 := 0, st_h3 := 0, st_h4 := 0\<rparr> =
    st\<lparr>st_h0 := 0, st_h1 := 0, st_h2 := 0, st_h3 := 0, st_h4 := 0\<rparr>"

lemma same_rest_refl: "same_rest st st"
  by (simp add: same_rest_def)

lemma same_rest_trans: "same_rest st st' \<Longrightarrow> same_rest st' st'' \<Longrightarrow> same_rest st st''"
  by (simp add: same_rest_def)

lemma same_rest_fields:
  assumes "same_rest st st'"
  shows "r_ok st' = r_ok st" "r_of st' = r_of st" "st_buf st' = st_buf st" "st_used st' = st_used st" "st_key st' = st_key st"
  using assms by (cases st; cases st'; simp add: same_rest_def r_ok_def r_of_def)+

lemma same_rest_digits: "same_rest st (st\<lparr>st_h0 := a, st_h1 := b, st_h2 := c, st_h3 := d, st_h4 := e\<rparr>)"
  by (simp add: same_rest_def)

lemma same_rest_add: "same_rest st (poly1305_add_block inp hi st)"
  unfolding poly1305_add_block_def Let_def by (rule same_rest_digits)

lemma same_rest_mul: "same_rest st (poly1305_donna_mul st)"
  unfolding poly1305_donna_mul_def Let_def by (rule same_rest_digits)

lemma same_rest_block: "same_rest st (poly1305_donna_mul (poly1305_add_block inp hi st))"
  using same_rest_add same_rest_mul same_rest_trans by blast

lemma same_rest_update: "same_rest st (poly1305_update st msg)"
proof (induction st msg rule: poly1305_update.induct)
  case (1 st msg)
  show ?case
  proof (cases "length msg \<ge> 16")
    case True
    from same_rest_trans [OF same_rest_block 1 [OF True]] show ?thesis
      using True by (subst poly1305_update.simps) (simp only: if_True)
  next
    case False
    then show ?thesis
      using same_rest_block same_rest_refl by (subst poly1305_update.simps) (simp only: if_False Let_def simp_thms split: if_split)
  qed
qed

lemma one_block:
  assumes "r_ok st" and "h_ok st" and "length inp \<ge> 16" and "hi = 0 \<or> hi = push_bit 24 1"
  shows "h_ok (poly1305_donna_mul (poly1305_add_block inp hi st))"
    and "acc_of (poly1305_donna_mul (poly1305_add_block inp hi st)) mod poly_p =
      (acc_of st + (le_nat (take 16 inp) + 2 ^ 104 * unat hi)) * r_of st mod poly_p"
proof -
  have "unat hi \<le> 2 ^ 24" using assms(4) by auto
  note a = add_block [OF assms(3,2) this assms(4)]
  note f = same_rest_fields [OF same_rest_add [of st inp hi]]
  show "h_ok (poly1305_donna_mul (poly1305_add_block inp hi st))" using donna_mul(1) a(2) f(1) assms(1) by simp
  show "acc_of (poly1305_donna_mul (poly1305_add_block inp hi st)) mod poly_p =
      (acc_of st + (le_nat (take 16 inp) + 2 ^ 104 * unat hi)) * r_of st mod poly_p"
    using donna_mul(2) [of "poly1305_add_block inp hi st"] a f(1,2) assms(1) by (simp only: add.assoc)
qed

lemma poly_acc_Nil [simp]: "poly_acc r a [] = a"
  by (simp add: poly_acc.simps)

lemma poly_acc_cong: "a mod poly_p = b mod poly_p \<Longrightarrow> poly_acc r a msg mod poly_p = poly_acc r b msg mod poly_p"
proof (cases "msg = []")
  case False
  assume "a mod poly_p = b mod poly_p"
  then have "(a + x) * r mod poly_p = (b + x) * r mod poly_p" for x
    by (intro mod_mult_cong mod_add_cong refl)
  then show ?thesis using False by (simp only: poly_acc.simps [of r a] poly_acc.simps [of r b] if_False)
qed simp

lemma update_blocks:
  assumes "r_ok st" and "h_ok st"
  shows "h_ok (poly1305_update st msg) \<and> acc_of (poly1305_update st msg) mod poly_p = poly_acc (r_of st) (acc_of st) msg mod poly_p"
  using assms
proof (induction st msg rule: poly1305_update.induct)
  case (1 st msg)
  show ?case
  proof (cases "length msg \<ge> 16")
    case True
    let ?st = "poly1305_donna_mul (poly1305_add_block msg (push_bit 24 1) st)"
    have hi: "push_bit 24 1 = (0 :: uint32) \<or> push_bit 24 1 = (push_bit 24 1 :: uint32)" by simp
    note b = one_block [OF 1(2,3) True hi]
    note f = same_rest_fields [OF same_rest_block [of st msg "push_bit 24 1"]]
    have "length (take 16 msg) = 16" and ne: "msg \<noteq> []" using True by auto
    from this(1) have "le_nat (take 16 msg @ [1]) = le_nat (take 16 msg) + 2 ^ 104 * unat (push_bit 24 1 :: uint32)"
      by (simp only: le_nat_append) simp
    then have "acc_of ?st mod poly_p = ((acc_of st + le_nat (take 16 msg @ [1])) * r_of st mod poly_p) mod poly_p"
      using b(2) by (simp only: mod_mod_trivial)
    from poly_acc_cong [OF this, of "r_of st" "drop 16 msg"]
    have "poly_acc (r_of st) (acc_of ?st) (drop 16 msg) mod poly_p = poly_acc (r_of st) (acc_of st) msg mod poly_p"
      using ne by (simp only: poly_acc.simps [of _ _ msg] if_False)
    moreover have "r_ok ?st" using f(1) 1(2) by simp
    ultimately show ?thesis using 1(1) [OF True _ b(1)] f(2) True by (simp only: poly1305_update.simps [of st msg] if_True)
  next
    case False
    show ?thesis
    proof (cases "msg = []")
      case True
      then show ?thesis using 1(3) by (simp add: poly1305_update.simps [of st] )
    next
      case ne: False
      let ?mp = "msg @ [1] @ replicate (15 - length msg) 0"
      have len: "length ?mp \<ge> 16" "length ?mp = 16" "take 16 msg = msg" "drop 16 msg = []" using False by simp_all
      note b = one_block [OF 1(2,3) len(1), of 0]
      have "le_nat (take 16 ?mp) = le_nat (msg @ [1])" using len(2) by (simp only: take_all le_refl le_nat_append le_nat_zeros) simp
      then have "acc_of (poly1305_donna_mul (poly1305_add_block ?mp 0 st)) mod poly_p =
          ((acc_of st + le_nat (take 16 msg @ [1])) * r_of st mod poly_p) mod poly_p"
        using b(2) by (simp add: len(3))
      moreover have "poly_acc (r_of st) (acc_of st) msg = (acc_of st + le_nat (take 16 msg @ [1])) * r_of st mod poly_p"
        using ne len(4) by (simp only: poly_acc.simps [of _ _ msg] poly_acc_Nil if_False)
      ultimately show ?thesis using b(1) False ne by (simp only: poly1305_update.simps [of st msg] if_False Let_def) simp
    qed
  qed
qed

lemma poly_acc_append:
  "length xs mod 16 = 0 \<Longrightarrow> poly_acc r a (xs @ ys) = poly_acc r (poly_acc r a xs) ys"
proof (induction r a xs rule: poly_acc.induct)
  case (1 r a xs)
  show ?case
  proof (cases "xs = []")
    case True
    then show ?thesis by simp
  next
    case False
    then have "length xs \<ge> 16" using 1(2) by (cases "length xs < 16") auto
    then have t: "take 16 (xs @ ys) = take 16 xs" "drop 16 (xs @ ys) = drop 16 xs @ ys" "length (drop 16 xs) mod 16 = 0"
      using 1(2) by (simp_all add: le_mod_geq)
    show ?thesis
      using 1(1) [OF False t(3)] False
      by (simp only: poly_acc.simps [of r a "xs @ ys"] poly_acc.simps [of r a xs] t append_is_Nil_conv simp_thms if_False)
  qed
qed

lemma add_used: "(poly1305_add_block inp hi st)\<lparr>st_used := n\<rparr> = poly1305_add_block inp hi (st\<lparr>st_used := n\<rparr>)"
  by (cases st) (simp only: poly1305_add_block_def Let_def poly1305_state_st.simps)

lemma mul_used: "(poly1305_donna_mul st)\<lparr>st_used := n\<rparr> = poly1305_donna_mul (st\<lparr>st_used := n\<rparr>)"
  by (cases st) (simp only: poly1305_donna_mul_def Let_def poly1305_state_st.simps)

lemma update_used: "(poly1305_update st msg)\<lparr>st_used := n\<rparr> = poly1305_update (st\<lparr>st_used := n\<rparr>) msg"
proof (induction st msg rule: poly1305_update.induct)
  case (1 st msg)
  show ?case
  proof (cases "length msg \<ge> 16")
    case True
    from 1 [OF True] show ?thesis
      using True by (simp only: poly1305_update.simps [of _ msg] if_True add_used mul_used)
  next
    case False
    then show ?thesis by (simp only: poly1305_update.simps [of _ msg] if_False Let_def add_used mul_used split: if_split) simp
  qed
qed

text \<open>The state after \<open>data\<close> was absorbed, in any pieces: whole blocks are in the accumulator, the rest is in the buffer.\<close>

definition absorbed :: "nat \<Rightarrow> byte list \<Rightarrow> byte list \<Rightarrow> poly1305_state_st \<Rightarrow> bool" where
  "absorbed r key2 data st \<longleftrightarrow> r_ok st \<and> h_ok st \<and> r_of st = r \<and> st_key st = key2 \<and> length (st_buf st) = 16 \<and>
    (\<exists>blocks rest. data = blocks @ rest \<and> length blocks mod 16 = 0 \<and> length rest < 16 \<and>
      acc_of st mod poly_p = poly_acc r 0 blocks mod poly_p \<and> unat (st_used st) = length rest \<and> take (length rest) (st_buf st) = rest)"

lemma absorb_blocks:
  assumes "absorbed r key2 data st" and "st_used st = 0" and "length xs mod 16 = 0"
  shows "absorbed r key2 (data @ xs) (poly1305_update st xs)" and "st_used (poly1305_update st xs) = 0"
proof -
  note f = same_rest_fields [OF same_rest_update [of st xs]]
  have d: "r_ok st" "h_ok st" "length data mod 16 = 0" "acc_of st mod poly_p = poly_acc r 0 data mod poly_p" "r_of st = r"
    using assms(1,2) by (auto simp: absorbed_def)
  note u = update_blocks [OF d(1,2), of xs]
  have "acc_of (poly1305_update st xs) mod poly_p = poly_acc r (acc_of st) xs mod poly_p" using u d(5) by (simp only:)
  also have "\<dots> = poly_acc r (poly_acc r 0 data) xs mod poly_p" using d(4) by (rule poly_acc_cong)
  also have "\<dots> = poly_acc r 0 (data @ xs) mod poly_p" by (simp only: poly_acc_append [OF d(3)])
  finally have a: "acc_of (poly1305_update st xs) mod poly_p = poly_acc r 0 (data @ xs) mod poly_p" .
  have "length (data @ xs) mod 16 = 0" using d(3) assms(3) by (simp add: mod_add_eq [symmetric])
  then show "absorbed r key2 (data @ xs) (poly1305_update st xs)"
    using a u assms(1) f assms(2) unfolding absorbed_def
    by (intro conjI exI [of _ "data @ xs"] exI [of _ "[]"]) simp_all
  show "st_used (poly1305_update st xs) = 0" using f(4) assms(2) by simp
qed

lemma absorb_rest:
  assumes "absorbed r key2 data st" and "st_used st = 0" and "length xs < 16" and "unat n = length xs"
  shows "absorbed r key2 (data @ xs) (st\<lparr>st_buf := put_at (st_buf st) 0 xs, st_used := n\<rparr>)"
proof -
  have "length data mod 16 = 0" "acc_of st mod poly_p = poly_acc r 0 data mod poly_p" "length (st_buf st) = 16"
    using assms(1,2) by (auto simp: absorbed_def)
  then show ?thesis
    using assms unfolding absorbed_def
    by (intro conjI exI [of _ data] exI [of _ xs]) (simp_all add: r_ok_def h_ok_def r_of_def acc_of_def put_at_def)
qed

text \<open>Filling the buffer up.\<close>

lemma absorb_fill:
  assumes "absorbed r key2 data st" and "unat (st_used st) + length xs \<le> 16" and "unat n = length xs" and "0 < unat (st_used st)"
  defines "st1 \<equiv> st\<lparr>st_buf := put_at (st_buf st) (unat (st_used st)) xs, st_used := st_used st + n\<rparr>"
  shows "unat (st_used st1) = unat (st_used st) + length xs"
    and "unat (st_used st) + length xs < 16 \<Longrightarrow> absorbed r key2 (data @ xs) st1"
    and "unat (st_used st) + length xs = 16 \<Longrightarrow> absorbed r key2 (data @ xs) ((poly1305_update st1 (take 16 (st_buf st1)))\<lparr>st_used := 0\<rparr>)"
proof -
  obtain blocks rest where d: "data = blocks @ rest" "length blocks mod 16 = 0" "length rest < 16"
      "acc_of st mod poly_p = poly_acc r 0 blocks mod poly_p" "unat (st_used st) = length rest" "take (length rest) (st_buf st) = rest"
    and st: "r_ok st" "h_ok st" "r_of st = r" "st_key st = key2" "length (st_buf st) = 16"
    using assms(1) by (auto simp: absorbed_def)
  show used: "unat (st_used st1) = unat (st_used st) + length xs"
    using assms(2,3) unat_plus [of "st_used st" n] by (simp add: st1_def)
  have buf: "take (length (rest @ xs)) (st_buf st1) = rest @ xs"
    using assms(2) d(5,6) st(5) by (simp add: st1_def put_at_def)
  have st1: "r_ok st1" "h_ok st1" "r_of st1 = r" "st_key st1 = key2" "length (st_buf st1) = 16" "acc_of st1 = acc_of st"
    using st assms(2) by (simp_all add: st1_def r_ok_def h_ok_def r_of_def acc_of_def)
  show "absorbed r key2 (data @ xs) st1" if "unat (st_used st) + length xs < 16"
    unfolding absorbed_def
    using d st1 buf used that by (intro conjI exI [of _ blocks] exI [of _ "rest @ xs"]) simp_all
  show "absorbed r key2 (data @ xs) ((poly1305_update st1 (take 16 (st_buf st1)))\<lparr>st_used := 0\<rparr>)" if full: "unat (st_used st) + length xs = 16"
  proof -
    have t: "take 16 (st_buf st1) = rest @ xs" using buf full d(5) by simp
    define st2 where "st2 = st1\<lparr>st_used := 0\<rparr>"
    have st2: "absorbed r key2 blocks st2" "st_used st2 = 0"
      using d st1 unfolding absorbed_def
      by (simp_all add: st2_def r_ok_def h_ok_def r_of_def acc_of_def)
    have "length (rest @ xs) mod 16 = 0" using full d(5) by simp
    note a = absorb_blocks [OF st2 this]
    have "(poly1305_update st1 (rest @ xs))\<lparr>st_used := 0\<rparr> = poly1305_update st2 (rest @ xs)"
      unfolding st2_def by (rule update_used)
    then show ?thesis using a(1) d(1) t by simp
  qed
qed

lemma and_4: "(x :: 'a::len word) AND 0xf = take_bit 4 x"
  by (simp add: take_bit_eq_mask mask_eq_exp_minus_1)

lemma unat_and_not_F: "unat ((x :: size_t) AND NOT 0xf) = 16 * (unat x div 16)"
proof -
  have "x AND NOT 0xf = push_bit 4 (drop_bit 4 x)"
  proof (rule bit_word_eqI)
    fix n assume n: "n < LENGTH(64)"
    have "bit (x AND NOT 0xf) n \<longleftrightarrow> bit x n \<and> \<not> bit (mask 4 :: size_t) n"
      using n by (simp add: bit_simps mask_eq_exp_minus_1)
    then show "bit (x AND NOT 0xf) n = bit (push_bit 4 (drop_bit 4 x)) n"
      using n by (auto simp: bit_simps)
  qed
  moreover have "unat x div 16 * 16 < 2 ^ 64" using unat_lt [of x] by (simp add: order_le_less_trans [OF div_times_less_eq_dividend])
  ultimately show ?thesis
    by (simp add: unsigned_push_bit_eq unat_drop_bit take_bit_eq_mod) (simp add: push_bit_eq_mult mult.commute)
qed

lemma fill_step:
  assumes a: "absorbed r key2 data st" and n: "unat n = length inp" and run: "poly1305_fill st inp n = (st', inp', n')"
  shows "\<exists>xs. inp = xs @ inp' \<and> absorbed r key2 (data @ xs) st' \<and> unat n' = length inp' \<and> (st_used st' = 0 \<or> inp' = [])"
proof (cases "st_used st = 0")
  case True
  then show ?thesis using a n run by (intro exI [of _ "[]"]) (simp add: poly1305_fill_def)
next
  case False
  define u where "u = unat (st_used st)"
  have u: "u < 16" "0 < u" using a False by (auto simp: absorbed_def u_def unat_gt_0)
  define todo where "todo = (if 16 - st_used st > n then n else 16 - st_used st)"
  have d: "unat (16 - st_used st) = 16 - u" using u(1) by (simp add: u_def unat_sub_le word_le_nat_alt)
  then have t: "unat todo = min (length inp) (16 - u)" using n by (auto simp: todo_def word_less_nat_alt)
  define xs where "xs = take (unat todo) inp"
  have len: "length xs = unat todo" by (simp add: xs_def t)
  define st1 where "st1 = st\<lparr>st_buf := put_at (st_buf st) u xs, st_used := st_used st + todo\<rparr>"
  have le: "u + length xs \<le> 16" using t len u(1) by linarith
  note f = absorb_fill [OF a le [unfolded u_def] len [symmetric] u(2) [unfolded u_def], folded u_def, folded st1_def]
  have r: "st' = (if st_used st1 = 16 then (poly1305_update st1 (take 16 (st_buf st1)))\<lparr>st_used := 0\<rparr> else st1)"
      "inp' = drop (unat todo) inp" "n' = n - todo"
    using run False
    unfolding poly1305_fill_def Let_def u_def [symmetric] todo_def [symmetric] xs_def [symmetric] st1_def [symmetric] by auto
  have full: "st_used st1 = 16 \<longleftrightarrow> u + length xs = 16" using f(1) by (simp add: word_unat_eq_iff)
  have "todo \<le> n" using t n by (simp add: word_le_nat_alt)
  then have n': "unat n' = length inp'" using r(2,3) n t by (simp add: unat_sub_le)
  have "absorbed r key2 (data @ xs) st'" using r(1) f(2,3) full le by auto
  moreover have "st_used st' = 0 \<or> inp' = []"
    using r(1,2) full t len u(1) by (cases "u + length xs = 16") (auto simp: min_def split: if_splits)
  ultimately show ?thesis using n' r(2) by (intro exI [of _ xs]) (simp add: xs_def)
qed

lemma whole_step:
  assumes a: "absorbed r key2 data st" and n: "unat n = length inp" and z: "st_used st = 0 \<or> inp = []"
    and run: "poly1305_whole st inp n = (st', inp', n')"
  shows "\<exists>xs. inp = xs @ inp' \<and> absorbed r key2 (data @ xs) st' \<and> unat n' = length inp' \<and> length inp' < 16 \<and> (st_used st' = 0 \<or> inp' = [])"
proof (cases "n \<ge> 16")
  case False
  then show ?thesis using a n z run by (intro exI [of _ "[]"]) (simp add: poly1305_whole_def word_le_nat_alt)
next
  case True
  define todo where "todo = n AND NOT 0xf"
  have t: "unat todo = 16 * (length inp div 16)" unfolding todo_def unat_and_not_F n ..
  define xs where "xs = take (unat todo) inp"
  have len: "length xs = 16 * (length inp div 16)" unfolding xs_def t by simp
  have "16 \<le> length inp" using True n by (simp add: word_le_nat_alt)
  then have "st_used st = 0" using z by auto
  moreover have "length xs mod 16 = 0" using len by simp
  ultimately have u: "absorbed r key2 (data @ xs) (poly1305_update st xs)" "st_used (poly1305_update st xs) = 0"
    by (rule absorb_blocks [OF a])+
  have r: "st' = poly1305_update st xs" "inp' = drop (unat todo) inp" "n' = n AND 0xf"
    using run True unfolding poly1305_whole_def Let_def todo_def [symmetric] xs_def by auto
  have "length inp' = length inp mod 16" using r(2) t by (simp add: minus_mult_div_eq_mod)
  then show ?thesis using u r n by (intro exI [of _ xs]) (simp add: xs_def and_4 unat_take_bit)
qed

lemma absorbed_update:
  assumes "absorbed r key2 data st" and "length inp < 2 ^ 64"
  shows "absorbed r key2 (data @ inp) (CRYPTO_poly1305_update st inp)"
proof -
  obtain st1 inp1 n1 where 1: "poly1305_fill st inp (word_of_nat (length inp)) = (st1, inp1, n1)" by (metis prod.exhaust)
  obtain st2 inp2 n2 where 2: "poly1305_whole st1 inp1 n1 = (st2, inp2, n2)" by (metis prod.exhaust)
  have n: "unat (word_of_nat (length inp) :: size_t) = length inp" using assms(2) by (simp add: unat_of_nat_small)
  obtain xs where xs: "inp = xs @ inp1" "absorbed r key2 (data @ xs) st1" "unat n1 = length inp1" "st_used st1 = 0 \<or> inp1 = []"
    using fill_step [OF assms(1) n 1] by blast
  obtain ys where ys: "inp1 = ys @ inp2" "absorbed r key2 ((data @ xs) @ ys) st2" "unat n2 = length inp2" "length inp2 < 16"
      "st_used st2 = 0 \<or> inp2 = []"
    using whole_step [OF xs(2,3,4) 2] by blast
  have run: "CRYPTO_poly1305_update st inp =
      (if n2 \<noteq> 0 then st2\<lparr>st_buf := put_at (st_buf st2) 0 (take (unat n2) inp2), st_used := n2\<rparr> else st2)"
    by (simp add: CRYPTO_poly1305_update_def 1 2)
  show ?thesis
  proof (cases "n2 = 0")
    case True
    then have "inp2 = []" using ys(3) by simp
    then show ?thesis using True run xs(1) ys(1,2) by simp
  next
    case False
    then have "inp2 \<noteq> []" using ys(3) by (auto simp: word_unat_eq_iff)
    then have "st_used st2 = 0" using ys(5) by simp
    from absorb_rest [OF ys(2) this ys(4,3)] show ?thesis using False run xs(1) ys(1,3) by simp
  qed
qed

lemma absorbed_updates:
  "absorbed r key2 data st \<Longrightarrow> list_all (\<lambda>c. length c < 2 ^ 64) chunks \<Longrightarrow>
   absorbed r key2 (data @ concat chunks) (foldl CRYPTO_poly1305_update st chunks)"
proof (induction chunks arbitrary: data st)
  case (Cons c cs)
  then show ?case using absorbed_update [OF Cons(2), of c] Cons(1) [of "data @ c"] by simp
qed simp

end
