(* ===== verification/Poly1305Claims.thy ===== *)
theory Poly1305Claims
  imports Poly1305Digits
begin

text \<open>
  The key and the tag: clamping, the last reduction and the packing of the digits into words, and the theorems about the
  authenticator, with a flaw: a carry of the last reduction can be lost.
\<close>

section \<open>The key\<close>

lemma and_segments:
  "x AND (mask i OR push_bit j (mask l)) = take_bit i x OR push_bit j (take_bit l (drop_bit j x))" for x :: "'a::len word"
  by (rule bit_word_eqI) (auto simp: bit_simps)

lemma segments_less:
  fixes x y :: nat
  assumes "i \<le> j"
  shows "x mod 2 ^ i + 2 ^ j * (y mod 2 ^ l) < 2 ^ (j + l)"
proof -
  have i: "x mod 2 ^ i < 2 ^ j"
    using assms by (intro order_less_le_trans [OF mod_less_divisor power_increasing]) simp_all
  have "(y mod 2 ^ l + 1) * 2 ^ j \<le> 2 ^ l * 2 ^ j" by (intro mult_le_mono1) (simp add: Suc_leI)
  then show ?thesis using i by (simp add: power_add mult.commute)
qed

lemma unat_and_segments:
  fixes x :: uint32
  assumes "i \<le> j" and "j + l \<le> 32" and "M = mask i OR push_bit j (mask l)"
  shows "unat (x AND M) = unat x mod 2 ^ i + 2 ^ j * (unat x div 2 ^ j mod 2 ^ l)"
proof -
  have a: "unat (take_bit i x) = unat x mod 2 ^ i" "unat (take_bit l (drop_bit j x)) = unat x div 2 ^ j mod 2 ^ l"
    by (simp_all add: unat_take_bit unat_drop_bit)
  have "unat x mod 2 ^ i < 2 ^ j"
    using assms(1) by (intro order_less_le_trans [OF mod_less_divisor power_increasing]) simp_all
  moreover have "unat x div 2 ^ j mod 2 ^ l * 2 ^ j + unat x mod 2 ^ i < 2 ^ 32"
    using segments_less [OF assms(1), of "unat x" "unat x div 2 ^ j" l] power_increasing [OF assms(2), of "2 :: nat"]
    by (simp add: mult.commute add.commute)
  ultimately show ?thesis
    unfolding assms(3) and_segments using unat_or_push [of "take_bit i x" j "take_bit l (drop_bit j x)"] a by simp
qed

lemma unat_join_words:
  fixes x y :: uint32
  assumes "j \<le> 32"
  shows "unat (drop_bit j x OR push_bit (32 - j) y) = unat x div 2 ^ j + 2 ^ (32 - j) * (unat y mod 2 ^ j)"
proof -
  have p: "push_bit (32 - j) y = push_bit (32 - j) (take_bit j y)"
    by (rule bit_word_eqI) (use assms in \<open>auto simp: bit_simps\<close>)
  have e: "(2::nat) ^ 32 = 2 ^ (32 - j) * 2 ^ j" using assms by (simp add: power_add [symmetric])
  have "unat x < 2 ^ (32 - j) * 2 ^ j" using unat_lt [of x] e by simp
  then have a: "unat (drop_bit j x) < 2 ^ (32 - j)" by (simp add: unat_drop_bit less_mult_imp_div_less)
  have "(unat y mod 2 ^ j + 1) * 2 ^ (32 - j) \<le> 2 ^ j * 2 ^ (32 - j)" by (intro mult_le_mono1) (simp add: Suc_leI)
  then have "unat (take_bit j y) * 2 ^ (32 - j) + unat (drop_bit j x) < 2 ^ 32"
    using a e by (simp add: unat_take_bit mult.commute)
  then show ?thesis
    unfolding p using unat_or_push [OF a, of "take_bit j y"] by (simp add: unat_take_bit unat_drop_bit)
qed

lemma or_push_nat: "a < 2 ^ k \<Longrightarrow> a OR push_bit k b = a + 2 ^ k * b" for a b :: nat
proof -
  assume a: "a < 2 ^ k"
  then have "take_bit k a = a" by (simp add: take_bit_nat_eq_self)
  then have small: "n < k" if "bit a n" for n using that by (metis bit_take_bit_iff)
  have "a AND push_bit k b = 0" by (rule bit_eqI) (auto simp: bit_simps dest!: small)
  from disjunctive_add_eq_or [OF this] show ?thesis by (simp add: push_bit_eq_mult mult.commute)
qed

lemma clamp_constants:
  "0x3ffff03 = (mask 2 OR push_bit 8 (mask 18) :: uint32)"
  "0x3ffc0ff = (mask 8 OR push_bit 14 (mask 12) :: uint32)"
  "0x3f03fff = (mask 14 OR push_bit 20 (mask 6) :: uint32)"
  "0x00fffff = (mask 0 OR push_bit 0 (mask 20) :: uint32)"
  "0x0ffffffc0ffffffc0ffffffc0fffffff = (mask 28 OR push_bit 34 (mask 26) OR push_bit 66 (mask 26) OR push_bit 98 (mask 26) :: nat)"
  by (simp_all add: mask_eq_exp_minus_1)

lemma clamp_nat:
  fixes x :: nat
  shows "x AND 0x0ffffffc0ffffffc0ffffffc0fffffff = x mod 2 ^ 28 + 2 ^ 34 * (x div 2 ^ 34 mod 2 ^ 26) + 2 ^ 66 * (x div 2 ^ 66 mod 2 ^ 26) +
    2 ^ 98 * (x div 2 ^ 98 mod 2 ^ 26)"
proof -
  define A B C D where "A = x mod 2 ^ 28" and "B = x div 2 ^ 34 mod 2 ^ 26" and "C = x div 2 ^ 66 mod 2 ^ 26" and
    "D = x div 2 ^ 98 mod 2 ^ 26"
  note defs = this
  have lt: "A < 2 ^ 28" "B < 2 ^ 26" "C < 2 ^ 26" unfolding defs by simp_all
  have "x AND 0x0ffffffc0ffffffc0ffffffc0fffffff =
      ((take_bit 28 x OR push_bit 34 (take_bit 26 (drop_bit 34 x))) OR push_bit 66 (take_bit 26 (drop_bit 66 x))) OR
        push_bit 98 (take_bit 26 (drop_bit 98 x))"
    unfolding clamp_constants(5) by (rule bit_eqI) (auto simp: bit_simps)
  also have "\<dots> = ((A OR push_bit 34 B) OR push_bit 66 C) OR push_bit 98 D"
    unfolding defs by (simp only: take_bit_eq_mod drop_bit_eq_div)
  also have "\<dots> = A + 2 ^ 34 * B + 2 ^ 66 * C + 2 ^ 98 * D"
    using lt by (simp add: or_push_nat)
  finally show ?thesis unfolding defs .
qed

lemma digits_mod: "m < 2 ^ i \<Longrightarrow> (m + 2 ^ i * z) mod 2 ^ i = m" for m z :: nat
  by simp

lemma digits_div: "m < 2 ^ i \<Longrightarrow> (m + 2 ^ i * z) div 2 ^ i = z" for m z :: nat
  by simp

lemma digits_window: "m < 2 ^ i \<Longrightarrow> x < 2 ^ l \<Longrightarrow> (m + 2 ^ i * (x + 2 ^ l * z)) div 2 ^ i mod 2 ^ l = x" for m x z :: nat
  by simp

lemma digits2: "x < 2 ^ (i + j) \<Longrightarrow> \<exists>y z. x = y + 2 ^ i * z \<and> y < 2 ^ i \<and> z < 2 ^ j" for x :: nat
  by (rule exI [of _ "x mod 2 ^ i"], rule exI [of _ "x div 2 ^ i"]) (simp add: power_add mult.commute less_mult_imp_div_less)

lemma digits3:
  fixes x :: nat
  assumes "x < 2 ^ (i + j + k)"
  shows "\<exists>x0 x1 x2. x = x0 + 2 ^ i * x1 + 2 ^ (i + j) * x2 \<and> x0 < 2 ^ i \<and> x1 < 2 ^ j \<and> x2 < 2 ^ k"
proof -
  define y where "y = x div 2 ^ i"
  have x: "x = x mod 2 ^ i + 2 ^ i * y" by (simp add: y_def)
  have "x = x mod 2 ^ i + 2 ^ i * (y mod 2 ^ j) + 2 ^ (i + j) * (y div 2 ^ j)"
  proof -
    have "2 ^ i * y = 2 ^ i * (y mod 2 ^ j + 2 ^ j * (y div 2 ^ j))" by simp
    then show ?thesis using x by (simp only: distrib_left power_add mult.assoc add.assoc)
  qed
  moreover have "x div 2 ^ (i + j) < 2 ^ k"
    using assms by (simp add: less_mult_imp_div_less power_add mult.commute)
  then have "y div 2 ^ j < 2 ^ k" by (simp add: y_def power_add div_mult2_eq)
  ultimately show ?thesis by (intro exI [of _ "x mod 2 ^ i"] exI [of _ "y mod 2 ^ j"] exI [of _ "y div 2 ^ j"]) simp
qed

lemma clamp_arith:
  fixes a b c d :: nat
  assumes "a < 2 ^ 32" and "b < 2 ^ 32" and "c < 2 ^ 32" and "d < 2 ^ 32"
  defines "K \<equiv> a + 2 ^ 32 * b + 2 ^ 64 * c + 2 ^ 96 * d"
  defines "X1 \<equiv> a div 2 ^ 26 + 2 ^ 6 * (b mod 2 ^ 26)" and "X2 \<equiv> b div 2 ^ 20 + 2 ^ 12 * (c mod 2 ^ 20)"
    and "X3 \<equiv> c div 2 ^ 14 + 2 ^ 18 * (d mod 2 ^ 14)"
  shows "a mod 2 ^ 26 + 2 ^ 26 * (X1 mod 2 ^ 2 + 2 ^ 8 * (X1 div 2 ^ 8 mod 2 ^ 18)) + 2 ^ 52 * (X2 mod 2 ^ 8 + 2 ^ 14 * (X2 div 2 ^ 14 mod 2 ^ 12)) +
    2 ^ 78 * (X3 mod 2 ^ 14 + 2 ^ 20 * (X3 div 2 ^ 20 mod 2 ^ 6)) + 2 ^ 104 * (d div 2 ^ 8 mod 2 ^ 20) =
    K mod 2 ^ 28 + 2 ^ 34 * (K div 2 ^ 34 mod 2 ^ 26) + 2 ^ 66 * (K div 2 ^ 66 mod 2 ^ 26) + 2 ^ 98 * (K div 2 ^ 98 mod 2 ^ 26)"
proof -
  obtain a0 a1 a2 where a: "a = a0 + 2 ^ 26 * a1 + 2 ^ 28 * a2" "a0 < 2 ^ 26" "a1 < 2 ^ 2" "a2 < 2 ^ 4"
    using digits3 [of a 26 2 4] assms(1) by auto
  obtain b0 b1 y where b': "b = b0 + 2 ^ 2 * b1 + 2 ^ 20 * y" "b0 < 2 ^ 2" "b1 < 2 ^ 18" "y < 2 ^ 12"
    using digits3 [of b 2 18 12] assms(2) by auto
  obtain b2 b3 b4 where y: "y = b2 + 2 ^ 6 * b3 + 2 ^ 8 * b4" "b2 < 2 ^ 6" "b3 < 2 ^ 2" "b4 < 2 ^ 4"
    using digits3 [of y 6 2 4] b'(4) by auto
  obtain c0 c1 z where c': "c = c0 + 2 ^ 2 * c1 + 2 ^ 14 * z" "c0 < 2 ^ 2" "c1 < 2 ^ 12" "z < 2 ^ 18"
    using digits3 [of c 2 12 18] assms(3) by auto
  obtain c2 c3 c4 where z: "z = c2 + 2 ^ 6 * c3 + 2 ^ 14 * c4" "c2 < 2 ^ 6" "c3 < 2 ^ 8" "c4 < 2 ^ 4"
    using digits3 [of z 6 8 4] c'(4) by auto
  obtain d0 d1 w where d': "d = d0 + 2 ^ 2 * d1 + 2 ^ 8 * w" "d0 < 2 ^ 2" "d1 < 2 ^ 6" "w < 2 ^ 24"
    using digits3 [of d 2 6 24] assms(4) by auto
  obtain d2 d3 d4 where w: "w = d2 + 2 ^ 6 * d3 + 2 ^ 20 * d4" "d2 < 2 ^ 6" "d3 < 2 ^ 14" "d4 < 2 ^ 4"
    using digits3 [of w 6 14 4] d'(4) by auto
  note digits = a b' y c' z d' w
  have "a mod 2 ^ 26 = a0" "a div 2 ^ 26 = a1 + 4 * a2"
    using digits_mod [of a0 26 "a1 + 4 * a2"] digits_div [of a0 26 "a1 + 4 * a2"] digits by (simp_all add: algebra_simps)
  moreover have "b mod 2 ^ 26 = b0 + 4 * b1 + 2 ^ 20 * b2" "b div 2 ^ 20 = b2 + 2 ^ 6 * b3 + 2 ^ 8 * b4"
    using digits_mod [of "b0 + 4 * b1 + 2 ^ 20 * b2" 26 "b3 + 4 * b4"] digits_div [of "b0 + 4 * b1" 20 y] digits by (simp_all add: algebra_simps)
  moreover have "c mod 2 ^ 20 = c0 + 4 * c1 + 2 ^ 14 * c2" "c div 2 ^ 14 = c2 + 2 ^ 6 * c3 + 2 ^ 14 * c4"
    using digits_mod [of "c0 + 4 * c1 + 2 ^ 14 * c2" 20 "c3 + 2 ^ 8 * c4"] digits_div [of "c0 + 4 * c1" 14 z] digits by (simp_all add: algebra_simps)
  moreover have "d mod 2 ^ 14 = d0 + 4 * d1 + 2 ^ 8 * d2" "d div 2 ^ 8 mod 2 ^ 20 = d2 + 2 ^ 6 * d3"
    using digits_mod [of "d0 + 4 * d1 + 2 ^ 8 * d2" 14 "d3 + 2 ^ 14 * d4"] digits_window [of "d0 + 4 * d1" 8 "d2 + 2 ^ 6 * d3" 20 d4] digits
    by (simp_all add: algebra_simps)
  ultimately have parts: "a mod 2 ^ 26 = a0" "X1 = a1 + 4 * a2 + 2 ^ 6 * (b0 + 4 * b1 + 2 ^ 20 * b2)"
    "X2 = b2 + 2 ^ 6 * b3 + 2 ^ 8 * b4 + 2 ^ 12 * (c0 + 4 * c1 + 2 ^ 14 * c2)"
    "X3 = c2 + 2 ^ 6 * c3 + 2 ^ 14 * c4 + 2 ^ 18 * (d0 + 4 * d1 + 2 ^ 8 * d2)" "d div 2 ^ 8 mod 2 ^ 20 = d2 + 2 ^ 6 * d3"
    by (simp_all add: X1_def X2_def X3_def)
  have 1: "X1 mod 2 ^ 2 = a1" "X1 div 2 ^ 8 mod 2 ^ 18 = b1"
    using digits_mod [of a1 2 "a2 + 2 ^ 4 * (b0 + 4 * b1 + 2 ^ 20 * b2)"] digits_window [of "a1 + 4 * a2 + 2 ^ 6 * b0" 8 b1 18 b2] digits
    unfolding parts(2) by (simp_all add: algebra_simps)
  have 2: "X2 mod 2 ^ 8 = b2 + 2 ^ 6 * b3" "X2 div 2 ^ 14 mod 2 ^ 12 = c1"
    using digits_mod [of "b2 + 2 ^ 6 * b3" 8 "b4 + 2 ^ 4 * (c0 + 4 * c1 + 2 ^ 14 * c2)"]
      digits_window [of "b2 + 2 ^ 6 * b3 + 2 ^ 8 * b4 + 2 ^ 12 * c0" 14 c1 12 c2] digits
    unfolding parts(3) by (simp_all add: algebra_simps)
  have 3: "X3 mod 2 ^ 14 = c2 + 2 ^ 6 * c3" "X3 div 2 ^ 20 mod 2 ^ 6 = d1"
    using digits_mod [of "c2 + 2 ^ 6 * c3" 14 "c4 + 2 ^ 4 * (d0 + 4 * d1 + 2 ^ 8 * d2)"]
      digits_window [of "c2 + 2 ^ 6 * c3 + 2 ^ 14 * c4 + 2 ^ 18 * d0" 20 d1 6 d2] digits
    unfolding parts(4) by (simp_all add: algebra_simps)
  have K1: "K mod 2 ^ 28 = a0 + 2 ^ 26 * a1"
    using digits_mod [of "a0 + 2 ^ 26 * a1" 28 "a2 + 2 ^ 4 * b + 2 ^ 36 * c + 2 ^ 68 * d"] digits(1-4)
    by (simp add: K_def algebra_simps)
  have K2: "K div 2 ^ 34 mod 2 ^ 26 = b1 + 2 ^ 18 * b2 + 2 ^ 24 * b3"
    using digits_window [of "a + 2 ^ 32 * b0" 34 "b1 + 2 ^ 18 * b2 + 2 ^ 24 * b3" 26 "b4 + 2 ^ 4 * c + 2 ^ 36 * d"] assms(1) digits(5-12)
    by (simp add: K_def algebra_simps)
  have K3: "K div 2 ^ 66 mod 2 ^ 26 = c1 + 2 ^ 12 * c2 + 2 ^ 18 * c3"
    using digits_window [of "a + 2 ^ 32 * b + 2 ^ 64 * c0" 66 "c1 + 2 ^ 12 * c2 + 2 ^ 18 * c3" 26 "c4 + 2 ^ 4 * d"] assms(1,2) digits(13-20)
    by (simp add: K_def algebra_simps)
  have K4: "K div 2 ^ 98 mod 2 ^ 26 = d1 + 2 ^ 6 * d2 + 2 ^ 12 * d3"
    using digits_window [of "a + 2 ^ 32 * b + 2 ^ 64 * c + 2 ^ 96 * d0" 98 "d1 + 2 ^ 6 * d2 + 2 ^ 12 * d3" 26 d4] assms(1-3) digits(21-)
    by (simp add: K_def algebra_simps)
  show ?thesis unfolding parts(1,5) 1 2 3 K1 K2 K3 K4 by simp
qed

lemma init_absorbed:
  assumes "length key = 32" and "length (st_buf st) = 16"
  shows "absorbed (poly_r key) (take 16 (drop 16 key)) [] (CRYPTO_poly1305_init st key)"
proof -
  define a b c d where "a = le_nat (take 4 key)" and "b = le_nat (take 4 (drop 4 key))" and "c = le_nat (take 4 (drop 8 key))"
    and "d = le_nat (take 4 (drop 12 key))"
  note defs = this
  have lt: "a < 2 ^ 32" "b < 2 ^ 32" "c < 2 ^ 32" "d < 2 ^ 32"
    unfolding defs using assms(1) by (auto intro: order_less_le_trans [OF le_nat_bound])
  let ?t0 = "U8TO32_LE key" and ?t1 = "U8TO32_LE (drop 4 key)" and ?t2 = "U8TO32_LE (drop 8 key)" and ?t3 = "U8TO32_LE (drop 12 key)"
  have t: "unat ?t0 = a" "unat ?t1 = b" "unat ?t2 = c" "unat ?t3 = d" by (simp_all add: defs)
  define X1 X2 X3 where "X1 = a div 2 ^ 26 + 2 ^ 6 * (b mod 2 ^ 26)" and "X2 = b div 2 ^ 20 + 2 ^ 12 * (c mod 2 ^ 20)"
    and "X3 = c div 2 ^ 14 + 2 ^ 18 * (d mod 2 ^ 14)"
  define r1 r2 r3 r4 where "r1 = (drop_bit 26 ?t0 OR push_bit 6 ?t1) AND 0x3ffff03"
    and "r2 = (drop_bit 20 ?t1 OR push_bit 12 ?t2) AND 0x3ffc0ff" and "r3 = (drop_bit 14 ?t2 OR push_bit 18 ?t3) AND 0x3f03fff"
    and "r4 = drop_bit 8 ?t3 AND 0x00fffff"
  have X: "unat (drop_bit 26 ?t0 OR push_bit 6 ?t1) = X1" "unat (drop_bit 20 ?t1 OR push_bit 12 ?t2) = X2"
    "unat (drop_bit 14 ?t2 OR push_bit 18 ?t3) = X3"
    using unat_join_words [of 26 ?t0 ?t1] unat_join_words [of 20 ?t1 ?t2] unat_join_words [of 14 ?t2 ?t3]
    by (simp_all add: X1_def X2_def X3_def defs)
  have u1: "unat r1 = X1 mod 2 ^ 2 + 2 ^ 8 * (X1 div 2 ^ 8 mod 2 ^ 18)"
    unfolding r1_def X(1) [symmetric] by (rule unat_and_segments [OF _ _ clamp_constants(1)]) simp_all
  have u2: "unat r2 = X2 mod 2 ^ 8 + 2 ^ 14 * (X2 div 2 ^ 14 mod 2 ^ 12)"
    unfolding r2_def X(2) [symmetric] by (rule unat_and_segments [OF _ _ clamp_constants(2)]) simp_all
  have u3: "unat r3 = X3 mod 2 ^ 14 + 2 ^ 20 * (X3 div 2 ^ 20 mod 2 ^ 6)"
    unfolding r3_def X(3) [symmetric] by (rule unat_and_segments [OF _ _ clamp_constants(3)]) simp_all
  have "unat (drop_bit 8 ?t3) = d div 2 ^ 8" by (simp only: unat_drop_bit t)
  then have u4: "unat r4 = d div 2 ^ 8 mod 2 ^ 20"
    unfolding r4_def using unat_and_segments [OF _ _ clamp_constants(4), of "drop_bit 8 ?t3"] by simp
  note u = u1 u2 u3 u4
  have lts: "unat r1 < 2 ^ 26" "unat r2 < 2 ^ 26" "unat r3 < 2 ^ 26" "unat r4 < 2 ^ 20"
    unfolding u using segments_less [of 2 8 X1 "X1 div 2 ^ 8" 18] segments_less [of 8 14 X2 "X2 div 2 ^ 14" 12]
      segments_less [of 14 20 X3 "X3 div 2 ^ 20" 6] by (simp_all del: mod_mult_self2)
  have run: "CRYPTO_poly1305_init st key = st\<lparr>st_r0 := ?t0 AND 0x3ffffff, st_r1 := r1, st_r2 := r2, st_r3 := r3, st_r4 := r4,
      st_s1 := r1 * 5, st_s2 := r2 * 5, st_s3 := r3 * 5, st_s4 := r4 * 5,
      st_h0 := 0, st_h1 := 0, st_h2 := 0, st_h3 := 0, st_h4 := 0, st_used := 0, st_key := take 16 (drop 16 key)\<rparr>"
    by (simp only: CRYPTO_poly1305_init_def Let_def r1_def r2_def r3_def r4_def)
  have key: "le_nat (take 16 key) = a + 2 ^ 32 * b + 2 ^ 64 * c + 2 ^ 96 * d"
    unfolding defs by (rule le_nat_16) (simp add: assms(1))
  have "unat (?t0 AND 0x3ffffff) = a mod 2 ^ 26" by (simp only: unat_and_26 t)
  then have "r_of (CRYPTO_poly1305_init st key) = poly_r key"
    unfolding run poly_r_def key clamp_nat clamp_arith [OF lt, symmetric] X1_def [symmetric] X2_def [symmetric] X3_def [symmetric]
    by (simp add: r_of_def u)
  moreover have "unat (?t0 AND 0x3ffffff) < 2 ^ 26" by (simp only: unat_and_26) simp
  then have "r_ok (CRYPTO_poly1305_init st key)" unfolding run using lts by (simp add: r_ok_def)
  ultimately show ?thesis
    unfolding absorbed_def using assms(2) by (simp add: run h_ok_def acc_of_def)
qed

section \<open>The tag\<close>

text \<open>The digits of the accumulator, as numbers.\<close>

definition digits_of :: "poly1305_state_st \<Rightarrow> nat \<Rightarrow> nat \<Rightarrow> nat \<Rightarrow> nat \<Rightarrow> nat \<Rightarrow> bool" where
  "digits_of st d0 d1 d2 d3 d4 \<longleftrightarrow> unat (st_h0 st) = d0 \<and> unat (st_h1 st) = d1 \<and> unat (st_h2 st) = d2 \<and>
    unat (st_h3 st) = d3 \<and> unat (st_h4 st) = d4"

lemma digits_of_update:
  "digits_of (st\<lparr>st_h0 := a, st_h1 := b, st_h2 := c, st_h3 := d, st_h4 := e\<rparr>) d0 d1 d2 d3 d4 \<longleftrightarrow>
    unat a = d0 \<and> unat b = d1 \<and> unat c = d2 \<and> unat d = d3 \<and> unat e = d4"
  by (simp add: digits_of_def)

lemma unat_drop_26 [simp]: "unat (drop_bit 26 (x :: uint32)) = unat x div 2 ^ 26"
  by (rule unat_drop_bit)

lemma unat_plus_small: "unat x = X \<Longrightarrow> unat y = Y \<Longrightarrow> X + Y < 2 ^ 32 \<Longrightarrow> unat (x + y :: uint32) = X + Y"
  using unat_plus [of x y] by simp

text \<open>One carry of a small amount leaves an amount of at most one.\<close>

lemma carry_one: "x < 2 ^ 26 \<Longrightarrow> c < 2 ^ 26 \<Longrightarrow> (x + c) div 2 ^ 26 \<le> 1" for x c :: nat
proof -
  assume "x < 2 ^ 26" "c < 2 ^ 26"
  then have "x + c < 2 * 2 ^ 26" by simp
  then have "(x + c) div 2 ^ 26 < 2" by (rule less_mult_imp_div_less)
  then show ?thesis by simp
qed

lemma carry_digits:
  assumes "h_ok st"
  obtains d0 d1 d2 d3 d4 b where "digits_of (poly1305_carry st) (d0 + b * 5) d1 d2 d3 d4" and "b \<le> 1"
    and "d0 < 2 ^ 26" "d1 < 2 ^ 26" "d2 < 2 ^ 26" "d3 < 2 ^ 26" "d4 < 2 ^ 26"
    and "acc_of (poly1305_carry st) + poly_p * b = acc_of st"
proof -
  define h0 h1 h2 h3 h4 where "h0 = unat (st_h0 st)" and "h1 = unat (st_h1 st)" and "h2 = unat (st_h2 st)" and
    "h3 = unat (st_h3 st)" and "h4 = unat (st_h4 st)"
  note hs = this
  have h: "h0 < 42 * 2 ^ 26" "h1 < 2 ^ 26" "h2 < 2 ^ 26" "h3 < 2 ^ 26" "h4 < 2 ^ 26" using assms by (simp_all add: h_ok_def hs)
  define c0 where "c0 = h0 div 2 ^ 26"
  define c1 where "c1 = (h1 + c0) div 2 ^ 26"
  define c2 where "c2 = (h2 + c1) div 2 ^ 26"
  define c3 where "c3 = (h3 + c2) div 2 ^ 26"
  define c4 where "c4 = (h4 + c3) div 2 ^ 26"
  have c0: "c0 < 42" unfolding c0_def using h(1) by (rule less_mult_imp_div_less)
  have c: "c1 \<le> 1" "c2 \<le> 1" "c3 \<le> 1" "c4 \<le> 1"
  proof -
    show 1: "c1 \<le> 1" unfolding c1_def by (rule carry_one [OF h(2)]) (use c0 in simp)
    show 2: "c2 \<le> 1" unfolding c2_def by (rule carry_one [OF h(3)]) (use 1 in simp)
    show 3: "c3 \<le> 1" unfolding c3_def by (rule carry_one [OF h(4)]) (use 2 in simp)
    show "c4 \<le> 1" unfolding c4_def by (rule carry_one [OF h(5)]) (use 3 in simp)
  qed
  define u1 u2 u3 u4 where "u1 = st_h1 st + drop_bit 26 (st_h0 st)" and "u2 = st_h2 st + drop_bit 26 u1"
    and "u3 = st_h3 st + drop_bit 26 u2" and "u4 = st_h4 st + drop_bit 26 u3"
  have u1: "unat u1 = h1 + c0" unfolding u1_def
    by (rule unat_plus_small) (use h(2) c0 in \<open>simp_all add: hs c0_def\<close>)
  have u2: "unat u2 = h2 + c1" unfolding u2_def
    by (rule unat_plus_small) (use h(3) c u1 in \<open>simp_all add: hs c1_def\<close>)
  have u3: "unat u3 = h3 + c2" unfolding u3_def
    by (rule unat_plus_small) (use h(4) c u2 in \<open>simp_all add: hs c2_def\<close>)
  have u4: "unat u4 = h4 + c3" unfolding u4_def
    by (rule unat_plus_small) (use h(5) c u3 in \<open>simp_all add: hs c3_def\<close>)
  have m: "x mod 2 ^ 26 < 2 ^ 26" for x :: nat by simp
  have "unat (drop_bit 26 u4 * 5) = c4 * 5" using c(4) u4 by (simp add: unat_word_ariths c4_def)
  then have d0: "unat ((st_h0 st AND 0x3ffffff) + drop_bit 26 u4 * 5) = h0 mod 2 ^ 26 + c4 * 5"
    by (intro unat_plus_small) (use c(4) m [of h0] in \<open>simp_all add: hs\<close>)
  have run: "poly1305_carry st = st\<lparr>st_h0 := (st_h0 st AND 0x3ffffff) + drop_bit 26 u4 * 5, st_h1 := u1 AND 0x3ffffff,
      st_h2 := u2 AND 0x3ffffff, st_h3 := u3 AND 0x3ffffff, st_h4 := u4 AND 0x3ffffff\<rparr>"
    by (simp only: poly1305_carry_def Let_def u4_def u3_def u2_def u1_def)
  have d: "digits_of (poly1305_carry st) (h0 mod 2 ^ 26 + c4 * 5) ((h1 + c0) mod 2 ^ 26) ((h2 + c1) mod 2 ^ 26)
      ((h3 + c2) mod 2 ^ 26) ((h4 + c3) mod 2 ^ 26)"
    unfolding run digits_of_update by (simp only: d0 unat_and_26 u1 u2 u3 u4 simp_thms)
  have e: "x = 2 ^ 26 * (x div 2 ^ 26) + x mod 2 ^ 26" for x :: nat by simp
  have "acc_of (poly1305_carry st) + poly_p * c4 = acc_of st"
    using d unfolding digits_of_def acc_of_def [of "poly1305_carry st"] acc_of_def [of st] hs [symmetric]
    using carry_identity [OF e [of h0, folded c0_def] e [of "h1 + c0", folded c1_def] e [of "h2 + c1", folded c2_def]
        e [of "h3 + c2", folded c3_def] e [of "h4 + c3", folded c4_def]] by (simp only:)
  with d c(4) m show ?thesis by (intro that) 
qed

lemma select_mask: "(x AND NOT (0 :: uint32)) OR (y AND 0) = x" "(x AND NOT (- 1 :: uint32)) OR (y AND - 1) = y"
  by simp_all

lemma carry4_identity:
  fixes T0 T1 T2 T3 T4 c0 c1 c2 c3 m0 m1 m2 m3 :: nat
  assumes "T0 + 5 = 2 ^ 26 * c0 + m0" and "T1 + c0 = 2 ^ 26 * c1 + m1" and "T2 + c1 = 2 ^ 26 * c2 + m2"
    and "T3 + c2 = 2 ^ 26 * c3 + m3"
  shows "(T0 + 2 ^ 26 * T1 + 2 ^ 52 * T2 + 2 ^ 78 * T3 + 2 ^ 104 * T4) + 5 =
    m0 + 2 ^ 26 * m1 + 2 ^ 52 * m2 + 2 ^ 78 * m3 + 2 ^ 104 * (T4 + c3)"
proof -
  have "2 ^ 26 * (T1 + c0) = 2 ^ 26 * (2 ^ 26 * c1 + m1)" "2 ^ 52 * (T2 + c1) = 2 ^ 52 * (2 ^ 26 * c2 + m2)"
    "2 ^ 78 * (T3 + c2) = 2 ^ 78 * (2 ^ 26 * c3 + m3)"
    unfolding assms by (rule refl)+
  then show ?thesis using assms(1) by simp
qed

lemma digits_less: "x0 < 2 ^ 26 \<Longrightarrow> x1 < 2 ^ 26 \<Longrightarrow> x2 < 2 ^ 26 \<Longrightarrow> x3 < 2 ^ 26 \<Longrightarrow>
    x0 + 2 ^ 26 * x1 + 2 ^ 52 * x2 + 2 ^ 78 * x3 < 2 ^ 104" for x0 x1 x2 x3 :: nat
  by simp

lemma acc_digits: "digits_of st d0 d1 d2 d3 d4 \<Longrightarrow> acc_of st = d0 + 2 ^ 26 * d1 + 2 ^ 52 * d2 + 2 ^ 78 * d3 + 2 ^ 104 * d4"
  by (simp add: digits_of_def acc_of_def)

text \<open>Subtracting the prime once if that is possible, by the sign of the difference.\<close>

lemma reduce_digits:
  assumes d: "digits_of st d0 d1 d2 d3 d4" and lt: "d0 < 2 ^ 26" "d1 < 2 ^ 26" "d2 < 2 ^ 26" "d3 < 2 ^ 26" "d4 < 2 ^ 26"
  obtains e0 e1 e2 e3 e4 where "digits_of (poly1305_reduce st) e0 e1 e2 e3 e4"
    and "e0 < 2 ^ 26" "e1 < 2 ^ 26" "e2 < 2 ^ 26" "e3 < 2 ^ 26" "e4 < 2 ^ 26"
    and "acc_of (poly1305_reduce st) = acc_of st mod poly_p"
proof -
  define c0 where "c0 = (d0 + 5) div 2 ^ 26"
  define c1 where "c1 = (d1 + c0) div 2 ^ 26"
  define c2 where "c2 = (d2 + c1) div 2 ^ 26"
  define c3 where "c3 = (d3 + c2) div 2 ^ 26"
  have c: "c0 \<le> 1" "c1 \<le> 1" "c2 \<le> 1" "c3 \<le> 1"
  proof -
    show 0: "c0 \<le> 1" unfolding c0_def by (rule carry_one [OF lt(1)]) simp
    show 1: "c1 \<le> 1" unfolding c1_def by (rule carry_one [OF lt(2)]) (use 0 in simp)
    show 2: "c2 \<le> 1" unfolding c2_def by (rule carry_one [OF lt(3)]) (use 1 in simp)
    show "c3 \<le> 1" unfolding c3_def by (rule carry_one [OF lt(4)]) (use 2 in simp)
  qed
  have h: "unat (st_h0 st) = d0" "unat (st_h1 st) = d1" "unat (st_h2 st) = d2" "unat (st_h3 st) = d3" "unat (st_h4 st) = d4"
    using d by (simp_all add: digits_of_def)
  define g0 g1 g2 g3 g4 where "g0 = st_h0 st + 5" and "g1 = st_h1 st + drop_bit 26 g0" and "g2 = st_h2 st + drop_bit 26 g1"
    and "g3 = st_h3 st + drop_bit 26 g2" and "g4 = st_h4 st + drop_bit 26 g3"
  have g0: "unat g0 = d0 + 5" unfolding g0_def by (rule unat_plus_small) (use lt(1) h in simp_all)
  have g1: "unat g1 = d1 + c0" unfolding g1_def by (rule unat_plus_small) (use lt(2) c h g0 in \<open>simp_all add: c0_def\<close>)
  have g2: "unat g2 = d2 + c1" unfolding g2_def by (rule unat_plus_small) (use lt(3) c h g1 in \<open>simp_all add: c1_def\<close>)
  have g3: "unat g3 = d3 + c2" unfolding g3_def by (rule unat_plus_small) (use lt(4) c h g2 in \<open>simp_all add: c2_def\<close>)
  have g4: "unat g4 = d4 + c3" unfolding g4_def by (rule unat_plus_small) (use lt(5) c h g3 in \<open>simp_all add: c3_def\<close>)
  have g4': "unat g4 \<le> 2 ^ 26" using g4 lt(5) c(4) by simp
  define b where "b = drop_bit 31 (g4 - push_bit 26 1) - 1"
  have run: "poly1305_reduce st = st\<lparr>st_h0 := (st_h0 st AND NOT b) OR ((g0 AND 0x3ffffff) AND b),
      st_h1 := (st_h1 st AND NOT b) OR ((g1 AND 0x3ffffff) AND b), st_h2 := (st_h2 st AND NOT b) OR ((g2 AND 0x3ffffff) AND b),
      st_h3 := (st_h3 st AND NOT b) OR ((g3 AND 0x3ffffff) AND b), st_h4 := (st_h4 st AND NOT b) OR ((g4 - push_bit 26 1) AND b)\<rparr>"
    by (simp only: poly1305_reduce_def Let_def g0_def g1_def g2_def g3_def g4_def b_def)
  have m: "x mod 2 ^ 26 < 2 ^ 26" for x :: nat by simp
  have e: "x = 2 ^ 26 * (x div 2 ^ 26) + x mod 2 ^ 26" for x :: nat by simp
  have acc: "acc_of st = d0 + 2 ^ 26 * d1 + 2 ^ 52 * d2 + 2 ^ 78 * d3 + 2 ^ 104 * d4" by (simp add: acc_of_def h)
  have top: "acc_of st < 2 ^ 130" using lt unfolding acc by simp
  have plus5: "acc_of st + 5 = (d0 + 5) mod 2 ^ 26 + 2 ^ 26 * ((d1 + c0) mod 2 ^ 26) + 2 ^ 52 * ((d2 + c1) mod 2 ^ 26) +
      2 ^ 78 * ((d3 + c2) mod 2 ^ 26) + 2 ^ 104 * (d4 + c3)"
    unfolding acc by (rule carry4_identity [OF e [of "d0 + 5", folded c0_def] e [of "d1 + c0", folded c1_def] e [of "d2 + c1", folded c2_def] e [of "d3 + c2", folded c3_def]])
  have low: "(d0 + 5) mod 2 ^ 26 + 2 ^ 26 * ((d1 + c0) mod 2 ^ 26) + 2 ^ 52 * ((d2 + c1) mod 2 ^ 26) + 2 ^ 78 * ((d3 + c2) mod 2 ^ 26) < 2 ^ 104"
    by (rule digits_less [OF m m m m])
  show ?thesis
  proof (cases "d4 + c3 < 2 ^ 26")
    case True
    have "g4 - push_bit 26 1 = g4 + 0xFC000000" by simp
    moreover have "unat (g4 + 0xFC000000) = (d4 + c3) + 0xFC000000"
      by (rule unat_plus_small [OF g4]) (use True in simp_all)
    ultimately have "unat (drop_bit 31 (g4 - push_bit 26 1)) = 1"
      using True by (simp only: unat_drop_bit) (simp add: div_nat_eqI)
    then have "drop_bit 31 (g4 - push_bit 26 1) = 1" by (simp only: word_unat_eq_iff unat_1)
    then have "b = 0" unfolding b_def by (simp only: diff_self)
    then have r: "digits_of (poly1305_reduce st) d0 d1 d2 d3 d4"
      unfolding run digits_of_update by (simp only: select_mask h simp_thms)
    have "2 ^ 104 * (d4 + c3) + 2 ^ 104 \<le> 2 ^ 104 * (2 ^ 26 :: nat)" using True by simp
    then have "acc_of st + 5 < 2 ^ 130" using plus5 low by simp
    then have "acc_of st mod poly_p = acc_of st" by simp
    then show ?thesis using r lt acc by (intro that [OF r lt]) (simp only: acc_digits [OF r])
  next
    case False
    then have z: "d4 + c3 = 2 ^ 26" using g4 g4' by simp
    then have "g4 = push_bit 26 1" by (simp only: word_unat_eq_iff g4) simp
    then have g: "g4 - push_bit 26 1 = 0" by (simp only: diff_self)
    then have "b = - 1" unfolding b_def by simp
    then have r: "digits_of (poly1305_reduce st) ((d0 + 5) mod 2 ^ 26) ((d1 + c0) mod 2 ^ 26) ((d2 + c1) mod 2 ^ 26) ((d3 + c2) mod 2 ^ 26) 0"
      unfolding run digits_of_update by (simp only: select_mask g unat_and_26 g0 g1 g2 g3 unat_0 simp_thms)
    have "acc_of (poly1305_reduce st) + 2 ^ 130 = acc_of st + 5"
      unfolding plus5 acc_digits [OF r] z by simp
    then have "acc_of st = acc_of (poly1305_reduce st) + poly_p" by simp
    moreover from this have "acc_of (poly1305_reduce st) < poly_p" using top by simp
    ultimately have "acc_of (poly1305_reduce st) = acc_of st mod poly_p" by simp
    then show ?thesis by (intro that [OF r m m m m]) simp_all
  qed
qed

text \<open>Four words from five digits.\<close>

lemma unat_or_shift:
  fixes a y :: uint32
  assumes "unat a < 2 ^ k" and "k \<le> 32"
  shows "unat (a OR push_bit k y) = unat a + 2 ^ k * (unat y mod 2 ^ (32 - k))"
proof -
  have p: "push_bit k y = push_bit k (take_bit (32 - k) y)"
    by (rule bit_word_eqI) (use assms in \<open>auto simp: bit_simps\<close>)
  have e: "(2::nat) ^ 32 = 2 ^ (32 - k) * 2 ^ k" using assms(2) by (simp add: power_add [symmetric])
  have "(unat y mod 2 ^ (32 - k) + 1) * 2 ^ k \<le> 2 ^ (32 - k) * 2 ^ k" by (intro mult_le_mono1) (simp add: Suc_leI)
  then have "unat (take_bit (32 - k) y) * 2 ^ k + unat a < 2 ^ 32" using assms(1) e by (simp add: unat_take_bit)
  then show ?thesis
    unfolding p using unat_or_push [OF assms(1), of "take_bit (32 - k) y"] by (simp add: unat_take_bit)
qed

lemma words_of_digits:
  fixes d0 d1 d2 d3 d4 :: nat
  assumes "d0 < 2 ^ 26" "d1 < 2 ^ 26" "d2 < 2 ^ 26" "d3 < 2 ^ 26" "d4 < 2 ^ 26"
  shows "(d0 + 2 ^ 26 * (d1 mod 2 ^ 6)) + 2 ^ 32 * (d1 div 2 ^ 6 + 2 ^ 20 * (d2 mod 2 ^ 12)) +
      2 ^ 64 * (d2 div 2 ^ 12 + 2 ^ 14 * (d3 mod 2 ^ 18)) + 2 ^ 96 * (d3 div 2 ^ 18 + 2 ^ 8 * (d4 mod 2 ^ 24)) =
    (d0 + 2 ^ 26 * d1 + 2 ^ 52 * d2 + 2 ^ 78 * d3 + 2 ^ 104 * d4) mod 2 ^ 128"
proof -
  obtain x1 y1 where 1: "d1 = x1 + 2 ^ 6 * y1" "x1 < 2 ^ 6" "y1 < 2 ^ 20" using digits2 [of d1 6 20] assms(2) by auto
  obtain x2 y2 where 2: "d2 = x2 + 2 ^ 12 * y2" "x2 < 2 ^ 12" "y2 < 2 ^ 14" using digits2 [of d2 12 14] assms(3) by auto
  obtain x3 y3 where 3: "d3 = x3 + 2 ^ 18 * y3" "x3 < 2 ^ 18" "y3 < 2 ^ 8" using digits2 [of d3 18 8] assms(4) by auto
  obtain x4 y4 where 4: "d4 = x4 + 2 ^ 24 * y4" "x4 < 2 ^ 24" "y4 < 2 ^ 2" using digits2 [of d4 24 2] assms(5) by auto
  have m: "d1 mod 2 ^ 6 = x1" "d1 div 2 ^ 6 = y1" "d2 mod 2 ^ 12 = x2" "d2 div 2 ^ 12 = y2" "d3 mod 2 ^ 18 = x3" "d3 div 2 ^ 18 = y3"
    "d4 mod 2 ^ 24 = x4"
    using 1 2 3 4 by simp_all
  define L where "L = d0 + 2 ^ 26 * x1 + 2 ^ 32 * y1 + 2 ^ 52 * x2 + 2 ^ 64 * y2 + 2 ^ 78 * x3 + 2 ^ 96 * y3 + 2 ^ 104 * x4"
  have "L < 2 ^ 128" unfolding L_def using assms(1) 1 2 3 4 by simp
  moreover have "d0 + 2 ^ 26 * d1 + 2 ^ 52 * d2 + 2 ^ 78 * d3 + 2 ^ 104 * d4 = L + 2 ^ 128 * y4"
    unfolding L_def 1(1) 2(1) 3(1) 4(1) by simp
  ultimately have "(d0 + 2 ^ 26 * d1 + 2 ^ 52 * d2 + 2 ^ 78 * d3 + 2 ^ 104 * d4) mod 2 ^ 128 = L" by (simp only: digits_mod)
  then show ?thesis unfolding m by (simp add: L_def)
qed

lemma add_words:
  fixes F0 F1 F2 F3 :: nat
  defines "G1 \<equiv> F1 + F0 div 2 ^ 32"
  defines "G2 \<equiv> F2 + G1 div 2 ^ 32"
  defines "G3 \<equiv> F3 + G2 div 2 ^ 32"
  shows "F0 mod 2 ^ 32 + 2 ^ 32 * (G1 mod 2 ^ 32) + 2 ^ 64 * (G2 mod 2 ^ 32) + 2 ^ 96 * (G3 mod 2 ^ 32) =
    (F0 + 2 ^ 32 * F1 + 2 ^ 64 * F2 + 2 ^ 96 * F3) mod 2 ^ 128"
proof -
  have e: "x = 2 ^ 32 * (x div 2 ^ 32) + x mod 2 ^ 32" for x :: nat by simp
  define q0 q1 q2 q3 where "q0 = F0 div 2 ^ 32" and "q1 = G1 div 2 ^ 32" and "q2 = G2 div 2 ^ 32" and "q3 = G3 div 2 ^ 32"
  define m0 m1 m2 m3 where "m0 = F0 mod 2 ^ 32" and "m1 = G1 mod 2 ^ 32" and "m2 = G2 mod 2 ^ 32" and "m3 = G3 mod 2 ^ 32"
  have m: "m0 < 2 ^ 32" "m1 < 2 ^ 32" "m2 < 2 ^ 32" "m3 < 2 ^ 32" by (simp_all add: m0_def m1_def m2_def m3_def)
  have "F0 = 2 ^ 32 * q0 + m0" "G1 = 2 ^ 32 * q1 + m1" "G2 = 2 ^ 32 * q2 + m2" "G3 = 2 ^ 32 * q3 + m3"
    unfolding q0_def q1_def q2_def q3_def m0_def m1_def m2_def m3_def by (rule e)+
  then have g: "F0 = 2 ^ 32 * q0 + m0" "F1 + q0 = 2 ^ 32 * q1 + m1" "F2 + q1 = 2 ^ 32 * q2 + m2" "F3 + q2 = 2 ^ 32 * q3 + m3"
    unfolding G1_def G2_def G3_def q0_def [symmetric] q1_def [unfolded G1_def, symmetric] q2_def [unfolded G2_def, symmetric] by (simp_all only: q0_def q1_def q2_def G1_def G2_def)
  have "2 ^ 32 * (F1 + q0) = 2 ^ 32 * (2 ^ 32 * q1 + m1)" "2 ^ 64 * (F2 + q1) = 2 ^ 64 * (2 ^ 32 * q2 + m2)"
    "2 ^ 96 * (F3 + q2) = 2 ^ 96 * (2 ^ 32 * q3 + m3)"
    unfolding g by (rule refl)+
  then have "F0 + 2 ^ 32 * F1 + 2 ^ 64 * F2 + 2 ^ 96 * F3 = (m0 + 2 ^ 32 * m1 + 2 ^ 64 * m2 + 2 ^ 96 * m3) + 2 ^ 128 * q3"
    using g(1) by simp
  moreover have "m0 + 2 ^ 32 * m1 + 2 ^ 64 * m2 + 2 ^ 96 * m3 < 2 ^ 128" using m by simp
  ultimately show ?thesis unfolding m0_def [symmetric] m1_def [symmetric] m2_def [symmetric] m3_def [symmetric] by (simp only: digits_mod)
qed

lemma le_nat_U32TO8: "le_nat (U32TO8_LE v) = unat v"
proof -
  define x where "x = unat v"
  have "x < 2 ^ 32" using unat_lt [of v] by (simp add: x_def)
  then have "x div 256 div 256 div 256 < 256" by (simp add: div_mult2_eq [symmetric] less_mult_imp_div_less)
  then have "x = x mod 256 + 256 * (x div 256 mod 256 + 256 * (x div 256 div 256 mod 256 + 256 * (x div 256 div 256 div 256 mod 256)))"
    by simp
  moreover have "x div 2 ^ 16 = x div 256 div 256" "x div 2 ^ 24 = x div 256 div 256 div 256" by (simp_all add: div_mult2_eq [symmetric])
  ultimately show ?thesis
    by (simp add: U32TO8_LE_def store32_le_def unsigned_ucast_eq take_bit_eq_mod unat_drop_bit x_def)
qed

lemma length_tag [simp]: "length (poly1305_tag st) = 16"
  by (simp add: poly1305_tag_def Let_def U32TO8_LE_def store32_le_def)

lemma tag_digits:
  assumes d: "digits_of st d0 d1 d2 d3 d4" and lt: "d0 < 2 ^ 26" "d1 < 2 ^ 26" "d2 < 2 ^ 26" "d3 < 2 ^ 26" "d4 < 2 ^ 26"
    and key: "length (st_key st) = 16"
  shows "le_nat (poly1305_tag st) = (acc_of st + le_nat (st_key st)) mod 2 ^ 128"
proof -
  have h: "unat (st_h0 st) = d0" "unat (st_h1 st) = d1" "unat (st_h2 st) = d2" "unat (st_h3 st) = d3" "unat (st_h4 st) = d4"
    using d by (simp_all add: digits_of_def)
  define k0 k1 k2 k3 where "k0 = le_nat (take 4 (st_key st))" and "k1 = le_nat (take 4 (drop 4 (st_key st)))"
    and "k2 = le_nat (take 4 (drop 8 (st_key st)))" and "k3 = le_nat (take 4 (drop 12 (st_key st)))"
  note ks = this
  have k: "le_nat (st_key st) = k0 + 2 ^ 32 * k1 + 2 ^ 64 * k2 + 2 ^ 96 * k3"
    using le_nat_16 [of "st_key st"] key by (simp add: ks)
  have klt: "k0 < 2 ^ 32" "k1 < 2 ^ 32" "k2 < 2 ^ 32" "k3 < 2 ^ 32"
    unfolding ks using key by (auto intro: order_less_le_trans [OF le_nat_bound])
  define a0 a1 a2 a3 where "a0 = d0 + 2 ^ 26 * (d1 mod 2 ^ 6)" and "a1 = d1 div 2 ^ 6 + 2 ^ 20 * (d2 mod 2 ^ 12)"
    and "a2 = d2 div 2 ^ 12 + 2 ^ 14 * (d3 mod 2 ^ 18)" and "a3 = d3 div 2 ^ 18 + 2 ^ 8 * (d4 mod 2 ^ 24)"
  have div_lt: "d1 div 2 ^ 6 < 2 ^ 20" "d2 div 2 ^ 12 < 2 ^ 14" "d3 div 2 ^ 18 < 2 ^ 8"
    using lt by (simp_all add: less_mult_imp_div_less)
  let ?w0 = "st_h0 st OR push_bit 26 (st_h1 st)" and ?w1 = "drop_bit 6 (st_h1 st) OR push_bit 20 (st_h2 st)"
    and ?w2 = "drop_bit 12 (st_h2 st) OR push_bit 14 (st_h3 st)" and ?w3 = "drop_bit 18 (st_h3 st) OR push_bit 8 (st_h4 st)"
  have w0: "unat ?w0 = a0" using unat_or_shift [of "st_h0 st" 26 "st_h1 st"] lt h by (simp add: a0_def)
  have w1: "unat ?w1 = a1" using unat_or_shift [of "drop_bit 6 (st_h1 st)" 20 "st_h2 st"] div_lt h by (simp add: a1_def unat_drop_bit)
  have w2: "unat ?w2 = a2" using unat_or_shift [of "drop_bit 12 (st_h2 st)" 14 "st_h3 st"] div_lt h by (simp add: a2_def unat_drop_bit)
  have w3: "unat ?w3 = a3" using unat_or_shift [of "drop_bit 18 (st_h3 st)" 8 "st_h4 st"] div_lt h by (simp add: a3_def unat_drop_bit)
  have alt: "a0 < 2 ^ 32" "a1 < 2 ^ 32" "a2 < 2 ^ 32" "a3 < 2 ^ 32"
    using unat_lt [of ?w0] unat_lt [of ?w1] unat_lt [of ?w2] unat_lt [of ?w3] unfolding w0 w1 w2 w3 by simp_all
  define f0 f1 f2 f3 :: uint64 where "f0 = ucast ?w0 + ucast (U8TO32_LE (st_key st))"
    and "f1 = ucast ?w1 + ucast (U8TO32_LE (drop 4 (st_key st))) + drop_bit 32 f0"
    and "f2 = ucast ?w2 + ucast (U8TO32_LE (drop 8 (st_key st))) + drop_bit 32 f1"
    and "f3 = ucast ?w3 + ucast (U8TO32_LE (drop 12 (st_key st))) + drop_bit 32 f2"
  have run: "poly1305_tag st = U32TO8_LE (ucast f0) @ U32TO8_LE (ucast f1) @ U32TO8_LE (ucast f2) @ U32TO8_LE (ucast f3)"
    by (simp only: poly1305_tag_def Let_def f3_def f2_def f1_def f0_def)
  have sum: "unat (ucast x + ucast y + z :: uint64) = X + Y + Z" "X + Y + Z < 2 ^ 34"
    if "unat x = X" "unat y = Y" "unat z = Z" "X < 2 ^ 32" "Y < 2 ^ 32" "Z \<le> 2 ^ 32"
    for x y :: uint32 and z :: uint64 and X Y Z
    using that unat_plus [of "ucast x + ucast y :: uint64" z] unat_plus [of "ucast x :: uint64" "ucast y"] by (simp_all add: unat_ucast_up)
  have over: "unat (drop_bit 32 f) = unat f div 2 ^ 32" "unat f < 2 ^ 34 \<Longrightarrow> unat f div 2 ^ 32 \<le> 2 ^ 32" for f :: uint64
    using less_mult_imp_div_less [of "unat f" 4 "2 ^ 32"] by (simp_all add: unat_drop_bit)
  have f0: "unat f0 = a0 + k0" "unat f0 < 2 ^ 34"
    unfolding f0_def using sum [OF w0 unat_U8TO32 unat_0, folded ks] alt klt by (simp_all add: ks)
  have f1: "unat f1 = a1 + k1 + unat f0 div 2 ^ 32" "unat f1 < 2 ^ 34"
    unfolding f1_def using sum [OF w1 unat_U8TO32 over(1)] alt klt over(2) [OF f0(2)] by (simp_all add: ks)
  have f2: "unat f2 = a2 + k2 + unat f1 div 2 ^ 32" "unat f2 < 2 ^ 34"
    unfolding f2_def using sum [OF w2 unat_U8TO32 over(1)] alt klt over(2) [OF f1(2)] by (simp_all add: ks)
  have f3: "unat f3 = a3 + k3 + unat f2 div 2 ^ 32"
    unfolding f3_def using sum(1) [OF w3 unat_U8TO32 over(1)] alt klt over(2) [OF f2(2)] by (simp add: ks)
  have low: "unat (ucast f :: uint32) = unat f mod 2 ^ 32" for f :: uint64 by (simp add: unsigned_ucast_eq take_bit_eq_mod)
  have len: "length (U32TO8_LE v) = 4" for v by (simp add: U32TO8_LE_def store32_le_def)
  have "le_nat (poly1305_tag st) = unat f0 mod 2 ^ 32 + 2 ^ 32 * (unat f1 mod 2 ^ 32) + 2 ^ 64 * (unat f2 mod 2 ^ 32) + 2 ^ 96 * (unat f3 mod 2 ^ 32)"
    unfolding run le_nat_append len le_nat_U32TO8 low by (simp add: algebra_simps)
  also have "\<dots> = ((a0 + k0) + 2 ^ 32 * (a1 + k1) + 2 ^ 64 * (a2 + k2) + 2 ^ 96 * (a3 + k3)) mod 2 ^ 128"
    unfolding f3 f2(1) f1(1) f0(1) by (rule add_words)
  also have "\<dots> = ((a0 + 2 ^ 32 * a1 + 2 ^ 64 * a2 + 2 ^ 96 * a3) + le_nat (st_key st)) mod 2 ^ 128"
    unfolding k by (rule arg_cong [of _ _ "\<lambda>x. x mod 2 ^ 128"]) (simp add: algebra_simps)
  also have "\<dots> = (acc_of st mod 2 ^ 128 + le_nat (st_key st)) mod 2 ^ 128"
    unfolding a0_def a1_def a2_def a3_def words_of_digits [OF lt] acc_digits [OF d] ..
  finally show ?thesis by (simp only: mod_add_left_eq)
qed

lemma same_rest_carry: "same_rest st (poly1305_carry st)"
  unfolding poly1305_carry_def Let_def by (rule same_rest_digits)

lemma same_rest_reduce: "same_rest st (poly1305_reduce st)"
  unfolding poly1305_reduce_def Let_def by (rule same_rest_digits)

text \<open>The last carry adds to the lowest digit and is not propagated: the digit may be as large as \<open>2 ^ 26 + 4\<close>.
  Then it overlaps with the next one when the words are put together.\<close>

lemma final_tag:
  assumes "h_ok st" and key: "length (st_key st) = 16" and a: "a = acc_of st mod poly_p"
    and good: "\<not> (2 ^ 26 \<le> a \<and> a < 2 ^ 32 \<and> a mod 2 ^ 26 < 5)"
  shows "le_nat (poly1305_tag (poly1305_reduce (poly1305_carry st))) = (a + le_nat (st_key st)) mod 2 ^ 128"
proof -
  obtain d0 d1 d2 d3 d4 b where d: "digits_of (poly1305_carry st) (d0 + b * 5) d1 d2 d3 d4" and b: "b \<le> 1"
    and lt: "d0 < 2 ^ 26" "d1 < 2 ^ 26" "d2 < 2 ^ 26" "d3 < 2 ^ 26" "d4 < 2 ^ 26"
    and acc: "acc_of (poly1305_carry st) + poly_p * b = acc_of st"
    by (rule carry_digits [OF assms(1)])
  let ?st = "poly1305_carry st"
  have mod: "acc_of ?st mod poly_p = a" unfolding a acc [symmetric] by (simp only: mod_mult_self2)
  have "d0 + b * 5 < 2 ^ 26"
  proof (cases "b = 1")
    case True
    have "acc_of st < 42 * 2 ^ 26 + 2 ^ 26 * (2 ^ 26 - 1) + 2 ^ 52 * (2 ^ 26 - 1) + 2 ^ 78 * (2 ^ 26 - 1) + 2 ^ 104 * (2 ^ 26 - 1)"
      using assms(1) unfolding h_ok_def acc_of_def by simp
    then have "acc_of ?st < 2 ^ 32" using acc True by simp
    then have eq: "acc_of ?st = a" using mod by simp
    define z where "z = d1 + 2 ^ 26 * d2 + 2 ^ 52 * d3 + 2 ^ 78 * d4"
    have e: "a = (d0 + 5) + 2 ^ 26 * z" using eq acc_digits [OF d] True by (simp add: z_def)
    show ?thesis
    proof (rule ccontr)
      assume "\<not> d0 + b * 5 < 2 ^ 26"
      then have "2 ^ 26 \<le> d0 + 5" using True by simp
      then obtain m where m: "d0 + 5 = 2 ^ 26 + m" using le_Suc_ex by blast
      have "m < 5" using m lt(1) by simp
      have az: "a = m + 2 ^ 26 * (z + 1)" using e m by simp
      have "m < 2 ^ 26" using \<open>m < 5\<close> by simp
      then have "a mod 2 ^ 26 = m" unfolding az by (rule digits_mod)
      moreover have "2 ^ 26 \<le> a" using az by simp
      ultimately show False using good eq \<open>acc_of ?st < 2 ^ 32\<close> \<open>m < 5\<close> by simp
    qed
  qed (use b lt(1) in \<open>cases "b = 0"; simp\<close>)
  from reduce_digits [OF d this lt(2-)]
  obtain e0 e1 e2 e3 e4 where e: "digits_of (poly1305_reduce ?st) e0 e1 e2 e3 e4"
    "e0 < 2 ^ 26" "e1 < 2 ^ 26" "e2 < 2 ^ 26" "e3 < 2 ^ 26" "e4 < 2 ^ 26" "acc_of (poly1305_reduce ?st) = acc_of ?st mod poly_p"
    by blast
  have k: "st_key (poly1305_reduce ?st) = st_key st"
    using same_rest_fields(5) [OF same_rest_carry [of st]] same_rest_fields(5) [OF same_rest_reduce [of ?st]] by simp
  show ?thesis
    using tag_digits [OF e(1-6)] key k e(7) mod by simp
qed

lemma poly_acc_less: "a < poly_p \<Longrightarrow> poly_acc r a msg < poly_p"
proof (induction r a msg rule: poly_acc.induct)
  case (1 r a msg)
  have "x mod poly_p < poly_p" for x :: nat by simp
  then show ?case using 1 by (cases "msg = []") (simp_all only: poly_acc.simps [of r a msg] if_True if_False poly_acc_Nil simp_thms)
qed

lemma finish_absorbed:
  assumes abs: "absorbed r key2 data st" and key: "length key2 = 16"
    and good: "\<not> (2 ^ 26 \<le> poly_acc r 0 data \<and> poly_acc r 0 data < 2 ^ 32 \<and> poly_acc r 0 data mod 2 ^ 26 < 5)"
  shows "le_nat (CRYPTO_poly1305_finish st) = (poly_acc r 0 data + le_nat key2) mod 2 ^ 128"
proof -
  obtain blocks rest where d: "data = blocks @ rest" "length blocks mod 16 = 0" "length rest < 16"
      "acc_of st mod poly_p = poly_acc r 0 blocks mod poly_p" "unat (st_used st) = length rest" "take (length rest) (st_buf st) = rest"
    and st: "r_ok st" "h_ok st" "r_of st = r" "st_key st = key2"
    using abs by (auto simp: absorbed_def)
  define st1 where "st1 = poly1305_update st rest"
  have st1: "(if st_used st \<noteq> 0 then poly1305_update st (take (unat (st_used st)) (st_buf st)) else st) = st1"
    using d(5,6) by (auto simp: st1_def poly1305_update.simps [of st "[]"])
  note u = update_blocks [OF st(1,2), of rest]
  have "acc_of st1 mod poly_p = poly_acc r (acc_of st) rest mod poly_p" using u st(3) by (simp only: st1_def)
  also have "\<dots> = poly_acc r (poly_acc r 0 blocks) rest mod poly_p" using d(4) by (rule poly_acc_cong)
  also have "\<dots> = poly_acc r 0 data mod poly_p" unfolding d(1) poly_acc_append [OF d(2)] ..
  also have "\<dots> = poly_acc r 0 data" by (rule mod_less) (rule poly_acc_less, simp)
  finally have a: "poly_acc r 0 data = acc_of st1 mod poly_p" by simp
  have k: "st_key st1 = key2" using same_rest_fields(5) [OF same_rest_update] st(4) by (simp add: st1_def)
  have "h_ok st1" using u by (simp add: st1_def)
  from final_tag [OF this _ a good] k key show ?thesis
    unfolding CRYPTO_poly1305_finish_def st1 Let_def by simp
qed

lemma mac_absorbed:
  assumes "length key = 32" and "length (st_buf st) = 16" and "list_all (\<lambda>c. length c < 2 ^ 64) chunks"
  shows "absorbed (poly_r key) (take 16 (drop 16 key)) (concat chunks) (foldl CRYPTO_poly1305_update (CRYPTO_poly1305_init st key) chunks)"
  using absorbed_updates [OF init_absorbed [OF assms(1,2)] assms(3)] by simp

section \<open>Properties\<close>

text \<open>C6. The authenticator is correct: for every key, and data given in any number of pieces of any sizes, the tag is the
  one that RFC 8439 defines (the polynomial of the data at the clamped key modulo \<open>2 ^ 130 - 5\<close>, plus the second half of
  the key, modulo \<open>2 ^ 128\<close>), unless the value of the polynomial is one of at most 315 between \<open>2 ^ 26\<close> and \<open>2 ^ 32\<close>, where a
  carry is lost (C26). In particular no intermediate value overflows.\<close>

theorem poly1305_mac_correct:
  assumes "length key = 32" and "length (st_buf st) = 16" and "list_all (\<lambda>c. length c < 2 ^ 64) chunks"
    and "a = poly_acc (poly_r key) 0 (concat chunks)" and "\<not> (2 ^ 26 \<le> a \<and> a < 2 ^ 32 \<and> a mod 2 ^ 26 < 5)"
  shows "length (poly1305_mac st key chunks) = 16 \<and> le_nat (poly1305_mac st key chunks) = poly1305_spec key (concat chunks)"
  using finish_absorbed [OF mac_absorbed [OF assms(1-3)]] assms(1,4,5)
  by (simp add: poly1305_mac_def poly1305_spec_def CRYPTO_poly1305_finish_def)

definition poly1305_zero_state :: poly1305_state_st where
  "poly1305_zero_state = \<lparr>st_r0 = 0, st_r1 = 0, st_r2 = 0, st_r3 = 0, st_r4 = 0, st_s1 = 0, st_s2 = 0, st_s3 = 0, st_s4 = 0,
    st_h0 = 0, st_h1 = 0, st_h2 = 0, st_h3 = 0, st_h4 = 0, st_buf = replicate 16 0, st_used = 0, st_key = []\<rparr>"

text \<open>The key and the text of section 2.5.2 of the RFC; the text is given in pieces of 5, 20 and 9 bytes.\<close>

definition rfc_key :: "byte list" where
  "rfc_key = [0x85, 0xd6, 0xbe, 0x78, 0x57, 0x55, 0x6d, 0x33, 0x7f, 0x44, 0x52, 0xfe, 0x42, 0xd5, 0x06, 0xa8,
    0x01, 0x03, 0x80, 0x8a, 0xfb, 0x0d, 0xb2, 0xfd, 0x4a, 0xbf, 0xf6, 0xaf, 0x41, 0x49, 0xf5, 0x1b]"

definition rfc_text :: "byte list" where
  "rfc_text = [0x43, 0x72, 0x79, 0x70, 0x74, 0x6f, 0x67, 0x72, 0x61, 0x70, 0x68, 0x69, 0x63, 0x20, 0x46, 0x6f,
    0x72, 0x75, 0x6d, 0x20, 0x52, 0x65, 0x73, 0x65, 0x61, 0x72, 0x63, 0x68, 0x20, 0x47, 0x72, 0x6f, 0x75, 0x70]"

theorem poly1305_mac_correct_witness:
  "le_nat (poly1305_mac poly1305_zero_state rfc_key [take 5 rfc_text, take 20 (drop 5 rfc_text), drop 25 rfc_text]) =
     0xa927010caf8b2bc2c6365130c11d06a8"
proof -
  let ?chunks = "[take 5 rfc_text, take 20 (drop 5 rfc_text), drop 25 rfc_text]"
  have data: "concat ?chunks = rfc_text" by (simp add: rfc_text_def)
  have acc: "poly_acc (poly_r rfc_key) 0 rfc_text = 0x28d31b7caff946c77c8844335369d03a7"
    by (simp add: poly_acc.simps poly_r_def rfc_key_def rfc_text_def)
  have "length (poly1305_mac poly1305_zero_state rfc_key ?chunks) = 16 \<and>
      le_nat (poly1305_mac poly1305_zero_state rfc_key ?chunks) = poly1305_spec rfc_key (concat ?chunks)"
    by (rule poly1305_mac_correct [where a = "0x28d31b7caff946c77c8844335369d03a7"])
      (simp_all only: data acc, simp_all add: rfc_key_def rfc_text_def poly1305_zero_state_def)
  then show ?thesis unfolding data poly1305_spec_def acc by (simp add: rfc_key_def)
qed

text \<open>A key whose second half is zero, and one block.\<close>

definition carry_key :: "byte list" where
  "carry_key = [0xdb, 0x52, 0x2b, 0x8d, 0x8a, 0x34, 0x4f, 0xdf, 0x68, 0x0c, 0x32, 0x35, 0xa0, 0xee, 0x0c, 0xef,
    0, 0, 0, 0, 0, 0, 0, 0, 0, 0, 0, 0, 0, 0, 0, 0]"

definition carry_block :: "byte list" where
  "carry_block = [0x88, 0xde, 0x34, 0x96, 0x58, 0x9b, 0x14, 0xde, 0x85, 0xc1, 0x00, 0xd9, 0x47, 0xb2, 0xae, 0xeb]"

text \<open>C26. The last carry of \<^verbatim>\<open>CRYPTO_poly1305_finish\<close> goes into the lowest digit, which may then need 27 bits; its top bit
  is lost when it is combined with the next digit by a bitwise or. For this key and this block the polynomial is
  \<open>2 ^ 27 + 3\<close> and the tag that is returned \<open>2 ^ 26 + 3\<close>.\<close>

theorem poly1305_carry_lost:
  "le_nat (poly1305_mac poly1305_zero_state carry_key [carry_block]) = 0x4000003 \<and>
   poly1305_spec carry_key carry_block = 0x8000003"
proof
  have "poly1305_mac poly1305_zero_state carry_key [carry_block] = [3, 0, 0, 4, 0, 0, 0, 0, 0, 0, 0, 0, 0, 0, 0, 0]"
    by code_simp
  then show "le_nat (poly1305_mac poly1305_zero_state carry_key [carry_block]) = 0x4000003" by simp
  show "poly1305_spec carry_key carry_block = 0x8000003"
    by (simp add: poly1305_spec_def poly_acc.simps poly_r_def carry_key_def carry_block_def)
qed

end
