(* ===== verification/ChaCha.thy ===== *)
theory ChaCha
  imports Prelude
begin

text \<open>
  BoringSSL's portable stream cipher (crypto/chacha/chacha.c, the branch without assembly). Output may be written over the
  input, as the code allows: each byte is read before it is written, so the model takes the input as a value. The cipher of
  RFC 8439 is specified on its own, and the code is shown to compute it.
\<close>

section \<open>The code\<close>

definition CRYPTO_load_u32_le :: "byte list \<Rightarrow> uint32" where
  "CRYPTO_load_u32_le m = load32_le m"

definition CRYPTO_store_u32_le :: "uint32 \<Rightarrow> byte list" where
  "CRYPTO_store_u32_le v = store32_le v"

definition CRYPTO_rotl_u32 :: "uint32 \<Rightarrow> nat \<Rightarrow> uint32" where
  "CRYPTO_rotl_u32 v n = push_bit n v OR drop_bit (nat ((- int n) mod 32)) v"

text \<open>"expand 32-byte k"\<close>

definition sigma :: "byte list" where
  "sigma = [0x65, 0x78, 0x70, 0x61, 0x6e, 0x64, 0x20, 0x33, 0x32, 0x2d, 0x62, 0x79, 0x74, 0x65, 0x20, 0x6b]"

definition QUARTERROUND :: "nat \<Rightarrow> nat \<Rightarrow> nat \<Rightarrow> nat \<Rightarrow> uint32 list \<Rightarrow> uint32 list" where
  "QUARTERROUND a b c d x =
     (let x = x[a := x ! a + x ! b]; x = x[d := CRYPTO_rotl_u32 (x ! d XOR x ! a) 16];
          x = x[c := x ! c + x ! d]; x = x[b := CRYPTO_rotl_u32 (x ! b XOR x ! c) 12];
          x = x[a := x ! a + x ! b]; x = x[d := CRYPTO_rotl_u32 (x ! d XOR x ! a) 8];
          x = x[c := x ! c + x ! d]; x = x[b := CRYPTO_rotl_u32 (x ! b XOR x ! c) 7]
      in x)"

definition double_round :: "uint32 list \<Rightarrow> uint32 list" where
  "double_round x =
     (let x = QUARTERROUND 0 4 8 12 x; x = QUARTERROUND 1 5 9 13 x; x = QUARTERROUND 2 6 10 14 x; x = QUARTERROUND 3 7 11 15 x;
          x = QUARTERROUND 0 5 10 15 x; x = QUARTERROUND 1 6 11 12 x; x = QUARTERROUND 2 7 8 13 x; x = QUARTERROUND 3 4 9 14 x
      in x)"

function hchacha_rounds :: "nat \<Rightarrow> uint32 list \<Rightarrow> uint32 list" where
  "hchacha_rounds i x = (if i < 20 then hchacha_rounds (i + 2) (double_round x) else x)"
  by pat_completeness auto
termination by (relation "measure (\<lambda>(i, x). 20 - i)") auto

fun chacha_rounds :: "nat \<Rightarrow> uint32 list \<Rightarrow> uint32 list" where
  "chacha_rounds i x = (if i > 0 then chacha_rounds (i - 2) (double_round x) else x)"

declare hchacha_rounds.simps [simp del] chacha_rounds.simps [simp del]

text \<open>A copy of bytes into an array of words.\<close>

definition load_words :: "byte list \<Rightarrow> nat \<Rightarrow> uint32 list" where
  "load_words bs n = map (\<lambda>i. CRYPTO_load_u32_le (drop (4 * i) bs)) [0..<n]"

definition CRYPTO_hchacha20 :: "byte list \<Rightarrow> byte list \<Rightarrow> byte list" where
  "CRYPTO_hchacha20 key nonce =
     (let x = hchacha_rounds 0 (load_words sigma 4 @ load_words key 8 @ load_words nonce 4)
      in concat (map CRYPTO_store_u32_le (take 4 x)) @ concat (map CRYPTO_store_u32_le (take 4 (drop 12 x))))"

definition chacha_core :: "uint32 list \<Rightarrow> byte list" where
  "chacha_core input =
     (let x = chacha_rounds 20 input; x = map (\<lambda>i. x ! i + input ! i) [0..<16]
      in concat (map CRYPTO_store_u32_le x))"

definition chacha_input :: "byte list \<Rightarrow> byte list \<Rightarrow> uint32 \<Rightarrow> uint32 list" where
  "chacha_input key nonce counter = load_words sigma 4 @ load_words key 8 @ [counter] @ load_words nonce 3"

function chacha_loop :: "uint32 list \<Rightarrow> byte list \<Rightarrow> byte list" where
  "chacha_loop input inp =
     (if length inp > 0
      then (let todo = (if length inp < 64 then length inp else 64);
                buf = chacha_core input;
                out = map (\<lambda>i. inp ! i XOR buf ! i) [0..<todo]
            in out @ chacha_loop (input[12 := input ! 12 + 1]) (drop todo inp))
      else [])"
  by pat_completeness auto
termination by (relation "measure (\<lambda>(input, inp). length inp)") auto

declare chacha_loop.simps [simp del]

definition CRYPTO_chacha_20 :: "byte list \<Rightarrow> byte list \<Rightarrow> byte list \<Rightarrow> uint32 \<Rightarrow> byte list" where
  "CRYPTO_chacha_20 inp key nonce counter = chacha_loop (chacha_input key nonce counter) inp"

section \<open>The cipher of RFC 8439\<close>

text \<open>The specification, apart from the code: a state is four columns of four words. The quarter round is section 2.1 of the
  RFC; a double round applies it to the columns and then to the diagonals (section 2.3). The initial state has the four
  constants of the RFC in its first row, the key in the next two, the counter and the nonce in the last; numbers are written
  with the least significant byte first.\<close>

type_synonym column = "uint32 \<times> uint32 \<times> uint32 \<times> uint32"

fun rfc_quarter_round :: "column \<Rightarrow> column" where
  "rfc_quarter_round (a, b, c, d) =
     (let a = a + b; d = word_rotl 16 (d XOR a);
          c = c + d; b = word_rotl 12 (b XOR c);
          a = a + b; d = word_rotl 8 (d XOR a);
          c = c + d; b = word_rotl 7 (b XOR c)
      in (a, b, c, d))"

declare rfc_quarter_round.simps [simp del]

fun diagonals :: "column list \<Rightarrow> column list" where
  "diagonals [(a0, b0, c0, d0), (a1, b1, c1, d1), (a2, b2, c2, d2), (a3, b3, c3, d3)] =
     [(a0, b1, c2, d3), (a1, b2, c3, d0), (a2, b3, c0, d1), (a3, b0, c1, d2)]"
| "diagonals cs = cs"

fun undiagonals :: "column list \<Rightarrow> column list" where
  "undiagonals [(a0, b1, c2, d3), (a1, b2, c3, d0), (a2, b3, c0, d1), (a3, b0, c1, d2)] =
     [(a0, b0, c0, d0), (a1, b1, c1, d1), (a2, b2, c2, d2), (a3, b3, c3, d3)]"
| "undiagonals cs = cs"

definition rfc_double_round :: "column list \<Rightarrow> column list" where
  "rfc_double_round cs = undiagonals (map rfc_quarter_round (diagonals (map rfc_quarter_round cs)))"

definition rows :: "column list \<Rightarrow> uint32 list" where
  "rows cs = map (\<lambda>(a, b, c, d). a) cs @ map (\<lambda>(a, b, c, d). b) cs @ map (\<lambda>(a, b, c, d). c) cs @ map (\<lambda>(a, b, c, d). d) cs"

definition rfc_state :: "byte list \<Rightarrow> byte list \<Rightarrow> uint32 \<Rightarrow> column list" where
  "rfc_state key nonce counter =
     (let w = (\<lambda>bs i. word_of_nat (le_nat (take 4 (drop (4 * i) bs))))
      in [(0x61707865, w key 0, w key 4, counter), (0x3320646e, w key 1, w key 5, w nonce 0),
          (0x79622d32, w key 2, w key 6, w nonce 1), (0x6b206574, w key 3, w key 7, w nonce 2)])"

definition rfc_bytes :: "uint32 \<Rightarrow> byte list" where
  "rfc_bytes w = map (\<lambda>i. word_of_nat (unat w div 256 ^ i mod 256)) [0..<4]"

definition chacha20_block :: "byte list \<Rightarrow> byte list \<Rightarrow> uint32 \<Rightarrow> byte list" where
  "chacha20_block key nonce counter =
     (let s = rfc_state key nonce counter
      in concat (map rfc_bytes (map2 (+) (rows ((rfc_double_round ^^ 10) s)) (rows s))))"

section \<open>The code computes the specification\<close>

lemma rotl_rfc:
  assumes n: "0 < n" "n < 32"
  shows "CRYPTO_rotl_u32 v n = word_rotl n v"
proof (rule bit_word_eqI)
  fix k assume k: "k < LENGTH(32)"
  have r: "nat (- int n mod 32) = 32 - n" using n by (simp add: zmod_zminus1_eq_if)
  have code: "bit (CRYPTO_rotl_u32 v n) k \<longleftrightarrow> (n \<le> k \<and> bit v (k - n)) \<or> bit v (k + (32 - n))"
    unfolding CRYPTO_rotl_u32_def r using k by (simp add: bit_or_iff bit_push_bit_iff bit_drop_bit_eq add.commute)
  show "bit (CRYPTO_rotl_u32 v n) k = bit (word_rotl n v) k"
  proof (cases "n \<le> k")
    case True
    then have "(k + (32 - n)) mod 32 = k - n" "\<not> bit v (k + (32 - n))"
      using n k by (simp_all add: le_mod_geq bit_imp_le_length impossible_bit)
    then show ?thesis unfolding code using n k True by (simp add: bit_word_rotl_iff)
  next
    case False
    then show ?thesis unfolding code using n k by (simp add: bit_word_rotl_iff)
  qed
qed

lemma rotl_rfc': "CRYPTO_rotl_u32 v 16 = word_rotl 16 v" "CRYPTO_rotl_u32 v 12 = word_rotl 12 v"
  "CRYPTO_rotl_u32 v 8 = word_rotl 8 v" "CRYPTO_rotl_u32 v 7 = word_rotl 7 v"
  by (simp_all add: rotl_rfc)

lemma QR: 
 "QUARTERROUND 0 4 8 12 [x0,x1,x2,x3,x4,x5,x6,x7,x8,x9,x10,x11,x12,x13,x14,x15] =
  (case rfc_quarter_round (x0,x4,x8,x12) of (a,b,c,d) \<Rightarrow> [a,x1,x2,x3,b,x5,x6,x7,c,x9,x10,x11,d,x13,x14,x15])"
 "QUARTERROUND 1 5 9 13 [x0,x1,x2,x3,x4,x5,x6,x7,x8,x9,x10,x11,x12,x13,x14,x15] =
  (case rfc_quarter_round (x1,x5,x9,x13) of (a,b,c,d) \<Rightarrow> [x0,a,x2,x3,x4,b,x6,x7,x8,c,x10,x11,x12,d,x14,x15])"
 "QUARTERROUND 2 6 10 14 [x0,x1,x2,x3,x4,x5,x6,x7,x8,x9,x10,x11,x12,x13,x14,x15] =
  (case rfc_quarter_round (x2,x6,x10,x14) of (a,b,c,d) \<Rightarrow> [x0,x1,a,x3,x4,x5,b,x7,x8,x9,c,x11,x12,x13,d,x15])"
 "QUARTERROUND 3 7 11 15 [x0,x1,x2,x3,x4,x5,x6,x7,x8,x9,x10,x11,x12,x13,x14,x15] =
  (case rfc_quarter_round (x3,x7,x11,x15) of (a,b,c,d) \<Rightarrow> [x0,x1,x2,a,x4,x5,x6,b,x8,x9,x10,c,x12,x13,x14,d])"
 "QUARTERROUND 0 5 10 15 [x0,x1,x2,x3,x4,x5,x6,x7,x8,x9,x10,x11,x12,x13,x14,x15] =
  (case rfc_quarter_round (x0,x5,x10,x15) of (a,b,c,d) \<Rightarrow> [a,x1,x2,x3,x4,b,x6,x7,x8,x9,c,x11,x12,x13,x14,d])"
 "QUARTERROUND 1 6 11 12 [x0,x1,x2,x3,x4,x5,x6,x7,x8,x9,x10,x11,x12,x13,x14,x15] =
  (case rfc_quarter_round (x1,x6,x11,x12) of (a,b,c,d) \<Rightarrow> [x0,a,x2,x3,x4,x5,b,x7,x8,x9,x10,c,d,x13,x14,x15])"
 "QUARTERROUND 2 7 8 13 [x0,x1,x2,x3,x4,x5,x6,x7,x8,x9,x10,x11,x12,x13,x14,x15] =
  (case rfc_quarter_round (x2,x7,x8,x13) of (a,b,c,d) \<Rightarrow> [x0,x1,a,x3,x4,x5,x6,b,c,x9,x10,x11,x12,d,x14,x15])"
 "QUARTERROUND 3 4 9 14 [x0,x1,x2,x3,x4,x5,x6,x7,x8,x9,x10,x11,x12,x13,x14,x15] =
  (case rfc_quarter_round (x3,x4,x9,x14) of (a,b,c,d) \<Rightarrow> [x0,x1,x2,a,b,x5,x6,x7,x8,c,x10,x11,x12,x13,d,x15])"
  by (simp_all add: QUARTERROUND_def rfc_quarter_round.simps Let_def rotl_rfc')

lemma columns_cases:
  assumes "length cs = 4"
  obtains a0 b0 c0 d0 a1 b1 c1 d1 a2 b2 c2 d2 a3 b3 c3 d3 where
    "cs = [(a0, b0, c0, d0), (a1, b1, c1, d1), (a2, b2, c2, d2), (a3, b3, c3, d3)]"
  using assms by (auto simp: length_Suc_conv numeral_eq_Suc)

lemma double_round_rfc:
  assumes "length cs = 4"
  shows "double_round (rows cs) = rows (rfc_double_round cs)" 
proof -
  obtain a0 b0 c0 d0 a1 b1 c1 d1 a2 b2 c2 d2 a3 b3 c3 d3 where
    cs: "cs = [(a0, b0, c0, d0), (a1, b1, c1, d1), (a2, b2, c2, d2), (a3, b3, c3, d3)]"
    using assms by (rule columns_cases)
  show ?thesis
    by (simp add: cs rows_def double_round_def rfc_double_round_def QR QR [unfolded One_nat_def] split: prod.split)
qed

lemma upt_words: "[0..<4] = [0, 1, 2, 3]" "[0..<8] = [0, 1, 2, 3, 4, 5, 6, 7]" "[0..<3] = [0, 1, 2]"
  by code_simp+

lemma load32_le_nat: "load32_le bs = word_of_nat (le_nat (take 4 bs))"
proof -
  have "foldr (\<lambda>b acc. ucast b + 0x100 * acc) xs 0 = (word_of_nat (le_nat xs) :: uint32)" for xs :: "byte list"
    by (induction xs) (simp_all)
  then show ?thesis by (simp add: load32_le_def)
qed

lemma store32_rfc: "CRYPTO_store_u32_le w = rfc_bytes w"
  by (simp add: CRYPTO_store_u32_le_def store32_le_def rfc_bytes_def upt_words word_unat_eq_iff unsigned_ucast_eq
      take_bit_eq_mod unat_drop_bit unsigned_of_nat)

lemma input_rfc: "chacha_input key nonce counter = rows (rfc_state key nonce counter)"
  by (simp add: chacha_input_def rows_def rfc_state_def load_words_def CRYPTO_load_u32_le_def load32_le_nat sigma_def
    upt_words Let_def)
lemma length_diagonals [simp]: "length (diagonals cs) = length cs" "length (undiagonals cs) = length cs"
  by (induction cs rule: diagonals.induct) simp_all

lemma length_rfc_double_round [simp]: "length (rfc_double_round cs) = length cs"
  by (simp add: rfc_double_round_def)

lemma double_rounds_rfc:
  "length cs = 4 \<Longrightarrow> (double_round ^^ n) (rows cs) = rows ((rfc_double_round ^^ n) cs) \<and> length ((rfc_double_round ^^ n) cs) = 4"
  by (induction n) (simp_all add: double_round_rfc)

section \<open>The key stream\<close>

lemma length_QUARTERROUND [simp]: "length (QUARTERROUND a b c d x) = length x"
  by (simp add: QUARTERROUND_def Let_def)

lemma length_double_round [simp]: "length (double_round x) = length x"
  by (simp add: double_round_def Let_def)

lemma length_chacha_rounds [simp]: "length (chacha_rounds i x) = length x"
  by (induction i x rule: chacha_rounds.induct) (simp add: chacha_rounds.simps)

lemma length_store: "length (CRYPTO_store_u32_le v) = 4"
  by (simp add: CRYPTO_store_u32_le_def store32_le_def)

lemma length_stores: "length (concat (map CRYPTO_store_u32_le xs)) = 4 * length xs"
  by (induction xs) (simp_all add: length_store)

lemma length_chacha_core [simp]: "length (chacha_core x) = 64"
  by (simp add: chacha_core_def Let_def length_stores del: map_map)

lemma chacha_rounds_even: "chacha_rounds (2 * n) x = (double_round ^^ n) x"
proof (induction n arbitrary: x)
  case (Suc n)
  then show ?case by (subst chacha_rounds.simps) (simp del: funpow.simps add: funpow_Suc_right)
qed (simp add: chacha_rounds.simps)

lemma length_chacha_input [simp]: "length (chacha_input key nonce counter) = 16"
  by (simp add: chacha_input_def load_words_def)

lemma chacha_core_block: "chacha_core (chacha_input key nonce counter) = chacha20_block key nonce counter"
proof -
  let ?s = "chacha_input key nonce counter"
  have n: "chacha_rounds 20 ?s = (double_round ^^ 10) ?s" using chacha_rounds_even [of 10 ?s] by simp
  have "length (chacha_rounds 20 ?s) = 16" by simp
  then have "map (\<lambda>i. chacha_rounds 20 ?s ! i + ?s ! i) [0..<16] = map2 (+) (chacha_rounds 20 ?s) ?s"
    by (intro nth_equalityI) simp_all
  moreover have "length (rfc_state key nonce counter) = 4" by (simp add: rfc_state_def Let_def)
  from double_rounds_rfc [OF this] have "(double_round ^^ 10) ?s = rows ((rfc_double_round ^^ 10) (rfc_state key nonce counter))"
    unfolding input_rfc by blast
  ultimately show ?thesis
    unfolding chacha_core_def chacha20_block_def Let_def n input_rfc [symmetric] store32_rfc [abs_def] by simp
qed

definition key_stream :: "byte list \<Rightarrow> byte list \<Rightarrow> uint32 \<Rightarrow> nat \<Rightarrow> byte list" where
  "key_stream key nonce counter blocks =
     concat (map (\<lambda>j. chacha20_block key nonce (counter + word_of_nat j)) [0..<blocks])"

lemma length_chacha20_block [simp]: "length (chacha20_block key nonce counter) = 64"
  unfolding chacha_core_block [symmetric] by simp

lemma key_stream_Suc:
  "key_stream key nonce counter (Suc n) = chacha20_block key nonce counter @ key_stream key nonce (counter + 1) n"
proof -
  have "[0..<Suc n] = 0 # map Suc [0..<n]" by (simp add: map_Suc_upt upt_conv_Cons del: upt_Suc)
  then show ?thesis by (simp add: key_stream_def comp_def add.assoc del: upt_Suc)
qed

lemma next_input: "(chacha_input key nonce counter)[12 := chacha_input key nonce counter ! 12 + 1] = chacha_input key nonce (counter + 1)"
  by (simp add: chacha_input_def load_words_def list_update_append nth_append)

definition xor_bytes :: "byte list \<Rightarrow> byte list \<Rightarrow> byte list" where
  "xor_bytes xs ys = map (\<lambda>(x, y). x XOR y) (zip xs ys)"

lemma xor_bytes_append: "length xs = length us \<Longrightarrow> xor_bytes (xs @ ys) (us @ vs) = xor_bytes xs us @ xor_bytes ys vs"
  by (simp add: xor_bytes_def)

lemma xor_bytes_nth: "n \<le> length xs \<Longrightarrow> n \<le> length ys \<Longrightarrow> map (\<lambda>i. xs ! i XOR ys ! i) [0..<n] = xor_bytes (take n xs) ys"
  by (intro nth_equalityI) (simp_all add: xor_bytes_def)

lemma length_xor_bytes [simp]: "length (xor_bytes xs ys) = min (length xs) (length ys)"
  by (simp add: xor_bytes_def)

lemma xor_bytes_twice: "length xs \<le> length ys \<Longrightarrow> xor_bytes (xor_bytes xs ys) ys = xs"
  by (intro nth_equalityI) (simp_all add: xor_bytes_def xor.assoc)

lemma length_key_stream [simp]: "length (key_stream key nonce counter n) = 64 * n"
  by (induction n) (simp_all add: key_stream_def)

lemma chacha_loop_stream:
  "chacha_loop (chacha_input key nonce counter) inp = xor_bytes inp (key_stream key nonce counter ((length inp + 63) div 64))"
proof (induction "length inp" arbitrary: inp counter rule: less_induct)
  case less
  show ?case
  proof (cases "inp = []")
    case True
    then show ?thesis by (simp add: chacha_loop.simps xor_bytes_def)
  next
    case False
    define todo where "todo = (if length inp < 64 then length inp else 64)"
    have t: "todo \<le> length inp" "todo \<le> 64" "0 < todo" using False by (auto simp: todo_def)
    let ?buf = "chacha20_block key nonce counter"
    let ?rest = "drop todo inp"
    have run: "chacha_loop (chacha_input key nonce counter) inp =
        xor_bytes (take todo inp) ?buf @ chacha_loop (chacha_input key nonce (counter + 1)) ?rest"
      using False t by (subst chacha_loop.simps) (simp add: Let_def todo_def [symmetric] next_input chacha_core_block xor_bytes_nth)
    have "length ?rest < length inp" using t by simp
    from less [OF this] have rest: "chacha_loop (chacha_input key nonce (counter + 1)) ?rest =
        xor_bytes ?rest (key_stream key nonce (counter + 1) ((length ?rest + 63) div 64))" .
    show ?thesis
    proof (cases "length inp < 64")
      case True
      then have n: "(length inp + 63) div 64 = Suc 0" using False by (cases inp) (auto simp: div_nat_eqI)
      have "todo = length inp" using True by (simp add: todo_def)
      then show ?thesis
        unfolding run n key_stream_Suc by (simp add: chacha_loop.simps [of _ "[]"] key_stream_def)
    next
      case False
      then have todo: "todo = 64" by (simp add: todo_def)
      obtain m where m: "length inp = 64 + m" using False by (metis le_Suc_ex not_less)
      have n: "(length inp + 63) div 64 = Suc ((length ?rest + 63) div 64)" by (simp add: m todo)
      have len: "length (take 64 inp) = length ?buf" using False by simp
      have "xor_bytes inp (key_stream key nonce counter ((length inp + 63) div 64)) =
          xor_bytes (take 64 inp @ drop 64 inp) (?buf @ key_stream key nonce (counter + 1) ((length ?rest + 63) div 64))"
        unfolding n key_stream_Suc by simp
      also have "\<dots> = xor_bytes (take 64 inp) ?buf @ xor_bytes (drop 64 inp) (key_stream key nonce (counter + 1) ((length ?rest + 63) div 64))"
        by (rule xor_bytes_append [OF len])
      finally show ?thesis unfolding run rest by (simp add: todo)
    qed
  qed
qed

text \<open>C35. The stream cipher: \<^verbatim>\<open>CRYPTO_chacha_20\<close> combines data of any length with the blocks of the key stream of RFC 8439 for the
  counters from the given one on (modulo \<open>2 ^ 32\<close>), the last one cut off, and so decrypts what it encrypted.\<close>

theorem chacha_20_stream:
  "CRYPTO_chacha_20 inp key nonce counter = xor_bytes inp (key_stream key nonce counter ((length inp + 63) div 64)) \<and>
   CRYPTO_chacha_20 (CRYPTO_chacha_20 inp key nonce counter) key nonce counter = inp"
proof -
  have "length inp \<le> 64 * ((length inp + 63) div 64)"
    using div_mult_mod_eq [of "length inp + 63" 64] mod_less_divisor [of 64 "length inp + 63"] by linarith
  then show ?thesis by (simp add: CRYPTO_chacha_20_def chacha_loop_stream xor_bytes_twice min_def)
qed

text \<open>The quarter round of RFC 8439, section 2.1.1.\<close>

lemma quarter_round_rfc:
  "QUARTERROUND 0 1 2 3 [0x11111111, 0x01020304, 0x9b8d6f43, 0x01234567] = [0xea2a92f4, 0xcb1cf8ce, 0x4581472e, 0x5881c4bb]"
  by code_simp

end
