(* ===== verification/Spec2Isabelle.thy ===== *)
theory Spec2Isabelle
  imports PbRoundTrip Base64 CbbClaims StackClaims LHashClaims UnicodeText OidText BufMem Poly1305Claims ChaCha
begin

text \<open>
  \<^bold>\<open>A verification library for the C core of MinskMetroSchedule.\<close>

  The repository is an iOS application that shows metro schedules. The application proper is Swift user
  interface code; its data comes from Firebase, and the C code that carries the data lives under
  \<^verbatim>\<open>src/MinskMetroSchedule/Pods/\<close>. This library models two of its parts, \<^emph>\<open>nanopb\<close>
  (\<^verbatim>\<open>Pods/nanopb\<close>, the protocol-buffer encoder and decoder of the Firebase libraries) and the data layer of
  \<^emph>\<open>BoringSSL\<close> (\<^verbatim>\<open>Pods/BoringSSL-GRPC/src/crypto\<close>: memory, buffers, byte strings, ASN.1, text, base64, pointer stacks, hash tables),
  on which the certificate and TLS code of gRPC rests, with one cipher and one authenticator (ChaCha20, Poly1305).

  \<^bold>\<open>The platform.\<close> 64-bit \<^verbatim>\<open>size_t\<close> and pointers, little-endian, 8-bit bytes; nanopb is built with
  \<^verbatim>\<open>PB_FIELD_32BIT\<close> and \<^verbatim>\<open>PB_ENABLE_MALLOC\<close>, as its pod says. Machine integers are words of their width
  throughout, so all arithmetic wraps as in C. \<open>Prelude\<close> has these types, the byte (de)composition of words and the
  shared lemmas.

  \<^bold>\<open>nanopb.\<close>
  \<^item> \<open>PbStream\<close>: \<^verbatim>\<open>pb_ostream_t\<close>, \<^verbatim>\<open>pb_istream_t\<close>, \<^verbatim>\<open>pb_write\<close>, \<^verbatim>\<open>pb_read\<close> and their buffer callbacks. A pointer
    into an array is the array with an offset; an access outside of it sets a flag that is never cleared, so that
    memory safety is a theorem about the flag. User callbacks are parameters.
  \<^item> \<open>PbWire\<close>: varints, zigzag, fixed-width values, tags, strings, skipping, substreams, both directions.
    \<open>PbChannel\<close> puts the directions together: what one writes the other reads.
  \<^item> \<open>PbCommon\<close>: field descriptors and the field iterator (all of \<^verbatim>\<open>pb_common.c\<close>).
  \<^item> \<open>PbEncode\<close>: the message encoder (all of \<^verbatim>\<open>pb_encode.c\<close>) over a byte-addressed memory. Its recursion on nested
    messages has no bound in C; the model has one, \<open>d\<close>, and returns \<open>None\<close> beyond it. \<open>PbEncodeBound\<close> shows that a
    descriptor nested at most \<open>d\<close> deep (with extension lists of at most that length) never exceeds it and that the result
    does not depend on it otherwise.
  \<^item> \<open>PbEncodeSpec\<close>: an abstract encoding, a function from memory and descriptors to a list of bytes, and the proof that
    the two-pass stream encoder computes it.
  \<^item> \<open>PbDecode\<close>: the message decoder (the rest of \<^verbatim>\<open>pb_decode.c\<close>: default values, release, the field decoders, static,
    pointer and callback fields, extensions, the decoding loop). The message lies in a byte-addressed memory with a list of
    allocated blocks; \<^verbatim>\<open>realloc\<close>, \<^verbatim>\<open>free\<close>, callbacks and the addresses of the decoder's local variables are
    parameters. Nesting has the bound \<open>d\<close> of the encoder; the loops over the input have fuel.
  \<^item> \<open>PbDecodeSteps\<close>, \<open>PbDecodeSafe\<close>: the contract \<open>dec_ok\<close> of a decoding step (it returns, stays within its stream,
    moves forward only, and changes memory only inside a given area), proved for every step and composed to the message.
    Each round of a loop consumes input, so the number of bytes that are left is enough fuel.
  \<^item> \<open>PbClaims\<close>: refinement, safety, exact size, termination, framing, round trips, iteration, and one flaw: the 8-bit bit
    position of \<^verbatim>\<open>pb_decode_varint32_eof\<close> wraps, so that an overlong varint is accepted.
  \<^item> \<open>PbDecodeClaims\<close>: decoding ends on every input, never reads outside of the input, and writes only inside the message;
    and two flaws, a default value larger than its field, and the 32-bit size of a pointer array.
  \<^item> \<open>PbReadBack\<close>, \<open>PbLayout\<close>, \<open>PbRounds\<close>, \<open>PbFieldBack\<close>, \<open>PbRoundTrip\<close>: the decoder inverts the encoder. In turn: single values;
    message types whose fields lie apart (\<open>rt_layout\<close>), on whose places alone the encoding depends; the decoding loop as a
    sequence of rounds; a field; a message with its nested messages. The result is about \<^verbatim>\<open>pb_encode\<close> and \<^verbatim>\<open>pb_decode\<close>, for required,
    optional (with a flag, or of proto3 without) and repeated static fields, packed or not.

  \<^bold>\<open>BoringSSL.\<close>
  \<^item> \<open>ConstantTime\<close>: the branch-free comparisons of \<^verbatim>\<open>crypto/internal.h\<close>, each shown to be the mask it is named after.
  \<^item> \<open>Base64\<close>: \<^verbatim>\<open>crypto/base64/base64.c\<close>, one-shot and streaming. The streaming results do not depend on the
    chunking; decoding inverts encoding.
  \<^item> \<open>Cbs\<close>: \<^verbatim>\<open>crypto/bytestring/cbs.c\<close>, the parser. Each parser is characterised exactly: the inputs on which it
    succeeds are those of a grammar (DER elements, shortest integers, length prefixes), with the value and the rest it leaves.
  \<^item> \<open>Cbb\<close>: \<^verbatim>\<open>crypto/bytestring/cbb.c\<close>, the builder, with its growing or fixed buffer and chain of children with pending
    length prefixes. \<open>CbbChain\<close> relates a chain to a list of frames and shows that a nested structure built by calls is
    returned as its serialization; the contract of the adding operations is the locale \<open>cbb_adder\<close>. \<open>CbbSafety\<close> shows for
    arbitrary call sequences that no write is out of bounds and that errors stick. \<open>CbbClaims\<close> has the theorems, with the
    round trip of signed integers through \<open>Cbs\<close>.
  \<^item> \<open>Unicode\<close>: \<^verbatim>\<open>crypto/bytestring/unicode.c\<close>; \<open>UnicodeText\<close> shows that each reader accepts exactly what its writer
    writes (locale \<open>text_codec\<close>), for characters and whole texts.
  \<^item> \<open>Comparison\<close>: what the code relies on of \<^verbatim>\<open>qsort\<close>, with an implementation that satisfies it.
  \<^item> \<open>Stack\<close>: \<^verbatim>\<open>crypto/stack/stack.c\<close>; \<open>StackList\<close> shows that it implements a list (locale \<open>ptr_sequence\<close>), that both
    searches find the first match, and that the flag of sortedness is truthful under all operations but one;
    \<open>StackClaims\<close> has the theorems, with a flaw: \<^verbatim>\<open>sk_set\<close> keeps the flag set.
  \<^item> \<open>LHash\<close>: \<^verbatim>\<open>crypto/lhash/lhash.c\<close>, the hash table, on a heap of list items; a \<^verbatim>\<open>LHASH_ITEM **\<close> is the place it
    points to. The loops over chains are partial functions, with \<open>None\<close> for a chain that is undefined or has no end.
    \<open>LHashChains\<close> relates chains to lists, \<open>LHashSet\<close> has the invariant of the table and its operations, \<open>LHashIter\<close>
    the iteration. \<open>LHashClaims\<close> has the theorems: the table is a set of keys (locale \<open>keyed_set\<close>) through all resizes,
    an iteration may delete the elements it visits, and the load of the buckets stays bounded.
  \<^item> \<open>OidText\<close>: \<^verbatim>\<open>CBS_asn1_oid_to_text\<close>, the printer of object identifiers, and the proof that it and the reader of
    \<open>Cbb\<close> are exact inverses.
  \<^item> \<open>BufMem\<close>: \<^verbatim>\<open>crypto/mem.c\<close> (allocation with a size header, clearing, strings, hashing) and \<^verbatim>\<open>crypto/buf/buf.c\<close>. A
    \<^verbatim>\<open>BUF_MEM\<close> implements a list of bytes under any calls with any failures; the bounded string functions truncate as
    they document.
  \<^item> \<open>Poly1305\<close>: \<^verbatim>\<open>crypto/poly1305/poly1305.c\<close>, the variant for 64-bit ARM, and the polynomial of RFC 8439.
    \<open>Poly1305Digits\<close> relates the five digits to the number they stand for (no intermediate value overflows) and
    \<open>Poly1305Claims\<close> has the key, the tag and the theorems: the tag is right for any chunking of the data, but for at most 315
    values of the polynomial, where a carry of \<^verbatim>\<open>CRYPTO_poly1305_finish\<close> is lost; an input with such a value is exhibited.
  \<^item> \<open>ChaCha\<close>: \<^verbatim>\<open>crypto/chacha/chacha.c\<close> in its portable variant. Data of any length is combined with the key stream of
    the RFC, and decrypting inverts encrypting.

  \<^bold>\<open>Parameters.\<close> Code that the caller supplies is an argument of the definitions: allocation (a block of the requested size
  with any content, or failure), stream and field callbacks, comparison and copy functions, \<^verbatim>\<open>qsort\<close>. What a
  theorem needs of them is a named hypothesis (\<open>allocator_ok\<close>, \<open>cmp_ok\<close>, \<open>qsort_ok\<close>, \<open>callbacks_ok\<close>, \<open>callback_safe\<close>,
  \<open>ptr_alloc_ok\<close>, \<open>item_alloc_ok\<close>, \<open>lh_funs_ok\<close>, \<open>sys_malloc_ok\<close>), with a witness.

  \<^bold>\<open>Loops.\<close> They are structural recursions, or \<open>function\<close>s with a measure, wherever they always end; only the nesting of
  messages, the extension lists and the caller-made linked data of nanopb have a bound argument, with theorems on how much
  of it is enough.

  \<^bold>\<open>Not modelled.\<close> In the modelled files: functions that only release memory, the printf wrappers of \<^verbatim>\<open>mem.c\<close> and the
  variants for other platforms. The other ciphers, digests, public-key and TLS code of BoringSSL are beyond the data layer; gRPC
  and its C++ libraries, leveldb, the Objective-C code of Firebase and the Swift application are in other languages.
\<close>

end
